(* ===== verification/Prelude.thy ===== *)
theory Prelude
  imports Main "HOL-Library.Word" "HOL-Library.Product_Lexorder"
begin

text \<open>
  Shared vocabulary of the development: decimal printing of machine integers (the
  \<^verbatim>\<open>format!\<close> of the standard library), the 64-bit wrap-around of signed
  integers, and the collection of fallible results (a \<^verbatim>\<open>collect\<close> into a
  \<^verbatim>\<open>Result\<close>).  A Rust \<^verbatim>\<open>String\<close> is its sequence of UTF-8 bytes, a
  HOL \<^typ>\<open>string\<close>.
\<close>

named_theorems panic_free "facts that rule a panic branch out"

section \<open>Decimal printing\<close>

definition digit_char :: "nat \<Rightarrow> char" where
  "digit_char d = char_of (48 + d)"

fun show_nat :: "nat \<Rightarrow> string" where
  "show_nat n = (if n < 10 then [digit_char n]
     else show_nat (n div 10) @ [digit_char (n mod 10)])"

declare show_nat.simps [simp del]

definition show_int :: "int \<Rightarrow> string" where
  "show_int i = (if i < 0 then CHR ''-'' # show_nat (nat (- i)) else show_nat (nat i))"

definition read_digits :: "string \<Rightarrow> nat" where
  "read_digits s = foldl (\<lambda>acc c. 10 * acc + (of_char c - 48)) 0 s"

lemma of_char_digit_char [simp]: "d < 10 \<Longrightarrow> of_char (digit_char d) = 48 + d"
  by (simp add: digit_char_def)

lemma read_digits_snoc:
  "read_digits (s @ [c]) = 10 * read_digits s + (of_char c - 48)"
  by (simp add: read_digits_def)

lemma read_show_nat [simp]: "read_digits (show_nat n) = n"
proof (induction n rule: show_nat.induct)
  case (1 n)
  show ?case
  proof (cases "n < 10")
    case True
    then show ?thesis by (simp add: show_nat.simps [of n] read_digits_def)
  next
    case False
    with "1.IH" show ?thesis
      by (simp add: show_nat.simps [of n] read_digits_snoc)
  qed
qed

lemma show_nat_inj [simp]: "show_nat m = show_nat n \<longleftrightarrow> m = n"
  by (metis read_show_nat)

definition is_digit :: "char \<Rightarrow> bool" where
  "is_digit c \<longleftrightarrow> 48 \<le> (of_char c :: nat) \<and> (of_char c :: nat) \<le> 57"

lemma show_nat_digits: "\<forall>c \<in> set (show_nat n). is_digit c"
proof (induction n rule: show_nat.induct)
  case (1 n)
  then show ?case
    by (subst show_nat.simps) (auto simp: is_digit_def)
qed

lemma show_nat_nonempty [simp]: "show_nat n \<noteq> []"
  by (subst show_nat.simps) simp

lemma show_nat_hd: "\<exists>c cs. show_nat n = c # cs \<and> is_digit c"
  using show_nat_digits [of n] by (cases "show_nat n") auto

lemma show_int_inj [simp]: "show_int i = show_int j \<longleftrightarrow> i = j"
proof -
  have minus: "\<not> is_digit (CHR ''-'')" by (simp add: is_digit_def)
  have "show_nat m \<noteq> CHR ''-'' # s" for m s
    using show_nat_hd [of m] minus by auto
  then show ?thesis
    by (auto simp: show_int_def nat_eq_iff split: if_splits) (metis)+
qed

section \<open>Signed 64-bit arithmetic\<close>

definition in_i64 :: "int \<Rightarrow> bool" where
  "in_i64 x \<longleftrightarrow> - (2 ^ 63) \<le> x \<and> x < 2 ^ 63"

definition wrap_i64 :: "int \<Rightarrow> int" where
  "wrap_i64 x = (x + 2 ^ 63) mod 2 ^ 64 - 2 ^ 63"

definition try_into_i64 :: "int \<Rightarrow> int option" where
  "try_into_i64 x = (if in_i64 x then Some x else None)"

lemma wrap_i64_id [simp]: "in_i64 x \<Longrightarrow> wrap_i64 x = x"
  by (simp add: in_i64_def wrap_i64_def)

lemma wrap_i64_in [simp]: "in_i64 (wrap_i64 x)"
  by (simp add: in_i64_def wrap_i64_def)

section \<open>Collecting fallible results\<close>

fun traverse :: "('a \<Rightarrow> 'b option) \<Rightarrow> 'a list \<Rightarrow> 'b list option" where
  "traverse f [] = Some []"
| "traverse f (x # xs) =
     (case f x of None \<Rightarrow> None | Some y \<Rightarrow> map_option ((#) y) (traverse f xs))"

text \<open>The same for a result that carries its error: the first error stops the collection.\<close>

fun traverse_res :: "('a \<Rightarrow> 'e + 'b) \<Rightarrow> 'a list \<Rightarrow> 'e + 'b list" where
  "traverse_res f [] = Inr []"
| "traverse_res f (x # xs) =
     (case f x of Inl e \<Rightarrow> Inl e
      | Inr y \<Rightarrow> (case traverse_res f xs of Inl e \<Rightarrow> Inl e | Inr ys \<Rightarrow> Inr (y # ys)))"

lemma traverse_res_Inr_iff:
  "traverse_res f xs = Inr ys \<longleftrightarrow> list_all2 (\<lambda>x y. f x = Inr y) xs ys"
proof (induction xs arbitrary: ys)
  case (Cons x xs)
  show ?case
    by (cases "f x"; cases "traverse_res f xs")
      (auto simp: list_all2_Cons1 simp flip: Cons.IH)
qed auto

lemma traverse_res_isl_iff: "isl (traverse_res f xs) \<longleftrightarrow> (\<exists>x \<in> set xs. isl (f x))"
  by (induction xs) (auto split: sum.splits)

lemma traverse_None_iff: "traverse f xs = None \<longleftrightarrow> (\<exists>x \<in> set xs. f x = None)"
  by (induction xs) (auto split: option.splits)

lemma traverse_Some_map: "(\<And>x. x \<in> set xs \<Longrightarrow> f x = Some (g x)) \<Longrightarrow> traverse f xs = Some (map g xs)"
  by (induction xs) auto

lemma traverse_Some_nth:
  "traverse f xs = Some ys \<Longrightarrow> list_all2 (\<lambda>x y. f x = Some y) xs ys"
  by (induction xs arbitrary: ys) (auto split: option.splits)

lemma traverse_mem: "traverse f xs = Some ys \<Longrightarrow> y \<in> set ys \<Longrightarrow> \<exists>x \<in> set xs. f x = Some y"
  by (induction xs arbitrary: ys) (auto split: option.splits)

section \<open>Loops that may panic\<close>

text \<open>A \<^verbatim>\<open>for\<close> loop over a state whose body may panic (\<^const>\<open>None\<close>).\<close>

fun fold_opt :: "('a \<Rightarrow> 's \<Rightarrow> 's option) \<Rightarrow> 'a list \<Rightarrow> 's \<Rightarrow> 's option" where
  "fold_opt f [] s = Some s"
| "fold_opt f (x # xs) s = (case f x s of None \<Rightarrow> None | Some s' \<Rightarrow> fold_opt f xs s')"

lemma fold_opt_append [simp]:
  "fold_opt f (xs @ ys) s =
     (case fold_opt f xs s of None \<Rightarrow> None | Some s' \<Rightarrow> fold_opt f ys s')"
  by (induction xs arbitrary: s) (auto split: option.splits)

lemma fold_opt_total:
  "(\<And>x s. x \<in> set xs \<Longrightarrow> \<exists>s'. f x s = Some s') \<Longrightarrow> \<exists>s'. fold_opt f xs s = Some s'"
proof (induction xs arbitrary: s)
  case (Cons x xs)
  from Cons.prems obtain s' where "f x s = Some s'" by fastforce
  moreover obtain s'' where "fold_opt f xs s' = Some s''"
    using Cons.IH [of s'] Cons.prems by auto
  ultimately show ?case by simp
qed simp

section \<open>B-tree maps\<close>

text \<open>
  A \<^verbatim>\<open>BTreeMap\<close> whose iteration order matters is an association list sorted by key;
  a map that is only looked up is a partial function.
\<close>

fun bt_insert :: "'k::linorder \<Rightarrow> 'v \<Rightarrow> ('k \<times> 'v) list \<Rightarrow> ('k \<times> 'v) list" where
  "bt_insert k v [] = [(k, v)]"
| "bt_insert k v ((k', v') # m) =
     (if k < k' then (k, v) # (k', v') # m
      else if k = k' then (k, v) # m
      else (k', v') # bt_insert k v m)"

lemma map_of_bt_insert [simp]: "map_of (bt_insert k v m) = (map_of m)(k \<mapsto> v)"
  by (induction k v m rule: bt_insert.induct) (auto simp: fun_eq_iff)

lemma keys_bt_insert [simp]: "fst ` set (bt_insert k v m) = insert k (fst ` set m)"
  by (induction k v m rule: bt_insert.induct) auto

lemma sorted_bt_insert:
  "sorted_wrt (<) (map fst m) \<Longrightarrow> sorted_wrt (<) (map fst (bt_insert k v m))"
proof (induction k v m rule: bt_insert.induct)
  case (2 k v k' v' m)
  have "fst ` set (bt_insert k v m) = insert k (fst ` set m)" by simp
  then have "x \<in> set (bt_insert k v m) \<Longrightarrow> fst x = k \<or> fst x \<in> fst ` set m" for x by blast
  with 2 show ?case by fastforce
qed simp

lemma map_of_Some_keys: "map_of m k \<noteq> None \<longleftrightarrow> k \<in> fst ` set m"
  by (simp add: map_of_eq_None_iff)

definition bt_get_or :: "'v \<Rightarrow> ('k \<times> 'v) list \<Rightarrow> 'k \<Rightarrow> 'v" where
  "bt_get_or d m k = (case map_of m k of Some v \<Rightarrow> v | None \<Rightarrow> d)"

section \<open>Words accepted along labelled edges\<close>

fun edge_path :: "('n \<times> 'a \<times> 'n) set \<Rightarrow> 'n \<Rightarrow> 'a list \<Rightarrow> 'n \<Rightarrow> bool" where
  "edge_path E q [] r \<longleftrightarrow> q = r"
| "edge_path E q (a # w) r \<longleftrightarrow> (\<exists>p. (q, a, p) \<in> E \<and> edge_path E p w r)"

lemma edge_path_append:
  "edge_path E q (u @ v) r \<longleftrightarrow> (\<exists>p. edge_path E q u p \<and> edge_path E p v r)"
  by (induction u arbitrary: q) auto

definition deterministic :: "('n \<times> 'a \<times> 'n) set \<Rightarrow> bool" where
  "deterministic E \<longleftrightarrow> (\<forall>q a r s. (q, a, r) \<in> E \<longrightarrow> (q, a, s) \<in> E \<longrightarrow> r = s)"

lemma deterministicD: "deterministic E \<Longrightarrow> (q, a, r) \<in> E \<Longrightarrow> (q, a, s) \<in> E \<Longrightarrow> r = s"
  unfolding deterministic_def by blast

lemma deterministic_subset: "deterministic F \<Longrightarrow> E \<subseteq> F \<Longrightarrow> deterministic E"
  unfolding deterministic_def by blast

lemma edge_path_deterministic:
  "deterministic E \<Longrightarrow> edge_path E q w r \<Longrightarrow> edge_path E q w s \<Longrightarrow> r = s"
proof (induction w arbitrary: q)
  case (Cons a w)
  then obtain p p' where "(q, a, p) \<in> E" "edge_path E p w r" "(q, a, p') \<in> E" "edge_path E p' w s"
    by auto
  moreover from this Cons.prems(1) have "p = p'" by (auto simp: deterministic_def)
  ultimately show ?case using Cons.IH [of p] Cons.prems(1) by simp
qed simp

lemma edge_path_mono: "E \<subseteq> F \<Longrightarrow> edge_path E q w r \<Longrightarrow> edge_path F q w r"
  by (induction w arbitrary: q) auto

definition succ_rel :: "('n \<times> 'a \<times> 'n) set \<Rightarrow> ('n \<times> 'n) set" where
  "succ_rel E = (\<lambda>(q, a, r). (q, r)) ` E"

lemma succ_rel_iff: "(q, r) \<in> succ_rel E \<longleftrightarrow> (\<exists>a. (q, a, r) \<in> E)"
  by (force simp: succ_rel_def)

lemma reachable_step:
  "(s, q) \<in> (succ_rel E)\<^sup>* \<Longrightarrow> (q, a, p) \<in> E \<Longrightarrow> (s, p) \<in> (succ_rel E)\<^sup>*"
  by (rule rtrancl_into_rtrancl) (auto simp: succ_rel_iff)

lemma reachable_iff_path: "(q, r) \<in> (succ_rel E)\<^sup>* \<longleftrightarrow> (\<exists>w. edge_path E q w r)"
proof
  assume "(q, r) \<in> (succ_rel E)\<^sup>*"
  then show "\<exists>w. edge_path E q w r"
  proof (induction rule: converse_rtrancl_induct)
    case base
    then show ?case by (intro exI [of _ "[]"]) simp
  next
    case (step q p)
    then obtain a w where "(q, a, p) \<in> E" "edge_path E p w r" by (auto simp: succ_rel_iff)
    then show ?case by (intro exI [of _ "a # w"]) auto
  qed
next
  assume "\<exists>w. edge_path E q w r"
  then obtain w where "edge_path E q w r" ..
  then show "(q, r) \<in> (succ_rel E)\<^sup>*"
  proof (induction w arbitrary: q)
    case (Cons a w)
    then obtain p where "(q, p) \<in> succ_rel E" "(p, r) \<in> (succ_rel E)\<^sup>*"
      by (auto simp: succ_rel_iff)
    then show ?case by (rule converse_rtrancl_into_rtrancl)
  qed simp
qed

end
