(* ===== verification/Constraints.thy ===== *)
theory Constraints
  imports Prelude
begin

text \<open>
  The constraint language of \<^verbatim>\<open>src/constraints.rs\<close>: type variables, the
  manager of fresh variables, field labels and their variance, derived type variables,
  subtyping and addition constraints, constraint sets, and the conversions from the
  protobuf messages of \<^verbatim>\<open>data_formats/constraints.proto\<close>.

  A \<^verbatim>\<open>Tid\<close> of the IR library is the type parameter \<open>'tid\<close>; what the code
  asks of it (its printed form, its constructor) is an argument of the definitions that
  use it.  A \<^verbatim>\<open>usize\<close> is a \<^typ>\<open>nat\<close>, the signed offsets are
  \<^typ>\<open>int\<close>, and the counters of the variable manager are 64-bit words.  A
  \<^verbatim>\<open>BTreeSet\<close> is a set.
\<close>

section \<open>Type variables\<close>

record 'tid type_variable =
  tv_name :: string
  tv_cs_tag :: "'tid option"
  tv_is_global :: bool

definition with_tag :: "string \<Rightarrow> 'tid \<Rightarrow> 'tid type_variable" where
  "with_tag name tag = \<lparr>tv_name = name, tv_cs_tag = Some tag, tv_is_global = False\<rparr>"

definition new_global :: "string \<Rightarrow> 'tid type_variable" where
  "new_global name = \<lparr>tv_name = name, tv_cs_tag = None, tv_is_global = True\<rparr>"

definition tv_new :: "string \<Rightarrow> 'tid type_variable" where
  "tv_new name = \<lparr>tv_name = name, tv_cs_tag = None, tv_is_global = False\<rparr>"

definition tv_to_callee :: "'tid type_variable \<Rightarrow> 'tid type_variable" where
  "tv_to_callee tv =
     \<lparr>tv_name = tv_name tv, tv_cs_tag = None, tv_is_global = tv_is_global tv\<rparr>"

definition get_name :: "('tid \<Rightarrow> string) \<Rightarrow> 'tid type_variable \<Rightarrow> string" where
  "get_name show_tid tv =
     (case tv_cs_tag tv of
        Some tag \<Rightarrow> tv_name tv @ '':'' @ show_tid tag
      | None \<Rightarrow> tv_name tv)"

lemma tv_new_sel [simp]:
  "tv_name (tv_new n) = n" "tv_cs_tag (tv_new n) = None" "\<not> tv_is_global (tv_new n)"
  by (simp_all add: tv_new_def)

lemma tv_to_callee_sel [simp]:
  "tv_name (tv_to_callee tv) = tv_name tv" "tv_cs_tag (tv_to_callee tv) = None"
  "tv_is_global (tv_to_callee tv) = tv_is_global tv"
  by (simp_all add: tv_to_callee_def)

lemma tv_to_callee_idem [simp]: "tv_to_callee (tv_to_callee tv) = tv_to_callee tv"
  by (simp add: tv_to_callee_def)

lemma tv_to_callee_id_iff: "tv_to_callee tv = tv \<longleftrightarrow> tv_cs_tag tv = None"
  by (cases tv) (auto simp: tv_to_callee_def)

section \<open>The manager of ephemeral variables\<close>

record variable_manager =
  curr_id :: "64 word"
  lb_count :: "64 word"

definition vman_new :: variable_manager where
  "vman_new = \<lparr>curr_id = 0, lb_count = 0\<rparr>"

definition tau :: string where
  "tau = [CHR 0xCF, CHR 0x84]"

definition fresh :: "variable_manager \<Rightarrow> 'tid type_variable \<times> variable_manager" where
  "fresh vm =
     (let next_name = tau @ show_nat (unat (curr_id vm));
          vm' = vm\<lparr>curr_id := curr_id vm + 1\<rparr>
      in (tv_new next_name, vm'))"

definition fresh_loop_breaker ::
    "variable_manager \<Rightarrow> 'tid type_variable \<times> variable_manager" where
  "fresh_loop_breaker vm =
     (let next_name = ''loop_breaker'' @ show_nat (unat (curr_id vm));
          vm' = vm\<lparr>curr_id := curr_id vm + 1, lb_count := lb_count vm + 1\<rparr>
      in (tv_new next_name, vm'))"

definition num_generated_loop_breakers :: "variable_manager \<Rightarrow> 64 word" where
  "num_generated_loop_breakers vm = lb_count vm"

text \<open>A run of the manager: the requests made of it, one after the other.\<close>

datatype vman_request = Req_Fresh | Req_Loop_Breaker

fun serve :: "vman_request \<Rightarrow> variable_manager \<Rightarrow> 'tid type_variable \<times> variable_manager" where
  "serve Req_Fresh vm = fresh vm"
| "serve Req_Loop_Breaker vm = fresh_loop_breaker vm"

fun serve_all ::
    "vman_request list \<Rightarrow> variable_manager \<Rightarrow> 'tid type_variable list \<times> variable_manager" where
  "serve_all [] vm = ([], vm)"
| "serve_all (r # rs) vm =
     (let (tv, vm') = serve r vm; (tvs, vm'') = serve_all rs vm' in (tv # tvs, vm''))"

definition serve_prefix :: "vman_request \<Rightarrow> string" where
  "serve_prefix r = (case r of Req_Fresh \<Rightarrow> tau | Req_Loop_Breaker \<Rightarrow> ''loop_breaker'')"

lemma serve_name:
  "fst (serve r vm) = tv_new (serve_prefix r @ show_nat (unat (curr_id vm)))"
  by (cases r) (simp_all add: fresh_def fresh_loop_breaker_def serve_prefix_def Let_def)

lemma serve_curr_id [simp]: "curr_id (snd (serve r vm)) = curr_id vm + 1"
  by (cases r) (simp_all add: fresh_def fresh_loop_breaker_def Let_def)

lemma serve_all_length [simp]: "length (fst (serve_all rs vm)) = length rs"
  by (induction rs arbitrary: vm) (simp_all add: Let_def case_prod_beta)

lemma serve_all_nth:
  "i < length rs \<Longrightarrow>
   (fst (serve_all rs vm) :: 'tid type_variable list) ! i =
     tv_new (serve_prefix (rs ! i) @ show_nat (unat (curr_id vm + word_of_nat i)))"
proof (induction rs arbitrary: vm i)
  case Nil
  then show ?case by simp
next
  case (Cons r rs)
  let ?vm' = "snd (serve r vm :: 'tid type_variable \<times> variable_manager)"
  show ?case
  proof (cases i)
    case 0
    then show ?thesis by (simp add: Let_def case_prod_beta serve_name)
  next
    case (Suc j)
    with Cons.prems have "(fst (serve_all rs ?vm') :: 'tid type_variable list) ! j =
        tv_new (serve_prefix (rs ! j) @ show_nat (unat (curr_id ?vm' + word_of_nat j)))"
      by (intro Cons.IH) simp
    with Suc show ?thesis by (simp add: Let_def case_prod_beta add.assoc)
  qed
qed

lemma serve_prefix_split:
  "serve_prefix r @ show_nat m = serve_prefix s @ show_nat n \<Longrightarrow> m = n"
  by (cases r; cases s) (auto simp: serve_prefix_def tau_def)

lemma word_offset_inj:
  "i < 2 ^ 64 \<Longrightarrow> j < 2 ^ 64 \<Longrightarrow>
   (a :: 64 word) + word_of_nat i = a + word_of_nat j \<Longrightarrow> i = j"
proof -
  assume b: "i < 2 ^ 64" "j < 2 ^ 64" and eq: "a + word_of_nat i = a + word_of_nat j"
  from eq have "unat (word_of_nat i :: 64 word) = unat (word_of_nat j :: 64 word)" by simp
  with b show ?thesis by (simp add: unat_of_nat)
qed

text \<open>
  As long as the manager serves at most 2^64 requests, in any mix of fresh variables
  and loop breakers, the variables it hands out are pairwise distinct; the counter is
  shared by the two name spaces and wraps only after 2^64 requests.
\<close>

theorem fresh_variables_distinct:
  assumes "length rs \<le> 2 ^ 64"
  shows "distinct (fst (serve_all rs vm) :: 'tid type_variable list)"
proof (rule distinct_conv_nth [THEN iffD2], intro allI impI)
  fix i j
  assume i: "i < length (fst (serve_all rs vm) :: 'tid type_variable list)"
    and j: "j < length (fst (serve_all rs vm) :: 'tid type_variable list)" and "i \<noteq> j"
  show "(fst (serve_all rs vm) :: 'tid type_variable list) ! i \<noteq> fst (serve_all rs vm) ! j"
  proof
    assume "(fst (serve_all rs vm) :: 'tid type_variable list) ! i = fst (serve_all rs vm) ! j"
    then have "serve_prefix (rs ! i) @ show_nat (unat (curr_id vm + word_of_nat i)) =
        serve_prefix (rs ! j) @ show_nat (unat (curr_id vm + word_of_nat j))"
      using i j by (simp add: serve_all_nth) (metis tv_new_sel(1))
    then have "unat (curr_id vm + word_of_nat i) = unat (curr_id vm + word_of_nat j)"
      by (rule serve_prefix_split)
    then have "curr_id vm + word_of_nat i = curr_id vm + word_of_nat j"
      by (rule word_unat_eq_iff [THEN iffD2])
    then have "i = j" using i j assms by (intro word_offset_inj [of i j "curr_id vm"]) auto
    with \<open>i \<noteq> j\<close> show False ..
  qed
qed

theorem fresh_variables_distinct_witness:
  "distinct (fst (serve_all [Req_Fresh, Req_Loop_Breaker, Req_Fresh] vman_new)
     :: nat type_variable list)"
  by (rule fresh_variables_distinct) simp

section \<open>Field labels and variance\<close>

record field =
  offset :: int
  fsize :: nat

definition field_new :: "int \<Rightarrow> nat \<Rightarrow> field" where
  "field_new off sz = \<lparr>offset = off, fsize = sz\<rparr>"

datatype field_label =
  Load | Store | In nat | Out nat | Field field | Add int

datatype variance = Covariant | Contravariant

fun label_variance :: "field_label \<Rightarrow> variance" where
  "label_variance Load = Covariant"
| "label_variance Store = Contravariant"
| "label_variance (Field _) = Covariant"
| "label_variance (In _) = Contravariant"
| "label_variance (Out _) = Covariant"
| "label_variance (Add _) = Covariant"

definition operate :: "variance \<Rightarrow> variance \<Rightarrow> variance" where
  "operate l r = (if l = r then Covariant else Contravariant)"

definition variance_identity :: variance where
  "variance_identity = Covariant"

definition two_sided_inverse :: "variance \<Rightarrow> variance" where
  "two_sided_inverse v = Contravariant"

lemma operate_assoc: "operate (operate a b) c = operate a (operate b c)"
  by (cases a; cases b; cases c) (simp_all add: operate_def)

lemma operate_comm: "operate a b = operate b a"
  by (simp add: operate_def)

lemma operate_simps [simp]:
  "operate Covariant v = v" "operate v Covariant = v" "operate v v = Covariant"
  "operate v (operate v w) = w"
  by (cases v; cases w; simp add: operate_def)+

lemma operate_eq_Covariant_iff [simp]: "operate a b = Covariant \<longleftrightarrow> a = b"
  by (simp add: operate_def)

text \<open>
  The declared inverse of the sign monoid is not one: the covariant element has no
  inverse under it.
\<close>

lemma two_sided_inverse_not_inverse:
  "operate Covariant (two_sided_inverse Covariant) \<noteq> variance_identity"
  by (simp add: two_sided_inverse_def variance_identity_def)

definition sigma :: string where
  "sigma = [CHR 0xCF, CHR 0x83]"

definition show_field :: "field \<Rightarrow> string" where
  "show_field f = sigma @ show_nat (fsize f) @ ''@'' @ show_int (offset f)"

fun show_field_label :: "field_label \<Rightarrow> string" where
  "show_field_label Load = ''load''"
| "show_field_label Store = ''store''"
| "show_field_label (Add off) = ''+'' @ show_int off"
| "show_field_label (In ind) = ''in_'' @ show_nat ind"
| "show_field_label (Out ind) = ''out_'' @ show_nat ind"
| "show_field_label (Field f) = show_field f"

lemma show_nat_at_split:
  assumes "show_nat m @ CHR ''@'' # s = show_nat n @ CHR ''@'' # t"
  shows "m = n \<and> s = t"
proof -
  have tw: "takeWhile is_digit (show_nat k @ CHR ''@'' # u) = show_nat k" for k u
    using show_nat_digits [of k] by (simp add: takeWhile_append2 is_digit_def)
  from assms tw have "show_nat m = show_nat n" by metis
  with assms show ?thesis by simp
qed

lemma show_field_inj [simp]: "show_field f = show_field g \<longleftrightarrow> f = g"
proof
  assume "show_field f = show_field g"
  then have "fsize f = fsize g \<and> show_int (offset f) = show_int (offset g)"
    using show_nat_at_split [of "fsize f" "show_int (offset f)" "fsize g" "show_int (offset g)"]
    by (simp add: show_field_def)
  then show "f = g" by simp
qed simp

text \<open>
  Printing is injective on field labels, so two labels that print alike in a
  constraint file, a log or a sketch are the same capability.
\<close>

theorem show_field_label_injective: "show_field_label l = show_field_label l' \<longleftrightarrow> l = l'"
proof -
  have field_ne: "show_field f \<noteq> c # s" if "c \<noteq> CHR 0xCF" for f c s
    using that by (simp add: show_field_def sigma_def)
  show ?thesis
    by (cases l; cases l') (simp_all add: field_ne field_ne [symmetric])
qed

section \<open>Derived type variables\<close>

record 'tid dtv =
  dtv_var :: "'tid type_variable"
  dtv_labels :: "field_label list"

definition dtv_new :: "'tid type_variable \<Rightarrow> 'tid dtv" where
  "dtv_new base = \<lparr>dtv_var = base, dtv_labels = []\<rparr>"

definition create_with_path :: "'tid type_variable \<Rightarrow> field_label list \<Rightarrow> 'tid dtv" where
  "create_with_path base path = \<lparr>dtv_var = base, dtv_labels = path\<rparr>"

definition add_field_label :: "'tid dtv \<Rightarrow> field_label \<Rightarrow> 'tid dtv" where
  "add_field_label d lab = d\<lparr>dtv_labels := dtv_labels d @ [lab]\<rparr>"

definition create_with_label :: "'tid dtv \<Rightarrow> field_label \<Rightarrow> 'tid dtv" where
  "create_with_label d lab = (let n = d in add_field_label n lab)"

definition substitute_base :: "'tid dtv \<Rightarrow> 'tid type_variable \<Rightarrow> 'tid dtv" where
  "substitute_base d tv = d\<lparr>dtv_var := tv\<rparr>"

definition dtv_to_callee :: "'tid dtv \<Rightarrow> 'tid dtv" where
  "dtv_to_callee d = create_with_path (tv_to_callee (dtv_var d)) (dtv_labels d)"

definition has_add_field :: "'tid dtv \<Rightarrow> bool" where
  "has_add_field d \<longleftrightarrow>
     list_ex (\<lambda>x. case x of Add _ \<Rightarrow> True | _ \<Rightarrow> False) (dtv_labels d)"

definition is_prefix_of :: "'tid dtv \<Rightarrow> 'tid dtv \<Rightarrow> bool" where
  "is_prefix_of d other \<longleftrightarrow>
     dtv_var other = dtv_var d
     \<and> length (dtv_labels d) < length (dtv_labels other)
     \<and> list_all (\<lambda>(x, y). x = y) (zip (dtv_labels d) (dtv_labels other))"

text \<open>The \<^verbatim>\<open>reduce\<close> of the iterator: \<^const>\<open>None\<close> on no element, a left fold otherwise.\<close>

definition reduce_left :: "('a \<Rightarrow> 'a \<Rightarrow> 'a) \<Rightarrow> 'a list \<Rightarrow> 'a option" where
  "reduce_left f xs = (case xs of [] \<Rightarrow> None | y # ys \<Rightarrow> Some (foldl f y ys))"

definition path_variance :: "'tid dtv \<Rightarrow> variance" where
  "path_variance d =
     (case reduce_left operate (map label_variance (dtv_labels d)) of
        Some v \<Rightarrow> v | None \<Rightarrow> Covariant)"

definition is_formal_dtv :: "'tid dtv \<Rightarrow> bool" where
  "is_formal_dtv d \<longleftrightarrow> tv_cs_tag (dtv_var d) = None \<and> \<not> tv_is_global (dtv_var d)"

definition refers_to_in_parameter :: "'tid dtv \<Rightarrow> bool" where
  "refers_to_in_parameter d \<longleftrightarrow>
     (case dtv_labels d of In _ # _ \<Rightarrow> True | _ \<Rightarrow> False)"

definition refers_to_out_parameter :: "'tid dtv \<Rightarrow> bool" where
  "refers_to_out_parameter d \<longleftrightarrow>
     (case dtv_labels d of Out _ # _ \<Rightarrow> True | _ \<Rightarrow> False)"

definition is_in_parameter :: "'tid dtv \<Rightarrow> bool" where
  "is_in_parameter d \<longleftrightarrow> length (dtv_labels d) = 1 \<and> refers_to_in_parameter d"

definition is_out_parameter :: "'tid dtv \<Rightarrow> bool" where
  "is_out_parameter d \<longleftrightarrow> length (dtv_labels d) = 1 \<and> refers_to_out_parameter d"

definition refers_to_global :: "'tid dtv \<Rightarrow> bool" where
  "refers_to_global d \<longleftrightarrow> tv_is_global (dtv_var d)"

definition dtv_is_global :: "'tid dtv \<Rightarrow> bool" where
  "dtv_is_global d \<longleftrightarrow> dtv_labels d = [] \<and> refers_to_global d"

fun show_labels :: "field_label list \<Rightarrow> string" where
  "show_labels [] = []"
| "show_labels (l # ls) = CHR ''.'' # show_field_label l @ show_labels ls"

definition show_dtv :: "('tid \<Rightarrow> string) \<Rightarrow> 'tid dtv \<Rightarrow> string" where
  "show_dtv show_tid d = get_name show_tid (dtv_var d) @ show_labels (dtv_labels d)"

lemmas dtv_ops_defs =
  dtv_new_def create_with_path_def add_field_label_def create_with_label_def
  substitute_base_def dtv_to_callee_def

lemma dtv_new_sel [simp]: "dtv_var (dtv_new b) = b" "dtv_labels (dtv_new b) = []"
  by (simp_all add: dtv_new_def)

lemma create_with_path_sel [simp]:
  "dtv_var (create_with_path b p) = b" "dtv_labels (create_with_path b p) = p"
  by (simp_all add: create_with_path_def)

lemma add_field_label_sel [simp]:
  "dtv_var (add_field_label d l) = dtv_var d"
  "dtv_labels (add_field_label d l) = dtv_labels d @ [l]"
  by (simp_all add: add_field_label_def)

lemma create_with_label_eq [simp]: "create_with_label d l = add_field_label d l"
  by (simp add: create_with_label_def)

lemma create_with_path_id [simp]: "create_with_path (dtv_var d) (dtv_labels d) = d"
  by (simp add: create_with_path_def)

lemma dtv_eqI: "dtv_var d = dtv_var e \<Longrightarrow> dtv_labels d = dtv_labels e \<Longrightarrow> d = (e :: 'tid dtv)"
  by simp

text \<open>The sign of a word of labels, the specification of the loop above.\<close>

fun word_variance :: "field_label list \<Rightarrow> variance" where
  "word_variance [] = Covariant"
| "word_variance (l # ls) = operate (label_variance l) (word_variance ls)"

lemma word_variance_append [simp]:
  "word_variance (u @ v) = operate (word_variance u) (word_variance v)"
  by (induction u) (simp_all add: operate_assoc)

lemma foldl_operate: "foldl operate v vs = operate v (foldl operate Covariant vs)"
proof (induction vs arbitrary: v)
  case Nil
  then show ?case by simp
next
  case (Cons w vs)
  show ?case by (simp add: Cons [of "operate v w"] Cons [of w] operate_assoc)
qed

lemma path_variance_word: "path_variance d = word_variance (dtv_labels d)"
proof -
  have *: "foldl operate Covariant (map label_variance ls) = word_variance ls" for ls
  proof (induction ls)
    case (Cons l ls)
    then show ?case using foldl_operate [of "label_variance l"] by simp
  qed simp
  show ?thesis
  proof (cases "dtv_labels d")
    case (Cons l ls)
    then show ?thesis
      using foldl_operate [of "label_variance l"] * [of ls]
      by (simp add: path_variance_def reduce_left_def)
  qed (simp add: path_variance_def reduce_left_def)
qed

text \<open>
  A derived type variable is covariant exactly when an even number of its labels is
  contravariant (store and in parameters), the sign rule of the type system.
\<close>

theorem path_variance_parity:
  "path_variance d = Covariant \<longleftrightarrow>
     even (length (filter (\<lambda>l. label_variance l = Contravariant) (dtv_labels d)))"
proof -
  have "word_variance ls = Covariant \<longleftrightarrow>
      even (length (filter (\<lambda>l. label_variance l = Contravariant) ls))" for ls
    by (induction ls) (auto simp: operate_def, (metis variance.exhaust)+)
  then show ?thesis by (simp add: path_variance_word)
qed

lemma zip_all_eq_prefix:
  "length xs \<le> length ys \<Longrightarrow>
   list_all (\<lambda>(x, y). x = y) (zip xs ys) \<longleftrightarrow> (\<exists>zs. ys = xs @ zs)"
proof (induction xs arbitrary: ys)
  case (Cons x xs)
  then show ?case by (cases ys) auto
qed simp

text \<open>
  The prefix test decides the strict prefix order: same base variable, and the labels
  of the second variable extend those of the first by at least one label.
\<close>

theorem is_prefix_of_iff:
  "is_prefix_of d e \<longleftrightarrow>
     dtv_var e = dtv_var d \<and> (\<exists>l ls. dtv_labels e = dtv_labels d @ l # ls)"
proof -
  have "length (dtv_labels d) < length (dtv_labels e)
      \<and> list_all (\<lambda>(x, y). x = y) (zip (dtv_labels d) (dtv_labels e)) \<longleftrightarrow>
      (\<exists>l ls. dtv_labels e = dtv_labels d @ l # ls)"
    (is "?L \<longleftrightarrow> ?R")
  proof
    assume ?L
    then obtain zs where "dtv_labels e = dtv_labels d @ zs"
      using zip_all_eq_prefix [of "dtv_labels d" "dtv_labels e"] by auto
    with \<open>?L\<close> show ?R by (cases zs) auto
  next
    assume ?R
    then show ?L using zip_all_eq_prefix [of "dtv_labels d" "dtv_labels e"] by auto
  qed
  then show ?thesis by (auto simp: is_prefix_of_def)
qed

end
