(* ===== verification/ConstraintSets.thy ===== *)
theory ConstraintSets
  imports Constraints
begin

text \<open>
  Subtyping and addition constraints and sets of them (\<^verbatim>\<open>src/constraints.rs\<close>),
  and the fallible conversions from the protobuf messages that carry user-supplied
  constraints (\<^verbatim>\<open>data_formats/constraints.proto\<close>).  The decoder of the
  protobuf enumeration and the constructor of a \<^verbatim>\<open>Tid\<close> belong to generated and
  third-party code and are arguments.
\<close>

section \<open>Constraints\<close>

record 'tid subtype_constraint =
  sub_lhs :: "'tid dtv"
  sub_rhs :: "'tid dtv"

definition subtype_new :: "'tid dtv \<Rightarrow> 'tid dtv \<Rightarrow> 'tid subtype_constraint" where
  "subtype_new l r = \<lparr>sub_lhs = l, sub_rhs = r\<rparr>"

record 'tid add_constraint =
  lhs_ty :: "'tid dtv"
  rhs_ty :: "'tid dtv"
  repr_ty :: "'tid dtv"

definition add_constraint_new ::
    "'tid dtv \<Rightarrow> 'tid dtv \<Rightarrow> 'tid dtv \<Rightarrow> 'tid add_constraint" where
  "add_constraint_new l r res = \<lparr>lhs_ty = l, rhs_ty = r, repr_ty = res\<rparr>"

datatype 'tid ty_constraint =
  SubTy "'tid subtype_constraint" | AddCons "'tid add_constraint"

record 'tid additional_constraint =
  extra_constraint :: "'tid subtype_constraint"
  associated_variable :: 'tid

definition sqsubseteq :: string where
  "sqsubseteq = [CHR 0xE2, CHR 0x8A, CHR 0x91]"

definition show_subtype :: "('tid \<Rightarrow> string) \<Rightarrow> 'tid subtype_constraint \<Rightarrow> string" where
  "show_subtype sh s =
     show_dtv sh (sub_lhs s) @ '' '' @ sqsubseteq @ '' '' @ show_dtv sh (sub_rhs s)"

definition show_add :: "('tid \<Rightarrow> string) \<Rightarrow> 'tid add_constraint \<Rightarrow> string" where
  "show_add sh a = ''Add('' @ show_dtv sh (lhs_ty a) @ '','' @ show_dtv sh (rhs_ty a)
     @ '','' @ show_dtv sh (repr_ty a) @ '')''"

fun show_ty_constraint :: "('tid \<Rightarrow> string) \<Rightarrow> 'tid ty_constraint \<Rightarrow> string" where
  "show_ty_constraint sh (SubTy s) = show_subtype sh s"
| "show_ty_constraint sh (AddCons a) = show_add sh a"

lemma subtype_new_sel [simp]:
  "sub_lhs (subtype_new l r) = l" "sub_rhs (subtype_new l r) = r"
  by (simp_all add: subtype_new_def)

lemma subtype_new_id [simp]: "subtype_new (sub_lhs s) (sub_rhs s) = s"
  by (simp add: subtype_new_def)

lemma subtype_new_eq_iff [simp]: "subtype_new l r = subtype_new l' r' \<longleftrightarrow> l = l' \<and> r = r'"
  by (auto simp: subtype_new_def)

section \<open>Constraint sets\<close>

type_synonym 'tid constraint_set = "'tid ty_constraint set"

definition cs_empty :: "'tid constraint_set" where
  "cs_empty = {}"

definition cs_insert :: "'tid ty_constraint \<Rightarrow> 'tid constraint_set \<Rightarrow> 'tid constraint_set" where
  "cs_insert c cs = insert c cs"

definition cs_singleton :: "'tid subtype_constraint \<Rightarrow> 'tid constraint_set" where
  "cs_singleton c = (let emp = cs_empty in cs_insert (SubTy c) emp)"

definition insert_all :: "'tid constraint_set \<Rightarrow> 'tid constraint_set \<Rightarrow> 'tid constraint_set" where
  "insert_all self cons = self \<union> cons"

definition forget_add_constraints :: "'tid constraint_set \<Rightarrow> 'tid constraint_set" where
  "forget_add_constraints self =
     Set.filter (\<lambda>cons. case cons of
         AddCons _ \<Rightarrow> False
       | SubTy sty \<Rightarrow> \<not> has_add_field (sub_lhs sty) \<and> \<not> has_add_field (sub_lhs sty)) self"

fun constraint_variables :: "'tid ty_constraint \<Rightarrow> 'tid dtv list" where
  "constraint_variables (SubTy sty) = [sub_lhs sty, sub_rhs sty]"
| "constraint_variables (AddCons add) = [lhs_ty add, rhs_ty add, repr_ty add]"

definition cs_variables :: "'tid constraint_set \<Rightarrow> 'tid dtv set" where
  "cs_variables self = (\<Union>cons \<in> self. set (constraint_variables cons))"

definition constraint_set_to_subtys :: "'tid constraint_set \<Rightarrow> 'tid subtype_constraint set" where
  "constraint_set_to_subtys cs =
     (\<Union>x \<in> cs. case x of SubTy s \<Rightarrow> {s} | AddCons _ \<Rightarrow> {})"

lemma constraint_set_to_subtys_iff [simp]:
  "s \<in> constraint_set_to_subtys cs \<longleftrightarrow> SubTy s \<in> cs"
proof -
  have "s \<in> (case x of SubTy s \<Rightarrow> {s} | AddCons _ \<Rightarrow> {}) \<longleftrightarrow> x = SubTy s" for x
    by (cases x) auto
  then show ?thesis by (simp add: constraint_set_to_subtys_def)
qed

lemma constraint_set_to_subtys_insert_all:
  "constraint_set_to_subtys (insert_all a b) =
     constraint_set_to_subtys a \<union> constraint_set_to_subtys b"
  by (auto simp: insert_all_def)

text \<open>
  At the barrier between strongly connected components the filter drops every
  addition constraint and every subtyping constraint whose left side mentions an
  addition, and keeps every other one: the right side is not looked at.
\<close>

theorem forget_add_constraints_exact:
  "c \<in> forget_add_constraints cs \<longleftrightarrow>
     (\<exists>s. c = SubTy s \<and> c \<in> cs \<and> \<not> has_add_field (sub_lhs s))"
  by (cases c) (auto simp: forget_add_constraints_def)

text \<open>An addition on the right side alone passes the barrier.\<close>

lemma forget_add_constraints_keeps_rhs_add:
  "\<exists>s. SubTy s \<in> forget_add_constraints {SubTy s :: nat ty_constraint}
       \<and> has_add_field (sub_rhs s)"
proof -
  let ?x = "dtv_new (tv_new ''x'') :: nat dtv"
  let ?y = "create_with_path (tv_new ''y'') [Add 4] :: nat dtv"
  have "\<not> has_add_field ?x" and "has_add_field ?y"
    by (simp_all add: has_add_field_def)
  then have "SubTy (subtype_new ?x ?y) \<in> forget_add_constraints {SubTy (subtype_new ?x ?y)}
      \<and> has_add_field (sub_rhs (subtype_new ?x ?y))"
    by (simp add: forget_add_constraints_exact)
  then show ?thesis by blast
qed

section \<open>Conversions from protobuf messages\<close>

record pb_field =
  pb_bit_size :: "32 word"
  pb_byte_offset :: "32 word"

datatype pb_inner =
  PB_Ptr "32 word" | PB_InParam "32 word" | PB_OutParam "32 word" | PB_Field pb_field

record pb_field_label =
  pb_inner_type :: "pb_inner option"

record pb_dtv =
  pb_base_var :: string
  pb_field_labels :: "pb_field_label list"

record pb_subtyping_constraint =
  pb_lhs :: "pb_dtv option"
  pb_rhs :: "pb_dtv option"

record pb_tid =
  pb_tid_name :: string
  pb_tid_address :: string

record pb_additional_constraint =
  pb_sub_ty :: "pb_subtyping_constraint option"
  pb_target_variable :: "pb_tid option"

datatype pb_pointer = LoadUnspecified | Pb_Store

definition field_try_from :: "pb_field \<Rightarrow> string + field" where
  "field_try_from v =
     Inr \<lparr>offset = int (unat (pb_byte_offset v)), fsize = unat (pb_bit_size v)\<rparr>"

definition field_label_try_from ::
    "(32 word \<Rightarrow> pb_pointer option) \<Rightarrow> pb_field_label \<Rightarrow> string + field_label" where
  "field_label_try_from from_i32 v =
     (case pb_inner_type v of
        None \<Rightarrow> Inl ''No inner_type for field label''
      | Some (PB_Ptr ptr_ty) \<Rightarrow>
          (case (case from_i32 ptr_ty of Some p \<Rightarrow> p | None \<Rightarrow> LoadUnspecified) of
             LoadUnspecified \<Rightarrow> Inr Load
           | Pb_Store \<Rightarrow> Inr Store)
      | Some (PB_InParam idx) \<Rightarrow> Inr (In (unat idx))
      | Some (PB_OutParam idx) \<Rightarrow> Inr (Out (unat idx))
      | Some (PB_Field fld) \<Rightarrow>
          (case field_try_from fld of Inl e \<Rightarrow> Inl e | Inr fld' \<Rightarrow> Inr (Field fld')))"

definition dtv_try_from ::
    "(32 word \<Rightarrow> pb_pointer option) \<Rightarrow> pb_dtv \<Rightarrow> string + 'tid dtv" where
  "dtv_try_from from_i32 d =
     (case traverse_res (field_label_try_from from_i32) (pb_field_labels d) of
        Inl e \<Rightarrow> Inl e
      | Inr labels \<Rightarrow> Inr \<lparr>dtv_var = tv_new (pb_base_var d), dtv_labels = labels\<rparr>)"

definition subtype_try_from ::
    "(32 word \<Rightarrow> pb_pointer option) \<Rightarrow> pb_subtyping_constraint \<Rightarrow> string + 'tid subtype_constraint"
  where
  "subtype_try_from from_i32 v =
     (case (case pb_lhs v of None \<Rightarrow> Inl ''No lhs in dtv'' | Some d \<Rightarrow> dtv_try_from from_i32 d) of
        Inl e \<Rightarrow> Inl e
      | Inr lhs \<Rightarrow>
          (case (case pb_rhs v of None \<Rightarrow> Inl ''No rhs in dtv'' | Some d \<Rightarrow> dtv_try_from from_i32 d) of
             Inl e \<Rightarrow> Inl e
           | Inr rhs \<Rightarrow> Inr \<lparr>sub_lhs = lhs, sub_rhs = rhs\<rparr>))"

definition additional_try_from ::
    "(32 word \<Rightarrow> pb_pointer option) \<Rightarrow> (string \<Rightarrow> string \<Rightarrow> 'tid) \<Rightarrow>
     pb_additional_constraint \<Rightarrow> string + 'tid additional_constraint" where
  "additional_try_from from_i32 tid_create v =
     (case (case pb_sub_ty v of
              None \<Rightarrow> Inl ''No constraint in addsubty''
            | Some s \<Rightarrow> subtype_try_from from_i32 s) of
        Inl e \<Rightarrow> Inl e
      | Inr c \<Rightarrow>
          (case pb_target_variable v of
             None \<Rightarrow> Inl ''No tid in addsubty''
           | Some t \<Rightarrow> Inr \<lparr>extra_constraint = c,
                 associated_variable = tid_create (pb_tid_name t) (pb_tid_address t)\<rparr>))"

definition dtv_complete :: "pb_dtv \<Rightarrow> bool" where
  "dtv_complete d \<longleftrightarrow> list_all (\<lambda>l. pb_inner_type l \<noteq> None) (pb_field_labels d)"

lemma field_label_try_from_isl:
  "isl (field_label_try_from f l) \<longleftrightarrow> pb_inner_type l = None"
  by (auto simp: field_label_try_from_def field_try_from_def
      split: option.splits pb_inner.splits pb_pointer.splits)

lemma dtv_try_from_isl: "isl (dtv_try_from f d) \<longleftrightarrow> \<not> dtv_complete d"
proof -
  have "isl (dtv_try_from f d) \<longleftrightarrow> isl (traverse_res (field_label_try_from f) (pb_field_labels d))"
    by (simp add: dtv_try_from_def split: sum.splits)
  then show ?thesis
    by (auto simp: traverse_res_isl_iff field_label_try_from_isl dtv_complete_def list_all_iff)
qed

lemma dtv_try_from_cases:
  "dtv_try_from f d = Inl e \<Longrightarrow> \<not> dtv_complete d"
  "dtv_try_from f d = Inr r \<Longrightarrow> dtv_complete d"
  by (drule arg_cong [where f = isl], simp add: dtv_try_from_isl)+

lemma subtype_try_from_isl:
  "isl (subtype_try_from f v) \<longleftrightarrow>
     (case pb_lhs v of None \<Rightarrow> True | Some d \<Rightarrow> \<not> dtv_complete d)
     \<or> (case pb_rhs v of None \<Rightarrow> True | Some d \<Rightarrow> \<not> dtv_complete d)"
  by (auto simp: subtype_try_from_def dest: dtv_try_from_cases split: option.splits sum.splits)

text \<open>
  Decoding a user-supplied constraint fails exactly when a message part is missing:
  the constraint, its target, a side of it or the kind of one of its labels; no content
  of a complete message is rejected, unknown pointer kinds included.
\<close>

theorem additional_constraint_decodes_iff:
  "(\<exists>c :: 'tid additional_constraint. additional_try_from from_i32 tid_create v = Inr c) \<longleftrightarrow>
     (\<exists>s t l r. pb_sub_ty v = Some s \<and> pb_target_variable v = Some t
        \<and> pb_lhs s = Some l \<and> pb_rhs s = Some r \<and> dtv_complete l \<and> dtv_complete r)"
  (is "?L \<longleftrightarrow> ?R")
proof -
  have "?L \<longleftrightarrow> \<not> isl (additional_try_from from_i32 tid_create v)"
    by (metis isl_def sum.exhaust sum.disc(2))
  also have "\<dots> \<longleftrightarrow> (\<exists>s t. pb_sub_ty v = Some s \<and> pb_target_variable v = Some t
      \<and> \<not> isl (subtype_try_from from_i32 s :: string + 'tid subtype_constraint))"
    by (cases "pb_sub_ty v"; cases "pb_target_variable v")
      (auto simp: additional_try_from_def split: sum.splits)
  also have "\<dots> \<longleftrightarrow> ?R"
    by (auto simp: subtype_try_from_isl split: option.splits)
  finally show ?thesis .
qed

end
