(* ===== verification/GraphSearch.thy ===== *)
theory GraphSearch
  imports Prelude
begin

text \<open>
  The contract of the depth-first search of the graph library: \<^verbatim>\<open>Graph::from_edges\<close>
  builds a graph that has every endpoint as a node, and \<^verbatim>\<open>Dfs\<close> from a node yields
  the nodes reachable from it, each once.  The code under \<^verbatim>\<open>src/\<close> relies on
  nothing else of them; the definitions that use them take them as arguments.
\<close>

type_synonym dfs_fun = "(nat \<times> nat) list \<Rightarrow> nat \<Rightarrow> nat list"
type_synonym has_node_fun = "(nat \<times> nat) list \<Rightarrow> nat \<Rightarrow> bool"

locale graph_search =
  fixes dfs :: dfs_fun and has_node :: has_node_fun
  assumes dfs_reachable: "set (dfs es n) = {m. (n, m) \<in> (set es)\<^sup>*}"
    and dfs_distinct: "distinct (dfs es n)"
    and has_source: "(a, b) \<in> set es \<Longrightarrow> has_node es a"
    and has_target: "(a, b) \<in> set es \<Longrightarrow> has_node es b"
begin

lemma dfs_start: "n \<in> set (dfs es n)"
  by (simp add: dfs_reachable)

lemma dfs_closed: "m \<in> set (dfs es n) \<Longrightarrow> (m, k) \<in> set es \<Longrightarrow> k \<in> set (dfs es n)"
  by (auto simp: dfs_reachable intro: rtrancl_into_rtrancl)

lemma no_node_unreachable:
  assumes "\<not> has_node es n"
  shows "{m. (n, m) \<in> (set es)\<^sup>*} = {n}"
proof -
  have "m = n" if "(n, m) \<in> (set es)\<^sup>*" for m
    using that
  proof (cases rule: converse_rtranclE)
    case (step y)
    then show ?thesis using assms has_source by blast
  qed simp
  then show ?thesis by auto
qed

end

section \<open>A reference search\<close>

text \<open>
  An executable search that meets the contract, used to instantiate it: a stack of nodes
  to visit and a list of visited nodes.
\<close>

definition out_nodes :: "(nat \<times> nat) list \<Rightarrow> nat \<Rightarrow> nat list" where
  "out_nodes es n = map snd (filter (\<lambda>e. fst e = n) es)"

lemma set_out_nodes [simp]: "set (out_nodes es n) = {m. (n, m) \<in> set es}"
  by (force simp: out_nodes_def)

function ref_visit :: "(nat \<times> nat) list \<Rightarrow> nat list \<Rightarrow> nat list \<Rightarrow> nat list" where
  "ref_visit es [] seen = seen"
| "ref_visit es (n # stack) seen =
     (if n \<in> set seen then ref_visit es stack seen
      else ref_visit es (out_nodes es n @ stack) (n # seen))"
  by pat_completeness auto
termination
proof (relation "inv_image (finite_psubset <*lex*> less_than)
    (\<lambda>(es, stack, seen). (set (map fst es) - set seen, length stack))", goal_cases)
  case (3 es n stack seen)
  show ?case
  proof (cases "n \<in> set (map fst es)")
    case True
    with 3 show ?thesis by (auto simp: finite_psubset_def)
  next
    case False
    then have "out_nodes es n = []" by (force simp: out_nodes_def filter_empty_conv)
    with False show ?thesis by auto
  qed
qed auto

definition ref_dfs :: dfs_fun where
  "ref_dfs es n = rev (ref_visit es [n] [])"

definition ref_has_node :: has_node_fun where
  "ref_has_node es n \<longleftrightarrow> list_ex (\<lambda>(a, b). n \<le> a \<or> n \<le> b) es"

lemma ref_visit_distinct: "distinct seen \<Longrightarrow> distinct (ref_visit es stack seen)"
  by (induction es stack seen rule: ref_visit.induct) auto

lemma ref_visit_sound:
  "set (ref_visit es stack seen) \<subseteq> (set es)\<^sup>* `` set stack \<union> set seen"
proof (induction es stack seen rule: ref_visit.induct)
  case (2 es n stack seen)
  have "(set es)\<^sup>* `` set (out_nodes es n) \<subseteq> (set es)\<^sup>* `` {n}"
    by (auto intro: converse_rtrancl_into_rtrancl)
  with 2 show ?case by (auto split: if_splits) blast+
qed simp

lemma ref_visit_complete:
  "set seen \<subseteq> set (ref_visit es stack seen) \<and> set stack \<subseteq> set (ref_visit es stack seen)"
  by (induction es stack seen rule: ref_visit.induct) auto

lemma ref_visit_closed:
  "set es `` set seen \<subseteq> set stack \<union> set seen \<Longrightarrow>
   set es `` set (ref_visit es stack seen) \<subseteq> set (ref_visit es stack seen)"
proof (induction es stack seen rule: ref_visit.induct)
  case (2 es n stack seen)
  show ?case
  proof (cases "n \<in> set seen")
    case True
    with 2 show ?thesis by auto
  next
    case False
    have "set es `` set (n # seen) \<subseteq> set (out_nodes es n @ stack) \<union> set (n # seen)"
      using "2.prems" by auto
    with False 2 show ?thesis by simp
  qed
qed simp

lemma closed_rtrancl: "r `` X \<subseteq> X \<Longrightarrow> x \<in> X \<Longrightarrow> (x, y) \<in> r\<^sup>* \<Longrightarrow> y \<in> X"
  by (erule rtrancl_induct) auto

lemma ref_dfs_reachable: "set (ref_dfs es n) = {m. (n, m) \<in> (set es)\<^sup>*}"
proof
  show "set (ref_dfs es n) \<subseteq> {m. (n, m) \<in> (set es)\<^sup>*}"
    using ref_visit_sound [of es "[n]" "[]"] by (auto simp: ref_dfs_def)
  have "n \<in> set (ref_visit es [n] [])" using ref_visit_complete [of "[]" es "[n]"] by simp
  then show "{m. (n, m) \<in> (set es)\<^sup>*} \<subseteq> set (ref_dfs es n)"
    using closed_rtrancl [OF ref_visit_closed [of es "[]" "[n]"]] by (auto simp: ref_dfs_def)
qed

interpretation ref_search: graph_search ref_dfs ref_has_node
proof
  show "set (ref_dfs es n) = {m. (n, m) \<in> (set es)\<^sup>*}" for es n by (rule ref_dfs_reachable)
  show "distinct (ref_dfs es n)" for es n by (simp add: ref_dfs_def ref_visit_distinct)
  show "(a, b) \<in> set es \<Longrightarrow> ref_has_node es a" for a b es
    by (force simp: ref_has_node_def list_ex_iff)
  show "(a, b) \<in> set es \<Longrightarrow> ref_has_node es b" for a b es
    by (force simp: ref_has_node_def list_ex_iff)
qed

end
