(* ===== verification/DfaOps.thy ===== *)
theory DfaOps
  imports GraphSearch
begin

text \<open>
  The automata of \<^verbatim>\<open>src/solver/dfa_operations.rs\<close>.  A DFA has explicit edges and no
  sink: a missing edge rejects.  The product construction numbers pairs of states through
  an \<^verbatim>\<open>IdContext\<close> as it meets them; its \<^verbatim>\<open>expect\<close>s and assertions are
  the \<^const>\<open>None\<close> branches.  \<^verbatim>\<open>dfs\<close> and \<^verbatim>\<open>has_node\<close> are the graph
  library's search (theory \<open>GraphSearch\<close>).  The lemmas prove that intersection, union,
  complement and the emptiness test compute what they say on the accepted words.
\<close>

section \<open>Explicit automata\<close>

record 'a explicit_dfa =
  ent_id :: nat
  edges :: "(nat \<times> 'a \<times> nat) set"
  accept_indexes :: "nat set"
  all_indeces :: "nat set"

definition entry :: "'a explicit_dfa \<Rightarrow> nat" where
  "entry d = ent_id d"

definition accept_indices :: "'a explicit_dfa \<Rightarrow> nat list" where
  "accept_indices d = sorted_list_of_set (accept_indexes d)"

definition all_indices :: "'a explicit_dfa \<Rightarrow> nat list" where
  "all_indices d = sorted_list_of_set (all_indeces d)"

definition dfa_edges :: "('a::linorder) explicit_dfa \<Rightarrow> (nat \<times> 'a \<times> nat) list" where
  "dfa_edges d = sorted_list_of_set (edges d)"

section \<open>Numbering of states\<close>

record 'k id_context =
  cid :: nat
  mp :: "'k \<Rightarrow> nat option"

definition id_default :: "'k id_context" where
  "id_default = \<lparr>cid = 0, mp = Map.empty\<rparr>"

definition get_node :: "'k id_context \<Rightarrow> 'k \<Rightarrow> nat \<times> 'k id_context" where
  "get_node c nd =
     (case mp c nd of
        Some x \<Rightarrow> (x, c)
      | None \<Rightarrow> (let id = cid c in (id, c\<lparr>cid := cid c + 1, mp := (mp c)(nd \<mapsto> id)\<rparr>)))"

fun get_nodes :: "'k id_context \<Rightarrow> 'k list \<Rightarrow> nat list \<times> 'k id_context" where
  "get_nodes c [] = ([], c)"
| "get_nodes c (k # ks) =
     (let (i, c') = get_node c k; (is, c'') = get_nodes c' ks in (i # is, c''))"

section \<open>The operations\<close>

definition create_edge_map :: "('a::linorder) explicit_dfa \<Rightarrow> (nat \<times> ('a \<times> nat) list) list" where
  "create_edge_map d =
     foldl (\<lambda>m (src, s, dst). bt_insert src (bt_insert s dst (bt_get_or [] m src)) m)
       [] (dfa_edges d)"

definition get_reachable_idxs ::
    "dfs_fun \<Rightarrow> has_node_fun \<Rightarrow> ('a::linorder) explicit_dfa \<Rightarrow> nat set" where
  "get_reachable_idxs dfs has_node lhs =
     (let g = map (\<lambda>(src, _, dst). (src, dst)) (dfa_edges lhs)
      in if has_node g (entry lhs) then set (dfs g (entry lhs)) else {entry lhs})"

definition minimize ::
    "dfs_fun \<Rightarrow> has_node_fun \<Rightarrow> ('a::linorder) explicit_dfa \<Rightarrow> 'a explicit_dfa" where
  "minimize dfs has_node lhs =
     (let reached_idxs = get_reachable_idxs dfs has_node lhs;
          accepts = set (filter (\<lambda>x. x \<in> reached_idxs) (accept_indices lhs));
          new_edges = set (filter (\<lambda>(src, _, dst). src \<in> reached_idxs \<and> dst \<in> reached_idxs)
                             (dfa_edges lhs))
      in \<lparr>ent_id = entry lhs, edges = new_edges, accept_indexes = accepts,
          all_indeces = reached_idxs\<rparr>)"

text \<open>The body of the loop over the letters that leave a pair of states.\<close>

definition product_letter ::
    "('a::linorder \<times> nat) list \<Rightarrow> ('a \<times> nat) list \<Rightarrow> nat \<times> nat \<Rightarrow> 'a \<Rightarrow>
     (nat \<times> nat) id_context \<times> (nat \<times> 'a \<times> nat) set \<Rightarrow>
     ((nat \<times> nat) id_context \<times> (nat \<times> 'a \<times> nat) set) option" where
  "product_letter lhs_edges rhs_edges pair a st =
     (case st of (cont, new_edges) \<Rightarrow>
        (case map_of lhs_edges a of
           None \<Rightarrow> None
         | Some lhs_target \<Rightarrow>
             (case map_of rhs_edges a of
                None \<Rightarrow> None
              | Some rhs_target \<Rightarrow>
                  (let (new_src, cont1) = get_node cont pair;
                       (new_dst, cont2) = get_node cont1 (lhs_target, rhs_target)
                   in Some (cont2, insert (new_src, a, new_dst) new_edges)))))"

definition product_pair ::
    "(nat \<times> ('a::linorder \<times> nat) list) list \<Rightarrow> (nat \<times> ('a \<times> nat) list) list \<Rightarrow> nat \<times> nat \<Rightarrow>
     (nat \<times> nat) id_context \<times> (nat \<times> 'a \<times> nat) set \<Rightarrow>
     ((nat \<times> nat) id_context \<times> (nat \<times> 'a \<times> nat) set) option" where
  "product_pair lhs_edge_map rhs_edge_map pair st =
     (let lhs_edges = bt_get_or [] lhs_edge_map (fst pair);
          rhs_edges = bt_get_or [] rhs_edge_map (snd pair)
      in fold_opt (product_letter lhs_edges rhs_edges pair)
           (map fst lhs_edges @ map fst rhs_edges) st)"

definition cartesian_product_internal ::
    "('a::linorder) explicit_dfa \<Rightarrow> 'a explicit_dfa \<Rightarrow> bool \<Rightarrow> 'a explicit_dfa option" where
  "cartesian_product_internal lhs rhs should_accept_nodes_with_one_reject =
     (if all_indices lhs = [] \<or> all_indices rhs = [] then None
      else
        let lhs_edge_map = create_edge_map lhs;
            rhs_edge_map = create_edge_map rhs;
            (ent, cont0) = get_node id_default (entry lhs, entry rhs);
            lhs_idxs = all_indices lhs;
            rhs_idxs = all_indices rhs
        in case fold_opt (product_pair lhs_edge_map rhs_edge_map)
                  (List.product lhs_idxs rhs_idxs) (cont0, {}) of
             None \<Rightarrow> None
           | Some (cont1, new_edges) \<Rightarrow>
               let accept_pairs =
                     (if \<not> should_accept_nodes_with_one_reject
                      then List.product (accept_indices lhs) (accept_indices rhs)
                      else List.product (accept_indices lhs) rhs_idxs
                           @ List.product lhs_idxs (accept_indices rhs));
                   (accepts, cont2) = get_nodes cont1 accept_pairs;
                   (alls, cont3) = get_nodes cont2 (List.product lhs_idxs rhs_idxs)
               in if alls = [] then None
                  else Some \<lparr>ent_id = ent, edges = new_edges,
                             accept_indexes = set accepts, all_indeces = set alls\<rparr>)"

definition intersection ::
    "dfs_fun \<Rightarrow> has_node_fun \<Rightarrow> ('a::linorder) explicit_dfa \<Rightarrow> 'a explicit_dfa \<Rightarrow>
     'a explicit_dfa option" where
  "intersection dfs has_node lhs rhs =
     map_option (minimize dfs has_node) (cartesian_product_internal lhs rhs False)"

definition union ::
    "dfs_fun \<Rightarrow> has_node_fun \<Rightarrow> ('a::linorder) explicit_dfa \<Rightarrow> 'a explicit_dfa \<Rightarrow>
     'a explicit_dfa option" where
  "union dfs has_node lhs rhs =
     map_option (minimize dfs has_node) (cartesian_product_internal lhs rhs True)"

definition complement :: "('a::linorder) explicit_dfa \<Rightarrow> 'a explicit_dfa" where
  "complement lhs =
     (let all = set (all_indices lhs); accepts = set (accept_indices lhs)
      in \<lparr>ent_id = entry lhs, edges = set (dfa_edges lhs),
          accept_indexes = all - accepts, all_indeces = all\<rparr>)"

definition is_empty_language ::
    "dfs_fun \<Rightarrow> has_node_fun \<Rightarrow> ('a::linorder) explicit_dfa \<Rightarrow> bool" where
  "is_empty_language dfs has_node lhs =
     (let reached = get_reachable_idxs dfs has_node lhs
      in \<not> list_ex (\<lambda>aidx. aidx \<in> reached) (accept_indices lhs))"

section \<open>Languages\<close>

definition accepts :: "'a explicit_dfa \<Rightarrow> 'a list \<Rightarrow> bool" where
  "accepts d w \<longleftrightarrow> (\<exists>q \<in> accept_indexes d. edge_path (edges d) (ent_id d) w q)"

definition dfa_wf :: "'a explicit_dfa \<Rightarrow> bool" where
  "dfa_wf d \<longleftrightarrow> finite (edges d) \<and> finite (all_indeces d) \<and> deterministic (edges d)
     \<and> ent_id d \<in> all_indeces d \<and> accept_indexes d \<subseteq> all_indeces d
     \<and> (\<forall>(q, a, r) \<in> edges d. q \<in> all_indeces d \<and> r \<in> all_indeces d)"

definition complete_over :: "'a set \<Rightarrow> 'a explicit_dfa \<Rightarrow> bool" where
  "complete_over A d \<longleftrightarrow>
     (\<forall>q \<in> all_indeces d. \<forall>a. (\<exists>r. (q, a, r) \<in> edges d) \<longleftrightarrow> a \<in> A)"

lemma dfa_wfD:
  assumes "dfa_wf d"
  shows "finite (edges d)" "finite (all_indeces d)" "finite (accept_indexes d)"
    "deterministic (edges d)" "ent_id d \<in> all_indeces d" "accept_indexes d \<subseteq> all_indeces d"
    "(q, a, r) \<in> edges d \<Longrightarrow> q \<in> all_indeces d" "(q, a, r) \<in> edges d \<Longrightarrow> r \<in> all_indeces d"
  using assms unfolding dfa_wf_def by (auto intro: finite_subset)

lemma set_dfa_views:
  assumes "dfa_wf d"
  shows "set (dfa_edges d) = edges d" "set (all_indices d) = all_indeces d"
    "set (accept_indices d) = accept_indexes d"
  using dfa_wfD [OF assms] by (simp_all add: dfa_edges_def all_indices_def accept_indices_def)

lemma path_in_all:
  "dfa_wf d \<Longrightarrow> q \<in> all_indeces d \<Longrightarrow> edge_path (edges d) q w r \<Longrightarrow> r \<in> all_indeces d"
proof (induction w arbitrary: q)
  case (Cons a w)
  then obtain p where "(q, a, p) \<in> edges d" "edge_path (edges d) p w r" by auto
  with Cons show ?case by (auto dest: dfa_wfD(8))
qed simp

lemma complete_path_exists:
  assumes "dfa_wf d" "complete_over A d"
  shows "q \<in> all_indeces d \<Longrightarrow> (\<exists>r. edge_path (edges d) q w r) \<longleftrightarrow> set w \<subseteq> A"
proof (induction w arbitrary: q)
  case (Cons a w)
  have "(\<exists>r. edge_path (edges d) q (a # w) r) \<longleftrightarrow>
      (\<exists>p. (q, a, p) \<in> edges d \<and> (\<exists>r. edge_path (edges d) p w r))" by auto
  also have "\<dots> \<longleftrightarrow> (\<exists>p. (q, a, p) \<in> edges d) \<and> set w \<subseteq> A"
    using Cons.IH dfa_wfD(8) [OF assms(1)] by blast
  finally show ?case using assms(2) Cons.prems by (auto simp: complete_over_def)
next
  case Nil
  show ?case by simp
qed

section \<open>The edge map\<close>

lemma edge_map_lookup_aux:
  assumes "deterministic (set es)"
  shows "map_of (bt_get_or [] (foldl (\<lambda>m (src, s, dst).
      bt_insert src (bt_insert s dst (bt_get_or [] m src)) m) [] es) q) a = Some r
    \<longleftrightarrow> (q, a, r) \<in> set es"
  using assms
proof (induction es arbitrary: q a r rule: rev_induct)
  case Nil
  then show ?case by (simp add: bt_get_or_def)
next
  case (snoc e es)
  obtain src s dst where e: "e = (src, s, dst)" by (cases e)
  have det: "deterministic (set es)" using snoc.prems by (rule deterministic_subset) auto
  let ?m = "foldl (\<lambda>m (src, s, dst). bt_insert src (bt_insert s dst (bt_get_or [] m src)) m) [] es"
  have "map_of (bt_get_or [] (bt_insert src (bt_insert s dst (bt_get_or [] ?m src)) ?m) q) a =
      (if q = src \<and> a = s then Some dst else map_of (bt_get_or [] ?m q) a)"
    by (simp add: bt_get_or_def)
  then have lookup: "map_of (bt_get_or [] (foldl (\<lambda>m (src, s, dst).
      bt_insert src (bt_insert s dst (bt_get_or [] m src)) m) [] (es @ [e])) q) a =
      (if q = src \<and> a = s then Some dst else map_of (bt_get_or [] ?m q) a)"
    by (simp add: e)
  have uniq: "(src, s, r') \<in> set es \<Longrightarrow> r' = dst" for r'
    using deterministicD [OF snoc.prems, of src s r' dst] e by simp
  show ?case
  proof (cases "q = src \<and> a = s")
    case True
    then show ?thesis using lookup uniq [of r] e by auto
  next
    case False
    then show ?thesis using lookup snoc.IH [OF det, of q a r] e by auto
  qed
qed

lemma edge_map_lookup:
  assumes "dfa_wf d"
  shows "map_of (bt_get_or [] (create_edge_map d) q) a = Some r \<longleftrightarrow> (q, a, r) \<in> edges d"
  using edge_map_lookup_aux [of "dfa_edges d"] dfa_wfD(4) [OF assms]
  by (simp add: create_edge_map_def set_dfa_views [OF assms])

lemma edge_map_keys:
  assumes "dfa_wf d"
  shows "a \<in> fst ` set (bt_get_or [] (create_edge_map d) q) \<longleftrightarrow> (\<exists>r. (q, a, r) \<in> edges d)"
  using edge_map_lookup [OF assms, of q a]
  by (metis map_of_Some_keys not_None_eq)

section \<open>The numbering is injective\<close>

definition id_inv :: "'k id_context \<Rightarrow> bool" where
  "id_inv c \<longleftrightarrow> (\<forall>k i. mp c k = Some i \<longrightarrow> i < cid c)
     \<and> (\<forall>k k' i. mp c k = Some i \<longrightarrow> mp c k' = Some i \<longrightarrow> k = k')"

definition id_of :: "'k id_context \<Rightarrow> 'k \<Rightarrow> nat" where
  "id_of c k = the (mp c k)"

lemma id_inv_default [simp]: "id_inv id_default"
  by (simp add: id_inv_def id_default_def)

lemma get_node_spec:
  assumes "id_inv c" and "get_node c k = (i, c')"
  shows "id_inv c'" "mp c \<subseteq>\<^sub>m mp c'" "mp c' k = Some i" "dom (mp c') = insert k (dom (mp c))"
proof -
  have "id_inv c' \<and> mp c \<subseteq>\<^sub>m mp c' \<and> mp c' k = Some i \<and> dom (mp c') = insert k (dom (mp c))"
  proof (cases "mp c k")
    case None
    with assms(2) have c': "c' = c\<lparr>cid := cid c + 1, mp := (mp c)(k \<mapsto> cid c)\<rparr>" "i = cid c"
      by (auto simp: get_node_def Let_def)
    have "mp c k' = Some j \<Longrightarrow> j < cid c" for k' j using assms(1) by (simp add: id_inv_def)
    then have "id_inv c'"
      using assms(1) c' by (fastforce simp: id_inv_def intro: less_SucI)
    with None c' show ?thesis by (auto simp: map_le_def)
  next
    case (Some x)
    with assms show ?thesis by (auto simp: get_node_def)
  qed
  then show "id_inv c'" "mp c \<subseteq>\<^sub>m mp c'" "mp c' k = Some i" "dom (mp c') = insert k (dom (mp c))"
    by simp_all
qed

lemma get_nodes_spec:
  assumes "id_inv c" and "get_nodes c ks = (is, c')"
  shows "id_inv c' \<and> mp c \<subseteq>\<^sub>m mp c' \<and> is = map (id_of c') ks
    \<and> dom (mp c') = set ks \<union> dom (mp c)"
  using assms
proof (induction ks arbitrary: c "is")
  case (Cons k ks)
  obtain i c1 where g: "get_node c k = (i, c1)" by force
  obtain js where gs: "get_nodes c1 ks = (js, c')" and "is": "is = i # js"
    using Cons.prems(2) g by (auto simp: Let_def split: prod.splits)
  note c1 = get_node_spec [OF Cons.prems(1) g]
  have IH: "id_inv c' \<and> mp c1 \<subseteq>\<^sub>m mp c' \<and> js = map (id_of c') ks
      \<and> dom (mp c') = set ks \<union> dom (mp c1)"
    by (rule Cons.IH [OF c1(1) gs])
  have "mp c' k = Some i" using IH c1(3) by (metis domI map_le_def)
  with IH c1 "is" show ?case by (auto simp: id_of_def intro: map_le_trans)
qed simp

lemma id_of_le: "mp c \<subseteq>\<^sub>m mp c' \<Longrightarrow> k \<in> dom (mp c) \<Longrightarrow> id_of c' k = id_of c k"
  by (simp add: map_le_def id_of_def)

lemma id_of_inj: "id_inv c \<Longrightarrow> inj_on (id_of c) (dom (mp c))"
  by (auto simp: inj_on_def id_of_def id_inv_def)

section \<open>The product loop\<close>

text \<open>
  The edges collected so far are the image, under the numbering, of a set of edges
  between pairs of states; growing the numbering does not change them.
\<close>

type_synonym 'a pair_edge = "(nat \<times> nat) \<times> 'a \<times> (nat \<times> nat)"

definition number_edge :: "(nat \<times> nat) id_context \<Rightarrow> 'a pair_edge \<Rightarrow> nat \<times> 'a \<times> nat" where
  "number_edge c e = (case e of (p, a, q) \<Rightarrow> (id_of c p, a, id_of c q))"

definition edges_numbered ::
    "(nat \<times> nat) id_context \<Rightarrow> 'a pair_edge set \<Rightarrow> (nat \<times> 'a \<times> nat) set \<Rightarrow> bool" where
  "edges_numbered c S es \<longleftrightarrow> id_inv c \<and> es = number_edge c ` S
     \<and> (\<forall>(p, a, q) \<in> S. p \<in> dom (mp c) \<and> q \<in> dom (mp c))"

lemma edges_numbered_mono:
  assumes "edges_numbered c S es" "id_inv c'" "mp c \<subseteq>\<^sub>m mp c'"
  shows "edges_numbered c' S es"
proof -
  have "number_edge c' e = number_edge c e" if "e \<in> S" for e
  proof -
    obtain p a q where e: "e = (p, a, q)" by (cases e)
    with assms(1) that have "p \<in> dom (mp c)" "q \<in> dom (mp c)" by (auto simp: edges_numbered_def)
    with e assms(3) show ?thesis by (simp add: number_edge_def id_of_le)
  qed
  then have "number_edge c' ` S = number_edge c ` S" by (rule image_cong [OF refl])
  moreover have "es = number_edge c ` S" "\<forall>(p, a, q) \<in> S. p \<in> dom (mp c) \<and> q \<in> dom (mp c)"
    using assms(1) by (simp_all add: edges_numbered_def)
  ultimately show ?thesis
    using assms(2) map_le_implies_dom_le [OF assms(3)]
    unfolding edges_numbered_def by blast
qed

lemma product_letter_Some:
  assumes "product_letter le re pr a (c, es) = Some (c', es')" and inv: "edges_numbered c S es"
  obtains lt rt where "map_of le a = Some lt" "map_of re a = Some rt"
    "edges_numbered c' (insert (pr, a, (lt, rt)) S) es'" "mp c \<subseteq>\<^sub>m mp c'"
    "dom (mp c') = insert pr (insert (lt, rt) (dom (mp c)))"
proof -
  from assms(1) obtain lt rt where lr: "map_of le a = Some lt" "map_of re a = Some rt"
    by (auto simp: product_letter_def split: option.splits)
  obtain i c1 where g1: "get_node c pr = (i, c1)" by force
  obtain j c2 where g2: "get_node c1 (lt, rt) = (j, c2)" by force
  from assms(1) lr g1 g2 have eq: "c' = c2" "es' = insert (i, a, j) es"
    by (auto simp: product_letter_def Let_def)
  have "id_inv c" using inv by (simp add: edges_numbered_def)
  note s1 = get_node_spec [OF this g1]
  note s2 = get_node_spec [OF s1(1) g2]
  have le: "mp c \<subseteq>\<^sub>m mp c2" using s1(2) s2(2) by (rule map_le_trans)
  have "mp c2 pr = Some i" using s1(3) s2(2) by (metis domI map_le_def)
  then have "number_edge c2 (pr, a, (lt, rt)) = (i, a, j)"
    using s2(3) by (simp add: number_edge_def id_of_def)
  then have "edges_numbered c2 (insert (pr, a, (lt, rt)) S) (insert (i, a, j) es)"
    using edges_numbered_mono [OF inv s2(1) le] s1(4) s2(4)
    by (auto simp: edges_numbered_def)
  with that lr eq le s1(4) s2(4) show ?thesis by auto
qed

lemma product_letters_Some:
  "fold_opt (product_letter le re pr) as (c, es) = Some (c', es') \<Longrightarrow> edges_numbered c S es \<Longrightarrow>
   (\<forall>a \<in> set as. map_of le a \<noteq> None \<and> map_of re a \<noteq> None)
   \<and> edges_numbered c' (S \<union> {(pr, b, (lt, rt)) | b lt rt.
        b \<in> set as \<and> map_of le b = Some lt \<and> map_of re b = Some rt}) es'
   \<and> mp c \<subseteq>\<^sub>m mp c'
   \<and> dom (mp c') \<subseteq> dom (mp c) \<union> insert pr {(lt, rt) | b lt rt.
        map_of le b = Some lt \<and> map_of re b = Some rt}"
proof (induction as arbitrary: c es S)
  case (Cons a as)
  from Cons.prems(1) obtain c1 es1 where
    step: "product_letter le re pr a (c, es) = Some (c1, es1)" and
    rest: "fold_opt (product_letter le re pr) as (c1, es1) = Some (c', es')"
    by (auto split: option.splits)
  from product_letter_Some [OF step Cons.prems(2)] obtain lt rt where
    lr: "map_of le a = Some lt" "map_of re a = Some rt" and
    inv: "edges_numbered c1 (insert (pr, a, (lt, rt)) S) es1" and
    le: "mp c \<subseteq>\<^sub>m mp c1" and dm: "dom (mp c1) = insert pr (insert (lt, rt) (dom (mp c)))"
    by blast
  have "insert (pr, a, (lt, rt)) S \<union> {(pr, b, (lt, rt)) | b lt rt.
        b \<in> set as \<and> map_of le b = Some lt \<and> map_of re b = Some rt}
      = S \<union> {(pr, b, (lt, rt)) | b lt rt.
        b \<in> set (a # as) \<and> map_of le b = Some lt \<and> map_of re b = Some rt}"
    using lr by auto
  then have IH: "\<forall>a \<in> set as. map_of le a \<noteq> None \<and> map_of re a \<noteq> None"
    "edges_numbered c' (S \<union> {(pr, b, (lt, rt)) | b lt rt.
        b \<in> set (a # as) \<and> map_of le b = Some lt \<and> map_of re b = Some rt}) es'"
    "mp c1 \<subseteq>\<^sub>m mp c'"
    "dom (mp c') \<subseteq> dom (mp c1) \<union> insert pr {(lt, rt) | b lt rt.
        map_of le b = Some lt \<and> map_of re b = Some rt}"
    using Cons.IH [OF rest inv] by simp_all
  have "dom (mp c') \<subseteq> dom (mp c) \<union> insert pr {(lt, rt) | b lt rt.
        map_of le b = Some lt \<and> map_of re b = Some rt}"
    using IH(4) dm lr by blast
  with IH(1-3) lr le show ?case by (simp add: map_le_trans [OF le])
qed auto

definition pair_edges ::
    "'a explicit_dfa \<Rightarrow> 'a explicit_dfa \<Rightarrow> (nat \<times> nat) set \<Rightarrow> 'a pair_edge set" where
  "pair_edges l r P =
     {((p, q), a, (p', q')) | p q a p' q'.
        (p, q) \<in> P \<and> (p, a, p') \<in> edges l \<and> (q, a, q') \<in> edges r}"

definition same_letters :: "'a explicit_dfa \<Rightarrow> 'a explicit_dfa \<Rightarrow> nat \<times> nat \<Rightarrow> bool" where
  "same_letters l r pr \<longleftrightarrow>
     (\<forall>a. (\<exists>x. (fst pr, a, x) \<in> edges l) \<longleftrightarrow> (\<exists>x. (snd pr, a, x) \<in> edges r))"

lemma product_pair_Some:
  assumes wf: "dfa_wf l" "dfa_wf r"
    and run: "product_pair (create_edge_map l) (create_edge_map r) pr (c, es) = Some (c', es')"
    and inv: "edges_numbered c S es"
  shows "same_letters l r pr" "edges_numbered c' (S \<union> pair_edges l r {pr}) es'"
    "mp c \<subseteq>\<^sub>m mp c'"
proof -
  define le where "le = bt_get_or [] (create_edge_map l) (fst pr)"
  define re where "re = bt_get_or [] (create_edge_map r) (snd pr)"
  have run': "fold_opt (product_letter le re pr) (map fst le @ map fst re) (c, es) = Some (c', es')"
    using run by (simp add: product_pair_def Let_def le_def re_def del: fold_opt_append)
  have lookup: "map_of le a = Some x \<longleftrightarrow> (fst pr, a, x) \<in> edges l"
      "map_of re a = Some x \<longleftrightarrow> (snd pr, a, x) \<in> edges r" for a x
    using edge_map_lookup wf by (simp_all add: le_def re_def)
  have keys: "a \<in> set (map fst le @ map fst re) \<longleftrightarrow> map_of le a \<noteq> None \<or> map_of re a \<noteq> None" for a
    by (simp add: map_of_eq_None_iff)
  note R = product_letters_Some [OF run' inv]
  have none_iff: "map_of le a = None \<longleftrightarrow> (\<forall>x. (fst pr, a, x) \<notin> edges l)"
      "map_of re a = None \<longleftrightarrow> (\<forall>x. (snd pr, a, x) \<notin> edges r)" for a
    using lookup by (metis not_None_eq)+
  from R keys have "map_of le a \<noteq> None \<longleftrightarrow> map_of re a \<noteq> None" for a by blast
  then show "same_letters l r pr" unfolding same_letters_def none_iff by blast
  have "{(pr, b, (lt, rt)) | b lt rt. b \<in> set (map fst le @ map fst re)
        \<and> map_of le b = Some lt \<and> map_of re b = Some rt} = pair_edges l r {pr}"
    unfolding keys lookup none_iff pair_edges_def by (cases pr) auto
  with R show "edges_numbered c' (S \<union> pair_edges l r {pr}) es'" by simp
  from R show "mp c \<subseteq>\<^sub>m mp c'" by simp
qed

lemma product_pairs_Some:
  assumes wf: "dfa_wf l" "dfa_wf r"
  shows "fold_opt (product_pair (create_edge_map l) (create_edge_map r)) ps (c, es) = Some (c', es') \<Longrightarrow>
    edges_numbered c S es \<Longrightarrow>
    (\<forall>pr \<in> set ps. same_letters l r pr) \<and> edges_numbered c' (S \<union> pair_edges l r (set ps)) es'
    \<and> mp c \<subseteq>\<^sub>m mp c'"
proof (induction ps arbitrary: c es S)
  case Nil
  then show ?case by (simp add: pair_edges_def)
next
  case (Cons pr ps)
  from Cons.prems(1) obtain c1 es1 where
    step: "product_pair (create_edge_map l) (create_edge_map r) pr (c, es) = Some (c1, es1)" and
    rest: "fold_opt (product_pair (create_edge_map l) (create_edge_map r)) ps (c1, es1) = Some (c', es')"
    by (auto split: option.splits)
  note one = product_pair_Some [OF wf step Cons.prems(2)]
  have "S \<union> pair_edges l r {pr} \<union> pair_edges l r (set ps) = S \<union> pair_edges l r (set (pr # ps))"
    by (auto simp: pair_edges_def)
  with Cons.IH [OF rest one(2)] one map_le_trans [OF one(3)] show ?case by simp
qed

text \<open>The result of the construction, described by the final numbering.\<close>

definition product_result ::
    "(nat \<times> nat) id_context \<Rightarrow> 'a explicit_dfa \<Rightarrow> 'a explicit_dfa \<Rightarrow> bool \<Rightarrow> 'a explicit_dfa \<Rightarrow> bool"
  where
  "product_result c l r b d \<longleftrightarrow>
     id_inv c \<and> all_indeces l \<times> all_indeces r \<subseteq> dom (mp c)
     \<and> ent_id d = id_of c (ent_id l, ent_id r)
     \<and> edges d = number_edge c ` pair_edges l r (all_indeces l \<times> all_indeces r)
     \<and> accept_indexes d = id_of c `
         (if b then accept_indexes l \<times> all_indeces r \<union> all_indeces l \<times> accept_indexes r
          else accept_indexes l \<times> accept_indexes r)
     \<and> all_indeces d = id_of c ` (all_indeces l \<times> all_indeces r)"

lemma cartesian_product_result:
  assumes wf: "dfa_wf l" "dfa_wf r"
    and run: "cartesian_product_internal l r b = Some d"
  shows "(\<forall>pr \<in> all_indeces l \<times> all_indeces r. same_letters l r pr) \<and> (\<exists>c. product_result c l r b d)"
proof -
  note views = set_dfa_views [OF wf(1)] set_dfa_views [OF wf(2)]
  obtain e0 c0 where g: "get_node id_default (ent_id l, ent_id r) = (e0, c0)" by force
  note c0 = get_node_spec [OF id_inv_default g]
  let ?pairs = "List.product (all_indices l) (all_indices r)"
  let ?acc = "if \<not> b then List.product (accept_indices l) (accept_indices r)
    else List.product (accept_indices l) (all_indices r)
         @ List.product (all_indices l) (accept_indices r)"
  from run g obtain c1 es where
    loop: "fold_opt (product_pair (create_edge_map l) (create_edge_map r)) ?pairs (c0, {}) = Some (c1, es)"
    by (auto simp: cartesian_product_internal_def entry_def Let_def split: if_splits option.splits prod.splits)
  obtain as c2 where a: "get_nodes c1 ?acc = (as, c2)" by force
  obtain xs c3 where x: "get_nodes c2 ?pairs = (xs, c3)" by force
  from run g loop a x have d: "d = \<lparr>ent_id = e0, edges = es, accept_indexes = set as, all_indeces = set xs\<rparr>"
    by (auto simp: cartesian_product_internal_def entry_def Let_def split: if_splits)
  have "edges_numbered c0 {} {}" using c0 by (simp add: edges_numbered_def)
  from product_pairs_Some [OF wf loop this]
  have p: "\<forall>pr \<in> set ?pairs. same_letters l r pr" "edges_numbered c1 (pair_edges l r (set ?pairs)) es"
    "mp c0 \<subseteq>\<^sub>m mp c1" by simp_all
  have "id_inv c1" using p(2) by (simp add: edges_numbered_def)
  from get_nodes_spec [OF this a] have s2: "id_inv c2" "mp c1 \<subseteq>\<^sub>m mp c2" "as = map (id_of c2) ?acc"
    "dom (mp c2) = set ?acc \<union> dom (mp c1)" by simp_all
  from get_nodes_spec [OF s2(1) x] have s3: "id_inv c3" "mp c2 \<subseteq>\<^sub>m mp c3" "xs = map (id_of c3) ?pairs"
    "dom (mp c3) = set ?pairs \<union> dom (mp c2)" by simp_all
  have le13: "mp c1 \<subseteq>\<^sub>m mp c3" and le03: "mp c0 \<subseteq>\<^sub>m mp c3"
    using s2(2) s3(2) p(3) by (blast intro: map_le_trans)+
  have ent: "e0 = id_of c3 (ent_id l, ent_id r)"
    using id_of_le [OF le03, of "(ent_id l, ent_id r)"] c0(3,4) by (simp add: id_of_def)
  have "set as = id_of c3 ` set ?acc"
    using s2(3,4) id_of_le [OF s3(2)] by (auto simp del: set_product)
  moreover have "edges_numbered c3 (pair_edges l r (set ?pairs)) es"
    using p(2) s3(1) le13 by (rule edges_numbered_mono)
  ultimately have "product_result c3 l r b d"
    using d ent s3(1,3,4) by (simp add: product_result_def edges_numbered_def views)
  with p(1) show ?thesis by (auto simp: views)
qed

lemma product_path:
  assumes wf: "dfa_wf l" "dfa_wf r" and res: "product_result c l r b d"
  shows "p \<in> all_indeces l \<Longrightarrow> q \<in> all_indeces r \<Longrightarrow>
    edge_path (edges d) (id_of c (p, q)) w x \<longleftrightarrow>
    (\<exists>p' q'. x = id_of c (p', q') \<and> edge_path (edges l) p w p' \<and> edge_path (edges r) q w q')"
proof (induction w arbitrary: p q)
  case (Cons a w)
  have inj: "id_of c (p1, q1) = id_of c (p2, q2) \<longleftrightarrow> p1 = p2 \<and> q1 = q2"
    if "p1 \<in> all_indeces l" "q1 \<in> all_indeces r" "p2 \<in> all_indeces l" "q2 \<in> all_indeces r"
    for p1 q1 p2 q2
  proof -
    have "id_inv c" "(p1, q1) \<in> dom (mp c)" "(p2, q2) \<in> dom (mp c)"
      using that res unfolding product_result_def by blast+
    then show ?thesis using inj_on_eq_iff [OF id_of_inj [of c]] by auto
  qed
  have step: "(id_of c (p, q), a, y) \<in> edges d \<longleftrightarrow>
      (\<exists>p1 q1. y = id_of c (p1, q1) \<and> (p, a, p1) \<in> edges l \<and> (q, a, q1) \<in> edges r)" (is "?L \<longleftrightarrow> ?R") for y
  proof
    assume ?L
    then obtain p0 q0 p1 q1 where "p0 \<in> all_indeces l" "q0 \<in> all_indeces r"
      "(p0, a, p1) \<in> edges l" "(q0, a, q1) \<in> edges r" "id_of c (p, q) = id_of c (p0, q0)"
      "y = id_of c (p1, q1)"
      using res by (auto simp: product_result_def pair_edges_def number_edge_def)
    with inj Cons.prems show ?R by blast
  next
    assume ?R
    then obtain p1 q1 where "y = id_of c (p1, q1)" "(p, a, p1) \<in> edges l" "(q, a, q1) \<in> edges r"
      by blast
    then have "((p, q), a, (p1, q1)) \<in> pair_edges l r (all_indeces l \<times> all_indeces r)"
      and "number_edge c ((p, q), a, (p1, q1)) = (id_of c (p, q), a, y)"
      using Cons.prems by (auto simp: pair_edges_def number_edge_def)
    then show ?L using res unfolding product_result_def by (metis image_eqI)
  qed
  have "edge_path (edges d) (id_of c (p, q)) (a # w) x \<longleftrightarrow>
      (\<exists>p1 q1. (p, a, p1) \<in> edges l \<and> (q, a, q1) \<in> edges r
        \<and> edge_path (edges d) (id_of c (p1, q1)) w x)"
    by (auto simp: step)
  also have "\<dots> \<longleftrightarrow> (\<exists>p1 q1. (p, a, p1) \<in> edges l \<and> (q, a, q1) \<in> edges r
      \<and> (\<exists>p' q'. x = id_of c (p', q') \<and> edge_path (edges l) p1 w p' \<and> edge_path (edges r) q1 w q'))"
    using Cons.IH dfa_wfD(8) [OF wf(1)] dfa_wfD(8) [OF wf(2)] by blast
  finally show ?case by auto
qed auto

lemma product_inj:
  assumes "product_result c l r b d" "p1 \<in> all_indeces l" "q1 \<in> all_indeces r"
    "p2 \<in> all_indeces l" "q2 \<in> all_indeces r"
  shows "id_of c (p1, q1) = id_of c (p2, q2) \<longleftrightarrow> p1 = p2 \<and> q1 = q2"
proof -
  have "id_inv c" "(p1, q1) \<in> dom (mp c)" "(p2, q2) \<in> dom (mp c)"
    using assms unfolding product_result_def by blast+
  then show ?thesis using inj_on_eq_iff [OF id_of_inj [of c]] by auto
qed

lemma product_wf:
  assumes wf: "dfa_wf l" "dfa_wf r" and res: "product_result c l r b d"
  shows "dfa_wf d"
proof -
  note L = dfa_wfD [OF wf(1)] and R = dfa_wfD [OF wf(2)]
  have sub: "pair_edges l r P \<subseteq> (\<lambda>((p, a, p'), (q, _, q')). ((p, q), a, (p', q'))) ` (edges l \<times> edges r)" for P
    by (force simp: pair_edges_def)
  have "finite (edges d)"
    using res finite_subset [OF sub] L(1) R(1) by (simp add: product_result_def)
  moreover have "finite (all_indeces d)" using res L(2) R(2) by (simp add: product_result_def)
  moreover have "deterministic (edges d)"
    unfolding deterministic_def
  proof (intro allI impI)
    fix q a x y assume "(q, a, x) \<in> edges d" "(q, a, y) \<in> edges d"
    then obtain p1 q1 p1' q1' p2 q2 p2' q2' where
      e: "p1 \<in> all_indeces l" "q1 \<in> all_indeces r" "p2 \<in> all_indeces l" "q2 \<in> all_indeces r"
        "id_of c (p1, q1) = id_of c (p2, q2)" "x = id_of c (p1', q1')" "y = id_of c (p2', q2')"
        "(p1, a, p1') \<in> edges l" "(q1, a, q1') \<in> edges r"
        "(p2, a, p2') \<in> edges l" "(q2, a, q2') \<in> edges r"
      using res by (auto simp: product_result_def pair_edges_def number_edge_def)
    from e(5) have "p1 = p2 \<and> q1 = q2" using product_inj [OF res e(1-4)] by simp
    with e deterministicD [OF L(4)] deterministicD [OF R(4)] show "x = y" by metis
  qed
  moreover have "ent_id d \<in> all_indeces d" "accept_indexes d \<subseteq> all_indeces d"
    using res L(5,6) R(5,6) by (auto simp: product_result_def split: if_splits)
  moreover have "\<forall>(q, a, r) \<in> edges d. q \<in> all_indeces d \<and> r \<in> all_indeces d"
    using res L(7,8) R(7,8)
    by (auto simp: product_result_def pair_edges_def number_edge_def)
  ultimately show ?thesis by (simp add: dfa_wf_def)
qed

lemma product_accepts:
  assumes wf: "dfa_wf l" "dfa_wf r" and res: "product_result c l r b d"
  shows "accepts d w \<longleftrightarrow>
    (\<exists>p q. edge_path (edges l) (ent_id l) w p \<and> edge_path (edges r) (ent_id r) w q
       \<and> (if b then p \<in> accept_indexes l \<or> q \<in> accept_indexes r
          else p \<in> accept_indexes l \<and> q \<in> accept_indexes r))"
proof -
  note L = dfa_wfD [OF wf(1)] and R = dfa_wfD [OF wf(2)]
  have acc: "id_of c (p, q) \<in> accept_indexes d \<longleftrightarrow>
      (if b then p \<in> accept_indexes l \<or> q \<in> accept_indexes r
       else p \<in> accept_indexes l \<and> q \<in> accept_indexes r)"
    if "p \<in> all_indeces l" "q \<in> all_indeces r" for p q
  proof -
    let ?A = "if b then accept_indexes l \<times> all_indeces r \<union> all_indeces l \<times> accept_indexes r
          else accept_indexes l \<times> accept_indexes r"
    have sub: "?A \<subseteq> all_indeces l \<times> all_indeces r" using L(6) R(6) by auto
    have "id_of c (p, q) \<in> id_of c ` ?A \<longleftrightarrow> (p, q) \<in> ?A"
    proof
      assume "id_of c (p, q) \<in> id_of c ` ?A"
      then obtain p2 q2 where "(p2, q2) \<in> ?A" "id_of c (p, q) = id_of c (p2, q2)" by auto
      then show "(p, q) \<in> ?A" using product_inj [OF res that, of p2 q2] sub by blast
    qed simp
    then show ?thesis using res that by (auto simp: product_result_def)
  qed
  have "accepts d w \<longleftrightarrow> (\<exists>p q. edge_path (edges l) (ent_id l) w p \<and> edge_path (edges r) (ent_id r) w q
      \<and> id_of c (p, q) \<in> accept_indexes d)"
    using product_path [OF wf res L(5) R(5), of w] res
    unfolding accepts_def product_result_def by metis
  then show ?thesis using acc path_in_all [OF wf(1) L(5)] path_in_all [OF wf(2) R(5)] by metis
qed

section \<open>Correctness of the operations\<close>

context graph_search
begin

lemma get_reachable_idxs_eq:
  assumes "dfa_wf d"
  shows "get_reachable_idxs dfs has_node d = {q. (ent_id d, q) \<in> (succ_rel (edges d))\<^sup>*}"
proof -
  have "set (map (\<lambda>(src, _, dst). (src, dst)) (dfa_edges d)) = succ_rel (edges d)"
    by (auto simp: set_dfa_views [OF assms] succ_rel_def)
  then show ?thesis
    using dfs_reachable no_node_unreachable
    unfolding get_reachable_idxs_def Let_def entry_def by metis
qed

lemma is_empty_language_iff:
  assumes "dfa_wf d"
  shows "is_empty_language dfs has_node d \<longleftrightarrow> (\<forall>w. \<not> accepts d w)"
  unfolding is_empty_language_def get_reachable_idxs_eq [OF assms]
  by (auto simp: Let_def list_ex_iff set_dfa_views [OF assms] reachable_iff_path accepts_def)

lemma minimize_accepts:
  assumes "dfa_wf d"
  shows "accepts (minimize dfs has_node d) w \<longleftrightarrow> accepts d w"
proof -
  let ?R = "{q. (ent_id d, q) \<in> (succ_rel (edges d))\<^sup>*}"
  let ?E = "{(q, a, r) \<in> edges d. q \<in> ?R \<and> r \<in> ?R}"
  have min: "edges (minimize dfs has_node d) = ?E" "accept_indexes (minimize dfs has_node d) = accept_indexes d \<inter> ?R"
    "ent_id (minimize dfs has_node d) = ent_id d"
    by (auto simp: minimize_def Let_def get_reachable_idxs_eq [OF assms] set_dfa_views [OF assms] entry_def)
  have path: "q \<in> ?R \<Longrightarrow> edge_path ?E q w r \<longleftrightarrow> edge_path (edges d) q w r" for q r
  proof (induction w arbitrary: q)
    case (Cons a w)
    have "(q, a, p) \<in> edges d \<Longrightarrow> p \<in> ?R" for p
      using Cons.prems reachable_step [of "ent_id d" q] by simp
    with Cons show ?case by auto
  qed simp
  have reach: "edge_path (edges d) (ent_id d) w r \<Longrightarrow> r \<in> ?R" for r
    using reachable_iff_path [of "ent_id d" r "edges d"] by auto
  have ent: "edge_path ?E (ent_id d) w r \<longleftrightarrow> edge_path (edges d) (ent_id d) w r" for r
    using path [of "ent_id d" r] by simp
  show ?thesis unfolding accepts_def min ent using reach by blast
qed

lemma minimize_wf:
  assumes "dfa_wf d"
  shows "dfa_wf (minimize dfs has_node d)"
proof -
  note D = dfa_wfD [OF assms]
  let ?R = "{q. (ent_id d, q) \<in> (succ_rel (edges d))\<^sup>*}"
  have "q \<in> all_indeces d" if "q \<in> ?R" for q
  proof -
    from that obtain w where "edge_path (edges d) (ent_id d) w q" by (auto simp: reachable_iff_path)
    then show ?thesis using path_in_all [OF assms D(5)] by simp
  qed
  then have "finite ?R" using D(2) by (auto intro: finite_subset)
  moreover have "edges (minimize dfs has_node d) \<subseteq> edges d"
    by (auto simp: minimize_def Let_def set_dfa_views [OF assms])
  ultimately show ?thesis
    using deterministic_subset [OF D(4)] finite_subset [OF _ D(1)]
    by (auto simp: dfa_wf_def minimize_def Let_def get_reachable_idxs_eq [OF assms]
        set_dfa_views [OF assms] entry_def)
qed

end

lemma product_Some_iff:
  assumes wf: "dfa_wf l" "dfa_wf r"
  shows "cartesian_product_internal l r b \<noteq> None \<longleftrightarrow>
    (\<forall>pr \<in> all_indeces l \<times> all_indeces r. same_letters l r pr)"
proof
  assume "cartesian_product_internal l r b \<noteq> None"
  then show "\<forall>pr \<in> all_indeces l \<times> all_indeces r. same_letters l r pr"
    using cartesian_product_result [OF wf] by blast
next
  assume same: "\<forall>pr \<in> all_indeces l \<times> all_indeces r. same_letters l r pr"
  note views = set_dfa_views [OF wf(1)] set_dfa_views [OF wf(2)]
  have ne: "all_indices l \<noteq> []" "all_indices r \<noteq> []"
    using dfa_wfD(5) [OF wf(1)] dfa_wfD(5) [OF wf(2)] views by (metis empty_iff empty_set)+
  have letter: "\<exists>s'. product_letter le re pr a s = Some s'"
    if "map_of le a \<noteq> None" "map_of re a \<noteq> None" for le re pr a s
    using that by (cases s) (auto simp: product_letter_def Let_def split: prod.splits)
  have pair: "\<exists>s'. product_pair (create_edge_map l) (create_edge_map r) pr s = Some s'"
    if "pr \<in> set (List.product (all_indices l) (all_indices r))" for pr s
  proof -
    have "same_letters l r pr" using same that by (auto simp: views)
    then have *: "a \<in> fst ` set (bt_get_or [] (create_edge_map l) (fst pr)) \<longleftrightarrow>
        a \<in> fst ` set (bt_get_or [] (create_edge_map r) (snd pr))" for a
      unfolding edge_map_keys [OF wf(1)] edge_map_keys [OF wf(2)] by (simp add: same_letters_def)
    show ?thesis
      unfolding product_pair_def Let_def
      by (rule fold_opt_total, rule letter) (use * in \<open>auto simp: map_of_eq_None_iff\<close>)
  qed
  have "\<exists>s'. fold_opt (product_pair (create_edge_map l) (create_edge_map r))
      (List.product (all_indices l) (all_indices r)) s = Some s'" for s
    by (rule fold_opt_total) (rule pair)
  moreover have "get_nodes c ks = ([], c') \<Longrightarrow> ks = []" for c c' :: "(nat \<times> nat) id_context" and ks
    by (cases ks) (auto simp: Let_def split: prod.splits)
  moreover have "List.product (all_indices l) (all_indices r) \<noteq> []"
    using ne by (cases "all_indices l"; cases "all_indices r") auto
  ultimately show "cartesian_product_internal l r b \<noteq> None"
    using ne by (auto simp: cartesian_product_internal_def Let_def split: prod.splits option.splits)
      (metis option.distinct(1))+
qed

lemma product_complete:
  assumes wf: "dfa_wf l" "dfa_wf r" and c: "complete_over A l" "complete_over A r"
    and res: "product_result cx l r b d"
  shows "complete_over A d"
  unfolding complete_over_def
proof (intro ballI allI)
  fix s a assume "s \<in> all_indeces d"
  then obtain p q where s: "s = id_of cx (p, q)" "p \<in> all_indeces l" "q \<in> all_indeces r"
    using res by (auto simp: product_result_def)
  have "(\<exists>x. (s, a, x) \<in> edges d) \<longleftrightarrow> (\<exists>x. edge_path (edges d) s [a] x)" by simp
  also have "\<dots> \<longleftrightarrow> (\<exists>p'. (p, a, p') \<in> edges l) \<and> (\<exists>q'. (q, a, q') \<in> edges r)"
    using product_path [OF wf res s(2,3), of "[a]"] s(1) by auto
  also have "\<dots> \<longleftrightarrow> a \<in> A" using c s(2,3) by (auto simp: complete_over_def)
  finally show "(\<exists>x. (s, a, x) \<in> edges d) \<longleftrightarrow> a \<in> A" .
qed

lemma complete_same_letters:
  "complete_over A l \<Longrightarrow> complete_over A r \<Longrightarrow> pr \<in> all_indeces l \<times> all_indeces r \<Longrightarrow>
   same_letters l r pr"
  unfolding complete_over_def same_letters_def by (cases pr) simp

lemma complement_wf:
  assumes "dfa_wf d"
  shows "dfa_wf (complement d)"
proof -
  have "edges (complement d) = edges d" "ent_id (complement d) = ent_id d"
    "accept_indexes (complement d) = all_indeces d - accept_indexes d"
    "all_indeces (complement d) = all_indeces d"
    by (simp_all add: complement_def Let_def set_dfa_views [OF assms] entry_def)
  with assms show ?thesis by (simp add: dfa_wf_def)
qed

lemma complement_complete: "dfa_wf d \<Longrightarrow> complete_over A d \<Longrightarrow> complete_over A (complement d)"
  by (simp add: complete_over_def complement_def Let_def set_dfa_views)

context graph_search
begin

lemma minimize_complete:
  assumes "dfa_wf d" "complete_over A d"
  shows "complete_over A (minimize dfs has_node d)"
  unfolding complete_over_def
proof (intro ballI allI)
  fix q a assume "q \<in> all_indeces (minimize dfs has_node d)"
  then have q: "(ent_id d, q) \<in> (succ_rel (edges d))\<^sup>*"
    by (simp add: minimize_def Let_def get_reachable_idxs_eq [OF assms(1)])
  then obtain w where "edge_path (edges d) (ent_id d) w q" by (auto simp: reachable_iff_path)
  then have "q \<in> all_indeces d" using path_in_all [OF assms(1)] dfa_wfD(5) [OF assms(1)] by blast
  moreover have "(q, a, r) \<in> edges (minimize dfs has_node d) \<longleftrightarrow> (q, a, r) \<in> edges d" for r
    using q reachable_step [OF q]
    by (auto simp: minimize_def Let_def get_reachable_idxs_eq [OF assms(1)] set_dfa_views [OF assms(1)])
  ultimately show "(\<exists>r. (q, a, r) \<in> edges (minimize dfs has_node d)) \<longleftrightarrow> a \<in> A"
    using assms(2) by (simp add: complete_over_def)
qed

lemma product_minimized:
  assumes wf: "dfa_wf l" "dfa_wf r" and c: "complete_over A l" "complete_over A r"
  shows "\<exists>d. map_option (minimize dfs has_node) (cartesian_product_internal l r b) = Some d
    \<and> dfa_wf d \<and> complete_over A d
    \<and> (\<forall>w. accepts d w \<longleftrightarrow>
        (if b then set w \<subseteq> A \<and> (accepts l w \<or> accepts r w) else accepts l w \<and> accepts r w))"
proof -
  obtain d0 where d0: "cartesian_product_internal l r b = Some d0"
    using product_Some_iff [OF wf] complete_same_letters [OF c] by blast
  then obtain cx where res: "product_result cx l r b d0"
    using cartesian_product_result [OF wf] by blast
  note L = dfa_wfD [OF wf(1)] and R = dfa_wfD [OF wf(2)]
  have pl: "set w \<subseteq> A \<longleftrightarrow> (\<exists>p. edge_path (edges l) (ent_id l) w p)"
    and pr: "set w \<subseteq> A \<longleftrightarrow> (\<exists>p. edge_path (edges r) (ent_id r) w p)" for w
    using complete_path_exists [OF wf(1) c(1) L(5)] complete_path_exists [OF wf(2) c(2) R(5)]
    by simp_all
  have "accepts d0 w \<longleftrightarrow>
      (if b then set w \<subseteq> A \<and> (accepts l w \<or> accepts r w) else accepts l w \<and> accepts r w)" for w
    unfolding product_accepts [OF wf res] using pl [of w] pr [of w]
    by (cases b) (auto simp: accepts_def dest: edge_path_deterministic [OF L(4)]
        edge_path_deterministic [OF R(4)])
  then show ?thesis
    using d0 product_wf [OF wf res] product_complete [OF wf c res]
    by (simp add: minimize_wf minimize_complete minimize_accepts)
qed

end

lemma complement_accepts:
  assumes "dfa_wf d" "complete_over A d"
  shows "accepts (complement d) w \<longleftrightarrow> set w \<subseteq> A \<and> \<not> accepts d w"
proof -
  note D = dfa_wfD [OF assms(1)]
  have c: "edges (complement d) = edges d" "ent_id (complement d) = ent_id d"
    "accept_indexes (complement d) = all_indeces d - accept_indexes d"
    by (simp_all add: complement_def Let_def set_dfa_views [OF assms(1)] entry_def)
  show ?thesis
    using complete_path_exists [OF assms D(5), of w] path_in_all [OF assms(1) D(5), of w]
      edge_path_deterministic [OF D(4)]
    unfolding accepts_def c by blast
qed

text \<open>
  C34: on automata that are complete over one alphabet the intersection does not panic and
  accepts exactly the words both automata accept, and is again complete.
\<close>

theorem intersection_language:
  assumes "graph_search dfs has_node" "dfa_wf l" "dfa_wf r" "complete_over A l" "complete_over A r"
  shows "\<exists>d. intersection dfs has_node l r = Some d \<and> dfa_wf d \<and> complete_over A d
    \<and> (\<forall>w. accepts d w \<longleftrightarrow> accepts l w \<and> accepts r w)"
  using graph_search.product_minimized [OF assms, of False] by (simp add: intersection_def)

text \<open>Likewise for the union and the words at least one of the automata accepts.\<close>

theorem union_language:
  assumes "graph_search dfs has_node" "dfa_wf l" "dfa_wf r" "complete_over A l" "complete_over A r"
  shows "\<exists>d. union dfs has_node l r = Some d \<and> dfa_wf d \<and> complete_over A d
    \<and> (\<forall>w. accepts d w \<longleftrightarrow> accepts l w \<or> accepts r w)"
proof -
  have "accepts l w \<or> accepts r w \<Longrightarrow> set w \<subseteq> A" for w
    using complete_path_exists [OF assms(2,4)] complete_path_exists [OF assms(3,5)]
      dfa_wfD(5) assms(2,3) unfolding accepts_def by blast
  then show ?thesis
    using graph_search.product_minimized [OF assms, of True] by (auto simp: union_def)
qed

text \<open>
  The complement accepts exactly the words over the alphabet that the automaton
  rejects, and the emptiness test answers whether no word is accepted.
\<close>

theorem complement_and_emptiness:
  assumes "graph_search dfs has_node" "dfa_wf d" "complete_over A d"
  shows "(\<forall>w. accepts (complement d) w \<longleftrightarrow> set w \<subseteq> A \<and> \<not> accepts d w)
    \<and> (is_empty_language dfs has_node d \<longleftrightarrow> (\<forall>w. \<not> accepts d w))"
  using complement_accepts [OF assms(2,3)] graph_search.is_empty_language_iff [OF assms(1,2)]
  by simp

text \<open>
  The product construction panics exactly when some pair of states has different
  outgoing letters: partial automata are not supported, whatever their languages.
\<close>

theorem product_panics_iff:
  assumes "dfa_wf l" "dfa_wf r"
  shows "cartesian_product_internal l r b = None \<longleftrightarrow>
    (\<exists>p \<in> all_indeces l. \<exists>q \<in> all_indeces r. \<exists>a.
       (\<exists>x. (p, a, x) \<in> edges l) \<noteq> (\<exists>x. (q, a, x) \<in> edges r))"
proof -
  have "(\<forall>pr \<in> all_indeces l \<times> all_indeces r. same_letters l r pr) \<longleftrightarrow>
    \<not> (\<exists>p \<in> all_indeces l. \<exists>q \<in> all_indeces r. \<exists>a.
       (\<exists>x. (p, a, x) \<in> edges l) \<noteq> (\<exists>x. (q, a, x) \<in> edges r))"
    by (simp only: same_letters_def split_paired_Ball_Sigma fst_conv snd_conv) blast
  then show ?thesis using product_Some_iff [OF assms, of b] by argo
qed

section \<open>Concrete automata\<close>

definition dfa_even :: "nat explicit_dfa" where
  "dfa_even = \<lparr>ent_id = 0, edges = {(0, 10, 1), (1, 10, 0)}, accept_indexes = {0},
     all_indeces = {0, 1}\<rparr>"

definition dfa_some :: "nat explicit_dfa" where
  "dfa_some = \<lparr>ent_id = 0, edges = {(0, 10, 2), (2, 10, 2)}, accept_indexes = {2},
     all_indeces = {0, 2}\<rparr>"

lemma example_dfas:
  "dfa_wf dfa_even" "dfa_wf dfa_some" "complete_over {10} dfa_even" "complete_over {10} dfa_some"
  by (simp_all add: dfa_even_def dfa_some_def dfa_wf_def complete_over_def deterministic_def)

theorem intersection_language_witness:
  "\<exists>d. intersection ref_dfs ref_has_node dfa_even dfa_some = Some d \<and> dfa_wf d \<and> complete_over {10} d
    \<and> (\<forall>w. accepts d w \<longleftrightarrow> accepts dfa_even w \<and> accepts dfa_some w)"
  by (rule intersection_language [OF ref_search.graph_search_axioms example_dfas])

theorem union_language_witness:
  "\<exists>d. union ref_dfs ref_has_node dfa_even dfa_some = Some d \<and> dfa_wf d \<and> complete_over {10} d
    \<and> (\<forall>w. accepts d w \<longleftrightarrow> accepts dfa_even w \<or> accepts dfa_some w)"
  by (rule union_language [OF ref_search.graph_search_axioms example_dfas])

theorem complement_and_emptiness_witness:
  "(\<forall>w. accepts (complement dfa_even) w \<longleftrightarrow> set w \<subseteq> {10} \<and> \<not> accepts dfa_even w)
    \<and> (is_empty_language ref_dfs ref_has_node dfa_even \<longleftrightarrow> (\<forall>w. \<not> accepts dfa_even w))"
  by (rule complement_and_emptiness [OF ref_search.graph_search_axioms example_dfas(1,3)])

theorem product_panics_iff_witness:
  "cartesian_product_internal dfa_even dfa_some False = None \<longleftrightarrow>
    (\<exists>p \<in> all_indeces dfa_even. \<exists>q \<in> all_indeces dfa_some. \<exists>a.
       (\<exists>x. (p, a, x) \<in> edges dfa_even) \<noteq> (\<exists>x. (q, a, x) \<in> edges dfa_some))"
  by (rule product_panics_iff [OF example_dfas(1,2)])

end
