(* ===== verification/Petgraph.thy ===== *)
theory Petgraph
  imports GraphSearch
begin

text \<open>
  The contract of the graphs of the \<^verbatim>\<open>petgraph\<close> library (\<^verbatim>\<open>Graph\<close>
  and \<^verbatim>\<open>StableDiGraph\<close>), as the code under \<^verbatim>\<open>src/\<close> uses them.  The library
  is not part of the repository: its operations are the fields of a record that the
  definitions of the model take as an argument, and what the library documents of them is
  the locale \<open>stable_digraph\<close>.  Node and edge indices are stable: they name the same node
  or edge until it is removed.  An index that the library rejects with a panic is the
  \<^const>\<open>None\<close> of \<open>pg_add_edge\<close>.

  A list-based implementation meets the contract; the witnesses evaluate the model on it.
\<close>

datatype pg_direction = Outgoing | Incoming

record ('g, 'w, 'e) petgraph =
  pg_new :: 'g
  pg_add_node :: "'w \<Rightarrow> 'g \<Rightarrow> nat \<times> 'g"
  pg_add_edge :: "nat \<Rightarrow> nat \<Rightarrow> 'e \<Rightarrow> 'g \<Rightarrow> (nat \<times> 'g) option"
  pg_remove_node :: "nat \<Rightarrow> 'g \<Rightarrow> 'w option \<times> 'g"
  pg_remove_edge :: "nat \<Rightarrow> 'g \<Rightarrow> 'e option \<times> 'g"
  pg_set_node_weight :: "nat \<Rightarrow> 'w \<Rightarrow> 'g \<Rightarrow> 'g"
  pg_node_weight :: "'g \<Rightarrow> nat \<Rightarrow> 'w option"
  pg_edge :: "'g \<Rightarrow> nat \<Rightarrow> (nat \<times> nat \<times> 'e) option"
  pg_node_indices :: "'g \<Rightarrow> nat list"
  pg_edge_indices :: "'g \<Rightarrow> nat list"
  pg_edges_directed :: "'g \<Rightarrow> nat \<Rightarrow> pg_direction \<Rightarrow> nat list"
  pg_dfs :: "'g \<Rightarrow> nat list \<Rightarrow> nat list"
  pg_reverse :: "'g \<Rightarrow> 'g"
  pg_filter_nodes :: "(nat \<Rightarrow> bool) \<Rightarrow> 'g \<Rightarrow> 'g"

section \<open>Derived accessors\<close>

definition contains_node :: "('g, 'w, 'e) petgraph \<Rightarrow> 'g \<Rightarrow> nat \<Rightarrow> bool" where
  "contains_node G g n \<longleftrightarrow> pg_node_weight G g n \<noteq> None"

definition edge_weight :: "('g, 'w, 'e) petgraph \<Rightarrow> 'g \<Rightarrow> nat \<Rightarrow> 'e option" where
  "edge_weight G g i = map_option (\<lambda>(_, _, w). w) (pg_edge G g i)"

definition edge_endpoints :: "('g, 'w, 'e) petgraph \<Rightarrow> 'g \<Rightarrow> nat \<Rightarrow> (nat \<times> nat) option" where
  "edge_endpoints G g i = map_option (\<lambda>(a, b, _). (a, b)) (pg_edge G g i)"

text \<open>An edge reference: its index, source, target and weight.\<close>

type_synonym 'e edge_ref = "nat \<times> nat \<times> nat \<times> 'e"

definition edge_ref :: "('g, 'w, 'e) petgraph \<Rightarrow> 'g \<Rightarrow> nat \<Rightarrow> 'e edge_ref list" where
  "edge_ref G g i = (case pg_edge G g i of Some (a, b, w) \<Rightarrow> [(i, a, b, w)] | None \<Rightarrow> [])"

definition edge_references :: "('g, 'w, 'e) petgraph \<Rightarrow> 'g \<Rightarrow> 'e edge_ref list" where
  "edge_references G g = concat (map (edge_ref G g) (pg_edge_indices G g))"

definition edges_directed ::
    "('g, 'w, 'e) petgraph \<Rightarrow> 'g \<Rightarrow> nat \<Rightarrow> pg_direction \<Rightarrow> 'e edge_ref list" where
  "edges_directed G g n d = concat (map (edge_ref G g) (pg_edges_directed G g n d))"

definition node_references :: "('g, 'w, 'e) petgraph \<Rightarrow> 'g \<Rightarrow> (nat \<times> 'w) list" where
  "node_references G g =
     concat (map (\<lambda>n. case pg_node_weight G g n of Some w \<Rightarrow> [(n, w)] | None \<Rightarrow> [])
       (pg_node_indices G g))"

text \<open>The pairs of nodes joined by an edge.\<close>

definition arcs :: "('g, 'w, 'e) petgraph \<Rightarrow> 'g \<Rightarrow> (nat \<times> nat) set" where
  "arcs G g = {(a, b). \<exists>i w. pg_edge G g i = Some (a, b, w)}"

text \<open>The edges without their indices: source, weight, target.\<close>

definition weighted_arcs :: "('g, 'w, 'e) petgraph \<Rightarrow> 'g \<Rightarrow> (nat \<times> 'e \<times> nat) set" where
  "weighted_arcs G g = {(a, w, b). \<exists>i. pg_edge G g i = Some (a, b, w)}"

lemma arcs_weighted: "(a, b) \<in> arcs G g \<longleftrightarrow> (\<exists>w. (a, w, b) \<in> weighted_arcs G g)"
  by (auto simp: arcs_def weighted_arcs_def)

definition edge_at :: "pg_direction \<Rightarrow> nat \<Rightarrow> nat \<times> nat \<times> 'e \<Rightarrow> bool" where
  "edge_at d n e = (case (d, e) of
       (Outgoing, (a, _, _)) \<Rightarrow> a = n
     | (Incoming, (_, b, _)) \<Rightarrow> b = n)"

lemma edge_at_simps [simp]:
  "edge_at Outgoing n (a, b, w) \<longleftrightarrow> a = n" "edge_at Incoming n (a, b, w) \<longleftrightarrow> b = n"
  by (simp_all add: edge_at_def)

section \<open>The contract\<close>

locale stable_digraph =
  fixes G :: "('g, 'w, 'e) petgraph" and ok :: "'g \<Rightarrow> bool"
  assumes new_graph: "ok (pg_new G)" "pg_node_weight G (pg_new G) n = None"
      "pg_edge G (pg_new G) i = None"
    and add_node_laws: "ok g \<Longrightarrow> pg_add_node G w g = (n, g') \<Longrightarrow>
      ok g' \<and> pg_node_weight G g n = None
      \<and> pg_node_weight G g' = (pg_node_weight G g)(n \<mapsto> w) \<and> pg_edge G g' = pg_edge G g"
    and add_edge_None: "ok g \<Longrightarrow> pg_add_edge G a b e g = None \<longleftrightarrow>
      pg_node_weight G g a = None \<or> pg_node_weight G g b = None"
    and add_edge_laws: "ok g \<Longrightarrow> pg_add_edge G a b e g = Some (i, g') \<Longrightarrow>
      ok g' \<and> pg_edge G g i = None
      \<and> pg_node_weight G g' = pg_node_weight G g \<and> pg_edge G g' = (pg_edge G g)(i \<mapsto> (a, b, e))"
    and remove_node_laws: "ok g \<Longrightarrow> pg_remove_node G n g = (rw, g') \<Longrightarrow>
      ok g' \<and> rw = pg_node_weight G g n
      \<and> pg_node_weight G g' = (pg_node_weight G g)(n := None)
      \<and> pg_edge G g' = (\<lambda>i. case pg_edge G g i of
            Some (a, b, e) \<Rightarrow> if a = n \<or> b = n then None else Some (a, b, e) | None \<Rightarrow> None)"
    and remove_edge_laws: "ok g \<Longrightarrow> pg_remove_edge G i g = (re, g') \<Longrightarrow>
      ok g' \<and> re = edge_weight G g i
      \<and> pg_node_weight G g' = pg_node_weight G g \<and> pg_edge G g' = (pg_edge G g)(i := None)"
    and set_node_weight_laws: "ok g \<Longrightarrow> pg_node_weight G g n \<noteq> None \<Longrightarrow>
      ok (pg_set_node_weight G n w g)
      \<and> pg_node_weight G (pg_set_node_weight G n w g) = (pg_node_weight G g)(n \<mapsto> w)
      \<and> pg_edge G (pg_set_node_weight G n w g) = pg_edge G g"
    and node_indices_laws: "ok g \<Longrightarrow> distinct (pg_node_indices G g)
      \<and> set (pg_node_indices G g) = {n. pg_node_weight G g n \<noteq> None}"
    and edge_indices_laws: "ok g \<Longrightarrow> distinct (pg_edge_indices G g)
      \<and> set (pg_edge_indices G g) = {i. pg_edge G g i \<noteq> None}"
    and edges_directed_laws: "ok g \<Longrightarrow> distinct (pg_edges_directed G g n d)
      \<and> set (pg_edges_directed G g n d) = {i. \<exists>e. pg_edge G g i = Some e \<and> edge_at d n e}"
    and edge_ends: "ok g \<Longrightarrow> pg_edge G g i = Some (a, b, e) \<Longrightarrow>
      pg_node_weight G g a \<noteq> None \<and> pg_node_weight G g b \<noteq> None"
    and dfs_laws: "ok g \<Longrightarrow> \<forall>s \<in> set ss. pg_node_weight G g s \<noteq> None \<Longrightarrow>
      distinct (pg_dfs G g ss) \<and> set (pg_dfs G g ss) = (arcs G g)\<^sup>* `` set ss"
    and reverse_laws: "ok g \<Longrightarrow> ok (pg_reverse G g)
      \<and> pg_node_weight G (pg_reverse G g) = pg_node_weight G g
      \<and> pg_edge G (pg_reverse G g) i = map_option (\<lambda>(a, b, e). (b, a, e)) (pg_edge G g i)"
    and filter_nodes_laws: "ok g \<Longrightarrow> ok (pg_filter_nodes G P g)
      \<and> pg_node_weight G (pg_filter_nodes G P g) = (\<lambda>n. if P n then pg_node_weight G g n else None)
      \<and> pg_edge G (pg_filter_nodes G P g) = (\<lambda>i. case pg_edge G g i of
            Some (a, b, e) \<Rightarrow> if P a \<and> P b then Some (a, b, e) else None | None \<Rightarrow> None)"
begin

lemma set_edge_references:
  "ok g \<Longrightarrow> set (edge_references G g) = {(i, a, b, w). pg_edge G g i = Some (a, b, w)}"
  using edge_indices_laws [of g]
  by (fastforce simp: edge_references_def edge_ref_def split: option.splits)

lemma set_edges_directed:
  "ok g \<Longrightarrow> set (edges_directed G g n d) =
     {(i, a, b, w). pg_edge G g i = Some (a, b, w) \<and> edge_at d n (a, b, w)}"
  using edges_directed_laws [of g n d]
  by (fastforce simp: edges_directed_def edge_ref_def split: option.splits)

lemma set_node_references:
  "ok g \<Longrightarrow> set (node_references G g) = {(n, w). pg_node_weight G g n = Some w}"
  using node_indices_laws [of g]
  by (fastforce simp: node_references_def split: option.splits)

lemma finite_nodes: "ok g \<Longrightarrow> finite {n. pg_node_weight G g n \<noteq> None}"
  using node_indices_laws [of g] by (metis List.finite_set)

lemma finite_edges: "ok g \<Longrightarrow> finite {i. pg_edge G g i \<noteq> None}"
  using edge_indices_laws [of g] by (metis List.finite_set)

lemma arcs_nodes:
  "ok g \<Longrightarrow> (a, b) \<in> arcs G g \<Longrightarrow> pg_node_weight G g a \<noteq> None \<and> pg_node_weight G g b \<noteq> None"
  using edge_ends by (fastforce simp: arcs_def)

lemma weighted_arcs_add:
  "ok g \<Longrightarrow> pg_add_edge G a b w g = Some (i, g') \<Longrightarrow>
   weighted_arcs G g' = insert (a, w, b) (weighted_arcs G g)"
  using add_edge_laws [of g a b w i g'] by (force simp: weighted_arcs_def split: if_splits)

lemma weighted_arcs_nodes:
  "ok g \<Longrightarrow> (a, w, b) \<in> weighted_arcs G g \<Longrightarrow>
   pg_node_weight G g a \<noteq> None \<and> pg_node_weight G g b \<noteq> None"
  using edge_ends by (fastforce simp: weighted_arcs_def)

lemma add_node_fresh:
  "ok g \<Longrightarrow> pg_add_node G w g = (n, g') \<Longrightarrow> pg_node_weight G g m = Some v \<Longrightarrow>
   m \<noteq> n \<and> pg_node_weight G g' m = Some v"
  using add_node_laws [of g w n g'] by auto

end

section \<open>A list-based implementation\<close>

record ('w, 'e) list_graph =
  lg_nodes :: "(nat \<times> 'w) list"
  lg_edges :: "(nat \<times> nat \<times> nat \<times> 'e) list"
  lg_next_node :: nat
  lg_next_edge :: nat

definition lg_remove_node ::
    "nat \<Rightarrow> ('w, 'e) list_graph \<Rightarrow> 'w option \<times> ('w, 'e) list_graph" where
  "lg_remove_node n g =
     (map_of (lg_nodes g) n,
      g\<lparr>lg_nodes := filter (\<lambda>x. fst x \<noteq> n) (lg_nodes g),
        lg_edges := filter (\<lambda>(_, a, b, _). a \<noteq> n \<and> b \<noteq> n) (lg_edges g)\<rparr>)"

definition lg_remove_edge ::
    "nat \<Rightarrow> ('w, 'e) list_graph \<Rightarrow> 'e option \<times> ('w, 'e) list_graph" where
  "lg_remove_edge i g =
     (map_option (\<lambda>(_, _, w). w) (map_of (lg_edges g) i),
      g\<lparr>lg_edges := filter (\<lambda>x. fst x \<noteq> i) (lg_edges g)\<rparr>)"

definition lg_add_edge ::
    "nat \<Rightarrow> nat \<Rightarrow> 'e \<Rightarrow> ('w, 'e) list_graph \<Rightarrow> (nat \<times> ('w, 'e) list_graph) option" where
  "lg_add_edge a b e g =
     (if map_of (lg_nodes g) a = None \<or> map_of (lg_nodes g) b = None then None
      else Some (lg_next_edge g,
        g\<lparr>lg_edges := (lg_next_edge g, a, b, e) # lg_edges g, lg_next_edge := Suc (lg_next_edge g)\<rparr>))"

definition lg_set_node_weight :: "nat \<Rightarrow> 'w \<Rightarrow> ('w, 'e) list_graph \<Rightarrow> ('w, 'e) list_graph" where
  "lg_set_node_weight n w g =
     g\<lparr>lg_nodes := map (\<lambda>(m, v). (m, if m = n then w else v)) (lg_nodes g)\<rparr>"

definition lg_filter_nodes :: "(nat \<Rightarrow> bool) \<Rightarrow> ('w, 'e) list_graph \<Rightarrow> ('w, 'e) list_graph" where
  "lg_filter_nodes P g =
     g\<lparr>lg_nodes := filter (\<lambda>x. P (fst x)) (lg_nodes g),
       lg_edges := filter (\<lambda>(_, a, b, _). P a \<and> P b) (lg_edges g)\<rparr>"

definition list_digraph :: "(('w, 'e) list_graph, 'w, 'e) petgraph" where
  "list_digraph =
     \<lparr>pg_new = \<lparr>lg_nodes = [], lg_edges = [], lg_next_node = 0, lg_next_edge = 0\<rparr>,
      pg_add_node = (\<lambda>w g. (lg_next_node g,
        g\<lparr>lg_nodes := lg_nodes g @ [(lg_next_node g, w)], lg_next_node := Suc (lg_next_node g)\<rparr>)),
      pg_add_edge = lg_add_edge,
      pg_remove_node = lg_remove_node,
      pg_remove_edge = lg_remove_edge,
      pg_set_node_weight = lg_set_node_weight,
      pg_node_weight = (\<lambda>g. map_of (lg_nodes g)),
      pg_edge = (\<lambda>g. map_of (lg_edges g)),
      pg_node_indices = (\<lambda>g. map fst (lg_nodes g)),
      pg_edge_indices = (\<lambda>g. map fst (lg_edges g)),
      pg_edges_directed = (\<lambda>g n d. map fst (filter (\<lambda>(_, e). edge_at d n e) (lg_edges g))),
      pg_dfs = (\<lambda>g ss. rev (ref_visit (map (\<lambda>(_, a, b, _). (a, b)) (lg_edges g)) ss [])),
      pg_reverse = (\<lambda>g. g\<lparr>lg_edges := map (\<lambda>(i, a, b, w). (i, b, a, w)) (lg_edges g)\<rparr>),
      pg_filter_nodes = lg_filter_nodes\<rparr>"

definition lg_ok :: "('w, 'e) list_graph \<Rightarrow> bool" where
  "lg_ok g \<longleftrightarrow> distinct (map fst (lg_nodes g)) \<and> distinct (map fst (lg_edges g))
     \<and> dom (map_of (lg_nodes g)) \<subseteq> {..<lg_next_node g}
     \<and> dom (map_of (lg_edges g)) \<subseteq> {..<lg_next_edge g}
     \<and> (\<forall>i a b w. map_of (lg_edges g) i = Some (a, b, w) \<longrightarrow>
          a \<in> dom (map_of (lg_nodes g)) \<and> b \<in> dom (map_of (lg_nodes g)))"

lemma lg_okD:
  assumes "lg_ok g"
  shows "distinct (map fst (lg_nodes g))" "distinct (map fst (lg_edges g))"
    "map_of (lg_nodes g) n = Some w \<Longrightarrow> n < lg_next_node g"
    "map_of (lg_edges g) i = Some e \<Longrightarrow> i < lg_next_edge g"
    "map_of (lg_edges g) i = Some (a, b, x) \<Longrightarrow> map_of (lg_nodes g) a \<noteq> None"
    "map_of (lg_edges g) i = Some (a, b, x) \<Longrightarrow> map_of (lg_nodes g) b \<noteq> None"
  using assms unfolding lg_ok_def by blast+

lemma map_of_filter_fst:
  "map_of (filter (\<lambda>x. fst x \<noteq> k) xs) = (map_of xs)(k := None)"
  by (induction xs) (auto simp: fun_eq_iff)

lemma map_of_filter_snd:
  "distinct (map fst xs) \<Longrightarrow> map_of (filter (\<lambda>x. P (snd x)) xs) k =
     (case map_of xs k of Some v \<Rightarrow> if P v then Some v else None | None \<Rightarrow> None)"
proof (induction xs)
  case (Cons x xs)
  then have "map_of xs (fst x) = None" by (simp add: map_of_eq_None_iff)
  with Cons show ?case by (auto split: option.splits)
qed simp

lemma map_of_filter_key:
  "map_of (filter (\<lambda>x. P (fst x)) xs) = (\<lambda>k. if P k then map_of xs k else None)"
  by (induction xs) (auto simp: fun_eq_iff)

lemma map_of_map_vals: "map_of (map (\<lambda>(k, v). (k, f k v)) xs) k = map_option (f k) (map_of xs k)"
  by (induction xs) auto

lemma map_of_snoc: "map_of xs k = None \<Longrightarrow> map_of (xs @ [(k, v)]) = (map_of xs)(k \<mapsto> v)"
  by (induction xs) (auto simp: fun_eq_iff split: if_splits)

lemma distinct_map_filter: "distinct (map f xs) \<Longrightarrow> distinct (map f (filter P xs))"
  by (induction xs) auto

lemma ref_visit_reachable: "set (ref_visit es ss []) = (set es)\<^sup>* `` set ss"
proof
  show "set (ref_visit es ss []) \<subseteq> (set es)\<^sup>* `` set ss"
    using ref_visit_sound [of es ss "[]"] by simp
  have "set ss \<subseteq> set (ref_visit es ss [])" using ref_visit_complete [of "[]" es ss] by simp
  then show "(set es)\<^sup>* `` set ss \<subseteq> set (ref_visit es ss [])"
    using closed_rtrancl [OF ref_visit_closed [of es "[]" ss]] by auto
qed

lemma list_digraph_sel:
  "pg_add_edge list_digraph = lg_add_edge" "pg_remove_node list_digraph = lg_remove_node"
  "pg_remove_edge list_digraph = lg_remove_edge"
  "pg_set_node_weight list_digraph = lg_set_node_weight"
  "pg_filter_nodes list_digraph = lg_filter_nodes"
  "pg_node_weight list_digraph g = map_of (lg_nodes g)"
  "pg_edge list_digraph g = map_of (lg_edges g)"
  "pg_node_indices list_digraph g = map fst (lg_nodes g)"
  "pg_edge_indices list_digraph g = map fst (lg_edges g)"
  by (simp_all add: list_digraph_def)

lemma lg_arcs:
  assumes "lg_ok g"
  shows "set (map (\<lambda>(_, a, b, _). (a, b)) (lg_edges g)) = arcs list_digraph g"
proof -
  have "(i, a, b, w) \<in> set (lg_edges g) \<longleftrightarrow> map_of (lg_edges g) i = Some (a, b, w)" for i a b w
    using lg_okD(2) [OF assms] by simp
  then show ?thesis unfolding arcs_def list_digraph_sel by force
qed

lemma lg_add_node_laws:
  assumes ok: "lg_ok g" and add: "pg_add_node list_digraph w g = (n, g')"
  shows "lg_ok g' \<and> map_of (lg_nodes g) n = None
    \<and> map_of (lg_nodes g') = (map_of (lg_nodes g))(n \<mapsto> w) \<and> lg_edges g' = lg_edges g"
proof -
  have n: "n = lg_next_node g"
    "g' = g\<lparr>lg_nodes := lg_nodes g @ [(n, w)], lg_next_node := Suc n\<rparr>"
    using add by (auto simp: list_digraph_def)
  have fresh: "map_of (lg_nodes g) n = None" using lg_okD(3) [OF ok, of n] n(1) by (cases "map_of (lg_nodes g) n") auto
  then have m: "map_of (lg_nodes g') = (map_of (lg_nodes g))(n \<mapsto> w)"
    using n(2) map_of_snoc by fastforce
  have "distinct (map fst (lg_nodes g'))"
    using fresh lg_okD(1) [OF ok] n(2) by (auto simp: map_of_eq_None_iff)
  moreover have "lg_edges g' = lg_edges g" "lg_next_edge g' = lg_next_edge g"
    "lg_next_node g' = Suc (lg_next_node g)" using n by simp_all
  ultimately show ?thesis
    using ok fresh m n(1) unfolding lg_ok_def by auto
qed

lemma lg_add_edge_laws:
  assumes ok: "lg_ok g" and add: "lg_add_edge a b e g = Some (i, g')"
  shows "lg_ok g' \<and> map_of (lg_edges g) i = None
    \<and> lg_nodes g' = lg_nodes g \<and> map_of (lg_edges g') = (map_of (lg_edges g))(i \<mapsto> (a, b, e))"
proof -
  have ab: "map_of (lg_nodes g) a \<noteq> None" "map_of (lg_nodes g) b \<noteq> None" "i = lg_next_edge g"
    and g': "g' = g\<lparr>lg_edges := (i, a, b, e) # lg_edges g, lg_next_edge := Suc i\<rparr>"
    using add by (auto simp: lg_add_edge_def split: if_splits)
  have fresh: "map_of (lg_edges g) i = None"
    using lg_okD(4) [OF ok, of i] ab(3) by (cases "map_of (lg_edges g) i") auto
  moreover have "distinct (map fst (lg_edges g'))"
    using fresh lg_okD(2) [OF ok] g' by (simp add: map_of_eq_None_iff)
  ultimately show ?thesis
    using ok ab g' unfolding lg_ok_def by auto
qed

lemma lg_remove_node_laws:
  assumes ok: "lg_ok g" and rem: "lg_remove_node n g = (w, g')"
  shows "lg_ok g' \<and> w = map_of (lg_nodes g) n
    \<and> map_of (lg_nodes g') = (map_of (lg_nodes g))(n := None)
    \<and> map_of (lg_edges g') = (\<lambda>i. case map_of (lg_edges g) i of
        Some (a, b, e) \<Rightarrow> if a = n \<or> b = n then None else Some (a, b, e) | None \<Rightarrow> None)"
proof -
  have g': "lg_nodes g' = filter (\<lambda>x. fst x \<noteq> n) (lg_nodes g)"
    "lg_edges g' = filter (\<lambda>x. case snd x of (a, b, _) \<Rightarrow> a \<noteq> n \<and> b \<noteq> n) (lg_edges g)"
    "lg_next_node g' = lg_next_node g" "lg_next_edge g' = lg_next_edge g" "w = map_of (lg_nodes g) n"
    using rem by (auto simp: lg_remove_node_def intro!: filter_cong)
  have nodes: "map_of (lg_nodes g') = (map_of (lg_nodes g))(n := None)"
    by (simp add: g'(1) map_of_filter_fst)
  have edges: "map_of (lg_edges g') = (\<lambda>i. case map_of (lg_edges g) i of
        Some (a, b, e) \<Rightarrow> if a = n \<or> b = n then None else Some (a, b, e) | None \<Rightarrow> None)"
    unfolding g'(2) using map_of_filter_snd [OF lg_okD(2) [OF ok], of "\<lambda>(a, b, _). a \<noteq> n \<and> b \<noteq> n"]
    by (auto simp: fun_eq_iff split: option.splits)
  have "distinct (map fst (lg_nodes g'))" "distinct (map fst (lg_edges g'))"
    using lg_okD(1,2) [OF ok] by (simp_all add: g' distinct_map_filter)
  moreover have "dom (map_of (lg_nodes g')) \<subseteq> {..<lg_next_node g'}"
    unfolding nodes g'(3) using lg_okD(3) [OF ok] by (auto split: if_splits)
  moreover have "dom (map_of (lg_edges g')) \<subseteq> {..<lg_next_edge g'}"
    unfolding edges g'(4) using lg_okD(4) [OF ok]
    by (auto split: option.splits prod.splits if_splits)
  moreover have "a \<in> dom (map_of (lg_nodes g')) \<and> b \<in> dom (map_of (lg_nodes g'))"
    if "map_of (lg_edges g') i = Some (a, b, x)" for i a b x
    using that lg_okD(5,6) [OF ok, of i a b x]
    by (auto simp: edges nodes split: option.splits prod.splits if_splits)
  ultimately show ?thesis using nodes edges g'(5) unfolding lg_ok_def by auto
qed

lemma lg_remove_edge_laws:
  assumes ok: "lg_ok g" and rem: "lg_remove_edge i g = (w, g')"
  shows "lg_ok g' \<and> w = map_option (\<lambda>(_, _, w). w) (map_of (lg_edges g) i)
    \<and> lg_nodes g' = lg_nodes g \<and> map_of (lg_edges g') = (map_of (lg_edges g))(i := None)"
proof -
  have g': "lg_nodes g' = lg_nodes g" "lg_edges g' = filter (\<lambda>x. fst x \<noteq> i) (lg_edges g)"
    "lg_next_node g' = lg_next_node g" "lg_next_edge g' = lg_next_edge g"
    "w = map_option (\<lambda>(_, _, w). w) (map_of (lg_edges g) i)"
    using rem by (auto simp: lg_remove_edge_def)
  have edges: "map_of (lg_edges g') = (map_of (lg_edges g))(i := None)"
    by (simp add: g'(2) map_of_filter_fst)
  have "distinct (map fst (lg_edges g'))"
    using lg_okD(2) [OF ok] by (simp add: g' distinct_map_filter)
  then show ?thesis using ok edges g' unfolding lg_ok_def by (auto split: if_splits)
qed

lemma lg_set_node_weight_laws:
  assumes ok: "lg_ok g" and n: "map_of (lg_nodes g) n \<noteq> None"
  shows "lg_ok (lg_set_node_weight n w g)
    \<and> map_of (lg_nodes (lg_set_node_weight n w g)) = (map_of (lg_nodes g))(n \<mapsto> w)
    \<and> lg_edges (lg_set_node_weight n w g) = lg_edges g"
proof -
  let ?g = "lg_set_node_weight n w g"
  have nodes: "map_of (lg_nodes ?g) = (map_of (lg_nodes g))(n \<mapsto> w)"
    using n by (auto simp: lg_set_node_weight_def map_of_map_vals fun_eq_iff option.map_ident)
  have "map fst (lg_nodes ?g) = map fst (lg_nodes g)"
    by (simp add: lg_set_node_weight_def case_prod_beta)
  moreover have "lg_edges ?g = lg_edges g" "lg_next_node ?g = lg_next_node g"
    "lg_next_edge ?g = lg_next_edge g" by (simp_all add: lg_set_node_weight_def)
  moreover have "dom (map_of (lg_nodes ?g)) \<subseteq> {..<lg_next_node g}"
    unfolding nodes using n lg_okD(3) [OF ok] by auto
  moreover have "dom (map_of (lg_nodes ?g)) = dom (map_of (lg_nodes g))"
    unfolding nodes using n by auto
  ultimately have "lg_ok ?g" using ok [unfolded lg_ok_def] unfolding lg_ok_def by presburger
  with nodes \<open>lg_edges ?g = lg_edges g\<close> show ?thesis by blast
qed

lemma lg_reverse_laws:
  assumes ok: "lg_ok g"
  shows "lg_ok (pg_reverse list_digraph g) \<and> lg_nodes (pg_reverse list_digraph g) = lg_nodes g
    \<and> map_of (lg_edges (pg_reverse list_digraph g)) i =
        map_option (\<lambda>(a, b, e). (b, a, e)) (map_of (lg_edges g) i)"
proof -
  let ?g = "pg_reverse list_digraph g"
  have g': "lg_nodes ?g = lg_nodes g" "lg_edges ?g = map (\<lambda>(i, e). (i, case e of (a, b, w) \<Rightarrow> (b, a, w))) (lg_edges g)"
    "lg_next_node ?g = lg_next_node g" "lg_next_edge ?g = lg_next_edge g"
    by (simp_all add: list_digraph_def case_prod_beta)
  have edges: "map_of (lg_edges ?g) i = map_option (\<lambda>(a, b, e). (b, a, e)) (map_of (lg_edges g) i)" for i
    by (simp add: g'(2) map_of_map_vals)
  have "map fst (lg_edges ?g) = map fst (lg_edges g)" by (simp add: g' case_prod_beta)
  then have "distinct (map fst (lg_edges ?g))" using lg_okD(2) [OF ok] by metis
  moreover have "dom (map_of (lg_edges ?g)) = dom (map_of (lg_edges g))" by (auto simp: edges dom_def)
  moreover have "map_of (lg_nodes g) a \<noteq> None \<and> map_of (lg_nodes g) b \<noteq> None"
    if "map_of (lg_edges ?g) i = Some (a, b, w)" for i a b w
    using that lg_okD(5,6) [OF ok, of i b a w] by (auto simp: edges)
  ultimately show ?thesis
    using ok edges g'(1,3,4) unfolding lg_ok_def by (simp add: domIff)
qed

lemma lg_filter_nodes_laws:
  assumes ok: "lg_ok g"
  shows "lg_ok (lg_filter_nodes P g)
    \<and> map_of (lg_nodes (lg_filter_nodes P g)) = (\<lambda>n. if P n then map_of (lg_nodes g) n else None)
    \<and> map_of (lg_edges (lg_filter_nodes P g)) = (\<lambda>i. case map_of (lg_edges g) i of
        Some (a, b, e) \<Rightarrow> if P a \<and> P b then Some (a, b, e) else None | None \<Rightarrow> None)"
proof -
  let ?g = "lg_filter_nodes P g"
  have g': "lg_nodes ?g = filter (\<lambda>x. P (fst x)) (lg_nodes g)"
    "lg_edges ?g = filter (\<lambda>x. case snd x of (a, b, _) \<Rightarrow> P a \<and> P b) (lg_edges g)"
    "lg_next_node ?g = lg_next_node g" "lg_next_edge ?g = lg_next_edge g"
    by (auto simp: lg_filter_nodes_def intro!: filter_cong)
  have nodes: "map_of (lg_nodes ?g) = (\<lambda>n. if P n then map_of (lg_nodes g) n else None)"
    by (simp add: g'(1) map_of_filter_key)
  have edges: "map_of (lg_edges ?g) = (\<lambda>i. case map_of (lg_edges g) i of
        Some (a, b, e) \<Rightarrow> if P a \<and> P b then Some (a, b, e) else None | None \<Rightarrow> None)"
    unfolding g'(2) using map_of_filter_snd [OF lg_okD(2) [OF ok], of "\<lambda>(a, b, _). P a \<and> P b"]
    by (auto simp: fun_eq_iff split: option.splits)
  have "distinct (map fst (lg_nodes ?g))" "distinct (map fst (lg_edges ?g))"
    using lg_okD(1,2) [OF ok] by (simp_all add: g' distinct_map_filter)
  moreover have "dom (map_of (lg_nodes ?g)) \<subseteq> {..<lg_next_node ?g}"
    unfolding nodes g'(3) using lg_okD(3) [OF ok] by (auto split: if_splits)
  moreover have "dom (map_of (lg_edges ?g)) \<subseteq> {..<lg_next_edge ?g}"
    unfolding edges g'(4) using lg_okD(4) [OF ok]
    by (auto split: option.splits prod.splits if_splits)
  moreover have "a \<in> dom (map_of (lg_nodes ?g)) \<and> b \<in> dom (map_of (lg_nodes ?g))"
    if "map_of (lg_edges ?g) i = Some (a, b, x)" for i a b x
    using that lg_okD(5,6) [OF ok, of i a b x]
    by (auto simp: edges nodes split: option.splits prod.splits if_splits)
  ultimately show ?thesis using nodes edges unfolding lg_ok_def by auto
qed

interpretation list_pg: stable_digraph list_digraph lg_ok
proof (unfold_locales, goal_cases)
  case (12 g n d)
  have "distinct (map fst (filter (\<lambda>(_, e). edge_at d n e) (lg_edges g)))"
    using lg_okD(2) [OF 12] by (rule distinct_map_filter)
  moreover have "(i, e) \<in> set (lg_edges g) \<longleftrightarrow> map_of (lg_edges g) i = Some e" for i e
    using lg_okD(2) [OF 12] by simp
  ultimately show ?case
    unfolding list_digraph_sel by (force simp: list_digraph_def)
next
  case (13 g i a b e)
  then show ?case using lg_okD(5,6) [OF 13(1)] by (simp add: list_digraph_sel)
next
  case (14 g ss)
  then show ?case
    using lg_arcs [of g] ref_visit_reachable [of "map (\<lambda>(_, a, b, _). (a, b)) (lg_edges g)" ss]
    by (simp add: list_digraph_def ref_visit_distinct)
next
  case (10 g)
  then show ?case using lg_okD(1) [OF 10] by (auto simp: list_digraph_sel map_of_eq_None_iff)
next
  case (11 g)
  then show ?case using lg_okD(2) [OF 11] by (auto simp: list_digraph_sel map_of_eq_None_iff)
next
  case 1
  show ?case by (simp add: list_digraph_def lg_ok_def)
next
  case 2
  show ?case by (simp add: list_digraph_def)
next
  case 3
  show ?case by (simp add: list_digraph_def)
next
  case (4 g w n g')
  then show ?case using lg_add_node_laws [OF 4] by (simp add: list_digraph_sel)
next
  case (5 g a b e)
  show ?case by (simp add: list_digraph_sel lg_add_edge_def)
next
  case (6 g a b e i g')
  then show ?case using lg_add_edge_laws [of g a b e i g'] by (simp add: list_digraph_sel)
next
  case (7 g n rw g')
  then show ?case using lg_remove_node_laws [of g n rw g'] by (simp add: list_digraph_sel)
next
  case (8 g i re g')
  then show ?case
    using lg_remove_edge_laws [of g i re g'] by (simp add: list_digraph_sel edge_weight_def)
next
  case (9 g n w)
  then show ?case using lg_set_node_weight_laws [of g n w] by (simp add: list_digraph_sel)
next
  case (15 g i)
  then show ?case using lg_reverse_laws [of g i] by (simp add: list_digraph_sel)
next
  case (16 g P)
  then show ?case using lg_filter_nodes_laws [of g P] unfolding list_digraph_sel by simp
qed

end
