(* ===== verification/GraphAlgos.thy ===== *)
theory GraphAlgos
  imports Petgraph "HOL-Library.Monad_Syntax"
begin

text \<open>
  The traversals of \<^verbatim>\<open>src/graph_algos/mod.rs\<close>: the enumeration of the edge-simple paths
  between two nodes, the depth-first exploration that returns a path to every reachable
  node, and the walk along a word of edge weights.  They are generic over the graph: the
  argument \<open>out\<close> gives the outgoing edges of a node (index, target, weight) in the
  order in which the library yields them.  An iterator is the list of what it yields; a
  loop that does not end has no list, so returning is part of what is proved.
\<close>

type_synonym 'e out_fun = "nat \<Rightarrow> (nat \<times> nat \<times> 'e) list"

definition pg_out :: "('g, 'w, 'e) petgraph \<Rightarrow> 'g \<Rightarrow> 'e out_fun" where
  "pg_out G g n = map (\<lambda>(i, _, b, w). (i, b, w)) (edges_directed G g n Outgoing)"

section \<open>All simple paths\<close>

text \<open>The state of the iterator: the visited edges and the stack of pending children.\<close>

partial_function (option) simple_paths_loop ::
    "'e out_fun \<Rightarrow> nat \<Rightarrow> nat list \<Rightarrow> (nat \<times> nat \<times> 'e) list list \<Rightarrow> nat list list option" where
  "simple_paths_loop out to visited stack =
     (case stack of
        [] \<Rightarrow> Some []
      | children # stack' \<Rightarrow>
          (case children of
             [] \<Rightarrow> simple_paths_loop out to (butlast visited) stack'
           | (e, t, _) # children' \<Rightarrow>
               if t = to then
                 do { ps \<leftarrow> simple_paths_loop out to visited (children' # stack');
                      Some ((visited @ [e]) # ps) }
               else if e \<notin> set visited then
                 simple_paths_loop out to (visited @ [e]) (out t # children' # stack')
               else simple_paths_loop out to visited (children' # stack')))"

definition all_simple_paths :: "'e out_fun \<Rightarrow> nat \<Rightarrow> nat \<Rightarrow> nat list list option" where
  "all_simple_paths out start to = simple_paths_loop out to [] [out start]"

section \<open>Exploration\<close>

definition push_children ::
    "'e out_fun \<Rightarrow> nat list \<Rightarrow> nat list \<Rightarrow> nat \<Rightarrow> (nat list \<times> nat) list" where
  "push_children out visited pth n =
     map (\<lambda>(e, t, _). (pth @ [e], t)) (filter (\<lambda>(_, t, _). t \<notin> set visited) (out n))"

partial_function (option) explore_loop ::
    "'e out_fun \<Rightarrow> nat list \<Rightarrow> (nat list \<times> nat) list \<Rightarrow> (nat list \<times> nat) list option" where
  "explore_loop out visited stack =
     (case stack of
        [] \<Rightarrow> Some []
      | (pth, n) # stack' \<Rightarrow>
          if n \<in> set visited then explore_loop out visited stack'
          else
            do { rest \<leftarrow> explore_loop out (visited @ [n])
                   (rev (push_children out (visited @ [n]) pth n) @ stack');
                 Some ((pth, n) # rest) })"

definition explore_paths :: "'e out_fun \<Rightarrow> nat \<Rightarrow> (nat list \<times> nat) list option" where
  "explore_paths out start = explore_loop out [] [([], start)]"

section \<open>Following a word\<close>

fun find_node :: "'e out_fun \<Rightarrow> nat \<Rightarrow> 'e list \<Rightarrow> nat option" where
  "find_node out nd [] = Some nd"
| "find_node out nd (a # path) =
     (case find (\<lambda>(_, _, w). w = a) (out nd) of
        Some (_, t, _) \<Rightarrow> find_node out t path
      | None \<Rightarrow> None)"

section \<open>Paths of edges\<close>

definition out_rel :: "'e out_fun \<Rightarrow> (nat \<times> nat \<times> nat) set" where
  "out_rel out = {(n, e, t). \<exists>w. (e, t, w) \<in> set (out n)}"

text \<open>
  The paths the enumeration is asked for: a sequence of distinct edges from one node to
  another that meets the target only at its end.
\<close>

fun simple_path :: "'e out_fun \<Rightarrow> nat set \<Rightarrow> nat \<Rightarrow> nat \<Rightarrow> nat list \<Rightarrow> bool" where
  "simple_path out avoid n to [] = False"
| "simple_path out avoid n to [e] = (\<exists>w. (e, to, w) \<in> set (out n))"
| "simple_path out avoid n to (e # es) =
     (\<exists>t w. (e, t, w) \<in> set (out n) \<and> t \<noteq> to \<and> e \<notin> avoid \<and> simple_path out (insert e avoid) t to es)"

fun child_path ::
    "'e out_fun \<Rightarrow> nat set \<Rightarrow> (nat \<times> nat \<times> 'e) list \<Rightarrow> nat \<Rightarrow> nat list \<Rightarrow> bool" where
  "child_path out avoid cs to [] = False"
| "child_path out avoid cs to [e] = (\<exists>w. (e, to, w) \<in> set cs)"
| "child_path out avoid cs to (e # es) =
     (\<exists>t w. (e, t, w) \<in> set cs \<and> t \<noteq> to \<and> e \<notin> avoid \<and> simple_path out (insert e avoid) t to es)"

lemma simple_path_child: "simple_path out avoid n to p \<longleftrightarrow> child_path out avoid (out n) to p"
  by (induction p rule: induct_list012) auto

text \<open>
  A finite graph: finitely many edges, each the edge of one source and one target, and
  listed once.
\<close>

definition out_wf :: "nat set \<Rightarrow> 'e out_fun \<Rightarrow> bool" where
  "out_wf E out \<longleftrightarrow> finite E \<and> (\<forall>n. fst ` set (out n) \<subseteq> E \<and> distinct (map fst (out n)))
     \<and> (\<forall>n m e t u. (n, e, t) \<in> out_rel out \<longrightarrow> (m, e, u) \<in> out_rel out \<longrightarrow> n = m \<and> t = u)"

lemma out_wfD:
  assumes "out_wf E out"
  shows "finite E" "fst ` set (out n) \<subseteq> E" "distinct (map fst (out n))"
    "(n, e, t) \<in> out_rel out \<Longrightarrow> (m, e, u) \<in> out_rel out \<Longrightarrow> n = m \<and> t = u"
  using assms unfolding out_wf_def by blast+

section \<open>The enumeration of simple paths\<close>

lemma child_path_Cons:
  "child_path out avoid ((e, t, w) # cs) to p \<longleftrightarrow>
     t = to \<and> p = [e]
     \<or> t \<noteq> to \<and> e \<notin> avoid \<and> (\<exists>q. p = e # q \<and> simple_path out (insert e avoid) t to q)
     \<or> child_path out avoid cs to p"
proof (cases p)
  case (Cons x q)
  show ?thesis
  proof (cases q)
    case (Cons y r)
    then show ?thesis
      unfolding \<open>p = x # q\<close> Cons child_path.simps
      by (cases "x = e") (simp_all del: simple_path.simps, blast+)
  qed (use Cons in auto)
qed simp

lemma child_path_hd: "child_path out avoid cs to p \<Longrightarrow> p \<noteq> [] \<and> hd p \<in> fst ` set cs"
  by (induction p rule: induct_list012) force+

lemma simple_paths_loop_steps:
  "simple_paths_loop out to visited [] = Some []"
  "simple_paths_loop out to visited ([] # stack) = simple_paths_loop out to (butlast visited) stack"
  "simple_paths_loop out to visited (((e, t, w) # cs) # stack) =
     (if t = to then
        do { ps \<leftarrow> simple_paths_loop out to visited (cs # stack); Some ((visited @ [e]) # ps) }
      else if e \<notin> set visited then
        simple_paths_loop out to (visited @ [e]) (out t # cs # stack)
      else simple_paths_loop out to visited (cs # stack))"
  by (subst simple_paths_loop.simps, simp)+

lemma simple_paths_loop_spec:
  assumes wf: "out_wf E out"
  shows "set visited \<subseteq> E \<Longrightarrow> fst ` set cs \<subseteq> E \<Longrightarrow> distinct (map fst cs) \<Longrightarrow>
    \<exists>ps. (\<forall>stack. simple_paths_loop out to visited (cs # stack) =
           do { qs \<leftarrow> simple_paths_loop out to (butlast visited) stack;
                Some (map ((@) visited) ps @ qs) })
      \<and> distinct ps \<and> (\<forall>p. p \<in> set ps \<longleftrightarrow> child_path out (set visited) cs to p)"
proof (induction "card (E - set visited)" arbitrary: visited cs rule: less_induct)
  case less
  note outer = less.hyps and vis = less.prems(1)
  show ?case
    using less.prems(2,3)
  proof (induction cs)
    case Nil
    have none: "\<not> child_path out (set visited) [] to p" for p
      by (induction p rule: induct_list012) auto
    show ?case
      by (intro exI [of _ "[]"]) (simp add: none simple_paths_loop_steps)
  next
    case (Cons c cs)
    obtain e t w where c: "c = (e, t, w)" by (cases c)
    from Cons obtain ps where ps: "\<And>stack. simple_paths_loop out to visited (cs # stack) =
           do { qs \<leftarrow> simple_paths_loop out to (butlast visited) stack;
                Some (map ((@) visited) ps @ qs) }"
      "distinct ps" "\<And>p. p \<in> set ps \<longleftrightarrow> child_path out (set visited) cs to p" by auto
    have no_e: "hd p \<noteq> e" if "child_path out (set visited) cs to p" for p
      using child_path_hd [OF that] Cons.prems(2) c by auto
    consider "t = to" | "t \<noteq> to" "e \<in> set visited" | "t \<noteq> to" "e \<notin> set visited" by blast
    then show ?case
    proof cases
      case 1
      show ?thesis
      proof (intro exI [of _ "[e] # ps"] conjI allI)
        show "simple_paths_loop out to visited ((c # cs) # stack) =
           do { qs \<leftarrow> simple_paths_loop out to (butlast visited) stack;
                Some (map ((@) visited) ([e] # ps) @ qs) }" for stack
          using 1 c ps(1) [of stack]
          by (cases "simple_paths_loop out to (butlast visited) stack") (auto simp: simple_paths_loop_steps)
        show "distinct ([e] # ps)" using ps(2,3) no_e [of "[e]"] by auto
        show "p \<in> set ([e] # ps) \<longleftrightarrow> child_path out (set visited) (c # cs) to p" for p
          unfolding c child_path_Cons using 1 ps(3) by auto
      qed
    next
      case 2
      then show ?thesis
        by (intro exI [of _ ps]) (simp add: simple_paths_loop_steps ps c child_path_Cons)
    next
      case 3
      have e: "e \<in> E" using Cons.prems(1) c by auto
      have "card (E - set (visited @ [e])) < card (E - set visited)"
        using e 3 out_wfD(1) [OF wf] by (intro psubset_card_mono) auto
      from outer [OF this, of "out t"] e vis out_wfD(2,3) [OF wf, of t] obtain rs where
        rs: "\<And>stack. simple_paths_loop out to (visited @ [e]) (out t # stack) =
           do { qs \<leftarrow> simple_paths_loop out to visited stack;
                Some (map ((@) (visited @ [e])) rs @ qs) }"
        "distinct rs" "\<And>p. p \<in> set rs \<longleftrightarrow> child_path out (set (visited @ [e])) (out t) to p"
        by auto
      show ?thesis
      proof (intro exI [of _ "map ((#) e) rs @ ps"] conjI allI)
        show "simple_paths_loop out to visited ((c # cs) # stack) =
           do { qs \<leftarrow> simple_paths_loop out to (butlast visited) stack;
                Some (map ((@) visited) (map ((#) e) rs @ ps) @ qs) }" for stack
        proof -
          have "simple_paths_loop out to visited ((c # cs) # stack) =
              simple_paths_loop out to (visited @ [e]) (out t # cs # stack)"
            using 3 c by (simp add: simple_paths_loop_steps)
          then show ?thesis
            unfolding rs(1) ps(1)
            by (cases "simple_paths_loop out to (butlast visited) stack") auto
        qed
        show "distinct (map ((#) e) rs @ ps)"
          using ps(2,3) rs(2) no_e [of "e # _"] by (auto simp: distinct_map)
        show "p \<in> set (map ((#) e) rs @ ps) \<longleftrightarrow> child_path out (set visited) (c # cs) to p" for p
          unfolding c child_path_Cons using 3 ps(3) rs(3) by (auto simp: simple_path_child)
      qed
    qed
  qed
qed

lemma edge_path_last: "edge_path E n p m \<Longrightarrow> p \<noteq> [] \<Longrightarrow> \<exists>k. (k, last p, m) \<in> E"
  by (induction p arbitrary: n) (auto split: if_splits)

lemma split_Cons_all:
  "(\<forall>q r. e # p = q @ r \<longrightarrow> q \<noteq> [] \<longrightarrow> r \<noteq> [] \<longrightarrow> P q) \<longleftrightarrow>
     (p \<noteq> [] \<longrightarrow> P [e]) \<and> (\<forall>q r. p = q @ r \<longrightarrow> q \<noteq> [] \<longrightarrow> r \<noteq> [] \<longrightarrow> P (e # q))"
  by (auto simp: Cons_eq_append_conv)

lemma simple_path_iff:
  assumes wf: "out_wf E out"
  shows "simple_path out avoid n to p \<longleftrightarrow>
     p \<noteq> [] \<and> distinct p \<and> set (butlast p) \<inter> avoid = {} \<and> edge_path (out_rel out) n p to
     \<and> (\<forall>q r. p = q @ r \<longrightarrow> q \<noteq> [] \<longrightarrow> r \<noteq> [] \<longrightarrow> \<not> edge_path (out_rel out) n q to)"
proof (induction p arbitrary: avoid n rule: induct_list012)
  case (2 e)
  show ?case by (auto simp: out_rel_def Cons_eq_append_conv)
next
  case (3 e e' es)
  let ?p = "e' # es" and ?R = "out_rel out"
  note uniq = out_wfD(4) [OF wf]
  have split: "(\<forall>q r. e # ?p = q @ r \<longrightarrow> q \<noteq> [] \<longrightarrow> r \<noteq> [] \<longrightarrow> \<not> edge_path ?R n q to) \<longleftrightarrow>
      t \<noteq> to \<and> (\<forall>q r. ?p = q @ r \<longrightarrow> q \<noteq> [] \<longrightarrow> r \<noteq> [] \<longrightarrow> \<not> edge_path ?R t q to)"
    if t: "(n, e, t) \<in> ?R" for t
  proof -
    have step: "edge_path ?R n (e # q) to \<longleftrightarrow> edge_path ?R t q to" for q
      using t uniq by (metis edge_path.simps(2))
    show ?thesis unfolding split_Cons_all step by simp
  qed
  have e_last: "e \<noteq> last ?p" if "(n, e, t) \<in> ?R" "t \<noteq> to" "edge_path ?R m ?p to" for t m
    using edge_path_last [OF that(3)] uniq that(1,2) by auto
  have dist: "distinct (e # ?p) \<and> set (butlast (e # ?p)) \<inter> avoid = {} \<longleftrightarrow>
      e \<notin> avoid \<and> distinct ?p \<and> set (butlast ?p) \<inter> insert e avoid = {}" if "e \<noteq> last ?p"
  proof -
    have "set ?p = set (butlast ?p) \<union> {last ?p}"
      by (metis append_butlast_last_id list.discI set_append list.simps(15) empty_set)
    then show ?thesis using that by auto
  qed
  have "simple_path out avoid n to (e # ?p) \<longleftrightarrow>
      (\<exists>t. (n, e, t) \<in> ?R \<and> t \<noteq> to \<and> e \<notin> avoid \<and> simple_path out (insert e avoid) t to ?p)"
    by (auto simp: out_rel_def)
  also have "\<dots> \<longleftrightarrow> (\<exists>t. (n, e, t) \<in> ?R \<and> t \<noteq> to \<and> edge_path ?R t ?p to
      \<and> distinct (e # ?p) \<and> set (butlast (e # ?p)) \<inter> avoid = {}
      \<and> (\<forall>q r. ?p = q @ r \<longrightarrow> q \<noteq> [] \<longrightarrow> r \<noteq> [] \<longrightarrow> \<not> edge_path ?R t q to))"
    unfolding "3.IH"(2) using e_last dist by blast
  also have "\<dots> \<longleftrightarrow> (\<exists>t. (n, e, t) \<in> ?R \<and> edge_path ?R t ?p to)
      \<and> distinct (e # ?p) \<and> set (butlast (e # ?p)) \<inter> avoid = {}
      \<and> (\<forall>q r. e # ?p = q @ r \<longrightarrow> q \<noteq> [] \<longrightarrow> r \<noteq> [] \<longrightarrow> \<not> edge_path ?R n q to)"
    using split by blast
  also have "\<dots> \<longleftrightarrow> edge_path ?R n (e # ?p) to
      \<and> distinct (e # ?p) \<and> set (butlast (e # ?p)) \<inter> avoid = {}
      \<and> (\<forall>q r. e # ?p = q @ r \<longrightarrow> q \<noteq> [] \<longrightarrow> r \<noteq> [] \<longrightarrow> \<not> edge_path ?R n q to)"
    by (simp only: edge_path.simps(2) [of ?R n e ?p])
  finally show ?case by blast
qed simp

text \<open>
  On a finite graph the enumeration returns, and yields exactly the nonempty
  sequences of distinct edges from the start that reach the target, and reach it only at
  their end, each once.
\<close>

theorem all_simple_paths_exact:
  assumes "out_wf E out"
  shows "\<exists>ps. all_simple_paths out s to = Some ps \<and> distinct ps
    \<and> (\<forall>p. p \<in> set ps \<longleftrightarrow> p \<noteq> [] \<and> distinct p \<and> edge_path (out_rel out) s p to
        \<and> (\<forall>q r. p = q @ r \<longrightarrow> q \<noteq> [] \<longrightarrow> r \<noteq> [] \<longrightarrow> \<not> edge_path (out_rel out) s q to))"
proof -
  obtain ps where ps: "simple_paths_loop out to [] [out s] = Some ps" "distinct ps"
    "\<And>p. p \<in> set ps \<longleftrightarrow> simple_path out {} s to p"
    using simple_paths_loop_spec [OF assms, of "[]" "out s" to] out_wfD(2,3) [OF assms, of s]
    by (auto simp: simple_paths_loop_steps simple_path_child map_idI)
  then show ?thesis
    unfolding all_simple_paths_def by (simp add: simple_path_iff [OF assms])
qed

section \<open>The exploration\<close>

lemma explore_loop_steps:
  "explore_loop out visited [] = Some []"
  "explore_loop out visited ((p, n) # stack) =
     (if n \<in> set visited then explore_loop out visited stack
      else do { rest \<leftarrow> explore_loop out (visited @ [n])
                  (rev (push_children out (visited @ [n]) p n) @ stack);
                Some ((p, n) # rest) })"
  by (subst explore_loop.simps, simp)+

text \<open>What the exploration of a stack of nodes with their paths has to return.\<close>

definition explored ::
    "'e out_fun \<Rightarrow> nat set \<Rightarrow> (nat list \<times> nat) list \<Rightarrow> (nat list \<times> nat) list \<Rightarrow> bool" where
  "explored out visited stack rs \<longleftrightarrow>
     distinct (map snd rs) \<and> snd ` set rs \<inter> visited = {}
     \<and> snd ` set stack \<subseteq> visited \<union> snd ` set rs
     \<and> (\<forall>n e t w. n \<in> snd ` set rs \<longrightarrow> (e, t, w) \<in> set (out n) \<longrightarrow> t \<in> visited \<union> snd ` set rs)
     \<and> (\<forall>p n. (p, n) \<in> set rs \<longrightarrow>
          (\<exists>q m r. (q, m) \<in> set stack \<and> p = q @ r \<and> edge_path (out_rel out) m r n))"

lemma exploredD:
  assumes "explored out visited stack rs"
  shows "distinct (map snd rs)" "snd ` set rs \<inter> visited = {}"
    "snd ` set stack \<subseteq> visited \<union> snd ` set rs"
    "n \<in> snd ` set rs \<Longrightarrow> (e, t, w) \<in> set (out n) \<Longrightarrow> t \<in> visited \<union> snd ` set rs"
    "(p, n) \<in> set rs \<Longrightarrow> \<exists>q m r. (q, m) \<in> set stack \<and> p = q @ r \<and> edge_path (out_rel out) m r n"
  using assms unfolding explored_def by blast+

lemma explored_skip:
  assumes "explored out visited stack rs" "n \<in> visited"
  shows "explored out visited ((p, n) # stack) rs"
  unfolding explored_def
proof (intro conjI allI impI)
  fix q m assume "(q, m) \<in> set rs"
  then show "\<exists>q' m' r. (q', m') \<in> set ((p, n) # stack) \<and> q = q' @ r
      \<and> edge_path (out_rel out) m' r m"
    using exploredD(5) [OF assms(1)] by (meson list.set_intros(2))
next
  fix m e t w assume "m \<in> snd ` set rs" "(e, t, w) \<in> set (out m)"
  then show "t \<in> visited \<union> snd ` set rs" by (rule exploredD(4) [OF assms(1)])
qed (use exploredD(1-3) [OF assms(1)] assms(2) in simp_all)

lemma set_push_children:
  "(q, m) \<in> set (push_children out visited p n) \<longleftrightarrow>
     (\<exists>e w. (e, m, w) \<in> set (out n) \<and> m \<notin> set visited \<and> q = p @ [e])"
  by (force simp: push_children_def)

lemma explored_visit:
  assumes rs: "explored out (insert n visited) (rev (push_children out vs p n) @ stack) rs"
    and vs: "set vs = insert n visited" and n: "n \<notin> visited"
  shows "explored out visited ((p, n) # stack) ((p, n) # rs)"
  unfolding explored_def
proof (intro conjI allI impI)
  note D = exploredD [OF rs]
  show "distinct (map snd ((p, n) # rs))" using D(1,2) by auto
  show "snd ` set ((p, n) # rs) \<inter> visited = {}" using D(2) n by auto
  show "snd ` set ((p, n) # stack) \<subseteq> visited \<union> snd ` set ((p, n) # rs)" using D(3) by auto
  fix m e t w assume m: "m \<in> snd ` set ((p, n) # rs)" and out: "(e, t, w) \<in> set (out m)"
  show "t \<in> visited \<union> snd ` set ((p, n) # rs)"
  proof (cases "m \<in> snd ` set rs")
    case True
    then show ?thesis using D(4) [OF True out] by auto
  next
    case False
    then have "m = n" using m by simp
    then have "t \<in> set vs \<or> (p @ [e], t) \<in> set (push_children out vs p n)"
      using out set_push_children by blast
    then show ?thesis using D(3) vs by force
  qed
next
  note D = exploredD [OF rs]
  fix q m assume "(q, m) \<in> set ((p, n) # rs)"
  then consider "q = p" "m = n" | "(q, m) \<in> set rs" by auto
  then show "\<exists>q' m' r. (q', m') \<in> set ((p, n) # stack) \<and> q = q' @ r \<and> edge_path (out_rel out) m' r m"
  proof cases
    case 1
    then show ?thesis by (intro exI [of _ p] exI [of _ n] exI [of _ "[]"]) simp
  next
    case 2
    from D(5) [OF 2] obtain q' m' r where q: "q = q' @ r" "edge_path (out_rel out) m' r m"
      and "(q', m') \<in> set (push_children out vs p n) \<or> (q', m') \<in> set stack" by auto
    from this(3) show ?thesis
    proof
      assume "(q', m') \<in> set (push_children out vs p n)"
      then obtain e w where "(e, m', w) \<in> set (out n)" "q' = p @ [e]"
        unfolding set_push_children by blast
      then have "q = p @ (e # r)" "edge_path (out_rel out) n (e # r) m"
        using q by (auto simp: out_rel_def)
      moreover have "(p, n) \<in> set ((p, n) # stack)" by simp
      ultimately show ?thesis by blast
    next
      assume "(q', m') \<in> set stack"
      then have "(q', m') \<in> set ((p, n) # stack)" by simp
      with q show ?thesis by blast
    qed
  qed
qed

lemma explore_loop_spec:
  assumes fin: "finite R" and cl: "\<And>n e t w. n \<in> R \<Longrightarrow> (e, t, w) \<in> set (out n) \<Longrightarrow> t \<in> R"
  shows "snd ` set stack \<subseteq> R \<Longrightarrow> set visited \<subseteq> R \<Longrightarrow>
    \<exists>rs. explore_loop out visited stack = Some rs \<and> explored out (set visited) stack rs"
proof (induction "card (R - set visited)" arbitrary: visited stack rule: less_induct)
  case less
  note outer = less.hyps and vis = less.prems(2)
  show ?case
    using less.prems(1)
  proof (induction stack)
    case Nil
    show ?case by (simp add: explore_loop_steps explored_def)
  next
    case (Cons s stack)
    obtain p n where s: "s = (p, n)" by (cases s)
    have n: "n \<in> R" and st: "snd ` set stack \<subseteq> R" using Cons.prems s by auto
    show ?case
    proof (cases "n \<in> set visited")
      case True
      with Cons.IH [OF st] explored_skip show ?thesis by (auto simp: explore_loop_steps s)
    next
      case False
      let ?push = "push_children out (visited @ [n]) p n"
      have "card (R - set (visited @ [n])) < card (R - set visited)"
        using n False fin by (intro psubset_card_mono) auto
      moreover have "m \<in> R" if "(q, m) \<in> set ?push" for q m
        using n that cl [of n] unfolding set_push_children by blast
      then have "snd ` set (rev ?push @ stack) \<subseteq> R" using st by force
      moreover have "set (visited @ [n]) \<subseteq> R" using vis n by simp
      ultimately obtain rs where
        "explore_loop out (visited @ [n]) (rev ?push @ stack) = Some rs"
        "explored out (set (visited @ [n])) (rev ?push @ stack) rs"
        using outer by blast
      then show ?thesis
        using False explored_visit [of out n "set visited" "visited @ [n]" p stack rs]
        by (simp add: explore_loop_steps s)
    qed
  qed
qed

lemma explore_paths_spec:
  assumes "out_wf E out"
  shows "\<exists>rs. explore_paths out s = Some rs \<and> distinct (map snd rs)
    \<and> set (map snd rs) = {n. \<exists>p. edge_path (out_rel out) s p n}
    \<and> (\<forall>(p, n) \<in> set rs. edge_path (out_rel out) s p n)"
proof -
  define R where "R = insert s (\<Union>n. (\<lambda>(e, t, w). t) ` set (out n))"
  have "finite {(n, e, t). (n, e, t) \<in> out_rel out}"
  proof (rule inj_on_finite [of "\<lambda>(n, e, t). e" _ E])
    show "inj_on (\<lambda>(n, e, t). e) {(n, e, t). (n, e, t) \<in> out_rel out}"
      using out_wfD(4) [OF assms] by (auto simp: inj_on_def)
    show "(\<lambda>(n, e, t). e) ` {(n, e, t). (n, e, t) \<in> out_rel out} \<subseteq> E"
      using out_wfD(2) [OF assms] by (fastforce simp: out_rel_def)
  qed (rule out_wfD(1) [OF assms])
  then have "finite ((\<lambda>(n, e, t). t) ` {(n, e, t). (n, e, t) \<in> out_rel out})" by simp
  moreover have "R = insert s ((\<lambda>(n, e, t). t) ` {(n, e, t). (n, e, t) \<in> out_rel out})"
    by (force simp: R_def out_rel_def)
  ultimately have fin: "finite R" by simp
  have cl: "(e, t, w) \<in> set (out n) \<Longrightarrow> t \<in> R" for n e t w by (force simp: R_def)
  have "\<exists>rs. explore_loop out [] [([], s)] = Some rs \<and> explored out (set []) [([], s)] rs"
    by (rule explore_loop_spec [OF fin]) (use cl in \<open>auto simp: R_def\<close>)
  then obtain rs where
    rs: "explore_loop out [] [([], s)] = Some rs" "explored out (set []) [([], s)] rs" by blast
  note D = exploredD [OF rs(2)]
  have paths: "edge_path (out_rel out) s p n" if "(p, n) \<in> set rs" for p n
    using D(5) [OF that] by auto
  have "n \<in> snd ` set rs" if "m \<in> snd ` set rs" "edge_path (out_rel out) m p n" for m p n
    using that
  proof (induction p arbitrary: m)
    case (Cons e p)
    then obtain t w where "(e, t, w) \<in> set (out m)" "edge_path (out_rel out) t p n"
      by (auto simp: out_rel_def)
    moreover from this(1) have "t \<in> snd ` set rs" using D(4) [OF Cons.prems(1)] by auto
    ultimately show ?case by (intro Cons.IH)
  qed simp
  then have "set (map snd rs) = {n. \<exists>p. edge_path (out_rel out) s p n}"
    using D(3) paths by force
  with rs(1) D(1) paths show ?thesis unfolding explore_paths_def by blast
qed

text \<open>
  On a finite graph the exploration returns, reports every node reachable from the
  start exactly once, and with each node a path of edges from the start to it.
\<close>

theorem explore_paths_exact:
  assumes "out_wf E out"
  shows "\<exists>rs. explore_paths out s = Some rs \<and> distinct (map snd rs)
    \<and> set (map snd rs) = {n. \<exists>p. edge_path (out_rel out) s p n}
    \<and> (\<forall>(p, n) \<in> set rs. edge_path (out_rel out) s p n)"
  by (rule explore_paths_spec [OF assms])

section \<open>Following a word\<close>

definition weight_rel :: "'e out_fun \<Rightarrow> (nat \<times> 'e \<times> nat) set" where
  "weight_rel out = {(n, w, t). \<exists>e. (e, t, w) \<in> set (out n)}"

lemma find_node_spec:
  assumes "deterministic (weight_rel out)"
  shows "find_node out s word = Some n \<longleftrightarrow> edge_path (weight_rel out) s word n"
proof (induction word arbitrary: s)
  case (Cons a word)
  show ?case
  proof (cases "find (\<lambda>(_, _, w). w = a) (out s)")
    case None
    then have "(s, a, t) \<notin> weight_rel out" for t
      by (fastforce simp: weight_rel_def find_None_iff)
    then show ?thesis using None by simp
  next
    case (Some c)
    then have "c \<in> set (out s) \<and> (case c of (_, _, w) \<Rightarrow> w = a)" by (metis find_Some_iff nth_mem)
    then obtain e t where c: "c = (e, t, a)" "(e, t, a) \<in> set (out s)" by (cases c) auto
    then have "(s, a, t) \<in> weight_rel out" by (auto simp: weight_rel_def)
    then have "edge_path (weight_rel out) s (a # word) n \<longleftrightarrow> edge_path (weight_rel out) t word n"
      using deterministicD [OF assms] by auto
    then show ?thesis using Some c Cons.IH by simp
  qed
qed simp

text \<open>
  On a graph without two equally weighted edges out of one node, the walk ends in
  a node exactly when the word labels a path to it, and stops with no node exactly when
  the word labels no path at all.
\<close>

theorem find_node_iff:
  assumes "deterministic (weight_rel out)"
  shows "find_node out s word = Some n \<longleftrightarrow> edge_path (weight_rel out) s word n"
  by (rule find_node_spec [OF assms])

section \<open>The outgoing edges of a library graph\<close>

context stable_digraph
begin

lemma set_pg_out:
  "ok g \<Longrightarrow> (i, b, w) \<in> set (pg_out G g a) \<longleftrightarrow> pg_edge G g i = Some (a, b, w)"
  using set_edges_directed [of g a Outgoing] by (force simp: pg_out_def)

lemma pg_out_rel: "ok g \<Longrightarrow> (a, i, b) \<in> out_rel (pg_out G g) \<longleftrightarrow> (\<exists>w. pg_edge G g i = Some (a, b, w))"
  by (simp add: out_rel_def set_pg_out)

lemma pg_weight_rel: "ok g \<Longrightarrow> (a, w, b) \<in> weight_rel (pg_out G g) \<longleftrightarrow> (\<exists>i. pg_edge G g i = Some (a, b, w))"
  by (simp add: weight_rel_def set_pg_out)

lemma pg_out_wf:
  assumes "ok g"
  shows "out_wf {i. pg_edge G g i \<noteq> None} (pg_out G g)"
proof -
  have "map fst (pg_out G g n) = pg_edges_directed G g n Outgoing" for n
  proof -
    have *: "map (fst \<circ> (\<lambda>(i, _, b, w). (i, b, w))) (concat (map (edge_ref G g) is)) = is"
      if "\<forall>i \<in> set is. pg_edge G g i \<noteq> None" for "is"
      using that by (induction "is") (auto simp: edge_ref_def)
    show ?thesis
      unfolding pg_out_def edges_directed_def map_map
      by (rule *) (use edges_directed_laws [OF assms, of n Outgoing] in auto)
  qed
  then have dist: "distinct (map fst (pg_out G g n))" for n
    using edges_directed_laws [OF assms, of n Outgoing] by simp
  have sub: "fst ` set (pg_out G g n) \<subseteq> {i. pg_edge G g i \<noteq> None}" for n
  proof
    fix i assume "i \<in> fst ` set (pg_out G g n)"
    then obtain b w where "(i, b, w) \<in> set (pg_out G g n)" by auto
    then show "i \<in> {i. pg_edge G g i \<noteq> None}" by (simp add: set_pg_out [OF assms])
  qed
  have "n = m \<and> t = u"
    if "(n, e, t) \<in> out_rel (pg_out G g)" "(m, e, u) \<in> out_rel (pg_out G g)" for n m e t u
    using that by (auto simp: pg_out_rel [OF assms])
  with dist sub finite_edges [OF assms] show ?thesis unfolding out_wf_def by blast
qed

end

section \<open>A concrete graph\<close>

definition diamond :: "nat out_fun" where
  "diamond n = (if n = 0 then [(0, 1, 10), (1, 2, 11)]
     else if n = 1 then [(2, 3, 10), (3, 1, 12)] else if n = 2 then [(4, 3, 11)] else [])"

lemma diamond_out_wf: "out_wf {0, 1, 2, 3, 4} diamond"
  by (auto simp: out_wf_def out_rel_def diamond_def split: if_splits)

theorem all_simple_paths_exact_witness:
  "\<exists>ps. all_simple_paths diamond 0 3 = Some ps \<and> distinct ps
    \<and> (\<forall>p. p \<in> set ps \<longleftrightarrow> p \<noteq> [] \<and> distinct p \<and> edge_path (out_rel diamond) 0 p 3
        \<and> (\<forall>q r. p = q @ r \<longrightarrow> q \<noteq> [] \<longrightarrow> r \<noteq> [] \<longrightarrow> \<not> edge_path (out_rel diamond) 0 q 3))"
  by (rule all_simple_paths_exact [OF diamond_out_wf])

lemma all_simple_paths_diamond: "all_simple_paths diamond 0 3 = Some [[0, 2], [0, 3, 2], [1, 4]]"
  by (simp add: all_simple_paths_def simple_paths_loop_steps diamond_def)

theorem explore_paths_exact_witness:
  "\<exists>rs. explore_paths diamond 0 = Some rs \<and> distinct (map snd rs)
    \<and> set (map snd rs) = {n. \<exists>p. edge_path (out_rel diamond) 0 p n}
    \<and> (\<forall>(p, n) \<in> set rs. edge_path (out_rel diamond) 0 p n)"
  by (rule explore_paths_exact [OF diamond_out_wf])

lemma diamond_deterministic: "deterministic (weight_rel diamond)"
  by (auto simp: deterministic_def weight_rel_def diamond_def split: if_splits)

theorem find_node_iff_witness:
  "find_node diamond 0 [11, 11] = Some 3 \<longleftrightarrow> edge_path (weight_rel diamond) 0 [11, 11] 3"
  by (rule find_node_iff [OF diamond_deterministic])

end
