(* ===== verification/SimplifyPath.thy ===== *)
theory SimplifyPath
  imports Constraints
begin

text \<open>
  The normalisation of access paths of \<^verbatim>\<open>simplify_path\<close>
  (\<^verbatim>\<open>src/constraint_generation/mod.rs\<close>): pending additions are folded into the offset of the
  field that follows a load or a store, \<open>x.+y.load.field(b)\<close> becomes \<open>x.load.field(b + y)\<close>.
  The offsets are 64-bit, the constants of additions 128-bit; the arithmetic is that of a
  release build, which wraps, except where the code checks.  The checked conversion is the
  panic of the model.
\<close>

section \<open>128-bit constants\<close>

definition wrap_i128 :: "int \<Rightarrow> int" where
  "wrap_i128 x = (x + 2 ^ 127) mod 2 ^ 128 - 2 ^ 127"

definition in_i128 :: "int \<Rightarrow> bool" where
  "in_i128 x \<longleftrightarrow> - (2 ^ 127) \<le> x \<and> x < 2 ^ 127"

definition sum_i128 :: "int list \<Rightarrow> int" where
  "sum_i128 xs = foldl (\<lambda>a b. wrap_i128 (a + b)) 0 xs"

lemma wrap_i128_id: "in_i128 x \<Longrightarrow> wrap_i128 x = x"
  by (simp add: in_i128_def wrap_i128_def)

lemma wrap_i128_add: "wrap_i128 (wrap_i128 a + b) = wrap_i128 (a + b)"
proof -
  have "((a + 2 ^ 127) mod 2 ^ 128 - 2 ^ 127 + b + 2 ^ 127) mod 2 ^ 128 = (a + b + 2 ^ 127) mod (2 ^ 128 :: int)"
    by (simp add: mod_simps algebra_simps)
  then show ?thesis by (simp add: wrap_i128_def)
qed

lemma sum_i128_wrap: "sum_i128 xs = wrap_i128 (sum_list xs)"
proof -
  have "foldl (\<lambda>a b. wrap_i128 (a + b)) (wrap_i128 c) xs = wrap_i128 (c + sum_list xs)" for c
    by (induction xs arbitrary: c) (simp_all add: wrap_i128_add add.assoc)
  from this [of 0] show ?thesis by (simp add: sum_i128_def wrap_i128_def)
qed

section \<open>The loop\<close>

definition handle_adds_and_orig ::
    "field_label list \<Rightarrow> int list \<Rightarrow> field_label \<Rightarrow> field_label list" where
  "handle_adds_and_orig new_path adds orig = new_path @ map Add adds @ [orig]"

definition is_load_or_store :: "field_label \<Rightarrow> bool" where
  "is_load_or_store l \<longleftrightarrow> (case l of Load \<Rightarrow> True | Store \<Rightarrow> True | _ \<Rightarrow> False)"

text \<open>
  The loop over the labels from the current index on: the path built so far, the delayed
  additions.
\<close>

fun simplify_loop ::
    "field_label list \<Rightarrow> field_label list \<Rightarrow> int list \<Rightarrow> field_label list option" where
  "simplify_loop [] new_path delayed_adds = Some (new_path @ map Add delayed_adds)"
| "simplify_loop (l # ls) new_path delayed_adds =
     (case l of
        Add cst \<Rightarrow> simplify_loop ls new_path (delayed_adds @ [cst])
      | _ \<Rightarrow>
          if is_load_or_store l then
            (case ls of
               Field fld # ls' \<Rightarrow>
                 (case try_into_i64 (sum_i128 delayed_adds) of
                    None \<Rightarrow> None
                  | Some tot \<Rightarrow>
                      simplify_loop ls'
                        (new_path @ [l, Field (fld\<lparr>offset := wrap_i64 (offset fld + tot)\<rparr>)]) [])
             | _ \<Rightarrow> simplify_loop ls (handle_adds_and_orig new_path delayed_adds l) [])
          else simplify_loop ls (handle_adds_and_orig new_path delayed_adds l) [])"

definition simplify_path :: "'tid dtv \<Rightarrow> 'tid dtv option" where
  "simplify_path orig =
     map_option (create_with_path (dtv_var orig)) (simplify_loop (dtv_labels orig) [] [])"

section \<open>The documented rule\<close>

text \<open>
  One use of the rule of the comment above the function, with the addition of the machine.
\<close>

inductive fold_step :: "field_label list \<Rightarrow> field_label list \<Rightarrow> bool" where
  fold_add: "is_load_or_store p \<Longrightarrow>
    fold_step (u @ Add y # p # Field f # v)
      (u @ p # Field (f\<lparr>offset := wrap_i64 (offset f + y)\<rparr>) # v)"

definition labels_i64 :: "field_label list \<Rightarrow> bool" where
  "labels_i64 ls \<longleftrightarrow> (\<forall>f. Field f \<in> set ls \<longrightarrow> in_i64 (offset f))"

text \<open>Every run of consecutive additions sums to a 64-bit value.\<close>

definition runs_fit :: "field_label list \<Rightarrow> bool" where
  "runs_fit ls \<longleftrightarrow> (\<forall>u ys v. ls = u @ map Add ys @ v \<longrightarrow> in_i64 (sum_list ys))"

lemma labels_i64_simps [simp]:
  "labels_i64 []" "labels_i64 (l # ls) \<longleftrightarrow> (\<forall>f. l = Field f \<longrightarrow> in_i64 (offset f)) \<and> labels_i64 ls"
  by (auto simp: labels_i64_def)

lemma runs_fit_suffix: "runs_fit (u @ v) \<Longrightarrow> runs_fit v"
  unfolding runs_fit_def by (metis append.assoc)

lemma runs_fit_prefix: "runs_fit (map Add ys @ v) \<Longrightarrow> in_i64 (sum_list ys)"
  unfolding runs_fit_def by (metis append_Nil)

lemma wrap_i64_add: "wrap_i64 (wrap_i64 a + b) = wrap_i64 (a + b)"
proof -
  have "((a + 2 ^ 63) mod 2 ^ 64 - 2 ^ 63 + b + 2 ^ 63) mod 2 ^ 64 = (a + b + 2 ^ 63) mod (2 ^ 64 :: int)"
    by (simp add: mod_simps algebra_simps)
  then show ?thesis by (simp add: wrap_i64_def)
qed

lemma sum_i128_fits: "in_i64 (sum_list ys) \<Longrightarrow> sum_i128 ys = sum_list ys"
  by (simp add: sum_i128_wrap wrap_i128_id in_i128_def in_i64_def)

lemma is_load_or_store_cases: "is_load_or_store l \<longleftrightarrow> l = Load \<or> l = Store"
  by (cases l) (simp_all add: is_load_or_store_def)

lemma fold_adds:
  assumes "is_load_or_store p"
  shows "in_i64 (offset f) \<Longrightarrow>
    fold_step\<^sup>*\<^sup>* (u @ map Add ys @ p # Field f # v)
      (u @ p # Field (f\<lparr>offset := wrap_i64 (offset f + sum_list ys)\<rparr>) # v)"
proof (induction ys arbitrary: f rule: rev_induct)
  case Nil
  then show ?case by simp
next
  case (snoc y ys)
  let ?f = "f\<lparr>offset := wrap_i64 (offset f + y)\<rparr>"
  have "fold_step (u @ map Add (ys @ [y]) @ p # Field f # v) (u @ map Add ys @ p # Field ?f # v)"
    using fold_add [OF assms, of "u @ map Add ys" y f v] by simp
  also have "fold_step\<^sup>*\<^sup>* (u @ map Add ys @ p # Field ?f # v)
      (u @ p # Field (?f\<lparr>offset := wrap_i64 (offset ?f + sum_list ys)\<rparr>) # v)"
    by (rule snoc.IH) simp
  finally (rtranclp_trans [OF r_into_rtranclp]) show ?case
    using wrap_i64_add [of "offset f + y" "sum_list ys"] by (simp add: add.assoc add.commute [of y])
qed

lemma fold_step_context: "fold_step v w \<Longrightarrow> fold_step (u @ v) (u @ w)"
proof (induction rule: fold_step.induct)
  case (fold_add p u' y f v)
  then show ?case using fold_step.fold_add [OF fold_add, of "u @ u'" y f v] by simp
qed

lemma fold_steps_context: "fold_step\<^sup>*\<^sup>* v w \<Longrightarrow> fold_step\<^sup>*\<^sup>* (u @ v) (u @ w)"
  by (induction rule: rtranclp_induct) (auto intro: rtranclp.rtrancl_into_rtrancl fold_step_context)

lemma simplify_loop_other:
  assumes "\<And>c. l \<noteq> Add c" "\<not> (is_load_or_store l \<and> (\<exists>f ls'. ls = Field f # ls'))"
  shows "simplify_loop (l # ls) np adds = simplify_loop ls (np @ map Add adds @ [l]) []"
  using assms
  by (cases l; cases ls) (auto simp: handle_adds_and_orig_def is_load_or_store_def split: field_label.splits)

lemma simplify_loop_fold:
  assumes "is_load_or_store l"
  shows "simplify_loop (l # Field f # ls) np adds =
    (case try_into_i64 (sum_i128 adds) of None \<Rightarrow> None
     | Some t \<Rightarrow> simplify_loop ls (np @ [l, Field (f\<lparr>offset := wrap_i64 (offset f + t)\<rparr>)]) [])"
  using assms by (auto simp: is_load_or_store_cases is_load_or_store_def)

text \<open>The three cases of the loop, as an induction rule.\<close>

lemma label_cases:
  obtains (add) c where "l = Add c"
    | (fold) f ls' where "is_load_or_store l" "ls = Field f # ls'"
    | (other) "\<And>c. l \<noteq> Add c" "\<not> (is_load_or_store l \<and> (\<exists>f ls'. ls = Field f # ls'))"
  by blast

text \<open>Paths the rule does not apply to.\<close>

fun load_field :: "field_label list \<Rightarrow> bool" where
  "load_field (p # Field f # _) = is_load_or_store p"
| "load_field _ = False"

fun normal_path :: "field_label list \<Rightarrow> bool" where
  "normal_path [] = True"
| "normal_path (Add c # ls) = (normal_path ls \<and> \<not> load_field ls)"
| "normal_path (_ # ls) = normal_path ls"

lemma load_field_iff: "load_field ls \<longleftrightarrow> (\<exists>p f v. ls = p # Field f # v \<and> is_load_or_store p)"
  by (induction ls rule: load_field.induct) auto

lemma normal_path_Cons: "normal_path (l # ls) \<longleftrightarrow> normal_path ls \<and> ((\<exists>c. l = Add c) \<longrightarrow> \<not> load_field ls)"
  by (cases l) auto

lemma normal_path_iff: "normal_path ls \<longleftrightarrow> \<not> (\<exists>v. fold_step ls v)"
proof (induction ls)
  case Nil
  show ?case by (auto elim: fold_step.cases)
next
  case (Cons l ls)
  have "(\<exists>v. fold_step (l # ls) v) \<longleftrightarrow> (\<exists>v. fold_step ls v) \<or> (\<exists>c. l = Add c) \<and> load_field ls"
  proof
    assume "\<exists>v. fold_step (l # ls) v"
    then obtain p u y f v where *: "is_load_or_store p" "l # ls = u @ Add y # p # Field f # v"
      by (auto elim: fold_step.cases)
    show "(\<exists>v. fold_step ls v) \<or> (\<exists>c. l = Add c) \<and> load_field ls"
    proof (cases u)
      case Nil
      with * show ?thesis by (auto simp: load_field_iff)
    next
      case (Cons x u')
      with * have "ls = u' @ Add y # p # Field f # v" by simp
      then show ?thesis using fold_add [OF *(1)] by blast
    qed
  next
    assume "(\<exists>v. fold_step ls v) \<or> (\<exists>c. l = Add c) \<and> load_field ls"
    then show "\<exists>v. fold_step (l # ls) v"
    proof
      assume "\<exists>v. fold_step ls v"
      then obtain p u y f v where "is_load_or_store p" "ls = u @ Add y # p # Field f # v"
        by (auto elim: fold_step.cases)
      then show ?thesis using fold_add [of p "l # u" y f v] by auto
    next
      assume "(\<exists>c. l = Add c) \<and> load_field ls"
      then show ?thesis using fold_add [of _ "[]"] by (fastforce simp: load_field_iff)
    qed
  qed
  with Cons show ?case by (auto simp: normal_path_Cons)
qed

lemma normal_path_adds:
  "normal_path (map Add adds @ ls) \<longleftrightarrow> normal_path ls \<and> (adds \<noteq> [] \<longrightarrow> \<not> load_field ls)"
proof (induction adds)
  case (Cons a adds)
  have "load_field (map Add adds @ ls) \<longleftrightarrow> adds = [] \<and> load_field ls"
    by (cases adds) (auto simp: load_field_iff is_load_or_store_def)
  with Cons show ?case by auto
qed simp

lemma simplify_loop_spec:
  "labels_i64 ls \<Longrightarrow> runs_fit (map Add adds @ ls) \<Longrightarrow>
   \<exists>r. (\<forall>np. simplify_loop ls np adds = Some (np @ r)) \<and> fold_step\<^sup>*\<^sup>* (map Add adds @ ls) r
     \<and> normal_path r \<and> (\<forall>f r'. r = Field f # r' \<longrightarrow> adds = [] \<and> (\<exists>g ls'. ls = Field g # ls'))"
proof (induction "length ls" arbitrary: ls adds rule: less_induct)
  case less
  show ?case
  proof (cases ls)
    case Nil
    have "normal_path (map Add adds)" using normal_path_adds [of adds "[]"] by simp
    with Nil show ?thesis by (intro exI [of _ "map Add adds"]) auto
  next
    case (Cons l ks)
    show ?thesis
    proof (cases rule: label_cases [where l = l and ls = ks])
      case (add c)
      have "runs_fit (map Add (adds @ [c]) @ ks)" using less.prems(2) Cons add by simp
      moreover have "length ks < length ls" "labels_i64 ks" using less.prems(1) Cons by simp_all
      ultimately obtain r where
        "\<forall>np. simplify_loop ks np (adds @ [c]) = Some (np @ r)"
        "fold_step\<^sup>*\<^sup>* (map Add (adds @ [c]) @ ks) r" "normal_path r" "\<forall>f r'. r \<noteq> Field f # r'"
        using less.hyps [of ks "adds @ [c]"] by blast
      then show ?thesis using Cons add by (intro exI [of _ r]) auto
    next
      case (fold f ks')
      have fit: "in_i64 (sum_list adds)" using less.prems(2) by (rule runs_fit_prefix)
      have f: "in_i64 (offset f)" and "labels_i64 ks'" using less.prems(1) Cons fold by auto
      moreover have "runs_fit (map Add [] @ ks')"
        using runs_fit_suffix [of "map Add adds @ [l, Field f]"] less.prems(2) Cons fold by simp
      moreover have "length ks' < length ls" using Cons fold by simp
      ultimately obtain r where r: "\<forall>np. simplify_loop ks' np [] = Some (np @ r)"
        "fold_step\<^sup>*\<^sup>* ks' r" "normal_path r"
        using less.hyps [of ks' "[]"] by auto
      let ?h = "[l, Field (f\<lparr>offset := wrap_i64 (offset f + sum_list adds)\<rparr>)]"
      have "simplify_loop ls np adds = Some (np @ ?h @ r)" for np
        using Cons fold fit r(1) by (simp add: simplify_loop_fold sum_i128_fits try_into_i64_def del: simplify_loop.simps(2))
      moreover have "fold_step\<^sup>*\<^sup>* (map Add adds @ ls) (?h @ ks')"
        using fold_adds [OF fold(1) f, of "[]" adds ks'] Cons fold by simp
      then have "fold_step\<^sup>*\<^sup>* (map Add adds @ ls) (?h @ r)"
        using fold_steps_context [OF r(2), of ?h] by (rule rtranclp_trans)
      moreover have "normal_path (?h @ r)"
        using r(3) fold(1) by (auto simp: normal_path_Cons is_load_or_store_def)
      moreover have "\<forall>f r'. ?h @ r \<noteq> Field f # r'" using fold(1) by (auto simp: is_load_or_store_def)
      ultimately show ?thesis by blast
    next
      case other
      have "labels_i64 ks" "length ks < length ls" using less.prems(1) Cons by auto
      moreover have "runs_fit (map Add [] @ ks)"
        using runs_fit_suffix [of "map Add adds @ [l]"] less.prems(2) Cons by simp
      ultimately obtain r where r: "\<forall>np. simplify_loop ks np [] = Some (np @ r)"
        "fold_step\<^sup>*\<^sup>* ks r" "normal_path r" "\<forall>f r'. r = Field f # r' \<longrightarrow> (\<exists>g ls'. ks = Field g # ls')"
        using less.hyps [of ks "[]"] by auto
      have "simplify_loop ls np adds = Some (np @ map Add adds @ l # r)" for np
        using r(1) Cons simplify_loop_other [OF other] by (simp del: simplify_loop.simps(2))
      moreover have "fold_step\<^sup>*\<^sup>* (map Add adds @ ls) (map Add adds @ l # r)"
        using fold_steps_context [OF r(2), of "map Add adds @ [l]"] Cons by simp
      moreover have "\<not> load_field (l # r)" using r(4) other(2) by (auto simp: load_field_iff)
      then have "normal_path (map Add adds @ l # r)"
        using r(3) other(1) by (simp add: normal_path_adds normal_path_Cons)
      moreover have "adds = [] \<and> l = Field f" if "map Add adds @ l # r = Field f # r'" for f r'
        using that by (cases adds) auto
      ultimately show ?thesis using Cons by blast
    qed
  qed
qed

lemma fold_step_variance: "fold_step u v \<Longrightarrow> word_variance u = word_variance v"
  by (induction rule: fold_step.induct) simp

lemma fold_steps_variance: "fold_step\<^sup>*\<^sup>* u v \<Longrightarrow> word_variance u = word_variance v"
  by (induction rule: rtranclp_induct) (auto dest: fold_step_variance)


text \<open>A bound on the constants suffices for the sums.\<close>

fun add_mass :: "field_label list \<Rightarrow> int" where
  "add_mass [] = 0"
| "add_mass (Add c # ls) = \<bar>c\<bar> + add_mass ls"
| "add_mass (_ # ls) = add_mass ls"

lemma add_mass_nonneg: "0 \<le> add_mass ls"
  by (induction ls rule: add_mass.induct) auto

lemma add_mass_append [simp]: "add_mass (u @ v) = add_mass u + add_mass v"
  by (induction u rule: add_mass.induct) auto

lemma add_mass_adds: "\<bar>sum_list ys\<bar> \<le> add_mass (map Add ys)"
  by (induction ys) auto

lemma runs_fit_bound:
  assumes "add_mass ls < 2 ^ 63"
  shows "runs_fit ls"
  unfolding runs_fit_def
proof (intro allI impI)
  fix u ys v assume "ls = u @ map Add ys @ v"
  then have "\<bar>sum_list ys\<bar> < 2 ^ 63"
    using assms add_mass_adds [of ys] add_mass_nonneg [of u] add_mass_nonneg [of v] by simp
  then show "in_i64 (sum_list ys)" by (auto simp: in_i64_def)
qed

definition add_load_path :: "nat dtv" where
  "add_load_path = create_with_path (tv_new ''x'')
     [Load, Add 8, Add (- 4), Load, Field (field_new 2 32), Add 1, Store]"


lemma simplify_add_load_path:
  "simplify_path add_load_path = Some (create_with_path (tv_new ''x'')
     [Load, Load, Field (field_new 6 32), Add 1, Store])"
  by (simp add: simplify_path_def add_load_path_def handle_adds_and_orig_def
      is_load_or_store_def field_new_def sum_i128_def wrap_i128_def try_into_i64_def in_i64_def
      wrap_i64_def)

text \<open>The addition to the offset wraps even where the sum of the additions is checked.\<close>

lemma simplify_path_wraps:
  "simplify_loop [Add 1, Load, Field (field_new (2 ^ 63 - 1) 32)] [] [] =
     Some [Load, Field (field_new (- (2 ^ 63)) 32)]"
  by (simp add: handle_adds_and_orig_def is_load_or_store_def field_new_def sum_i128_def
      wrap_i128_def try_into_i64_def in_i64_def wrap_i64_def)

end
