(* ===== verification/FsaTypes.thy ===== *)
theory FsaTypes
  imports ConstraintSets "HOL-Library.List_Lexorder" "HOL-Library.Char_ord" "HOL-Library.Option_ord"
begin

text \<open>
  The data of \<^verbatim>\<open>src/solver/constraint_graph.rs\<close>: directions, control states, stack
  symbols, finite states and edges of the transducer, with their printed forms.  The
  automaton is built by iterating over B-tree sets of these values, so their derived
  orders are part of the model: every type is made a \<^verbatim>\<open>linorder\<close> with the
  lexicographic order of its fields, variants in the order of their declaration.
\<close>

section \<open>Derived orders\<close>

text \<open>A type whose values are compared through an injective key is linearly ordered.\<close>

named_theorems key_inj "injectivity of the comparison keys"

definition tv_key :: "('tid, 'z) type_variable_scheme \<Rightarrow> string \<times> 'tid option \<times> bool \<times> 'z" where
  "tv_key x = (tv_name x, tv_cs_tag x, tv_is_global x, type_variable.more x)"

lemma tv_key_inj [key_inj]: "tv_key x = tv_key y \<Longrightarrow> x = y"
  by (simp add: tv_key_def)

instantiation type_variable_ext :: (linorder, linorder) linorder
begin
definition less_eq_type_variable_ext ::
    "('a, 'b) type_variable_ext \<Rightarrow> ('a, 'b) type_variable_ext \<Rightarrow> bool" where
  "x \<le> y \<longleftrightarrow> tv_key x \<le> tv_key y"
definition less_type_variable_ext ::
    "('a, 'b) type_variable_ext \<Rightarrow> ('a, 'b) type_variable_ext \<Rightarrow> bool" where
  "x < y \<longleftrightarrow> tv_key x < tv_key y"
instance
  by standard (unfold less_eq_type_variable_ext_def less_type_variable_ext_def,
    simp_all add: less_le_not_le linear, auto intro: key_inj)
end

definition field_key :: "'z field_scheme \<Rightarrow> int \<times> nat \<times> 'z" where
  "field_key x = (offset x, fsize x, field.more x)"

lemma field_key_inj [key_inj]: "field_key x = field_key y \<Longrightarrow> x = y"
  by (simp add: field_key_def)

instantiation field_ext :: (linorder) linorder
begin
definition less_eq_field_ext :: "'a field_ext \<Rightarrow> 'a field_ext \<Rightarrow> bool" where
  "x \<le> y \<longleftrightarrow> field_key x \<le> field_key y"
definition less_field_ext :: "'a field_ext \<Rightarrow> 'a field_ext \<Rightarrow> bool" where
  "x < y \<longleftrightarrow> field_key x < field_key y"
instance
  by standard (unfold less_eq_field_ext_def less_field_ext_def,
    simp_all add: less_le_not_le linear, auto intro: key_inj)
end

fun label_key :: "field_label \<Rightarrow> nat \<times> nat \<times> field option \<times> int" where
  "label_key Load = (0, 0, None, 0)"
| "label_key Store = (1, 0, None, 0)"
| "label_key (In n) = (2, n, None, 0)"
| "label_key (Out n) = (3, n, None, 0)"
| "label_key (Field f) = (4, 0, Some f, 0)"
| "label_key (Add c) = (5, 0, None, c)"

lemma label_key_inj [key_inj]: "label_key x = label_key y \<Longrightarrow> x = y"
  by (cases x; cases y) simp_all

instantiation field_label :: linorder
begin
definition less_eq_field_label :: "field_label \<Rightarrow> field_label \<Rightarrow> bool" where
  "x \<le> y \<longleftrightarrow> label_key x \<le> label_key y"
definition less_field_label :: "field_label \<Rightarrow> field_label \<Rightarrow> bool" where
  "x < y \<longleftrightarrow> label_key x < label_key y"
instance
  by standard (unfold less_eq_field_label_def less_field_label_def,
    simp_all add: less_le_not_le linear, auto intro: key_inj)
end

definition variance_key :: "variance \<Rightarrow> bool" where
  "variance_key v \<longleftrightarrow> v = Contravariant"

lemma variance_key_inj [key_inj]: "variance_key x = variance_key y \<Longrightarrow> x = y"
  by (cases x; cases y) (simp_all add: variance_key_def)

instantiation variance :: linorder
begin
definition less_eq_variance :: "variance \<Rightarrow> variance \<Rightarrow> bool" where
  "x \<le> y \<longleftrightarrow> variance_key x \<le> variance_key y"
definition less_variance :: "variance \<Rightarrow> variance \<Rightarrow> bool" where
  "x < y \<longleftrightarrow> variance_key x < variance_key y"
instance
  by standard (unfold less_eq_variance_def less_variance_def,
    simp_all add: less_le_not_le linear, auto intro: key_inj)
end

definition dtv_key :: "('tid, 'z) dtv_scheme \<Rightarrow> 'tid type_variable \<times> field_label list \<times> 'z" where
  "dtv_key x = (dtv_var x, dtv_labels x, dtv.more x)"

lemma dtv_key_inj [key_inj]: "dtv_key x = dtv_key y \<Longrightarrow> x = y"
  by (simp add: dtv_key_def)

instantiation dtv_ext :: (linorder, linorder) linorder
begin
definition less_eq_dtv_ext :: "('a, 'b) dtv_ext \<Rightarrow> ('a, 'b) dtv_ext \<Rightarrow> bool" where
  "x \<le> y \<longleftrightarrow> dtv_key x \<le> dtv_key y"
definition less_dtv_ext :: "('a, 'b) dtv_ext \<Rightarrow> ('a, 'b) dtv_ext \<Rightarrow> bool" where
  "x < y \<longleftrightarrow> dtv_key x < dtv_key y"
instance
  by standard (unfold less_eq_dtv_ext_def less_dtv_ext_def,
    simp_all add: less_le_not_le linear, auto intro: key_inj)
end

definition subtype_key :: "('tid, 'z) subtype_constraint_scheme \<Rightarrow> 'tid dtv \<times> 'tid dtv \<times> 'z" where
  "subtype_key x = (sub_lhs x, sub_rhs x, subtype_constraint.more x)"

lemma subtype_key_inj [key_inj]: "subtype_key x = subtype_key y \<Longrightarrow> x = y"
  by (simp add: subtype_key_def)

instantiation subtype_constraint_ext :: (linorder, linorder) linorder
begin
definition less_eq_subtype_constraint_ext :: "('a, 'b) subtype_constraint_ext \<Rightarrow> ('a, 'b) subtype_constraint_ext \<Rightarrow> bool" where
  "x \<le> y \<longleftrightarrow> subtype_key x \<le> subtype_key y"
definition less_subtype_constraint_ext :: "('a, 'b) subtype_constraint_ext \<Rightarrow> ('a, 'b) subtype_constraint_ext \<Rightarrow> bool" where
  "x < y \<longleftrightarrow> subtype_key x < subtype_key y"
instance
  by standard (unfold less_eq_subtype_constraint_ext_def less_subtype_constraint_ext_def,
    simp_all add: less_le_not_le linear, auto intro: key_inj)
end

section \<open>States of the pushdown system\<close>

datatype direction = Lhs | Rhs

fun direction_not :: "direction \<Rightarrow> direction" where
  "direction_not Lhs = Rhs"
| "direction_not Rhs = Lhs"

record 'tid interesting_var =
  iv_tv :: "'tid type_variable"
  iv_dir :: direction

datatype 'tid vhat =
  Interesting "'tid interesting_var" | Uninteresting "'tid type_variable"

fun vhat_not :: "'tid vhat \<Rightarrow> 'tid vhat" where
  "vhat_not (Interesting iv) =
     Interesting \<lparr>iv_tv = iv_tv iv, iv_dir = direction_not (iv_dir iv)\<rparr>"
| "vhat_not (Uninteresting x) = Uninteresting x"

record 'tid control_state =
  dt_var :: "'tid vhat"
  cs_variance :: variance

datatype 'tid stack_symbol =
  Label field_label | IV_Symbol "'tid interesting_var" variance

datatype 'tid pd_control = TypeVar "'tid control_state"

record 'tid push_down_state =
  pds_st :: "'tid pd_control"
  pds_stack :: "'tid stack_symbol list"

record 'tid rule =
  orig_variance :: variance
  rule_lhs :: "'tid push_down_state"
  rule_rhs :: "'tid push_down_state"

record 'tid type_var_node =
  base_var :: "'tid control_state"
  access_path :: "field_label list"

datatype 'tid finite_state = Tv "'tid type_var_node" | Start | End

fun fs_not :: "'tid finite_state \<Rightarrow> 'tid finite_state" where
  "fs_not Start = End"
| "fs_not End = Start"
| "fs_not (Tv tv) =
     Tv \<lparr>base_var = \<lparr>dt_var = vhat_not (dt_var (base_var tv)),
                        cs_variance = operate (cs_variance (base_var tv)) Contravariant\<rparr>,
         access_path = access_path tv\<rparr>"

datatype 'tid fsa_edge =
  Push "'tid stack_symbol" | Pop "'tid stack_symbol" | Success | Failed

fun flip :: "'tid fsa_edge \<Rightarrow> 'tid fsa_edge" where
  "flip (Push s) = Pop s"
| "flip (Pop s) = Push s"
| "flip Success = Failed"
| "flip Failed = Success"

record 'tid edge_definition =
  ed_src :: "'tid finite_state"
  ed_dst :: "'tid finite_state"
  ed_weight :: "'tid fsa_edge"

definition flip_edge :: "'tid edge_definition \<Rightarrow> 'tid edge_definition" where
  "flip_edge e = \<lparr>ed_src = ed_dst e, ed_dst = ed_src e, ed_weight = flip (ed_weight e)\<rparr>"

datatype state_label = Orig | Copy

record 'tid labeled_state =
  ls_label :: state_label
  ls_state :: "'tid finite_state"

lemma direction_not_not [simp]: "direction_not (direction_not d) = d"
  by (cases d) simp_all

lemma vhat_not_not [simp]: "vhat_not (vhat_not v) = v"
  by (cases v) simp_all

lemma operate_contra_twice [simp]: "operate (operate v Contravariant) Contravariant = v"
  by (cases v) (simp_all add: operate_def)

lemma fs_not_not [simp]: "fs_not (fs_not s) = s"
  by (cases s) simp_all

section \<open>Their derived orders\<close>

definition direction_key :: "direction \<Rightarrow> bool" where
  "direction_key d \<longleftrightarrow> d = Rhs"

lemma direction_key_inj [key_inj]: "direction_key x = direction_key y \<Longrightarrow> x = y"
  by (cases x; cases y) (simp_all add: direction_key_def)

instantiation direction :: linorder
begin
definition less_eq_direction :: "direction \<Rightarrow> direction \<Rightarrow> bool" where
  "x \<le> y \<longleftrightarrow> direction_key x \<le> direction_key y"
definition less_direction :: "direction \<Rightarrow> direction \<Rightarrow> bool" where
  "x < y \<longleftrightarrow> direction_key x < direction_key y"
instance
  by standard (unfold less_eq_direction_def less_direction_def,
    simp_all add: less_le_not_le linear, auto intro: key_inj)
end

definition iv_key :: "('tid, 'z) interesting_var_scheme \<Rightarrow> 'tid type_variable \<times> direction \<times> 'z" where
  "iv_key x = (iv_tv x, iv_dir x, interesting_var.more x)"

lemma iv_key_inj [key_inj]: "iv_key x = iv_key y \<Longrightarrow> x = y"
  by (simp add: iv_key_def)

instantiation interesting_var_ext :: (linorder, linorder) linorder
begin
definition less_eq_interesting_var_ext :: "('a, 'b) interesting_var_ext \<Rightarrow> ('a, 'b) interesting_var_ext \<Rightarrow> bool" where
  "x \<le> y \<longleftrightarrow> iv_key x \<le> iv_key y"
definition less_interesting_var_ext :: "('a, 'b) interesting_var_ext \<Rightarrow> ('a, 'b) interesting_var_ext \<Rightarrow> bool" where
  "x < y \<longleftrightarrow> iv_key x < iv_key y"
instance
  by standard (unfold less_eq_interesting_var_ext_def less_interesting_var_ext_def,
    simp_all add: less_le_not_le linear, auto intro: key_inj)
end

fun vhat_key :: "'tid vhat \<Rightarrow> bool \<times> 'tid interesting_var option \<times> 'tid type_variable option" where
  "vhat_key (Interesting iv) = (False, Some iv, None)"
| "vhat_key (Uninteresting tv) = (True, None, Some tv)"

lemma vhat_key_inj [key_inj]: "vhat_key x = vhat_key y \<Longrightarrow> x = y"
  by (cases x; cases y) simp_all

instantiation vhat :: (linorder) linorder
begin
definition less_eq_vhat :: "'a vhat \<Rightarrow> 'a vhat \<Rightarrow> bool" where
  "x \<le> y \<longleftrightarrow> vhat_key x \<le> vhat_key y"
definition less_vhat :: "'a vhat \<Rightarrow> 'a vhat \<Rightarrow> bool" where
  "x < y \<longleftrightarrow> vhat_key x < vhat_key y"
instance
  by standard (unfold less_eq_vhat_def less_vhat_def,
    simp_all add: less_le_not_le linear, auto intro: key_inj)
end

definition control_key :: "('tid, 'z) control_state_scheme \<Rightarrow> 'tid vhat \<times> variance \<times> 'z" where
  "control_key x = (dt_var x, cs_variance x, control_state.more x)"

lemma control_key_inj [key_inj]: "control_key x = control_key y \<Longrightarrow> x = y"
  by (simp add: control_key_def)

instantiation control_state_ext :: (linorder, linorder) linorder
begin
definition less_eq_control_state_ext :: "('a, 'b) control_state_ext \<Rightarrow> ('a, 'b) control_state_ext \<Rightarrow> bool" where
  "x \<le> y \<longleftrightarrow> control_key x \<le> control_key y"
definition less_control_state_ext :: "('a, 'b) control_state_ext \<Rightarrow> ('a, 'b) control_state_ext \<Rightarrow> bool" where
  "x < y \<longleftrightarrow> control_key x < control_key y"
instance
  by standard (unfold less_eq_control_state_ext_def less_control_state_ext_def,
    simp_all add: less_le_not_le linear, auto intro: key_inj)
end

fun symbol_key ::
    "'tid stack_symbol \<Rightarrow> bool \<times> field_label option \<times> ('tid interesting_var \<times> variance) option" where
  "symbol_key (Label l) = (False, Some l, None)"
| "symbol_key (IV_Symbol iv v) = (True, None, Some (iv, v))"

lemma symbol_key_inj [key_inj]: "symbol_key x = symbol_key y \<Longrightarrow> x = y"
  by (cases x; cases y) simp_all

instantiation stack_symbol :: (linorder) linorder
begin
definition less_eq_stack_symbol :: "'a stack_symbol \<Rightarrow> 'a stack_symbol \<Rightarrow> bool" where
  "x \<le> y \<longleftrightarrow> symbol_key x \<le> symbol_key y"
definition less_stack_symbol :: "'a stack_symbol \<Rightarrow> 'a stack_symbol \<Rightarrow> bool" where
  "x < y \<longleftrightarrow> symbol_key x < symbol_key y"
instance
  by standard (unfold less_eq_stack_symbol_def less_stack_symbol_def,
    simp_all add: less_le_not_le linear, auto intro: key_inj)
end

definition node_key ::
    "('tid, 'z) type_var_node_scheme \<Rightarrow> 'tid control_state \<times> field_label list \<times> 'z" where
  "node_key x = (base_var x, access_path x, type_var_node.more x)"

lemma node_key_inj [key_inj]: "node_key x = node_key y \<Longrightarrow> x = y"
  by (simp add: node_key_def)

instantiation type_var_node_ext :: (linorder, linorder) linorder
begin
definition less_eq_type_var_node_ext :: "('a, 'b) type_var_node_ext \<Rightarrow> ('a, 'b) type_var_node_ext \<Rightarrow> bool" where
  "x \<le> y \<longleftrightarrow> node_key x \<le> node_key y"
definition less_type_var_node_ext :: "('a, 'b) type_var_node_ext \<Rightarrow> ('a, 'b) type_var_node_ext \<Rightarrow> bool" where
  "x < y \<longleftrightarrow> node_key x < node_key y"
instance
  by standard (unfold less_eq_type_var_node_ext_def less_type_var_node_ext_def,
    simp_all add: less_le_not_le linear, auto intro: key_inj)
end

fun state_key :: "'tid finite_state \<Rightarrow> nat \<times> 'tid type_var_node option" where
  "state_key (Tv tv) = (0, Some tv)"
| "state_key Start = (1, None)"
| "state_key End = (2, None)"

lemma state_key_inj [key_inj]: "state_key x = state_key y \<Longrightarrow> x = y"
  by (cases x; cases y) simp_all

instantiation finite_state :: (linorder) linorder
begin
definition less_eq_finite_state :: "'a finite_state \<Rightarrow> 'a finite_state \<Rightarrow> bool" where
  "x \<le> y \<longleftrightarrow> state_key x \<le> state_key y"
definition less_finite_state :: "'a finite_state \<Rightarrow> 'a finite_state \<Rightarrow> bool" where
  "x < y \<longleftrightarrow> state_key x < state_key y"
instance
  by standard (unfold less_eq_finite_state_def less_finite_state_def,
    simp_all add: less_le_not_le linear, auto intro: key_inj)
end

fun fsa_edge_key :: "'tid fsa_edge \<Rightarrow> nat \<times> 'tid stack_symbol option" where
  "fsa_edge_key (Push s) = (0, Some s)"
| "fsa_edge_key (Pop s) = (1, Some s)"
| "fsa_edge_key Success = (2, None)"
| "fsa_edge_key Failed = (3, None)"

lemma fsa_edge_key_inj [key_inj]: "fsa_edge_key x = fsa_edge_key y \<Longrightarrow> x = y"
  by (cases x; cases y) simp_all

instantiation fsa_edge :: (linorder) linorder
begin
definition less_eq_fsa_edge :: "'a fsa_edge \<Rightarrow> 'a fsa_edge \<Rightarrow> bool" where
  "x \<le> y \<longleftrightarrow> fsa_edge_key x \<le> fsa_edge_key y"
definition less_fsa_edge :: "'a fsa_edge \<Rightarrow> 'a fsa_edge \<Rightarrow> bool" where
  "x < y \<longleftrightarrow> fsa_edge_key x < fsa_edge_key y"
instance
  by standard (unfold less_eq_fsa_edge_def less_fsa_edge_def,
    simp_all add: less_le_not_le linear, auto intro: key_inj)
end

definition edge_key ::
    "('tid, 'z) edge_definition_scheme \<Rightarrow> 'tid finite_state \<times> 'tid finite_state \<times> 'tid fsa_edge \<times> 'z"
  where
  "edge_key x = (ed_src x, ed_dst x, ed_weight x, edge_definition.more x)"

lemma edge_key_inj [key_inj]: "edge_key x = edge_key y \<Longrightarrow> x = y"
  by (simp add: edge_key_def)

instantiation edge_definition_ext :: (linorder, linorder) linorder
begin
definition less_eq_edge_definition_ext :: "('a, 'b) edge_definition_ext \<Rightarrow> ('a, 'b) edge_definition_ext \<Rightarrow> bool" where
  "x \<le> y \<longleftrightarrow> edge_key x \<le> edge_key y"
definition less_edge_definition_ext :: "('a, 'b) edge_definition_ext \<Rightarrow> ('a, 'b) edge_definition_ext \<Rightarrow> bool" where
  "x < y \<longleftrightarrow> edge_key x < edge_key y"
instance
  by standard (unfold less_eq_edge_definition_ext_def less_edge_definition_ext_def,
    simp_all add: less_le_not_le linear, auto intro: key_inj)
end

section \<open>Printed forms\<close>

fun show_direction :: "direction \<Rightarrow> string" where
  "show_direction Lhs = ''L''"
| "show_direction Rhs = ''R''"

definition show_interesting_var :: "('tid \<Rightarrow> string) \<Rightarrow> 'tid interesting_var \<Rightarrow> string" where
  "show_interesting_var show_tid iv =
     get_name show_tid (iv_tv iv) @ ''_'' @ show_direction (iv_dir iv)"

fun show_vhat :: "('tid \<Rightarrow> string) \<Rightarrow> 'tid vhat \<Rightarrow> string" where
  "show_vhat show_tid (Interesting iv) = show_interesting_var show_tid iv"
| "show_vhat show_tid (Uninteresting uv) = get_name show_tid uv"

fun show_variance :: "variance \<Rightarrow> string" where
  "show_variance Covariant = [CHR 0xE2, CHR 0x8A, CHR 0x95]"
| "show_variance Contravariant = [CHR 0xE2, CHR 0x8A, CHR 0x96]"

definition show_control_state :: "('tid \<Rightarrow> string) \<Rightarrow> 'tid control_state \<Rightarrow> string" where
  "show_control_state show_tid c = show_vhat show_tid (dt_var c) @ show_variance (cs_variance c)"

fun show_stack_symbol :: "('tid \<Rightarrow> string) \<Rightarrow> 'tid stack_symbol \<Rightarrow> string" where
  "show_stack_symbol show_tid (Label l) = show_field_label l"
| "show_stack_symbol show_tid (IV_Symbol iv var) =
     show_interesting_var show_tid iv @ show_variance var"

fun show_pd_control :: "('tid \<Rightarrow> string) \<Rightarrow> 'tid pd_control \<Rightarrow> string" where
  "show_pd_control show_tid (TypeVar ctr) = show_control_state show_tid ctr"

definition show_push_down_state :: "('tid \<Rightarrow> string) \<Rightarrow> 'tid push_down_state \<Rightarrow> string" where
  "show_push_down_state show_tid p =
     ''<'' @ show_pd_control show_tid (pds_st p) @ '';''
     @ concat (map (show_stack_symbol show_tid) (pds_stack p)) @ ''>''"

definition show_type_var_node :: "('tid \<Rightarrow> string) \<Rightarrow> 'tid type_var_node \<Rightarrow> string" where
  "show_type_var_node show_tid n =
     show_control_state show_tid (base_var n) @ show_labels (access_path n)"

fun show_finite_state :: "('tid \<Rightarrow> string) \<Rightarrow> 'tid finite_state \<Rightarrow> string" where
  "show_finite_state show_tid Start = ''START''"
| "show_finite_state show_tid End = ''END''"
| "show_finite_state show_tid (Tv tv) = show_type_var_node show_tid tv"

fun show_fsa_edge :: "('tid \<Rightarrow> string) \<Rightarrow> 'tid fsa_edge \<Rightarrow> string" where
  "show_fsa_edge show_tid (Push s) = ''push_'' @ show_stack_symbol show_tid s"
| "show_fsa_edge show_tid (Pop s) = ''pop_'' @ show_stack_symbol show_tid s"
| "show_fsa_edge show_tid Success = ''1''"
| "show_fsa_edge show_tid Failed = ''0''"

end
