(* ===== verification/Subtyping.thy ===== *)
theory Subtyping
  imports FsaTypes
begin

text \<open>
  The judgement of the type system that the solver is about: what a set of subtyping
  constraints entails (reflexivity, transitivity, the two field rules and the pointer rule
  \<open>p.store \<sqsubseteq> p.load\<close> that \<^verbatim>\<open>src/solver/constraint_graph.rs\<close> implements), and what a
  state and an edge of the transducer mean in it.
\<close>

inductive entails ::
    "'tid subtype_constraint set \<Rightarrow> 'tid dtv \<Rightarrow> 'tid dtv \<Rightarrow> bool" for C where
  S_base: "c \<in> C \<Longrightarrow> entails C (sub_lhs c) (sub_rhs c)"
| S_refl: "entails C a a"
| S_trans: "entails C a b \<Longrightarrow> entails C b c \<Longrightarrow> entails C a c"
| S_field_co: "entails C a b \<Longrightarrow> label_variance l = Covariant \<Longrightarrow>
    entails C (add_field_label a l) (add_field_label b l)"
| S_field_contra: "entails C a b \<Longrightarrow> label_variance l = Contravariant \<Longrightarrow>
    entails C (add_field_label b l) (add_field_label a l)"
| S_pointer: "entails C (add_field_label p Store) (add_field_label p Load)"

lemma entails_mono: "entails C a b \<Longrightarrow> C \<subseteq> D \<Longrightarrow> entails D a b"
  by (induction rule: entails.induct) (auto intro: entails.intros)

definition related ::
    "'tid subtype_constraint set \<Rightarrow> variance \<Rightarrow> 'tid dtv \<Rightarrow> 'tid dtv \<Rightarrow> bool" where
  "related C v a b \<longleftrightarrow> (case v of Covariant \<Rightarrow> entails C a b | Contravariant \<Rightarrow> entails C b a)"

lemma related_simps [simp]:
  "related C Covariant a b \<longleftrightarrow> entails C a b" "related C Contravariant a b \<longleftrightarrow> entails C b a"
  by (simp_all add: related_def)

lemma related_refl [simp]: "related C v a a"
  by (cases v) (simp_all add: S_refl)

lemma related_trans: "related C v a b \<Longrightarrow> related C v b c \<Longrightarrow> related C v a c"
  by (cases v) (auto intro: S_trans)

lemma related_flip: "related C (operate v Contravariant) a b \<longleftrightarrow> related C v b a"
  by (cases v) (simp_all add: operate_def)

definition extend_path :: "'tid dtv \<Rightarrow> field_label list \<Rightarrow> 'tid dtv" where
  "extend_path d p = d\<lparr>dtv_labels := dtv_labels d @ p\<rparr>"

lemma extend_path_simps [simp]:
  "extend_path d [] = d" "extend_path d (l # p) = extend_path (add_field_label d l) p"
  "extend_path (extend_path d p) q = extend_path d (p @ q)"
  "dtv_var (extend_path d p) = dtv_var d" "dtv_labels (extend_path d p) = dtv_labels d @ p"
  by (simp_all add: extend_path_def add_field_label_def)

lemma add_field_label_extend: "add_field_label d l = extend_path d [l]"
  by simp

lemma related_label:
  "related C v a b \<Longrightarrow>
   related C (operate v (label_variance l)) (add_field_label a l) (add_field_label b l)"
  by (cases v; cases "label_variance l")
    (auto simp: operate_def intro: S_field_co S_field_contra)

lemma related_path:
  "related C v a b \<Longrightarrow> related C (operate v (word_variance p)) (extend_path a p) (extend_path b p)"
proof (induction p arbitrary: v a b)
  case (Cons l p)
  from Cons.IH [OF related_label [OF Cons.prems, of l]] show ?case
    by (simp add: operate_assoc)
qed simp

section \<open>What a state means\<close>

fun vhat_tv :: "'tid vhat \<Rightarrow> 'tid type_variable" where
  "vhat_tv (Interesting it) = iv_tv it"
| "vhat_tv (Uninteresting ut) = ut"

definition get_root_type_var :: "'tid finite_state \<Rightarrow> 'tid dtv option" where
  "get_root_type_var st =
     (case st of
        Tv tv \<Rightarrow>
          Some (foldl add_field_label (dtv_new (vhat_tv (dt_var (base_var tv)))) (access_path tv))
      | _ \<Rightarrow> None)"

definition node_dtv :: "'tid type_var_node \<Rightarrow> 'tid dtv" where
  "node_dtv tv = create_with_path (vhat_tv (dt_var (base_var tv))) (access_path tv)"

definition node_var :: "'tid type_var_node \<Rightarrow> variance" where
  "node_var tv = cs_variance (base_var tv)"

lemma get_root_type_var_Tv [simp]: "get_root_type_var (Tv tv) = Some (node_dtv tv)"
proof -
  have "foldl add_field_label d p = extend_path d p" for d :: "'a dtv" and p
    by (induction p arbitrary: d) simp_all
  then show ?thesis
    by (simp add: get_root_type_var_def node_dtv_def extend_path_def dtv_new_def create_with_path_def)
qed

lemma get_root_type_var_ends [simp]:
  "get_root_type_var Start = None" "get_root_type_var End = None"
  by (simp_all add: get_root_type_var_def)

lemma vhat_tv_not [simp]: "vhat_tv (vhat_not v) = vhat_tv v"
  by (cases v) simp_all

text \<open>
  A success edge relates two variables of equal variance; pushing a label leaves the
  variable without it, popping one yields the variable with it.
\<close>

fun edge_sound :: "'tid subtype_constraint set \<Rightarrow> 'tid finite_state \<Rightarrow> 'tid fsa_edge \<Rightarrow> 'tid finite_state \<Rightarrow> bool" where
  "edge_sound C (Tv n) Success (Tv m) \<longleftrightarrow>
     node_var n = node_var m \<and> related C (node_var n) (node_dtv n) (node_dtv m)"
| "edge_sound C (Tv n) (Push (Label l)) (Tv m) \<longleftrightarrow>
     node_dtv n = add_field_label (node_dtv m) l
     \<and> node_var n = operate (node_var m) (label_variance l)"
| "edge_sound C (Tv n) (Pop (Label l)) (Tv m) \<longleftrightarrow>
     node_dtv m = add_field_label (node_dtv n) l
     \<and> node_var m = operate (node_var n) (label_variance l)"
| "edge_sound C Start (Pop (IV_Symbol iv v)) (Tv m) \<longleftrightarrow>
     node_dtv m = dtv_new (iv_tv iv) \<and> node_var m = v"
| "edge_sound C (Tv n) (Push (IV_Symbol iv v)) End \<longleftrightarrow>
     node_dtv n = dtv_new (iv_tv iv) \<and> node_var n = v"
| "edge_sound C _ _ _ \<longleftrightarrow> False"

definition ed_sound :: "'tid subtype_constraint set \<Rightarrow> 'tid edge_definition \<Rightarrow> bool" where
  "ed_sound C e \<longleftrightarrow> edge_sound C (ed_src e) (ed_weight e) (ed_dst e)"

lemma edge_sound_cases:
  assumes "edge_sound C s w t"
  obtains (Success) n m where "s = Tv n" "t = Tv m" "w = Success" "node_var n = node_var m"
      "related C (node_var n) (node_dtv n) (node_dtv m)"
    | (Push) n m l where "s = Tv n" "t = Tv m" "w = Push (Label l)"
      "node_dtv n = add_field_label (node_dtv m) l" "node_var n = operate (node_var m) (label_variance l)"
    | (Pop) n m l where "s = Tv n" "t = Tv m" "w = Pop (Label l)"
      "node_dtv m = add_field_label (node_dtv n) l" "node_var m = operate (node_var n) (label_variance l)"
    | (Start) iv v m where "s = Start" "t = Tv m" "w = Pop (IV_Symbol iv v)"
      "node_dtv m = dtv_new (iv_tv iv)" "node_var m = v"
    | (End) iv v n where "s = Tv n" "t = End" "w = Push (IV_Symbol iv v)"
      "node_dtv n = dtv_new (iv_tv iv)" "node_var n = v"
  using assms by (cases "(C, s, w, t)" rule: edge_sound.cases) auto

end
