(* ===== verification/FsaRules.thy ===== *)
theory FsaRules
  imports Subtyping
begin

text \<open>
  The rules and edges that \<^verbatim>\<open>FSA::new\<close> (\<^verbatim>\<open>src/solver/constraint_graph.rs\<close>)
  derives from a constraint set: two rules per constraint, the success edge of each rule, the
  push and pop edges along the access paths, and the start and stop edges of the
  interesting variables.  The lemmas show that every edge is sound for the judgement
  \<open>entails\<close> of the type system, and that the states come in dual pairs.
\<close>

section \<open>The rule context\<close>

record 'tid rule_context =
  interesting :: "'tid type_variable set"

definition rule_context_new :: "'tid type_variable set \<Rightarrow> 'tid rule_context" where
  "rule_context_new i = \<lparr>interesting = i\<rparr>"

definition insert_variable ::
    "'tid type_variable \<Rightarrow> 'tid rule_context \<Rightarrow> 'tid rule_context" where
  "insert_variable tv c = c\<lparr>interesting := insert tv (interesting c)\<rparr>"

definition get_interesting :: "'tid rule_context \<Rightarrow> 'tid type_variable set" where
  "get_interesting c = interesting c"

definition ctx_lhs :: "'tid rule_context \<Rightarrow> 'tid type_variable \<Rightarrow> 'tid vhat" where
  "ctx_lhs c ty =
     (if tv_to_callee ty \<in> interesting c then Interesting \<lparr>iv_tv = ty, iv_dir = Lhs\<rparr>
      else Uninteresting ty)"

definition ctx_rhs :: "'tid rule_context \<Rightarrow> 'tid type_variable \<Rightarrow> 'tid vhat" where
  "ctx_rhs c ty =
     (if tv_to_callee ty \<in> interesting c then Interesting \<lparr>iv_tv = ty, iv_dir = Rhs\<rparr>
      else Uninteresting ty)"

definition rule_generic ::
    "'tid rule_context \<Rightarrow> 'tid dtv \<Rightarrow> 'tid dtv \<Rightarrow> (variance \<Rightarrow> variance) \<Rightarrow> 'tid rule" where
  "rule_generic c curr_lhs curr_rhs variance_modifier =
     (let control_state_lhs = TypeVar \<lparr>dt_var = ctx_lhs c (dtv_var curr_lhs),
            cs_variance = variance_modifier (path_variance curr_lhs)\<rparr>;
          control_state_rhs = TypeVar \<lparr>dt_var = ctx_rhs c (dtv_var curr_rhs),
            cs_variance = variance_modifier (path_variance curr_rhs)\<rparr>
      in \<lparr>orig_variance = variance_modifier Covariant,
          rule_lhs = \<lparr>pds_st = control_state_lhs, pds_stack = map Label (dtv_labels curr_lhs)\<rparr>,
          rule_rhs = \<lparr>pds_st = control_state_rhs, pds_stack = map Label (dtv_labels curr_rhs)\<rparr>\<rparr>)"

definition rule_covariant :: "'tid rule_context \<Rightarrow> 'tid subtype_constraint \<Rightarrow> 'tid rule" where
  "rule_covariant c subty = rule_generic c (sub_lhs subty) (sub_rhs subty) (\<lambda>v. v)"

definition rule_contravariant :: "'tid rule_context \<Rightarrow> 'tid subtype_constraint \<Rightarrow> 'tid rule" where
  "rule_contravariant c subty =
     rule_generic c (sub_rhs subty) (sub_lhs subty) (\<lambda>curr_var. operate curr_var Contravariant)"

definition generate_constraint_based_rules ::
    "'tid rule_context \<Rightarrow> 'tid subtype_constraint list \<Rightarrow> 'tid rule list" where
  "generate_constraint_based_rules c subty =
     concat (map (\<lambda>s. [rule_covariant c s, rule_contravariant c s]) subty)"

section \<open>Edges\<close>

definition malformed_rules :: string where
  "malformed_rules =
     ''Malformed rules: constraint based rules should not contain type variable stack symbols''"

definition iterate_over_field_labels_in_stack ::
    "'tid stack_symbol list \<Rightarrow> string + field_label list" where
  "iterate_over_field_labels_in_stack stack =
     traverse_res (\<lambda>x. case x of IV_Symbol _ _ \<Rightarrow> Inl malformed_rules | Label lab \<Rightarrow> Inr lab) stack"

definition sub_type_edge :: "'tid rule \<Rightarrow> string + 'tid edge_definition" where
  "sub_type_edge rule =
     (case iterate_over_field_labels_in_stack (pds_stack (rule_lhs rule)) of
        Inl e \<Rightarrow> Inl e
      | Inr flds_lhs \<Rightarrow>
          (case iterate_over_field_labels_in_stack (pds_stack (rule_rhs rule)) of
             Inl e \<Rightarrow> Inl e
           | Inr flds_rhs \<Rightarrow>
               (case (pds_st (rule_lhs rule), pds_st (rule_rhs rule)) of
                  (TypeVar tv1, TypeVar tv2) \<Rightarrow>
                    let src = Tv \<lparr>base_var = \<lparr>dt_var = dt_var tv1, cs_variance = orig_variance rule\<rparr>,
                                 access_path = flds_lhs\<rparr>;
                        dst = Tv \<lparr>base_var = \<lparr>dt_var = dt_var tv2, cs_variance = orig_variance rule\<rparr>,
                                 access_path = flds_rhs\<rparr>
                    in Inr \<lparr>ed_src = src, ed_dst = dst, ed_weight = Success\<rparr>)))"

definition get_direct_rule_edges :: "'tid rule list \<Rightarrow> string + 'tid edge_definition list" where
  "get_direct_rule_edges constraint_rules = traverse_res sub_type_edge constraint_rules"

text \<open>
  The loop that pops the access path label by label; the reversed path is its stack.
\<close>

fun push_pop_loop ::
    "'tid vhat \<Rightarrow> variance \<Rightarrow> field_label list \<Rightarrow> 'tid edge_definition list" where
  "push_pop_loop base curr_stack_variance [] = []"
| "push_pop_loop base curr_stack_variance (pushed # rest) =
     (let next_variance = operate curr_stack_variance (label_variance pushed);
          push_edge =
            \<lparr>ed_src = Tv \<lparr>base_var = \<lparr>dt_var = base, cs_variance = curr_stack_variance\<rparr>,
                            access_path = rev (pushed # rest)\<rparr>,
             ed_dst = Tv \<lparr>base_var = \<lparr>dt_var = base, cs_variance = next_variance\<rparr>,
                            access_path = rev rest\<rparr>,
             ed_weight = Push (Label pushed)\<rparr>
      in flip_edge push_edge # push_edge # push_pop_loop base next_variance rest)"

definition generate_push_pop_edges :: "'tid type_var_node \<Rightarrow> 'tid edge_definition list" where
  "generate_push_pop_edges tv =
     push_pop_loop (dt_var (base_var tv)) (cs_variance (base_var tv)) (rev (access_path tv))"

definition generate_push_pop_edges_for_state ::
    "'tid finite_state \<Rightarrow> 'tid edge_definition list" where
  "generate_push_pop_edges_for_state s =
     (case s of
        Start \<Rightarrow> []
      | End \<Rightarrow> []
      | Tv tv \<Rightarrow> if access_path tv \<noteq> [] then generate_push_pop_edges tv else [])"

definition create_finite_state_from_itv :: "'tid control_state \<Rightarrow> 'tid finite_state" where
  "create_finite_state_from_itv itv = Tv \<lparr>base_var = itv, access_path = []\<rparr>"

definition generate_start_and_stop_edges_for_state ::
    "'tid finite_state \<Rightarrow> 'tid edge_definition option" where
  "generate_start_and_stop_edges_for_state s =
     (case s of
        Tv tv \<Rightarrow>
          (case dt_var (base_var tv) of
             Interesting itv \<Rightarrow>
               Some (case iv_dir itv of
                  Lhs \<Rightarrow> \<lparr>ed_src = Start,
                           ed_dst = create_finite_state_from_itv (base_var tv),
                           ed_weight = Pop (IV_Symbol itv (cs_variance (base_var tv)))\<rparr>
                | Rhs \<Rightarrow> \<lparr>ed_src = create_finite_state_from_itv (base_var tv),
                           ed_dst = End,
                           ed_weight = Push (IV_Symbol itv (cs_variance (base_var tv)))\<rparr>)
           | Uninteresting _ \<Rightarrow> None)
      | _ \<Rightarrow> None)"

definition option_list :: "'a option \<Rightarrow> 'a list" where
  "option_list x = (case x of Some y \<Rightarrow> [y] | None \<Rightarrow> [])"

text \<open>The edges of the automaton, before they are inserted into the graph.\<close>

definition fsa_edges ::
    "'tid rule_context \<Rightarrow> 'tid subtype_constraint list \<Rightarrow> string + 'tid edge_definition list" where
  "fsa_edges context subs =
     (case get_direct_rule_edges (generate_constraint_based_rules context subs) of
        Inl e \<Rightarrow> Inl e
      | Inr total_edges \<Rightarrow>
          let indirect_edges = concat (map (\<lambda>e.
                generate_push_pop_edges_for_state (ed_src e)
                @ generate_push_pop_edges_for_state (ed_dst e)) total_edges);
              total_edges = total_edges @ indirect_edges;
              start_stop_edges = concat (map (\<lambda>e.
                option_list (generate_start_and_stop_edges_for_state (ed_src e))
                @ option_list (generate_start_and_stop_edges_for_state (ed_dst e))) total_edges)
          in Inr (total_edges @ start_stop_edges))"

section \<open>The edges are sound\<close>

lemma labels_of_stack [simp]:
  "iterate_over_field_labels_in_stack (map Label ls) = Inr ls"
  unfolding iterate_over_field_labels_in_stack_def
  by (simp add: traverse_res_Inr_iff list_all2_conv_all_nth)

lemma ctx_tv [simp]: "vhat_tv (ctx_lhs c ty) = ty" "vhat_tv (ctx_rhs c ty) = ty"
  by (simp_all add: ctx_lhs_def ctx_rhs_def)

lemma ctx_not [simp]: "vhat_not (ctx_lhs c ty) = ctx_rhs c ty" "vhat_not (ctx_rhs c ty) = ctx_lhs c ty"
  by (simp_all add: ctx_lhs_def ctx_rhs_def)

text \<open>A state with its base variable, variance and access path.\<close>

definition tv_state :: "'tid vhat \<Rightarrow> variance \<Rightarrow> field_label list \<Rightarrow> 'tid finite_state" where
  "tv_state b v p = Tv \<lparr>base_var = \<lparr>dt_var = b, cs_variance = v\<rparr>, access_path = p\<rparr>"

lemma tv_state_not [simp]:
  "fs_not (tv_state b v p) = tv_state (vhat_not b) (operate v Contravariant) p"
  by (simp add: tv_state_def)

definition direct_edge ::
    "'tid rule_context \<Rightarrow> variance \<Rightarrow> 'tid dtv \<Rightarrow> 'tid dtv \<Rightarrow> 'tid edge_definition" where
  "direct_edge c v a b =
     \<lparr>ed_src = tv_state (ctx_lhs c (dtv_var a)) v (dtv_labels a),
      ed_dst = tv_state (ctx_rhs c (dtv_var b)) v (dtv_labels b), ed_weight = Success\<rparr>"

lemma sub_type_edge_rules:
  "sub_type_edge (rule_covariant c s) = Inr (direct_edge c Covariant (sub_lhs s) (sub_rhs s))"
  "sub_type_edge (rule_contravariant c s) = Inr (direct_edge c Contravariant (sub_rhs s) (sub_lhs s))"
  by (simp_all add: sub_type_edge_def rule_covariant_def rule_contravariant_def rule_generic_def
      direct_edge_def tv_state_def Let_def)

definition direct_edges ::
    "'tid rule_context \<Rightarrow> 'tid subtype_constraint list \<Rightarrow> 'tid edge_definition list" where
  "direct_edges c subs = concat (map (\<lambda>s.
     [direct_edge c Covariant (sub_lhs s) (sub_rhs s),
      direct_edge c Contravariant (sub_rhs s) (sub_lhs s)]) subs)"

lemma get_direct_rule_edges_eq:
  "get_direct_rule_edges (generate_constraint_based_rules c subs) = Inr (direct_edges c subs)"
  unfolding get_direct_rule_edges_def generate_constraint_based_rules_def direct_edges_def
  by (induction subs) (simp_all add: sub_type_edge_rules)

lemma set_direct_edges:
  "e \<in> set (direct_edges c subs) \<longleftrightarrow> (\<exists>s \<in> set subs.
     e = direct_edge c Covariant (sub_lhs s) (sub_rhs s)
     \<or> e = direct_edge c Contravariant (sub_rhs s) (sub_lhs s))"
  by (auto simp: direct_edges_def)

lemma push_pop_sound:
  "e \<in> set (push_pop_loop b v rp) \<Longrightarrow> ed_sound C e"
proof (induction b v rp rule: push_pop_loop.induct)
  case (2 b v l rest)
  let ?e = "\<lparr>ed_src = Tv \<lparr>base_var = \<lparr>dt_var = b, cs_variance = v\<rparr>, access_path = rev (l # rest)\<rparr>,
      ed_dst = Tv \<lparr>base_var = \<lparr>dt_var = b, cs_variance = operate v (label_variance l)\<rparr>,
        access_path = rev rest\<rparr>, ed_weight = Push (Label l)\<rparr>"
  have "ed_sound C ?e" "ed_sound C (flip_edge ?e)"
    by (simp_all add: ed_sound_def flip_edge_def node_dtv_def node_var_def create_with_path_def
        add_field_label_def operate_assoc)
  with 2 show ?case by (auto simp: Let_def)
qed simp

lemma push_pop_state_sound:
  "e \<in> set (generate_push_pop_edges_for_state s) \<Longrightarrow> ed_sound C e"
  by (auto simp: generate_push_pop_edges_for_state_def generate_push_pop_edges_def
      split: finite_state.splits if_splits intro: push_pop_sound)

lemma start_stop_sound:
  "generate_start_and_stop_edges_for_state s = Some e \<Longrightarrow> ed_sound C e"
  by (auto simp: generate_start_and_stop_edges_for_state_def create_finite_state_from_itv_def
      ed_sound_def node_dtv_def node_var_def create_with_path_def dtv_new_def
      split: finite_state.splits vhat.splits direction.splits)

lemma direct_edge_sound: "related C v a b \<Longrightarrow> ed_sound C (direct_edge c v a b)"
  by (simp add: ed_sound_def direct_edge_def tv_state_def node_dtv_def node_var_def)

definition all_edges :: "'tid rule_context \<Rightarrow> 'tid subtype_constraint list \<Rightarrow> 'tid edge_definition list" where
  "all_edges c subs =
     (let es = direct_edges c subs;
          es = es @ concat (map (\<lambda>e. generate_push_pop_edges_for_state (ed_src e)
                @ generate_push_pop_edges_for_state (ed_dst e)) es)
      in es @ concat (map (\<lambda>e. option_list (generate_start_and_stop_edges_for_state (ed_src e))
                @ option_list (generate_start_and_stop_edges_for_state (ed_dst e))) es))"

lemma fsa_edges_eq: "fsa_edges c subs = Inr (all_edges c subs)"
  by (simp add: fsa_edges_def get_direct_rule_edges_eq all_edges_def Let_def)

lemma set_option_list [simp]: "e \<in> set (option_list x) \<longleftrightarrow> x = Some e"
  by (auto simp: option_list_def split: option.splits)

text \<open>
  C36: building the edges of the automaton never fails, and every edge is sound for the
  type system: a success edge is an entailed subtyping of equal sign, a push or pop edge
  removes or adds exactly its label and changes the sign by it, and only the start and end
  states carry interesting variables.
\<close>

theorem fsa_edges_sound:
  "\<exists>es. fsa_edges c subs = Inr es \<and> (\<forall>e \<in> set es. ed_sound (set subs) e)"
proof -
  have "ed_sound (set subs) e" if "e \<in> set (direct_edges c subs)" for e
    using that by (auto simp: set_direct_edges intro!: direct_edge_sound S_base)
  then have "ed_sound (set subs) e" if "e \<in> set (all_edges c subs)" for e
    using that by (auto simp: all_edges_def Let_def intro: push_pop_state_sound start_stop_sound)
  then show ?thesis by (simp add: fsa_edges_eq)
qed

definition example_subtypes :: "nat subtype_constraint list" where
  "example_subtypes =
     [subtype_new (create_with_path (tv_new ''f'') [In 0]) (dtv_new (tv_new ''x'')),
      subtype_new (dtv_new (tv_new ''x'')) (create_with_path (tv_new ''f'') [Out 0])]"

theorem fsa_edges_sound_witness:
  "\<exists>es. fsa_edges (rule_context_new {tv_new ''f''}) example_subtypes = Inr es
    \<and> (\<forall>e \<in> set es. ed_sound (set example_subtypes) e)"
  by (rule fsa_edges_sound)

section \<open>The states come in dual pairs\<close>

definition edge_states :: "'tid edge_definition set \<Rightarrow> 'tid finite_state set" where
  "edge_states E = (\<Union>e \<in> E. {ed_src e, ed_dst e})"

definition dual :: "'tid finite_state set \<Rightarrow> bool" where
  "dual S \<longleftrightarrow> (\<forall>s \<in> S. fs_not s \<in> S)"

lemma edge_states_Un [simp]: "edge_states (E \<union> F) = edge_states E \<union> edge_states F"
  by (simp add: edge_states_def)

lemma dual_Un: "dual S \<Longrightarrow> dual T \<Longrightarrow> dual (S \<union> T)"
  by (auto simp: dual_def)

text \<open>The states met by popping labels off an access path.\<close>

fun prefix_states :: "'tid vhat \<Rightarrow> variance \<Rightarrow> field_label list \<Rightarrow> 'tid finite_state set" where
  "prefix_states b v [] = {tv_state b v []}"
| "prefix_states b v (l # rp) =
     insert (tv_state b v (rev (l # rp))) (prefix_states b (operate v (label_variance l)) rp)"

lemma push_pop_states:
  "rp \<noteq> [] \<Longrightarrow> edge_states (set (push_pop_loop b v rp)) = prefix_states b v rp"
proof (induction b v rp rule: push_pop_loop.induct)
  case (2 b v l rest)
  then show ?case
    by (cases rest) (auto simp: edge_states_def tv_state_def flip_edge_def Let_def)
qed simp

lemma prefix_states_not:
  "fs_not ` prefix_states b v rp = prefix_states (vhat_not b) (operate v Contravariant) rp"
proof (induction b v rp rule: prefix_states.induct)
  case (2 b v l rp)
  have "operate (operate v (label_variance l)) Contravariant =
      operate (operate v Contravariant) (label_variance l)"
    by (metis operate_assoc operate_comm)
  with 2 show ?case by simp
qed simp

lemma push_pop_for_state_states:
  "edge_states (set (generate_push_pop_edges_for_state (tv_state b v p))) \<union> {tv_state b v p}
     = prefix_states b v (rev p)"
proof (cases "p = []")
  case True
  then show ?thesis
    by (simp add: generate_push_pop_edges_for_state_def tv_state_def edge_states_def)
next
  case False
  then have "tv_state b v p \<in> prefix_states b v (rev p)" by (cases "rev p") (auto simp: rev_swap)
  with False show ?thesis
    using push_pop_states [of "rev p" b v]
    by (auto simp: generate_push_pop_edges_for_state_def generate_push_pop_edges_def tv_state_def)
qed

text \<open>The states of the direct edges with those of their access paths.\<close>

definition path_states ::
    "'tid rule_context \<Rightarrow> 'tid subtype_constraint list \<Rightarrow> 'tid finite_state set" where
  "path_states c subs = (\<Union>e \<in> set (direct_edges c subs). edge_states {e}
     \<union> edge_states (set (generate_push_pop_edges_for_state (ed_src e)))
     \<union> edge_states (set (generate_push_pop_edges_for_state (ed_dst e))))"

lemma direct_path_states:
  "edge_states {direct_edge c v a b}
     \<union> edge_states (set (generate_push_pop_edges_for_state (ed_src (direct_edge c v a b))))
     \<union> edge_states (set (generate_push_pop_edges_for_state (ed_dst (direct_edge c v a b))))
   = prefix_states (ctx_lhs c (dtv_var a)) v (rev (dtv_labels a))
     \<union> prefix_states (ctx_rhs c (dtv_var b)) v (rev (dtv_labels b))"
  using push_pop_for_state_states [of "ctx_lhs c (dtv_var a)" v "dtv_labels a"]
    push_pop_for_state_states [of "ctx_rhs c (dtv_var b)" v "dtv_labels b"]
  by (auto simp: edge_states_def direct_edge_def)

lemma path_states_eq:
  "path_states c subs = (\<Union>s \<in> set subs.
      (prefix_states (ctx_lhs c (dtv_var (sub_lhs s))) Covariant (rev (dtv_labels (sub_lhs s)))
       \<union> prefix_states (ctx_rhs c (dtv_var (sub_rhs s))) Covariant (rev (dtv_labels (sub_rhs s))))
      \<union> (prefix_states (ctx_lhs c (dtv_var (sub_rhs s))) Contravariant (rev (dtv_labels (sub_rhs s)))
       \<union> prefix_states (ctx_rhs c (dtv_var (sub_lhs s))) Contravariant (rev (dtv_labels (sub_lhs s)))))"
  unfolding path_states_def direct_edges_def direct_path_states [symmetric]
  by (simp add: Un_assoc)

lemma dual_iff_image: "dual S \<longleftrightarrow> fs_not ` S \<subseteq> S"
  by (auto simp: dual_def)

lemma path_states_dual: "dual (path_states c subs)"
proof -
  have "operate Covariant Contravariant = Contravariant" "operate Contravariant Contravariant = Covariant"
    by (simp_all add: operate_def)
  then show ?thesis
    unfolding dual_iff_image path_states_eq image_UN image_Un prefix_states_not ctx_not by auto
qed

text \<open>The states of the start and stop edges of a set of states.\<close>

definition root_states :: "'tid finite_state set \<Rightarrow> 'tid finite_state set" where
  "root_states S = {tv_state b v [] | b v. \<exists>p iv. tv_state b v p \<in> S \<and> b = Interesting iv}"

lemma root_states_dual:
  assumes "dual S"
  shows "dual (root_states S)"
  unfolding dual_def
proof
  fix s assume "s \<in> root_states S"
  then obtain iv v p where s: "s = tv_state (Interesting iv) v []" "tv_state (Interesting iv) v p \<in> S"
    by (auto simp: root_states_def)
  obtain iv' where iv: "vhat_not (Interesting iv) = Interesting iv'" by simp
  have "fs_not (tv_state (Interesting iv) v p) \<in> S" using assms s(2) unfolding dual_def by blast
  then show "fs_not s \<in> root_states S" unfolding root_states_def s(1) tv_state_not iv by blast
qed

lemma root_states_single:
  "root_states {tv_state b v p} = (case b of Interesting iv \<Rightarrow> {tv_state b v []} | _ \<Rightarrow> {})"
  by (cases b) (auto simp: root_states_def tv_state_def)

lemma start_stop_states_tv:
  "edge_states (set (option_list (generate_start_and_stop_edges_for_state (tv_state b v p))))
     \<union> {Start, End} = root_states {tv_state b v p} \<union> {Start, End}"
proof (cases b)
  case (Interesting iv)
  have "edge_states (set (option_list (generate_start_and_stop_edges_for_state (tv_state b v p))))
      = (case iv_dir iv of Lhs \<Rightarrow> {Start, tv_state b v []} | Rhs \<Rightarrow> {tv_state b v [], End})"
    unfolding generate_start_and_stop_edges_for_state_def option_list_def
      create_finite_state_from_itv_def tv_state_def edge_states_def
    by (cases "iv_dir iv") (simp_all add: Interesting)
  then show ?thesis
    by (cases "iv_dir iv") (auto simp: root_states_single Interesting)
next
  case (Uninteresting x)
  then show ?thesis
    unfolding root_states_single
    by (simp add: edge_states_def generate_start_and_stop_edges_for_state_def option_list_def tv_state_def)
qed

lemma start_stop_states:
  "edge_states (set (option_list (generate_start_and_stop_edges_for_state s))) \<union> {Start, End}
     = root_states {s} \<union> {Start, End}"
proof (cases s)
  case (Tv tv)
  then have "s = tv_state (dt_var (base_var tv)) (cs_variance (base_var tv)) (access_path tv)"
    by (simp add: tv_state_def)
  then show ?thesis using start_stop_states_tv by metis
qed (simp_all add: edge_states_def generate_start_and_stop_edges_for_state_def option_list_def
    root_states_def tv_state_def)

lemma UN_Un_cong:
  "(\<And>s. f s \<union> T = g s \<union> T) \<Longrightarrow> (\<Union>s \<in> A. f s) \<union> T = (\<Union>s \<in> A. g s) \<union> T"
  by blast

lemma edge_states_concat:
  "edge_states (set (concat (map f es))) = (\<Union>e \<in> set es. edge_states (set (f e)))"
  by (simp add: edge_states_def)

lemma root_states_UN: "root_states (\<Union>x \<in> A. S x) = (\<Union>x \<in> A. root_states (S x))"
  by (auto simp: root_states_def)

lemma all_edge_states:
  "edge_states (set (all_edges c subs)) \<union> {Start, End}
     = path_states c subs \<union> root_states (path_states c subs) \<union> {Start, End}"
proof -
  define es where "es = direct_edges c subs @ concat (map (\<lambda>e.
      generate_push_pop_edges_for_state (ed_src e)
      @ generate_push_pop_edges_for_state (ed_dst e)) (direct_edges c subs))"
  define ss where "ss = concat (map (\<lambda>e.
      option_list (generate_start_and_stop_edges_for_state (ed_src e))
      @ option_list (generate_start_and_stop_edges_for_state (ed_dst e))) es)"
  have paths: "edge_states (set es) = path_states c subs"
    unfolding es_def path_states_def set_append edge_states_Un edge_states_concat
    by (auto simp: edge_states_def)
  have states: "path_states c subs = (\<Union>e \<in> set es. {ed_src e, ed_dst e})"
    by (simp add: paths [symmetric] edge_states_def)
  have "edge_states (set ss) \<union> {Start, End} = (\<Union>s \<in> path_states c subs.
      edge_states (set (option_list (generate_start_and_stop_edges_for_state s)))) \<union> {Start, End}"
    unfolding states ss_def edge_states_concat set_append edge_states_Un by simp
  also have "\<dots> = (\<Union>s \<in> path_states c subs. root_states {s}) \<union> {Start, End}"
    using start_stop_states by (rule UN_Un_cong)
  also have "(\<Union>s \<in> path_states c subs. root_states {s}) = root_states (path_states c subs)"
    using root_states_UN [of "\<lambda>s. {s}" "path_states c subs"] by simp
  finally have "edge_states (set ss) \<union> {Start, End} = root_states (path_states c subs) \<union> {Start, End}" .
  moreover have "all_edges c subs = es @ ss" by (simp add: all_edges_def es_def ss_def Let_def)
  ultimately show ?thesis using paths by (metis Un_assoc edge_states_Un set_append)
qed

lemma ends_dual: "dual {Start, End}"
  by (simp add: dual_def)

text \<open>
  The states of the automaton come in dual pairs: with every state its negation (other
  side, other sign) is a state, the lookup that saturation performs without a check.
\<close>

theorem fsa_states_dual:
  "\<exists>es. fsa_edges c subs = Inr es \<and> dual (edge_states (set es) \<union> {Start, End})"
proof (intro exI conjI)
  show "dual (edge_states (set (all_edges c subs)) \<union> {Start, End})"
    unfolding all_edge_states
    by (intro dual_Un path_states_dual root_states_dual ends_dual)
qed (rule fsa_edges_eq)

text \<open>The push and pop edges come in opposite pairs.\<close>

lemma push_pop_flip:
  "e \<in> set (push_pop_loop b v rp) \<Longrightarrow> flip_edge e \<in> set (push_pop_loop b v rp)"
proof (induction b v rp rule: push_pop_loop.induct)
  case (2 b v l rest)
  have flip2: "flip_edge (flip_edge x) = x" if "ed_weight x = Push y" for x :: "'a edge_definition" and y
    using that by (simp add: flip_edge_def)
  from "2.prems" consider (pop) x where "ed_weight x = Push (Label l)" "e = flip_edge x \<or> e = x"
      "flip_edge x \<in> set (push_pop_loop b v (l # rest))" "x \<in> set (push_pop_loop b v (l # rest))"
    | (rest) "e \<in> set (push_pop_loop b (operate v (label_variance l)) rest)"
    by (force simp: Let_def)
  then show ?case
  proof cases
    case pop
    then show ?thesis using flip2 by metis
  next
    case rest
    then show ?thesis using "2.IH" [OF refl refl] by (simp add: Let_def)
  qed
qed simp

end
