(* ===== verification/Saturation.thy ===== *)
theory Saturation
  imports FsaRules Petgraph "HOL-Library.Monad_Syntax"
begin

text \<open>
  The saturation of \<^verbatim>\<open>src/solver/constraint_graph.rs\<close> (\<^verbatim>\<open>get_saturation_edges\<close>): the
  fixpoint iteration over the sets of states whose pushes reach a state.  The B-tree maps
  are sorted association lists, so the comparison that ends the loop compares them as the
  code does; an \<^verbatim>\<open>unwrap\<close> of a missing key is \<^const>\<open>None\<close>.  The lemmas show that
  the loop ends, that it does not panic on an automaton with dual states, and that it
  computes exactly the least set of success edges closed under the saturation rules.
\<close>

type_synonym 'tid pushes = "('tid stack_symbol \<times> 'tid finite_state set) list"
type_synonym 'tid reach_map = "('tid finite_state \<times> 'tid pushes) list"

record 'tid sat_state =
  reaching_pushes :: "'tid reach_map"
  sat_all_edges :: "'tid edge_definition set"
  new_edges :: "'tid edge_definition set"

section \<open>The iteration\<close>

text \<open>\<^verbatim>\<open>get_mut(n).unwrap().entry(l).or_insert_with(BTreeSet::new)\<close>, extended by a set.\<close>

definition reach_add ::
    "('tid::linorder) finite_state \<Rightarrow> 'tid stack_symbol \<Rightarrow> 'tid finite_state set \<Rightarrow>
     'tid reach_map \<Rightarrow> 'tid reach_map option" where
  "reach_add n l X m =
     (case map_of m n of
        None \<Rightarrow> None
      | Some p \<Rightarrow> Some (bt_insert n (bt_insert l (bt_get_or {} p l \<union> X) p) m))"

definition add_push_edge ::
    "('tid::linorder) edge_definition \<Rightarrow> 'tid reach_map \<Rightarrow> 'tid reach_map option" where
  "add_push_edge edge m =
     (case ed_weight edge of
        Push l \<Rightarrow> reach_add (ed_dst edge) l {ed_src edge} m
      | _ \<Rightarrow> Some m)"

definition merge_success_edge ::
    "('tid::linorder) edge_definition \<Rightarrow> 'tid reach_map \<Rightarrow> 'tid reach_map option" where
  "merge_success_edge edg m =
     (case ed_weight edg of
        Success \<Rightarrow>
          (case map_of m (ed_src edg) of
             None \<Rightarrow> None
           | Some src_pushes \<Rightarrow>
               if map_of m (ed_dst edg) = None then None
               else fold_opt (\<lambda>(k, v) m. reach_add (ed_dst edg) k v m) src_pushes m)
      | _ \<Rightarrow> Some m)"

definition success_edge :: "'tid finite_state \<Rightarrow> 'tid finite_state \<Rightarrow> 'tid edge_definition" where
  "success_edge d q = \<lparr>ed_src = d, ed_dst = q, ed_weight = Success\<rparr>"

definition reach_get ::
    "('tid::linorder) reach_map \<Rightarrow> 'tid finite_state \<Rightarrow> 'tid stack_symbol \<Rightarrow> 'tid finite_state set" where
  "reach_get m n l = bt_get_or {} (bt_get_or [] m n) l"

definition pop_edge_step ::
    "('tid::linorder) edge_definition \<Rightarrow> 'tid reach_map \<times> 'tid edge_definition set \<Rightarrow>
     ('tid reach_map \<times> 'tid edge_definition set) option" where
  "pop_edge_step edg st =
     (case st of (m, additional_edges) \<Rightarrow>
        (case ed_weight edg of
           Pop l \<Rightarrow>
             (case reach_add (ed_src edg) l {} m of
                None \<Rightarrow> None
              | Some m' \<Rightarrow> Some (m', additional_edges
                  \<union> (\<lambda>definer. success_edge definer (ed_dst edg)) ` reach_get m' (ed_src edg) l))
         | _ \<Rightarrow> Some (m, additional_edges)))"

definition is_contravariant_state :: "'tid finite_state \<Rightarrow> bool" where
  "is_contravariant_state fs =
     (case fs of Tv tv \<Rightarrow> cs_variance (base_var tv) = Contravariant | _ \<Rightarrow> False)"

definition pointer_half ::
    "field_label \<Rightarrow> field_label \<Rightarrow> ('tid::linorder) finite_state \<Rightarrow> 'tid reach_map \<Rightarrow>
     'tid reach_map option" where
  "pointer_half l1 l2 v_contra m =
     (case reach_add v_contra (Label l1) {} m of
        None \<Rightarrow> None
      | Some m' \<Rightarrow>
          fold_opt (\<lambda>definer m. reach_add (fs_not v_contra) (Label l2) {definer} m)
            (sorted_list_of_set (reach_get m' v_contra (Label l1))) m')"

definition pointer_step ::
    "('tid::linorder) finite_state \<Rightarrow> 'tid reach_map \<Rightarrow> 'tid reach_map option" where
  "pointer_step v_contra m =
     (case pointer_half Store Load v_contra m of
        None \<Rightarrow> None
      | Some m' \<Rightarrow> pointer_half Load Store v_contra m')"

definition sat_iter ::
    "('tid::linorder) finite_state list \<Rightarrow> 'tid sat_state \<Rightarrow> 'tid sat_state option" where
  "sat_iter nodes st =
     do { m1 \<leftarrow> fold_opt merge_success_edge (sorted_list_of_set (sat_all_edges st))
                 (reaching_pushes st);
          (m2, additional_edges) \<leftarrow>
            fold_opt pop_edge_step (sorted_list_of_set (sat_all_edges st)) (m1, {});
          m3 \<leftarrow> fold_opt pointer_step (filter is_contravariant_state nodes) m2;
          Some \<lparr>reaching_pushes = m3, sat_all_edges = sat_all_edges st \<union> additional_edges,
                new_edges = new_edges st \<union> additional_edges\<rparr> }"

partial_function (option) sat_loop ::
    "('tid::linorder) finite_state list \<Rightarrow> 'tid sat_state \<Rightarrow> 'tid sat_state option" where
  "sat_loop nodes st =
     do { st' \<leftarrow> sat_iter nodes st;
          if (reaching_pushes st, sat_all_edges st) \<noteq> (reaching_pushes st', sat_all_edges st')
          then sat_loop nodes st' else Some st' }"

definition graph_edge ::
    "('g, 'tid finite_state, 'tid fsa_edge) petgraph \<Rightarrow> 'g \<Rightarrow> 'tid fsa_edge edge_ref \<Rightarrow>
     'tid edge_definition option" where
  "graph_edge G g x =
     (case x of (_, a, b, w) \<Rightarrow>
        (case (pg_node_weight G g a, pg_node_weight G g b) of
           (Some src, Some dst) \<Rightarrow> Some \<lparr>ed_src = src, ed_dst = dst, ed_weight = w\<rparr>
         | _ \<Rightarrow> None))"

definition get_saturation_edges ::
    "('g, ('tid::linorder) finite_state, 'tid fsa_edge) petgraph \<Rightarrow> 'g \<Rightarrow>
     'tid edge_definition set option" where
  "get_saturation_edges G g =
     do { es \<leftarrow> traverse (graph_edge G g) (edge_references G g);
          let nodes = map snd (node_references G g);
              m0 = foldl (\<lambda>m weight. bt_insert weight [] m) [] nodes
          in do { m1 \<leftarrow> fold_opt add_push_edge (sorted_list_of_set (set es)) m0;
                  st \<leftarrow> sat_loop nodes
                    \<lparr>reaching_pushes = m1, sat_all_edges = set es, new_edges = {}\<rparr>;
                  Some (Set.filter (\<lambda>x. ed_src x \<noteq> ed_dst x) (new_edges st)) } }"

section \<open>The saturation rules\<close>

text \<open>
  What the loop is to compute: which pushes reach which states, and which success edges
  they give, for a set of edges and the states of the automaton.
\<close>

inductive reaches and sat_edge for E :: "'tid edge_definition set" and V :: "'tid finite_state set" where
  R_push: "\<lparr>ed_src = d, ed_dst = n, ed_weight = Push l\<rparr> \<in> E \<Longrightarrow> reaches E V d l n"
| R_success: "reaches E V d l n \<Longrightarrow> \<lparr>ed_src = n, ed_dst = m, ed_weight = Success\<rparr> \<in> E \<Longrightarrow>
    reaches E V d l m"
| R_saturated: "reaches E V d l n \<Longrightarrow> sat_edge E V n m \<Longrightarrow> reaches E V d l m"
| R_store: "reaches E V d (Label Store) n \<Longrightarrow> n \<in> V \<Longrightarrow> is_contravariant_state n \<Longrightarrow>
    reaches E V d (Label Load) (fs_not n)"
| R_load: "reaches E V d (Label Load) n \<Longrightarrow> n \<in> V \<Longrightarrow> is_contravariant_state n \<Longrightarrow>
    reaches E V d (Label Store) (fs_not n)"
| R_pop: "reaches E V d l n \<Longrightarrow> \<lparr>ed_src = n, ed_dst = q, ed_weight = Pop l\<rparr> \<in> E \<Longrightarrow> sat_edge E V d q"

section \<open>The map of reaching pushes\<close>

definition ext ::
    "('tid::linorder) reach_map \<Rightarrow> 'tid finite_state \<times> 'tid stack_symbol \<Rightarrow> 'tid finite_state set option"
  where
  "ext m k = (case map_of m (fst k) of None \<Rightarrow> None | Some p \<Rightarrow> map_of p (snd k))"

definition wf_reach :: "('tid::linorder) finite_state set \<Rightarrow> 'tid reach_map \<Rightarrow> bool" where
  "wf_reach N m \<longleftrightarrow> sorted_wrt (<) (map fst m) \<and> fst ` set m = N
     \<and> (\<forall>n p. map_of m n = Some p \<longrightarrow> sorted_wrt (<) (map fst p))"

definition ext_le :: "('tid::linorder) reach_map \<Rightarrow> 'tid reach_map \<Rightarrow> bool" where
  "ext_le m m' \<longleftrightarrow> (\<forall>k X. ext m k = Some X \<longrightarrow> (\<exists>Y. ext m' k = Some Y \<and> X \<subseteq> Y))"

lemma reach_get_ext: "reach_get m n l = (case ext m (n, l) of None \<Rightarrow> {} | Some X \<Rightarrow> X)"
  by (simp add: reach_get_def bt_get_or_def ext_def split: option.splits)

lemma reach_get_Some: "ext m (n, l) = Some X \<Longrightarrow> reach_get m n l = X"
  by (simp add: reach_get_ext)

lemma ext_le_refl [simp]: "ext_le m m"
  by (simp add: ext_le_def)

lemma ext_le_trans: "ext_le a b \<Longrightarrow> ext_le b c \<Longrightarrow> ext_le a c"
  unfolding ext_le_def by (meson order_trans)

lemma ext_leD: "ext_le m m' \<Longrightarrow> ext m k = Some X \<Longrightarrow> \<exists>Y. ext m' k = Some Y \<and> X \<subseteq> Y"
  unfolding ext_le_def by blast

lemma ext_le_get: "ext_le m m' \<Longrightarrow> reach_get m n l \<subseteq> reach_get m' n l"
  by (cases "ext m (n, l)") (auto simp: reach_get_ext dest!: ext_leD)

lemma ext_le_antisym: "ext_le m m' \<Longrightarrow> ext_le m' m \<Longrightarrow> ext m = ext m'"
proof
  fix k assume "ext_le m m'" "ext_le m' m"
  then show "ext m k = ext m' k"
    using ext_leD [of m m' k] ext_leD [of m' m k]
    by (cases "ext m k"; cases "ext m' k") auto
qed

lemma ext_get_eq: "ext m = ext m' \<Longrightarrow> reach_get m = reach_get m'"
  by (simp add: fun_eq_iff reach_get_ext)

lemma sorted_alist_eqI:
  assumes "sorted_wrt (<) (map fst m)" "sorted_wrt (<) (map fst m')" "map_of m = map_of m'"
  shows "m = (m' :: ('k::linorder \<times> 'v) list)"
proof -
  have "set (map fst m) = set (map fst m')"
    using arg_cong [OF assms(3), of dom] by (simp add: dom_map_of_conv_image_fst)
  then have "map fst m = map fst m'"
    using assms(1,2) by (intro sorted_distinct_set_unique) (auto simp: strict_sorted_iff)
  moreover have "map (\<lambda>k. (k, the (map_of xs k))) (map fst xs) = xs"
    if "sorted_wrt (<) (map fst xs)" for xs :: "('k \<times> 'v) list"
    using that by (intro map_idI [THEN trans [OF map_map]])
      (auto simp: strict_sorted_iff)
  ultimately show ?thesis using assms by metis
qed

lemma wf_reach_eqI:
  assumes wf: "wf_reach N m" "wf_reach N m'" and eq: "ext m = ext m'"
  shows "m = m'"
proof (rule sorted_alist_eqI)
  show "map_of m = map_of m'"
  proof
    fix n
    have dom: "map_of m n = None \<longleftrightarrow> map_of m' n = None"
      using wf by (simp add: wf_reach_def map_of_eq_None_iff)
    show "map_of m n = map_of m' n"
    proof (cases "map_of m n")
      case (Some p)
      then obtain p' where p': "map_of m' n = Some p'" using dom by auto
      have "map_of p l = map_of p' l" for l
        using fun_cong [OF eq, of "(n, l)"] Some p' by (simp add: ext_def)
      then have "p = p'"
        using Some p' wf by (intro sorted_alist_eqI) (auto simp: wf_reach_def)
      with Some p' show ?thesis by simp
    qed (use dom in simp)
  qed
qed (use wf in \<open>simp_all add: wf_reach_def\<close>)

section \<open>Steps that keep an invariant\<close>

lemma fold_opt_spec:
  assumes step: "\<And>x s. x \<in> set xs \<Longrightarrow> I s \<Longrightarrow> \<exists>s'. f x s = Some s' \<and> I s' \<and> R s s' \<and> Q x s'"
    and R: "\<And>s. R s s" "\<And>a b c. R a b \<Longrightarrow> R b c \<Longrightarrow> R a c"
    and Q: "\<And>x s s'. Q x s \<Longrightarrow> R s s' \<Longrightarrow> Q x s'"
  shows "I s \<Longrightarrow> \<exists>s'. fold_opt f xs s = Some s' \<and> I s' \<and> R s s' \<and> (\<forall>x \<in> set xs. Q x s')"
  using step
proof (induction xs arbitrary: s)
  case Nil
  then show ?case using R(1) by auto
next
  case (Cons x xs)
  obtain s1 where s1: "f x s = Some s1" "I s1" "R s s1" "Q x s1"
    using Cons.prems(2) [of x s] Cons.prems(1) by auto
  obtain s2 where s2: "fold_opt f xs s1 = Some s2" "I s2" "R s1 s2" "\<forall>x \<in> set xs. Q x s2"
    using Cons.IH [OF s1(2)] Cons.prems(2) by auto
  have "Q x s2" using Q s1(4) s2(3) by blast
  with s1 s2 R(2) [OF s1(3) s2(3)] show ?case by auto
qed

text \<open>
  The invariant: one entry per state of \<open>N\<close>, symbols of \<open>S\<close> only, and every recorded
  push is a state of \<open>N\<close> that satisfies \<open>P\<close>.
\<close>

definition reach_ok ::
    "('tid::linorder) finite_state set \<Rightarrow> 'tid stack_symbol set \<Rightarrow>
     ('tid finite_state \<Rightarrow> 'tid stack_symbol \<Rightarrow> 'tid finite_state \<Rightarrow> bool) \<Rightarrow> 'tid reach_map \<Rightarrow> bool" where
  "reach_ok N S P m \<longleftrightarrow> wf_reach N m
     \<and> (\<forall>n l X. ext m (n, l) = Some X \<longrightarrow> l \<in> S \<and> X \<subseteq> N \<and> (\<forall>d \<in> X. P d l n))"

lemma reach_okD:
  assumes "reach_ok N S P m"
  shows "wf_reach N m" "d \<in> reach_get m n l \<Longrightarrow> d \<in> N" "d \<in> reach_get m n l \<Longrightarrow> P d l n"
    "ext m (n, l) = Some X \<Longrightarrow> l \<in> S" "ext m (n, l) = Some X \<Longrightarrow> n \<in> N"
    "n \<in> N \<Longrightarrow> \<exists>p. map_of m n = Some p" "finite N"
proof -
  show "wf_reach N m" "ext m (n, l) = Some X \<Longrightarrow> l \<in> S" using assms by (auto simp: reach_ok_def)
  show "d \<in> reach_get m n l \<Longrightarrow> d \<in> N" "d \<in> reach_get m n l \<Longrightarrow> P d l n"
    using assms by (auto simp: reach_ok_def reach_get_ext split: option.splits)
  have dom: "fst ` set m = N" using assms by (simp add: reach_ok_def wf_reach_def)
  then show "n \<in> N \<Longrightarrow> \<exists>p. map_of m n = Some p" by (metis map_of_eq_None_iff not_None_eq)
  show "finite N" using dom by auto
  show "ext m (n, l) = Some X \<Longrightarrow> n \<in> N"
    using dom by (force simp: ext_def split: option.splits dest: map_of_SomeD)
qed

lemma reach_add_spec:
  assumes ok: "reach_ok N S P m" and n: "n \<in> N" "l \<in> S" and X: "X \<subseteq> N" "\<And>d. d \<in> X \<Longrightarrow> P d l n"
  shows "\<exists>m'. reach_add n l X m = Some m' \<and> reach_ok N S P m' \<and> ext_le m m'
    \<and> ext m' = (ext m)((n, l) \<mapsto> reach_get m n l \<union> X)"
proof -
  obtain p where p: "map_of m n = Some p" using reach_okD(6) [OF ok n(1)] by auto
  define m' where "m' = bt_insert n (bt_insert l (bt_get_or {} p l \<union> X) p) m"
  have add: "reach_add n l X m = Some m'" using p by (simp add: reach_add_def m'_def)
  have get: "bt_get_or {} p l = reach_get m n l" using p by (simp add: reach_get_def bt_get_or_def)
  have ext': "ext m' = (ext m)((n, l) \<mapsto> reach_get m n l \<union> X)"
    using p by (auto simp: fun_eq_iff ext_def m'_def get)
  have wf: "wf_reach N m" using reach_okD(1) [OF ok] .
  have "sorted_wrt (<) (map fst m')" "fst ` set m' = N"
    using wf n(1) unfolding wf_reach_def m'_def by (auto simp: sorted_bt_insert insert_absorb)
  moreover have "sorted_wrt (<) (map fst q)" if "map_of m' k = Some q" for k q
    using that wf p unfolding wf_reach_def m'_def by (auto simp: sorted_bt_insert split: if_splits)
  ultimately have "wf_reach N m'" unfolding wf_reach_def by blast
  moreover have "k \<in> S \<and> Y \<subseteq> N \<and> (\<forall>d \<in> Y. P d k q)" if "ext m' (q, k) = Some Y" for q k Y
  proof (cases "(q, k) = (n, l)")
    case True
    with that have "Y = reach_get m n l \<union> X" by (simp add: ext')
    with True n X reach_okD(2,3) [OF ok] show ?thesis by auto
  next
    case False
    with that have "ext m (q, k) = Some Y" by (auto simp: ext' split: if_splits)
    with ok show ?thesis by (auto simp: reach_ok_def)
  qed
  ultimately have "reach_ok N S P m'" unfolding reach_ok_def by blast
  moreover have "ext_le m m'" unfolding ext_le_def ext' by (auto simp: reach_get_Some)
  ultimately show ?thesis using add ext' by blast
qed

lemma reach_get_update:
  "ext m' = (ext m)((n, l) \<mapsto> Z) \<Longrightarrow> reach_get m' n l = Z"
  by (simp add: reach_get_ext)

section \<open>One iteration\<close>

lemma reach_adds_spec:
  assumes n: "n \<in> N"
    and kvs: "\<And>k v. (k, v) \<in> set kvs \<Longrightarrow> k \<in> S \<and> v \<subseteq> N \<and> (\<forall>d \<in> v. P d k n)"
  shows "reach_ok N S P m \<Longrightarrow>
    \<exists>m'. fold_opt (\<lambda>(k, v) m. reach_add n k v m) kvs m = Some m' \<and> reach_ok N S P m'
      \<and> ext_le m m' \<and> (\<forall>(k, v) \<in> set kvs. v \<subseteq> reach_get m' n k)"
proof (rule fold_opt_spec [where R = ext_le])
  fix x s assume x: "x \<in> set kvs" and s: "reach_ok N S P s"
  obtain k v where kv: "x = (k, v)" by (cases x)
  obtain s' where s': "reach_add n k v s = Some s'" "reach_ok N S P s'" "ext_le s s'"
    "ext s' = (ext s)((n, k) \<mapsto> reach_get s n k \<union> v)"
    using reach_add_spec [OF s n, of k v] kvs [of k v] x kv by auto
  moreover from s'(4) have "v \<subseteq> reach_get s' n k" using reach_get_update by blast
  ultimately show "\<exists>s'. (case x of (k, v) \<Rightarrow> reach_add n k v) s = Some s' \<and> reach_ok N S P s'
      \<and> ext_le s s' \<and> (case x of (k, v) \<Rightarrow> v \<subseteq> reach_get s' n k)"
    by (auto simp: kv)
next
  fix x :: "'a stack_symbol \<times> 'a finite_state set" and s s'
  assume "case x of (k, v) \<Rightarrow> v \<subseteq> reach_get s n k" "ext_le s s'"
  then show "case x of (k, v) \<Rightarrow> v \<subseteq> reach_get s' n k" using ext_le_get by (cases x) fastforce
qed (auto intro: ext_le_trans)

lemma merge_success_spec:
  assumes ok: "reach_ok N S P m" and e: "ed_weight e = Success" "ed_src e \<in> N" "ed_dst e \<in> N"
    and P: "\<And>d l. P d l (ed_src e) \<Longrightarrow> P d l (ed_dst e)"
  shows "\<exists>m'. merge_success_edge e m = Some m' \<and> reach_ok N S P m' \<and> ext_le m m'
    \<and> (\<forall>k. reach_get m (ed_src e) k \<subseteq> reach_get m' (ed_dst e) k)"
proof -
  obtain p where p: "map_of m (ed_src e) = Some p" using reach_okD(6) [OF ok e(2)] by auto
  have dst: "map_of m (ed_dst e) \<noteq> None" using reach_okD(6) [OF ok e(3)] by auto
  have sorted: "sorted_wrt (<) (map fst p)" using reach_okD(1) [OF ok] p by (auto simp: wf_reach_def)
  have kv: "ext m (ed_src e, k) = Some v" if "(k, v) \<in> set p" for k v
    using that p sorted by (simp add: ext_def strict_sorted_iff)
  have "k \<in> S \<and> v \<subseteq> N \<and> (\<forall>d \<in> v. P d k (ed_dst e))" if "(k, v) \<in> set p" for k v
    using ok kv [OF that] P unfolding reach_ok_def by blast
  from reach_adds_spec [OF e(3) this ok] obtain m' where
    m': "fold_opt (\<lambda>(k, v) m. reach_add (ed_dst e) k v m) p m = Some m'" "reach_ok N S P m'"
      "ext_le m m'" "\<forall>(k, v) \<in> set p. v \<subseteq> reach_get m' (ed_dst e) k" by blast
  have "reach_get m (ed_src e) k \<subseteq> reach_get m' (ed_dst e) k" for k
  proof (cases "map_of p k")
    case (Some v)
    then have "(k, v) \<in> set p" by (rule map_of_SomeD)
    with m'(4) kv [OF this] show ?thesis by (auto simp: reach_get_Some)
  qed (use p in \<open>simp add: reach_get_def bt_get_or_def\<close>)
  with m' show ?thesis
    by (simp add: merge_success_edge_def e(1) p dst)
qed

lemma merge_loop_spec:
  assumes fin: "finite E" and N: "\<And>e. e \<in> E \<Longrightarrow> ed_src e \<in> N \<and> ed_dst e \<in> N"
    and P: "\<And>e d l. e \<in> E \<Longrightarrow> ed_weight e = Success \<Longrightarrow> P d l (ed_src e) \<Longrightarrow> P d l (ed_dst e)"
    and ok: "reach_ok N S P m0"
  shows "\<exists>m'. fold_opt merge_success_edge (sorted_list_of_set E) m0 = Some m' \<and> reach_ok N S P m'
    \<and> ext_le m0 m' \<and> (\<forall>e \<in> E. ed_weight e = Success \<longrightarrow>
        (\<forall>k. reach_get m0 (ed_src e) k \<subseteq> reach_get m' (ed_dst e) k))"
proof -
  let ?Q = "\<lambda>e m'. ed_weight e = Success \<longrightarrow> (\<forall>k. reach_get m0 (ed_src e) k \<subseteq> reach_get m' (ed_dst e) k)"
  have "\<exists>m'. fold_opt merge_success_edge (sorted_list_of_set E) m0 = Some m'
      \<and> (reach_ok N S P m' \<and> ext_le m0 m') \<and> ext_le m0 m' \<and> (\<forall>e \<in> set (sorted_list_of_set E). ?Q e m')"
  proof (rule fold_opt_spec [where R = ext_le and I = "\<lambda>m. reach_ok N S P m \<and> ext_le m0 m"])
    fix e s assume e: "e \<in> set (sorted_list_of_set E)" and s: "reach_ok N S P s \<and> ext_le m0 s"
    then have eE: "e \<in> E" using fin by simp
    show "\<exists>s'. merge_success_edge e s = Some s' \<and> (reach_ok N S P s' \<and> ext_le m0 s') \<and> ext_le s s'
        \<and> ?Q e s'"
    proof (cases "ed_weight e = Success")
      case True
      obtain s' where "merge_success_edge e s = Some s'" "reach_ok N S P s'" "ext_le s s'"
        "\<forall>k. reach_get s (ed_src e) k \<subseteq> reach_get s' (ed_dst e) k"
        using merge_success_spec [of N S P s e] s True N [OF eE] P [OF eE True] by auto
      moreover have "reach_get m0 (ed_src e) k \<subseteq> reach_get s (ed_src e) k" for k
        using s ext_le_get by blast
      ultimately show ?thesis using s ext_le_trans by (meson order_trans)
    next
      case False
      then have "merge_success_edge e s = Some s"
        by (simp add: merge_success_edge_def split: fsa_edge.splits)
      with False s show ?thesis by simp
    qed
  next
    fix e s s' assume "?Q e s" "ext_le s s'"
    then show "?Q e s'" using ext_le_get by blast
  qed (use ok ext_le_trans in auto)
  then show ?thesis using fin by auto
qed

lemma push_loop_spec:
  assumes fin: "finite E" and N: "\<And>e. e \<in> E \<Longrightarrow> ed_src e \<in> N \<and> ed_dst e \<in> N"
    and S: "\<And>e l. e \<in> E \<Longrightarrow> ed_weight e = Push l \<Longrightarrow> l \<in> S \<and> P (ed_src e) l (ed_dst e)"
    and ok: "reach_ok N S P m0"
  shows "\<exists>m'. fold_opt add_push_edge (sorted_list_of_set E) m0 = Some m' \<and> reach_ok N S P m'
    \<and> (\<forall>e \<in> E. \<forall>l. ed_weight e = Push l \<longrightarrow> ed_src e \<in> reach_get m' (ed_dst e) l)"
proof -
  let ?Q = "\<lambda>e m'. \<forall>l. ed_weight e = Push l \<longrightarrow> ed_src e \<in> reach_get m' (ed_dst e) l"
  have "\<exists>m'. fold_opt add_push_edge (sorted_list_of_set E) m0 = Some m'
      \<and> reach_ok N S P m' \<and> ext_le m0 m' \<and> (\<forall>e \<in> set (sorted_list_of_set E). ?Q e m')"
  proof (rule fold_opt_spec [where R = ext_le and I = "reach_ok N S P"])
    fix e s assume e: "e \<in> set (sorted_list_of_set E)" and s: "reach_ok N S P s"
    then have eE: "e \<in> E" using fin by simp
    show "\<exists>s'. add_push_edge e s = Some s' \<and> reach_ok N S P s' \<and> ext_le s s' \<and> ?Q e s'"
    proof (cases "\<exists>l. ed_weight e = Push l")
      case True
      then obtain l where l: "ed_weight e = Push l" by blast
      obtain s' where "reach_add (ed_dst e) l {ed_src e} s = Some s'" "reach_ok N S P s'" "ext_le s s'"
        "ext s' = (ext s)((ed_dst e, l) \<mapsto> reach_get s (ed_dst e) l \<union> {ed_src e})"
        using reach_add_spec [OF s, of "ed_dst e" l "{ed_src e}"] N [OF eE] S [OF eE l] by auto
      then show ?thesis using l reach_get_update [of s' s] by (simp add: add_push_edge_def)
    next
      case False
      then have "add_push_edge e s = Some s" by (simp add: add_push_edge_def split: fsa_edge.splits)
      with False s show ?thesis by simp
    qed
  next
    fix e s s' assume "?Q e s" "ext_le s s'"
    then show "?Q e s'" using ext_le_get by blast
  qed (use ok ext_le_trans in auto)
  then show ?thesis using fin by auto
qed

lemma pop_loop_spec:
  assumes fin: "finite E" and N: "\<And>e. e \<in> E \<Longrightarrow> ed_src e \<in> N \<and> ed_dst e \<in> N"
    and S: "\<And>e l. e \<in> E \<Longrightarrow> ed_weight e = Pop l \<Longrightarrow> l \<in> S"
    and T: "\<And>e l d. e \<in> E \<Longrightarrow> ed_weight e = Pop l \<Longrightarrow> P d l (ed_src e) \<Longrightarrow> d \<in> N \<Longrightarrow> T d (ed_dst e)"
    and ok: "reach_ok N S P m0"
  shows "\<exists>m' add. fold_opt pop_edge_step (sorted_list_of_set E) (m0, {}) = Some (m', add)
    \<and> reach_ok N S P m' \<and> ext_le m0 m'
    \<and> add \<subseteq> {success_edge d q | d q. d \<in> N \<and> q \<in> N \<and> T d q}
    \<and> (\<forall>e \<in> E. \<forall>l. ed_weight e = Pop l \<longrightarrow>
         (\<forall>d \<in> reach_get m0 (ed_src e) l. success_edge d (ed_dst e) \<in> add))"
proof -
  let ?I = "\<lambda>(m, add). reach_ok N S P m \<and> ext_le m0 m
    \<and> add \<subseteq> {success_edge d q | d q. d \<in> N \<and> q \<in> N \<and> T d q}"
  let ?R = "\<lambda>(m, add) (m', add'). ext_le m m' \<and> add \<subseteq> add'"
  let ?Q = "\<lambda>e (m, add). \<forall>l. ed_weight e = Pop l \<longrightarrow>
    (\<forall>d \<in> reach_get m0 (ed_src e) l. success_edge d (ed_dst e) \<in> add)"
  have "\<exists>s'. fold_opt pop_edge_step (sorted_list_of_set E) (m0, {}) = Some s'
      \<and> ?I s' \<and> ?R (m0, {}) s' \<and> (\<forall>e \<in> set (sorted_list_of_set E). ?Q e s')"
  proof (rule fold_opt_spec [where R = ?R and I = ?I])
    fix e s assume e: "e \<in> set (sorted_list_of_set E)" and s: "?I s"
    then have eE: "e \<in> E" using fin by simp
    obtain m add where sm: "s = (m, add)" by (cases s)
    with s have m: "reach_ok N S P m" "ext_le m0 m"
      and add: "add \<subseteq> {success_edge d q | d q. d \<in> N \<and> q \<in> N \<and> T d q}" by auto
    show "\<exists>s'. pop_edge_step e s = Some s' \<and> ?I s' \<and> ?R s s' \<and> ?Q e s'"
    proof (cases "\<exists>l. ed_weight e = Pop l")
      case True
      then obtain l where l: "ed_weight e = Pop l" by blast
      obtain m' where m': "reach_add (ed_src e) l {} m = Some m'" "reach_ok N S P m'" "ext_le m m'"
        using reach_add_spec [OF m(1), of "ed_src e" l "{}"] N [OF eE] S [OF eE l] by auto
      let ?new = "(\<lambda>definer. success_edge definer (ed_dst e)) ` reach_get m' (ed_src e) l"
      have step: "pop_edge_step e s = Some (m', add \<union> ?new)"
        using l m'(1) by (simp add: pop_edge_step_def sm)
      have "?new \<subseteq> {success_edge d q | d q. d \<in> N \<and> q \<in> N \<and> T d q}"
        using N [OF eE] T [OF eE l] reach_okD(2,3) [OF m'(2)] by blast
      moreover have le: "ext_le m0 m'" using m(2) m'(3) by (rule ext_le_trans)
      moreover have "success_edge d (ed_dst e) \<in> ?new" if "d \<in> reach_get m0 (ed_src e) l" for d
        using that ext_le_get [OF le] by blast
      ultimately show ?thesis
        using step m' add sm l by auto
    next
      case False
      then have "pop_edge_step e s = Some s"
        by (simp add: pop_edge_step_def sm split: fsa_edge.splits)
      with False s sm show ?thesis by auto
    qed
  next
    fix e s s' assume "?Q e s" "?R s s'"
    then show "?Q e s'" by (cases s; cases s') blast
  qed (use ok ext_le_trans in \<open>auto split: prod.splits\<close>)
  then show ?thesis using fin by auto
qed

lemma pointer_half_spec:
  assumes ok: "reach_ok N S P m" and v: "v \<in> N" "fs_not v \<in> N" and S: "Label l1 \<in> S" "Label l2 \<in> S"
    and P: "\<And>d. P d (Label l1) v \<Longrightarrow> P d (Label l2) (fs_not v)"
  shows "\<exists>m'. pointer_half l1 l2 v m = Some m' \<and> reach_ok N S P m' \<and> ext_le m m'
    \<and> reach_get m v (Label l1) \<subseteq> reach_get m' (fs_not v) (Label l2)"
proof -
  obtain m1 where m1: "reach_add v (Label l1) {} m = Some m1" "reach_ok N S P m1" "ext_le m m1"
    using reach_add_spec [OF ok v(1) S(1), of "{}"] by auto
  let ?D = "reach_get m1 v (Label l1)"
  have fin: "finite ?D" using reach_okD(2,7) [OF m1(2)] by (meson finite_subset subsetI)
  have "\<exists>m'. fold_opt (\<lambda>definer m. reach_add (fs_not v) (Label l2) {definer} m)
        (sorted_list_of_set ?D) m1 = Some m'
      \<and> reach_ok N S P m' \<and> ext_le m1 m'
      \<and> (\<forall>d \<in> set (sorted_list_of_set ?D). d \<in> reach_get m' (fs_not v) (Label l2))"
  proof (rule fold_opt_spec [where R = ext_le and I = "reach_ok N S P"])
    fix d s assume d: "d \<in> set (sorted_list_of_set ?D)" and s: "reach_ok N S P s"
    then have "d \<in> N" "P d (Label l2) (fs_not v)"
      using fin reach_okD(2,3) [OF m1(2)] P by auto
    with reach_add_spec [OF s v(2) S(2), of "{d}"] obtain s' where
      "reach_add (fs_not v) (Label l2) {d} s = Some s'" "reach_ok N S P s'" "ext_le s s'"
      "ext s' = (ext s)((fs_not v, Label l2) \<mapsto> reach_get s (fs_not v) (Label l2) \<union> {d})" by auto
    then show "\<exists>s'. reach_add (fs_not v) (Label l2) {d} s = Some s' \<and> reach_ok N S P s' \<and> ext_le s s'
        \<and> d \<in> reach_get s' (fs_not v) (Label l2)"
      using reach_get_update [of s' s] by auto
  next
    fix d s s' assume "d \<in> reach_get s (fs_not v) (Label l2)" "ext_le s s'"
    then show "d \<in> reach_get s' (fs_not v) (Label l2)" using ext_le_get by blast
  qed (use m1 ext_le_trans in auto)
  then obtain m' where m': "pointer_half l1 l2 v m = Some m'" "reach_ok N S P m'" "ext_le m1 m'"
    "?D \<subseteq> reach_get m' (fs_not v) (Label l2)"
    using fin m1(1) by (auto simp: pointer_half_def)
  with m1(3) ext_le_trans ext_le_get [OF m1(3), of v "Label l1"] show ?thesis by blast
qed

lemma pointer_loop_spec:
  assumes nodes: "\<And>v. v \<in> set vs \<Longrightarrow> v \<in> N \<and> fs_not v \<in> N"
    and S: "Label Load \<in> S" "Label Store \<in> S"
    and P: "\<And>v d. v \<in> set vs \<Longrightarrow> P d (Label Store) v \<Longrightarrow> P d (Label Load) (fs_not v)"
      "\<And>v d. v \<in> set vs \<Longrightarrow> P d (Label Load) v \<Longrightarrow> P d (Label Store) (fs_not v)"
    and ok: "reach_ok N S P m0"
  shows "\<exists>m'. fold_opt pointer_step vs m0 = Some m' \<and> reach_ok N S P m' \<and> ext_le m0 m'
    \<and> (\<forall>v \<in> set vs. reach_get m0 v (Label Store) \<subseteq> reach_get m' (fs_not v) (Label Load)
        \<and> reach_get m0 v (Label Load) \<subseteq> reach_get m' (fs_not v) (Label Store))"
proof -
  let ?Q = "\<lambda>v m'. reach_get m0 v (Label Store) \<subseteq> reach_get m' (fs_not v) (Label Load)
        \<and> reach_get m0 v (Label Load) \<subseteq> reach_get m' (fs_not v) (Label Store)"
  have "\<exists>m'. fold_opt pointer_step vs m0 = Some m' \<and> (reach_ok N S P m' \<and> ext_le m0 m')
      \<and> ext_le m0 m' \<and> (\<forall>v \<in> set vs. ?Q v m')"
  proof (rule fold_opt_spec [where R = ext_le and I = "\<lambda>m. reach_ok N S P m \<and> ext_le m0 m"])
    fix v s assume v: "v \<in> set vs" and s: "reach_ok N S P s \<and> ext_le m0 s"
    obtain s1 where s1: "pointer_half Store Load v s = Some s1" "reach_ok N S P s1" "ext_le s s1"
      "reach_get s v (Label Store) \<subseteq> reach_get s1 (fs_not v) (Label Load)"
      using pointer_half_spec [of N S P s v Store Load] s nodes [OF v] S P(1) [OF v] by auto
    obtain s2 where s2: "pointer_half Load Store v s1 = Some s2" "reach_ok N S P s2" "ext_le s1 s2"
      "reach_get s1 v (Label Load) \<subseteq> reach_get s2 (fs_not v) (Label Store)"
      using pointer_half_spec [of N S P s1 v Load Store] s1 nodes [OF v] S P(2) [OF v] by auto
    have "pointer_step v s = Some s2" by (simp add: pointer_step_def s1(1) s2(1))
    moreover have le: "ext_le m0 s1" "ext_le m0 s2" "ext_le s s2"
      using s s1(3) s2(3) ext_le_trans by blast+
    moreover have "?Q v s2"
      using s1(4) s2(4) s ext_le_get [OF s2(3)] ext_le_get [OF le(1)] ext_le_get [of m0 s] by blast
    ultimately show "\<exists>s'. pointer_step v s = Some s' \<and> (reach_ok N S P s' \<and> ext_le m0 s')
        \<and> ext_le s s' \<and> ?Q v s'" using s2(2) by blast
  next
    fix v s s' assume "?Q v s" "ext_le s s'"
    then show "?Q v s'" using ext_le_get by blast
  qed (use ok ext_le_trans in auto)
  then show ?thesis by auto
qed

section \<open>The loop\<close>

definition automaton_ok ::
    "('tid::linorder) edge_definition set \<Rightarrow> 'tid finite_state set \<Rightarrow> 'tid stack_symbol set \<Rightarrow> bool" where
  "automaton_ok E V S \<longleftrightarrow> finite E \<and> finite V \<and> finite S \<and> dual V \<and> edge_states E \<subseteq> V
     \<and> Label Load \<in> S \<and> Label Store \<in> S
     \<and> (\<forall>e \<in> E. \<forall>l. ed_weight e = Push l \<or> ed_weight e = Pop l \<longrightarrow> l \<in> S)"

lemma automaton_okD:
  assumes "automaton_ok E V S"
  shows "finite E" "finite V" "finite S" "v \<in> V \<Longrightarrow> fs_not v \<in> V"
    "e \<in> E \<Longrightarrow> ed_src e \<in> V" "e \<in> E \<Longrightarrow> ed_dst e \<in> V" "Label Load \<in> S" "Label Store \<in> S"
    "e \<in> E \<Longrightarrow> ed_weight e = Push l \<Longrightarrow> l \<in> S" "e \<in> E \<Longrightarrow> ed_weight e = Pop l \<Longrightarrow> l \<in> S"
  using assms unfolding automaton_ok_def dual_def edge_states_def by blast+

definition sat_ok ::
    "('tid::linorder) edge_definition set \<Rightarrow> 'tid finite_state set \<Rightarrow> 'tid stack_symbol set \<Rightarrow>
     'tid sat_state \<Rightarrow> bool" where
  "sat_ok E V S st \<longleftrightarrow> reach_ok V S (reaches E V) (reaching_pushes st)
     \<and> sat_all_edges st = E \<union> new_edges st
     \<and> new_edges st \<subseteq> {success_edge d q | d q. d \<in> V \<and> q \<in> V \<and> sat_edge E V d q}
     \<and> (\<forall>e \<in> E. \<forall>l. ed_weight e = Push l \<longrightarrow>
          ed_src e \<in> reach_get (reaching_pushes st) (ed_dst e) l)"

definition sat_le :: "('tid::linorder) sat_state \<Rightarrow> 'tid sat_state \<Rightarrow> bool" where
  "sat_le st st' \<longleftrightarrow> ext_le (reaching_pushes st) (reaching_pushes st')
     \<and> sat_all_edges st \<subseteq> sat_all_edges st'"

text \<open>No rule adds anything.\<close>

definition sat_closed ::
    "('tid::linorder) edge_definition set \<Rightarrow> 'tid finite_state set \<Rightarrow> 'tid sat_state \<Rightarrow> bool" where
  "sat_closed E V st \<longleftrightarrow>
     (\<forall>e \<in> sat_all_edges st. ed_weight e = Success \<longrightarrow>
        (\<forall>k. reach_get (reaching_pushes st) (ed_src e) k \<subseteq> reach_get (reaching_pushes st) (ed_dst e) k))
     \<and> (\<forall>e \<in> sat_all_edges st. \<forall>l. ed_weight e = Pop l \<longrightarrow>
        (\<forall>d \<in> reach_get (reaching_pushes st) (ed_src e) l. success_edge d (ed_dst e) \<in> new_edges st))
     \<and> (\<forall>v \<in> V. is_contravariant_state v \<longrightarrow>
        reach_get (reaching_pushes st) v (Label Store)
          \<subseteq> reach_get (reaching_pushes st) (fs_not v) (Label Load)
        \<and> reach_get (reaching_pushes st) v (Label Load)
          \<subseteq> reach_get (reaching_pushes st) (fs_not v) (Label Store))"

lemma success_edge_sel [simp]:
  "ed_src (success_edge d q) = d" "ed_dst (success_edge d q) = q" "ed_weight (success_edge d q) = Success"
  by (simp_all add: success_edge_def)

lemma edge_in: "e \<in> E \<Longrightarrow> ed_weight e = w \<Longrightarrow> \<lparr>ed_src = ed_src e, ed_dst = ed_dst e, ed_weight = w\<rparr> \<in> E"
  for e :: "'tid edge_definition"
  by (cases e) auto

lemma sat_edges_finite:
  assumes "automaton_ok E V S" "sat_ok E V S st"
  shows "finite (sat_all_edges st)" "new_edges st \<subseteq> (\<lambda>(d, q). success_edge d q) ` (V \<times> V)"
proof -
  show sub: "new_edges st \<subseteq> (\<lambda>(d, q). success_edge d q) ` (V \<times> V)"
    using assms(2) unfolding sat_ok_def by auto
  then have "finite (new_edges st)"
    using automaton_okD(2) [OF assms(1)] by (meson finite_SigmaI finite_imageI finite_subset)
  then show "finite (sat_all_edges st)"
    using assms(2) automaton_okD(1) [OF assms(1)] by (simp add: sat_ok_def)
qed

lemma sat_iter_spec:
  assumes A: "automaton_ok E V S" and st: "sat_ok E V S st" and nodes: "set nodes = V"
  shows "\<exists>st'. sat_iter nodes st = Some st' \<and> sat_ok E V S st' \<and> sat_le st st'
    \<and> ((reaching_pushes st, sat_all_edges st) = (reaching_pushes st', sat_all_edges st')
        \<longrightarrow> sat_closed E V st')"
proof -
  let ?F = "sat_all_edges st" and ?P = "reaches E V" and ?m0 = "reaching_pushes st"
  note D = automaton_okD [OF A]
  have ok0: "reach_ok V S ?P ?m0" and F: "?F = E \<union> new_edges st"
    and new: "new_edges st \<subseteq> {success_edge d q | d q. d \<in> V \<and> q \<in> V \<and> sat_edge E V d q}"
    and push: "e \<in> E \<Longrightarrow> ed_weight e = Push l \<Longrightarrow> ed_src e \<in> reach_get ?m0 (ed_dst e) l" for e l
    using st by (auto simp: sat_ok_def)
  have finF: "finite ?F" by (rule sat_edges_finite [OF A st])
  have N: "ed_src e \<in> V \<and> ed_dst e \<in> V" if "e \<in> ?F" for e
    using that new D(5,6) F by auto
  have F_cases: "e \<in> E \<or> (\<exists>d q. e = success_edge d q \<and> sat_edge E V d q)" if "e \<in> ?F" for e
    using that F new by auto
  have succ: "?P d l (ed_dst e)" if "e \<in> ?F" "ed_weight e = Success" "?P d l (ed_src e)" for e d l
    using F_cases [OF that(1)]
  proof
    assume "e \<in> E"
    then have "\<lparr>ed_src = ed_src e, ed_dst = ed_dst e, ed_weight = Success\<rparr> \<in> E"
      using that(2) by (rule edge_in)
    with that(3) show ?thesis by (rule R_success)
  next
    assume "\<exists>d q. e = success_edge d q \<and> sat_edge E V d q"
    with that(3) show ?thesis by (auto intro: R_saturated)
  qed
  have inE: "e \<in> E" if "e \<in> ?F" "ed_weight e = Pop l" for e l
    using F_cases [OF that(1)] that(2) by auto
  have pop: "sat_edge E V d (ed_dst e)"
    if "e \<in> ?F" "ed_weight e = Pop l" "?P d l (ed_src e)" for e d l
  proof -
    have "\<lparr>ed_src = ed_src e, ed_dst = ed_dst e, ed_weight = Pop l\<rparr> \<in> E"
      using inE [OF that(1,2)] that(2) by (rule edge_in)
    with that(3) show ?thesis by (rule R_pop)
  qed
  obtain m1 where m1: "fold_opt merge_success_edge (sorted_list_of_set ?F) ?m0 = Some m1"
      "reach_ok V S ?P m1" "ext_le ?m0 m1"
      "\<forall>e \<in> ?F. ed_weight e = Success \<longrightarrow> (\<forall>k. reach_get ?m0 (ed_src e) k \<subseteq> reach_get m1 (ed_dst e) k)"
    using merge_loop_spec [OF finF N succ ok0] by blast
  have popS: "l \<in> S" if "e \<in> ?F" "ed_weight e = Pop l" for e l
    using D(10) inE that by blast
  obtain m2 add where m2: "fold_opt pop_edge_step (sorted_list_of_set ?F) (m1, {}) = Some (m2, add)"
      "reach_ok V S ?P m2" "ext_le m1 m2"
      "add \<subseteq> {success_edge d q | d q. d \<in> V \<and> q \<in> V \<and> sat_edge E V d q}"
      "\<forall>e \<in> ?F. \<forall>l. ed_weight e = Pop l \<longrightarrow>
         (\<forall>d \<in> reach_get m1 (ed_src e) l. success_edge d (ed_dst e) \<in> add)"
    using pop_loop_spec [of ?F V S ?P "sat_edge E V" m1] finF N popS pop m1(2) by blast
  let ?vs = "filter is_contravariant_state nodes"
  have vs: "v \<in> set ?vs \<longleftrightarrow> v \<in> V \<and> is_contravariant_state v" for v using nodes by auto
  obtain m3 where m3: "fold_opt pointer_step ?vs m2 = Some m3" "reach_ok V S ?P m3" "ext_le m2 m3"
      "\<forall>v \<in> set ?vs. reach_get m2 v (Label Store) \<subseteq> reach_get m3 (fs_not v) (Label Load)
        \<and> reach_get m2 v (Label Load) \<subseteq> reach_get m3 (fs_not v) (Label Store)"
    using pointer_loop_spec [of ?vs V S ?P m2] D(4,7,8) vs m2(2)
    by (blast intro: R_store R_load)
  define st' where "st' = \<lparr>reaching_pushes = m3, sat_all_edges = ?F \<union> add, new_edges = new_edges st \<union> add\<rparr>"
  have iter: "sat_iter nodes st = Some st'"
    unfolding sat_iter_def st'_def by (simp add: m1(1) m2(1) m3(1))
  have le: "ext_le ?m0 m3" using m1(3) m2(3) m3(3) by (blast intro: ext_le_trans)
  then have "ed_src e \<in> reach_get m3 (ed_dst e) l" if "e \<in> E" "ed_weight e = Push l" for e l
    using push [OF that] ext_le_get by blast
  then have ok': "sat_ok E V S st'"
    using m3(2) F new m2(4) by (auto simp: sat_ok_def st'_def)
  have "sat_closed E V st'" if same: "(?m0, ?F) = (reaching_pushes st', sat_all_edges st')"
  proof -
    have eq3: "m3 = ?m0" and F': "sat_all_edges st' = ?F" using same by (simp_all add: st'_def)
    have "ext_le m1 ?m0" "ext_le m2 ?m0" "ext_le ?m0 m2"
      using m1(3) m2(3) m3(3) eq3 by (blast intro: ext_le_trans)+
    then have get: "reach_get m1 = reach_get ?m0" "reach_get m2 = reach_get ?m0"
      using m1(3) by (auto intro!: ext_get_eq ext_le_antisym)
    show ?thesis
      unfolding sat_closed_def F'
      using m1(4) m2(5) m3(4) vs by (simp add: st'_def eq3 get)
  qed
  with iter ok' le show ?thesis by (auto simp: sat_le_def st'_def)
qed

text \<open>The states of the iteration are subsets of a finite set.\<close>

definition sat_content ::
    "('tid::linorder) sat_state \<Rightarrow>
     ('tid edge_definition + ('tid finite_state \<times> 'tid stack_symbol)
       + ('tid finite_state \<times> 'tid stack_symbol) \<times> 'tid finite_state) set" where
  "sat_content st = Inl ` sat_all_edges st \<union> Inr ` (Inl ` dom (ext (reaching_pushes st))
     \<union> Inr ` {((n, l), d). d \<in> reach_get (reaching_pushes st) n l})"

lemma sat_content_mono: "sat_le st st' \<Longrightarrow> sat_content st \<subseteq> sat_content st'"
proof -
  assume le: "sat_le st st'"
  then have "dom (ext (reaching_pushes st)) \<subseteq> dom (ext (reaching_pushes st'))"
    by (auto simp: sat_le_def dest: ext_leD)
  moreover have "reach_get (reaching_pushes st) n l \<subseteq> reach_get (reaching_pushes st') n l" for n l
    using le ext_le_get [of "reaching_pushes st" "reaching_pushes st'" n l] by (simp add: sat_le_def)
  then have "{((n, l), d). d \<in> reach_get (reaching_pushes st) n l}
      \<subseteq> {((n, l), d). d \<in> reach_get (reaching_pushes st') n l}" by blast
  moreover have "sat_all_edges st \<subseteq> sat_all_edges st'" using le by (simp add: sat_le_def)
  ultimately show ?thesis unfolding sat_content_def by (intro Un_mono image_mono)
qed

lemma sat_content_eqI:
  assumes "sat_ok E V S st" "sat_ok E V S st'" "sat_content st = sat_content st'"
  shows "reaching_pushes st = reaching_pushes st' \<and> sat_all_edges st = sat_all_edges st'"
proof -
  let ?m = "reaching_pushes st" and ?m' = "reaching_pushes st'"
  have edges: "sat_all_edges st = sat_all_edges st'"
  proof -
    have "sat_all_edges x = {e. Inl e \<in> sat_content x}" for x :: "'a sat_state"
      by (auto simp: sat_content_def)
    then show ?thesis using assms(3) by simp
  qed
  have "dom (ext (reaching_pushes x)) = {k. Inr (Inl k) \<in> sat_content x}" for x :: "'a sat_state"
    by (auto simp: sat_content_def)
  then have dom: "dom (ext ?m) = dom (ext ?m')" using assms(3) by simp
  have "reach_get (reaching_pushes x) n l = {d. Inr (Inr ((n, l), d)) \<in> sat_content x}"
    for x :: "'a sat_state" and n l by (auto simp: sat_content_def)
  then have get: "reach_get ?m n l = reach_get ?m' n l" for n l using assms(3) by simp
  have "ext ?m k = ext ?m' k" for k
  proof (cases "ext ?m k")
    case None
    with dom show ?thesis by (metis domIff)
  next
    case (Some X)
    then obtain Y where Y: "ext ?m' k = Some Y" using dom by blast
    obtain n l where "k = (n, l)" by (cases k)
    then have "X = Y" using get [of n l] Some Y by (simp add: reach_get_Some)
    with Some Y show ?thesis by simp
  qed
  then have "ext ?m = ext ?m'" ..
  moreover have "wf_reach V ?m" "wf_reach V ?m'"
    using assms(1,2) by (auto simp: sat_ok_def reach_ok_def)
  ultimately show ?thesis using edges wf_reach_eqI by blast
qed

lemma sat_content_finite:
  assumes A: "automaton_ok E V S"
  shows "\<exists>U. finite U \<and> (\<forall>st. sat_ok E V S st \<longrightarrow> sat_content st \<subseteq> U)"
proof -
  let ?U = "Inl ` (E \<union> (\<lambda>(d, q). success_edge d q) ` (V \<times> V))
    \<union> Inr ` (Inl ` (V \<times> S) \<union> Inr ` ((V \<times> S) \<times> V))"
  note D = automaton_okD [OF A]
  have "finite ?U" using D(1-3) by simp
  moreover have "sat_content st \<subseteq> ?U" if st: "sat_ok E V S st" for st
  proof -
  have ok: "reach_ok V S (reaches E V) (reaching_pushes st)" using st by (simp add: sat_ok_def)
  have "sat_all_edges st \<subseteq> E \<union> (\<lambda>(d, q). success_edge d q) ` (V \<times> V)"
    using st sat_edges_finite(2) [OF A st] by (auto simp: sat_ok_def)
  moreover have dom: "dom (ext (reaching_pushes st)) \<subseteq> V \<times> S"
    using reach_okD(4,5) [OF ok] by auto
  moreover have "{((n, l), d). d \<in> reach_get (reaching_pushes st) n l} \<subseteq> (V \<times> S) \<times> V"
  proof
    fix x assume "x \<in> {((n, l), d). d \<in> reach_get (reaching_pushes st) n l}"
    then obtain n l d where x: "x = ((n, l), d)" and d: "d \<in> reach_get (reaching_pushes st) n l"
      by auto
    then obtain X where "ext (reaching_pushes st) (n, l) = Some X"
      by (auto simp: reach_get_ext split: option.splits)
    then have "(n, l) \<in> V \<times> S" using dom by blast
    with reach_okD(2) [OF ok d] x show "x \<in> (V \<times> S) \<times> V" by simp
  qed
  ultimately show ?thesis unfolding sat_content_def by (intro Un_mono image_mono)
  qed
  ultimately show ?thesis by blast
qed

lemma sat_loop_spec:
  assumes A: "automaton_ok E V S" and nodes: "set nodes = V"
  shows "sat_ok E V S st \<Longrightarrow> \<exists>st'. sat_loop nodes st = Some st' \<and> sat_ok E V S st' \<and> sat_closed E V st'"
proof -
  obtain U where U: "finite U" "\<And>st. sat_ok E V S st \<Longrightarrow> sat_content st \<subseteq> U"
    using sat_content_finite [OF A] by blast
  show "sat_ok E V S st \<Longrightarrow> ?thesis"
  proof (induction "card (U - sat_content st)" arbitrary: st rule: less_induct)
    case less
    obtain st1 where st1: "sat_iter nodes st = Some st1" "sat_ok E V S st1" "sat_le st st1"
      "(reaching_pushes st, sat_all_edges st) = (reaching_pushes st1, sat_all_edges st1)
        \<longrightarrow> sat_closed E V st1"
      using sat_iter_spec [OF A less.prems nodes] by blast
    show ?case
    proof (cases "(reaching_pushes st, sat_all_edges st) = (reaching_pushes st1, sat_all_edges st1)")
      case True
      then have "sat_loop nodes st = Some st1" by (subst sat_loop.simps) (simp add: st1(1))
      with True st1 show ?thesis by blast
    next
      case False
      then have "sat_content st \<noteq> sat_content st1"
        using sat_content_eqI [OF less.prems st1(2)] by auto
      then have "sat_content st \<subset> sat_content st1" using sat_content_mono [OF st1(3)] by blast
      then have "card (U - sat_content st1) < card (U - sat_content st)"
        using U(2) [OF st1(2)] U(1) by (intro psubset_card_mono) auto
      with less.hyps [of st1] st1(2) obtain st' where
        "sat_loop nodes st1 = Some st'" "sat_ok E V S st'" "sat_closed E V st'" by blast
      moreover have "sat_loop nodes st = sat_loop nodes st1"
        using False by (subst sat_loop.simps) (auto simp: st1(1))
      ultimately show ?thesis by auto
    qed
  qed
qed

lemma sat_closed_complete:
  assumes ok: "sat_ok E V S st" and cl: "sat_closed E V st"
  shows "(reaches E V d l n \<longrightarrow> d \<in> reach_get (reaching_pushes st) n l)
    \<and> (sat_edge E V d q \<longrightarrow> success_edge d q \<in> new_edges st)"
proof -
  have all: "sat_all_edges st = E \<union> new_edges st" using ok by (simp add: sat_ok_def)
  show ?thesis
  proof (induction rule: reaches_sat_edge.induct)
    case (R_push d n l)
    then show ?case using ok unfolding sat_ok_def by fastforce
  next
    case (R_success d l n m)
    then have "\<lparr>ed_src = n, ed_dst = m, ed_weight = Success\<rparr> \<in> sat_all_edges st" by (simp add: all)
    with R_success cl show ?case unfolding sat_closed_def by fastforce
  next
    case (R_saturated d l n m)
    then have "success_edge n m \<in> sat_all_edges st" by (simp add: all)
    with R_saturated cl show ?case unfolding sat_closed_def by fastforce
  next
    case (R_store d n)
    with cl show ?case unfolding sat_closed_def by blast
  next
    case (R_load d n)
    with cl show ?case unfolding sat_closed_def by blast
  next
    case (R_pop d l n q)
    then have "\<lparr>ed_src = n, ed_dst = q, ed_weight = Pop l\<rparr> \<in> sat_all_edges st" by (simp add: all)
    with R_pop cl show ?case unfolding sat_closed_def by fastforce
  qed
qed

section \<open>The result\<close>

text \<open>The states and edges of the graph of an automaton.\<close>

definition graph_states :: "('g, 'tid finite_state, 'e) petgraph \<Rightarrow> 'g \<Rightarrow> 'tid finite_state set" where
  "graph_states G g = {w. \<exists>n. pg_node_weight G g n = Some w}"

definition graph_edges ::
    "('g, 'tid finite_state, 'tid fsa_edge) petgraph \<Rightarrow> 'g \<Rightarrow> 'tid edge_definition set" where
  "graph_edges G g = {\<lparr>ed_src = s, ed_dst = t, ed_weight = w\<rparr> | s t w.
     \<exists>i a b. pg_edge G g i = Some (a, b, w) \<and> pg_node_weight G g a = Some s
       \<and> pg_node_weight G g b = Some t}"

lemma wf_reach_init:
  "wf_reach (set nodes) (foldl (\<lambda>m weight. bt_insert weight [] m) [] nodes)
   \<and> (\<forall>k. ext (foldl (\<lambda>m weight. bt_insert weight [] m) [] nodes) k = None)"
proof (induction nodes rule: rev_induct)
  case (snoc x nodes)
  then show ?case
    by (auto simp: wf_reach_def ext_def sorted_bt_insert split: if_splits option.splits)
qed (simp add: wf_reach_def ext_def)

text \<open>A library graph that carries an automaton.\<close>

locale fsa_graph = stable_digraph G ok
  for G :: "('g, ('tid::linorder) finite_state, 'tid fsa_edge) petgraph" and ok :: "'g \<Rightarrow> bool"
begin

lemma traverse_graph_edges:
  assumes "ok g"
  shows "\<exists>es. traverse (graph_edge G g) (edge_references G g) = Some es \<and> set es = graph_edges G g"
proof -
  let ?f = "\<lambda>(i, a, b, w). \<lparr>ed_src = the (pg_node_weight G g a),
    ed_dst = the (pg_node_weight G g b), ed_weight = w\<rparr>"
  have ends: "pg_node_weight G g a \<noteq> None \<and> pg_node_weight G g b \<noteq> None"
    if "(i, a, b, w) \<in> set (edge_references G g)" for i a b w
    using that edge_ends [OF assms] by (auto simp: set_edge_references [OF assms])
  have "traverse (graph_edge G g) (edge_references G g) = Some (map ?f (edge_references G g))"
    by (rule traverse_Some_map) (use ends in \<open>fastforce simp: graph_edge_def\<close>)
  moreover have "set (map ?f (edge_references G g)) = graph_edges G g"
    using edge_ends [OF assms]
    by (fastforce simp: set_edge_references [OF assms] graph_edges_def image_iff)
  ultimately show ?thesis by blast
qed

lemma nodes_are_states:
  "ok g \<Longrightarrow> set (map snd (node_references G g)) = graph_states G g"
  by (force simp: set_node_references graph_states_def)

lemma graph_edge_states:
  "ok g \<Longrightarrow> edge_states (graph_edges G g) \<subseteq> graph_states G g"
  by (auto simp: edge_states_def graph_edges_def graph_states_def)

lemma get_saturation_edges_spec:
  assumes g: "ok g" and dual: "dual (graph_states G g)"
  shows "\<exists>es. get_saturation_edges G g = Some es
    \<and> es = {success_edge d q | d q. d \<noteq> q \<and> sat_edge (graph_edges G g) (graph_states G g) d q}
    \<and> finite es"
proof -
  let ?E = "graph_edges G g" and ?V = "graph_states G g"
  define S where "S = insert (Label Load) (insert (Label Store)
    {l. \<exists>e \<in> ?E. ed_weight e = Push l \<or> ed_weight e = Pop l})"
  obtain es where es: "traverse (graph_edge G g) (edge_references G g) = Some es" "set es = ?E"
    using traverse_graph_edges [OF g] by blast
  have finE: "finite ?E" using es(2) by (metis List.finite_set)
  let ?nodes = "map snd (node_references G g)"
  have nodes: "set ?nodes = ?V" by (rule nodes_are_states [OF g])
  then have finV: "finite ?V" by (metis List.finite_set)
  have "finite {l. \<exists>e \<in> ?E. ed_weight e = Push l \<or> ed_weight e = Pop l}"
  proof -
    have "{l. \<exists>e \<in> ?E. ed_weight e = Push l \<or> ed_weight e = Pop l}
        \<subseteq> (\<lambda>e. case ed_weight e of Push l \<Rightarrow> l | Pop l \<Rightarrow> l | _ \<Rightarrow> undefined) ` ?E"
      by force
    then show ?thesis using finE by (meson finite_imageI finite_subset)
  qed
  then have A: "automaton_ok ?E ?V S"
    using finE finV dual graph_edge_states [OF g] by (auto simp: automaton_ok_def S_def)
  define m0 :: "'tid reach_map" where "m0 = foldl (\<lambda>m weight. bt_insert weight [] m) [] ?nodes"
  have init: "reach_ok ?V S (reaches ?E ?V) m0"
    using wf_reach_init [of ?nodes] nodes by (simp add: reach_ok_def m0_def)
  note D = automaton_okD [OF A]
  have "l \<in> S \<and> reaches ?E ?V (ed_src e) l (ed_dst e)" if "e \<in> ?E" "ed_weight e = Push l" for e l
    using D(9) [OF that] edge_in [OF that] by (auto intro: R_push)
  then obtain m1 where m1: "fold_opt add_push_edge (sorted_list_of_set ?E) m0 = Some m1"
    "reach_ok ?V S (reaches ?E ?V) m1"
    "\<forall>e \<in> ?E. \<forall>l. ed_weight e = Push l \<longrightarrow> ed_src e \<in> reach_get m1 (ed_dst e) l"
    using push_loop_spec [OF finE _ _ init] D(5,6) by blast
  let ?st = "\<lparr>reaching_pushes = m1, sat_all_edges = ?E, new_edges = {}\<rparr>"
  have "sat_ok ?E ?V S ?st" using m1 by (simp add: sat_ok_def)
  then obtain st where st: "sat_loop ?nodes ?st = Some st" "sat_ok ?E ?V S st" "sat_closed ?E ?V st"
    using sat_loop_spec [OF A nodes] by blast
  have "success_edge d q \<in> new_edges st \<longleftrightarrow> sat_edge ?E ?V d q" for d q
    using st(2) sat_closed_complete [OF st(2,3), of d _ _ q]
    unfolding sat_ok_def by (auto simp: success_edge_def)
  moreover have "new_edges st \<subseteq> {success_edge d q | d q. d \<in> ?V \<and> q \<in> ?V \<and> sat_edge ?E ?V d q}"
    using st(2) by (simp add: sat_ok_def)
  ultimately have "Set.filter (\<lambda>x. ed_src x \<noteq> ed_dst x) (new_edges st)
      = {success_edge d q | d q. d \<noteq> q \<and> sat_edge ?E ?V d q}" by fastforce
  moreover have "get_saturation_edges G g
      = Some (Set.filter (\<lambda>x. ed_src x \<noteq> ed_dst x) (new_edges st))"
    using m1(1) st(1) by (simp add: get_saturation_edges_def es Let_def m0_def)
  moreover have "finite (new_edges st)"
    using sat_edges_finite(2) [OF A st(2)] finV by (meson finite_SigmaI finite_imageI finite_subset)
  ultimately show ?thesis by (metis finite_filter)
qed

end

interpretation list_fsa: fsa_graph list_digraph lg_ok
  by unfold_locales

end
