(* ===== verification/FsaGraph.thy ===== *)
theory FsaGraph
  imports Saturation GraphAlgos SimplifyPath
begin

text \<open>
  The automaton of \<^verbatim>\<open>src/solver/constraint_graph.rs\<close> as a graph: its construction, the
  insertion of the saturation edges, the intersection with the words that pop before they
  push, the removal of unreachable states, the loop breakers and the walk that reads
  constraints off the paths.  The graph is the library's, given by its operations; the
  derived order of the states decides the order of insertions.  An \<^verbatim>\<open>unwrap\<close>, an
  assertion or an \<^verbatim>\<open>unreachable!\<close> that fails is \<^const>\<open>None\<close>.
\<close>

record ('g, 'tid) fsa =
  grph :: 'g
  fsa_mp :: "'tid finite_state \<Rightarrow> nat option"
  cant_pop_nodes :: "'tid finite_state \<Rightarrow> nat option"

type_synonym ('g, 'tid) fsa_pg = "('g, 'tid finite_state, 'tid fsa_edge) petgraph"

section \<open>Construction\<close>

definition get_or_insert_nd ::
    "('g, 'tid) fsa_pg \<Rightarrow> 'tid finite_state \<Rightarrow> ('g, 'tid) fsa \<Rightarrow> nat \<times> ('g, 'tid) fsa" where
  "get_or_insert_nd G nd fsa =
     (case fsa_mp fsa nd of
        Some idx \<Rightarrow> (idx, fsa)
      | None \<Rightarrow>
          (let (idx, g) = pg_add_node G nd (grph fsa)
           in (idx, fsa\<lparr>grph := g, fsa_mp := (fsa_mp fsa)(nd \<mapsto> idx)\<rparr>)))"

definition insert_edge ::
    "('g, 'tid) fsa_pg \<Rightarrow> 'tid edge_definition \<Rightarrow> ('g, 'tid) fsa \<Rightarrow> ('g, 'tid) fsa option" where
  "insert_edge G edef fsa =
     (let (src_idx, fsa1) = get_or_insert_nd G (ed_src edef) fsa;
          (dst_idx, fsa2) = get_or_insert_nd G (ed_dst edef) fsa1
      in case pg_add_edge G src_idx dst_idx (ed_weight edef) (grph fsa2) of
           None \<Rightarrow> None
         | Some (_, g) \<Rightarrow> Some (fsa2\<lparr>grph := g\<rparr>))"

definition fsa_new ::
    "('g, 'tid) fsa_pg \<Rightarrow> ('tid::linorder) constraint_set \<Rightarrow> 'tid rule_context \<Rightarrow>
     (string + ('g, 'tid) fsa) option" where
  "fsa_new G cons context =
     (let subs = sorted_list_of_set (constraint_set_to_subtys cons)
      in case fsa_edges context subs of
           Inl e \<Rightarrow> Some (Inl e)
         | Inr total_edges \<Rightarrow>
             let empty_fsa = \<lparr>grph = pg_new G, fsa_mp = Map.empty, cant_pop_nodes = Map.empty\<rparr>
             in case fold_opt (insert_edge G) (sorted_list_of_set (set total_edges)) empty_fsa of
                  None \<Rightarrow> None
                | Some fsa1 \<Rightarrow>
                    let (_, fsa2) = get_or_insert_nd G Start fsa1;
                        (_, fsa3) = get_or_insert_nd G End fsa2
                    in Some (Inr fsa3))"

section \<open>Saturation and the intersection with pops before pushes\<close>

definition saturate ::
    "('g, ('tid::linorder)) fsa_pg \<Rightarrow> ('g, 'tid) fsa \<Rightarrow> ('g, 'tid) fsa option" where
  "saturate G fsa =
     do { es \<leftarrow> get_saturation_edges G (grph fsa);
          fold_opt (insert_edge G) (sorted_list_of_set es) fsa }"

definition add_cant_push_node ::
    "('g, 'tid) fsa_pg \<Rightarrow> 'tid finite_state \<Rightarrow> ('g, 'tid) fsa \<Rightarrow> nat \<times> ('g, 'tid) fsa" where
  "add_cant_push_node G old_node fsa =
     (case cant_pop_nodes fsa old_node of
        Some idx \<Rightarrow> (idx, fsa)
      | None \<Rightarrow>
          (let (nd_idx, g) = pg_add_node G old_node (grph fsa)
           in (nd_idx, fsa\<lparr>grph := g, cant_pop_nodes := (cant_pop_nodes fsa)(old_node \<mapsto> nd_idx)\<rparr>)))"

definition add_edge_idx ::
    "('g, 'tid) fsa_pg \<Rightarrow> nat \<Rightarrow> nat \<Rightarrow> 'tid fsa_edge \<Rightarrow> ('g, 'tid) fsa \<Rightarrow> ('g, 'tid) fsa option" where
  "add_edge_idx G a b w fsa =
     map_option (\<lambda>(_, g). fsa\<lparr>grph := g\<rparr>) (pg_add_edge G a b w (grph fsa))"

definition redirect_push ::
    "('g, 'tid) fsa_pg \<Rightarrow> nat \<Rightarrow> nat \<Rightarrow> 'tid finite_state \<Rightarrow> 'tid fsa_edge \<Rightarrow> ('g, 'tid) fsa \<Rightarrow>
     ('g, 'tid) fsa option" where
  "redirect_push G edge_ind src old_dst_node edge fsa =
     (case edge of
        Push x \<Rightarrow>
          (let (new_nd, fsa1) = add_cant_push_node G old_dst_node fsa
           in do { fsa2 \<leftarrow> add_edge_idx G src new_nd (Push x) fsa1;
                   Some (fsa2\<lparr>grph := snd (pg_remove_edge G edge_ind (grph fsa2))\<rparr>) })
      | _ \<Rightarrow> Some fsa)"

definition mirror_edge ::
    "('g, 'tid) fsa_pg \<Rightarrow> 'tid finite_state \<Rightarrow> 'tid finite_state \<Rightarrow> 'tid fsa_edge \<Rightarrow>
     ('g, 'tid) fsa \<Rightarrow> ('g, 'tid) fsa option" where
  "mirror_edge G old_src_node old_dst_node edge fsa =
     (let mirrored =
          (let (nsrc, fsa1) = add_cant_push_node G old_src_node fsa;
               (ndst, fsa2) = add_cant_push_node G old_dst_node fsa1
           in add_edge_idx G nsrc ndst edge fsa2)
      in case edge of
           Push _ \<Rightarrow> mirrored
         | Success \<Rightarrow> mirrored
         | Pop _ \<Rightarrow> Some fsa
         | Failed \<Rightarrow> Some fsa)"

definition intersect_edge ::
    "('g, 'tid) fsa_pg \<Rightarrow> nat \<Rightarrow> ('g, 'tid) fsa \<Rightarrow> ('g, 'tid) fsa option" where
  "intersect_edge G edge_ind fsa =
     do { edge \<leftarrow> edge_weight G (grph fsa) edge_ind;
          (src, dst) \<leftarrow> edge_endpoints G (grph fsa) edge_ind;
          old_src_node \<leftarrow> pg_node_weight G (grph fsa) src;
          old_dst_node \<leftarrow> pg_node_weight G (grph fsa) dst;
          fsa1 \<leftarrow> redirect_push G edge_ind src old_dst_node edge fsa;
          mirror_edge G old_src_node old_dst_node edge fsa1 }"

definition intersect_with_pop_push ::
    "('g, 'tid) fsa_pg \<Rightarrow> ('g, 'tid) fsa \<Rightarrow> ('g, 'tid) fsa option" where
  "intersect_with_pop_push G fsa =
     do { fsa1 \<leftarrow> fold_opt (intersect_edge G) (pg_edge_indices G (grph fsa)) fsa;
          Some (if cant_pop_nodes fsa1 End = None then snd (add_cant_push_node G End fsa1)
                else fsa1) }"

section \<open>Unreachable states\<close>

definition remove_unreachable ::
    "('g, 'tid) fsa_pg \<Rightarrow> ('g, 'tid) fsa \<Rightarrow> ('g, 'tid) fsa option" where
  "remove_unreachable G fsa =
     do { start_idx \<leftarrow> fsa_mp fsa Start;
          end_idx \<leftarrow> cant_pop_nodes fsa End;
          if contains_node G (grph fsa) start_idx \<and> contains_node G (grph fsa) end_idx then
            let reachable_from_start = set (pg_dfs G (grph fsa) [start_idx]);
                reachable_from_end = set (pg_dfs G (pg_reverse G (grph fsa)) [end_idx]);
                reachable = insert end_idx (insert start_idx
                  (reachable_from_start \<inter> reachable_from_end))
            in Some (fsa\<lparr>grph := foldl (\<lambda>g nd_id.
                 if nd_id \<in> reachable then g else snd (pg_remove_node G nd_id g))
                 (grph fsa) (pg_node_indices G (grph fsa))\<rparr>)
          else None }"

section \<open>Reading constraints off paths\<close>

definition get_start :: "('g, 'tid) fsa \<Rightarrow> nat option" where
  "get_start fsa = fsa_mp fsa Start"

definition get_end :: "('g, 'tid) fsa \<Rightarrow> nat option" where
  "get_end fsa = cant_pop_nodes fsa End"

definition get_it_from_edge ::
    "('g, 'tid) fsa_pg \<Rightarrow> ('g, 'tid) fsa \<Rightarrow> nat \<Rightarrow> ('tid fsa_edge \<Rightarrow> 'tid stack_symbol option) \<Rightarrow>
     ('tid dtv \<times> variance) option" where
  "get_it_from_edge G fsa ed pat_cons =
     (case Option.bind (edge_weight G (grph fsa) ed) pat_cons of
        Some (IV_Symbol iv var) \<Rightarrow> Some (dtv_new (iv_tv iv), var)
      | _ \<Rightarrow> None)"

definition add_field_to_var ::
    "field_label list \<Rightarrow> 'tid stack_symbol \<Rightarrow> field_label list option" where
  "add_field_to_var v symb = (case symb of IV_Symbol _ _ \<Rightarrow> None | Label fl \<Rightarrow> Some (v @ [fl]))"

text \<open>
  The loop over the inner edges of a path: the labels popped and pushed so far.  The outer
  option is the panic of a failed edge, the inner one the early return.
\<close>

fun path_loop ::
    "('g, 'tid) fsa_pg \<Rightarrow> ('g, 'tid) fsa \<Rightarrow> nat list \<Rightarrow> field_label list \<Rightarrow> field_label list \<Rightarrow>
     (field_label list \<times> field_label list) option option" where
  "path_loop G fsa [] lhs_path rhs_path = Some (Some (lhs_path, rhs_path))"
| "path_loop G fsa (edge_idx # es) lhs_path rhs_path =
     (case edge_weight G (grph fsa) edge_idx of
        None \<Rightarrow> Some None
      | Some (Pop s) \<Rightarrow>
          (case add_field_to_var lhs_path s of
             None \<Rightarrow> Some None | Some p \<Rightarrow> path_loop G fsa es p rhs_path)
      | Some (Push s) \<Rightarrow>
          (case add_field_to_var rhs_path s of
             None \<Rightarrow> Some None | Some p \<Rightarrow> path_loop G fsa es lhs_path p)
      | Some Success \<Rightarrow> path_loop G fsa es lhs_path rhs_path
      | Some Failed \<Rightarrow> None)"

definition pop_symbol :: "'tid fsa_edge \<Rightarrow> 'tid stack_symbol option" where
  "pop_symbol x = (case x of Pop s \<Rightarrow> Some s | _ \<Rightarrow> None)"

definition push_symbol :: "'tid fsa_edge \<Rightarrow> 'tid stack_symbol option" where
  "push_symbol x = (case x of Push s \<Rightarrow> Some s | _ \<Rightarrow> None)"

definition path_to_constraint ::
    "('g, 'tid) fsa_pg \<Rightarrow> ('g, 'tid) fsa \<Rightarrow> nat list \<Rightarrow> 'tid subtype_constraint option option" where
  "path_to_constraint G fsa path =
     (let pop_it = (case path of [] \<Rightarrow> None | x # _ \<Rightarrow> get_it_from_edge G fsa x pop_symbol);
          push_it = (if path = [] then None else get_it_from_edge G fsa (last path) push_symbol)
      in case (pop_it, push_it) of
           (Some (lhs, lhs_start_var), Some (rhs, rhs_start_var)) \<Rightarrow>
             (case path_loop G fsa (butlast (tl path)) [] [] of
                None \<Rightarrow> None
              | Some None \<Rightarrow> Some None
              | Some (Some (lhs_path, rhs_path)) \<Rightarrow>
                  let lhs_dtv = create_with_path (dtv_var lhs) lhs_path;
                      rhs_dtv = create_with_path (dtv_var rhs) (rev rhs_path)
                  in if operate (path_variance lhs_dtv) lhs_start_var = Covariant
                        \<and> operate (path_variance rhs_dtv) rhs_start_var = Covariant
                     then (case (simplify_path lhs_dtv, simplify_path rhs_dtv) of
                             (Some l, Some r) \<Rightarrow> Some (Some (subtype_new l r))
                           | _ \<Rightarrow> None)
                     else Some None)
         | _ \<Rightarrow> Some None)"

definition walk_constraints ::
    "('g, 'tid) fsa_pg \<Rightarrow> ('g, 'tid) fsa \<Rightarrow> 'tid constraint_set option" where
  "walk_constraints G fsa =
     do { s \<leftarrow> get_start fsa;
          e \<leftarrow> get_end fsa;
          paths \<leftarrow> all_simple_paths (pg_out G (grph fsa)) s e;
          cons \<leftarrow> traverse (path_to_constraint G fsa) paths;
          Some (\<Union>c \<in> set cons. case c of Some sub \<Rightarrow> {SubTy sub} | None \<Rightarrow> {}) }"

section \<open>The graph under construction\<close>

context fsa_graph
begin

definition fsa_ok :: "('g, 'tid) fsa \<Rightarrow> bool" where
  "fsa_ok fsa \<longleftrightarrow> ok (grph fsa)
     \<and> (\<forall>s i. fsa_mp fsa s = Some i \<longleftrightarrow> pg_node_weight G (grph fsa) i = Some s)
     \<and> cant_pop_nodes fsa = Map.empty"

lemma fsa_okD:
  assumes "fsa_ok fsa"
  shows "ok (grph fsa)" "fsa_mp fsa s = Some i \<longleftrightarrow> pg_node_weight G (grph fsa) i = Some s"
    "cant_pop_nodes fsa = Map.empty"
  using assms unfolding fsa_ok_def by blast+

lemma fsa_ok_states: "fsa_ok fsa \<Longrightarrow> graph_states G (grph fsa) = dom (fsa_mp fsa)"
  by (auto simp: graph_states_def dom_def fsa_okD(2))

lemma graph_edges_add_node:
  assumes g: "ok g" and add: "pg_add_node G w g = (n, g')"
  shows "graph_edges G g' = graph_edges G g" "graph_states G g' = insert w (graph_states G g)"
proof -
  note A = add_node_laws [OF g add]
  have w: "pg_node_weight G g' = (pg_node_weight G g)(n \<mapsto> w)" "pg_node_weight G g n = None"
    and e: "pg_edge G g' = pg_edge G g" using A by simp_all
  have "a \<noteq> n \<and> b \<noteq> n" if "pg_edge G g i = Some (a, b, x)" for i a b x
    using edge_ends [OF g that] w(2) by auto
  then show "graph_edges G g' = graph_edges G g"
    unfolding graph_edges_def w(1) e by (auto; metis)
  show "graph_states G g' = insert w (graph_states G g)"
    using w by (force simp: graph_states_def)
qed

lemma graph_edges_add_edge:
  assumes g: "ok g" and add: "pg_add_edge G a b w g = Some (i, g')"
    and ab: "pg_node_weight G g a = Some s" "pg_node_weight G g b = Some t"
  shows "graph_edges G g' = insert \<lparr>ed_src = s, ed_dst = t, ed_weight = w\<rparr> (graph_edges G g)"
    "graph_states G g' = graph_states G g"
proof -
  have A: "pg_edge G g i = None" "pg_node_weight G g' = pg_node_weight G g"
    "pg_edge G g' = (pg_edge G g)(i \<mapsto> (a, b, w))"
    using add_edge_laws [OF g add] by simp_all
  have "e \<in> graph_edges G g' \<longleftrightarrow> e = \<lparr>ed_src = s, ed_dst = t, ed_weight = w\<rparr> \<or> e \<in> graph_edges G g" for e
  proof
    assume "e \<in> graph_edges G g'"
    then obtain s' t' x j c d where e: "e = \<lparr>ed_src = s', ed_dst = t', ed_weight = x\<rparr>"
      "pg_edge G g' j = Some (c, d, x)" "pg_node_weight G g c = Some s'" "pg_node_weight G g d = Some t'"
      unfolding graph_edges_def A(2) by auto
    show "e = \<lparr>ed_src = s, ed_dst = t, ed_weight = w\<rparr> \<or> e \<in> graph_edges G g"
    proof (cases "j = i")
      case True
      then show ?thesis using e A(3) ab by auto
    next
      case False
      then have "pg_edge G g j = Some (c, d, x)" using e(2) A(3) by simp
      then show ?thesis using e unfolding graph_edges_def by blast
    qed
  next
    assume "e = \<lparr>ed_src = s, ed_dst = t, ed_weight = w\<rparr> \<or> e \<in> graph_edges G g"
    then show "e \<in> graph_edges G g'"
    proof
      assume "e = \<lparr>ed_src = s, ed_dst = t, ed_weight = w\<rparr>"
      moreover have "pg_edge G g' i = Some (a, b, w)" using A(3) by simp
      ultimately show ?thesis using ab A(2) unfolding graph_edges_def by auto
    next
      assume "e \<in> graph_edges G g"
      then obtain s' t' x j c d where e: "e = \<lparr>ed_src = s', ed_dst = t', ed_weight = x\<rparr>"
        "pg_edge G g j = Some (c, d, x)" "pg_node_weight G g c = Some s'" "pg_node_weight G g d = Some t'"
        unfolding graph_edges_def by auto
      moreover have "pg_edge G g' j = Some (c, d, x)" using e(2) A(1,3) by auto
      ultimately show ?thesis using A(2) unfolding graph_edges_def by auto
    qed
  qed
  then show "graph_edges G g' = insert \<lparr>ed_src = s, ed_dst = t, ed_weight = w\<rparr> (graph_edges G g)" by blast
  show "graph_states G g' = graph_states G g" by (simp add: graph_states_def A(2))
qed

lemma get_or_insert_spec:
  assumes ok: "fsa_ok fsa" and run: "get_or_insert_nd G nd fsa = (idx, fsa')"
  shows "fsa_ok fsa'" "fsa_mp fsa' nd = Some idx" "fsa_mp fsa \<subseteq>\<^sub>m fsa_mp fsa'"
    "graph_edges G (grph fsa') = graph_edges G (grph fsa)"
    "graph_states G (grph fsa') = insert nd (graph_states G (grph fsa))"
proof -
  have "fsa_ok fsa' \<and> fsa_mp fsa' nd = Some idx \<and> fsa_mp fsa \<subseteq>\<^sub>m fsa_mp fsa'
    \<and> graph_edges G (grph fsa') = graph_edges G (grph fsa)
    \<and> graph_states G (grph fsa') = insert nd (graph_states G (grph fsa))"
  proof (cases "fsa_mp fsa nd")
    case (Some i)
    then have "fsa' = fsa" "idx = i" using run by (simp_all add: get_or_insert_nd_def)
    with Some ok show ?thesis
      using fsa_okD(2) [OF ok, of nd i] by (auto simp: graph_states_def)
  next
    case None
    obtain g where add: "pg_add_node G nd (grph fsa) = (idx, g)"
      and f: "fsa' = fsa\<lparr>grph := g, fsa_mp := (fsa_mp fsa)(nd \<mapsto> idx)\<rparr>"
      using run None by (auto simp: get_or_insert_nd_def split: prod.splits)
    note A = add_node_laws [OF fsa_okD(1) [OF ok] add]
    have "pg_node_weight G (grph fsa) i \<noteq> Some nd" for i
      using None fsa_okD(2) [OF ok, of nd i] by simp
    then have "fsa_ok fsa'"
      using A fsa_okD(2,3) [OF ok] by (auto simp: fsa_ok_def f)
    moreover have "fsa_mp fsa \<subseteq>\<^sub>m fsa_mp fsa'" using None by (auto simp: map_le_def f)
    ultimately show ?thesis
      using graph_edges_add_node [OF fsa_okD(1) [OF ok] add] by (simp add: f)
  qed
  then show "fsa_ok fsa'" "fsa_mp fsa' nd = Some idx" "fsa_mp fsa \<subseteq>\<^sub>m fsa_mp fsa'"
    "graph_edges G (grph fsa') = graph_edges G (grph fsa)"
    "graph_states G (grph fsa') = insert nd (graph_states G (grph fsa))" by simp_all
qed

lemma insert_edge_spec:
  assumes ok: "fsa_ok fsa"
  shows "\<exists>fsa'. insert_edge G e fsa = Some fsa' \<and> fsa_ok fsa'
    \<and> graph_edges G (grph fsa') = insert e (graph_edges G (grph fsa))
    \<and> graph_states G (grph fsa') = {ed_src e, ed_dst e} \<union> graph_states G (grph fsa)"
proof -
  obtain i f1 where g1: "get_or_insert_nd G (ed_src e) fsa = (i, f1)" by force
  obtain j f2 where g2: "get_or_insert_nd G (ed_dst e) f1 = (j, f2)" by force
  note s1 = get_or_insert_spec [OF ok g1]
  note s2 = get_or_insert_spec [OF s1(1) g2]
  have i: "pg_node_weight G (grph f2) i = Some (ed_src e)"
    using s1(2) s2(3) fsa_okD(2) [OF s2(1)] by (metis domI map_le_def)
  have j: "pg_node_weight G (grph f2) j = Some (ed_dst e)" using s2(2) fsa_okD(2) [OF s2(1)] by blast
  note ok2 = fsa_okD(1) [OF s2(1)]
  obtain k g where add: "pg_add_edge G i j (ed_weight e) (grph f2) = Some (k, g)"
    using add_edge_None [OF ok2, of i j "ed_weight e"] i j
    by (cases "pg_add_edge G i j (ed_weight e) (grph f2)") auto
  have e: "e = \<lparr>ed_src = ed_src e, ed_dst = ed_dst e, ed_weight = ed_weight e\<rparr>" by (cases e) simp
  have "insert_edge G e fsa = Some (f2\<lparr>grph := g\<rparr>)"
    by (simp add: insert_edge_def g1 g2 add)
  moreover have "fsa_ok (f2\<lparr>grph := g\<rparr>)"
    using s2(1) add_edge_laws [OF ok2 add] by (simp add: fsa_ok_def)
  ultimately show ?thesis
    using graph_edges_add_edge [OF ok2 add i j] s1(4,5) s2(4,5) e by auto
qed

lemma insert_edges_spec:
  "fsa_ok fsa \<Longrightarrow> \<exists>fsa'. fold_opt (insert_edge G) es fsa = Some fsa' \<and> fsa_ok fsa'
    \<and> graph_edges G (grph fsa') = set es \<union> graph_edges G (grph fsa)
    \<and> graph_states G (grph fsa') = edge_states (set es) \<union> graph_states G (grph fsa)"
proof (induction es arbitrary: fsa)
  case Nil
  then show ?case by (simp add: edge_states_def)
next
  case (Cons e es)
  obtain f1 where f1: "insert_edge G e fsa = Some f1" "fsa_ok f1"
    "graph_edges G (grph f1) = insert e (graph_edges G (grph fsa))"
    "graph_states G (grph f1) = {ed_src e, ed_dst e} \<union> graph_states G (grph fsa)"
    using insert_edge_spec [OF Cons.prems] by blast
  obtain f2 where "fold_opt (insert_edge G) es f1 = Some f2" "fsa_ok f2"
    "graph_edges G (grph f2) = set es \<union> graph_edges G (grph f1)"
    "graph_states G (grph f2) = edge_states (set es) \<union> graph_states G (grph f1)"
    using Cons.IH [OF f1(2)] by blast
  with f1 show ?case by (auto simp: edge_states_def)
qed

lemma fsa_new_spec:
  assumes "finite cons"
  shows "\<exists>fsa subs. fsa_new G cons context = Some (Inr fsa) \<and> fsa_ok fsa
    \<and> set subs = constraint_set_to_subtys cons
    \<and> graph_edges G (grph fsa) = set (all_edges context subs)
    \<and> graph_states G (grph fsa) = edge_states (set (all_edges context subs)) \<union> {Start, End}"
proof -
  have "constraint_set_to_subtys cons = {s. SubTy s \<in> cons}" by auto
  moreover have "finite {s. SubTy s \<in> cons}"
    using finite_vimageI [OF assms, of SubTy] by (simp add: vimage_def inj_def)
  ultimately have subs: "set (sorted_list_of_set (constraint_set_to_subtys cons))
      = constraint_set_to_subtys cons" by simp
  define subs where "subs = sorted_list_of_set (constraint_set_to_subtys cons)"
  let ?e = "\<lparr>grph = pg_new G, fsa_mp = Map.empty, cant_pop_nodes = Map.empty\<rparr> :: ('g, 'tid) fsa"
  have e: "fsa_ok ?e" "graph_edges G (grph ?e) = {}" "graph_states G (grph ?e) = {}"
    by (simp_all add: fsa_ok_def new_graph graph_edges_def graph_states_def)
  obtain f1 where f1: "fold_opt (insert_edge G) (sorted_list_of_set (set (all_edges context subs))) ?e
      = Some f1" "fsa_ok f1" "graph_edges G (grph f1) = set (all_edges context subs)"
    "graph_states G (grph f1) = edge_states (set (all_edges context subs))"
    using insert_edges_spec [OF e(1)] e(2,3) by fastforce
  obtain i f2 where g2: "get_or_insert_nd G Start f1 = (i, f2)" by force
  obtain j f3 where g3: "get_or_insert_nd G End f2 = (j, f3)" by force
  note s2 = get_or_insert_spec [OF f1(2) g2]
  note s3 = get_or_insert_spec [OF s2(1) g3]
  have "fsa_new G cons context = Some (Inr f3)"
    by (simp add: fsa_new_def fsa_edges_eq subs_def [symmetric] f1(1) g2 g3)
  with s2 s3 f1 subs show ?thesis
    by (intro exI [of _ f3] exI [of _ subs]) (auto simp: subs_def)
qed

lemma saturate_spec:
  assumes ok: "fsa_ok fsa" and dual: "dual (graph_states G (grph fsa))"
  shows "\<exists>fsa'. saturate G fsa = Some fsa' \<and> fsa_ok fsa'
    \<and> graph_edges G (grph fsa') = graph_edges G (grph fsa)
        \<union> {success_edge d q | d q. d \<noteq> q \<and> sat_edge (graph_edges G (grph fsa)) (graph_states G (grph fsa)) d q}
    \<and> graph_states G (grph fsa) \<subseteq> graph_states G (grph fsa')"
proof -
  obtain es where es: "get_saturation_edges G (grph fsa) = Some es" "finite es"
    "es = {success_edge d q | d q. d \<noteq> q
      \<and> sat_edge (graph_edges G (grph fsa)) (graph_states G (grph fsa)) d q}"
    using get_saturation_edges_spec [OF fsa_okD(1) [OF ok] dual] by blast
  obtain f where "fold_opt (insert_edge G) (sorted_list_of_set es) fsa = Some f" "fsa_ok f"
    "graph_edges G (grph f) = set (sorted_list_of_set es) \<union> graph_edges G (grph fsa)"
    "graph_states G (grph f) = edge_states (set (sorted_list_of_set es)) \<union> graph_states G (grph fsa)"
    using insert_edges_spec [OF ok] by blast
  with es(1,2) have "saturate G fsa = Some f \<and> fsa_ok f \<and> graph_edges G (grph f) = graph_edges G (grph fsa) \<union> es
      \<and> graph_states G (grph fsa) \<subseteq> graph_states G (grph f)"
    by (auto simp: saturate_def)
  then show ?thesis unfolding es(3) by blast
qed

end

section \<open>Saturation is sound\<close>

fun push_sound ::
    "'tid subtype_constraint set \<Rightarrow> 'tid finite_state \<Rightarrow> 'tid stack_symbol \<Rightarrow> 'tid finite_state \<Rightarrow> bool" where
  "push_sound C (Tv d) (Label l) (Tv n) \<longleftrightarrow>
     node_var d = operate (node_var n) (label_variance l)
     \<and> related C (node_var d) (node_dtv d) (add_field_label (node_dtv n) l)"
| "push_sound C (Tv d) (IV_Symbol iv v) End \<longleftrightarrow> True"
| "push_sound C _ _ _ \<longleftrightarrow> False"

lemma push_sound_Label:
  "push_sound C d (Label l) n \<longleftrightarrow> (\<exists>d' n'. d = Tv d' \<and> n = Tv n'
     \<and> node_var d' = operate (node_var n') (label_variance l)
     \<and> related C (node_var d') (node_dtv d') (add_field_label (node_dtv n') l))"
  by (cases d; cases n) auto

lemma push_sound_End: "push_sound C d l End \<longleftrightarrow> (\<exists>iv v d'. d = Tv d' \<and> l = IV_Symbol iv v)"
  by (cases l; cases d) auto

lemma push_sound_Start [simp]: "\<not> push_sound C d l Start"
  by (cases l; cases d) auto

lemma push_sound_Tv: "push_sound C d l (Tv n) \<Longrightarrow> \<exists>x. l = Label x"
  by (cases l; cases d) auto

lemma fs_not_Tv:
  assumes "is_contravariant_state (Tv n)"
  shows "\<exists>n'. fs_not (Tv n) = Tv n' \<and> node_dtv n' = node_dtv n \<and> node_var n = Contravariant
    \<and> node_var n' = Covariant"
  using assms by (simp add: is_contravariant_state_def node_dtv_def node_var_def)

lemma push_sound_success:
  assumes "push_sound C d l n" and "edge_sound C n Success m"
  shows "push_sound C d l m"
  using assms(2)
proof (cases rule: edge_sound_cases)
  case (Success n' m')
  obtain x where x: "l = Label x" using push_sound_Tv assms(1) Success(1) by blast
  then obtain d' where d: "d = Tv d'" "node_var d' = operate (node_var n') (label_variance x)"
    "related C (node_var d') (node_dtv d') (add_field_label (node_dtv n') x)"
    using assms(1) Success(1) by (auto simp: push_sound_Label)
  have "related C (node_var d') (add_field_label (node_dtv n') x) (add_field_label (node_dtv m') x)"
    using related_label [OF Success(5), of x] d(2) by simp
  with d Success show ?thesis unfolding x push_sound_Label by (auto intro: related_trans)
qed simp_all

lemma sat_sound:
  assumes E: "\<And>s t w. \<lparr>ed_src = s, ed_dst = t, ed_weight = w\<rparr> \<in> E \<Longrightarrow> edge_sound C s w t"
  shows "(reaches E V d l n \<longrightarrow> push_sound C d l n) \<and> (sat_edge E V d q \<longrightarrow> edge_sound C d Success q)"
proof (induction rule: reaches_sat_edge.induct)
  case (R_push d n l)
  from E [OF R_push] show ?case by (cases rule: edge_sound_cases) auto
next
  case (R_success d l n m)
  with E push_sound_success show ?case by blast
next
  case (R_saturated d l n m)
  with push_sound_success show ?case by blast
next
  case (R_store d n)
  then obtain d' n' where *: "d = Tv d'" "n = Tv n'" "node_var d' = operate (node_var n') Contravariant"
    "related C (node_var d') (node_dtv d') (add_field_label (node_dtv n') Store)"
    by (auto simp: push_sound_Label)
  obtain m' where m: "fs_not n = Tv m'" "node_dtv m' = node_dtv n'" "node_var n' = Contravariant"
    "node_var m' = Covariant" using fs_not_Tv R_store *(2) by blast
  then have "entails C (node_dtv d') (add_field_label (node_dtv n') Load)"
    using * S_trans S_pointer by fastforce
  with * m show ?case by (simp add: push_sound_Label)
next
  case (R_load d n)
  then obtain d' n' where *: "d = Tv d'" "n = Tv n'" "node_var d' = operate (node_var n') Covariant"
    "related C (node_var d') (node_dtv d') (add_field_label (node_dtv n') Load)"
    by (auto simp: push_sound_Label)
  obtain m' where m: "fs_not n = Tv m'" "node_dtv m' = node_dtv n'" "node_var n' = Contravariant"
    "node_var m' = Covariant" using fs_not_Tv R_load *(2) by blast
  then have "entails C (add_field_label (node_dtv n') Store) (node_dtv d')"
    using * S_trans S_pointer by fastforce
  with * m show ?case by (simp add: push_sound_Label operate_def)
next
  case (R_pop d l n q)
  from E [OF R_pop(3)] show ?case
  proof (cases rule: edge_sound_cases)
    case (Pop n' q' x)
    with R_pop show ?thesis by (auto simp: push_sound_Label operate_comm)
  next
    case (Start iv v m)
    with R_pop show ?thesis by simp
  qed simp_all
qed

end
