(* ===== verification/Mirror.thy ===== *)
theory Mirror
  imports FsaGraph
begin

text \<open>
  The intersection of the automaton with the words that pop before they push
  (\<^verbatim>\<open>intersect_with_pop_push\<close>, \<^verbatim>\<open>remove_unreachable\<close> of
  \<^verbatim>\<open>src/solver/constraint_graph.rs\<close>) and the soundness of the constraints that
  \<^verbatim>\<open>walk_constraints\<close> reads off the result: every one of them is entailed.
\<close>

section \<open>Originals and copies\<close>

text \<open>
  An edge joins originals, or leads as a push from an original to a copy, or joins copies
  without a pop.  A push between originals is one the loop has still to replace (\<open>U\<close>).
\<close>

definition edge_kind ::
    "('g, 'tid) fsa \<Rightarrow> nat set \<Rightarrow> nat \<Rightarrow> 'tid finite_state \<Rightarrow> 'tid finite_state \<Rightarrow>
     nat \<times> nat \<times> 'tid fsa_edge \<Rightarrow> bool" where
  "edge_kind fsa U i s t e = (case e of (a, b, w) \<Rightarrow>
     fsa_mp fsa s = Some a \<and> fsa_mp fsa t = Some b \<and> ((\<exists>x. w = Push x) \<longrightarrow> i \<in> U)
     \<or> fsa_mp fsa s = Some a \<and> cant_pop_nodes fsa t = Some b \<and> (\<exists>x. w = Push x)
     \<or> cant_pop_nodes fsa s = Some a \<and> cant_pop_nodes fsa t = Some b \<and> (\<forall>x. w \<noteq> Pop x))"

lemma edge_kind_simps:
  "edge_kind fsa U i s t (a, b, w) \<longleftrightarrow>
     fsa_mp fsa s = Some a \<and> fsa_mp fsa t = Some b \<and> ((\<exists>x. w = Push x) \<longrightarrow> i \<in> U)
     \<or> fsa_mp fsa s = Some a \<and> cant_pop_nodes fsa t = Some b \<and> (\<exists>x. w = Push x)
     \<or> cant_pop_nodes fsa s = Some a \<and> cant_pop_nodes fsa t = Some b \<and> (\<forall>x. w \<noteq> Pop x)"
  by (simp add: edge_kind_def)

lemma edge_kind_mono:
  assumes "edge_kind fsa U i s t e" "fsa_mp fsa' = fsa_mp fsa" "cant_pop_nodes fsa \<subseteq>\<^sub>m cant_pop_nodes fsa'"
  shows "edge_kind fsa' U i s t e"
proof -
  have "cant_pop_nodes fsa k = Some j \<Longrightarrow> cant_pop_nodes fsa' k = Some j" for k j
    using assms(3) by (metis domI map_le_def)
  with assms(1,2) show ?thesis by (cases e) (auto simp: edge_kind_simps)
qed

context fsa_graph
begin

definition mirror_ok :: "'tid subtype_constraint set \<Rightarrow> nat set \<Rightarrow> ('g, 'tid) fsa \<Rightarrow> bool" where
  "mirror_ok C U fsa \<longleftrightarrow> ok (grph fsa)
     \<and> (\<forall>s i. fsa_mp fsa s = Some i \<longrightarrow> pg_node_weight G (grph fsa) i = Some s)
     \<and> (\<forall>s i. cant_pop_nodes fsa s = Some i \<longrightarrow> pg_node_weight G (grph fsa) i = Some s)
     \<and> (\<forall>s t i. fsa_mp fsa s = Some i \<longrightarrow> cant_pop_nodes fsa t \<noteq> Some i)
     \<and> (\<forall>i a b w. pg_edge G (grph fsa) i = Some (a, b, w) \<longrightarrow>
          (\<exists>s t. edge_sound C s w t \<and> edge_kind fsa U i s t (a, b, w)))
     \<and> (\<forall>i \<in> U. \<exists>s t a b w. pg_edge G (grph fsa) i = Some (a, b, w)
          \<and> fsa_mp fsa s = Some a \<and> fsa_mp fsa t = Some b)"

lemma mirror_okD:
  assumes "mirror_ok C U fsa"
  shows "ok (grph fsa)" "fsa_mp fsa s = Some i \<Longrightarrow> pg_node_weight G (grph fsa) i = Some s"
    "cant_pop_nodes fsa s = Some i \<Longrightarrow> pg_node_weight G (grph fsa) i = Some s"
    "fsa_mp fsa s = Some i \<Longrightarrow> cant_pop_nodes fsa t \<noteq> Some i"
    "pg_edge G (grph fsa) i = Some (a, b, w) \<Longrightarrow>
       \<exists>s t. edge_sound C s w t \<and> edge_kind fsa U i s t (a, b, w)"
    "i \<in> U \<Longrightarrow> \<exists>s t a b w. pg_edge G (grph fsa) i = Some (a, b, w)
       \<and> fsa_mp fsa s = Some a \<and> fsa_mp fsa t = Some b"
  using assms unfolding mirror_ok_def by blast+

lemma add_cant_push_node_spec:
  assumes ok: "mirror_ok C U fsa" and run: "add_cant_push_node G nd fsa = (idx, fsa')"
  shows "mirror_ok C U fsa' \<and> cant_pop_nodes fsa' nd = Some idx \<and> fsa_mp fsa' = fsa_mp fsa
    \<and> cant_pop_nodes fsa \<subseteq>\<^sub>m cant_pop_nodes fsa' \<and> pg_edge G (grph fsa') = pg_edge G (grph fsa)"
proof (cases "cant_pop_nodes fsa nd")
  case (Some i)
  with ok run show ?thesis by (simp add: add_cant_push_node_def)
next
  case None
  obtain g where add: "pg_add_node G nd (grph fsa) = (idx, g)"
    and f: "fsa' = fsa\<lparr>grph := g, cant_pop_nodes := (cant_pop_nodes fsa)(nd \<mapsto> idx)\<rparr>"
    using run None by (auto simp: add_cant_push_node_def split: prod.splits)
  note D = mirror_okD [OF ok]
  have A: "ok g" "pg_node_weight G (grph fsa) idx = None"
    "pg_node_weight G g = (pg_node_weight G (grph fsa))(idx \<mapsto> nd)" "pg_edge G g = pg_edge G (grph fsa)"
    using add_node_laws [OF D(1) add] by simp_all
  have le: "cant_pop_nodes fsa \<subseteq>\<^sub>m cant_pop_nodes fsa'" using None by (auto simp: map_le_def f)
  have old: "i \<noteq> idx" if "fsa_mp fsa s = Some i \<or> cant_pop_nodes fsa s = Some i" for s i
    using that D(2,3) A(2) by auto
  have "mirror_ok C U fsa'"
    unfolding mirror_ok_def
  proof (intro conjI allI impI ballI)
    show "ok (grph fsa')" by (simp add: f A)
    fix s i
    show "fsa_mp fsa' s = Some i \<Longrightarrow> pg_node_weight G (grph fsa') i = Some s"
      using D(2) [of s i] old [of s i] by (auto simp: f A)
    show "cant_pop_nodes fsa' s = Some i \<Longrightarrow> pg_node_weight G (grph fsa') i = Some s"
      using D(3) [of s i] old [of s i] by (auto simp: f A split: if_splits)
    show "cant_pop_nodes fsa' t \<noteq> Some i" if "fsa_mp fsa' s = Some i" for t
      using D(4) [of s i t] old [of s i] that by (auto simp: f)
  next
    fix i a b w assume "pg_edge G (grph fsa') i = Some (a, b, w)"
    then have "pg_edge G (grph fsa) i = Some (a, b, w)" by (simp add: f A)
    with D(5) edge_kind_mono [OF _ _ le] show "\<exists>s t. edge_sound C s w t \<and> edge_kind fsa' U i s t (a, b, w)"
      by (metis f fsa.select_convs(2) fsa.surjective fsa.update_convs(1,3))
  next
    fix i assume "i \<in> U"
    with D(6) show "\<exists>s t a b w. pg_edge G (grph fsa') i = Some (a, b, w)
       \<and> fsa_mp fsa' s = Some a \<and> fsa_mp fsa' t = Some b" by (simp add: f A)
  qed
  with le show ?thesis by (simp add: f A)
qed

lemma add_edge_idx_spec:
  assumes ok: "mirror_ok C U fsa" and snd: "edge_sound C s w t"
    and kind: "fsa_mp fsa s = Some a \<and> cant_pop_nodes fsa t = Some b \<and> (\<exists>x. w = Push x)
      \<or> cant_pop_nodes fsa s = Some a \<and> cant_pop_nodes fsa t = Some b \<and> (\<forall>x. w \<noteq> Pop x)"
  shows "\<exists>fsa'. add_edge_idx G a b w fsa = Some fsa' \<and> mirror_ok C U fsa'
    \<and> fsa_mp fsa' = fsa_mp fsa \<and> cant_pop_nodes fsa' = cant_pop_nodes fsa
    \<and> (\<forall>i e. pg_edge G (grph fsa) i = Some e \<longrightarrow> pg_edge G (grph fsa') i = Some e)"
proof -
  note D = mirror_okD [OF ok]
  have "pg_node_weight G (grph fsa) a \<noteq> None" "pg_node_weight G (grph fsa) b \<noteq> None"
    using kind D(2,3) by auto
  then obtain k g where add: "pg_add_edge G a b w (grph fsa) = Some (k, g)"
    using add_edge_None [OF D(1), of a b w] by (cases "pg_add_edge G a b w (grph fsa)") auto
  have A: "ok g" "pg_edge G (grph fsa) k = None" "pg_node_weight G g = pg_node_weight G (grph fsa)"
    "pg_edge G g = (pg_edge G (grph fsa))(k \<mapsto> (a, b, w))"
    using add_edge_laws [OF D(1) add] by simp_all
  let ?f = "fsa\<lparr>grph := g\<rparr>"
  have kind_eq: "edge_kind ?f U i = edge_kind fsa U i" for i
    by (simp add: edge_kind_def fun_eq_iff)
  have "mirror_ok C U ?f"
    unfolding mirror_ok_def kind_eq
  proof (intro conjI allI impI ballI)
    fix i c d x assume e: "pg_edge G (grph ?f) i = Some (c, d, x)"
    show "\<exists>s t. edge_sound C s x t \<and> edge_kind fsa U i s t (c, d, x)"
    proof (cases "i = k")
      case True
      then have "c = a" "d = b" "x = w" using e A(4) by simp_all
      with snd kind show ?thesis unfolding edge_kind_simps by blast
    next
      case False
      with e D(5) show ?thesis by (simp add: A)
    qed
  next
    fix i assume i: "i \<in> U"
    then have "i \<noteq> k" using D(6) A(2) by fastforce
    with D(6) [OF i] show "\<exists>s t a b w. pg_edge G (grph ?f) i = Some (a, b, w)
       \<and> fsa_mp ?f s = Some a \<and> fsa_mp ?f t = Some b" by (simp add: A)
  qed (use D(1-4) A in auto)
  moreover have "pg_edge G g i = Some e" if "pg_edge G (grph fsa) i = Some e" for i e
    using that A(2,4) by auto
  ultimately show ?thesis by (simp add: add_edge_idx_def add)
qed

lemma remove_edge_spec:
  assumes ok: "mirror_ok C U fsa"
  shows "mirror_ok C (U - {e}) (fsa\<lparr>grph := snd (pg_remove_edge G e (grph fsa))\<rparr>)"
proof -
  obtain r g where rem: "pg_remove_edge G e (grph fsa) = (r, g)" by force
  note D = mirror_okD [OF ok]
  have A: "ok g" "pg_node_weight G g = pg_node_weight G (grph fsa)"
    "pg_edge G g = (pg_edge G (grph fsa))(e := None)"
    using remove_edge_laws [OF D(1) rem] by simp_all
  let ?f = "fsa\<lparr>grph := g\<rparr>"
  have "mirror_ok C (U - {e}) ?f"
    unfolding mirror_ok_def
  proof (intro conjI allI impI ballI)
    fix i c d x assume "pg_edge G (grph ?f) i = Some (c, d, x)"
    then have i: "i \<noteq> e" "pg_edge G (grph fsa) i = Some (c, d, x)" using A by (auto split: if_splits)
    from D(5) [OF i(2)] obtain s t where "edge_sound C s x t" "edge_kind fsa U i s t (c, d, x)" by blast
    moreover from this(2) have "edge_kind ?f (U - {e}) i s t (c, d, x)"
      using i(1) by (simp add: edge_kind_simps)
    ultimately show "\<exists>s t. edge_sound C s x t \<and> edge_kind ?f (U - {e}) i s t (c, d, x)" by blast
  next
    fix i assume "i \<in> U - {e}"
    with D(6) [of i] show "\<exists>s t a b w. pg_edge G (grph ?f) i = Some (a, b, w)
       \<and> fsa_mp ?f s = Some a \<and> fsa_mp ?f t = Some b" by (auto simp: A)
  qed (use D(1-4) A in auto)
  then show ?thesis by (simp add: rem)
qed

lemma mirror_ok_skip:
  assumes "mirror_ok C U fsa" "pg_edge G (grph fsa) e = Some (a, b, w)" "\<And>x. w \<noteq> Push x"
  shows "mirror_ok C (U - {e}) fsa"
  unfolding mirror_ok_def
proof (intro conjI allI impI ballI)
  note D = mirror_okD [OF assms(1)]
  fix i c d x assume i: "pg_edge G (grph fsa) i = Some (c, d, x)"
  from D(5) [OF i] obtain s t where "edge_sound C s x t" "edge_kind fsa U i s t (c, d, x)" by blast
  moreover from this(2) have "edge_kind fsa (U - {e}) i s t (c, d, x)"
    using i assms(2,3) by (cases "i = e") (auto simp: edge_kind_simps)
  ultimately show "\<exists>s t. edge_sound C s x t \<and> edge_kind fsa (U - {e}) i s t (c, d, x)" by blast
qed (use mirror_okD [OF assms(1)] in auto)

lemma mirror_edge_spec:
  assumes ok: "mirror_ok C U fsa" and snd: "edge_sound C s w t"
  shows "\<exists>fsa'. mirror_edge G s t w fsa = Some fsa' \<and> mirror_ok C U fsa' \<and> fsa_mp fsa' = fsa_mp fsa"
proof -
  obtain i f1 where g1: "add_cant_push_node G s fsa = (i, f1)" by force
  obtain j f2 where g2: "add_cant_push_node G t f1 = (j, f2)" by force
  have s1: "mirror_ok C U f1" "cant_pop_nodes f1 s = Some i" "fsa_mp f1 = fsa_mp fsa"
    using add_cant_push_node_spec [OF ok g1] by simp_all
  have s2: "mirror_ok C U f2" "cant_pop_nodes f2 t = Some j" "fsa_mp f2 = fsa_mp fsa"
    "cant_pop_nodes f1 \<subseteq>\<^sub>m cant_pop_nodes f2"
    using add_cant_push_node_spec [OF s1(1) g2] s1(3) by simp_all
  have i: "cant_pop_nodes f2 s = Some i" using s1(2) s2(4) by (metis domI map_le_def)
  show ?thesis
  proof (cases "\<exists>x. w = Pop x")
    case True
    then show ?thesis using ok by (auto simp: mirror_edge_def Let_def)
  next
    case False
    then obtain f3 where "add_edge_idx G i j w f2 = Some f3" "mirror_ok C U f3" "fsa_mp f3 = fsa_mp f2"
      using add_edge_idx_spec [OF s2(1) snd, of i j] i s2(2) by blast
    then have "mirror_ok C U f3" "fsa_mp f3 = fsa_mp fsa"
      "(let (nsrc, fsa1) = add_cant_push_node G s fsa; (ndst, fsa2) = add_cant_push_node G t fsa1
        in add_edge_idx G nsrc ndst w fsa2) = Some f3"
      using s2(3) by (simp_all add: g1 g2)
    then show ?thesis
      using False ok by (cases w) (auto simp: mirror_edge_def Let_def)
  qed
qed

lemma redirect_push_spec:
  assumes ok: "mirror_ok C U fsa" and e: "pg_edge G (grph fsa) e = Some (a, b, w)"
    and st: "fsa_mp fsa s = Some a" "fsa_mp fsa t = Some b" and snd: "edge_sound C s w t"
  shows "\<exists>fsa'. redirect_push G e a t w fsa = Some fsa' \<and> mirror_ok C (U - {e}) fsa'
    \<and> fsa_mp fsa' = fsa_mp fsa"
proof (cases "\<exists>x. w = Push x")
  case True
  then obtain x where x: "w = Push x" by blast
  obtain j f1 where g1: "add_cant_push_node G t fsa = (j, f1)" by force
  have s1: "mirror_ok C U f1" "cant_pop_nodes f1 t = Some j" "fsa_mp f1 = fsa_mp fsa"
    using add_cant_push_node_spec [OF ok g1] by simp_all
  obtain f2 where f2: "add_edge_idx G a j w f1 = Some f2" "mirror_ok C U f2" "fsa_mp f2 = fsa_mp f1"
    using add_edge_idx_spec [OF s1(1) snd, of a j] s1(2,3) st(1) x by auto
  then show ?thesis
    using remove_edge_spec [OF f2(2), of e] s1(3) x g1 by (simp add: redirect_push_def)
next
  case False
  then have "redirect_push G e a t w fsa = Some fsa"
    by (simp add: redirect_push_def split: fsa_edge.splits)
  with mirror_ok_skip [OF ok e] False show ?thesis by auto
qed

lemma intersect_edge_spec:
  assumes ok: "mirror_ok C U fsa" and e: "e \<in> U"
  shows "\<exists>fsa'. intersect_edge G e fsa = Some fsa' \<and> mirror_ok C (U - {e}) fsa' \<and> fsa_mp fsa' = fsa_mp fsa"
proof -
  note D = mirror_okD [OF ok]
  obtain s t a b w where ed: "pg_edge G (grph fsa) e = Some (a, b, w)"
    and st: "fsa_mp fsa s = Some a" "fsa_mp fsa t = Some b" using D(6) [OF e] by blast
  have wt: "pg_node_weight G (grph fsa) a = Some s" "pg_node_weight G (grph fsa) b = Some t"
    using D(2) st by blast+
  obtain s' t' where "edge_sound C s' w t'" "edge_kind fsa U e s' t' (a, b, w)" using D(5) [OF ed] by blast
  moreover from this(2) have "s' = s" "t' = t"
    using D(2,3) wt unfolding edge_kind_simps by fastforce+
  ultimately have snd: "edge_sound C s w t" by simp
  obtain f1 where f1: "redirect_push G e a t w fsa = Some f1" "mirror_ok C (U - {e}) f1" "fsa_mp f1 = fsa_mp fsa"
    using redirect_push_spec [OF ok ed st snd] by blast
  obtain f2 where f2: "mirror_edge G s t w f1 = Some f2" "mirror_ok C (U - {e}) f2" "fsa_mp f2 = fsa_mp f1"
    using mirror_edge_spec [OF f1(2) snd] by blast
  have "intersect_edge G e fsa = Some f2"
    by (simp add: intersect_edge_def edge_weight_def edge_endpoints_def ed wt f1(1) f2(1))
  with f1 f2 show ?thesis by simp
qed

lemma intersect_loop_spec:
  "mirror_ok C U fsa \<Longrightarrow> distinct es \<Longrightarrow> set es \<subseteq> U \<Longrightarrow>
   \<exists>fsa'. fold_opt (intersect_edge G) es fsa = Some fsa' \<and> mirror_ok C (U - set es) fsa'
     \<and> fsa_mp fsa' = fsa_mp fsa"
proof (induction es arbitrary: U fsa)
  case (Cons e es)
  obtain f1 where f1: "intersect_edge G e fsa = Some f1" "mirror_ok C (U - {e}) f1" "fsa_mp f1 = fsa_mp fsa"
    using intersect_edge_spec [OF Cons.prems(1)] Cons.prems(3) by auto
  obtain f2 where "fold_opt (intersect_edge G) es f1 = Some f2" "mirror_ok C (U - {e} - set es) f2"
    "fsa_mp f2 = fsa_mp f1"
    using Cons.IH [OF f1(2)] Cons.prems(2,3) by auto
  moreover have "U - {e} - set es = U - set (e # es)" by auto
  ultimately show ?case using f1(1,3) by simp
qed simp

text \<open>The state of the automaton before the intersection.\<close>

lemma mirror_ok_init:
  assumes ok: "fsa_ok fsa" and snd: "\<forall>e \<in> graph_edges G (grph fsa). ed_sound C e"
  shows "mirror_ok C (set (pg_edge_indices G (grph fsa))) fsa"
  unfolding mirror_ok_def
proof (intro conjI allI impI ballI)
  let ?g = "grph fsa"
  note F = fsa_okD [OF ok]
  have ends: "\<exists>s t. fsa_mp fsa s = Some a \<and> fsa_mp fsa t = Some b \<and> edge_sound C s w t"
    if e: "pg_edge G ?g i = Some (a, b, w)" for i a b w
  proof -
    obtain s t where st: "pg_node_weight G ?g a = Some s" "pg_node_weight G ?g b = Some t"
      using edge_ends [OF F(1) e] by auto
    then have "\<lparr>ed_src = s, ed_dst = t, ed_weight = w\<rparr> \<in> graph_edges G ?g"
      using e unfolding graph_edges_def by blast
    with snd have "edge_sound C s w t" by (auto simp: ed_sound_def dest!: bspec)
    with st F(2) show ?thesis by blast
  qed
  show "ok ?g" by (rule F(1))
  fix s i
  show "fsa_mp fsa s = Some i \<Longrightarrow> pg_node_weight G ?g i = Some s" using F(2) by blast
  show "cant_pop_nodes fsa s = Some i \<Longrightarrow> pg_node_weight G ?g i = Some s" using F(3) by simp
  show "cant_pop_nodes fsa t \<noteq> Some i" for t using F(3) by simp
  show "\<exists>s t. edge_sound C s w t \<and> edge_kind fsa (set (pg_edge_indices G ?g)) i s t (a, b, w)"
    if "pg_edge G ?g i = Some (a, b, w)" for a b w
    using ends [OF that] that edge_indices_laws [OF F(1)] unfolding edge_kind_simps by fastforce
  show "\<exists>s t a b w. pg_edge G ?g i = Some (a, b, w) \<and> fsa_mp fsa s = Some a \<and> fsa_mp fsa t = Some b"
    if i: "i \<in> set (pg_edge_indices G ?g)"
  proof -
    obtain a b w where "pg_edge G ?g i = Some (a, b, w)"
      using i edge_indices_laws [OF F(1)] by auto
    with ends show ?thesis by blast
  qed
qed

lemma intersect_spec:
  assumes ok: "fsa_ok fsa" and snd: "\<forall>e \<in> graph_edges G (grph fsa). ed_sound C e"
  shows "\<exists>fsa'. intersect_with_pop_push G fsa = Some fsa' \<and> mirror_ok C {} fsa'
    \<and> fsa_mp fsa' = fsa_mp fsa \<and> (\<exists>e. cant_pop_nodes fsa' End = Some e)"
proof -
  obtain f1 where f1: "fold_opt (intersect_edge G) (pg_edge_indices G (grph fsa)) fsa = Some f1"
    "mirror_ok C {} f1" "fsa_mp f1 = fsa_mp fsa"
    using intersect_loop_spec [OF mirror_ok_init [OF ok snd], of "pg_edge_indices G (grph fsa)"]
      edge_indices_laws [OF fsa_okD(1) [OF ok]] by auto
  show ?thesis
  proof (cases "cant_pop_nodes f1 End")
    case (Some e)
    with f1 show ?thesis by (simp add: intersect_with_pop_push_def)
  next
    case None
    obtain i f2 where g: "add_cant_push_node G End f1 = (i, f2)" by force
    from add_cant_push_node_spec [OF f1(2) g] f1 None g show ?thesis
      by (simp add: intersect_with_pop_push_def)
  qed
qed

section \<open>Removing nodes\<close>

lemma remove_nodes_spec:
  "ok g \<Longrightarrow>
   ok (foldl (\<lambda>g n. if n \<in> R then g else snd (pg_remove_node G n g)) g ns)
   \<and> pg_node_weight G (foldl (\<lambda>g n. if n \<in> R then g else snd (pg_remove_node G n g)) g ns)
      = (\<lambda>n. if n \<in> set ns - R then None else pg_node_weight G g n)
   \<and> pg_edge G (foldl (\<lambda>g n. if n \<in> R then g else snd (pg_remove_node G n g)) g ns)
      = (\<lambda>i. case pg_edge G g i of
           Some (a, b, w) \<Rightarrow> if a \<in> set ns - R \<or> b \<in> set ns - R then None else Some (a, b, w)
         | None \<Rightarrow> None)"
proof (induction ns arbitrary: g)
  case Nil
  then show ?case by (auto simp: fun_eq_iff split: option.splits)
next
  case (Cons n ns)
  show ?case
  proof (cases "n \<in> R")
    case True
    with Cons show ?thesis by (auto simp: fun_eq_iff split: option.splits)
  next
    case False
    obtain r g' where rem: "pg_remove_node G n g = (r, g')" by force
    have A: "ok g'" "pg_node_weight G g' = (pg_node_weight G g)(n := None)"
      "pg_edge G g' = (\<lambda>i. case pg_edge G g i of
         Some (a, b, e) \<Rightarrow> if a = n \<or> b = n then None else Some (a, b, e) | None \<Rightarrow> None)"
      using remove_node_laws [OF Cons.prems rem] by simp_all
    from Cons.IH [OF A(1)] False show ?thesis
      by (auto simp: rem A(2,3) fun_eq_iff split: option.splits)
  qed
qed

definition on_path :: "'g \<Rightarrow> nat \<Rightarrow> nat \<Rightarrow> nat \<Rightarrow> bool" where
  "on_path g s e n \<longleftrightarrow> (s, n) \<in> (arcs G g)\<^sup>* \<and> (n, e) \<in> (arcs G g)\<^sup>*"

lemma arcs_reverse: "ok g \<Longrightarrow> arcs G (pg_reverse G g) = (arcs G g)\<inverse>"
  using reverse_laws [of g] by (auto simp: arcs_def)

lemma remove_unreachable_spec:
  assumes ok: "ok (grph fsa)" and s: "fsa_mp fsa Start = Some s" "pg_node_weight G (grph fsa) s \<noteq> None"
    and e: "cant_pop_nodes fsa End = Some e" "pg_node_weight G (grph fsa) e \<noteq> None"
  shows "\<exists>fsa'. remove_unreachable G fsa = Some fsa' \<and> ok (grph fsa')
    \<and> fsa_mp fsa' = fsa_mp fsa \<and> cant_pop_nodes fsa' = cant_pop_nodes fsa
    \<and> (\<forall>n. pg_node_weight G (grph fsa') n =
         (if n = s \<or> n = e \<or> on_path (grph fsa) s e n then pg_node_weight G (grph fsa) n else None))
    \<and> (\<forall>i x. pg_edge G (grph fsa') i = Some x \<longrightarrow> pg_edge G (grph fsa) i = Some x)"
proof -
  let ?g = "grph fsa"
  define R where "R = insert e (insert s (set (pg_dfs G ?g [s]) \<inter> set (pg_dfs G (pg_reverse G ?g) [e])))"
  have rev: "ok (pg_reverse G ?g)" "pg_node_weight G (pg_reverse G ?g) e \<noteq> None"
    using reverse_laws [OF ok] e(2) by auto
  have "set (pg_dfs G ?g [s]) = (arcs G ?g)\<^sup>* `` {s}"
    using dfs_laws [OF ok, of "[s]"] s(2) by simp
  moreover have "set (pg_dfs G (pg_reverse G ?g) [e]) = ((arcs G ?g)\<inverse>)\<^sup>* `` {e}"
    using dfs_laws [OF rev(1), of "[e]"] rev(2) by (simp add: arcs_reverse [OF ok])
  ultimately have R: "n \<in> R \<longleftrightarrow> n = s \<or> n = e \<or> on_path ?g s e n" for n
    by (auto simp: R_def on_path_def rtrancl_converse)
  let ?g' = "foldl (\<lambda>g n. if n \<in> R then g else snd (pg_remove_node G n g)) ?g (pg_node_indices G ?g)"
  have "contains_node G ?g s" "contains_node G ?g e" using s e by (simp_all add: contains_node_def)
  then have run: "remove_unreachable G fsa = Some (fsa\<lparr>grph := ?g'\<rparr>)"
    by (simp add: remove_unreachable_def s e R_def Let_def)
  note S = remove_nodes_spec [OF ok, of R "pg_node_indices G ?g"]
  have wt: "pg_node_weight G ?g' = (\<lambda>n. if n \<in> set (pg_node_indices G ?g) - R then None
      else pg_node_weight G ?g n)" using S by (elim conjE)
  have "n \<in> set (pg_node_indices G ?g) \<or> pg_node_weight G ?g n = None" for n
    using node_indices_laws [OF ok] by auto
  then have "pg_node_weight G ?g' n = (if n \<in> R then pg_node_weight G ?g n else None)" for n
    unfolding wt by auto
  moreover have "pg_edge G ?g i = Some x" if "pg_edge G ?g' i = Some x" for i x
    using that S by (auto split: option.splits if_splits)
  moreover have "ok ?g'" using S by (elim conjE)
  ultimately show ?thesis using run by (auto simp: R)
qed

end

section \<open>Walking the automaton\<close>

text \<open>What the walk may answer: entailed constraints, up to the simplification of their sides.\<close>

definition walk_sound :: "'tid subtype_constraint set \<Rightarrow> 'tid constraint_set option \<Rightarrow> bool" where
  "walk_sound C res \<longleftrightarrow>
     (case res of
        None \<Rightarrow> \<exists>l r. entails C l r \<and> (simplify_path l = None \<or> simplify_path r = None)
      | Some cs \<Rightarrow> \<forall>c \<in> cs. \<exists>l r l' r'. c = SubTy (subtype_new l' r') \<and> entails C l r
          \<and> simplify_path l = Some l' \<and> simplify_path r = Some r')"

context fsa_graph
begin

definition walk_ok :: "'tid subtype_constraint set \<Rightarrow> ('g, 'tid) fsa \<Rightarrow> bool" where
  "walk_ok C fsa \<longleftrightarrow> ok (grph fsa)
     \<and> (\<forall>s i. fsa_mp fsa s = Some i \<longrightarrow> pg_node_weight G (grph fsa) i \<in> {None, Some s})
     \<and> (\<forall>s i. cant_pop_nodes fsa s = Some i \<longrightarrow> pg_node_weight G (grph fsa) i \<in> {None, Some s})
     \<and> (\<forall>s t i. fsa_mp fsa s = Some i \<longrightarrow> cant_pop_nodes fsa t \<noteq> Some i)
     \<and> (\<forall>i a b w. pg_edge G (grph fsa) i = Some (a, b, w) \<longrightarrow>
          (\<exists>s t. edge_sound C s w t \<and> edge_kind fsa {} i s t (a, b, w)))"

lemma walk_ok_mirror: "mirror_ok C {} fsa \<Longrightarrow> walk_ok C fsa"
  unfolding mirror_ok_def walk_ok_def by blast

lemma walk_ok_shrink:
  assumes "walk_ok C fsa" "ok (grph fsa')" "fsa_mp fsa' = fsa_mp fsa" "cant_pop_nodes fsa' = cant_pop_nodes fsa"
    and "\<And>n. pg_node_weight G (grph fsa') n \<in> {None, pg_node_weight G (grph fsa) n}"
    and "\<And>i x. pg_edge G (grph fsa') i = Some x \<Longrightarrow> pg_edge G (grph fsa) i = Some x"
  shows "walk_ok C fsa'"
  unfolding walk_ok_def
proof (intro conjI allI impI)
  fix i a b w assume "pg_edge G (grph fsa') i = Some (a, b, w)"
  with assms(1,6) obtain s t where "edge_sound C s w t" "edge_kind fsa {} i s t (a, b, w)"
    unfolding walk_ok_def by blast
  then show "\<exists>s t. edge_sound C s w t \<and> edge_kind fsa' {} i s t (a, b, w)"
    using assms(3,4) by (auto simp: edge_kind_simps)
next
  fix s i assume "fsa_mp fsa' s = Some i"
  then show "pg_node_weight G (grph fsa') i \<in> {None, Some s}"
    using assms(1,3) assms(5) [of i] unfolding walk_ok_def by force
next
  fix s i assume "cant_pop_nodes fsa' s = Some i"
  then show "pg_node_weight G (grph fsa') i \<in> {None, Some s}"
    using assms(1,4) assms(5) [of i] unfolding walk_ok_def by force
qed (use assms in \<open>auto simp: walk_ok_def\<close>)

text \<open>
  An edge, with the states of its ends and the side its ends are on (\<^const>\<open>True\<close>: a copy).
\<close>

definition is_copy :: "('g, 'tid) fsa \<Rightarrow> nat \<Rightarrow> bool" where
  "is_copy fsa i \<longleftrightarrow> (\<exists>s. cant_pop_nodes fsa s = Some i)"

lemma walk_edge:
  assumes ok: "walk_ok C fsa" and e: "pg_edge G (grph fsa) i = Some (a, b, w)"
  shows "\<exists>s t. pg_node_weight G (grph fsa) a = Some s \<and> pg_node_weight G (grph fsa) b = Some t
    \<and> edge_sound C s w t \<and> edge_weight G (grph fsa) i = Some w
    \<and> ((\<exists>x. w = Pop x) \<longrightarrow> \<not> is_copy fsa a) \<and> ((\<exists>x. w = Push x) \<longrightarrow> is_copy fsa b)
    \<and> (is_copy fsa a \<longrightarrow> is_copy fsa b)"
proof -
  let ?g = "grph fsa"
  have W: "ok ?g" "\<And>s i. fsa_mp fsa s = Some i \<Longrightarrow> pg_node_weight G ?g i \<in> {None, Some s}"
    "\<And>s i. cant_pop_nodes fsa s = Some i \<Longrightarrow> pg_node_weight G ?g i \<in> {None, Some s}"
    "\<And>s t i. fsa_mp fsa s = Some i \<Longrightarrow> cant_pop_nodes fsa t \<noteq> Some i"
    using ok unfolding walk_ok_def by blast+
  obtain s t where st: "edge_sound C s w t" "edge_kind fsa {} i s t (a, b, w)"
    using ok e unfolding walk_ok_def by blast
  have ends: "pg_node_weight G ?g a \<noteq> None" "pg_node_weight G ?g b \<noteq> None"
    using edge_ends [OF W(1) e] by simp_all
  have "fsa_mp fsa s = Some a \<or> cant_pop_nodes fsa s = Some a"
    "fsa_mp fsa t = Some b \<or> cant_pop_nodes fsa t = Some b"
    using st(2) unfolding edge_kind_simps by blast+
  then have "pg_node_weight G ?g a = Some s" "pg_node_weight G ?g b = Some t"
    using W(2,3) [of s a] W(2,3) [of t b] ends by auto
  moreover have orig: "\<not> is_copy fsa k" if "fsa_mp fsa x = Some k" for x k
    using W(4) [OF that] by (simp add: is_copy_def)
  have copy: "is_copy fsa k" if "cant_pop_nodes fsa x = Some k" for x k
    using that by (auto simp: is_copy_def)
  have "((\<exists>x. w = Pop x) \<longrightarrow> \<not> is_copy fsa a) \<and> ((\<exists>x. w = Push x) \<longrightarrow> is_copy fsa b)
      \<and> (is_copy fsa a \<longrightarrow> is_copy fsa b)"
    using st(2) orig copy unfolding edge_kind_simps by blast
  moreover have "edge_weight G ?g i = Some w" using e by (simp add: edge_weight_def)
  ultimately show ?thesis using st(1) by blast
qed

text \<open>
  The loop keeps: the labels read so far relate the start variable to the current state,
  and nothing has been pushed while the walk is among the originals.
\<close>

lemma path_loop_sound:
  assumes ok: "walk_ok C fsa"
  shows "edge_path (out_rel (pg_out G (grph fsa))) a p b \<Longrightarrow>
    pg_node_weight G (grph fsa) a = Some (Tv n) \<Longrightarrow>
    v = operate v0 (word_variance lp) \<Longrightarrow> v = operate (node_var n) (word_variance (rev rp)) \<Longrightarrow>
    related C v (extend_path X lp) (extend_path (node_dtv n) (rev rp)) \<Longrightarrow> rp = [] \<or> is_copy fsa a \<Longrightarrow>
    path_loop G fsa p lp rp = Some None \<or>
    (\<exists>lp' rp'. path_loop G fsa p lp rp = Some (Some (lp', rp'))
      \<and> (\<forall>m. pg_node_weight G (grph fsa) b = Some (Tv m) \<longrightarrow>
          (let v' = operate v0 (word_variance lp') in
             v' = operate (node_var m) (word_variance (rev rp'))
             \<and> related C v' (extend_path X lp') (extend_path (node_dtv m) (rev rp')))))"
proof (induction p arbitrary: a n v lp rp)
  case Nil
  then show ?case by (auto simp: Let_def)
next
  case (Cons i p)
  let ?g = "grph fsa"
  have okg: "ok ?g" using ok by (simp add: walk_ok_def)
  obtain c w where e: "pg_edge G ?g i = Some (a, c, w)"
    and path: "edge_path (out_rel (pg_out G ?g)) c p b"
    using Cons.prems(1) by (auto simp: pg_out_rel [OF okg])
  obtain s t where st: "pg_node_weight G ?g a = Some s" "pg_node_weight G ?g c = Some t"
    "edge_sound C s w t" "edge_weight G ?g i = Some w"
    "(\<exists>x. w = Pop x) \<longrightarrow> \<not> is_copy fsa a" "(\<exists>x. w = Push x) \<longrightarrow> is_copy fsa c"
    "is_copy fsa a \<longrightarrow> is_copy fsa c"
    using walk_edge [OF ok e] by blast
  have s: "s = Tv n" using st(1) Cons.prems(2) by simp
  from st(3) show ?case
  proof (cases rule: edge_sound_cases)
    case (Success n' m)
    then have n: "n' = n" using s by simp
    have "related C v (extend_path (node_dtv n) (rev rp)) (extend_path (node_dtv m) (rev rp))"
      using related_path [OF Success(5), of "rev rp"] Cons.prems(4) n by simp
    then have rel: "related C v (extend_path X lp) (extend_path (node_dtv m) (rev rp))"
      using Cons.prems(5) by (rule related_trans [rotated])
    have "rp = [] \<or> is_copy fsa c" using Cons.prems(6) st(7) by blast
    from Cons.IH [OF path _ Cons.prems(3) _ rel this] st(2) Success Cons.prems(4) n
    show ?thesis by (simp add: st(4))
  next
    case (Push n' m l)
    then have n: "n' = n" using s by simp
    have rel: "related C v (extend_path X lp) (extend_path (node_dtv m) (rev (rp @ [l])))"
      using Cons.prems(5) Push(4) n by simp
    have v: "v = operate (node_var m) (word_variance (rev (rp @ [l])))"
      using Cons.prems(4) Push(5) n by (simp add: operate_assoc)
    have "rp @ [l] = [] \<or> is_copy fsa c" using st(6) Push(3) by blast
    from Cons.IH [OF path _ Cons.prems(3) v rel this] st(2) Push
    show ?thesis by (simp add: st(4) add_field_to_var_def)
  next
    case (Pop n' m l)
    then have n: "n' = n" using s by simp
    have rp: "rp = []" using Cons.prems(6) st(5) Pop(3) by blast
    have rel: "related C (operate v (label_variance l)) (extend_path X (lp @ [l])) (extend_path (node_dtv m) (rev rp))"
      using related_label [OF Cons.prems(5), of l] Pop(4) n rp
      by (simp add: add_field_label_extend del: extend_path_simps(2))
    have v0: "operate v (label_variance l) = operate v0 (word_variance (lp @ [l]))"
      using Cons.prems(3) by (simp add: operate_assoc)
    have v1: "operate v (label_variance l) = operate (node_var m) (word_variance (rev rp))"
      using Cons.prems(4) Pop(5) n rp by simp
    from Cons.IH [OF path _ v0 v1 rel] rp st(2) Pop
    show ?thesis by (simp add: st(4) add_field_to_var_def)
  next
    case (Start iv v' m)
    then show ?thesis using s by simp
  next
    case (End iv v' n')
    then show ?thesis by (simp add: st(4) add_field_to_var_def)
  qed
qed

lemma extend_dtv_new: "extend_path (dtv_new x) p = create_with_path x p"
  by (simp add: extend_path_def dtv_new_def create_with_path_def)

lemma get_it_from_edge_iff:
  "get_it_from_edge G fsa i pat = Some (d, v) \<longleftrightarrow>
     (\<exists>w iv. edge_weight G (grph fsa) i = Some w \<and> pat w = Some (IV_Symbol iv v) \<and> d = dtv_new (iv_tv iv))"
  by (cases "edge_weight G (grph fsa) i")
    (auto simp: get_it_from_edge_def split: option.splits stack_symbol.splits)

lemma symbol_iff [simp]: "pop_symbol w = Some x \<longleftrightarrow> w = Pop x" "push_symbol w = Some x \<longleftrightarrow> w = Push x"
  by (cases w; simp add: pop_symbol_def push_symbol_def)+

text \<open>The shape of a path whose first edge pops and whose last edge pushes a variable.\<close>

lemma path_ends:
  assumes ok: "walk_ok C fsa" and path: "edge_path (out_rel (pg_out G (grph fsa))) s p e"
    and first: "p \<noteq> []" "edge_weight G (grph fsa) (hd p) = Some (Pop (IV_Symbol iv v))"
    and last: "edge_weight G (grph fsa) (last p) = Some (Push (IV_Symbol iv' v'))"
  obtains c d m n where "edge_path (out_rel (pg_out G (grph fsa))) c (butlast (tl p)) d"
    "pg_node_weight G (grph fsa) c = Some (Tv m)" "node_dtv m = dtv_new (iv_tv iv)" "node_var m = v"
    "pg_node_weight G (grph fsa) d = Some (Tv n)" "node_dtv n = dtv_new (iv_tv iv')" "node_var n = v'"
proof -
  let ?g = "grph fsa" and ?R = "out_rel (pg_out G (grph fsa))"
  have okg: "ok ?g" using ok by (simp add: walk_ok_def)
  obtain i q where p: "p = i # q" using first(1) by (cases p) auto
  have "q \<noteq> []" using first(2) last p by auto
  then have q: "q = butlast q @ [last p]" by (simp add: p)
  obtain c w where c: "pg_edge G ?g i = Some (s, c, w)" "edge_path ?R c q e"
    using path p by (auto simp: pg_out_rel [OF okg])
  from c(2) obtain d where d: "edge_path ?R c (butlast q) d" "(d, last p, e) \<in> ?R"
    by (subst (asm) q) (auto simp: edge_path_append)
  obtain w' where w': "pg_edge G ?g (last p) = Some (d, e, w')" using d(2) by (auto simp: pg_out_rel [OF okg])
  obtain x t where "pg_node_weight G ?g c = Some t" "edge_sound C x w t"
    "edge_weight G ?g i = Some w" using walk_edge [OF ok c(1)] by blast
  then have "edge_sound C x (Pop (IV_Symbol iv v)) t" "pg_node_weight G ?g c = Some t"
    using first(2) p by simp_all
  then obtain m where m: "pg_node_weight G ?g c = Some (Tv m)" "node_dtv m = dtv_new (iv_tv iv)"
    "node_var m = v" by (cases rule: edge_sound_cases) auto
  obtain y u where "pg_node_weight G ?g d = Some y" "edge_sound C y w' u"
    "edge_weight G ?g (last p) = Some w'" using walk_edge [OF ok w'] by blast
  then have "edge_sound C y (Push (IV_Symbol iv' v')) u" "pg_node_weight G ?g d = Some y"
    using last by simp_all
  then obtain n where "pg_node_weight G ?g d = Some (Tv n)" "node_dtv n = dtv_new (iv_tv iv')"
    "node_var n = v'" by (cases rule: edge_sound_cases) auto
  with m d(1) that show thesis by (simp add: p)
qed

lemma path_to_constraint_sound:
  assumes ok: "walk_ok C fsa" and path: "edge_path (out_rel (pg_out G (grph fsa))) s p e"
  shows "path_to_constraint G fsa p = Some None
    \<or> (\<exists>l r. entails C l r \<and> path_to_constraint G fsa p =
        (case (simplify_path l, simplify_path r) of
           (Some l', Some r') \<Rightarrow> Some (Some (subtype_new l' r')) | _ \<Rightarrow> None))"
proof (cases "\<exists>d v d' v'. p \<noteq> [] \<and> get_it_from_edge G fsa (hd p) pop_symbol = Some (d, v)
    \<and> get_it_from_edge G fsa (last p) push_symbol = Some (d', v')")
  case False
  then consider "p = []" | "p \<noteq> []" "get_it_from_edge G fsa (hd p) pop_symbol = None"
    | "p \<noteq> []" "get_it_from_edge G fsa (last p) push_symbol = None"
    by (metis not_None_eq surj_pair)
  then have "path_to_constraint G fsa p = Some None"
  proof cases
    case 2
    then show ?thesis by (cases p) (simp_all add: path_to_constraint_def Let_def)
  next
    case 3
    then show ?thesis
      by (cases p) (simp_all add: path_to_constraint_def Let_def split: option.splits)
  qed (simp add: path_to_constraint_def)
  then show ?thesis ..
next
  case True
  then obtain iv v iv' v' where p: "p \<noteq> []"
    and it: "get_it_from_edge G fsa (hd p) pop_symbol = Some (dtv_new (iv_tv iv), v)"
      "get_it_from_edge G fsa (last p) push_symbol = Some (dtv_new (iv_tv iv'), v')"
    and w: "edge_weight G (grph fsa) (hd p) = Some (Pop (IV_Symbol iv v))"
      "edge_weight G (grph fsa) (last p) = Some (Push (IV_Symbol iv' v'))"
    by (auto simp: get_it_from_edge_iff)
  obtain c d m n where cd: "edge_path (out_rel (pg_out G (grph fsa))) c (butlast (tl p)) d"
    "pg_node_weight G (grph fsa) c = Some (Tv m)" "node_dtv m = dtv_new (iv_tv iv)" "node_var m = v"
    "pg_node_weight G (grph fsa) d = Some (Tv n)" "node_dtv n = dtv_new (iv_tv iv')" "node_var n = v'"
    by (rule path_ends [OF ok path p w])
  have unf: "path_to_constraint G fsa p =
      (case path_loop G fsa (butlast (tl p)) [] [] of
         None \<Rightarrow> None
       | Some None \<Rightarrow> Some None
       | Some (Some (lhs_path, rhs_path)) \<Rightarrow>
           let lhs_dtv = create_with_path (iv_tv iv) lhs_path;
               rhs_dtv = create_with_path (iv_tv iv') (rev rhs_path)
           in if operate (path_variance lhs_dtv) v = Covariant \<and> operate (path_variance rhs_dtv) v' = Covariant
              then (case (simplify_path lhs_dtv, simplify_path rhs_dtv) of
                      (Some l, Some r) \<Rightarrow> Some (Some (subtype_new l r)) | _ \<Rightarrow> None)
              else Some None)"
    using p it
    by (cases p) (simp_all add: path_to_constraint_def Let_def split: option.splits prod.splits)
  have rel0: "related C v (extend_path (dtv_new (iv_tv iv)) []) (extend_path (node_dtv m) (rev []))"
    using cd(3) by simp
  have "v = operate v (word_variance [])" "v = operate (node_var m) (word_variance (rev []))"
    using cd(4) by simp_all
  from path_loop_sound [OF ok cd(1,2) this rel0] consider
    (none) "path_loop G fsa (butlast (tl p)) [] [] = Some None"
    | (some) lp rp where "path_loop G fsa (butlast (tl p)) [] [] = Some (Some (lp, rp))"
      "related C (operate v (word_variance lp)) (extend_path (dtv_new (iv_tv iv)) lp)
        (extend_path (node_dtv n) (rev rp))"
    using cd(5) by (auto simp: Let_def)
  then show ?thesis
  proof cases
    case none
    then show ?thesis by (simp add: unf)
  next
    case some
    let ?l = "create_with_path (iv_tv iv) lp" and ?r = "create_with_path (iv_tv iv') (rev rp)"
    have rel: "related C (operate v (word_variance lp)) ?l ?r"
      using some(2) by (simp add: extend_dtv_new cd(6))
    show ?thesis
    proof (cases "operate (path_variance ?l) v = Covariant \<and> operate (path_variance ?r) v' = Covariant")
      case True
      then have "word_variance lp = v" by (simp add: path_variance_word)
      then have "entails C ?l ?r" using rel by simp
      with True some(1) show ?thesis by (auto simp: unf Let_def)
    next
      case False
      then show ?thesis by (simp only: unf some(1) Let_def option.case prod.case if_False) simp
    qed
  qed
qed

lemma walk_constraints_spec:
  assumes ok: "walk_ok C fsa" and s: "fsa_mp fsa Start = Some s" and e: "cant_pop_nodes fsa End = Some e"
  shows "walk_sound C (walk_constraints G fsa)"
proof -
  let ?out = "pg_out G (grph fsa)"
  have okg: "ok (grph fsa)" using ok by (simp add: walk_ok_def)
  obtain ps where ps: "all_simple_paths ?out s e = Some ps"
    "\<And>p. p \<in> set ps \<Longrightarrow> edge_path (out_rel ?out) s p e"
    using all_simple_paths_exact [OF pg_out_wf [OF okg], of s e] by blast
  note P = path_to_constraint_sound [OF ok ps(2)]
  show ?thesis
  proof (cases "traverse (path_to_constraint G fsa) ps")
    case None
    then obtain p where "p \<in> set ps" "path_to_constraint G fsa p = None"
      by (auto simp: traverse_None_iff)
    with P [of p] obtain l r where "entails C l r" "simplify_path l = None \<or> simplify_path r = None"
      by (auto split: option.splits)
    then show ?thesis
      using None by (auto simp: walk_sound_def walk_constraints_def get_start_def get_end_def s e ps(1))
  next
    case (Some cs)
    have "\<exists>l r l' r'. sub = subtype_new l' r' \<and> entails C l r
        \<and> simplify_path l = Some l' \<and> simplify_path r = Some r'" if sub: "Some sub \<in> set cs" for sub
    proof -
      obtain p where "p \<in> set ps" "path_to_constraint G fsa p = Some (Some sub)"
        using traverse_mem [OF Some sub] by blast
      with P [of p] obtain l r where "entails C l r" "(case (simplify_path l, simplify_path r) of
          (Some l', Some r') \<Rightarrow> Some (Some (subtype_new l' r')) | _ \<Rightarrow> None) = Some (Some sub)"
        by auto
      then show ?thesis by (cases "simplify_path l"; cases "simplify_path r") auto
    qed
    moreover have "walk_constraints G fsa
        = Some (\<Union>c \<in> set cs. case c of Some sub \<Rightarrow> {SubTy sub} | None \<Rightarrow> {})"
      using Some by (simp add: walk_constraints_def get_start_def get_end_def s e ps(1))
    moreover have "\<exists>sub. c = SubTy sub \<and> Some sub \<in> set cs"
      if "c \<in> (\<Union>c \<in> set cs. case c of Some sub \<Rightarrow> {SubTy sub} | None \<Rightarrow> {})" for c
      using that by (auto split: option.splits)
    ultimately show ?thesis unfolding walk_sound_def by simp metis
  qed
qed

end

section \<open>The pipeline\<close>

context fsa_graph
begin

lemma saturate_new_spec:
  assumes "finite cons"
  shows "\<exists>fsa fsa'. fsa_new G cons ctx = Some (Inr fsa) \<and> saturate G fsa = Some fsa'
    \<and> fsa_ok fsa' \<and> Start \<in> graph_states G (grph fsa')
    \<and> graph_edges G (grph fsa') = graph_edges G (grph fsa)
        \<union> {success_edge d q | d q. d \<noteq> q
             \<and> sat_edge (graph_edges G (grph fsa)) (graph_states G (grph fsa)) d q}
    \<and> (\<forall>e \<in> graph_edges G (grph fsa'). ed_sound (constraint_set_to_subtys cons) e)"
proof -
  let ?C = "constraint_set_to_subtys cons"
  obtain fsa subs where new: "fsa_new G cons ctx = Some (Inr fsa)" "fsa_ok fsa" "set subs = ?C"
    "graph_edges G (grph fsa) = set (all_edges ctx subs)"
    "graph_states G (grph fsa) = edge_states (set (all_edges ctx subs)) \<union> {Start, End}"
    using fsa_new_spec [OF assms] by blast
  have dual: "dual (graph_states G (grph fsa))"
    using fsa_states_dual [of ctx subs] by (simp add: new(5) fsa_edges_eq)
  obtain fsa' where sat: "saturate G fsa = Some fsa'" "fsa_ok fsa'"
    "graph_edges G (grph fsa') = graph_edges G (grph fsa) \<union> {success_edge d q | d q. d \<noteq> q
       \<and> sat_edge (graph_edges G (grph fsa)) (graph_states G (grph fsa)) d q}"
    "graph_states G (grph fsa) \<subseteq> graph_states G (grph fsa')"
    using saturate_spec [OF new(2) dual] by blast
  have E: "ed_sound ?C e" if "e \<in> graph_edges G (grph fsa)" for e
    using that fsa_edges_sound [of ctx subs] by (auto simp: new(3,4) fsa_edges_eq)
  then have "edge_sound ?C d Success q"
    if "sat_edge (graph_edges G (grph fsa)) (graph_states G (grph fsa)) d q" for d q
    using sat_sound [of "graph_edges G (grph fsa)" ?C] that by (fastforce simp: ed_sound_def)
  then have "\<forall>e \<in> graph_edges G (grph fsa'). ed_sound ?C e"
    using E by (auto simp: sat(3) ed_sound_def)
  moreover have "Start \<in> graph_states G (grph fsa')" using sat(4) new(5) by auto
  ultimately show ?thesis using new(1) sat by blast
qed

lemma pipeline_spec:
  assumes "finite cons"
  shows "\<exists>fsa0 fsa1 fsa2 fsa3. fsa_new G cons ctx = Some (Inr fsa0) \<and> saturate G fsa0 = Some fsa1
    \<and> intersect_with_pop_push G fsa1 = Some fsa2 \<and> remove_unreachable G fsa2 = Some fsa3
    \<and> walk_sound (constraint_set_to_subtys cons) (walk_constraints G fsa3)"
proof -
  let ?C = "constraint_set_to_subtys cons"
  obtain fsa0 fsa1 where f1: "fsa_new G cons ctx = Some (Inr fsa0)" "saturate G fsa0 = Some fsa1"
    "fsa_ok fsa1" "Start \<in> graph_states G (grph fsa1)"
    "\<forall>e \<in> graph_edges G (grph fsa1). ed_sound ?C e"
    using saturate_new_spec [OF assms] by blast
  obtain fsa2 e where f2: "intersect_with_pop_push G fsa1 = Some fsa2" "mirror_ok ?C {} fsa2"
    "fsa_mp fsa2 = fsa_mp fsa1" "cant_pop_nodes fsa2 End = Some e"
    using intersect_spec [OF f1(3,5)] by blast
  obtain s where s: "fsa_mp fsa2 Start = Some s"
    using f1(4) fsa_ok_states [OF f1(3)] f2(3) by auto
  note M = mirror_okD [OF f2(2)]
  obtain fsa3 where f3: "remove_unreachable G fsa2 = Some fsa3" "ok (grph fsa3)"
    "fsa_mp fsa3 = fsa_mp fsa2" "cant_pop_nodes fsa3 = cant_pop_nodes fsa2"
    "\<forall>n. pg_node_weight G (grph fsa3) n =
       (if n = s \<or> n = e \<or> on_path (grph fsa2) s e n then pg_node_weight G (grph fsa2) n else None)"
    "\<forall>i x. pg_edge G (grph fsa3) i = Some x \<longrightarrow> pg_edge G (grph fsa2) i = Some x"
    using remove_unreachable_spec [OF M(1) s _ f2(4)] M(2) [OF s] M(3) [OF f2(4)] by auto
  have "walk_ok ?C fsa3"
    by (rule walk_ok_shrink [OF walk_ok_mirror [OF f2(2)] f3(2-4)]) (use f3(5,6) in auto)
  then have "walk_sound ?C (walk_constraints G fsa3)"
    using s f2(4) f3(3,4) by (intro walk_constraints_spec) auto
  with f1(1,2) f2(1) f3(1) show ?thesis by blast
qed

end

text \<open>
  C11: on the automaton of any finite constraint set, saturation ends without a panic and
  adds exactly the success edges that the saturation rules derive, reflexive ones left out.
\<close>

theorem saturate_least:
  assumes "fsa_graph G ok" "finite cons"
  shows "\<exists>fsa fsa'. fsa_new G cons ctx = Some (Inr fsa) \<and> saturate G fsa = Some fsa'
    \<and> graph_edges G (grph fsa') = graph_edges G (grph fsa)
        \<union> {success_edge d q | d q. d \<noteq> q
             \<and> sat_edge (graph_edges G (grph fsa)) (graph_states G (grph fsa)) d q}"
  using fsa_graph.saturate_new_spec [OF assms, of ctx] by blast

text \<open>
  After saturation every edge of the automaton is sound: a success edge between two
  states is a subtyping of their variables that the constraints entail, in the direction of
  their sign.
\<close>

theorem saturate_sound:
  assumes "fsa_graph G ok" "finite cons"
  shows "\<exists>fsa fsa'. fsa_new G cons ctx = Some (Inr fsa) \<and> saturate G fsa = Some fsa'
    \<and> (\<forall>e \<in> graph_edges G (grph fsa'). ed_sound (constraint_set_to_subtys cons) e)"
  using fsa_graph.saturate_new_spec [OF assms, of ctx] by blast


section \<open>A concrete constraint set\<close>

definition example_cons :: "nat constraint_set" where
  "example_cons =
     {SubTy (subtype_new (create_with_path (tv_new ''f'') [In 0]) (dtv_new (tv_new ''x''))),
      SubTy (subtype_new (dtv_new (tv_new ''x'')) (create_with_path (tv_new ''f'') [Out 0]))}"

definition example_ctx :: "nat rule_context" where
  "example_ctx = rule_context_new {tv_new ''f''}"

lemma example_finite: "finite example_cons"
  by (simp add: example_cons_def)

theorem saturate_least_witness:
  "\<exists>fsa fsa'. fsa_new list_digraph example_cons example_ctx = Some (Inr fsa)
    \<and> saturate list_digraph fsa = Some fsa'
    \<and> graph_edges list_digraph (grph fsa') = graph_edges list_digraph (grph fsa)
        \<union> {success_edge d q | d q. d \<noteq> q
             \<and> sat_edge (graph_edges list_digraph (grph fsa)) (graph_states list_digraph (grph fsa)) d q}"
  by (rule saturate_least [OF list_fsa.fsa_graph_axioms example_finite])

theorem saturate_sound_witness:
  "\<exists>fsa fsa'. fsa_new list_digraph example_cons example_ctx = Some (Inr fsa)
    \<and> saturate list_digraph fsa = Some fsa'
    \<and> (\<forall>e \<in> graph_edges list_digraph (grph fsa'). ed_sound (constraint_set_to_subtys example_cons) e)"
  by (rule saturate_sound [OF list_fsa.fsa_graph_axioms example_finite])


end
