(* ===== verification/LoopBreakers.thy ===== *)
theory LoopBreakers
  imports Mirror
begin

text \<open>
  The loop breakers of \<^verbatim>\<open>src/solver/constraint_graph.rs\<close>
  (\<^verbatim>\<open>generate_recursive_type_variables\<close>): while the automaton has a strongly connected
  component of more than one state, an entry of it is replaced, with its equivalent states,
  by the two sides of a fresh interesting variable.  The components are computed by the graph
  library (\<^verbatim>\<open>tarjan_scc\<close>, the argument \<open>scc\<close>).  Also the comparison of the
  automaton with a list of edges that the tests of the program use.
\<close>

section \<open>Choosing a representative\<close>

definition get_entries_to_scc ::
    "('g, 'tid) fsa_pg \<Rightarrow> ('g, 'tid) fsa \<Rightarrow> nat list \<Rightarrow> nat set" where
  "get_entries_to_scc G fsa idxs =
     (let canidates = set idxs
      in set (filter (\<lambda>idx. list_ex (\<lambda>(_, source, _, _). source \<notin> canidates)
            (edges_directed G (grph fsa) idx Incoming)) idxs))"

definition root_of ::
    "('g, 'tid) fsa_pg \<Rightarrow> ('g, 'tid) fsa \<Rightarrow> nat \<Rightarrow> 'tid dtv option" where
  "root_of G fsa x = Option.bind (pg_node_weight G (grph fsa) x) get_root_type_var"

definition select_an_entry_repr ::
    "('g, 'tid) fsa_pg \<Rightarrow> ('g, 'tid) fsa \<Rightarrow> nat set \<Rightarrow> nat option" where
  "select_an_entry_repr G fsa it =
     do { repr_vars \<leftarrow> traverse (root_of G fsa) (sorted_list_of_set it);
          roots \<leftarrow> traverse (\<lambda>n. map_option (Pair n) (root_of G fsa n)) (sorted_list_of_set it);
          map_option fst (find (\<lambda>(_, root). list_all (\<lambda>x. \<not> is_prefix_of x root) repr_vars) roots) }"

definition get_equiv_node_idxs ::
    "('g, 'tid) fsa_pg \<Rightarrow> ('g, 'tid) fsa \<Rightarrow> nat \<Rightarrow> nat list option" where
  "get_equiv_node_idxs G fsa idx =
     map_option (\<lambda>fs. concat (map option_list
       [fsa_mp fsa (fs_not fs), fsa_mp fsa fs, cant_pop_nodes fsa (fs_not fs), cant_pop_nodes fsa fs]))
       (pg_node_weight G (grph fsa) idx)"

section \<open>Replacing a node\<close>

definition loop_breaker_state ::
    "'tid type_variable \<Rightarrow> direction \<Rightarrow> variance \<Rightarrow> 'tid finite_state" where
  "loop_breaker_state tv dir var =
     Tv \<lparr>base_var = \<lparr>dt_var = Interesting \<lparr>iv_tv = tv, iv_dir = dir\<rparr>, cs_variance = var\<rparr>,
         access_path = []\<rparr>"

definition move_edge ::
    "('g, 'tid) fsa_pg \<Rightarrow> nat \<Rightarrow> nat \<Rightarrow> 'tid fsa_edge \<Rightarrow> nat \<Rightarrow> 'g \<Rightarrow> 'g option" where
  "move_edge G a b w edge_id g =
     map_option snd (pg_add_edge G a b w (snd (pg_remove_edge G edge_id g)))"

definition replace_nodes_with_interesting_variable ::
    "('g, 'tid) fsa_pg \<Rightarrow> nat \<Rightarrow> 'tid type_variable \<Rightarrow> ('g, 'tid) fsa \<Rightarrow> ('g, 'tid) fsa option" where
  "replace_nodes_with_interesting_variable G to_replace tv fsa =
     do { weight \<leftarrow> pg_node_weight G (grph fsa) to_replace;
          var \<leftarrow> (case weight of Tv t \<Rightarrow> Some (cs_variance (base_var t)) | _ \<Rightarrow> None);
          let ivlhs = \<lparr>iv_tv = tv, iv_dir = Lhs\<rparr>;
              ivrhs = \<lparr>iv_tv = tv, iv_dir = Rhs\<rparr>;
              entry_node = loop_breaker_state tv Lhs var;
              exit_node = loop_breaker_state tv Rhs var;
              (entry_idx, g1) = pg_add_node G entry_node (grph fsa);
              (exit_idx, g2) = pg_add_node G exit_node g1;
              mp' = (fsa_mp fsa)(entry_node \<mapsto> entry_idx);
              cant' = (cant_pop_nodes fsa)(exit_node \<mapsto> exit_idx)
          in do { start_ind \<leftarrow> mp' Start;
                  g3 \<leftarrow> map_option snd
                    (pg_add_edge G start_ind entry_idx (Pop (IV_Symbol ivlhs var)) g2);
                  end_ind \<leftarrow> cant' End;
                  g4 \<leftarrow> map_option snd
                    (pg_add_edge G exit_idx end_ind (Push (IV_Symbol ivrhs var)) g3);
                  g5 \<leftarrow> fold_opt (\<lambda>(edge_id, source_node, _, w). move_edge G source_node exit_idx w edge_id)
                    (edges_directed G g4 to_replace Incoming) g4;
                  g6 \<leftarrow> fold_opt (\<lambda>(edge_id, _, dest_node, w). move_edge G entry_idx dest_node w edge_id)
                    (edges_directed G g5 to_replace Outgoing) g5;
                  Some \<lparr>grph = g6, fsa_mp = mp', cant_pop_nodes = cant'\<rparr> } }"

definition replace_if_exists ::
    "('g, 'tid) fsa_pg \<Rightarrow> 'tid type_variable \<Rightarrow> nat \<Rightarrow> ('g, 'tid) fsa \<Rightarrow> ('g, 'tid) fsa option" where
  "replace_if_exists G with_tv idx fsa =
     (if contains_node G (grph fsa) idx
      then replace_nodes_with_interesting_variable G idx with_tv fsa else Some fsa)"

section \<open>The loop\<close>

record ('g, 'tid) breaker_state =
  br_fsa :: "('g, 'tid) fsa"
  br_vman :: variable_manager
  br_removed :: "nat set"
  did_change :: bool

definition break_scc ::
    "('g, 'tid) fsa_pg \<Rightarrow> nat list \<Rightarrow> ('g, 'tid) breaker_state \<Rightarrow> ('g, 'tid) breaker_state option" where
  "break_scc G scc st =
     (if list_ex (\<lambda>x. x \<in> br_removed st) scc then Some st
      else if length scc \<noteq> 1 then
        (let entries = get_entries_to_scc G (br_fsa st) scc
         in if entries = {} then None
            else do { idx \<leftarrow> select_an_entry_repr G (br_fsa st) entries;
                      let (tv, vman) = fresh_loop_breaker (br_vman st)
                      in do { eq \<leftarrow> get_equiv_node_idxs G (br_fsa st) idx;
                              fsa \<leftarrow> fold_opt (replace_if_exists G tv) eq (br_fsa st);
                              Some (st\<lparr>br_fsa := fsa, br_vman := vman,
                                       br_removed := br_removed st \<union> set eq, did_change := True\<rparr>) } })
      else Some st)"

partial_function (option) breaker_loop ::
    "('g, 'tid) fsa_pg \<Rightarrow> ('g \<Rightarrow> nat list list) \<Rightarrow> ('g, 'tid) breaker_state \<Rightarrow>
     ('g, 'tid) breaker_state option" where
  "breaker_loop G scc st =
     do { st' \<leftarrow> fold_opt (break_scc G) (scc (grph (br_fsa st))) (st\<lparr>did_change := False\<rparr>);
          if \<not> did_change st' then Some st' else breaker_loop G scc st' }"

definition generate_recursive_type_variables ::
    "('g, 'tid) fsa_pg \<Rightarrow> ('g \<Rightarrow> nat list list) \<Rightarrow> variable_manager \<Rightarrow> ('g, 'tid) fsa \<Rightarrow>
     (('g, 'tid) fsa \<times> variable_manager) option" where
  "generate_recursive_type_variables G scc vman fsa =
     map_option (\<lambda>st. (br_fsa st, br_vman st))
       (breaker_loop G scc \<lparr>br_fsa = fsa, br_vman = vman, br_removed = {}, did_change = False\<rparr>)"

definition simplify_graph ::
    "('g, ('tid::linorder)) fsa_pg \<Rightarrow> ('g \<Rightarrow> nat list list) \<Rightarrow> variable_manager \<Rightarrow> ('g, 'tid) fsa \<Rightarrow>
     (('g, 'tid) fsa \<times> variable_manager) option" where
  "simplify_graph G scc vman fsa =
     do { fsa1 \<leftarrow> saturate G fsa;
          fsa2 \<leftarrow> intersect_with_pop_push G fsa1;
          fsa3 \<leftarrow> remove_unreachable G fsa2;
          (fsa4, vman') \<leftarrow> generate_recursive_type_variables G scc vman fsa3;
          fsa5 \<leftarrow> remove_unreachable G fsa4;
          Some (fsa5, vman') }"

section \<open>Comparison with a list of edges\<close>

definition lstate_to_nd_index :: "('g, 'tid) fsa \<Rightarrow> 'tid labeled_state \<Rightarrow> nat option" where
  "lstate_to_nd_index fsa st =
     (case ls_label st of
        Copy \<Rightarrow> cant_pop_nodes fsa (ls_state st)
      | Orig \<Rightarrow> fsa_mp fsa (ls_state st))"

definition get_edge_set ::
    "('g, 'tid) fsa_pg \<Rightarrow> ('g, 'tid) fsa \<Rightarrow> (nat \<times> 'tid fsa_edge \<times> nat) set" where
  "get_edge_set G fsa = set (map (\<lambda>(_, a, b, w). (a, w, b)) (edge_references G (grph fsa)))"

definition equal_edges ::
    "('g, 'tid) fsa_pg \<Rightarrow> ('g, 'tid) fsa \<Rightarrow>
     ('tid labeled_state \<times> 'tid fsa_edge \<times> 'tid labeled_state) list \<Rightarrow> bool" where
  "equal_edges G fsa es =
     (let edges = map (\<lambda>(s1, e, s2).
            Option.bind (lstate_to_nd_index fsa s1) (\<lambda>src.
              map_option (\<lambda>dst. (src, e, dst)) (lstate_to_nd_index fsa s2))) es
      in if list_ex (\<lambda>o'. o' = None) edges then False
         else set (map the edges) = get_edge_set G fsa)"

section \<open>The representative\<close>

lemma is_prefix_of_length:
  "is_prefix_of d e \<Longrightarrow> length (dtv_labels d) < length (dtv_labels e)"
  by (simp add: is_prefix_of_def)

lemma find_Some_ex: "(\<exists>x \<in> set xs. P x) \<Longrightarrow> \<exists>y. find P xs = Some y \<and> y \<in> set xs \<and> P y"
  by (induction xs) auto

text \<open>
  Choosing a representative among entries that are states of type variables never
  panics: some entry has no proper prefix among the entries, and such an entry is chosen.
\<close>

theorem select_an_entry_repr_total:
  assumes "finite it" "it \<noteq> {}" and "\<forall>n \<in> it. root_of G fsa n \<noteq> None"
  shows "\<exists>n d. select_an_entry_repr G fsa it = Some n \<and> n \<in> it \<and> root_of G fsa n = Some d
    \<and> (\<forall>m \<in> it. \<forall>e. root_of G fsa m = Some e \<longrightarrow> \<not> is_prefix_of e d)"
proof -
  let ?r = "\<lambda>n. the (root_of G fsa n)" and ?xs = "sorted_list_of_set it"
  have root: "root_of G fsa n = Some (?r n)" if "n \<in> it" for n using assms(3) that by auto
  have xs: "set ?xs = it" using assms(1) by simp
  have t1: "traverse (root_of G fsa) ?xs = Some (map ?r ?xs)"
    by (rule traverse_Some_map) (use root xs in auto)
  have t2: "traverse (\<lambda>n. map_option (Pair n) (root_of G fsa n)) ?xs = Some (map (\<lambda>n. (n, ?r n)) ?xs)"
    by (rule traverse_Some_map) (use root xs in auto)
  let ?P = "\<lambda>(_ :: nat, root). list_all (\<lambda>x. \<not> is_prefix_of x root) (map ?r ?xs)"
  obtain n0 where n0: "n0 \<in> it" "\<forall>m \<in> it. length (dtv_labels (?r n0)) \<le> length (dtv_labels (?r m))"
    using ex_min_if_finite [of "(\<lambda>n. length (dtv_labels (?r n))) ` it"] assms(1,2)
    by (metis (mono_tags, lifting) arg_min_least arg_min_if_finite(1))
  then have "?P (n0, ?r n0)"
    using xs by (auto simp: list_all_iff dest!: is_prefix_of_length)
  then have "\<exists>x \<in> set (map (\<lambda>n. (n, ?r n)) ?xs). ?P x" using n0(1) xs by auto
  then obtain y where y: "find ?P (map (\<lambda>n. (n, ?r n)) ?xs) = Some y"
    "y \<in> set (map (\<lambda>n. (n, ?r n)) ?xs)" "?P y"
    using find_Some_ex [of "map (\<lambda>n. (n, ?r n)) ?xs" ?P] by blast
  then obtain n where n: "n \<in> it" "y = (n, ?r n)" using xs by auto
  have "select_an_entry_repr G fsa it = Some n"
    using y(1) n(2) by (simp add: select_an_entry_repr_def t1 t2)
  moreover have "\<not> is_prefix_of e (?r n)" if "m \<in> it" "root_of G fsa m = Some e" for m e
    using y(3) n(2) xs that by (auto simp: list_all_iff)
  ultimately show ?thesis using n(1) root by blast
qed

section \<open>The effect of a replacement\<close>

context fsa_graph
begin

lemma get_edge_set_arcs: "ok (grph fsa) \<Longrightarrow> get_edge_set G fsa = weighted_arcs G (grph fsa)"
  by (force simp: get_edge_set_def weighted_arcs_def set_edge_references)

lemma move_loop_spec:
  "ok g \<Longrightarrow> distinct (map fid xs) \<Longrightarrow> \<forall>x \<in> set xs. pg_edge G g (fid x) \<noteq> None \<Longrightarrow>
   \<forall>x \<in> set xs. pg_node_weight G g (fa x) \<noteq> None \<and> pg_node_weight G g (fb x) \<noteq> None \<Longrightarrow>
   \<exists>g'. fold_opt (\<lambda>x. move_edge G (fa x) (fb x) (fw x) (fid x)) xs g = Some g' \<and> ok g'
     \<and> pg_node_weight G g' = pg_node_weight G g
     \<and> weighted_arcs G g' = {(a, w, b). \<exists>i. i \<notin> fid ` set xs \<and> pg_edge G g i = Some (a, b, w)}
         \<union> (\<lambda>x. (fa x, fw x, fb x)) ` set xs"
proof (induction xs arbitrary: g)
  case Nil
  then show ?case by (simp add: weighted_arcs_def)
next
  case (Cons x xs)
  obtain r g1 where rem: "pg_remove_edge G (fid x) g = (r, g1)" by force
  have g1: "ok g1" "pg_node_weight G g1 = pg_node_weight G g" "pg_edge G g1 = (pg_edge G g)(fid x := None)"
    using remove_edge_laws [OF Cons.prems(1) rem] by simp_all
  obtain k g2 where add: "pg_add_edge G (fa x) (fb x) (fw x) g1 = Some (k, g2)"
    using add_edge_None [OF g1(1), of "fa x" "fb x" "fw x"] Cons.prems(4) g1(2)
    by (cases "pg_add_edge G (fa x) (fb x) (fw x) g1") auto
  have g2: "ok g2" "pg_node_weight G g2 = pg_node_weight G g" "pg_edge G g1 k = None"
    "pg_edge G g2 = ((pg_edge G g)(fid x := None))(k \<mapsto> (fa x, fb x, fw x))"
    using add_edge_laws [OF g1(1) add] g1 by simp_all
  have neq: "fid y \<noteq> fid x" if "y \<in> set xs" for y
  proof -
    have "fid y \<in> fid ` set xs" using that by (rule imageI)
    moreover have "fid x \<notin> fid ` set xs" using Cons.prems(2) by simp
    ultimately show ?thesis by metis
  qed
  have ids: "fid y \<noteq> fid x" "pg_edge G g (fid y) \<noteq> None" "fid y \<noteq> k" if "y \<in> set xs" for y
  proof -
    show 1: "fid y \<noteq> fid x" by (rule neq [OF that])
    show 2: "pg_edge G g (fid y) \<noteq> None" using Cons.prems(3) that by simp
    show "fid y \<noteq> k" using 1 2 g1(3) g2(3) by (auto split: if_splits)
  qed
  have k: "k \<notin> fid ` set xs" using ids(3) by auto
  have "\<forall>y \<in> set xs. pg_edge G g2 (fid y) \<noteq> None" using ids g2(4) by auto
  moreover have "\<forall>y \<in> set xs. pg_node_weight G g2 (fa y) \<noteq> None \<and> pg_node_weight G g2 (fb y) \<noteq> None"
    using Cons.prems(4) g2(2) by simp
  ultimately obtain g' where g': "fold_opt (\<lambda>x. move_edge G (fa x) (fb x) (fw x) (fid x)) xs g2 = Some g'"
    "ok g'" "pg_node_weight G g' = pg_node_weight G g2"
    "weighted_arcs G g' = {(a, w, b). \<exists>i. i \<notin> fid ` set xs \<and> pg_edge G g2 i = Some (a, b, w)}
       \<union> (\<lambda>x. (fa x, fw x, fb x)) ` set xs"
    using Cons.IH [OF g2(1)] Cons.prems(2) by auto
  have free: "pg_edge G g k = None \<or> k = fid x" using g2(3) g1(3) by (auto split: if_splits)
  have "(\<exists>i. i \<notin> fid ` set xs \<and> pg_edge G g2 i = Some (a, b, w)) \<longleftrightarrow>
      (\<exists>i. i \<notin> fid ` set (x # xs) \<and> pg_edge G g i = Some (a, b, w)) \<or> (a, w, b) = (fa x, fw x, fb x)"
    (is "?L \<longleftrightarrow> ?R") for a b w
  proof
    assume ?L
    then obtain i where i: "i \<notin> fid ` set xs" "pg_edge G g2 i = Some (a, b, w)" by blast
    show ?R
    proof (cases "i = k")
      case True
      with i(2) g2(4) show ?thesis by simp
    next
      case False
      with i(2) g2(4) have "i \<noteq> fid x" "pg_edge G g i = Some (a, b, w)" by (auto split: if_splits)
      with i(1) show ?thesis by auto
    qed
  next
    assume ?R
    then show ?L
    proof
      assume "\<exists>i. i \<notin> fid ` set (x # xs) \<and> pg_edge G g i = Some (a, b, w)"
      then obtain i where i: "i \<notin> fid ` set (x # xs)" "pg_edge G g i = Some (a, b, w)" by blast
      moreover have "i \<noteq> k" using i free by auto
      ultimately have "pg_edge G g2 i = Some (a, b, w)" using g2(4) by auto
      with i(1) show ?thesis by auto
    next
      assume "(a, w, b) = (fa x, fw x, fb x)"
      then have "pg_edge G g2 k = Some (a, b, w)" using g2(4) by simp
      with k show ?thesis by blast
    qed
  qed
  then have "weighted_arcs G g' = {(a, w, b). \<exists>i. i \<notin> fid ` set (x # xs) \<and> pg_edge G g i = Some (a, b, w)}
       \<union> (\<lambda>x. (fa x, fw x, fb x)) ` set (x # xs)"
    unfolding g'(4) by auto
  moreover have "fold_opt (\<lambda>x. move_edge G (fa x) (fb x) (fw x) (fid x)) (x # xs) g = Some g'"
    using g'(1) by (simp add: move_edge_def rem add)
  ultimately show ?case using g' g2(2) by auto
qed

lemma distinct_edges_directed:
  assumes "ok g"
  shows "distinct (map fst (edges_directed G g n d))"
proof -
  have *: "map fst (concat (map (edge_ref G g) is)) = is" if "\<forall>i \<in> set is. pg_edge G g i \<noteq> None" for "is"
    using that by (induction "is") (auto simp: edge_ref_def)
  have "map fst (edges_directed G g n d) = pg_edges_directed G g n d"
    using edges_directed_laws [OF assms, of n d] unfolding edges_directed_def by (intro *) auto
  then show ?thesis using edges_directed_laws [OF assms, of n d] by simp
qed

lemma redirect_arcs:
  fixes E :: "nat \<Rightarrow> (nat \<times> nat \<times> 'b) option"
  shows "{(a, w, b). \<exists>i. i \<notin> fst ` {(i, a, b, w). E i = Some (a, b, w) \<and> P a b} \<and> E i = Some (a, b, w)}
      \<union> (\<lambda>(i, a, b, w). r a w b) ` {(i, a, b, w). E i = Some (a, b, w) \<and> P a b}
    = (\<lambda>(a, w, b). if P a b then r a w b else (a, w, b)) ` {(a, w, b). \<exists>i. E i = Some (a, b, w)}"
    (is "?L \<union> ?M = ?f ` ?A")
proof (rule set_eqI)
  fix x
  have ids: "i \<in> fst ` {(i, a, b, w). E i = Some (a, b, w) \<and> P a b} \<longleftrightarrow> (\<exists>a b w. E i = Some (a, b, w) \<and> P a b)" for i
    by force
  have "x \<in> ?L \<union> ?M \<longleftrightarrow> (\<exists>i a b w. E i = Some (a, b, w) \<and> (if P a b then x = r a w b else x = (a, w, b)))"
    unfolding ids by (force split: if_splits)
  also have "\<dots> \<longleftrightarrow> x \<in> ?f ` ?A" by (force simp: image_iff split: if_splits)
  finally show "x \<in> ?L \<union> ?M \<longleftrightarrow> x \<in> ?f ` ?A" .
qed

lemma move_incoming:
  assumes g: "ok g" and ex: "pg_node_weight G g ex \<noteq> None"
  shows "\<exists>g'. fold_opt (\<lambda>(edge_id, source_node, _, w). move_edge G source_node ex w edge_id)
      (edges_directed G g n Incoming) g = Some g' \<and> ok g'
    \<and> pg_node_weight G g' = pg_node_weight G g
    \<and> weighted_arcs G g' = (\<lambda>(a, w, b). (a, w, if b = n then ex else b)) ` weighted_arcs G g"
proof -
  let ?xs = "edges_directed G g n Incoming"
  have xs: "set ?xs = {(i, a, b, w). pg_edge G g i = Some (a, b, w) \<and> b = n}"
    using set_edges_directed [OF g] by simp
  have f: "(\<lambda>(edge_id, source_node, _, w). move_edge G source_node ex w edge_id)
      = (\<lambda>x. move_edge G (fst (snd x)) ex (snd (snd (snd x))) (fst x))" by auto
  have "\<forall>x \<in> set ?xs. pg_edge G g (fst x) \<noteq> None" unfolding xs by auto
  moreover have "\<forall>x \<in> set ?xs. pg_node_weight G g (fst (snd x)) \<noteq> None \<and> pg_node_weight G g ex \<noteq> None"
    unfolding xs using edge_ends [OF g] ex by auto
  moreover have "distinct (map fst ?xs)" by (rule distinct_edges_directed [OF g])
  ultimately obtain g' where g': "fold_opt (\<lambda>x. move_edge G (fst (snd x)) ex (snd (snd (snd x))) (fst x)) ?xs g = Some g'"
    "ok g'" "pg_node_weight G g' = pg_node_weight G g"
    "weighted_arcs G g' = {(a, w, b). \<exists>i. i \<notin> fst ` set ?xs \<and> pg_edge G g i = Some (a, b, w)}
       \<union> (\<lambda>x. (fst (snd x), snd (snd (snd x)), ex)) ` set ?xs"
    using move_loop_spec [OF g, of fst ?xs "\<lambda>x. fst (snd x)" "\<lambda>_. ex" "\<lambda>x. snd (snd (snd x))"] by blast
  have "weighted_arcs G g' = (\<lambda>(a, w, b). (a, w, if b = n then ex else b)) ` weighted_arcs G g"
  proof -
    have h: "(\<lambda>x. (fst (snd x), snd (snd (snd x)), ex)) = (\<lambda>(i, a, b, w). (a, w, ex))" by auto
    have k: "(\<lambda>(a, w, b). if b = n then (a, w, ex) else (a, w, b)) = (\<lambda>(a, w, b). (a, w, if b = n then ex else b))" by auto
    show ?thesis unfolding g'(4) unfolding xs h weighted_arcs_def k [symmetric]
      by (rule redirect_arcs [of "pg_edge G g" "\<lambda>_ b. b = n" "\<lambda>a w _. (a, w, ex)"])
  qed
  with g'(1-3) show ?thesis unfolding f by blast
qed

lemma move_outgoing:
  assumes g: "ok g" and en: "pg_node_weight G g en \<noteq> None"
  shows "\<exists>g'. fold_opt (\<lambda>(edge_id, _, dest_node, w). move_edge G en dest_node w edge_id)
      (edges_directed G g n Outgoing) g = Some g' \<and> ok g'
    \<and> pg_node_weight G g' = pg_node_weight G g
    \<and> weighted_arcs G g' = (\<lambda>(a, w, b). (if a = n then en else a, w, b)) ` weighted_arcs G g"
proof -
  let ?xs = "edges_directed G g n Outgoing"
  have xs: "set ?xs = {(i, a, b, w). pg_edge G g i = Some (a, b, w) \<and> a = n}"
    using set_edges_directed [OF g] by simp
  have f: "(\<lambda>(edge_id, _, dest_node, w). move_edge G en dest_node w edge_id)
      = (\<lambda>x. move_edge G en (fst (snd (snd x))) (snd (snd (snd x))) (fst x))" by auto
  have "\<forall>x \<in> set ?xs. pg_edge G g (fst x) \<noteq> None" unfolding xs by auto
  moreover have "\<forall>x \<in> set ?xs. pg_node_weight G g en \<noteq> None \<and> pg_node_weight G g (fst (snd (snd x))) \<noteq> None"
    unfolding xs using edge_ends [OF g] en by auto
  moreover have "distinct (map fst ?xs)" by (rule distinct_edges_directed [OF g])
  ultimately obtain g' where g': "fold_opt (\<lambda>x. move_edge G en (fst (snd (snd x))) (snd (snd (snd x))) (fst x)) ?xs g = Some g'"
    "ok g'" "pg_node_weight G g' = pg_node_weight G g"
    "weighted_arcs G g' = {(a, w, b). \<exists>i. i \<notin> fst ` set ?xs \<and> pg_edge G g i = Some (a, b, w)}
       \<union> (\<lambda>x. (en, snd (snd (snd x)), fst (snd (snd x)))) ` set ?xs"
    using move_loop_spec [OF g, of fst ?xs "\<lambda>_. en" "\<lambda>x. fst (snd (snd x))" "\<lambda>x. snd (snd (snd x))"] by blast
  have "weighted_arcs G g' = (\<lambda>(a, w, b). (if a = n then en else a, w, b)) ` weighted_arcs G g"
  proof -
    have h: "(\<lambda>x. (en, snd (snd (snd x)), fst (snd (snd x)))) = (\<lambda>(i, a, b, w). (en, w, b))" by auto
    have k: "(\<lambda>(a, w, b). if a = n then (en, w, b) else (a, w, b)) = (\<lambda>(a, w, b). (if a = n then en else a, w, b))" by auto
    show ?thesis unfolding g'(4) unfolding xs h weighted_arcs_def k [symmetric]
      by (rule redirect_arcs [of "pg_edge G g" "\<lambda>a _. a = n" "\<lambda>_ w b. (en, w, b)"])
  qed
  with g'(1-3) show ?thesis unfolding f by blast
qed

text \<open>
  The graph after the replacement of the node \<open>n\<close>: its incoming edges go to the exit node, its
  outgoing ones leave the entry node, and two edges join the new nodes to the automaton's ends.
\<close>

lemma replace_nodes_spec:
  assumes g: "ok (grph fsa)" and n: "pg_node_weight G (grph fsa) n = Some (Tv t)"
    and s: "fsa_mp fsa Start = Some s" "pg_node_weight G (grph fsa) s = Some Start"
    and e: "cant_pop_nodes fsa End = Some e" "pg_node_weight G (grph fsa) e = Some End"
  shows "\<exists>fsa' en ex. replace_nodes_with_interesting_variable G n tv fsa = Some fsa' \<and> ok (grph fsa')
    \<and> pg_node_weight G (grph fsa) en = None \<and> pg_node_weight G (grph fsa) ex = None \<and> en \<noteq> ex
    \<and> pg_node_weight G (grph fsa') = (pg_node_weight G (grph fsa))
        (en \<mapsto> loop_breaker_state tv Lhs (cs_variance (base_var t)),
         ex \<mapsto> loop_breaker_state tv Rhs (cs_variance (base_var t)))
    \<and> weighted_arcs G (grph fsa') =
        (\<lambda>(a, w, b). (if a = n then en else a, w, if b = n then ex else b)) ` weighted_arcs G (grph fsa)
        \<union> {(s, Pop (IV_Symbol \<lparr>iv_tv = tv, iv_dir = Lhs\<rparr> (cs_variance (base_var t))), en),
           (ex, Push (IV_Symbol \<lparr>iv_tv = tv, iv_dir = Rhs\<rparr> (cs_variance (base_var t))), e)}"
proof -
  let ?v = "cs_variance (base_var t)"
  let ?en = "loop_breaker_state tv Lhs ?v" and ?ex = "loop_breaker_state tv Rhs ?v"
  let ?pop = "Pop (IV_Symbol \<lparr>iv_tv = tv, iv_dir = Lhs\<rparr> ?v)"
  let ?push = "Push (IV_Symbol \<lparr>iv_tv = tv, iv_dir = Rhs\<rparr> ?v)"
  obtain en g1 where a1: "pg_add_node G ?en (grph fsa) = (en, g1)" by force
  note g1 = add_node_laws [OF g a1]
  obtain ex g2 where a2: "pg_add_node G ?ex g1 = (ex, g2)" by force
  note g2 = add_node_laws [OF g1 [THEN conjunct1] a2]
  have w2: "pg_node_weight G g2 = (pg_node_weight G (grph fsa))(en \<mapsto> ?en, ex \<mapsto> ?ex)"
    "pg_node_weight G (grph fsa) en = None" "pg_node_weight G (grph fsa) ex = None" "en \<noteq> ex"
    using g1 g2 by (auto split: if_splits)
  have ends: "s \<noteq> en" "s \<noteq> ex" "e \<noteq> en" "e \<noteq> ex" "n \<noteq> en" "n \<noteq> ex" "s \<noteq> n" "e \<noteq> n"
    using w2 n s(2) e(2) by auto
  have ok2: "ok g2" using g2 by simp
  have some2: "pg_node_weight G g2 s \<noteq> None" "pg_node_weight G g2 e \<noteq> None"
    "pg_node_weight G g2 en \<noteq> None" "pg_node_weight G g2 ex \<noteq> None"
    unfolding w2(1) using s e by simp_all
  obtain i3 g3 where a3: "pg_add_edge G s en ?pop g2 = Some (i3, g3)"
    using add_edge_None [OF ok2, of s en ?pop] some2 by (metis not_None_eq prod.collapse)
  have g3: "ok g3" "pg_node_weight G g3 = pg_node_weight G g2"
    "weighted_arcs G g3 = insert (s, ?pop, en) (weighted_arcs G g2)"
    using add_edge_laws [OF ok2 a3] weighted_arcs_add [OF ok2 a3] by simp_all
  obtain i4 g4 where a4: "pg_add_edge G ex e ?push g3 = Some (i4, g4)"
    using add_edge_None [OF g3(1), of ex e ?push] some2 g3(2) by (metis not_None_eq prod.collapse)
  have g4: "ok g4" "pg_node_weight G g4 = pg_node_weight G g2"
    "weighted_arcs G g4 = insert (ex, ?push, e) (insert (s, ?pop, en) (weighted_arcs G g2))"
    using add_edge_laws [OF g3(1) a4] weighted_arcs_add [OF g3(1) a4] g3 by simp_all
  have arcs2: "weighted_arcs G g2 = weighted_arcs G (grph fsa)"
    using g1 g2 by (simp add: weighted_arcs_def)
  obtain g5 where g5: "fold_opt (\<lambda>(edge_id, source_node, _, w). move_edge G source_node ex w edge_id)
      (edges_directed G g4 n Incoming) g4 = Some g5" "ok g5" "pg_node_weight G g5 = pg_node_weight G g4"
    "weighted_arcs G g5 = (\<lambda>(a, w, b). (a, w, if b = n then ex else b)) ` weighted_arcs G g4"
    using move_incoming [OF g4(1), of ex n] g4(2) some2 by auto
  obtain g6 where g6: "fold_opt (\<lambda>(edge_id, _, dest_node, w). move_edge G en dest_node w edge_id)
      (edges_directed G g5 n Outgoing) g5 = Some g6" "ok g6" "pg_node_weight G g6 = pg_node_weight G g5"
    "weighted_arcs G g6 = (\<lambda>(a, w, b). (if a = n then en else a, w, b)) ` weighted_arcs G g5"
    using move_outgoing [OF g5(2), of en n] g5(3) g4(2) some2 by auto
  let ?fsa = "\<lparr>grph = g6, fsa_mp = (fsa_mp fsa)(?en \<mapsto> en), cant_pop_nodes = (cant_pop_nodes fsa)(?ex \<mapsto> ex)\<rparr>"
  have maps: "Start \<noteq> ?en" "End \<noteq> ?ex" by (simp_all add: loop_breaker_state_def)
  have "replace_nodes_with_interesting_variable G n tv fsa = Some ?fsa"
    by (simp add: replace_nodes_with_interesting_variable_def n a1 a2 a3 a4 g5(1) g6(1) maps s(1) e(1) Let_def)
  moreover have "weighted_arcs G g6 =
        (\<lambda>(a, w, b). (if a = n then en else a, w, if b = n then ex else b)) ` weighted_arcs G (grph fsa)
        \<union> {(s, ?pop, en), (ex, ?push, e)}"
    (is "_ = ?f ` _ \<union> _")
  proof -
    have "weighted_arcs G g6 = ?f ` weighted_arcs G g4"
      unfolding g6(4) g5(4) image_image by (rule image_cong) auto
    then show ?thesis unfolding g4(3) arcs2 using ends by (simp add: insert_commute)
  qed
  ultimately show ?thesis
    using g6(2,3) g5(3) g4(2) w2 by (intro exI [of _ ?fsa] exI [of _ en] exI [of _ ex]) simp
qed

end

text \<open>
  C37: replacing a state of a strongly connected component by a loop breaker never panics, adds
  exactly an entry and an exit state for the fresh variable, redirects every incoming edge of the
  state to the exit and every outgoing edge to the entry, and joins the two to the ends of the
  automaton, leaving the other edges as they are.
\<close>

theorem replace_nodes_cuts:
  assumes "fsa_graph G ok" "ok (grph fsa)" "pg_node_weight G (grph fsa) n = Some (Tv t)"
    and "fsa_mp fsa Start = Some s" "pg_node_weight G (grph fsa) s = Some Start"
    and "cant_pop_nodes fsa End = Some e" "pg_node_weight G (grph fsa) e = Some End"
  shows "\<exists>fsa' en ex. replace_nodes_with_interesting_variable G n tv fsa = Some fsa' \<and> ok (grph fsa')
    \<and> pg_node_weight G (grph fsa) en = None \<and> pg_node_weight G (grph fsa) ex = None \<and> en \<noteq> ex
    \<and> pg_node_weight G (grph fsa') = (pg_node_weight G (grph fsa))
        (en \<mapsto> loop_breaker_state tv Lhs (cs_variance (base_var t)),
         ex \<mapsto> loop_breaker_state tv Rhs (cs_variance (base_var t)))
    \<and> weighted_arcs G (grph fsa') =
        (\<lambda>(a, w, b). (if a = n then en else a, w, if b = n then ex else b)) ` weighted_arcs G (grph fsa)
        \<union> {(s, Pop (IV_Symbol \<lparr>iv_tv = tv, iv_dir = Lhs\<rparr> (cs_variance (base_var t))), en),
           (ex, Push (IV_Symbol \<lparr>iv_tv = tv, iv_dir = Rhs\<rparr> (cs_variance (base_var t))), e)}"
  by (rule fsa_graph.replace_nodes_spec [OF assms])

section \<open>A concrete loop\<close>

text \<open>Three nodes: the ends of the automaton and a state with an edge to itself.\<close>

definition loop_node :: "nat type_var_node" where
  "loop_node = \<lparr>base_var = \<lparr>dt_var = Uninteresting (tv_new ''x''), cs_variance = Covariant\<rparr>,
     access_path = []\<rparr>"

definition loop_fsa :: "((nat finite_state, nat fsa_edge) list_graph, nat) fsa" where
  "loop_fsa = \<lparr>grph = \<lparr>lg_nodes = [(0, Start), (1, Tv loop_node), (2, End)],
        lg_edges = [(0, 1, 1, Success)], lg_next_node = 3, lg_next_edge = 1\<rparr>,
      fsa_mp = [Start \<mapsto> 0, Tv loop_node \<mapsto> 1], cant_pop_nodes = [End \<mapsto> 2]\<rparr>"

lemma loop_fsa_ok: "lg_ok (grph loop_fsa)"
  by (auto simp: loop_fsa_def lg_ok_def split: if_splits)

theorem select_an_entry_repr_total_witness:
  "\<exists>n d. select_an_entry_repr list_digraph loop_fsa {1} = Some n \<and> n \<in> {1}
    \<and> root_of list_digraph loop_fsa n = Some d
    \<and> (\<forall>m \<in> {1}. \<forall>e. root_of list_digraph loop_fsa m = Some e \<longrightarrow> \<not> is_prefix_of e d)"
  by (rule select_an_entry_repr_total)
    (simp_all add: root_of_def loop_fsa_def list_digraph_def get_root_type_var_def)

theorem replace_nodes_cuts_witness:
  "\<exists>fsa' en ex. replace_nodes_with_interesting_variable list_digraph 1 (tv_new ''b'') loop_fsa = Some fsa'
    \<and> lg_ok (grph fsa')
    \<and> pg_node_weight list_digraph (grph loop_fsa) en = None
    \<and> pg_node_weight list_digraph (grph loop_fsa) ex = None \<and> en \<noteq> ex
    \<and> pg_node_weight list_digraph (grph fsa') = (pg_node_weight list_digraph (grph loop_fsa))
        (en \<mapsto> loop_breaker_state (tv_new ''b'') Lhs (cs_variance (base_var loop_node)),
         ex \<mapsto> loop_breaker_state (tv_new ''b'') Rhs (cs_variance (base_var loop_node)))
    \<and> weighted_arcs list_digraph (grph fsa') =
        (\<lambda>(a, w, b). (if a = 1 then en else a, w, if b = 1 then ex else b))
          ` weighted_arcs list_digraph (grph loop_fsa)
        \<union> {(0, Pop (IV_Symbol \<lparr>iv_tv = tv_new ''b'', iv_dir = Lhs\<rparr> (cs_variance (base_var loop_node))), en),
           (ex, Push (IV_Symbol \<lparr>iv_tv = tv_new ''b'', iv_dir = Rhs\<rparr> (cs_variance (base_var loop_node))), 2)}"
  by (rule replace_nodes_cuts [OF list_fsa.fsa_graph_axioms loop_fsa_ok])
    (simp_all add: loop_fsa_def list_digraph_def)

end
