(* ===== verification/MappingGraph.thy ===== *)
theory MappingGraph
  imports GraphAlgos
begin

text \<open>
  The graph of \<^verbatim>\<open>src/graph_algos/mapping_graph.rs\<close>: a stable directed graph whose
  nodes carry names.  \<open>mg_nodes\<close> finds the node of a name and \<open>mg_reprs\<close> the set of names of a
  node; the two directions agree, which is the invariant \<open>mg_ok\<close> kept by every operation.
  The argument \<open>opr\<close> is the magma operation that merges two weights
  (\<^verbatim>\<open>AbstractMagma::operate\<close>), and \<open>hord\<close> the order in which a hash map hands out its
  keys.
\<close>

record ('g, 'n) mapping_graph =
  mg_grph :: 'g
  mg_nodes :: "'n \<Rightarrow> nat option"
  mg_reprs :: "nat \<Rightarrow> 'n set option"

definition mg_new :: "('g, 'w, 'e) petgraph \<Rightarrow> ('g, 'n) mapping_graph" where
  "mg_new G = \<lparr>mg_grph = pg_new G, mg_nodes = Map.empty, mg_reprs = Map.empty\<rparr>"

definition from_dfa_and_labeling :: "'g \<Rightarrow> ('g, 'n) mapping_graph" where
  "from_dfa_and_labeling dfa = \<lparr>mg_grph = dfa, mg_nodes = Map.empty, mg_reprs = Map.empty\<rparr>"

definition get_group_for_node :: "('g, 'n) mapping_graph \<Rightarrow> nat \<Rightarrow> 'n set" where
  "get_group_for_node m idx = (case mg_reprs m idx of Some s \<Rightarrow> s | None \<Rightarrow> {})"

definition mg_get_node :: "('g, 'n) mapping_graph \<Rightarrow> 'n \<Rightarrow> nat option" where
  "mg_get_node m wt = mg_nodes m wt"

section \<open>Reachable parts\<close>

definition remove_nodes_unreachable_from_label ::
    "('g, 'w, 'e) petgraph \<Rightarrow> ('g, 'n) mapping_graph \<Rightarrow> ('g, 'n) mapping_graph" where
  "remove_nodes_unreachable_from_label G m =
     (let reached = set (pg_dfs G (mg_grph m) (sorted_list_of_set (ran (mg_nodes m))))
      in m\<lparr>mg_grph := foldl (\<lambda>g idx. snd (pg_remove_node G idx g)) (mg_grph m)
             (filter (\<lambda>x. x \<notin> reached) (pg_node_indices G (mg_grph m)))\<rparr>)"

definition mg_reachable_idxs :: "('g, 'w, 'e) petgraph \<Rightarrow> ('g, 'n) mapping_graph \<Rightarrow> nat \<Rightarrow> nat set" where
  "mg_reachable_idxs G m idx = set (pg_dfs G (mg_grph m) [idx])"

definition get_reachable_subgraph ::
    "('g, 'w, 'e) petgraph \<Rightarrow> ('g, 'n) mapping_graph \<Rightarrow> nat \<Rightarrow> ('g, 'n) mapping_graph" where
  "get_reachable_subgraph G m idx =
     (let reachable_idxs = mg_reachable_idxs G m idx
      in \<lparr>mg_grph = pg_filter_nodes G (\<lambda>i. i \<in> reachable_idxs) (mg_grph m),
          mg_nodes = (\<lambda>k. case mg_nodes m k of
              Some v \<Rightarrow> if v \<in> reachable_idxs then Some v else None | None \<Rightarrow> None),
          mg_reprs = (\<lambda>i. if i \<in> reachable_idxs then mg_reprs m i else None)\<rparr>)"

section \<open>Adding\<close>

definition edges_between :: "('g, 'w, 'e) petgraph \<Rightarrow> ('g, 'n) mapping_graph \<Rightarrow> nat \<Rightarrow> nat \<Rightarrow> nat list" where
  "edges_between G m a b =
     map fst (filter (\<lambda>(_, _, t, _). t = b) (edges_directed G (mg_grph m) a Outgoing))"

definition mg_add_edge ::
    "('g, 'w, 'e) petgraph \<Rightarrow> nat \<Rightarrow> nat \<Rightarrow> 'e \<Rightarrow> ('g, 'n) mapping_graph \<Rightarrow>
     (bool \<times> ('g, 'n) mapping_graph) option" where
  "mg_add_edge G a b e m =
     (if \<not> list_ex (\<lambda>x. edge_weight G (mg_grph m) x = Some e) (edges_between G m a b) then
        map_option (\<lambda>(_, g). (True, m\<lparr>mg_grph := g\<rparr>)) (pg_add_edge G a b e (mg_grph m))
      else Some (False, m))"

definition mg_add_node ::
    "('g, 'w, 'e) petgraph \<Rightarrow> ('w \<Rightarrow> 'w \<Rightarrow> 'w) \<Rightarrow> 'n \<Rightarrow> 'w \<Rightarrow> ('g, 'n) mapping_graph \<Rightarrow>
     (nat \<times> ('g, 'n) mapping_graph) option" where
  "mg_add_node G opr key weight m =
     (case mg_nodes m key of
        Some x \<Rightarrow> map_option (\<lambda>old_weight.
            (x, m\<lparr>mg_grph := pg_set_node_weight G x (opr old_weight weight) (mg_grph m)\<rparr>))
          (pg_node_weight G (mg_grph m) x)
      | None \<Rightarrow>
          (let (nd, g) = pg_add_node G weight (mg_grph m)
           in Some (nd, m\<lparr>mg_grph := g, mg_nodes := (mg_nodes m)(key \<mapsto> nd),
                mg_reprs := (mg_reprs m)(nd \<mapsto> insert key (get_group_for_node m nd))\<rparr>)))"

section \<open>Merging two nodes\<close>

definition update_all_children_of_idx_to ::
    "nat \<Rightarrow> nat \<Rightarrow> ('g, 'n) mapping_graph \<Rightarrow> ('g, 'n) mapping_graph" where
  "update_all_children_of_idx_to old_idx new_idx m =
     (let old_set = get_group_for_node m old_idx;
          m1 = m\<lparr>mg_reprs := (mg_reprs m)(old_idx \<mapsto> old_set)\<rparr>;
          new_set = get_group_for_node m1 new_idx
      in m1\<lparr>mg_nodes := (\<lambda>v. if v \<in> old_set then Some new_idx else mg_nodes m v),
            mg_reprs := ((mg_reprs m1)(new_idx \<mapsto> new_set \<union> old_set))(old_idx := None)\<rparr>)"

definition copy_edges_to ::
    "('g, 'w, 'e) petgraph \<Rightarrow> nat \<Rightarrow> nat \<Rightarrow> pg_direction \<Rightarrow> ('g, 'n) mapping_graph \<Rightarrow>
     ('g, 'n) mapping_graph option" where
  "copy_edges_to G n new_idx d m =
     fold_opt (\<lambda>(_, src, dst, weight) m. map_option snd
         (case d of Outgoing \<Rightarrow> mg_add_edge G new_idx dst weight m
          | Incoming \<Rightarrow> mg_add_edge G src new_idx weight m))
       (edges_directed G (mg_grph m) n d) m"

definition merge_nodes ::
    "('g, 'w, 'e) petgraph \<Rightarrow> ('w \<Rightarrow> 'w \<Rightarrow> 'w) \<Rightarrow> 'n \<Rightarrow> 'n \<Rightarrow> ('g, 'n) mapping_graph \<Rightarrow>
     ('g, 'n) mapping_graph option" where
  "merge_nodes G opr key1 key2 m =
     (case (mg_nodes m key1, mg_nodes m key2) of
        (None, None) \<Rightarrow> Some m
      | (None, Some x) \<Rightarrow> Some (m\<lparr>mg_nodes := (mg_nodes m)(key1 \<mapsto> x),
            mg_reprs := (mg_reprs m)(x \<mapsto> insert key1 (get_group_for_node m x))\<rparr>)
      | (Some x, None) \<Rightarrow> Some (m\<lparr>mg_nodes := (mg_nodes m)(key2 \<mapsto> x),
            mg_reprs := (mg_reprs m)(x \<mapsto> insert key2 (get_group_for_node m x))\<rparr>)
      | (Some f, Some s) \<Rightarrow>
          (if f \<noteq> s then
             do { wf \<leftarrow> pg_node_weight G (mg_grph m) f;
                  ws \<leftarrow> pg_node_weight G (mg_grph m) s;
                  let (new_idx, g) = pg_add_node G (opr wf ws) (mg_grph m);
                      m1 = update_all_children_of_idx_to f new_idx (m\<lparr>mg_grph := g\<rparr>);
                      m2 = update_all_children_of_idx_to s new_idx m1
                  in do { m3 \<leftarrow> copy_edges_to G f new_idx Outgoing m2;
                          m4 \<leftarrow> copy_edges_to G f new_idx Incoming m3;
                          m5 \<leftarrow> copy_edges_to G s new_idx Outgoing m4;
                          m6 \<leftarrow> copy_edges_to G s new_idx Incoming m5;
                          Some (m6\<lparr>mg_grph := snd (pg_remove_node G s (snd (pg_remove_node G f (mg_grph m6))))\<rparr>) } }
           else Some m))"

section \<open>Removing\<close>

definition mg_remove_node_by_idx ::
    "('g, 'w, 'e) petgraph \<Rightarrow> nat \<Rightarrow> ('g, 'n) mapping_graph \<Rightarrow> 'w option \<times> ('g, 'n) mapping_graph" where
  "mg_remove_node_by_idx G idx m =
     (let nd_set = get_group_for_node m idx;
          (w, g) = pg_remove_node G idx (mg_grph m)
      in (w, \<lparr>mg_grph = g,
              mg_nodes = (\<lambda>n. if n \<in> nd_set then None else mg_nodes m n),
              mg_reprs = (mg_reprs m)(idx := None)\<rparr>))"

text \<open>The outer option is the panic, the inner one the result of the operation.\<close>

definition mg_remove_node ::
    "('g, 'w, 'e) petgraph \<Rightarrow> 'n \<Rightarrow> ('g, 'n) mapping_graph \<Rightarrow>
     ('w option \<times> ('g, 'n) mapping_graph) option" where
  "mg_remove_node G node m =
     (case mg_nodes m node of
        None \<Rightarrow> Some (None, m)
      | Some idx \<Rightarrow>
          do { mapping \<leftarrow> mg_reprs m idx;
               wt \<leftarrow> pg_node_weight G (mg_grph m) idx;
               let mapping' = mapping - {node};
                   m1 = m\<lparr>mg_reprs := (mg_reprs m)(idx \<mapsto> mapping'), mg_nodes := (mg_nodes m)(node := None)\<rparr>
               in Some (Some wt,
                    if mapping' = {}
                    then m1\<lparr>mg_reprs := (mg_reprs m1)(idx := None), mg_grph := snd (pg_remove_node G idx (mg_grph m1))\<rparr>
                    else m1) })"

section \<open>Relabelling\<close>

definition names_of :: "('n \<Rightarrow> nat option) \<Rightarrow> nat \<Rightarrow> 'n set option" where
  "names_of mp idx = (if idx \<in> ran mp then Some {n. mp n = Some idx} else None)"

definition inplace_relable_representative_nodes ::
    "('n \<Rightarrow> nat option) \<Rightarrow> ('g, 'n) mapping_graph \<Rightarrow> ('g, 'n) mapping_graph" where
  "inplace_relable_representative_nodes mp m = m\<lparr>mg_nodes := mp, mg_reprs := names_of mp\<rparr>"

definition relable_representative_nodes ::
    "('g, 'n) mapping_graph \<Rightarrow> ('n \<Rightarrow> nat option) \<Rightarrow> ('g, 'n) mapping_graph" where
  "relable_representative_nodes m mp = inplace_relable_representative_nodes mp m"

section \<open>The quotient\<close>

text \<open>The position of the last group that contains a node, as a hash map collects the pairs.\<close>

fun repr_mapping :: "nat \<Rightarrow> nat set list \<Rightarrow> nat \<Rightarrow> nat option" where
  "repr_mapping i [] n = None"
| "repr_mapping i (s # ss) n =
     (case repr_mapping (Suc i) ss n of
        Some j \<Rightarrow> Some j
      | None \<Rightarrow> if n \<in> s then Some i else None)"

definition group_weight ::
    "('g, 'w, 'e) petgraph \<Rightarrow> ('w \<Rightarrow> 'w \<Rightarrow> 'w) \<Rightarrow> 'g \<Rightarrow> nat set \<Rightarrow> 'w option" where
  "group_weight G opr g grp =
     (case traverse (pg_node_weight G g) (sorted_list_of_set grp) of
        Some (w # ws) \<Rightarrow> Some (foldl opr w ws)
      | _ \<Rightarrow> None)"

fun quotient_nodes ::
    "('g, 'w, 'e) petgraph \<Rightarrow> ('w \<Rightarrow> 'w \<Rightarrow> 'w) \<Rightarrow> 'g \<Rightarrow> nat \<Rightarrow> nat set list \<Rightarrow>
     (nat \<Rightarrow> nat option) \<times> 'g \<Rightarrow> ((nat \<Rightarrow> nat option) \<times> 'g) option" where
  "quotient_nodes G opr g i [] st = Some st"
| "quotient_nodes G opr g i (grp # grps) (mp, nd) =
     (if grp = {} then quotient_nodes G opr g (Suc i) grps (mp, nd)
      else do { new_weight \<leftarrow> group_weight G opr g grp;
                let (new_node_repr, nd') = pg_add_node G new_weight nd
                in quotient_nodes G opr g (Suc i) grps (mp(i \<mapsto> new_node_repr), nd') })"

definition quotient_edge ::
    "('g, 'w, 'e) petgraph \<Rightarrow> (nat \<Rightarrow> nat option) \<Rightarrow> 'e edge_ref \<Rightarrow>
     'g \<times> (nat \<times> nat \<times> 'e) set \<Rightarrow> ('g \<times> (nat \<times> nat \<times> 'e) set) option" where
  "quotient_edge G f edge st =
     (case (edge, st) of ((_, a, b, w), (nd, eset)) \<Rightarrow>
        do { repr_src \<leftarrow> f a;
             repr_dst \<leftarrow> f b;
             if (repr_src, repr_dst, w) \<notin> eset
             then map_option (\<lambda>(_, nd'). (nd', insert (repr_src, repr_dst, w) eset))
                    (pg_add_edge G repr_src repr_dst w nd)
             else Some (nd, eset) })"

definition quoetient_graph ::
    "('g, 'w, 'e) petgraph \<Rightarrow> ('w \<Rightarrow> 'w \<Rightarrow> 'w) \<Rightarrow> nat set list \<Rightarrow> ('g, 'n) mapping_graph \<Rightarrow>
     ('g, 'n) mapping_graph option" where
  "quoetient_graph G opr groups m =
     do { (group_to_new_node, nd) \<leftarrow> quotient_nodes G opr (mg_grph m) 0 groups (Map.empty, pg_new G);
          let f = (\<lambda>n. Option.bind (repr_mapping 0 groups n) group_to_new_node)
          in do { (nd', _) \<leftarrow> fold_opt (quotient_edge G f) (edge_references G (mg_grph m)) (nd, {});
                  if \<exists>y \<in> ran (mg_nodes m). f y = None then None
                  else (let new_mapping = (\<lambda>n. Option.bind (mg_nodes m n) f)
                        in Some \<lparr>mg_grph = nd', mg_nodes = new_mapping, mg_reprs = names_of new_mapping\<rparr>) } }"

section \<open>The invariant\<close>

definition mg_ok ::
    "('g, 'w, 'e) petgraph \<Rightarrow> ('g \<Rightarrow> bool) \<Rightarrow> ('g, 'n) mapping_graph \<Rightarrow> bool" where
  "mg_ok G ok m \<longleftrightarrow> ok (mg_grph m) \<and> finite (dom (mg_nodes m))
     \<and> (\<forall>n i. n \<in> get_group_for_node m i \<longleftrightarrow> mg_nodes m n = Some i)
     \<and> (\<forall>n i. mg_nodes m n = Some i \<longrightarrow> pg_node_weight G (mg_grph m) i \<noteq> None)"

lemma mg_okD:
  assumes "mg_ok G ok m"
  shows "ok (mg_grph m)" "finite (dom (mg_nodes m))"
    "n \<in> get_group_for_node m i \<longleftrightarrow> mg_nodes m n = Some i"
    "mg_nodes m n = Some i \<Longrightarrow> pg_node_weight G (mg_grph m) i \<noteq> None"
  using assms unfolding mg_ok_def by blast+

lemma mg_okI:
  assumes "ok (mg_grph m)" "finite (dom (mg_nodes m))"
    "\<And>n i. n \<in> get_group_for_node m i \<longleftrightarrow> mg_nodes m n = Some i"
    "\<And>n i. mg_nodes m n = Some i \<Longrightarrow> pg_node_weight G (mg_grph m) i \<noteq> None"
  shows "mg_ok G ok m"
  using assms unfolding mg_ok_def by blast

text \<open>No two edges with the same ends and the same weight.\<close>

definition no_parallel :: "('g, 'w, 'e) petgraph \<Rightarrow> 'g \<Rightarrow> bool" where
  "no_parallel G g \<longleftrightarrow> (\<forall>i j e. pg_edge G g i = Some e \<longrightarrow> pg_edge G g j = Some e \<longrightarrow> i = j)"

lemma get_group_simps:
  "get_group_for_node \<lparr>mg_grph = g, mg_nodes = ns, mg_reprs = rs\<rparr> i = (case rs i of Some s \<Rightarrow> s | None \<Rightarrow> {})"
  "get_group_for_node (m\<lparr>mg_grph := g\<rparr>) i = get_group_for_node m i"
  "get_group_for_node (m\<lparr>mg_nodes := ns\<rparr>) i = get_group_for_node m i"
  "get_group_for_node (m\<lparr>mg_reprs := rs\<rparr>) i = (case rs i of Some s \<Rightarrow> s | None \<Rightarrow> {})"
  by (simp_all add: get_group_for_node_def)

lemma names_of_group:
  "(case names_of mp i of Some s \<Rightarrow> s | None \<Rightarrow> {}) = {n. mp n = Some i}"
  by (auto simp: names_of_def ran_def)

context stable_digraph
begin

lemma mg_ok_new: "mg_ok G ok (mg_new G)"
  by (rule mg_okI) (simp_all add: mg_new_def new_graph get_group_simps)

lemma mg_ok_relabel:
  "ok (mg_grph m) \<Longrightarrow> finite (dom mp) \<Longrightarrow> (\<And>n i. mp n = Some i \<Longrightarrow> pg_node_weight G (mg_grph m) i \<noteq> None) \<Longrightarrow>
   mg_ok G ok (inplace_relable_representative_nodes mp m)"
  by (rule mg_okI)
    (simp_all add: inplace_relable_representative_nodes_def get_group_simps names_of_group)

lemma edges_between_iff:
  assumes "ok (mg_grph m)"
  shows "list_ex (\<lambda>x. edge_weight G (mg_grph m) x = Some e) (edges_between G m a b)
    \<longleftrightarrow> (a, e, b) \<in> weighted_arcs G (mg_grph m)"
  using set_edges_directed [OF assms, of a Outgoing]
  by (force simp: list_ex_iff edges_between_def edge_weight_def weighted_arcs_def)

lemma mg_add_edge_spec:
  assumes m: "mg_ok G ok m"
    and ab: "pg_node_weight G (mg_grph m) a \<noteq> None" "pg_node_weight G (mg_grph m) b \<noteq> None"
  shows "\<exists>g'. mg_add_edge G a b e m = Some ((a, e, b) \<notin> weighted_arcs G (mg_grph m), m\<lparr>mg_grph := g'\<rparr>)
    \<and> mg_ok G ok (m\<lparr>mg_grph := g'\<rparr>) \<and> pg_node_weight G g' = pg_node_weight G (mg_grph m)
    \<and> weighted_arcs G g' = insert (a, e, b) (weighted_arcs G (mg_grph m))
    \<and> (no_parallel G (mg_grph m) \<longrightarrow> no_parallel G g')"
proof -
  note okg = mg_okD(1) [OF m]
  show ?thesis
  proof (cases "(a, e, b) \<in> weighted_arcs G (mg_grph m)")
    case True
    then have "mg_add_edge G a b e m = Some (False, m)"
      by (simp add: mg_add_edge_def edges_between_iff [OF okg])
    with True m show ?thesis by (intro exI [of _ "mg_grph m"]) (simp add: insert_absorb)
  next
    case False
    obtain i g' where add: "pg_add_edge G a b e (mg_grph m) = Some (i, g')"
      using add_edge_None [OF okg, of a b e] ab by (metis not_None_eq prod.collapse)
    have g': "ok g'" "pg_edge G (mg_grph m) i = None" "pg_node_weight G g' = pg_node_weight G (mg_grph m)"
      "pg_edge G g' = (pg_edge G (mg_grph m))(i \<mapsto> (a, b, e))"
      using add_edge_laws [OF okg add] by simp_all
    have "mg_add_edge G a b e m = Some (True, m\<lparr>mg_grph := g'\<rparr>)"
      using False by (simp add: mg_add_edge_def edges_between_iff [OF okg] add)
    moreover have "mg_ok G ok (m\<lparr>mg_grph := g'\<rparr>)"
      by (rule mg_okI) (simp_all add: g' mg_okD [OF m] get_group_simps)
    moreover have "no_parallel G g'" if np: "no_parallel G (mg_grph m)"
      unfolding no_parallel_def
    proof (intro allI impI)
      fix x y f
      assume xy: "pg_edge G g' x = Some f" "pg_edge G g' y = Some f"
      have new: "pg_edge G (mg_grph m) z \<noteq> Some (a, b, e)" for z
        using False by (auto simp: weighted_arcs_def)
      have "x = y" if "pg_edge G (mg_grph m) x = Some f" "pg_edge G (mg_grph m) y = Some f"
        using np that unfolding no_parallel_def by blast
      with xy new show "x = y" unfolding g'(4) by (auto split: if_splits)
    qed
    ultimately show ?thesis
      using False g' weighted_arcs_add [OF okg add] by (intro exI [of _ g']) simp
  qed
qed

lemma mg_add_node_spec:
  assumes m: "mg_ok G ok m"
  shows "\<exists>x m'. mg_add_node G opr key w m = Some (x, m') \<and> mg_ok G ok m'
    \<and> mg_nodes m' = (mg_nodes m)(key \<mapsto> x) \<and> pg_edge G (mg_grph m') = pg_edge G (mg_grph m)
    \<and> (case mg_nodes m key of
         Some y \<Rightarrow> x = y \<and> (\<exists>v. pg_node_weight G (mg_grph m) x = Some v
           \<and> pg_node_weight G (mg_grph m') = (pg_node_weight G (mg_grph m))(x \<mapsto> opr v w))
       | None \<Rightarrow> pg_node_weight G (mg_grph m) x = None
           \<and> pg_node_weight G (mg_grph m') = (pg_node_weight G (mg_grph m))(x \<mapsto> w))"
proof (cases "mg_nodes m key")
  case (Some x)
  obtain v where v: "pg_node_weight G (mg_grph m) x = Some v"
    using mg_okD(4) [OF m Some] by blast
  let ?g = "pg_set_node_weight G x (opr v w) (mg_grph m)"
  have g: "ok ?g" "pg_node_weight G ?g = (pg_node_weight G (mg_grph m))(x \<mapsto> opr v w)"
    "pg_edge G ?g = pg_edge G (mg_grph m)"
    using set_node_weight_laws [OF mg_okD(1) [OF m], of x "opr v w"] v by simp_all
  have "mg_ok G ok (m\<lparr>mg_grph := ?g\<rparr>)"
    by (rule mg_okI) (use g(1,2) mg_okD [OF m] in \<open>auto simp: get_group_simps\<close>)
  moreover have "(mg_nodes m)(key \<mapsto> x) = mg_nodes m" using Some by auto
  ultimately show ?thesis
    using Some v g by (intro exI [of _ x] exI [of _ "m\<lparr>mg_grph := ?g\<rparr>"]) (simp add: mg_add_node_def)
next
  case None
  obtain x g where add: "pg_add_node G w (mg_grph m) = (x, g)" by force
  have g: "ok g" "pg_node_weight G (mg_grph m) x = None"
    "pg_node_weight G g = (pg_node_weight G (mg_grph m))(x \<mapsto> w)" "pg_edge G g = pg_edge G (mg_grph m)"
    using add_node_laws [OF mg_okD(1) [OF m] add] by simp_all
  have fresh: "mg_nodes m n \<noteq> Some x" for n using mg_okD(4) [OF m, of n x] g(2) by auto
  then have grp: "get_group_for_node m x = {}" using mg_okD(3) [OF m, of _ x] by auto
  let ?m = "m\<lparr>mg_grph := g, mg_nodes := (mg_nodes m)(key \<mapsto> x),
    mg_reprs := (mg_reprs m)(x \<mapsto> insert key (get_group_for_node m x))\<rparr>"
  have grp': "get_group_for_node ?m i = (if i = x then {key} else get_group_for_node m i)" for i
    using grp by (simp add: get_group_for_node_def)
  have "mg_ok G ok ?m"
  proof (rule mg_okI)
    show "n \<in> get_group_for_node ?m i \<longleftrightarrow> mg_nodes ?m n = Some i" for n i
      using mg_okD(3) [OF m, of n i] None fresh unfolding grp' by auto
  qed (use g(1,3) mg_okD [OF m] in \<open>auto split: if_splits\<close>)
  then show ?thesis
    using None g add by (intro exI [of _ x] exI [of _ ?m]) (simp add: mg_add_node_def)
qed

lemma add_edges_loop:
  "mg_ok G ok m \<Longrightarrow>
   \<forall>x \<in> set xs. pg_node_weight G (mg_grph m) (fa x) \<noteq> None \<and> pg_node_weight G (mg_grph m) (fb x) \<noteq> None \<Longrightarrow>
   \<exists>g'. fold_opt (\<lambda>x m. map_option snd (mg_add_edge G (fa x) (fb x) (fw x) m)) xs m = Some (m\<lparr>mg_grph := g'\<rparr>)
     \<and> mg_ok G ok (m\<lparr>mg_grph := g'\<rparr>) \<and> pg_node_weight G g' = pg_node_weight G (mg_grph m)
     \<and> weighted_arcs G g' = (\<lambda>x. (fa x, fw x, fb x)) ` set xs \<union> weighted_arcs G (mg_grph m)
     \<and> (no_parallel G (mg_grph m) \<longrightarrow> no_parallel G g')"
proof (induction xs arbitrary: m)
  case Nil
  then show ?case by (intro exI [of _ "mg_grph m"]) simp
next
  case (Cons x xs)
  from Cons.prems obtain g1 where g1: "mg_add_edge G (fa x) (fb x) (fw x) m
      = Some ((fa x, fw x, fb x) \<notin> weighted_arcs G (mg_grph m), m\<lparr>mg_grph := g1\<rparr>)"
    "mg_ok G ok (m\<lparr>mg_grph := g1\<rparr>)" "pg_node_weight G g1 = pg_node_weight G (mg_grph m)"
    "weighted_arcs G g1 = insert (fa x, fw x, fb x) (weighted_arcs G (mg_grph m))"
    "no_parallel G (mg_grph m) \<longrightarrow> no_parallel G g1"
    using mg_add_edge_spec [OF Cons.prems(1), of "fa x" "fb x" "fw x"] by auto
  have "\<forall>y \<in> set xs. pg_node_weight G g1 (fa y) \<noteq> None \<and> pg_node_weight G g1 (fb y) \<noteq> None"
    using Cons.prems(2) g1(3) by simp
  then obtain g' where "fold_opt (\<lambda>x m. map_option snd (mg_add_edge G (fa x) (fb x) (fw x) m)) xs
      (m\<lparr>mg_grph := g1\<rparr>) = Some (m\<lparr>mg_grph := g'\<rparr>)"
    "mg_ok G ok (m\<lparr>mg_grph := g'\<rparr>)" "pg_node_weight G g' = pg_node_weight G g1"
    "weighted_arcs G g' = (\<lambda>x. (fa x, fw x, fb x)) ` set xs \<union> weighted_arcs G g1"
    "no_parallel G g1 \<longrightarrow> no_parallel G g'"
    using Cons.IH [OF g1(2)] by auto
  with g1 show ?case by (intro exI [of _ g']) auto
qed

lemma copy_edges_spec:
  assumes m: "mg_ok G ok m" and new: "pg_node_weight G (mg_grph m) k \<noteq> None"
  shows "\<exists>g'. copy_edges_to G n k d m = Some (m\<lparr>mg_grph := g'\<rparr>)
     \<and> mg_ok G ok (m\<lparr>mg_grph := g'\<rparr>) \<and> pg_node_weight G g' = pg_node_weight G (mg_grph m)
     \<and> weighted_arcs G g' = weighted_arcs G (mg_grph m) \<union> (case d of
          Outgoing \<Rightarrow> {(k, w, b) | w b. (n, w, b) \<in> weighted_arcs G (mg_grph m)}
        | Incoming \<Rightarrow> {(a, w, k) | a w. (a, w, n) \<in> weighted_arcs G (mg_grph m)})
     \<and> (no_parallel G (mg_grph m) \<longrightarrow> no_parallel G g')"
proof -
  let ?es = "edges_directed G (mg_grph m) n d"
  let ?fa = "\<lambda>x. case d of Outgoing \<Rightarrow> k | Incoming \<Rightarrow> fst (snd x)"
  let ?fb = "\<lambda>x. case d of Outgoing \<Rightarrow> fst (snd (snd x)) | Incoming \<Rightarrow> k"
  let ?fw = "\<lambda>x. snd (snd (snd x))"
  note es = set_edges_directed [OF mg_okD(1) [OF m], of n d]
  have "\<forall>x \<in> set ?es. pg_node_weight G (mg_grph m) (?fa x) \<noteq> None \<and> pg_node_weight G (mg_grph m) (?fb x) \<noteq> None"
    unfolding es using edge_ends [OF mg_okD(1) [OF m]] new by (auto split: pg_direction.splits)
  then obtain g' where g': "fold_opt (\<lambda>x m. map_option snd (mg_add_edge G (?fa x) (?fb x) (?fw x) m)) ?es m
      = Some (m\<lparr>mg_grph := g'\<rparr>)"
    "mg_ok G ok (m\<lparr>mg_grph := g'\<rparr>)" "pg_node_weight G g' = pg_node_weight G (mg_grph m)"
    "weighted_arcs G g' = (\<lambda>x. (?fa x, ?fw x, ?fb x)) ` set ?es \<union> weighted_arcs G (mg_grph m)"
    "no_parallel G (mg_grph m) \<longrightarrow> no_parallel G g'"
    using add_edges_loop [OF m, of ?es ?fa ?fb ?fw] by blast
  have loop: "copy_edges_to G n k d m
      = fold_opt (\<lambda>x m. map_option snd (mg_add_edge G (?fa x) (?fb x) (?fw x) m)) ?es m"
    unfolding copy_edges_to_def by (cases d) (simp_all add: case_prod_unfold)
  have "(\<lambda>x. (?fa x, ?fw x, ?fb x)) ` set ?es = (case d of
          Outgoing \<Rightarrow> {(k, w, b) | w b. (n, w, b) \<in> weighted_arcs G (mg_grph m)}
        | Incoming \<Rightarrow> {(a, w, k) | a w. (a, w, n) \<in> weighted_arcs G (mg_grph m)})"
    unfolding es weighted_arcs_def by (cases d) (force+)
  with g' show ?thesis unfolding loop by (intro exI [of _ g']) auto
qed

lemma update_children_spec:
  assumes m: "mg_ok G ok m" and new: "pg_node_weight G (mg_grph m) k \<noteq> None" "k \<noteq> i"
  shows "mg_ok G ok (update_all_children_of_idx_to i k m)"
    "mg_nodes (update_all_children_of_idx_to i k m) v = (if mg_nodes m v = Some i then Some k else mg_nodes m v)"
    "mg_grph (update_all_children_of_idx_to i k m) = mg_grph m"
proof -
  let ?m = "update_all_children_of_idx_to i k m"
  have nodes: "mg_nodes ?m v = (if mg_nodes m v = Some i then Some k else mg_nodes m v)" for v
    using mg_okD(3) [OF m] by (simp add: update_all_children_of_idx_to_def Let_def)
  have grp: "get_group_for_node ?m j = (if j = i then {} else if j = k
      then get_group_for_node m k \<union> get_group_for_node m i else get_group_for_node m j)" for j
    using new(2) by (simp add: update_all_children_of_idx_to_def Let_def get_group_for_node_def)
  have graph: "mg_grph ?m = mg_grph m" by (simp add: update_all_children_of_idx_to_def Let_def)
  show "mg_ok G ok ?m"
  proof (rule mg_okI)
    show "n \<in> get_group_for_node ?m j \<longleftrightarrow> mg_nodes ?m n = Some j" for n j
      using mg_okD(3) [OF m] new(2) unfolding grp nodes by auto
    show "finite (dom (mg_nodes ?m))"
      by (rule finite_subset [OF _ mg_okD(2) [OF m]]) (auto simp: nodes split: if_splits)
    show "pg_node_weight G (mg_grph ?m) j \<noteq> None" if "mg_nodes ?m n = Some j" for n j
      using that new(1) mg_okD(4) [OF m, of n j] unfolding graph nodes by (auto split: if_splits)
  qed (simp add: graph mg_okD(1) [OF m])
  show "mg_nodes ?m v = (if mg_nodes m v = Some i then Some k else mg_nodes m v)" "mg_grph ?m = mg_grph m"
    by (rule nodes graph)+
qed

lemma remove_node_facts:
  assumes "ok g"
  shows "ok (snd (pg_remove_node G n g))"
    "pg_node_weight G (snd (pg_remove_node G n g)) = (pg_node_weight G g)(n := None)"
    "pg_edge G (snd (pg_remove_node G n g)) i = Some (a, b, e) \<longleftrightarrow> pg_edge G g i = Some (a, b, e) \<and> a \<noteq> n \<and> b \<noteq> n"
    "fst (pg_remove_node G n g) = pg_node_weight G g n"
proof -
  obtain rw g' where rem: "pg_remove_node G n g = (rw, g')" by force
  note laws = remove_node_laws [OF assms rem]
  show "ok (snd (pg_remove_node G n g))"
    "pg_node_weight G (snd (pg_remove_node G n g)) = (pg_node_weight G g)(n := None)"
    "fst (pg_remove_node G n g) = pg_node_weight G g n"
    using laws by (simp_all add: rem)
  show "pg_edge G (snd (pg_remove_node G n g)) i = Some (a, b, e) \<longleftrightarrow> pg_edge G g i = Some (a, b, e) \<and> a \<noteq> n \<and> b \<noteq> n"
    using laws by (auto simp: rem split: option.splits if_splits)
qed

lemma weighted_arcs_remove:
  "ok g \<Longrightarrow> weighted_arcs G (snd (pg_remove_node G n g)) = {(a, w, b) \<in> weighted_arcs G g. a \<noteq> n \<and> b \<noteq> n}"
  by (auto simp: weighted_arcs_def remove_node_facts(3))

lemma no_parallel_remove:
  assumes "ok g" "no_parallel G g"
  shows "no_parallel G (snd (pg_remove_node G n g))"
proof -
  have "pg_edge G (snd (pg_remove_node G n g)) i = Some e \<Longrightarrow> pg_edge G g i = Some e" for i e
    using remove_node_facts(3) [OF assms(1)] by (cases e) simp
  then show ?thesis using assms(2) unfolding no_parallel_def by blast
qed

lemma merged_arcs:
  fixes A A1 A2 A3 A4 :: "(nat \<times> 'b \<times> nat) set"
  assumes old: "\<And>a w b. (a, w, b) \<in> A \<Longrightarrow> a \<noteq> k \<and> b \<noteq> k" and k: "k \<noteq> f" "k \<noteq> s" "f \<noteq> s"
    and A1: "A1 = A \<union> {(k, w, b) |w b. (f, w, b) \<in> A}"
    and A2: "A2 = A1 \<union> {(a, w, k) |a w. (a, w, f) \<in> A1}"
    and A3: "A3 = A2 \<union> {(k, w, b) |w b. (s, w, b) \<in> A2}"
    and A4: "A4 = A3 \<union> {(a, w, k) |a w. (a, w, s) \<in> A3}"
  shows "{(a, w, b) \<in> A4. a \<noteq> f \<and> b \<noteq> f \<and> a \<noteq> s \<and> b \<noteq> s}
    = (\<lambda>(a, w, b). (if a = f \<or> a = s then k else a, w, if b = f \<or> b = s then k else b)) ` A"
    (is "?L = ?r ` A")
proof (rule set_eqI)
  fix z :: "nat \<times> 'b \<times> nat"
  obtain x w y where z: "z = (x, w, y)" by (cases z)
  have m1: "(x, w, y) \<in> A1 \<longleftrightarrow> (x, w, y) \<in> A \<or> x = k \<and> (f, w, y) \<in> A" for x y by (simp add: A1)
  have m2: "(x, w, y) \<in> A2 \<longleftrightarrow> (x, w, y) \<in> A1 \<or> y = k \<and> (x, w, f) \<in> A1" for x y by (simp add: A2)
  have m3: "(x, w, y) \<in> A3 \<longleftrightarrow> (x, w, y) \<in> A2 \<or> x = k \<and> (s, w, y) \<in> A2" for x y by (simp add: A3)
  have m4: "(x, w, y) \<in> A4 \<longleftrightarrow> (x, w, y) \<in> A3 \<or> y = k \<and> (x, w, s) \<in> A3" for x y by (simp add: A4)
  have R: "z \<in> ?r ` A \<longleftrightarrow> (\<exists>a b. (a, w, b) \<in> A \<and> x = (if a = f \<or> a = s then k else a)
      \<and> y = (if b = f \<or> b = s then k else b))"
    unfolding z image_iff Bex_def split_paired_Ex by (simp split del: if_split) 
  have kA: "(k, w, b) \<notin> A" "(a, w, k) \<notin> A" for a b using old by blast+
  have r: "x = (if a = f \<or> a = s then k else a) \<longleftrightarrow> (if x = k then a = f \<or> a = s \<or> a = k else a = x \<and> x \<noteq> f \<and> x \<noteq> s)"
    for x a using k by auto
  have L: "z \<in> ?L \<longleftrightarrow> (x, w, y) \<in> A4 \<and> x \<noteq> f \<and> y \<noteq> f \<and> x \<noteq> s \<and> y \<noteq> s" by (simp add: z)
  show "z \<in> ?L \<longleftrightarrow> z \<in> ?r ` A"
  proof (cases "x = k")
    case True
    show ?thesis
    proof (cases "y = k")
      case y: True
      have "z \<in> ?r ` A \<longleftrightarrow> (f, w, f) \<in> A \<or> (f, w, s) \<in> A \<or> (s, w, f) \<in> A \<or> (s, w, s) \<in> A"
        unfolding R r using True y kA by auto
      then show ?thesis unfolding L m4 m3 m2 m1 using True y k kA by auto
    next
      case y: False
      have "z \<in> ?r ` A \<longleftrightarrow> ((f, w, y) \<in> A \<or> (s, w, y) \<in> A) \<and> y \<noteq> f \<and> y \<noteq> s"
        unfolding R r using True y kA by auto
      then show ?thesis unfolding L m4 m3 m2 m1 using True y k kA by auto
    qed
  next
    case x: False
    show ?thesis
    proof (cases "y = k")
      case True
      have "z \<in> ?r ` A \<longleftrightarrow> ((x, w, f) \<in> A \<or> (x, w, s) \<in> A) \<and> x \<noteq> f \<and> x \<noteq> s"
        unfolding R r using True x kA by auto
      then show ?thesis unfolding L m4 m3 m2 m1 using True x k kA by auto
    next
      case False
      have "z \<in> ?r ` A \<longleftrightarrow> (x, w, y) \<in> A \<and> x \<noteq> f \<and> x \<noteq> s \<and> y \<noteq> f \<and> y \<noteq> s"
        unfolding R r using False x by auto
      then show ?thesis unfolding L m4 m3 m2 m1 using False x by auto
    qed
  qed
qed

text \<open>
  Merging two different nodes yields the quotient that identifies them: the new node carries
  the merged weight, both sets of names and every edge of the two, and all else is unchanged.
\<close>

lemma merge_nodes_spec:
  assumes m: "mg_ok G ok m" and f: "mg_nodes m key1 = Some f" and s: "mg_nodes m key2 = Some s" "f \<noteq> s"
  shows "\<exists>m' k wf ws. merge_nodes G opr key1 key2 m = Some m' \<and> mg_ok G ok m'
    \<and> pg_node_weight G (mg_grph m) k = None
    \<and> pg_node_weight G (mg_grph m) f = Some wf \<and> pg_node_weight G (mg_grph m) s = Some ws
    \<and> pg_node_weight G (mg_grph m') = (pg_node_weight G (mg_grph m))(k \<mapsto> opr wf ws, f := None, s := None)
    \<and> mg_nodes m' = (\<lambda>n. map_option (\<lambda>i. if i = f \<or> i = s then k else i) (mg_nodes m n))
    \<and> weighted_arcs G (mg_grph m') = (\<lambda>(a, w, b). (if a = f \<or> a = s then k else a, w, if b = f \<or> b = s then k else b))
        ` weighted_arcs G (mg_grph m)
    \<and> (no_parallel G (mg_grph m) \<longrightarrow> no_parallel G (mg_grph m'))"
proof -
  obtain wf ws where w: "pg_node_weight G (mg_grph m) f = Some wf" "pg_node_weight G (mg_grph m) s = Some ws"
    using mg_okD(4) [OF m] f s by blast
  obtain k g where add: "pg_add_node G (opr wf ws) (mg_grph m) = (k, g)" by force
  have g: "ok g" "pg_node_weight G (mg_grph m) k = None" "pg_edge G g = pg_edge G (mg_grph m)"
    "pg_node_weight G g = (pg_node_weight G (mg_grph m))(k \<mapsto> opr wf ws)"
    using add_node_laws [OF mg_okD(1) [OF m] add] by simp_all
  have k: "k \<noteq> f" "k \<noteq> s" using g(2) w by auto
  have m0: "mg_ok G ok (m\<lparr>mg_grph := g\<rparr>)"
    by (rule mg_okI) (use g mg_okD [OF m] in \<open>auto simp: get_group_simps\<close>)
  define m1 where "m1 = update_all_children_of_idx_to f k (m\<lparr>mg_grph := g\<rparr>)"
  define m2 where "m2 = update_all_children_of_idx_to s k m1"
  have m1: "mg_ok G ok m1" "mg_nodes m1 v = (if mg_nodes m v = Some f then Some k else mg_nodes m v)"
    "mg_grph m1 = g" for v
    using update_children_spec [OF m0, of k f] g(4) k unfolding m1_def by simp_all
  have m2: "mg_ok G ok m2" "mg_nodes m2 v = (if mg_nodes m1 v = Some s then Some k else mg_nodes m1 v)"
    and graph2: "mg_grph m2 = g" for v
    using update_children_spec [OF m1(1), of k s] m1(3) g(4) k unfolding m2_def by simp_all
  have nodes2: "mg_nodes m2 = (\<lambda>n. map_option (\<lambda>i. if i = f \<or> i = s then k else i) (mg_nodes m n))"
  proof
    show "mg_nodes m2 n = map_option (\<lambda>i. if i = f \<or> i = s then k else i) (mg_nodes m n)" for n
      unfolding m2(2) m1(2) using k by (cases "mg_nodes m n") auto
  qed
  have wk: "pg_node_weight G g k \<noteq> None" using g(4) by simp
  obtain g3 where g3: "copy_edges_to G f k Outgoing m2 = Some (m2\<lparr>mg_grph := g3\<rparr>)"
    "mg_ok G ok (m2\<lparr>mg_grph := g3\<rparr>)" "pg_node_weight G g3 = pg_node_weight G g"
    "weighted_arcs G g3 = weighted_arcs G g \<union> {(k, w, b) | w b. (f, w, b) \<in> weighted_arcs G g}"
    "no_parallel G g \<longrightarrow> no_parallel G g3"
    using copy_edges_spec [OF m2(1), of k f Outgoing] wk graph2 by auto
  obtain g4 where g4: "copy_edges_to G f k Incoming (m2\<lparr>mg_grph := g3\<rparr>) = Some (m2\<lparr>mg_grph := g4\<rparr>)"
    "mg_ok G ok (m2\<lparr>mg_grph := g4\<rparr>)" "pg_node_weight G g4 = pg_node_weight G g"
    "weighted_arcs G g4 = weighted_arcs G g3 \<union> {(a, w, k) | a w. (a, w, f) \<in> weighted_arcs G g3}"
    "no_parallel G g3 \<longrightarrow> no_parallel G g4"
    using copy_edges_spec [OF g3(2), of k f Incoming] wk g3(3) by auto
  obtain g5 where g5: "copy_edges_to G s k Outgoing (m2\<lparr>mg_grph := g4\<rparr>) = Some (m2\<lparr>mg_grph := g5\<rparr>)"
    "mg_ok G ok (m2\<lparr>mg_grph := g5\<rparr>)" "pg_node_weight G g5 = pg_node_weight G g"
    "weighted_arcs G g5 = weighted_arcs G g4 \<union> {(k, w, b) | w b. (s, w, b) \<in> weighted_arcs G g4}"
    "no_parallel G g4 \<longrightarrow> no_parallel G g5"
    using copy_edges_spec [OF g4(2), of k s Outgoing] wk g4(3) by auto
  obtain g6 where g6: "copy_edges_to G s k Incoming (m2\<lparr>mg_grph := g5\<rparr>) = Some (m2\<lparr>mg_grph := g6\<rparr>)"
    "mg_ok G ok (m2\<lparr>mg_grph := g6\<rparr>)" "pg_node_weight G g6 = pg_node_weight G g"
    "weighted_arcs G g6 = weighted_arcs G g5 \<union> {(a, w, k) | a w. (a, w, s) \<in> weighted_arcs G g5}"
    "no_parallel G g5 \<longrightarrow> no_parallel G g6"
    using copy_edges_spec [OF g5(2), of k s Incoming] wk g5(3) by auto
  let ?g = "snd (pg_remove_node G s (snd (pg_remove_node G f g6)))" and ?m = "m2\<lparr>mg_grph := snd (pg_remove_node G s (snd (pg_remove_node G f g6)))\<rparr>"
  have ok6: "ok g6" using mg_okD(1) [OF g6(2)] by simp
  note r1 = remove_node_facts(1,2) [OF ok6, of f]
  note r2 = remove_node_facts(1,2) [OF r1(1), of s]
  have weights: "pg_node_weight G ?g = (pg_node_weight G (mg_grph m))(k \<mapsto> opr wf ws, f := None, s := None)"
    using r1 r2 g6(3) g(4) by simp
  have fields: "mg_grph ?m = ?g"
    "mg_nodes ?m = (\<lambda>n. map_option (\<lambda>i. if i = f \<or> i = s then k else i) (mg_nodes m n))"
    using nodes2 by simp_all
  have "mg_ok G ok ?m"
  proof (rule mg_okI)
    show "pg_node_weight G (mg_grph ?m) i \<noteq> None" if "mg_nodes ?m n = Some i" for n i
      using that mg_okD(4) [OF m, of n] k unfolding fields weights by (auto split: if_splits)
  qed (use r2 mg_okD [OF m2(1)] in \<open>simp_all add: get_group_simps\<close>)
  moreover have "weighted_arcs G ?g = (\<lambda>(a, w, b). (if a = f \<or> a = s then k else a, w, if b = f \<or> b = s then k else b))
        ` weighted_arcs G (mg_grph m)"
  proof -
    have old: "a \<noteq> k" "b \<noteq> k" if "(a, w, b) \<in> weighted_arcs G (mg_grph m)" for a w b
      using weighted_arcs_nodes [OF mg_okD(1) [OF m] that] g(2) by auto
    have arcs0: "weighted_arcs G g = weighted_arcs G (mg_grph m)" by (simp add: weighted_arcs_def g(3))
    have fin: "weighted_arcs G ?g = {(a, w, b) \<in> weighted_arcs G g6. a \<noteq> f \<and> b \<noteq> f \<and> a \<noteq> s \<and> b \<noteq> s}"
      using weighted_arcs_remove [OF ok6, of f] weighted_arcs_remove [OF r1(1), of s] by auto
    show ?thesis
      unfolding fin
      by (rule merged_arcs [OF _ k s(2) g3(4) [unfolded arcs0] g4(4) g5(4) g6(4)]) (use old in auto)
  qed
  moreover have "no_parallel G (mg_grph m) \<longrightarrow> no_parallel G ?g"
  proof
    assume "no_parallel G (mg_grph m)"
    then have "no_parallel G g" by (simp add: no_parallel_def g(3))
    then have "no_parallel G g6" using g3(5) g4(5) g5(5) g6(5) by blast
    then show "no_parallel G ?g" by (intro no_parallel_remove r1(1) ok6)
  qed
  moreover have "merge_nodes G opr key1 key2 m = Some ?m"
    using f s w add g3(1) g4(1) g5(1) g6(1) by (simp add: merge_nodes_def Let_def flip: m1_def m2_def)
  ultimately show ?thesis
    using nodes2 weights g(2) w by (intro exI [of _ ?m] exI [of _ k] exI [of _ wf] exI [of _ ws]) simp
qed

text \<open>Removing by index and by name.\<close>

lemma remove_node_by_idx_spec:
  assumes m: "mg_ok G ok m"
  shows "\<exists>m'. mg_remove_node_by_idx G idx m = (pg_node_weight G (mg_grph m) idx, m') \<and> mg_ok G ok m'
    \<and> mg_nodes m' = (\<lambda>n. if mg_nodes m n = Some idx then None else mg_nodes m n)
    \<and> pg_node_weight G (mg_grph m') = (pg_node_weight G (mg_grph m))(idx := None)
    \<and> weighted_arcs G (mg_grph m') = {(a, w, b) \<in> weighted_arcs G (mg_grph m). a \<noteq> idx \<and> b \<noteq> idx}"
proof -
  let ?g = "snd (pg_remove_node G idx (mg_grph m))" and ?m = "snd (mg_remove_node_by_idx G idx m)"
  note r = remove_node_facts [OF mg_okD(1) [OF m], where n = idx]
  have m': "mg_remove_node_by_idx G idx m = (pg_node_weight G (mg_grph m) idx, ?m)"
    using r(4) by (simp add: mg_remove_node_by_idx_def case_prod_unfold Let_def)
  have graph: "mg_grph ?m = ?g" by (simp add: mg_remove_node_by_idx_def case_prod_unfold Let_def)
  have nodes: "mg_nodes ?m n = (if mg_nodes m n = Some idx then None else mg_nodes m n)" for n
    using mg_okD(3) [OF m] by (simp add: mg_remove_node_by_idx_def case_prod_unfold Let_def)
  have grp: "get_group_for_node ?m i = (if i = idx then {} else get_group_for_node m i)" for i
    by (simp add: mg_remove_node_by_idx_def case_prod_unfold Let_def get_group_for_node_def)
  have "mg_ok G ok ?m"
  proof (rule mg_okI)
    show "n \<in> get_group_for_node ?m i \<longleftrightarrow> mg_nodes ?m n = Some i" for n i
      unfolding grp nodes using mg_okD(3) [OF m] by auto
    show "finite (dom (mg_nodes ?m))"
      by (rule finite_subset [OF _ mg_okD(2) [OF m]]) (auto simp: nodes split: if_splits)
    show "pg_node_weight G (mg_grph ?m) i \<noteq> None" if "mg_nodes ?m n = Some i" for n i
      using that mg_okD(4) [OF m, of n i] unfolding graph r(2) nodes by (auto split: if_splits)
  qed (simp add: graph r)
  with m' show ?thesis
    using weighted_arcs_remove [OF mg_okD(1) [OF m]] r(2)
    by (intro exI [of _ ?m]) (simp add: graph nodes fun_eq_iff)
qed

lemma remove_node_spec:
  assumes m: "mg_ok G ok m" and n: "mg_nodes m n = Some i"
  shows "\<exists>m' w. mg_remove_node G n m = Some (Some w, m') \<and> pg_node_weight G (mg_grph m) i = Some w
    \<and> mg_ok G ok m' \<and> mg_nodes m' = (mg_nodes m)(n := None)
    \<and> pg_node_weight G (mg_grph m') = (if \<exists>k. k \<noteq> n \<and> mg_nodes m k = Some i
        then pg_node_weight G (mg_grph m) else (pg_node_weight G (mg_grph m))(i := None))"
proof -
  obtain w where w: "pg_node_weight G (mg_grph m) i = Some w" using mg_okD(4) [OF m n] by blast
  have "n \<in> get_group_for_node m i" using mg_okD(3) [OF m] n by blast
  then obtain s where s: "mg_reprs m i = Some s" "n \<in> s"
    by (auto simp: get_group_for_node_def split: option.splits)
  have grp: "get_group_for_node m i = s" by (simp add: get_group_for_node_def s)
  have empty: "s - {n} = {} \<longleftrightarrow> \<not> (\<exists>k. k \<noteq> n \<and> mg_nodes m k = Some i)"
    using mg_okD(3) [OF m, of _ i] grp by blast
  note r = remove_node_facts [OF mg_okD(1) [OF m], where n = i]
  let ?m1 = "m\<lparr>mg_reprs := (mg_reprs m)(i \<mapsto> s - {n}), mg_nodes := (mg_nodes m)(n := None)\<rparr>"
  define m' where "m' = (if s - {n} = {}
     then ?m1\<lparr>mg_reprs := (mg_reprs ?m1)(i := None), mg_grph := snd (pg_remove_node G i (mg_grph ?m1))\<rparr> else ?m1)"
  have rem: "mg_remove_node G n m = Some (Some w, m')"
    by (simp add: mg_remove_node_def n s w m'_def Let_def)
  have nodes: "mg_nodes m' = (mg_nodes m)(n := None)" by (simp add: m'_def)
  have graph: "mg_grph m' = (if s - {n} = {} then snd (pg_remove_node G i (mg_grph m)) else mg_grph m)"
    by (simp add: m'_def)
  have grp': "get_group_for_node m' j = (if j = i then s - {n} else get_group_for_node m j)" for j
    by (simp add: m'_def get_group_for_node_def)
  have weights: "pg_node_weight G (mg_grph m') = (if \<exists>k. k \<noteq> n \<and> mg_nodes m k = Some i
        then pg_node_weight G (mg_grph m) else (pg_node_weight G (mg_grph m))(i := None))"
    using empty r(2) unfolding graph by (cases "s - {n} = {}") auto
  have "mg_ok G ok m'"
  proof (rule mg_okI)
    show "ok (mg_grph m')" using r(1) mg_okD(1) [OF m] by (simp add: graph)
    show "finite (dom (mg_nodes m'))" using mg_okD(2) [OF m] by (simp add: nodes)
    show "k \<in> get_group_for_node m' j \<longleftrightarrow> mg_nodes m' k = Some j" for k j
      using mg_okD(3) [OF m, of k] grp n unfolding grp' nodes by auto
    show "pg_node_weight G (mg_grph m') j \<noteq> None" if "mg_nodes m' k = Some j" for k j
      using that mg_okD(4) [OF m, of k j] unfolding weights nodes by (auto split: if_splits)
  qed
  with rem w nodes weights show ?thesis by blast
qed

end

section \<open>The quotient is exact\<close>

definition is_partition :: "nat set list \<Rightarrow> nat set \<Rightarrow> bool" where
  "is_partition groups A \<longleftrightarrow> {} \<notin> set groups \<and> \<Union> (set groups) = A
     \<and> (\<forall>i < length groups. \<forall>j < length groups. groups ! i \<inter> groups ! j \<noteq> {} \<longrightarrow> i = j)"

lemma repr_mapping_Some:
  "repr_mapping i ss n = Some j \<Longrightarrow> i \<le> j \<and> j < i + length ss \<and> n \<in> ss ! (j - i)"
proof (induction i ss n rule: repr_mapping.induct)
  case (2 i s ss n)
  show ?case
  proof (cases "repr_mapping (Suc i) ss n")
    case None
    with "2.prems" show ?thesis by (auto split: if_splits)
  next
    case (Some k)
    then have k: "Suc i \<le> k" "k < Suc i + length ss" "n \<in> ss ! (k - Suc i)" "j = k"
      using "2.IH" "2.prems" by auto
    then have "k - i = Suc (k - Suc i)" by simp
    with k show ?thesis by simp
  qed
qed simp

lemma repr_mapping_total: "n \<in> \<Union> (set ss) \<Longrightarrow> repr_mapping i ss n \<noteq> None"
proof (induction i ss n rule: repr_mapping.induct)
  case (2 i s ss n)
  show ?case
  proof (cases "n \<in> \<Union> (set ss)")
    case True
    then show ?thesis using "2.IH" by auto
  next
    case False
    then have "n \<in> s" using "2.prems" by auto
    then show ?thesis by (auto split: option.splits)
  qed
qed simp

lemma repr_mapping_partition:
  assumes "is_partition groups A"
  shows "repr_mapping 0 groups n = Some j \<longleftrightarrow> j < length groups \<and> n \<in> groups ! j"
proof
  show "repr_mapping 0 groups n = Some j \<Longrightarrow> j < length groups \<and> n \<in> groups ! j"
    using repr_mapping_Some [of 0 groups n j] by simp
next
  assume j: "j < length groups \<and> n \<in> groups ! j"
  then obtain k where k: "repr_mapping 0 groups n = Some k"
    using repr_mapping_total [of n groups 0] by fastforce
  then have "k < length groups" "n \<in> groups ! k" using repr_mapping_Some [of 0 groups n k] by simp_all
  with j have "j = k" using assms unfolding is_partition_def by blast
  with k show "repr_mapping 0 groups n = Some j" by simp
qed

context stable_digraph
begin

lemma traverse_weights:
  assumes "finite s" "\<forall>n \<in> s. pg_node_weight G g n \<noteq> None"
  shows "traverse (pg_node_weight G g) (sorted_list_of_set s)
    = Some (map (\<lambda>n. the (pg_node_weight G g n)) (sorted_list_of_set s))"
  by (rule traverse_Some_map) (use assms in auto)

lemma group_weight_total:
  assumes "finite s" "s \<noteq> {}" "\<forall>n \<in> s. pg_node_weight G g n \<noteq> None"
  shows "group_weight G opr g s \<noteq> None"
proof -
  obtain x xs where "sorted_list_of_set s = x # xs"
    using assms(1,2) by (cases "sorted_list_of_set s") auto
  then show ?thesis using traverse_weights [OF assms(1,3)] by (simp add: group_weight_def)
qed

lemma quotient_nodes_spec:
  assumes "ok nd" "\<forall>s \<in> set grps. s \<noteq> {} \<and> group_weight G opr g s \<noteq> None"
  shows "\<exists>mp' nd' f. quotient_nodes G opr g i grps (mp, nd) = Some (mp', nd') \<and> ok nd'
    \<and> pg_edge G nd' = pg_edge G nd
    \<and> mp' = (\<lambda>j. if i \<le> j \<and> j < i + length grps then Some (f j) else mp j)
    \<and> inj_on f {i..<i + length grps}
    \<and> (\<forall>j \<in> {i..<i + length grps}. pg_node_weight G nd (f j) = None
         \<and> pg_node_weight G nd' (f j) = group_weight G opr g (grps ! (j - i)))
    \<and> (\<forall>n. n \<notin> f ` {i..<i + length grps} \<longrightarrow> pg_node_weight G nd' n = pg_node_weight G nd n)"
  using assms
proof (induction grps arbitrary: i mp nd)
  case (Cons s grps)
  obtain w where w: "group_weight G opr g s = Some w" "s \<noteq> {}" using Cons.prems(2) by auto
  obtain k nd1 where add: "pg_add_node G w nd = (k, nd1)" by force
  have nd1: "ok nd1" "pg_node_weight G nd k = None" "pg_node_weight G nd1 = (pg_node_weight G nd)(k \<mapsto> w)"
    "pg_edge G nd1 = pg_edge G nd"
    using add_node_laws [OF Cons.prems(1) add] by simp_all
  have rest: "\<forall>s \<in> set grps. s \<noteq> {} \<and> group_weight G opr g s \<noteq> None" using Cons.prems(2) by simp
  let ?I = "{Suc i..<Suc i + length grps}"
  obtain mp' nd' f where ih: "quotient_nodes G opr g (Suc i) grps (mp(i \<mapsto> k), nd1) = Some (mp', nd')" "ok nd'"
    "pg_edge G nd' = pg_edge G nd1"
    "mp' = (\<lambda>j. if Suc i \<le> j \<and> j < Suc i + length grps then Some (f j) else (mp(i \<mapsto> k)) j)"
    "inj_on f ?I"
    "\<forall>j \<in> ?I. pg_node_weight G nd1 (f j) = None
       \<and> pg_node_weight G nd' (f j) = group_weight G opr g (grps ! (j - Suc i))"
    "\<forall>n. n \<notin> f ` ?I \<longrightarrow> pg_node_weight G nd' n = pg_node_weight G nd1 n"
    using Cons.IH [OF nd1(1) rest, of "Suc i" "mp(i \<mapsto> k)"] by blast
  let ?f = "f(i := k)"
  have I: "{i..<i + length (s # grps)} = insert i ?I" by auto
  have kI: "k \<notin> f ` ?I" using ih(6) nd1(3) by force
  have img: "?f ` insert i ?I = insert k (f ` ?I)" by auto
  have "quotient_nodes G opr g i (s # grps) (mp, nd) = Some (mp', nd')" using w add ih(1) by simp
  moreover have "mp' = (\<lambda>j. if i \<le> j \<and> j < i + length (s # grps) then Some (?f j) else mp j)"
    unfolding ih(4) by (auto simp: fun_eq_iff)
  moreover have "inj_on ?f {i..<i + length (s # grps)}"
    unfolding I using ih(5) kI by (auto simp: inj_on_def)
  moreover have "pg_node_weight G nd (?f j) = None
      \<and> pg_node_weight G nd' (?f j) = group_weight G opr g ((s # grps) ! (j - i))"
    if "j \<in> {i..<i + length (s # grps)}" for j
  proof (cases "j = i")
    case True
    then show ?thesis using nd1 w ih(7) kI by simp
  next
    case False
    then have j: "j \<in> ?I" "j - i = Suc (j - Suc i)" using that by auto
    with ih(6) have "pg_node_weight G nd1 (f j) = None"
      "pg_node_weight G nd' (f j) = group_weight G opr g (grps ! (j - Suc i))" by blast+
    then show ?thesis using False j(2) nd1(3) by (auto split: if_splits)
  qed
  moreover have "pg_node_weight G nd' n = pg_node_weight G nd n" if "n \<notin> ?f ` {i..<i + length (s # grps)}" for n
    using that ih(7) nd1(3) unfolding I img by simp
  moreover have "pg_edge G nd' = pg_edge G nd" using ih(3) nd1(4) by simp
  ultimately show ?case using ih(2) by blast
next
  case Nil
  have "mp = (\<lambda>j. if i \<le> j \<and> j < i + length [] then Some (f j) else mp j)" for f by (auto simp: fun_eq_iff)
  then show ?case using Nil by simp
qed

lemma quotient_edges_spec:
  assumes "ok nd" "\<forall>(_, a, b, _) \<in> set es. \<exists>x y. f a = Some x \<and> f b = Some y
      \<and> pg_node_weight G nd x \<noteq> None \<and> pg_node_weight G nd y \<noteq> None"
    and "eset = (\<lambda>(a, w, b). (a, b, w)) ` weighted_arcs G nd" "no_parallel G nd"
  shows "\<exists>nd' eset'. fold_opt (quotient_edge G f) es (nd, eset) = Some (nd', eset') \<and> ok nd'
    \<and> pg_node_weight G nd' = pg_node_weight G nd
    \<and> weighted_arcs G nd' = weighted_arcs G nd \<union> (\<lambda>(_, a, b, w). (the (f a), w, the (f b))) ` set es
    \<and> no_parallel G nd'"
  using assms
proof (induction es arbitrary: nd eset)
  case (Cons e es)
  obtain i a b w where e: "e = (i, a, b, w)" by (cases e)
  obtain x y where xy: "f a = Some x" "f b = Some y" "pg_node_weight G nd x \<noteq> None" "pg_node_weight G nd y \<noteq> None"
    using Cons.prems(2) unfolding e by auto
  have mem: "(x, y, w) \<in> eset \<longleftrightarrow> (x, w, y) \<in> weighted_arcs G nd"
    unfolding Cons.prems(3) by force
  show ?case
  proof (cases "(x, y, w) \<in> eset")
    case True
    have "quotient_edge G f e (nd, eset) = Some (nd, eset)" using True xy by (simp add: quotient_edge_def e)
    moreover have "insert (x, w, y) (weighted_arcs G nd) = weighted_arcs G nd" using True mem by blast
    ultimately show ?thesis
      using Cons.IH [OF Cons.prems(1) _ Cons.prems(3,4)] Cons.prems(2) xy by (auto simp: e)
  next
    case False
    obtain j nd1 where add: "pg_add_edge G x y w nd = Some (j, nd1)"
      using add_edge_None [OF Cons.prems(1), of x y w] xy(3,4) by (metis not_None_eq prod.collapse)
    have nd1: "ok nd1" "pg_edge G nd j = None" "pg_node_weight G nd1 = pg_node_weight G nd"
      "pg_edge G nd1 = (pg_edge G nd)(j \<mapsto> (x, y, w))"
      using add_edge_laws [OF Cons.prems(1) add] by simp_all
    note arcs1 = weighted_arcs_add [OF Cons.prems(1) add]
    have "no_parallel G nd1"
      using Cons.prems(4) False mem unfolding no_parallel_def nd1(4) weighted_arcs_def
      by (auto split: if_splits)
    moreover have "insert (x, y, w) eset = (\<lambda>(a, w, b). (a, b, w)) ` weighted_arcs G nd1"
      unfolding arcs1 Cons.prems(3) by simp
    moreover have "\<forall>(_, a, b, _) \<in> set es. \<exists>x y. f a = Some x \<and> f b = Some y
      \<and> pg_node_weight G nd1 x \<noteq> None \<and> pg_node_weight G nd1 y \<noteq> None"
      using Cons.prems(2) nd1(3) by simp
    ultimately obtain nd' eset' where "fold_opt (quotient_edge G f) es (nd1, insert (x, y, w) eset) = Some (nd', eset')"
      "ok nd'" "pg_node_weight G nd' = pg_node_weight G nd1"
      "weighted_arcs G nd' = weighted_arcs G nd1 \<union> (\<lambda>(_, a, b, w). (the (f a), w, the (f b))) ` set es"
      "no_parallel G nd'"
      using Cons.IH [OF nd1(1)] by blast
    moreover have "quotient_edge G f e (nd, eset) = Some (nd1, insert (x, y, w) eset)"
      using False xy add by (simp add: quotient_edge_def e)
    ultimately show ?thesis using nd1(3) arcs1 xy(1,2) by (auto simp: e)
  qed
qed auto

lemma quotient_graph_spec:
  assumes m: "mg_ok G ok m" and part: "is_partition groups {n. pg_node_weight G (mg_grph m) n \<noteq> None}"
  shows "\<exists>m' q. quoetient_graph G opr groups m = Some m' \<and> mg_ok G ok m' \<and> no_parallel G (mg_grph m')
    \<and> {n. pg_node_weight G (mg_grph m') n \<noteq> None} = q ` {n. pg_node_weight G (mg_grph m) n \<noteq> None}
    \<and> card {n. pg_node_weight G (mg_grph m') n \<noteq> None} = length groups
    \<and> (\<forall>s \<in> set groups. \<forall>a \<in> s. pg_node_weight G (mg_grph m') (q a) = group_weight G opr (mg_grph m) s
         \<and> (\<forall>b. pg_node_weight G (mg_grph m) b \<noteq> None \<longrightarrow> (q a = q b \<longleftrightarrow> b \<in> s)))
    \<and> weighted_arcs G (mg_grph m') = (\<lambda>(a, w, b). (q a, w, q b)) ` weighted_arcs G (mg_grph m)
    \<and> mg_nodes m' = (\<lambda>n. map_option q (mg_nodes m n))"
proof -
  let ?A = "{n. pg_node_weight G (mg_grph m) n \<noteq> None}" and ?I = "{0..<length groups}"
  note okg = mg_okD(1) [OF m]
  have cover: "\<Union> (set groups) = ?A" and ne: "{} \<notin> set groups"
    using part unfolding is_partition_def by blast+
  have fin: "finite s" if "s \<in> set groups" for s
    using finite_subset [OF _ finite_nodes [OF okg], of s] cover that by blast
  have total: "\<forall>s \<in> set groups. s \<noteq> {} \<and> group_weight G opr (mg_grph m) s \<noteq> None"
  proof (intro ballI conjI)
    fix s assume s: "s \<in> set groups"
    show "s \<noteq> {}" using s ne by blast
    then show "group_weight G opr (mg_grph m) s \<noteq> None"
      using group_weight_total [OF fin [OF s]] cover s by blast
  qed
  obtain mp nd f where q: "quotient_nodes G opr (mg_grph m) 0 groups (Map.empty, pg_new G) = Some (mp, nd)"
    "ok nd" "pg_edge G nd = pg_edge G (pg_new G)"
    "mp = (\<lambda>j. if 0 \<le> j \<and> j < 0 + length groups then Some (f j) else Map.empty j)"
    "inj_on f {0..<0 + length groups}"
    "\<forall>j \<in> {0..<0 + length groups}. pg_node_weight G (pg_new G) (f j) = None
       \<and> pg_node_weight G nd (f j) = group_weight G opr (mg_grph m) (groups ! (j - 0))"
    "\<forall>n. n \<notin> f ` {0..<0 + length groups} \<longrightarrow> pg_node_weight G nd n = pg_node_weight G (pg_new G) n"
    using quotient_nodes_spec [OF new_graph(1) total, of 0 Map.empty] by blast
  let ?idx = "repr_mapping 0 groups"
  let ?f = "\<lambda>n. Option.bind (?idx n) mp"
  define q' where "q' n = f (the (?idx n))" for n
  have idx: "?idx n = Some j \<longleftrightarrow> j < length groups \<and> n \<in> groups ! j" for n j
    by (rule repr_mapping_partition [OF part])
  have f_some: "?f n = Some (q' n)" "the (?idx n) < length groups" "n \<in> groups ! the (?idx n)" if "n \<in> ?A" for n
  proof -
    have "n \<in> \<Union> (set groups)" unfolding cover by (rule that)
    then obtain s where s: "s \<in> set groups" "n \<in> s" by blast
    obtain j where "j < length groups" "groups ! j = s" using s(1) by (auto simp: in_set_conv_nth)
    with s(2) have "j < length groups" "n \<in> groups ! j" by simp_all
    then have j: "?idx n = Some j" using idx by blast
    then show "?f n = Some (q' n)" "the (?idx n) < length groups" "n \<in> groups ! the (?idx n)"
      using \<open>j < length groups\<close> \<open>n \<in> groups ! j\<close> by (simp_all add: q(4) q'_def)
  qed
  have weight: "pg_node_weight G nd (f j) = group_weight G opr (mg_grph m) (groups ! j)" if "j < length groups" for j
    using q(6) that by simp
  have present: "pg_node_weight G nd n \<noteq> None \<longleftrightarrow> n \<in> f ` ?I" for n
  proof
    assume "n \<in> f ` ?I"
    then obtain j where "j < length groups" "n = f j" by auto
    then show "pg_node_weight G nd n \<noteq> None" using weight [of j] total nth_mem [of j groups] by simp
  next
    assume "pg_node_weight G nd n \<noteq> None"
    then show "n \<in> f ` ?I" using q(7) new_graph(2) by (metis add_0)
  qed
  have img: "f ` ?I = q' ` ?A"
  proof
    show "f ` ?I \<subseteq> q' ` ?A"
    proof
      fix x assume "x \<in> f ` ?I"
      then obtain j where j: "j < length groups" "x = f j" by auto
      then obtain n where n: "n \<in> groups ! j" using ne by (metis all_not_in_conv nth_mem)
      then have "?idx n = Some j" using j idx by blast
      moreover have "n \<in> ?A" using n j cover nth_mem by blast
      moreover have "x = q' n" using calculation(1) j(2) by (simp add: q'_def)
      ultimately show "x \<in> q' ` ?A" by (intro image_eqI)
    qed
    show "q' ` ?A \<subseteq> f ` ?I" using f_some(2) by (auto simp: q'_def)
  qed
  have edges: "set (edge_references G (mg_grph m)) = {(i, a, b, w). pg_edge G (mg_grph m) i = Some (a, b, w)}"
    by (rule set_edge_references [OF okg])
  have ends: "\<forall>(_, a, b, _) \<in> set (edge_references G (mg_grph m)). \<exists>x y. ?f a = Some x \<and> ?f b = Some y
      \<and> pg_node_weight G nd x \<noteq> None \<and> pg_node_weight G nd y \<noteq> None"
  proof -
    have q_in: "pg_node_weight G nd (q' n) \<noteq> None" if "n \<in> ?A" for n
      unfolding present img by (rule imageI [OF that])
    have "?f a = Some (q' a) \<and> ?f b = Some (q' b) \<and> pg_node_weight G nd (q' a) \<noteq> None
        \<and> pg_node_weight G nd (q' b) \<noteq> None" if "pg_edge G (mg_grph m) i = Some (a, b, w)" for i a b w
      using edge_ends [OF okg that] f_some(1) q_in by blast
    then show ?thesis unfolding edges by blast
  qed
  have no_arcs: "{} = (\<lambda>(a, w, b). (a, b, w)) ` weighted_arcs G nd" "no_parallel G nd"
    by (simp_all add: weighted_arcs_def no_parallel_def q(3) new_graph)
  obtain nd' eset where qe: "fold_opt (quotient_edge G ?f) (edge_references G (mg_grph m)) (nd, {}) = Some (nd', eset)"
    "ok nd'" "pg_node_weight G nd' = pg_node_weight G nd"
    "weighted_arcs G nd' = weighted_arcs G nd
       \<union> (\<lambda>(_, a, b, w). (the (?f a), w, the (?f b))) ` set (edge_references G (mg_grph m))" "no_parallel G nd'"
    using quotient_edges_spec [OF q(2) ends no_arcs] by blast
  have arcs: "weighted_arcs G nd' = (\<lambda>(a, w, b). (q' a, w, q' b)) ` weighted_arcs G (mg_grph m)"
  proof -
    let ?es = "set (edge_references G (mg_grph m))"
    have wa: "weighted_arcs G (mg_grph m) = (\<lambda>(_, a, b, w). (a, w, b)) ` ?es"
      unfolding edges weighted_arcs_def by (auto simp: image_iff)
    have "(\<lambda>(_, a, b, w). (the (?f a), w, the (?f b))) ` ?es = (\<lambda>(_, a, b, w). (q' a, w, q' b)) ` ?es"
    proof (rule image_cong [OF HOL.refl])
      fix x assume "x \<in> ?es"
      then obtain i a b w where x: "x = (i, a, b, w)" "pg_edge G (mg_grph m) i = Some (a, b, w)"
        unfolding edges by blast
      then have "?f a = Some (q' a)" "?f b = Some (q' b)" using edge_ends [OF okg x(2)] f_some(1) by blast+
      then show "(case x of (_, a, b, w) \<Rightarrow> (the (?f a), w, the (?f b)))
          = (case x of (_, a, b, w) \<Rightarrow> (q' a, w, q' b))" by (simp add: x(1))
    qed
    moreover have "weighted_arcs G nd = {}" by (simp add: weighted_arcs_def q(3) new_graph)
    ultimately show ?thesis unfolding qe(4) wa by (simp add: image_image case_prod_unfold)
  qed
  let ?mp = "\<lambda>n. Option.bind (mg_nodes m n) ?f"
  let ?m = "\<lparr>mg_grph = nd', mg_nodes = ?mp, mg_reprs = names_of ?mp\<rparr>"
  have names: "?mp n = map_option q' (mg_nodes m n)" for n
    using f_some(1) mg_okD(4) [OF m] by (cases "mg_nodes m n") auto
  have ran: "\<forall>y \<in> ran (mg_nodes m). ?f y \<noteq> None"
    using f_some(1) mg_okD(4) [OF m] by (auto simp: ran_def)
  have "quoetient_graph G opr groups m = Some ?m"
    using q(1) qe(1) ran by (auto simp: quoetient_graph_def Let_def)
  moreover have "mg_ok G ok ?m"
  proof (rule mg_okI)
    show "finite (dom (mg_nodes ?m))"
      by (rule finite_subset [OF _ mg_okD(2) [OF m]]) (auto simp: names)
    show "pg_node_weight G (mg_grph ?m) i \<noteq> None" if "mg_nodes ?m n = Some i" for n i
    proof -
      have "map_option q' (mg_nodes m n) = Some i" using that unfolding names [symmetric] by simp
      then obtain k where "mg_nodes m n = Some k" "i = q' k" by auto
      then have "i \<in> q' ` ?A" using mg_okD(4) [OF m] by blast
      then show ?thesis using present img qe(3) by simp
    qed
  qed (use qe(2) in \<open>simp_all add: get_group_simps names_of_group\<close>)
  moreover have "card {n. pg_node_weight G nd' n \<noteq> None} = length groups"
    using present card_image [OF q(5)] qe(3) by simp
  moreover have "pg_node_weight G nd' (q' a) = group_weight G opr (mg_grph m) s
      \<and> (\<forall>b. pg_node_weight G (mg_grph m) b \<noteq> None \<longrightarrow> (q' a = q' b \<longleftrightarrow> b \<in> s))"
    if s: "s \<in> set groups" and a: "a \<in> s" for s a
  proof -
    obtain j where j: "j < length groups" "s = groups ! j" using s by (metis in_set_conv_nth)
    then have ja: "?idx a = Some j" using a idx by blast
    have "q' a = q' b \<longleftrightarrow> b \<in> s" if "b \<in> ?A" for b
    proof -
      have "q' a = q' b \<longleftrightarrow> j = the (?idx b)"
        using inj_onD [OF q(5), of j "the (?idx b)"] j(1) f_some(2) [OF that] by (auto simp: q'_def ja)
      also have "\<dots> \<longleftrightarrow> b \<in> s"
        using f_some(2,3) [OF that] j idx [of b j] by auto
      finally show ?thesis .
    qed
    then show ?thesis using weight [OF j(1)] by (simp add: qe(3) q'_def ja j(2))
  qed
  ultimately show ?thesis
    using qe(5) arcs present img qe(3) names by (intro exI [of _ ?m] exI [of _ q']) (simp add: fun_eq_iff)
qed

text \<open>The subgraph that a node reaches.\<close>

lemma reachable_idxs:
  "mg_ok G ok m \<Longrightarrow> pg_node_weight G (mg_grph m) n \<noteq> None \<Longrightarrow>
   mg_reachable_idxs G m n = (arcs G (mg_grph m))\<^sup>* `` {n}"
  using dfs_laws [of "mg_grph m" "[n]"] mg_okD(1) [of G ok m] by (simp add: mg_reachable_idxs_def)

lemma edge_path_closed:
  assumes "\<And>a w b. (a, w, b) \<in> E \<Longrightarrow> a \<in> R \<Longrightarrow> b \<in> R" "a \<in> R"
  shows "edge_path {(a, w, b) \<in> E. a \<in> R \<and> b \<in> R} a ws b \<longleftrightarrow> edge_path E a ws b"
  using assms(2)
proof (induction ws arbitrary: a)
  case (Cons w ws)
  have "(a, w, c) \<in> {(a, w, b) \<in> E. a \<in> R \<and> b \<in> R} \<longleftrightarrow> (a, w, c) \<in> E" for c
    using assms(1) Cons.prems by blast
  moreover have "edge_path {(a, w, b) \<in> E. a \<in> R \<and> b \<in> R} c ws b \<longleftrightarrow> edge_path E c ws b"
    if "(a, w, c) \<in> E" for c using Cons.IH assms(1) Cons.prems that by blast
  ultimately show ?case by auto
qed simp

lemma reachable_subgraph_spec:
  assumes m: "mg_ok G ok m" and n: "pg_node_weight G (mg_grph m) n \<noteq> None"
  shows "mg_ok G ok (get_reachable_subgraph G m n)"
    "pg_node_weight G (mg_grph (get_reachable_subgraph G m n)) i
       = (if (n, i) \<in> (arcs G (mg_grph m))\<^sup>* then pg_node_weight G (mg_grph m) i else None)"
    "mg_nodes (get_reachable_subgraph G m n) k
       = (case mg_nodes m k of Some i \<Rightarrow> if (n, i) \<in> (arcs G (mg_grph m))\<^sup>* then Some i else None | None \<Rightarrow> None)"
    "edge_path (weighted_arcs G (mg_grph (get_reachable_subgraph G m n))) n ws i
       \<longleftrightarrow> edge_path (weighted_arcs G (mg_grph m)) n ws i"
proof -
  let ?R = "mg_reachable_idxs G m n" and ?m = "get_reachable_subgraph G m n"
  note okg = mg_okD(1) [OF m]
  have R: "i \<in> ?R \<longleftrightarrow> (n, i) \<in> (arcs G (mg_grph m))\<^sup>*" for i using reachable_idxs [OF m n] by simp
  have graph: "mg_grph ?m = pg_filter_nodes G (\<lambda>i. i \<in> ?R) (mg_grph m)"
    by (simp add: get_reachable_subgraph_def Let_def)
  note laws = filter_nodes_laws [OF okg, of "\<lambda>i. i \<in> ?R"]
  show weights: "pg_node_weight G (mg_grph ?m) i
       = (if (n, i) \<in> (arcs G (mg_grph m))\<^sup>* then pg_node_weight G (mg_grph m) i else None)" for i
    using laws by (simp add: graph R)
  show nodes: "mg_nodes ?m k
       = (case mg_nodes m k of Some i \<Rightarrow> if (n, i) \<in> (arcs G (mg_grph m))\<^sup>* then Some i else None | None \<Rightarrow> None)" for k
    by (simp add: get_reachable_subgraph_def Let_def R split: option.split)
  have arcs': "weighted_arcs G (mg_grph ?m) = {(a, w, b) \<in> weighted_arcs G (mg_grph m). a \<in> ?R \<and> b \<in> ?R}"
  proof -
    have "pg_edge G (mg_grph ?m) i = Some (a, b, w) \<longleftrightarrow>
        pg_edge G (mg_grph m) i = Some (a, b, w) \<and> a \<in> ?R \<and> b \<in> ?R" for i a b w
      using laws by (auto simp: graph split: option.splits if_splits)
    then show ?thesis unfolding weighted_arcs_def by blast
  qed
  show "edge_path (weighted_arcs G (mg_grph ?m)) n ws i \<longleftrightarrow> edge_path (weighted_arcs G (mg_grph m)) n ws i"
    unfolding arcs'
  proof (rule edge_path_closed)
    show "n \<in> ?R" by (simp add: R)
    show "b \<in> ?R" if "(a, w, b) \<in> weighted_arcs G (mg_grph m)" "a \<in> ?R" for a w b
    proof -
      have "(a, b) \<in> arcs G (mg_grph m)" using that(1) unfolding arcs_weighted by blast
      then show ?thesis using that(2) unfolding R by simp
    qed
  qed
  show "mg_ok G ok ?m"
  proof (rule mg_okI)
    show "ok (mg_grph ?m)" using laws by (simp add: graph)
    show "finite (dom (mg_nodes ?m))"
      by (rule finite_subset [OF _ mg_okD(2) [OF m]]) (auto simp: nodes split: option.splits)
    have grp: "get_group_for_node ?m i = (if i \<in> ?R then get_group_for_node m i else {})" for i
      by (simp add: get_reachable_subgraph_def Let_def get_group_for_node_def)
    show "k \<in> get_group_for_node ?m i \<longleftrightarrow> mg_nodes ?m k = Some i" for k i
      using mg_okD(3) [OF m, of k i] unfolding grp nodes R by (auto split: option.splits if_splits)
    show "pg_node_weight G (mg_grph ?m) i \<noteq> None" if "mg_nodes ?m k = Some i" for k i
      using that mg_okD(4) [OF m, of k i] unfolding nodes weights by (auto split: option.splits if_splits)
  qed
qed

text \<open>Dropping what no name reaches.\<close>

lemma remove_nodes_loop:
  "ok g \<Longrightarrow> ok (foldl (\<lambda>g idx. snd (pg_remove_node G idx g)) g xs)
    \<and> pg_node_weight G (foldl (\<lambda>g idx. snd (pg_remove_node G idx g)) g xs)
        = (\<lambda>n. if n \<in> set xs then None else pg_node_weight G g n)
    \<and> weighted_arcs G (foldl (\<lambda>g idx. snd (pg_remove_node G idx g)) g xs)
        = {(a, w, b) \<in> weighted_arcs G g. a \<notin> set xs \<and> b \<notin> set xs}"
proof (induction xs arbitrary: g)
  case (Cons x xs)
  note r = remove_node_facts(1,2) [OF Cons.prems, of x]
  show ?case
    using Cons.IH [OF r(1)] r(2) weighted_arcs_remove [OF Cons.prems, of x] by (auto simp: fun_eq_iff)
qed auto

lemma remove_unreachable_from_label_spec:
  assumes m: "mg_ok G ok m"
  defines "R \<equiv> (arcs G (mg_grph m))\<^sup>* `` ran (mg_nodes m)"
  shows "mg_ok G ok (remove_nodes_unreachable_from_label G m)"
    "mg_nodes (remove_nodes_unreachable_from_label G m) = mg_nodes m"
    "pg_node_weight G (mg_grph (remove_nodes_unreachable_from_label G m)) n
       = (if n \<in> R then pg_node_weight G (mg_grph m) n else None)"
    "weighted_arcs G (mg_grph (remove_nodes_unreachable_from_label G m))
       = {(a, w, b) \<in> weighted_arcs G (mg_grph m). a \<in> R \<and> b \<in> R}"
proof -
  let ?m = "remove_nodes_unreachable_from_label G m"
  note okg = mg_okD(1) [OF m]
  have fin: "finite (ran (mg_nodes m))" using mg_okD(2) [OF m] by (rule finite_ran)
  have starts: "\<forall>s \<in> set (sorted_list_of_set (ran (mg_nodes m))). pg_node_weight G (mg_grph m) s \<noteq> None"
    using fin mg_okD(4) [OF m] by (auto simp: ran_def)
  have reached: "set (pg_dfs G (mg_grph m) (sorted_list_of_set (ran (mg_nodes m)))) = R"
    using dfs_laws [OF okg starts] fin by (simp add: R_def)
  let ?xs = "filter (\<lambda>x. x \<notin> R) (pg_node_indices G (mg_grph m))"
  have graph: "mg_grph ?m = foldl (\<lambda>g idx. snd (pg_remove_node G idx g)) (mg_grph m) ?xs"
    and nodes: "mg_nodes ?m = mg_nodes m" and grp: "get_group_for_node ?m i = get_group_for_node m i" for i
    by (simp_all add: remove_nodes_unreachable_from_label_def reached get_group_for_node_def)
  note loop = remove_nodes_loop [OF okg, of ?xs]
  have xs: "set ?xs = {n. pg_node_weight G (mg_grph m) n \<noteq> None \<and> n \<notin> R}"
    using node_indices_laws [OF okg] by auto
  show nodes': "mg_nodes ?m = mg_nodes m" by (rule nodes)
  show weights: "pg_node_weight G (mg_grph ?m) n = (if n \<in> R then pg_node_weight G (mg_grph m) n else None)" for n
    using loop unfolding graph xs by simp
  show "weighted_arcs G (mg_grph ?m) = {(a, w, b) \<in> weighted_arcs G (mg_grph m). a \<in> R \<and> b \<in> R}"
  proof -
    have "a \<notin> set ?xs \<and> b \<notin> set ?xs \<longleftrightarrow> a \<in> R \<and> b \<in> R" if "(a, w, b) \<in> weighted_arcs G (mg_grph m)" for a w b
      using weighted_arcs_nodes [OF okg that] unfolding xs by blast
    then show ?thesis using loop unfolding graph by blast
  qed
  show "mg_ok G ok ?m"
  proof (rule mg_okI)
    show "pg_node_weight G (mg_grph ?m) i \<noteq> None" if "mg_nodes ?m n = Some i" for n i
    proof -
      have "i \<in> R" using that unfolding R_def nodes by (auto simp: ran_def)
      then show ?thesis using that mg_okD(4) [OF m] unfolding weights nodes by simp
    qed
  qed (use loop mg_okD [OF m] nodes in \<open>simp_all add: graph grp\<close>)
qed

lemma add_name_ok:
  assumes m: "mg_ok G ok m" and x: "pg_node_weight G (mg_grph m) x \<noteq> None" and new: "mg_nodes m key = None"
  shows "mg_ok G ok (m\<lparr>mg_nodes := (mg_nodes m)(key \<mapsto> x),
     mg_reprs := (mg_reprs m)(x \<mapsto> insert key (get_group_for_node m x))\<rparr>)"
proof (rule mg_okI)
  let ?m = "m\<lparr>mg_nodes := (mg_nodes m)(key \<mapsto> x), mg_reprs := (mg_reprs m)(x \<mapsto> insert key (get_group_for_node m x))\<rparr>"
  have grp: "get_group_for_node ?m i = (if i = x then insert key (get_group_for_node m x) else get_group_for_node m i)" for i
    by (simp add: get_group_for_node_def)
  show "n \<in> get_group_for_node ?m i \<longleftrightarrow> mg_nodes ?m n = Some i" for n i
    using mg_okD(3) [OF m, of n] new unfolding grp by auto
qed (use x mg_okD [OF m] in \<open>auto split: if_splits\<close>)

lemma merge_nodes_ok:
  assumes m: "mg_ok G ok m"
  shows "\<exists>m'. merge_nodes G opr key1 key2 m = Some m' \<and> mg_ok G ok m'"
proof (cases "mg_nodes m key1"; cases "mg_nodes m key2")
  fix x assume "mg_nodes m key1 = None" "mg_nodes m key2 = Some x"
  then show ?thesis using add_name_ok [OF m mg_okD(4) [OF m]] by (simp add: merge_nodes_def)
next
  fix x assume "mg_nodes m key1 = Some x" "mg_nodes m key2 = None"
  then show ?thesis using add_name_ok [OF m mg_okD(4) [OF m]] by (simp add: merge_nodes_def)
next
  fix f s assume fs: "mg_nodes m key1 = Some f" "mg_nodes m key2 = Some s"
  then show ?thesis using merge_nodes_spec [OF m fs, of opr] m by (cases "f = s") (auto simp: merge_nodes_def)
qed (use m in \<open>simp add: merge_nodes_def\<close>)

lemma remove_node_ok:
  assumes m: "mg_ok G ok m"
  shows "\<exists>w m'. mg_remove_node G n m = Some (w, m') \<and> mg_ok G ok m' \<and> mg_nodes m' = (mg_nodes m)(n := None)"
proof (cases "mg_nodes m n")
  case None
  then show ?thesis using m by (auto simp: mg_remove_node_def)
next
  case (Some i)
  then show ?thesis using remove_node_spec [OF m Some] by blast
qed

lemma invariant_spec:
  assumes m: "mg_ok G ok m"
  shows "(\<exists>x m'. mg_add_node G opr k1 w m = Some (x, m') \<and> mg_ok G ok m' \<and> mg_nodes m' = (mg_nodes m)(k1 \<mapsto> x))
    \<and> (pg_node_weight G (mg_grph m) a \<noteq> None \<longrightarrow> pg_node_weight G (mg_grph m) b \<noteq> None \<longrightarrow>
         (\<exists>r m'. mg_add_edge G a b e m = Some (r, m') \<and> mg_ok G ok m' \<and> mg_nodes m' = mg_nodes m
           \<and> weighted_arcs G (mg_grph m') = insert (a, e, b) (weighted_arcs G (mg_grph m))
           \<and> (no_parallel G (mg_grph m) \<longrightarrow> no_parallel G (mg_grph m'))))
    \<and> (\<exists>m'. merge_nodes G opr k1 k2 m = Some m' \<and> mg_ok G ok m')
    \<and> (\<exists>r m'. mg_remove_node G k1 m = Some (r, m') \<and> mg_ok G ok m' \<and> mg_nodes m' = (mg_nodes m)(k1 := None))
    \<and> mg_ok G ok (snd (mg_remove_node_by_idx G a m))
    \<and> mg_ok G ok (remove_nodes_unreachable_from_label G m)"
proof (intro conjI impI)
  show "\<exists>x m'. mg_add_node G opr k1 w m = Some (x, m') \<and> mg_ok G ok m' \<and> mg_nodes m' = (mg_nodes m)(k1 \<mapsto> x)"
    using mg_add_node_spec [OF m] by blast
  show "\<exists>r m'. mg_add_edge G a b e m = Some (r, m') \<and> mg_ok G ok m' \<and> mg_nodes m' = mg_nodes m
      \<and> weighted_arcs G (mg_grph m') = insert (a, e, b) (weighted_arcs G (mg_grph m))
      \<and> (no_parallel G (mg_grph m) \<longrightarrow> no_parallel G (mg_grph m'))"
    if ab: "pg_node_weight G (mg_grph m) a \<noteq> None" "pg_node_weight G (mg_grph m) b \<noteq> None"
    using mg_add_edge_spec [OF m ab, of e] by fastforce
  show "\<exists>m'. merge_nodes G opr k1 k2 m = Some m' \<and> mg_ok G ok m'" by (rule merge_nodes_ok [OF m])
  show "\<exists>r m'. mg_remove_node G k1 m = Some (r, m') \<and> mg_ok G ok m' \<and> mg_nodes m' = (mg_nodes m)(k1 := None)"
    by (rule remove_node_ok [OF m])
  show "mg_ok G ok (snd (mg_remove_node_by_idx G a m))" using remove_node_by_idx_spec [OF m, of a] by auto
  show "mg_ok G ok (remove_nodes_unreachable_from_label G m)" by (rule remove_unreachable_from_label_spec(1) [OF m])
qed

end

section \<open>Properties\<close>


text \<open>
  Merging two keys of different nodes is the quotient that identifies the two nodes: one
  new node carries the merged weight, all names and all edges of both, loops included, and
  everything else is as before.
\<close>

theorem merge_nodes_identifies:
  assumes "stable_digraph G ok" "mg_ok G ok m" "mg_nodes m key1 = Some f" "mg_nodes m key2 = Some s" "f \<noteq> s"
  shows "\<exists>m' k wf ws. merge_nodes G opr key1 key2 m = Some m' \<and> mg_ok G ok m'
    \<and> pg_node_weight G (mg_grph m) k = None
    \<and> pg_node_weight G (mg_grph m) f = Some wf \<and> pg_node_weight G (mg_grph m) s = Some ws
    \<and> pg_node_weight G (mg_grph m') = (pg_node_weight G (mg_grph m))(k \<mapsto> opr wf ws, f := None, s := None)
    \<and> mg_nodes m' = (\<lambda>n. map_option (\<lambda>i. if i = f \<or> i = s then k else i) (mg_nodes m n))
    \<and> weighted_arcs G (mg_grph m') = (\<lambda>(a, w, b). (if a = f \<or> a = s then k else a, w, if b = f \<or> b = s then k else b))
        ` weighted_arcs G (mg_grph m)
    \<and> (no_parallel G (mg_grph m) \<longrightarrow> no_parallel G (mg_grph m'))"
  by (rule stable_digraph.merge_nodes_spec [OF assms])

text \<open>
  C28: the quotient by a partition of the nodes returns, has one node for each group, carrying
  the merged weight of the group and all its names, joins two groups by an edge exactly when
  some of their members are joined by one of that weight, and has no parallel edges.
\<close>

theorem quotient_graph_exact:
  assumes "stable_digraph G ok" "mg_ok G ok m"
    and "is_partition groups {n. pg_node_weight G (mg_grph m) n \<noteq> None}"
  shows "\<exists>m' q. quoetient_graph G opr groups m = Some m' \<and> mg_ok G ok m' \<and> no_parallel G (mg_grph m')
    \<and> {n. pg_node_weight G (mg_grph m') n \<noteq> None} = q ` {n. pg_node_weight G (mg_grph m) n \<noteq> None}
    \<and> card {n. pg_node_weight G (mg_grph m') n \<noteq> None} = length groups
    \<and> (\<forall>s \<in> set groups. \<forall>a \<in> s. pg_node_weight G (mg_grph m') (q a) = group_weight G opr (mg_grph m) s
         \<and> (\<forall>b. pg_node_weight G (mg_grph m) b \<noteq> None \<longrightarrow> (q a = q b \<longleftrightarrow> b \<in> s)))
    \<and> weighted_arcs G (mg_grph m') = (\<lambda>(a, w, b). (q a, w, q b)) ` weighted_arcs G (mg_grph m)
    \<and> mg_nodes m' = (\<lambda>n. map_option q (mg_nodes m n))"
  by (rule stable_digraph.quotient_graph_spec [OF assms])

text \<open>
  The subgraph reachable from a node keeps the invariant, keeps exactly the nodes and names
  that the node reaches, and reads the same words from the node to the same nodes.
\<close>

theorem reachable_subgraph_exact:
  assumes "stable_digraph G ok" "mg_ok G ok m" "pg_node_weight G (mg_grph m) n \<noteq> None"
  shows "mg_ok G ok (get_reachable_subgraph G m n)
    \<and> pg_node_weight G (mg_grph (get_reachable_subgraph G m n)) i
       = (if (n, i) \<in> (arcs G (mg_grph m))\<^sup>* then pg_node_weight G (mg_grph m) i else None)
    \<and> mg_nodes (get_reachable_subgraph G m n) k
       = (case mg_nodes m k of Some i \<Rightarrow> if (n, i) \<in> (arcs G (mg_grph m))\<^sup>* then Some i else None | None \<Rightarrow> None)
    \<and> (edge_path (weighted_arcs G (mg_grph (get_reachable_subgraph G m n))) n ws i
       \<longleftrightarrow> edge_path (weighted_arcs G (mg_grph m)) n ws i)"
  using stable_digraph.reachable_subgraph_spec [OF assms] by blast

section \<open>A concrete mapping graph\<close>

text \<open>Two named nodes with numbers as weights, joined by an edge and a loop.\<close>

definition pair_graph :: "((nat, nat) list_graph, nat) mapping_graph" where
  "pair_graph = \<lparr>mg_grph = \<lparr>lg_nodes = [(0, 5), (1, 7)], lg_edges = [(0, 0, 1, 9), (1, 1, 1, 8)],
        lg_next_node = 2, lg_next_edge = 2\<rparr>,
      mg_nodes = [10 \<mapsto> 0, 11 \<mapsto> 1], mg_reprs = [0 \<mapsto> {10}, 1 \<mapsto> {11}]\<rparr>"

lemma pair_graph_ok: "mg_ok list_digraph lg_ok pair_graph"
proof (rule mg_okI)
  show "lg_ok (mg_grph pair_graph)" by (auto simp: pair_graph_def lg_ok_def split: if_splits)
  show "n \<in> get_group_for_node pair_graph i \<longleftrightarrow> mg_nodes pair_graph n = Some i" for n i
    by (auto simp: pair_graph_def get_group_for_node_def)
qed (auto simp: pair_graph_def list_digraph_sel split: if_splits)

lemma pair_graph_weights: "pg_node_weight list_digraph (mg_grph pair_graph) n \<noteq> None \<longleftrightarrow> n = 0 \<or> n = 1"
  by (simp add: pair_graph_def list_digraph_sel)


theorem merge_nodes_identifies_witness:
  "\<exists>m' k. merge_nodes list_digraph (+) 10 11 pair_graph = Some m'
    \<and> weighted_arcs list_digraph (mg_grph m') = (\<lambda>(a, w, b). (if a = 0 \<or> a = 1 then k else a, w,
        if b = 0 \<or> b = 1 then k else b)) ` weighted_arcs list_digraph (mg_grph pair_graph)"
  using merge_nodes_identifies [OF list_pg.stable_digraph_axioms pair_graph_ok, of 10 0 11 1 "(+)"]
  by (auto simp: pair_graph_def)

theorem quotient_graph_exact_witness:
  "\<exists>m'. quoetient_graph list_digraph (+) [{0, 1}] pair_graph = Some m'
    \<and> card {n. pg_node_weight list_digraph (mg_grph m') n \<noteq> None} = 1"
proof -
  have "is_partition [{0, 1}] {n. pg_node_weight list_digraph (mg_grph pair_graph) n \<noteq> None}"
    by (auto simp: is_partition_def pair_graph_weights simp del: not_None_eq)
  from quotient_graph_exact [OF list_pg.stable_digraph_axioms pair_graph_ok this, of "(+)"]
  show ?thesis by auto
qed

theorem reachable_subgraph_exact_witness:
  "mg_ok list_digraph lg_ok (get_reachable_subgraph list_digraph pair_graph 1)"
  using reachable_subgraph_exact [OF list_pg.stable_digraph_axioms pair_graph_ok, of 1]
  by (simp add: pair_graph_weights del: not_None_eq)

end
