(* ===== verification/HashOrder.thy ===== *)
theory HashOrder
  imports Main
begin

text \<open>
  Hash sets and maps hand out their elements in an order that the standard library leaves
  open.  Where the code iterates over one, the model takes the order as an argument, a function
  from sets to lists, and its properties hold for every enumeration.
\<close>

definition is_enum :: "('a set \<Rightarrow> 'a list) \<Rightarrow> bool" where
  "is_enum f \<longleftrightarrow> (\<forall>S. finite S \<longrightarrow> set (f S) = S \<and> distinct (f S))"

lemma is_enumD: "is_enum f \<Longrightarrow> finite S \<Longrightarrow> set (f S) = S" "is_enum f \<Longrightarrow> finite S \<Longrightarrow> distinct (f S)"
  unfolding is_enum_def by blast+

lemma sorted_enum: "is_enum (sorted_list_of_set :: 'a::linorder set \<Rightarrow> 'a list)"
  by (simp add: is_enum_def)

end
