(* ===== verification/QuotientGroups.thy ===== *)
theory QuotientGroups
  imports MappingGraph ConstraintSets HashOrder "HOL-Library.Product_Lexorder"
begin

text \<open>
  The congruence of \<^verbatim>\<open>src/solver/type_sketch.rs\<close> that sketches are built from
  (\<^verbatim>\<open>generate_quotient_groups\<close>): the nodes related by a constraint are unified, and
  whenever two unified nodes have equally labelled edges (or a load and a store), so are the
  targets, until nothing changes.  The union-find structure is the one of the
  \<^verbatim>\<open>petgraph\<close> library: an argument of the model, with its documented behaviour as the
  locale \<open>union_find\<close>.  \<open>hord\<close> is the order in which a hash set hands out its elements.
\<close>

section \<open>Union-find\<close>

record 'u union_find_ops =
  uf_new :: "nat \<Rightarrow> 'u"
  uf_union :: "nat \<Rightarrow> nat \<Rightarrow> 'u \<Rightarrow> 'u option"
  uf_equiv :: "'u \<Rightarrow> nat \<Rightarrow> nat \<Rightarrow> bool option"
  uf_labeling :: "'u \<Rightarrow> nat list"

text \<open>The pairs of elements with the same representative.\<close>

definition uf_rel :: "'u union_find_ops \<Rightarrow> 'u \<Rightarrow> (nat \<times> nat) set" where
  "uf_rel U u = {(i, j). i < length (uf_labeling U u) \<and> j < length (uf_labeling U u)
     \<and> uf_labeling U u ! i = uf_labeling U u ! j}"

locale union_find =
  fixes U :: "'u union_find_ops" and ufok :: "'u \<Rightarrow> bool"
  assumes uf_new_laws: "ufok (uf_new U n)" "length (uf_labeling U (uf_new U n)) = n"
      "uf_rel U (uf_new U n) = {(i, j). i < n \<and> i = j}"
    and uf_equiv_law: "ufok u \<Longrightarrow> x < length (uf_labeling U u) \<Longrightarrow> y < length (uf_labeling U u) \<Longrightarrow>
      uf_equiv U u x y = Some ((x, y) \<in> uf_rel U u)"
    and uf_union_laws: "ufok u \<Longrightarrow> x < length (uf_labeling U u) \<Longrightarrow> y < length (uf_labeling U u) \<Longrightarrow>
      \<exists>u'. uf_union U x y u = Some u' \<and> ufok u' \<and> length (uf_labeling U u') = length (uf_labeling U u)
        \<and> uf_rel U u' = uf_rel U u \<union> {(i, j). (i, x) \<in> uf_rel U u \<and> (y, j) \<in> uf_rel U u}
             \<union> {(i, j). (i, y) \<in> uf_rel U u \<and> (x, j) \<in> uf_rel U u}
        \<and> ((x, y) \<in> uf_rel U u \<longrightarrow> uf_labeling U u' = uf_labeling U u)"

section \<open>Edge implications\<close>

record edge_implication =
  im_eq :: "nat \<times> nat"
  im_edge :: "nat \<times> nat"
  im_idxs :: "nat \<times> nat"

definition labels_unify :: "field_label \<Rightarrow> field_label \<Rightarrow> bool" where
  "labels_unify w1 w2 \<longleftrightarrow> w1 = w2 \<or> w1 = Load \<and> w2 = Store"

definition implication_of ::
    "('g, 'w, field_label) petgraph \<Rightarrow> 'g \<Rightarrow> nat \<times> nat \<Rightarrow> edge_implication list option" where
  "implication_of G g es =
     (case es of (e1, e2) \<Rightarrow>
        do { w1 \<leftarrow> edge_weight G g e1;
             w2 \<leftarrow> edge_weight G g e2;
             (src1, dst1) \<leftarrow> edge_endpoints G g e1;
             (src2, dst2) \<leftarrow> edge_endpoints G g e2;
             Some (if labels_unify w1 w2
               then [\<lparr>im_eq = (src1, src2), im_edge = (dst1, dst2), im_idxs = (e1, e2)\<rparr>] else []) })"

definition sketch_edge_set :: "('g, 'w, field_label) petgraph \<Rightarrow> 'g \<Rightarrow> edge_implication set option" where
  "sketch_edge_set G g =
     map_option (\<lambda>is. set (concat is))
       (traverse (implication_of G g) (List.product (pg_edge_indices G g) (pg_edge_indices G g)))"

definition create_union_find_for_graph_nodes ::
    "'u union_find_ops \<Rightarrow> ('g, 'w, 'e) petgraph \<Rightarrow> 'g \<Rightarrow> 'u" where
  "create_union_find_for_graph_nodes U G g =
     uf_new U (foldr max (pg_node_indices G g) 0 + 1)"

section \<open>The fixpoint\<close>

definition implication_step ::
    "'u union_find_ops \<Rightarrow> edge_implication \<Rightarrow> 'u \<times> edge_implication set \<Rightarrow>
     ('u \<times> edge_implication set) option" where
  "implication_step U implic st =
     (case st of (cons, impls) \<Rightarrow>
        do { eq \<leftarrow> uf_equiv U cons (fst (im_eq implic)) (snd (im_eq implic));
             if eq
             then map_option (\<lambda>cons'. (cons', impls - {implic}))
                    (uf_union U (fst (im_edge implic)) (snd (im_edge implic)) cons)
             else Some (cons, impls) })"

partial_function (option) quotient_loop ::
    "'u union_find_ops \<Rightarrow> (edge_implication set \<Rightarrow> edge_implication list) \<Rightarrow>
     'u \<times> edge_implication set \<Rightarrow> 'u option" where
  "quotient_loop U hord st =
     do { st' \<leftarrow> fold_opt (implication_step U) (hord (snd st)) st;
          if uf_labeling U (fst st') \<noteq> uf_labeling U (fst st)
          then quotient_loop U hord st' else Some (fst st') }"

definition groups_of_labeling ::
    "('g, 'w, 'e) petgraph \<Rightarrow> 'g \<Rightarrow> (nat set \<Rightarrow> nat list) \<Rightarrow> nat list \<Rightarrow> nat set list" where
  "groups_of_labeling G g vord lab =
     (let nds = filter (\<lambda>n. pg_node_weight G g n \<noteq> None) [0..<length lab]
      in map (\<lambda>l. set (filter (\<lambda>n. lab ! n = l) nds)) (vord (set (map ((!) lab) nds))))"

definition generate_quotient_groups_for_initial_set ::
    "'u union_find_ops \<Rightarrow> (edge_implication set \<Rightarrow> edge_implication list) \<Rightarrow> (nat set \<Rightarrow> nat list) \<Rightarrow>
     ('g, 'w, field_label) petgraph \<Rightarrow> 'g \<Rightarrow> (nat \<times> nat) list \<Rightarrow> nat set list option" where
  "generate_quotient_groups_for_initial_set U hord vord G g initial_unions =
     do { cons \<leftarrow> fold_opt (\<lambda>(src, dst). uf_union U src dst) initial_unions
            (create_union_find_for_graph_nodes U G g);
          edge_implications \<leftarrow> sketch_edge_set G g;
          cons' \<leftarrow> quotient_loop U hord (cons, edge_implications);
          Some (groups_of_labeling G g vord (uf_labeling U cons')) }"

definition generate_quotient_groups ::
    "'u union_find_ops \<Rightarrow> (edge_implication set \<Rightarrow> edge_implication list) \<Rightarrow> (nat set \<Rightarrow> nat list) \<Rightarrow>
     ('g, 'w, field_label) petgraph \<Rightarrow> ('g, 'tid dtv) mapping_graph \<Rightarrow>
     ('tid subtype_constraint) list \<Rightarrow> nat set list option" where
  "generate_quotient_groups U hord vord G m cons =
     do { init_unions \<leftarrow> traverse (\<lambda>sty.
            do { lt_node \<leftarrow> mg_get_node m (sub_lhs sty);
                 gt_node \<leftarrow> mg_get_node m (sub_rhs sty);
                 Some (lt_node, gt_node) }) cons;
          generate_quotient_groups_for_initial_set U hord vord G (mg_grph m) init_unions }"

section \<open>The congruence\<close>

text \<open>
  The least equivalence that contains the given pairs and relates the targets of two edges
  whenever it relates their sources and the labels unify.
\<close>

inductive unify :: "('n \<times> field_label \<times> 'n) set \<Rightarrow> ('n \<times> 'n) set \<Rightarrow> 'n \<Rightarrow> 'n \<Rightarrow> bool" for E I where
  U_init: "(a, b) \<in> I \<Longrightarrow> unify E I a b"
| U_refl: "unify E I a a"
| U_sym: "unify E I a b \<Longrightarrow> unify E I b a"
| U_trans: "unify E I a b \<Longrightarrow> unify E I b c \<Longrightarrow> unify E I a c"
| U_step: "unify E I a c \<Longrightarrow> (a, w1, b) \<in> E \<Longrightarrow> (c, w2, d) \<in> E \<Longrightarrow> labels_unify w1 w2 \<Longrightarrow> unify E I b d"

text \<open>An equivalence below the congruence that is closed under the steps is the congruence.\<close>

lemma unify_least:
  assumes "unify E I a b" "I \<subseteq> R" "\<And>x. (x, x) \<in> R" "sym R" "trans R"
    and "\<And>a b c d w1 w2. (a, c) \<in> R \<Longrightarrow> (a, w1, b) \<in> E \<Longrightarrow> (c, w2, d) \<in> E \<Longrightarrow> labels_unify w1 w2 \<Longrightarrow> (b, d) \<in> R"
  shows "(a, b) \<in> R"
  using assms(1)
proof induction
  case (U_sym a b)
  then show ?case using assms(4) by (auto dest: symD)
next
  case (U_trans a b c)
  then show ?case using assms(5) by (auto dest: transD)
qed (use assms(2,3,6) in blast)+

lemma unify_no_arc:
  assumes "unify E I a b" "a \<noteq> b"
  shows "a \<in> Relation.Field I \<union> (\<lambda>(_, _, b). b) ` E \<and> b \<in> Relation.Field I \<union> (\<lambda>(_, _, b). b) ` E"
  using assms
proof induction
  case (U_init a b)
  then show ?case by (auto simp: Relation.Field_def)
next
  case (U_trans a b c)
  then show ?case by metis
qed (auto intro: rev_image_eqI)

lemma uf_rel_equiv:
  "(i, j) \<in> uf_rel U u \<Longrightarrow> (j, i) \<in> uf_rel U u"
  "(i, j) \<in> uf_rel U u \<Longrightarrow> (j, k) \<in> uf_rel U u \<Longrightarrow> (i, k) \<in> uf_rel U u"
  "i < length (uf_labeling U u) \<Longrightarrow> (i, i) \<in> uf_rel U u"
  by (auto simp: uf_rel_def)

lemma uf_rel_finite: "finite (uf_rel U u)"
  by (rule finite_subset [of _ "{..<length (uf_labeling U u)} \<times> {..<length (uf_labeling U u)}"])
    (auto simp: uf_rel_def)

text \<open>
  What the fixpoint keeps, for \<open>N\<close> elements, the implications \<open>all_imps\<close> of the graph and a
  relation \<open>R\<close> that bounds the result.
\<close>

definition in_range :: "nat \<Rightarrow> edge_implication \<Rightarrow> bool" where
  "in_range N i \<longleftrightarrow> fst (im_eq i) < N \<and> snd (im_eq i) < N \<and> fst (im_edge i) < N \<and> snd (im_edge i) < N"

definition loop_ok ::
    "'u union_find_ops \<Rightarrow> ('u \<Rightarrow> bool) \<Rightarrow> nat \<Rightarrow> edge_implication set \<Rightarrow> (nat \<times> nat) set \<Rightarrow>
     'u \<times> edge_implication set \<Rightarrow> bool" where
  "loop_ok U ufok N all_imps R st \<longleftrightarrow>
     ufok (fst st) \<and> length (uf_labeling U (fst st)) = N \<and> snd st \<subseteq> all_imps
     \<and> uf_rel U (fst st) \<subseteq> R \<and> (\<forall>i \<in> all_imps - snd st. im_edge i \<in> uf_rel U (fst st))"

lemma loop_okD:
  assumes "loop_ok U ufok N all_imps R st"
  shows "ufok (fst st)" "length (uf_labeling U (fst st)) = N" "snd st \<subseteq> all_imps"
    "uf_rel U (fst st) \<subseteq> R" "i \<in> all_imps \<Longrightarrow> i \<notin> snd st \<Longrightarrow> im_edge i \<in> uf_rel U (fst st)"
  using assms unfolding loop_ok_def by blast+

text \<open>How a part of a round relates its states.\<close>

definition round_le ::
    "'u union_find_ops \<Rightarrow> 'u \<times> edge_implication set \<Rightarrow> 'u \<times> edge_implication set \<Rightarrow> bool" where
  "round_le U st st' \<longleftrightarrow> uf_rel U (fst st) \<subseteq> uf_rel U (fst st') \<and> snd st' \<subseteq> snd st
     \<and> (uf_rel U (fst st') = uf_rel U (fst st) \<longrightarrow> uf_labeling U (fst st') = uf_labeling U (fst st))"

lemma round_le_refl: "round_le U st st"
  by (simp add: round_le_def)

lemma round_le_trans: "round_le U a b \<Longrightarrow> round_le U b c \<Longrightarrow> round_le U a c"
  by (auto simp: round_le_def)

context union_find
begin

lemma implication_step_spec:
  assumes ok: "loop_ok U ufok N all_imps R st" and imp: "in_range N i" "i \<in> all_imps"
    and R: "trans R" "sym R" "im_eq i \<in> R \<Longrightarrow> im_edge i \<in> R"
  shows "\<exists>st'. implication_step U i st = Some st' \<and> loop_ok U ufok N all_imps R st' \<and> round_le U st st'
    \<and> (i \<in> snd st' \<longrightarrow> im_eq i \<notin> uf_rel U (fst st))"
proof -
  obtain u impls where st: "st = (u, impls)" by (cases st)
  obtain x y where xy: "im_edge i = (x, y)" by (cases "im_edge i")
  note okD = loop_okD [OF ok, unfolded st fst_conv snd_conv]
  have eq: "uf_equiv U u (fst (im_eq i)) (snd (im_eq i)) = Some (im_eq i \<in> uf_rel U u)"
    using uf_equiv_law [OF okD(1)] okD(2) imp(1) by (simp add: in_range_def)
  show ?thesis
  proof (cases "im_eq i \<in> uf_rel U u")
    case False
    then show ?thesis using eq ok by (simp add: implication_step_def st round_le_refl)
  next
    case True
    obtain u' where u': "uf_union U x y u = Some u'" "ufok u'" "length (uf_labeling U u') = length (uf_labeling U u)"
      "uf_rel U u' = uf_rel U u \<union> {(i, j). (i, x) \<in> uf_rel U u \<and> (y, j) \<in> uf_rel U u}
         \<union> {(i, j). (i, y) \<in> uf_rel U u \<and> (x, j) \<in> uf_rel U u}"
      "(x, y) \<in> uf_rel U u \<longrightarrow> uf_labeling U u' = uf_labeling U u"
      using uf_union_laws [OF okD(1), of x y] okD(2) imp(1) xy by (auto simp: in_range_def)
    have xR: "(x, y) \<in> R" using R(3) True okD(4) xy by auto
    have xx: "(x, x) \<in> uf_rel U u" "(y, y) \<in> uf_rel U u"
      using okD(2) imp(1) xy by (simp_all add: in_range_def uf_rel_def)
    have "uf_rel U u' \<subseteq> R"
    proof
      fix p assume "p \<in> uf_rel U u'"
      then obtain a b where p: "p = (a, b)" "(a, b) \<in> uf_rel U u \<or> (a, x) \<in> uf_rel U u \<and> (y, b) \<in> uf_rel U u
          \<or> (a, y) \<in> uf_rel U u \<and> (x, b) \<in> uf_rel U u" unfolding u'(4) by (cases p) auto
      have "(y, x) \<in> R" using xR R(2) by (rule symD [rotated])
      with p(2) okD(4) xR show "p \<in> R" unfolding p(1) using R(1) by (blast dest: transD)
    qed
    moreover have new: "(x, y) \<in> uf_rel U u'" unfolding u'(4) using xx by blast
    moreover have "im_edge j \<in> uf_rel U u'" if "j \<in> all_imps - (impls - {i})" for j
    proof (cases "j = i")
      case True
      then show ?thesis using new xy by simp
    next
      case False
      with that okD(5) [of j] show ?thesis unfolding u'(4) by blast
    qed
    ultimately have "loop_ok U ufok N all_imps R (u', impls - {i})"
      using u'(2,3) okD(2,3) by (auto simp: loop_ok_def)
    moreover have "round_le U st (u', impls - {i})"
      using u'(4,5) new by (auto simp: round_le_def st)
    ultimately show ?thesis using True eq u'(1) xy by (simp add: implication_step_def st)
  qed
qed

lemma round_spec:
  assumes "loop_ok U ufok N all_imps R st" "set is \<subseteq> all_imps" "\<forall>i \<in> all_imps. in_range N i"
    and R: "trans R" "sym R" "\<forall>i \<in> all_imps. im_eq i \<in> R \<longrightarrow> im_edge i \<in> R"
  shows "\<exists>st'. fold_opt (implication_step U) is st = Some st' \<and> loop_ok U ufok N all_imps R st'
    \<and> round_le U st st' \<and> (\<forall>i \<in> set is. i \<in> snd st' \<longrightarrow> im_eq i \<notin> uf_rel U (fst st))"
  using assms(1,2)
proof (induction "is" arbitrary: st)
  case Nil
  then show ?case by (simp add: round_le_refl)
next
  case (Cons i "is")
  obtain st1 where st1: "implication_step U i st = Some st1" "loop_ok U ufok N all_imps R st1" "round_le U st st1"
    "i \<in> snd st1 \<longrightarrow> im_eq i \<notin> uf_rel U (fst st)"
    using implication_step_spec [OF Cons.prems(1), of i] Cons.prems(2) assms(3) R by auto
  obtain st' where st': "fold_opt (implication_step U) is st1 = Some st'" "loop_ok U ufok N all_imps R st'"
    "round_le U st1 st'" "\<forall>i \<in> set is. i \<in> snd st' \<longrightarrow> im_eq i \<notin> uf_rel U (fst st1)"
    using Cons.IH [OF st1(2)] Cons.prems(2) by auto
  have "i \<in> snd st' \<longrightarrow> im_eq i \<notin> uf_rel U (fst st)"
    using st1(4) st'(3) by (auto simp: round_le_def)
  moreover have "\<forall>i \<in> set is. i \<in> snd st' \<longrightarrow> im_eq i \<notin> uf_rel U (fst st)"
    using st'(4) st1(3) by (auto simp: round_le_def)
  ultimately show ?case
    using st1(1) st'(1,2) round_le_trans [OF st1(3) st'(3)] by simp
qed

lemma quotient_loop_spec:
  assumes "loop_ok U ufok N all_imps R st" "finite all_imps" "\<forall>i \<in> all_imps. in_range N i"
    and R: "trans R" "sym R" "\<forall>i \<in> all_imps. im_eq i \<in> R \<longrightarrow> im_edge i \<in> R"
    and hord: "\<And>S. finite S \<Longrightarrow> set (hord S) = S"
  shows "\<exists>u. quotient_loop U hord st = Some u \<and> ufok u \<and> length (uf_labeling U u) = N
    \<and> uf_rel U (fst st) \<subseteq> uf_rel U u \<and> uf_rel U u \<subseteq> R
    \<and> (\<forall>i \<in> all_imps. im_eq i \<in> uf_rel U u \<longrightarrow> im_edge i \<in> uf_rel U u)"
  using assms(1)
proof (induction "N * N - card (uf_rel U (fst st))" arbitrary: st rule: less_induct)
  case less
  have fin: "finite (snd st)" using loop_okD(3) [OF less.prems] assms(2) by (rule finite_subset)
  then have "set (hord (snd st)) = snd st" by (rule hord)
  then obtain st' where st': "fold_opt (implication_step U) (hord (snd st)) st = Some st'"
    "loop_ok U ufok N all_imps R st'" "round_le U st st'"
    "\<forall>i \<in> snd st. i \<in> snd st' \<longrightarrow> im_eq i \<notin> uf_rel U (fst st)"
    using round_spec [OF less.prems _ assms(3) R, of "hord (snd st)"] loop_okD(3) [OF less.prems] by auto
  show ?case
  proof (cases "uf_labeling U (fst st') = uf_labeling U (fst st)")
    case True
    then have same: "uf_rel U (fst st') = uf_rel U (fst st)" by (simp add: uf_rel_def)
    have "im_edge i \<in> uf_rel U (fst st')" if "i \<in> all_imps" "im_eq i \<in> uf_rel U (fst st')" for i
    proof (cases "i \<in> snd st'")
      case True
      then have "i \<in> snd st" using st'(3) by (auto simp: round_le_def)
      with True st'(4) that(2) same show ?thesis by simp
    next
      case False
      then show ?thesis using loop_okD(5) [OF st'(2) that(1)] by simp
    qed
    then show ?thesis
      using True st'(1) loop_okD [OF st'(2)] same by (subst quotient_loop.simps) simp
  next
    case False
    then have "uf_rel U (fst st) \<subset> uf_rel U (fst st')" using st'(3) by (auto simp: round_le_def)
    then have grow: "card (uf_rel U (fst st)) < card (uf_rel U (fst st'))"
      by (rule psubset_card_mono [OF uf_rel_finite])
    have "card (uf_rel U (fst st')) \<le> card ({..<N} \<times> {..<N})"
      using loop_okD(2) [OF st'(2)] by (intro card_mono) (auto simp: uf_rel_def)
    then have "N * N - card (uf_rel U (fst st')) < N * N - card (uf_rel U (fst st))"
      using grow by simp
    from less.hyps [OF this st'(2)] obtain u where "quotient_loop U hord st' = Some u" "ufok u"
      "length (uf_labeling U u) = N" "uf_rel U (fst st') \<subseteq> uf_rel U u" "uf_rel U u \<subseteq> R"
      "\<forall>i \<in> all_imps. im_eq i \<in> uf_rel U u \<longrightarrow> im_edge i \<in> uf_rel U u"
      by blast
    then show ?thesis
      using False st'(1,3) by (subst quotient_loop.simps) (auto simp: round_le_def)
  qed
qed

lemma init_unions_spec:
  assumes "ufok u" "length (uf_labeling U u) = N" "\<forall>(x, y) \<in> set ps. x < N \<and> y < N"
    and R: "trans R" "sym R" "set ps \<subseteq> R" "uf_rel U u \<subseteq> R"
  shows "\<exists>u'. fold_opt (\<lambda>(src, dst). uf_union U src dst) ps u = Some u' \<and> ufok u'
    \<and> length (uf_labeling U u') = N \<and> uf_rel U u \<subseteq> uf_rel U u' \<and> set ps \<subseteq> uf_rel U u' \<and> uf_rel U u' \<subseteq> R"
  using assms
proof (induction ps arbitrary: u)
  case (Cons p ps)
  obtain x y where p: "p = (x, y)" by (cases p)
  have xy: "x < N" "y < N" "(x, y) \<in> R" "(y, x) \<in> R"
    using Cons.prems(3,6) symD [OF Cons.prems(5)] p by auto
  obtain u1 where u1: "uf_union U x y u = Some u1" "ufok u1" "length (uf_labeling U u1) = N"
    "uf_rel U u1 = uf_rel U u \<union> {(i, j). (i, x) \<in> uf_rel U u \<and> (y, j) \<in> uf_rel U u}
       \<union> {(i, j). (i, y) \<in> uf_rel U u \<and> (x, j) \<in> uf_rel U u}"
    using uf_union_laws [OF Cons.prems(1), of x y] Cons.prems(2) xy by auto
  have xx: "(x, x) \<in> uf_rel U u" "(y, y) \<in> uf_rel U u"
    using Cons.prems(2) xy by (simp_all add: uf_rel_def)
  have "uf_rel U u1 \<subseteq> R"
  proof
    fix q assume "q \<in> uf_rel U u1"
    then obtain a b where q: "q = (a, b)" "(a, b) \<in> uf_rel U u \<or> (a, x) \<in> uf_rel U u \<and> (y, b) \<in> uf_rel U u
        \<or> (a, y) \<in> uf_rel U u \<and> (x, b) \<in> uf_rel U u" unfolding u1(4) by (cases q) auto
    with Cons.prems(7) xy(3,4) show "q \<in> R" unfolding q(1) using Cons.prems(4) by (blast dest: transD)
  qed
  then obtain u' where "fold_opt (\<lambda>(src, dst). uf_union U src dst) ps u1 = Some u'" "ufok u'"
    "length (uf_labeling U u') = N" "uf_rel U u1 \<subseteq> uf_rel U u'" "set ps \<subseteq> uf_rel U u'" "uf_rel U u' \<subseteq> R"
    using Cons.IH [OF u1(2,3)] Cons.prems(3-6) by auto
  moreover have "(x, y) \<in> uf_rel U u1" "uf_rel U u \<subseteq> uf_rel U u1" unfolding u1(4) using xx by blast+
  ultimately show ?case using u1(1) by (auto simp: p)
qed simp

end

section \<open>The groups\<close>

lemma groups_of_labeling_spec:
  assumes vord: "is_enum vord" and nodes: "{n. pg_node_weight G g n \<noteq> None} \<subseteq> {..<length lab}"
  shows "is_partition (groups_of_labeling G g vord lab) {n. pg_node_weight G g n \<noteq> None}"
    and "pg_node_weight G g a \<noteq> None \<Longrightarrow> pg_node_weight G g b \<noteq> None \<Longrightarrow>
      (\<exists>s \<in> set (groups_of_labeling G g vord lab). a \<in> s \<and> b \<in> s) \<longleftrightarrow> lab ! a = lab ! b"
proof -
  let ?A = "{n. pg_node_weight G g n \<noteq> None}"
  let ?nds = "filter (\<lambda>n. pg_node_weight G g n \<noteq> None) [0..<length lab]"
  let ?ls = "vord (set (map ((!) lab) ?nds))"
  let ?grp = "\<lambda>l. {n \<in> ?A. lab ! n = l}"
  have nds: "set ?nds = ?A" using nodes by auto
  have fin: "finite (set (map ((!) lab) ?nds))" by simp
  have ls: "set ?ls = (!) lab ` ?A" "distinct ?ls"
    using is_enumD [OF vord fin] nds by (simp_all del: set_filter)
  have groups: "groups_of_labeling G g vord lab = map ?grp ?ls"
    unfolding groups_of_labeling_def Let_def using nds by (auto simp: set_filter)
  have "{} \<notin> set (map ?grp ?ls)" using ls(1) by auto
  moreover have "\<Union> (set (map ?grp ?ls)) = ?A" using ls(1) by auto
  moreover have "i = j" if "i < length ?ls" "j < length ?ls" "?grp (?ls ! i) \<inter> ?grp (?ls ! j) \<noteq> {}" for i j
  proof -
    have "?ls ! i = ?ls ! j" using that(3) by auto
    then show ?thesis using ls(2) that(1,2) by (simp add: nth_eq_iff_index_eq)
  qed
  ultimately show "is_partition (groups_of_labeling G g vord lab) ?A"
    unfolding groups is_partition_def by simp
  assume "pg_node_weight G g a \<noteq> None" "pg_node_weight G g b \<noteq> None"
  then show "(\<exists>s \<in> set (groups_of_labeling G g vord lab). a \<in> s \<and> b \<in> s) \<longleftrightarrow> lab ! a = lab ! b"
    unfolding groups using ls(1) by auto
qed

text \<open>The pairs of nodes that the constraints name.\<close>

definition constraint_pairs :: "('g, 'tid dtv) mapping_graph \<Rightarrow> 'tid subtype_constraint set \<Rightarrow> (nat \<times> nat) set" where
  "constraint_pairs m cons =
     {(i, j). \<exists>c \<in> cons. mg_nodes m (sub_lhs c) = Some i \<and> mg_nodes m (sub_rhs c) = Some j}"

locale sketch_quotient = stable_digraph G ok + union_find U ufok
  for G :: "('g, 'w, field_label) petgraph" and ok :: "'g \<Rightarrow> bool"
    and U :: "'u union_find_ops" and ufok :: "'u \<Rightarrow> bool"
begin

lemma sketch_edge_set_spec:
  assumes "ok g"
  shows "\<exists>S. sketch_edge_set G g = Some S \<and> finite S
    \<and> (\<forall>i. i \<in> S \<longrightarrow> (\<exists>w1 w2. (fst (im_eq i), w1, fst (im_edge i)) \<in> weighted_arcs G g
         \<and> (snd (im_eq i), w2, snd (im_edge i)) \<in> weighted_arcs G g \<and> labels_unify w1 w2))
    \<and> (\<forall>a b c d w1 w2. (a, w1, b) \<in> weighted_arcs G g \<longrightarrow> (c, w2, d) \<in> weighted_arcs G g \<longrightarrow> labels_unify w1 w2
         \<longrightarrow> (\<exists>i \<in> S. im_eq i = (a, c) \<and> im_edge i = (b, d)))"
proof -
  let ?es = "List.product (pg_edge_indices G g) (pg_edge_indices G g)"
  let ?f = "\<lambda>(e1, e2). case (the (pg_edge G g e1), the (pg_edge G g e2)) of ((s1, d1, w1), (s2, d2, w2)) \<Rightarrow>
      if labels_unify w1 w2 then [\<lparr>im_eq = (s1, s2), im_edge = (d1, d2), im_idxs = (e1, e2)\<rparr>] else []"
  have es: "set ?es = {(e1, e2). pg_edge G g e1 \<noteq> None \<and> pg_edge G g e2 \<noteq> None}"
    using edge_indices_laws [OF assms] by auto
  have step: "implication_of G g p = Some (?f p)" if "p \<in> set ?es" for p
    using that unfolding es
    by (auto simp: implication_of_def edge_weight_def edge_endpoints_def split: prod.splits)
  have "traverse (implication_of G g) ?es = Some (map ?f ?es)"
    by (rule traverse_Some_map) (rule step)
  then have S: "sketch_edge_set G g = Some (set (concat (map ?f ?es)))" by (simp add: sketch_edge_set_def)
  have sound: "\<exists>w1 w2. (fst (im_eq i), w1, fst (im_edge i)) \<in> weighted_arcs G g
         \<and> (snd (im_eq i), w2, snd (im_edge i)) \<in> weighted_arcs G g \<and> labels_unify w1 w2"
    if i: "i \<in> set (concat (map ?f ?es))" for i
  proof -
    obtain p where p: "p \<in> set ?es" "i \<in> set (?f p)" using i unfolding set_concat set_map by blast
    obtain e1 e2 where "p = (e1, e2)" by (rule prod.exhaust)
    with p have e: "(e1, e2) \<in> set ?es" "i \<in> set (?f (e1, e2))" by blast+
    from e(1) obtain s1 d1 w1 s2 d2 w2 where "pg_edge G g e1 = Some (s1, d1, w1)" "pg_edge G g e2 = Some (s2, d2, w2)"
      unfolding es by auto
    with e(2) show ?thesis by (auto simp: weighted_arcs_def split: if_splits)
  qed
  have complete: "\<exists>i \<in> set (concat (map ?f ?es)). im_eq i = (a, c) \<and> im_edge i = (b, d)"
    if arc: "(a, w1, b) \<in> weighted_arcs G g" "(c, w2, d) \<in> weighted_arcs G g" "labels_unify w1 w2" for a b c d w1 w2
  proof -
    obtain e1 e2 where e: "pg_edge G g e1 = Some (a, b, w1)" "pg_edge G g e2 = Some (c, d, w2)"
      using arc by (auto simp: weighted_arcs_def)
    then have "(e1, e2) \<in> set ?es" unfolding es by simp
    moreover have "\<lparr>im_eq = (a, c), im_edge = (b, d), im_idxs = (e1, e2)\<rparr> \<in> set (?f (e1, e2))"
      using e arc(3) by simp
    ultimately have "\<lparr>im_eq = (a, c), im_edge = (b, d), im_idxs = (e1, e2)\<rparr> \<in> set (concat (map ?f ?es))"
      unfolding set_concat set_map by blast
    then show ?thesis by (rule bexI [rotated]) simp
  qed
  show ?thesis
  proof (rule exI [of _ "set (concat (map ?f ?es))"], intro conjI allI impI)
    show "finite (set (concat (map ?f ?es)))" by (rule finite_set)
  qed (rule S, erule sound, erule (2) complete)
qed

lemma groups_spec:
  assumes g: "ok g" and hord: "is_enum hord" "is_enum vord"
    and init: "\<forall>(a, b) \<in> set init. pg_node_weight G g a \<noteq> None \<and> pg_node_weight G g b \<noteq> None"
  shows "\<exists>groups. generate_quotient_groups_for_initial_set U hord vord G g init = Some groups
    \<and> is_partition groups {n. pg_node_weight G g n \<noteq> None}
    \<and> (\<forall>a b. pg_node_weight G g a \<noteq> None \<longrightarrow> pg_node_weight G g b \<noteq> None \<longrightarrow>
         ((\<exists>s \<in> set groups. a \<in> s \<and> b \<in> s) \<longleftrightarrow> unify (weighted_arcs G g) (set init) a b))"
proof -
  let ?E = "weighted_arcs G g" and ?N = "foldr max (pg_node_indices G g) 0 + 1"
  let ?R = "{(a, b). unify ?E (set init) a b}"
  have max: "n \<in> set ns \<Longrightarrow> n \<le> foldr max ns 0" for n :: nat and ns by (induction ns) auto
  have nodes: "n < ?N" if "pg_node_weight G g n \<noteq> None" for n
    using max [of n "pg_node_indices G g"] node_indices_laws [OF g] that by simp
  have R: "trans ?R" "sym ?R" "set init \<subseteq> ?R"
    by (auto intro!: transI symI intro: U_trans U_sym U_init)
  obtain S where S: "sketch_edge_set G g = Some S" "finite S"
    "\<And>i. i \<in> S \<Longrightarrow> \<exists>w1 w2. (fst (im_eq i), w1, fst (im_edge i)) \<in> ?E
         \<and> (snd (im_eq i), w2, snd (im_edge i)) \<in> ?E \<and> labels_unify w1 w2"
    "\<And>a b c d w1 w2. (a, w1, b) \<in> ?E \<Longrightarrow> (c, w2, d) \<in> ?E \<Longrightarrow> labels_unify w1 w2
         \<Longrightarrow> \<exists>i \<in> S. im_eq i = (a, c) \<and> im_edge i = (b, d)"
    using sketch_edge_set_spec [OF g] by blast
  have range: "\<forall>i \<in> S. in_range ?N i"
  proof
    fix i assume "i \<in> S"
    then obtain w1 w2 where "(fst (im_eq i), w1, fst (im_edge i)) \<in> ?E" "(snd (im_eq i), w2, snd (im_edge i)) \<in> ?E"
      using S(3) by blast
    then show "in_range ?N i" using weighted_arcs_nodes [OF g] nodes unfolding in_range_def by blast
  qed
  have closed: "\<forall>i \<in> S. im_eq i \<in> ?R \<longrightarrow> im_edge i \<in> ?R"
  proof (intro ballI impI)
    fix i assume i: "i \<in> S" "im_eq i \<in> ?R"
    then obtain w1 w2 where "(fst (im_eq i), w1, fst (im_edge i)) \<in> ?E" "(snd (im_eq i), w2, snd (im_edge i)) \<in> ?E"
      "labels_unify w1 w2" using S(3) by blast
    moreover have "unify ?E (set init) (fst (im_eq i)) (snd (im_eq i))" using i(2) by (simp add: case_prod_unfold)
    ultimately have "unify ?E (set init) (fst (im_edge i)) (snd (im_edge i))" using U_step by metis
    then show "im_edge i \<in> ?R" by (simp add: case_prod_unfold)
  qed
  have diag: "uf_rel U (uf_new U ?N) \<subseteq> ?R" unfolding uf_new_laws(3) by (auto intro: U_refl)
  have "\<forall>(x, y) \<in> set init. x < ?N \<and> y < ?N" using init nodes by blast
  from init_unions_spec [OF uf_new_laws(1,2) this R diag]
  obtain u where u: "fold_opt (\<lambda>(src, dst). uf_union U src dst) init (uf_new U ?N) = Some u" "ufok u"
    "length (uf_labeling U u) = ?N" "set init \<subseteq> uf_rel U u" "uf_rel U u \<subseteq> ?R" by blast
  have "loop_ok U ufok ?N S ?R (u, S)" using u by (simp add: loop_ok_def)
  from quotient_loop_spec [OF this S(2) range R(1,2) closed is_enumD(1) [OF hord(1)]]
  obtain v where v: "quotient_loop U hord (u, S) = Some v" "length (uf_labeling U v) = ?N"
    "uf_rel U u \<subseteq> uf_rel U v" "uf_rel U v \<subseteq> ?R"
    "\<forall>i \<in> S. im_eq i \<in> uf_rel U v \<longrightarrow> im_edge i \<in> uf_rel U v" by auto
  have rel: "(a, b) \<in> uf_rel U v \<longleftrightarrow> unify ?E (set init) a b" if "a < ?N" "b < ?N" for a b
  proof
    assume "(a, b) \<in> uf_rel U v" then show "unify ?E (set init) a b" using v(4) by blast
  next
    assume un: "unify ?E (set init) a b"
    have "(a, b) \<in> uf_rel U v \<union> Id"
    proof (rule unify_least [OF un])
      show "sym (uf_rel U v \<union> Id)" by (rule symI) (auto intro: uf_rel_equiv(1))
      show "trans (uf_rel U v \<union> Id)" by (rule transI) (auto intro: uf_rel_equiv(2))
      show "(b, d) \<in> uf_rel U v \<union> Id"
        if ac: "(a, c) \<in> uf_rel U v \<union> Id" and e: "(a, w1, b) \<in> ?E" "(c, w2, d) \<in> ?E" "labels_unify w1 w2"
        for a b c d w1 w2
      proof -
        have "a < ?N" using weighted_arcs_nodes [OF g e(1)] nodes by blast
        then have "(a, c) \<in> uf_rel U v" using ac uf_rel_equiv(3) [of a U v] v(2) by auto
        moreover obtain i where "i \<in> S" "im_eq i = (a, c)" "im_edge i = (b, d)" using S(4) [OF e] by blast
        ultimately show ?thesis using v(5) by force
      qed
    qed (use u(4) v(3) in auto)
    then show "(a, b) \<in> uf_rel U v" using uf_rel_equiv(3) [of a U v] v(2) that by auto
  qed
  let ?groups = "groups_of_labeling G g vord (uf_labeling U v)"
  have sub: "{n. pg_node_weight G g n \<noteq> None} \<subseteq> {..<length (uf_labeling U v)}" using nodes v(2) by auto
  have "generate_quotient_groups_for_initial_set U hord vord G g init = Some ?groups"
    using u(1) S(1) v(1)
    by (simp add: generate_quotient_groups_for_initial_set_def create_union_find_for_graph_nodes_def)
  moreover have "(\<exists>s \<in> set ?groups. a \<in> s \<and> b \<in> s) \<longleftrightarrow> unify ?E (set init) a b"
    if ab: "pg_node_weight G g a \<noteq> None" "pg_node_weight G g b \<noteq> None" for a b
  proof -
    have "unify ?E (set init) a b \<longleftrightarrow> (a, b) \<in> uf_rel U v" using rel nodes ab by blast
    also have "\<dots> \<longleftrightarrow> uf_labeling U v ! a = uf_labeling U v ! b"
      using nodes ab v(2) by (simp add: uf_rel_def)
    finally show ?thesis using groups_of_labeling_spec(2) [OF hord(2) sub ab] by blast
  qed
  ultimately show ?thesis using groups_of_labeling_spec(1) [OF hord(2) sub] by blast
qed

lemma quotient_groups_spec:
  assumes m: "mg_ok G ok m" and ords: "is_enum hord" "is_enum vord"
    and named: "\<forall>c \<in> set cons. mg_nodes m (sub_lhs c) \<noteq> None \<and> mg_nodes m (sub_rhs c) \<noteq> None"
  shows "\<exists>groups. generate_quotient_groups U hord vord G m cons = Some groups
    \<and> is_partition groups {n. pg_node_weight G (mg_grph m) n \<noteq> None}
    \<and> (\<forall>a b. pg_node_weight G (mg_grph m) a \<noteq> None \<longrightarrow> pg_node_weight G (mg_grph m) b \<noteq> None \<longrightarrow>
         ((\<exists>s \<in> set groups. a \<in> s \<and> b \<in> s)
           \<longleftrightarrow> unify (weighted_arcs G (mg_grph m)) (constraint_pairs m (set cons)) a b))"
proof -
  let ?pair = "\<lambda>c. (the (mg_nodes m (sub_lhs c)), the (mg_nodes m (sub_rhs c)))"
  let ?step = "\<lambda>sty. do { lt_node \<leftarrow> mg_get_node m (sub_lhs sty); gt_node \<leftarrow> mg_get_node m (sub_rhs sty);
       Some (lt_node, gt_node) }"
  have "?step c = Some (?pair c)" if "c \<in> set cons" for c
    using named that by (auto simp: mg_get_node_def)
  then have trav: "traverse ?step cons = Some (map ?pair cons)" by (rule traverse_Some_map)
  have pairs: "set (map ?pair cons) = constraint_pairs m (set cons)"
    using named unfolding constraint_pairs_def by force
  have "\<forall>(a, b) \<in> set (map ?pair cons). pg_node_weight G (mg_grph m) a \<noteq> None \<and> pg_node_weight G (mg_grph m) b \<noteq> None"
    unfolding pairs constraint_pairs_def using mg_okD(4) [OF m] by blast
  from groups_spec [OF mg_okD(1) [OF m] ords this] show ?thesis
    unfolding generate_quotient_groups_def trav pairs by simp
qed

end

section \<open>A list-based union-find\<close>

definition list_uf :: "nat list union_find_ops" where
  "list_uf = \<lparr>uf_new = (\<lambda>n. [0..<n]),
     uf_union = (\<lambda>x y u. if x < length u \<and> y < length u
       then Some (map (\<lambda>l. if l = u ! y then u ! x else l) u) else None),
     uf_equiv = (\<lambda>u x y. if x < length u \<and> y < length u then Some (u ! x = u ! y) else None),
     uf_labeling = (\<lambda>u. u)\<rparr>"

interpretation list_uf: union_find list_uf "\<lambda>_. True"
proof (unfold_locales, goal_cases)
  case (5 u x y)
  then have xy: "x < length u" "y < length u" by (simp_all add: list_uf_def)
  let ?u = "map (\<lambda>l. if l = u ! y then u ! x else l) u"
  have "uf_rel list_uf ?u = uf_rel list_uf u \<union> {(i, j). (i, x) \<in> uf_rel list_uf u \<and> (y, j) \<in> uf_rel list_uf u}
      \<union> {(i, j). (i, y) \<in> uf_rel list_uf u \<and> (x, j) \<in> uf_rel list_uf u}"
    using xy unfolding uf_rel_def by (auto simp: list_uf_def split: if_splits)
  moreover have "(x, y) \<in> uf_rel list_uf u \<longrightarrow> ?u = u"
    unfolding uf_rel_def by (auto simp: list_uf_def intro!: map_idI)
  ultimately show ?case using xy by (intro exI [of _ ?u]) (simp add: list_uf_def)
qed (auto simp: list_uf_def uf_rel_def)

interpretation list_quotient: sketch_quotient list_digraph lg_ok list_uf "\<lambda>_. True"
  by unfold_locales

text \<open>An order in which implications can be handed out: by their numbers.\<close>

definition imp_key :: "edge_implication \<Rightarrow> (nat \<times> nat) \<times> (nat \<times> nat) \<times> nat \<times> nat" where
  "imp_key i = (im_eq i, im_edge i, im_idxs i)"

definition imp_enum :: "edge_implication set \<Rightarrow> edge_implication list" where
  "imp_enum S = map (\<lambda>(q, e, x). \<lparr>im_eq = q, im_edge = e, im_idxs = x\<rparr>) (sorted_list_of_set (imp_key ` S))"

lemma imp_enum: "is_enum imp_enum"
  unfolding is_enum_def
proof (intro allI impI conjI)
  fix S :: "edge_implication set" assume S: "finite S"
  have inv: "(case imp_key i of (q, e, x) \<Rightarrow> \<lparr>im_eq = q, im_edge = e, im_idxs = x\<rparr>) = i" for i
    by (simp add: imp_key_def)
  show "set (imp_enum S) = S" using S by (simp add: imp_enum_def image_image inv)
  show "distinct (imp_enum S)" using S by (auto simp: imp_enum_def distinct_map inj_on_def inv)
qed

section \<open>Properties\<close>

text \<open>
  C10: for constraints between named nodes the grouping ends, whatever the iteration order of the
  hash containers, and returns the partition of the nodes into the classes of the least
  congruence that relates the two sides of every constraint and, with two nodes, the targets of
  their edges of equal label or of a load and a store.
\<close>

theorem quotient_groups_congruence:
  assumes "sketch_quotient G ok U ufok" "mg_ok G ok m" "is_enum hord" "is_enum vord"
    and "\<forall>c \<in> set cons. mg_nodes m (sub_lhs c) \<noteq> None \<and> mg_nodes m (sub_rhs c) \<noteq> None"
  shows "\<exists>groups. generate_quotient_groups U hord vord G m cons = Some groups
    \<and> is_partition groups {n. pg_node_weight G (mg_grph m) n \<noteq> None}
    \<and> (\<forall>a b. pg_node_weight G (mg_grph m) a \<noteq> None \<longrightarrow> pg_node_weight G (mg_grph m) b \<noteq> None \<longrightarrow>
         ((\<exists>s \<in> set groups. a \<in> s \<and> b \<in> s)
           \<longleftrightarrow> unify (weighted_arcs G (mg_grph m)) (constraint_pairs m (set cons)) a b))"
  by (rule sketch_quotient.quotient_groups_spec [OF assms])

definition load_store_graph :: "((nat, field_label) list_graph, nat dtv) mapping_graph" where
  "load_store_graph = \<lparr>mg_grph = \<lparr>lg_nodes = [(0, 5), (1, 7), (2, 1), (3, 1)],
        lg_edges = [(0, 0, 2, Load), (1, 1, 3, Store)], lg_next_node = 4, lg_next_edge = 2\<rparr>,
      mg_nodes = [dtv_new (tv_new ''x'') \<mapsto> 0, dtv_new (tv_new ''y'') \<mapsto> 1],
      mg_reprs = [0 \<mapsto> {dtv_new (tv_new ''x'')}, 1 \<mapsto> {dtv_new (tv_new ''y'')}]\<rparr>"

lemma load_store_graph_ok: "mg_ok list_digraph lg_ok load_store_graph"
proof (rule mg_okI)
  show "lg_ok (mg_grph load_store_graph)" by (auto simp: load_store_graph_def lg_ok_def split: if_splits)
  show "n \<in> get_group_for_node load_store_graph i \<longleftrightarrow> mg_nodes load_store_graph n = Some i" for n i
    by (auto simp: load_store_graph_def get_group_for_node_def dtv_new_def tv_new_def)
qed (auto simp: load_store_graph_def list_digraph_sel split: if_splits)

theorem quotient_groups_congruence_witness:
  "\<exists>groups. generate_quotient_groups list_uf imp_enum sorted_list_of_set list_digraph load_store_graph
      [subtype_new (dtv_new (tv_new ''x'')) (dtv_new (tv_new ''y''))] = Some groups
    \<and> (\<exists>s \<in> set groups. 2 \<in> s \<and> 3 \<in> s)"
proof -
  let ?cons = "[subtype_new (dtv_new (tv_new ''x'')) (dtv_new (tv_new ''y''))] :: nat subtype_constraint list"
  let ?E = "weighted_arcs list_digraph (mg_grph load_store_graph)"
  have named: "\<forall>c \<in> set ?cons. mg_nodes load_store_graph (sub_lhs c) \<noteq> None
      \<and> mg_nodes load_store_graph (sub_rhs c) \<noteq> None"
    by (simp add: load_store_graph_def subtype_new_def)
  have "(0, 1) \<in> constraint_pairs load_store_graph (set ?cons)"
    by (simp add: constraint_pairs_def load_store_graph_def subtype_new_def dtv_new_def tv_new_def)
  moreover have "(0, Load, 2) \<in> ?E" "(1, Store, 3) \<in> ?E"
    by (force simp: weighted_arcs_def load_store_graph_def list_digraph_sel)+
  ultimately have "unify ?E (constraint_pairs load_store_graph (set ?cons)) 2 3"
    by (blast intro: U_step U_init labels_unify_def [THEN iffD2])
  moreover have "pg_node_weight list_digraph (mg_grph load_store_graph) 2 \<noteq> None"
    "pg_node_weight list_digraph (mg_grph load_store_graph) 3 \<noteq> None"
    by (simp_all add: load_store_graph_def list_digraph_sel)
  ultimately show ?thesis
    using quotient_groups_congruence [OF list_quotient.sketch_quotient_axioms load_store_graph_ok
        imp_enum sorted_enum named] by blast
qed

end
