(* ===== verification/TypeLattice.thy ===== *)
theory TypeLattice
  imports Petgraph HashOrder "HOL-Library.Monad_Syntax" "HOL-Library.List_Lexorder" "HOL-Library.Char_ord"
    "HOL-Library.Option_ord"
begin

text \<open>
  The user-defined type lattice of \<^verbatim>\<open>src/solver/type_lattice.rs\<close>: the strict relations
  between type names become a graph, from which the tables of joins and meets and the sets
  of greater names are computed.  Names are stored by hash maps and sets: \<open>hord\<close> is the order in
  which they are iterated, and no result depends on it.  The topological sort is the graph
  library's, the argument \<open>topo\<close>; it fails on a cyclic graph.
\<close>

section \<open>Definitions of lattices\<close>

record lattice_definition =
  less_than_relations_between_handles :: "(string \<times> string) list"
  top_handle :: string
  bottom_handle :: string
  weakest_integral_type :: string

definition merge_with_other :: "lattice_definition \<Rightarrow> lattice_definition \<Rightarrow> string + lattice_definition" where
  "merge_with_other self def =
     Inr (self\<lparr>less_than_relations_between_handles :=
       less_than_relations_between_handles self @ less_than_relations_between_handles def\<rparr>)"

definition lattice_definition_new ::
    "(string \<times> string) list \<Rightarrow> string \<Rightarrow> string \<Rightarrow> string \<Rightarrow> lattice_definition" where
  "lattice_definition_new rels t b w =
     \<lparr>less_than_relations_between_handles = rels, top_handle = t, bottom_handle = b, weakest_integral_type = w\<rparr>"

definition get_weakest_integral_type :: "lattice_definition \<Rightarrow> string" where
  "get_weakest_integral_type d = weakest_integral_type d"

section \<open>The graph of the relation\<close>

definition contains_edge :: "('g, 'w, 'e) petgraph \<Rightarrow> 'g \<Rightarrow> nat \<Rightarrow> nat \<Rightarrow> bool" where
  "contains_edge G g a b = list_ex (\<lambda>(_, _, t, _). t = b) (edges_directed G g a Outgoing)"

text \<open>The relations grouped by their left side.\<close>

definition lt_map :: "(string \<times> string) list \<Rightarrow> string \<Rightarrow> string set option" where
  "lt_map rels =
     foldl (\<lambda>m (x, y). m(x \<mapsto> insert y (case m x of Some s \<Rightarrow> s | None \<Rightarrow> {}))) Map.empty rels"

definition handle_node ::
    "('g, string, unit) petgraph \<Rightarrow> string \<Rightarrow> (string \<Rightarrow> nat option) \<times> 'g \<Rightarrow>
     nat \<times> (string \<Rightarrow> nat option) \<times> 'g" where
  "handle_node G x st =
     (case st of (holder, g) \<Rightarrow>
        (case holder x of
           Some n \<Rightarrow> (n, holder, g)
         | None \<Rightarrow> (let (n, g') = pg_add_node G x g in (n, holder(x \<mapsto> n), g'))))"

definition lt_edge ::
    "('g, string, unit) petgraph \<Rightarrow> nat \<Rightarrow> string \<Rightarrow> (string \<Rightarrow> nat option) \<times> 'g \<Rightarrow>
     ((string \<Rightarrow> nat option) \<times> 'g) option" where
  "lt_edge G parent y st =
     (case handle_node G y st of (target, holder, g) \<Rightarrow>
        if \<not> contains_edge G g parent target
        then map_option (\<lambda>(_, g'). (holder, g')) (pg_add_edge G parent target () g)
        else Some (holder, g))"

definition lt_group ::
    "(string set \<Rightarrow> string list) \<Rightarrow> ('g, string, unit) petgraph \<Rightarrow> string \<times> string set \<Rightarrow>
     (string \<Rightarrow> nat option) \<times> 'g \<Rightarrow> ((string \<Rightarrow> nat option) \<times> 'g) option" where
  "lt_group hord G grp st =
     (case grp of (x, ys) \<Rightarrow>
        (case handle_node G x st of (parent, st') \<Rightarrow> fold_opt (lt_edge G parent) (hord ys) st'))"

definition lt_groups ::
    "(string set \<Rightarrow> string list) \<Rightarrow> (string \<times> string) list \<Rightarrow> (string \<times> string set) list" where
  "lt_groups hord rels =
     map (\<lambda>x. (x, the (lt_map rels x))) (hord (set (map fst rels)))"

definition get_lt_graph ::
    "(string set \<Rightarrow> string list) \<Rightarrow> ('g, string, unit) petgraph \<Rightarrow> lattice_definition \<Rightarrow> 'g option" where
  "get_lt_graph hord G d =
     map_option snd (fold_opt (lt_group hord G)
       (lt_groups hord (less_than_relations_between_handles d)) (Map.empty, pg_new G))"

definition get_gt_graph ::
    "(string set \<Rightarrow> string list) \<Rightarrow> ('g, string, unit) petgraph \<Rightarrow> lattice_definition \<Rightarrow> 'g option" where
  "get_gt_graph hord G d = map_option (pg_reverse G) (get_lt_graph hord G d)"

section \<open>The tables\<close>

definition collect_reachable_nds :: "('g, 'w, 'e) petgraph \<Rightarrow> 'g \<Rightarrow> nat \<Rightarrow> nat set" where
  "collect_reachable_nds G g star = set (pg_dfs G g [star])"

text \<open>The first element with the least key.\<close>

fun min_by_key :: "('a \<Rightarrow> 'k::linorder) \<Rightarrow> 'a list \<Rightarrow> 'a option" where
  "min_by_key f [] = None"
| "min_by_key f (x # xs) =
     (case min_by_key f xs of
        None \<Rightarrow> Some x
      | Some y \<Rightarrow> Some (if f x \<le> f y then x else y))"

definition position_of :: "nat list \<Rightarrow> nat \<Rightarrow> nat option" where
  "position_of ns = map_of (zip ns [0..<length ns])"

definition table_entry ::
    "('g, string, unit) petgraph \<Rightarrow> 'g \<Rightarrow> nat list \<Rightarrow> nat \<times> nat \<Rightarrow> ((nat \<times> nat) \<times> nat) option" where
  "table_entry G g order ids =
     (case ids of (id1, id2) \<Rightarrow>
        (let gt_set1 = insert id1 (collect_reachable_nds G g id1);
             gt_set2 = insert id2 (collect_reachable_nds G g id2)
         in map_option (Pair ids)
              (min_by_key (position_of order) (sorted_list_of_set (gt_set1 \<inter> gt_set2)))))"

definition entry_names ::
    "('g, string, unit) petgraph \<Rightarrow> 'g \<Rightarrow> (nat \<times> nat) \<times> nat \<Rightarrow> ((string \<times> string) \<times> string) option" where
  "entry_names G g e =
     (case e of ((k1, k2), v) \<Rightarrow>
        do { n1 \<leftarrow> pg_node_weight G g k1; n2 \<leftarrow> pg_node_weight G g k2; n \<leftarrow> pg_node_weight G g v;
             Some ((n1, n2), n) })"

definition create_table ::
    "('g, string, unit) petgraph \<Rightarrow> ('g \<Rightarrow> nat list option) \<Rightarrow> 'g \<Rightarrow> (string \<times> string \<Rightarrow> string option) option" where
  "create_table G topo g =
     do { order \<leftarrow> topo g;
          join_res \<leftarrow> traverse (table_entry G g order)
            (List.product (pg_node_indices G g) (pg_node_indices G g));
          entries \<leftarrow> traverse (entry_names G g) join_res;
          Some (map_of (rev entries)) }"

definition create_join_table ::
    "(string set \<Rightarrow> string list) \<Rightarrow> ('g, string, unit) petgraph \<Rightarrow> ('g \<Rightarrow> nat list option) \<Rightarrow>
     lattice_definition \<Rightarrow> (string \<times> string \<Rightarrow> string option) option" where
  "create_join_table hord G topo d = Option.bind (get_lt_graph hord G d) (create_table G topo)"

definition create_meet_table ::
    "(string set \<Rightarrow> string list) \<Rightarrow> ('g, string, unit) petgraph \<Rightarrow> ('g \<Rightarrow> nat list option) \<Rightarrow>
     lattice_definition \<Rightarrow> (string \<times> string \<Rightarrow> string option) option" where
  "create_meet_table hord G topo d = Option.bind (get_gt_graph hord G d) (create_table G topo)"

definition create_reachable_sets ::
    "('g, string, unit) petgraph \<Rightarrow> 'g \<Rightarrow> (string \<Rightarrow> string set option) option" where
  "create_reachable_sets G g =
     map_option (\<lambda>ps. map_of (rev ps))
       (traverse (\<lambda>x. do { n \<leftarrow> pg_node_weight G g x;
            ys \<leftarrow> traverse (pg_node_weight G g) (sorted_list_of_set (collect_reachable_nds G g x));
            Some (n, set ys) }) (pg_node_indices G g))"

definition create_less_than_sets ::
    "(string set \<Rightarrow> string list) \<Rightarrow> ('g, string, unit) petgraph \<Rightarrow> lattice_definition \<Rightarrow>
     (string \<Rightarrow> string set option) option" where
  "create_less_than_sets hord G d = Option.bind (get_lt_graph hord G d) (create_reachable_sets G)"

section \<open>Lattice elements\<close>

record custom_lattice_element =
  ce_top :: string
  ce_bot :: string
  ce_elem :: string
  join_table :: "string \<times> string \<Rightarrow> string option"
  meet_table :: "string \<times> string \<Rightarrow> string option"
  orig_relation :: "string \<Rightarrow> string set option"

definition ce_get_name :: "custom_lattice_element \<Rightarrow> string" where
  "ce_get_name e = ce_elem e"

definition is_top :: "custom_lattice_element \<Rightarrow> bool" where
  "is_top e \<longleftrightarrow> ce_top e = ce_elem e"

definition is_bot :: "custom_lattice_element \<Rightarrow> bool" where
  "is_bot e \<longleftrightarrow> ce_bot e = ce_elem e"

definition show_ce :: "custom_lattice_element \<Rightarrow> string" where
  "show_ce e = ce_elem e"

definition ce_eq :: "custom_lattice_element \<Rightarrow> custom_lattice_element \<Rightarrow> bool" where
  "ce_eq e f \<longleftrightarrow> ce_elem e = ce_elem f"

datatype ordering = Less | Equal | Greater

text \<open>The outer option is the panic of \<^verbatim>\<open>unwrap\<close>, the inner one the incomparable case.\<close>

definition ce_partial_cmp ::
    "custom_lattice_element \<Rightarrow> custom_lattice_element \<Rightarrow> ordering option option" where
  "ce_partial_cmp e f =
     (if ce_elem e = ce_elem f then Some (Some Equal)
      else do { s \<leftarrow> orig_relation e (ce_elem e);
                if ce_elem f \<in> s then Some (Some Less)
                else do { t \<leftarrow> orig_relation e (ce_elem f);
                          if ce_elem e \<in> t then Some (Some Greater) else Some None } })"

definition ce_join :: "custom_lattice_element \<Rightarrow> custom_lattice_element \<Rightarrow> custom_lattice_element option" where
  "ce_join e f = map_option (\<lambda>x. e\<lparr>ce_elem := x\<rparr>) (join_table e (ce_elem e, ce_elem f))"

definition ce_meet :: "custom_lattice_element \<Rightarrow> custom_lattice_element \<Rightarrow> custom_lattice_element option" where
  "ce_meet e f = map_option (\<lambda>x. e\<lparr>ce_elem := x\<rparr>) (meet_table e (ce_elem e, ce_elem f))"

section \<open>The named lattice\<close>

record enumerated_named_lattice =
  enl_nds :: "string \<Rightarrow> custom_lattice_element option"
  enl_bottom :: custom_lattice_element
  enl_top :: custom_lattice_element

definition get_nds :: "enumerated_named_lattice \<Rightarrow> string \<Rightarrow> custom_lattice_element option" where
  "get_nds l = enl_nds l"

definition enl_get_elem :: "enumerated_named_lattice \<Rightarrow> string \<Rightarrow> custom_lattice_element option" where
  "enl_get_elem l name = enl_nds l name"

definition enl_bot_of :: "enumerated_named_lattice \<Rightarrow> custom_lattice_element" where
  "enl_bot_of l = enl_bottom l"

definition enl_top_of :: "enumerated_named_lattice \<Rightarrow> custom_lattice_element" where
  "enl_top_of l = enl_top l"

definition generate_lattice ::
    "(string set \<Rightarrow> string list) \<Rightarrow> ('g, string, unit) petgraph \<Rightarrow> ('g \<Rightarrow> nat list option) \<Rightarrow>
     lattice_definition \<Rightarrow> enumerated_named_lattice option" where
  "generate_lattice hord G topo d =
     do { join \<leftarrow> create_join_table hord G topo d;
          meet \<leftarrow> create_meet_table hord G topo d;
          lt_set \<leftarrow> create_less_than_sets hord G d;
          let tp = \<lparr>ce_top = top_handle d, ce_bot = bottom_handle d, ce_elem = top_handle d,
                join_table = join, meet_table = meet, orig_relation = lt_set\<rparr>;
              bt = tp\<lparr>ce_elem := bottom_handle d\<rparr>;
              names = concat (map (\<lambda>(x, y). [x, y]) (less_than_relations_between_handles d))
                @ [top_handle d, bottom_handle d]
          in Some \<lparr>enl_nds = map_of (map (\<lambda>n. (n, tp\<lparr>ce_elem := n\<rparr>)) names),
                   enl_bottom = bt, enl_top = tp\<rparr> }"

section \<open>The order of a definition\<close>

definition handles :: "lattice_definition \<Rightarrow> string set" where
  "handles d = fst ` set (less_than_relations_between_handles d) \<union> snd ` set (less_than_relations_between_handles d)"

definition lt_rel :: "lattice_definition \<Rightarrow> (string \<times> string) set" where
  "lt_rel d = set (less_than_relations_between_handles d)"

text \<open>Least upper bounds in the reachability order of a relation; greatest lower ones in its converse.\<close>

definition lub_of :: "('a \<times> 'a) set \<Rightarrow> 'a \<Rightarrow> 'a \<Rightarrow> 'a \<Rightarrow> bool" where
  "lub_of r x y z \<longleftrightarrow> (x, z) \<in> r\<^sup>* \<and> (y, z) \<in> r\<^sup>* \<and> (\<forall>u. (x, u) \<in> r\<^sup>* \<longrightarrow> (y, u) \<in> r\<^sup>* \<longrightarrow> (z, u) \<in> r\<^sup>*)"

section \<open>What the library promises of a topological sort\<close>

definition is_toposort ::
    "('g, 'w, 'e) petgraph \<Rightarrow> ('g \<Rightarrow> bool) \<Rightarrow> ('g \<Rightarrow> nat list option) \<Rightarrow> bool" where
  "is_toposort G ok topo \<longleftrightarrow> (\<forall>g. ok g \<longrightarrow>
     (case topo g of
        None \<Rightarrow> \<not> acyclic (arcs G g)
      | Some order \<Rightarrow> distinct order \<and> set order = {n. pg_node_weight G g n \<noteq> None}
          \<and> (\<forall>(a, b) \<in> arcs G g. position_of order a < position_of order b)))"

section \<open>The graph represents the relation\<close>

definition name_graph ::
    "('g, string, 'e) petgraph \<Rightarrow> ('g \<Rightarrow> bool) \<Rightarrow> (string \<Rightarrow> nat option) \<Rightarrow> 'g \<Rightarrow>
     (string \<times> string) set \<Rightarrow> string set \<Rightarrow> bool" where
  "name_graph G ok holder g r E \<longleftrightarrow> ok g \<and> dom holder = E \<and> r \<subseteq> E \<times> E
     \<and> (\<forall>n w. pg_node_weight G g n = Some w \<longleftrightarrow> holder w = Some n)
     \<and> arcs G g = {(a, b). \<exists>x y. (x, y) \<in> r \<and> holder x = Some a \<and> holder y = Some b}"

lemma name_graphD:
  assumes "name_graph G ok holder g r E"
  shows "ok g" "dom holder = E" "pg_node_weight G g n = Some w \<longleftrightarrow> holder w = Some n"
    "(a, b) \<in> arcs G g \<longleftrightarrow> (\<exists>x y. (x, y) \<in> r \<and> holder x = Some a \<and> holder y = Some b)"
    "r \<subseteq> E \<times> E"
  using assms unfolding name_graph_def by blast+

lemma name_graph_inj:
  assumes "name_graph G ok holder g r E" "holder x = Some n" "holder y = Some n"
  shows "x = y"
  using name_graphD(3) [OF assms(1), of n] assms(2,3) by (metis option.inject)

lemma rel_eqI: "(\<And>a b. (a, b) \<in> A \<longleftrightarrow> Q a b) \<Longrightarrow> A = {(a, b). Q a b}"
  by auto

lemma lt_map_eq:
  "lt_map rels x = (if x \<in> fst ` set rels then Some {y. (x, y) \<in> set rels} else None)"
proof (induction rels rule: rev_induct)
  case (snoc p rels)
  obtain a b where p: "p = (a, b)" by (cases p)
  show ?case
  proof (cases "x = a")
    case True
    have "insert b (case lt_map rels a of Some s \<Rightarrow> s | None \<Rightarrow> {}) = {y. (a, y) \<in> set (rels @ [p])}"
      using snoc True p by (force split: option.splits if_splits)
    then show ?thesis using True p by (simp add: lt_map_def)
  next
    case False
    then show ?thesis using snoc p by (auto simp: lt_map_def)
  qed
qed (simp add: lt_map_def)

context stable_digraph
begin

lemma contains_edge_iff: "ok g \<Longrightarrow> contains_edge G g a b \<longleftrightarrow> (a, b) \<in> arcs G g"
  by (force simp: contains_edge_def list_ex_iff set_edges_directed arcs_def)

end

text \<open>Graphs with names as weights.\<close>

locale name_digraph = stable_digraph G ok for G :: "('g, string, unit) petgraph" and ok :: "'g \<Rightarrow> bool"
begin

lemma handle_node_spec:
  assumes ng: "name_graph G ok holder g r E"
  shows "\<exists>n holder' g'. handle_node G x (holder, g) = (n, holder', g') \<and> name_graph G ok holder' g' r (insert x E)
    \<and> holder' x = Some n \<and> (\<forall>y. holder y \<noteq> None \<longrightarrow> holder' y = holder y)"
proof (cases "holder x")
  case (Some n)
  then have "insert x E = E" using name_graphD(2) [OF ng] by auto
  with Some ng show ?thesis by (simp add: handle_node_def)
next
  case None
  obtain n g' where add: "pg_add_node G x g = (n, g')" by force
  have g': "ok g'" "pg_node_weight G g n = None" "pg_node_weight G g' = (pg_node_weight G g)(n \<mapsto> x)"
    "pg_edge G g' = pg_edge G g"
    using add_node_laws [OF name_graphD(1) [OF ng] add] by simp_all
  have fresh: "holder y \<noteq> Some n" for y
    using name_graphD(3) [OF ng, of n y] g'(2) by simp
  have xE: "x \<notin> E" using None name_graphD(2) [OF ng] by auto
  have same: "(holder(x \<mapsto> n)) y = holder y" if "y \<in> E" for y using that xE by auto
  have "name_graph G ok (holder(x \<mapsto> n)) g' r (insert x E)"
    unfolding name_graph_def
  proof (intro conjI allI)
    show "pg_node_weight G g' k = Some w \<longleftrightarrow> (holder(x \<mapsto> n)) w = Some k" for k w
      using name_graphD(3) [OF ng, of k w] None fresh unfolding g'(3) by auto
    have arcs': "arcs G g' = arcs G g" by (simp add: arcs_def g'(4))
    have "(x', y') \<in> r \<and> holder x' = Some a \<and> holder y' = Some b
        \<longleftrightarrow> (x', y') \<in> r \<and> (holder(x \<mapsto> n)) x' = Some a \<and> (holder(x \<mapsto> n)) y' = Some b" for x' y' a b
      using name_graphD(5) [OF ng] same by (metis SigmaD1 SigmaD2 subsetD)
    then show "arcs G g' = {(a, b). \<exists>x' y'. (x', y') \<in> r \<and> (holder(x \<mapsto> n)) x' = Some a
        \<and> (holder(x \<mapsto> n)) y' = Some b}"
      unfolding arcs' by (intro rel_eqI) (simp only: name_graphD(4) [OF ng])
  qed (use g'(1) name_graphD(2,5) [OF ng] in auto)
  then show ?thesis using None add
    by (intro exI [of _ n] exI [of _ "holder(x \<mapsto> n)"] exI [of _ g']) (auto simp: handle_node_def)
qed

lemma lt_edge_spec:
  assumes ng: "name_graph G ok holder g r E" and x: "holder x = Some parent"
  shows "\<exists>holder' g'. lt_edge G parent y (holder, g) = Some (holder', g')
    \<and> name_graph G ok holder' g' (insert (x, y) r) (insert y E) \<and> holder' x = Some parent"
proof -
  obtain n h g1 where h: "handle_node G y (holder, g) = (n, h, g1)" "name_graph G ok h g1 r (insert y E)"
    "h y = Some n" "\<forall>z. holder z \<noteq> None \<longrightarrow> h z = holder z"
    using handle_node_spec [OF ng] by blast
  have hx: "h x = Some parent" using h(4) x by auto
  note okg = name_graphD(1) [OF h(2)]
  have xE: "(x, y) \<in> insert y E \<times> insert y E" using hx name_graphD(2) [OF h(2)] by auto
  have ng': "name_graph G ok h g2 (insert (x, y) r) (insert y E)"
    if "ok g2" "pg_node_weight G g2 = pg_node_weight G g1" "arcs G g2 = insert (parent, n) (arcs G g1)" for g2
    unfolding name_graph_def
  proof (intro conjI allI)
    show "pg_node_weight G g2 k = Some w \<longleftrightarrow> h w = Some k" for k w
      using name_graphD(3) [OF h(2)] that(2) by simp
    show "arcs G g2 = {(a, b). \<exists>x' y'. (x', y') \<in> insert (x, y) r \<and> h x' = Some a \<and> h y' = Some b}"
    proof -
      have "(a, b) \<in> insert (parent, n) (arcs G g1) \<longleftrightarrow>
          (\<exists>x' y'. (x', y') \<in> insert (x, y) r \<and> h x' = Some a \<and> h y' = Some b)" for a b
        unfolding insert_iff name_graphD(4) [OF h(2), of a b] prod.inject using h(3) hx
        by (metis option.inject)
      then show ?thesis unfolding that(3) by (rule rel_eqI)
    qed
  qed (use that(1) name_graphD(2,5) [OF h(2)] xE in auto)
  show ?thesis
  proof (cases "contains_edge G g1 parent n")
    case True
    then have "arcs G g1 = insert (parent, n) (arcs G g1)" using contains_edge_iff [OF okg] by blast
    with ng' [OF okg] hx True h(1) show ?thesis by (intro exI [of _ h] exI [of _ g1]) (simp add: lt_edge_def)
  next
    case False
    have "pg_node_weight G g1 parent \<noteq> None" "pg_node_weight G g1 n \<noteq> None"
      using name_graphD(3) [OF h(2)] hx h(3) by blast+
    then obtain i g2 where add: "pg_add_edge G parent n () g1 = Some (i, g2)"
      using add_edge_None [OF okg, of parent n "()"] by (metis not_None_eq prod.collapse)
    have "arcs G g2 = insert (parent, n) (arcs G g1)"
      using weighted_arcs_add [OF okg add] by (auto simp: arcs_weighted)
    with ng' [of g2] add_edge_laws [OF okg add] hx False h(1) add show ?thesis
      by (intro exI [of _ h] exI [of _ g2]) (simp add: lt_edge_def)
  qed
qed

lemma lt_edges_spec:
  "name_graph G ok holder g r E \<Longrightarrow> holder x = Some parent \<Longrightarrow>
   \<exists>holder' g'. fold_opt (lt_edge G parent) ys (holder, g) = Some (holder', g')
    \<and> name_graph G ok holder' g' (r \<union> {x} \<times> set ys) (E \<union> set ys)"
proof (induction ys arbitrary: holder g r E)
  case (Cons y ys)
  obtain h g1 where h: "lt_edge G parent y (holder, g) = Some (h, g1)"
    "name_graph G ok h g1 (insert (x, y) r) (insert y E)" "h x = Some parent"
    using lt_edge_spec [OF Cons.prems] by blast
  have "insert (x, y) r \<union> {x} \<times> set ys = r \<union> {x} \<times> set (y # ys)" "insert y E \<union> set ys = E \<union> set (y # ys)" by auto
  with Cons.IH [OF h(2,3)] h(1) show ?case by simp
qed auto

lemma lt_groups_spec:
  assumes "name_graph G ok holder g r E" "is_enum hord" "\<forall>(x, ys) \<in> set grps. finite ys"
  shows "\<exists>holder' g'. fold_opt (lt_group hord G) grps (holder, g) = Some (holder', g')
    \<and> name_graph G ok holder' g' (r \<union> {(x, y). \<exists>ys. (x, ys) \<in> set grps \<and> y \<in> ys})
        (E \<union> (\<Union>(x, ys) \<in> set grps. insert x ys))"
  using assms
proof (induction grps arbitrary: holder g r E)
  case (Cons p grps)
  obtain x ys where p: "p = (x, ys)" by (cases p)
  obtain n h1 g1 where h1: "handle_node G x (holder, g) = (n, h1, g1)" "name_graph G ok h1 g1 r (insert x E)"
    "h1 x = Some n"
    using handle_node_spec [OF Cons.prems(1)] by blast
  have ys: "set (hord ys) = ys" using is_enumD(1) [OF Cons.prems(2)] Cons.prems(3) p by simp
  obtain h2 g2 where h2: "fold_opt (lt_edge G n) (hord ys) (h1, g1) = Some (h2, g2)"
    "name_graph G ok h2 g2 (r \<union> {x} \<times> ys) (insert x E \<union> ys)"
    using lt_edges_spec [OF h1(2,3), of "hord ys"] unfolding ys by blast
  have fin: "\<forall>(x, ys) \<in> set grps. finite ys" using Cons.prems(3) by simp
  have "r \<union> {x} \<times> ys \<union> {(x, y). \<exists>ys. (x, ys) \<in> set grps \<and> y \<in> ys}
      = r \<union> {(x, y). \<exists>ys. (x, ys) \<in> set (p # grps) \<and> y \<in> ys}"
    "insert x E \<union> ys \<union> (\<Union>(x, ys) \<in> set grps. insert x ys) = E \<union> (\<Union>(x, ys) \<in> set (p # grps). insert x ys)"
    by (auto simp: p)
  with Cons.IH [OF h2(2) Cons.prems(2) fin] h1(1) h2(1) show ?case by (simp add: p lt_group_def)
qed auto

lemma lt_graph_spec:
  assumes "is_enum hord"
  shows "\<exists>g holder. get_lt_graph hord G d = Some g \<and> name_graph G ok holder g (lt_rel d) (handles d)"
proof -
  let ?rels = "less_than_relations_between_handles d"
  have empty: "name_graph G ok Map.empty (pg_new G) {} {}"
    by (simp add: name_graph_def new_graph arcs_def)
  have grps: "set (lt_groups hord ?rels) = (\<lambda>x. (x, {y. (x, y) \<in> set ?rels})) ` fst ` set ?rels"
    using is_enumD(1) [OF assms, of "fst ` set ?rels"] by (auto simp: lt_groups_def lt_map_eq image_iff)
  have "{y. (x, y) \<in> set ?rels} \<subseteq> snd ` set ?rels" for x by force
  then have fin: "\<forall>(x, ys) \<in> set (lt_groups hord ?rels). finite ys"
    unfolding grps by (auto intro: finite_subset)
  have "{(x, y). \<exists>ys. (x, ys) \<in> set (lt_groups hord ?rels) \<and> y \<in> ys} = lt_rel d"
    unfolding grps lt_rel_def by force
  moreover have "(\<Union>(x, ys) \<in> set (lt_groups hord ?rels). insert x ys) = handles d"
    unfolding grps handles_def by force
  ultimately show ?thesis
    using lt_groups_spec [OF empty assms fin] by (auto simp: get_lt_graph_def)
qed

lemma gt_graph_spec:
  assumes "is_enum hord"
  shows "\<exists>g holder. get_gt_graph hord G d = Some g \<and> name_graph G ok holder g ((lt_rel d)\<inverse>) (handles d)"
proof -
  obtain g holder where g: "get_lt_graph hord G d = Some g" "name_graph G ok holder g (lt_rel d) (handles d)"
    using lt_graph_spec [OF assms] by blast
  note rev = reverse_laws [OF name_graphD(1) [OF g(2)]]
  have "pg_edge G (pg_reverse G g) i = Some (a, b, e) \<longleftrightarrow> pg_edge G g i = Some (b, a, e)" for i a b e
    using rev by (cases "pg_edge G g i") auto
  then have "arcs G (pg_reverse G g) = (arcs G g)\<inverse>" by (auto simp: arcs_def)
  then have "(a, b) \<in> arcs G (pg_reverse G g) \<longleftrightarrow>
      (\<exists>x y. (x, y) \<in> (lt_rel d)\<inverse> \<and> holder x = Some a \<and> holder y = Some b)" for a b
    using name_graphD(4) [OF g(2), of b a] by (simp, blast)
  then have "arcs G (pg_reverse G g) = {(a, b). \<exists>x y. (x, y) \<in> (lt_rel d)\<inverse> \<and> holder x = Some a \<and> holder y = Some b}"
    by (rule rel_eqI)
  then have "name_graph G ok holder (pg_reverse G g) ((lt_rel d)\<inverse>) (handles d)"
    using rev name_graphD(2,3,5) [OF g(2)] unfolding name_graph_def by auto
  then show ?thesis using g(1) by (auto simp: get_gt_graph_def)
qed

lemma name_reach:
  assumes ng: "name_graph G ok holder g r E" and x: "holder x = Some a"
  shows "(a, b) \<in> (arcs G g)\<^sup>* \<longleftrightarrow> (\<exists>y. holder y = Some b \<and> (x, y) \<in> r\<^sup>*)"
proof
  assume "(a, b) \<in> (arcs G g)\<^sup>*"
  then show "\<exists>y. holder y = Some b \<and> (x, y) \<in> r\<^sup>*"
  proof (induction rule: rtrancl_induct)
    case base
    then show ?case using x by blast
  next
    case (step b c)
    then obtain y where y: "holder y = Some b" "(x, y) \<in> r\<^sup>*" by blast
    obtain y' z where z: "(y', z) \<in> r" "holder y' = Some b" "holder z = Some c"
      using step(2) name_graphD(4) [OF ng] by blast
    have "y' = y" using name_graph_inj [OF ng z(2) y(1)] .
    with y(2) z(1,3) show ?case by (blast intro: rtrancl_into_rtrancl)
  qed
next
  assume "\<exists>y. holder y = Some b \<and> (x, y) \<in> r\<^sup>*"
  then obtain y where y: "(x, y) \<in> r\<^sup>*" "holder y = Some b" by blast
  then show "(a, b) \<in> (arcs G g)\<^sup>*"
  proof (induction arbitrary: b rule: rtrancl_induct)
    case base
    then show ?case using x by simp
  next
    case (step y z)
    obtain c where "holder y = Some c"
      using name_graphD(2,5) [OF ng] step(2) by blast
    then show ?case using step name_graphD(4) [OF ng] by (blast intro: rtrancl_into_rtrancl)
  qed
qed

lemma name_held:
  assumes ng: "name_graph G ok holder g r E" and "(x, z) \<in> r\<^sup>*" "holder x = Some a"
  shows "\<exists>c. holder z = Some c"
  using assms(2,3)
proof (induction rule: rtrancl_induct)
  case (step y z)
  then have "z \<in> E" using name_graphD(5) [OF ng] by blast
  then show ?case using name_graphD(2) [OF ng] by blast
qed blast

lemma name_acyclic: "name_graph G ok holder g r E \<Longrightarrow> acyclic (arcs G g) \<longleftrightarrow> acyclic r"
proof -
  assume ng: "name_graph G ok holder g r E"
  have step: "(a, b) \<in> (arcs G g)\<^sup>+ \<longleftrightarrow> (\<exists>x y. holder x = Some a \<and> holder y = Some b \<and> (x, y) \<in> r\<^sup>+)" for a b
  proof
    assume "(a, b) \<in> (arcs G g)\<^sup>+"
    then obtain c where c: "(a, c) \<in> arcs G g" "(c, b) \<in> (arcs G g)\<^sup>*" by (metis tranclD)
    then obtain x y where "(x, y) \<in> r" "holder x = Some a" "holder y = Some c"
      using name_graphD(4) [OF ng] by blast
    with c(2) name_reach [OF ng, of y c b]
    show "\<exists>x y. holder x = Some a \<and> holder y = Some b \<and> (x, y) \<in> r\<^sup>+"
      by (meson rtrancl_into_trancl2)
  next
    assume "\<exists>x y. holder x = Some a \<and> holder y = Some b \<and> (x, y) \<in> r\<^sup>+"
    then obtain x y z where "holder x = Some a" "holder y = Some b" "(x, z) \<in> r" "(z, y) \<in> r\<^sup>*"
      by (metis tranclD)
    moreover obtain c where "holder z = Some c" using name_graphD(2,5) [OF ng] \<open>(x, z) \<in> r\<close> by blast
    ultimately have "(a, c) \<in> arcs G g" "(c, b) \<in> (arcs G g)\<^sup>*"
      using name_graphD(4) [OF ng] name_reach [OF ng] by blast+
    then show "(a, b) \<in> (arcs G g)\<^sup>+" by (rule rtrancl_into_trancl2)
  qed
  show ?thesis
  proof
    assume ac: "acyclic (arcs G g)"
    show "acyclic r"
    proof (rule acyclicI, intro allI notI)
      fix x assume "(x, x) \<in> r\<^sup>+"
      moreover then obtain y where "(x, y) \<in> r" by (metis tranclD)
      then obtain a where "holder x = Some a" using name_graphD(2,5) [OF ng] by blast
      ultimately show False using step [of a a] ac by (auto simp: acyclic_def)
    qed
  next
    assume "acyclic r"
    then show "acyclic (arcs G g)"
      using name_graph_inj [OF ng] step unfolding acyclic_def by metis
  qed
qed

end

lemma min_by_key_spec:
  "xs \<noteq> [] \<Longrightarrow> \<exists>m. min_by_key f xs = Some m \<and> m \<in> set xs \<and> (\<forall>x \<in> set xs. f m \<le> f x)"
proof (induction xs)
  case (Cons x xs)
  show ?case
  proof (cases "xs = []")
    case False
    then obtain m where "min_by_key f xs = Some m" "m \<in> set xs" "\<forall>y \<in> set xs. f m \<le> f y"
      using Cons.IH by blast
    then show ?thesis by (cases "f x \<le> f m") (auto intro: order_trans)
  qed simp
qed simp

lemma min_by_key_None: "min_by_key f xs = None \<longleftrightarrow> xs = []"
  using min_by_key_spec [of xs f] by (cases xs) auto

lemma map_of_rev_single:
  assumes "(k, v) \<in> set xs" "\<And>w. (k, w) \<in> set xs \<Longrightarrow> w = v"
  shows "map_of (rev xs) k = Some v"
proof -
  have "k \<in> fst ` set (rev xs)" using assms(1) by force
  then obtain w where w: "map_of (rev xs) k = Some w" by (metis map_of_eq_None_iff not_None_eq)
  then have "(k, w) \<in> set xs" by (metis map_of_SomeD set_rev)
  with assms(2) w show ?thesis by blast
qed

lemma traverse_image: "traverse f xs = Some ys \<Longrightarrow> x \<in> set xs \<Longrightarrow> f x = Some y \<Longrightarrow> y \<in> set ys"
  by (induction xs arbitrary: ys) (auto split: option.splits)

lemmas bind_simps = Option.bind.bind_lzero Option.bind.bind_lunit

context name_digraph
begin

text \<open>The nodes above two nodes, and the one that the table takes.\<close>

lemma reachable_set:
  "ok g \<Longrightarrow> pg_node_weight G g a \<noteq> None \<Longrightarrow> insert a (collect_reachable_nds G g a) = (arcs G g)\<^sup>* `` {a}"
  using dfs_laws [of g "[a]"] by (auto simp: collect_reachable_nds_def)

lemma table_entry_spec:
  assumes g: "ok g" and a: "pg_node_weight G g a \<noteq> None" and b: "pg_node_weight G g b \<noteq> None"
  shows "table_entry G g order (a, b) = None \<longleftrightarrow> (arcs G g)\<^sup>* `` {a} \<inter> (arcs G g)\<^sup>* `` {b} = {}"
    and "table_entry G g order (a, b) = Some e \<Longrightarrow> \<exists>c \<in> (arcs G g)\<^sup>* `` {a} \<inter> (arcs G g)\<^sup>* `` {b}. e = ((a, b), c)"
    and "c \<in> (arcs G g)\<^sup>* `` {a} \<inter> (arcs G g)\<^sup>* `` {b} \<Longrightarrow>
      \<forall>d \<in> (arcs G g)\<^sup>* `` {a} \<inter> (arcs G g)\<^sup>* `` {b}. d \<noteq> c \<longrightarrow> position_of order c < position_of order d \<Longrightarrow>
      table_entry G g order (a, b) = Some ((a, b), c)"
proof -
  let ?S = "(arcs G g)\<^sup>* `` {a} \<inter> (arcs G g)\<^sup>* `` {b}"
  have entry: "table_entry G g order (a, b)
      = map_option (Pair (a, b)) (min_by_key (position_of order) (sorted_list_of_set ?S))"
    by (simp add: table_entry_def reachable_set [OF g a] reachable_set [OF g b])
  have "finite (insert a (collect_reachable_nds G g a))" by (simp add: collect_reachable_nds_def)
  then have fin: "finite ?S" unfolding reachable_set [OF g a] by simp
  show "table_entry G g order (a, b) = None \<longleftrightarrow> ?S = {}"
    unfolding entry using fin by (simp add: min_by_key_None)
  show "\<exists>c \<in> ?S. e = ((a, b), c)" if "table_entry G g order (a, b) = Some e"
    using that min_by_key_spec [of "sorted_list_of_set ?S" "position_of order"] fin
    unfolding entry by (cases "sorted_list_of_set ?S = []") auto
  show "table_entry G g order (a, b) = Some ((a, b), c)"
    if c: "c \<in> ?S" "\<forall>d \<in> ?S. d \<noteq> c \<longrightarrow> position_of order c < position_of order d"
  proof -
    have "sorted_list_of_set ?S \<noteq> []" using c(1) fin by auto
    from min_by_key_spec [OF this, of "position_of order"] obtain m where m:
      "min_by_key (position_of order) (sorted_list_of_set ?S) = Some m" "m \<in> ?S"
      "\<forall>x \<in> ?S. position_of order m \<le> position_of order x"
      using fin by auto
    have "m = c" using m(2,3) c by (metis leD)
    with m(1) show ?thesis unfolding entry by simp
  qed
qed

lemma topo_reach:
  assumes "\<forall>(a, b) \<in> arcs G g. position_of order a < position_of order b" "(a, b) \<in> (arcs G g)\<^sup>*" "a \<noteq> b"
  shows "position_of order a < position_of order b"
  using assms(2,3)
proof (induction rule: rtrancl_induct)
  case (step b c)
  then have "position_of order b < position_of order c" using assms(1) by blast
  with step show ?case by (cases "a = b") auto
qed simp

lemma create_table_None:
  assumes ng: "name_graph G ok holder g r E" and topo: "is_toposort G ok topo"
  shows "create_table G topo g = None \<longleftrightarrow> \<not> acyclic r
    \<or> (\<exists>x \<in> E. \<exists>y \<in> E. \<not> (\<exists>z. (x, z) \<in> r\<^sup>* \<and> (y, z) \<in> r\<^sup>*))"
proof -
  note okg = name_graphD(1) [OF ng]
  have node: "pg_node_weight G g a \<noteq> None \<longleftrightarrow> (\<exists>x. holder x = Some a)" for a
    using name_graphD(3) [OF ng] by (metis not_Some_eq)
  let ?ids = "List.product (pg_node_indices G g) (pg_node_indices G g)"
  have ids: "(a, b) \<in> set ?ids \<longleftrightarrow> pg_node_weight G g a \<noteq> None \<and> pg_node_weight G g b \<noteq> None" for a b
    using node_indices_laws [OF okg] by auto
  have common: "(arcs G g)\<^sup>* `` {a} \<inter> (arcs G g)\<^sup>* `` {b} = {} \<longleftrightarrow> \<not> (\<exists>z. (x, z) \<in> r\<^sup>* \<and> (y, z) \<in> r\<^sup>*)"
    if xy: "holder x = Some a" "holder y = Some b" for a b x y
  proof -
    show ?thesis
    proof
      assume empty: "(arcs G g)\<^sup>* `` {a} \<inter> (arcs G g)\<^sup>* `` {b} = {}"
      show "\<not> (\<exists>z. (x, z) \<in> r\<^sup>* \<and> (y, z) \<in> r\<^sup>*)"
      proof
        assume "\<exists>z. (x, z) \<in> r\<^sup>* \<and> (y, z) \<in> r\<^sup>*"
        then obtain z where z: "(x, z) \<in> r\<^sup>*" "(y, z) \<in> r\<^sup>*" by blast
        from z(1) obtain c where "holder z = Some c" using name_held [OF ng _ xy(1)] by blast
        then have "(a, c) \<in> (arcs G g)\<^sup>*" "(b, c) \<in> (arcs G g)\<^sup>*"
          using z name_reach [OF ng xy(1)] name_reach [OF ng xy(2)] by blast+
        with empty show False by blast
      qed
    next
      assume none: "\<not> (\<exists>z. (x, z) \<in> r\<^sup>* \<and> (y, z) \<in> r\<^sup>*)"
      have False if c: "(a, c) \<in> (arcs G g)\<^sup>*" "(b, c) \<in> (arcs G g)\<^sup>*" for c
      proof -
        obtain y1 y2 where y12: "holder y1 = Some c" "(x, y1) \<in> r\<^sup>*" "holder y2 = Some c" "(y, y2) \<in> r\<^sup>*"
          using c name_reach [OF ng xy(1)] name_reach [OF ng xy(2)] by blast
        then have "y1 = y2" using name_graph_inj [OF ng] by blast
        with y12 none show False by blast
      qed
      then show "(arcs G g)\<^sup>* `` {a} \<inter> (arcs G g)\<^sup>* `` {b} = {}" by blast
    qed
  qed
  have "create_table G topo g = None \<longleftrightarrow> \<not> acyclic r \<or> (\<exists>(a, b) \<in> set ?ids. (arcs G g)\<^sup>* `` {a} \<inter> (arcs G g)\<^sup>* `` {b} = {})"
  proof (cases "topo g")
    case None
    then have "\<not> acyclic (arcs G g)" using topo okg unfolding is_toposort_def by force
    then show ?thesis using None name_acyclic [OF ng] by (simp add: create_table_def)
  next
    case (Some order)
    have ord: "\<forall>(a, b) \<in> arcs G g. position_of order a < position_of order b"
      using topo okg Some unfolding is_toposort_def by force
    have "acyclic (arcs G g)"
    proof (rule acyclicI, intro allI notI)
      fix x assume "(x, x) \<in> (arcs G g)\<^sup>+"
      then obtain y where y: "(x, y) \<in> arcs G g" "(y, x) \<in> (arcs G g)\<^sup>*" by (metis tranclD)
      then have "position_of order x < position_of order y" using ord by blast
      with topo_reach [OF ord y(2)] show False by (metis less_asym less_irrefl)
    qed
    then have ac: "acyclic r" using name_acyclic [OF ng] by blast
    have none: "traverse (table_entry G g order) ?ids = None
        \<longleftrightarrow> (\<exists>(a, b) \<in> set ?ids. (arcs G g)\<^sup>* `` {a} \<inter> (arcs G g)\<^sup>* `` {b} = {})"
      unfolding traverse_None_iff
    proof (rule bex_cong [OF refl])
      fix p assume p: "p \<in> set ?ids"
      obtain a b where ab: "p = (a, b)" by (cases p)
      then have "pg_node_weight G g a \<noteq> None" "pg_node_weight G g b \<noteq> None" using p ids by blast+
      from table_entry_spec(1) [OF okg this]
      show "table_entry G g order p = None \<longleftrightarrow> (case p of (a, b) \<Rightarrow> (arcs G g)\<^sup>* `` {a} \<inter> (arcs G g)\<^sup>* `` {b} = {})"
        by (simp only: ab prod.case)
    qed
    have names: "traverse (entry_names G g) es \<noteq> None" if es: "traverse (table_entry G g order) ?ids = Some es" for es
    proof -
      have "entry_names G g e \<noteq> None" if "e \<in> set es" for e
      proof -
        obtain a b where ab: "(a, b) \<in> set ?ids" "table_entry G g order (a, b) = Some e"
          using traverse_mem [OF es \<open>e \<in> set es\<close>] by auto
        then obtain c where c: "(a, c) \<in> (arcs G g)\<^sup>*" "e = ((a, b), c)"
          using table_entry_spec(2) [OF okg] ids by blast
        obtain x where "holder x = Some a" using ab(1) ids node by blast
        then have "pg_node_weight G g c \<noteq> None" using name_reach [OF ng] c(1) node by blast
        then show ?thesis using ab(1) ids c(2) by (auto simp: entry_names_def)
      qed
      then show ?thesis unfolding traverse_None_iff by blast
    qed
    have "create_table G topo g = None \<longleftrightarrow> traverse (table_entry G g order) ?ids = None"
    proof (cases "traverse (table_entry G g order) ?ids")
      case None
      then show ?thesis by (simp only: create_table_def Some bind_simps simp_thms)
    next
      case es: (Some es)
      then obtain rows where "traverse (entry_names G g) es = Some rows" using names by blast
      then show ?thesis by (simp only: create_table_def Some es bind_simps option.distinct simp_thms)
    qed
    with none have "create_table G topo g = None
        \<longleftrightarrow> (\<exists>(a, b) \<in> set ?ids. (arcs G g)\<^sup>* `` {a} \<inter> (arcs G g)\<^sup>* `` {b} = {})" by (simp only:)
    then show ?thesis using ac by blast
  qed
  also have "(\<exists>(a, b) \<in> set ?ids. (arcs G g)\<^sup>* `` {a} \<inter> (arcs G g)\<^sup>* `` {b} = {})
      \<longleftrightarrow> (\<exists>x \<in> E. \<exists>y \<in> E. \<not> (\<exists>z. (x, z) \<in> r\<^sup>* \<and> (y, z) \<in> r\<^sup>*))"
  proof
    assume "\<exists>(a, b) \<in> set ?ids. (arcs G g)\<^sup>* `` {a} \<inter> (arcs G g)\<^sup>* `` {b} = {}"
    then obtain a b where ab: "(a, b) \<in> set ?ids" "(arcs G g)\<^sup>* `` {a} \<inter> (arcs G g)\<^sup>* `` {b} = {}" by blast
    then obtain x y where xy: "holder x = Some a" "holder y = Some b" using ids node by metis
    then have "x \<in> E" "y \<in> E" using name_graphD(2) [OF ng] by blast+
    with common [OF xy] ab(2) show "\<exists>x \<in> E. \<exists>y \<in> E. \<not> (\<exists>z. (x, z) \<in> r\<^sup>* \<and> (y, z) \<in> r\<^sup>*)" by blast
  next
    assume "\<exists>x \<in> E. \<exists>y \<in> E. \<not> (\<exists>z. (x, z) \<in> r\<^sup>* \<and> (y, z) \<in> r\<^sup>*)"
    then obtain x y where xy: "x \<in> E" "y \<in> E" "\<not> (\<exists>z. (x, z) \<in> r\<^sup>* \<and> (y, z) \<in> r\<^sup>*)" by blast
    then obtain a b where ab: "holder x = Some a" "holder y = Some b" using name_graphD(2) [OF ng] by blast
    then have "(a, b) \<in> set ?ids" using ids node by blast
    with common [OF ab] xy(3) show "\<exists>(a, b) \<in> set ?ids. (arcs G g)\<^sup>* `` {a} \<inter> (arcs G g)\<^sup>* `` {b} = {}" by blast
  qed
  finally show ?thesis .
qed

text \<open>The entries of a table: the join of two names that have one.\<close>

lemma reach_name:
  assumes ng: "name_graph G ok holder g r E" and "holder x = Some a" "(a, c) \<in> (arcs G g)\<^sup>*"
  obtains u where "(x, u) \<in> r\<^sup>*" "holder u = Some c" "pg_node_weight G g c = Some u"
  using assms name_reach [OF ng assms(2)] name_graphD(3) [OF ng] by blast

lemma create_table_lub:
  assumes ng: "name_graph G ok holder g r E" and topo: "is_toposort G ok topo"
    and table: "create_table G topo g = Some t" and xy: "x \<in> E" "y \<in> E" and z: "lub_of r x y z"
  shows "t (x, y) = Some z"
proof -
  note okg = name_graphD(1) [OF ng]
  let ?ids = "List.product (pg_node_indices G g) (pg_node_indices G g)"
  obtain order es rows where order: "topo g = Some order"
    and es: "traverse (table_entry G g order) ?ids = Some es"
    and rows: "traverse (entry_names G g) es = Some rows" "t = map_of (rev rows)"
    using table by (auto simp: create_table_def split: Option.bind_splits)
  have ord: "\<forall>(a, b) \<in> arcs G g. position_of order a < position_of order b"
    using topo okg order unfolding is_toposort_def by force
  obtain a b where ab: "holder x = Some a" "holder y = Some b" using xy name_graphD(2) [OF ng] by blast
  then have nodes: "pg_node_weight G g a = Some x" "pg_node_weight G g b = Some y"
    using name_graphD(3) [OF ng] by blast+
  obtain c where c: "holder z = Some c" using z name_held [OF ng _ ab(1)] unfolding lub_of_def by blast
  have nc: "pg_node_weight G g c = Some z" using c name_graphD(3) [OF ng] by blast
  have entry: "table_entry G g order (a, b) = Some ((a, b), c)"
  proof (rule table_entry_spec(3) [OF okg])
    show "c \<in> (arcs G g)\<^sup>* `` {a} \<inter> (arcs G g)\<^sup>* `` {b}"
      using z c name_reach [OF ng ab(1)] name_reach [OF ng ab(2)] unfolding lub_of_def by blast
    show "\<forall>d \<in> (arcs G g)\<^sup>* `` {a} \<inter> (arcs G g)\<^sup>* `` {b}. d \<noteq> c \<longrightarrow> position_of order c < position_of order d"
    proof (intro ballI impI)
      fix d assume d: "d \<in> (arcs G g)\<^sup>* `` {a} \<inter> (arcs G g)\<^sup>* `` {b}" "d \<noteq> c"
      then have da: "(a, d) \<in> (arcs G g)\<^sup>*" and db: "(b, d) \<in> (arcs G g)\<^sup>*" by blast+
      obtain u where u: "(x, u) \<in> r\<^sup>*" "holder u = Some d" by (rule reach_name [OF ng ab(1) da])
      obtain v where v: "(y, v) \<in> r\<^sup>*" "holder v = Some d" by (rule reach_name [OF ng ab(2) db])
      have "u = v" by (rule name_graph_inj [OF ng u(2) v(2)])
      then have "(z, u) \<in> r\<^sup>*" using z u(1) v(1) unfolding lub_of_def by blast
      then have "(c, d) \<in> (arcs G g)\<^sup>*" using name_reach [OF ng c] u(2) by blast
      then show "position_of order c < position_of order d" using topo_reach [OF ord] d(2) by blast
    qed
  qed (use nodes in simp_all)
  have "(a, b) \<in> set ?ids" using nodes node_indices_laws [OF okg] by auto
  then have in_es: "((a, b), c) \<in> set es" by (rule traverse_image [OF es _ entry])
  have names: "entry_names G g ((a, b), c) = Some ((x, y), z)" using nodes nc by (simp add: entry_names_def)
  have "((x, y), z) \<in> set rows" by (rule traverse_image [OF rows(1) in_es names])
  moreover have "w = z" if w: "((x, y), w) \<in> set rows" for w
  proof -
    obtain a' b' c' where e: "((a', b'), c') \<in> set es" "entry_names G g ((a', b'), c') = Some ((x, y), w)"
      using traverse_mem [OF rows(1) w] by auto
    then have n: "pg_node_weight G g a' = Some x" "pg_node_weight G g b' = Some y" "pg_node_weight G g c' = Some w"
      by (auto simp: entry_names_def split: Option.bind_splits)
    then have "a' = a" "b' = b" using ab name_graphD(3) [OF ng] by (metis option.inject)+
    moreover obtain p where "table_entry G g order p = Some ((a', b'), c')" "p \<in> set ?ids"
      using traverse_mem [OF es e(1)] by blast
    moreover then have "p = (a', b')" by (cases p) (auto simp: table_entry_def Let_def)
    ultimately have "c' = c" using entry by simp
    with n(3) nc show "w = z" by simp
  qed
  ultimately show ?thesis unfolding rows(2) by (rule map_of_rev_single)
qed

lemma reachable_sets_spec:
  assumes ng: "name_graph G ok holder g r E"
  shows "\<exists>s. create_reachable_sets G g = Some s \<and> (\<forall>x \<in> E. s x = Some {y. (x, y) \<in> r\<^sup>*})"
proof -
  note okg = name_graphD(1) [OF ng]
  let ?f = "\<lambda>i. do { n \<leftarrow> pg_node_weight G g i;
            ys \<leftarrow> traverse (pg_node_weight G g) (sorted_list_of_set (collect_reachable_nds G g i));
            Some (n, set ys) }"
  have row: "?f a = Some (x, {y. (x, y) \<in> r\<^sup>*})" if a: "pg_node_weight G g a = Some x" for a x
  proof -
    have h: "holder x = Some a" using a name_graphD(3) [OF ng] by blast
    have reach: "collect_reachable_nds G g a = (arcs G g)\<^sup>* `` {a}"
      using dfs_laws [OF okg, of "[a]"] a by (simp add: collect_reachable_nds_def)
    have fin: "finite (collect_reachable_nds G g a)" by (simp add: collect_reachable_nds_def)
    let ?w = "\<lambda>i. the (pg_node_weight G g i)"
    have w: "pg_node_weight G g i = Some (?w i)" if "i \<in> collect_reachable_nds G g a" for i
      using that reach_name [OF ng h] unfolding reach by (metis Image_singleton_iff option.sel)
    have "traverse (pg_node_weight G g) (sorted_list_of_set (collect_reachable_nds G g a))
        = Some (map ?w (sorted_list_of_set (collect_reachable_nds G g a)))"
      using w fin by (intro traverse_Some_map) simp
    moreover have "?w ` collect_reachable_nds G g a = {y. (x, y) \<in> r\<^sup>*}"
    proof (intro set_eqI iffI)
      fix y assume "y \<in> ?w ` collect_reachable_nds G g a"
      then obtain i where i: "(a, i) \<in> (arcs G g)\<^sup>*" "y = ?w i" unfolding reach by blast
      then show "y \<in> {y. (x, y) \<in> r\<^sup>*}" by (auto elim: reach_name [OF ng h])
    next
      fix y assume y: "y \<in> {y. (x, y) \<in> r\<^sup>*}"
      then obtain c where c: "holder y = Some c" using name_held [OF ng _ h] by blast
      then have "c \<in> collect_reachable_nds G g a" using y name_reach [OF ng h] unfolding reach by blast
      moreover have "?w c = y" using c name_graphD(3) [OF ng] by (metis option.sel)
      ultimately show "y \<in> ?w ` collect_reachable_nds G g a" by blast
    qed
    ultimately show ?thesis using a fin by simp
  qed
  let ?x = "\<lambda>i. the (pg_node_weight G g i)"
  have "\<exists>rows. traverse ?f (pg_node_indices G g) = Some rows"
  proof (rule not_None_eq [THEN iffD1], unfold traverse_None_iff, rule notI, elim bexE)
    fix i assume "i \<in> set (pg_node_indices G g)" "?f i = None"
    moreover then obtain x where "pg_node_weight G g i = Some x" using node_indices_laws [OF okg] by auto
    ultimately show False using row by fastforce
  qed
  then obtain rows where rows: "traverse ?f (pg_node_indices G g) = Some rows" by blast
  have "map_of (rev rows) x = Some {y. (x, y) \<in> r\<^sup>*}" if x: "x \<in> E" for x
  proof -
    obtain a where "holder x = Some a" using x name_graphD(2) [OF ng] by blast
    then have a: "pg_node_weight G g a = Some x" using name_graphD(3) [OF ng] by blast
    have "a \<in> set (pg_node_indices G g)" using a node_indices_laws [OF okg] by simp
    then have "(x, {y. (x, y) \<in> r\<^sup>*}) \<in> set rows" by (rule traverse_image [OF rows _ row [OF a]])
    moreover have "w = {y. (x, y) \<in> r\<^sup>*}" if w: "(x, w) \<in> set rows" for w
    proof -
      obtain i where i: "?f i = Some (x, w)" using traverse_mem [OF rows w] by blast
      then obtain x' where "pg_node_weight G g i = Some x'" by (cases "pg_node_weight G g i") auto
      from trans [OF sym [OF i] row [OF this]] show ?thesis by blast
    qed
    ultimately show ?thesis by (rule map_of_rev_single)
  qed
  then show ?thesis by (intro exI [of _ "map_of (rev rows)"]) (simp only: create_reachable_sets_def rows option.map simp_thms, blast)
qed

end

section \<open>The generated lattice\<close>

text \<open>Lattices are generated on every graph that keeps the laws of the library.\<close>

interpretation list_names: name_digraph list_digraph lg_ok ..

lemma name_digraphI: "stable_digraph G ok \<Longrightarrow> name_digraph G ok"
  by (rule name_digraph.intro)

definition bounded_pairs :: "(string \<times> string) set \<Rightarrow> string set \<Rightarrow> bool" where
  "bounded_pairs r E \<longleftrightarrow> (\<forall>x \<in> E. \<forall>y \<in> E. \<exists>z. (x, z) \<in> r\<^sup>* \<and> (y, z) \<in> r\<^sup>*)"

lemma generate_lattice_None:
  assumes pg: "stable_digraph G ok" and hord: "is_enum hord" and topo: "is_toposort G ok topo"
  shows "generate_lattice hord G topo d = None \<longleftrightarrow> \<not> acyclic (lt_rel d)
    \<or> \<not> bounded_pairs (lt_rel d) (handles d) \<or> \<not> bounded_pairs ((lt_rel d)\<inverse>) (handles d)"
proof -
  note nd = name_digraphI [OF pg]
  obtain g holder where g: "get_lt_graph hord G d = Some g" "name_graph G ok holder g (lt_rel d) (handles d)"
    using name_digraph.lt_graph_spec [OF nd hord] by blast
  obtain g' holder' where g': "get_gt_graph hord G d = Some g'"
    "name_graph G ok holder' g' ((lt_rel d)\<inverse>) (handles d)"
    using name_digraph.gt_graph_spec [OF nd hord] by blast
  have join: "create_join_table hord G topo d = None \<longleftrightarrow> \<not> acyclic (lt_rel d) \<or> \<not> bounded_pairs (lt_rel d) (handles d)"
    using name_digraph.create_table_None [OF nd g(2) topo] g(1)
    unfolding create_join_table_def bounded_pairs_def by simp
  have meet: "create_meet_table hord G topo d = None \<longleftrightarrow> \<not> acyclic (lt_rel d) \<or> \<not> bounded_pairs ((lt_rel d)\<inverse>) (handles d)"
    using name_digraph.create_table_None [OF nd g'(2) topo] g'(1)
    unfolding create_meet_table_def bounded_pairs_def by (simp add: acyclic_converse)
  obtain s where "create_less_than_sets hord G d = Some s"
    using name_digraph.reachable_sets_spec [OF nd g(2)] g(1) unfolding create_less_than_sets_def by auto
  then have "generate_lattice hord G topo d = None
      \<longleftrightarrow> create_join_table hord G topo d = None \<or> create_meet_table hord G topo d = None"
    unfolding generate_lattice_def Let_def
    by (cases "create_join_table hord G topo d"; cases "create_meet_table hord G topo d") simp_all
  then show ?thesis unfolding join meet by blast
qed

lemma map_of_names: "map_of (map (\<lambda>n. (n, f n)) ns) x = Some e \<Longrightarrow> e = f x \<and> x \<in> set ns"
  by (induction ns) (auto split: if_splits)

lemma generate_lattice_Some:
  assumes pg: "stable_digraph G ok" and hord: "is_enum hord" and topo: "is_toposort G ok topo"
    and l: "generate_lattice hord G topo d = Some l" and e: "enl_nds l x = Some e"
  shows "ce_elem e = x" "ce_top e = top_handle d" "ce_bot e = bottom_handle d"
    "x \<in> handles d \<union> {top_handle d, bottom_handle d}"
    "x' \<in> handles d \<Longrightarrow> y \<in> handles d \<Longrightarrow> lub_of (lt_rel d) x' y z \<Longrightarrow> join_table e (x', y) = Some z"
    "x' \<in> handles d \<Longrightarrow> y \<in> handles d \<Longrightarrow> lub_of ((lt_rel d)\<inverse>) x' y z \<Longrightarrow> meet_table e (x', y) = Some z"
    "x' \<in> handles d \<Longrightarrow> orig_relation e x' = Some {y. (x', y) \<in> (lt_rel d)\<^sup>*}"
proof -
  note nd = name_digraphI [OF pg]
  obtain g holder where g: "get_lt_graph hord G d = Some g" "name_graph G ok holder g (lt_rel d) (handles d)"
    using name_digraph.lt_graph_spec [OF nd hord] by blast
  obtain g' holder' where g': "get_gt_graph hord G d = Some g'"
    "name_graph G ok holder' g' ((lt_rel d)\<inverse>) (handles d)"
    using name_digraph.gt_graph_spec [OF nd hord] by blast
  obtain s where s: "create_reachable_sets G g = Some s" "\<forall>x \<in> handles d. s x = Some {y. (x, y) \<in> (lt_rel d)\<^sup>*}"
    using name_digraph.reachable_sets_spec [OF nd g(2)] by blast
  obtain j m where jm: "create_table G topo g = Some j" "create_table G topo g' = Some m"
    using l g(1) g'(1) unfolding generate_lattice_def create_join_table_def create_meet_table_def
    by (auto split: Option.bind_splits)
  let ?e = "\<lambda>n. \<lparr>ce_top = top_handle d, ce_bot = bottom_handle d, ce_elem = n,
      join_table = j, meet_table = m, orig_relation = s\<rparr>"
  let ?names = "concat (map (\<lambda>(x, y). [x, y]) (less_than_relations_between_handles d)) @ [top_handle d, bottom_handle d]"
  have names: "enl_nds l = map_of (map (\<lambda>n. (n, ?e n)) ?names)"
    using l g(1) g'(1) jm s(1)
    unfolding generate_lattice_def create_join_table_def create_meet_table_def create_less_than_sets_def Let_def
    by auto
  note found = map_of_names [OF e [unfolded names]]
  note ex = conjunct1 [OF found] conjunct2 [OF found]
  show "ce_elem e = x" "ce_top e = top_handle d" "ce_bot e = bottom_handle d" by (simp_all add: ex(1))
  have "set (concat (map (\<lambda>(x, y). [x, y]) rels)) = fst ` set rels \<union> snd ` set rels" for rels :: "(string \<times> string) list"
    by (induction rels) auto
  then show "x \<in> handles d \<union> {top_handle d, bottom_handle d}" using ex(2) unfolding handles_def set_append by simp
  show "join_table e (x', y) = Some z" if "x' \<in> handles d" "y \<in> handles d" "lub_of (lt_rel d) x' y z"
    using name_digraph.create_table_lub [OF nd g(2) topo jm(1) that] by (simp add: ex(1))
  show "meet_table e (x', y) = Some z" if "x' \<in> handles d" "y \<in> handles d" "lub_of ((lt_rel d)\<inverse>) x' y z"
    using name_digraph.create_table_lub [OF nd g'(2) topo jm(2) that] by (simp add: ex(1))
  show "orig_relation e x' = Some {y. (x', y) \<in> (lt_rel d)\<^sup>*}" if "x' \<in> handles d"
    using s(2) that by (simp add: ex(1))
qed

definition lattice_names :: "lattice_definition \<Rightarrow> string list" where
  "lattice_names d = concat (map (\<lambda>(x, y). [x, y]) (less_than_relations_between_handles d))
     @ [top_handle d, bottom_handle d]"

lemma generated_nds:
  assumes "generate_lattice hord G topo d = Some l"
  shows "\<exists>tp. enl_nds l = map_of (map (\<lambda>n. (n, tp\<lparr>ce_elem := n\<rparr>)) (lattice_names d))
    \<and> enl_bottom l = tp\<lparr>ce_elem := bottom_handle d\<rparr> \<and> enl_top l = tp\<lparr>ce_elem := top_handle d\<rparr>"
proof -
  obtain join where join: "create_join_table hord G topo d = Some join"
    using assms unfolding generate_lattice_def by (cases "create_join_table hord G topo d") simp_all
  obtain meet where meet: "create_meet_table hord G topo d = Some meet"
    using assms unfolding generate_lattice_def join by (cases "create_meet_table hord G topo d") simp_all
  obtain lt where lt: "create_less_than_sets hord G d = Some lt"
    using assms unfolding generate_lattice_def join meet by (cases "create_less_than_sets hord G d") simp_all
  let ?tp = "\<lparr>ce_top = top_handle d, ce_bot = bottom_handle d, ce_elem = top_handle d,
      join_table = join, meet_table = meet, orig_relation = lt\<rparr>"
  have "l = \<lparr>enl_nds = map_of (map (\<lambda>n. (n, ?tp\<lparr>ce_elem := n\<rparr>)) (lattice_names d)),
      enl_bottom = ?tp\<lparr>ce_elem := bottom_handle d\<rparr>, enl_top = ?tp\<rparr>"
    using assms unfolding generate_lattice_def join meet lt bind_simps Let_def option.inject lattice_names_def
    by (rule sym)
  then show ?thesis by (intro exI [of _ ?tp]) (simp only: enumerated_named_lattice.simps custom_lattice_element.simps simp_thms)
qed

lemma map_of_names_mem: "x \<in> set ns \<Longrightarrow> map_of (map (\<lambda>n. (n, f n)) ns) x = Some (f x)"
  by (induction ns) auto

lemma generated_ends:
  assumes "generate_lattice hord G topo d = Some l"
  shows "enl_nds l (bottom_handle d) = Some (enl_bottom l)" "enl_nds l (top_handle d) = Some (enl_top l)"
  using generated_nds [OF assms] by (auto simp: map_of_names_mem lattice_names_def simp del: map_append)

lemma generate_lattice_elem_upd:
  assumes "generate_lattice hord G topo d = Some l" "enl_nds l x = Some e" "enl_nds l z = Some g"
  shows "e\<lparr>ce_elem := z\<rparr> = g"
proof -
  obtain tp where l: "enl_nds l = map_of (map (\<lambda>n. (n, tp\<lparr>ce_elem := n\<rparr>)) (lattice_names d))"
    using generated_nds [OF assms(1)] by blast
  have "e = tp\<lparr>ce_elem := x\<rparr>" "g = tp\<lparr>ce_elem := z\<rparr>"
    using map_of_names [OF assms(2) [unfolded l]] map_of_names [OF assms(3) [unfolded l]] by blast+
  then show ?thesis by simp
qed

section \<open>A reference topological sort\<close>

text \<open>Nodes without an edge from the remaining ones first.\<close>

fun kahn :: "nat \<Rightarrow> (nat \<times> nat) list \<Rightarrow> nat list \<Rightarrow> nat list option" where
  "kahn 0 es ns = (if ns = [] then Some [] else None)"
| "kahn (Suc k) es ns =
     (if ns = [] then Some []
      else (case List.find (\<lambda>n. \<forall>m \<in> set ns. (m, n) \<notin> set es) ns of
              None \<Rightarrow> None
            | Some n \<Rightarrow> map_option ((#) n) (kahn k es (remove1 n ns))))"

lemma position_of_Cons:
  "position_of (n # ns) x = (if x = n then Some 0 else map_option Suc (position_of ns x))"
proof -
  have "zip (n # ns) [0..<length (n # ns)] = (n, 0) # map (apsnd Suc) (zip ns [0..<length ns])"
    using zip_map2 [of ns Suc "[0..<length ns]"]
    by (simp add: upt_conv_Cons map_Suc_upt apsnd_def map_prod_def del: upt_Suc)
  moreover have "map_of (map (apsnd Suc) xs) x = map_option Suc (map_of xs x)" for xs :: "(nat \<times> nat) list"
    by (induction xs) auto
  ultimately show ?thesis by (simp add: position_of_def)
qed

lemma kahn_Some:
  "kahn k es ns = Some order \<Longrightarrow> distinct ns \<Longrightarrow>
   distinct order \<and> set order = set ns
   \<and> (\<forall>(a, b) \<in> set es. a \<in> set ns \<longrightarrow> b \<in> set ns \<longrightarrow> position_of order a < position_of order b)"
proof (induction k arbitrary: ns order)
  case (Suc k)
  show ?case
  proof (cases "ns = []")
    case False
    obtain n rest where n: "List.find (\<lambda>n. \<forall>m \<in> set ns. (m, n) \<notin> set es) ns = Some n"
      "kahn k es (remove1 n ns) = Some rest" "order = n # rest"
      using Suc.prems(1) False by (auto split: option.splits)
    have first: "n \<in> set ns" "\<forall>m \<in> set ns. (m, n) \<notin> set es"
      using n(1) by (auto simp: find_Some_iff)
    have "distinct (remove1 n ns)" using Suc.prems(2) by simp
    from Suc.IH [OF n(2) this] have rest: "distinct rest" "set rest = set ns - {n}"
      "\<forall>(a, b) \<in> set es. a \<in> set ns - {n} \<longrightarrow> b \<in> set ns - {n} \<longrightarrow> position_of rest a < position_of rest b"
      using Suc.prems(2) by (simp_all add: set_remove1_eq)
    have "position_of order a < position_of order b"
      if ab: "(a, b) \<in> set es" "a \<in> set ns" "b \<in> set ns" for a b
    proof -
      have bn: "b \<noteq> n" using first(2) ab by blast
      show ?thesis
      proof (cases "a = n")
        case True
        have "b \<in> set rest" using rest(2) bn ab(3) by blast
        then have "position_of rest b \<noteq> None"
          unfolding position_of_def map_of_eq_None_iff by (metis length_map map_fst_zip map_nth set_map length_upt minus_nat.diff_0)
        then show ?thesis using True bn n(3) by (cases "position_of rest b") (auto simp: position_of_Cons)
      next
        case False
        then have "position_of rest a < position_of rest b" using rest(3) ab bn by blast
        then show ?thesis using False bn n(3)
          by (cases "position_of rest a"; cases "position_of rest b") (auto simp: position_of_Cons)
      qed
    qed
    then show ?thesis using rest(1,2) n(3) first(1) by auto
  qed (use Suc.prems in auto)
qed (auto split: if_splits)

lemma kahn_None: "kahn k es ns = None \<Longrightarrow> length ns \<le> k \<Longrightarrow> \<not> acyclic (set es)"
proof (induction k arbitrary: ns)
  case (Suc k)
  then have ne: "ns \<noteq> []" by auto
  show ?case
  proof (cases "List.find (\<lambda>n. \<forall>m \<in> set ns. (m, n) \<notin> set es) ns")
    case None
    then have no_first: "\<forall>n \<in> set ns. \<exists>m \<in> set ns. (m, n) \<in> set es" by (auto simp: find_None_iff)
    show ?thesis
    proof
      assume "acyclic (set es)"
      then have "wf (set es)" by (intro finite_acyclic_wf) auto
      then obtain m where "m \<in> set ns" "\<forall>y. (y, m) \<in> set es \<longrightarrow> y \<notin> set ns"
        using ne wfE_min [of "set es" "hd ns" "set ns"] by (metis hd_in_set)
      with no_first show False by blast
    qed
  next
    case (Some n)
    then have "n \<in> set ns" by (auto simp: find_Some_iff)
    moreover have "kahn k es (remove1 n ns) = None" using Suc.prems(1) ne Some by simp
    ultimately show ?thesis using Suc by (simp add: length_remove1)
  qed
qed (auto split: if_splits)

definition list_toposort :: "('w, 'e) list_graph \<Rightarrow> nat list option" where
  "list_toposort g = kahn (length (lg_nodes g)) (map (\<lambda>(_, a, b, _). (a, b)) (lg_edges g)) (map fst (lg_nodes g))"

lemma list_toposort: "is_toposort list_digraph lg_ok list_toposort"
  unfolding is_toposort_def
proof (intro allI impI)
  fix g :: "('w, 'e) list_graph" assume ok: "lg_ok g"
  let ?es = "map (\<lambda>(_, a, b, _). (a, b)) (lg_edges g)" and ?ns = "map fst (lg_nodes g)"
  have arcs: "arcs list_digraph g = set ?es" using lg_arcs [OF ok] by simp
  have nodes: "{n. pg_node_weight list_digraph g n \<noteq> None} = set ?ns"
    by (auto simp: list_digraph_sel map_of_eq_None_iff)
  show "case list_toposort g of
        None \<Rightarrow> \<not> acyclic (arcs list_digraph g)
      | Some order \<Rightarrow> distinct order \<and> set order = {n. pg_node_weight list_digraph g n \<noteq> None}
          \<and> (\<forall>(a, b) \<in> arcs list_digraph g. position_of order a < position_of order b)"
  proof (cases "list_toposort g")
    case None
    then have "\<not> acyclic (set ?es)" unfolding list_toposort_def by (rule kahn_None) simp
    then show ?thesis unfolding None option.case arcs .
  next
    case (Some order)
    have ends: "a \<in> set ?ns \<and> b \<in> set ?ns" if "(a, b) \<in> arcs list_digraph g" for a b
      using list_pg.arcs_nodes [OF ok that] nodes by blast
    from kahn_Some [OF Some [unfolded list_toposort_def] lg_okD(1) [OF ok]] ends
    show ?thesis unfolding Some option.case nodes arcs by fast
  qed
qed

section \<open>The lattice is generated exactly from orders with all bounds\<close>

text \<open>
  A definition generates its lattice, or panics, as its relation has all bounds: for every
  order in which the hash maps are iterated and every topological sort, there is no lattice
  iff the relation is cyclic, or two of its names have no common upper bound, or none below.
\<close>

theorem generate_lattice_panics_iff:
  assumes "stable_digraph G ok" "is_enum hord" "is_toposort G ok topo"
  shows "generate_lattice hord G topo d = None \<longleftrightarrow> \<not> acyclic (lt_rel d)
    \<or> \<not> bounded_pairs (lt_rel d) (handles d) \<or> \<not> bounded_pairs ((lt_rel d)\<inverse>) (handles d)"
  by (rule generate_lattice_None [OF assms])

text \<open>The lattice of file descriptors in the repository's tests.\<close>

definition fd_lattice :: lattice_definition where
  "fd_lattice = lattice_definition_new [(''file_descriptor'', ''int''), (''int'', ''T''), (''bottom'', ''file_descriptor'')]
     ''T'' ''bottom'' ''int''"

definition fd_rank :: "string \<Rightarrow> nat" where
  "fd_rank x = (if x = ''bottom'' then 0 else if x = ''file_descriptor'' then 1 else if x = ''int'' then 2 else 3)"

lemma fd_rel: "lt_rel fd_lattice = {(''file_descriptor'', ''int''), (''int'', ''T''), (''bottom'', ''file_descriptor'')}"
  by (simp add: lt_rel_def fd_lattice_def lattice_definition_new_def)

lemma fd_handles: "handles fd_lattice = {''bottom'', ''file_descriptor'', ''int'', ''T''}"
  by (auto simp: handles_def fd_lattice_def lattice_definition_new_def)

lemma fd_acyclic: "acyclic (lt_rel fd_lattice)"
proof -
  have "lt_rel fd_lattice \<subseteq> measure fd_rank" by (auto simp: fd_rel fd_rank_def)
  then show ?thesis by (rule acyclic_subset [OF wf_acyclic [OF wf_measure]])
qed

lemma fd_below: "x \<in> handles fd_lattice \<Longrightarrow> (x, ''T'') \<in> (lt_rel fd_lattice)\<^sup>*"
  and fd_above: "x \<in> handles fd_lattice \<Longrightarrow> (''bottom'', x) \<in> (lt_rel fd_lattice)\<^sup>*"
proof -
  have r: "(''file_descriptor'', ''int'') \<in> (lt_rel fd_lattice)\<^sup>*" "(''int'', ''T'') \<in> (lt_rel fd_lattice)\<^sup>*"
    "(''bottom'', ''file_descriptor'') \<in> (lt_rel fd_lattice)\<^sup>*"
    unfolding fd_rel by auto
  then show "x \<in> handles fd_lattice \<Longrightarrow> (x, ''T'') \<in> (lt_rel fd_lattice)\<^sup>*"
    and "x \<in> handles fd_lattice \<Longrightarrow> (''bottom'', x) \<in> (lt_rel fd_lattice)\<^sup>*"
    unfolding fd_handles by (auto intro: rtrancl_trans)
qed

lemma fd_bounded: "bounded_pairs (lt_rel fd_lattice) (handles fd_lattice)" "bounded_pairs ((lt_rel fd_lattice)\<inverse>) (handles fd_lattice)"
  unfolding bounded_pairs_def rtrancl_converse using fd_below fd_above by blast+

lemma generate_lattice_panics_iff_witness:
  "generate_lattice sorted_list_of_set list_digraph list_toposort fd_lattice \<noteq> None"
  using generate_lattice_panics_iff [OF list_pg.stable_digraph_axioms sorted_enum list_toposort, of fd_lattice]
    fd_acyclic fd_bounded by simp

text \<open>
  C24. The elements of a generated lattice carry the order of the relation: the join of two names
  is their least upper bound and the meet their greatest lower bound, where they have one,
  and the comparison is the reflexive and transitive closure of the relation.
\<close>

theorem generate_lattice_order:
  assumes "stable_digraph G ok" "is_enum hord" "is_toposort G ok topo"
    and "generate_lattice hord G topo d = Some l"
    and "enl_get_elem l x = Some e" "enl_get_elem l y = Some f" "x \<in> handles d" "y \<in> handles d"
  shows "(\<forall>z. lub_of (lt_rel d) x y z \<longrightarrow> ce_join e f = Some (e\<lparr>ce_elem := z\<rparr>))
    \<and> (\<forall>z. lub_of ((lt_rel d)\<inverse>) x y z \<longrightarrow> ce_meet e f = Some (e\<lparr>ce_elem := z\<rparr>))
    \<and> ce_partial_cmp e f = Some (if x = y then Some Equal else if (x, y) \<in> (lt_rel d)\<^sup>* then Some Less
      else if (y, x) \<in> (lt_rel d)\<^sup>* then Some Greater else None)"
proof -
  note spec = generate_lattice_Some [OF assms(1-4)]
  note e = spec [OF assms(5) [unfolded enl_get_elem_def]] and f = spec [OF assms(6) [unfolded enl_get_elem_def]]
  have "ce_join e f = Some (e\<lparr>ce_elem := z\<rparr>)" if "lub_of (lt_rel d) x y z" for z
    using e(5) [OF assms(7,8) that] by (simp add: ce_join_def e(1) f(1))
  moreover have "ce_meet e f = Some (e\<lparr>ce_elem := z\<rparr>)" if "lub_of ((lt_rel d)\<inverse>) x y z" for z
    using e(6) [OF assms(7,8) that] by (simp add: ce_meet_def e(1) f(1))
  moreover have "ce_partial_cmp e f = Some (if x = y then Some Equal else if (x, y) \<in> (lt_rel d)\<^sup>* then Some Less
      else if (y, x) \<in> (lt_rel d)\<^sup>* then Some Greater else None)"
    using e(7) [OF assms(7)] e(7) [OF assms(8)] by (simp add: ce_partial_cmp_def e(1) f(1))
  ultimately show ?thesis by blast
qed

lemma generate_lattice_order_witness:
  "\<exists>l e f. generate_lattice sorted_list_of_set list_digraph list_toposort fd_lattice = Some l
    \<and> enl_get_elem l ''bottom'' = Some e \<and> enl_get_elem l ''T'' = Some f
    \<and> ce_join e f = Some (e\<lparr>ce_elem := ''T''\<rparr>) \<and> ce_partial_cmp e f = Some (Some Less)"
proof -
  obtain l where l: "generate_lattice sorted_list_of_set list_digraph list_toposort fd_lattice = Some l"
    using generate_lattice_None [OF list_pg.stable_digraph_axioms sorted_enum list_toposort, of fd_lattice]
      fd_acyclic fd_bounded by auto
  then obtain e f where ef: "enl_get_elem l ''bottom'' = Some e" "enl_get_elem l ''T'' = Some f"
    unfolding generate_lattice_def Let_def enl_get_elem_def
    by (auto split: Option.bind_splits simp: fd_lattice_def lattice_definition_new_def)
  have h: "''bottom'' \<in> handles fd_lattice" "''T'' \<in> handles fd_lattice" by (simp_all add: fd_handles)
  note order = generate_lattice_order [OF list_pg.stable_digraph_axioms sorted_enum list_toposort l ef h]
  have "lub_of (lt_rel fd_lattice) ''bottom'' ''T'' ''T''"
    using fd_above [OF h(2)] by (simp add: lub_of_def)
  with order fd_above [OF h(2)] l ef show ?thesis by auto
qed

end
