(* ===== verification/LatticeBounds.thy ===== *)
theory LatticeBounds
  imports TypeLattice
begin

text \<open>
  The labels of sketches (\<^verbatim>\<open>src/solver/type_sketch.rs\<close>, \<^verbatim>\<open>LatticeBounds\<close>): a pair of
  lattice elements that bound a type from both sides.  The element type is the code's type
  parameter with its lattice operations, the record \<open>lattice_ops\<close>; the locale \<open>type_lattice\<close> says
  that they are the operations of a lattice on the elements in use, and the lattices of the theory
  TypeLattice are shown to be one.
\<close>

section \<open>Bounds\<close>

record 't lattice_ops =
  lat_join :: "'t \<Rightarrow> 't \<Rightarrow> 't"
  lat_meet :: "'t \<Rightarrow> 't \<Rightarrow> 't"
  lat_eq :: "'t \<Rightarrow> 't \<Rightarrow> bool"

record 't lattice_bounds =
  upper_bound :: 't
  lower_bound :: 't

definition show_bounds :: "('t \<Rightarrow> string) \<Rightarrow> 't lattice_bounds \<Rightarrow> string" where
  "show_bounds sh b = ''['' @ sh (lower_bound b) @ '','' @ sh (upper_bound b) @ '']''"

definition get_upper :: "'t lattice_bounds \<Rightarrow> 't" where
  "get_upper b = upper_bound b"

definition get_lower :: "'t lattice_bounds \<Rightarrow> 't" where
  "get_lower b = lower_bound b"

definition refine_lower :: "'t lattice_ops \<Rightarrow> 't lattice_bounds \<Rightarrow> 't \<Rightarrow> 't lattice_bounds" where
  "refine_lower L b x = \<lparr>upper_bound = upper_bound b, lower_bound = lat_join L (lower_bound b) x\<rparr>"

definition refine_upper :: "'t lattice_ops \<Rightarrow> 't lattice_bounds \<Rightarrow> 't \<Rightarrow> 't lattice_bounds" where
  "refine_upper L b x = \<lparr>upper_bound = lat_meet L (upper_bound b) x, lower_bound = lower_bound b\<rparr>"

definition bounds_join :: "'t lattice_ops \<Rightarrow> 't lattice_bounds \<Rightarrow> 't lattice_bounds \<Rightarrow> 't lattice_bounds" where
  "bounds_join L a b = \<lparr>upper_bound = lat_join L (upper_bound a) (upper_bound b),
     lower_bound = lat_join L (lower_bound a) (lower_bound b)\<rparr>"

definition bounds_meet :: "'t lattice_ops \<Rightarrow> 't lattice_bounds \<Rightarrow> 't lattice_bounds \<Rightarrow> 't lattice_bounds" where
  "bounds_meet L a b = \<lparr>upper_bound = lat_meet L (upper_bound a) (upper_bound b),
     lower_bound = lat_meet L (lower_bound a) (lower_bound b)\<rparr>"

definition bounds_eq :: "'t lattice_ops \<Rightarrow> 't lattice_bounds \<Rightarrow> 't lattice_bounds \<Rightarrow> bool" where
  "bounds_eq L a b \<longleftrightarrow> lat_eq L (upper_bound a) (upper_bound b) \<and> lat_eq L (lower_bound a) (lower_bound b)"

definition bounds_partial_cmp ::
    "'t lattice_ops \<Rightarrow> 't lattice_bounds \<Rightarrow> 't lattice_bounds \<Rightarrow> ordering option" where
  "bounds_partial_cmp L self other =
     (if bounds_eq L other self then Some Equal
      else let j = bounds_join L self other
           in if bounds_eq L j self then Some Greater
              else if bounds_eq L j other then Some Less
              else None)"

definition bounds_operate :: "'t lattice_ops \<Rightarrow> 't lattice_bounds \<Rightarrow> 't lattice_bounds \<Rightarrow> 't lattice_bounds" where
  "bounds_operate L self right = \<lparr>upper_bound = lat_meet L (upper_bound right) (upper_bound self),
     lower_bound = lat_join L (lower_bound right) (lower_bound self)\<rparr>"

definition identity_element :: "'t \<Rightarrow> 't \<Rightarrow> 't lattice_bounds" where
  "identity_element bt tp = \<lparr>upper_bound = tp, lower_bound = bt\<rparr>"

section \<open>Lattices of types\<close>

locale type_lattice =
  fixes L :: "'t lattice_ops" and C :: "'t set" and le :: "'t \<Rightarrow> 't \<Rightarrow> bool"
  assumes le_refl: "x \<in> C \<Longrightarrow> le x x"
    and le_trans: "x \<in> C \<Longrightarrow> y \<in> C \<Longrightarrow> z \<in> C \<Longrightarrow> le x y \<Longrightarrow> le y z \<Longrightarrow> le x z"
    and le_antisym: "x \<in> C \<Longrightarrow> y \<in> C \<Longrightarrow> le x y \<Longrightarrow> le y x \<Longrightarrow> x = y"
    and join_closed: "x \<in> C \<Longrightarrow> y \<in> C \<Longrightarrow> lat_join L x y \<in> C"
    and join_le: "x \<in> C \<Longrightarrow> y \<in> C \<Longrightarrow> z \<in> C \<Longrightarrow> le (lat_join L x y) z \<longleftrightarrow> le x z \<and> le y z"
    and meet_closed: "x \<in> C \<Longrightarrow> y \<in> C \<Longrightarrow> lat_meet L x y \<in> C"
    and le_meet: "x \<in> C \<Longrightarrow> y \<in> C \<Longrightarrow> z \<in> C \<Longrightarrow> le z (lat_meet L x y) \<longleftrightarrow> le z x \<and> le z y"
    and eq_iff: "x \<in> C \<Longrightarrow> y \<in> C \<Longrightarrow> lat_eq L x y \<longleftrightarrow> x = y"

text \<open>The elements between the bounds, and the bounds in the lattice.\<close>

definition interval :: "'t set \<Rightarrow> ('t \<Rightarrow> 't \<Rightarrow> bool) \<Rightarrow> 't lattice_bounds \<Rightarrow> 't set" where
  "interval C le b = {x \<in> C. le (lower_bound b) x \<and> le x (upper_bound b)}"

definition bounds_in :: "'t set \<Rightarrow> 't lattice_bounds \<Rightarrow> bool" where
  "bounds_in C b \<longleftrightarrow> upper_bound b \<in> C \<and> lower_bound b \<in> C"

definition bounds_le :: "('t \<Rightarrow> 't \<Rightarrow> bool) \<Rightarrow> 't lattice_bounds \<Rightarrow> 't lattice_bounds \<Rightarrow> bool" where
  "bounds_le le a b \<longleftrightarrow> le (upper_bound a) (upper_bound b) \<and> le (lower_bound a) (lower_bound b)"

context type_lattice
begin

lemma bounds_operate_in: "bounds_in C a \<Longrightarrow> bounds_in C b \<Longrightarrow> bounds_in C (bounds_operate L a b)"
  by (simp add: bounds_in_def bounds_operate_def join_closed meet_closed)

lemma refine_in:
  assumes "bounds_in C b" "x \<in> C"
  shows "bounds_in C (refine_lower L b x)" "bounds_in C (refine_upper L b x)"
  using assms by (simp_all add: bounds_in_def refine_lower_def refine_upper_def join_closed meet_closed)

lemma bounds_operate_interval:
  "bounds_in C a \<Longrightarrow> bounds_in C b \<Longrightarrow> interval C le (bounds_operate L a b) = interval C le a \<inter> interval C le b"
  by (auto simp: bounds_in_def interval_def bounds_operate_def join_le le_meet)

lemma refine_lower_interval:
  "bounds_in C b \<Longrightarrow> x \<in> C \<Longrightarrow> interval C le (refine_lower L b x) = interval C le b \<inter> {y. le x y}"
  by (auto simp: bounds_in_def interval_def refine_lower_def join_le)

lemma refine_upper_interval:
  "bounds_in C b \<Longrightarrow> x \<in> C \<Longrightarrow> interval C le (refine_upper L b x) = interval C le b \<inter> {y. le y x}"
  by (auto simp: bounds_in_def interval_def refine_upper_def le_meet)

lemma le_eqI: "x \<in> C \<Longrightarrow> y \<in> C \<Longrightarrow> (\<And>z. z \<in> C \<Longrightarrow> le x z \<longleftrightarrow> le y z) \<Longrightarrow> x = y"
  using le_antisym le_refl by blast

lemma ge_eqI: "x \<in> C \<Longrightarrow> y \<in> C \<Longrightarrow> (\<And>z. z \<in> C \<Longrightarrow> le z x \<longleftrightarrow> le z y) \<Longrightarrow> x = y"
  using le_antisym le_refl by blast

lemma join_comm: "x \<in> C \<Longrightarrow> y \<in> C \<Longrightarrow> lat_join L x y = lat_join L y x"
  by (rule le_eqI) (auto simp: join_closed join_le)

lemma join_assoc:
  "x \<in> C \<Longrightarrow> y \<in> C \<Longrightarrow> z \<in> C \<Longrightarrow> lat_join L (lat_join L x y) z = lat_join L x (lat_join L y z)"
  by (rule le_eqI) (auto simp: join_closed join_le)

lemma join_idem: "x \<in> C \<Longrightarrow> lat_join L x x = x"
  by (rule le_eqI) (auto simp: join_closed join_le)

lemma meet_comm: "x \<in> C \<Longrightarrow> y \<in> C \<Longrightarrow> lat_meet L x y = lat_meet L y x"
  by (rule ge_eqI) (auto simp: meet_closed le_meet)

lemma meet_assoc:
  "x \<in> C \<Longrightarrow> y \<in> C \<Longrightarrow> z \<in> C \<Longrightarrow> lat_meet L (lat_meet L x y) z = lat_meet L x (lat_meet L y z)"
  by (rule ge_eqI) (auto simp: meet_closed le_meet)

lemma meet_idem: "x \<in> C \<Longrightarrow> lat_meet L x x = x"
  by (rule ge_eqI) (auto simp: meet_closed le_meet)

lemma bounds_operate_laws:
  assumes C: "bounds_in C a" "bounds_in C b" "bounds_in C c"
  shows "bounds_operate L a b = bounds_operate L b a"
    and "bounds_operate L (bounds_operate L a b) c = bounds_operate L a (bounds_operate L b c)"
    and "bounds_operate L a a = a"
  using C join_assoc [of "lower_bound c" "lower_bound b" "lower_bound a"]
    meet_assoc [of "upper_bound c" "upper_bound b" "upper_bound a"]
  by (simp_all add: bounds_in_def bounds_operate_def join_comm [of "lower_bound a" "lower_bound b"]
      meet_comm [of "upper_bound a" "upper_bound b"] join_idem meet_idem join_closed meet_closed)

lemma bounds_operate_identity:
  assumes "tp \<in> C" "bt \<in> C" "\<forall>x \<in> C. le bt x \<and> le x tp" "bounds_in C b"
  shows "bounds_operate L (identity_element bt tp) b = b" "interval C le (identity_element bt tp) = C"
proof -
  have b: "upper_bound b \<in> C" "lower_bound b \<in> C" using assms(4) by (simp_all add: bounds_in_def)
  have "lat_join L (lower_bound b) bt = lower_bound b"
    using b assms(2,3) by (intro le_eqI) (auto simp: join_closed join_le)
  moreover have "lat_meet L (upper_bound b) tp = upper_bound b"
    using b assms(1,3) by (intro ge_eqI) (auto simp: meet_closed le_meet)
  ultimately show "bounds_operate L (identity_element bt tp) b = b" by (simp add: bounds_operate_def identity_element_def)
  show "interval C le (identity_element bt tp) = C"
    using assms by (auto simp: interval_def identity_element_def)
qed

lemma join_eq: "x \<in> C \<Longrightarrow> y \<in> C \<Longrightarrow> lat_join L x y = y \<longleftrightarrow> le x y"
  using le_antisym [of "lat_join L x y" y] le_refl join_closed join_le by metis

lemma bounds_cmp:
  assumes C: "bounds_in C a" "bounds_in C b"
  shows "bounds_partial_cmp L a b = (if a = b then Some Equal else if bounds_le le b a then Some Greater
    else if bounds_le le a b then Some Less else None)"
proof -
  note C' = C [unfolded bounds_in_def]
  have j: "upper_bound (bounds_join L a b) = lat_join L (upper_bound a) (upper_bound b)"
    "lower_bound (bounds_join L a b) = lat_join L (lower_bound a) (lower_bound b)" by (simp_all add: bounds_join_def)
  have eq: "bounds_eq L b a \<longleftrightarrow> a = b" using C' by (auto simp: bounds_eq_def eq_iff)
  have "lat_join L x y = x \<longleftrightarrow> le y x" if "x \<in> C" "y \<in> C" for x y
    using that join_eq [of y x] join_comm by metis
  then have "bounds_eq L (bounds_join L a b) a \<longleftrightarrow> bounds_le le b a"
    using C' by (simp add: bounds_eq_def j eq_iff join_closed bounds_le_def)
  moreover have "bounds_eq L (bounds_join L a b) b \<longleftrightarrow> bounds_le le a b"
    using C' by (simp add: bounds_eq_def j eq_iff join_closed join_eq bounds_le_def)
  ultimately show ?thesis unfolding bounds_partial_cmp_def Let_def eq by simp
qed

end

section \<open>Generated lattices\<close>

text \<open>The operations of generated elements; outside a table the code panics.\<close>

definition ce_ops :: "custom_lattice_element lattice_ops" where
  "ce_ops = \<lparr>lat_join = (\<lambda>e f. the (ce_join e f)), lat_meet = (\<lambda>e f. the (ce_meet e f)), lat_eq = ce_eq\<rparr>"

definition elements :: "enumerated_named_lattice \<Rightarrow> custom_lattice_element set" where
  "elements l = ran (enl_nds l)"

definition ce_le :: "lattice_definition \<Rightarrow> custom_lattice_element \<Rightarrow> custom_lattice_element \<Rightarrow> bool" where
  "ce_le d e f \<longleftrightarrow> (ce_elem e, ce_elem f) \<in> (lt_rel d)\<^sup>*"

text \<open>A definition that describes a lattice.\<close>

definition lattice_like :: "lattice_definition \<Rightarrow> bool" where
  "lattice_like d \<longleftrightarrow> acyclic (lt_rel d) \<and> {top_handle d, bottom_handle d} \<subseteq> handles d
     \<and> (\<forall>x \<in> handles d. \<forall>y \<in> handles d. (\<exists>z. lub_of (lt_rel d) x y z) \<and> (\<exists>z. lub_of ((lt_rel d)\<inverse>) x y z))"

lemma rtrancl_handles: "(x, y) \<in> (lt_rel d)\<^sup>* \<Longrightarrow> x \<in> handles d \<Longrightarrow> y \<in> handles d"
  by (induction rule: rtrancl_induct) (force simp: lt_rel_def handles_def)+

lemma rtrancl_handles_conv: "(x, y) \<in> ((lt_rel d)\<inverse>)\<^sup>* \<Longrightarrow> x \<in> handles d \<Longrightarrow> y \<in> handles d"
  by (induction rule: rtrancl_induct) (force simp: lt_rel_def handles_def)+

lemma generated_names:
  assumes "generate_lattice hord G topo d = Some l" "x \<in> handles d"
  shows "\<exists>e. enl_nds l x = Some e"
proof -
  obtain tp where l: "enl_nds l = map_of (map (\<lambda>n. (n, tp\<lparr>ce_elem := n\<rparr>)) (lattice_names d))"
    using generated_nds [OF assms(1)] by blast
  have "x \<in> set (lattice_names d)" using assms(2) by (force simp: handles_def lattice_names_def)
  then have "x \<in> fst ` set (map (\<lambda>n. (n, tp\<lparr>ce_elem := n\<rparr>)) (lattice_names d))"
    by (simp only: set_map image_image fst_conv image_ident)
  then show ?thesis unfolding l by (metis map_of_eq_None_iff not_None_eq)
qed

lemma generated_type_lattice:
  assumes "stable_digraph G ok" "is_enum hord" "is_toposort G ok topo" "generate_lattice hord G topo d = Some l"
    and d: "lattice_like d"
  shows "type_lattice ce_ops (elements l) (ce_le d)"
proof -
  have el: "\<exists>x \<in> handles d. enl_nds l x = Some e \<and> ce_elem e = x" if e: "e \<in> elements l" for e
  proof -
    obtain x where x: "enl_nds l x = Some e" using e by (auto simp: elements_def ran_def)
    with generate_lattice_Some(1,4) [OF assms(1-4) x] d show ?thesis by (auto simp: lattice_like_def)
  qed
  have in_el: "e \<in> elements l" if "enl_nds l x = Some e" for x e using that by (auto simp: elements_def ran_def)
  have uniq: "e = f" if "e \<in> elements l" "f \<in> elements l" "ce_elem e = ce_elem f" for e f
    using el [OF that(1)] el [OF that(2)] that(3) by auto
  have order: "\<exists>z e'. ce_join e f = Some e' \<and> e' \<in> elements l \<and> ce_elem e' = z \<and> lub_of (lt_rel d) (ce_elem e) (ce_elem f) z"
    "\<exists>z e'. ce_meet e f = Some e' \<and> e' \<in> elements l \<and> ce_elem e' = z \<and> lub_of ((lt_rel d)\<inverse>) (ce_elem e) (ce_elem f) z"
    if ef: "e \<in> elements l" "f \<in> elements l" for e f
  proof -
    obtain x y where xy: "x \<in> handles d" "enl_nds l x = Some e" "ce_elem e = x" "y \<in> handles d" "enl_nds l y = Some f" "ce_elem f = y"
      using el [OF ef(1)] el [OF ef(2)] by blast
    have upd: "e\<lparr>ce_elem := z\<rparr> = g" if "enl_nds l z = Some g" for z g
      using generate_lattice_elem_upd [OF assms(4) xy(2) that] .
    obtain z where z: "lub_of (lt_rel d) x y z" using d xy unfolding lattice_like_def by blast
    have "z \<in> handles d" using z rtrancl_handles xy(1) unfolding lub_of_def by blast
    then obtain g where g: "enl_nds l z = Some g" using generated_names [OF assms(4)] by blast
    from generate_lattice_Some(5) [OF assms(1-4) xy(2,1,4) z] have "ce_join e f = Some g"
      using upd [OF g] xy by (simp add: ce_join_def)
    then show "\<exists>z e'. ce_join e f = Some e' \<and> e' \<in> elements l \<and> ce_elem e' = z \<and> lub_of (lt_rel d) (ce_elem e) (ce_elem f) z"
      using in_el [OF g] generate_lattice_Some(1) [OF assms(1-4) g] z xy by auto
    obtain u where u: "lub_of ((lt_rel d)\<inverse>) x y u" using d xy unfolding lattice_like_def by blast
    have "u \<in> handles d" using u rtrancl_handles_conv xy(1) unfolding lub_of_def by blast
    then obtain h where h: "enl_nds l u = Some h" using generated_names [OF assms(4)] by blast
    from generate_lattice_Some(6) [OF assms(1-4) xy(2,1,4) u] have "ce_meet e f = Some h"
      using upd [OF h] xy by (simp add: ce_meet_def)
    then show "\<exists>z e'. ce_meet e f = Some e' \<and> e' \<in> elements l \<and> ce_elem e' = z \<and> lub_of ((lt_rel d)\<inverse>) (ce_elem e) (ce_elem f) z"
      using in_el [OF h] generate_lattice_Some(1) [OF assms(1-4) h] u xy by auto
  qed
  show ?thesis
  proof
    show "x = y" if xy: "x \<in> elements l" "y \<in> elements l" "ce_le d x y" "ce_le d y x" for x y
    proof -
      have "antisym ((lt_rel d)\<^sup>*)" using d by (simp add: lattice_like_def acyclic_impl_antisym_rtrancl)
      then show ?thesis using xy uniq unfolding ce_le_def by (blast dest: antisymD)
    qed
    show "lat_eq ce_ops x y \<longleftrightarrow> x = y" if "x \<in> elements l" "y \<in> elements l" for x y
      using uniq that by (auto simp: ce_ops_def ce_eq_def)
  next
    fix x y assume xy: "x \<in> elements l" "y \<in> elements l"
    from order(1) [OF xy] obtain e where e: "ce_join x y = Some e" "e \<in> elements l"
      "lub_of (lt_rel d) (ce_elem x) (ce_elem y) (ce_elem e)" by blast
    then show "lat_join ce_ops x y \<in> elements l" by (simp add: ce_ops_def)
    show "ce_le d (lat_join ce_ops x y) z \<longleftrightarrow> ce_le d x z \<and> ce_le d y z" for z
      using e(1,3) unfolding lub_of_def by (auto simp: ce_ops_def ce_le_def intro: rtrancl_trans)
    from order(2) [OF xy] obtain f where f: "ce_meet x y = Some f" "f \<in> elements l"
      "lub_of ((lt_rel d)\<inverse>) (ce_elem x) (ce_elem y) (ce_elem f)" by blast
    then show "lat_meet ce_ops x y \<in> elements l" by (simp add: ce_ops_def)
    show "ce_le d z (lat_meet ce_ops x y) \<longleftrightarrow> ce_le d z x \<and> ce_le d z y" for z
      using f(1,3) unfolding lub_of_def rtrancl_converse by (auto simp: ce_ops_def ce_le_def intro: rtrancl_trans)
  qed (auto simp: ce_le_def intro: rtrancl_trans)
qed

section \<open>The lattice of file descriptors\<close>

lemma lub_chain: "(x, y) \<in> r\<^sup>* \<Longrightarrow> lub_of r x y y" "(y, x) \<in> r\<^sup>* \<Longrightarrow> lub_of r x y x"
  by (simp_all add: lub_of_def)

lemma fd_total:
  assumes "x \<in> handles fd_lattice" "y \<in> handles fd_lattice"
  shows "(x, y) \<in> (lt_rel fd_lattice)\<^sup>* \<or> (y, x) \<in> (lt_rel fd_lattice)\<^sup>*"
proof -
  have "(''file_descriptor'', ''int'') \<in> (lt_rel fd_lattice)\<^sup>*" unfolding fd_rel by auto
  then show ?thesis using assms fd_below fd_above unfolding fd_handles by auto
qed

lemma fd_lattice_like: "lattice_like fd_lattice"
  unfolding lattice_like_def
proof (intro conjI ballI)
  show "{top_handle fd_lattice, bottom_handle fd_lattice} \<subseteq> handles fd_lattice"
    by (simp add: fd_handles) (simp add: fd_lattice_def lattice_definition_new_def)
  fix x y assume xy: "x \<in> handles fd_lattice" "y \<in> handles fd_lattice"
  show "\<exists>z. lub_of (lt_rel fd_lattice) x y z"
    by (rule disjE [OF fd_total [OF xy]]) (rule exI, erule lub_chain)+
  show "\<exists>z. lub_of ((lt_rel fd_lattice)\<inverse>) x y z"
    by (rule disjE [OF fd_total [OF xy]]) (rule exI, rule lub_chain, erule rtrancl_converseI)+
qed (rule fd_acyclic)

definition fd_generated :: enumerated_named_lattice where
  "fd_generated = the (generate_lattice sorted_list_of_set list_digraph list_toposort fd_lattice)"

lemma fd_generated: "generate_lattice sorted_list_of_set list_digraph list_toposort fd_lattice = Some fd_generated"
  using generate_lattice_None [OF list_pg.stable_digraph_axioms sorted_enum list_toposort, of fd_lattice]
    fd_acyclic fd_bounded unfolding fd_generated_def by (metis option.collapse)

interpretation fd: type_lattice ce_ops "elements fd_generated" "ce_le fd_lattice"
  by (rule generated_type_lattice [OF list_pg.stable_digraph_axioms sorted_enum list_toposort fd_generated fd_lattice_like])

lemma fd_element: "x \<in> handles fd_lattice \<Longrightarrow> \<exists>e \<in> elements fd_generated. ce_elem e = x"
  using generated_names [OF fd_generated]
    generate_lattice_Some(1) [OF list_pg.stable_digraph_axioms sorted_enum list_toposort fd_generated]
  by (metis elements_def ranI)

section \<open>Merging bounds\<close>

text \<open>
  Over a lattice of types, merging two labels stands for the types that both allow, and
  refining a label by a bound for the types that respect the bound too; merging does not depend
  on order, grouping or repetition.
\<close>

theorem bounds_intersect:
  assumes "type_lattice L C le" "bounds_in C a" "bounds_in C b" "bounds_in C c" "x \<in> C"
  shows "interval C le (bounds_operate L a b) = interval C le a \<inter> interval C le b
    \<and> interval C le (refine_lower L a x) = interval C le a \<inter> {y. le x y}
    \<and> interval C le (refine_upper L a x) = interval C le a \<inter> {y. le y x}
    \<and> bounds_operate L a b = bounds_operate L b a \<and> bounds_operate L (bounds_operate L a b) c = bounds_operate L a (bounds_operate L b c)
    \<and> bounds_operate L a a = a"
proof -
  note tl = assms(1)
  show ?thesis
    using type_lattice.bounds_operate_interval [OF tl assms(2,3)] type_lattice.refine_lower_interval [OF tl assms(2,5)]
      type_lattice.refine_upper_interval [OF tl assms(2,5)] type_lattice.bounds_operate_laws [OF tl assms(2-4)] by blast
qed

text \<open>
  The comparison of two labels is the order of both bounds: equal labels are equal, a label with
  both bounds higher is greater, and labels whose bounds disagree are incomparable.
\<close>

theorem bounds_partial_cmp_order:
  assumes "type_lattice L C le" "bounds_in C a" "bounds_in C b"
  shows "bounds_partial_cmp L a b = (if a = b then Some Equal else if bounds_le le b a then Some Greater
    else if bounds_le le a b then Some Less else None)"
  by (rule type_lattice.bounds_cmp [OF assms])

lemma fd_bounds:
  obtains e f where "e \<in> elements fd_generated" "f \<in> elements fd_generated" "ce_elem e = ''bottom''" "ce_elem f = ''int''"
  using fd_element [of "''bottom''"] fd_element [of "''int''"] by (auto simp: fd_handles)

lemma bounds_intersect_witness:
  "\<exists>e f. ce_elem e = ''bottom'' \<and> ce_elem f = ''int''
    \<and> f \<in> interval (elements fd_generated) (ce_le fd_lattice)
        (refine_lower ce_ops \<lparr>upper_bound = f, lower_bound = e\<rparr> f)
    \<and> e \<notin> interval (elements fd_generated) (ce_le fd_lattice)
        (refine_lower ce_ops \<lparr>upper_bound = f, lower_bound = e\<rparr> f)"
proof -
  obtain e f where ef: "e \<in> elements fd_generated" "f \<in> elements fd_generated"
    "ce_elem e = ''bottom''" "ce_elem f = ''int''" by (rule fd_bounds)
  let ?b = "\<lparr>upper_bound = f, lower_bound = e\<rparr>"
  have b: "bounds_in (elements fd_generated) ?b" using ef by (simp add: bounds_in_def)
  have le: "ce_le fd_lattice e f" using ef fd_above [of "''int''"] by (simp add: ce_le_def fd_handles)
  have "e \<noteq> f" using ef by auto
  then have "\<not> ce_le fd_lattice f e" using le fd.le_antisym ef by blast
  moreover have "interval (elements fd_generated) (ce_le fd_lattice) (refine_lower ce_ops ?b f)
      = interval (elements fd_generated) (ce_le fd_lattice) ?b \<inter> {y. ce_le fd_lattice f y}"
    using bounds_intersect [OF fd.type_lattice_axioms b b b ef(2)] by blast
  moreover have "f \<in> interval (elements fd_generated) (ce_le fd_lattice) ?b"
    using le fd.le_refl [OF ef(2)] ef(2) by (simp add: interval_def)
  ultimately show ?thesis using fd.le_refl [OF ef(2)] ef(3,4) by blast
qed

lemma bounds_partial_cmp_order_witness:
  "\<exists>e f. ce_elem e = ''bottom'' \<and> ce_elem f = ''int''
    \<and> bounds_partial_cmp ce_ops \<lparr>upper_bound = e, lower_bound = e\<rparr> \<lparr>upper_bound = f, lower_bound = e\<rparr> = Some Less"
proof -
  obtain e f where ef: "e \<in> elements fd_generated" "f \<in> elements fd_generated"
    "ce_elem e = ''bottom''" "ce_elem f = ''int''" by (rule fd_bounds)
  let ?a = "\<lparr>upper_bound = e, lower_bound = e\<rparr>" and ?b = "\<lparr>upper_bound = f, lower_bound = e\<rparr>"
  have "bounds_in (elements fd_generated) ?a" "bounds_in (elements fd_generated) ?b" using ef by (simp_all add: bounds_in_def)
  note cmp = bounds_partial_cmp_order [OF fd.type_lattice_axioms this]
  have le: "ce_le fd_lattice e f" using ef fd_above [of "''int''"] by (simp add: ce_le_def fd_handles)
  have "e \<noteq> f" using ef by auto
  moreover from this have "\<not> ce_le fd_lattice f e" using le fd.le_antisym ef by blast
  ultimately have "bounds_partial_cmp ce_ops ?a ?b = Some Less"
    unfolding cmp using le fd.le_refl [OF ef(1)] by (simp add: bounds_le_def)
  with ef show ?thesis by blast
qed

end
