(* ===== verification/SketchBuilder.thy ===== *)
theory SketchBuilder
  imports QuotientGroups LatticeBounds
begin

text \<open>
  How a sketch graph is built from constraints (\<^verbatim>\<open>src/solver/type_sketch.rs\<close>,
  \<^verbatim>\<open>SketchBuilder\<close>): the derived type variables of the constraints become nodes, one for
  each prefix, the graph is quotiented by the congruence of the constraints, and the nodes are
  labelled by the lattice elements that the constraints relate to them.  The named lattice, the
  union-find and the iteration orders are arguments; so is \<open>add_new_var\<close>, the code's closure that
  adds a variable to the graph, whose result is a panic, an error or the new graph.
\<close>

section \<open>Inserting derived type variables\<close>

record 't named_lattice =
  nl_bot :: 't
  nl_top :: 't
  nl_get_elem :: "string \<Rightarrow> 't option"

definition lattice_identity :: "'t named_lattice \<Rightarrow> 't lattice_bounds" where
  "lattice_identity lattice = identity_element (nl_bot lattice) (nl_top lattice)"

definition insert_label ::
    "('g, 't lattice_bounds, field_label) petgraph \<Rightarrow> 't lattice_ops \<Rightarrow> 't named_lattice \<Rightarrow> field_label \<Rightarrow>
     'tid dtv \<times> nat \<times> ('g, 'tid dtv) mapping_graph \<Rightarrow> ('tid dtv \<times> nat \<times> ('g, 'tid dtv) mapping_graph) option" where
  "insert_label G L lattice fl st =
     (case st of (curr_var, prev, grph) \<Rightarrow>
        (let curr_var' = add_field_label curr_var fl
         in do { (nxt, grph1) \<leftarrow> mg_add_node G (bounds_operate L) curr_var' (lattice_identity lattice) grph;
                 (_, grph2) \<leftarrow> mg_add_edge G prev nxt fl grph1;
                 Some (curr_var', nxt, grph2) }))"

definition insert_dtv ::
    "('g, 't lattice_bounds, field_label) petgraph \<Rightarrow> 't lattice_ops \<Rightarrow> 't named_lattice \<Rightarrow> 'tid dtv \<Rightarrow>
     ('g, 'tid dtv) mapping_graph \<Rightarrow> ('g, 'tid dtv) mapping_graph option" where
  "insert_dtv G L lattice d grph =
     (let curr_var = dtv_new (dtv_var d)
      in do { (prev, grph1) \<leftarrow> mg_add_node G (bounds_operate L) curr_var (lattice_identity lattice) grph;
              (_, _, grph2) \<leftarrow> fold_opt (insert_label G L lattice) (dtv_labels d) (curr_var, prev, grph1);
              Some grph2 })"

section \<open>The builder\<close>

record ('g, 'w, 'tid) sketch_graph =
  quotient_graph :: "('g, 'tid dtv) mapping_graph"
  default_label :: 'w

record ('g, 't, 'tid) sketch_builder =
  sb_lattice :: "'t named_lattice"
  type_lattice_elements :: "'tid type_variable set"
  add_new_var :: "'tid dtv \<Rightarrow> ('g, 'tid dtv) mapping_graph \<Rightarrow> (string + ('g, 'tid dtv) mapping_graph) option"

definition sketch_builder_new ::
    "'t named_lattice \<Rightarrow> 'tid type_variable set \<Rightarrow>
     ('tid dtv \<Rightarrow> ('g, 'tid dtv) mapping_graph \<Rightarrow> (string + ('g, 'tid dtv) mapping_graph) option) \<Rightarrow>
     ('g, 't, 'tid) sketch_builder" where
  "sketch_builder_new lattice els add =
     \<lparr>sb_lattice = lattice, type_lattice_elements = els, add_new_var = add\<rparr>"

fun add_nodes_and_initial_edges ::
    "('g, 't, 'tid) sketch_builder \<Rightarrow> 'tid subtype_constraint list \<Rightarrow> ('g, 'tid dtv) mapping_graph \<Rightarrow>
     (string + ('g, 'tid dtv) mapping_graph) option" where
  "add_nodes_and_initial_edges bld [] nd_graph = Some (Inr nd_graph)"
| "add_nodes_and_initial_edges bld (sty # cs_set) nd_graph =
     (case add_new_var bld (sub_lhs sty) nd_graph of
        None \<Rightarrow> None
      | Some (Inl e) \<Rightarrow> Some (Inl e)
      | Some (Inr g1) \<Rightarrow>
          (case add_new_var bld (sub_rhs sty) g1 of
             None \<Rightarrow> None
           | Some (Inl e) \<Rightarrow> Some (Inl e)
           | Some (Inr g2) \<Rightarrow> add_nodes_and_initial_edges bld cs_set g2))"

definition dtv_is_uninterpreted_lattice :: "('g, 't, 'tid) sketch_builder \<Rightarrow> 'tid dtv \<Rightarrow> bool" where
  "dtv_is_uninterpreted_lattice bld d \<longleftrightarrow> dtv_var d \<in> type_lattice_elements bld \<and> dtv_labels d = []"

definition update_lattice_node ::
    "('g, 't lattice_bounds, field_label) petgraph \<Rightarrow> 't \<Rightarrow> 'tid dtv \<Rightarrow>
     ('t \<Rightarrow> 't lattice_bounds \<Rightarrow> 't lattice_bounds) \<Rightarrow> ('g, 'tid dtv) mapping_graph \<Rightarrow>
     ('g, 'tid dtv) mapping_graph option" where
  "update_lattice_node G lattice_elem target_dtv operation grph =
     do { target_group_idx \<leftarrow> mg_get_node grph target_dtv;
          orig_value \<leftarrow> pg_node_weight G (mg_grph grph) target_group_idx;
          Some (grph\<lparr>mg_grph := pg_set_node_weight G target_group_idx (operation lattice_elem orig_value) (mg_grph grph)\<rparr>) }"

definition label_one ::
    "('g, 't lattice_bounds, field_label) petgraph \<Rightarrow> 't lattice_ops \<Rightarrow> ('tid \<Rightarrow> string) \<Rightarrow>
     ('g, 't, 'tid) sketch_builder \<Rightarrow> 'tid subtype_constraint \<Rightarrow> ('g, 'tid dtv) mapping_graph \<Rightarrow>
     ('g, 'tid dtv) mapping_graph option" where
  "label_one G L show_tid bld subty grph =
     (if dtv_is_uninterpreted_lattice bld (sub_lhs subty) \<and> mg_get_node grph (sub_rhs subty) \<noteq> None
      then do { e \<leftarrow> nl_get_elem (sb_lattice bld) (get_name show_tid (dtv_var (sub_lhs subty)));
                update_lattice_node G e (sub_rhs subty) (\<lambda>x y. refine_lower L y x) grph }
      else if dtv_is_uninterpreted_lattice bld (sub_rhs subty) \<and> mg_get_node grph (sub_lhs subty) \<noteq> None
      then do { e \<leftarrow> nl_get_elem (sb_lattice bld) (get_name show_tid (dtv_var (sub_rhs subty)));
                update_lattice_node G e (sub_lhs subty) (\<lambda>x y. refine_upper L y x) grph }
      else Some grph)"

definition label_by ::
    "('g, 't lattice_bounds, field_label) petgraph \<Rightarrow> 't lattice_ops \<Rightarrow> ('tid \<Rightarrow> string) \<Rightarrow>
     ('g, 't, 'tid) sketch_builder \<Rightarrow> 'tid subtype_constraint list \<Rightarrow> ('g, 'tid dtv) mapping_graph \<Rightarrow>
     ('g, 'tid dtv) mapping_graph option" where
  "label_by G L show_tid bld cons grph = fold_opt (label_one G L show_tid bld) cons grph"

definition build_without_pointer_simplification ::
    "'u union_find_ops \<Rightarrow> (edge_implication set \<Rightarrow> edge_implication list) \<Rightarrow> (nat set \<Rightarrow> nat list) \<Rightarrow>
     ('g, 't lattice_bounds, field_label) petgraph \<Rightarrow> 't lattice_ops \<Rightarrow> ('tid \<Rightarrow> string) \<Rightarrow>
     ('g, 't, 'tid) sketch_builder \<Rightarrow> 'tid subtype_constraint list \<Rightarrow>
     (string + ('g, 't lattice_bounds, 'tid) sketch_graph) option" where
  "build_without_pointer_simplification U hord vord G L show_tid bld sg =
     (case add_nodes_and_initial_edges bld sg (mg_new G) of
        None \<Rightarrow> None
      | Some (Inl e) \<Rightarrow> Some (Inl e)
      | Some (Inr nd_graph) \<Rightarrow>
          do { qgroups \<leftarrow> generate_quotient_groups U hord vord G nd_graph sg;
               quoted_graph \<leftarrow> quoetient_graph G (bounds_operate L) qgroups nd_graph;
               if length (pg_node_indices G (mg_grph quoted_graph)) \<noteq> length qgroups then None
               else do { quoted_graph' \<leftarrow> label_by G L show_tid bld sg quoted_graph;
                         Some (Inr \<lparr>quotient_graph = quoted_graph',
                                    default_label = lattice_identity (sb_lattice bld)\<rparr>) } })"

section \<open>The variables of the constraints\<close>

definition sub_dtvs :: "'tid dtv \<Rightarrow> 'tid dtv set" where
  "sub_dtvs d = (\<lambda>k. create_with_path (dtv_var d) (take k (dtv_labels d))) ` {..length (dtv_labels d)}"

definition sketch_vars :: "'tid subtype_constraint set \<Rightarrow> 'tid dtv set" where
  "sketch_vars sg = (\<Union>c \<in> sg. sub_dtvs (sub_lhs c) \<union> sub_dtvs (sub_rhs c))"

text \<open>The edges between them and the pairs that the constraints relate.\<close>

definition var_edges :: "'tid dtv set \<Rightarrow> ('tid dtv \<times> field_label \<times> 'tid dtv) set" where
  "var_edges V = {(d, l, e). e = add_field_label d l \<and> e \<in> V}"

definition var_pairs :: "'tid subtype_constraint set \<Rightarrow> ('tid dtv \<times> 'tid dtv) set" where
  "var_pairs sg = (\<lambda>c. (sub_lhs c, sub_rhs c)) ` sg"

text \<open>The element of a lattice variable, and what a constraint demands of the label of a node.\<close>

definition elem_of :: "('tid \<Rightarrow> string) \<Rightarrow> ('g, 't, 'tid) sketch_builder \<Rightarrow> 'tid dtv \<Rightarrow> 't" where
  "elem_of show_tid bld d = the (nl_get_elem (sb_lattice bld) (get_name show_tid (dtv_var d)))"

definition demands ::
    "('t \<Rightarrow> 't \<Rightarrow> bool) \<Rightarrow> ('tid \<Rightarrow> string) \<Rightarrow> ('g, 't, 'tid) sketch_builder \<Rightarrow> ('tid dtv \<Rightarrow> nat option) \<Rightarrow>
     'tid subtype_constraint \<Rightarrow> nat \<Rightarrow> 't \<Rightarrow> bool" where
  "demands le show_tid bld node c n y \<longleftrightarrow>
     (if dtv_is_uninterpreted_lattice bld (sub_lhs c)
      then node (sub_rhs c) = Some n \<longrightarrow> le (elem_of show_tid bld (sub_lhs c)) y
      else if dtv_is_uninterpreted_lattice bld (sub_rhs c)
      then node (sub_lhs c) = Some n \<longrightarrow> le y (elem_of show_tid bld (sub_rhs c))
      else True)"

section \<open>The graph of the variables\<close>

text \<open>Every node has one name and the weight \<open>w\<close>, and the edges are those of the variables.\<close>

definition var_graph ::
    "('g, 'w, field_label) petgraph \<Rightarrow> ('g \<Rightarrow> bool) \<Rightarrow> 'w \<Rightarrow> ('g, 'tid dtv) mapping_graph \<Rightarrow> 'tid dtv set \<Rightarrow> bool" where
  "var_graph G ok w m V \<longleftrightarrow> mg_ok G ok m \<and> dom (mg_nodes m) = V \<and> inj_on (mg_nodes m) V
     \<and> (\<forall>d l. add_field_label d l \<in> V \<longrightarrow> d \<in> V)
     \<and> (\<forall>n. pg_node_weight G (mg_grph m) n = (if n \<in> ran (mg_nodes m) then Some w else None))
     \<and> (\<forall>a l b. (a, l, b) \<in> weighted_arcs G (mg_grph m)
          \<longleftrightarrow> (\<exists>d. add_field_label d l \<in> V \<and> mg_nodes m d = Some a \<and> mg_nodes m (add_field_label d l) = Some b))"

lemma var_graphD:
  assumes "var_graph G ok w m V"
  shows "mg_ok G ok m" "dom (mg_nodes m) = V" "inj_on (mg_nodes m) V"
    "pg_node_weight G (mg_grph m) n = (if n \<in> ran (mg_nodes m) then Some w else None)"
    "(a, l, b) \<in> weighted_arcs G (mg_grph m)
      \<longleftrightarrow> (\<exists>d. add_field_label d l \<in> V \<and> mg_nodes m d = Some a \<and> mg_nodes m (add_field_label d l) = Some b)"
    "add_field_label e k \<in> V \<Longrightarrow> e \<in> V"
  using assms unfolding var_graph_def by blast+

lemma add_field_label_eq_iff: "add_field_label d l = add_field_label e k \<longleftrightarrow> d = e \<and> l = k" for d e :: "'tid dtv"
  by (cases d; cases e) (auto simp: add_field_label_def)

lemma add_field_label_not_root: "add_field_label d l \<noteq> dtv_new v"
  by (cases d) (auto simp: add_field_label_def dtv_new_def)

lemma self_sub_dtv: "d \<in> sub_dtvs d"
proof -
  have "d = create_with_path (dtv_var d) (take (length (dtv_labels d)) (dtv_labels d))" by simp
  then show ?thesis unfolding sub_dtvs_def by blast
qed

section \<open>The congruence under renaming\<close>

lemma unify_image:
  "unify E I a b \<Longrightarrow> unify ((\<lambda>(a, l, b). (f a, l, f b)) ` E) ((\<lambda>(a, b). (f a, f b)) ` I) (f a) (f b)"
proof (induction rule: unify.induct)
  case (U_init a b)
  then show ?case by (intro unify.U_init) force
next
  case (U_step a c w1 b w2 d)
  then show ?case by (intro unify.U_step [OF U_step.IH _ _ U_step.hyps(4)]) force+
qed (auto intro: unify.intros)

lemma unify_inj:
  assumes inj: "inj_on f V" and E: "E \<subseteq> V \<times> UNIV \<times> V" and I: "I \<subseteq> V \<times> V" and ab: "a \<in> V" "b \<in> V"
  shows "unify ((\<lambda>(a, l, b). (f a, l, f b)) ` E) ((\<lambda>(a, b). (f a, f b)) ` I) (f a) (f b) \<longleftrightarrow> unify E I a b"
proof
  let ?g = "inv_into V f"
  have g: "?g (f x) = x" if "x \<in> V" for x using inj that by simp
  have "(\<lambda>(a, l, b). (?g a, l, ?g b)) ` (\<lambda>(a, l, b). (f a, l, f b)) ` E = (\<lambda>e. e) ` E"
    unfolding image_image by (rule image_cong [OF refl]) (use E g in auto)
  moreover have "(\<lambda>(a, b). (?g a, ?g b)) ` (\<lambda>(a, b). (f a, f b)) ` I = (\<lambda>e. e) ` I"
    unfolding image_image by (rule image_cong [OF refl]) (use I g in auto)
  moreover assume "unify ((\<lambda>(a, l, b). (f a, l, f b)) ` E) ((\<lambda>(a, b). (f a, f b)) ` I) (f a) (f b)"
  ultimately show "unify E I a b" using unify_image [of _ _ "f a" "f b" ?g] g ab by fastforce
qed (rule unify_image)

context stable_digraph
begin

lemma add_key_spec:
  assumes m: "mg_ok G ok m" and nodes: "dom (mg_nodes m) = V" "inj_on (mg_nodes m) V"
    and weights: "\<And>n. pg_node_weight G (mg_grph m) n = (if n \<in> ran (mg_nodes m) then Some w else None)"
    and idem: "opr w w = w"
  shows "\<exists>x m'. mg_add_node G opr key w m = Some (x, m') \<and> mg_ok G ok m' \<and> mg_nodes m' = (mg_nodes m)(key \<mapsto> x)
    \<and> inj_on (mg_nodes m') (insert key V) \<and> (key \<in> V \<longrightarrow> mg_nodes m' = mg_nodes m)
    \<and> (\<forall>n. pg_node_weight G (mg_grph m') n = (if n \<in> ran (mg_nodes m') then Some w else None))
    \<and> weighted_arcs G (mg_grph m') = weighted_arcs G (mg_grph m)"
proof -
  obtain x m' where x: "mg_add_node G opr key w m = Some (x, m')" "mg_ok G ok m'"
    "mg_nodes m' = (mg_nodes m)(key \<mapsto> x)" "pg_edge G (mg_grph m') = pg_edge G (mg_grph m)"
    "case mg_nodes m key of
       Some y \<Rightarrow> x = y \<and> (\<exists>v. pg_node_weight G (mg_grph m) x = Some v
         \<and> pg_node_weight G (mg_grph m') = (pg_node_weight G (mg_grph m))(x \<mapsto> opr v w))
     | None \<Rightarrow> pg_node_weight G (mg_grph m) x = None
         \<and> pg_node_weight G (mg_grph m') = (pg_node_weight G (mg_grph m))(x \<mapsto> w)"
    using mg_add_node_spec [OF m, of opr key w] by blast
  have arcs: "weighted_arcs G (mg_grph m') = weighted_arcs G (mg_grph m)" by (simp add: weighted_arcs_def x(4))
  show ?thesis
  proof (cases "mg_nodes m key")
    case None
    then have fresh: "x \<notin> ran (mg_nodes m)" using x(5) weights [of x] by (auto split: if_splits)
    have key: "key \<notin> V" using None nodes(1) by auto
    have "inj_on (mg_nodes m') (insert key V)"
    proof (rule inj_onI)
      fix a b assume ab: "a \<in> insert key V" "b \<in> insert key V" "mg_nodes m' a = mg_nodes m' b"
      have "mg_nodes m c \<noteq> Some x" for c using fresh by (auto simp: ran_def)
      then have "a = key \<longleftrightarrow> b = key" using ab(3) unfolding x(3) by (metis fun_upd_apply)
      then show "a = b" using ab nodes(2) unfolding x(3) by (cases "a = key") (auto dest: inj_onD)
    qed
    moreover have "ran (mg_nodes m') = insert x (ran (mg_nodes m))" unfolding x(3) using None by (rule ran_map_upd)
    moreover have "pg_node_weight G (mg_grph m') = (pg_node_weight G (mg_grph m))(x \<mapsto> w)" using x(5) None by simp
    ultimately show ?thesis using x(1,2,3) arcs key weights by (intro exI [of _ x] exI [of _ m']) auto
  next
    case (Some y)
    obtain v where v: "x = y" "pg_node_weight G (mg_grph m) x = Some v"
      "pg_node_weight G (mg_grph m') = (pg_node_weight G (mg_grph m))(x \<mapsto> opr v w)"
      using x(5) Some by auto
    have same: "mg_nodes m' = mg_nodes m" unfolding x(3) using Some v(1) by auto
    have "v = w" using v(2) weights [of x] by (auto split: if_splits)
    then have "pg_node_weight G (mg_grph m') = pg_node_weight G (mg_grph m)" using v(2,3) idem by auto
    moreover have "insert key V = V" using Some nodes(1) by auto
    ultimately show ?thesis using x(1,2,3) arcs same weights nodes(2)
      by (intro exI [of _ x] exI [of _ m']) auto
  qed
qed

end

text \<open>Relabelling: the graph and its names stay, and each label keeps the types that satisfy \<open>P\<close>.\<close>

definition relabelled ::
    "('g, 't lattice_bounds, field_label) petgraph \<Rightarrow> ('g \<Rightarrow> bool) \<Rightarrow> 't set \<Rightarrow> ('t \<Rightarrow> 't \<Rightarrow> bool) \<Rightarrow>
     ('g, 'tid dtv) mapping_graph \<Rightarrow> (nat \<Rightarrow> 't \<Rightarrow> bool) \<Rightarrow> ('g, 'tid dtv) mapping_graph \<Rightarrow> bool" where
  "relabelled G ok C le m P m' \<longleftrightarrow> mg_ok G ok m' \<and> mg_nodes m' = mg_nodes m
     \<and> pg_edge G (mg_grph m') = pg_edge G (mg_grph m)
     \<and> (\<forall>n. pg_node_weight G (mg_grph m) n = None \<longrightarrow> pg_node_weight G (mg_grph m') n = None)
     \<and> (\<forall>n b. pg_node_weight G (mg_grph m) n = Some b \<longrightarrow>
          (\<exists>b'. pg_node_weight G (mg_grph m') n = Some b' \<and> bounds_in C b'
            \<and> interval C le b' = interval C le b \<inter> {y. P n y}))"

lemma relabelledD:
  assumes "relabelled G ok C le m P m'"
  shows "mg_ok G ok m'" "mg_nodes m' = mg_nodes m" "pg_edge G (mg_grph m') = pg_edge G (mg_grph m)"
    "pg_node_weight G (mg_grph m) n = None \<Longrightarrow> pg_node_weight G (mg_grph m') n = None"
    "pg_node_weight G (mg_grph m) n = Some b \<Longrightarrow> \<exists>b'. pg_node_weight G (mg_grph m') n = Some b' \<and> bounds_in C b'
            \<and> interval C le b' = interval C le b \<inter> {y. P n y}"
  using assms unfolding relabelled_def by blast+

lemma relabelled_trans:
  assumes 1: "relabelled G ok C le m P m1" and 2: "relabelled G ok C le m1 Q m2"
    and "\<And>n y. R n y \<longleftrightarrow> P n y \<and> Q n y"
  shows "relabelled G ok C le m R m2"
  unfolding relabelled_def
proof (intro conjI allI impI)
  fix n b assume "pg_node_weight G (mg_grph m) n = Some b"
  then obtain b1 where b1: "pg_node_weight G (mg_grph m1) n = Some b1" "interval C le b1 = interval C le b \<inter> {y. P n y}"
    using relabelledD(5) [OF 1] by blast
  obtain b2 where b2: "pg_node_weight G (mg_grph m2) n = Some b2" "bounds_in C b2"
    "interval C le b2 = interval C le b1 \<inter> {y. Q n y}"
    using relabelledD(5) [OF 2 b1(1)] by blast
  have "interval C le b2 = interval C le b \<inter> {y. R n y}" unfolding b2(3) b1(2) assms(3) by blast
  with b2 show "\<exists>b'. pg_node_weight G (mg_grph m2) n = Some b' \<and> bounds_in C b'
      \<and> interval C le b' = interval C le b \<inter> {y. R n y}" by blast
qed (use relabelledD [OF 1] relabelledD [OF 2] in simp_all)

text \<open>Everything that building a sketch relies on.\<close>

locale sketch_env = sketch_quotient G ok U ufok + type_lattice L C le
  for G :: "('g, 't lattice_bounds, field_label) petgraph" and ok :: "'g \<Rightarrow> bool"
    and U :: "'u union_find_ops" and ufok :: "'u \<Rightarrow> bool"
    and L :: "'t lattice_ops" and C :: "'t set" and le :: "'t \<Rightarrow> 't \<Rightarrow> bool"
begin

lemma insert_label_spec:
  assumes vg: "var_graph G ok (lattice_identity lattice) m V" and cur: "mg_nodes m cur = Some prev"
    and idem: "bounds_operate L (lattice_identity lattice) (lattice_identity lattice) = lattice_identity lattice"
  shows "\<exists>nxt m'. insert_label G L lattice fl (cur, prev, m) = Some (add_field_label cur fl, nxt, m')
    \<and> var_graph G ok (lattice_identity lattice) m' (insert (add_field_label cur fl) V)
    \<and> mg_nodes m' (add_field_label cur fl) = Some nxt"
proof -
  let ?key = "add_field_label cur fl" and ?w = "lattice_identity lattice"
  obtain x m1 where x: "mg_add_node G (bounds_operate L) ?key ?w m = Some (x, m1)" "mg_ok G ok m1"
    "mg_nodes m1 = (mg_nodes m)(?key \<mapsto> x)" "inj_on (mg_nodes m1) (insert ?key V)"
    "?key \<in> V \<longrightarrow> mg_nodes m1 = mg_nodes m"
    "\<forall>n. pg_node_weight G (mg_grph m1) n = (if n \<in> ran (mg_nodes m1) then Some ?w else None)"
    "weighted_arcs G (mg_grph m1) = weighted_arcs G (mg_grph m)"
    using add_key_spec [where w = ?w and key = ?key and opr = "bounds_operate L", OF var_graphD(1-4) [OF vg] idem] by blast
  have ne: "cur \<noteq> ?key" by (cases cur) (auto simp: add_field_label_def)
  have prev: "mg_nodes m1 cur = Some prev" and nxt: "mg_nodes m1 ?key = Some x" using cur ne by (simp_all add: x(3))
  then have "pg_node_weight G (mg_grph m1) prev \<noteq> None" "pg_node_weight G (mg_grph m1) x \<noteq> None"
    using x(6) by (auto simp: ran_def)
  from mg_add_edge_spec [OF x(2) this, of fl] obtain r g2 where g2: "mg_add_edge G prev x fl m1 = Some (r, m1\<lparr>mg_grph := g2\<rparr>)"
    "mg_ok G ok (m1\<lparr>mg_grph := g2\<rparr>)" "pg_node_weight G g2 = pg_node_weight G (mg_grph m1)"
    "weighted_arcs G g2 = insert (prev, fl, x) (weighted_arcs G (mg_grph m1))"
    by blast
  have V: "cur \<in> V" using cur var_graphD(2) [OF vg] by auto
  have arcs: "(a, l, b) \<in> weighted_arcs G g2 \<longleftrightarrow> (\<exists>d. add_field_label d l \<in> insert ?key V
      \<and> mg_nodes m1 d = Some a \<and> mg_nodes m1 (add_field_label d l) = Some b)" for a l b
  proof (cases "?key \<in> V")
    case True
    then have same: "mg_nodes m1 = mg_nodes m" and V': "insert ?key V = V" using x(5) by blast+
    have "(prev, fl, x) \<in> weighted_arcs G (mg_grph m)"
      unfolding var_graphD(5) [OF vg] using True cur nxt [unfolded same] by blast
    then have "weighted_arcs G g2 = weighted_arcs G (mg_grph m)" unfolding g2(4) x(7) by (rule insert_absorb)
    then show ?thesis unfolding same V' by (simp only: var_graphD(5) [OF vg])
  next
    case False
    have old: "mg_nodes m1 d = mg_nodes m d" if "d \<in> V" for d using that False by (auto simp: x(3))
    have vd: "d \<in> V" if "mg_nodes m d = Some c" for d c using that var_graphD(2) [OF vg] by auto
    have "(a, l, b) \<in> weighted_arcs G g2 \<longleftrightarrow> a = prev \<and> l = fl \<and> b = x \<or> (a, l, b) \<in> weighted_arcs G (mg_grph m)"
      using g2(4) x(7) by auto
    also have "\<dots> \<longleftrightarrow> (\<exists>d. add_field_label d l \<in> insert ?key V
        \<and> mg_nodes m1 d = Some a \<and> mg_nodes m1 (add_field_label d l) = Some b)" (is "?l \<longleftrightarrow> (\<exists>d. ?r d)")
    proof
      assume ?l
      then show "\<exists>d. ?r d"
      proof
        assume "a = prev \<and> l = fl \<and> b = x"
        then have "?r cur" using prev nxt by simp
        then show ?thesis by blast
      next
        assume "(a, l, b) \<in> weighted_arcs G (mg_grph m)"
        then obtain d where d: "add_field_label d l \<in> V" "mg_nodes m d = Some a" "mg_nodes m (add_field_label d l) = Some b"
          using var_graphD(5) [OF vg] by blast
        then have "?r d" using old [OF d(1)] old [OF vd [OF d(2)]] by simp
        then show ?thesis by blast
      qed
    next
      assume "\<exists>d. ?r d"
      then obtain d where d: "?r d" by blast
      show ?l
      proof (cases "add_field_label d l = ?key")
        case True
        then have "d = cur" "l = fl" by (simp_all add: add_field_label_eq_iff)
        then show ?thesis using d prev nxt by auto
      next
        case n: False
        then have dl: "add_field_label d l \<in> V" using d by blast
        have "d \<noteq> ?key" using var_graphD(6) [OF vg dl] False by blast
        then have "mg_nodes m d = Some a" "mg_nodes m (add_field_label d l) = Some b"
          using d old [OF dl] by (simp_all add: x(3))
        then show ?thesis using dl var_graphD(5) [OF vg] by blast
      qed
    qed
    finally show ?thesis .
  qed
  have "insert_label G L lattice fl (cur, prev, m) = Some (?key, x, m1\<lparr>mg_grph := g2\<rparr>)"
    by (simp add: insert_label_def x(1) g2(1))
  moreover have "var_graph G ok ?w (m1\<lparr>mg_grph := g2\<rparr>) (insert ?key V)"
    unfolding var_graph_def
  proof (intro conjI allI impI)
    show "dom (mg_nodes (m1\<lparr>mg_grph := g2\<rparr>)) = insert ?key V" using var_graphD(2) [OF vg] by (simp add: x(3))
    show "d \<in> insert ?key V" if "add_field_label d l \<in> insert ?key V" for d l
      using that V var_graphD(6) [OF vg] by (auto simp: add_field_label_eq_iff)
    show "pg_node_weight G (mg_grph (m1\<lparr>mg_grph := g2\<rparr>)) n
        = (if n \<in> ran (mg_nodes (m1\<lparr>mg_grph := g2\<rparr>)) then Some ?w else None)" for n
      using x(6) by (simp add: g2(3))
  qed (use g2(2) x(4) arcs in simp_all)
  ultimately show ?thesis using nxt by auto
qed

lemma insert_labels_spec:
  assumes "var_graph G ok (lattice_identity lattice) m V" "mg_nodes m cur = Some prev"
    and idem: "bounds_operate L (lattice_identity lattice) (lattice_identity lattice) = lattice_identity lattice"
  shows "\<exists>cur' prev' m'. fold_opt (insert_label G L lattice) fls (cur, prev, m) = Some (cur', prev', m')
    \<and> var_graph G ok (lattice_identity lattice) m'
        (V \<union> (\<lambda>k. create_with_path (dtv_var cur) (dtv_labels cur @ take k fls)) ` {..length fls})"
  using assms(1,2)
proof (induction fls arbitrary: m V cur prev)
  case Nil
  then have "cur \<in> V" using var_graphD(2) [OF Nil(1)] by auto
  then show ?case using Nil by (simp add: insert_absorb)
next
  case (Cons fl fls)
  let ?key = "add_field_label cur fl"
  obtain nxt m1 where m1: "insert_label G L lattice fl (cur, prev, m) = Some (?key, nxt, m1)"
    "var_graph G ok (lattice_identity lattice) m1 (insert ?key V)" "mg_nodes m1 ?key = Some nxt"
    using insert_label_spec [OF Cons.prems idem] by blast
  have cur: "cur \<in> V" using Cons.prems(2) var_graphD(2) [OF Cons.prems(1)] by auto
  have "{..length (fl # fls)} = insert 0 (Suc ` {..length fls})" by (simp add: atMost_Suc_eq_insert_0)
  then have "V \<union> (\<lambda>k. create_with_path (dtv_var cur) (dtv_labels cur @ take k (fl # fls))) ` {..length (fl # fls)}
      = insert cur V \<union> (\<lambda>k. create_with_path (dtv_var cur) (dtv_labels cur @ fl # take k fls)) ` {..length fls}"
    by (simp add: image_image)
  also have "\<dots> = insert ?key V \<union> (\<lambda>k. create_with_path (dtv_var ?key) (dtv_labels ?key @ take k fls)) ` {..length fls}"
  proof -
    have "?key = create_with_path (dtv_var cur) (dtv_labels cur @ fl # take 0 fls)" by (simp add: dtv_ops_defs)
    then have "?key \<in> (\<lambda>k. create_with_path (dtv_var cur) (dtv_labels cur @ fl # take k fls)) ` {..length fls}" by blast
    then show ?thesis using cur by (auto simp: insert_absorb)
  qed
  finally show ?case using Cons.IH [OF m1(2,3)] m1(1) by simp
qed

lemma insert_dtv_spec:
  assumes vg: "var_graph G ok (lattice_identity lattice) m V"
    and idem: "bounds_operate L (lattice_identity lattice) (lattice_identity lattice) = lattice_identity lattice"
  shows "\<exists>m'. insert_dtv G L lattice d m = Some m' \<and> var_graph G ok (lattice_identity lattice) m' (V \<union> sub_dtvs d)"
proof -
  let ?key = "dtv_new (dtv_var d)" and ?w = "lattice_identity lattice"
  obtain x m1 where x: "mg_add_node G (bounds_operate L) ?key ?w m = Some (x, m1)" "mg_ok G ok m1"
    "mg_nodes m1 = (mg_nodes m)(?key \<mapsto> x)" "inj_on (mg_nodes m1) (insert ?key V)"
    "?key \<in> V \<longrightarrow> mg_nodes m1 = mg_nodes m"
    "\<forall>n. pg_node_weight G (mg_grph m1) n = (if n \<in> ran (mg_nodes m1) then Some ?w else None)"
    "weighted_arcs G (mg_grph m1) = weighted_arcs G (mg_grph m)"
    using add_key_spec [where w = ?w and key = ?key and opr = "bounds_operate L", OF var_graphD(1-4) [OF vg] idem] by blast
  have root: "add_field_label e l \<in> insert ?key V \<longleftrightarrow> add_field_label e l \<in> V" for e l
    using add_field_label_not_root by blast
  have "var_graph G ok ?w m1 (insert ?key V)"
    unfolding var_graph_def
  proof (intro conjI allI impI)
    show "dom (mg_nodes m1) = insert ?key V" using var_graphD(2) [OF vg] by (simp add: x(3))
    show "e \<in> insert ?key V" if "add_field_label e l \<in> insert ?key V" for e l
      using that var_graphD(6) [OF vg] unfolding root by blast
    show "(a, l, b) \<in> weighted_arcs G (mg_grph m1) \<longleftrightarrow> (\<exists>e. add_field_label e l \<in> insert ?key V
        \<and> mg_nodes m1 e = Some a \<and> mg_nodes m1 (add_field_label e l) = Some b)" for a l b
    proof -
      have "mg_nodes m1 e = mg_nodes m e" if "e \<in> V" for e
        using that x(3,5) by (cases "e = ?key") auto
      then show ?thesis unfolding x(7) var_graphD(5) [OF vg] root using var_graphD(6) [OF vg] by metis
    qed
  qed (use x in simp_all)
  moreover have "mg_nodes m1 ?key = Some x" by (simp add: x(3))
  ultimately obtain c p m' where m': "fold_opt (insert_label G L lattice) (dtv_labels d) (?key, x, m1) = Some (c, p, m')"
    "var_graph G ok ?w m' (insert ?key V
      \<union> (\<lambda>k. create_with_path (dtv_var ?key) (dtv_labels ?key @ take k (dtv_labels d))) ` {..length (dtv_labels d)})"
    using insert_labels_spec [OF _ _ idem] by blast
  have "?key = create_with_path (dtv_var d) (take 0 (dtv_labels d))" by (simp add: dtv_ops_defs)
  then have "?key \<in> sub_dtvs d" unfolding sub_dtvs_def by blast
  then have "insert ?key V \<union> (\<lambda>k. create_with_path (dtv_var ?key) (dtv_labels ?key @ take k (dtv_labels d))) ` {..length (dtv_labels d)}
      = V \<union> sub_dtvs d" by (auto simp: sub_dtvs_def)
  with m' x(1) show ?thesis by (simp add: insert_dtv_def Let_def)
qed

lemma add_nodes_spec:
  assumes vg: "var_graph G ok (lattice_identity (sb_lattice bld)) m V"
    and idem: "bounds_operate L (lattice_identity (sb_lattice bld)) (lattice_identity (sb_lattice bld))
      = lattice_identity (sb_lattice bld)"
    and add: "add_new_var bld = (\<lambda>d g. map_option Inr (insert_dtv G L (sb_lattice bld) d g))"
  shows "\<exists>m'. add_nodes_and_initial_edges bld cs m = Some (Inr m')
    \<and> var_graph G ok (lattice_identity (sb_lattice bld)) m' (V \<union> sketch_vars (set cs))"
  using vg
proof (induction cs arbitrary: m V)
  case Nil
  then show ?case by (simp add: sketch_vars_def)
next
  case (Cons c cs)
  obtain m1 where m1: "insert_dtv G L (sb_lattice bld) (sub_lhs c) m = Some m1"
    "var_graph G ok (lattice_identity (sb_lattice bld)) m1 (V \<union> sub_dtvs (sub_lhs c))"
    using insert_dtv_spec [OF Cons.prems idem] by blast
  obtain m2 where m2: "insert_dtv G L (sb_lattice bld) (sub_rhs c) m1 = Some m2"
    "var_graph G ok (lattice_identity (sb_lattice bld)) m2 (V \<union> sub_dtvs (sub_lhs c) \<union> sub_dtvs (sub_rhs c))"
    using insert_dtv_spec [OF m1(2) idem] by blast
  have "V \<union> sub_dtvs (sub_lhs c) \<union> sub_dtvs (sub_rhs c) \<union> sketch_vars (set cs) = V \<union> sketch_vars (set (c # cs))"
    by (auto simp: sketch_vars_def)
  with Cons.IH [OF m2(2)] show ?case by (simp add: add m1(1) m2(1))
qed

lemma var_graph_new: "var_graph G ok w (mg_new G) {}"
  using mg_ok_new unfolding var_graph_def by (simp add: mg_new_def new_graph weighted_arcs_def)

lemma label_one_spec:
  assumes m: "mg_ok G ok m" and named: "mg_nodes m (sub_lhs c) \<noteq> None" "mg_nodes m (sub_rhs c) \<noteq> None"
    and elems: "\<forall>tv \<in> type_lattice_elements bld. \<exists>e \<in> C. nl_get_elem (sb_lattice bld) (get_name show_tid tv) = Some e"
    and labels: "\<forall>n b. pg_node_weight G (mg_grph m) n = Some b \<longrightarrow> bounds_in C b"
  shows "\<exists>m'. label_one G L show_tid bld c m = Some m'
    \<and> relabelled G ok C le m (demands le show_tid bld (mg_nodes m) c) m'"
proof -
  have update: "\<exists>m'. update_lattice_node G e d f m = Some m' \<and> relabelled G ok C le m (\<lambda>n y. i = n \<longrightarrow> P y) m'"
    if i: "mg_nodes m d = Some i"
      and f: "\<And>b. bounds_in C b \<Longrightarrow> bounds_in C (f e b)"
        "\<And>b. bounds_in C b \<Longrightarrow> interval C le (f e b) = interval C le b \<inter> {y. P y}"
    for e d f P i
  proof -
    obtain b where b: "pg_node_weight G (mg_grph m) i = Some b" using mg_okD(4) [OF m i] by blast
    let ?g = "pg_set_node_weight G i (f e b) (mg_grph m)"
    have g: "ok ?g" "pg_node_weight G ?g = (pg_node_weight G (mg_grph m))(i \<mapsto> f e b)" "pg_edge G ?g = pg_edge G (mg_grph m)"
      using set_node_weight_laws [OF mg_okD(1) [OF m], of i] b by simp_all
    have bC: "bounds_in C b" using labels b by blast
    have "relabelled G ok C le m (\<lambda>n y. i = n \<longrightarrow> P y) (m\<lparr>mg_grph := ?g\<rparr>)"
      unfolding relabelled_def
    proof (intro conjI allI impI)
      show "mg_ok G ok (m\<lparr>mg_grph := ?g\<rparr>)"
        by (rule mg_okI) (use mg_okD [OF m] g in \<open>auto simp: get_group_simps\<close>)
      fix n b' assume n: "pg_node_weight G (mg_grph m) n = Some b'"
      show "\<exists>b''. pg_node_weight G (mg_grph (m\<lparr>mg_grph := ?g\<rparr>)) n = Some b'' \<and> bounds_in C b''
          \<and> interval C le b'' = interval C le b' \<inter> {y. i = n \<longrightarrow> P y}"
      proof (cases "n = i")
        case True
        then have "b' = b" using n b by simp
        then show ?thesis using True f [OF bC] by (simp add: g(2))
      next
        case False
        then show ?thesis using n labels by (simp add: g(2))
      qed
    qed (use b in \<open>auto simp: g\<close>)
    moreover have "update_lattice_node G e d f m = Some (m\<lparr>mg_grph := ?g\<rparr>)"
      by (simp add: update_lattice_node_def mg_get_node_def i b)
    ultimately show ?thesis by blast
  qed
  obtain i j where ij: "mg_nodes m (sub_lhs c) = Some i" "mg_nodes m (sub_rhs c) = Some j" using named by blast
  have elem: "\<exists>e \<in> C. nl_get_elem (sb_lattice bld) (get_name show_tid (dtv_var d)) = Some e \<and> elem_of show_tid bld d = e"
    if "dtv_is_uninterpreted_lattice bld d" for d
    using that elems unfolding dtv_is_uninterpreted_lattice_def elem_of_def by fastforce
  show ?thesis
  proof (cases "dtv_is_uninterpreted_lattice bld (sub_lhs c)")
    case True
    obtain e where e: "e \<in> C" "nl_get_elem (sb_lattice bld) (get_name show_tid (dtv_var (sub_lhs c))) = Some e"
      "elem_of show_tid bld (sub_lhs c) = e" using elem [OF True] by blast
    have "demands le show_tid bld (mg_nodes m) c = (\<lambda>n y. j = n \<longrightarrow> le e y)"
      by (simp add: demands_def True ij e(3) fun_eq_iff)
    moreover have "label_one G L show_tid bld c m = update_lattice_node G e (sub_rhs c) (\<lambda>x y. refine_lower L y x) m"
      using True ij(2) e(2) by (simp add: label_one_def mg_get_node_def)
    ultimately show ?thesis
      using update [OF ij(2), of "\<lambda>x y. refine_lower L y x" e "le e"] refine_in(1) refine_lower_interval e(1) by simp
  next
    case l: False
    show ?thesis
    proof (cases "dtv_is_uninterpreted_lattice bld (sub_rhs c)")
      case True
      obtain e where e: "e \<in> C" "nl_get_elem (sb_lattice bld) (get_name show_tid (dtv_var (sub_rhs c))) = Some e"
        "elem_of show_tid bld (sub_rhs c) = e" using elem [OF True] by blast
      have "demands le show_tid bld (mg_nodes m) c = (\<lambda>n y. i = n \<longrightarrow> le y e)"
        by (simp add: demands_def True l ij e(3) fun_eq_iff)
      moreover have "label_one G L show_tid bld c m = update_lattice_node G e (sub_lhs c) (\<lambda>x y. refine_upper L y x) m"
        using True l ij(1) e(2) by (simp add: label_one_def mg_get_node_def)
      ultimately show ?thesis
        using update [OF ij(1), of "\<lambda>x y. refine_upper L y x" e "\<lambda>y. le y e"] refine_in(2) refine_upper_interval e(1) by simp
    next
      case False
      then have "demands le show_tid bld (mg_nodes m) c = (\<lambda>n y. True)" "label_one G L show_tid bld c m = Some m"
        using l by (simp_all add: demands_def label_one_def fun_eq_iff)
      then show ?thesis using m labels by (simp add: relabelled_def)
    qed
  qed
qed

lemma label_by_spec:
  assumes "mg_ok G ok m"
    and "\<forall>c \<in> set cs. mg_nodes m (sub_lhs c) \<noteq> None \<and> mg_nodes m (sub_rhs c) \<noteq> None"
    and elems: "\<forall>tv \<in> type_lattice_elements bld. \<exists>e \<in> C. nl_get_elem (sb_lattice bld) (get_name show_tid tv) = Some e"
    and "\<forall>n b. pg_node_weight G (mg_grph m) n = Some b \<longrightarrow> bounds_in C b"
  shows "\<exists>m'. label_by G L show_tid bld cs m = Some m'
    \<and> relabelled G ok C le m (\<lambda>n y. \<forall>c \<in> set cs. demands le show_tid bld (mg_nodes m) c n y) m'"
  using assms(1,2,4)
proof (induction cs arbitrary: m)
  case Nil
  then show ?case by (simp add: label_by_def relabelled_def)
next
  case (Cons c cs)
  have named: "mg_nodes m (sub_lhs c) \<noteq> None" "mg_nodes m (sub_rhs c) \<noteq> None" using Cons.prems(2) by auto
  obtain m1 where m1: "label_one G L show_tid bld c m = Some m1"
    "relabelled G ok C le m (demands le show_tid bld (mg_nodes m) c) m1"
    using label_one_spec [OF Cons.prems(1) named elems Cons.prems(3)] by blast
  note r1 = relabelledD [OF m1(2)]
  have lab1: "\<forall>n b. pg_node_weight G (mg_grph m1) n = Some b \<longrightarrow> bounds_in C b"
  proof (intro allI impI)
    fix n b assume b: "pg_node_weight G (mg_grph m1) n = Some b"
    then obtain b0 where "pg_node_weight G (mg_grph m) n = Some b0" using r1(4) [of n] by fastforce
    from r1(5) [OF this] b show "bounds_in C b" by auto
  qed
  have "\<forall>c \<in> set cs. mg_nodes m1 (sub_lhs c) \<noteq> None \<and> mg_nodes m1 (sub_rhs c) \<noteq> None"
    using Cons.prems(2) r1(2) by simp
  from Cons.IH [OF r1(1) this lab1] obtain m2 where m2: "label_by G L show_tid bld cs m1 = Some m2"
    "relabelled G ok C le m1 (\<lambda>n y. \<forall>c \<in> set cs. demands le show_tid bld (mg_nodes m1) c n y) m2" by blast
  have "relabelled G ok C le m (\<lambda>n y. \<forall>c \<in> set (c # cs). demands le show_tid bld (mg_nodes m) c n y) m2"
    by (rule relabelled_trans [OF m1(2) m2(2)]) (simp add: r1(2))
  moreover have "label_by G L show_tid bld (c # cs) m = Some m2" using m1(1) m2(1) by (simp add: label_by_def)
  ultimately show ?case by blast
qed

lemma group_weight_const:
  assumes "finite s" "s \<noteq> {}" "\<forall>n \<in> s. pg_node_weight G g n = Some w" "opr w w = w"
  shows "group_weight G opr g s = Some w"
proof -
  have "foldl opr w (replicate k w) = w" for k using assms(4) by (induction k) simp_all
  moreover have "traverse (pg_node_weight G g) (sorted_list_of_set s) = Some (map (\<lambda>_. w) (sorted_list_of_set s))"
    using assms by (intro traverse_Some_map) simp
  moreover have "sorted_list_of_set s \<noteq> []" using assms(1,2) by simp
  ultimately show ?thesis
    unfolding group_weight_def by (cases "sorted_list_of_set s") (simp_all add: map_replicate_const)
qed

lemma build_spec:
  assumes ords: "is_enum hord" "is_enum vord"
    and add: "add_new_var bld = (\<lambda>d g. map_option Inr (insert_dtv G L (sb_lattice bld) d g))"
    and lat: "{nl_bot (sb_lattice bld), nl_top (sb_lattice bld)} \<subseteq> C"
      "\<forall>x \<in> C. le (nl_bot (sb_lattice bld)) x \<and> le x (nl_top (sb_lattice bld))"
    and elems: "\<forall>tv \<in> type_lattice_elements bld. \<exists>e \<in> C. nl_get_elem (sb_lattice bld) (get_name show_tid tv) = Some e"
    and V: "V = sketch_vars (set sg)"
  shows "\<exists>sk. build_without_pointer_simplification U hord vord G L show_tid bld sg = Some (Inr sk)
    \<and> default_label sk = lattice_identity (sb_lattice bld)
    \<and> mg_ok G ok (quotient_graph sk) \<and> no_parallel G (mg_grph (quotient_graph sk))
    \<and> dom (mg_nodes (quotient_graph sk)) = V
    \<and> {n. pg_node_weight G (mg_grph (quotient_graph sk)) n \<noteq> None} = ran (mg_nodes (quotient_graph sk))
    \<and> (\<forall>d \<in> V. \<forall>e \<in> V. mg_nodes (quotient_graph sk) d = mg_nodes (quotient_graph sk) e
         \<longleftrightarrow> unify (var_edges V) (var_pairs (set sg)) d e)
    \<and> (\<forall>a l b. (a, l, b) \<in> weighted_arcs G (mg_grph (quotient_graph sk)) \<longleftrightarrow> (\<exists>d. add_field_label d l \<in> V
         \<and> mg_nodes (quotient_graph sk) d = Some a \<and> mg_nodes (quotient_graph sk) (add_field_label d l) = Some b))
    \<and> (\<forall>d n. mg_nodes (quotient_graph sk) d = Some n \<longrightarrow>
         (\<exists>b. pg_node_weight G (mg_grph (quotient_graph sk)) n = Some b \<and> bounds_in C b
            \<and> interval C le b = {y \<in> C. \<forall>c \<in> set sg. demands le show_tid bld (mg_nodes (quotient_graph sk)) c n y}))"
proof -
  let ?w = "lattice_identity (sb_lattice bld)"
  have w: "bounds_in C ?w" "interval C le ?w = C"
    using lat bounds_operate_identity(2) [of "nl_top (sb_lattice bld)" "nl_bot (sb_lattice bld)" ?w]
    by (simp_all add: lattice_identity_def identity_element_def bounds_in_def)
  have idem: "bounds_operate L ?w ?w = ?w" by (rule bounds_operate_laws(3) [OF w(1) w(1) w(1)])
  obtain m where m: "add_nodes_and_initial_edges bld sg (mg_new G) = Some (Inr m)" "var_graph G ok ?w m V"
    using add_nodes_spec [OF var_graph_new idem add, of sg] unfolding V by auto
  note vg = var_graphD [OF m(2)]
  have sides: "sub_lhs c \<in> V \<and> sub_rhs c \<in> V" if "c \<in> set sg" for c
    unfolding V sketch_vars_def using that self_sub_dtv by blast
  then have named: "\<forall>c \<in> set sg. mg_nodes m (sub_lhs c) \<noteq> None \<and> mg_nodes m (sub_rhs c) \<noteq> None"
    using vg(2) by (metis domIff)
  obtain groups where groups: "generate_quotient_groups U hord vord G m sg = Some groups"
    "is_partition groups {n. pg_node_weight G (mg_grph m) n \<noteq> None}"
    "\<And>a b. pg_node_weight G (mg_grph m) a \<noteq> None \<Longrightarrow> pg_node_weight G (mg_grph m) b \<noteq> None \<Longrightarrow>
         (\<exists>s \<in> set groups. a \<in> s \<and> b \<in> s)
           \<longleftrightarrow> unify (weighted_arcs G (mg_grph m)) (constraint_pairs m (set sg)) a b"
    using quotient_groups_spec [OF vg(1) ords named] by blast
  obtain m1 q where m1: "quoetient_graph G (bounds_operate L) groups m = Some m1" "mg_ok G ok m1"
    "no_parallel G (mg_grph m1)"
    "{n. pg_node_weight G (mg_grph m1) n \<noteq> None} = q ` {n. pg_node_weight G (mg_grph m) n \<noteq> None}"
    "card {n. pg_node_weight G (mg_grph m1) n \<noteq> None} = length groups"
    and grp: "\<forall>s \<in> set groups. \<forall>a \<in> s. pg_node_weight G (mg_grph m1) (q a) = group_weight G (bounds_operate L) (mg_grph m) s
         \<and> (\<forall>b. pg_node_weight G (mg_grph m) b \<noteq> None \<longrightarrow> (q a = q b \<longleftrightarrow> b \<in> s))"
    and arcs1: "weighted_arcs G (mg_grph m1) = (\<lambda>(a, w, b). (q a, w, q b)) ` weighted_arcs G (mg_grph m)"
    and nodes1: "mg_nodes m1 = (\<lambda>n. map_option q (mg_nodes m n))"
    using quotient_graph_spec [OF vg(1) groups(2), of "bounds_operate L"] by (elim exE conjE) (rule that)
  have q: "q a = q b \<longleftrightarrow> b \<in> s" if "s \<in> set groups" "a \<in> s" "pg_node_weight G (mg_grph m) b \<noteq> None" for s a b
    using grp that by blast
  note part = groups(2) [unfolded is_partition_def]
  have nodes: "pg_node_weight G (mg_grph m) n \<noteq> None \<longleftrightarrow> n \<in> ran (mg_nodes m)" for n using vg(4) [of n] by simp
  have weights: "pg_node_weight G (mg_grph m1) n = Some ?w" if n: "pg_node_weight G (mg_grph m1) n \<noteq> None" for n
  proof -
    obtain a where a: "pg_node_weight G (mg_grph m) a \<noteq> None" "n = q a" using n m1(4) by blast
    then obtain s where s: "s \<in> set groups" "a \<in> s" using part by blast
    then have "s \<subseteq> {n. pg_node_weight G (mg_grph m) n \<noteq> None}" using part by blast
    then have "finite s" using finite_subset finite_nodes [OF mg_okD(1) [OF vg(1)]] by blast
    moreover have "\<forall>k \<in> s. pg_node_weight G (mg_grph m) k = Some ?w"
    proof
      fix k assume "k \<in> s"
      then have "k \<in> ran (mg_nodes m)" using \<open>s \<subseteq> _\<close> nodes by blast
      then show "pg_node_weight G (mg_grph m) k = Some ?w" unfolding vg(4) by simp
    qed
    ultimately have "group_weight G (bounds_operate L) (mg_grph m) s = Some ?w"
      using s(2) idem by (intro group_weight_const) blast+
    then show ?thesis using grp s a(2) by simp
  qed
  have count: "length (pg_node_indices G (mg_grph m1)) = length groups"
    using node_indices_laws [OF mg_okD(1) [OF m1(2)]] m1(5) by (metis distinct_card)
  have named1: "\<forall>c \<in> set sg. mg_nodes m1 (sub_lhs c) \<noteq> None \<and> mg_nodes m1 (sub_rhs c) \<noteq> None"
    using named by (simp add: nodes1)
  have lab: "\<forall>n b. pg_node_weight G (mg_grph m1) n = Some b \<longrightarrow> bounds_in C b"
    using weights w(1) by fastforce
  obtain m2 where m2: "label_by G L show_tid bld sg m1 = Some m2"
    "relabelled G ok C le m1 (\<lambda>n y. \<forall>c \<in> set sg. demands le show_tid bld (mg_nodes m1) c n y) m2"
    using label_by_spec [OF m1(2) named1 elems lab] by blast
  note r = relabelledD [OF m2(2)]
  let ?sk = "\<lparr>quotient_graph = m2, default_label = ?w\<rparr>"
  have built: "build_without_pointer_simplification U hord vord G L show_tid bld sg = Some (Inr ?sk)"
    using count by (simp add: build_without_pointer_simplification_def m(1) groups(1) m1(1) m2(1))
  have nodes2: "mg_nodes m2 d = map_option q (mg_nodes m d)" for d by (simp add: r(2) nodes1)
  have arcs2: "weighted_arcs G (mg_grph m2) = (\<lambda>(a, w, b). (q a, w, q b)) ` weighted_arcs G (mg_grph m)"
    using arcs1 by (simp add: weighted_arcs_def r(3))
  have some2: "pg_node_weight G (mg_grph m2) n \<noteq> None \<longleftrightarrow> pg_node_weight G (mg_grph m1) n \<noteq> None" for n
    using r(4,5) by (metis not_Some_eq)
  have "{n. pg_node_weight G (mg_grph m2) n \<noteq> None} = q ` ran (mg_nodes m)"
    using m1(4) unfolding some2 nodes by simp
  also have "\<dots> = ran (mg_nodes m2)" unfolding ran_def nodes2 by force
  finally have dom2: "{n. pg_node_weight G (mg_grph m2) n \<noteq> None} = ran (mg_nodes m2)" .
  have congr: "mg_nodes m2 d = mg_nodes m2 e \<longleftrightarrow> unify (var_edges V) (var_pairs (set sg)) d e"
    if de: "d \<in> V" "e \<in> V" for d e
  proof -
    obtain a b where ab: "mg_nodes m d = Some a" "mg_nodes m e = Some b" using de vg(2) by blast
    have pres: "pg_node_weight G (mg_grph m) a \<noteq> None" "pg_node_weight G (mg_grph m) b \<noteq> None"
      using ab mg_okD(4) [OF vg(1)] by blast+
    let ?f = "\<lambda>d. the (mg_nodes m d)"
    have f: "mg_nodes m d = Some (?f d)" if "d \<in> V" for d using that vg(2) by auto
    obtain s where s: "s \<in> set groups" "a \<in> s" using pres(1) part by blast
    have "mg_nodes m2 d = mg_nodes m2 e \<longleftrightarrow> b \<in> s" using q [OF s pres(2)] by (simp add: nodes2 ab)
    also have "\<dots> \<longleftrightarrow> (\<exists>s \<in> set groups. a \<in> s \<and> b \<in> s)"
    proof
      assume "\<exists>s \<in> set groups. a \<in> s \<and> b \<in> s"
      then obtain t where t: "t \<in> set groups" "a \<in> t" "b \<in> t" by blast
      have "q a = q b" using q [OF t(1,2) pres(2)] t(3) by blast
      then show "b \<in> s" using q [OF s pres(2)] by blast
    qed (use s in blast)
    also have "\<dots> \<longleftrightarrow> unify (weighted_arcs G (mg_grph m)) (constraint_pairs m (set sg)) a b" by (rule groups(3) [OF pres])
    also have "weighted_arcs G (mg_grph m) = (\<lambda>(a, l, b). (?f a, l, ?f b)) ` var_edges V"
    proof (intro set_eqI iffI)
      fix x assume x: "x \<in> weighted_arcs G (mg_grph m)"
      obtain a l b where "x = (a, l, b)" by (cases x)
      moreover from this obtain d where "add_field_label d l \<in> V" "mg_nodes m d = Some a"
        "mg_nodes m (add_field_label d l) = Some b" using vg(5) x by blast
      ultimately show "x \<in> (\<lambda>(a, l, b). (?f a, l, ?f b)) ` var_edges V"
        by (intro image_eqI [of _ _ "(d, l, add_field_label d l)"]) (simp_all add: var_edges_def)
    next
      fix x assume "x \<in> (\<lambda>(a, l, b). (?f a, l, ?f b)) ` var_edges V"
      then obtain d l where "add_field_label d l \<in> V" "x = (?f d, l, ?f (add_field_label d l))"
        unfolding var_edges_def by auto
      then show "x \<in> weighted_arcs G (mg_grph m)" using f vg(5,6) by metis
    qed
    also have "constraint_pairs m (set sg) = (\<lambda>(a, b). (?f a, ?f b)) ` var_pairs (set sg)"
      using sides f unfolding constraint_pairs_def var_pairs_def image_image by force
    also have "unify ((\<lambda>(a, l, b). (?f a, l, ?f b)) ` var_edges V) ((\<lambda>(a, b). (?f a, ?f b)) ` var_pairs (set sg)) a b
        \<longleftrightarrow> unify (var_edges V) (var_pairs (set sg)) d e"
    proof -
      have "inj_on ?f V" using vg(3) f unfolding inj_on_def by metis
      moreover have "var_edges V \<subseteq> V \<times> UNIV \<times> V" using vg(6) unfolding var_edges_def by blast
      moreover have "var_pairs (set sg) \<subseteq> V \<times> V" using sides unfolding var_pairs_def by blast
      ultimately show ?thesis using unify_inj [of ?f V "var_edges V" "var_pairs (set sg)" d e] de ab by simp
    qed
    finally show ?thesis .
  qed
  have arcs_iff: "(a, l, b) \<in> weighted_arcs G (mg_grph m2) \<longleftrightarrow>
      (\<exists>d. add_field_label d l \<in> V \<and> mg_nodes m2 d = Some a \<and> mg_nodes m2 (add_field_label d l) = Some b)" for a l b
  proof
    assume "(a, l, b) \<in> weighted_arcs G (mg_grph m2)"
    then obtain a' b' where "(a', l, b') \<in> weighted_arcs G (mg_grph m)" "a = q a'" "b = q b'" unfolding arcs2 by auto
    moreover then obtain d where "add_field_label d l \<in> V" "mg_nodes m d = Some a'" "mg_nodes m (add_field_label d l) = Some b'"
      using vg(5) by blast
    ultimately show "\<exists>d. add_field_label d l \<in> V \<and> mg_nodes m2 d = Some a \<and> mg_nodes m2 (add_field_label d l) = Some b"
      by (intro exI [of _ d]) (simp add: nodes2)
  next
    assume "\<exists>d. add_field_label d l \<in> V \<and> mg_nodes m2 d = Some a \<and> mg_nodes m2 (add_field_label d l) = Some b"
    then obtain d a' b' where "add_field_label d l \<in> V" "mg_nodes m d = Some a'" "mg_nodes m (add_field_label d l) = Some b'"
      "a = q a'" "b = q b'" unfolding nodes2 map_option_eq_Some by metis
    then show "(a, l, b) \<in> weighted_arcs G (mg_grph m2)" unfolding arcs2 using vg(5) by force
  qed
  have labels2: "\<exists>b. pg_node_weight G (mg_grph m2) n = Some b \<and> bounds_in C b
      \<and> interval C le b = {y \<in> C. \<forall>c \<in> set sg. demands le show_tid bld (mg_nodes m2) c n y}" if n: "mg_nodes m2 d = Some n" for d n
  proof -
    have "pg_node_weight G (mg_grph m1) n \<noteq> None" using n mg_okD(4) [OF m1(2)] unfolding r(2) by blast
    from r(5) [OF weights [OF this]] show ?thesis unfolding w(2) r(2) by (simp add: Collect_conj_eq Int_commute)
  qed
  have "no_parallel G (mg_grph m2)" using m1(3) by (simp add: no_parallel_def r(3))
  moreover have "dom (mg_nodes m2) = V" using vg(2) by (auto simp: nodes2 dom_def)
  ultimately show ?thesis
    using built r(1) dom2 congr arcs_iff labels2
    by (intro exI [of _ ?sk]) (simp only: sketch_graph.simps simp_thms, blast)
qed

end

section \<open>Sketches of constraints\<close>

text \<open>
  A derived type variable is inserted with all its prefixes: the graph of a prefix-closed set
  of variables becomes the graph of the set with the prefixes of the new one, with an edge from
  each variable to each of its extensions by one label, and labels that were there stay.
\<close>

theorem insert_dtv_prefixes:
  assumes "sketch_env G ok U ufok L C le" "var_graph G ok (lattice_identity lattice) m V"
    and "nl_bot lattice \<in> C" "nl_top lattice \<in> C"
  shows "\<exists>m'. insert_dtv G L lattice d m = Some m' \<and> var_graph G ok (lattice_identity lattice) m' (V \<union> sub_dtvs d)"
proof -
  have "bounds_in C (lattice_identity lattice)"
    using assms(3,4) by (simp add: lattice_identity_def identity_element_def bounds_in_def)
  with assms(1) have "bounds_operate L (lattice_identity lattice) (lattice_identity lattice) = lattice_identity lattice"
    by (meson sketch_env.axioms(2) type_lattice.bounds_operate_laws(3))
  from sketch_env.insert_dtv_spec [OF assms(1,2) this] show ?thesis .
qed

text \<open>
  C6. From constraints the builder returns a sketch graph, without a panic or an error: its names
  are the variables of the constraints with their prefixes, two of them share a node exactly when
  the constraints make them congruent, its edges are those between a variable and its extensions,
  no node has two edges of one label, and the label of a node allows exactly the
  types that respect every lattice element that a constraint puts below or above the node.
\<close>

theorem sketch_of_constraints:
  assumes env: "sketch_env G ok U ufok L C le" "is_enum hord" "is_enum vord"
    and "add_new_var bld = (\<lambda>d g. map_option Inr (insert_dtv G L (sb_lattice bld) d g))"
    and "{nl_bot (sb_lattice bld), nl_top (sb_lattice bld)} \<subseteq> C"
    and "\<forall>x \<in> C. le (nl_bot (sb_lattice bld)) x \<and> le x (nl_top (sb_lattice bld))"
    and "\<forall>tv \<in> type_lattice_elements bld. \<exists>e \<in> C. nl_get_elem (sb_lattice bld) (get_name show_tid tv) = Some e"
    and V: "V = sketch_vars (set sg)"
  shows "\<exists>sk. build_without_pointer_simplification U hord vord G L show_tid bld sg = Some (Inr sk)
    \<and> mg_ok G ok (quotient_graph sk) \<and> dom (mg_nodes (quotient_graph sk)) = V
    \<and> (\<forall>d \<in> V. \<forall>e \<in> V. mg_nodes (quotient_graph sk) d = mg_nodes (quotient_graph sk) e
         \<longleftrightarrow> unify (var_edges V) (var_pairs (set sg)) d e)
    \<and> (\<forall>a l b. (a, l, b) \<in> weighted_arcs G (mg_grph (quotient_graph sk)) \<longleftrightarrow> (\<exists>d. add_field_label d l \<in> V
         \<and> mg_nodes (quotient_graph sk) d = Some a \<and> mg_nodes (quotient_graph sk) (add_field_label d l) = Some b))
    \<and> deterministic (weighted_arcs G (mg_grph (quotient_graph sk)))
    \<and> (\<forall>d n. mg_nodes (quotient_graph sk) d = Some n \<longrightarrow>
         (\<exists>b. pg_node_weight G (mg_grph (quotient_graph sk)) n = Some b
            \<and> interval C le b = {y \<in> C. \<forall>c \<in> set sg. demands le show_tid bld (mg_nodes (quotient_graph sk)) c n y}))"
proof -
  obtain sk where sk: "build_without_pointer_simplification U hord vord G L show_tid bld sg = Some (Inr sk)"
    "mg_ok G ok (quotient_graph sk)" "dom (mg_nodes (quotient_graph sk)) = V"
    and congr: "\<forall>d \<in> V. \<forall>e \<in> V. mg_nodes (quotient_graph sk) d = mg_nodes (quotient_graph sk) e
         \<longleftrightarrow> unify (var_edges V) (var_pairs (set sg)) d e"
    and arcs: "\<forall>a l b. (a, l, b) \<in> weighted_arcs G (mg_grph (quotient_graph sk)) \<longleftrightarrow> (\<exists>d. add_field_label d l \<in> V
         \<and> mg_nodes (quotient_graph sk) d = Some a \<and> mg_nodes (quotient_graph sk) (add_field_label d l) = Some b)"
    and labels: "\<forall>d n. mg_nodes (quotient_graph sk) d = Some n \<longrightarrow>
         (\<exists>b. pg_node_weight G (mg_grph (quotient_graph sk)) n = Some b \<and> bounds_in C b
            \<and> interval C le b = {y \<in> C. \<forall>c \<in> set sg. demands le show_tid bld (mg_nodes (quotient_graph sk)) c n y})"
    using sketch_env.build_spec [OF assms] by (elim exE conjE) (rule that)
  have "deterministic (weighted_arcs G (mg_grph (quotient_graph sk)))"
    unfolding deterministic_def
  proof (intro allI impI)
    fix q a r s assume qa: "(q, a, r) \<in> weighted_arcs G (mg_grph (quotient_graph sk))"
      "(q, a, s) \<in> weighted_arcs G (mg_grph (quotient_graph sk))"
    obtain d e where d: "add_field_label d a \<in> V" "mg_nodes (quotient_graph sk) d = Some q"
      "mg_nodes (quotient_graph sk) (add_field_label d a) = Some r"
      and e: "add_field_label e a \<in> V" "mg_nodes (quotient_graph sk) e = Some q"
      "mg_nodes (quotient_graph sk) (add_field_label e a) = Some s" using qa arcs by meson
    then have "d \<in> V" "e \<in> V" using sk(3) by blast+
    then have "unify (var_edges V) (var_pairs (set sg)) d e" using congr d(2) e(2) by metis
    then have "unify (var_edges V) (var_pairs (set sg)) (add_field_label d a) (add_field_label e a)"
    proof (rule U_step)
      show "(d, a, add_field_label d a) \<in> var_edges V" "(e, a, add_field_label e a) \<in> var_edges V"
        using d(1) e(1) by (simp_all add: var_edges_def)
    qed (simp add: labels_unify_def)
    then have "mg_nodes (quotient_graph sk) (add_field_label d a) = mg_nodes (quotient_graph sk) (add_field_label e a)"
      using congr d(1) e(1) by blast
    then show "r = s" using d(3) e(3) by simp
  qed
  moreover have "\<forall>d n. mg_nodes (quotient_graph sk) d = Some n \<longrightarrow>
         (\<exists>b. pg_node_weight G (mg_grph (quotient_graph sk)) n = Some b
            \<and> interval C le b = {y \<in> C. \<forall>c \<in> set sg. demands le show_tid bld (mg_nodes (quotient_graph sk)) c n y})"
    using labels by meson
  ultimately show ?thesis
    by (intro exI [of _ sk] conjI sk congr arcs)
qed

section \<open>A sketch over file descriptors\<close>

definition fd_named :: "custom_lattice_element named_lattice" where
  "fd_named = \<lparr>nl_bot = enl_bot_of fd_generated, nl_top = enl_top_of fd_generated,
     nl_get_elem = enl_get_elem fd_generated\<rparr>"

interpretation fd_sketch: sketch_env list_digraph lg_ok list_uf "\<lambda>_. True" ce_ops "elements fd_generated" "ce_le fd_lattice"
  by unfold_locales

lemma fd_named_ends:
  "{nl_bot fd_named, nl_top fd_named} \<subseteq> elements fd_generated"
  "\<forall>x \<in> elements fd_generated. ce_le fd_lattice (nl_bot fd_named) x \<and> ce_le fd_lattice x (nl_top fd_named)"
proof -
  have h: "bottom_handle fd_lattice = ''bottom''" "top_handle fd_lattice = ''T''"
    by (simp_all add: fd_lattice_def lattice_definition_new_def)
  note ends = generated_ends [OF fd_generated, unfolded h]
  note elem = generate_lattice_Some(1,4) [OF list_pg.stable_digraph_axioms sorted_enum list_toposort fd_generated]
  show "{nl_bot fd_named, nl_top fd_named} \<subseteq> elements fd_generated"
    using ends by (auto simp: fd_named_def enl_bot_of_def enl_top_of_def elements_def ran_def)
  show "\<forall>x \<in> elements fd_generated. ce_le fd_lattice (nl_bot fd_named) x \<and> ce_le fd_lattice x (nl_top fd_named)"
  proof
    fix x assume "x \<in> elements fd_generated"
    then obtain n where n: "enl_nds fd_generated n = Some x" by (auto simp: elements_def ran_def)
    have "ce_elem x \<in> handles fd_lattice" using elem [OF n] by (auto simp: h fd_handles)
    then show "ce_le fd_lattice (nl_bot fd_named) x \<and> ce_le fd_lattice x (nl_top fd_named)"
      using fd_below fd_above elem(1) [OF ends(1)] elem(1) [OF ends(2)]
      by (simp add: ce_le_def fd_named_def enl_bot_of_def enl_top_of_def)
  qed
qed

definition fd_builder :: "((custom_lattice_element lattice_bounds, field_label) list_graph, custom_lattice_element, nat) sketch_builder" where
  "fd_builder = sketch_builder_new fd_named {tv_new ''int''}
     (\<lambda>d g. map_option Inr (insert_dtv list_digraph ce_ops fd_named d g))"

definition fd_constraints :: "nat subtype_constraint list" where
  "fd_constraints = [subtype_new (dtv_new (tv_new ''int'')) (create_with_path (tv_new ''x'') [Load])]"

lemma insert_dtv_prefixes_witness:
  "\<exists>m'. insert_dtv list_digraph ce_ops fd_named (create_with_path (tv_new ''x'') [Load]) (mg_new list_digraph) = Some m'
    \<and> mg_nodes m' (dtv_new (tv_new ''x'' :: nat type_variable)) \<noteq> None"
proof -
  let ?d = "create_with_path (tv_new ''x'') [Load] :: nat dtv"
  obtain m' where m': "insert_dtv list_digraph ce_ops fd_named ?d (mg_new list_digraph) = Some m'"
    "var_graph list_digraph lg_ok (lattice_identity fd_named) m' ({} \<union> sub_dtvs ?d)"
    using insert_dtv_prefixes [OF fd_sketch.sketch_env_axioms fd_sketch.var_graph_new, of fd_named ?d] fd_named_ends(1) by auto
  have "dtv_new (tv_new ''x'') \<in> sub_dtvs ?d" by (auto simp: sub_dtvs_def image_iff dtv_ops_defs intro: bexI [of _ 0])
  then have "mg_nodes m' (dtv_new (tv_new ''x'')) \<noteq> None" using var_graphD(2) [OF m'(2)] by auto
  with m'(1) show ?thesis by blast
qed

lemma sketch_of_constraints_witness:
  "\<exists>sk n b. build_without_pointer_simplification list_uf imp_enum sorted_list_of_set list_digraph ce_ops (\<lambda>_. []) fd_builder
      fd_constraints = Some (Inr sk)
    \<and> mg_nodes (quotient_graph sk) (create_with_path (tv_new ''x'') [Load]) = Some n
    \<and> pg_node_weight list_digraph (mg_grph (quotient_graph sk)) n = Some b
    \<and> enl_bottom fd_generated \<notin> interval (elements fd_generated) (ce_le fd_lattice) b"
proof -
  let ?x = "create_with_path (tv_new ''x'') [Load] :: nat dtv" and ?c = "hd fd_constraints"
  have bld: "sb_lattice fd_builder = fd_named" "type_lattice_elements fd_builder = {tv_new ''int''}"
    "add_new_var fd_builder = (\<lambda>d g. map_option Inr (insert_dtv list_digraph ce_ops fd_named d g))"
    by (simp_all add: fd_builder_def sketch_builder_new_def)
  obtain e where e: "enl_nds fd_generated ''int'' = Some e"
    using generated_names [OF fd_generated, of "''int''"] by (auto simp: fd_handles)
  then have el: "e \<in> elements fd_generated" by (auto simp: elements_def ran_def)
  have int: "nl_get_elem fd_named ''int'' = Some e" by (simp add: fd_named_def enl_get_elem_def e)
  have elems: "\<forall>tv \<in> type_lattice_elements fd_builder. \<exists>e \<in> elements fd_generated.
      nl_get_elem (sb_lattice fd_builder) (get_name (\<lambda>_. []) tv) = Some e"
    using int el by (simp add: bld get_name_def)
  from sketch_of_constraints [OF fd_sketch.sketch_env_axioms imp_enum sorted_enum _ _ _ elems refl, of fd_constraints]
  obtain sk where sk: "build_without_pointer_simplification list_uf imp_enum sorted_list_of_set list_digraph ce_ops (\<lambda>_. []) fd_builder
      fd_constraints = Some (Inr sk)"
    "dom (mg_nodes (quotient_graph sk)) = sketch_vars (set fd_constraints)"
    "\<forall>d n. mg_nodes (quotient_graph sk) d = Some n \<longrightarrow>
         (\<exists>b. pg_node_weight list_digraph (mg_grph (quotient_graph sk)) n = Some b
            \<and> interval (elements fd_generated) (ce_le fd_lattice) b
              = {y \<in> elements fd_generated. \<forall>c \<in> set fd_constraints.
                   demands (ce_le fd_lattice) (\<lambda>_. []) fd_builder (mg_nodes (quotient_graph sk)) c n y})"
    unfolding bld using fd_named_ends by blast
  have "?x \<in> sketch_vars (set fd_constraints)"
    using self_sub_dtv [of ?x] by (simp add: sketch_vars_def fd_constraints_def subtype_new_def)
  then obtain n where n: "mg_nodes (quotient_graph sk) ?x = Some n" using sk(2) by blast
  then obtain b where b: "pg_node_weight list_digraph (mg_grph (quotient_graph sk)) n = Some b"
    "interval (elements fd_generated) (ce_le fd_lattice) b
              = {y \<in> elements fd_generated. \<forall>c \<in> set fd_constraints.
                   demands (ce_le fd_lattice) (\<lambda>_. []) fd_builder (mg_nodes (quotient_graph sk)) c n y}"
    using sk(3) by blast
  have "demands (ce_le fd_lattice) (\<lambda>_. []) fd_builder (mg_nodes (quotient_graph sk)) ?c n y \<longleftrightarrow> ce_le fd_lattice e y" for y
    using n int by (simp add: demands_def fd_constraints_def subtype_new_def dtv_is_uninterpreted_lattice_def bld elem_of_def get_name_def)
  then have sub: "interval (elements fd_generated) (ce_le fd_lattice) b \<subseteq> {y. ce_le fd_lattice e y}"
    unfolding b(2) by (auto simp: fd_constraints_def)
  have "\<not> ce_le fd_lattice e (enl_bottom fd_generated)"
  proof
    assume le: "ce_le fd_lattice e (enl_bottom fd_generated)"
    have "e = enl_bottom fd_generated"
      using fd.le_antisym [OF el _ le] fd_named_ends el by (simp add: fd_named_def enl_bot_of_def)
    moreover note elem = generate_lattice_Some(1) [OF list_pg.stable_digraph_axioms sorted_enum list_toposort fd_generated]
    moreover have "ce_elem (enl_bottom fd_generated) = ''bottom''"
      using elem [OF generated_ends(1) [OF fd_generated]] by (simp add: fd_lattice_def lattice_definition_new_def)
    ultimately show False using elem [OF e] by simp
  qed
  with sub sk(1) n b(1) show ?thesis by blast
qed

end
