(* ===== verification/PointerSimplify.thy ===== *)
theory PointerSimplify
  imports SketchBuilder FsaTypes
begin

text \<open>
  Pointer simplification of sketch graphs (\<^verbatim>\<open>SketchGraph::simplify_pointers\<close> in
  \<^verbatim>\<open>src/solver/type_sketch.rs\<close>): a node that is only loaded from and stored to, whose
  targets have only fields and that is reached by an addition, is unified with the nodes that the
  additions start from, and the displacements move into the offsets of the fields.  The loop runs
  until no such node is left; a displacement that does not fit into 64 bits is a panic, and the
  offsets are added with the wrap-around of a release build.
\<close>

section \<open>Finding a pointer\<close>

record pointer_transform =
  pointer_node :: nat
  source_edges :: "(nat \<times> int) set"
  target_field_edges :: "(nat \<times> field) set"

definition has_reflexive_edge_that_is_not_add :: "('g, 'w, field_label) petgraph \<Rightarrow> ('g, 'n) mapping_graph \<Rightarrow> bool" where
  "has_reflexive_edge_that_is_not_add G m =
     list_ex (\<lambda>(_, src, tgt, w). src = tgt \<and> \<not> (case w of Add _ \<Rightarrow> True | _ \<Rightarrow> False))
       (edge_references G (mg_grph m))"

definition is_non_empty_node :: "('g, 'w, field_label) petgraph \<Rightarrow> ('g, 'n) mapping_graph \<Rightarrow> nat \<Rightarrow> bool" where
  "is_non_empty_node G m idx \<longleftrightarrow> edges_directed G (mg_grph m) idx Outgoing \<noteq> []"

definition is_pointer :: "('g, 'w, field_label) petgraph \<Rightarrow> ('g, 'n) mapping_graph \<Rightarrow> nat \<Rightarrow> bool" where
  "is_pointer G m idx \<longleftrightarrow>
     list_all (\<lambda>(_, _, _, w). case w of Load \<Rightarrow> True | Store \<Rightarrow> True | _ \<Rightarrow> False)
       (edges_directed G (mg_grph m) idx Outgoing)
     \<and> is_non_empty_node G m idx"

definition is_structure :: "('g, 'w, field_label) petgraph \<Rightarrow> ('g, 'n) mapping_graph \<Rightarrow> nat \<Rightarrow> bool" where
  "is_structure G m idx \<longleftrightarrow>
     list_all (\<lambda>(_, _, _, w). case w of Field _ \<Rightarrow> True | _ \<Rightarrow> False)
       (edges_directed G (mg_grph m) idx Outgoing)
     \<and> is_non_empty_node G m idx"

definition neighbors :: "('g, 'w, 'e) petgraph \<Rightarrow> 'g \<Rightarrow> nat \<Rightarrow> nat list" where
  "neighbors G g n = map (\<lambda>(_, _, t, _). t) (edges_directed G g n Outgoing)"

definition all_children :: "('g, 'w, field_label) petgraph \<Rightarrow> ('g, 'n) mapping_graph \<Rightarrow> nat \<Rightarrow> (nat \<Rightarrow> bool) \<Rightarrow> bool" where
  "all_children G m idx predicate \<longleftrightarrow> list_all predicate (neighbors G (mg_grph m) idx)"

definition any_incoming_edges :: "('g, 'w, field_label) petgraph \<Rightarrow> ('g, 'n) mapping_graph \<Rightarrow> nat \<Rightarrow> (nat \<Rightarrow> bool) \<Rightarrow> bool" where
  "any_incoming_edges G m idx predicate \<longleftrightarrow>
     list_ex (\<lambda>(i, _). predicate i) (edges_directed G (mg_grph m) idx Incoming)"

definition field_edges :: "('g, 'w, field_label) petgraph \<Rightarrow> ('g, 'n) mapping_graph \<Rightarrow> nat \<Rightarrow> (nat \<times> field) list" where
  "field_edges G m nd_idx =
     concat (map (\<lambda>(i, _, _, w). case w of Field fld \<Rightarrow> [(i, fld)] | _ \<Rightarrow> [])
       (edges_directed G (mg_grph m) nd_idx Outgoing))"

definition incoming_add :: "field_label edge_ref \<Rightarrow> (nat \<times> int) list option" where
  "incoming_add e =
     (case e of (i, _, _, w) \<Rightarrow>
        (case w of
           Add disp \<Rightarrow> if in_i64 disp then Some [(i, disp)] else None
         | _ \<Rightarrow> Some []))"

definition node_to_pointer_transform ::
    "('g, 'w, field_label) petgraph \<Rightarrow> ('g, 'n) mapping_graph \<Rightarrow> nat \<Rightarrow> pointer_transform option" where
  "node_to_pointer_transform G m nd_idx =
     map_option (\<lambda>srcs. \<lparr>pointer_node = nd_idx, source_edges = set (concat srcs),
         target_field_edges = set (concat (map (field_edges G m) (neighbors G (mg_grph m) nd_idx)))\<rparr>)
       (traverse incoming_add (edges_directed G (mg_grph m) nd_idx Incoming))"

definition pointer_candidate :: "('g, 'w, field_label) petgraph \<Rightarrow> ('g, 'n) mapping_graph \<Rightarrow> nat \<Rightarrow> bool" where
  "pointer_candidate G m nd_idx \<longleftrightarrow> is_pointer G m nd_idx
     \<and> all_children G m nd_idx (is_structure G m)
     \<and> any_incoming_edges G m nd_idx
         (\<lambda>eid. case edge_weight G (mg_grph m) eid of Some (Add _) \<Rightarrow> True | _ \<Rightarrow> False)"

text \<open>The outer option is the panic, the inner one the result.\<close>

definition find_pointer_simplification ::
    "('g, 'w, field_label) petgraph \<Rightarrow> ('g, 'n) mapping_graph \<Rightarrow> pointer_transform option option" where
  "find_pointer_simplification G m =
     (case filter (pointer_candidate G m) (pg_node_indices G (mg_grph m)) of
        [] \<Rightarrow> Some None
      | nd_idx # _ \<Rightarrow> map_option Some (node_to_pointer_transform G m nd_idx))"

section \<open>Applying it\<close>

definition shifted_field :: "field \<Rightarrow> int \<Rightarrow> field" where
  "shifted_field fld disp = \<lparr>offset = wrap_i64 (offset fld + disp), fsize = fsize fld\<rparr>"

definition shifted_edges ::
    "('g, 'w, field_label) petgraph \<Rightarrow> 'g \<Rightarrow> (nat \<times> int) list \<Rightarrow> nat \<times> field \<Rightarrow> (nat \<times> nat \<times> field) list option" where
  "shifted_edges G g srcs e =
     (case e of (idx, fld) \<Rightarrow>
        map_option (\<lambda>(src, dst). map (\<lambda>(_, disp). (src, dst, shifted_field fld disp)) srcs)
          (edge_endpoints G g idx))"

definition new_field_edges ::
    "('g, 'w, field_label) petgraph \<Rightarrow> 'g \<Rightarrow> pointer_transform \<Rightarrow> (nat \<times> nat \<times> field) list option" where
  "new_field_edges G g pt =
     map_option concat (traverse (shifted_edges G g (sorted_list_of_set (source_edges pt)))
       (sorted_list_of_set (target_field_edges pt)))"

definition apply_pointer_transform ::
    "'u union_find_ops \<Rightarrow> (edge_implication set \<Rightarrow> edge_implication list) \<Rightarrow> (nat set \<Rightarrow> nat list) \<Rightarrow>
     ('g, 'w, field_label) petgraph \<Rightarrow> ('w \<Rightarrow> 'w \<Rightarrow> 'w) \<Rightarrow> pointer_transform \<Rightarrow>
     ('g, 'n) mapping_graph \<Rightarrow> ('g, 'n) mapping_graph option" where
  "apply_pointer_transform U hord vord G opr pt m =
     do { new_edges \<leftarrow> new_field_edges G (mg_grph m) pt;
          init_unions \<leftarrow> traverse (\<lambda>(eidx, _).
              map_option (\<lambda>(src, _). (src, pointer_node pt)) (edge_endpoints G (mg_grph m) eidx))
            (sorted_list_of_set (source_edges pt));
          let g3 = foldl (\<lambda>g eidx. snd (pg_remove_edge G eidx g)) (mg_grph m)
                (map fst (sorted_list_of_set (source_edges pt))
                 @ map fst (sorted_list_of_set (target_field_edges pt)))
          in do { g4 \<leftarrow> fold_opt (\<lambda>(src, dst, fld) g. map_option snd (pg_add_edge G src dst (Field fld) g))
                    new_edges g3;
                  qgroups \<leftarrow> generate_quotient_groups_for_initial_set U hord vord G g4 init_unions;
                  quoetient_graph G opr qgroups (m\<lparr>mg_grph := g4\<rparr>) } }"

partial_function (option) simplify_pointers ::
    "'u union_find_ops \<Rightarrow> (edge_implication set \<Rightarrow> edge_implication list) \<Rightarrow> (nat set \<Rightarrow> nat list) \<Rightarrow>
     ('g, 'w, field_label) petgraph \<Rightarrow> ('w \<Rightarrow> 'w \<Rightarrow> 'w) \<Rightarrow>
     ('g, 'n) mapping_graph \<Rightarrow> ('g, 'n) mapping_graph option" where
  "simplify_pointers U hord vord G opr m =
     do { found \<leftarrow> find_pointer_simplification G m;
          (case found of
             None \<Rightarrow> Some m
           | Some pt \<Rightarrow> do { m' \<leftarrow> apply_pointer_transform U hord vord G opr pt m;
                            simplify_pointers U hord vord G opr m' }) }"

section \<open>The builder with simplification\<close>

definition build_and_label_constraints ::
    "'u union_find_ops \<Rightarrow> (edge_implication set \<Rightarrow> edge_implication list) \<Rightarrow> (nat set \<Rightarrow> nat list) \<Rightarrow>
     ('g, 't lattice_bounds, field_label) petgraph \<Rightarrow> 't lattice_ops \<Rightarrow> ('tid \<Rightarrow> string) \<Rightarrow>
     ('g, 't, 'tid) sketch_builder \<Rightarrow> 'tid subtype_constraint list \<Rightarrow>
     (string + ('g, 't lattice_bounds, 'tid) sketch_graph) option" where
  "build_and_label_constraints U hord vord G L show_tid bld sg =
     (case build_without_pointer_simplification U hord vord G L show_tid bld sg of
        None \<Rightarrow> None
      | Some (Inl e) \<Rightarrow> Some (Inl e)
      | Some (Inr sk) \<Rightarrow> map_option (\<lambda>m. Inr (sk\<lparr>quotient_graph := m\<rparr>))
          (simplify_pointers U hord vord G (bounds_operate L) (quotient_graph sk)))"

section \<open>What the passes do\<close>

text \<open>The edges labelled by an addition, and the size of what is left to do.\<close>

definition add_edges :: "('g, 'w, field_label) petgraph \<Rightarrow> 'g \<Rightarrow> nat set" where
  "add_edges G g = {i. \<exists>a b d. pg_edge G g i = Some (a, b, Add d)}"

definition small_adds :: "('g, 'w, field_label) petgraph \<Rightarrow> 'g \<Rightarrow> bool" where
  "small_adds G g \<longleftrightarrow> (\<forall>a b d. (a, Add d, b) \<in> weighted_arcs G g \<longrightarrow> in_i64 d)"

text \<open>The edges after the additions into \<open>p\<close> are moved into the fields below it.\<close>

definition displaced :: "(nat \<times> field_label \<times> nat) set \<Rightarrow> nat \<Rightarrow> (nat \<times> field_label \<times> nat) set" where
  "displaced E p =
     {(a, l, b) \<in> E. \<not> (\<exists>d. l = Add d \<and> b = p) \<and> \<not> (\<exists>f k. l = Field f \<and> (p, k, a) \<in> E)}
     \<union> {(n, l, b). \<exists>f d k a. l = Field (shifted_field f d) \<and> (p, k, n) \<in> E \<and> (n, Field f, b) \<in> E \<and> (a, Add d, p) \<in> E}"

lemma image_field_eqI:
  assumes "\<And>n b h. (n, b, h) \<in> A \<longleftrightarrow> (\<exists>x. h = F x \<and> P x n b)"
  shows "(\<lambda>(s, t, f). (s, Field f, t)) ` A = {(n, l, b). \<exists>x. l = Field (F x) \<and> P x n b}"
  using assms by force

context sketch_quotient
begin

lemma out_edges:
  "ok g \<Longrightarrow> (i, a, b, w) \<in> set (edges_directed G g n Outgoing) \<longleftrightarrow> pg_edge G g i = Some (a, b, w) \<and> a = n"
  "ok g \<Longrightarrow> (i, a, b, w) \<in> set (edges_directed G g n Incoming) \<longleftrightarrow> pg_edge G g i = Some (a, b, w) \<and> b = n"
  using set_edges_directed [of g n] by auto

lemma neighbors_iff: "ok g \<Longrightarrow> b \<in> set (neighbors G g n) \<longleftrightarrow> (n, b) \<in> arcs G g"
proof -
  assume g: "ok g"
  have "b \<in> set (neighbors G g n) \<longleftrightarrow> (\<exists>i a w. (i, a, b, w) \<in> set (edges_directed G g n Outgoing))"
    by (force simp: neighbors_def)
  then show ?thesis by (simp add: out_edges(1) [OF g] arcs_def)
qed

lemma field_edges_iff:
  "ok (mg_grph m) \<Longrightarrow> (i, f) \<in> set (field_edges G m n) \<longleftrightarrow> (\<exists>b. pg_edge G (mg_grph m) i = Some (n, b, Field f))"
proof -
  assume g: "ok (mg_grph m)"
  have iff: "(i, f) \<in> set (field_edges G m n)
      \<longleftrightarrow> (\<exists>j a b w. (j, a, b, w) \<in> set (edges_directed G (mg_grph m) n Outgoing) \<and> w = Field f \<and> i = j)"
    unfolding field_edges_def by (force split: field_label.splits)
  show ?thesis unfolding iff by (auto simp: out_edges(1) [OF g])
qed

lemma pointer_transform_total:
  assumes g: "ok (mg_grph m)" and small: "small_adds G (mg_grph m)"
  shows "node_to_pointer_transform G m p \<noteq> None"
proof -
  have "incoming_add e \<noteq> None" if "e \<in> set (edges_directed G (mg_grph m) p Incoming)" for e
  proof -
    obtain i a b w where e: "e = (i, a, b, w)" by (cases e)
    then have "pg_edge G (mg_grph m) i = Some (a, b, w)" using that out_edges(2) [OF g] by blast
    then have "(a, w, b) \<in> weighted_arcs G (mg_grph m)" by (auto simp: weighted_arcs_def)
    then show ?thesis using small unfolding e small_adds_def incoming_add_def by (auto split: field_label.splits)
  qed
  then show ?thesis unfolding node_to_pointer_transform_def by (simp add: traverse_None_iff)
qed

lemma pointer_transform_spec:
  assumes g: "ok (mg_grph m)" and pt: "node_to_pointer_transform G m p = Some pt"
  shows "pointer_node pt = p"
    and "source_edges pt = {(i, d). \<exists>a. pg_edge G (mg_grph m) i = Some (a, p, Add d)}"
    and "target_field_edges pt = {(i, f). \<exists>n b. (p, n) \<in> arcs G (mg_grph m) \<and> pg_edge G (mg_grph m) i = Some (n, b, Field f)}"
proof -
  obtain srcs where srcs: "traverse incoming_add (edges_directed G (mg_grph m) p Incoming) = Some srcs"
    and pt': "pt = \<lparr>pointer_node = p, source_edges = set (concat srcs),
      target_field_edges = set (concat (map (field_edges G m) (neighbors G (mg_grph m) p)))\<rparr>"
    using pt unfolding node_to_pointer_transform_def by blast
  have total: "incoming_add e \<noteq> None" if "e \<in> set (edges_directed G (mg_grph m) p Incoming)" for e
    using srcs traverse_None_iff [of incoming_add] that by (metis option.distinct(1))
  have sources: "set (concat srcs) = {(i, d). \<exists>a. pg_edge G (mg_grph m) i = Some (a, p, Add d)}" (is "?S = ?T")
  proof -
    have row: "incoming_add (j, a, b, w) = Some r \<and> (i, d) \<in> set r \<longleftrightarrow> w = Add d \<and> i = j \<and> in_i64 d \<and> r = [(i, d)]" for i j a b w r d
      by (auto simp: incoming_add_def split: field_label.splits if_splits)
    have "(i, d) \<in> ?S \<longleftrightarrow> (\<exists>j a b w. (j, a, b, w) \<in> set (edges_directed G (mg_grph m) p Incoming) \<and> w = Add d \<and> i = j)" for i d
    proof
      assume "(i, d) \<in> ?S"
      then obtain r where r: "r \<in> set srcs" "(i, d) \<in> set r" by auto
      then obtain e where e: "e \<in> set (edges_directed G (mg_grph m) p Incoming)" "incoming_add e = Some r"
        using traverse_mem [OF srcs] by blast
      obtain j a b w where "e = (j, a, b, w)" by (cases e)
      with e r(2) row show "\<exists>j a b w. (j, a, b, w) \<in> set (edges_directed G (mg_grph m) p Incoming) \<and> w = Add d \<and> i = j" by blast
    next
      assume "\<exists>j a b w. (j, a, b, w) \<in> set (edges_directed G (mg_grph m) p Incoming) \<and> w = Add d \<and> i = j"
      then obtain a b where e: "(i, a, b, Add d) \<in> set (edges_directed G (mg_grph m) p Incoming)" by blast
      then have some: "incoming_add (i, a, b, Add d) = Some [(i, d)]"
        using total [OF e] by (simp add: incoming_add_def split: if_splits)
      show "(i, d) \<in> ?S" unfolding set_concat using traverse_image [OF srcs e some] by (rule UN_I) simp
    qed
    then have "(i, d) \<in> ?S \<longleftrightarrow> (i, d) \<in> ?T" for i d by (simp add: out_edges(2) [OF g])
    then show ?thesis by (intro set_eqI) (simp only: split_paired_all)
  qed
  have targets: "set (concat (map (field_edges G m) (neighbors G (mg_grph m) p)))
      = {(i, f). \<exists>n b. (p, n) \<in> arcs G (mg_grph m) \<and> pg_edge G (mg_grph m) i = Some (n, b, Field f)}" (is "?S = ?T")
  proof -
    have "(i, f) \<in> ?S \<longleftrightarrow> (i, f) \<in> ?T" for i f
      by (simp add: Bex_def neighbors_iff [OF g] field_edges_iff [OF g])
    then show ?thesis by (intro set_eqI) (simp only: split_paired_all)
  qed
  show "pointer_node pt = p"
    "source_edges pt = {(i, d). \<exists>a. pg_edge G (mg_grph m) i = Some (a, p, Add d)}"
    "target_field_edges pt = {(i, f). \<exists>n b. (p, n) \<in> arcs G (mg_grph m) \<and> pg_edge G (mg_grph m) i = Some (n, b, Field f)}"
    unfolding pt' pointer_transform.simps sources targets by (rule refl)+
qed

lemma remove_edges_spec:
  "ok g \<Longrightarrow> ok (foldl (\<lambda>g e. snd (pg_remove_edge G e g)) g es)
    \<and> pg_node_weight G (foldl (\<lambda>g e. snd (pg_remove_edge G e g)) g es) = pg_node_weight G g
    \<and> pg_edge G (foldl (\<lambda>g e. snd (pg_remove_edge G e g)) g es) = (\<lambda>i. if i \<in> set es then None else pg_edge G g i)"
proof (induction es arbitrary: g)
  case (Cons e es)
  obtain r g1 where rem: "pg_remove_edge G e g = (r, g1)" by force
  have g1: "ok g1" "pg_node_weight G g1 = pg_node_weight G g" "pg_edge G g1 = (pg_edge G g)(e := None)"
    using remove_edge_laws [OF Cons.prems rem] by simp_all
  from Cons.IH [OF g1(1)] show ?case by (auto simp: rem g1 fun_eq_iff)
qed simp

text \<open>Adding edges between present nodes.\<close>

lemma add_fields_spec:
  "ok g \<Longrightarrow> \<forall>(s, t, f) \<in> set es. pg_node_weight G g s \<noteq> None \<and> pg_node_weight G g t \<noteq> None \<Longrightarrow>
   \<exists>g'. fold_opt (\<lambda>(src, dst, fld) g. map_option snd (pg_add_edge G src dst (Field fld) g)) es g = Some g'
    \<and> ok g' \<and> pg_node_weight G g' = pg_node_weight G g \<and> add_edges G g' = add_edges G g
    \<and> weighted_arcs G g' = weighted_arcs G g \<union> (\<lambda>(s, t, f). (s, Field f, t)) ` set es"
proof (induction es arbitrary: g)
  case (Cons e es)
  obtain s t f where e: "e = (s, t, f)" by (cases e)
  obtain i g1 where add: "pg_add_edge G s t (Field f) g = Some (i, g1)"
    using add_edge_None [OF Cons.prems(1), of s t "Field f"] Cons.prems(2) e by (cases "pg_add_edge G s t (Field f) g") auto
  have g1: "ok g1" "pg_node_weight G g1 = pg_node_weight G g" "pg_edge G g i = None"
    "pg_edge G g1 = (pg_edge G g)(i \<mapsto> (s, t, Field f))"
    using add_edge_laws [OF Cons.prems(1) add] by simp_all
  have adds: "add_edges G g1 = add_edges G g" using g1(3) by (auto simp: add_edges_def g1(4))
  have "\<forall>(s, t, f) \<in> set es. pg_node_weight G g1 s \<noteq> None \<and> pg_node_weight G g1 t \<noteq> None"
    using Cons.prems(2) g1(2) by auto
  from Cons.IH [OF g1(1) this] obtain g' where
    "fold_opt (\<lambda>(src, dst, fld) g. map_option snd (pg_add_edge G src dst (Field fld) g)) es g1 = Some g'"
    "ok g'" "pg_node_weight G g' = pg_node_weight G g1" "add_edges G g' = add_edges G g1"
    "weighted_arcs G g' = weighted_arcs G g1 \<union> (\<lambda>(s, t, f). (s, Field f, t)) ` set es" by blast
  then show ?case using weighted_arcs_add [OF Cons.prems(1) add] g1(2) adds
    by (intro exI [of _ g']) (simp add: e add)
qed simp

lemma finite_add_edges: "ok g \<Longrightarrow> finite (add_edges G g)"
  by (rule finite_subset [OF _ finite_edges]) (auto simp: add_edges_def)

lemma add_edges_quotient:
  assumes g: "ok g" and np: "no_parallel G g'" and arcs: "weighted_arcs G g' = (\<lambda>(a, w, b). (q a, w, q b)) ` weighted_arcs G g"
  shows "card (add_edges G g') \<le> card (add_edges G g)"
proof -
  let ?e = "\<lambda>i. the (pg_edge G g' i)" and ?h = "\<lambda>i. case the (pg_edge G g i) of (a, b, w) \<Rightarrow> (q a, q b, w)"
  have "inj_on ?e (add_edges G g')"
  proof (rule inj_onI)
    fix i j assume ij: "i \<in> add_edges G g'" "j \<in> add_edges G g'" "?e i = ?e j"
    then have "pg_edge G g' i = Some (?e i)" "pg_edge G g' j = Some (?e i)" by (auto simp: add_edges_def)
    then show "i = j" using np unfolding no_parallel_def by blast
  qed
  moreover have "?e ` add_edges G g' \<subseteq> ?h ` add_edges G g"
  proof
    fix x assume "x \<in> ?e ` add_edges G g'"
    then obtain i a b d where i: "pg_edge G g' i = Some (a, b, Add d)" "x = (a, b, Add d)" by (auto simp: add_edges_def)
    then have "(a, Add d, b) \<in> weighted_arcs G g'" by (auto simp: weighted_arcs_def)
    then obtain a' b' where "(a', Add d, b') \<in> weighted_arcs G g" "a = q a'" "b = q b'" unfolding arcs by auto
    then obtain j where "pg_edge G g j = Some (a', b', Add d)" by (auto simp: weighted_arcs_def)
    then show "x \<in> ?h ` add_edges G g" using i(2) \<open>a = q a'\<close> \<open>b = q b'\<close>
      by (intro image_eqI [of _ _ j]) (auto simp: add_edges_def)
  qed
  ultimately have "card (add_edges G g') \<le> card (?h ` add_edges G g)"
    using finite_add_edges [OF g] by (intro card_inj_on_le) auto
  also have "\<dots> \<le> card (add_edges G g)" by (rule card_image_le [OF finite_add_edges [OF g]])
  finally show ?thesis .
qed

lemma new_field_edges_spec:
  assumes g: "ok g" and S: "source_edges pt = {(i, d). \<exists>a. pg_edge G g i = Some (a, p, Add d)}"
    and T: "target_field_edges pt = {(i, f). \<exists>n b. (p, n) \<in> arcs G g \<and> pg_edge G g i = Some (n, b, Field f)}"
  shows "\<exists>es. new_field_edges G g pt = Some es
    \<and> (\<lambda>(s, t, f). (s, Field f, t)) ` set es
       = {(n, l, b). \<exists>f d k a. l = Field (shifted_field f d) \<and> (p, k, n) \<in> weighted_arcs G g
            \<and> (n, Field f, b) \<in> weighted_arcs G g \<and> (a, Add d, p) \<in> weighted_arcs G g}"
    and "finite (source_edges pt)" "finite (target_field_edges pt)"
proof -
  have idx: "finite {i. pg_edge G g i \<noteq> None}" by (rule finite_edges [OF g])
  let ?d = "\<lambda>i. case the (pg_edge G g i) of (_, _, w) \<Rightarrow> case w of Add d \<Rightarrow> d | _ \<Rightarrow> 0"
  let ?f = "\<lambda>i. case the (pg_edge G g i) of (_, _, w) \<Rightarrow> case w of Field f \<Rightarrow> f | _ \<Rightarrow> field_new 0 0"
  have "source_edges pt \<subseteq> (\<lambda>i. (i, ?d i)) ` {i. pg_edge G g i \<noteq> None}" unfolding S by force
  then show finS: "finite (source_edges pt)" using idx by (meson finite_imageI finite_subset)
  have "target_field_edges pt \<subseteq> (\<lambda>i. (i, ?f i)) ` {i. pg_edge G g i \<noteq> None}" unfolding T by force
  then show finT: "finite (target_field_edges pt)" using idx by (meson finite_imageI finite_subset)
  let ?srcs = "sorted_list_of_set (source_edges pt)"
  have total: "shifted_edges G g ?srcs e \<noteq> None" if e: "e \<in> set (sorted_list_of_set (target_field_edges pt))" for e
  proof -
    obtain i f where ef: "e = (i, f)" by (cases e)
    then obtain n b where "pg_edge G g i = Some (n, b, Field f)" using e finT T by auto
    then show ?thesis by (simp add: ef edge_endpoints_def shifted_edges_def)
  qed
  then obtain rows where rows: "traverse (shifted_edges G g ?srcs) (sorted_list_of_set (target_field_edges pt)) = Some rows"
    using traverse_None_iff by (metis not_None_eq)
  have arc: "(a, w, b) \<in> weighted_arcs G g \<longleftrightarrow> (\<exists>i. pg_edge G g i = Some (a, b, w))" for a w b
    by (auto simp: weighted_arcs_def)
  have mem: "(n, b, h) \<in> set (concat rows)
      \<longleftrightarrow> (\<exists>i f j d. (i, f) \<in> target_field_edges pt \<and> (j, d) \<in> source_edges pt
            \<and> edge_endpoints G g i = Some (n, b) \<and> h = shifted_field f d)" for n b h
  proof
    assume "(n, b, h) \<in> set (concat rows)"
    then obtain r where r: "r \<in> set rows" "(n, b, h) \<in> set r" by auto
    then obtain i f where e: "(i, f) \<in> set (sorted_list_of_set (target_field_edges pt))" "shifted_edges G g ?srcs (i, f) = Some r"
      using traverse_mem [OF rows] by (metis surj_pair)
    then obtain n' b' where nb: "edge_endpoints G g i = Some (n', b')"
      "r = map (\<lambda>(_, disp). (n', b', shifted_field f disp)) ?srcs" by (auto simp: shifted_edges_def)
    then obtain j d where "(j, d) \<in> set ?srcs" "n = n'" "b = b'" "h = shifted_field f d" using r(2) by auto
    then show "\<exists>i f j d. (i, f) \<in> target_field_edges pt \<and> (j, d) \<in> source_edges pt
            \<and> edge_endpoints G g i = Some (n, b) \<and> h = shifted_field f d"
      using e(1) nb(1) finS finT by auto
  next
    assume "\<exists>i f j d. (i, f) \<in> target_field_edges pt \<and> (j, d) \<in> source_edges pt
            \<and> edge_endpoints G g i = Some (n, b) \<and> h = shifted_field f d"
    then obtain i f j d where ij: "(i, f) \<in> target_field_edges pt" "(j, d) \<in> source_edges pt"
      "edge_endpoints G g i = Some (n, b)" "h = shifted_field f d" by blast
    then have "shifted_edges G g ?srcs (i, f) = Some (map (\<lambda>(_, disp). (n, b, shifted_field f disp)) ?srcs)"
      by (simp add: shifted_edges_def)
    then have "map (\<lambda>(_, disp). (n, b, shifted_field f disp)) ?srcs \<in> set rows"
      using traverse_image [OF rows, of "(i, f)"] ij(1) finT by simp
    moreover have "(n, b, h) \<in> set (map (\<lambda>(_, disp). (n, b, shifted_field f disp)) ?srcs)"
      using ij(2,4) finS by force
    ultimately show "(n, b, h) \<in> set (concat rows)" unfolding set_concat by (rule UN_I)
  qed
  have new: "(n, b, h) \<in> set (concat rows)
      \<longleftrightarrow> (\<exists>x. h = (case x of (f, d, k, a) \<Rightarrow> shifted_field f d) \<and> (case x of (f, d, k, a) \<Rightarrow> (p, k, n) \<in> weighted_arcs G g
            \<and> (n, Field f, b) \<in> weighted_arcs G g \<and> (a, Add d, p) \<in> weighted_arcs G g))" for n b h
  proof -
    have "(\<exists>i f j d. (i, f) \<in> target_field_edges pt \<and> (j, d) \<in> source_edges pt
            \<and> edge_endpoints G g i = Some (n, b) \<and> h = shifted_field f d)
        \<longleftrightarrow> (\<exists>f d k a. h = shifted_field f d \<and> (p, k, n) \<in> weighted_arcs G g
            \<and> (n, Field f, b) \<in> weighted_arcs G g \<and> (a, Add d, p) \<in> weighted_arcs G g)"
      unfolding S T edge_endpoints_def arcs_weighted arc by fastforce
    then show ?thesis unfolding mem by (simp add: split_paired_Ex)
  qed
  have "(\<lambda>(s, t, f). (s, Field f, t)) ` set (concat rows)
       = {(n, l, b). \<exists>x. l = Field (case x of (f, d, k, a) \<Rightarrow> shifted_field f d) \<and> (case x of (f, d, k, a) \<Rightarrow> (p, k, n) \<in> weighted_arcs G g
            \<and> (n, Field f, b) \<in> weighted_arcs G g \<and> (a, Add d, p) \<in> weighted_arcs G g)}"
    by (rule image_field_eqI) (rule new)
  then show "\<exists>es. new_field_edges G g pt = Some es
    \<and> (\<lambda>(s, t, f). (s, Field f, t)) ` set es
       = {(n, l, b). \<exists>f d k a. l = Field (shifted_field f d) \<and> (p, k, n) \<in> weighted_arcs G g
            \<and> (n, Field f, b) \<in> weighted_arcs G g \<and> (a, Add d, p) \<in> weighted_arcs G g}"
    unfolding new_field_edges_def rows by (simp add: split_paired_Ex)
qed

lemma apply_spec:
  assumes m: "mg_ok G ok m" and ords: "is_enum hord" "is_enum vord"
    and p: "pg_node_weight G (mg_grph m) p \<noteq> None" and pt: "pointer_node pt = p"
      "source_edges pt = {(i, d). \<exists>a. pg_edge G (mg_grph m) i = Some (a, p, Add d)}"
      "target_field_edges pt = {(i, f). \<exists>n b. (p, n) \<in> arcs G (mg_grph m) \<and> pg_edge G (mg_grph m) i = Some (n, b, Field f)}"
  shows "\<exists>m' q. apply_pointer_transform U hord vord G opr pt m = Some m' \<and> mg_ok G ok m'
    \<and> mg_nodes m' = (\<lambda>n. map_option q (mg_nodes m n))
    \<and> weighted_arcs G (mg_grph m') = (\<lambda>(a, w, b). (q a, w, q b)) ` displaced (weighted_arcs G (mg_grph m)) p
    \<and> (\<forall>a b. pg_node_weight G (mg_grph m) a \<noteq> None \<longrightarrow> pg_node_weight G (mg_grph m) b \<noteq> None \<longrightarrow>
         (q a = q b \<longleftrightarrow> unify (displaced (weighted_arcs G (mg_grph m)) p)
            {(a, p) | a. \<exists>d. (a, Add d, p) \<in> weighted_arcs G (mg_grph m)} a b))
    \<and> (source_edges pt \<noteq> {} \<longrightarrow> card (add_edges G (mg_grph m')) < card (add_edges G (mg_grph m)))"
proof -
  let ?g = "mg_grph m" and ?E = "weighted_arcs G (mg_grph m)"
  let ?srcs = "sorted_list_of_set (source_edges pt)" and ?tgts = "sorted_list_of_set (target_field_edges pt)"
  note okg = mg_okD(1) [OF m]
  obtain es where es: "new_field_edges G ?g pt = Some es"
    "(\<lambda>(s, t, f). (s, Field f, t)) ` set es = {(n, l, b). \<exists>f d k a. l = Field (shifted_field f d) \<and> (p, k, n) \<in> ?E
            \<and> (n, Field f, b) \<in> ?E \<and> (a, Add d, p) \<in> ?E}"
    and fin: "finite (source_edges pt)" "finite (target_field_edges pt)"
    using new_field_edges_spec [OF okg pt(2,3)] by blast
  let ?init = "\<lambda>(i, d). (fst (the (edge_endpoints G ?g i)), p)"
  have init: "traverse (\<lambda>(eidx, _). map_option (\<lambda>(src, _). (src, pointer_node pt)) (edge_endpoints G ?g eidx)) ?srcs
      = Some (map ?init ?srcs)"
  proof (rule traverse_Some_map)
    fix e assume "e \<in> set ?srcs"
    then obtain i d a where "e = (i, d)" "pg_edge G ?g i = Some (a, p, Add d)" using fin pt(2) by auto
    then show "(\<lambda>(eidx, _). map_option (\<lambda>(src, _). (src, pointer_node pt)) (edge_endpoints G ?g eidx)) e = Some (?init e)"
      by (simp add: edge_endpoints_def pt(1))
  qed
  have init_set: "set (map ?init ?srcs) = {(a, p) | a. \<exists>d. (a, Add d, p) \<in> ?E}"
  proof (intro set_eqI iffI)
    fix x assume "x \<in> set (map ?init ?srcs)"
    then obtain i d a where "pg_edge G ?g i = Some (a, p, Add d)" "x = ?init (i, d)" using fin pt(2) by auto
    then show "x \<in> {(a, p) | a. \<exists>d. (a, Add d, p) \<in> ?E}" by (auto simp: edge_endpoints_def weighted_arcs_def)
  next
    fix x assume "x \<in> {(a, p) | a. \<exists>d. (a, Add d, p) \<in> ?E}"
    then obtain a d i where x: "x = (a, p)" "pg_edge G ?g i = Some (a, p, Add d)" by (auto simp: weighted_arcs_def)
    then have "(i, d) \<in> set ?srcs" using fin pt(2) by auto
    then show "x \<in> set (map ?init ?srcs)" using x unfolding set_map
      by (intro image_eqI [of _ _ "(i, d)"]) (simp_all add: edge_endpoints_def)
  qed
  let ?cut = "map fst ?srcs @ map fst ?tgts"
  let ?g3 = "foldl (\<lambda>g eidx. snd (pg_remove_edge G eidx g)) ?g ?cut"
  have g3: "ok ?g3" "pg_node_weight G ?g3 = pg_node_weight G ?g"
    "pg_edge G ?g3 = (\<lambda>i. if i \<in> set ?cut then None else pg_edge G ?g i)"
    using remove_edges_spec [OF okg, of ?cut] by blast+
  have cut: "i \<in> set ?cut \<longleftrightarrow> (\<exists>d. l = Add d \<and> b = p) \<or> (\<exists>f k. l = Field f \<and> (p, k, a) \<in> ?E)"
    if i: "pg_edge G ?g i = Some (a, b, l)" for i a l b
  proof -
    have "i \<in> set ?cut \<longleftrightarrow> (\<exists>d. (i, d) \<in> source_edges pt) \<or> (\<exists>f. (i, f) \<in> target_field_edges pt)"
      using fin by (force simp: image_iff)
    then show ?thesis using i unfolding pt(2,3) arcs_weighted by auto
  qed
  have arcs3: "weighted_arcs G ?g3 = {(a, l, b) \<in> ?E. \<not> (\<exists>d. l = Add d \<and> b = p) \<and> \<not> (\<exists>f k. l = Field f \<and> (p, k, a) \<in> ?E)}"
  proof (intro set_eqI, unfold split_paired_all)
    fix a l b
    have "(a, l, b) \<in> weighted_arcs G ?g3 \<longleftrightarrow> (\<exists>i. i \<notin> set ?cut \<and> pg_edge G ?g i = Some (a, b, l))"
      unfolding weighted_arcs_def g3(3) by (auto split: if_splits)
    also have "\<dots> \<longleftrightarrow> (\<exists>i. pg_edge G ?g i = Some (a, b, l)) \<and> \<not> (\<exists>d. l = Add d \<and> b = p) \<and> \<not> (\<exists>f k. l = Field f \<and> (p, k, a) \<in> ?E)"
      using cut by blast
    also have "(\<exists>i. pg_edge G ?g i = Some (a, b, l)) \<longleftrightarrow> (a, l, b) \<in> ?E" by (simp add: weighted_arcs_def)
    finally show "(a, l, b) \<in> weighted_arcs G ?g3 \<longleftrightarrow>
        (a, l, b) \<in> {(a, l, b) \<in> ?E. \<not> (\<exists>d. l = Add d \<and> b = p) \<and> \<not> (\<exists>f k. l = Field f \<and> (p, k, a) \<in> ?E)}" by simp
  qed
  have ends: "\<forall>(s, t, f) \<in> set es. pg_node_weight G ?g3 s \<noteq> None \<and> pg_node_weight G ?g3 t \<noteq> None"
  proof
    fix e assume e: "e \<in> set es"
    obtain s t f where stf: "e = (s, t, f)" by (cases e)
    then have "(s, Field f, t) \<in> (\<lambda>(s, t, f). (s, Field f, t)) ` set es" using e by force
    then obtain h where "(s, Field h, t) \<in> ?E" unfolding es(2) by blast
    then have "pg_node_weight G ?g3 s \<noteq> None \<and> pg_node_weight G ?g3 t \<noteq> None"
      using weighted_arcs_nodes [OF okg] unfolding g3(2) by blast
    then show "case e of (s, t, f) \<Rightarrow> pg_node_weight G ?g3 s \<noteq> None \<and> pg_node_weight G ?g3 t \<noteq> None"
      unfolding stf prod.case .
  qed
  obtain g4 where g4: "fold_opt (\<lambda>(src, dst, fld) g. map_option snd (pg_add_edge G src dst (Field fld) g)) es ?g3 = Some g4"
    "ok g4" "pg_node_weight G g4 = pg_node_weight G ?g" "add_edges G g4 = add_edges G ?g3"
    "weighted_arcs G g4 = weighted_arcs G ?g3 \<union> (\<lambda>(s, t, f). (s, Field f, t)) ` set es"
    using add_fields_spec [OF g3(1) ends] unfolding g3(2) by blast
  have arcs4: "weighted_arcs G g4 = displaced ?E p" unfolding g4(5) arcs3 es(2) displaced_def by (rule refl)
  have m4: "mg_ok G ok (m\<lparr>mg_grph := g4\<rparr>)"
    by (rule mg_okI) (use mg_okD [OF m] g4(2,3) in \<open>simp_all add: get_group_simps\<close>)
  have "\<forall>(a, b) \<in> set (map ?init ?srcs). pg_node_weight G g4 a \<noteq> None \<and> pg_node_weight G g4 b \<noteq> None"
    unfolding init_set g4(3) using weighted_arcs_nodes [OF okg] p by blast
  from groups_spec [OF g4(2) ords this] obtain groups where groups:
    "generate_quotient_groups_for_initial_set U hord vord G g4 (map ?init ?srcs) = Some groups"
    "is_partition groups {n. pg_node_weight G g4 n \<noteq> None}"
    "\<And>a b. pg_node_weight G g4 a \<noteq> None \<Longrightarrow> pg_node_weight G g4 b \<noteq> None \<Longrightarrow>
       (\<exists>s \<in> set groups. a \<in> s \<and> b \<in> s) \<longleftrightarrow> unify (weighted_arcs G g4) (set (map ?init ?srcs)) a b"
    by blast
  have "is_partition groups {n. pg_node_weight G (mg_grph (m\<lparr>mg_grph := g4\<rparr>)) n \<noteq> None}" using groups(2) by simp
  from quotient_graph_spec [OF m4 this, of opr] obtain m' q where
    m': "quoetient_graph G opr groups (m\<lparr>mg_grph := g4\<rparr>) = Some m'" "mg_ok G ok m'" "no_parallel G (mg_grph m')"
    and grp: "\<forall>s \<in> set groups. \<forall>a \<in> s. pg_node_weight G (mg_grph m') (q a) = group_weight G opr (mg_grph (m\<lparr>mg_grph := g4\<rparr>)) s
         \<and> (\<forall>b. pg_node_weight G (mg_grph (m\<lparr>mg_grph := g4\<rparr>)) b \<noteq> None \<longrightarrow> (q a = q b \<longleftrightarrow> b \<in> s))"
    and arcs': "weighted_arcs G (mg_grph m') = (\<lambda>(a, w, b). (q a, w, q b)) ` weighted_arcs G (mg_grph (m\<lparr>mg_grph := g4\<rparr>))"
    and nodes': "mg_nodes m' = (\<lambda>n. map_option q (mg_nodes (m\<lparr>mg_grph := g4\<rparr>) n))"
    by (elim exE conjE) (rule that)
  have q: "q a = q b \<longleftrightarrow> unify (displaced ?E p) {(a, p) | a. \<exists>d. (a, Add d, p) \<in> ?E} a b"
    if ab: "pg_node_weight G ?g a \<noteq> None" "pg_node_weight G ?g b \<noteq> None" for a b
  proof -
    have ab4: "pg_node_weight G g4 a \<noteq> None" "pg_node_weight G g4 b \<noteq> None" using ab unfolding g4(3) by blast+
    have cls: "q a = q b \<longleftrightarrow> b \<in> s" if "s \<in> set groups" "a \<in> s" for s using grp that ab4(2) by simp
    obtain s where s: "s \<in> set groups" "a \<in> s" using groups(2) ab4(1) unfolding is_partition_def by blast
    have "(\<exists>s \<in> set groups. a \<in> s \<and> b \<in> s) \<longleftrightarrow> q a = q b" using s cls by blast
    then show ?thesis using groups(3) [OF ab4] unfolding arcs4 init_set by blast
  qed
  have less: "card (add_edges G (mg_grph m')) < card (add_edges G ?g)" if ne: "source_edges pt \<noteq> {}"
  proof -
    have "card (add_edges G (mg_grph m')) \<le> card (add_edges G g4)"
      using add_edges_quotient [OF g4(2) m'(3), of q] arcs' by simp
    also have "\<dots> < card (add_edges G ?g)" unfolding g4(4)
    proof (rule psubset_card_mono [OF finite_add_edges [OF okg]])
      obtain i d a where i: "(i, d) \<in> source_edges pt" "pg_edge G ?g i = Some (a, p, Add d)" using ne pt(2) by auto
      then have "i \<in> set ?cut" using cut [OF i(2)] by blast
      then have "i \<notin> add_edges G ?g3" unfolding add_edges_def g3(3) by simp
      moreover have "i \<in> add_edges G ?g" using i(2) by (auto simp: add_edges_def)
      moreover have "add_edges G ?g3 \<subseteq> add_edges G ?g" unfolding add_edges_def g3(3) by (auto split: if_splits)
      ultimately show "add_edges G ?g3 \<subset> add_edges G ?g" by blast
    qed
    finally show ?thesis .
  qed
  have "apply_pointer_transform U hord vord G opr pt m = Some m'"
    unfolding apply_pointer_transform_def es(1) init bind_simps Let_def g4(1) groups(1) m'(1) by (rule refl)
  then show ?thesis using m'(2) nodes' arcs' q less by (intro exI [of _ m'] exI [of _ q]) (simp add: arcs4)
qed

lemma displaced_small: "small_adds G g \<Longrightarrow> weighted_arcs G g' = (\<lambda>(a, w, b). (q a, w, q b)) ` displaced (weighted_arcs G g) p \<Longrightarrow>
   small_adds G g'"
  unfolding small_adds_def displaced_def by auto

lemma find_pointer_spec:
  assumes g: "ok (mg_grph m)" and small: "small_adds G (mg_grph m)"
  shows "find_pointer_simplification G m = Some None \<and> (\<forall>n. pg_node_weight G (mg_grph m) n \<noteq> None \<longrightarrow> \<not> pointer_candidate G m n)
    \<or> (\<exists>p pt. find_pointer_simplification G m = Some (Some pt) \<and> pg_node_weight G (mg_grph m) p \<noteq> None
        \<and> pointer_candidate G m p \<and> pointer_node pt = p
        \<and> source_edges pt = {(i, d). \<exists>a. pg_edge G (mg_grph m) i = Some (a, p, Add d)}
        \<and> target_field_edges pt = {(i, f). \<exists>n b. (p, n) \<in> arcs G (mg_grph m) \<and> pg_edge G (mg_grph m) i = Some (n, b, Field f)}
        \<and> source_edges pt \<noteq> {})"
proof (cases "filter (pointer_candidate G m) (pg_node_indices G (mg_grph m))")
  case Nil
  then have "\<forall>n. pg_node_weight G (mg_grph m) n \<noteq> None \<longrightarrow> \<not> pointer_candidate G m n"
    using node_indices_laws [OF g] by (auto simp: filter_empty_conv)
  then show ?thesis using Nil by (simp add: find_pointer_simplification_def)
next
  case (Cons p ps)
  then have "p \<in> set (filter (pointer_candidate G m) (pg_node_indices G (mg_grph m)))" by simp
  then have p: "pg_node_weight G (mg_grph m) p \<noteq> None" "pointer_candidate G m p" using node_indices_laws [OF g] by auto
  obtain pt where pt1: "node_to_pointer_transform G m p = Some pt"
    using pointer_transform_total [OF g small, of p] by blast
  note pt = pt1 pointer_transform_spec [OF g pt1]
  obtain i a b w where iabw: "(i, a, b, w) \<in> set (edges_directed G (mg_grph m) p Incoming)"
    "case edge_weight G (mg_grph m) i of Some (Add _) \<Rightarrow> True | _ \<Rightarrow> False"
    using p(2) unfolding pointer_candidate_def any_incoming_edges_def list_ex_iff by (elim conjE bexE) auto
  then have i: "pg_edge G (mg_grph m) i = Some (a, p, w)" using out_edges(2) [OF g, of i a b w p] by simp
  then have "edge_weight G (mg_grph m) i = Some w" by (simp add: edge_weight_def)
  with iabw(2) obtain d where "w = Add d" by (cases w) simp_all
  then have "(i, d) \<in> source_edges pt" using i pt(3) by blast
  then have "source_edges pt \<noteq> {}" by blast
  moreover have "find_pointer_simplification G m = Some (Some pt)"
    unfolding find_pointer_simplification_def Cons by (simp add: pt(1))
  ultimately show ?thesis using p pt(2-4) by blast
qed

lemma simplify_pointers_spec:
  assumes "mg_ok G ok m" "small_adds G (mg_grph m)" and ords: "is_enum hord" "is_enum vord"
  shows "\<exists>m' q. simplify_pointers U hord vord G opr m = Some m' \<and> mg_ok G ok m'
    \<and> mg_nodes m' = (\<lambda>n. map_option q (mg_nodes m n))
    \<and> (\<forall>n. pg_node_weight G (mg_grph m') n \<noteq> None \<longrightarrow> \<not> pointer_candidate G m' n)"
  using assms(1,2)
proof (induction "card (add_edges G (mg_grph m))" arbitrary: m rule: less_induct)
  case less
  consider (none) "find_pointer_simplification G m = Some None"
      "\<forall>n. pg_node_weight G (mg_grph m) n \<noteq> None \<longrightarrow> \<not> pointer_candidate G m n"
    | (some) p pt where "find_pointer_simplification G m = Some (Some pt)" "pg_node_weight G (mg_grph m) p \<noteq> None"
      "pointer_node pt = p" "source_edges pt = {(i, d). \<exists>a. pg_edge G (mg_grph m) i = Some (a, p, Add d)}"
      "target_field_edges pt = {(i, f). \<exists>n b. (p, n) \<in> arcs G (mg_grph m) \<and> pg_edge G (mg_grph m) i = Some (n, b, Field f)}"
      "source_edges pt \<noteq> {}"
    using find_pointer_spec [OF mg_okD(1) [OF less.prems(1)] less.prems(2)] by blast
  then show ?case
  proof cases
    case none
    then have "simplify_pointers U hord vord G opr m = Some m" by (simp add: simplify_pointers.simps)
    moreover have "mg_nodes m = (\<lambda>n. map_option (\<lambda>x. x) (mg_nodes m n))" by (simp add: option.map_ident)
    ultimately show ?thesis using none(2) less.prems(1) by blast
  next
    case some
    obtain m1 q1 where m1: "apply_pointer_transform U hord vord G opr pt m = Some m1" "mg_ok G ok m1"
      "mg_nodes m1 = (\<lambda>n. map_option q1 (mg_nodes m n))"
      "weighted_arcs G (mg_grph m1) = (\<lambda>(a, w, b). (q1 a, w, q1 b)) ` displaced (weighted_arcs G (mg_grph m)) p"
      "card (add_edges G (mg_grph m1)) < card (add_edges G (mg_grph m))"
      using apply_spec [OF less.prems(1) ords some(2-5), of opr] some(6) by (elim exE conjE) (rule that, blast+)
    obtain m' q where m': "simplify_pointers U hord vord G opr m1 = Some m'" "mg_ok G ok m'"
      "mg_nodes m' = (\<lambda>n. map_option q (mg_nodes m1 n))"
      "\<forall>n. pg_node_weight G (mg_grph m') n \<noteq> None \<longrightarrow> \<not> pointer_candidate G m' n"
      using less.hyps [OF m1(5,2) displaced_small [OF less.prems(2) m1(4)]] by blast
    have "simplify_pointers U hord vord G opr m = Some m'"
      using m'(1) by (simp add: simplify_pointers.simps [of U hord vord G opr m] some(1) m1(1))
    moreover have "mg_nodes m' = (\<lambda>n. map_option (q \<circ> q1) (mg_nodes m n))"
      unfolding m'(3) m1(3) by (simp add: option.map_comp)
    ultimately show ?thesis using m'(2,4) by blast
  qed
qed

end

section \<open>Properties\<close>

text \<open>
  C26. Pointer simplification always ends: as long as the displacements fit into 64 bits it
  returns, whatever the iteration orders, a graph with the same names in which no node is left to
  simplify.  Nodes are only merged, so names that shared a node still do.
\<close>

theorem simplify_pointers_ends:
  assumes "sketch_quotient G ok U ufok" "mg_ok G ok m" "small_adds G (mg_grph m)" "is_enum hord" "is_enum vord"
  shows "\<exists>m' q. simplify_pointers U hord vord G opr m = Some m' \<and> mg_ok G ok m'
    \<and> mg_nodes m' = (\<lambda>n. map_option q (mg_nodes m n))
    \<and> (\<forall>n. pg_node_weight G (mg_grph m') n \<noteq> None \<longrightarrow> \<not> pointer_candidate G m' n)"
  by (rule sketch_quotient.simplify_pointers_spec [OF assms])

text \<open>
  C27. One step at a node drops the additions into it and the fields below it, adds the fields with
  every displacement added to their offsets, and quotients the rest by the least congruence that
  unifies the node with the sources of its additions.
\<close>

theorem apply_pointer_transform_exact:
  assumes env: "sketch_quotient G ok U ufok" and m: "mg_ok G ok m" and ords: "is_enum hord" "is_enum vord"
    and p: "pg_node_weight G (mg_grph m) p \<noteq> None" and pt: "node_to_pointer_transform G m p = Some pt"
  shows "\<exists>m' q. apply_pointer_transform U hord vord G opr pt m = Some m' \<and> mg_ok G ok m'
    \<and> mg_nodes m' = (\<lambda>n. map_option q (mg_nodes m n))
    \<and> weighted_arcs G (mg_grph m') = (\<lambda>(a, w, b). (q a, w, q b)) ` displaced (weighted_arcs G (mg_grph m)) p
    \<and> (\<forall>a b. pg_node_weight G (mg_grph m) a \<noteq> None \<longrightarrow> pg_node_weight G (mg_grph m) b \<noteq> None \<longrightarrow>
         (q a = q b \<longleftrightarrow> unify (displaced (weighted_arcs G (mg_grph m)) p)
            {(a, p) | a. \<exists>d. (a, Add d, p) \<in> weighted_arcs G (mg_grph m)} a b))"
proof -
  have "stable_digraph G ok" using env by (rule sketch_quotient.axioms(1))
  note spec = sketch_quotient.pointer_transform_spec [OF env mg_okD(1) [OF m] pt]
  show ?thesis
    using sketch_quotient.apply_spec [OF env m ords p spec, of opr] by (elim exE conjE) (intro exI conjI; assumption)
qed

lemma sketch_vars_labels:
  assumes "d \<in> sketch_vars sg" "l \<in> set (dtv_labels d)"
  shows "\<exists>c \<in> sg. l \<in> set (dtv_labels (sub_lhs c)) \<union> set (dtv_labels (sub_rhs c))"
  using assms unfolding sketch_vars_def sub_dtvs_def by (fastforce dest: in_set_takeD)

lemma build_and_label_spec:
  assumes env: "sketch_env G ok U ufok L C le" and ords: "is_enum hord" "is_enum vord"
    and bld: "add_new_var bld = (\<lambda>d g. map_option Inr (insert_dtv G L (sb_lattice bld) d g))"
      "{nl_bot (sb_lattice bld), nl_top (sb_lattice bld)} \<subseteq> C"
      "\<forall>x \<in> C. le (nl_bot (sb_lattice bld)) x \<and> le x (nl_top (sb_lattice bld))"
      "\<forall>tv \<in> type_lattice_elements bld. \<exists>e \<in> C. nl_get_elem (sb_lattice bld) (get_name show_tid tv) = Some e"
    and small: "\<forall>c \<in> set sg. \<forall>d. Add d \<in> set (dtv_labels (sub_lhs c)) \<union> set (dtv_labels (sub_rhs c)) \<longrightarrow> in_i64 d"
  shows "\<exists>sk. build_and_label_constraints U hord vord G L show_tid bld sg = Some (Inr sk)
    \<and> mg_ok G ok (quotient_graph sk) \<and> dom (mg_nodes (quotient_graph sk)) = sketch_vars (set sg)
    \<and> (\<forall>c \<in> set sg. mg_nodes (quotient_graph sk) (sub_lhs c) = mg_nodes (quotient_graph sk) (sub_rhs c))
    \<and> (\<forall>n. pg_node_weight G (mg_grph (quotient_graph sk)) n \<noteq> None \<longrightarrow> \<not> pointer_candidate G (quotient_graph sk) n)"
proof -
  let ?V = "sketch_vars (set sg)"
  from sketch_env.build_spec [OF env ords bld refl, of sg] obtain sk where
    sk: "build_without_pointer_simplification U hord vord G L show_tid bld sg = Some (Inr sk)"
      "mg_ok G ok (quotient_graph sk)" "dom (mg_nodes (quotient_graph sk)) = ?V"
    and congr: "\<forall>d \<in> ?V. \<forall>e \<in> ?V. mg_nodes (quotient_graph sk) d = mg_nodes (quotient_graph sk) e
         \<longleftrightarrow> unify (var_edges ?V) (var_pairs (set sg)) d e"
    and arcs: "\<forall>a l b. (a, l, b) \<in> weighted_arcs G (mg_grph (quotient_graph sk)) \<longleftrightarrow> (\<exists>d. add_field_label d l \<in> ?V
         \<and> mg_nodes (quotient_graph sk) d = Some a \<and> mg_nodes (quotient_graph sk) (add_field_label d l) = Some b)"
    by (elim exE conjE) (rule that)
  have sides: "mg_nodes (quotient_graph sk) (sub_lhs c) = mg_nodes (quotient_graph sk) (sub_rhs c)" if c: "c \<in> set sg" for c
  proof -
    have "sub_lhs c \<in> ?V" "sub_rhs c \<in> ?V" unfolding sketch_vars_def using c self_sub_dtv by blast+
    moreover have "unify (var_edges ?V) (var_pairs (set sg)) (sub_lhs c) (sub_rhs c)"
      using c by (intro U_init) (simp add: var_pairs_def)
    ultimately show ?thesis using congr by blast
  qed
  have "small_adds G (mg_grph (quotient_graph sk))"
    unfolding small_adds_def
  proof (intro allI impI)
    fix a b d assume "(a, Add d, b) \<in> weighted_arcs G (mg_grph (quotient_graph sk))"
    then obtain e where "add_field_label e (Add d) \<in> ?V" using arcs by meson
    then obtain c where "c \<in> set sg" "Add d \<in> set (dtv_labels (sub_lhs c)) \<union> set (dtv_labels (sub_rhs c))"
      using sketch_vars_labels [of _ "set sg" "Add d"] by fastforce
    with small show "in_i64 d" by blast
  qed
  from sketch_quotient.simplify_pointers_spec [OF sketch_env.axioms(1) [OF env] sk(2) this ords, of "bounds_operate L"]
  obtain m' q where m': "simplify_pointers U hord vord G (bounds_operate L) (quotient_graph sk) = Some m'" "mg_ok G ok m'"
    "mg_nodes m' = (\<lambda>n. map_option q (mg_nodes (quotient_graph sk) n))"
    "\<forall>n. pg_node_weight G (mg_grph m') n \<noteq> None \<longrightarrow> \<not> pointer_candidate G m' n" by blast
  have "dom (mg_nodes m') = ?V" using sk(3) by (auto simp: m'(3) dom_def)
  moreover have "build_and_label_constraints U hord vord G L show_tid bld sg = Some (Inr (sk\<lparr>quotient_graph := m'\<rparr>))"
    by (simp add: build_and_label_constraints_def sk(1) m'(1))
  ultimately show ?thesis using m'(2,4) sides
    by (intro exI [of _ "sk\<lparr>quotient_graph := m'\<rparr>"]) (simp add: m'(3))
qed

text \<open>
  The whole builder, from constraints whose displacements fit into 64 bits: it returns a sketch
  graph without a panic or an error, names exactly the variables of the constraints with
  their prefixes, gives both sides of every constraint one node, and leaves no pointer to simplify.
\<close>

theorem build_and_label_total:
  assumes env: "sketch_env G ok U ufok L C le" and ords: "is_enum hord" "is_enum vord"
    and bld: "add_new_var bld = (\<lambda>d g. map_option Inr (insert_dtv G L (sb_lattice bld) d g))"
      "{nl_bot (sb_lattice bld), nl_top (sb_lattice bld)} \<subseteq> C"
      "\<forall>x \<in> C. le (nl_bot (sb_lattice bld)) x \<and> le x (nl_top (sb_lattice bld))"
      "\<forall>tv \<in> type_lattice_elements bld. \<exists>e \<in> C. nl_get_elem (sb_lattice bld) (get_name show_tid tv) = Some e"
    and small: "\<forall>c \<in> set sg. \<forall>d. Add d \<in> set (dtv_labels (sub_lhs c)) \<union> set (dtv_labels (sub_rhs c)) \<longrightarrow> in_i64 d"
  shows "\<exists>sk. build_and_label_constraints U hord vord G L show_tid bld sg = Some (Inr sk)
    \<and> mg_ok G ok (quotient_graph sk) \<and> dom (mg_nodes (quotient_graph sk)) = sketch_vars (set sg)
    \<and> (\<forall>c \<in> set sg. mg_nodes (quotient_graph sk) (sub_lhs c) = mg_nodes (quotient_graph sk) (sub_rhs c))
    \<and> (\<forall>n. pg_node_weight G (mg_grph (quotient_graph sk)) n \<noteq> None \<longrightarrow> \<not> pointer_candidate G (quotient_graph sk) n)"
  by (rule build_and_label_spec [OF assms])

lemma build_and_label_total_witness:
  "\<exists>sk. build_and_label_constraints list_uf imp_enum sorted_list_of_set list_digraph ce_ops (\<lambda>_. []) fd_builder
      fd_constraints = Some (Inr sk)
    \<and> mg_nodes (quotient_graph sk) (dtv_new (tv_new ''int''))
      = mg_nodes (quotient_graph sk) (create_with_path (tv_new ''x'') [Load])"
proof -
  have bld: "sb_lattice fd_builder = fd_named" "type_lattice_elements fd_builder = {tv_new ''int''}"
    "add_new_var fd_builder = (\<lambda>d g. map_option Inr (insert_dtv list_digraph ce_ops fd_named d g))"
    by (simp_all add: fd_builder_def sketch_builder_new_def)
  obtain e where e: "enl_nds fd_generated ''int'' = Some e"
    using generated_names [OF fd_generated, of "''int''"] by (auto simp: fd_handles)
  then have "e \<in> elements fd_generated" "nl_get_elem fd_named ''int'' = Some e"
    by (auto simp: elements_def ran_def fd_named_def enl_get_elem_def)
  then have elems: "\<forall>tv \<in> type_lattice_elements fd_builder. \<exists>e \<in> elements fd_generated.
      nl_get_elem (sb_lattice fd_builder) (get_name (\<lambda>_. []) tv) = Some e"
    by (simp add: bld get_name_def)
  have small: "\<forall>c \<in> set fd_constraints. \<forall>d. Add d \<in> set (dtv_labels (sub_lhs c)) \<union> set (dtv_labels (sub_rhs c)) \<longrightarrow> in_i64 d"
    by (simp add: fd_constraints_def subtype_new_def)
  from build_and_label_total [OF fd_sketch.sketch_env_axioms imp_enum sorted_enum _ _ _ elems small]
  obtain sk where "build_and_label_constraints list_uf imp_enum sorted_list_of_set list_digraph ce_ops (\<lambda>_. []) fd_builder
      fd_constraints = Some (Inr sk)"
    "\<forall>c \<in> set fd_constraints. mg_nodes (quotient_graph sk) (sub_lhs c) = mg_nodes (quotient_graph sk) (sub_rhs c)"
    unfolding bld using fd_named_ends by blast
  then show ?thesis by (auto simp: fd_constraints_def subtype_new_def)
qed

text \<open>A pointer at displacement eight that is loaded from.\<close>

definition pointer_graph :: "((nat, field_label) list_graph, nat dtv) mapping_graph" where
  "pointer_graph = \<lparr>mg_grph = \<lparr>lg_nodes = [(0, 1), (1, 1), (2, 1), (3, 1)],
        lg_edges = [(0, 0, 1, Add 8), (1, 1, 2, Load), (2, 2, 3, Field (field_new 0 8))],
        lg_next_node = 4, lg_next_edge = 3\<rparr>,
      mg_nodes = [dtv_new (tv_new ''x'') \<mapsto> 0], mg_reprs = [0 \<mapsto> {dtv_new (tv_new ''x'')}]\<rparr>"

lemma pointer_graph_ok: "mg_ok list_digraph lg_ok pointer_graph"
proof (rule mg_okI)
  show "lg_ok (mg_grph pointer_graph)" by (auto simp: pointer_graph_def lg_ok_def split: if_splits)
  show "n \<in> get_group_for_node pointer_graph i \<longleftrightarrow> mg_nodes pointer_graph n = Some i" for n i
    by (auto simp: pointer_graph_def get_group_for_node_def dtv_new_def tv_new_def)
qed (auto simp: pointer_graph_def list_digraph_sel split: if_splits)

lemma pointer_graph_arcs:
  "weighted_arcs list_digraph (mg_grph pointer_graph) = {(0, Add 8, 1), (1, Load, 2), (2, Field (field_new 0 8), 3)}"
  by (force simp: weighted_arcs_def pointer_graph_def list_digraph_sel split: if_splits)

lemma pointer_graph_small: "small_adds list_digraph (mg_grph pointer_graph)"
  unfolding small_adds_def pointer_graph_arcs by (simp add: in_i64_def)

lemma simplify_pointers_ends_witness:
  "\<exists>m'. simplify_pointers list_uf imp_enum sorted_list_of_set list_digraph (+) pointer_graph = Some m'
    \<and> (\<forall>n. pg_node_weight list_digraph (mg_grph m') n \<noteq> None \<longrightarrow> \<not> pointer_candidate list_digraph m' n)"
  using simplify_pointers_ends [OF list_quotient.sketch_quotient_axioms pointer_graph_ok pointer_graph_small
      imp_enum sorted_enum] by blast

lemma apply_pointer_transform_exact_witness:
  "\<exists>pt m' q. node_to_pointer_transform list_digraph pointer_graph 1 = Some pt
    \<and> apply_pointer_transform list_uf imp_enum sorted_list_of_set list_digraph (+) pt pointer_graph = Some m'
    \<and> q 0 = q (1 :: nat)
    \<and> weighted_arcs list_digraph (mg_grph m') = {(q 1, Load, q 2), (q 2, Field (field_new 8 8), q 3)}"
proof -
  let ?E = "weighted_arcs list_digraph (mg_grph pointer_graph)"
  obtain pt where pt: "node_to_pointer_transform list_digraph pointer_graph 1 = Some pt"
    using list_quotient.pointer_transform_total [OF mg_okD(1) [OF pointer_graph_ok] pointer_graph_small] by blast
  have nodes: "pg_node_weight list_digraph (mg_grph pointer_graph) 0 \<noteq> None"
    "pg_node_weight list_digraph (mg_grph pointer_graph) 1 \<noteq> None"
    by (simp_all add: pointer_graph_def list_digraph_sel)
  from apply_pointer_transform_exact [OF list_quotient.sketch_quotient_axioms pointer_graph_ok imp_enum sorted_enum
      nodes(2) pt, of "(+)"]
  obtain m' q where m': "apply_pointer_transform list_uf imp_enum sorted_list_of_set list_digraph (+) pt pointer_graph = Some m'"
    "weighted_arcs list_digraph (mg_grph m') = (\<lambda>(a, w, b). (q a, w, q b)) ` displaced ?E 1"
    "q 0 = q 1 \<longleftrightarrow> unify (displaced ?E 1) {(a, 1) | a. \<exists>d. (a, Add d, 1) \<in> ?E} 0 1"
    using nodes by blast
  have "displaced ?E 1 = {(1, Load, 2), (2, Field (field_new 8 8), 3)}"
    unfolding pointer_graph_arcs displaced_def by (auto simp: shifted_field_def field_new_def wrap_i64_def)
  then have "weighted_arcs list_digraph (mg_grph m') = {(q 1, Load, q 2), (q 2, Field (field_new 8 8), q 3)}"
    unfolding m'(2) by simp
  moreover have "q 0 = q 1" unfolding m'(3) pointer_graph_arcs by (intro U_init) simp
  ultimately show ?thesis using pt m'(1) by blast
qed

end
