(* ===== verification/Sketches.thy ===== *)
theory Sketches
  imports PointerSimplify DfaOps
begin

text \<open>
  Sketches (\<^verbatim>\<open>src/solver/type_sketch.rs\<close>): the part of a sketch graph that one
  derived type variable reaches.  A sketch is read as an automaton over field labels, all of
  whose nodes accept; comparing and combining sketches goes through the automata of the theory
  DfaOps and back.  The search of the graph library (\<open>dfs\<close>, \<open>has_node\<close>) is an argument, as in
  that theory; panics are \<^const>\<open>None\<close>.
\<close>

section \<open>Sketches\<close>

record ('g, 'w, 'tid) sketch =
  sk_graph :: "('g, 'tid dtv) mapping_graph"
  representing :: "'tid dtv"
  sk_default :: 'w

definition get_entry :: "('g, 'w, 'tid) sketch \<Rightarrow> nat option" where
  "get_entry sk = mg_get_node (sk_graph sk) (representing sk)"

definition alphabet ::
    "('g, 'w, field_label) petgraph \<Rightarrow> ('g, 'w, 'tid) sketch \<Rightarrow> ('g, 'w, 'tid) sketch \<Rightarrow> field_label set" where
  "alphabet G sk other =
     set (map (\<lambda>(_, _, _, w). w)
       (edge_references G (mg_grph (sk_graph sk)) @ edge_references G (mg_grph (sk_graph other))))"

section \<open>The automaton of a sketch\<close>

text \<open>The targets of a node by label, as a hash map collects them.\<close>

definition out_edges ::
    "('g, 'w, field_label) petgraph \<Rightarrow> ('g, 'w, 'tid) sketch \<Rightarrow> nat \<Rightarrow> field_label \<Rightarrow> nat option" where
  "out_edges G sk nd_idx =
     map_of (rev (map (\<lambda>(_, _, t, w). (w, t)) (edges_directed G (mg_grph (sk_graph sk)) nd_idx Outgoing)))"

definition construct_dfa ::
    "('g, 'w, field_label) petgraph \<Rightarrow> ('g, 'w, 'tid) sketch \<Rightarrow> field_label set \<Rightarrow> bool \<Rightarrow>
     field_label explicit_dfa option" where
  "construct_dfa G sk alph should_include_entry_as_accept =
     map_option (\<lambda>entry_idx.
       (let nodes = pg_node_indices G (mg_grph (sk_graph sk));
            accept_idxs = set (filter (\<lambda>x. x \<noteq> entry_idx \<or> should_include_entry_as_accept) nodes);
            reject_idx = (if accept_idxs = {} then 0 else Max accept_idxs) + 1;
            all_idxs = insert reject_idx accept_idxs
              \<union> (if \<not> should_include_entry_as_accept then {entry_idx} else {});
            es = (\<Union>nd_idx \<in> set nodes. (\<lambda>a. (nd_idx, a,
                case out_edges G sk nd_idx a of Some idx \<Rightarrow> idx | None \<Rightarrow> reject_idx)) ` alph)
        in \<lparr>ent_id = entry_idx, edges = es \<union> (\<lambda>a. (reject_idx, a, reject_idx)) ` alph,
            accept_indexes = accept_idxs, all_indeces = all_idxs\<rparr>))
       (get_entry sk)"

definition is_structurally_equal ::
    "dfs_fun \<Rightarrow> has_node_fun \<Rightarrow> ('g, 'w, field_label) petgraph \<Rightarrow> ('g, 'w, 'tid) sketch \<Rightarrow>
     ('g, 'w, 'tid) sketch \<Rightarrow> bool option" where
  "is_structurally_equal dfs has_node G sk other =
     (let alph = alphabet G sk other
      in do { lhs \<leftarrow> construct_dfa G sk alph True;
              rhs \<leftarrow> construct_dfa G other alph True;
              only_lhs \<leftarrow> intersection dfs has_node lhs (complement rhs);
              only_rhs \<leftarrow> intersection dfs has_node (complement lhs) rhs;
              cex_lang \<leftarrow> union dfs has_node only_lhs only_rhs;
              Some (is_empty_language dfs has_node cex_lang) })"

definition empty_language_or_epsilon ::
    "dfs_fun \<Rightarrow> has_node_fun \<Rightarrow> ('g, 'w, field_label) petgraph \<Rightarrow> ('g, 'w, 'tid) sketch \<Rightarrow> bool option" where
  "empty_language_or_epsilon dfs has_node G sk =
     map_option (is_empty_language dfs has_node) (construct_dfa G sk (alphabet G sk sk) False)"

section \<open>Combining sketches\<close>

definition add_dfa_node ::
    "('g, 'w, field_label) petgraph \<Rightarrow> 'w \<Rightarrow> nat \<Rightarrow> (nat \<Rightarrow> nat option) \<times> 'g \<Rightarrow> (nat \<Rightarrow> nat option) \<times> 'g" where
  "add_dfa_node G w nd st =
     (case st of (mpg, grph) \<Rightarrow> let (n, grph') = pg_add_node G w grph in (mpg(nd \<mapsto> n), grph'))"

definition add_dfa_edge ::
    "('g, 'w, field_label) petgraph \<Rightarrow> (nat \<Rightarrow> nat option) \<Rightarrow> nat \<times> field_label \<times> nat \<Rightarrow> 'g \<Rightarrow> 'g option" where
  "add_dfa_edge G mpg e grph =
     (case e of (st, w, end') \<Rightarrow>
        do { s \<leftarrow> mpg st; t \<leftarrow> mpg end'; map_option snd (pg_add_edge G s t w grph) })"

definition create_graph_from_dfa ::
    "('g, 'w, field_label) petgraph \<Rightarrow> ('g, 'w, 'tid) sketch \<Rightarrow> field_label explicit_dfa \<Rightarrow> (nat \<times> 'g) option" where
  "create_graph_from_dfa G sk dfa =
     (let (mpg, grph) = fold (add_dfa_node G (sk_default sk)) (all_indices dfa) (Map.empty, pg_new G)
      in do { grph1 \<leftarrow> fold_opt (add_dfa_edge G mpg) (dfa_edges dfa) grph;
              rejects \<leftarrow> traverse mpg (filter (\<lambda>idx. idx \<notin> set (accept_indices dfa) \<and> idx \<noteq> entry dfa) (all_indices dfa));
              ent \<leftarrow> mpg (entry dfa);
              Some (ent, foldl (\<lambda>g n. snd (pg_remove_node G n g)) grph1 rejects) })"

text \<open>For every node of the new graph, the nodes of the two sketches that a path to it leads to.\<close>

definition find_representative_nodes_for_new_nodes ::
    "('g, 'w, field_label) petgraph \<Rightarrow> ('g, 'w, 'tid) sketch \<Rightarrow> nat \<Rightarrow> 'g \<Rightarrow> ('g, 'w, 'tid) sketch \<Rightarrow>
     (nat \<times> nat option \<times> nat option) list option" where
  "find_representative_nodes_for_new_nodes G sk entry_node new_graph other =
     do { pths \<leftarrow> explore_paths (pg_out G new_graph) entry_node;
          reprs \<leftarrow> traverse (\<lambda>(pth, tgt).
              do { ws \<leftarrow> traverse (edge_weight G new_graph) pth;
                   e1 \<leftarrow> get_entry sk;
                   e2 \<leftarrow> get_entry other;
                   Some (tgt, find_node (pg_out G (mg_grph (sk_graph sk))) e1 ws,
                              find_node (pg_out G (mg_grph (sk_graph other))) e2 ws) }) pths;
          Some (fold (\<lambda>(tgt, r). bt_insert tgt r) reprs []) }"

definition label_new_node ::
    "('g, 'w, field_label) petgraph \<Rightarrow> ('w \<Rightarrow> 'w \<Rightarrow> 'w) \<Rightarrow> ('g, 'w, 'tid) sketch \<Rightarrow> ('g, 'w, 'tid) sketch \<Rightarrow>
     nat \<times> nat option \<times> nat option \<Rightarrow> 'g \<Rightarrow> 'g option" where
  "label_new_node G lattice_op sk other r grph =
     (case r of (base_node, o1, o2) \<Rightarrow>
        (let self_label = (case Option.bind o1 (pg_node_weight G (mg_grph (sk_graph sk))) of
               Some w \<Rightarrow> w | None \<Rightarrow> sk_default sk);
             other_label = (case Option.bind o2 (pg_node_weight G (mg_grph (sk_graph other))) of
               Some w \<Rightarrow> w | None \<Rightarrow> sk_default sk)
         in if contains_node G grph base_node
            then Some (pg_set_node_weight G base_node (lattice_op self_label other_label) grph)
            else None))"

definition binop_sketch ::
    "'u union_find_ops \<Rightarrow> (edge_implication set \<Rightarrow> edge_implication list) \<Rightarrow> (nat set \<Rightarrow> nat list) \<Rightarrow>
     ('g, 'w, field_label) petgraph \<Rightarrow> ('w \<Rightarrow> 'w \<Rightarrow> 'w) \<Rightarrow> ('g, 'w, 'tid) sketch \<Rightarrow> ('g, 'w, 'tid) sketch \<Rightarrow>
     ('w \<Rightarrow> 'w \<Rightarrow> 'w) \<Rightarrow> (field_label explicit_dfa \<Rightarrow> field_label explicit_dfa \<Rightarrow> field_label explicit_dfa option) \<Rightarrow>
     ('g, 'w, 'tid) sketch option" where
  "binop_sketch U hord vord G opr sk other lattice_op dfa_op =
     (if dtv_to_callee (representing sk) \<noteq> dtv_to_callee (representing other) then None
      else
        let alph = alphabet G sk other
        in do { lhs \<leftarrow> construct_dfa G sk alph True;
                rhs \<leftarrow> construct_dfa G other alph True;
                resultant_grph \<leftarrow> dfa_op lhs rhs;
                (ent, grph) \<leftarrow> create_graph_from_dfa G sk resultant_grph;
                mapping \<leftarrow> find_representative_nodes_for_new_nodes G sk ent grph other;
                grph' \<leftarrow> fold_opt (label_new_node G lattice_op sk other) mapping grph;
                let weight_mapping = (from_dfa_and_labeling grph' :: ('g, 'tid dtv) mapping_graph);
                    relab = relable_representative_nodes weight_mapping [representing sk \<mapsto> ent]
                in do { quot_groups \<leftarrow> generate_quotient_groups U hord vord G weight_mapping [];
                        quot_graph \<leftarrow> quoetient_graph G opr quot_groups relab;
                        Some \<lparr>sk_graph = quot_graph, representing = representing sk,
                              sk_default = sk_default sk\<rparr> } })"

definition sketch_intersect ::
    "dfs_fun \<Rightarrow> has_node_fun \<Rightarrow> 'u union_find_ops \<Rightarrow> (edge_implication set \<Rightarrow> edge_implication list) \<Rightarrow>
     (nat set \<Rightarrow> nat list) \<Rightarrow> ('g, 'w, field_label) petgraph \<Rightarrow> ('w \<Rightarrow> 'w \<Rightarrow> 'w) \<Rightarrow> ('w \<Rightarrow> 'w \<Rightarrow> 'w) \<Rightarrow>
     ('g, 'w, 'tid) sketch \<Rightarrow> ('g, 'w, 'tid) sketch \<Rightarrow> ('g, 'w, 'tid) sketch option" where
  "sketch_intersect dfs has_node U hord vord G opr meet sk other =
     binop_sketch U hord vord G opr sk other meet (union dfs has_node)"

definition sketch_difference ::
    "dfs_fun \<Rightarrow> has_node_fun \<Rightarrow> 'u union_find_ops \<Rightarrow> (edge_implication set \<Rightarrow> edge_implication list) \<Rightarrow>
     (nat set \<Rightarrow> nat list) \<Rightarrow> ('g, 'w, field_label) petgraph \<Rightarrow> ('w \<Rightarrow> 'w \<Rightarrow> 'w) \<Rightarrow>
     ('g, 'w, 'tid) sketch \<Rightarrow> ('g, 'w, 'tid) sketch \<Rightarrow> ('g, 'w, 'tid) sketch option" where
  "sketch_difference dfs has_node U hord vord G opr sk other =
     binop_sketch U hord vord G opr sk other (\<lambda>uself _. uself)
       (\<lambda>self_dfa other_dfa. intersection dfs has_node self_dfa (complement other_dfa))"

definition sketch_union ::
    "dfs_fun \<Rightarrow> has_node_fun \<Rightarrow> 'u union_find_ops \<Rightarrow> (edge_implication set \<Rightarrow> edge_implication list) \<Rightarrow>
     (nat set \<Rightarrow> nat list) \<Rightarrow> ('g, 'w, field_label) petgraph \<Rightarrow> ('w \<Rightarrow> 'w \<Rightarrow> 'w) \<Rightarrow> ('w \<Rightarrow> 'w \<Rightarrow> 'w) \<Rightarrow>
     ('g, 'w, 'tid) sketch \<Rightarrow> ('g, 'w, 'tid) sketch \<Rightarrow> ('g, 'w, 'tid) sketch option" where
  "sketch_union dfs has_node U hord vord G opr join sk other =
     binop_sketch U hord vord G opr sk other join (intersection dfs has_node)"

section \<open>The words of a sketch\<close>

definition sketch_ok ::
    "('g, 'w, field_label) petgraph \<Rightarrow> ('g \<Rightarrow> bool) \<Rightarrow> ('g, 'w, 'tid) sketch \<Rightarrow> nat \<Rightarrow> bool" where
  "sketch_ok G ok sk e \<longleftrightarrow> mg_ok G ok (sk_graph sk) \<and> mg_nodes (sk_graph sk) (representing sk) = Some e
     \<and> deterministic (weighted_arcs G (mg_grph (sk_graph sk)))"

definition sketch_words :: "('g, 'w, field_label) petgraph \<Rightarrow> ('g, 'w, 'tid) sketch \<Rightarrow> nat \<Rightarrow> field_label list set" where
  "sketch_words G sk e = {w. \<exists>n. edge_path (weighted_arcs G (mg_grph (sk_graph sk))) e w n}"

lemma sketch_okD:
  assumes "sketch_ok G ok sk e"
  shows "mg_ok G ok (sk_graph sk)" "ok (mg_grph (sk_graph sk))" "get_entry sk = Some e"
    "pg_node_weight G (mg_grph (sk_graph sk)) e \<noteq> None"
    "deterministic (weighted_arcs G (mg_grph (sk_graph sk)))"
  using assms mg_okD(1,4) [of G ok "sk_graph sk"] unfolding sketch_ok_def get_entry_def mg_get_node_def by auto

lemma edge_path_letters: "edge_path E q w r \<Longrightarrow> set w \<subseteq> (\<lambda>(_, l, _). l) ` E"
  by (induction w arbitrary: q) force+

locale label_digraph = stable_digraph G ok
  for G :: "('g, 'w, field_label) petgraph" and ok :: "'g \<Rightarrow> bool"
begin

lemma alphabet_eq:
  assumes "ok (mg_grph (sk_graph sk))" "ok (mg_grph (sk_graph other))"
  shows "alphabet G sk other = (\<lambda>(_, l, _). l) `
    (weighted_arcs G (mg_grph (sk_graph sk)) \<union> weighted_arcs G (mg_grph (sk_graph other)))"
proof -
  have "(\<lambda>(_, _, _, w). w) ` set (edge_references G g) = (\<lambda>(_, l, _). l) ` weighted_arcs G g" if g: "ok g" for g
    using set_edge_references [OF g] by (force simp: weighted_arcs_def image_iff)
  then show ?thesis using assms by (simp add: alphabet_def image_Un)
qed

lemma out_edges_iff:
  assumes g: "ok (mg_grph (sk_graph sk))" and det: "deterministic (weighted_arcs G (mg_grph (sk_graph sk)))"
  shows "out_edges G sk n a = Some t \<longleftrightarrow> (n, a, t) \<in> weighted_arcs G (mg_grph (sk_graph sk))"
proof -
  let ?xs = "map (\<lambda>(_, _, t, w). (w, t)) (edges_directed G (mg_grph (sk_graph sk)) n Outgoing)"
  have mem: "(a, t) \<in> set ?xs \<longleftrightarrow> (n, a, t) \<in> weighted_arcs G (mg_grph (sk_graph sk))" for t
    using set_edges_directed [OF g, of n Outgoing] by (force simp: weighted_arcs_def)
  show ?thesis
  proof
    assume "out_edges G sk n a = Some t"
    then have "(a, t) \<in> set (rev ?xs)" unfolding out_edges_def by (rule map_of_SomeD)
    then show "(n, a, t) \<in> weighted_arcs G (mg_grph (sk_graph sk))" using mem by simp
  next
    assume t: "(n, a, t) \<in> weighted_arcs G (mg_grph (sk_graph sk))"
    show "out_edges G sk n a = Some t"
      unfolding out_edges_def
    proof (rule map_of_rev_single)
      show "(a, t) \<in> set ?xs" using t mem by blast
      show "u = t" if "(a, u) \<in> set ?xs" for u using that mem deterministicD [OF det _ t] by blast
    qed
  qed
qed

lemma construct_dfa_sel:
  assumes sk: "sketch_ok G ok sk e" and A: "finite A"
  shows "\<exists>d r. construct_dfa G sk A incl = Some d \<and> ent_id d = e \<and> finite (edges d)
    \<and> accept_indexes d = {n. pg_node_weight G (mg_grph (sk_graph sk)) n \<noteq> None \<and> (n \<noteq> e \<or> incl)}
    \<and> all_indeces d = insert r (insert e (accept_indexes d)) \<and> r \<notin> accept_indexes d \<and> finite (all_indeces d)
    \<and> (\<forall>n a t. (n, a, t) \<in> edges d \<longleftrightarrow> a \<in> A \<and>
         (pg_node_weight G (mg_grph (sk_graph sk)) n \<noteq> None
            \<and> ((n, a, t) \<in> weighted_arcs G (mg_grph (sk_graph sk))
               \<or> (\<forall>u. (n, a, u) \<notin> weighted_arcs G (mg_grph (sk_graph sk))) \<and> t = r)
          \<or> n = r \<and> t = r))"
proof -
  let ?g = "mg_grph (sk_graph sk)" and ?E = "weighted_arcs G (mg_grph (sk_graph sk))"
  note D = sketch_okD [OF sk]
  have nodes: "set (pg_node_indices G ?g) = {n. pg_node_weight G ?g n \<noteq> None}" using node_indices_laws [OF D(2)] by blast
  define acc where "acc = set (filter (\<lambda>x. x \<noteq> e \<or> incl) (pg_node_indices G ?g))"
  have acc1: "acc = {n. pg_node_weight G ?g n \<noteq> None \<and> (n \<noteq> e \<or> incl)}" using nodes by (auto simp: acc_def)
  have acc2: "finite acc" unfolding acc_def by (rule finite_set)
  note acc = acc1 acc2
  define r where "r = (if acc = {} then 0 else Max acc) + 1"
  have r: "r \<notin> acc"
  proof
    assume "r \<in> acc"
    then have "r \<le> Max acc" using acc(2) by (rule Max_ge [rotated])
    then show False using \<open>r \<in> acc\<close> by (auto simp: r_def split: if_splits)
  qed
  define es where "es = (\<Union>n \<in> set (pg_node_indices G ?g). (\<lambda>a. (n, a, case out_edges G sk n a of Some idx \<Rightarrow> idx | None \<Rightarrow> r)) ` A)
    \<union> (\<lambda>a. (r, a, r)) ` A"
  have def_d: "construct_dfa G sk A incl = Some \<lparr>ent_id = e, edges = es, accept_indexes = acc,
      all_indeces = insert r acc \<union> (if \<not> incl then {e} else {})\<rparr>"
    unfolding construct_dfa_def D(3) option.map Let_def acc_def [symmetric] r_def [symmetric] es_def by (rule refl)
  have all: "insert r acc \<union> (if \<not> incl then {e} else {}) = insert r (insert e acc)" using D(4) acc(1) by auto
  have tgt: "t = (case out_edges G sk n a of Some idx \<Rightarrow> idx | None \<Rightarrow> r)
      \<longleftrightarrow> (n, a, t) \<in> ?E \<or> (\<forall>u. (n, a, u) \<notin> ?E) \<and> t = r" for n a t
  proof (cases "out_edges G sk n a")
    case None
    then have "(n, a, u) \<notin> ?E" for u using out_edges_iff [OF D(2,5), of n a u] by simp
    with None show ?thesis by simp
  next
    case (Some u)
    then have u: "(n, a, u) \<in> ?E" using out_edges_iff [OF D(2,5), of n a u] by simp
    then have "(n, a, t) \<in> ?E \<longleftrightarrow> t = u" using deterministicD [OF D(5) _ u] by blast
    with Some u show ?thesis by auto
  qed
  have "(n, a, t) \<in> es \<longleftrightarrow> a \<in> A \<and> (pg_node_weight G ?g n \<noteq> None
      \<and> t = (case out_edges G sk n a of Some idx \<Rightarrow> idx | None \<Rightarrow> r) \<or> n = r \<and> t = r)" for n a t
    unfolding es_def nodes by blast
  then have es: "(n, a, t) \<in> es \<longleftrightarrow> a \<in> A \<and> (pg_node_weight G ?g n \<noteq> None
      \<and> ((n, a, t) \<in> ?E \<or> (\<forall>u. (n, a, u) \<notin> ?E) \<and> t = r) \<or> n = r \<and> t = r)" for n a t unfolding tgt .
  have fin: "finite es" using A by (simp add: es_def)
  define d where "d = \<lparr>ent_id = e, edges = es, accept_indexes = acc, all_indeces = insert r (insert e acc)\<rparr>"
  have sel: "ent_id d = e" "edges d = es" "accept_indexes d = acc" "all_indeces d = insert r (insert e acc)"
    by (simp_all add: d_def)
  show ?thesis
    unfolding def_d all d_def [symmetric]
  proof (intro exI [of _ d] exI [of _ r] conjI allI)
    show "accept_indexes d = {n. pg_node_weight G ?g n \<noteq> None \<and> (n \<noteq> e \<or> incl)}" unfolding sel by (rule acc1)
  qed (use acc2 r fin in \<open>simp_all only: sel es finite_insert simp_thms not_False_eq_True\<close>)
qed

lemma construct_dfa_spec:
  assumes sk: "sketch_ok G ok sk e" and A: "finite A"
  shows "\<exists>d. construct_dfa G sk A True = Some d \<and> dfa_wf d \<and> complete_over A d
    \<and> (\<forall>w. accepts d w \<longleftrightarrow> set w \<subseteq> A \<and> w \<in> sketch_words G sk e)"
proof -
  let ?g = "mg_grph (sk_graph sk)" and ?E = "weighted_arcs G (mg_grph (sk_graph sk))"
  note D = sketch_okD [OF sk]
  obtain d r where d: "construct_dfa G sk A True = Some d" "ent_id d = e" "finite (edges d)"
    "accept_indexes d = {n. pg_node_weight G ?g n \<noteq> None}"
    "all_indeces d = insert r (insert e (accept_indexes d))" "r \<notin> accept_indexes d" "finite (all_indeces d)"
    and es: "\<And>n a t. (n, a, t) \<in> edges d \<longleftrightarrow> a \<in> A \<and> (pg_node_weight G ?g n \<noteq> None
            \<and> ((n, a, t) \<in> ?E \<or> (\<forall>u. (n, a, u) \<notin> ?E) \<and> t = r) \<or> n = r \<and> t = r)"
    using construct_dfa_sel [OF sk A, of True] by auto
  have tgt: "pg_node_weight G ?g t \<noteq> None" if "(n, a, t) \<in> ?E" for n a t
    using weighted_arcs_nodes [OF D(2) that] by blast
  have r: "pg_node_weight G ?g r = None" using d(4,6) by auto
  have "dfa_wf d"
    unfolding dfa_wf_def
  proof (intro conjI)
    show "deterministic (edges d)"
      unfolding deterministic_def es using deterministicD [OF D(5)] r by metis
    show "\<forall>(q, a, t) \<in> edges d. q \<in> all_indeces d \<and> t \<in> all_indeces d"
      using es tgt d(4,5) by fastforce
  qed (use d(2,3,5,7) in auto)
  moreover have "complete_over A d"
    unfolding complete_over_def
  proof (intro ballI allI)
    fix n a assume "n \<in> all_indeces d"
    then have "n = r \<or> pg_node_weight G ?g n \<noteq> None" using d(4,5) D(4) by blast
    then show "(\<exists>t. (n, a, t) \<in> edges d) \<longleftrightarrow> a \<in> A" unfolding es by metis
  qed
  moreover have "accepts d w \<longleftrightarrow> set w \<subseteq> A \<and> w \<in> sketch_words G sk e" for w
  proof -
    have "(\<exists>q. pg_node_weight G ?g q \<noteq> None \<and> edge_path (edges d) n w q) \<longleftrightarrow> set w \<subseteq> A \<and> (\<exists>q. edge_path ?E n w q)"
      if "pg_node_weight G ?g n \<noteq> None" for n
      using that
    proof (induction w arbitrary: n)
      case (Cons a w)
      have stuck: "\<not> (\<exists>q. pg_node_weight G ?g q \<noteq> None \<and> edge_path (edges d) r w q)"
      proof -
        have "edge_path (edges d) r w q \<Longrightarrow> q = r" for q
        proof (induction w)
          case (Cons b w)
          then obtain p where "(r, b, p) \<in> edges d" "edge_path (edges d) p w q" by auto
          moreover then have "p = r" using es r by auto
          ultimately show ?case using Cons.IH by blast
        qed simp
        then show ?thesis using r by (metis (no_types))
      qed
      have "(\<exists>q. pg_node_weight G ?g q \<noteq> None \<and> edge_path (edges d) n (a # w) q)
          \<longleftrightarrow> (\<exists>p. (n, a, p) \<in> edges d \<and> (\<exists>q. pg_node_weight G ?g q \<noteq> None \<and> edge_path (edges d) p w q))" by auto
      also have "\<dots> \<longleftrightarrow> a \<in> A \<and> (\<exists>p. (n, a, p) \<in> ?E \<and> (\<exists>q. pg_node_weight G ?g q \<noteq> None \<and> edge_path (edges d) p w q))"
        using es [of n a] Cons.prems r stuck by (metis)
      also have "\<dots> \<longleftrightarrow> a \<in> A \<and> (\<exists>p. (n, a, p) \<in> ?E \<and> set w \<subseteq> A \<and> (\<exists>q. edge_path ?E p w q))"
      proof -
        have "(n, a, p) \<in> ?E \<and> (\<exists>q. pg_node_weight G ?g q \<noteq> None \<and> edge_path (edges d) p w q)
            \<longleftrightarrow> (n, a, p) \<in> ?E \<and> set w \<subseteq> A \<and> (\<exists>q. edge_path ?E p w q)" for p
        proof (intro conj_cong refl)
          assume "(n, a, p) \<in> ?E"
          then show "(\<exists>q. pg_node_weight G ?g q \<noteq> None \<and> edge_path (edges d) p w q)
              \<longleftrightarrow> set w \<subseteq> A \<and> (\<exists>q. edge_path ?E p w q)" by (rule Cons.IH [OF tgt])
        qed
        then show ?thesis by simp
      qed
      finally show ?case by auto
    qed auto
    then show ?thesis using D(4) d(2,4) by (auto simp: accepts_def sketch_words_def)
  qed
  ultimately show ?thesis using d(1) by blast
qed

end

section \<open>Comparing sketches\<close>

context graph_search
begin

lemma union_words:
  assumes wf: "dfa_wf l" "dfa_wf r" and c: "complete_over A l" "complete_over A r"
  shows "\<exists>d. union dfs has_node l r = Some d \<and> dfa_wf d \<and> complete_over A d
    \<and> (\<forall>w. accepts d w \<longleftrightarrow> accepts l w \<or> accepts r w)"
proof -
  have "accepts l w \<or> accepts r w \<Longrightarrow> set w \<subseteq> A" for w
    using complete_path_exists [OF wf(1) c(1)] complete_path_exists [OF wf(2) c(2)] dfa_wfD(5) wf
    unfolding accepts_def by blast
  then show ?thesis using product_minimized [OF wf c, of True] by (auto simp: union_def)
qed

lemma intersection_words:
  assumes wf: "dfa_wf l" "dfa_wf r" and c: "complete_over A l" "complete_over A r"
  shows "\<exists>d. intersection dfs has_node l r = Some d \<and> dfa_wf d \<and> complete_over A d
    \<and> (\<forall>w. accepts d w \<longleftrightarrow> accepts l w \<and> accepts r w)"
  using product_minimized [OF assms, of False] by (simp add: intersection_def)

lemma reachable_idxs_finite:
  assumes "finite (edges d)"
  shows "get_reachable_idxs dfs has_node d = {q. (ent_id d, q) \<in> (succ_rel (edges d))\<^sup>*}"
proof -
  have "set (map (\<lambda>(src, _, dst). (src, dst)) (dfa_edges d)) = succ_rel (edges d)"
    using assms by (auto simp: dfa_edges_def succ_rel_def)
  then show ?thesis
    using dfs_reachable no_node_unreachable unfolding get_reachable_idxs_def Let_def entry_def by metis
qed

lemma structurally_equal_spec:
  assumes G: "label_digraph G ok" and sk: "sketch_ok G ok sk e" "sketch_ok G ok other e'"
  shows "is_structurally_equal dfs has_node G sk other = Some (sketch_words G sk e = sketch_words G other e')"
proof -
  let ?A = "alphabet G sk other"
  have fin: "finite ?A" unfolding alphabet_def by (rule finite_set)
  have letters: "set w \<subseteq> ?A" if "w \<in> sketch_words G sk e \<union> sketch_words G other e'" for w
  proof -
    note ag = label_digraph.alphabet_eq [OF G sketch_okD(2) [OF sk(1)] sketch_okD(2) [OF sk(2)]]
    have "set w \<subseteq> (\<lambda>(_, l, _). l) ` weighted_arcs G (mg_grph (sk_graph sk))
        \<or> set w \<subseteq> (\<lambda>(_, l, _). l) ` weighted_arcs G (mg_grph (sk_graph other))"
      using that unfolding sketch_words_def by (elim UnE CollectE exE) (drule edge_path_letters, simp)+
    then show ?thesis unfolding ag image_Un by (rule disjE) (erule le_supI1 | erule le_supI2)+
  qed
  obtain l where l: "construct_dfa G sk ?A True = Some l" "dfa_wf l" "complete_over ?A l"
    "\<forall>w. accepts l w \<longleftrightarrow> set w \<subseteq> ?A \<and> w \<in> sketch_words G sk e"
    using label_digraph.construct_dfa_spec [OF G sk(1) fin] by blast
  obtain r where r: "construct_dfa G other ?A True = Some r" "dfa_wf r" "complete_over ?A r"
    "\<forall>w. accepts r w \<longleftrightarrow> set w \<subseteq> ?A \<and> w \<in> sketch_words G other e'"
    using label_digraph.construct_dfa_spec [OF G sk(2) fin] by blast
  obtain i1 where i1: "intersection dfs has_node l (complement r) = Some i1" "dfa_wf i1" "complete_over ?A i1"
    "\<forall>w. accepts i1 w \<longleftrightarrow> accepts l w \<and> accepts (complement r) w"
    using intersection_words [OF l(2) complement_wf [OF r(2)] l(3) complement_complete [OF r(2,3)]] by blast
  obtain i2 where i2: "intersection dfs has_node (complement l) r = Some i2" "dfa_wf i2" "complete_over ?A i2"
    "\<forall>w. accepts i2 w \<longleftrightarrow> accepts (complement l) w \<and> accepts r w"
    using intersection_words [OF complement_wf [OF l(2)] r(2) complement_complete [OF l(2,3)] r(3)] by blast
  obtain u where u: "union dfs has_node i1 i2 = Some u" "dfa_wf u"
    "\<forall>w. accepts u w \<longleftrightarrow> accepts i1 w \<or> accepts i2 w"
    using union_words [OF i1(2) i2(2) i1(3) i2(3)] by blast
  have "is_empty_language dfs has_node u \<longleftrightarrow> (\<forall>w. \<not> accepts u w)" by (rule is_empty_language_iff [OF u(2)])
  also have "\<dots> \<longleftrightarrow> (\<forall>w. accepts l w \<longleftrightarrow> accepts r w)"
  proof -
    have "accepts u w \<longleftrightarrow> \<not> (accepts l w \<longleftrightarrow> accepts r w)" for w
      using u(3) i1(4) i2(4) complement_accepts [OF l(2,3)] complement_accepts [OF r(2,3)] l(4) r(4) by metis
    then show ?thesis by simp
  qed
  also have "\<dots> \<longleftrightarrow> sketch_words G sk e = sketch_words G other e'"
  proof -
    have "accepts l w \<longleftrightarrow> w \<in> sketch_words G sk e" "accepts r w \<longleftrightarrow> w \<in> sketch_words G other e'" for w
      using l(4) r(4) letters by blast+
    then show ?thesis by (simp add: set_eq_iff)
  qed
  finally show ?thesis
    unfolding is_structurally_equal_def Let_def l(1) r(1) bind_simps i1(1) i2(1) u(1) by simp
qed

lemma empty_or_epsilon_spec:
  assumes G: "label_digraph G ok" and sk: "sketch_ok G ok sk e"
  shows "empty_language_or_epsilon dfs has_node G sk
    = Some (\<forall>n. (e, n) \<in> (arcs G (mg_grph (sk_graph sk)))\<^sup>* \<longrightarrow> n = e)"
proof -
  let ?g = "mg_grph (sk_graph sk)" and ?E = "weighted_arcs G (mg_grph (sk_graph sk))" and ?A = "alphabet G sk sk"
  note D = sketch_okD [OF sk]
  note ag = label_digraph.alphabet_eq [OF G D(2) D(2)]
  have sg: "stable_digraph G ok" using G by (rule label_digraph.axioms)
  obtain d r where d: "construct_dfa G sk ?A False = Some d" "ent_id d = e" "finite (edges d)"
    "accept_indexes d = {n. pg_node_weight G ?g n \<noteq> None \<and> n \<noteq> e}" "r \<notin> accept_indexes d" "finite (all_indeces d)"
    "all_indeces d = insert r (insert e (accept_indexes d))"
    and es: "\<And>n a t. (n, a, t) \<in> edges d \<longleftrightarrow> a \<in> ?A \<and> (pg_node_weight G ?g n \<noteq> None
            \<and> ((n, a, t) \<in> ?E \<or> (\<forall>u. (n, a, u) \<notin> ?E) \<and> t = r) \<or> n = r \<and> t = r)"
    using label_digraph.construct_dfa_sel [OF G sk, of ?A False] unfolding alphabet_def by (auto simp del: set_map)
  have acc: "set (accept_indices d) = accept_indexes d"
    using d(6,7) by (simp add: accept_indices_def)
  have arc: "(a, b) \<in> arcs G ?g \<longleftrightarrow> (a, b) \<in> succ_rel ?E" for a b
    unfolding arcs_weighted succ_rel_iff by (rule refl)
  have node: "pg_node_weight G ?g b \<noteq> None" if "(a, w, b) \<in> ?E" for a w b
    using stable_digraph.weighted_arcs_nodes [OF sg D(2) that] by blast
  have reach: "(e, n) \<in> (succ_rel (edges d))\<^sup>* \<longleftrightarrow> (e, n) \<in> (succ_rel ?E)\<^sup>*" if n: "n \<in> accept_indexes d" for n
  proof
    assume "(e, n) \<in> (succ_rel (edges d))\<^sup>*"
    then have "n = r \<or> pg_node_weight G ?g n \<noteq> None \<and> (e, n) \<in> (succ_rel ?E)\<^sup>*"
    proof (induction rule: rtrancl_induct)
      case (step x y)
      then obtain a where a: "(x, a, y) \<in> edges d" by (auto simp: succ_rel_iff)
      consider "(x, a, y) \<in> ?E" "x \<noteq> r" | "y = r" | "x = r" "(x, a, y) \<in> ?E" "pg_node_weight G ?g r \<noteq> None"
        using a es by blast
      then show ?case
      proof cases
        case 1
        then have "(e, x) \<in> (succ_rel ?E)\<^sup>*" using step.IH by blast
        then show ?thesis using reachable_step [OF _ 1(1)] node [OF 1(1)] by blast
      next
        case 3
        then have "r = e" using d(4,5) by blast
        then show ?thesis using reachable_step [OF rtrancl_refl, of e a y ?E] 3 node [OF 3(2)] by blast
      qed simp
    qed (use D(4) in simp)
    then show "(e, n) \<in> (succ_rel ?E)\<^sup>*" using n d(5) by blast
  next
    assume "(e, n) \<in> (succ_rel ?E)\<^sup>*"
    then show "(e, n) \<in> (succ_rel (edges d))\<^sup>*"
    proof (induction rule: rtrancl_induct)
      case (step x y)
      then obtain a where a: "(x, a, y) \<in> ?E" by (auto simp: succ_rel_iff)
      then have "a \<in> ?A" unfolding ag by force
      moreover have "pg_node_weight G ?g x \<noteq> None" using stable_digraph.weighted_arcs_nodes [OF sg D(2) a] by blast
      ultimately have "(x, a, y) \<in> edges d" unfolding es using a by simp
      then show ?case by (rule reachable_step [OF step.IH])
    qed simp
  qed
  have closed: "pg_node_weight G ?g n \<noteq> None" if "(e, n) \<in> (succ_rel ?E)\<^sup>*" for n
    using that
  proof (cases rule: rtranclE)
    case (step y)
    then obtain a where "(y, a, n) \<in> ?E" unfolding succ_rel_iff by blast
    then show ?thesis by (rule node)
  qed (use D(4) in simp)
  have "is_empty_language dfs has_node d \<longleftrightarrow> (\<forall>n \<in> accept_indexes d. (e, n) \<notin> (succ_rel (edges d))\<^sup>*)"
    unfolding is_empty_language_def reachable_idxs_finite [OF d(3)] d(2) Let_def list_ex_iff acc by blast
  also have "\<dots> \<longleftrightarrow> (\<forall>n \<in> accept_indexes d. (e, n) \<notin> (succ_rel ?E)\<^sup>*)" using reach by blast
  also have "\<dots> \<longleftrightarrow> (\<forall>n. (e, n) \<in> (succ_rel ?E)\<^sup>* \<longrightarrow> n = e)" unfolding d(4) using closed by blast
  finally have "is_empty_language dfs has_node d \<longleftrightarrow> (\<forall>n. (e, n) \<in> (succ_rel ?E)\<^sup>* \<longrightarrow> n = e)" .
  moreover have "arcs G ?g = succ_rel ?E" using arc by (intro set_eqI) (simp only: split_paired_all)
  ultimately show ?thesis by (simp add: empty_language_or_epsilon_def d(1))
qed

end

section \<open>What the comparisons decide\<close>

interpretation list_labels: label_digraph list_digraph lg_ok ..

text \<open>
  C8: comparing two sketches structurally never panics and answers whether the same label
  words lead from their entries, whatever the graphs, their node weights and their names are.
\<close>

theorem is_structurally_equal_iff:
  assumes "graph_search dfs has_node" "label_digraph G ok" "sketch_ok G ok sk e" "sketch_ok G ok other e'"
  shows "is_structurally_equal dfs has_node G sk other = Some (sketch_words G sk e = sketch_words G other e')"
  by (rule graph_search.structurally_equal_spec [OF assms])

text \<open>
  The test for the empty word answers whether the sketch reaches no node but its entry.
  A sketch whose entry only loops to itself passes it, although it has nonempty words.
\<close>

theorem empty_language_or_epsilon_iff:
  assumes "graph_search dfs has_node" "label_digraph G ok" "sketch_ok G ok sk e"
  shows "empty_language_or_epsilon dfs has_node G sk
    = Some (\<forall>n. (e, n) \<in> (arcs G (mg_grph (sk_graph sk)))\<^sup>* \<longrightarrow> n = e)"
  by (rule graph_search.empty_or_epsilon_spec [OF assms])

section \<open>Concrete sketches\<close>

definition load_store_sketch :: "string \<Rightarrow> ((nat, field_label) list_graph, nat, nat) sketch" where
  "load_store_sketch v = \<lparr>sk_graph = load_store_graph, representing = dtv_new (tv_new v), sk_default = 1\<rparr>"

definition loop_sketch :: "((nat, field_label) list_graph, nat, nat) sketch" where
  "loop_sketch = \<lparr>sk_graph = \<lparr>mg_grph = \<lparr>lg_nodes = [(0, 5)], lg_edges = [(0, 0, 0, Load)],
        lg_next_node = 1, lg_next_edge = 1\<rparr>,
      mg_nodes = [dtv_new (tv_new ''x'') \<mapsto> 0], mg_reprs = [0 \<mapsto> {dtv_new (tv_new ''x'')}]\<rparr>,
    representing = dtv_new (tv_new ''x''), sk_default = 1\<rparr>"

lemma load_store_arcs:
  "weighted_arcs list_digraph (mg_grph load_store_graph) = {(0, Load, 2), (1, Store, 3)}"
  by (auto simp: weighted_arcs_def load_store_graph_def list_digraph_sel split: if_splits)

lemma loop_arcs: "weighted_arcs list_digraph (mg_grph (sk_graph loop_sketch)) = {(0, Load, 0)}"
  by (auto simp: weighted_arcs_def loop_sketch_def list_digraph_sel split: if_splits)

lemma load_store_sketch_ok:
  "sketch_ok list_digraph lg_ok (load_store_sketch ''x'') 0"
  "sketch_ok list_digraph lg_ok (load_store_sketch ''y'') 1"
  using load_store_graph_ok
  by (simp_all add: sketch_ok_def load_store_sketch_def load_store_arcs deterministic_def)
    (simp_all add: load_store_graph_def dtv_new_def tv_new_def)

lemma loop_sketch_ok: "sketch_ok list_digraph lg_ok loop_sketch 0"
proof -
  have "mg_ok list_digraph lg_ok (sk_graph loop_sketch)"
  proof (rule mg_okI)
    show "lg_ok (mg_grph (sk_graph loop_sketch))" by (auto simp: loop_sketch_def lg_ok_def split: if_splits)
    show "n \<in> get_group_for_node (sk_graph loop_sketch) i \<longleftrightarrow> mg_nodes (sk_graph loop_sketch) n = Some i" for n i
      by (auto simp: loop_sketch_def get_group_for_node_def dtv_new_def tv_new_def)
  qed (auto simp: loop_sketch_def list_digraph_sel split: if_splits)
  then show ?thesis
    unfolding sketch_ok_def loop_arcs by (simp add: deterministic_def) (simp add: loop_sketch_def)
qed

theorem is_structurally_equal_iff_witness:
  "is_structurally_equal ref_dfs ref_has_node list_digraph (load_store_sketch ''x'') (load_store_sketch ''y'') = Some False"
proof -
  have "edge_path {(0, Load, 2), (1, Store, 3)} 0 [Load] 2" by simp
  then have "[Load] \<in> sketch_words list_digraph (load_store_sketch ''x'') 0"
    unfolding sketch_words_def load_store_sketch_def sketch.simps load_store_arcs by blast
  moreover have "[Load] \<notin> sketch_words list_digraph (load_store_sketch ''y'') 1"
    by (simp add: sketch_words_def load_store_sketch_def load_store_arcs)
  ultimately show ?thesis
    unfolding is_structurally_equal_iff [OF ref_search.graph_search_axioms list_labels.label_digraph_axioms load_store_sketch_ok]
    by (auto simp del: One_nat_def)
qed

theorem empty_language_or_epsilon_iff_witness:
  "empty_language_or_epsilon ref_dfs ref_has_node list_digraph loop_sketch = Some True
    \<and> [Load] \<in> sketch_words list_digraph loop_sketch 0"
proof
  have arcs: "arcs list_digraph (mg_grph (sk_graph loop_sketch)) = {(0, 0)}"
    by (intro set_eqI) (auto simp: arcs_weighted loop_arcs)
  have "n = 0" if "(0, n) \<in> (arcs list_digraph (mg_grph (sk_graph loop_sketch)))\<^sup>*" for n
    using that unfolding arcs by (induction rule: rtrancl_induct) auto
  then show "empty_language_or_epsilon ref_dfs ref_has_node list_digraph loop_sketch = Some True"
    unfolding empty_language_or_epsilon_iff [OF ref_search.graph_search_axioms list_labels.label_digraph_axioms loop_sketch_ok]
    by blast
  have "edge_path {(0, Load, 0)} 0 [Load] 0" by simp
  then show "[Load] \<in> sketch_words list_digraph loop_sketch 0"
    unfolding sketch_words_def loop_arcs by blast
qed

end
