(* ===== verification/GraphCopy.thy ===== *)
theory GraphCopy
  imports MappingGraph HashOrder
begin

text \<open>
  Copying one graph into another, and \<^verbatim>\<open>MappingGraph::replace_node\<close> of
  \<^verbatim>\<open>src/graph_algos/mapping_graph.rs\<close>: the part of a mapping graph that a named node
  reaches is taken out, another mapping graph is put in its place, and the edges that entered the
  old part enter the new one at the node that the same word leads to.
\<close>

section \<open>Copies\<close>

text \<open>
  The graph \<open>g\<close> is \<open>g0\<close> with one new node for every key of \<open>mp\<close>, weighted by \<open>W\<close>.
\<close>

definition copy_of ::
    "('g, 'w, 'e) petgraph \<Rightarrow> ('g \<Rightarrow> bool) \<Rightarrow> 'g \<Rightarrow> ('k \<Rightarrow> 'w option) \<Rightarrow> ('k \<Rightarrow> nat option) \<Rightarrow> 'g \<Rightarrow> bool" where
  "copy_of G ok g0 W mp g \<longleftrightarrow> ok g \<and> inj_on mp (dom mp)
     \<and> (\<forall>x n. mp x = Some n \<longrightarrow> pg_node_weight G g0 n = None \<and> W x \<noteq> None \<and> pg_node_weight G g n = W x)
     \<and> (\<forall>n. n \<notin> ran mp \<longrightarrow> pg_node_weight G g n = pg_node_weight G g0 n)
     \<and> pg_edge G g = pg_edge G g0"

lemma copy_ofD:
  assumes "copy_of G ok g0 W mp g"
  shows "ok g" "inj_on mp (dom mp)" "mp x = Some n \<Longrightarrow> pg_node_weight G g0 n = None"
    "mp x = Some n \<Longrightarrow> W x \<noteq> None" "mp x = Some n \<Longrightarrow> pg_node_weight G g n = W x"
    "n \<notin> ran mp \<Longrightarrow> pg_node_weight G g n = pg_node_weight G g0 n" "pg_edge G g = pg_edge G g0"
  using assms unfolding copy_of_def by blast+

lemma copy_of_weights:
  assumes "copy_of G ok g0 W mp g"
  shows "pg_node_weight G g n \<noteq> None \<longleftrightarrow> pg_node_weight G g0 n \<noteq> None \<or> n \<in> ran mp"
proof (cases "n \<in> ran mp")
  case True
  then obtain x where x: "mp x = Some n" by (auto simp: ran_def)
  then show ?thesis using copy_ofD(4,5) [OF assms x] True by simp
next
  case False
  then show ?thesis using copy_ofD(6) [OF assms False] by simp
qed

lemma inj_on_map_eq: "inj_on mp (dom mp) \<Longrightarrow> mp a = Some n \<Longrightarrow> mp b = Some n \<Longrightarrow> a = b"
  by (rule inj_onD [of mp "dom mp"]) auto

context stable_digraph
begin

lemma copy_of_start: "ok g0 \<Longrightarrow> copy_of G ok g0 W Map.empty g0"
  by (simp add: copy_of_def)

lemma copy_of_step:
  assumes c: "copy_of G ok g0 W mp g" and x: "mp x = None" "W x = Some w"
    and add: "pg_add_node G w g = (n, g')"
  shows "copy_of G ok g0 W (mp(x \<mapsto> n)) g'"
proof -
  note C = copy_ofD [OF c]
  have A: "ok g'" "pg_node_weight G g n = None" "pg_node_weight G g' = (pg_node_weight G g)(n \<mapsto> w)"
    "pg_edge G g' = pg_edge G g"
    using add_node_laws [OF C(1) add] by simp_all
  have fresh: "mp y \<noteq> Some n" for y using C(4,5) [of y n] A(2) by auto
  have ran: "ran (mp(x \<mapsto> n)) = insert n (ran mp)" using x(1) by (rule ran_map_upd)
  show ?thesis
    unfolding copy_of_def
  proof (intro conjI allI impI)
    show "inj_on (mp(x \<mapsto> n)) (dom (mp(x \<mapsto> n)))"
    proof (rule inj_onI)
      fix a b assume ab: "a \<in> dom (mp(x \<mapsto> n))" "b \<in> dom (mp(x \<mapsto> n))" "(mp(x \<mapsto> n)) a = (mp(x \<mapsto> n)) b"
      then have "a = x \<longleftrightarrow> b = x" using fresh by (metis fun_upd_apply)
      then show "a = b" using ab inj_onD [OF C(2)] by (cases "a = x") auto
    qed
    fix y k assume "(mp(x \<mapsto> n)) y = Some k"
    then consider "y = x" "k = n" | "y \<noteq> x" "mp y = Some k" "k \<noteq> n" using fresh by (auto split: if_splits)
    note yk = this
    show "pg_node_weight G g0 k = None"
      using yk
    proof cases
      case 1
      have "n \<notin> ran mp" using fresh by (auto simp: ran_def)
      then show ?thesis using 1 C(6) A(2) by simp
    qed (use C(3) in blast)
    show "W y \<noteq> None" using yk C(4) x(2) by cases auto
    show "pg_node_weight G g' k = W y" using yk C(5) x(2) by cases (auto simp: A(3))
  qed (use A C(6,7) ran in auto)
qed

text \<open>Adding edges to a graph, without regard to parallel ones.\<close>

lemma add_arcs_loop:
  "ok g \<Longrightarrow> \<forall>(a, w, b) \<in> set es. pg_node_weight G g a \<noteq> None \<and> pg_node_weight G g b \<noteq> None \<Longrightarrow>
   \<exists>g'. fold_opt (\<lambda>(a, w, b) g. map_option snd (pg_add_edge G a b w g)) es g = Some g' \<and> ok g'
     \<and> pg_node_weight G g' = pg_node_weight G g \<and> weighted_arcs G g' = weighted_arcs G g \<union> set es"
proof (induction es arbitrary: g)
  case (Cons e es)
  obtain a w b where e: "e = (a, w, b)" by (cases e)
  have "pg_node_weight G g a \<noteq> None" "pg_node_weight G g b \<noteq> None" using Cons.prems(2) e by auto
  then obtain i g1 where add: "pg_add_edge G a b w g = Some (i, g1)"
    using add_edge_None [OF Cons.prems(1), of a b w] by (cases "pg_add_edge G a b w g") auto
  have g1: "ok g1" "pg_node_weight G g1 = pg_node_weight G g"
    using add_edge_laws [OF Cons.prems(1) add] by simp_all
  have "\<exists>g'. fold_opt (\<lambda>(a, w, b) g. map_option snd (pg_add_edge G a b w g)) es g1 = Some g' \<and> ok g'
     \<and> pg_node_weight G g' = pg_node_weight G g1 \<and> weighted_arcs G g' = weighted_arcs G g1 \<union> set es"
    by (rule Cons.IH [OF g1(1)]) (use Cons.prems(2) g1(2) in auto)
  then show ?case using add g1(2) weighted_arcs_add [OF Cons.prems(1) add] by (auto simp: e)
qed auto

end

section \<open>Copying a graph\<close>

definition copy_node ::
    "('g, 'w, 'e) petgraph \<Rightarrow> 'g \<Rightarrow> nat \<Rightarrow> (nat \<Rightarrow> nat option) \<times> 'g \<Rightarrow> (nat \<times> (nat \<Rightarrow> nat option) \<times> 'g) option" where
  "copy_node G rg target st =
     (case st of (mp, g) \<Rightarrow>
        (case mp target of
           Some x \<Rightarrow> Some (x, mp, g)
         | None \<Rightarrow> do { w \<leftarrow> pg_node_weight G rg target;
                      let (n, g') = pg_add_node G w g in Some (n, mp(target \<mapsto> n), g') }))"

definition copy_out_edge ::
    "('g, 'w, 'e) petgraph \<Rightarrow> 'g \<Rightarrow> nat \<Rightarrow> 'e edge_ref \<Rightarrow>
     (nat \<times> 'e \<times> nat) list \<times> (nat \<Rightarrow> nat option) \<times> 'g \<Rightarrow> ((nat \<times> 'e \<times> nat) list \<times> (nat \<Rightarrow> nat option) \<times> 'g) option" where
  "copy_out_edge G rg src e st =
     (case (e, st) of ((_, _, target, w), (tot, st')) \<Rightarrow>
        map_option (\<lambda>(dst, st''). (tot @ [(src, w, dst)], st'')) (copy_node G rg target st'))"

definition copy_with_edges ::
    "('g, 'w, 'e) petgraph \<Rightarrow> 'g \<Rightarrow> nat \<Rightarrow>
     (nat \<times> 'e \<times> nat) list \<times> (nat \<Rightarrow> nat option) \<times> 'g \<Rightarrow> ((nat \<times> 'e \<times> nat) list \<times> (nat \<Rightarrow> nat option) \<times> 'g) option" where
  "copy_with_edges G rg nd st =
     (case st of (es, st') \<Rightarrow>
        do { (src, st1) \<leftarrow> copy_node G rg nd st';
             (tot, st2) \<leftarrow> fold_opt (copy_out_edge G rg src) (edges_directed G rg nd Outgoing) ([], st1);
             Some (es @ tot, st2) })"

definition copy_subgraph ::
    "('g, 'w, 'e) petgraph \<Rightarrow> 'g \<Rightarrow> 'g \<Rightarrow> ((nat \<Rightarrow> nat option) \<times> 'g) option" where
  "copy_subgraph G rg g =
     do { (es, mp, g1) \<leftarrow> fold_opt (copy_with_edges G rg) (pg_node_indices G rg) ([], Map.empty, g);
          g2 \<leftarrow> fold_opt (\<lambda>(src, wt, dst) g. map_option snd (pg_add_edge G src dst wt g)) es g1;
          Some (mp, g2) }"

text \<open>The edges of some nodes, as the copies of their ends.\<close>

definition copied_edges :: "('g, 'w, 'e) petgraph \<Rightarrow> 'g \<Rightarrow> (nat \<Rightarrow> nat option) \<Rightarrow> nat \<Rightarrow> (nat \<times> 'e \<times> nat) list" where
  "copied_edges G rg mp nd = map (\<lambda>(_, _, t, w). (the (mp nd), w, the (mp t))) (edges_directed G rg nd Outgoing)"

lemma map_le_the: "mp \<subseteq>\<^sub>m mp' \<Longrightarrow> x \<in> dom mp \<Longrightarrow> mp' x = mp x"
  by (auto simp: map_le_def)

context stable_digraph
begin

lemma copy_node_spec:
  assumes c: "copy_of G ok g0 (pg_node_weight G rg) mp g" and x: "pg_node_weight G rg x \<noteq> None"
  shows "\<exists>mp' g'. copy_node G rg x (mp, g) = Some (the (mp' x), mp', g') \<and> mp \<subseteq>\<^sub>m mp'
    \<and> copy_of G ok g0 (pg_node_weight G rg) mp' g' \<and> dom mp' = insert x (dom mp)"
proof (cases "mp x")
  case None
  obtain w where w: "pg_node_weight G rg x = Some w" using x by blast
  obtain n g' where add: "pg_add_node G w g = (n, g')" by force
  have "mp \<subseteq>\<^sub>m mp(x \<mapsto> n)" using None by (auto simp: map_le_def)
  with None w add copy_of_step [OF c None w add] show ?thesis
    by (intro exI [of _ "mp(x \<mapsto> n)"] exI [of _ g']) (simp add: copy_node_def)
next
  case (Some n)
  then show ?thesis using c by (intro exI [of _ mp] exI [of _ g]) (auto simp: copy_node_def)
qed

lemma copy_out_edges_spec:
  "copy_of G ok g0 (pg_node_weight G rg) mp g \<Longrightarrow>
   \<forall>(i, a, t, w) \<in> set es. pg_node_weight G rg t \<noteq> None \<Longrightarrow>
   \<exists>mp' g'. fold_opt (copy_out_edge G rg src) es (tot, mp, g)
       = Some (tot @ map (\<lambda>(_, _, t, w). (src, w, the (mp' t))) es, mp', g')
     \<and> mp \<subseteq>\<^sub>m mp' \<and> copy_of G ok g0 (pg_node_weight G rg) mp' g'
     \<and> dom mp' = dom mp \<union> (\<lambda>(_, _, t, _). t) ` set es"
proof (induction es arbitrary: tot mp g)
  case Nil
  then show ?case by (intro exI [of _ mp] exI [of _ g]) simp
next
  case (Cons e es)
  obtain i a t w where e: "e = (i, a, t, w)" by (cases e)
  have t: "pg_node_weight G rg t \<noteq> None" using Cons.prems(2) e by auto
  obtain mp1 g1 where 1: "copy_node G rg t (mp, g) = Some (the (mp1 t), mp1, g1)" "mp \<subseteq>\<^sub>m mp1"
    "copy_of G ok g0 (pg_node_weight G rg) mp1 g1" "dom mp1 = insert t (dom mp)"
    using copy_node_spec [OF Cons.prems(1) t] by blast
  have "\<exists>mp' g'. fold_opt (copy_out_edge G rg src) es (tot @ [(src, w, the (mp1 t))], mp1, g1)
       = Some ((tot @ [(src, w, the (mp1 t))]) @ map (\<lambda>(_, _, t, w). (src, w, the (mp' t))) es, mp', g')
     \<and> mp1 \<subseteq>\<^sub>m mp' \<and> copy_of G ok g0 (pg_node_weight G rg) mp' g'
     \<and> dom mp' = dom mp1 \<union> (\<lambda>(_, _, t, _). t) ` set es"
    by (rule Cons.IH [OF 1(3)]) (use Cons.prems(2) in auto)
  then obtain mp' g' where 2: "fold_opt (copy_out_edge G rg src) es (tot @ [(src, w, the (mp1 t))], mp1, g1)
       = Some ((tot @ [(src, w, the (mp1 t))]) @ map (\<lambda>(_, _, t, w). (src, w, the (mp' t))) es, mp', g')"
    "mp1 \<subseteq>\<^sub>m mp'" "copy_of G ok g0 (pg_node_weight G rg) mp' g'"
    "dom mp' = dom mp1 \<union> (\<lambda>(_, _, t, _). t) ` set es" by blast
  have "mp' t = mp1 t" by (rule map_le_the [OF 2(2)]) (simp add: 1(4))
  then have "fold_opt (copy_out_edge G rg src) (e # es) (tot, mp, g)
      = Some (tot @ map (\<lambda>(_, _, t, w). (src, w, the (mp' t))) (e # es), mp', g')"
    using 1(1) 2(1) by (simp add: copy_out_edge_def e)
  moreover have "mp \<subseteq>\<^sub>m mp'" using 1(2) 2(2) by (rule map_le_trans)
  moreover have "dom mp' = dom mp \<union> (\<lambda>(_, _, t, _). t) ` set (e # es)" using 1(4) 2(4) by (auto simp: e)
  ultimately show ?case using 2(3) by blast
qed

lemma copy_nodes_spec:
  assumes rg: "ok rg"
  shows "copy_of G ok g0 (pg_node_weight G rg) mp g \<Longrightarrow> \<forall>nd \<in> set nds. pg_node_weight G rg nd \<noteq> None \<Longrightarrow>
   \<exists>mp' g'. fold_opt (copy_with_edges G rg) nds (es, mp, g)
       = Some (es @ concat (map (copied_edges G rg mp') nds), mp', g')
     \<and> mp \<subseteq>\<^sub>m mp' \<and> copy_of G ok g0 (pg_node_weight G rg) mp' g'
     \<and> dom mp' = dom mp \<union> set nds \<union> {b. \<exists>a \<in> set nds. (a, b) \<in> arcs G rg}"
proof (induction nds arbitrary: es mp g)
  case Nil
  then show ?case by (intro exI [of _ mp] exI [of _ g]) simp
next
  case (Cons nd nds)
  have nd: "pg_node_weight G rg nd \<noteq> None" using Cons.prems(2) by simp
  obtain mp1 g1 where 1: "copy_node G rg nd (mp, g) = Some (the (mp1 nd), mp1, g1)" "mp \<subseteq>\<^sub>m mp1"
    "copy_of G ok g0 (pg_node_weight G rg) mp1 g1" "dom mp1 = insert nd (dom mp)"
    using copy_node_spec [OF Cons.prems(1) nd] by blast
  let ?out = "edges_directed G rg nd Outgoing"
  have out: "(i, a, t, w) \<in> set ?out \<longleftrightarrow> pg_edge G rg i = Some (a, t, w) \<and> a = nd" for i a t w
    using set_edges_directed [OF rg, of nd Outgoing] by auto
  have tgt: "\<forall>(i, a, t, w) \<in> set ?out. pg_node_weight G rg t \<noteq> None"
    using out edge_ends [OF rg] by blast
  obtain mp2 g2 where 2: "fold_opt (copy_out_edge G rg (the (mp1 nd))) ?out ([], mp1, g1)
       = Some ([] @ map (\<lambda>(_, _, t, w). (the (mp1 nd), w, the (mp2 t))) ?out, mp2, g2)"
    "mp1 \<subseteq>\<^sub>m mp2" "copy_of G ok g0 (pg_node_weight G rg) mp2 g2"
    "dom mp2 = dom mp1 \<union> (\<lambda>(_, _, t, _). t) ` set ?out"
    using copy_out_edges_spec [where src = "the (mp1 nd)" and tot = "[]", OF 1(3) tgt] by blast
  have nd12: "mp2 nd = mp1 nd" by (rule map_le_the [OF 2(2)]) (simp add: 1(4))
  have step: "copy_with_edges G rg nd (es, mp, g) = Some (es @ copied_edges G rg mp2 nd, mp2, g2)"
    using 1(1) 2(1) by (simp add: copy_with_edges_def copied_edges_def nd12)
  obtain mp' g' where 3: "fold_opt (copy_with_edges G rg) nds (es @ copied_edges G rg mp2 nd, mp2, g2)
       = Some ((es @ copied_edges G rg mp2 nd) @ concat (map (copied_edges G rg mp') nds), mp', g')"
    "mp2 \<subseteq>\<^sub>m mp'" "copy_of G ok g0 (pg_node_weight G rg) mp' g'"
    "dom mp' = dom mp2 \<union> set nds \<union> {b. \<exists>a \<in> set nds. (a, b) \<in> arcs G rg}"
    using Cons.IH [OF 2(3), of "es @ copied_edges G rg mp2 nd"] Cons.prems(2) by auto
  have "mp' t = mp2 t" if "(i, a, t, w) \<in> set ?out" for i a t w
  proof (rule map_le_the [OF 3(2)])
    have "t \<in> (\<lambda>(_, _, t, _). t) ` set ?out" using that by (intro image_eqI [of _ _ "(i, a, t, w)"]) simp_all
    then show "t \<in> dom mp2" unfolding 2(4) by blast
  qed
  moreover have "mp' nd = mp2 nd" by (rule map_le_the [OF 3(2)]) (simp add: 2(4) 1(4))
  ultimately have "copied_edges G rg mp' nd = copied_edges G rg mp2 nd"
    unfolding copied_edges_def by (intro map_cong refl) auto
  moreover have "mp \<subseteq>\<^sub>m mp'" using map_le_trans [OF map_le_trans [OF 1(2) 2(2)] 3(2)] .
  moreover have "(\<lambda>(_, _, t, _). t) ` set ?out = {b. (nd, b) \<in> arcs G rg}"
    using out by (force simp: arcs_def)
  then have "dom mp' = dom mp \<union> set (nd # nds) \<union> {b. \<exists>a \<in> set (nd # nds). (a, b) \<in> arcs G rg}"
    unfolding 3(4) 2(4) 1(4) by auto
  ultimately show ?case using step 3(1,3) by (intro exI [of _ mp'] exI [of _ g']) simp
qed

lemma copy_subgraph_spec:
  assumes g: "ok g" and rg: "ok rg"
  shows "\<exists>mp g'. copy_subgraph G rg g = Some (mp, g') \<and> ok g' \<and> inj_on mp (dom mp)
    \<and> dom mp = {n. pg_node_weight G rg n \<noteq> None}
    \<and> (\<forall>x n. mp x = Some n \<longrightarrow> pg_node_weight G g n = None \<and> pg_node_weight G g' n = pg_node_weight G rg x)
    \<and> (\<forall>n. n \<notin> ran mp \<longrightarrow> pg_node_weight G g' n = pg_node_weight G g n)
    \<and> weighted_arcs G g' = weighted_arcs G g
        \<union> {(x, w, y). \<exists>a b. (a, w, b) \<in> weighted_arcs G rg \<and> mp a = Some x \<and> mp b = Some y}"
proof -
  note idx = node_indices_laws [OF rg]
  obtain mp g1 where 1: "fold_opt (copy_with_edges G rg) (pg_node_indices G rg) ([], Map.empty, g)
       = Some ([] @ concat (map (copied_edges G rg mp) (pg_node_indices G rg)), mp, g1)"
    "copy_of G ok g (pg_node_weight G rg) mp g1"
    "dom mp = dom Map.empty \<union> set (pg_node_indices G rg) \<union> {b. \<exists>a \<in> set (pg_node_indices G rg). (a, b) \<in> arcs G rg}"
    using copy_nodes_spec [OF rg copy_of_start [OF g], of "pg_node_indices G rg" "[]"] idx by blast
  have ends: "pg_node_weight G rg a \<noteq> None \<and> pg_node_weight G rg b \<noteq> None" if "(a, b) \<in> arcs G rg" for a b
    using that edge_ends [OF rg] by (force simp: arcs_def)
  have dom: "dom mp = {n. pg_node_weight G rg n \<noteq> None}" unfolding 1(3) using idx ends by auto
  note C = copy_ofD [OF 1(2)]
  let ?es = "concat (map (copied_edges G rg mp) (pg_node_indices G rg))"
  have es: "(x, w, y) \<in> set ?es \<longleftrightarrow> (\<exists>a b. (a, w, b) \<in> weighted_arcs G rg \<and> mp a = Some x \<and> mp b = Some y)" for x w y
  proof -
    have "(x, w, y) \<in> set ?es \<longleftrightarrow> (\<exists>a i c b. pg_node_weight G rg a \<noteq> None \<and> (i, c, b, w) \<in> set (edges_directed G rg a Outgoing)
        \<and> x = the (mp a) \<and> y = the (mp b))"
      using idx by (force simp: copied_edges_def)
    also have "\<dots> \<longleftrightarrow> (\<exists>a b. (a, w, b) \<in> weighted_arcs G rg \<and> x = the (mp a) \<and> y = the (mp b))"
      using set_edges_directed [OF rg] edge_ends [OF rg] by (fastforce simp: weighted_arcs_def)
    also have "\<dots> \<longleftrightarrow> (\<exists>a b. (a, w, b) \<in> weighted_arcs G rg \<and> mp a = Some x \<and> mp b = Some y)"
    proof -
      have "mp a \<noteq> None \<and> mp b \<noteq> None" if "(a, w, b) \<in> weighted_arcs G rg" for a b
        using weighted_arcs_nodes [OF rg that] dom by blast
      then show ?thesis by (metis option.collapse option.sel)
    qed
    finally show ?thesis .
  qed
  have nodes: "\<forall>(x, w, y) \<in> set ?es. pg_node_weight G g1 x \<noteq> None \<and> pg_node_weight G g1 y \<noteq> None"
  proof (intro ballI, clarify)
    fix x w y assume "(x, w, y) \<in> set ?es"
    then obtain a b where "mp a = Some x" "mp b = Some y" unfolding es by blast
    then show "pg_node_weight G g1 x \<noteq> None \<and> pg_node_weight G g1 y \<noteq> None" using C(4,5) by metis
  qed
  obtain g' where 2: "fold_opt (\<lambda>(src, wt, dst) g. map_option snd (pg_add_edge G src dst wt g)) ?es g1 = Some g'" "ok g'"
    "pg_node_weight G g' = pg_node_weight G g1" "weighted_arcs G g' = weighted_arcs G g1 \<union> set ?es"
    using add_arcs_loop [OF C(1) nodes] by (elim exE conjE) (rule that)
  have "weighted_arcs G g1 = weighted_arcs G g" by (simp add: weighted_arcs_def C(7))
  moreover have "copy_subgraph G rg g = Some (mp, g')" using 1(1) 2(1) by (simp add: copy_subgraph_def)
  moreover have "set ?es = {(x, w, y). \<exists>a b. (a, w, b) \<in> weighted_arcs G rg \<and> mp a = Some x \<and> mp b = Some y}"
    using es by blast
  ultimately show ?thesis
    using 2(2,3,4) C(2,3,5,6) dom by (intro exI [of _ mp] exI [of _ g']) simp
qed

end

section \<open>Replacing a node\<close>

text \<open>The edges that enter the old part, with the word of the path to the node they enter.\<close>

definition outside_edges ::
    "('g, 'w, 'e) petgraph \<Rightarrow> 'g \<Rightarrow> nat set \<Rightarrow> (nat list \<times> nat) list \<Rightarrow> ('e \<times> nat \<times> 'e list) list option" where
  "outside_edges G g nodes paths =
     map_option concat (traverse (\<lambda>(pth, reached_id).
         map_option concat (traverse (\<lambda>(_, src, _, w).
             if src \<in> nodes then Some []
             else map_option (\<lambda>ws. [(w, src, ws)]) (traverse (edge_weight G g) pth))
           (edges_directed G g reached_id Incoming))) paths)"

text \<open>
  The names in the old part, with the node of the new graph that their word leads to, collected
  into a \<^verbatim>\<open>BTreeMap\<close>: the last entry of a key counts, and the keys come in order.
\<close>

definition btree_entries :: "('k::linorder \<times> 'v) list \<Rightarrow> ('k \<times> 'v) list" where
  "btree_entries xs = map (\<lambda>k. (k, the (map_of (rev xs) k))) (sorted_list_of_set (fst ` set xs))"

definition old_labels ::
    "('g, 'w, 'e) petgraph \<Rightarrow> ('n::linorder) \<Rightarrow> ('g, 'n) mapping_graph \<Rightarrow> ('g, 'n) mapping_graph \<Rightarrow>
     (nat list \<times> nat) list \<Rightarrow> ('n \<times> nat) list option" where
  "old_labels G key rg m paths =
     map_option (\<lambda>ls. btree_entries (concat ls)) (traverse (\<lambda>(pth, ndidx).
         do { ws \<leftarrow> traverse (edge_weight G (mg_grph m)) pth;
              map_option concat (traverse (\<lambda>dtv.
                  do { root \<leftarrow> mg_get_node rg key;
                       Some (case find_node (pg_out G (mg_grph rg)) root ws of
                           Some tgt_nd \<Rightarrow> [(dtv, tgt_nd)] | None \<Rightarrow> []) })
                (sorted_list_of_set (get_group_for_node m ndidx))) }) paths)"

definition new_names ::
    "('g, 'n) mapping_graph \<Rightarrow> (nat \<Rightarrow> nat option) \<Rightarrow> nat \<Rightarrow> ('n::linorder \<Rightarrow> nat option) \<Rightarrow> ('n \<Rightarrow> nat option)" where
  "new_names rg mp old_idx labeling =
     (\<lambda>n. if n \<in> get_group_for_node rg old_idx then mp old_idx else labeling n)"

definition connect_edge ::
    "('g, 'w, 'e) petgraph \<Rightarrow> 'n \<Rightarrow> ('g, 'n) mapping_graph \<Rightarrow> (nat \<Rightarrow> nat option) \<Rightarrow> 'e \<times> nat \<times> 'e list \<Rightarrow>
     'g \<Rightarrow> 'g option" where
  "connect_edge G key rg mp e g =
     (case e of (wt, src_node, pth) \<Rightarrow>
        do { root \<leftarrow> mg_get_node rg key;
             (case find_node (pg_out G (mg_grph rg)) root pth of
                None \<Rightarrow> Some g
              | Some old_idx \<Rightarrow>
                  do { new_idx \<leftarrow> mp old_idx;
                       if src_node = new_idx then None
                       else map_option snd (pg_add_edge G src_node new_idx wt g) }) })"

definition add_old_label :: "(nat \<Rightarrow> nat option) \<Rightarrow> 'n \<times> nat \<Rightarrow> ('n \<Rightarrow> nat option) \<Rightarrow> ('n \<Rightarrow> nat option)" where
  "add_old_label mp e labeling =
     (case e of (lab, old_idx) \<Rightarrow>
        (case mp old_idx of
           Some new_idx \<Rightarrow> (if labeling lab = None then labeling(lab \<mapsto> new_idx) else labeling)
         | None \<Rightarrow> labeling))"

definition replace_node ::
    "(nat set \<Rightarrow> nat list) \<Rightarrow> ('g, 'w, 'e) petgraph \<Rightarrow> ('n::linorder) \<Rightarrow> ('g, 'n) mapping_graph \<Rightarrow>
     ('g, 'n) mapping_graph \<Rightarrow> ('g, 'n) mapping_graph option" where
  "replace_node vord G key rg m =
     do { orig_var_idx \<leftarrow> mg_get_node m key;
          let nodes = mg_reachable_idxs G m orig_var_idx
          in do { paths \<leftarrow> explore_paths (pg_out G (mg_grph m)) orig_var_idx;
                  outside \<leftarrow> outside_edges G (mg_grph m) nodes paths;
                  labels \<leftarrow> old_labels G key rg m paths;
                  let m1 = foldl (\<lambda>m nd. snd (mg_remove_node_by_idx G nd m)) m (sorted_list_of_set nodes)
                  in do { (mp, g2) \<leftarrow> copy_subgraph G (mg_grph rg) (mg_grph m1);
                          let olds = vord (dom mp)
                          in if olds = [] then None
                             else if list_ex (\<lambda>old_idx. \<exists>n \<in> get_group_for_node rg old_idx. mg_nodes m1 n \<noteq> None) olds then None
                             else let labeling = fold (add_old_label mp) labels (fold (new_names rg mp) olds (mg_nodes m1));
                                      m2 = inplace_relable_representative_nodes labeling (m1\<lparr>mg_grph := g2\<rparr>)
                                  in map_option (\<lambda>g. m2\<lparr>mg_grph := g\<rparr>) (fold_opt (connect_edge G key rg mp) outside (mg_grph m2)) } } }"

section \<open>What the replacement does\<close>

text \<open>The names after the copy: those of the replacement first, then the ones outside, then the old ones.\<close>

definition replaced_names ::
    "('n \<Rightarrow> nat option) \<Rightarrow> ('n \<Rightarrow> nat option) \<Rightarrow> nat set \<Rightarrow> (nat \<Rightarrow> nat option) \<Rightarrow> (nat \<Rightarrow> nat option) \<Rightarrow> 'n \<Rightarrow> nat option" where
  "replaced_names new old R at mp n =
     (case new n of
        Some i \<Rightarrow> mp i
      | None \<Rightarrow> (case old n of
            Some b \<Rightarrow> if b \<in> R then Option.bind (at b) mp else Some b
          | None \<Rightarrow> None))"

lemma btree_entries_set:
  assumes "\<forall>k a b. (k, a) \<in> set xs \<longrightarrow> (k, b) \<in> set xs \<longrightarrow> a = b"
  shows "set (btree_entries xs) = set xs \<and> distinct (map fst (btree_entries xs))"
proof
  have one: "map_of (rev xs) k = Some a" if "(k, a) \<in> set xs" for k a
  proof -
    have "k \<in> fst ` set (rev xs)" using that by force
    then obtain b where b: "map_of (rev xs) k = Some b" by (metis map_of_eq_None_iff option.exhaust)
    then show ?thesis using assms that map_of_SomeD [OF b] by auto
  qed
  show "set (btree_entries xs) = set xs"
    unfolding btree_entries_def using one by (force intro!: image_eqI)
  show "distinct (map fst (btree_entries xs))"
    unfolding btree_entries_def by (simp add: comp_def)
qed

context stable_digraph
begin

lemma path_weights:
  assumes g: "ok g"
  shows "edge_path (out_rel (pg_out G g)) s p n \<Longrightarrow>
    \<exists>ws. traverse (edge_weight G g) p = Some ws \<and> edge_path (weighted_arcs G g) s ws n"
proof (induction p arbitrary: s)
  case (Cons i p)
  then obtain t where t: "(s, i, t) \<in> out_rel (pg_out G g)" "edge_path (out_rel (pg_out G g)) t p n" by auto
  obtain w where w: "pg_edge G g i = Some (s, t, w)" using t(1) pg_out_rel [OF g] by blast
  obtain ws where ws: "traverse (edge_weight G g) p = Some ws" "edge_path (weighted_arcs G g) t ws n"
    using Cons.IH [OF t(2)] by blast
  have "(s, w, t) \<in> weighted_arcs G g" using w by (auto simp: weighted_arcs_def)
  moreover have "edge_weight G g i = Some w" by (simp add: edge_weight_def w)
  ultimately show ?case using ws by (intro exI [of _ "w # ws"]) auto
qed simp

text \<open>The explored paths as words: one for each node that is reached.\<close>

lemma explored_words:
  assumes g: "ok g"
  shows "\<exists>paths wd. explore_paths (pg_out G g) s = Some paths \<and> set (map snd paths) = (arcs G g)\<^sup>* `` {s}
    \<and> (\<forall>(p, n) \<in> set paths. traverse (edge_weight G g) p = Some (wd n) \<and> edge_path (weighted_arcs G g) s (wd n) n)"
proof -
  obtain paths where p: "explore_paths (pg_out G g) s = Some paths" "distinct (map snd paths)"
    "set (map snd paths) = {n. \<exists>p. edge_path (out_rel (pg_out G g)) s p n}"
    "\<forall>(p, n) \<in> set paths. edge_path (out_rel (pg_out G g)) s p n"
    using explore_paths_spec [OF pg_out_wf [OF g], of s] by blast
  define wd where "wd n = the (traverse (edge_weight G g) (the (map_of (map (\<lambda>(p, n). (n, p)) paths) n)))" for n
  have "traverse (edge_weight G g) p = Some (wd n) \<and> edge_path (weighted_arcs G g) s (wd n) n" if pn: "(p, n) \<in> set paths" for p n
  proof -
    have dist: "distinct (map fst (map (\<lambda>(p, n). (n, p)) paths))" using p(2) by (simp add: comp_def case_prod_unfold)
    have "(n, p) \<in> set (map (\<lambda>(p, n). (n, p)) paths)" using pn by force
    then have "map_of (map (\<lambda>(p, n). (n, p)) paths) n = Some p" by (rule map_of_is_SomeI [OF dist])
    moreover obtain ws where "traverse (edge_weight G g) p = Some ws" "edge_path (weighted_arcs G g) s ws n"
      using path_weights [OF g] p(4) pn by blast
    ultimately show ?thesis by (simp add: wd_def)
  qed
  moreover have "set (map snd paths) = (arcs G g)\<^sup>* `` {s}"
  proof -
    have "(a, b) \<in> succ_rel (out_rel (pg_out G g)) \<longleftrightarrow> (a, b) \<in> arcs G g" for a b
      unfolding succ_rel_iff pg_out_rel [OF g] arcs_def by blast
    then have "succ_rel (out_rel (pg_out G g)) = arcs G g" by (intro set_eqI) (simp only: split_paired_all)
    then show ?thesis unfolding p(3) using reachable_iff_path [of s _ "out_rel (pg_out G g)"] by auto
  qed
  ultimately show ?thesis using p(1) by blast
qed

lemma outside_edges_spec:
  assumes g: "ok g" and paths: "\<forall>(p, n) \<in> set paths. traverse (edge_weight G g) p = Some (wd n)"
  shows "\<exists>out. outside_edges G g R paths = Some out
    \<and> set out = {(w, a, wd b) | w a b. (a, w, b) \<in> weighted_arcs G g \<and> a \<notin> R \<and> b \<in> set (map snd paths)}"
proof -
  let ?in = "\<lambda>b. edges_directed G g b Incoming"
  let ?h = "\<lambda>(p :: nat list, b). concat (map (\<lambda>(_, a, _, w). if a \<in> R then [] else [(w, a, wd b)]) (?in b))"
  let ?F = "\<lambda>(pth, reached_id). map_option concat (traverse (\<lambda>(_, src, _, w). if src \<in> R then Some []
         else map_option (\<lambda>ws. [(w, src, ws)]) (traverse (edge_weight G g) pth)) (?in reached_id))"
  have inner: "\<forall>x \<in> set paths. ?F x = Some (?h x)"
  proof (rule ballI)
    fix x assume x: "x \<in> set paths"
    obtain p b where pb: "x = (p, b)" by (cases x)
    have "traverse (edge_weight G g) p = Some (wd b)" using paths x pb by blast
    then have "traverse (\<lambda>(_, src, _, w). if src \<in> R then Some []
         else map_option (\<lambda>ws. [(w, src, ws)]) (traverse (edge_weight G g) p)) (?in b)
       = Some (map (\<lambda>(_, a, _, w). if a \<in> R then [] else [(w, a, wd b)]) (?in b))"
      by (intro traverse_Some_map) (auto split: prod.splits)
    then show "?F x = Some (?h x)" by (simp add: pb)
  qed
  define h where "h = ?h"
  have "traverse ?F paths = Some (map h paths)" unfolding h_def by (rule traverse_Some_map) (rule inner [THEN bspec])
  then have "outside_edges G g R paths = Some (concat (map h paths))"
    unfolding outside_edges_def by simp
  note out = this
  have "set (concat (map h paths)) = (\<Union>x \<in> set paths. set (?h x))" by (simp add: h_def)
  also have "\<dots> = {(w, a, wd b) | w a b. (a, w, b) \<in> weighted_arcs G g \<and> a \<notin> R \<and> b \<in> set (map snd paths)}"
  proof (intro set_eqI iffI)
    fix x assume "x \<in> (\<Union>x \<in> set paths. set (?h x))"
    then obtain p b i a c w where "(p, b) \<in> set paths" "(i, a, c, w) \<in> set (?in b)" "a \<notin> R" "x = (w, a, wd b)"
      by (auto split: if_splits)
    then show "x \<in> {(w, a, wd b) | w a b. (a, w, b) \<in> weighted_arcs G g \<and> a \<notin> R \<and> b \<in> set (map snd paths)}"
      using set_edges_directed [OF g, of b Incoming] by (force simp: weighted_arcs_def)
  next
    fix x assume "x \<in> {(w, a, wd b) | w a b. (a, w, b) \<in> weighted_arcs G g \<and> a \<notin> R \<and> b \<in> set (map snd paths)}"
    then obtain w a b p i where x: "x = (w, a, wd b)" "pg_edge G g i = Some (a, b, w)" "a \<notin> R" "(p, b) \<in> set paths"
      by (auto simp: weighted_arcs_def)
    then have "(i, a, b, w) \<in> set (?in b)" using set_edges_directed [OF g, of b Incoming] by auto
    then have "x \<in> set (?h (p, b))" using x(1,3) by force
    then show "x \<in> (\<Union>x \<in> set paths. set (?h x))" using x(4) by blast
  qed
  finally show ?thesis using out by blast
qed

lemma old_labels_spec:
  assumes m: "mg_ok G ok m" and root: "mg_nodes rg key = Some r'"
    and paths: "\<forall>(p, n) \<in> set paths. traverse (edge_weight G (mg_grph m)) p = Some (wd n)"
  shows "\<exists>labs. old_labels G key rg m paths = Some labs \<and> distinct (map fst labs)
    \<and> set labs = {(d, y). \<exists>b \<in> set (map snd paths). mg_nodes m d = Some b \<and> find_node (pg_out G (mg_grph rg)) r' (wd b) = Some y}"
proof -
  let ?find = "\<lambda>b. find_node (pg_out G (mg_grph rg)) r' (wd b)"
  let ?grp = "\<lambda>b. sorted_list_of_set (get_group_for_node m b)"
  let ?h = "\<lambda>(p :: nat list, b). concat (map (\<lambda>d. case ?find b of Some y \<Rightarrow> [(d, y)] | None \<Rightarrow> []) (?grp b))"
  let ?F = "\<lambda>(pth, ndidx). do { ws \<leftarrow> traverse (edge_weight G (mg_grph m)) pth;
              map_option concat (traverse (\<lambda>dtv. do { root \<leftarrow> mg_get_node rg key;
                       Some (case find_node (pg_out G (mg_grph rg)) root ws of
                           Some tgt_nd \<Rightarrow> [(dtv, tgt_nd)] | None \<Rightarrow> []) }) (?grp ndidx)) }"
  have inner: "\<forall>x \<in> set paths. ?F x = Some (?h x)"
  proof (rule ballI)
    fix x assume x: "x \<in> set paths"
    obtain p b where pb: "x = (p, b)" by (cases x)
    have "traverse (edge_weight G (mg_grph m)) p = Some (wd b)" using paths x pb by blast
    moreover have "traverse (\<lambda>dtv. do { root \<leftarrow> mg_get_node rg key;
                       Some (case find_node (pg_out G (mg_grph rg)) root (wd b) of
                           Some tgt_nd \<Rightarrow> [(dtv, tgt_nd)] | None \<Rightarrow> []) }) (?grp b)
        = Some (map (\<lambda>d. case ?find b of Some y \<Rightarrow> [(d, y)] | None \<Rightarrow> []) (?grp b))"
      by (intro traverse_Some_map) (simp add: mg_get_node_def root)
    ultimately show "?F x = Some (?h x)" by (simp add: pb)
  qed
  define h where "h = ?h"
  have "traverse ?F paths = Some (map h paths)" unfolding h_def by (rule traverse_Some_map) (rule inner [THEN bspec])
  then have run: "old_labels G key rg m paths = Some (btree_entries (concat (map h paths)))"
    unfolding old_labels_def by simp
  have grp: "d \<in> set (?grp b) \<longleftrightarrow> mg_nodes m d = Some b" for d b
  proof -
    have "get_group_for_node m b \<subseteq> dom (mg_nodes m)" using mg_okD(3) [OF m] by blast
    then have "finite (get_group_for_node m b)" using mg_okD(2) [OF m] finite_subset by blast
    then show ?thesis using mg_okD(3) [OF m] by simp
  qed
  have "(d, y) \<in> set (?h (p, b)) \<longleftrightarrow> mg_nodes m d = Some b \<and> ?find b = Some y" for d y p b
    using grp by (auto split: option.splits)
  then have elem: "(d, y) \<in> set (concat (map h paths))
      \<longleftrightarrow> (\<exists>b \<in> set (map snd paths). mg_nodes m d = Some b \<and> ?find b = Some y)" for d y
    unfolding h_def by force
  then have "\<forall>d y z. (d, y) \<in> set (concat (map h paths)) \<longrightarrow> (d, z) \<in> set (concat (map h paths)) \<longrightarrow> y = z"
    by (metis option.sel)
  from btree_entries_set [OF this] show ?thesis
    using run elem by (intro exI [of _ "btree_entries (concat (map h paths))"]) (simp add: set_eq_iff del: set_map)
qed

text \<open>Taking out a list of nodes.\<close>

lemma remove_nodes_loop:
  "mg_ok G ok m \<Longrightarrow> m' = foldl (\<lambda>m nd. snd (mg_remove_node_by_idx G nd m)) m nds \<Longrightarrow>
   mg_ok G ok m'
     \<and> mg_nodes m' = (\<lambda>n. case mg_nodes m n of Some i \<Rightarrow> if i \<in> set nds then None else Some i | None \<Rightarrow> None)
     \<and> pg_node_weight G (mg_grph m') = (\<lambda>i. if i \<in> set nds then None else pg_node_weight G (mg_grph m) i)
     \<and> weighted_arcs G (mg_grph m') = {(a, w, b) \<in> weighted_arcs G (mg_grph m). a \<notin> set nds \<and> b \<notin> set nds}"
proof (induction nds arbitrary: m)
  case Nil
  then show ?case by (auto split: option.splits)
next
  case (Cons x nds)
  obtain m1 where 1: "mg_remove_node_by_idx G x m = (pg_node_weight G (mg_grph m) x, m1)" "mg_ok G ok m1"
    "mg_nodes m1 = (\<lambda>n. if mg_nodes m n = Some x then None else mg_nodes m n)"
    "pg_node_weight G (mg_grph m1) = (pg_node_weight G (mg_grph m))(x := None)"
    "weighted_arcs G (mg_grph m1) = {(a, w, b) \<in> weighted_arcs G (mg_grph m). a \<noteq> x \<and> b \<noteq> x}"
    using remove_node_by_idx_spec [OF Cons.prems(1), of x] by blast
  have m': "m' = foldl (\<lambda>m nd. snd (mg_remove_node_by_idx G nd m)) m1 nds" using Cons.prems(2) 1(1) by simp
  show ?case using Cons.IH [OF 1(2) m'] unfolding 1(3,4,5) by (auto split: option.splits)
qed

lemma new_names_loop:
  assumes "mg_ok G ok rg"
  shows "fold (new_names rg mp) olds l
    = (\<lambda>n. case mg_nodes rg n of Some i \<Rightarrow> if i \<in> set olds then mp i else l n | None \<Rightarrow> l n)"
proof (induction olds arbitrary: l)
  case (Cons i olds)
  then show ?case using mg_okD(3) [OF assms] by (auto simp: new_names_def fun_eq_iff split: option.splits)
qed (auto split: option.splits)

lemma old_labels_loop:
  "distinct (map fst labels) \<Longrightarrow> fold (add_old_label mp) labels l
    = (\<lambda>n. case l n of Some i \<Rightarrow> Some i | None \<Rightarrow> (case map_of labels n of Some old \<Rightarrow> mp old | None \<Rightarrow> None))"
proof (induction labels arbitrary: l)
  case (Cons e labels)
  obtain d old where e: "e = (d, old)" by (cases e)
  have "map_of labels d = None" using Cons.prems e by (simp add: map_of_eq_None_iff)
  moreover have "fold (add_old_label mp) labels (add_old_label mp e l)
    = (\<lambda>n. case add_old_label mp e l n of Some i \<Rightarrow> Some i
        | None \<Rightarrow> (case map_of labels n of Some old \<Rightarrow> mp old | None \<Rightarrow> None))"
    using Cons.prems by (intro Cons.IH) simp
  moreover have "add_old_label mp e l n = (if n = d \<and> l d = None then mp old else l n)" for n
    by (simp add: add_old_label_def e split: option.split)
  ultimately show ?case by (intro ext) (simp add: e split: option.split)
qed (auto split: option.splits)

text \<open>Connecting the edges that entered the old part.\<close>

lemma connect_loop:
  assumes root: "mg_nodes rg key = Some r'"
    and targets: "\<forall>(w, a, ws) \<in> set out. \<forall>z. find_node (pg_out G (mg_grph rg)) r' ws = Some z \<longrightarrow>
      (\<exists>y. mp z = Some y \<and> W y \<noteq> None \<and> a \<noteq> y) \<and> W a \<noteq> None"
  shows "ok g \<Longrightarrow> pg_node_weight G g = W \<Longrightarrow>
    \<exists>g'. fold_opt (connect_edge G key rg mp) out g = Some g' \<and> ok g' \<and> pg_node_weight G g' = W
      \<and> weighted_arcs G g' = weighted_arcs G g
        \<union> {(a, w, y) | a w y. \<exists>ws z. (w, a, ws) \<in> set out \<and> find_node (pg_out G (mg_grph rg)) r' ws = Some z \<and> mp z = Some y}"
  using targets
proof (induction out arbitrary: g)
  case (Cons e out)
  obtain w a ws where e: "e = (w, a, ws)" by (cases e)
  let ?find = "find_node (pg_out G (mg_grph rg)) r'"
  show ?case
  proof (cases "?find ws")
    case None
    then have "connect_edge G key rg mp e g = Some g" by (simp add: connect_edge_def e mg_get_node_def root)
    moreover have "(\<exists>ws z. (w', a', ws) \<in> set (e # out) \<and> ?find ws = Some z \<and> mp z = Some y)
        \<longleftrightarrow> (\<exists>ws z. (w', a', ws) \<in> set out \<and> ?find ws = Some z \<and> mp z = Some y)" for w' a' y
      using None by (auto simp: e)
    ultimately show ?thesis using Cons.IH [OF Cons.prems(1,2)] Cons.prems(3) by simp
  next
    case (Some z)
    obtain y where y: "mp z = Some y" "W y \<noteq> None" "a \<noteq> y" "W a \<noteq> None"
      using Cons.prems(3) Some e by auto
    then obtain i g1 where add: "pg_add_edge G a y w g = Some (i, g1)"
      using add_edge_None [OF Cons.prems(1), of a y w] Cons.prems(2) by (cases "pg_add_edge G a y w g") auto
    note g1 = add_edge_laws [OF Cons.prems(1) add]
    have "connect_edge G key rg mp e g = Some g1"
      using Some y add by (simp add: connect_edge_def e mg_get_node_def root)
    moreover have "weighted_arcs G g1 = insert (a, w, y) (weighted_arcs G g)" by (rule weighted_arcs_add [OF Cons.prems(1) add])
    moreover obtain g' where "fold_opt (connect_edge G key rg mp) out g1 = Some g'" "ok g'" "pg_node_weight G g' = W"
      "weighted_arcs G g' = weighted_arcs G g1
        \<union> {(a, w, y) | a w y. \<exists>ws z. (w, a, ws) \<in> set out \<and> ?find ws = Some z \<and> mp z = Some y}"
      using Cons.IH [of g1] g1 Cons.prems(2,3) by auto
    moreover have "(\<exists>ws z. (w', a', ws) \<in> set (e # out) \<and> ?find ws = Some z \<and> mp z = Some y')
        \<longleftrightarrow> w' = w \<and> a' = a \<and> y' = y
          \<or> (\<exists>ws z. (w', a', ws) \<in> set out \<and> ?find ws = Some z \<and> mp z = Some y')" for w' a' y'
      unfolding e set_simps insert_iff prod.inject using Some y(1) by (metis option.inject)
    ultimately show ?thesis by (intro exI [of _ g']) (simp add: set_eq_iff del: set_simps, blast)
  qed
qed simp

lemma find_node_target:
  assumes g: "ok g"
  shows "pg_node_weight G g s \<noteq> None \<Longrightarrow> find_node (pg_out G g) s ws = Some z \<Longrightarrow> pg_node_weight G g z \<noteq> None"
proof (induction ws arbitrary: s)
  case (Cons a ws)
  then obtain i t w where found: "find (\<lambda>(_, _, w). w = a) (pg_out G g s) = Some (i, t, w)"
    "find_node (pg_out G g) t ws = Some z" by (auto split: option.splits)
  have "(i, t, w) \<in> set (pg_out G g s)" using found(1) by (metis find_Some_iff nth_mem)
  then have "pg_node_weight G g t \<noteq> None"
    using set_edges_directed [OF g, of s Outgoing] edge_ends [OF g] by (fastforce simp: pg_out_def)
  with Cons.IH found(2) show ?case by blast
qed simp

lemma replaced_labels:
  assumes rg: "mg_ok G ok rg" and olds: "set olds = {n. pg_node_weight G (mg_grph rg) n \<noteq> None}"
    and dom: "dom mp = {n. pg_node_weight G (mg_grph rg) n \<noteq> None}"
    and labs: "distinct (map fst labels)" "set labels = {(d, y). \<exists>b \<in> R. nodes d = Some b \<and> at b = Some y}"
  shows "fold (add_old_label mp) labels (fold (new_names rg mp) olds
      (\<lambda>n. case nodes n of Some i \<Rightarrow> if i \<in> R then None else Some i | None \<Rightarrow> None))
    = replaced_names (mg_nodes rg) nodes R at mp"
proof
  fix n
  have rgn: "\<exists>y. mp i = Some y" "i \<in> set olds" if "mg_nodes rg n = Some i" for i
    using mg_okD(4) [OF rg that] dom olds by blast+
  have lab: "map_of labels n = (case nodes n of Some b \<Rightarrow> if b \<in> R then at b else None | None \<Rightarrow> None)"
  proof (cases "map_of labels n")
    case None
    then have "\<forall>y. (n, y) \<notin> set labels" using labs(1) by (metis map_of_eq_Some_iff option.distinct(1))
    then show ?thesis unfolding labs(2) None by (auto split: option.splits)
  next
    case (Some y)
    then have "(n, y) \<in> set labels" by (rule map_of_SomeD)
    then show ?thesis unfolding labs(2) Some by auto
  qed
  show "fold (add_old_label mp) labels (fold (new_names rg mp) olds
      (\<lambda>n. case nodes n of Some i \<Rightarrow> if i \<in> R then None else Some i | None \<Rightarrow> None)) n
    = replaced_names (mg_nodes rg) nodes R at mp n"
    unfolding new_names_loop [OF rg] old_labels_loop [OF labs(1)] replaced_names_def lab
    using rgn by (auto split: option.split)
qed

lemma replace_node_spec:
  assumes m: "mg_ok G ok m" and rg: "mg_ok G ok rg" and enum: "is_enum vord"
    and key: "mg_nodes m key = Some r" "mg_nodes rg key = Some r'"
    and R: "R = (arcs G (mg_grph m))\<^sup>* `` {r}"
    and fresh: "\<forall>n b. mg_nodes rg n \<noteq> None \<longrightarrow> mg_nodes m n = Some b \<longrightarrow> b \<in> R"
  shows "\<exists>m' mp wd. replace_node vord G key rg m = Some m' \<and> mg_ok G ok m'
    \<and> inj_on mp (dom mp) \<and> dom mp = {x. pg_node_weight G (mg_grph rg) x \<noteq> None}
    \<and> (\<forall>b \<in> R. edge_path (weighted_arcs G (mg_grph m)) r (wd b) b)
    \<and> (\<forall>x i. mp x = Some i \<longrightarrow> (i \<in> R \<or> pg_node_weight G (mg_grph m) i = None)
          \<and> pg_node_weight G (mg_grph m') i = pg_node_weight G (mg_grph rg) x)
    \<and> (\<forall>i. i \<notin> ran mp \<longrightarrow> pg_node_weight G (mg_grph m') i = (if i \<in> R then None else pg_node_weight G (mg_grph m) i))
    \<and> weighted_arcs G (mg_grph m') = {(a, w, b) \<in> weighted_arcs G (mg_grph m). a \<notin> R \<and> b \<notin> R}
        \<union> {(x, w, y). \<exists>a b. (a, w, b) \<in> weighted_arcs G (mg_grph rg) \<and> mp a = Some x \<and> mp b = Some y}
        \<union> {(a, w, y) | a w y. \<exists>b z. (a, w, b) \<in> weighted_arcs G (mg_grph m) \<and> a \<notin> R \<and> b \<in> R
             \<and> find_node (pg_out G (mg_grph rg)) r' (wd b) = Some z \<and> mp z = Some y}
    \<and> mg_nodes m' = replaced_names (mg_nodes rg) (mg_nodes m) R
        (\<lambda>b. find_node (pg_out G (mg_grph rg)) r' (wd b)) mp"
proof -
  note okm = mg_okD(1) [OF m] and okrg = mg_okD(1) [OF rg]
  let ?g = "mg_grph m" and ?rgg = "mg_grph rg"
  let ?find = "find_node (pg_out G ?rgg) r'"
  have Rset: "mg_reachable_idxs G m r = R" unfolding R by (rule reachable_idxs [OF m mg_okD(4) [OF m key(1)]])
  then have finR: "finite R" unfolding mg_reachable_idxs_def by auto
  obtain paths wd where paths: "explore_paths (pg_out G ?g) r = Some paths" "set (map snd paths) = R"
    and words: "\<forall>(p, n) \<in> set paths. traverse (edge_weight G ?g) p = Some (wd n) \<and> edge_path (weighted_arcs G ?g) r (wd n) n"
    using explored_words [OF okm, of r] unfolding R by blast
  have words1: "\<forall>(p, n) \<in> set paths. traverse (edge_weight G ?g) p = Some (wd n)" using words by fastforce
  obtain out where out: "outside_edges G ?g R paths = Some out"
    "set out = {(w, a, wd b) | w a b. (a, w, b) \<in> weighted_arcs G ?g \<and> a \<notin> R \<and> b \<in> R}"
    using outside_edges_spec [OF okm words1, of R] unfolding paths(2) by (elim exE conjE) (rule that)
  obtain labs where labs: "old_labels G key rg m paths = Some labs" "distinct (map fst labs)"
    "set labs = {(d, y). \<exists>b \<in> R. mg_nodes m d = Some b \<and> ?find (wd b) = Some y}"
    using old_labels_spec [OF m key(2) words1] unfolding paths(2) by (elim exE conjE) (rule that)
  define m1 where "m1 = foldl (\<lambda>m nd. snd (mg_remove_node_by_idx G nd m)) m (sorted_list_of_set R)"
  have m1: "mg_ok G ok m1"
    "mg_nodes m1 = (\<lambda>n. case mg_nodes m n of Some i \<Rightarrow> if i \<in> R then None else Some i | None \<Rightarrow> None)"
    "pg_node_weight G (mg_grph m1) = (\<lambda>i. if i \<in> R then None else pg_node_weight G ?g i)"
    "weighted_arcs G (mg_grph m1) = {(a, w, b) \<in> weighted_arcs G ?g. a \<notin> R \<and> b \<notin> R}"
    using remove_nodes_loop [OF m m1_def] unfolding sorted_list_of_set.set_sorted_key_list_of_set [OF finR] by blast+
  obtain mp g2 where cp: "copy_subgraph G ?rgg (mg_grph m1) = Some (mp, g2)" "ok g2" "inj_on mp (dom mp)"
    "dom mp = {n. pg_node_weight G ?rgg n \<noteq> None}"
    and new: "\<forall>x n. mp x = Some n \<longrightarrow> pg_node_weight G (mg_grph m1) n = None \<and> pg_node_weight G g2 n = pg_node_weight G ?rgg x"
    and rest: "\<forall>n. n \<notin> ran mp \<longrightarrow> pg_node_weight G g2 n = pg_node_weight G (mg_grph m1) n"
    and arcs2: "weighted_arcs G g2 = weighted_arcs G (mg_grph m1)
        \<union> {(x, w, y). \<exists>a b. (a, w, b) \<in> weighted_arcs G ?rgg \<and> mp a = Some x \<and> mp b = Some y}"
    using copy_subgraph_spec [OF mg_okD(1) [OF m1(1)] okrg] by (elim exE conjE) (rule that)
  have "{n. pg_node_weight G ?rgg n \<noteq> None} = set (pg_node_indices G ?rgg)"
    using node_indices_laws [OF okrg] by auto
  then have fin: "finite (dom mp)" unfolding cp(4) by simp
  have olds: "set (vord (dom mp)) = dom mp" by (rule is_enumD(1) [OF enum fin])
  have r': "r' \<in> dom mp" using mg_okD(4) [OF rg key(2)] cp(4) by blast
  then have nonempty: "vord (dom mp) \<noteq> []" using olds by (metis empty_iff empty_set)
  have unnamed: "\<not> list_ex (\<lambda>old_idx. \<exists>n \<in> get_group_for_node rg old_idx. mg_nodes m1 n \<noteq> None) (vord (dom mp))"
    unfolding list_ex_iff
  proof (clarify)
    fix old n y assume "n \<in> get_group_for_node rg old" "mg_nodes m1 n = Some y"
    then have "mg_nodes rg n \<noteq> None" "mg_nodes m n = Some y" "y \<notin> R"
      using mg_okD(3) [OF rg] by (auto simp: m1(2) split: option.splits if_splits)
    then show False using fresh by blast
  qed
  define l where "l = replaced_names (mg_nodes rg) (mg_nodes m) R (\<lambda>b. ?find (wd b)) mp"
  have olds': "set (vord (dom mp)) = {n. pg_node_weight G ?rgg n \<noteq> None}" using olds cp(4) by simp
  have labeling: "fold (add_old_label mp) labs (fold (new_names rg mp) (vord (dom mp)) (mg_nodes m1)) = l"
    unfolding l_def m1(2) by (rule replaced_labels [OF rg olds' cp(4) labs(2,3)])
  define m2 where "m2 = inplace_relable_representative_nodes l (m1\<lparr>mg_grph := g2\<rparr>)"
  have m2g: "mg_grph m2 = g2" "mg_nodes m2 = l" by (simp_all add: m2_def inplace_relable_representative_nodes_def)
  have present: "pg_node_weight G g2 i \<noteq> None" if "mp x = Some i" for x i
    using new that cp(4) by (metis (mono_tags, lifting) domI mem_Collect_eq)
  have outside: "pg_node_weight G g2 a = pg_node_weight G ?g a" "a \<notin> ran mp"
    if "a \<notin> R" "pg_node_weight G ?g a \<noteq> None" for a
  proof -
    have "mp x \<noteq> Some a" for x using new that by (metis m1(3))
    then show "a \<notin> ran mp" by (auto simp: ran_def)
    then show "pg_node_weight G g2 a = pg_node_weight G ?g a" using rest that(1) by (simp add: m1(3))
  qed
  have targets: "\<forall>(w, a, ws) \<in> set out. \<forall>z. ?find ws = Some z \<longrightarrow>
      (\<exists>y. mp z = Some y \<and> pg_node_weight G g2 y \<noteq> None \<and> a \<noteq> y) \<and> pg_node_weight G g2 a \<noteq> None"
  proof (intro ballI, clarify)
    fix w a ws z assume e: "(w, a, ws) \<in> set out" and z: "?find ws = Some z"
    obtain b where ab: "(a, w, b) \<in> weighted_arcs G ?g" "a \<notin> R" using e unfolding out(2) by blast
    have a: "pg_node_weight G ?g a \<noteq> None" using weighted_arcs_nodes [OF okm ab(1)] by blast
    have "pg_node_weight G ?rgg r' \<noteq> None" using r' cp(4) by blast
    then have "z \<in> dom mp" using find_node_target [OF okrg _ z] cp(4) by blast
    then obtain y where y: "mp z = Some y" by blast
    then have "y \<in> ran mp" by (rule ranI)
    then have "a \<noteq> y" using outside(2) [OF ab(2) a] by blast
    then show "(\<exists>y. mp z = Some y \<and> pg_node_weight G g2 y \<noteq> None \<and> a \<noteq> y) \<and> pg_node_weight G g2 a \<noteq> None"
      using y present [OF y] outside(1) [OF ab(2) a] a by simp
  qed
  obtain g3 where con: "fold_opt (connect_edge G key rg mp) out g2 = Some g3" "ok g3"
    "pg_node_weight G g3 = pg_node_weight G g2"
    "weighted_arcs G g3 = weighted_arcs G g2
        \<union> {(a, w, y) | a w y. \<exists>ws z. (w, a, ws) \<in> set out \<and> ?find ws = Some z \<and> mp z = Some y}"
    using connect_loop [OF key(2) targets cp(2) refl] by (elim exE conjE) (rule that)
  have run: "replace_node vord G key rg m = Some (m2\<lparr>mg_grph := g3\<rparr>)"
    unfolding replace_node_def mg_get_node_def key Let_def Option.bind.bind_lunit Rset paths(1) out(1) labs(1)
      m1_def [symmetric] cp(1) case_prod_conv if_not_P [OF nonempty] if_not_P [OF unnamed] labeling
      m2_def [symmetric] m2g(1) con(1) option.map ..
  have named: "pg_node_weight G g3 i \<noteq> None" if "l n = Some i" for n i
  proof -
    have "i \<in> ran mp \<or> (mg_nodes m n = Some i \<and> i \<notin> R)"
      using that by (auto simp: l_def replaced_names_def Option.bind_eq_Some_conv ranI split: option.splits if_splits)
    then show ?thesis using present outside(1) mg_okD(4) [OF m] con(3) by (auto simp: ran_def)
  qed
  have "dom l \<subseteq> dom (mg_nodes rg) \<union> dom (mg_nodes m)"
    by (auto simp: l_def replaced_names_def split: option.splits)
  then have "finite (dom l)" using mg_okD(2) [OF rg] mg_okD(2) [OF m] finite_subset by blast
  then have "mg_ok G ok (inplace_relable_representative_nodes l (m1\<lparr>mg_grph := g3\<rparr>))"
    using named con(2) by (intro mg_ok_relabel) simp_all
  moreover have "m2\<lparr>mg_grph := g3\<rparr> = inplace_relable_representative_nodes l (m1\<lparr>mg_grph := g3\<rparr>)"
    by (cases m1) (simp add: m2_def inplace_relable_representative_nodes_def)
  ultimately have okm': "mg_ok G ok (m2\<lparr>mg_grph := g3\<rparr>)" by simp
  have entering: "(\<exists>ws z. (w, a, ws) \<in> set out \<and> ?find ws = Some z \<and> mp z = Some y)
      \<longleftrightarrow> (\<exists>b z. (a, w, b) \<in> weighted_arcs G ?g \<and> a \<notin> R \<and> b \<in> R \<and> ?find (wd b) = Some z \<and> mp z = Some y)" for a w y
    unfolding out(2) by blast
  have reached: "\<forall>b \<in> R. edge_path (weighted_arcs G ?g) r (wd b) b"
    using words unfolding paths(2) [symmetric] by fastforce
  have sel: "mg_grph (m2\<lparr>mg_grph := g3\<rparr>) = g3" by simp
  show ?thesis
  proof (rule exI [of _ "m2\<lparr>mg_grph := g3\<rparr>"], rule exI [of _ mp], rule exI [of _ wd], intro conjI)
    show "weighted_arcs G (mg_grph (m2\<lparr>mg_grph := g3\<rparr>)) = {(a, w, b) \<in> weighted_arcs G (mg_grph m). a \<notin> R \<and> b \<notin> R}
        \<union> {(x, w, y). \<exists>a b. (a, w, b) \<in> weighted_arcs G (mg_grph rg) \<and> mp a = Some x \<and> mp b = Some y}
        \<union> {(a, w, y) | a w y. \<exists>b z. (a, w, b) \<in> weighted_arcs G (mg_grph m) \<and> a \<notin> R \<and> b \<in> R
             \<and> ?find (wd b) = Some z \<and> mp z = Some y}"
      unfolding sel con(4) arcs2 m1(4) entering ..
    show "\<forall>x i. mp x = Some i \<longrightarrow> (i \<in> R \<or> pg_node_weight G (mg_grph m) i = None)
          \<and> pg_node_weight G (mg_grph (m2\<lparr>mg_grph := g3\<rparr>)) i = pg_node_weight G (mg_grph rg) x"
      using new unfolding sel con(3) m1(3) by (metis (no_types, lifting))
    show "\<forall>i. i \<notin> ran mp \<longrightarrow> pg_node_weight G (mg_grph (m2\<lparr>mg_grph := g3\<rparr>)) i = (if i \<in> R then None else pg_node_weight G (mg_grph m) i)"
      using rest by (simp add: con(3) m1(3))
  qed (use run okm' cp(3,4) reached m2g(2) in \<open>simp_all add: l_def\<close>)
qed

end

section \<open>Properties\<close>

text \<open>
  C29. Replacing a named node returns: the nodes that it reaches are gone, a copy of the
  replacement is in, an edge from outside into the old part leads to the copy of the node that a
  word of the old path reaches in the replacement (and is dropped when the word leaves it), and a
  name of the replacement takes precedence over the old names, which follow their words.
\<close>

theorem replace_node_exact:
  assumes env: "stable_digraph G ok"
    and m: "mg_ok G ok m" and rg: "mg_ok G ok rg" and enum: "is_enum vord"
    and key: "mg_nodes m key = Some r" "mg_nodes rg key = Some r'"
    and R: "R = (arcs G (mg_grph m))\<^sup>* `` {r}"
    and fresh: "\<forall>n b. mg_nodes rg n \<noteq> None \<longrightarrow> mg_nodes m n = Some b \<longrightarrow> b \<in> R"
  shows "\<exists>m' mp wd. replace_node vord G key rg m = Some m' \<and> mg_ok G ok m'
    \<and> inj_on mp (dom mp) \<and> dom mp = {x. pg_node_weight G (mg_grph rg) x \<noteq> None}
    \<and> (\<forall>b \<in> R. edge_path (weighted_arcs G (mg_grph m)) r (wd b) b)
    \<and> (\<forall>x i. mp x = Some i \<longrightarrow> (i \<in> R \<or> pg_node_weight G (mg_grph m) i = None)
          \<and> pg_node_weight G (mg_grph m') i = pg_node_weight G (mg_grph rg) x)
    \<and> (\<forall>i. i \<notin> ran mp \<longrightarrow> pg_node_weight G (mg_grph m') i = (if i \<in> R then None else pg_node_weight G (mg_grph m) i))
    \<and> weighted_arcs G (mg_grph m') = {(a, w, b) \<in> weighted_arcs G (mg_grph m). a \<notin> R \<and> b \<notin> R}
        \<union> {(x, w, y). \<exists>a b. (a, w, b) \<in> weighted_arcs G (mg_grph rg) \<and> mp a = Some x \<and> mp b = Some y}
        \<union> {(a, w, y) | a w y. \<exists>b z. (a, w, b) \<in> weighted_arcs G (mg_grph m) \<and> a \<notin> R \<and> b \<in> R
             \<and> find_node (pg_out G (mg_grph rg)) r' (wd b) = Some z \<and> mp z = Some y}
    \<and> mg_nodes m' = replaced_names (mg_nodes rg) (mg_nodes m) R
        (\<lambda>b. find_node (pg_out G (mg_grph rg)) r' (wd b)) mp"
  by (rule stable_digraph.replace_node_spec [OF env m rg enum key R fresh])

text \<open>A node with one edge to the named node that is replaced.\<close>

definition host_graph :: "((nat, nat) list_graph, nat) mapping_graph" where
  "host_graph = \<lparr>mg_grph = \<lparr>lg_nodes = [(0, 5), (1, 7)], lg_edges = [(0, 0, 1, 3)],
        lg_next_node = 2, lg_next_edge = 1\<rparr>,
      mg_nodes = [20 \<mapsto> 0, 10 \<mapsto> 1], mg_reprs = [0 \<mapsto> {20}, 1 \<mapsto> {10}]\<rparr>"

lemma host_graph_ok: "mg_ok list_digraph lg_ok host_graph"
proof (rule mg_okI)
  show "lg_ok (mg_grph host_graph)" by (auto simp: host_graph_def lg_ok_def split: if_splits)
  show "n \<in> get_group_for_node host_graph i \<longleftrightarrow> mg_nodes host_graph n = Some i" for n i
    by (auto simp: host_graph_def get_group_for_node_def)
qed (auto simp: host_graph_def list_digraph_sel split: if_splits)

lemma host_graph_arcs: "weighted_arcs list_digraph (mg_grph host_graph) = {(0, 3, 1)}"
  by (auto simp: weighted_arcs_def host_graph_def list_digraph_sel split: if_splits)

theorem replace_node_exact_witness:
  "\<exists>m' y. replace_node sorted_list_of_set list_digraph 10 pair_graph host_graph = Some m'
    \<and> mg_nodes m' 10 = Some y \<and> mg_nodes m' 20 = Some 0
    \<and> (0, 3, y) \<in> weighted_arcs list_digraph (mg_grph m')"
proof -
  have reach: "n = 1" if "(1, n) \<in> (arcs list_digraph (mg_grph host_graph))\<^sup>*" for n
    using that by (induction rule: rtrancl_induct) (auto simp: arcs_weighted host_graph_arcs)
  then have R: "{1} = (arcs list_digraph (mg_grph host_graph))\<^sup>* `` {1}" by auto
  have fresh: "\<forall>n b. mg_nodes pair_graph n \<noteq> None \<longrightarrow> mg_nodes host_graph n = Some b \<longrightarrow> b \<in> {1}"
    by (simp add: pair_graph_def host_graph_def)
  have key: "mg_nodes host_graph 10 = Some 1" "mg_nodes pair_graph 10 = Some 0"
    by (simp_all add: pair_graph_def host_graph_def)
  obtain m' mp wd where run: "replace_node sorted_list_of_set list_digraph 10 pair_graph host_graph = Some m'"
    and dom: "dom mp = {x. pg_node_weight list_digraph (mg_grph pair_graph) x \<noteq> None}"
    and wd: "\<forall>b \<in> {1}. edge_path (weighted_arcs list_digraph (mg_grph host_graph)) 1 (wd b) b"
    and arcs: "weighted_arcs list_digraph (mg_grph m')
      = {(a, w, b) \<in> weighted_arcs list_digraph (mg_grph host_graph). a \<notin> {1} \<and> b \<notin> {1}}
        \<union> {(x, w, y). \<exists>a b. (a, w, b) \<in> weighted_arcs list_digraph (mg_grph pair_graph) \<and> mp a = Some x \<and> mp b = Some y}
        \<union> {(a, w, y) | a w y. \<exists>b z. (a, w, b) \<in> weighted_arcs list_digraph (mg_grph host_graph) \<and> a \<notin> {1} \<and> b \<in> {1}
         \<and> find_node (pg_out list_digraph (mg_grph pair_graph)) 0 (wd b) = Some z \<and> mp z = Some y}"
    and names: "mg_nodes m' = replaced_names (mg_nodes pair_graph) (mg_nodes host_graph) {1}
        (\<lambda>b. find_node (pg_out list_digraph (mg_grph pair_graph)) 0 (wd b)) mp"
    using replace_node_exact [OF list_pg.stable_digraph_axioms host_graph_ok pair_graph_ok sorted_enum key R fresh]
    by (elim exE conjE) (rule that; assumption)
  have "wd 1 = []" using wd unfolding host_graph_arcs by (cases "wd 1") auto
  then have find: "find_node (pg_out list_digraph (mg_grph pair_graph)) 0 (wd 1) = Some 0" by simp
  have "0 \<in> dom mp" unfolding dom by (simp add: pair_graph_weights del: not_None_eq)
  then obtain y where y: "mp 0 = Some y" by blast
  have "(0, 3, y) \<in> weighted_arcs list_digraph (mg_grph m')"
    unfolding arcs host_graph_arcs using find y by (intro UnI2) simp
  moreover have "mg_nodes m' 10 = Some y" "mg_nodes m' 20 = Some 0"
    unfolding names replaced_names_def using y by (simp_all add: pair_graph_def host_graph_def)
  ultimately show ?thesis using run by blast
qed

end
