(* ===== verification/SketchCopies.thy ===== *)
theory SketchCopies
  imports Sketches GraphCopy
begin

text \<open>
  Reading sketches out of a sketch graph, copying them into other graphs and putting them back
  (\<^verbatim>\<open>SketchGraph\<close> and \<^verbatim>\<open>Sketch\<close> in \<^verbatim>\<open>src/solver/type_sketch.rs\<close>).
  The order in which the hash map of the names is iterated is the argument \<open>dord\<close>.
\<close>

section \<open>The names of a sketch graph\<close>

definition get_node_index_for_variable :: "('g, 'w, 'tid) sketch_graph \<Rightarrow> 'tid dtv \<Rightarrow> nat option" where
  "get_node_index_for_variable sg wt = mg_get_node (quotient_graph sg) wt"

definition get_in_params :: "('tid dtv set \<Rightarrow> 'tid dtv list) \<Rightarrow> ('g, 'w, 'tid) sketch_graph \<Rightarrow> 'tid dtv list" where
  "get_in_params dord sg =
     filter (\<lambda>d. tv_cs_tag (dtv_var d) = None \<and> is_in_parameter d) (dord (dom (mg_nodes (quotient_graph sg))))"

definition get_globals :: "('tid dtv set \<Rightarrow> 'tid dtv list) \<Rightarrow> ('g, 'w, 'tid) sketch_graph \<Rightarrow> 'tid dtv list" where
  "get_globals dord sg = filter dtv_is_global (dord (dom (mg_nodes (quotient_graph sg))))"

definition get_out_params :: "('tid dtv set \<Rightarrow> 'tid dtv list) \<Rightarrow> ('g, 'w, 'tid) sketch_graph \<Rightarrow> 'tid dtv list" where
  "get_out_params dord sg =
     filter (\<lambda>d. tv_cs_tag (dtv_var d) = None \<and> is_out_parameter d) (dord (dom (mg_nodes (quotient_graph sg))))"

section \<open>Sketches of a sketch graph\<close>

definition replace_dtv ::
    "(nat set \<Rightarrow> nat list) \<Rightarrow> ('g, 'w, field_label) petgraph \<Rightarrow> ('tid::linorder) dtv \<Rightarrow> ('g, 'w, 'tid) sketch \<Rightarrow>
     ('g, 'w, 'tid) sketch_graph \<Rightarrow> ('g, 'w, 'tid) sketch_graph option" where
  "replace_dtv vord G d sk sg =
     map_option (\<lambda>g. sg\<lparr>quotient_graph := g\<rparr>) (replace_node vord G d (sk_graph sk) (quotient_graph sg))"

definition maybe_replace_dtv ::
    "(nat set \<Rightarrow> nat list) \<Rightarrow> ('g, 'w, field_label) petgraph \<Rightarrow> ('tid::linorder) dtv \<Rightarrow> ('g, 'w, 'tid) sketch \<Rightarrow>
     ('g, 'w, 'tid) sketch_graph \<Rightarrow> (bool \<times> ('g, 'w, 'tid) sketch_graph) option" where
  "maybe_replace_dtv vord G d sk sg =
     (if mg_nodes (quotient_graph sg) d \<noteq> None
      then map_option (\<lambda>g. (True, sg\<lparr>quotient_graph := g\<rparr>)) (replace_node vord G d (sk_graph sk) (quotient_graph sg))
      else Some (False, sg))"

definition get_representations_by_dtv ::
    "('tid dtv set \<Rightarrow> 'tid dtv list) \<Rightarrow> ('g, 'w, field_label) petgraph \<Rightarrow> ('tid dtv \<Rightarrow> bool) \<Rightarrow>
     ('g, 'w, 'tid) sketch_graph \<Rightarrow> (nat \<times> ('g, 'w, 'tid) sketch) list" where
  "get_representations_by_dtv dord G flter sg =
     List.map_filter (\<lambda>repr_dtv. map_option (\<lambda>idx.
         (idx, \<lparr>sk_graph = get_reachable_subgraph G (quotient_graph sg) idx, representing = repr_dtv,
                sk_default = default_label sg\<rparr>))
         (mg_nodes (quotient_graph sg) repr_dtv))
       (filter flter (dord (dom (mg_nodes (quotient_graph sg)))))"

definition get_representing_sketchs_ignoring_callsite_tags ::
    "('tid dtv set \<Rightarrow> 'tid dtv list) \<Rightarrow> ('g, 'w, field_label) petgraph \<Rightarrow> 'tid dtv \<Rightarrow>
     ('g, 'w, 'tid) sketch_graph \<Rightarrow> (nat \<times> ('g, 'w, 'tid) sketch) list" where
  "get_representing_sketchs_ignoring_callsite_tags dord G d sg =
     (let target_calee = dtv_to_callee d
      in get_representations_by_dtv dord G (\<lambda>canidate. target_calee = dtv_to_callee canidate) sg)"

definition get_representing_sketch ::
    "('tid dtv set \<Rightarrow> 'tid dtv list) \<Rightarrow> ('g, 'w, field_label) petgraph \<Rightarrow> 'tid dtv \<Rightarrow>
     ('g, 'w, 'tid) sketch_graph \<Rightarrow> (nat \<times> ('g, 'w, 'tid) sketch) list" where
  "get_representing_sketch dord G d sg =
     (let target_calee = dtv_to_callee d
      in get_representations_by_dtv dord G (\<lambda>canidate. target_calee = canidate) sg)"

section \<open>Operations on a sketch\<close>

definition copy_sketch_node ::
    "('g, 'w, field_label) petgraph \<Rightarrow> ('g, 'w, 'tid) sketch \<Rightarrow> nat \<Rightarrow> (nat \<Rightarrow> nat option) \<times> 'g \<Rightarrow>
     ((nat \<Rightarrow> nat option) \<times> 'g) option" where
  "copy_sketch_node G sk idx st =
     (case st of (loc_map, grph) \<Rightarrow>
        do { w \<leftarrow> pg_node_weight G (mg_grph (sk_graph sk)) idx;
             let (n, grph') = pg_add_node G w grph in Some (loc_map(idx \<mapsto> n), grph') })"

definition copy_sketch_edge ::
    "('g, 'w, field_label) petgraph \<Rightarrow> (nat \<Rightarrow> nat option) \<Rightarrow> field_label edge_ref \<Rightarrow> 'g \<Rightarrow> 'g option" where
  "copy_sketch_edge G loc_map e grph =
     (case e of (_, s, t, w) \<Rightarrow>
        do { src \<leftarrow> loc_map s; dst \<leftarrow> loc_map t; map_option snd (pg_add_edge G src dst w grph) })"

text \<open>The result is the entry and the new place of every node; the graph is changed.\<close>

definition copy_sketch_into_graph ::
    "('g, 'w, field_label) petgraph \<Rightarrow> ('g, 'w, 'tid) sketch \<Rightarrow> 'g \<Rightarrow> (nat \<times> (nat \<Rightarrow> nat option) \<times> 'g) option" where
  "copy_sketch_into_graph G sk grph =
     do { (loc_map, grph1) \<leftarrow> fold_opt (copy_sketch_node G sk)
              (pg_node_indices G (mg_grph (sk_graph sk))) (Map.empty, grph);
          grph2 \<leftarrow> fold_opt (copy_sketch_edge G loc_map) (edge_references G (mg_grph (sk_graph sk))) grph1;
          ent \<leftarrow> get_entry sk;
          new_entry \<leftarrow> loc_map ent;
          Some (new_entry, loc_map, grph2) }"

text \<open>The sketch below a path; the outer option is the panic.\<close>

definition get_subsketch_at_path ::
    "('g, 'w, field_label) petgraph \<Rightarrow> ('g, 'w, 'tid) sketch \<Rightarrow> field_label list \<Rightarrow>
     ('g, 'w, 'tid) sketch option option" where
  "get_subsketch_at_path G sk target_path =
     map_option (\<lambda>ent. Option.bind (find_node (pg_out G (mg_grph (sk_graph sk))) ent target_path) (\<lambda>found_node.
         (let subgraph = get_reachable_subgraph G (sk_graph sk) found_node
          in map_option (\<lambda>root.
               (let dummy_dtv = dtv_new (tv_new ''dummy'')
                in \<lparr>sk_graph = relable_representative_nodes subgraph [dummy_dtv \<mapsto> root],
                    representing = dummy_dtv, sk_default = sk_default sk\<rparr>))
             (find (\<lambda>x. edges_directed G (mg_grph subgraph) x Incoming = []) (pg_node_indices G (mg_grph subgraph))))))
       (get_entry sk)"

definition label_pairs ::
    "('g, 'w, field_label) petgraph \<Rightarrow> ('g, 'w, 'tid::linorder) sketch \<Rightarrow> ('g, 'w, 'tid) sketch \<Rightarrow>
     nat list \<times> nat \<Rightarrow> ('tid dtv \<times> nat) list option" where
  "label_pairs G sk other_sketch pn =
     (case pn of (pth, tgt) \<Rightarrow>
        do { pth_as_weights \<leftarrow> traverse (edge_weight G (mg_grph (sk_graph sk))) pth;
             other_entry \<leftarrow> get_entry other_sketch;
             Some (case find_node (pg_out G (mg_grph (sk_graph other_sketch))) other_entry pth_as_weights of
                 Some other_idx \<Rightarrow> map (\<lambda>d. (d, tgt)) (sorted_list_of_set (get_group_for_node (sk_graph other_sketch) other_idx))
               | None \<Rightarrow> []) })"

definition label_dtvs ::
    "('g, 'w, field_label) petgraph \<Rightarrow> ('g, 'w, 'tid::linorder) sketch \<Rightarrow> ('g, 'w, 'tid) sketch \<Rightarrow>
     ('g, 'w, 'tid) sketch option" where
  "label_dtvs G other_sketch sk =
     do { ent \<leftarrow> get_entry sk;
          pths \<leftarrow> explore_paths (pg_out G (mg_grph (sk_graph sk))) ent;
          pairs \<leftarrow> traverse (label_pairs G sk other_sketch) pths;
          let mapping = map_of (rev (concat pairs))
          in Some (sk\<lparr>sk_graph := relable_representative_nodes (sk_graph sk) mapping,
                      representing := representing other_sketch\<rparr>) }"

section \<open>Copying a callee into a caller\<close>

definition tag_base_with_destination_tag :: "'tid type_variable \<Rightarrow> 'tid dtv \<Rightarrow> 'tid dtv" where
  "tag_base_with_destination_tag from_base target =
     (if tv_to_callee (dtv_var target) = tv_to_callee from_base
      then create_with_path from_base (dtv_labels target) else target)"

definition add_idx_to ::
    "('g, 'w, field_label) petgraph \<Rightarrow> ('w \<Rightarrow> 'w \<Rightarrow> 'w) \<Rightarrow> ('g, 'w, 'tid::linorder) sketch_graph \<Rightarrow>
     'tid type_variable \<Rightarrow> nat \<Rightarrow> ('g, 'tid dtv) mapping_graph \<Rightarrow> ('g, 'tid dtv) mapping_graph option" where
  "add_idx_to G opr sg from_base reached_idx into =
     (case sorted_list_of_set (get_group_for_node (quotient_graph sg) reached_idx) of
        [] \<Rightarrow> None
      | rand_fst # others \<Rightarrow>
          do { w \<leftarrow> pg_node_weight G (mg_grph (quotient_graph sg)) reached_idx;
               (_, into1) \<leftarrow> mg_add_node G opr (tag_base_with_destination_tag from_base rand_fst) w into;
               fold_opt (\<lambda>member. merge_nodes G opr (tag_base_with_destination_tag from_base rand_fst)
                   (tag_base_with_destination_tag from_base member)) (rand_fst # others) into1 })"

definition get_key_and_weight_for_index ::
    "('g, 'w, field_label) petgraph \<Rightarrow> ('g, 'w, 'tid::linorder) sketch_graph \<Rightarrow> nat \<Rightarrow> ('tid dtv \<times> 'w) option" where
  "get_key_and_weight_for_index G sg idx =
     (case sorted_list_of_set (get_group_for_node (quotient_graph sg) idx) of
        [] \<Rightarrow> None
      | d # _ \<Rightarrow> map_option (\<lambda>w. (d, w)) (pg_node_weight G (mg_grph (quotient_graph sg)) idx))"

definition get_target_nodes_to_copy ::
    "('tid dtv set \<Rightarrow> 'tid dtv list) \<Rightarrow> ('g, 'w, field_label) petgraph \<Rightarrow> ('g, 'w, 'tid) sketch_graph \<Rightarrow>
     'tid dtv \<Rightarrow> nat set" where
  "get_target_nodes_to_copy dord G sg repr_dtv =
     (let repr = mg_get_node (quotient_graph sg) repr_dtv;
          stack = List.map_filter (\<lambda>d. if dtv_is_global d then mg_nodes (quotient_graph sg) d else None)
              (dord (dom (mg_nodes (quotient_graph sg))));
          stack' = (case repr of Some r \<Rightarrow> stack @ [r] | None \<Rightarrow> stack)
      in set (pg_dfs G (mg_grph (quotient_graph sg)) stack'))"

definition copy_reachable_edge ::
    "('g, 'w, field_label) petgraph \<Rightarrow> ('w \<Rightarrow> 'w \<Rightarrow> 'w) \<Rightarrow> ('g, 'w, 'tid::linorder) sketch_graph \<Rightarrow> 'tid dtv \<Rightarrow>
     nat set \<Rightarrow> field_label edge_ref \<Rightarrow> nat option \<times> ('g, 'tid dtv) mapping_graph \<Rightarrow>
     (nat option \<times> ('g, 'tid dtv) mapping_graph) option" where
  "copy_reachable_edge G opr sg from_dtv reachable_idxs e st =
     (case (e, st) of ((_, s, t, w), (repr, into)) \<Rightarrow>
        if t \<in> reachable_idxs \<and> s \<in> reachable_idxs then
          do { (k1, w1) \<leftarrow> get_key_and_weight_for_index G sg s;
               let key1 = tag_base_with_destination_tag (dtv_var from_dtv) k1
               in do { (source, into1) \<leftarrow> mg_add_node G opr key1 w1 into;
                       let repr1 = (if key1 = from_dtv then Some source else repr)
                       in do { (k2, w2) \<leftarrow> get_key_and_weight_for_index G sg t;
                               let key2 = tag_base_with_destination_tag (dtv_var from_dtv) k2
                               in do { (target, into2) \<leftarrow> mg_add_node G opr key2 w2 into1;
                                       let repr2 = (if key2 = from_dtv then Some target else repr1)
                                       in map_option (\<lambda>(_, into3). (repr2, into3))
                                            (mg_add_edge G source target w into2) } } } }
        else Some (repr, into))"

definition copy_reachable_subgraph_into ::
    "('tid dtv set \<Rightarrow> 'tid dtv list) \<Rightarrow> ('g, 'w, field_label) petgraph \<Rightarrow> ('w \<Rightarrow> 'w \<Rightarrow> 'w) \<Rightarrow>
     ('g, 'w, 'tid::linorder) sketch_graph \<Rightarrow> 'tid dtv \<Rightarrow> ('g, 'tid dtv) mapping_graph \<Rightarrow>
     (nat option \<times> ('g, 'tid dtv) mapping_graph) option" where
  "copy_reachable_subgraph_into dord G opr sg from_dtv into =
     (let repr_dtv = create_with_path (tv_to_callee (dtv_var from_dtv)) (dtv_labels from_dtv);
          reachable_idxs = get_target_nodes_to_copy dord G sg repr_dtv
      in if reachable_idxs \<noteq> {} then
           do { into1 \<leftarrow> fold_opt (add_idx_to G opr sg (dtv_var from_dtv)) (sorted_list_of_set reachable_idxs) into;
                fold_opt (copy_reachable_edge G opr sg from_dtv reachable_idxs)
                  (edge_references G (mg_grph (quotient_graph sg))) (None, into1) }
         else Some (None, into))"

text \<open>The sketch that a name at a node stands for.\<close>

definition sketch_at :: "('g, 'w, field_label) petgraph \<Rightarrow> ('g, 'w, 'tid) sketch_graph \<Rightarrow> 'tid dtv \<Rightarrow> nat \<Rightarrow> ('g, 'w, 'tid) sketch" where
  "sketch_at G sg d i = \<lparr>sk_graph = get_reachable_subgraph G (quotient_graph sg) i, representing = d,
      sk_default = default_label sg\<rparr>"

section \<open>Sub-sketches\<close>

context stable_digraph
begin

lemma find_node_weighted:
  assumes "ok g" "deterministic (weighted_arcs G g)"
  shows "find_node (pg_out G g) s word = Some n \<longleftrightarrow> edge_path (weighted_arcs G g) s word n"
proof -
  have "weight_rel (pg_out G g) = weighted_arcs G g"
    using pg_weight_rel [OF assms(1)] by (auto simp: weighted_arcs_def)
  then show ?thesis using find_node_spec [of "pg_out G g"] assms(2) by simp
qed

lemma no_incoming_iff:
  assumes "ok g"
  shows "edges_directed G g x Incoming = [] \<longleftrightarrow> (\<forall>a w. (a, w, x) \<notin> weighted_arcs G g)"
proof -
  have "edges_directed G g x Incoming = [] \<longleftrightarrow> set (edges_directed G g x Incoming) = {}" by simp
  also have "\<dots> \<longleftrightarrow> (\<forall>i a w. pg_edge G g i \<noteq> Some (a, x, w))"
    unfolding set_edges_directed [OF assms] by auto
  also have "\<dots> \<longleftrightarrow> (\<forall>a w. (a, w, x) \<notin> weighted_arcs G g)" by (auto simp: weighted_arcs_def)
  finally show ?thesis .
qed

text \<open>Within the part that a node reaches, only the node itself can be without a predecessor.\<close>

lemma reachable_incoming:
  assumes m: "mg_ok G ok m" and n: "pg_node_weight G (mg_grph m) n \<noteq> None"
  shows "edges_directed G (mg_grph (get_reachable_subgraph G m n)) x Incoming = []
    \<longleftrightarrow> (n, x) \<notin> (arcs G (mg_grph m))\<^sup>+"
proof -
  let ?S = "get_reachable_subgraph G m n"
  have E: "weighted_arcs G (mg_grph ?S)
      = {(a, w, b) \<in> weighted_arcs G (mg_grph m). (n, a) \<in> (arcs G (mg_grph m))\<^sup>* \<and> (n, b) \<in> (arcs G (mg_grph m))\<^sup>*}"
  proof -
    have "pg_edge G (mg_grph ?S) i = Some (a, b, w) \<longleftrightarrow> pg_edge G (mg_grph m) i = Some (a, b, w)
        \<and> (n, a) \<in> (arcs G (mg_grph m))\<^sup>* \<and> (n, b) \<in> (arcs G (mg_grph m))\<^sup>*" for i a b w
      using filter_nodes_laws [OF mg_okD(1) [OF m], of "\<lambda>i. i \<in> mg_reachable_idxs G m n"] reachable_idxs [OF m n]
      by (auto simp: get_reachable_subgraph_def Let_def split: option.splits if_splits)
    then show ?thesis unfolding weighted_arcs_def by blast
  qed
  have "ok (mg_grph ?S)" using reachable_subgraph_spec(1) [OF m n] by (rule mg_okD(1))
  then have "edges_directed G (mg_grph ?S) x Incoming = [] \<longleftrightarrow>
      (\<forall>a w. (a, w, x) \<in> weighted_arcs G (mg_grph m) \<longrightarrow> (n, a) \<in> (arcs G (mg_grph m))\<^sup>* \<longrightarrow> (n, x) \<notin> (arcs G (mg_grph m))\<^sup>*)"
    unfolding no_incoming_iff [OF \<open>ok (mg_grph ?S)\<close>] E by blast
  also have "\<dots> \<longleftrightarrow> \<not> (\<exists>a. (a, x) \<in> arcs G (mg_grph m) \<and> (n, a) \<in> (arcs G (mg_grph m))\<^sup>*)"
  proof -
    have "(a, w, x) \<in> weighted_arcs G (mg_grph m) \<Longrightarrow> (n, a) \<in> (arcs G (mg_grph m))\<^sup>* \<Longrightarrow> (n, x) \<in> (arcs G (mg_grph m))\<^sup>*" for a w
      by (rule rtrancl_into_rtrancl) (auto simp: arcs_weighted)
    then show ?thesis by (auto simp: arcs_weighted)
  qed
  also have "\<dots> \<longleftrightarrow> (n, x) \<notin> (arcs G (mg_grph m))\<^sup>+"
    by (meson rtrancl_into_trancl1 tranclD2)
  finally show ?thesis .
qed

end

context label_digraph
begin

lemma subsketch_spec:
  assumes sk: "sketch_ok G ok sk e"
  shows "\<exists>res. get_subsketch_at_path G sk p = Some res
    \<and> (case res of
         None \<Rightarrow> \<forall>n. edge_path (weighted_arcs G (mg_grph (sk_graph sk))) e p n
             \<longrightarrow> (n, n) \<in> (arcs G (mg_grph (sk_graph sk)))\<^sup>+
       | Some sub \<Rightarrow> \<exists>n. edge_path (weighted_arcs G (mg_grph (sk_graph sk))) e p n
             \<and> (n, n) \<notin> (arcs G (mg_grph (sk_graph sk)))\<^sup>+ \<and> sketch_ok G ok sub n
             \<and> sketch_words G sub n = {w. p @ w \<in> sketch_words G sk e})"
proof -
  let ?m = "sk_graph sk" and ?E = "weighted_arcs G (mg_grph (sk_graph sk))" and ?A = "arcs G (mg_grph (sk_graph sk))"
  note D = sketch_okD [OF sk]
  note find = find_node_weighted [OF D(2,5)]
  show ?thesis
  proof (cases "find_node (pg_out G (mg_grph ?m)) e p")
    case None
    then have "\<not> edge_path ?E e p n" for n using find [of e p n] by simp
    then show ?thesis using None D(3) by (simp add: get_subsketch_at_path_def)
  next
    case (Some n)
    then have path: "edge_path ?E e p n" using find by blast
    have n: "pg_node_weight G (mg_grph ?m) n \<noteq> None" by (rule find_node_target [OF D(2,4) Some])
    let ?S = "get_reachable_subgraph G ?m n"
    note S = reachable_subgraph_spec [OF D(1) n]
    note okS = mg_okD(1) [OF S(1)]
    have nodes: "set (pg_node_indices G (mg_grph ?S)) = {x. (n, x) \<in> ?A\<^sup>* \<and> pg_node_weight G (mg_grph ?m) x \<noteq> None}"
      using node_indices_laws [OF okS] S(2) by auto
    let ?find = "find (\<lambda>x. edges_directed G (mg_grph ?S) x Incoming = []) (pg_node_indices G (mg_grph ?S))"
    show ?thesis
    proof (cases ?find)
      case no_root: None
      have "n \<in> set (pg_node_indices G (mg_grph ?S))" unfolding nodes using n by simp
      then have "edges_directed G (mg_grph ?S) n Incoming \<noteq> []" using no_root by (simp add: find_None_iff)
      then have "(n, n) \<in> ?A\<^sup>+" using reachable_incoming [OF D(1) n] by blast
      moreover have "n' = n" if "edge_path ?E e p n'" for n'
        using edge_path_deterministic [OF D(5) that path] .
      ultimately show ?thesis using no_root Some D(3)
        by (intro exI [of _ None]) (auto simp: get_subsketch_at_path_def)
    next
      case root: (Some r)
      then have "r \<in> set (pg_node_indices G (mg_grph ?S)) \<and> edges_directed G (mg_grph ?S) r Incoming = []"
        unfolding find_Some_iff by (elim exE conjE) simp
      then have r: "(n, r) \<in> ?A\<^sup>*" "(n, r) \<notin> ?A\<^sup>+" using nodes reachable_incoming [OF D(1) n] by auto
      then have rn: "r = n" by (metis rtranclD)
      define sub where "sub = \<lparr>sk_graph = relable_representative_nodes ?S [dtv_new (tv_new ''dummy'') \<mapsto> n],
          representing = dtv_new (tv_new ''dummy''), sk_default = sk_default sk\<rparr>"
      have run: "get_subsketch_at_path G sk p = Some (Some sub)"
        using Some root rn D(3) by (simp add: get_subsketch_at_path_def sub_def Let_def)
      have grph: "mg_grph (sk_graph sub) = mg_grph ?S"
        by (simp add: sub_def relable_representative_nodes_def inplace_relable_representative_nodes_def)
      have "mg_ok G ok (sk_graph sub)"
        unfolding sub_def sketch.simps relable_representative_nodes_def
        by (rule mg_ok_relabel [OF okS]) (use S(2) [of n] n in \<open>auto split: if_splits\<close>)
      moreover have "mg_nodes (sk_graph sub) (representing sub) = Some n"
        by (simp add: sub_def relable_representative_nodes_def inplace_relable_representative_nodes_def)
      moreover have "weighted_arcs G (mg_grph ?S) \<subseteq> ?E"
        using filter_nodes_laws [OF D(2), of "\<lambda>i. i \<in> mg_reachable_idxs G ?m n"]
        by (auto simp: weighted_arcs_def get_reachable_subgraph_def Let_def split: option.splits if_splits)
      then have "deterministic (weighted_arcs G (mg_grph (sk_graph sub)))"
        using D(5) unfolding grph deterministic_def by blast
      ultimately have ok: "sketch_ok G ok sub n" by (simp add: sketch_ok_def)
      have "w \<in> sketch_words G sub n \<longleftrightarrow> p @ w \<in> sketch_words G sk e" for w
        unfolding sketch_words_def grph mem_Collect_eq S(4) edge_path_append
        using path edge_path_deterministic [OF D(5) _ path] by blast
      then show ?thesis using run path r(2) rn ok by (intro exI [of _ "Some sub"]) auto
    qed
  qed
qed

text \<open>The sketch of a name that the graph has is the part that its node reaches.\<close>

lemma filter_eq_single: "distinct xs \<Longrightarrow> filter (\<lambda>x. t = x) xs = (if t \<in> set xs then [t] else [])"
  by (induction xs) auto

lemma representing_sketch:
  assumes m: "mg_ok G ok (quotient_graph sg)" and dord: "is_enum dord"
  shows "get_representing_sketch dord G d sg
    = (case mg_nodes (quotient_graph sg) (dtv_to_callee d) of
         Some i \<Rightarrow> [(i, sketch_at G sg (dtv_to_callee d) i)] | None \<Rightarrow> [])"
proof -
  note fin = mg_okD(2) [OF m]
  have only: "filter (\<lambda>canidate. dtv_to_callee d = canidate) (dord (dom (mg_nodes (quotient_graph sg))))
      = (if mg_nodes (quotient_graph sg) (dtv_to_callee d) = None then [] else [dtv_to_callee d])"
    using filter_eq_single [OF is_enumD(2) [OF dord fin]] is_enumD(1) [OF dord fin] by auto
  show ?thesis
    unfolding get_representing_sketch_def Let_def get_representations_by_dtv_def only
    by (simp add: sketch_at_def List.map_filter_simps split: option.split)
qed

lemma sketch_at_ok:
  assumes m: "mg_ok G ok (quotient_graph sg)" and d: "mg_nodes (quotient_graph sg) d = Some i"
    and det: "deterministic (weighted_arcs G (mg_grph (quotient_graph sg)))"
  shows "sketch_ok G ok (sketch_at G sg d i) i"
    "sketch_words G (sketch_at G sg d i) i = {w. \<exists>n. edge_path (weighted_arcs G (mg_grph (quotient_graph sg))) i w n}"
proof -
  note i = mg_okD(4) [OF m d]
  note S = reachable_subgraph_spec [OF m i]
  have "weighted_arcs G (mg_grph (get_reachable_subgraph G (quotient_graph sg) i))
      \<subseteq> weighted_arcs G (mg_grph (quotient_graph sg))"
    using filter_nodes_laws [OF mg_okD(1) [OF m], of "\<lambda>k. k \<in> mg_reachable_idxs G (quotient_graph sg) i"]
    by (auto simp: weighted_arcs_def get_reachable_subgraph_def Let_def split: option.splits if_splits)
  then have "deterministic (weighted_arcs G (mg_grph (get_reachable_subgraph G (quotient_graph sg) i)))"
    using det unfolding deterministic_def by blast
  then show "sketch_ok G ok (sketch_at G sg d i) i"
    using S(1) S(3) [of d] d by (simp add: sketch_ok_def sketch_at_def)
  show "sketch_words G (sketch_at G sg d i) i = {w. \<exists>n. edge_path (weighted_arcs G (mg_grph (quotient_graph sg))) i w n}"
    by (simp add: sketch_words_def sketch_at_def S(4))
qed

text \<open>Every name of a sketch is placed where its word leads in the relabelled one.\<close>

lemma label_dtvs_spec:
  assumes sk: "sketch_ok G ok sk e" and other: "sketch_ok G ok other f"
  shows "\<exists>sk' wd. label_dtvs G other sk = Some sk' \<and> representing sk' = representing other
    \<and> mg_grph (sk_graph sk') = mg_grph (sk_graph sk) \<and> mg_ok G ok (sk_graph sk')
    \<and> (\<forall>n. (e, n) \<in> (arcs G (mg_grph (sk_graph sk)))\<^sup>* \<longrightarrow> edge_path (weighted_arcs G (mg_grph (sk_graph sk))) e (wd n) n)
    \<and> (\<forall>d. case mg_nodes (sk_graph sk') d of
         Some n \<Rightarrow> (e, n) \<in> (arcs G (mg_grph (sk_graph sk)))\<^sup>*
           \<and> (\<exists>k. mg_nodes (sk_graph other) d = Some k \<and> edge_path (weighted_arcs G (mg_grph (sk_graph other))) f (wd n) k)
       | None \<Rightarrow> \<forall>n k. (e, n) \<in> (arcs G (mg_grph (sk_graph sk)))\<^sup>* \<longrightarrow> mg_nodes (sk_graph other) d = Some k
           \<longrightarrow> \<not> edge_path (weighted_arcs G (mg_grph (sk_graph other))) f (wd n) k)"
proof -
  let ?g = "mg_grph (sk_graph sk)" and ?o = "mg_grph (sk_graph other)"
  note D = sketch_okD [OF sk] and O = sketch_okD [OF other]
  let ?find = "\<lambda>ws. find_node (pg_out G ?o) f ws"
  note find = find_node_weighted [OF O(2,5)]
  obtain paths wd where paths: "explore_paths (pg_out G ?g) e = Some paths" "set (map snd paths) = (arcs G ?g)\<^sup>* `` {e}"
    and words: "\<forall>(p, n) \<in> set paths. traverse (edge_weight G ?g) p = Some (wd n) \<and> edge_path (weighted_arcs G ?g) e (wd n) n"
    using explored_words [OF D(2), of e] by blast
  define h where "h = (\<lambda>(p :: nat list, n). case ?find (wd n) of
      Some k \<Rightarrow> map (\<lambda>d. (d, n)) (sorted_list_of_set (get_group_for_node (sk_graph other) k)) | None \<Rightarrow> [])"
  have "traverse (label_pairs G sk other) paths = Some (map h paths)"
  proof (rule traverse_Some_map)
    fix x assume x: "x \<in> set paths"
    obtain p n where pn: "x = (p, n)" by (cases x)
    have "traverse (edge_weight G ?g) p = Some (wd n)" using words x pn by blast
    then show "label_pairs G sk other x = Some (h x)"
      using O(3) by (simp add: pn label_pairs_def h_def)
  qed
  then have run: "label_dtvs G other sk = Some (sk\<lparr>sk_graph := relable_representative_nodes (sk_graph sk)
      (map_of (rev (concat (map h paths)))), representing := representing other\<rparr>)"
    using paths(1) D(3) by (simp add: label_dtvs_def Let_def)
  define mp where "mp = map_of (rev (concat (map h paths)))"
  have grp: "d \<in> set (sorted_list_of_set (get_group_for_node (sk_graph other) k)) \<longleftrightarrow> mg_nodes (sk_graph other) d = Some k" for d k
  proof -
    have "get_group_for_node (sk_graph other) k \<subseteq> dom (mg_nodes (sk_graph other))" using mg_okD(3) [OF O(1)] by blast
    then have "finite (get_group_for_node (sk_graph other) k)" using mg_okD(2) [OF O(1)] finite_subset by blast
    then show ?thesis using mg_okD(3) [OF O(1)] by simp
  qed
  have mem: "(d, n) \<in> set (concat (map h paths)) \<longleftrightarrow> (e, n) \<in> (arcs G ?g)\<^sup>*
      \<and> (\<exists>k. mg_nodes (sk_graph other) d = Some k \<and> edge_path (weighted_arcs G ?o) f (wd n) k)" for d n
  proof -
    have "(d, n) \<in> set (concat (map h paths)) \<longleftrightarrow> (\<exists>p. (p, n) \<in> set paths \<and> (\<exists>k. ?find (wd n) = Some k \<and> mg_nodes (sk_graph other) d = Some k))"
      using grp by (force simp: h_def split: option.splits)
    also have "\<dots> \<longleftrightarrow> n \<in> set (map snd paths) \<and> (\<exists>k. ?find (wd n) = Some k \<and> mg_nodes (sk_graph other) d = Some k)"
      by force
    finally show ?thesis unfolding paths(2) find by auto
  qed
  have some: "mp d = Some n \<Longrightarrow> (d, n) \<in> set (concat (map h paths))" for d n
    unfolding mp_def using map_of_SomeD by fastforce
  have none: "mp d = None \<Longrightarrow> (d, n) \<notin> set (concat (map h paths))" for d n
    unfolding mp_def by (force simp: map_of_eq_None_iff)
  define sk' where "sk' = sk\<lparr>sk_graph := relable_representative_nodes (sk_graph sk) mp, representing := representing other\<rparr>"
  have sel: "representing sk' = representing other" "mg_grph (sk_graph sk') = ?g" "mg_nodes (sk_graph sk') = mp"
    by (simp_all add: sk'_def relable_representative_nodes_def inplace_relable_representative_nodes_def)
  have "mg_ok G ok (sk_graph sk')"
    unfolding sk'_def
  proof (simp add: relable_representative_nodes_def, rule mg_ok_relabel [OF D(2)])
    have "dom mp \<subseteq> dom (mg_nodes (sk_graph other))" using some mem by blast
    then show "finite (dom mp)" using mg_okD(2) [OF O(1)] finite_subset by blast
    fix d n assume "mp d = Some n"
    then have "n \<in> set (map snd paths)" using some mem unfolding paths(2) by blast
    then obtain p where "(p, n) \<in> set paths" by force
    then have "edge_path (weighted_arcs G ?g) e (wd n) n" using words by blast
    then have "find_node (pg_out G ?g) e (wd n) = Some n" using find_node_weighted [OF D(2,5)] by blast
    then show "pg_node_weight G ?g n \<noteq> None" by (rule find_node_target [OF D(2,4)])
  qed
  moreover have "label_dtvs G other sk = Some sk'" unfolding run sk'_def mp_def ..
  moreover have "edge_path (weighted_arcs G ?g) e (wd n) n" if "(e, n) \<in> (arcs G ?g)\<^sup>*" for n
  proof -
    have "n \<in> set (map snd paths)" using that unfolding paths(2) by blast
    then show ?thesis using words by fastforce
  qed
  moreover have "case mp d of
         Some n \<Rightarrow> (e, n) \<in> (arcs G ?g)\<^sup>*
           \<and> (\<exists>k. mg_nodes (sk_graph other) d = Some k \<and> edge_path (weighted_arcs G ?o) f (wd n) k)
       | None \<Rightarrow> \<forall>n k. (e, n) \<in> (arcs G ?g)\<^sup>* \<longrightarrow> mg_nodes (sk_graph other) d = Some k
           \<longrightarrow> \<not> edge_path (weighted_arcs G ?o) f (wd n) k" for d
  proof (cases "mp d")
    case None
    then show ?thesis unfolding None option.case using none [OF None] mem by blast
  next
    case (Some n)
    then show ?thesis using some [OF Some] mem by simp
  qed
  ultimately show ?thesis unfolding sel(3) [symmetric] using sel(1,2)
    by (intro exI [of _ sk'] exI [of _ wd]) blast
qed

end

section \<open>Homomorphisms of mapping graphs\<close>

text \<open>Names stay with their nodes and edges stay, up to the merging of nodes.\<close>

definition mg_hom :: "('g, 'w, 'e) petgraph \<Rightarrow> (nat \<Rightarrow> nat) \<Rightarrow> ('g, 'n) mapping_graph \<Rightarrow> ('g, 'n) mapping_graph \<Rightarrow> bool" where
  "mg_hom G q m m' \<longleftrightarrow> (\<forall>n i. mg_nodes m n = Some i \<longrightarrow> mg_nodes m' n = Some (q i))
     \<and> (\<forall>a w b. (a, w, b) \<in> weighted_arcs G (mg_grph m) \<longrightarrow> (q a, w, q b) \<in> weighted_arcs G (mg_grph m'))"

lemma mg_homD:
  "mg_hom G q m m' \<Longrightarrow> mg_nodes m n = Some i \<Longrightarrow> mg_nodes m' n = Some (q i)"
  "mg_hom G q m m' \<Longrightarrow> (a, w, b) \<in> weighted_arcs G (mg_grph m) \<Longrightarrow> (q a, w, q b) \<in> weighted_arcs G (mg_grph m')"
  unfolding mg_hom_def by blast+

lemma mg_hom_id: "mg_hom G (\<lambda>i. i) m m"
  by (simp add: mg_hom_def)

lemma mg_hom_trans: "mg_hom G q m m' \<Longrightarrow> mg_hom G r m' m'' \<Longrightarrow> mg_hom G (\<lambda>i. r (q i)) m m''"
  unfolding mg_hom_def by simp

text \<open>Names that share a node go on doing so.\<close>

definition same_node :: "('g, 'n) mapping_graph \<Rightarrow> 'n \<Rightarrow> 'n \<Rightarrow> bool" where
  "same_node m a b \<longleftrightarrow> mg_nodes m a \<noteq> None \<and> mg_nodes m a = mg_nodes m b"

lemma same_node_hom: "mg_hom G q m m' \<Longrightarrow> same_node m a b \<Longrightarrow> same_node m' a b"
  unfolding same_node_def using mg_homD(1) [of G q m m'] by (metis not_Some_eq)

lemma same_node_trans: "same_node m a b \<Longrightarrow> same_node m a c \<Longrightarrow> same_node m b c"
  unfolding same_node_def by metis

definition named_edge :: "('g, 'w, 'e) petgraph \<Rightarrow> ('g, 'n) mapping_graph \<Rightarrow> 'n \<Rightarrow> 'e \<Rightarrow> 'n \<Rightarrow> bool" where
  "named_edge G m a w b \<longleftrightarrow> (\<exists>x y. mg_nodes m a = Some x \<and> mg_nodes m b = Some y \<and> (x, w, y) \<in> weighted_arcs G (mg_grph m))"

lemma named_edge_hom: "mg_hom G q m m' \<Longrightarrow> named_edge G m a w b \<Longrightarrow> named_edge G m' a w b"
  unfolding named_edge_def using mg_homD [of G q m m'] by meson

lemma named_edge_same: "named_edge G m a w b \<Longrightarrow> same_node m a c \<Longrightarrow> same_node m b d \<Longrightarrow> named_edge G m c w d"
  by (auto simp: named_edge_def same_node_def)

context stable_digraph
begin

lemma add_node_hom:
  assumes m: "mg_ok G ok m"
  shows "\<exists>x m'. mg_add_node G opr key w m = Some (x, m') \<and> mg_ok G ok m' \<and> mg_hom G (\<lambda>i. i) m m'
    \<and> mg_nodes m' key = Some x \<and> dom (mg_nodes m') = insert key (dom (mg_nodes m))"
proof -
  obtain x m' where a: "mg_add_node G opr key w m = Some (x, m')" "mg_ok G ok m'"
    "mg_nodes m' = (mg_nodes m)(key \<mapsto> x)" "pg_edge G (mg_grph m') = pg_edge G (mg_grph m)"
    "case mg_nodes m key of Some y \<Rightarrow> x = y | None \<Rightarrow> True"
    using mg_add_node_spec [OF m, of opr key w] by (auto split: option.splits)
  have "weighted_arcs G (mg_grph m') = weighted_arcs G (mg_grph m)" by (simp add: weighted_arcs_def a(4))
  moreover have "mg_nodes m n = Some i \<Longrightarrow> mg_nodes m' n = Some i" for n i using a(3,5) by (cases "n = key") auto
  ultimately show ?thesis using a(1,2,3) by (intro exI [of _ x] exI [of _ m']) (simp add: mg_hom_def)
qed

lemma merge_hom:
  assumes m: "mg_ok G ok m" and k1: "mg_nodes m k1 = Some f"
  shows "\<exists>m' q. merge_nodes G opr k1 k2 m = Some m' \<and> mg_ok G ok m' \<and> mg_hom G q m m'
    \<and> same_node m' k1 k2 \<and> dom (mg_nodes m') = insert k2 (dom (mg_nodes m))"
proof (cases "mg_nodes m k2")
  case None
  let ?m = "m\<lparr>mg_nodes := (mg_nodes m)(k2 \<mapsto> f), mg_reprs := (mg_reprs m)(f \<mapsto> insert k2 (get_group_for_node m f))\<rparr>"
  have run: "merge_nodes G opr k1 k2 m = Some ?m" by (simp add: merge_nodes_def k1 None)
  moreover have "mg_ok G ok ?m"
  proof -
    obtain m' where "merge_nodes G opr k1 k2 m = Some m'" "mg_ok G ok m'"
      using invariant_spec [OF m, of opr k1 _ _ _ _ k2] by blast
    then show ?thesis using run by simp
  qed
  moreover have "mg_hom G (\<lambda>i. i) m ?m" using None by (auto simp: mg_hom_def)
  moreover have "same_node ?m k1 k2" using None k1 by (auto simp: same_node_def)
  moreover have "dom (mg_nodes ?m) = insert k2 (dom (mg_nodes m))" by simp
  ultimately show ?thesis by blast
next
  case (Some s)
  show ?thesis
  proof (cases "f = s")
    case True
    then have "merge_nodes G opr k1 k2 m = Some m" by (simp add: merge_nodes_def k1 Some)
    then show ?thesis using m mg_hom_id Some k1 True by (intro exI [of _ m] exI [of _ "\<lambda>i. i"]) (auto simp: same_node_def)
  next
    case False
    obtain m' k where a: "merge_nodes G opr k1 k2 m = Some m'" "mg_ok G ok m'"
      "mg_nodes m' = (\<lambda>n. map_option (\<lambda>i. if i = f \<or> i = s then k else i) (mg_nodes m n))"
      "weighted_arcs G (mg_grph m') = (\<lambda>(a, w, b). (if a = f \<or> a = s then k else a, w, if b = f \<or> b = s then k else b))
        ` weighted_arcs G (mg_grph m)"
      using merge_nodes_spec [OF m k1 Some False, of opr] by blast
    have "mg_hom G (\<lambda>i. if i = f \<or> i = s then k else i) m m'"
      unfolding mg_hom_def a(3,4) by force
    moreover have "same_node m' k1 k2" using k1 Some by (simp add: same_node_def a(3))
    moreover have "dom (mg_nodes m') = insert k2 (dom (mg_nodes m))" using Some by (auto simp: a(3))
    ultimately show ?thesis using a(1,2) by blast
  qed
qed

lemma merges_hom:
  "mg_ok G ok m \<Longrightarrow> mg_nodes m k1 \<noteq> None \<Longrightarrow>
   \<exists>m' q. fold_opt (\<lambda>member. merge_nodes G opr k1 (t member)) ks m = Some m' \<and> mg_ok G ok m' \<and> mg_hom G q m m'
     \<and> (\<forall>k \<in> set ks. same_node m' k1 (t k)) \<and> dom (mg_nodes m') = dom (mg_nodes m) \<union> t ` set ks"
proof (induction ks arbitrary: m)
  case Nil
  then show ?case using mg_hom_id by auto
next
  case (Cons k ks)
  obtain f where f: "mg_nodes m k1 = Some f" using Cons.prems(2) by blast
  obtain m1 q1 where 1: "merge_nodes G opr k1 (t k) m = Some m1" "mg_ok G ok m1" "mg_hom G q1 m m1"
    "same_node m1 k1 (t k)" "dom (mg_nodes m1) = insert (t k) (dom (mg_nodes m))"
    using merge_hom [OF Cons.prems(1) f, of opr "t k"] by blast
  have "mg_nodes m1 k1 \<noteq> None" using 1(4) unfolding same_node_def by (rule conjunct1)
  then obtain m' q where 2: "fold_opt (\<lambda>member. merge_nodes G opr k1 (t member)) ks m1 = Some m'" "mg_ok G ok m'"
    "mg_hom G q m1 m'" "\<forall>k \<in> set ks. same_node m' k1 (t k)" "dom (mg_nodes m') = dom (mg_nodes m1) \<union> t ` set ks"
    using Cons.IH [OF 1(2)] by blast
  have "\<forall>x \<in> set (k # ks). same_node m' k1 (t x)" using 2(4) same_node_hom [OF 2(3) 1(4)] by simp
  then show ?case using 1(1,5) 2(1,2,5) mg_hom_trans [OF 1(3) 2(3)]
    by (intro exI [of _ m'] exI [of _ "\<lambda>i. q (q1 i)"]) auto
qed

lemma group_list:
  assumes "mg_ok G ok m"
  shows "set (sorted_list_of_set (get_group_for_node m i)) = {d. mg_nodes m d = Some i}"
proof -
  have eq: "get_group_for_node m i = {d. mg_nodes m d = Some i}" using mg_okD(3) [OF assms] by blast
  have "{d. mg_nodes m d = Some i} \<subseteq> dom (mg_nodes m)" by auto
  then have "finite {d. mg_nodes m d = Some i}" using mg_okD(2) [OF assms] finite_subset by blast
  then show ?thesis by (simp add: eq)
qed

end

section \<open>Copying a callee into a caller\<close>

text \<open>The names of a node, tagged, are at one node of the target.\<close>

definition group_placed :: "('g, 'w, 'tid) sketch_graph \<Rightarrow> 'tid type_variable \<Rightarrow> nat \<Rightarrow> ('g, 'tid dtv) mapping_graph \<Rightarrow> bool" where
  "group_placed sg base i into \<longleftrightarrow> (\<forall>d e. mg_nodes (quotient_graph sg) d = Some i \<longrightarrow> mg_nodes (quotient_graph sg) e = Some i
     \<longrightarrow> same_node into (tag_base_with_destination_tag base d) (tag_base_with_destination_tag base e))"

lemma group_placed_hom: "mg_hom G q m m' \<Longrightarrow> group_placed sg base i m \<Longrightarrow> group_placed sg base i m'"
  unfolding group_placed_def by (intro allI impI, erule same_node_hom) blast

text \<open>The edge, between the tagged names of its ends.\<close>

definition edge_placed ::
    "('g, 'w, field_label) petgraph \<Rightarrow> ('g, 'w, 'tid) sketch_graph \<Rightarrow> 'tid type_variable \<Rightarrow> nat \<times> field_label \<times> nat \<Rightarrow>
     ('g, 'tid dtv) mapping_graph \<Rightarrow> bool" where
  "edge_placed G sg base e into \<longleftrightarrow> (case e of (a, w, b) \<Rightarrow> \<forall>d d'. mg_nodes (quotient_graph sg) d = Some a
     \<longrightarrow> mg_nodes (quotient_graph sg) d' = Some b
     \<longrightarrow> named_edge G into (tag_base_with_destination_tag base d) w (tag_base_with_destination_tag base d'))"

lemma edge_placed_hom: "mg_hom G q m m' \<Longrightarrow> edge_placed G sg base e m \<Longrightarrow> edge_placed G sg base e m'"
  unfolding edge_placed_def by (cases e) (auto intro: named_edge_hom)

context label_digraph
begin

lemma add_idx_hom:
  assumes sg: "mg_ok G ok (quotient_graph sg)" and into: "mg_ok G ok into"
    and d: "mg_nodes (quotient_graph sg) d = Some i"
  shows "\<exists>m' q. add_idx_to G opr sg base i into = Some m' \<and> mg_ok G ok m' \<and> mg_hom G q into m'
    \<and> group_placed sg base i m'
    \<and> dom (mg_nodes m') = dom (mg_nodes into) \<union> tag_base_with_destination_tag base ` {d. mg_nodes (quotient_graph sg) d = Some i}"
proof -
  let ?t = "tag_base_with_destination_tag base"
  let ?grp = "sorted_list_of_set (get_group_for_node (quotient_graph sg) i)"
  have grp: "set ?grp = {d. mg_nodes (quotient_graph sg) d = Some i}" by (rule group_list [OF sg])
  obtain fst' rest where fr: "?grp = fst' # rest" using grp d by (cases ?grp) auto
  obtain w where w: "pg_node_weight G (mg_grph (quotient_graph sg)) i = Some w" using mg_okD(4) [OF sg d] by blast
  obtain x m1 where 1: "mg_add_node G opr (?t fst') w into = Some (x, m1)" "mg_ok G ok m1" "mg_hom G (\<lambda>i. i) into m1"
    "mg_nodes m1 (?t fst') = Some x" "dom (mg_nodes m1) = insert (?t fst') (dom (mg_nodes into))"
    using add_node_hom [OF into, of opr "?t fst'" w] by blast
  obtain m' q where 2: "fold_opt (\<lambda>member. merge_nodes G opr (?t fst') (?t member)) ?grp m1 = Some m'" "mg_ok G ok m'"
    "mg_hom G q m1 m'" "\<forall>k \<in> set ?grp. same_node m' (?t fst') (?t k)"
    "dom (mg_nodes m') = dom (mg_nodes m1) \<union> ?t ` set ?grp"
    using merges_hom [OF 1(2), of "?t fst'" opr ?t ?grp] 1(4) by auto
  have "add_idx_to G opr sg base i into = Some m'"
    unfolding add_idx_to_def fr list.case w 1(1) Option.bind.bind_lunit case_prod_conv 2(1) [unfolded fr] ..
  moreover have "group_placed sg base i m'"
    unfolding group_placed_def
  proof (intro allI impI)
    fix a b assume "mg_nodes (quotient_graph sg) a = Some i" "mg_nodes (quotient_graph sg) b = Some i"
    then have "a \<in> set ?grp" "b \<in> set ?grp" unfolding grp by simp_all
    then have "same_node m' (?t fst') (?t a)" "same_node m' (?t fst') (?t b)" using 2(4) by blast+
    then show "same_node m' (?t a) (?t b)" by (rule same_node_trans)
  qed
  moreover have "fst' \<in> set ?grp" by (simp add: fr)
  then have "dom (mg_nodes m') = dom (mg_nodes into) \<union> ?t ` {d. mg_nodes (quotient_graph sg) d = Some i}"
    unfolding 2(5) 1(5) grp by blast
  ultimately show ?thesis using 2(2) mg_hom_trans [OF 1(3) 2(3)] by blast
qed

lemma add_idxs_hom:
  assumes sg: "mg_ok G ok (quotient_graph sg)"
  shows "mg_ok G ok into \<Longrightarrow> \<forall>i \<in> set is. \<exists>d. mg_nodes (quotient_graph sg) d = Some i \<Longrightarrow>
    \<exists>m' q. fold_opt (add_idx_to G opr sg base) is into = Some m' \<and> mg_ok G ok m' \<and> mg_hom G q into m'
    \<and> (\<forall>i \<in> set is. group_placed sg base i m')
    \<and> dom (mg_nodes m') = dom (mg_nodes into)
        \<union> tag_base_with_destination_tag base ` {d. \<exists>i \<in> set is. mg_nodes (quotient_graph sg) d = Some i}"
proof (induction "is" arbitrary: into)
  case Nil
  then show ?case using mg_hom_id by auto
next
  case (Cons i "is")
  then obtain d where d: "mg_nodes (quotient_graph sg) d = Some i" by auto
  obtain m1 q1 where 1: "add_idx_to G opr sg base i into = Some m1" "mg_ok G ok m1" "mg_hom G q1 into m1"
    "group_placed sg base i m1"
    "dom (mg_nodes m1) = dom (mg_nodes into) \<union> tag_base_with_destination_tag base ` {d. mg_nodes (quotient_graph sg) d = Some i}"
    using add_idx_hom [OF sg Cons.prems(1) d, of opr base] by blast
  obtain m' q where 2: "fold_opt (add_idx_to G opr sg base) is m1 = Some m'" "mg_ok G ok m'" "mg_hom G q m1 m'"
    "\<forall>i \<in> set is. group_placed sg base i m'"
    "dom (mg_nodes m') = dom (mg_nodes m1)
        \<union> tag_base_with_destination_tag base ` {d. \<exists>i \<in> set is. mg_nodes (quotient_graph sg) d = Some i}"
    using Cons.IH [OF 1(2)] Cons.prems(2) by auto
  have "\<forall>i \<in> set (i # is). group_placed sg base i m'" using 2(4) group_placed_hom [OF 2(3) 1(4)] by simp
  then show ?case using 1(1,5) 2(1,2,5) mg_hom_trans [OF 1(3) 2(3)]
    by (intro exI [of _ m'] exI [of _ "\<lambda>i. q (q1 i)"]) auto
qed

lemma key_and_weight:
  assumes sg: "mg_ok G ok (quotient_graph sg)" and d: "mg_nodes (quotient_graph sg) d = Some i"
  shows "\<exists>k w. get_key_and_weight_for_index G sg i = Some (k, w) \<and> mg_nodes (quotient_graph sg) k = Some i"
proof -
  have grp: "set (sorted_list_of_set (get_group_for_node (quotient_graph sg) i)) = {d. mg_nodes (quotient_graph sg) d = Some i}"
    by (rule group_list [OF sg])
  obtain k ks where "sorted_list_of_set (get_group_for_node (quotient_graph sg) i) = k # ks"
    using grp d by (cases "sorted_list_of_set (get_group_for_node (quotient_graph sg) i)") auto
  moreover obtain w where "pg_node_weight G (mg_grph (quotient_graph sg)) i = Some w" using mg_okD(4) [OF sg d] by blast
  ultimately show ?thesis using grp by (intro exI [of _ k] exI [of _ w]) (auto simp: get_key_and_weight_for_index_def)
qed

lemma copy_edge_hom:
  assumes sg: "mg_ok G ok (quotient_graph sg)" and into: "mg_ok G ok into"
    and ends: "a \<in> R" "b \<in> R" "mg_nodes (quotient_graph sg) d1 = Some a" "mg_nodes (quotient_graph sg) d2 = Some b"
    and placed: "\<forall>i \<in> R. group_placed sg (dtv_var from_dtv) i into"
    and r: "\<forall>x. r = Some x \<longrightarrow> mg_nodes into from_dtv = Some x"
  shows "\<exists>r' m'. copy_reachable_edge G opr sg from_dtv R (i, a, b, w) (r, into) = Some (r', m')
    \<and> mg_ok G ok m' \<and> mg_hom G (\<lambda>i. i) into m' \<and> edge_placed G sg (dtv_var from_dtv) (a, w, b) m'
    \<and> dom (mg_nodes m') = dom (mg_nodes into) \<and> (\<forall>x. r' = Some x \<longrightarrow> mg_nodes m' from_dtv = Some x)"
proof -
  let ?t = "tag_base_with_destination_tag (dtv_var from_dtv)"
  obtain k1 w1 where k1: "get_key_and_weight_for_index G sg a = Some (k1, w1)" "mg_nodes (quotient_graph sg) k1 = Some a"
    using key_and_weight [OF sg ends(3)] by blast
  obtain k2 w2 where k2: "get_key_and_weight_for_index G sg b = Some (k2, w2)" "mg_nodes (quotient_graph sg) k2 = Some b"
    using key_and_weight [OF sg ends(4)] by blast
  have present: "?t k1 \<in> dom (mg_nodes into)" "?t k2 \<in> dom (mg_nodes into)"
    using placed ends(1,2) k1(2) k2(2) unfolding group_placed_def same_node_def by blast+
  obtain x m1 where 1: "mg_add_node G opr (?t k1) w1 into = Some (x, m1)" "mg_ok G ok m1" "mg_hom G (\<lambda>i. i) into m1"
    "mg_nodes m1 (?t k1) = Some x" "dom (mg_nodes m1) = insert (?t k1) (dom (mg_nodes into))"
    using add_node_hom [OF into, of opr "?t k1" w1] by blast
  obtain y m2 where 2: "mg_add_node G opr (?t k2) w2 m1 = Some (y, m2)" "mg_ok G ok m2" "mg_hom G (\<lambda>i. i) m1 m2"
    "mg_nodes m2 (?t k2) = Some y" "dom (mg_nodes m2) = insert (?t k2) (dom (mg_nodes m1))"
    using add_node_hom [OF 1(2), of opr "?t k2" w2] by blast
  have x2: "mg_nodes m2 (?t k1) = Some x" using mg_homD(1) [OF 2(3) 1(4)] by simp
  obtain g' where 3: "mg_add_edge G x y w m2 = Some ((x, w, y) \<notin> weighted_arcs G (mg_grph m2), m2\<lparr>mg_grph := g'\<rparr>)"
    "mg_ok G ok (m2\<lparr>mg_grph := g'\<rparr>)" "weighted_arcs G g' = insert (x, w, y) (weighted_arcs G (mg_grph m2))"
    using mg_add_edge_spec [OF 2(2) mg_okD(4) [OF 2(2) x2] mg_okD(4) [OF 2(2) 2(4)]] by blast
  let ?m = "m2\<lparr>mg_grph := g'\<rparr>"
  let ?r1 = "if ?t k1 = from_dtv then Some x else r"
  let ?r2 = "if ?t k2 = from_dtv then Some y else ?r1"
  have run: "copy_reachable_edge G opr sg from_dtv R (i, a, b, w) (r, into) = Some (?r2, ?m)"
    using ends(1,2) k1(1) k2(1) 1(1) 2(1) 3(1) by (simp add: copy_reachable_edge_def Let_def)
  have hom23: "mg_hom G (\<lambda>i. i) m2 ?m" by (simp add: mg_hom_def 3(3))
  have hom: "mg_hom G (\<lambda>i. i) into ?m"
    using mg_hom_trans [OF mg_hom_trans [OF 1(3) 2(3)] hom23] by simp
  have "edge_placed G sg (dtv_var from_dtv) (a, w, b) ?m"
    unfolding edge_placed_def case_prod_conv
  proof (intro allI impI)
    fix d d' assume d: "mg_nodes (quotient_graph sg) d = Some a" "mg_nodes (quotient_graph sg) d' = Some b"
    have "group_placed sg (dtv_var from_dtv) a ?m" "group_placed sg (dtv_var from_dtv) b ?m"
      using placed ends(1,2) group_placed_hom [OF hom] by blast+
    then have "same_node ?m (?t k1) (?t d)" "same_node ?m (?t k2) (?t d')"
      using k1(2) k2(2) d unfolding group_placed_def by meson+
    moreover have "named_edge G ?m (?t k1) w (?t k2)" unfolding named_edge_def using x2 2(4) 3(3) by simp
    ultimately show "named_edge G ?m (?t d) w (?t d')" by (elim named_edge_same)
  qed
  moreover have "dom (mg_nodes ?m) = dom (mg_nodes into)" using 1(5) 2(5) present by auto
  moreover have "mg_nodes ?m from_dtv = Some z" if "?r2 = Some z" for z
    using that x2 2(4) r mg_homD(1) [OF hom, of from_dtv] by (auto split: if_splits)
  ultimately show ?thesis using run 3(2) hom by blast
qed

lemma copy_edges_hom:
  assumes sg: "mg_ok G ok (quotient_graph sg)"
    and named: "\<forall>i \<in> R. \<exists>d. mg_nodes (quotient_graph sg) d = Some i"
  shows "mg_ok G ok into \<Longrightarrow> \<forall>i \<in> R. group_placed sg (dtv_var from_dtv) i into \<Longrightarrow>
    \<forall>x. r = Some x \<longrightarrow> mg_nodes into from_dtv = Some x \<Longrightarrow>
    \<exists>r' m'. fold_opt (copy_reachable_edge G opr sg from_dtv R) es (r, into) = Some (r', m')
    \<and> mg_ok G ok m' \<and> mg_hom G (\<lambda>i. i) into m'
    \<and> (\<forall>(i, a, b, w) \<in> set es. a \<in> R \<longrightarrow> b \<in> R \<longrightarrow> edge_placed G sg (dtv_var from_dtv) (a, w, b) m')
    \<and> dom (mg_nodes m') = dom (mg_nodes into) \<and> (\<forall>x. r' = Some x \<longrightarrow> mg_nodes m' from_dtv = Some x)"
proof (induction es arbitrary: r into)
  case Nil
  then show ?case using mg_hom_id by auto
next
  case (Cons e es)
  obtain i a b w where e: "e = (i, a, b, w)" by (cases e)
  show ?case
  proof (cases "a \<in> R \<and> b \<in> R")
    case False
    then have "copy_reachable_edge G opr sg from_dtv R e (r, into) = Some (r, into)"
      by (auto simp: copy_reachable_edge_def e)
    then show ?thesis using Cons.IH [OF Cons.prems] False by (auto simp: e)
  next
    case True
    then have inR: "a \<in> R" "b \<in> R" by simp_all
    then obtain d1 d2 where d: "mg_nodes (quotient_graph sg) d1 = Some a" "mg_nodes (quotient_graph sg) d2 = Some b"
      using named by blast
    obtain r1 m1 where 1: "copy_reachable_edge G opr sg from_dtv R (i, a, b, w) (r, into) = Some (r1, m1)"
      "mg_ok G ok m1" "mg_hom G (\<lambda>i. i) into m1" "edge_placed G sg (dtv_var from_dtv) (a, w, b) m1"
      "dom (mg_nodes m1) = dom (mg_nodes into)" "\<forall>x. r1 = Some x \<longrightarrow> mg_nodes m1 from_dtv = Some x"
      using copy_edge_hom [OF sg Cons.prems(1) inR d Cons.prems(2,3), of opr i w] by (elim exE conjE) (rule that)
    have placed: "\<forall>i \<in> R. group_placed sg (dtv_var from_dtv) i m1"
      using Cons.prems(2) group_placed_hom [OF 1(3)] by blast
    obtain r' m' where 2: "fold_opt (copy_reachable_edge G opr sg from_dtv R) es (r1, m1) = Some (r', m')"
      "mg_ok G ok m'" "mg_hom G (\<lambda>i. i) m1 m'"
      "\<forall>(i, a, b, w) \<in> set es. a \<in> R \<longrightarrow> b \<in> R \<longrightarrow> edge_placed G sg (dtv_var from_dtv) (a, w, b) m'"
      "dom (mg_nodes m') = dom (mg_nodes m1)" "\<forall>x. r' = Some x \<longrightarrow> mg_nodes m' from_dtv = Some x"
      using Cons.IH [OF 1(2) placed 1(6)] by (elim exE conjE) (rule that)
    have "edge_placed G sg (dtv_var from_dtv) (a, w, b) m'" by (rule edge_placed_hom [OF 2(3) 1(4)])
    then have "\<forall>(i, a, b, w) \<in> set (e # es). a \<in> R \<longrightarrow> b \<in> R \<longrightarrow> edge_placed G sg (dtv_var from_dtv) (a, w, b) m'"
      using 2(4) by (simp add: e)
    moreover have "mg_hom G (\<lambda>i. i) into m'" using mg_hom_trans [OF 1(3) 2(3)] .
    ultimately show ?thesis using 1(1,5) 2(1,2,5,6) by (intro exI [of _ r'] exI [of _ m']) (simp add: e)
  qed
qed

lemma target_nodes:
  assumes sg: "mg_ok G ok (quotient_graph sg)" and dord: "is_enum dord"
  shows "get_target_nodes_to_copy dord G sg repr_dtv = (arcs G (mg_grph (quotient_graph sg)))\<^sup>* ``
    {i. \<exists>d. mg_nodes (quotient_graph sg) d = Some i \<and> (dtv_is_global d \<or> d = repr_dtv)}"
proof -
  let ?m = "quotient_graph sg"
  define stack where "stack = List.map_filter (\<lambda>d. if dtv_is_global d then mg_nodes ?m d else None) (dord (dom (mg_nodes ?m)))"
  have st: "set stack = {i. \<exists>d. mg_nodes ?m d = Some i \<and> dtv_is_global d}"
    unfolding stack_def using is_enumD(1) [OF dord mg_okD(2) [OF sg]] by (force simp: map_filter_def)
  define stack' where "stack' = (case mg_get_node ?m repr_dtv of Some r \<Rightarrow> stack @ [r] | None \<Rightarrow> stack)"
  have st': "set stack' = {i. \<exists>d. mg_nodes ?m d = Some i \<and> (dtv_is_global d \<or> d = repr_dtv)}"
    unfolding stack'_def mg_get_node_def using st by (auto split: option.split)
  have "\<forall>s \<in> set stack'. pg_node_weight G (mg_grph ?m) s \<noteq> None" unfolding st' using mg_okD(4) [OF sg] by blast
  then show ?thesis
    using dfs_laws [OF mg_okD(1) [OF sg]] st' unfolding get_target_nodes_to_copy_def Let_def stack_def [symmetric] stack'_def [symmetric] by simp
qed

lemma copy_reachable_spec:
  assumes sg: "mg_ok G ok (quotient_graph sg)" and into: "mg_ok G ok into" and dord: "is_enum dord"
    and R: "R = (arcs G (mg_grph (quotient_graph sg)))\<^sup>* `` {i. \<exists>d. mg_nodes (quotient_graph sg) d = Some i
        \<and> (dtv_is_global d \<or> d = dtv_to_callee from_dtv)}"
    and named: "\<forall>i \<in> R. \<exists>d. mg_nodes (quotient_graph sg) d = Some i"
  shows "\<exists>r m' q. copy_reachable_subgraph_into dord G opr sg from_dtv into = Some (r, m')
    \<and> mg_ok G ok m' \<and> mg_hom G q into m'
    \<and> dom (mg_nodes m') = dom (mg_nodes into) \<union> tag_base_with_destination_tag (dtv_var from_dtv)
        ` {d. \<exists>i \<in> R. mg_nodes (quotient_graph sg) d = Some i}
    \<and> (\<forall>i \<in> R. group_placed sg (dtv_var from_dtv) i m')
    \<and> (\<forall>e \<in> weighted_arcs G (mg_grph (quotient_graph sg)). fst e \<in> R \<longrightarrow> edge_placed G sg (dtv_var from_dtv) e m')
    \<and> (\<forall>x. r = Some x \<longrightarrow> mg_nodes m' from_dtv = Some x)"
proof -
  let ?g = "mg_grph (quotient_graph sg)"
  have T: "get_target_nodes_to_copy dord G sg (create_with_path (tv_to_callee (dtv_var from_dtv)) (dtv_labels from_dtv)) = R"
    unfolding target_nodes [OF sg dord] R dtv_to_callee_def ..
  show ?thesis
  proof (cases "R = {}")
    case True
    then have "copy_reachable_subgraph_into dord G opr sg from_dtv into = Some (None, into)"
      by (simp add: copy_reachable_subgraph_into_def T Let_def)
    then show ?thesis using True into mg_hom_id [of G into] by (intro exI [of _ None] exI [of _ into] exI [of _ "\<lambda>i. i"]) auto
  next
    case False
    have fin: "finite R"
    proof (rule finite_subset)
      show "R \<subseteq> set (pg_node_indices G ?g)"
        using named mg_okD(4) [OF sg] node_indices_laws [OF mg_okD(1) [OF sg]] by blast
    qed simp
    then have lst: "set (sorted_list_of_set R) = R" by simp
    obtain m1 q where 1: "fold_opt (add_idx_to G opr sg (dtv_var from_dtv)) (sorted_list_of_set R) into = Some m1"
      "mg_ok G ok m1" "mg_hom G q into m1" "\<forall>i \<in> R. group_placed sg (dtv_var from_dtv) i m1"
      "dom (mg_nodes m1) = dom (mg_nodes into) \<union> tag_base_with_destination_tag (dtv_var from_dtv)
        ` {d. \<exists>i \<in> R. mg_nodes (quotient_graph sg) d = Some i}"
      using add_idxs_hom [OF sg into, of "sorted_list_of_set R" opr "dtv_var from_dtv"] named unfolding lst by blast
    have none: "\<forall>x. None = Some x \<longrightarrow> mg_nodes m1 from_dtv = Some x" by simp
    obtain r' m' where 2: "fold_opt (copy_reachable_edge G opr sg from_dtv R) (edge_references G ?g) (None, m1) = Some (r', m')"
      "mg_ok G ok m'" "mg_hom G (\<lambda>i. i) m1 m'"
      "\<forall>(i, a, b, w) \<in> set (edge_references G ?g). a \<in> R \<longrightarrow> b \<in> R \<longrightarrow> edge_placed G sg (dtv_var from_dtv) (a, w, b) m'"
      "dom (mg_nodes m') = dom (mg_nodes m1)" "\<forall>x. r' = Some x \<longrightarrow> mg_nodes m' from_dtv = Some x"
      using copy_edges_hom [OF sg named 1(2,4) none, of opr "edge_references G ?g"] by (elim exE conjE) (rule that)
    have run: "copy_reachable_subgraph_into dord G opr sg from_dtv into = Some (r', m')"
      using False 1(1) 2(1) by (simp add: copy_reachable_subgraph_into_def T Let_def)
    have "edge_placed G sg (dtv_var from_dtv) e m'" if e: "e \<in> weighted_arcs G ?g" "fst e \<in> R" for e
    proof -
      obtain a w b where awb: "e = (a, w, b)" by (cases e)
      obtain i where i: "pg_edge G ?g i = Some (a, b, w)" using e(1) by (auto simp: weighted_arcs_def awb)
      have "(a, b) \<in> arcs G ?g" using i by (auto simp: arcs_def)
      then have "b \<in> R" using e(2) unfolding awb R by (auto intro: rtrancl_into_rtrancl)
      moreover have "(i, a, b, w) \<in> set (edge_references G ?g)" using i set_edge_references [OF mg_okD(1) [OF sg]] by auto
      ultimately show ?thesis using 2(4) e(2) unfolding awb by auto
    qed
    moreover have "\<forall>i \<in> R. group_placed sg (dtv_var from_dtv) i m'" using 1(4) group_placed_hom [OF 2(3)] by blast
    ultimately show ?thesis using run 2(2,5,6) 1(5) mg_hom_trans [OF 1(3) 2(3)]
      by (intro exI [of _ r'] exI [of _ m'] exI [of _ q]) simp
  qed
qed

section \<open>Copying a sketch into a graph\<close>

lemma copy_sketch_nodes:
  "copy_of G ok g0 (pg_node_weight G (mg_grph (sk_graph sk))) loc g \<Longrightarrow> distinct nds \<Longrightarrow> set nds \<inter> dom loc = {} \<Longrightarrow>
   \<forall>x \<in> set nds. pg_node_weight G (mg_grph (sk_graph sk)) x \<noteq> None \<Longrightarrow>
   \<exists>loc' g'. fold_opt (copy_sketch_node G sk) nds (loc, g) = Some (loc', g')
     \<and> copy_of G ok g0 (pg_node_weight G (mg_grph (sk_graph sk))) loc' g' \<and> dom loc' = dom loc \<union> set nds"
proof (induction nds arbitrary: loc g)
  case (Cons x nds)
  obtain w where w: "pg_node_weight G (mg_grph (sk_graph sk)) x = Some w" using Cons.prems(4) by auto
  obtain n g1 where add: "pg_add_node G w g = (n, g1)" by force
  have x: "loc x = None" using Cons.prems(3) by auto
  have c: "copy_of G ok g0 (pg_node_weight G (mg_grph (sk_graph sk))) (loc(x \<mapsto> n)) g1"
    by (rule copy_of_step [OF Cons.prems(1) x w add])
  have rest: "distinct nds" "set nds \<inter> dom (loc(x \<mapsto> n)) = {}"
    "\<forall>x \<in> set nds. pg_node_weight G (mg_grph (sk_graph sk)) x \<noteq> None" using Cons.prems(2,3,4) by auto
  obtain loc' g' where "fold_opt (copy_sketch_node G sk) nds (loc(x \<mapsto> n), g1) = Some (loc', g')"
    "copy_of G ok g0 (pg_node_weight G (mg_grph (sk_graph sk))) loc' g'" "dom loc' = dom (loc(x \<mapsto> n)) \<union> set nds"
    using Cons.IH [OF c rest] by blast
  moreover have "copy_sketch_node G sk x (loc, g) = Some (loc(x \<mapsto> n), g1)" using w add by (simp add: copy_sketch_node_def)
  ultimately show ?case by (intro exI [of _ loc'] exI [of _ g']) auto
qed auto

lemma copy_sketch_edges:
  "\<forall>(i, s, t, w) \<in> set es. loc s \<noteq> None \<and> loc t \<noteq> None \<Longrightarrow>
   fold_opt (copy_sketch_edge G loc) es g = fold_opt (\<lambda>(a, w, b) g. map_option snd (pg_add_edge G a b w g))
     (map (\<lambda>(_, s, t, w). (the (loc s), w, the (loc t))) es) g"
proof (induction es arbitrary: g)
  case (Cons e es)
  obtain i s t w where e: "e = (i, s, t, w)" by (cases e)
  obtain x y where "loc s = Some x" "loc t = Some y" using Cons.prems e by auto
  then show ?case using Cons by (cases "pg_add_edge G x y w g") (auto simp: copy_sketch_edge_def e)
qed simp

lemma copy_sketch_spec:
  assumes sk: "sketch_ok G ok sk e" and g: "ok g"
  shows "\<exists>n loc g'. copy_sketch_into_graph G sk g = Some (n, loc, g') \<and> ok g' \<and> loc e = Some n \<and> inj_on loc (dom loc)
    \<and> dom loc = {x. pg_node_weight G (mg_grph (sk_graph sk)) x \<noteq> None}
    \<and> (\<forall>x k. loc x = Some k \<longrightarrow> pg_node_weight G g k = None
          \<and> pg_node_weight G g' k = pg_node_weight G (mg_grph (sk_graph sk)) x)
    \<and> (\<forall>k. k \<notin> ran loc \<longrightarrow> pg_node_weight G g' k = pg_node_weight G g k)
    \<and> weighted_arcs G g' = weighted_arcs G g \<union> {(x, w, y). \<exists>a b. (a, w, b) \<in> weighted_arcs G (mg_grph (sk_graph sk))
          \<and> loc a = Some x \<and> loc b = Some y}"
proof -
  let ?s = "mg_grph (sk_graph sk)"
  note D = sketch_okD [OF sk]
  note idx = node_indices_laws [OF D(2)]
  have start: "distinct (pg_node_indices G ?s)" "set (pg_node_indices G ?s) \<inter> dom Map.empty = {}"
    "\<forall>x \<in> set (pg_node_indices G ?s). pg_node_weight G ?s x \<noteq> None"
    using idx by auto
  obtain loc g1 where 1: "fold_opt (copy_sketch_node G sk) (pg_node_indices G ?s) (Map.empty, g) = Some (loc, g1)"
    "copy_of G ok g (pg_node_weight G ?s) loc g1" "dom loc = dom Map.empty \<union> set (pg_node_indices G ?s)"
    using copy_sketch_nodes [OF copy_of_start [OF g] start] by blast
  note C = copy_ofD [OF 1(2)]
  have dom: "dom loc = {x. pg_node_weight G ?s x \<noteq> None}" using 1(3) idx by auto
  have in_dom: "\<exists>x y. loc a = Some x \<and> loc b = Some y" if "(a, w, b) \<in> weighted_arcs G ?s" for a w b
    using weighted_arcs_nodes [OF D(2) that] dom by blast
  let ?es = "map (\<lambda>(_, s, t, w). (the (loc s), w, the (loc t))) (edge_references G ?s)"
  have refs: "(i, a, b, w) \<in> set (edge_references G ?s) \<longleftrightarrow> pg_edge G ?s i = Some (a, b, w)" for i a b w
    using set_edge_references [OF D(2)] by auto
  have ends: "\<forall>(i, a, b, w) \<in> set (edge_references G ?s). loc a \<noteq> None \<and> loc b \<noteq> None"
  proof (intro ballI, clarify)
    fix i a b w assume "(i, a, b, w) \<in> set (edge_references G ?s)"
    then have "(a, w, b) \<in> weighted_arcs G ?s" unfolding refs by (auto simp: weighted_arcs_def)
    then show "loc a \<noteq> None \<and> loc b \<noteq> None" using in_dom by fastforce
  qed
  have es: "set ?es = {(x, w, y). \<exists>a b. (a, w, b) \<in> weighted_arcs G ?s \<and> loc a = Some x \<and> loc b = Some y}"
  proof (intro set_eqI iffI)
    fix z assume "z \<in> set ?es"
    then obtain i a b w where z: "(i, a, b, w) \<in> set (edge_references G ?s)" "z = (the (loc a), w, the (loc b))" by auto
    then have arc: "(a, w, b) \<in> weighted_arcs G ?s" unfolding refs by (auto simp: weighted_arcs_def)
    then show "z \<in> {(x, w, y). \<exists>a b. (a, w, b) \<in> weighted_arcs G ?s \<and> loc a = Some x \<and> loc b = Some y}"
      using in_dom [OF arc] z(2) by auto
  next
    fix z assume "z \<in> {(x, w, y). \<exists>a b. (a, w, b) \<in> weighted_arcs G ?s \<and> loc a = Some x \<and> loc b = Some y}"
    then obtain i a b w where z: "pg_edge G ?s i = Some (a, b, w)" "z = (the (loc a), w, the (loc b))"
      by (auto simp: weighted_arcs_def)
    then have "(i, a, b, w) \<in> set (edge_references G ?s)" unfolding refs by simp
    then show "z \<in> set ?es" using z(2) by force
  qed
  have nodes: "\<forall>(x, w, y) \<in> set ?es. pg_node_weight G g1 x \<noteq> None \<and> pg_node_weight G g1 y \<noteq> None"
    unfolding es using C(4,5) by fastforce
  obtain g' where 2: "fold_opt (\<lambda>(a, w, b) g. map_option snd (pg_add_edge G a b w g)) ?es g1 = Some g'" "ok g'"
    "pg_node_weight G g' = pg_node_weight G g1" "weighted_arcs G g' = weighted_arcs G g1 \<union> set ?es"
    using add_arcs_loop [OF C(1) nodes] by (elim exE conjE) (rule that)
  obtain n where n: "loc e = Some n" using D(4) dom by blast
  have "copy_sketch_into_graph G sk g = Some (n, loc, g')"
    unfolding copy_sketch_into_graph_def 1(1) Option.bind.bind_lunit case_prod_conv copy_sketch_edges [OF ends] 2(1) D(3) n ..
  moreover have "weighted_arcs G g1 = weighted_arcs G g" by (simp add: weighted_arcs_def C(7))
  ultimately show ?thesis
    using 2(2,3,4) C(2,3,5,6) dom n es by (intro exI [of _ n] exI [of _ loc] exI [of _ g']) simp
qed

end

section \<open>Properties\<close>

text \<open>
  C38. The sketch below a path accepts the rest of the words through the path.  There is none when
  the sketch has no such path, and none either when the node at the end of the path reaches
  itself: the root is looked for as the node without a predecessor, so the sketch below a path to
  a recursive type is lost.
\<close>

theorem subsketch_at_path_exact:
  assumes "label_digraph G ok" "sketch_ok G ok sk e"
  shows "\<exists>res. get_subsketch_at_path G sk p = Some res
    \<and> (case res of
         None \<Rightarrow> \<forall>n. edge_path (weighted_arcs G (mg_grph (sk_graph sk))) e p n
             \<longrightarrow> (n, n) \<in> (arcs G (mg_grph (sk_graph sk)))\<^sup>+
       | Some sub \<Rightarrow> \<exists>n. edge_path (weighted_arcs G (mg_grph (sk_graph sk))) e p n
             \<and> (n, n) \<notin> (arcs G (mg_grph (sk_graph sk)))\<^sup>+ \<and> sketch_ok G ok sub n
             \<and> sketch_words G sub n = {w. p @ w \<in> sketch_words G sk e})"
  by (rule label_digraph.subsketch_spec [OF assms])

text \<open>
  C16. Copying the type of a called function into the graph of its caller returns and only merges
  nodes of the caller: every node that the formal or a global reaches is there under its names,
  those of the function with the tag of the callsite, and so is every edge between such nodes.
\<close>

theorem copy_reachable_simulates:
  assumes "label_digraph G ok" "mg_ok G ok (quotient_graph sg)" "mg_ok G ok into" "is_enum dord"
    and "R = (arcs G (mg_grph (quotient_graph sg)))\<^sup>* `` {i. \<exists>d. mg_nodes (quotient_graph sg) d = Some i
        \<and> (dtv_is_global d \<or> d = dtv_to_callee from_dtv)}"
    and "\<forall>i \<in> R. \<exists>d. mg_nodes (quotient_graph sg) d = Some i"
  shows "\<exists>r m' q. copy_reachable_subgraph_into dord G opr sg from_dtv into = Some (r, m')
    \<and> mg_ok G ok m' \<and> mg_hom G q into m'
    \<and> dom (mg_nodes m') = dom (mg_nodes into) \<union> tag_base_with_destination_tag (dtv_var from_dtv)
        ` {d. \<exists>i \<in> R. mg_nodes (quotient_graph sg) d = Some i}
    \<and> (\<forall>i \<in> R. group_placed sg (dtv_var from_dtv) i m')
    \<and> (\<forall>e \<in> weighted_arcs G (mg_grph (quotient_graph sg)). fst e \<in> R \<longrightarrow> edge_placed G sg (dtv_var from_dtv) e m')
    \<and> (\<forall>x. r = Some x \<longrightarrow> mg_nodes m' from_dtv = Some x)"
  by (rule label_digraph.copy_reachable_spec [OF assms])

theorem subsketch_at_path_exact_witness:
  "get_subsketch_at_path list_digraph loop_sketch [] = Some None"
proof -
  have arcs: "arcs list_digraph (mg_grph (sk_graph loop_sketch)) = {(0, 0)}"
    by (intro set_eqI) (auto simp: arcs_weighted loop_arcs)
  obtain res where run: "get_subsketch_at_path list_digraph loop_sketch [] = Some res"
    and res: "case res of None \<Rightarrow> True | Some sub \<Rightarrow> (0, 0) \<notin> (arcs list_digraph (mg_grph (sk_graph loop_sketch)))\<^sup>+"
    using subsketch_at_path_exact [OF list_labels.label_digraph_axioms loop_sketch_ok, of "[]"]
    by (elim exE conjE) (rule that, assumption, auto split: option.splits)
  have "(0, 0) \<in> (arcs list_digraph (mg_grph (sk_graph loop_sketch)))\<^sup>+" unfolding arcs by blast
  then show ?thesis using run res by (cases res) auto
qed

text \<open>A function whose parameter is loaded from.\<close>

definition formal_graph :: "((nat, field_label) list_graph, nat, nat) sketch_graph" where
  "formal_graph = \<lparr>quotient_graph = \<lparr>mg_grph = \<lparr>lg_nodes = [(0, 5), (1, 7)], lg_edges = [(0, 0, 1, Load)],
        lg_next_node = 2, lg_next_edge = 1\<rparr>,
      mg_nodes = [create_with_path (tv_new ''f'') [In 0] \<mapsto> 0, create_with_path (tv_new ''f'') [In 0, Load] \<mapsto> 1],
      mg_reprs = [0 \<mapsto> {create_with_path (tv_new ''f'') [In 0]}, 1 \<mapsto> {create_with_path (tv_new ''f'') [In 0, Load]}]\<rparr>,
    default_label = 1\<rparr>"

lemma formal_graph_ok: "mg_ok list_digraph lg_ok (quotient_graph formal_graph)"
proof (rule mg_okI)
  show "lg_ok (mg_grph (quotient_graph formal_graph))" by (auto simp: formal_graph_def lg_ok_def split: if_splits)
  show "n \<in> get_group_for_node (quotient_graph formal_graph) i \<longleftrightarrow> mg_nodes (quotient_graph formal_graph) n = Some i" for n i
    by (auto simp: formal_graph_def get_group_for_node_def create_with_path_def)
qed (auto simp: formal_graph_def list_digraph_sel split: if_splits)

lemma formal_graph_arcs: "weighted_arcs list_digraph (mg_grph (quotient_graph formal_graph)) = {(0, Load, 1)}"
  by (auto simp: weighted_arcs_def formal_graph_def list_digraph_sel split: if_splits)

theorem copy_reachable_simulates_witness:
  "\<exists>r m'. copy_reachable_subgraph_into sorted_list_of_set list_digraph (+) formal_graph
      (create_with_path (with_tag ''f'' 7) [In 0]) (mg_new list_digraph) = Some (r, m')
    \<and> named_edge list_digraph m' (create_with_path (with_tag ''f'' 7) [In 0]) Load
        (create_with_path (with_tag ''f'' 7) [In 0, Load])"
proof -
  let ?from = "create_with_path (with_tag ''f'' 7) [In 0] :: nat dtv"
  let ?names = "mg_nodes (quotient_graph formal_graph)"
  define R where "R = (arcs list_digraph (mg_grph (quotient_graph formal_graph)))\<^sup>*
      `` {i. \<exists>d. ?names d = Some i \<and> (dtv_is_global d \<or> d = dtv_to_callee ?from)}"
  have nodes: "?names (create_with_path (tv_new ''f'') [In 0]) = Some 0"
    "?names (create_with_path (tv_new ''f'') [In 0, Load]) = Some 1"
    by (simp_all add: formal_graph_def create_with_path_def)
  have callee: "dtv_to_callee ?from = create_with_path (tv_new ''f'') [In 0]"
    by (simp add: dtv_to_callee_def create_with_path_def with_tag_def tv_to_callee_def tv_new_def)
  have zero: "0 \<in> R" unfolding R_def callee using nodes(1) by blast
  have sub: "i = 0 \<or> i = 1" if iR: "i \<in> R" for i
  proof -
    obtain s d where s: "(s, i) \<in> (arcs list_digraph (mg_grph (quotient_graph formal_graph)))\<^sup>*" "?names d = Some s"
      using iR unfolding R_def by blast
    have "s = 0 \<or> s = 1" using s(2) by (simp add: formal_graph_def split: if_splits)
    with s(1) show ?thesis by (induction rule: rtrancl_induct) (auto simp: arcs_weighted formal_graph_arcs)
  qed
  have named: "\<forall>i \<in> R. \<exists>d. ?names d = Some i" using sub nodes by blast
  obtain r m' where run: "copy_reachable_subgraph_into sorted_list_of_set list_digraph (+) formal_graph ?from (mg_new list_digraph) = Some (r, m')"
    and placed: "\<forall>e \<in> weighted_arcs list_digraph (mg_grph (quotient_graph formal_graph)). fst e \<in> R
        \<longrightarrow> edge_placed list_digraph formal_graph (dtv_var ?from) e m'"
    using copy_reachable_simulates [OF list_labels.label_digraph_axioms formal_graph_ok list_pg.mg_ok_new sorted_enum R_def named,
        of "(+)"] by (elim exE conjE) (rule that)
  have "edge_placed list_digraph formal_graph (dtv_var ?from) (0, Load, 1) m'"
    using placed zero unfolding formal_graph_arcs by simp
  then have "named_edge list_digraph m'
      (tag_base_with_destination_tag (dtv_var ?from) (create_with_path (tv_new ''f'') [In 0])) Load
      (tag_base_with_destination_tag (dtv_var ?from) (create_with_path (tv_new ''f'') [In 0, Load]))"
    unfolding edge_placed_def using nodes by simp
  then show ?thesis
    using run by (simp add: tag_base_with_destination_tag_def create_with_path_def with_tag_def tv_to_callee_def tv_new_def)
qed

end
