(* ===== verification/SharedSubgraphs.thy ===== *)
theory SharedSubgraphs
  imports SketchCopies
begin

text \<open>
  Finding the parts that two sketches share (\<^verbatim>\<open>sketch_to_scc_map\<close>,
  \<^verbatim>\<open>sketches_have_equivalent_path\<close> and \<^verbatim>\<open>find_shared_subgraphs\<close> of
  \<^verbatim>\<open>src/solver/type_sketch.rs\<close>).  The conversion to a graph without gaps, the
  condensation and the topological sort of the graph library are arguments, gathered in a record.
\<close>

section \<open>The components of a sketch\<close>

text \<open>
  \<open>cl_from\<close> turns a stable graph into a plain one whose nodes carry their old indices;
  \<open>cl_condensation\<close> is given the nodes and the weighted edges of a graph.
\<close>

record ('g, 'h, 'd, 'w) condense_lib =
  cl_from :: "'g \<Rightarrow> 'h"
  cl_plain :: "('h, nat, field_label) petgraph"
  cl_condensation :: "nat list \<Rightarrow> (nat \<times> field_label list \<times> nat) list \<Rightarrow> 'd"
  cl_condensed :: "('d, nat list, field_label list) petgraph"
  cl_toposort :: "'d \<Rightarrow> nat list option"

record sketch_scc_info =
  entry_paths :: "field_label list set"
  successors :: "nat set"

definition reaching_label ::
    "(nat \<Rightarrow> field_label list option) \<Rightarrow> field_label edge_ref \<Rightarrow> (nat \<times> field_label list \<times> nat) option" where
  "reaching_label nd_to_path e =
     (case e of (_, src, dst, w) \<Rightarrow> map_option (\<lambda>p. (src, p @ [w], dst)) (nd_to_path src))"

definition scc_info_of ::
    "('d, nat list, field_label list) petgraph \<Rightarrow> 'd \<Rightarrow> nat list \<Rightarrow> nat \<Rightarrow> sketch_scc_info option" where
  "scc_info_of CD condensed topo idx =
     (let entrance_paths = set (map (\<lambda>(_, _, _, w). w) (edges_directed CD condensed idx Incoming));
          nd_to_scc_id = map_of (rev (zip topo [0..<length topo]))
      in map_option (\<lambda>succs. \<lparr>entry_paths = (if entrance_paths = {} then {[]} else entrance_paths),
                            successors = set succs\<rparr>)
           (traverse (\<lambda>(_, _, child_idx, _). nd_to_scc_id child_idx) (edges_directed CD condensed idx Outgoing)))"

text \<open>The outer option is the panic, the sum an error.  The map from the numbers of the components
  is the list of their entries.\<close>

definition sketch_to_scc_map ::
    "('g, 'h, 'd, 'w) condense_lib \<Rightarrow> ('g, 'w, 'tid) sketch \<Rightarrow> (string + sketch_scc_info list) option" where
  "sketch_to_scc_map lib subty =
     do { ent \<leftarrow> get_entry subty;
          let subtyg = cl_from lib (mg_grph (sk_graph subty));
              SH = cl_plain lib;
              nodes = pg_node_indices SH subtyg
          in if nodes = [] then Some (Inr [])
             else (case find (\<lambda>idx. pg_node_weight SH subtyg idx = Some ent) nodes of
                 None \<Rightarrow> Some (Inl ''No entry in sketch'')
               | Some entry_idx \<Rightarrow>
                   do { paths \<leftarrow> explore_paths (pg_out SH subtyg) entry_idx;
                        words \<leftarrow> traverse (\<lambda>(pth, nd). map_option (\<lambda>ws. (nd, ws)) (traverse (edge_weight SH subtyg) pth)) paths;
                        let nd_to_path = map_of (rev words)
                        in do { reaching \<leftarrow> traverse (reaching_label nd_to_path) (edge_references SH subtyg);
                                let condensed = cl_condensation lib nodes reaching
                                in (case cl_toposort lib condensed of
                                      None \<Rightarrow> Some (Inl ''Constructing topological sort of condensed subty for sketch building'')
                                    | Some topo \<Rightarrow>
                                        map_option Inr (traverse (scc_info_of (cl_condensed lib) condensed topo) topo)) } }) }"

section \<open>Shared parts\<close>

definition sketches_have_equivalent_path ::
    "dfs_fun \<Rightarrow> has_node_fun \<Rightarrow> ('g, 'w, field_label) petgraph \<Rightarrow> field_label list \<Rightarrow>
     ('g, 'w, 'tid) sketch \<Rightarrow> ('g, 'w, 'tid) sketch \<Rightarrow> bool option" where
  "sketches_have_equivalent_path dfs has_node G target_path subty super_type =
     do { s1 \<leftarrow> get_subsketch_at_path G subty target_path;
          s2 \<leftarrow> get_subsketch_at_path G super_type target_path;
          (case (s1, s2) of
             (Some c1, Some c2) \<Rightarrow> is_structurally_equal dfs has_node G c1 c2
           | _ \<Rightarrow> Some False) }"

text \<open>\<^verbatim>\<open>Iterator::all\<close> with a test that can panic: it stops at the first failure.\<close>

fun all_opt :: "('a \<Rightarrow> bool option) \<Rightarrow> 'a list \<Rightarrow> bool option" where
  "all_opt f [] = Some True"
| "all_opt f (x # xs) = (case f x of None \<Rightarrow> None | Some False \<Rightarrow> Some False | Some True \<Rightarrow> all_opt f xs)"

text \<open>The heap of the components to visit is the ascending list of its elements.\<close>

partial_function (option) shared_loop ::
    "(sketch_scc_info \<Rightarrow> bool option) \<Rightarrow> sketch_scc_info list \<Rightarrow> nat list \<Rightarrow> nat set \<Rightarrow> field_label list set \<Rightarrow>
     field_label list set option" where
  "shared_loop represented scc_info pq closed_list aliases =
     (case pq of
        [] \<Rightarrow> Some aliases
      | curr_scc_id # pq' \<Rightarrow>
          (if curr_scc_id \<in> closed_list then shared_loop represented scc_info pq' closed_list aliases
           else if curr_scc_id \<ge> length scc_info then None
           else Option.bind (represented (scc_info ! curr_scc_id)) (\<lambda>all_entry_paths_are_represented.
                if all_entry_paths_are_represented
                then shared_loop represented scc_info pq' (insert curr_scc_id closed_list)
                       (aliases \<union> entry_paths (scc_info ! curr_scc_id))
                else shared_loop represented scc_info
                       (fold insort (sorted_list_of_set (successors (scc_info ! curr_scc_id))) pq')
                       (insert curr_scc_id closed_list) aliases)))"

definition find_shared_subgraphs ::
    "dfs_fun \<Rightarrow> has_node_fun \<Rightarrow> (field_label list set \<Rightarrow> field_label list list) \<Rightarrow> ('g, 'h, 'd, 'w) condense_lib \<Rightarrow>
     ('g, 'w, field_label) petgraph \<Rightarrow> ('g, 'w, 'tid) sketch \<Rightarrow> ('g, 'w, 'tid) sketch \<Rightarrow>
     (string + field_label list set) option" where
  "find_shared_subgraphs dfs has_node pord lib G subty super_type =
     do { res \<leftarrow> sketch_to_scc_map lib subty;
          (case res of
             Inl e \<Rightarrow> Some (Inl e)
           | Inr scc_info \<Rightarrow>
               if scc_info \<noteq> [] then
                 map_option Inr (shared_loop (\<lambda>info. all_opt (\<lambda>x. sketches_have_equivalent_path dfs has_node G x subty super_type)
                     (pord (entry_paths info))) scc_info [0] {} {})
               else Some (Inr {})) }"

section \<open>What is visited\<close>

text \<open>The components that are looked at: the first, and the successors of those that are not shared.\<close>

inductive visits :: "(sketch_scc_info \<Rightarrow> bool) \<Rightarrow> sketch_scc_info list \<Rightarrow> nat \<Rightarrow> bool" for shared scc_info where
  V_root: "visits shared scc_info 0"
| V_succ: "visits shared scc_info i \<Longrightarrow> \<not> shared (scc_info ! i) \<Longrightarrow> j \<in> successors (scc_info ! i) \<Longrightarrow>
     visits shared scc_info j"

definition shared_paths :: "(sketch_scc_info \<Rightarrow> bool) \<Rightarrow> sketch_scc_info list \<Rightarrow> nat set \<Rightarrow> field_label list set" where
  "shared_paths shared scc_info C = (\<Union>i \<in> {i \<in> C. shared (scc_info ! i)}. entry_paths (scc_info ! i))"

text \<open>The components that are closed or queued are visited, and all successors of the closed ones
  that are not shared are among them.\<close>

definition visit_inv :: "(sketch_scc_info \<Rightarrow> bool) \<Rightarrow> sketch_scc_info list \<Rightarrow> nat set \<Rightarrow> nat set \<Rightarrow> bool" where
  "visit_inv shared scc_info Q C \<longleftrightarrow> C \<union> Q \<subseteq> {i. visits shared scc_info i \<and> i < length scc_info} \<and> 0 \<in> C \<union> Q
     \<and> (\<forall>i \<in> C. \<not> shared (scc_info ! i) \<longrightarrow> successors (scc_info ! i) \<subseteq> C \<union> Q)"

lemma visit_inv_done:
  assumes "visit_inv shared scc_info {} C"
  shows "C = {i. visits shared scc_info i}"
proof
  show "C \<subseteq> {i. visits shared scc_info i}" using assms by (auto simp: visit_inv_def)
  have "i \<in> C" if "visits shared scc_info i" for i
    using that by (induction rule: visits.induct) (use assms in \<open>auto simp: visit_inv_def\<close>)
  then show "{i. visits shared scc_info i} \<subseteq> C" by blast
qed

lemma set_fold_insort: "set (fold insort xs ys) = set xs \<union> set ys"
  by (induction xs arbitrary: ys) (auto simp: set_insort_key)

lemma shared_loop_spec:
  assumes succs: "\<forall>i < length scc_info. finite (successors (scc_info ! i)) \<and> successors (scc_info ! i) \<subseteq> {..<length scc_info}"
    and test: "\<forall>info \<in> set scc_info. represented info = Some (shared info)"
  shows "visit_inv shared scc_info (set pq) C \<Longrightarrow> A = shared_paths shared scc_info C \<Longrightarrow>
    shared_loop represented scc_info pq C A = Some (shared_paths shared scc_info {i. visits shared scc_info i})"
proof (induction "card ({..<length scc_info} - C)" arbitrary: pq C A rule: less_induct)
  case less
  from less.prems show ?case
  proof (induction pq)
    case Nil
    then show ?case using visit_inv_done [of shared scc_info C] by (simp add: shared_loop.simps)
  next
    case (Cons i pq)
    have i: "visits shared scc_info i" "i < length scc_info" using Cons.prems(1) by (auto simp: visit_inv_def)
    show ?case
    proof (cases "i \<in> C")
      case True
      then have "visit_inv shared scc_info (set pq) C" using Cons.prems(1) by (auto simp: visit_inv_def)
      then show ?thesis using Cons.IH Cons.prems(2) True by (subst shared_loop.simps) simp
    next
      case False
      have smaller: "card ({..<length scc_info} - insert i C) < card ({..<length scc_info} - C)"
        by (rule psubset_card_mono) (use i(2) False in auto)
      have rep: "represented (scc_info ! i) = Some (shared (scc_info ! i))" using test i(2) by simp
      show ?thesis
      proof (cases "shared (scc_info ! i)")
        case True
        have "visit_inv shared scc_info (set pq) (insert i C)" using Cons.prems(1) i True by (auto simp: visit_inv_def)
        moreover have "A \<union> entry_paths (scc_info ! i) = shared_paths shared scc_info (insert i C)"
          using Cons.prems(2) True by (auto simp: shared_paths_def)
        ultimately have "shared_loop represented scc_info pq (insert i C) (A \<union> entry_paths (scc_info ! i))
            = Some (shared_paths shared scc_info {i. visits shared scc_info i})"
          using less.hyps [OF smaller] by blast
        then show ?thesis using False i(2) rep True by (subst shared_loop.simps) simp
      next
        case unshared: False
        let ?S = "successors (scc_info ! i)"
        have S: "set (sorted_list_of_set ?S) = ?S" "?S \<subseteq> {..<length scc_info}" using succs i(2) by simp_all
        let ?pq = "fold insort (sorted_list_of_set ?S) pq"
        have "visit_inv shared scc_info (set ?pq) (insert i C)"
          unfolding set_fold_insort S(1) using Cons.prems(1) i S(2) V_succ [OF i(1) unshared]
          by (auto simp: visit_inv_def)
        moreover have "A = shared_paths shared scc_info (insert i C)"
          using Cons.prems(2) unshared by (auto simp: shared_paths_def)
        ultimately have "shared_loop represented scc_info ?pq (insert i C) A
            = Some (shared_paths shared scc_info {i. visits shared scc_info i})"
          using less.hyps [OF smaller] by blast
        then show ?thesis using False i(2) rep unshared by (subst shared_loop.simps) simp
      qed
    qed
  qed
qed

section \<open>The components are well formed\<close>

lemma scc_info_of_bounds:
  assumes "scc_info_of CD condensed topo idx = Some info"
  shows "finite (successors info) \<and> successors info \<subseteq> {..<length topo} \<and> entry_paths info \<noteq> {} \<and> finite (entry_paths info)"
proof -
  let ?ids = "map_of (rev (zip topo [0..<length topo]))"
  obtain succs where succs: "traverse (\<lambda>(_, _, child_idx, _). ?ids child_idx) (edges_directed CD condensed idx Outgoing) = Some succs"
    "successors info = set succs"
    using assms by (auto simp: scc_info_of_def Let_def)
  have "j < length topo" if j: "j \<in> set succs" for j
  proof -
    obtain e where "e \<in> set (edges_directed CD condensed idx Outgoing)" and ce: "(case e of (_, _, child_idx, _) \<Rightarrow> ?ids child_idx) = Some j" using traverse_mem [OF succs(1) j] by (elim bexE) (rule that)
    obtain a b c d where "e = (a, b, c, d)" by (cases e)
    then have "?ids c = Some j" using ce by simp
    then have "(c, j) \<in> set (zip topo [0..<length topo])" using map_of_SomeD by fastforce
    then show ?thesis by (auto dest: set_zip_rightD)
  qed
  then show ?thesis using assms succs(2) by (auto simp: scc_info_of_def Let_def split: if_splits)
qed

lemma scc_map_bounds:
  assumes "sketch_to_scc_map lib subty = Some (Inr infos)" "i < length infos"
  shows "finite (successors (infos ! i)) \<and> successors (infos ! i) \<subseteq> {..<length infos}
    \<and> entry_paths (infos ! i) \<noteq> {} \<and> finite (entry_paths (infos ! i))"
proof -
  obtain condensed topo where tr: "traverse (scc_info_of (cl_condensed lib) condensed topo) topo = Some infos"
    using assms by (auto simp: sketch_to_scc_map_def Let_def Option.bind_eq_Some_conv split: if_splits option.splits)
  have len: "length infos = length topo" using traverse_Some_nth [OF tr] by (simp add: list_all2_lengthD)
  have "infos ! i \<in> set infos" using assms(2) by simp
  from traverse_mem [OF tr this] obtain x where "scc_info_of (cl_condensed lib) condensed topo x = Some (infos ! i)" by blast
  from scc_info_of_bounds [OF this] show ?thesis by (simp add: len)
qed

section \<open>Properties\<close>

text \<open>Two sketches agree below a path when both have a part there and the parts accept the same words.\<close>

definition agree_at ::
    "('g, 'w, field_label) petgraph \<Rightarrow> ('g, 'w, 'tid) sketch \<Rightarrow> ('g, 'w, 'tid) sketch \<Rightarrow> field_label list \<Rightarrow> bool" where
  "agree_at G sk other p \<longleftrightarrow> (\<exists>c1 c2 n1 n2. get_subsketch_at_path G sk p = Some (Some c1)
     \<and> get_subsketch_at_path G other p = Some (Some c2) \<and> get_entry c1 = Some n1 \<and> get_entry c2 = Some n2
     \<and> sketch_words G c1 n1 = sketch_words G c2 n2)"

lemma agree_words:
  assumes G: "label_digraph G ok" and sk: "sketch_ok G ok sk e" and other: "sketch_ok G ok other f"
    and agree: "agree_at G sk other p"
  shows "p \<in> sketch_words G sk e" "{w. p @ w \<in> sketch_words G sk e} = {w. p @ w \<in> sketch_words G other f}"
proof -
  obtain c1 c2 n1 n2 where c: "get_subsketch_at_path G sk p = Some (Some c1)" "get_subsketch_at_path G other p = Some (Some c2)"
    "get_entry c1 = Some n1" "get_entry c2 = Some n2" "sketch_words G c1 n1 = sketch_words G c2 n2"
    using agree unfolding agree_at_def by blast
  obtain m1 where m1: "sketch_ok G ok c1 m1" "sketch_words G c1 m1 = {w. p @ w \<in> sketch_words G sk e}"
    "edge_path (weighted_arcs G (mg_grph (sk_graph sk))) e p m1"
    using label_digraph.subsketch_spec [OF G sk, of p] c(1) by auto
  obtain m2 where m2: "sketch_ok G ok c2 m2" "sketch_words G c2 m2 = {w. p @ w \<in> sketch_words G other f}"
    using label_digraph.subsketch_spec [OF G other, of p] c(2) by auto
  have "m1 = n1" "m2 = n2" using sketch_okD(3) [OF m1(1)] sketch_okD(3) [OF m2(1)] c(3,4) by simp_all
  then show "{w. p @ w \<in> sketch_words G sk e} = {w. p @ w \<in> sketch_words G other f}" using c(5) m1(2) m2(2) by simp
  show "p \<in> sketch_words G sk e" using m1(3) by (auto simp: sketch_words_def)
qed

lemma equivalent_path_spec:
  assumes S: "graph_search dfs has_node" and G: "label_digraph G ok" and sk: "sketch_ok G ok sk e" and other: "sketch_ok G ok other f"
  shows "sketches_have_equivalent_path dfs has_node G p sk other = Some (agree_at G sk other p)"
proof -
  obtain r1 r2 where r: "get_subsketch_at_path G sk p = Some r1" "get_subsketch_at_path G other p = Some r2"
    using label_digraph.subsketch_spec [OF G sk, of p] label_digraph.subsketch_spec [OF G other, of p] by blast
  show ?thesis
  proof (cases "\<exists>c1 c2. r1 = Some c1 \<and> r2 = Some c2")
    case False
    then show ?thesis using r by (cases r1; cases r2) (auto simp: sketches_have_equivalent_path_def agree_at_def)
  next
    case True
    then obtain c1 c2 where c: "r1 = Some c1" "r2 = Some c2" by blast
    obtain n1 where n1: "sketch_ok G ok c1 n1" using label_digraph.subsketch_spec [OF G sk, of p] r(1) c(1) by auto
    obtain n2 where n2: "sketch_ok G ok c2 n2" using label_digraph.subsketch_spec [OF G other, of p] r(2) c(2) by auto
    show ?thesis
      using r c graph_search.structurally_equal_spec [OF S G n1 n2] sketch_okD(3) [OF n1] sketch_okD(3) [OF n2]
      by (simp add: sketches_have_equivalent_path_def agree_at_def)
  qed
qed

lemma all_opt_total: "\<forall>x \<in> set xs. f x = Some (P x) \<Longrightarrow> all_opt f xs = Some (\<forall>x \<in> set xs. P x)"
  by (induction xs) (auto split: bool.splits)

lemma find_shared_spec:
  assumes S: "graph_search dfs has_node" and G: "label_digraph G ok" and sk: "sketch_ok G ok sk e" and other: "sketch_ok G ok other f"
    and pord: "is_enum pord" and info: "sketch_to_scc_map lib sk = Some (Inr infos)" "infos \<noteq> []"
    and shared: "shared = (\<lambda>info. \<forall>p \<in> entry_paths info. agree_at G sk other p)"
  shows "find_shared_subgraphs dfs has_node pord lib G sk other
    = Some (Inr (shared_paths shared infos {i. visits shared infos i}))"
proof -
  let ?test = "\<lambda>info. all_opt (\<lambda>x. sketches_have_equivalent_path dfs has_node G x sk other) (pord (entry_paths info))"
  have "?test x = Some (shared x)" if x: "x \<in> set infos" for x
  proof -
    obtain i where "i < length infos" "infos ! i = x" using x by (auto simp: in_set_conv_nth)
    then have "finite (entry_paths x)" using scc_map_bounds [OF info(1)] by blast
    then have "set (pord (entry_paths x)) = entry_paths x" using is_enumD(1) [OF pord] by blast
    then show ?thesis
      using all_opt_total [of "pord (entry_paths x)"] equivalent_path_spec [OF S G sk other] unfolding shared by metis
  qed
  moreover have "visit_inv shared infos (set [0]) {}" using info(2) by (auto simp: visit_inv_def V_root)
  moreover have "{} = shared_paths shared infos {}" by (simp add: shared_paths_def)
  ultimately have "shared_loop ?test infos [0] {} {} = Some (shared_paths shared infos {i. visits shared infos i})"
    using shared_loop_spec [of infos ?test shared "[0]" "{}" "{}"] scc_map_bounds [OF info(1)] by blast
  then show ?thesis by (simp add: find_shared_subgraphs_def info)
qed


section \<open>A concrete sketch\<close>

definition plain_graph :: "('w, 'e) list_graph \<Rightarrow> (nat, 'e) list_graph" where
  "plain_graph g = \<lparr>lg_nodes = map (\<lambda>(i, _). (i, i)) (lg_nodes g), lg_edges = lg_edges g,
     lg_next_node = lg_next_node g, lg_next_edge = lg_next_edge g\<rparr>"

text \<open>The condensation of a graph without cycles.\<close>

definition acyclic_condensation :: "nat list \<Rightarrow> (nat \<times> field_label list \<times> nat) list \<Rightarrow> (nat list, field_label list) list_graph" where
  "acyclic_condensation nodes es = \<lparr>lg_nodes = map (\<lambda>i. (i, [i])) nodes,
     lg_edges = map (\<lambda>(i, a, w, b). (i, a, b, w)) (zip [0..<length es] es),
     lg_next_node = length nodes, lg_next_edge = length es\<rparr>"

definition acyclic_lib :: "(('w, field_label) list_graph, (nat, field_label) list_graph, (nat list, field_label list) list_graph, 'w) condense_lib" where
  "acyclic_lib = \<lparr>cl_from = plain_graph, cl_plain = list_digraph, cl_condensation = acyclic_condensation,
     cl_condensed = list_digraph, cl_toposort = list_toposort\<rparr>"

definition formal_sketch :: "((nat, field_label) list_graph, nat, nat) sketch" where
  "formal_sketch = \<lparr>sk_graph = quotient_graph formal_graph, representing = create_with_path (tv_new ''f'') [In 0], sk_default = 1\<rparr>"

definition formal_infos :: "sketch_scc_info list" where
  "formal_infos = [\<lparr>entry_paths = {[]}, successors = {1}\<rparr>, \<lparr>entry_paths = {[Load]}, successors = {}\<rparr>]"

definition demo_plain :: "(nat, field_label) list_graph" where
  "demo_plain = \<lparr>lg_nodes = [(0, 0), (1, 1)], lg_edges = [(0, 0, 1, Load)], lg_next_node = 2, lg_next_edge = 1\<rparr>"

definition demo_condensed :: "(nat list, field_label list) list_graph" where
  "demo_condensed = \<lparr>lg_nodes = [(0, [0]), (1, [1])], lg_edges = [(0, 0, 1, [Load])], lg_next_node = 2, lg_next_edge = 1\<rparr>"

lemma demo_edges:
  "edges_directed list_digraph demo_plain 0 Outgoing = [(0, 0, 1, Load)]"
  "edges_directed list_digraph demo_plain 1 Outgoing = []"
  "edges_directed list_digraph demo_condensed 0 Outgoing = [(0, 0, 1, [Load])]"
  "edges_directed list_digraph demo_condensed 1 Outgoing = []"
  "edges_directed list_digraph demo_condensed 0 Incoming = []"
  "edges_directed list_digraph demo_condensed 1 Incoming = [(0, 0, 1, [Load])]"
  by code_simp+

lemma demo_paths: "explore_paths (pg_out list_digraph demo_plain) 0 = Some [([], 0), ([0], 1)]"
  using demo_edges(1,2) by (simp add: explore_paths_def explore_loop_steps push_children_def pg_out_def)

lemma demo_refs: "edge_references list_digraph demo_plain = [(0, 0, 1, Load)]"
  by (simp add: edge_references_def edge_ref_def demo_plain_def list_digraph_sel)

lemma demo_topo: "list_toposort demo_condensed = Some [0, 1]"
  by code_simp

lemma demo_info:
  "scc_info_of list_digraph demo_condensed [0, 1] 0 = Some \<lparr>entry_paths = {[]}, successors = {1}\<rparr>"
  "scc_info_of list_digraph demo_condensed [0, 1] 1 = Some \<lparr>entry_paths = {[Load]}, successors = {}\<rparr>"
  unfolding scc_info_of_def demo_edges by (simp_all add: upt_rec)

lemma formal_scc_map: "sketch_to_scc_map acyclic_lib formal_sketch = Some (Inr formal_infos)"
proof -
  have ent: "get_entry formal_sketch = Some 0"
    by (simp add: get_entry_def formal_sketch_def formal_graph_def mg_get_node_def create_with_path_def)
  have plain: "cl_from acyclic_lib (mg_grph (sk_graph formal_sketch)) = demo_plain"
    by (simp add: acyclic_lib_def plain_graph_def formal_sketch_def formal_graph_def demo_plain_def)
  have lib: "cl_plain acyclic_lib = list_digraph" "cl_condensed acyclic_lib = list_digraph" "cl_toposort acyclic_lib = list_toposort"
    "cl_condensation acyclic_lib = acyclic_condensation"
    by (simp_all add: acyclic_lib_def)
  have nodes: "pg_node_indices list_digraph demo_plain = [0, 1]" "pg_node_weight list_digraph demo_plain 0 = Some 0"
    "edge_weight list_digraph demo_plain 0 = Some Load"
    by (simp_all add: demo_plain_def list_digraph_sel edge_weight_def)
  have condensed: "acyclic_condensation [0, 1] [(0, [Load], 1)] = demo_condensed"
    by (simp add: acyclic_condensation_def demo_condensed_def)
  show ?thesis
    unfolding sketch_to_scc_map_def ent Option.bind.bind_lunit Let_def plain lib nodes
    by (simp add: nodes demo_paths demo_refs reaching_label_def condensed [simplified] demo_topo [simplified] demo_info [simplified]
       formal_infos_def)
qed

lemma formal_sketch_ok: "sketch_ok list_digraph lg_ok formal_sketch 0"
  using formal_graph_ok formal_graph_arcs
  by (simp add: sketch_ok_def formal_sketch_def deterministic_def) (simp add: formal_graph_def create_with_path_def)


end
