(* ===== verification/InferPointers.thy ===== *)
theory InferPointers
  imports PointerSimplify ConstraintSets
begin

text \<open>
  Inference of pointers from addition constraints (\<^verbatim>\<open>InferenceRules\<close> and
  \<^verbatim>\<open>LatticeInfo::infer_pointers\<close> in
  \<^verbatim>\<open>src/solver/scc_constraint_generation.rs\<close>): a sketch graph of the subtyping
  constraints labels some operands of the additions as integers or pointers, the labels decide
  subtyping constraints on the other operands, and this is repeated until nothing is added.
  Logging is left out.  The lattice, the union find and the iteration orders are arguments, as in
  the theories this one builds on; \<open>ule\<close> is the order of the lattice elements.
\<close>

section \<open>Ordered addition constraints\<close>

definition add_key :: "('tid, 'z) add_constraint_scheme \<Rightarrow> 'tid dtv \<times> 'tid dtv \<times> 'tid dtv \<times> 'z" where
  "add_key x = (lhs_ty x, rhs_ty x, repr_ty x, add_constraint.more x)"

lemma add_key_inj [key_inj]: "add_key x = add_key y \<Longrightarrow> x = y"
  by (simp add: add_key_def)

instantiation add_constraint_ext :: (linorder, linorder) linorder
begin
definition less_eq_add_constraint_ext :: "('a, 'b) add_constraint_ext \<Rightarrow> ('a, 'b) add_constraint_ext \<Rightarrow> bool" where
  "x \<le> y \<longleftrightarrow> add_key x \<le> add_key y"
definition less_add_constraint_ext :: "('a, 'b) add_constraint_ext \<Rightarrow> ('a, 'b) add_constraint_ext \<Rightarrow> bool" where
  "x < y \<longleftrightarrow> add_key x < add_key y"
instance
  by standard (unfold less_eq_add_constraint_ext_def less_add_constraint_ext_def,
    simp_all add: less_le_not_le linear, auto intro: key_inj)
end

section \<open>The rules\<close>

text \<open>
  The positions carry a suffix because \<open>Lhs\<close> and \<open>Rhs\<close> are already directions of interesting
  variables, the label of integers because \<open>Int\<close> is an operator of the library.
\<close>

datatype type_labels = Int_label | Pointer

datatype position_ty = Lhs_pos | Rhs_pos | Res_pos

datatype type_source = PositionTy position_ty | WeakInt

record label_update =
  affected_ty :: position_ty
  type_source :: "type_source list"
  new_label :: type_labels

type_synonym labeling = "nat \<Rightarrow> type_labels option"

definition lookup_label :: "('g, 'w, 'tid) sketch_graph \<Rightarrow> labeling \<Rightarrow> 'tid dtv \<Rightarrow> type_labels option" where
  "lookup_label sg labels cons = Option.bind (mg_get_node (quotient_graph sg) cons) labels"

definition add_constraint_to_pattern ::
    "('g, 'w, 'tid) sketch_graph \<Rightarrow> labeling \<Rightarrow> 'tid add_constraint \<Rightarrow>
     type_labels option \<times> type_labels option \<times> type_labels option" where
  "add_constraint_to_pattern sg labels add_cons =
     (lookup_label sg labels (lhs_ty add_cons), lookup_label sg labels (rhs_ty add_cons),
      lookup_label sg labels (repr_ty add_cons))"

definition access_by_pos :: "'tid add_constraint \<Rightarrow> position_ty \<Rightarrow> 'tid dtv" where
  "access_by_pos add_cons pos =
     (case pos of Lhs_pos \<Rightarrow> lhs_ty add_cons | Rhs_pos \<Rightarrow> rhs_ty add_cons | Res_pos \<Rightarrow> repr_ty add_cons)"

definition get_affecting_type ::
    "'tid type_variable \<Rightarrow> 'tid add_constraint \<Rightarrow> type_source \<Rightarrow> 'tid dtv" where
  "get_affecting_type weak_type_var add_cons pos =
     (case pos of PositionTy pty \<Rightarrow> access_by_pos add_cons pty | WeakInt \<Rightarrow> dtv_new weak_type_var)"

definition cons_to_label_update ::
    "('g, 'w, 'tid) sketch_graph \<Rightarrow> labeling \<Rightarrow> 'tid add_constraint \<Rightarrow> label_update list" where
  "cons_to_label_update sg labels add_cons =
     (case add_constraint_to_pattern sg labels add_cons of
        (Some Int_label, Some Int_label, None) \<Rightarrow>
          [\<lparr>affected_ty = Res_pos, type_source = [PositionTy Lhs_pos, PositionTy Rhs_pos], new_label = Int_label\<rparr>]
      | (Some Pointer, Some Int_label, None) \<Rightarrow>
          [\<lparr>affected_ty = Res_pos, type_source = [PositionTy Lhs_pos], new_label = Pointer\<rparr>]
      | (Some Int_label, Some Pointer, None) \<Rightarrow>
          [\<lparr>affected_ty = Res_pos, type_source = [PositionTy Rhs_pos], new_label = Pointer\<rparr>]
      | (Some Pointer, None, None) \<Rightarrow>
          [\<lparr>affected_ty = Res_pos, type_source = [PositionTy Lhs_pos], new_label = Pointer\<rparr>,
           \<lparr>affected_ty = Rhs_pos, type_source = [WeakInt], new_label = Int_label\<rparr>]
      | (None, Some Int_label, Some Pointer) \<Rightarrow>
          [\<lparr>affected_ty = Lhs_pos, type_source = [PositionTy Res_pos], new_label = Pointer\<rparr>]
      | (None, Some Pointer, None) \<Rightarrow>
          [\<lparr>affected_ty = Lhs_pos, type_source = [WeakInt], new_label = Int_label\<rparr>,
           \<lparr>affected_ty = Res_pos, type_source = [PositionTy Rhs_pos], new_label = Pointer\<rparr>]
      | (Some Int_label, None, Some Pointer) \<Rightarrow>
          [\<lparr>affected_ty = Rhs_pos, type_source = [PositionTy Res_pos], new_label = Pointer\<rparr>]
      | _ \<Rightarrow> [])"

definition apply_label_update ::
    "('g, 'w, 'tid) sketch_graph \<Rightarrow> 'tid type_variable \<Rightarrow> 'tid add_constraint \<Rightarrow> label_update \<Rightarrow>
     labeling \<Rightarrow> 'tid subtype_constraint list \<times> labeling" where
  "apply_label_update sg weak_type_var add_cons label_update labels =
     (let tgt_ty = access_by_pos add_cons (affected_ty label_update);
          labels' = (case mg_get_node (quotient_graph sg) tgt_ty of
              Some tgt_node \<Rightarrow> labels(tgt_node \<mapsto> new_label label_update) | None \<Rightarrow> labels)
      in (map (\<lambda>src. subtype_new tgt_ty (get_affecting_type weak_type_var add_cons src))
            (type_source label_update), labels'))"

fun apply_updates ::
    "('g, 'w, 'tid) sketch_graph \<Rightarrow> 'tid type_variable \<Rightarrow> ('tid add_constraint \<times> label_update) list \<Rightarrow>
     labeling \<Rightarrow> 'tid subtype_constraint list \<times> labeling" where
  "apply_updates sg weak [] labels = ([], labels)"
| "apply_updates sg weak ((cons, upd) # rest) labels =
     (let (cs, labels1) = apply_label_update sg weak cons upd labels;
          (cs', labels2) = apply_updates sg weak rest labels1
      in (cs @ cs', labels2))"

definition apply_add_constraints ::
    "('g, 'w, 'tid) sketch_graph \<Rightarrow> 'tid type_variable \<Rightarrow> 'tid add_constraint list \<Rightarrow> labeling \<Rightarrow>
     'tid subtype_constraint list \<times> labeling" where
  "apply_add_constraints sg weak cons labels =
     (let updates = map (\<lambda>add. (add, cons_to_label_update sg labels add)) cons
      in apply_updates sg weak (concat (map (\<lambda>(add, upds). map (Pair add) upds) updates)) labels)"

section \<open>The loop\<close>

record ('t, 'tid) lattice_info =
  li_lattice :: "'t named_lattice"
  li_elements :: "'tid type_variable set"
  weakest_integral_type :: 't

definition lattice_info_new :: "'t named_lattice \<Rightarrow> 'tid type_variable set \<Rightarrow> 't \<Rightarrow> ('t, 'tid) lattice_info" where
  "lattice_info_new lattice els weakest =
     \<lparr>li_lattice = lattice, li_elements = els, weakest_integral_type = weakest\<rparr>"

definition get_initial_labeling ::
    "('g, 't lattice_bounds, field_label) petgraph \<Rightarrow> ('t \<Rightarrow> 't \<Rightarrow> bool) \<Rightarrow> ('t, 'tid) lattice_info \<Rightarrow>
     ('g, 't lattice_bounds, 'tid) sketch_graph \<Rightarrow> labeling" where
  "get_initial_labeling G ule li sg =
     (let g = mg_grph (quotient_graph sg);
          pointers = filter (\<lambda>idx. list_ex (\<lambda>(_, _, _, w). w = Load \<or> w = Store)
              (edges_directed G g idx Outgoing)) (pg_node_indices G g);
          integers = filter (\<lambda>idx. case pg_node_weight G g idx of
                Some nd \<Rightarrow> ule (get_upper nd) (weakest_integral_type li) \<and> idx \<notin> set pointers
              | None \<Rightarrow> False) (pg_node_indices G g)
      in map_of (rev (map (\<lambda>idx. (idx, Int_label)) integers @ map (\<lambda>idx. (idx, Pointer)) pointers)))"

text \<open>One round: the constraints that the labels of the current sketch graph give.\<close>

definition add_constraints_of :: "('tid::linorder) constraint_set \<Rightarrow> 'tid add_constraint list" where
  "add_constraints_of cs = sorted_list_of_set (\<Union>x \<in> cs. case x of AddCons a \<Rightarrow> {a} | SubTy _ \<Rightarrow> {})"

definition infer_round ::
    "'u union_find_ops \<Rightarrow> (edge_implication set \<Rightarrow> edge_implication list) \<Rightarrow> (nat set \<Rightarrow> nat list) \<Rightarrow>
     ('g, 't lattice_bounds, field_label) petgraph \<Rightarrow> 't lattice_ops \<Rightarrow> ('t \<Rightarrow> 't \<Rightarrow> bool) \<Rightarrow> ('t \<Rightarrow> string) \<Rightarrow>
     ('tid \<Rightarrow> string) \<Rightarrow> ('t, 'tid::linorder) lattice_info \<Rightarrow> 'tid add_constraint list \<Rightarrow>
     'tid constraint_set \<Rightarrow> (string + 'tid constraint_set) option" where
  "infer_round U hord vord G L ule elem_name show_tid li add_constraints next_cs_set =
     (let bld = sketch_builder_new (li_lattice li) (li_elements li)
            (\<lambda>d mpgrph. map_option Inr (insert_dtv G L (li_lattice li) d mpgrph))
      in case build_and_label_constraints U hord vord G L show_tid bld
             (sorted_list_of_set (constraint_set_to_subtys next_cs_set)) of
           None \<Rightarrow> None
         | Some (Inl e) \<Rightarrow> Some (Inl e)
         | Some (Inr sg) \<Rightarrow>
             (let base_labels = get_initial_labeling G ule li sg;
                  weak_type_var = tv_new (elem_name (weakest_integral_type li));
                  cons = fst (apply_add_constraints sg weak_type_var add_constraints base_labels)
              in Some (Inr (fold (\<lambda>c cs. cs_insert (SubTy c) cs) cons next_cs_set))))"

partial_function (option) infer_loop ::
    "('tid constraint_set \<Rightarrow> (string + 'tid constraint_set) option) \<Rightarrow> 'tid constraint_set \<Rightarrow>
     (string + 'tid constraint_set) option" where
  "infer_loop infer next_cs_set =
     (case infer next_cs_set of
        None \<Rightarrow> None
      | Some (Inl e) \<Rightarrow> Some (Inl e)
      | Some (Inr curr_set) \<Rightarrow>
          if curr_set \<noteq> next_cs_set then infer_loop infer curr_set else Some (Inr curr_set))"

definition infer_pointers ::
    "'u union_find_ops \<Rightarrow> (edge_implication set \<Rightarrow> edge_implication list) \<Rightarrow> (nat set \<Rightarrow> nat list) \<Rightarrow>
     ('g, 't lattice_bounds, field_label) petgraph \<Rightarrow> 't lattice_ops \<Rightarrow> ('t \<Rightarrow> 't \<Rightarrow> bool) \<Rightarrow> ('t \<Rightarrow> string) \<Rightarrow>
     ('tid \<Rightarrow> string) \<Rightarrow> ('t, 'tid::linorder) lattice_info \<Rightarrow> 'tid constraint_set \<Rightarrow>
     (string + 'tid constraint_set) option" where
  "infer_pointers U hord vord G L ule elem_name show_tid li orig_cs_set =
     infer_loop (infer_round U hord vord G L ule elem_name show_tid li (add_constraints_of orig_cs_set)) orig_cs_set"

section \<open>The labels that an addition forces\<close>

text \<open>What the three operands of an addition can be: integers add up, and a pointer plus an integer is a pointer.\<close>

definition add_typing :: "(position_ty \<Rightarrow> type_labels) \<Rightarrow> bool" where
  "add_typing t \<longleftrightarrow> t Lhs_pos = Int_label \<and> t Rhs_pos = Int_label \<and> t Res_pos = Int_label
     \<or> t Lhs_pos = Pointer \<and> t Rhs_pos = Int_label \<and> t Res_pos = Pointer
     \<or> t Lhs_pos = Int_label \<and> t Rhs_pos = Pointer \<and> t Res_pos = Pointer"

text \<open>The typings of an addition that agree with the labels its operands have.\<close>

definition typings :: "('g, 'w, 'tid) sketch_graph \<Rightarrow> labeling \<Rightarrow> 'tid add_constraint \<Rightarrow> (position_ty \<Rightarrow> type_labels) set" where
  "typings sg labels a = {t. add_typing t \<and>
     (\<forall>p l. lookup_label sg labels (access_by_pos a p) = Some l \<longrightarrow> t p = l)}"

definition source_label :: "(position_ty \<Rightarrow> type_labels) \<Rightarrow> type_source \<Rightarrow> type_labels" where
  "source_label t src = (case src of PositionTy p \<Rightarrow> t p | WeakInt \<Rightarrow> Int_label)"

lemma access_by_pos_simps [simp]:
  "access_by_pos a Lhs_pos = lhs_ty a" "access_by_pos a Rhs_pos = rhs_ty a" "access_by_pos a Res_pos = repr_ty a"
  by (simp_all add: access_by_pos_def)

lemma label_update_forced_spec:
  assumes u: "u \<in> set (cons_to_label_update sg labels a)"
  shows "lookup_label sg labels (access_by_pos a (affected_ty u)) = None
    \<and> (\<forall>t \<in> typings sg labels a. t (affected_ty u) = new_label u
        \<and> (\<forall>src \<in> set (type_source u). source_label t src = new_label u))
    \<and> typings sg labels a \<noteq> {}"
proof -
  obtain l r s where lrs: "lookup_label sg labels (lhs_ty a) = l" "lookup_label sg labels (rhs_ty a) = r"
    "lookup_label sg labels (repr_ty a) = s" by blast
  have tp: "t \<in> typings sg labels a \<longleftrightarrow> add_typing t \<and> (\<forall>x. l = Some x \<longrightarrow> t Lhs_pos = x)
      \<and> (\<forall>x. r = Some x \<longrightarrow> t Rhs_pos = x) \<and> (\<forall>x. s = Some x \<longrightarrow> t Res_pos = x)" for t
  proof -
    have all: "(\<forall>p. P p) \<longleftrightarrow> P Lhs_pos \<and> P Rhs_pos \<and> P Res_pos" for P
      by (metis position_ty.exhaust)
    show ?thesis by (simp add: typings_def all lrs)
  qed
  have "\<exists>t. t \<in> typings sg labels a"
    if "\<exists>x y z. (x, y, z) \<in> {(Int_label, Int_label, Int_label), (Pointer, Int_label, Pointer), (Int_label, Pointer, Pointer)}
      \<and> l \<in> {None, Some x} \<and> r \<in> {None, Some y} \<and> s \<in> {None, Some z}"
  proof -
    from that obtain x y z where xyz: "(x, y, z) \<in> {(Int_label, Int_label, Int_label), (Pointer, Int_label, Pointer), (Int_label, Pointer, Pointer)}"
      "l \<in> {None, Some x}" "r \<in> {None, Some y}" "s \<in> {None, Some z}" by blast
    have "(\<lambda>p. case p of Lhs_pos \<Rightarrow> x | Rhs_pos \<Rightarrow> y | Res_pos \<Rightarrow> z) \<in> typings sg labels a"
      unfolding tp add_typing_def using xyz by auto
    then show ?thesis by blast
  qed
  moreover have "lookup_label sg labels (access_by_pos a (affected_ty u)) = None
    \<and> (\<forall>t \<in> typings sg labels a. t (affected_ty u) = new_label u
        \<and> (\<forall>src \<in> set (type_source u). source_label t src = new_label u))
    \<and> (\<exists>x y z. (x, y, z) \<in> {(Int_label, Int_label, Int_label), (Pointer, Int_label, Pointer), (Int_label, Pointer, Pointer)}
      \<and> l \<in> {None, Some x} \<and> r \<in> {None, Some y} \<and> s \<in> {None, Some z})"
    using u lrs unfolding cons_to_label_update_def add_constraint_to_pattern_def Ball_def tp
    by (cases l; cases r; cases s) (auto simp: add_typing_def source_label_def split: type_labels.splits)
  ultimately show ?thesis by blast
qed

section \<open>The rounds\<close>

definition demanded ::
    "('g, 'w, 'tid) sketch_graph \<Rightarrow> labeling \<Rightarrow> 'tid type_variable \<Rightarrow> 'tid add_constraint \<Rightarrow> 'tid subtype_constraint set" where
  "demanded sg labels weak a =
     (\<Union>u \<in> set (cons_to_label_update sg labels a).
        (\<lambda>src. subtype_new (access_by_pos a (affected_ty u)) (get_affecting_type weak a src)) ` set (type_source u))"

definition parts :: "'tid add_constraint \<Rightarrow> 'tid dtv set" where
  "parts a = {lhs_ty a, rhs_ty a, repr_ty a}"

definition candidates :: "'tid type_variable \<Rightarrow> 'tid constraint_set \<Rightarrow> 'tid constraint_set" where
  "candidates weak cs = (\<Union>a \<in> {a. AddCons a \<in> cs}.
     (\<lambda>(t, s). SubTy (subtype_new t s)) ` (parts a \<times> insert (dtv_new weak) (parts a)))"

lemma apply_updates_cons:
  "fst (apply_updates sg weak us labels)
    = concat (map (\<lambda>(a, u). map (\<lambda>src. subtype_new (access_by_pos a (affected_ty u)) (get_affecting_type weak a src)) (type_source u)) us)"
  by (induction us arbitrary: labels)
    (auto simp: apply_label_update_def Let_def split_beta)

lemma apply_add_constraints_demanded:
  "set (fst (apply_add_constraints sg weak adds labels)) = (\<Union>a \<in> set adds. demanded sg labels weak a)"
  by (force simp: apply_add_constraints_def apply_updates_cons demanded_def Let_def)

lemma add_constraints_of_set: "finite cs \<Longrightarrow> set (add_constraints_of cs) = {a. AddCons a \<in> cs}"
proof -
  assume fin: "finite cs"
  have "(\<Union>x \<in> cs. case x of AddCons a \<Rightarrow> {a} | SubTy _ \<Rightarrow> {}) = {a. AddCons a \<in> cs}"
    by (force split: ty_constraint.splits)
  moreover have "finite (\<Union>x \<in> cs. case x of AddCons a \<Rightarrow> {a} | SubTy _ \<Rightarrow> {})"
    using fin by (auto split: ty_constraint.splits)
  ultimately show ?thesis by (simp add: add_constraints_of_def)
qed

lemma finite_candidates: "finite cs \<Longrightarrow> finite (candidates weak cs)"
proof -
  assume "finite cs"
  then have "finite (AddCons -` cs)" by (intro finite_vimageI) (auto intro: injI)
  then show ?thesis by (simp add: candidates_def parts_def vimage_def)
qed

lemma demanded_candidates: "AddCons a \<in> cs \<Longrightarrow> SubTy ` demanded sg labels weak a \<subseteq> candidates weak cs"
proof -
  assume a: "AddCons a \<in> cs"
  have "access_by_pos a p \<in> parts a" for p by (cases p) (simp_all add: parts_def)
  moreover then have "get_affecting_type weak a src \<in> insert (dtv_new weak) (parts a)" for src
    by (cases src) (simp_all add: get_affecting_type_def)
  ultimately show ?thesis using a by (force simp: demanded_def candidates_def)
qed

lemma fold_insert_SubTy: "fold (\<lambda>c cs. cs_insert (SubTy c) cs) xs cs = cs \<union> SubTy ` set xs"
  by (induction xs arbitrary: cs) (auto simp: cs_insert_def)

text \<open>A loop that only adds constraints of a finite set ends, and it ends in a fixpoint.\<close>

lemma infer_loop_ends:
  assumes C: "finite C" and step: "\<And>cs. P cs \<Longrightarrow> \<exists>X. infer cs = Some (Inr (cs \<union> X)) \<and> X \<subseteq> C \<and> P (cs \<union> X)"
    and cs: "P cs"
  shows "\<exists>res. infer_loop infer cs = Some (Inr res) \<and> P res \<and> cs \<subseteq> res \<and> res \<subseteq> cs \<union> C \<and> infer res = Some (Inr res)"
  using cs
proof (induction "card (C - cs)" arbitrary: cs rule: less_induct)
  case less
  obtain X where X: "infer cs = Some (Inr (cs \<union> X))" "X \<subseteq> C" "P (cs \<union> X)" using step [OF less.prems] by blast
  show ?case
  proof (cases "cs \<union> X = cs")
    case True
    then have "infer_loop infer cs = Some (Inr cs)" using X(1) by (subst infer_loop.simps) simp
    then show ?thesis using X True less.prems by auto
  next
    case False
    then obtain x where "x \<in> X" "x \<notin> cs" by blast
    then have "C - (cs \<union> X) \<subset> C - cs" using X(2) by blast
    then have "card (C - (cs \<union> X)) < card (C - cs)" using C by (intro psubset_card_mono) auto
    from less.hyps [OF this X(3)] obtain res where res: "infer_loop infer (cs \<union> X) = Some (Inr res)" "P res"
      "cs \<union> X \<subseteq> res" "res \<subseteq> cs \<union> X \<union> C" "infer res = Some (Inr res)" by blast
    have "infer_loop infer cs = Some (Inr res)" using X(1) False res(1) by (subst infer_loop.simps) simp
    then show ?thesis using res X(2) by blast
  qed
qed

text \<open>
  Every label that an addition gives to an operand is forced: the operand had no label, the
  labels of the other operands allow a typing of the addition, and in every typing they allow
  the operand has that label, as have the variables it is made a subtype of.
\<close>

theorem label_update_forced:
  assumes "u \<in> set (cons_to_label_update sg labels a)"
  shows "lookup_label sg labels (access_by_pos a (affected_ty u)) = None
    \<and> (\<forall>t \<in> typings sg labels a. t (affected_ty u) = new_label u
        \<and> (\<forall>src \<in> set (type_source u). source_label t src = new_label u))
    \<and> typings sg labels a \<noteq> {}"
  by (rule label_update_forced_spec [OF assms])

lemma infer_pointers_spec:
  assumes env: "sketch_env G ok U ufok L C le" and ords: "is_enum hord" "is_enum vord"
    and li: "{nl_bot (li_lattice li), nl_top (li_lattice li)} \<subseteq> C"
      "\<forall>x \<in> C. le (nl_bot (li_lattice li)) x \<and> le x (nl_top (li_lattice li))"
      "\<forall>tv \<in> li_elements li. \<exists>e \<in> C. nl_get_elem (li_lattice li) (get_name show_tid tv) = Some e"
    and fin: "finite cs" and small: "\<forall>v \<in> cs_variables cs. \<forall>d. Add d \<in> set (dtv_labels v) \<longrightarrow> in_i64 d"
    and weak: "weak = tv_new (elem_name (weakest_integral_type li))"
  shows "\<exists>res sg. infer_pointers U hord vord G L ule elem_name show_tid li cs = Some (Inr res)
    \<and> cs \<subseteq> res \<and> res \<subseteq> cs \<union> candidates weak cs
    \<and> build_and_label_constraints U hord vord G L show_tid
        (sketch_builder_new (li_lattice li) (li_elements li) (\<lambda>d m. map_option Inr (insert_dtv G L (li_lattice li) d m)))
        (sorted_list_of_set (constraint_set_to_subtys res)) = Some (Inr sg)
    \<and> (\<forall>a. AddCons a \<in> cs \<longrightarrow> SubTy ` demanded sg (get_initial_labeling G ule li sg) weak a \<subseteq> res)"
proof -
  let ?bld = "sketch_builder_new (li_lattice li) (li_elements li) (\<lambda>d m. map_option Inr (insert_dtv G L (li_lattice li) d m))"
  let ?C = "candidates weak cs" and ?adds = "add_constraints_of cs"
  let ?infer = "infer_round U hord vord G L ule elem_name show_tid li ?adds"
  let ?P = "\<lambda>c. cs \<subseteq> c \<and> c \<subseteq> cs \<union> ?C"
  have adds: "set ?adds = {a. AddCons a \<in> cs}" by (rule add_constraints_of_set [OF fin])
  have lab: "in_i64 d" if c: "c \<subseteq> cs \<union> ?C" "SubTy s \<in> c"
      and d: "Add d \<in> set (dtv_labels (sub_lhs s)) \<union> set (dtv_labels (sub_rhs s))" for c s d
  proof (cases "SubTy s \<in> cs")
    case True
    then have "{sub_lhs s, sub_rhs s} \<subseteq> cs_variables cs" by (force simp: cs_variables_def)
    then show ?thesis using d small by blast
  next
    case False
    then obtain a where a: "AddCons a \<in> cs" "sub_lhs s \<in> parts a" "sub_rhs s \<in> insert (dtv_new weak) (parts a)"
      using c unfolding candidates_def by auto
    have "parts a \<subseteq> cs_variables cs" using a(1) by (force simp: parts_def cs_variables_def)
    then show ?thesis using d a(2,3) small by (auto simp: dtv_new_def)
  qed
  have round: "\<exists>sg. build_and_label_constraints U hord vord G L show_tid ?bld (sorted_list_of_set (constraint_set_to_subtys c)) = Some (Inr sg)
      \<and> ?infer c = Some (Inr (c \<union> SubTy ` (\<Union>a \<in> {a. AddCons a \<in> cs}. demanded sg (get_initial_labeling G ule li sg) weak a)))"
    if c: "?P c" for c
  proof -
    have "finite c" using c fin finite_candidates [OF fin] finite_subset by blast
    then have fs: "finite (constraint_set_to_subtys c)"
      by (auto simp: constraint_set_to_subtys_def split: ty_constraint.splits)
    have sm: "\<forall>s \<in> set (sorted_list_of_set (constraint_set_to_subtys c)). \<forall>d.
        Add d \<in> set (dtv_labels (sub_lhs s)) \<union> set (dtv_labels (sub_rhs s)) \<longrightarrow> in_i64 d"
      using lab [of c] c fs by simp
    have bld: "add_new_var ?bld = (\<lambda>d g. map_option Inr (insert_dtv G L (sb_lattice ?bld) d g))"
      "sb_lattice ?bld = li_lattice li" "type_lattice_elements ?bld = li_elements li"
      by (simp_all add: sketch_builder_new_def)
    obtain sg where sg: "build_and_label_constraints U hord vord G L show_tid ?bld (sorted_list_of_set (constraint_set_to_subtys c)) = Some (Inr sg)"
      using build_and_label_spec [OF env ords bld(1), unfolded bld(2,3), OF li sm] by (elim exE conjE) (rule that)
    then show ?thesis
      by (intro exI [of _ sg]) (simp add: infer_round_def Let_def fold_insert_SubTy apply_add_constraints_demanded adds weak)
  qed
  have step: "\<exists>X. ?infer c = Some (Inr (c \<union> X)) \<and> X \<subseteq> ?C \<and> ?P (c \<union> X)" if c: "?P c" for c
  proof -
    obtain sg where sg: "?infer c = Some (Inr (c \<union> SubTy ` (\<Union>a \<in> {a. AddCons a \<in> cs}. demanded sg (get_initial_labeling G ule li sg) weak a)))"
      using round [OF c] by blast
    have "SubTy ` (\<Union>a \<in> {a. AddCons a \<in> cs}. demanded sg (get_initial_labeling G ule li sg) weak a) \<subseteq> ?C"
      using demanded_candidates [of _ cs] by blast
    then show ?thesis using sg c by (intro exI conjI) auto
  qed
  obtain res where res: "infer_loop ?infer cs = Some (Inr res)" "?P res" "?infer res = Some (Inr res)"
    using infer_loop_ends [of ?C ?P ?infer cs, OF finite_candidates [OF fin] step] by blast
  obtain sg where sg: "build_and_label_constraints U hord vord G L show_tid ?bld (sorted_list_of_set (constraint_set_to_subtys res)) = Some (Inr sg)"
    "?infer res = Some (Inr (res \<union> SubTy ` (\<Union>a \<in> {a. AddCons a \<in> cs}. demanded sg (get_initial_labeling G ule li sg) weak a)))"
    using round [OF res(2)] by blast
  have "res \<union> SubTy ` (\<Union>a \<in> {a. AddCons a \<in> cs}. demanded sg (get_initial_labeling G ule li sg) weak a) = res"
    using sg(2) res(3) by simp
  then show ?thesis using res(1,2) sg(1) unfolding infer_pointers_def by blast
qed

text \<open>
  C13. Pointer inference ends without a panic or an error: it only adds constraints between the
  operands of one addition, or between an operand and the weakest integer, and in its result no
  addition demands a further constraint under the labels of the sketch graph of that result.
\<close>

theorem infer_pointers_ends:
  assumes env: "sketch_env G ok U ufok L C le" and ords: "is_enum hord" "is_enum vord"
    and li: "{nl_bot (li_lattice li), nl_top (li_lattice li)} \<subseteq> C"
      "\<forall>x \<in> C. le (nl_bot (li_lattice li)) x \<and> le x (nl_top (li_lattice li))"
      "\<forall>tv \<in> li_elements li. \<exists>e \<in> C. nl_get_elem (li_lattice li) (get_name show_tid tv) = Some e"
    and fin: "finite cs" and small: "\<forall>v \<in> cs_variables cs. \<forall>d. Add d \<in> set (dtv_labels v) \<longrightarrow> in_i64 d"
    and weak: "weak = tv_new (elem_name (weakest_integral_type li))"
  shows "\<exists>res sg. infer_pointers U hord vord G L ule elem_name show_tid li cs = Some (Inr res)
    \<and> cs \<subseteq> res \<and> res \<subseteq> cs \<union> candidates weak cs
    \<and> build_and_label_constraints U hord vord G L show_tid
        (sketch_builder_new (li_lattice li) (li_elements li) (\<lambda>d m. map_option Inr (insert_dtv G L (li_lattice li) d m)))
        (sorted_list_of_set (constraint_set_to_subtys res)) = Some (Inr sg)
    \<and> (\<forall>a. AddCons a \<in> cs \<longrightarrow> SubTy ` demanded sg (get_initial_labeling G ule li sg) weak a \<subseteq> res)"
  by (rule infer_pointers_spec [where elem_name = elem_name and li = li, OF assms])

section \<open>Concrete additions\<close>

definition example_add :: "nat add_constraint" where
  "example_add = add_constraint_new (dtv_new (tv_new ''x'')) (dtv_new (tv_new ''y'')) (dtv_new (tv_new ''z''))"

definition example_graph :: "((nat, field_label) list_graph, nat, nat) sketch_graph" where
  "example_graph = \<lparr>quotient_graph = load_store_graph, default_label = 1\<rparr>"

definition example_labels :: labeling where
  "example_labels = [0 \<mapsto> Pointer, 1 \<mapsto> Int_label]"

lemma example_update:
  "cons_to_label_update example_graph example_labels example_add
    = [\<lparr>affected_ty = Res_pos, type_source = [PositionTy Lhs_pos], new_label = Pointer\<rparr>]"
  by (simp add: cons_to_label_update_def add_constraint_to_pattern_def lookup_label_def example_graph_def
      example_labels_def example_add_def add_constraint_new_def load_store_graph_def mg_get_node_def dtv_new_def tv_new_def)

theorem label_update_forced_witness:
  "lookup_label example_graph example_labels (repr_ty example_add) = None
    \<and> (\<exists>t. t \<in> typings example_graph example_labels example_add \<and> t Res_pos = Pointer \<and> t Lhs_pos = Pointer)"
  using label_update_forced [of "\<lparr>affected_ty = Res_pos, type_source = [PositionTy Lhs_pos], new_label = Pointer\<rparr>"
      example_graph example_labels example_add]
  by (auto simp: example_update source_label_def)

definition fd_info :: "(custom_lattice_element, nat) lattice_info" where
  "fd_info = lattice_info_new fd_named {tv_new ''int''} (enl_top_of fd_generated)"

definition ce_ule :: "custom_lattice_element \<Rightarrow> custom_lattice_element \<Rightarrow> bool" where
  "ce_ule x y \<longleftrightarrow> ce_partial_cmp x y \<in> {Some (Some Less), Some (Some Equal)}"

theorem infer_pointers_ends_witness:
  "\<exists>res. infer_pointers list_uf imp_enum sorted_list_of_set list_digraph ce_ops ce_ule ce_elem (\<lambda>_. []) fd_info
      {AddCons example_add, SubTy (subtype_new (create_with_path (tv_new ''x'') [Load]) (dtv_new (tv_new ''int'')))}
      = Some (Inr res) \<and> AddCons example_add \<in> res"
proof -
  let ?cs = "{AddCons example_add, SubTy (subtype_new (create_with_path (tv_new ''x'') [Load]) (dtv_new (tv_new ''int'')))}"
  have info: "li_lattice fd_info = fd_named" "li_elements fd_info = {tv_new ''int''}"
    by (simp_all add: fd_info_def lattice_info_new_def)
  obtain e where e: "enl_nds fd_generated ''int'' = Some e"
    using generated_names [OF fd_generated, of "''int''"] by (auto simp: fd_handles)
  then have "e \<in> elements fd_generated" "nl_get_elem fd_named ''int'' = Some e"
    by (auto simp: elements_def ran_def fd_named_def enl_get_elem_def)
  then have elems: "\<forall>tv \<in> li_elements fd_info. \<exists>e \<in> elements fd_generated.
      nl_get_elem (li_lattice fd_info) (get_name (\<lambda>_. []) tv) = Some e"
    by (simp add: info get_name_def)
  have small: "\<forall>v \<in> cs_variables ?cs. \<forall>d. Add d \<in> set (dtv_labels v) \<longrightarrow> in_i64 d"
    by (simp add: cs_variables_def example_add_def add_constraint_new_def)
  show ?thesis
    using infer_pointers_ends [where li = fd_info, OF fd_sketch.sketch_env_axioms imp_enum sorted_enum, unfolded info(1),
        OF fd_named_ends elems [unfolded info(1)] _ small refl, of ce_ule ce_elem]
    by auto
qed

end
