(* ===== verification/SccConstraints.thy ===== *)
theory SccConstraints
  imports InferPointers Mirror LoopBreakers
begin

text \<open>
  The constraints of the strongly connected components of the call graph
  (\<^verbatim>\<open>src/solver/scc_constraint_generation.rs\<close>,
  \<^verbatim>\<open>src/analysis/callgraph.rs\<close>): bottom up along the condensed call graph the
  constraints of a component are completed by the signatures of its callees, pointers are
  inferred, the automaton of the constraints is simplified, and what is read off it is the
  signature of the component.  The generation of the constraints from the program, the
  condensation and the topological sort are arguments; logging is left out.
\<close>

section \<open>Type variables of terms\<close>

definition tid_indexed_by_variable :: "('tid \<Rightarrow> string) \<Rightarrow> 'tid \<Rightarrow> string \<Rightarrow> 'tid type_variable" where
  "tid_indexed_by_variable show_tid tid var_name = tv_new (show_tid tid @ ''_'' @ var_name)"

definition tid_to_tvar :: "('tid \<Rightarrow> string) \<Rightarrow> 'tid \<Rightarrow> 'tid type_variable" where
  "tid_to_tvar show_tid tid =
     (if take 4 (show_tid tid) = ''glb_'' then new_global (show_tid tid) else tv_new (show_tid tid))"

definition tid_to_tvar_with_tag :: "('tid \<Rightarrow> string) \<Rightarrow> 'tid \<Rightarrow> 'tid \<Rightarrow> 'tid type_variable" where
  "tid_to_tvar_with_tag show_tid tid tag = with_tag (show_tid tid) tag"

definition arg_tvar :: "('tid \<Rightarrow> string) \<Rightarrow> nat \<Rightarrow> 'tid \<Rightarrow> 'tid type_variable" where
  "arg_tvar show_tid index target_sub = tv_new (''arg_'' @ show_tid target_sub @ ''_'' @ show_nat index)"

section \<open>Formals\<close>

definition formal_of :: "'tid dtv \<Rightarrow> 'tid dtv option" where
  "formal_of d =
     (if (refers_to_in_parameter d \<or> refers_to_out_parameter d) \<and> is_formal_dtv d
      then Some (create_with_path (dtv_var d) [hd (dtv_labels d)]) else None)"

definition get_formals_in :: "('tid::linorder) constraint_set \<Rightarrow> 'tid dtv list" where
  "get_formals_in cs_set =
     List.map_filter formal_of
       (concat (map (\<lambda>subty. [sub_lhs subty, sub_rhs subty])
         (sorted_list_of_set (constraint_set_to_subtys cs_set))))"

definition insert_missed_formals :: "('tid::linorder) constraint_set \<Rightarrow> 'tid constraint_set \<Rightarrow> 'tid constraint_set" where
  "insert_missed_formals simplified_cs_set original_cs_set =
     snd (fold (\<lambda>dtv (covered, cs). if dtv \<notin> covered
              then (insert dtv covered, cs_insert (SubTy (subtype_new dtv dtv)) cs) else (covered, cs))
            (get_formals_in original_cs_set) (set (get_formals_in simplified_cs_set), simplified_cs_set))"

section \<open>Callsite tags\<close>

definition remove_cs_tags_for_tids_in_dtv :: "('tid \<Rightarrow> string) \<Rightarrow> 'tid set \<Rightarrow> 'tid dtv \<Rightarrow> 'tid dtv" where
  "remove_cs_tags_for_tids_in_dtv show_tid tid_set d =
     (let bs = dtv_var d
      in if tv_cs_tag bs \<noteq> None \<and> get_name show_tid (tv_to_callee bs) \<in> show_tid ` tid_set
         then substitute_base d (tv_to_callee bs) else d)"

fun remove_cs_tags_for_tids_in_constraint ::
    "('tid \<Rightarrow> string) \<Rightarrow> 'tid set \<Rightarrow> 'tid ty_constraint \<Rightarrow> 'tid ty_constraint" where
  "remove_cs_tags_for_tids_in_constraint show_tid tid_set (SubTy sty) =
     SubTy (subtype_new (remove_cs_tags_for_tids_in_dtv show_tid tid_set (sub_lhs sty))
       (remove_cs_tags_for_tids_in_dtv show_tid tid_set (sub_rhs sty)))"
| "remove_cs_tags_for_tids_in_constraint show_tid tid_set (AddCons add) =
     AddCons (add_constraint_new (remove_cs_tags_for_tids_in_dtv show_tid tid_set (lhs_ty add))
       (remove_cs_tags_for_tids_in_dtv show_tid tid_set (rhs_ty add))
       (remove_cs_tags_for_tids_in_dtv show_tid tid_set (repr_ty add)))"

text \<open>The external view of a component.\<close>

record 'tid signature =
  sig_cs_set :: "'tid subtype_constraint set"

definition retag_dtv :: "'tid \<Rightarrow> 'tid dtv \<Rightarrow> 'tid dtv" where
  "retag_dtv new_tag d =
     (if is_formal_dtv d \<and> (refers_to_in_parameter d \<or> refers_to_out_parameter d)
      then substitute_base d (with_tag (tv_name (dtv_var d)) new_tag) else d)"

definition instantiate :: "'tid signature \<Rightarrow> 'tid \<Rightarrow> 'tid subtype_constraint set" where
  "instantiate sg cs_tag =
     (\<lambda>x. subtype_new (retag_dtv cs_tag (sub_lhs x)) (retag_dtv cs_tag (sub_rhs x))) ` sig_cs_set sg"

definition identify_called_formals :: "'tid constraint_set \<Rightarrow> ('tid type_variable \<times> 'tid) set" where
  "identify_called_formals cs_set =
     (\<Union>x \<in> cs_set. set (List.map_filter (\<lambda>d. map_option (\<lambda>cs_tag. (tv_to_callee (dtv_var d), cs_tag)) (tv_cs_tag (dtv_var d)))
       (constraint_variables x)))"

definition instantiate_callee_signatures ::
    "('tid::linorder) constraint_set \<Rightarrow> ('tid type_variable \<Rightarrow> 'tid signature option) \<Rightarrow> 'tid constraint_set option" where
  "instantiate_callee_signatures curr_set state =
     fold_opt (\<lambda>(ty, cs_tag) cs. map_option (\<lambda>sg. cs \<union> SubTy ` instantiate sg cs_tag) (state ty))
       (sorted_list_of_set (identify_called_formals curr_set)) curr_set"

section \<open>The condensed call graph\<close>

record 'c cg_ordering =
  condensed_cg :: 'c
  topo_order :: "nat list"

definition cg_ordering_new ::
    "('cg \<Rightarrow> 'c) \<Rightarrow> ('c \<Rightarrow> nat list option) \<Rightarrow> 'cg \<Rightarrow> string + 'c cg_ordering" where
  "cg_ordering_new condensation toposort cg =
     (let condensed = condensation cg
      in case toposort condensed of
           None \<Rightarrow> Inl ''Constructing topological sort of codensed sccs for sketch building''
         | Some order \<Rightarrow> Inr \<lparr>condensed_cg = condensed, topo_order = order\<rparr>)"

definition get_reverse_topo :: "'c cg_ordering \<Rightarrow> nat list" where
  "get_reverse_topo ord = rev (topo_order ord)"

section \<open>Simplifying a component\<close>

text \<open>What the generation of the constraints and the libraries provide.\<close>

record ('u, 'gs, 't, 'gf, 'tid) scc_lib =
  lib_uf :: "'u union_find_ops"
  lib_hord :: "edge_implication set \<Rightarrow> edge_implication list"
  lib_vord :: "nat set \<Rightarrow> nat list"
  lib_sketch_pg :: "('gs, 't lattice_bounds, field_label) petgraph"
  lib_lattice :: "'t lattice_ops"
  lib_le :: "'t \<Rightarrow> 't \<Rightarrow> bool"
  lib_elem_name :: "'t \<Rightarrow> string"
  lib_show_tid :: "'tid \<Rightarrow> string"
  lib_fsa_pg :: "('gf, 'tid) fsa_pg"
  lib_scc :: "'gf \<Rightarrow> nat list list"
  lib_generate :: "'tid set \<Rightarrow> variable_manager \<Rightarrow> ('tid constraint_set \<times> variable_manager) option"

record ('cg, 't, 'tid) scc_context =
  ctx_cg :: 'cg
  ctx_vman :: variable_manager
  lattice_def :: "('t, 'tid) lattice_info"
  all_interesting_variables :: "'tid rule_context"
  additional_constraints :: "'tid \<Rightarrow> 'tid constraint_set option"

definition infer_with ::
    "('u, 'gs, 't, 'gf, 'tid::linorder) scc_lib \<Rightarrow> ('t, 'tid) lattice_info \<Rightarrow> 'tid constraint_set \<Rightarrow>
     (string + 'tid constraint_set) option" where
  "infer_with lib li =
     infer_pointers (lib_uf lib) (lib_hord lib) (lib_vord lib) (lib_sketch_pg lib) (lib_lattice lib)
       (lib_le lib) (lib_elem_name lib) (lib_show_tid lib) li"

definition basic_constraints ::
    "('u, 'gs, 't, 'gf, 'tid::linorder) scc_lib \<Rightarrow> ('cg, 't, 'tid) scc_context \<Rightarrow> 'tid list \<Rightarrow>
     ('tid type_variable \<Rightarrow> 'tid signature option) \<Rightarrow> ('tid constraint_set \<times> variable_manager) option" where
  "basic_constraints lib ctx scc state =
     (let tid_filter = set scc
      in do { (genned_cons, vman) \<leftarrow> lib_generate lib tid_filter (ctx_vman ctx);
              let basic_cons = remove_cs_tags_for_tids_in_constraint (lib_show_tid lib) tid_filter ` genned_cons
              in if scc = [] then None
                 else map_option (\<lambda>cs. (fold (\<lambda>tid cs. case additional_constraints ctx tid of
                          Some to_insert \<Rightarrow> insert_all cs to_insert | None \<Rightarrow> cs) scc cs, vman))
                     (instantiate_callee_signatures basic_cons state) })"

definition scc_rule_context ::
    "('u, 'gs, 't, 'gf, 'tid::linorder) scc_lib \<Rightarrow> ('cg, 't, 'tid) scc_context \<Rightarrow> 'tid list \<Rightarrow>
     'tid type_variable set \<Rightarrow> 'tid constraint_set \<Rightarrow> 'tid rule_context" where
  "scc_rule_context lib ctx scc base_interesting_variables resolved_cs_set =
     rule_context_new (base_interesting_variables \<union> tid_to_tvar (lib_show_tid lib) ` set scc
       \<union> dtv_var ` Set.filter (\<lambda>x. tv_is_global (dtv_var x)) (cs_variables resolved_cs_set)
       \<union> li_elements (lattice_def ctx))"

text \<open>A run is a panic, or an error or the signature together with the variable manager.\<close>

definition simplify_scc ::
    "('u, 'gs, 't, 'gf, 'tid::linorder) scc_lib \<Rightarrow> ('cg, 't, 'tid) scc_context \<Rightarrow> 'tid list \<Rightarrow>
     ('tid type_variable \<Rightarrow> 'tid signature option) \<Rightarrow> 'tid type_variable set \<Rightarrow>
     (string + 'tid signature \<times> ('cg, 't, 'tid) scc_context) option" where
  "simplify_scc lib ctx scc state base_interesting_variables =
     do { (basic_cons, vman1) \<leftarrow> basic_constraints lib ctx scc state;
          inferred \<leftarrow> infer_with lib (lattice_def ctx) basic_cons;
          (case inferred of
             Inl e \<Rightarrow> Some (Inl e)
           | Inr resolved_cs_set \<Rightarrow>
               do { fsa_res \<leftarrow> fsa_new (lib_fsa_pg lib) resolved_cs_set
                      (scc_rule_context lib ctx scc base_interesting_variables resolved_cs_set);
                    (case fsa_res of
                       Inl e \<Rightarrow> Some (Inl e)
                     | Inr fsa \<Rightarrow>
                         do { (fsa', vman2) \<leftarrow> simplify_graph (lib_fsa_pg lib) (lib_scc lib) vman1 fsa;
                              walked \<leftarrow> walk_constraints (lib_fsa_pg lib) fsa';
                              let cons = insert_missed_formals (forget_add_constraints walked) resolved_cs_set
                              in Some (Inr (\<lparr>sig_cs_set = constraint_set_to_subtys cons\<rparr>,
                                  ctx\<lparr>ctx_vman := vman2\<rparr>)) }) }) }"

definition simplify_signature ::
    "('u, 'gs, 't, 'gf, 'tid::linorder) scc_lib \<Rightarrow> ('cg, 't, 'tid) scc_context \<Rightarrow> 'tid list \<Rightarrow>
     ('tid type_variable \<Rightarrow> 'tid signature option) \<Rightarrow>
     (string + 'tid signature \<times> ('cg, 't, 'tid) scc_context) option" where
  "simplify_signature lib ctx scc state = simplify_scc lib ctx scc state {}"

definition simplify_scc_cons ::
    "('u, 'gs, 't, 'gf, 'tid::linorder) scc_lib \<Rightarrow> ('cg, 't, 'tid) scc_context \<Rightarrow> 'tid list \<Rightarrow>
     ('tid type_variable \<Rightarrow> 'tid signature option) \<Rightarrow>
     (string + 'tid signature \<times> ('cg, 't, 'tid) scc_context) option" where
  "simplify_scc_cons lib ctx scc state =
     simplify_scc lib ctx scc state (get_interesting (all_interesting_variables ctx))"

section \<open>All components\<close>

record 'tid scc_constraints =
  sc_scc :: "'tid list"
  sc_constraints :: "'tid subtype_constraint set"

text \<open>The components in reverse topological order, callees first.\<close>

fun signatures_of ::
    "('u, 'gs, 't, 'gf, 'tid::linorder) scc_lib \<Rightarrow> ('c, 'tid list, unit) petgraph \<Rightarrow> 'c cg_ordering \<Rightarrow> nat list \<Rightarrow>
     ('tid type_variable \<Rightarrow> 'tid signature option) \<Rightarrow> ('cg, 't, 'tid) scc_context \<Rightarrow>
     (string + ('tid type_variable \<Rightarrow> 'tid signature option) \<times> ('cg, 't, 'tid) scc_context) option" where
  "signatures_of lib CG ord [] state ctx = Some (Inr (state, ctx))"
| "signatures_of lib CG ord (nd # nds) state ctx =
     do { scc \<leftarrow> pg_node_weight CG (condensed_cg ord) nd;
          res \<leftarrow> simplify_signature lib ctx scc state;
          (case res of
             Inl e \<Rightarrow> Some (Inl e)
           | Inr (sg, ctx') \<Rightarrow>
               signatures_of lib CG ord nds
                 (fold (\<lambda>tid st. st(tid_to_tvar (lib_show_tid lib) tid \<mapsto> sg)) scc state) ctx') }"

definition get_signatures ::
    "('u, 'gs, 't, 'gf, 'tid::linorder) scc_lib \<Rightarrow> ('c, 'tid list, unit) petgraph \<Rightarrow> 'c cg_ordering \<Rightarrow>
     ('cg, 't, 'tid) scc_context \<Rightarrow>
     (string + ('tid type_variable \<Rightarrow> 'tid signature option) \<times> ('cg, 't, 'tid) scc_context) option" where
  "get_signatures lib CG ord ctx = signatures_of lib CG ord (get_reverse_topo ord) Map.empty ctx"

fun simplified_of ::
    "('u, 'gs, 't, 'gf, 'tid::linorder) scc_lib \<Rightarrow> ('c, 'tid list, unit) petgraph \<Rightarrow> 'c cg_ordering \<Rightarrow>
     ('tid type_variable \<Rightarrow> 'tid signature option) \<Rightarrow> nat list \<Rightarrow> ('cg, 't, 'tid) scc_context \<Rightarrow>
     (string + 'tid scc_constraints list) option" where
  "simplified_of lib CG ord sigs [] ctx = Some (Inr [])"
| "simplified_of lib CG ord sigs (nd # nds) ctx =
     do { scc \<leftarrow> pg_node_weight CG (condensed_cg ord) nd;
          res \<leftarrow> simplify_scc_cons lib ctx scc sigs;
          (case res of
             Inl e \<Rightarrow> Some (Inl e)
           | Inr (sg, ctx') \<Rightarrow>
               map_option (map_sum id (Cons \<lparr>sc_scc = scc, sc_constraints = sig_cs_set sg\<rparr>))
                 (simplified_of lib CG ord sigs nds ctx')) }"

definition get_simplified_constraints ::
    "('u, 'gs, 't, 'gf, 'tid::linorder) scc_lib \<Rightarrow> ('c, 'tid list, unit) petgraph \<Rightarrow> ('cg \<Rightarrow> 'c) \<Rightarrow>
     ('c \<Rightarrow> nat list option) \<Rightarrow> ('cg, 't, 'tid) scc_context \<Rightarrow> (string + 'tid scc_constraints list) option" where
  "get_simplified_constraints lib CG condensation toposort ctx =
     (case cg_ordering_new condensation toposort (ctx_cg ctx) of
        Inl e \<Rightarrow> Some (Inl e)
      | Inr ord \<Rightarrow>
          do { sigs \<leftarrow> get_signatures lib CG ord ctx;
               (case sigs of
                  Inl e \<Rightarrow> Some (Inl e)
                | Inr (state, ctx') \<Rightarrow> simplified_of lib CG ord state (topo_order ord) ctx') })"

section \<open>Signatures\<close>

lemma finite_subtys: "finite cs \<Longrightarrow> finite (constraint_set_to_subtys cs)"
  by (auto simp: constraint_set_to_subtys_def split: ty_constraint.splits)

lemma set_get_formals_in:
  assumes "finite cs"
  shows "f \<in> set (get_formals_in cs) \<longleftrightarrow>
    (\<exists>s d. SubTy s \<in> cs \<and> d \<in> {sub_lhs s, sub_rhs s} \<and> formal_of d = Some f)"
  using finite_subtys [OF assms] by (auto simp: get_formals_in_def map_filter_def) force+

lemma missed_fold:
  "snd (fold (\<lambda>dtv (covered, cs). if dtv \<notin> covered
        then (insert dtv covered, cs_insert (SubTy (subtype_new dtv dtv)) cs) else (covered, cs)) ds (cov, cs0))
    = cs0 \<union> (\<lambda>d. SubTy (subtype_new d d)) ` (set ds - cov)"
proof (induction ds arbitrary: cov cs0)
  case (Cons d ds)
  show ?case
  proof (cases "d \<in> cov")
    case True
    then have "set (d # ds) - cov = set ds - cov" by auto
    then show ?thesis using True Cons.IH by simp
  next
    case False
    then have "set (d # ds) - cov = insert d (set ds - insert d cov)" by auto
    then show ?thesis using False Cons.IH by (simp add: cs_insert_def)
  qed
qed simp

lemma insert_missed_formals_eq:
  "insert_missed_formals simplified original
    = simplified \<union> (\<lambda>d. SubTy (subtype_new d d)) ` (set (get_formals_in original) - set (get_formals_in simplified))"
  unfolding insert_missed_formals_def missed_fold by (rule refl)

lemma formal_of_formal: "formal_of d = Some f \<Longrightarrow> formal_of f = Some f"
  by (auto simp: formal_of_def refers_to_in_parameter_def refers_to_out_parameter_def is_formal_dtv_def
      split: if_splits list.splits field_label.splits)

lemma missed_formals_spec:
  assumes "finite simplified" "finite original"
  shows "set (get_formals_in (insert_missed_formals simplified original))
    = set (get_formals_in simplified) \<union> set (get_formals_in original)"
proof -
  let ?miss = "set (get_formals_in original) - set (get_formals_in simplified)"
  have fin: "finite (insert_missed_formals simplified original)"
    unfolding insert_missed_formals_eq using assms(1) by simp
  have fix_formal: "formal_of d = Some d" if "d \<in> ?miss" for d
    using that set_get_formals_in [OF assms(2)] formal_of_formal by blast
  have "f \<in> set (get_formals_in (insert_missed_formals simplified original))
      \<longleftrightarrow> f \<in> set (get_formals_in simplified) \<or> f \<in> ?miss" for f
    unfolding set_get_formals_in [OF fin] set_get_formals_in [OF assms(1), of f]
    unfolding insert_missed_formals_eq using fix_formal by fastforce
  then show ?thesis by blast
qed

section \<open>Soundness of a simplified component\<close>

text \<open>No component of the automaton has two states, so that no loop breaker is handed out.\<close>

definition recursion_free ::
    "('g, 'tid::linorder) fsa_pg \<Rightarrow> ('g \<Rightarrow> nat list list) \<Rightarrow> 'tid constraint_set \<Rightarrow> 'tid rule_context \<Rightarrow> bool" where
  "recursion_free G scc cons ctx \<longleftrightarrow> (\<forall>fsa0 fsa1 fsa2 fsa3. fsa_new G cons ctx = Some (Inr fsa0)
     \<longrightarrow> saturate G fsa0 = Some fsa1 \<longrightarrow> intersect_with_pop_push G fsa1 = Some fsa2
     \<longrightarrow> remove_unreachable G fsa2 = Some fsa3 \<longrightarrow> (\<forall>c \<in> set (scc (grph fsa3)). length c = 1))"

lemma break_singletons:
  "\<forall>c \<in> set cs. length c = 1 \<Longrightarrow> fold_opt (break_scc G) cs st = Some st"
  by (induction cs) (simp_all add: break_scc_def)

lemma no_breakers:
  assumes "\<forall>c \<in> set (scc (grph fsa)). length c = 1"
  shows "generate_recursive_type_variables G scc vman fsa = Some (fsa, vman)"
  unfolding generate_recursive_type_variables_def
  by (subst breaker_loop.simps) (simp add: break_singletons [OF assms])

context fsa_graph
begin

lemma simplify_graph_spec:
  assumes fin: "finite cons" and rf: "recursion_free G scc cons ctx"
  shows "\<exists>fsa0 fsa. fsa_new G cons ctx = Some (Inr fsa0) \<and> simplify_graph G scc vman fsa0 = Some (fsa, vman)
    \<and> walk_sound (constraint_set_to_subtys cons) (walk_constraints G fsa)"
proof -
  let ?C = "constraint_set_to_subtys cons"
  obtain fsa0 fsa1 where f1: "fsa_new G cons ctx = Some (Inr fsa0)" "saturate G fsa0 = Some fsa1"
    "fsa_ok fsa1" "Start \<in> graph_states G (grph fsa1)"
    "\<forall>e \<in> graph_edges G (grph fsa1). ed_sound ?C e"
    using saturate_new_spec [OF fin] by blast
  obtain fsa2 e where f2: "intersect_with_pop_push G fsa1 = Some fsa2" "mirror_ok ?C {} fsa2"
    "fsa_mp fsa2 = fsa_mp fsa1" "cant_pop_nodes fsa2 End = Some e"
    using intersect_spec [OF f1(3,5)] by blast
  obtain s where s: "fsa_mp fsa2 Start = Some s"
    using f1(4) fsa_ok_states [OF f1(3)] f2(3) by auto
  note M = mirror_okD [OF f2(2)]
  have nodes: "pg_node_weight G (grph fsa2) s \<noteq> None" "pg_node_weight G (grph fsa2) e \<noteq> None"
    using M(2) [OF s] M(3) [OF f2(4)] by simp_all
  have shrink: "\<exists>fsa'. remove_unreachable G fsa = Some fsa' \<and> walk_ok ?C fsa'
      \<and> fsa_mp fsa' = fsa_mp fsa \<and> cant_pop_nodes fsa' = cant_pop_nodes fsa
      \<and> pg_node_weight G (grph fsa') s \<noteq> None \<and> pg_node_weight G (grph fsa') e \<noteq> None"
    if w: "walk_ok ?C fsa" and se: "fsa_mp fsa Start = Some s" "cant_pop_nodes fsa End = Some e"
      and nd: "pg_node_weight G (grph fsa) s \<noteq> None" "pg_node_weight G (grph fsa) e \<noteq> None" for fsa
  proof -
    have okg: "ok (grph fsa)" using w unfolding walk_ok_def by blast
    obtain fsa' where f: "remove_unreachable G fsa = Some fsa'" "ok (grph fsa')"
      "fsa_mp fsa' = fsa_mp fsa" "cant_pop_nodes fsa' = cant_pop_nodes fsa"
      "\<forall>n. pg_node_weight G (grph fsa') n =
         (if n = s \<or> n = e \<or> on_path (grph fsa) s e n then pg_node_weight G (grph fsa) n else None)"
      "\<forall>i x. pg_edge G (grph fsa') i = Some x \<longrightarrow> pg_edge G (grph fsa) i = Some x"
      using remove_unreachable_spec [OF okg se(1) nd(1) se(2) nd(2)] by blast
    have "walk_ok ?C fsa'" by (rule walk_ok_shrink [OF w f(2-4)]) (use f(5,6) in auto)
    then show ?thesis using f nd by auto
  qed
  obtain fsa3 where f3: "remove_unreachable G fsa2 = Some fsa3" "walk_ok ?C fsa3"
    "fsa_mp fsa3 = fsa_mp fsa2" "cant_pop_nodes fsa3 = cant_pop_nodes fsa2"
    "pg_node_weight G (grph fsa3) s \<noteq> None" "pg_node_weight G (grph fsa3) e \<noteq> None"
    using shrink [OF walk_ok_mirror [OF f2(2)] s f2(4) nodes] by blast
  obtain fsa5 where f5: "remove_unreachable G fsa3 = Some fsa5" "walk_ok ?C fsa5"
    "fsa_mp fsa5 = fsa_mp fsa3" "cant_pop_nodes fsa5 = cant_pop_nodes fsa3"
    using shrink [OF f3(2)] s f2(4) f3(3-6) by auto
  have "\<forall>c \<in> set (scc (grph fsa3)). length c = 1"
    using rf f1(1,2) f2(1) f3(1) unfolding recursion_free_def by blast
  then have "simplify_graph G scc vman fsa0 = Some (fsa5, vman)"
    by (simp add: simplify_graph_def f1(2) f2(1) f3(1) f5(1) no_breakers)
  moreover have "walk_sound ?C (walk_constraints G fsa5)"
    using s f2(4) f3(3,4) f5(3,4) by (intro walk_constraints_spec [OF f5(2)]) auto
  ultimately show ?thesis using f1(1) by blast
qed

end

lemma walk_finite: "walk_constraints G fsa = Some cs \<Longrightarrow> finite cs"
  by (auto simp: walk_constraints_def split: Option.bind_splits option.splits)

text \<open>What a signature may say of the constraints it was made from.\<close>

definition signature_sound :: "('tid::linorder) constraint_set \<Rightarrow> 'tid signature \<Rightarrow> bool" where
  "signature_sound cs sg \<longleftrightarrow>
     (\<forall>c \<in> sig_cs_set sg. sub_lhs c = sub_rhs c
        \<or> (\<exists>l r. entails (constraint_set_to_subtys cs) l r
             \<and> simplify_path l = Some (sub_lhs c) \<and> simplify_path r = Some (sub_rhs c)))
     \<and> (\<forall>f \<in> set (get_formals_in cs). \<exists>c \<in> sig_cs_set sg. Some f \<in> {formal_of (sub_lhs c), formal_of (sub_rhs c)})"

lemma signature_sound_walk:
  assumes fin: "finite cs" and w: "walk_sound (constraint_set_to_subtys cs) (Some walked)" "finite walked"
  shows "signature_sound cs \<lparr>sig_cs_set = constraint_set_to_subtys (insert_missed_formals (forget_add_constraints walked) cs)\<rparr>"
proof -
  let ?f = "forget_add_constraints walked" and ?cons = "insert_missed_formals (forget_add_constraints walked) cs"
  have sub: "?f \<subseteq> walked" by (auto simp: forget_add_constraints_def)
  then have finf: "finite ?f" using w(2) finite_subset by blast
  have fincons: "finite ?cons" unfolding insert_missed_formals_eq using finf by simp
  have "sub_lhs c = sub_rhs c \<or> (\<exists>l r. entails (constraint_set_to_subtys cs) l r
      \<and> simplify_path l = Some (sub_lhs c) \<and> simplify_path r = Some (sub_rhs c))" if "SubTy c \<in> ?cons" for c
  proof (cases "SubTy c \<in> ?f")
    case True
    then obtain l r l' r' where "SubTy c = SubTy (subtype_new l' r')" "entails (constraint_set_to_subtys cs) l r"
      "simplify_path l = Some l'" "simplify_path r = Some r'"
      using w(1) sub unfolding walk_sound_def by fastforce
    then show ?thesis by auto
  next
    case False
    then show ?thesis using that by (auto simp: insert_missed_formals_eq)
  qed
  moreover have "\<exists>c. SubTy c \<in> ?cons \<and> Some f \<in> {formal_of (sub_lhs c), formal_of (sub_rhs c)}"
    if "f \<in> set (get_formals_in cs)" for f
  proof -
    have "f \<in> set (get_formals_in ?cons)" using that missed_formals_spec [OF finf fin] by blast
    then show ?thesis unfolding set_get_formals_in [OF fincons] by auto
  qed
  ultimately show ?thesis by (simp add: signature_sound_def Bex_def)
qed

lemma simplify_scc_spec:
  assumes fg: "fsa_graph (lib_fsa_pg lib) okf"
    and basic: "basic_constraints lib ctx scc state = Some (basic, vman)"
    and inf: "infer_with lib (lattice_def ctx) basic = Some (Inr resolved)" and fin: "finite resolved"
    and rf: "recursion_free (lib_fsa_pg lib) (lib_scc lib) resolved (scc_rule_context lib ctx scc base resolved)"
  shows "case simplify_scc lib ctx scc state base of
      None \<Rightarrow> \<exists>l r. entails (constraint_set_to_subtys resolved) l r \<and> (simplify_path l = None \<or> simplify_path r = None)
    | Some (Inl e) \<Rightarrow> False
    | Some (Inr (sg, ctx')) \<Rightarrow> ctx' = ctx\<lparr>ctx_vman := vman\<rparr> \<and> signature_sound resolved sg"
proof -
  let ?G = "lib_fsa_pg lib"
  obtain fsa0 fsa where fsa: "fsa_new ?G resolved (scc_rule_context lib ctx scc base resolved) = Some (Inr fsa0)"
    "simplify_graph ?G (lib_scc lib) vman fsa0 = Some (fsa, vman)"
    and ws: "walk_sound (constraint_set_to_subtys resolved) (walk_constraints ?G fsa)"
    using fsa_graph.simplify_graph_spec [OF fg fin rf] by blast
  have run: "simplify_scc lib ctx scc state base = map_option (\<lambda>walked.
      Inr (\<lparr>sig_cs_set = constraint_set_to_subtys (insert_missed_formals (forget_add_constraints walked) resolved)\<rparr>,
        ctx\<lparr>ctx_vman := vman\<rparr>)) (walk_constraints ?G fsa)"
    by (cases "walk_constraints ?G fsa") (simp_all add: simplify_scc_def basic inf fsa)
  show ?thesis
  proof (cases "walk_constraints ?G fsa")
    case None
    then show ?thesis unfolding run using ws by (simp add: walk_sound_def)
  next
    case (Some walked)
    then show ?thesis unfolding run using signature_sound_walk [OF fin ws [unfolded Some] walk_finite [OF Some]] by simp
  qed
qed


text \<open>
  Completing a signature by the formals of the original constraints keeps every constraint it
  had, adds one reflexive constraint for each formal it missed, and afterwards mentions exactly the
  formals that it or the original constraints mentioned.
\<close>

theorem insert_missed_formals_exact:
  assumes "finite simplified" "finite original"
  shows "insert_missed_formals simplified original = simplified
      \<union> {SubTy (subtype_new d d) | d. d \<in> set (get_formals_in original) \<and> d \<notin> set (get_formals_in simplified)}
    \<and> set (get_formals_in (insert_missed_formals simplified original))
      = set (get_formals_in simplified) \<union> set (get_formals_in original)"
  using missed_formals_spec [OF assms] unfolding insert_missed_formals_eq by blast

lemma retag_removed:
  assumes "tv_cs_tag (dtv_var d) = None" "formal_of d \<noteq> None \<Longrightarrow> tv_name (dtv_var d) \<in> show_tid ` tid_set"
  shows "remove_cs_tags_for_tids_in_dtv show_tid tid_set (retag_dtv tag d) = d"
proof (cases "formal_of d")
  case None
  then have "retag_dtv tag d = d" by (auto simp: retag_dtv_def formal_of_def split: if_splits)
  then show ?thesis using assms(1) by (simp add: remove_cs_tags_for_tids_in_dtv_def)
next
  case (Some f)
  then have f: "is_formal_dtv d" "refers_to_in_parameter d \<or> refers_to_out_parameter d"
    by (auto simp: formal_of_def split: if_splits)
  have base: "tv_to_callee (with_tag (tv_name (dtv_var d)) tag) = dtv_var d"
    using f(1) by (cases d, cases "dtv_var d") (simp add: with_tag_def tv_to_callee_def is_formal_dtv_def)
  have "remove_cs_tags_for_tids_in_dtv show_tid tid_set (retag_dtv tag d)
      = substitute_base (substitute_base d (with_tag (tv_name (dtv_var d)) tag)) (dtv_var d)"
    using f assms Some
    by (simp add: remove_cs_tags_for_tids_in_dtv_def retag_dtv_def Let_def substitute_base_def base get_name_def)
      (simp add: with_tag_def)
  then show ?thesis by (simp add: substitute_base_def)
qed

text \<open>
  Instantiating a signature at a callsite and removing the tags of the functions it speaks of
  gives the signature back, when it has no tags of its own.
\<close>

theorem instantiate_roundtrip:
  assumes "\<forall>c \<in> sig_cs_set sg. \<forall>d \<in> {sub_lhs c, sub_rhs c}. tv_cs_tag (dtv_var d) = None
    \<and> (formal_of d \<noteq> None \<longrightarrow> tv_name (dtv_var d) \<in> show_tid ` tid_set)"
  shows "remove_cs_tags_for_tids_in_constraint show_tid tid_set ` SubTy ` instantiate sg tag = SubTy ` sig_cs_set sg"
proof -
  have "remove_cs_tags_for_tids_in_constraint show_tid tid_set
      (SubTy (subtype_new (retag_dtv tag (sub_lhs c)) (retag_dtv tag (sub_rhs c)))) = SubTy c" if "c \<in> sig_cs_set sg" for c
  proof -
    note a = assms [rule_format, OF that]
    have "remove_cs_tags_for_tids_in_dtv show_tid tid_set (retag_dtv tag (sub_lhs c)) = sub_lhs c"
      by (rule retag_removed) (use a in simp_all)
    moreover have "remove_cs_tags_for_tids_in_dtv show_tid tid_set (retag_dtv tag (sub_rhs c)) = sub_rhs c"
      by (rule retag_removed) (use a in simp_all)
    ultimately show ?thesis by simp
  qed
  then show ?thesis by (simp add: instantiate_def image_image)
qed

section \<open>A concrete component\<close>

definition fun_in :: "nat dtv" where
  "fun_in = create_with_path (tv_new ''f'') [In 0]"

definition example_lib :: "(nat list, (custom_lattice_element lattice_bounds, field_label) list_graph, custom_lattice_element,
    (nat finite_state, nat fsa_edge) list_graph, nat) scc_lib" where
  "example_lib = \<lparr>lib_uf = list_uf, lib_hord = imp_enum, lib_vord = sorted_list_of_set,
     lib_sketch_pg = list_digraph, lib_lattice = ce_ops, lib_le = ce_ule, lib_elem_name = ce_elem,
     lib_show_tid = (\<lambda>_. ''f''), lib_fsa_pg = list_digraph, lib_scc = (\<lambda>g. map (\<lambda>n. [n]) (pg_node_indices list_digraph g)),
     lib_generate = (\<lambda>_ vm. Some ({AddCons example_add, SubTy (subtype_new fun_in (create_with_path (tv_new ''x'') [Load]))}, vm))\<rparr>"

definition example_context :: "(unit, custom_lattice_element, nat) scc_context" where
  "example_context = \<lparr>ctx_cg = (), ctx_vman = vman_new, lattice_def = fd_info,
     all_interesting_variables = rule_context_new {}, additional_constraints = Map.empty\<rparr>"

definition example_basic :: "nat constraint_set" where
  "example_basic = {AddCons example_add, SubTy (subtype_new fun_in (create_with_path (tv_new ''x'') [Load]))}"

lemma example_generated:
  "basic_constraints example_lib example_context [0] Map.empty = Some (example_basic, vman_new)"
proof -
  have "identify_called_formals example_basic = {}"
    by (simp add: identify_called_formals_def example_basic_def example_add_def add_constraint_new_def fun_in_def map_filter_simps)
  moreover have "remove_cs_tags_for_tids_in_constraint (\<lambda>_. ''f'') {0} ` example_basic = example_basic"
    by (simp add: example_basic_def example_add_def fun_in_def add_constraint_new_def remove_cs_tags_for_tids_in_dtv_def Let_def)
  ultimately have "instantiate_callee_signatures (remove_cs_tags_for_tids_in_constraint (\<lambda>_. ''f'') {0} ` example_basic) Map.empty
      = Some example_basic"
    by (simp add: instantiate_callee_signatures_def)
  then show ?thesis by (simp add: basic_constraints_def example_lib_def example_context_def example_basic_def [symmetric])
qed


theorem insert_missed_formals_exact_witness:
  "insert_missed_formals {} {SubTy (subtype_new fun_in (dtv_new (tv_new ''x'')))} = {SubTy (subtype_new fun_in fun_in)}"
proof -
  let ?o = "{SubTy (subtype_new fun_in (dtv_new (tv_new ''x'')))}"
  have fo: "formal_of fun_in = Some fun_in" "formal_of (dtv_new (tv_new ''x'') :: nat dtv) = None"
    by (simp_all add: formal_of_def fun_in_def refers_to_in_parameter_def refers_to_out_parameter_def is_formal_dtv_def)
  have "set (get_formals_in ?o) = {fun_in}"
    by (intro set_eqI) (auto simp: set_get_formals_in fo)
  moreover have "set (get_formals_in ({} :: nat constraint_set)) = {}"
    by (intro set_eqI) (simp add: set_get_formals_in)
  ultimately show ?thesis using insert_missed_formals_exact [of "{}" ?o] by auto
qed

theorem instantiate_roundtrip_witness:
  "remove_cs_tags_for_tids_in_constraint (\<lambda>_. ''f'') {0} ` SubTy ` instantiate \<lparr>sig_cs_set = {subtype_new fun_in (dtv_new (tv_new ''int''))}\<rparr> (7 :: nat)
    = {SubTy (subtype_new fun_in (dtv_new (tv_new ''int'')))}"
  using instantiate_roundtrip [of "\<lparr>sig_cs_set = {subtype_new fun_in (dtv_new (tv_new ''int''))}\<rparr>" "\<lambda>_. ''f''" "{0}" 7]
  by (simp add: fun_in_def formal_of_def refers_to_in_parameter_def refers_to_out_parameter_def)

end
