(* ===== verification/PolymorphicSketches.thy ===== *)
theory PolymorphicSketches
  imports SharedSubgraphs SccConstraints
begin

text \<open>
  The sketches of all components of the call graph (\<^verbatim>\<open>SCCSketchsBuilder\<close> of
  \<^verbatim>\<open>src/solver/type_sketch.rs\<close>): every component gets a sketch graph from its constraints
  and the graphs of its callees, formals are refined by the sketches of their callsites, globals by
  their uses, shared parts are recorded as aliases, and everything is copied into one graph.
  Results are panics (\<^const>\<open>None\<close>), errors (\<^const>\<open>Inl\<close>) or values; what only writes
  logs is left out.
\<close>

section \<open>Results\<close>

definition res_bind :: "(string + 'a) option \<Rightarrow> ('a \<Rightarrow> (string + 'b) option) \<Rightarrow> (string + 'b) option" where
  "res_bind r f = (case r of None \<Rightarrow> None | Some (Inl e) \<Rightarrow> Some (Inl e) | Some (Inr x) \<Rightarrow> f x)"

fun fold_res :: "('a \<Rightarrow> 's \<Rightarrow> (string + 's) option) \<Rightarrow> 'a list \<Rightarrow> 's \<Rightarrow> (string + 's) option" where
  "fold_res f [] s = Some (Inr s)"
| "fold_res f (x # xs) s = res_bind (f x s) (fold_res f xs)"

lemma res_bind_simps [simp]:
  "res_bind None f = None" "res_bind (Some (Inl e)) f = Some (Inl e)" "res_bind (Some (Inr x)) f = f x"
  by (simp_all add: res_bind_def)

section \<open>Locations\<close>

record 'tid scc_location =
  loc_scc :: "'tid list"
  loc_target :: nat

record 'tid global_location =
  globvar :: "'tid type_variable"
  glob_target :: nat

datatype 'tid type_location = SCCLoc "'tid scc_location" | GlobalLoc "'tid global_location"

text \<open>The derived order: locations in components first, then by their fields.\<close>

fun location_key :: "'tid type_location \<Rightarrow> bool \<times> 'tid list \<times> 'tid type_variable option \<times> nat" where
  "location_key (SCCLoc l) = (False, loc_scc l, None, loc_target l)"
| "location_key (GlobalLoc l) = (True, [], Some (globvar l), glob_target l)"

lemma location_key_inj [key_inj]: "location_key x = location_key y \<Longrightarrow> x = y"
  by (cases x; cases y) auto

instantiation type_location :: (linorder) linorder
begin
definition less_eq_type_location :: "'a type_location \<Rightarrow> 'a type_location \<Rightarrow> bool" where
  "x \<le> y \<longleftrightarrow> location_key x \<le> location_key y"
definition less_type_location :: "'a type_location \<Rightarrow> 'a type_location \<Rightarrow> bool" where
  "x < y \<longleftrightarrow> location_key x < location_key y"
instance
  by standard (unfold less_eq_type_location_def less_type_location_def,
    simp_all add: less_le_not_le linear, auto intro: key_inj)
end

fun get_target_index :: "'tid type_location \<Rightarrow> nat" where
  "get_target_index (SCCLoc loc) = loc_target loc"
| "get_target_index (GlobalLoc loc) = glob_target loc"

section \<open>The builder\<close>

text \<open>What the libraries provide, and the orders in which the hash containers are iterated.\<close>

record ('u, 'g, 'h, 'd, 't, 'cg, 'c, 'tid) sketch_lib =
  sl_uf :: "'u union_find_ops"
  sl_hord :: "edge_implication set \<Rightarrow> edge_implication list"
  sl_vord :: "nat set \<Rightarrow> nat list"
  sl_dord :: "'tid dtv set \<Rightarrow> 'tid dtv list"
  sl_tvord :: "'tid type_variable set \<Rightarrow> 'tid type_variable list"
  sl_pord :: "field_label list set \<Rightarrow> field_label list list"
  sl_iord :: "nat set \<Rightarrow> nat list"
  sl_pg :: "('g, 't lattice_bounds, field_label) petgraph"
  sl_ops :: "'t lattice_ops"
  sl_show_tid :: "'tid \<Rightarrow> string"
  sl_dfs :: dfs_fun
  sl_has_node :: has_node_fun
  sl_condense :: "('g, 'h, 'd, 't lattice_bounds) condense_lib"
  sl_cg :: "('c, 'tid list, unit) petgraph"
  sl_condensation :: "'cg \<Rightarrow> 'c"
  sl_toposort :: "'c \<Rightarrow> nat list option"

record ('g, 't, 'cg, 'tid) sccs_builder =
  scc_signatures :: "'tid \<Rightarrow> 'tid subtype_constraint set option"
  scc_repr :: "'tid type_variable \<Rightarrow> ('g, 't lattice_bounds, 'tid) sketch_graph option"
  global_repr :: "'tid type_variable \<Rightarrow> (nat \<times> ('g, 't lattice_bounds, 'tid) sketch) option"
  bl_cg :: 'cg
  bl_lattice :: "'t named_lattice"
  bl_elements :: "'tid type_variable set"
  parameter_aliases :: "('tid type_location \<times> 'tid type_location) list"

definition sccs_builder_new ::
    "'cg \<Rightarrow> 'tid scc_constraints list \<Rightarrow> 't named_lattice \<Rightarrow> 'tid type_variable set \<Rightarrow> ('g, 't, 'cg, 'tid) sccs_builder" where
  "sccs_builder_new cg cons lattice els =
     \<lparr>scc_signatures = map_of (rev (concat (map (\<lambda>c. map (\<lambda>t. (t, sc_constraints c)) (sc_scc c)) cons))),
      scc_repr = Map.empty, global_repr = Map.empty, bl_cg = cg, bl_lattice = lattice, bl_elements = els,
      parameter_aliases = []\<rparr>"

text \<open>Adding a variable: one of another component brings the graph of its function with it.\<close>

definition add_scc_var ::
    "('u, 'g, 'h, 'd, 't, 'cg, 'c, 'tid::linorder) sketch_lib \<Rightarrow> ('g, 't, 'cg, 'tid) sccs_builder \<Rightarrow>
     'tid type_variable set \<Rightarrow> 'tid dtv \<Rightarrow> ('g, 'tid dtv) mapping_graph \<Rightarrow>
     (string + ('g, 'tid dtv) mapping_graph) option" where
  "add_scc_var lib b is_internal_variable var into =
     (if dtv_var var \<in> is_internal_variable \<or> dtv_var var \<in> bl_elements b \<or> tv_cs_tag (dtv_var var) = None
      then map_option Inr (insert_dtv (sl_pg lib) (sl_ops lib) (bl_lattice b) var into)
      else (case scc_repr b (tv_to_callee (dtv_var var)) of
              None \<Rightarrow> Some (Inl (''An external variable must have a representation already built ''
                  @ get_name (sl_show_tid lib) (tv_to_callee (dtv_var var))))
            | Some external \<Rightarrow>
                do { (found, into') \<leftarrow> copy_reachable_subgraph_into (sl_dord lib) (sl_pg lib) (bounds_operate (sl_ops lib)) external var into;
                     if found = None then map_option Inr (insert_dtv (sl_pg lib) (sl_ops lib) (bl_lattice b) var into')
                     else Some (Inr into') }))"

definition build_and_label_scc_sketch ::
    "('u, 'g, 'h, 'd, 't, 'cg, 'c, 'tid::linorder) sketch_lib \<Rightarrow> 'tid list \<Rightarrow> ('g, 't, 'cg, 'tid) sccs_builder \<Rightarrow>
     (string + ('g, 't, 'cg, 'tid) sccs_builder) option" where
  "build_and_label_scc_sketch lib to_reprs b =
     (case to_reprs of
        [] \<Rightarrow> None
      | repr0 # _ \<Rightarrow>
          do { sg \<leftarrow> scc_signatures b repr0;
               let is_internal_variable = tid_to_tvar (sl_show_tid lib) ` set to_reprs;
                   bldr = sketch_builder_new (bl_lattice b) (bl_elements b) (add_scc_var lib b is_internal_variable)
               in res_bind (build_and_label_constraints (sl_uf lib) (sl_hord lib) (sl_vord lib) (sl_pg lib) (sl_ops lib)
                      (sl_show_tid lib) bldr (sorted_list_of_set sg))
                    (\<lambda>sk_graph. Some (Inr (b\<lparr>scc_repr := fold (\<lambda>repr r. r(tid_to_tvar (sl_show_tid lib) repr \<mapsto> sk_graph))
                        to_reprs (scc_repr b)\<rparr>))) })"

definition get_built_sketch_from_scc ::
    "('u, 'g, 'h, 'd, 't, 'cg, 'c, 'tid) sketch_lib \<Rightarrow> ('g, 't, 'cg, 'tid) sccs_builder \<Rightarrow> 'tid list \<Rightarrow>
     ('g, 't lattice_bounds, 'tid) sketch_graph option" where
  "get_built_sketch_from_scc lib b associated_scc_tids =
     (case associated_scc_tids of [] \<Rightarrow> None | tid # _ \<Rightarrow> scc_repr b (tid_to_tvar (sl_show_tid lib) tid))"

definition replace_scc_repr ::
    "('u, 'g, 'h, 'd, 't, 'cg, 'c, 'tid) sketch_lib \<Rightarrow> 'tid list \<Rightarrow> ('g, 't lattice_bounds, 'tid) sketch_graph \<Rightarrow>
     ('g, 't, 'cg, 'tid) sccs_builder \<Rightarrow> ('g, 't, 'cg, 'tid) sccs_builder option" where
  "replace_scc_repr lib associated_scc_tids sg b =
     (if associated_scc_tids = [] then None
      else Some (b\<lparr>scc_repr := fold (\<lambda>tid r. r(tid_to_tvar (sl_show_tid lib) tid \<mapsto> sg)) associated_scc_tids (scc_repr b)\<rparr>))"

section \<open>Callsites and formals\<close>

definition get_callsite_types_for_dtv ::
    "('u, 'g, 'h, 'd, 't, 'cg, 'c, 'tid::linorder) sketch_lib \<Rightarrow> ('g, 't, 'cg, 'tid) sccs_builder \<Rightarrow> 'c \<Rightarrow> nat \<Rightarrow>
     'tid dtv \<Rightarrow> (('g, 't lattice_bounds, 'tid) sketch \<times> 'tid scc_location) list option" where
  "get_callsite_types_for_dtv lib b condensed scc_idx target_dtv =
     map_option concat (traverse (\<lambda>(_, parent, _, _).
         do { wt \<leftarrow> pg_node_weight (sl_cg lib) condensed parent;
              repr_graph \<leftarrow> get_built_sketch_from_scc lib b wt;
              Some (map (\<lambda>(idx, sk). (sk, \<lparr>loc_scc = wt, loc_target = idx\<rparr>))
                (get_representing_sketchs_ignoring_callsite_tags (sl_dord lib) (sl_pg lib) target_dtv repr_graph)) })
       (edges_directed (sl_cg lib) condensed scc_idx Incoming))"

definition refine_formal ::
    "('u, 'g, 'h, 'd, 't, 'cg, 'c, 'tid::linorder) sketch_lib \<Rightarrow> ('g, 't, 'cg, 'tid) sccs_builder \<Rightarrow> 'c \<Rightarrow> nat \<Rightarrow>
     (('g, 't lattice_bounds, 'tid) sketch \<Rightarrow> ('g, 't lattice_bounds, 'tid) sketch \<Rightarrow> ('g, 't lattice_bounds, 'tid) sketch option) \<Rightarrow>
     (('g, 't lattice_bounds, 'tid) sketch \<Rightarrow> ('g, 't lattice_bounds, 'tid) sketch \<Rightarrow> ('g, 't lattice_bounds, 'tid) sketch option) \<Rightarrow>
     'tid dtv \<Rightarrow> ('g, 't lattice_bounds, 'tid) sketch_graph \<Rightarrow> ('g, 't lattice_bounds, 'tid) sketch_graph option" where
  "refine_formal lib b condensed target_idx type_merge_operator refinement_operator target_dtv target_scc_repr =
     (case get_representing_sketch (sl_dord lib) (sl_pg lib) target_dtv target_scc_repr of
        [(_, orig_repr)] \<Rightarrow>
          do { callsite_types \<leftarrow> get_callsite_types_for_dtv lib b condensed target_idx target_dtv;
               call_site_type \<leftarrow> (case map fst callsite_types of
                   [] \<Rightarrow> Some orig_repr
                 | sk # sks \<Rightarrow> do { merged \<leftarrow> fold_opt (\<lambda>rhs lhs. type_merge_operator lhs rhs) sks sk;
                                 refinement_operator merged orig_repr });
               labelled \<leftarrow> label_dtvs (sl_pg lib) orig_repr call_site_type;
               replace_dtv (sl_vord lib) (sl_pg lib) target_dtv labelled target_scc_repr }
      | _ \<Rightarrow> None)"

definition lib_intersect ::
    "('u, 'g, 'h, 'd, 't, 'cg, 'c, 'tid::linorder) sketch_lib \<Rightarrow> ('g, 't lattice_bounds, 'tid) sketch \<Rightarrow>
     ('g, 't lattice_bounds, 'tid) sketch \<Rightarrow> ('g, 't lattice_bounds, 'tid) sketch option" where
  "lib_intersect lib = sketch_intersect (sl_dfs lib) (sl_has_node lib) (sl_uf lib) (sl_hord lib) (sl_vord lib) (sl_pg lib)
     (bounds_operate (sl_ops lib)) (bounds_meet (sl_ops lib))"

definition lib_union ::
    "('u, 'g, 'h, 'd, 't, 'cg, 'c, 'tid::linorder) sketch_lib \<Rightarrow> ('g, 't lattice_bounds, 'tid) sketch \<Rightarrow>
     ('g, 't lattice_bounds, 'tid) sketch \<Rightarrow> ('g, 't lattice_bounds, 'tid) sketch option" where
  "lib_union lib = sketch_union (sl_dfs lib) (sl_has_node lib) (sl_uf lib) (sl_hord lib) (sl_vord lib) (sl_pg lib)
     (bounds_operate (sl_ops lib)) (bounds_join (sl_ops lib))"

definition refine_formal_out ::
    "('u, 'g, 'h, 'd, 't, 'cg, 'c, 'tid::linorder) sketch_lib \<Rightarrow> ('g, 't, 'cg, 'tid) sccs_builder \<Rightarrow> 'c \<Rightarrow> nat \<Rightarrow>
     'tid dtv \<Rightarrow> ('g, 't lattice_bounds, 'tid) sketch_graph \<Rightarrow> ('g, 't lattice_bounds, 'tid) sketch_graph option" where
  "refine_formal_out lib b condensed target_idx = refine_formal lib b condensed target_idx (lib_intersect lib) (lib_union lib)"

definition refine_formal_in ::
    "('u, 'g, 'h, 'd, 't, 'cg, 'c, 'tid::linorder) sketch_lib \<Rightarrow> ('g, 't, 'cg, 'tid) sccs_builder \<Rightarrow> 'c \<Rightarrow> nat \<Rightarrow>
     'tid dtv \<Rightarrow> ('g, 't lattice_bounds, 'tid) sketch_graph \<Rightarrow> ('g, 't lattice_bounds, 'tid) sketch_graph option" where
  "refine_formal_in lib b condensed target_idx = refine_formal lib b condensed target_idx (lib_union lib) (lib_intersect lib)"

definition refine_formals ::
    "('u, 'g, 'h, 'd, 't, 'cg, 'c, 'tid::linorder) sketch_lib \<Rightarrow> 'c \<Rightarrow> 'tid list \<Rightarrow> nat \<Rightarrow>
     ('g, 't, 'cg, 'tid) sccs_builder \<Rightarrow> ('g, 't, 'cg, 'tid) sccs_builder option" where
  "refine_formals lib condensed associated_scc_tids target_idx b =
     do { orig_repr \<leftarrow> get_built_sketch_from_scc lib b associated_scc_tids;
          repr1 \<leftarrow> fold_opt (refine_formal_in lib b condensed target_idx) (get_in_params (sl_dord lib) orig_repr) orig_repr;
          repr2 \<leftarrow> fold_opt (refine_formal_out lib b condensed target_idx) (get_out_params (sl_dord lib) repr1) repr1;
          g \<leftarrow> simplify_pointers (sl_uf lib) (sl_hord lib) (sl_vord lib) (sl_pg lib) (bounds_operate (sl_ops lib)) (quotient_graph repr2);
          replace_scc_repr lib associated_scc_tids (repr2\<lparr>quotient_graph := g\<rparr>) b }"

text \<open>The components in topological order, each with its node in the condensed graph.\<close>

definition cg_ordering_iter ::
    "('c, 'tid list, unit) petgraph \<Rightarrow> 'c cg_ordering \<Rightarrow> (nat \<times> 'tid list) list option" where
  "cg_ordering_iter CG ord =
     traverse (\<lambda>idx. map_option (\<lambda>tids. (idx, tids)) (pg_node_weight CG (condensed_cg ord) idx)) (topo_order ord)"

definition bind_polymorphic_types ::
    "('u, 'g, 'h, 'd, 't, 'cg, 'c, 'tid::linorder) sketch_lib \<Rightarrow> ('g, 't, 'cg, 'tid) sccs_builder \<Rightarrow>
     (string + ('g, 't, 'cg, 'tid) sccs_builder) option" where
  "bind_polymorphic_types lib b =
     (case cg_ordering_new (sl_condensation lib) (sl_toposort lib) (bl_cg b) of
        Inl e \<Rightarrow> Some (Inl e)
      | Inr ord \<Rightarrow>
          do { sccs \<leftarrow> cg_ordering_iter (sl_cg lib) ord;
               map_option Inr (fold_opt (\<lambda>(target_scc_idx, scc_tids). refine_formals lib (condensed_cg ord) scc_tids target_scc_idx) sccs b) })"

section \<open>Globals\<close>

definition insert_global_sketch ::
    "('u, 'g, 'h, 'd, 't, 'cg, 'c, 'tid::linorder) sketch_lib \<Rightarrow> ('g, 't lattice_bounds, 'tid) sketch_graph \<Rightarrow> 'tid dtv \<Rightarrow>
     ('tid type_variable \<Rightarrow> ('g, 't lattice_bounds, 'tid) sketch option) \<Rightarrow>
     ('tid type_variable \<Rightarrow> ('g, 't lattice_bounds, 'tid) sketch option) option" where
  "insert_global_sketch lib sg d global_sketches =
     (if dtv_is_global d then
        (case get_representing_sketch (sl_dord lib) (sl_pg lib) d sg of
           [(_, skg)] \<Rightarrow>
             (let curr_sketch = (case global_sketches (dtv_var d) of Some s \<Rightarrow> s | None \<Rightarrow> skg)
              in map_option (\<lambda>s. global_sketches(dtv_var d \<mapsto> s)) (lib_intersect lib curr_sketch skg))
         | _ \<Rightarrow> None)
      else Some global_sketches)"

definition insert_global_sketches ::
    "('u, 'g, 'h, 'd, 't, 'cg, 'c, 'tid::linorder) sketch_lib \<Rightarrow> ('g, 't lattice_bounds, 'tid) sketch_graph \<Rightarrow>
     ('tid type_variable \<Rightarrow> ('g, 't lattice_bounds, 'tid) sketch option) \<Rightarrow>
     ('tid type_variable \<Rightarrow> ('g, 't lattice_bounds, 'tid) sketch option) option" where
  "insert_global_sketches lib sg global_sketches =
     fold_opt (insert_global_sketch lib sg) (sl_dord lib (dom (mg_nodes (quotient_graph sg)))) global_sketches"

definition collect_global_instantiations ::
    "('u, 'g, 'h, 'd, 't, 'cg, 'c, 'tid::linorder) sketch_lib \<Rightarrow> ('g, 't, 'cg, 'tid) sccs_builder \<Rightarrow>
     ('tid type_variable \<Rightarrow> ('g, 't lattice_bounds, 'tid) sketch option) option" where
  "collect_global_instantiations lib b =
     fold_opt (\<lambda>tv m. case scc_repr b tv of Some sg \<Rightarrow> insert_global_sketches lib sg m | None \<Rightarrow> Some m)
       (sl_tvord lib (dom (scc_repr b))) Map.empty"

definition instantiate_globals_in ::
    "('u, 'g, 'h, 'd, 't, 'cg, 'c, 'tid::linorder) sketch_lib \<Rightarrow>
     ('tid type_variable \<Rightarrow> ('g, 't lattice_bounds, 'tid) sketch option) \<Rightarrow> 'tid list \<Rightarrow>
     ('g, 't, 'cg, 'tid) sccs_builder \<Rightarrow> ('g, 't, 'cg, 'tid) sccs_builder option" where
  "instantiate_globals_in lib var_mapping scc b =
     do { target_of_refinement \<leftarrow> get_built_sketch_from_scc lib b scc;
          refined \<leftarrow> fold_opt (\<lambda>tv sg. case var_mapping tv of
               Some refined_sketch \<Rightarrow> map_option snd (maybe_replace_dtv (sl_vord lib) (sl_pg lib) (dtv_new tv) refined_sketch sg)
             | None \<Rightarrow> Some sg) (sl_tvord lib (dom var_mapping)) target_of_refinement;
          replace_scc_repr lib scc refined b }"

definition apply_global_instantiations ::
    "('u, 'g, 'h, 'd, 't, 'cg, 'c, 'tid::linorder) sketch_lib \<Rightarrow> ('g, 't, 'cg, 'tid) sccs_builder \<Rightarrow>
     (string + ('g, 't, 'cg, 'tid) sccs_builder) option" where
  "apply_global_instantiations lib b =
     do { var_mapping \<leftarrow> collect_global_instantiations lib b;
          (case cg_ordering_new (sl_condensation lib) (sl_toposort lib) (bl_cg b) of
             Inl e \<Rightarrow> Some (Inl e)
           | Inr ord \<Rightarrow>
               do { sccs \<leftarrow> cg_ordering_iter (sl_cg lib) ord;
                    b' \<leftarrow> fold_opt (\<lambda>(_, scc). instantiate_globals_in lib var_mapping scc) sccs b;
                    map_option Inr (fold_opt (\<lambda>gv b. case var_mapping gv of
                        Some sketch_repr \<Rightarrow> map_option (\<lambda>ent. b\<lparr>global_repr := (global_repr b)(gv \<mapsto> (ent, sketch_repr))\<rparr>)
                          (get_entry sketch_repr)
                      | None \<Rightarrow> Some b) (sl_tvord lib (dom var_mapping)) b') }) }"

section \<open>Aliases\<close>

definition bt_extend :: "('k::linorder \<times> 'v) list \<Rightarrow> ('k \<times> 'v) list \<Rightarrow> ('k \<times> 'v) list" where
  "bt_extend entries m = fold (\<lambda>(k, v). bt_insert k v) entries m"

definition formal_alias ::
    "('u, 'g, 'h, 'd, 't, 'cg, 'c, 'tid::linorder) sketch_lib \<Rightarrow> ('g, 't, 'cg, 'tid) sccs_builder \<Rightarrow> 'tid list \<Rightarrow>
     ('g, 't lattice_bounds, 'tid) sketch_graph \<Rightarrow> nat \<Rightarrow> 'tid scc_location \<Rightarrow> field_label list \<Rightarrow>
     ('tid type_location \<times> 'tid type_location) list option" where
  "formal_alias lib b associated_scc_tids target_scc_sketch orig_loc callsite_loc pth =
     do { from_scc_repr \<leftarrow> get_built_sketch_from_scc lib b (loc_scc callsite_loc);
          Some (case (find_node (pg_out (sl_pg lib) (mg_grph (quotient_graph target_scc_sketch))) orig_loc pth,
                      find_node (pg_out (sl_pg lib) (mg_grph (quotient_graph from_scc_repr))) (loc_target callsite_loc) pth) of
              (Some repr_node, Some from_node) \<Rightarrow>
                [(SCCLoc \<lparr>loc_scc = loc_scc callsite_loc, loc_target = from_node\<rparr>,
                  SCCLoc \<lparr>loc_scc = associated_scc_tids, loc_target = repr_node\<rparr>)]
            | _ \<Rightarrow> []) }"

definition collect_aliases_for_formal ::
    "('u, 'g, 'h, 'd, 't, 'cg, 'c, 'tid::linorder) sketch_lib \<Rightarrow> ('g, 't, 'cg, 'tid) sccs_builder \<Rightarrow> 'c \<Rightarrow> 'tid list \<Rightarrow>
     ('g, 't lattice_bounds, 'tid) sketch_graph \<Rightarrow> nat \<Rightarrow> 'tid dtv \<Rightarrow>
     ('tid type_location \<times> 'tid type_location) list option" where
  "collect_aliases_for_formal lib b condensed associated_scc_tids target_scc_sketch scc_idx target_dtv =
     (case get_representing_sketch (sl_dord lib) (sl_pg lib) target_dtv target_scc_sketch of
        [(_, callee_type)] \<Rightarrow>
          do { callsites \<leftarrow> get_callsite_types_for_dtv lib b condensed scc_idx target_dtv;
               orig_loc \<leftarrow> mg_get_node (quotient_graph target_scc_sketch) target_dtv;
               pairs \<leftarrow> traverse (\<lambda>(old_callsite_type, callsite_loc).
                   do { res \<leftarrow> find_shared_subgraphs (sl_dfs lib) (sl_has_node lib) (sl_pord lib) (sl_condense lib) (sl_pg lib)
                            old_callsite_type callee_type;
                        (case res of
                           Inl _ \<Rightarrow> None
                         | Inr aliases \<Rightarrow> map_option concat (traverse (formal_alias lib b associated_scc_tids
                               target_scc_sketch orig_loc callsite_loc) (sl_pord lib aliases))) }) callsites;
               Some (bt_extend (concat pairs) []) }
      | _ \<Rightarrow> None)"

definition global_alias ::
    "('g, 't, 'cg, 'tid) sccs_builder \<Rightarrow> 'tid list \<Rightarrow> ('g, 't lattice_bounds, 'tid) sketch_graph \<Rightarrow> 'tid dtv \<Rightarrow>
     ('tid type_location \<times> 'tid type_location) list option" where
  "global_alias b associated_scc_tids orig_repr gdtv =
     (case mg_get_node (quotient_graph orig_repr) gdtv of
        None \<Rightarrow> Some []
      | Some src_idx \<Rightarrow> map_option (\<lambda>(idx, _).
            [(SCCLoc \<lparr>loc_scc = associated_scc_tids, loc_target = src_idx\<rparr>,
              GlobalLoc \<lparr>globvar = dtv_var gdtv, glob_target = idx\<rparr>)]) (global_repr b (dtv_var gdtv)))"

definition collect_aliases_for_scc ::
    "('u, 'g, 'h, 'd, 't, 'cg, 'c, 'tid::linorder) sketch_lib \<Rightarrow> ('g, 't, 'cg, 'tid) sccs_builder \<Rightarrow> 'c \<Rightarrow> 'tid list \<Rightarrow>
     nat \<Rightarrow> ('tid type_location \<times> 'tid type_location) list option" where
  "collect_aliases_for_scc lib b condensed associated_scc_tids target_idx =
     do { orig_repr \<leftarrow> get_built_sketch_from_scc lib b associated_scc_tids;
          param_aliases \<leftarrow> fold_opt (\<lambda>param acc. map_option (\<lambda>new. bt_extend new acc)
              (collect_aliases_for_formal lib b condensed associated_scc_tids orig_repr target_idx param))
            (get_in_params (sl_dord lib) orig_repr @ get_out_params (sl_dord lib) orig_repr) [];
          global_aliases \<leftarrow> traverse (global_alias b associated_scc_tids orig_repr) (get_globals (sl_dord lib) orig_repr);
          Some (bt_extend (concat global_aliases) param_aliases) }"

definition get_subgraph_entries_for_scc_loc ::
    "('u, 'g, 'h, 'd, 't, 'cg, 'c, 'tid) sketch_lib \<Rightarrow> ('g, 't, 'cg, 'tid) sccs_builder \<Rightarrow> 'tid scc_location \<Rightarrow>
     (nat \<times> field_label list) list option" where
  "get_subgraph_entries_for_scc_loc lib b loc =
     do { skg \<leftarrow> get_built_sketch_from_scc lib b (loc_scc loc);
          let g = mg_grph (quotient_graph skg);
              reachable = mg_reachable_idxs (sl_pg lib) (quotient_graph skg) (loc_target loc)
          in do { paths \<leftarrow> explore_paths (pg_out (sl_pg lib) g) (loc_target loc);
                  traverse (\<lambda>(reaching_path, target_node). map_option (\<lambda>ws. (target_node, ws))
                      (traverse (edge_weight (sl_pg lib) g) reaching_path))
                    (filter (\<lambda>(_, target_node). list_ex (\<lambda>(_, incoming_neighbor, _, _). incoming_neighbor \<notin> reachable)
                        (edges_directed (sl_pg lib) g target_node Incoming)) paths) } }"

text \<open>Here \<open>None\<close> within the outer option is the answer of the code that there is none.\<close>

fun get_graph_referenced_by_type_loc ::
    "('u, 'g, 'h, 'd, 't, 'cg, 'c, 'tid) sketch_lib \<Rightarrow> ('g, 't, 'cg, 'tid) sccs_builder \<Rightarrow> 'tid type_location \<Rightarrow>
     ('g, 'tid dtv) mapping_graph option option" where
  "get_graph_referenced_by_type_loc lib b (SCCLoc scc_loc) =
     map_option (\<lambda>sg. Some (quotient_graph sg)) (get_built_sketch_from_scc lib b (loc_scc scc_loc))"
| "get_graph_referenced_by_type_loc lib b (GlobalLoc glob_var) =
     Some (map_option (\<lambda>(_, repr). sk_graph repr) (global_repr b (globvar glob_var)))"

fun with_target :: "'tid type_location \<Rightarrow> nat \<Rightarrow> 'tid type_location" where
  "with_target (SCCLoc l) n = SCCLoc \<lparr>loc_scc = loc_scc l, loc_target = n\<rparr>"
| "with_target (GlobalLoc l) n = GlobalLoc \<lparr>globvar = globvar l, glob_target = n\<rparr>"

definition find_child_location_by_path ::
    "('u, 'g, 'h, 'd, 't, 'cg, 'c, 'tid) sketch_lib \<Rightarrow> ('g, 't, 'cg, 'tid) sccs_builder \<Rightarrow> 'tid type_location \<Rightarrow>
     field_label list \<Rightarrow> 'tid type_location option option" where
  "find_child_location_by_path lib b ty_loc path =
     map_option (\<lambda>target_graph. Option.bind target_graph (\<lambda>g. map_option (with_target ty_loc)
         (find_node (pg_out (sl_pg lib) (mg_grph g)) (get_target_index ty_loc) path)))
       (get_graph_referenced_by_type_loc lib b ty_loc)"

definition get_implied_aliasing_relations ::
    "('u, 'g, 'h, 'd, 't, 'cg, 'c, 'tid) sketch_lib \<Rightarrow> ('g, 't, 'cg, 'tid) sccs_builder \<Rightarrow> 'tid type_location \<Rightarrow>
     'tid type_location \<Rightarrow> (string + ('tid type_location \<times> 'tid type_location) list) option" where
  "get_implied_aliasing_relations lib b from_loc to_alias =
     (case from_loc of
        GlobalLoc _ \<Rightarrow> Some (Inl ''All aliases should start from an scc location'')
      | SCCLoc target_scc_loc \<Rightarrow>
          do { entries \<leftarrow> get_subgraph_entries_for_scc_loc lib b target_scc_loc;
               found \<leftarrow> traverse (\<lambda>(scc_idx, path). map_option (\<lambda>to_loc. case to_loc of
                   None \<Rightarrow> [] | Some l \<Rightarrow> [(SCCLoc \<lparr>loc_scc = loc_scc target_scc_loc, loc_target = scc_idx\<rparr>, l)])
                 (find_child_location_by_path lib b to_alias path)) entries;
               Some (Inr (concat found)) })"

definition extend_aliasing_relations ::
    "('u, 'g, 'h, 'd, 't, 'cg, 'c, 'tid::linorder) sketch_lib \<Rightarrow> ('g, 't, 'cg, 'tid) sccs_builder \<Rightarrow>
     ('tid type_location \<times> 'tid type_location) list \<Rightarrow> (string + ('tid type_location \<times> 'tid type_location) list) option" where
  "extend_aliasing_relations lib b orig =
     fold_res (\<lambda>(from_loc, to_alias) acc. res_bind (get_implied_aliasing_relations lib b from_loc to_alias)
         (\<lambda>implied. Some (Inr (bt_extend implied acc)))) orig []"

definition collect_aliases ::
    "('u, 'g, 'h, 'd, 't, 'cg, 'c, 'tid::linorder) sketch_lib \<Rightarrow> ('g, 't, 'cg, 'tid) sccs_builder \<Rightarrow>
     (string + ('g, 't, 'cg, 'tid) sccs_builder) option" where
  "collect_aliases lib b =
     (case cg_ordering_new (sl_condensation lib) (sl_toposort lib) (bl_cg b) of
        Inl e \<Rightarrow> Some (Inl e)
      | Inr ord \<Rightarrow>
          do { sccs \<leftarrow> cg_ordering_iter (sl_cg lib) ord;
               b1 \<leftarrow> fold_opt (\<lambda>(target_scc_idx, scc_tids) b. map_option
                   (\<lambda>new. b\<lparr>parameter_aliases := bt_extend new (parameter_aliases b)\<rparr>)
                   (collect_aliases_for_scc lib b (condensed_cg ord) scc_tids target_scc_idx)) sccs b;
               res_bind (extend_aliasing_relations lib b1 (parameter_aliases b1))
                 (\<lambda>extended_aliases. Some (Inr (b1\<lparr>parameter_aliases := bt_extend extended_aliases (parameter_aliases b1)\<rparr>))) })"

section \<open>Building\<close>

definition build_sccs ::
    "('u, 'g, 'h, 'd, 't, 'cg, 'c, 'tid::linorder) sketch_lib \<Rightarrow> ('g, 't, 'cg, 'tid) sccs_builder \<Rightarrow>
     (string + ('g, 't, 'cg, 'tid) sccs_builder) option" where
  "build_sccs lib b =
     (case cg_ordering_new (sl_condensation lib) (sl_toposort lib) (bl_cg b) of
        Inl e \<Rightarrow> Some (Inl e)
      | Inr ord \<Rightarrow>
          res_bind (fold_res (\<lambda>idx b. do { associated_tids \<leftarrow> pg_node_weight (sl_cg lib) (condensed_cg ord) idx;
                 build_and_label_scc_sketch lib associated_tids b }) (get_reverse_topo ord) b)
            (\<lambda>b1. res_bind (bind_polymorphic_types lib b1)
               (\<lambda>b2. res_bind (apply_global_instantiations lib b2) (collect_aliases lib))))"

section \<open>The global graph\<close>

text \<open>The state of the construction: the new place of every location, the graph and its labels.\<close>

record ('g, 'tid) global_state =
  location_to_index :: "'tid type_location \<Rightarrow> nat option"
  resulting_graph :: 'g
  resulting_labeling :: "'tid dtv \<Rightarrow> nat option"

definition copy_scc_node ::
    "('g, 'w, field_label) petgraph \<Rightarrow> 'tid list \<Rightarrow> ('g, 'w, 'tid) sketch_graph \<Rightarrow> nat \<Rightarrow>
     ('g, 'tid) global_state \<Rightarrow> ('g, 'tid) global_state option" where
  "copy_scc_node G curr_scc sg nd_idx st =
     do { weight \<leftarrow> pg_node_weight G (mg_grph (quotient_graph sg)) nd_idx;
          let (new_idx, g) = pg_add_node G weight (resulting_graph st)
          in Some (st\<lparr>location_to_index := (location_to_index st)
                         (SCCLoc \<lparr>loc_scc = curr_scc, loc_target = nd_idx\<rparr> \<mapsto> new_idx),
                      resulting_graph := g\<rparr>) }"

definition copy_scc_edge ::
    "('g, 'w, field_label) petgraph \<Rightarrow> ('tid type_location \<times> 'tid type_location) list \<Rightarrow> 'tid list \<Rightarrow> field_label edge_ref \<Rightarrow>
     ('g, 'tid) global_state \<Rightarrow> ('g, 'tid) global_state option" where
  "copy_scc_edge G aliases curr_scc e st =
     (case e of (_, source, target, w) \<Rightarrow>
        (let maybe_dst_loc = SCCLoc \<lparr>loc_scc = curr_scc, loc_target = target\<rparr>;
             dst_loc = (case map_of aliases maybe_dst_loc of Some alias_dst_loc \<Rightarrow> alias_dst_loc | None \<Rightarrow> maybe_dst_loc)
         in do { src_idx \<leftarrow> location_to_index st (SCCLoc \<lparr>loc_scc = curr_scc, loc_target = source\<rparr>);
                 dst_idx \<leftarrow> location_to_index st dst_loc;
                 map_option (\<lambda>(_, g). st\<lparr>resulting_graph := g\<rparr>) (pg_add_edge G src_idx dst_idx w (resulting_graph st)) }))"

definition labels_global :: "'tid type_variable set \<Rightarrow> 'tid dtv \<Rightarrow> bool" where
  "labels_global els d \<longleftrightarrow> dtv_labels d = [] \<and> tv_cs_tag (dtv_var d) = None \<and> dtv_var d \<notin> els \<and> \<not> dtv_is_global d"

definition copy_scc_label ::
    "'tid type_variable set \<Rightarrow> 'tid list \<Rightarrow> ('g, 'w, 'tid) sketch_graph \<Rightarrow> 'tid dtv \<Rightarrow>
     ('g, 'tid) global_state \<Rightarrow> ('g, 'tid) global_state option" where
  "copy_scc_label els curr_scc sg d st =
     (case mg_nodes (quotient_graph sg) d of
        None \<Rightarrow> Some st
      | Some tgt_idx \<Rightarrow>
          if labels_global els d
          then map_option (\<lambda>i. st\<lparr>resulting_labeling := (resulting_labeling st)(d \<mapsto> i)\<rparr>)
            (location_to_index st (SCCLoc \<lparr>loc_scc = curr_scc, loc_target = tgt_idx\<rparr>))
          else Some st)"

definition copy_built_sketch_into_global ::
    "('tid dtv set \<Rightarrow> 'tid dtv list) \<Rightarrow> ('g, 'w, field_label) petgraph \<Rightarrow> 'tid type_variable set \<Rightarrow>
     ('tid type_location \<times> 'tid type_location) list \<Rightarrow> 'tid list \<Rightarrow> ('g, 'w, 'tid) sketch_graph \<Rightarrow>
     ('g, 'tid) global_state \<Rightarrow> ('g, 'tid) global_state option" where
  "copy_built_sketch_into_global dord G els aliases curr_scc sg st =
     do { st1 \<leftarrow> fold_opt (copy_scc_node G curr_scc sg) (pg_node_indices G (mg_grph (quotient_graph sg))) st;
          st2 \<leftarrow> fold_opt (copy_scc_edge G aliases curr_scc) (edge_references G (mg_grph (quotient_graph sg))) st1;
          fold_opt (copy_scc_label els curr_scc sg) (dord (dom (mg_nodes (quotient_graph sg)))) st2 }"

definition place_global_node ::
    "'tid type_variable \<Rightarrow> (nat \<Rightarrow> nat option) \<Rightarrow> nat \<Rightarrow> ('tid type_location \<Rightarrow> nat option) \<Rightarrow> ('tid type_location \<Rightarrow> nat option)" where
  "place_global_node tv old_idx_to_new_idx old_idx l =
     (case old_idx_to_new_idx old_idx of
        Some new_idx \<Rightarrow> l(GlobalLoc \<lparr>globvar = tv, glob_target = old_idx\<rparr> \<mapsto> new_idx) | None \<Rightarrow> l)"

definition add_global_to_graph ::
    "(nat set \<Rightarrow> nat list) \<Rightarrow> ('g, 'w, field_label) petgraph \<Rightarrow> 'tid type_variable \<Rightarrow> ('g, 'w, 'tid) sketch \<Rightarrow>
     ('g, 'tid) global_state \<Rightarrow> ('g, 'tid) global_state option" where
  "add_global_to_graph iord G tv repr_sketch st =
     do { (entry_node, old_idx_to_new_idx, g) \<leftarrow> copy_sketch_into_graph G repr_sketch (resulting_graph st);
          Some \<lparr>location_to_index = fold (place_global_node tv old_idx_to_new_idx) (iord (dom old_idx_to_new_idx)) (location_to_index st),
               resulting_graph = g,
               resulting_labeling = (resulting_labeling st)(dtv_new tv \<mapsto> entry_node)\<rparr> }"

definition add_globals_to_global_graph ::
    "('u, 'g, 'h, 'd, 't, 'cg, 'c, 'tid::linorder) sketch_lib \<Rightarrow> ('g, 't, 'cg, 'tid) sccs_builder \<Rightarrow>
     ('g, 'tid) global_state \<Rightarrow> ('g, 'tid) global_state option" where
  "add_globals_to_global_graph lib b st =
     fold_opt (\<lambda>tv st. case global_repr b tv of
         Some (_, repr_sketch) \<Rightarrow> add_global_to_graph (sl_iord lib) (sl_pg lib) tv repr_sketch st | None \<Rightarrow> Some st)
       (sl_tvord lib (dom (global_repr b))) st"

definition build_global_type_graph ::
    "('u, 'g, 'h, 'd, 't, 'cg, 'c, 'tid::linorder) sketch_lib \<Rightarrow> ('g, 't, 'cg, 'tid) sccs_builder \<Rightarrow>
     (string + ('g, 't lattice_bounds, 'tid) sketch_graph) option" where
  "build_global_type_graph lib b =
     do { st0 \<leftarrow> add_globals_to_global_graph lib b
            \<lparr>location_to_index = Map.empty, resulting_graph = pg_new (sl_pg lib), resulting_labeling = Map.empty\<rparr>;
          (case cg_ordering_new (sl_condensation lib) (sl_toposort lib) (bl_cg b) of
             Inl e \<Rightarrow> Some (Inl e)
           | Inr ord \<Rightarrow>
               do { st \<leftarrow> fold_opt (\<lambda>idx st. do { scc \<leftarrow> pg_node_weight (sl_cg lib) (condensed_cg ord) idx;
                        built_sg \<leftarrow> get_built_sketch_from_scc lib b scc;
                        copy_built_sketch_into_global (sl_dord lib) (sl_pg lib) (bl_elements b) (parameter_aliases b) scc built_sg st })
                      (get_reverse_topo ord) st0;
                    let final_graph = relable_representative_nodes (from_dfa_and_labeling (resulting_graph st)) (resulting_labeling st)
                    in if list_ex (\<lambda>x. tv_cs_tag (dtv_var x) \<noteq> None) (sl_dord lib (dom (mg_nodes final_graph))) then None
                       else Some (Inr \<lparr>quotient_graph = remove_nodes_unreachable_from_label (sl_pg lib) final_graph,
                                       default_label = lattice_identity (bl_lattice b)\<rparr>) }) }"

end
