(* ===== verification/GlobalGraph.thy ===== *)
theory GlobalGraph
  imports PolymorphicSketches
begin

text \<open>
  What the construction of the graph of all types does (the last part of
  \<^verbatim>\<open>SCCSketchsBuilder\<close>): every component is copied once, its edges follow the recorded
  aliases, only the variables of functions and globals keep their names, and the construction
  never panics when every alias leads to a place that was copied before.
\<close>

section \<open>The state of the construction\<close>

definition ginv ::
    "('g, 'w, field_label) petgraph \<Rightarrow> ('g \<Rightarrow> bool) \<Rightarrow> ('g, 'tid) global_state \<Rightarrow> bool" where
  "ginv G ok st \<longleftrightarrow> ok (resulting_graph st)
     \<and> (\<forall>loc i. location_to_index st loc = Some i \<longrightarrow> pg_node_weight G (resulting_graph st) i \<noteq> None)
     \<and> (\<forall>d i. resulting_labeling st d = Some i \<longrightarrow> pg_node_weight G (resulting_graph st) i \<noteq> None)
     \<and> finite (dom (resulting_labeling st))"

lemma ginvD:
  assumes "ginv G ok st"
  shows "ok (resulting_graph st)"
    "location_to_index st loc = Some i \<Longrightarrow> pg_node_weight G (resulting_graph st) i \<noteq> None"
    "resulting_labeling st d = Some i \<Longrightarrow> pg_node_weight G (resulting_graph st) i \<noteq> None"
    "finite (dom (resulting_labeling st))"
  using assms unfolding ginv_def by blast+

text \<open>The places of a component.\<close>

definition scc_places :: "('g, 'w, field_label) petgraph \<Rightarrow> 'tid list \<Rightarrow> ('g, 'w, 'tid) sketch_graph \<Rightarrow> 'tid type_location set" where
  "scc_places G scc sg = (\<lambda>n. SCCLoc \<lparr>loc_scc = scc, loc_target = n\<rparr>)
     ` {n. pg_node_weight G (mg_grph (quotient_graph sg)) n \<noteq> None}"

definition global_places :: "('g, 'w, field_label) petgraph \<Rightarrow> 'tid type_variable \<Rightarrow> ('g, 'w, 'tid) sketch \<Rightarrow> 'tid type_location set" where
  "global_places G tv sk = (\<lambda>n. GlobalLoc \<lparr>globvar = tv, glob_target = n\<rparr>) ` {n. pg_node_weight G (mg_grph (sk_graph sk)) n \<noteq> None}"

definition edge_target :: "('tid type_location \<times> 'tid type_location) list \<Rightarrow> 'tid list \<Rightarrow> nat \<Rightarrow> 'tid type_location" where
  "edge_target aliases scc n = (case map_of aliases (SCCLoc \<lparr>loc_scc = scc, loc_target = n\<rparr>) of
     Some l \<Rightarrow> l | None \<Rightarrow> SCCLoc \<lparr>loc_scc = scc, loc_target = n\<rparr>)"

context label_digraph
begin

lemma copy_scc_nodes:
  "ginv G ok st \<Longrightarrow> \<forall>n \<in> set nds. pg_node_weight G (mg_grph (quotient_graph sg)) n \<noteq> None \<Longrightarrow>
   \<exists>st'. fold_opt (copy_scc_node G scc sg) nds st = Some st' \<and> ginv G ok st'
     \<and> resulting_labeling st' = resulting_labeling st
     \<and> dom (location_to_index st') = dom (location_to_index st) \<union> (\<lambda>n. SCCLoc \<lparr>loc_scc = scc, loc_target = n\<rparr>) ` set nds
     \<and> weighted_arcs G (resulting_graph st') = weighted_arcs G (resulting_graph st)"
proof (induction nds arbitrary: st)
  case (Cons n nds)
  obtain w where w: "pg_node_weight G (mg_grph (quotient_graph sg)) n = Some w" using Cons.prems(2) by auto
  obtain i g where add: "pg_add_node G w (resulting_graph st) = (i, g)" by force
  note I = ginvD [OF Cons.prems(1)]
  have A: "ok g" "pg_node_weight G g = (pg_node_weight G (resulting_graph st))(i \<mapsto> w)"
    "pg_edge G g = pg_edge G (resulting_graph st)"
    using add_node_laws [OF I(1) add] by simp_all
  define st1 where "st1 = st\<lparr>location_to_index := (location_to_index st)(SCCLoc \<lparr>loc_scc = scc, loc_target = n\<rparr> \<mapsto> i),
      resulting_graph := g\<rparr>"
  have step: "copy_scc_node G scc sg n st = Some st1" by (simp add: copy_scc_node_def w add st1_def)
  have "ginv G ok st1" using I A by (auto simp: ginv_def st1_def)
  then obtain st' where "fold_opt (copy_scc_node G scc sg) nds st1 = Some st'" "ginv G ok st'"
    "resulting_labeling st' = resulting_labeling st1"
    "dom (location_to_index st') = dom (location_to_index st1) \<union> (\<lambda>n. SCCLoc \<lparr>loc_scc = scc, loc_target = n\<rparr>) ` set nds"
    "weighted_arcs G (resulting_graph st') = weighted_arcs G (resulting_graph st1)"
    using Cons.IH [of st1] Cons.prems(2) by auto
  moreover have "weighted_arcs G (resulting_graph st1) = weighted_arcs G (resulting_graph st)"
    by (simp add: st1_def weighted_arcs_def A(3))
  ultimately show ?case using step by (intro exI [of _ st']) (auto simp: st1_def)
qed simp

lemma copy_scc_edges:
  "ginv G ok st \<Longrightarrow> \<forall>(i, a, b, w) \<in> set es. SCCLoc \<lparr>loc_scc = scc, loc_target = a\<rparr> \<in> dom (location_to_index st)
      \<and> edge_target aliases scc b \<in> dom (location_to_index st) \<Longrightarrow>
   \<exists>st'. fold_opt (copy_scc_edge G aliases scc) es st = Some st' \<and> ginv G ok st'
     \<and> resulting_labeling st' = resulting_labeling st \<and> location_to_index st' = location_to_index st
     \<and> weighted_arcs G (resulting_graph st') = weighted_arcs G (resulting_graph st)
        \<union> {(x, w, y). \<exists>i a b. (i, a, b, w) \<in> set es \<and> location_to_index st (SCCLoc \<lparr>loc_scc = scc, loc_target = a\<rparr>) = Some x
             \<and> location_to_index st (edge_target aliases scc b) = Some y}"
proof (induction es arbitrary: st)
  case (Cons e es)
  obtain i a b w where e: "e = (i, a, b, w)" by (cases e)
  note I = ginvD [OF Cons.prems(1)]
  obtain x y where xy: "location_to_index st (SCCLoc \<lparr>loc_scc = scc, loc_target = a\<rparr>) = Some x"
    "location_to_index st (edge_target aliases scc b) = Some y"
    using Cons.prems(2) e by auto
  have "pg_add_edge G x y w (resulting_graph st) \<noteq> None"
    using add_edge_None [OF I(1), of x y w] I(2) [OF xy(1)] I(2) [OF xy(2)] by blast
  then obtain j g where add: "pg_add_edge G x y w (resulting_graph st) = Some (j, g)" by fastforce
  note A = add_edge_laws [OF I(1) add]
  define st1 where "st1 = st\<lparr>resulting_graph := g\<rparr>"
  have step: "copy_scc_edge G aliases scc e st = Some st1"
    using xy add by (simp add: copy_scc_edge_def e st1_def edge_target_def Let_def)
  have inv1: "ginv G ok st1" using I A by (auto simp: ginv_def st1_def)
  have located1: "\<forall>(i, a, b, w) \<in> set es. SCCLoc \<lparr>loc_scc = scc, loc_target = a\<rparr> \<in> dom (location_to_index st1)
      \<and> edge_target aliases scc b \<in> dom (location_to_index st1)"
    using Cons.prems(2) by (auto simp: st1_def)
  obtain st' where st': "fold_opt (copy_scc_edge G aliases scc) es st1 = Some st'" "ginv G ok st'"
    "resulting_labeling st' = resulting_labeling st1" "location_to_index st' = location_to_index st1"
    "weighted_arcs G (resulting_graph st') = weighted_arcs G (resulting_graph st1)
        \<union> {(x, w, y). \<exists>i a b. (i, a, b, w) \<in> set es \<and> location_to_index st1 (SCCLoc \<lparr>loc_scc = scc, loc_target = a\<rparr>) = Some x
             \<and> location_to_index st1 (edge_target aliases scc b) = Some y}"
    using Cons.IH [OF inv1 located1] by (elim exE conjE) (rule that)
  have arcs1: "weighted_arcs G (resulting_graph st1) = insert (x, w, y) (weighted_arcs G (resulting_graph st))"
    using weighted_arcs_add [OF I(1) add] by (simp add: st1_def)
  have loc1: "location_to_index st1 = location_to_index st" "resulting_labeling st1 = resulting_labeling st" by (simp_all add: st1_def)
  have "(\<exists>i' a' b'. (i', a', b', w') \<in> set (e # es) \<and> location_to_index st (SCCLoc \<lparr>loc_scc = scc, loc_target = a'\<rparr>) = Some x'
             \<and> location_to_index st (edge_target aliases scc b') = Some y')
      \<longleftrightarrow> x' = x \<and> w' = w \<and> y' = y \<or> (\<exists>i' a' b'. (i', a', b', w') \<in> set es
             \<and> location_to_index st (SCCLoc \<lparr>loc_scc = scc, loc_target = a'\<rparr>) = Some x'
             \<and> location_to_index st (edge_target aliases scc b') = Some y')" for x' w' y'
    unfolding e set_simps insert_iff prod.inject using xy by (metis option.inject)
  then show ?case using step st'(1-4) unfolding st'(5) arcs1 loc1 by (intro exI [of _ st']) (simp add: st'(5) arcs1 loc1, blast)
qed auto

lemma copy_scc_labels:
  "ginv G ok st \<Longrightarrow> \<forall>d n. d \<in> set ds \<longrightarrow> mg_nodes (quotient_graph sg) d = Some n
      \<longrightarrow> SCCLoc \<lparr>loc_scc = scc, loc_target = n\<rparr> \<in> dom (location_to_index st) \<Longrightarrow>
   \<exists>st'. fold_opt (copy_scc_label els scc sg) ds st = Some st' \<and> ginv G ok st'
     \<and> location_to_index st' = location_to_index st \<and> resulting_graph st' = resulting_graph st
     \<and> dom (resulting_labeling st') = dom (resulting_labeling st) \<union> {d \<in> set ds. labels_global els d \<and> mg_nodes (quotient_graph sg) d \<noteq> None}"
proof (induction ds arbitrary: st)
  case (Cons d ds)
  note I = ginvD [OF Cons.prems(1)]
  show ?case
  proof (cases "mg_nodes (quotient_graph sg) d \<noteq> None \<and> labels_global els d")
    case False
    then have step: "copy_scc_label els scc sg d st = Some st" by (auto simp: copy_scc_label_def split: option.split)
    then show ?thesis using Cons.IH [OF Cons.prems(1)] Cons.prems(2) False by fastforce
  next
    case True
    then obtain n where n: "mg_nodes (quotient_graph sg) d = Some n" by blast
    then obtain i where i: "location_to_index st (SCCLoc \<lparr>loc_scc = scc, loc_target = n\<rparr>) = Some i" using Cons.prems(2) by auto
    define st1 where "st1 = st\<lparr>resulting_labeling := (resulting_labeling st)(d \<mapsto> i)\<rparr>"
    have step: "copy_scc_label els scc sg d st = Some st1" using True n i by (simp add: copy_scc_label_def st1_def)
    have inv: "ginv G ok st1" using I i by (auto simp: ginv_def st1_def)
    have located: "\<forall>d n. d \<in> set ds \<longrightarrow> mg_nodes (quotient_graph sg) d = Some n
      \<longrightarrow> SCCLoc \<lparr>loc_scc = scc, loc_target = n\<rparr> \<in> dom (location_to_index st1)"
      using Cons.prems(2) by (simp add: st1_def)
    obtain st' where "fold_opt (copy_scc_label els scc sg) ds st1 = Some st'" "ginv G ok st'"
      "location_to_index st' = location_to_index st1" "resulting_graph st' = resulting_graph st1"
      "dom (resulting_labeling st') = dom (resulting_labeling st1) \<union> {d \<in> set ds. labels_global els d \<and> mg_nodes (quotient_graph sg) d \<noteq> None}"
      using Cons.IH [OF inv located] by blast
    then show ?thesis using step True by (intro exI [of _ st']) (auto simp: st1_def)
  qed
qed auto

lemma copy_scc_spec:
  assumes st: "ginv G ok st" and sg: "mg_ok G ok (quotient_graph sg)" and dord: "is_enum dord"
    and aliases: "\<forall>(a, w, b) \<in> weighted_arcs G (mg_grph (quotient_graph sg)).
        edge_target aliases scc b \<in> dom (location_to_index st) \<union> scc_places G scc sg"
  shows "\<exists>st'. copy_built_sketch_into_global dord G els aliases scc sg st = Some st' \<and> ginv G ok st'
    \<and> dom (location_to_index st') = dom (location_to_index st) \<union> scc_places G scc sg
    \<and> dom (resulting_labeling st') = dom (resulting_labeling st)
        \<union> {d. labels_global els d \<and> mg_nodes (quotient_graph sg) d \<noteq> None}
    \<and> weighted_arcs G (resulting_graph st') = weighted_arcs G (resulting_graph st)
        \<union> {(x, w, y). \<exists>a b. (a, w, b) \<in> weighted_arcs G (mg_grph (quotient_graph sg))
             \<and> location_to_index st' (SCCLoc \<lparr>loc_scc = scc, loc_target = a\<rparr>) = Some x
             \<and> location_to_index st' (edge_target aliases scc b) = Some y}"
proof -
  let ?g = "mg_grph (quotient_graph sg)"
  note okg = mg_okD(1) [OF sg]
  have idx: "set (pg_node_indices G ?g) = {n. pg_node_weight G ?g n \<noteq> None}" using node_indices_laws [OF okg] by blast
  obtain st1 where 1: "fold_opt (copy_scc_node G scc sg) (pg_node_indices G ?g) st = Some st1" "ginv G ok st1"
    "resulting_labeling st1 = resulting_labeling st"
    "dom (location_to_index st1) = dom (location_to_index st) \<union> scc_places G scc sg"
    "weighted_arcs G (resulting_graph st1) = weighted_arcs G (resulting_graph st)"
    using copy_scc_nodes [OF st, of "pg_node_indices G ?g" sg scc] idx unfolding scc_places_def by auto
  have refs: "(i, a, b, w) \<in> set (edge_references G ?g) \<longleftrightarrow> pg_edge G ?g i = Some (a, b, w)" for i a b w
    using set_edge_references [OF okg] by auto
  have located: "\<forall>(i, a, b, w) \<in> set (edge_references G ?g). SCCLoc \<lparr>loc_scc = scc, loc_target = a\<rparr> \<in> dom (location_to_index st1)
      \<and> edge_target aliases scc b \<in> dom (location_to_index st1)"
  proof (intro ballI, clarify)
    fix i a b w assume "(i, a, b, w) \<in> set (edge_references G ?g)"
    then have arc: "(a, w, b) \<in> weighted_arcs G ?g" unfolding refs by (auto simp: weighted_arcs_def)
    then have "pg_node_weight G ?g a \<noteq> None" using weighted_arcs_nodes [OF okg] by blast
    then have "SCCLoc \<lparr>loc_scc = scc, loc_target = a\<rparr> \<in> scc_places G scc sg" by (simp add: scc_places_def)
    moreover have "edge_target aliases scc b \<in> dom (location_to_index st) \<union> scc_places G scc sg" using aliases arc by fast
    ultimately show "SCCLoc \<lparr>loc_scc = scc, loc_target = a\<rparr> \<in> dom (location_to_index st1)
      \<and> edge_target aliases scc b \<in> dom (location_to_index st1)" unfolding 1(4) by blast
  qed
  obtain st2 where 2: "fold_opt (copy_scc_edge G aliases scc) (edge_references G ?g) st1 = Some st2" "ginv G ok st2"
    "resulting_labeling st2 = resulting_labeling st1" "location_to_index st2 = location_to_index st1"
    "weighted_arcs G (resulting_graph st2) = weighted_arcs G (resulting_graph st1)
        \<union> {(x, w, y). \<exists>i a b. (i, a, b, w) \<in> set (edge_references G ?g) \<and> location_to_index st1 (SCCLoc \<lparr>loc_scc = scc, loc_target = a\<rparr>) = Some x
             \<and> location_to_index st1 (edge_target aliases scc b) = Some y}"
    using copy_scc_edges [OF 1(2) located] by (elim exE conjE) (rule that)
  have ds: "set (dord (dom (mg_nodes (quotient_graph sg)))) = dom (mg_nodes (quotient_graph sg))"
    by (rule is_enumD(1) [OF dord mg_okD(2) [OF sg]])
  have named: "\<forall>d n. d \<in> set (dord (dom (mg_nodes (quotient_graph sg)))) \<longrightarrow> mg_nodes (quotient_graph sg) d = Some n
      \<longrightarrow> SCCLoc \<lparr>loc_scc = scc, loc_target = n\<rparr> \<in> dom (location_to_index st2)"
    using mg_okD(4) [OF sg] unfolding 2(4) 1(4) scc_places_def by blast
  obtain st3 where 3: "fold_opt (copy_scc_label els scc sg) (dord (dom (mg_nodes (quotient_graph sg)))) st2 = Some st3" "ginv G ok st3"
    "location_to_index st3 = location_to_index st2" "resulting_graph st3 = resulting_graph st2"
    "dom (resulting_labeling st3) = dom (resulting_labeling st2)
      \<union> {d \<in> dom (mg_nodes (quotient_graph sg)). labels_global els d \<and> mg_nodes (quotient_graph sg) d \<noteq> None}"
    using copy_scc_labels [OF 2(2) named, of els] unfolding ds by (elim exE conjE) (rule that)
  have run: "copy_built_sketch_into_global dord G els aliases scc sg st = Some st3"
    by (simp add: copy_built_sketch_into_global_def 1(1) 2(1) 3(1))
  have arcs: "(\<exists>i a b. (i, a, b, w) \<in> set (edge_references G ?g) \<and> P a \<and> Q b)
      \<longleftrightarrow> (\<exists>a b. (a, w, b) \<in> weighted_arcs G ?g \<and> P a \<and> Q b)" for w P Q
    unfolding refs by (auto simp: weighted_arcs_def)
  show ?thesis
  proof (intro exI [of _ st3] conjI)
    show "weighted_arcs G (resulting_graph st3) = weighted_arcs G (resulting_graph st)
        \<union> {(x, w, y). \<exists>a b. (a, w, b) \<in> weighted_arcs G ?g
             \<and> location_to_index st3 (SCCLoc \<lparr>loc_scc = scc, loc_target = a\<rparr>) = Some x
             \<and> location_to_index st3 (edge_target aliases scc b) = Some y}"
      unfolding 3(3,4) 2(4,5) 1(5) arcs ..
  qed (use run 3(2,3,5) 2(3,4) 1(3,4) in auto)
qed

lemma ginv_start: "ginv G ok \<lparr>location_to_index = Map.empty, resulting_graph = pg_new G, resulting_labeling = Map.empty\<rparr>"
  by (simp add: ginv_def new_graph)

lemma finish_spec:
  assumes st: "ginv G ok st"
  defines "final \<equiv> relable_representative_nodes (from_dfa_and_labeling (resulting_graph st)) (resulting_labeling st)"
  shows "mg_nodes final = resulting_labeling st"
    "mg_ok G ok (remove_nodes_unreachable_from_label G final)"
    "mg_nodes (remove_nodes_unreachable_from_label G final) = resulting_labeling st"
    "\<forall>n. pg_node_weight G (mg_grph (remove_nodes_unreachable_from_label G final)) n \<noteq> None \<longrightarrow>
      (\<exists>d s. resulting_labeling st d = Some s \<and> (s, n) \<in> (arcs G (mg_grph (remove_nodes_unreachable_from_label G final)))\<^sup>*)"
proof -
  note I = ginvD [OF st]
  have fin: "mg_grph final = resulting_graph st" "mg_nodes final = resulting_labeling st"
    by (simp_all add: final_def relable_representative_nodes_def inplace_relable_representative_nodes_def from_dfa_and_labeling_def)
  show "mg_nodes final = resulting_labeling st" by (rule fin(2))
  have ok: "mg_ok G ok final"
    unfolding final_def relable_representative_nodes_def
    by (rule mg_ok_relabel) (use I in \<open>simp_all add: from_dfa_and_labeling_def\<close>)
  note R = remove_unreachable_from_label_spec [OF ok]
  show "mg_ok G ok (remove_nodes_unreachable_from_label G final)" by (rule R(1))
  show "mg_nodes (remove_nodes_unreachable_from_label G final) = resulting_labeling st" unfolding R(2) by (rule fin(2))
  let ?A = "arcs G (mg_grph final)" and ?B = "arcs G (mg_grph (remove_nodes_unreachable_from_label G final))"
  have B: "(a, b) \<in> ?B \<longleftrightarrow> (a, b) \<in> ?A \<and> a \<in> ?A\<^sup>* `` ran (mg_nodes final) \<and> b \<in> ?A\<^sup>* `` ran (mg_nodes final)" for a b
    unfolding arcs_weighted R(4) by auto
  have reach: "(s, n) \<in> ?B\<^sup>*" if s: "s \<in> ran (mg_nodes final)" and sn: "(s, n) \<in> ?A\<^sup>*" for s n
    using sn
  proof (induction rule: rtrancl_induct)
    case (step y z)
    have "(s, z) \<in> ?A\<^sup>*" using step.hyps by (rule rtrancl_into_rtrancl)
    then have "(y, z) \<in> ?B" unfolding B using step.hyps s by blast
    with step.IH show ?case by (rule rtrancl_into_rtrancl)
  qed simp
  show "\<forall>n. pg_node_weight G (mg_grph (remove_nodes_unreachable_from_label G final)) n \<noteq> None \<longrightarrow>
      (\<exists>d s. resulting_labeling st d = Some s \<and> (s, n) \<in> ?B\<^sup>*)"
  proof (intro allI impI)
    fix n assume "pg_node_weight G (mg_grph (remove_nodes_unreachable_from_label G final)) n \<noteq> None"
    then have "n \<in> ?A\<^sup>* `` ran (mg_nodes final)" unfolding R(3) by (simp split: if_splits)
    then obtain s where s: "s \<in> ran (mg_nodes final)" "(s, n) \<in> ?A\<^sup>*" by blast
    from s(1) obtain d where "resulting_labeling st d = Some s" unfolding fin(2) ran_def by blast
    then show "\<exists>d s. resulting_labeling st d = Some s \<and> (s, n) \<in> ?B\<^sup>*" using reach [OF s] by blast
  qed
qed

text \<open>The globals come first.\<close>

lemma place_global:
  "dom (fold (place_global_node tv loc) olds l)
     = dom l \<union> (\<lambda>old. GlobalLoc \<lparr>globvar = tv, glob_target = old\<rparr>) ` (set olds \<inter> dom loc)
   \<and> ran (fold (place_global_node tv loc) olds l) \<subseteq> ran l \<union> ran loc"
proof (induction olds arbitrary: l)
  case (Cons old olds)
  let ?l = "place_global_node tv loc old l"
  have d: "dom ?l = dom l \<union> (\<lambda>old. GlobalLoc \<lparr>globvar = tv, glob_target = old\<rparr>) ` ({old} \<inter> dom loc)"
    by (auto simp: place_global_node_def split: option.splits)
  have r: "ran ?l \<subseteq> ran l \<union> ran loc"
    by (auto simp: place_global_node_def ran_def split: option.splits if_splits)
  have o: "set (old # olds) \<inter> dom loc = ({old} \<inter> dom loc) \<union> (set olds \<inter> dom loc)" by auto
  have f: "fold (place_global_node tv loc) (old # olds) l = fold (place_global_node tv loc) olds ?l" by simp
  have "dom (fold (place_global_node tv loc) olds ?l)
      = dom l \<union> (\<lambda>old. GlobalLoc \<lparr>globvar = tv, glob_target = old\<rparr>) ` (({old} \<inter> dom loc) \<union> (set olds \<inter> dom loc))"
    unfolding Cons [of ?l, THEN conjunct1] d image_Un by (rule Un_assoc)
  moreover have "ran (fold (place_global_node tv loc) olds ?l) \<subseteq> ran l \<union> ran loc"
    using Cons [of ?l, THEN conjunct2] r by fast
  ultimately show ?case unfolding f o by (rule conjI)
qed simp

lemma add_global_spec:
  assumes st: "ginv G ok st" and sk: "sketch_ok G ok sk e" and iord: "is_enum iord"
  shows "\<exists>st'. add_global_to_graph iord G tv sk st = Some st' \<and> ginv G ok st'
    \<and> dom (location_to_index st') = dom (location_to_index st) \<union> global_places G tv sk
    \<and> dom (resulting_labeling st') = insert (dtv_new tv) (dom (resulting_labeling st))"
proof -
  note I = ginvD [OF st]
  obtain n loc g where c: "copy_sketch_into_graph G sk (resulting_graph st) = Some (n, loc, g)" "ok g" "loc e = Some n"
    "dom loc = {x. pg_node_weight G (mg_grph (sk_graph sk)) x \<noteq> None}"
    and new: "\<forall>x k. loc x = Some k \<longrightarrow> pg_node_weight G (resulting_graph st) k = None
          \<and> pg_node_weight G g k = pg_node_weight G (mg_grph (sk_graph sk)) x"
    and old: "\<forall>k. k \<notin> ran loc \<longrightarrow> pg_node_weight G g k = pg_node_weight G (resulting_graph st) k"
    using copy_sketch_spec [OF sk I(1)] by (elim exE conjE) (rule that)
  have kept: "pg_node_weight G g k \<noteq> None" if k: "pg_node_weight G (resulting_graph st) k \<noteq> None" for k
  proof -
    have "k \<notin> ran loc" using new k by (auto simp: ran_def)
    then show ?thesis using old k by simp
  qed
  have fresh: "pg_node_weight G g k \<noteq> None" if k: "k \<in> ran loc" for k
  proof -
    obtain x where x: "loc x = Some k" using k by (auto simp: ran_def)
    then have "pg_node_weight G (mg_grph (sk_graph sk)) x \<noteq> None" using c(4) by blast
    then show ?thesis using new x by simp
  qed
  have fin: "finite (dom loc)"
  proof (rule finite_subset)
    show "dom loc \<subseteq> set (pg_node_indices G (mg_grph (sk_graph sk)))"
      unfolding c(4) using node_indices_laws [OF sketch_okD(2) [OF sk]] by blast
  qed simp
  have olds: "set (iord (dom loc)) \<inter> dom loc = dom loc" using is_enumD(1) [OF iord fin] by simp
  let ?l = "fold (place_global_node tv loc) (iord (dom loc)) (location_to_index st)"
  note P = place_global [where loc = loc and tv = tv and olds = "iord (dom loc)" and l = "location_to_index st", unfolded olds]
  define st' where "st' = \<lparr>location_to_index = ?l, resulting_graph = g, resulting_labeling = (resulting_labeling st)(dtv_new tv \<mapsto> n)\<rparr>"
  have sel: "location_to_index st' = ?l" "resulting_graph st' = g" "resulting_labeling st' = (resulting_labeling st)(dtv_new tv \<mapsto> n)"
    by (simp_all add: st'_def)
  have run: "add_global_to_graph iord G tv sk st = Some st'" by (simp add: add_global_to_graph_def c(1) st'_def)
  have "ginv G ok st'"
    unfolding ginv_def sel
  proof (intro conjI allI impI)
    fix l i assume "?l l = Some i"
    then have "i \<in> ran (location_to_index st) \<union> ran loc" using P by (meson ranI subsetD)
    then show "pg_node_weight G g i \<noteq> None" using fresh kept I(2) by (auto simp: ran_def)
  next
    fix d i assume "((resulting_labeling st)(dtv_new tv \<mapsto> n)) d = Some i"
    then have "i = n \<or> resulting_labeling st d = Some i" by (auto split: if_splits)
    then show "pg_node_weight G g i \<noteq> None" using fresh [of n] kept I(3) c(3) by (auto simp: ran_def)
  qed (use c(2) I(4) in simp_all)
  then show ?thesis using run P by (intro exI [of _ st']) (simp add: sel global_places_def c(4))
qed

lemma add_globals_spec:
  assumes globals: "\<forall>tv i sk. globals tv = Some (i, sk) \<longrightarrow> (\<exists>e. sketch_ok G ok sk e)" and iord: "is_enum iord"
  shows "ginv G ok st \<Longrightarrow>
    \<exists>st'. fold_opt (\<lambda>tv st. case globals tv of Some (_, sk) \<Rightarrow> add_global_to_graph iord G tv sk st | None \<Rightarrow> Some st) tvs st = Some st'
    \<and> ginv G ok st'
    \<and> dom (location_to_index st') = dom (location_to_index st) \<union> {l. \<exists>tv \<in> set tvs. \<exists>i sk. globals tv = Some (i, sk) \<and> l \<in> global_places G tv sk}
    \<and> dom (resulting_labeling st') = dom (resulting_labeling st) \<union> dtv_new ` (set tvs \<inter> dom globals)"
proof (induction tvs arbitrary: st)
  case (Cons tv tvs)
  show ?case
  proof (cases "globals tv")
    case None
    then have "set (tv # tvs) \<inter> dom globals = set tvs \<inter> dom globals" by auto
    then show ?thesis using Cons.IH [OF Cons.prems] None by simp
  next
    case (Some r)
    obtain i sk where r: "r = (i, sk)" by (cases r)
    obtain e where "sketch_ok G ok sk e" using globals Some r by blast
    from add_global_spec [OF Cons.prems this iord, of tv] obtain st1 where 1: "add_global_to_graph iord G tv sk st = Some st1"
      "ginv G ok st1" "dom (location_to_index st1) = dom (location_to_index st) \<union> global_places G tv sk"
      "dom (resulting_labeling st1) = insert (dtv_new tv) (dom (resulting_labeling st))" by blast
    obtain st' where 2: "fold_opt (\<lambda>tv st. case globals tv of Some (_, sk) \<Rightarrow> add_global_to_graph iord G tv sk st | None \<Rightarrow> Some st) tvs st1 = Some st'"
      "ginv G ok st'"
      "dom (location_to_index st') = dom (location_to_index st1) \<union> {l. \<exists>tv \<in> set tvs. \<exists>i sk. globals tv = Some (i, sk) \<and> l \<in> global_places G tv sk}"
      "dom (resulting_labeling st') = dom (resulting_labeling st1) \<union> dtv_new ` (set tvs \<inter> dom globals)"
      using Cons.IH [OF 1(2)] by blast
    have ins: "set (tv # tvs) \<inter> dom globals = insert tv (set tvs \<inter> dom globals)" using Some by auto
    show ?thesis
      using 1(1) 2(1,2) unfolding ins by (intro exI [of _ st']) (auto simp: Some r 2(3,4) 1(3,4))
  qed
qed simp

end

section \<open>All components\<close>

text \<open>Component by component, every edge leads, through its alias, to a place that is there.\<close>

fun aliases_ready ::
    "('u, 'g, 'h, 'd, 't, 'cg, 'c, 'tid) sketch_lib \<Rightarrow> ('g \<Rightarrow> bool) \<Rightarrow> ('g, 't, 'cg, 'tid) sccs_builder \<Rightarrow> 'c \<Rightarrow> nat list \<Rightarrow>
     'tid type_location set \<Rightarrow> bool" where
  "aliases_ready lib ok b condensed [] P \<longleftrightarrow> True"
| "aliases_ready lib ok b condensed (idx # idxs) P \<longleftrightarrow> (\<exists>scc sg. pg_node_weight (sl_cg lib) condensed idx = Some scc
     \<and> get_built_sketch_from_scc lib b scc = Some sg \<and> mg_ok (sl_pg lib) ok (quotient_graph sg)
     \<and> (\<forall>(a, w, n) \<in> weighted_arcs (sl_pg lib) (mg_grph (quotient_graph sg)).
          edge_target (parameter_aliases b) scc n \<in> P \<union> scc_places (sl_pg lib) scc sg)
     \<and> aliases_ready lib ok b condensed idxs (P \<union> scc_places (sl_pg lib) scc sg))"

text \<open>The names that the graph of all types keeps.\<close>

definition kept_names ::
    "('u, 'g, 'h, 'd, 't, 'cg, 'c, 'tid) sketch_lib \<Rightarrow> ('g, 't, 'cg, 'tid) sccs_builder \<Rightarrow> 'c \<Rightarrow> nat list \<Rightarrow> 'tid dtv set" where
  "kept_names lib b condensed idxs = {d. labels_global (bl_elements b) d \<and> (\<exists>idx \<in> set idxs. \<exists>scc sg.
     pg_node_weight (sl_cg lib) condensed idx = Some scc \<and> get_built_sketch_from_scc lib b scc = Some sg
     \<and> mg_nodes (quotient_graph sg) d \<noteq> None)}"

lemma copy_sccs_spec:
  assumes G: "label_digraph (sl_pg lib) ok" and dord: "is_enum (sl_dord lib)"
  shows "ginv (sl_pg lib) ok st \<Longrightarrow> aliases_ready lib ok b condensed idxs (dom (location_to_index st)) \<Longrightarrow>
    \<exists>st'. fold_opt (\<lambda>idx st. do { scc \<leftarrow> pg_node_weight (sl_cg lib) condensed idx;
              built_sg \<leftarrow> get_built_sketch_from_scc lib b scc;
              copy_built_sketch_into_global (sl_dord lib) (sl_pg lib) (bl_elements b) (parameter_aliases b) scc built_sg st }) idxs st = Some st'
    \<and> ginv (sl_pg lib) ok st' \<and> dom (resulting_labeling st') = dom (resulting_labeling st) \<union> kept_names lib b condensed idxs"
proof (induction idxs arbitrary: st)
  case Nil
  then show ?case by (simp add: kept_names_def)
next
  case (Cons idx idxs)
  let ?G = "sl_pg lib"
  obtain scc sg where c: "pg_node_weight (sl_cg lib) condensed idx = Some scc" "get_built_sketch_from_scc lib b scc = Some sg"
    "mg_ok ?G ok (quotient_graph sg)"
    "\<forall>(a, w, n) \<in> weighted_arcs ?G (mg_grph (quotient_graph sg)).
        edge_target (parameter_aliases b) scc n \<in> dom (location_to_index st) \<union> scc_places ?G scc sg"
    "aliases_ready lib ok b condensed idxs (dom (location_to_index st) \<union> scc_places ?G scc sg)"
    using Cons.prems(2) by (elim aliases_ready.elims) auto
  obtain st1 where 1: "copy_built_sketch_into_global (sl_dord lib) ?G (bl_elements b) (parameter_aliases b) scc sg st = Some st1"
    "ginv ?G ok st1" "dom (location_to_index st1) = dom (location_to_index st) \<union> scc_places ?G scc sg"
    "dom (resulting_labeling st1) = dom (resulting_labeling st)
        \<union> {d. labels_global (bl_elements b) d \<and> mg_nodes (quotient_graph sg) d \<noteq> None}"
    using label_digraph.copy_scc_spec [OF G Cons.prems(1) c(3) dord c(4), of "bl_elements b"] by (elim exE conjE) (rule that)
  obtain st' where 2: "fold_opt (\<lambda>idx st. do { scc \<leftarrow> pg_node_weight (sl_cg lib) condensed idx;
              built_sg \<leftarrow> get_built_sketch_from_scc lib b scc;
              copy_built_sketch_into_global (sl_dord lib) ?G (bl_elements b) (parameter_aliases b) scc built_sg st }) idxs st1 = Some st'"
    "ginv ?G ok st'" "dom (resulting_labeling st') = dom (resulting_labeling st1) \<union> kept_names lib b condensed idxs"
    using Cons.IH [OF 1(2) c(5) [folded 1(3)]] by (elim exE conjE) (rule that)
  have "kept_names lib b condensed (idx # idxs)
      = {d. labels_global (bl_elements b) d \<and> mg_nodes (quotient_graph sg) d \<noteq> None} \<union> kept_names lib b condensed idxs"
    using c(1,2) by (auto simp: kept_names_def)
  then show ?case using 1(1,4) 2 c(1,2) by (intro exI [of _ st']) auto
qed

lemma tag_free_names: "d \<in> kept_names lib b condensed idxs \<Longrightarrow> tv_cs_tag (dtv_var d) = None"
  by (simp add: kept_names_def labels_global_def)

lemma build_global_spec:
  assumes G: "label_digraph (sl_pg lib) ok"
    and ords: "is_enum (sl_dord lib)" "is_enum (sl_tvord lib)" "is_enum (sl_iord lib)"
    and globals: "finite (dom (global_repr b))"
      "\<forall>tv i sk. global_repr b tv = Some (i, sk) \<longrightarrow> tv_cs_tag tv = None \<and> (\<exists>e. sketch_ok (sl_pg lib) ok sk e)"
    and ord: "cg_ordering_new (sl_condensation lib) (sl_toposort lib) (bl_cg b) = Inr ord"
    and ready: "aliases_ready lib ok b (condensed_cg ord) (get_reverse_topo ord)
      {l. \<exists>tv i sk. global_repr b tv = Some (i, sk) \<and> l \<in> global_places (sl_pg lib) tv sk}"
  shows "\<exists>sg. build_global_type_graph lib b = Some (Inr sg) \<and> mg_ok (sl_pg lib) ok (quotient_graph sg)
    \<and> dom (mg_nodes (quotient_graph sg)) = dtv_new ` dom (global_repr b) \<union> kept_names lib b (condensed_cg ord) (get_reverse_topo ord)
    \<and> (\<forall>n. pg_node_weight (sl_pg lib) (mg_grph (quotient_graph sg)) n \<noteq> None \<longrightarrow>
         (\<exists>d s. mg_nodes (quotient_graph sg) d = Some s \<and> (s, n) \<in> (arcs (sl_pg lib) (mg_grph (quotient_graph sg)))\<^sup>*))"
proof -
  let ?G = "sl_pg lib"
  note start = label_digraph.ginv_start [OF G]
  have tvs: "set (sl_tvord lib (dom (global_repr b))) = dom (global_repr b)" by (rule is_enumD(1) [OF ords(2) globals(1)])
  have gl: "\<forall>tv i sk. global_repr b tv = Some (i, sk) \<longrightarrow> (\<exists>e. sketch_ok ?G ok sk e)" using globals(2) by blast
  have places: "{l. \<exists>tv \<in> dom (global_repr b). \<exists>i sk. global_repr b tv = Some (i, sk) \<and> l \<in> global_places ?G tv sk}
      = {l. \<exists>tv i sk. global_repr b tv = Some (i, sk) \<and> l \<in> global_places ?G tv sk}" by blast
  obtain st0 where 0: "add_globals_to_global_graph lib b
      \<lparr>location_to_index = Map.empty, resulting_graph = pg_new ?G, resulting_labeling = Map.empty\<rparr> = Some st0" "ginv ?G ok st0"
    "dom (location_to_index st0) = {l. \<exists>tv i sk. global_repr b tv = Some (i, sk) \<and> l \<in> global_places ?G tv sk}"
    "dom (resulting_labeling st0) = dtv_new ` dom (global_repr b)"
    using label_digraph.add_globals_spec [OF G gl ords(3) start, of "sl_tvord lib (dom (global_repr b))"]
    unfolding tvs places add_globals_to_global_graph_def by auto
  obtain st where 1: "fold_opt (\<lambda>idx st. do { scc \<leftarrow> pg_node_weight (sl_cg lib) (condensed_cg ord) idx;
              built_sg \<leftarrow> get_built_sketch_from_scc lib b scc;
              copy_built_sketch_into_global (sl_dord lib) ?G (bl_elements b) (parameter_aliases b) scc built_sg st }) (get_reverse_topo ord) st0 = Some st"
    "ginv ?G ok st" "dom (resulting_labeling st) = dom (resulting_labeling st0) \<union> kept_names lib b (condensed_cg ord) (get_reverse_topo ord)"
    using copy_sccs_spec [OF G ords(1) 0(2) ready [folded 0(3)]] by (elim exE conjE) (rule that)
  let ?final = "relable_representative_nodes (from_dfa_and_labeling (resulting_graph st)) (resulting_labeling st)"
  note F = label_digraph.finish_spec [OF G 1(2)]
  have names: "set (sl_dord lib (dom (mg_nodes ?final)))
      = dtv_new ` dom (global_repr b) \<union> kept_names lib b (condensed_cg ord) (get_reverse_topo ord)"
    using is_enumD(1) [OF ords(1) ginvD(4) [OF 1(2)]] unfolding F(1) 1(3) 0(4) .
  have untagged_names: "tv_cs_tag (dtv_var x) = None" if x: "x \<in> dtv_new ` dom (global_repr b) \<union> kept_names lib b (condensed_cg ord) (get_reverse_topo ord)" for x
    using x globals(2) tag_free_names by fastforce
  have untagged: "\<not> list_ex (\<lambda>x. tv_cs_tag (dtv_var x) \<noteq> None) (sl_dord lib (dom (mg_nodes ?final)))"
    unfolding list_ex_iff names
  proof
    assume "\<exists>x \<in> dtv_new ` dom (global_repr b) \<union> kept_names lib b (condensed_cg ord) (get_reverse_topo ord). tv_cs_tag (dtv_var x) \<noteq> None"
    then obtain x where x: "x \<in> dtv_new ` dom (global_repr b) \<union> kept_names lib b (condensed_cg ord) (get_reverse_topo ord)"
      "tv_cs_tag (dtv_var x) \<noteq> None" ..
    show False using untagged_names [OF x(1)] x(2) by (rule notE [rotated])
  qed
  have run: "build_global_type_graph lib b = Some (Inr \<lparr>quotient_graph = remove_nodes_unreachable_from_label ?G ?final,
      default_label = lattice_identity (bl_lattice b)\<rparr>)"
    unfolding build_global_type_graph_def 0(1) Option.bind.bind_lunit ord sum.case 1(1) Let_def if_not_P [OF untagged] ..
  show ?thesis
    unfolding run using F(2,3,4) 1(3) 0(4) by simp
qed

section \<open>Entries of a shared part\<close>

text \<open>The nodes of the part below a place into which an edge from elsewhere leads, each with a word.\<close>

lemma subgraph_entries_spec:
  assumes G: "label_digraph (sl_pg lib) ok"
    and sg: "get_built_sketch_from_scc lib b (loc_scc l) = Some sg" "mg_ok (sl_pg lib) ok (quotient_graph sg)"
    and l: "pg_node_weight (sl_pg lib) (mg_grph (quotient_graph sg)) (loc_target l) \<noteq> None"
    and R: "R = (arcs (sl_pg lib) (mg_grph (quotient_graph sg)))\<^sup>* `` {loc_target l}"
  shows "\<exists>entries. get_subgraph_entries_for_scc_loc lib b l = Some entries
    \<and> fst ` set entries = {n \<in> R. \<exists>a. a \<notin> R \<and> (a, n) \<in> arcs (sl_pg lib) (mg_grph (quotient_graph sg))}
    \<and> (\<forall>(n, ws) \<in> set entries. edge_path (weighted_arcs (sl_pg lib) (mg_grph (quotient_graph sg))) (loc_target l) ws n)"
proof -
  let ?G = "sl_pg lib" and ?g = "mg_grph (quotient_graph sg)"
  have S: "stable_digraph ?G ok" using G by (rule label_digraph.axioms)
  note okg = mg_okD(1) [OF sg(2)]
  obtain paths wd where paths: "explore_paths (pg_out ?G ?g) (loc_target l) = Some paths" "set (map snd paths) = R"
    and words: "\<forall>(p, n) \<in> set paths. traverse (edge_weight ?G ?g) p = Some (wd n) \<and> edge_path (weighted_arcs ?G ?g) (loc_target l) (wd n) n"
    using stable_digraph.explored_words [OF S okg, of "loc_target l"] unfolding R by blast
  have reach: "mg_reachable_idxs ?G (quotient_graph sg) (loc_target l) = R"
    unfolding R by (rule stable_digraph.reachable_idxs [OF S sg(2) l])
  let ?enters = "\<lambda>n. list_ex (\<lambda>(_, a, _, _). a \<notin> R) (edges_directed ?G ?g n Incoming)"
  have enters: "?enters n \<longleftrightarrow> (\<exists>a. a \<notin> R \<and> (a, n) \<in> arcs ?G ?g)" for n
    unfolding list_ex_iff stable_digraph.set_edges_directed [OF S okg, of n Incoming] arcs_def by auto
  define entries where "entries = map (\<lambda>(p, n). (n, wd n)) (filter (\<lambda>(_, n). ?enters n) paths)"
  have "traverse (\<lambda>(p, n). map_option (\<lambda>ws. (n, ws)) (traverse (edge_weight ?G ?g) p)) (filter (\<lambda>(_, n). ?enters n) paths) = Some entries"
    unfolding entries_def by (rule traverse_Some_map) (use words in fastforce)
  then have "get_subgraph_entries_for_scc_loc lib b l = Some entries"
    by (simp add: get_subgraph_entries_for_scc_loc_def sg(1) Let_def paths(1) reach)
  moreover have "fst ` set entries = {n \<in> set (map snd paths). ?enters n}"
    unfolding entries_def by force
  moreover have "\<forall>(n, ws) \<in> set entries. edge_path (weighted_arcs ?G ?g) (loc_target l) ws n"
    using words unfolding entries_def by fastforce
  ultimately show ?thesis unfolding paths(2) enters by blast
qed

section \<open>Properties\<close>

text \<open>
  C15. When every alias leads to a place that is copied before it is needed, the graph of all
  types is built without a panic or an error; it names exactly the globals and those variables of
  the components that carry no path, no callsite tag and no lattice element, and every node of it
  is reached from a name.
\<close>

theorem build_global_type_graph_total:
  assumes "label_digraph (sl_pg lib) ok" "is_enum (sl_dord lib)" "is_enum (sl_tvord lib)" "is_enum (sl_iord lib)"
    and "finite (dom (global_repr b))"
      "\<forall>tv i sk. global_repr b tv = Some (i, sk) \<longrightarrow> tv_cs_tag tv = None \<and> (\<exists>e. sketch_ok (sl_pg lib) ok sk e)"
    and "cg_ordering_new (sl_condensation lib) (sl_toposort lib) (bl_cg b) = Inr ord"
    and "aliases_ready lib ok b (condensed_cg ord) (get_reverse_topo ord)
      {l. \<exists>tv i sk. global_repr b tv = Some (i, sk) \<and> l \<in> global_places (sl_pg lib) tv sk}"
  shows "\<exists>sg. build_global_type_graph lib b = Some (Inr sg) \<and> mg_ok (sl_pg lib) ok (quotient_graph sg)
    \<and> dom (mg_nodes (quotient_graph sg)) = dtv_new ` dom (global_repr b) \<union> kept_names lib b (condensed_cg ord) (get_reverse_topo ord)
    \<and> (\<forall>n. pg_node_weight (sl_pg lib) (mg_grph (quotient_graph sg)) n \<noteq> None \<longrightarrow>
         (\<exists>d s. mg_nodes (quotient_graph sg) d = Some s \<and> (s, n) \<in> (arcs (sl_pg lib) (mg_grph (quotient_graph sg)))\<^sup>*))"
  by (rule build_global_spec [OF assms])

text \<open>A function whose parameter shares its type with a global, alone in its component.\<close>

definition demo_glb :: "nat type_variable" where
  "demo_glb = new_global ''glb_x''"

definition demo_label :: "custom_lattice_element lattice_bounds" where
  "demo_label = lattice_identity fd_named"

definition demo_glb_sketch :: "((custom_lattice_element lattice_bounds, field_label) list_graph, custom_lattice_element lattice_bounds, nat) sketch" where
  "demo_glb_sketch = \<lparr>sk_graph = \<lparr>mg_grph = \<lparr>lg_nodes = [(0, demo_label)], lg_edges = [], lg_next_node = 1, lg_next_edge = 0\<rparr>,
      mg_nodes = [dtv_new demo_glb \<mapsto> 0], mg_reprs = [0 \<mapsto> {dtv_new demo_glb}]\<rparr>,
    representing = dtv_new demo_glb, sk_default = demo_label\<rparr>"

definition demo_fun_graph :: "((custom_lattice_element lattice_bounds, field_label) list_graph, custom_lattice_element lattice_bounds, nat) sketch_graph" where
  "demo_fun_graph = \<lparr>quotient_graph = \<lparr>mg_grph = \<lparr>lg_nodes = [(0, demo_label), (1, demo_label)], lg_edges = [(0, 0, 1, In 0)],
        lg_next_node = 2, lg_next_edge = 1\<rparr>,
      mg_nodes = [dtv_new (tv_new ''f'') \<mapsto> 0, create_with_path (tv_new ''f'') [In 0] \<mapsto> 1],
      mg_reprs = [0 \<mapsto> {dtv_new (tv_new ''f'')}, 1 \<mapsto> {create_with_path (tv_new ''f'') [In 0]}]\<rparr>,
    default_label = demo_label\<rparr>"

definition demo_cg :: "(nat list, unit) list_graph" where
  "demo_cg = \<lparr>lg_nodes = [(0, [7])], lg_edges = [], lg_next_node = 1, lg_next_edge = 0\<rparr>"

definition demo_lib where
  "demo_lib = \<lparr>sl_uf = list_uf, sl_hord = imp_enum, sl_vord = sorted_list_of_set, sl_dord = sorted_list_of_set,
     sl_tvord = sorted_list_of_set, sl_pord = sorted_list_of_set, sl_iord = sorted_list_of_set, sl_pg = list_digraph,
     sl_ops = ce_ops, sl_show_tid = (\<lambda>_ :: nat. ''f''), sl_dfs = ref_dfs, sl_has_node = ref_has_node,
     sl_condense = acyclic_lib, sl_cg = list_digraph, sl_condensation = (\<lambda>cg. cg), sl_toposort = list_toposort\<rparr>"

definition demo_builder where
  "demo_builder = \<lparr>scc_signatures = Map.empty, scc_repr = [tv_new ''f'' \<mapsto> demo_fun_graph],
     global_repr = [demo_glb \<mapsto> (0, demo_glb_sketch)], bl_cg = demo_cg, bl_lattice = fd_named, bl_elements = {},
     parameter_aliases = [(SCCLoc \<lparr>loc_scc = [7], loc_target = 1\<rparr>, GlobalLoc \<lparr>globvar = demo_glb, glob_target = 0\<rparr>)]\<rparr>"

lemma demo_glb_sketch_ok: "sketch_ok list_digraph lg_ok demo_glb_sketch 0"
proof -
  have "mg_ok list_digraph lg_ok (sk_graph demo_glb_sketch)"
  proof (rule mg_okI)
    show "lg_ok (mg_grph (sk_graph demo_glb_sketch))" by (simp add: demo_glb_sketch_def lg_ok_def)
    show "n \<in> get_group_for_node (sk_graph demo_glb_sketch) i \<longleftrightarrow> mg_nodes (sk_graph demo_glb_sketch) n = Some i" for n i
      by (auto simp: demo_glb_sketch_def get_group_for_node_def)
  qed (auto simp: demo_glb_sketch_def list_digraph_sel split: if_splits)
  then show ?thesis
    by (simp add: sketch_ok_def) (simp add: demo_glb_sketch_def deterministic_def weighted_arcs_def list_digraph_sel)
qed

lemma demo_fun_graph_ok: "mg_ok list_digraph lg_ok (quotient_graph demo_fun_graph)"
proof (rule mg_okI)
  show "lg_ok (mg_grph (quotient_graph demo_fun_graph))" by (auto simp: demo_fun_graph_def lg_ok_def split: if_splits)
  show "n \<in> get_group_for_node (quotient_graph demo_fun_graph) i \<longleftrightarrow> mg_nodes (quotient_graph demo_fun_graph) n = Some i" for n i
    by (auto simp: demo_fun_graph_def get_group_for_node_def create_with_path_def dtv_new_def)
qed (auto simp: demo_fun_graph_def list_digraph_sel split: if_splits)

lemma demo_fun_graph_arcs: "weighted_arcs list_digraph (mg_grph (quotient_graph demo_fun_graph)) = {(0, In 0, 1)}"
  by (auto simp: weighted_arcs_def demo_fun_graph_def list_digraph_sel split: if_splits)

lemma demo_fun_built: "get_built_sketch_from_scc demo_lib demo_builder [7] = Some demo_fun_graph"
  by (simp add: get_built_sketch_from_scc_def demo_builder_def demo_lib_def tid_to_tvar_def)

lemma demo_ordering:
  "cg_ordering_new (sl_condensation demo_lib) (sl_toposort demo_lib) (bl_cg demo_builder)
     = Inr \<lparr>condensed_cg = demo_cg, topo_order = [0]\<rparr>"
proof -
  have "list_toposort demo_cg = Some [0]" by code_simp
  then show ?thesis by (simp add: cg_ordering_new_def demo_lib_def demo_builder_def)
qed

theorem build_global_type_graph_total_witness:
  "\<exists>sg. build_global_type_graph demo_lib demo_builder = Some (Inr sg)
     \<and> dom (mg_nodes (quotient_graph sg)) = {dtv_new demo_glb, dtv_new (tv_new ''f'')}"
proof -
  have lib: "sl_pg demo_lib = list_digraph" "sl_dord demo_lib = sorted_list_of_set" "sl_tvord demo_lib = sorted_list_of_set"
    "sl_iord demo_lib = sorted_list_of_set" "sl_cg demo_lib = list_digraph" by (simp_all add: demo_lib_def)
  have glb: "global_repr demo_builder = [demo_glb \<mapsto> (0, demo_glb_sketch)]" by (simp add: demo_builder_def)
  have cs: "tv_cs_tag demo_glb = None" by (simp add: demo_glb_def new_global_def)
  have node: "pg_node_weight list_digraph demo_cg 0 = Some [7]" by (simp add: demo_cg_def list_digraph_sel)
  have order: "get_reverse_topo \<lparr>condensed_cg = demo_cg, topo_order = [0]\<rparr> = [0]" by (simp add: get_reverse_topo_def)
  have place: "GlobalLoc \<lparr>globvar = demo_glb, glob_target = 0\<rparr> \<in> global_places list_digraph demo_glb demo_glb_sketch"
    by (simp add: global_places_def demo_glb_sketch_def list_digraph_sel)
  have aliased: "edge_target (parameter_aliases demo_builder) [7] 1 = GlobalLoc \<lparr>globvar = demo_glb, glob_target = 0\<rparr>"
    by (simp add: edge_target_def demo_builder_def)
  have ready: "aliases_ready demo_lib lg_ok demo_builder demo_cg [0]
      {l. \<exists>tv i sk. global_repr demo_builder tv = Some (i, sk) \<and> l \<in> global_places list_digraph tv sk}"
    using place aliased by (auto simp: lib node demo_fun_built demo_fun_graph_ok demo_fun_graph_arcs glb)
  have els: "bl_elements demo_builder = {}" by (simp add: demo_builder_def)
  have names: "mg_nodes (quotient_graph demo_fun_graph)
      = [dtv_new (tv_new ''f'') \<mapsto> 0, create_with_path (tv_new ''f'') [In 0] \<mapsto> 1]" by (simp add: demo_fun_graph_def)
  have kept: "kept_names demo_lib demo_builder demo_cg [0] = {dtv_new (tv_new ''f'')}"
    unfolding kept_names_def
    by (auto simp: lib node demo_fun_built names els labels_global_def create_with_path_def dtv_new_def tv_new_def
        dtv_is_global_def refers_to_global_def split: if_splits)
  have fin: "finite (dom (global_repr demo_builder))" and dom: "dom (global_repr demo_builder) = {demo_glb}" by (simp_all add: glb)
  have globals: "\<forall>tv i sk. global_repr demo_builder tv = Some (i, sk) \<longrightarrow> tv_cs_tag tv = None \<and> (\<exists>e. sketch_ok list_digraph lg_ok sk e)"
    using demo_glb_sketch_ok cs by (auto simp: glb)
  obtain sg where sg: "build_global_type_graph demo_lib demo_builder = Some (Inr sg)"
    "dom (mg_nodes (quotient_graph sg)) = dtv_new ` dom (global_repr demo_builder) \<union> kept_names demo_lib demo_builder demo_cg [0]"
    using build_global_type_graph_total [of demo_lib lg_ok demo_builder, unfolded lib, OF list_labels.label_digraph_axioms
        sorted_enum sorted_enum sorted_enum fin globals demo_ordering, unfolded order cg_ordering.select_convs, OF ready]
    by blast
  show ?thesis by (rule exI [of _ sg], unfold sg(2) kept dom) (simp add: sg(1) insert_commute)
qed

text \<open>
  The entries of the part below a place are exactly the nodes of the part into which an edge
  from outside leads, and each comes with the labels of a path from the place to it.
\<close>

theorem subgraph_entries_exact:
  assumes "label_digraph (sl_pg lib) ok"
    and "get_built_sketch_from_scc lib b (loc_scc l) = Some sg" "mg_ok (sl_pg lib) ok (quotient_graph sg)"
    and "pg_node_weight (sl_pg lib) (mg_grph (quotient_graph sg)) (loc_target l) \<noteq> None"
    and "R = (arcs (sl_pg lib) (mg_grph (quotient_graph sg)))\<^sup>* `` {loc_target l}"
  shows "\<exists>entries. get_subgraph_entries_for_scc_loc lib b l = Some entries
    \<and> fst ` set entries = {n \<in> R. \<exists>a. a \<notin> R \<and> (a, n) \<in> arcs (sl_pg lib) (mg_grph (quotient_graph sg))}
    \<and> (\<forall>(n, ws) \<in> set entries. edge_path (weighted_arcs (sl_pg lib) (mg_grph (quotient_graph sg))) (loc_target l) ws n)"
  by (rule subgraph_entries_spec [OF assms])


theorem subgraph_entries_exact_witness:
  "\<exists>entries. get_subgraph_entries_for_scc_loc demo_lib demo_builder \<lparr>loc_scc = [7], loc_target = 1\<rparr> = Some entries
     \<and> fst ` set entries = {1}"
proof -
  have lib: "sl_pg demo_lib = list_digraph" by (simp add: demo_lib_def)
  have arcs: "arcs list_digraph (mg_grph (quotient_graph demo_fun_graph)) = {(0, 1)}"
    using demo_fun_graph_arcs by (intro set_eqI) (simp only: split_paired_all arcs_weighted, auto)
  have R: "{1} = {(0, 1) :: nat \<times> nat}\<^sup>* `` {1}" by (auto elim: converse_rtranclE)
  show ?thesis
    using subgraph_entries_exact [of demo_lib lg_ok demo_builder "\<lparr>loc_scc = [7], loc_target = 1\<rparr>" demo_fun_graph "{1}",
        unfolded lib arcs, OF list_labels.label_digraph_axioms _ demo_fun_graph_ok _ _]
      demo_fun_built R by (auto simp: demo_fun_graph_def list_digraph_sel)
qed

end
