(* ===== verification/FieldSchedule.thy ===== *)
theory FieldSchedule
  imports Constraints "HOL-Library.Multiset"
begin

text \<open>
  C types and the layout of structures (\<^verbatim>\<open>CType\<close>, \<^verbatim>\<open>Classroom\<close> and
  \<^verbatim>\<open>schedule_structures\<close> of \<^verbatim>\<open>src/lowering/mod.rs\<close>).  Fields that overlap
  cannot share a structure, so the code distributes the fields over structures by interval
  scheduling: fields are taken by offset and each goes into the structure that ends first, when it
  ends early enough, and into a new one otherwise.

  A \<^verbatim>\<open>TypeId\<close> is its number.  The binary heap of structures is a list; which of the least
  elements it shows and the order in which it is emptied are arguments, constrained by
  \<open>is_peek\<close> and \<open>is_drain\<close>.
\<close>

section \<open>C types\<close>

type_synonym type_id = nat

record lowered_field =
  byte_offset :: nat
  bit_sz :: nat
  fld_type :: type_id

record parameter =
  param_index :: nat
  param_type :: type_id

datatype ctype =
    CPrimitive string
  | CPointer type_id
  | CAlias nat
  | CStructure "lowered_field list"
  | CFunction "parameter list" "type_id option"
  | CUnion "type_id set"

section \<open>Structures that are being filled\<close>

record classroom =
  scheduled :: "lowered_field list"
  covering :: "(nat \<times> nat) list"

definition classroom_new :: classroom where
  "classroom_new = \<lparr>scheduled = [], covering = []\<rparr>"

definition compute_upper_bound_exclusive :: "nat \<Rightarrow> nat \<Rightarrow> nat" where
  "compute_upper_bound_exclusive base sz = base + sz div 8"

definition compute_fld_upper_bound_exclusive :: "lowered_field \<Rightarrow> nat" where
  "compute_fld_upper_bound_exclusive fld = compute_upper_bound_exclusive (byte_offset fld) (bit_sz fld)"

definition get_next_schedulable_offset :: "classroom \<Rightarrow> nat" where
  "get_next_schedulable_offset cls =
     (if scheduled cls = [] then 0 else compute_fld_upper_bound_exclusive (last (scheduled cls)))"

definition superscedes_fld :: "classroom \<Rightarrow> lowered_field \<Rightarrow> bool" where
  "superscedes_fld cls fld =
     list_ex (\<lambda>(overlapping_base, overlapping_size). overlapping_base < byte_offset fld
         \<and> compute_upper_bound_exclusive overlapping_base overlapping_size \<ge> compute_fld_upper_bound_exclusive fld)
       (filter (\<lambda>(base, _). byte_offset fld \<le> base \<and> base < compute_fld_upper_bound_exclusive fld) (covering cls))"

definition schedule_fld :: "lowered_field \<Rightarrow> classroom \<Rightarrow> bool \<times> classroom" where
  "schedule_fld fld cls =
     (if get_next_schedulable_offset cls > byte_offset fld then (False, cls)
      else (True, \<lparr>scheduled = scheduled cls @ [fld], covering = bt_insert (byte_offset fld) (bit_sz fld) (covering cls)\<rparr>))"

text \<open>The heap shows a structure that ends first.\<close>

definition is_peek :: "(classroom list \<Rightarrow> nat) \<Rightarrow> bool" where
  "is_peek peek \<longleftrightarrow> (\<forall>hp. hp \<noteq> [] \<longrightarrow> peek hp < length hp
     \<and> (\<forall>cls \<in> set hp. get_next_schedulable_offset (hp ! peek hp) \<le> get_next_schedulable_offset cls))"

definition is_drain :: "(classroom list \<Rightarrow> classroom list) \<Rightarrow> bool" where
  "is_drain drain \<longleftrightarrow> (\<forall>hp. mset (drain hp) = mset hp)"

definition translate_field :: "field \<Rightarrow> type_id \<Rightarrow> lowered_field option" where
  "translate_field fld idx =
     (if 0 \<le> offset fld then Some \<lparr>byte_offset = nat (offset fld), bit_sz = fsize fld, fld_type = idx\<rparr> else None)"

definition schedule_one :: "(classroom list \<Rightarrow> nat) \<Rightarrow> lowered_field \<Rightarrow> classroom list \<Rightarrow> classroom list option" where
  "schedule_one peek fld hp =
     (if list_ex (\<lambda>cls. superscedes_fld cls fld) hp then Some hp
      else (let (was_scheduled, hp1) =
                  (if hp = [] then (False, hp)
                   else (let (res, cls) = schedule_fld fld (hp ! peek hp) in (res, hp[peek hp := cls])))
            in if was_scheduled then Some hp1
               else (let (res, new_class) = schedule_fld fld classroom_new
                     in if res then Some (hp1 @ [new_class]) else None)))"

definition schedule_structures ::
    "(classroom list \<Rightarrow> nat) \<Rightarrow> (classroom list \<Rightarrow> classroom list) \<Rightarrow> lowered_field list \<Rightarrow> ctype list option" where
  "schedule_structures peek drain flds =
     map_option (\<lambda>hp. map (\<lambda>cls. CStructure (scheduled cls)) (drain hp))
       (fold_opt (schedule_one peek) (sort_key byte_offset flds) [])"

section \<open>One field after the other\<close>

text \<open>The test for fields that another one contains never succeeds: it looks only at fields that
  start at or after the given one and asks for one that starts before it.\<close>

lemma superscedes_fld_never: "\<not> superscedes_fld cls fld"
  by (auto simp: superscedes_fld_def list_ex_iff)

abbreviation field_end :: "lowered_field \<Rightarrow> nat" where
  "field_end \<equiv> compute_fld_upper_bound_exclusive"

lemma field_end_ge [simp]: "byte_offset f \<le> field_end f"
  by (simp add: compute_fld_upper_bound_exclusive_def compute_upper_bound_exclusive_def)

definition ends_before :: "lowered_field \<Rightarrow> lowered_field \<Rightarrow> bool" where
  "ends_before f g \<longleftrightarrow> field_end f \<le> byte_offset g"

definition covers :: "nat \<Rightarrow> lowered_field \<Rightarrow> bool" where
  "covers x f \<longleftrightarrow> byte_offset f \<le> x \<and> x < field_end f"

definition depth :: "lowered_field multiset \<Rightarrow> nat \<Rightarrow> nat" where
  "depth M x = size (filter_mset (covers x) M)"

lemma depth_add [simp]: "depth (M + N) x = depth M x + depth N x"
  by (simp add: depth_def)

lemma depth_add_mset [simp]: "depth (add_mset f M) x = (if covers x f then Suc (depth M x) else depth M x)"
  by (simp add: depth_def)

lemma filter_mset_none: "filter_mset P M = {#} \<longleftrightarrow> (\<forall>x \<in># M. \<not> P x)"
  by (induction M) auto

lemma depth_le_one: "sorted_wrt ends_before fs \<Longrightarrow> depth (mset fs) x \<le> 1"
proof (induction fs)
  case (Cons f fs)
  show ?case
  proof (cases "covers x f")
    case True
    then have "\<forall>g \<in> set fs. \<not> covers x g" using Cons.prems by (auto simp: covers_def ends_before_def)
    then have "filter_mset (covers x) (mset fs) = {#}" by (auto simp: filter_mset_none)
    then show ?thesis using True by (simp add: depth_def)
  qed (use Cons in \<open>simp add: depth_def\<close>)
qed (simp add: depth_def)

definition room_ok :: "classroom \<Rightarrow> bool" where
  "room_ok cls \<longleftrightarrow> scheduled cls \<noteq> [] \<and> sorted_wrt ends_before (scheduled cls)"

lemma sorted_wrt_ends_last:
  "sorted_wrt ends_before fs \<Longrightarrow> g \<in> set fs \<Longrightarrow> field_end g \<le> field_end (last fs)"
proof (induction fs)
  case (Cons f fs)
  show ?case
  proof (cases "fs = []")
    case False
    then have "field_end f \<le> byte_offset (last fs)" using Cons.prems(1) by (simp add: ends_before_def)
    then show ?thesis using Cons False field_end_ge [of "last fs"] by (auto simp: order_trans)
  qed (use Cons in simp)
qed simp

lemma schedule_fld_ok:
  assumes "room_ok cls" "get_next_schedulable_offset cls \<le> byte_offset fld"
  shows "room_ok (snd (schedule_fld fld cls))"
  using assms sorted_wrt_ends_last [of "scheduled cls"]
  by (auto simp: room_ok_def schedule_fld_def get_next_schedulable_offset_def sorted_wrt_append ends_before_def
      intro: order_trans)

definition contents :: "classroom list \<Rightarrow> lowered_field multiset" where
  "contents hp = (\<Sum>cls \<leftarrow> hp. mset (scheduled cls))"

lemma contents_simps [simp]:
  "contents [] = {#}" "contents (cls # hp) = mset (scheduled cls) + contents hp" "contents (hp @ hq) = contents hp + contents hq"
  by (simp_all add: contents_def)

lemma contents_update:
  assumes "i < length hp" "scheduled cls = scheduled (hp ! i) @ [fld]"
  shows "contents (hp[i := cls]) = add_mset fld (contents hp)"
  using assms by (induction hp arbitrary: i) (auto split: nat.splits)

lemma depth_contents_le: "\<forall>cls \<in> set hp. room_ok cls \<Longrightarrow> depth (contents hp) x \<le> length hp"
proof (induction hp)
  case (Cons cls hp)
  then show ?case using depth_le_one [of "scheduled cls" x] by (auto simp: room_ok_def)
qed (simp add: depth_def)

text \<open>When no structure ends early enough, each of them has a field that covers the offset.\<close>

lemma depth_all_busy:
  assumes "\<forall>cls \<in> set hp. room_ok cls \<and> o' < get_next_schedulable_offset cls"
    and "\<forall>f \<in># contents hp. byte_offset f \<le> o'"
  shows "length hp \<le> depth (contents hp) o'"
  using assms
proof (induction hp)
  case (Cons cls hp)
  let ?f = "last (scheduled cls)"
  have "?f \<in># contents (cls # hp)" using Cons.prems(1) by (simp add: room_ok_def)
  then have "covers o' ?f" using Cons.prems by (auto simp: covers_def get_next_schedulable_offset_def room_ok_def)
  moreover have "?f \<in># mset (scheduled cls)" using Cons.prems(1) by (simp add: room_ok_def)
  ultimately have "filter_mset (covers o') (mset (scheduled cls)) \<noteq> {#}" unfolding filter_mset_none by blast
  then have "1 \<le> depth (mset (scheduled cls)) o'" unfolding depth_def nonempty_has_size by linarith
  moreover have "length hp \<le> depth (contents hp) o'" using Cons.prems by (intro Cons.IH) auto
  ultimately show ?case by simp
qed simp

section \<open>All fields\<close>

definition tight :: "classroom list \<Rightarrow> bool" where
  "tight hp \<longleftrightarrow> (hp \<noteq> [] \<longrightarrow> (\<exists>x. depth (contents hp) x = length hp))"

lemma schedule_one_step:
  assumes peek: "is_peek peek" and hp: "\<forall>cls \<in> set hp. room_ok cls"
  obtains hp' where "schedule_one peek fld hp = Some hp'" "\<forall>cls \<in> set hp'. room_ok cls"
    "contents hp' = add_mset fld (contents hp)"
    "tight hp \<longrightarrow> 8 \<le> bit_sz fld \<longrightarrow> (\<forall>f \<in># contents hp. byte_offset f \<le> byte_offset fld) \<longrightarrow> tight hp'"
proof -
  have never: "\<not> list_ex (\<lambda>cls. superscedes_fld cls fld) hp" by (simp add: list_ex_iff superscedes_fld_never)
  let ?new = "\<lparr>scheduled = [fld], covering = [(byte_offset fld, bit_sz fld)]\<rparr>"
  have new: "schedule_fld fld classroom_new = (True, ?new)" "room_ok ?new"
    by (simp_all add: schedule_fld_def classroom_new_def get_next_schedulable_offset_def room_ok_def)
  show thesis
  proof (cases "hp \<noteq> [] \<and> get_next_schedulable_offset (hp ! peek hp) \<le> byte_offset fld")
    case True
    obtain cls where res: "schedule_fld fld (hp ! peek hp) = (True, cls)" "scheduled cls = scheduled (hp ! peek hp) @ [fld]"
      using True by (auto simp: schedule_fld_def)
    have i: "peek hp < length hp" using True peek by (auto simp: is_peek_def)
    have old: "room_ok (hp ! peek hp)" using hp i by auto
    have run: "schedule_one peek fld hp = Some (hp[peek hp := cls])"
      unfolding schedule_one_def if_not_P [OF never] using True by (simp add: res(1))
    have ok: "\<forall>cls \<in> set (hp[peek hp := cls]). room_ok cls"
      using hp schedule_fld_ok [OF old, of fld, unfolded res(1)] True set_update_subset_insert by fastforce
    note cont = contents_update [OF i res(2)]
    have "tight (hp[peek hp := cls])" if t: "tight hp"
    proof -
      obtain x where x: "depth (contents hp) x = length hp" using t True by (auto simp: tight_def)
      have "length hp \<le> depth (contents (hp[peek hp := cls])) x" unfolding cont using x by (simp add: depth_def)
      then show ?thesis using depth_contents_le [OF ok, of x] by (auto simp: tight_def intro!: exI [of _ x])
    qed
    then show thesis using that [OF run ok cont] by blast
  next
    case False
    have run: "schedule_one peek fld hp = Some (hp @ [?new])"
      unfolding schedule_one_def if_not_P [OF never] using False new(1) by (auto simp: schedule_fld_def Let_def)
    have ok: "\<forall>cls \<in> set (hp @ [?new]). room_ok cls" using hp new(2) by auto
    have cont: "contents (hp @ [?new]) = add_mset fld (contents hp)" by simp
    have "tight (hp @ [?new])" if big: "8 \<le> bit_sz fld" and early: "\<forall>f \<in># contents hp. byte_offset f \<le> byte_offset fld"
    proof -
      have busy: "\<forall>cls \<in> set hp. room_ok cls \<and> byte_offset fld < get_next_schedulable_offset cls"
        using False hp peek unfolding is_peek_def by (metis length_0_conv less_zeroE list.size(3) in_set_conv_nth not_le order_less_le_trans)
      have "0 < bit_sz fld div 8" using big by (simp add: div_greater_zero_iff)
      then have "covers (byte_offset fld) fld"
        by (simp add: covers_def compute_fld_upper_bound_exclusive_def compute_upper_bound_exclusive_def)
      then have "length (hp @ [?new]) \<le> depth (contents (hp @ [?new])) (byte_offset fld)"
        using depth_all_busy [OF busy early] by simp
      then show ?thesis using depth_contents_le [OF ok, of "byte_offset fld"] unfolding tight_def by (intro impI exI) (rule antisym)
    qed
    then show thesis using that [OF run ok cont] by blast
  qed
qed

lemma schedule_all:
  assumes peek: "is_peek peek"
  shows "\<forall>cls \<in> set hp. room_ok cls \<Longrightarrow> \<exists>hp'. fold_opt (schedule_one peek) fs hp = Some hp'
    \<and> (\<forall>cls \<in> set hp'. room_ok cls) \<and> contents hp' = contents hp + mset fs
    \<and> (tight hp \<longrightarrow> (\<forall>f \<in> set fs. 8 \<le> bit_sz f) \<longrightarrow> sorted (map byte_offset fs)
       \<longrightarrow> (\<forall>f \<in># contents hp. \<forall>g \<in> set fs. byte_offset f \<le> byte_offset g) \<longrightarrow> tight hp')"
proof (induction fs arbitrary: hp)
  case (Cons fld fs)
  obtain hp1 where 1: "schedule_one peek fld hp = Some hp1" "\<forall>cls \<in> set hp1. room_ok cls"
    "contents hp1 = add_mset fld (contents hp)"
    "tight hp \<longrightarrow> 8 \<le> bit_sz fld \<longrightarrow> (\<forall>f \<in># contents hp. byte_offset f \<le> byte_offset fld) \<longrightarrow> tight hp1"
    by (rule schedule_one_step [OF peek Cons.prems, of fld])
  obtain hp' where 2: "fold_opt (schedule_one peek) fs hp1 = Some hp'" "\<forall>cls \<in> set hp'. room_ok cls"
    "contents hp' = contents hp1 + mset fs"
    "tight hp1 \<longrightarrow> (\<forall>f \<in> set fs. 8 \<le> bit_sz f) \<longrightarrow> sorted (map byte_offset fs)
       \<longrightarrow> (\<forall>f \<in># contents hp1. \<forall>g \<in> set fs. byte_offset f \<le> byte_offset g) \<longrightarrow> tight hp'"
    using Cons.IH [OF 1(2)] by (elim exE conjE) (rule that)
  show ?case
    using 1 2 by (intro exI [of _ hp'] conjI impI) (simp_all add: 1(3))
qed simp

text \<open>The field lists of structures.\<close>

fun structure_fields :: "ctype \<Rightarrow> lowered_field list" where
  "structure_fields (CStructure fs) = fs"
| "structure_fields _ = []"

lemma contents_mset: "contents hp = (\<Sum>cls \<in># mset hp. mset (scheduled cls))"
  by (induction hp) auto

lemma sum_mset_drain: "is_drain drain \<Longrightarrow> contents (drain hp) = contents hp"
  by (simp add: contents_mset is_drain_def)

lemma ball_empty_rooms: "\<forall>cls \<in> set []. room_ok cls"
  by simp

lemma schedule_structures_spec:
  assumes peek: "is_peek peek" and drain: "is_drain drain"
  shows "\<exists>hp. schedule_structures peek drain flds = Some (map (\<lambda>cls. CStructure (scheduled cls)) hp)
    \<and> (\<forall>cls \<in> set hp. room_ok cls) \<and> contents hp = mset flds
    \<and> ((\<forall>f \<in> set flds. 8 \<le> bit_sz f) \<longrightarrow> tight hp)"
proof -
  obtain hp where hp: "fold_opt (schedule_one peek) (sort_key byte_offset flds) [] = Some hp"
    "\<forall>cls \<in> set hp. room_ok cls" "contents hp = contents [] + mset (sort_key byte_offset flds)"
    "tight [] \<longrightarrow> (\<forall>f \<in> set (sort_key byte_offset flds). 8 \<le> bit_sz f) \<longrightarrow> sorted (map byte_offset (sort_key byte_offset flds))
       \<longrightarrow> (\<forall>f \<in># contents []. \<forall>g \<in> set (sort_key byte_offset flds). byte_offset f \<le> byte_offset g) \<longrightarrow> tight hp"
    using schedule_all [OF peek, of "[]" "sort_key byte_offset flds", OF ball_empty_rooms] by (elim exE conjE) (rule that)
  have m: "mset (drain hp) = mset hp" using drain by (simp add: is_drain_def)
  have tight: "tight (drain hp) \<longleftrightarrow> tight hp"
    unfolding tight_def sum_mset_drain [OF drain] mset_eq_length [OF m] using m by (metis mset_zero_iff)
  have "schedule_structures peek drain flds = Some (map (\<lambda>cls. CStructure (scheduled cls)) (drain hp))"
    by (simp add: schedule_structures_def hp(1))
  moreover have "\<forall>cls \<in> set (drain hp). room_ok cls" using hp(2) m by (metis mset_eq_setD)
  moreover have "contents (drain hp) = mset flds" using hp(3) by (simp add: sum_mset_drain [OF drain])
  moreover have "(\<forall>f \<in> set flds. 8 \<le> bit_sz f) \<longrightarrow> tight (drain hp)"
    using hp(4) by (simp add: tight) (simp add: tight_def)
  ultimately show ?thesis by blast
qed

lemma scheduled_fields:
  assumes "is_peek peek" "is_drain drain"
  shows "\<exists>structs. schedule_structures peek drain flds = Some structs
    \<and> (\<Sum>s \<leftarrow> structs. mset (structure_fields s)) = mset flds
    \<and> (\<forall>s \<in> set structs. \<exists>fs. s = CStructure fs \<and> fs \<noteq> [] \<and> sorted_wrt ends_before fs)"
proof -
  obtain hp where hp: "schedule_structures peek drain flds = Some (map (\<lambda>cls. CStructure (scheduled cls)) hp)"
    "\<forall>cls \<in> set hp. room_ok cls" "contents hp = mset flds"
    using schedule_structures_spec [OF assms, of flds] by blast
  have "(\<Sum>s \<leftarrow> map (\<lambda>cls. CStructure (scheduled cls)) hp. mset (structure_fields s)) = contents hp"
    by (simp add: contents_def o_def)
  then show ?thesis using hp by (auto simp: room_ok_def)
qed

lemma in_sum_list_mset: "(\<Sum>s \<leftarrow> ss. mset (f s)) = mset xs \<Longrightarrow> s \<in> set ss \<Longrightarrow> set (f s) \<subseteq> set xs"
proof -
  assume sum: "(\<Sum>s \<leftarrow> ss. mset (f s)) = mset xs" and s: "s \<in> set ss"
  have "set_mset (mset (f s)) \<subseteq> set_mset (\<Sum>s \<leftarrow> ss. mset (f s))" using s by (induction ss) auto
  then show ?thesis unfolding sum by simp
qed

section \<open>Properties\<close>



text \<open>The first of the structures that end first, and the order of insertion.\<close>

definition first_peek :: "classroom list \<Rightarrow> nat" where
  "first_peek hp = the (find (\<lambda>i. \<forall>cls \<in> set hp. get_next_schedulable_offset (hp ! i) \<le> get_next_schedulable_offset cls) [0..<length hp])"

lemma first_peek: "is_peek first_peek"
  unfolding is_peek_def
proof (intro allI impI)
  fix hp :: "classroom list" assume "hp \<noteq> []"
  let ?P = "\<lambda>i. \<forall>cls \<in> set hp. get_next_schedulable_offset (hp ! i) \<le> get_next_schedulable_offset cls"
  have "Min (get_next_schedulable_offset ` set hp) \<in> get_next_schedulable_offset ` set hp" using \<open>hp \<noteq> []\<close> by (intro Min_in) auto
  then obtain cls where "cls \<in> set hp" "get_next_schedulable_offset cls = Min (get_next_schedulable_offset ` set hp)" by auto
  then obtain i where i: "i < length hp" "?P i" by (metis List.finite_set Min_le finite_imageI imageI in_set_conv_nth)
  then have "find ?P [0..<length hp] \<noteq> None" by (auto simp: find_None_iff)
  then obtain j where j: "find ?P [0..<length hp] = Some j" by blast
  then have "first_peek hp = j" by (simp add: first_peek_def)
  then show "first_peek hp < length hp \<and> ?P (first_peek hp)" using j by (auto simp: find_Some_iff)
qed

definition demo_fields :: "lowered_field list" where
  "demo_fields = [\<lparr>byte_offset = 8, bit_sz = 32, fld_type = 1\<rparr>, \<lparr>byte_offset = 0, bit_sz = 64, fld_type = 2\<rparr>,
     \<lparr>byte_offset = 4, bit_sz = 32, fld_type = 3\<rparr>]"



end
