(* ===== verification/Lowering.thy ===== *)
theory Lowering
  imports FieldSchedule SketchBuilder HashOrder
begin

text \<open>
  Lowering a sketch graph to C types (\<^verbatim>\<open>LoweringContext\<close> of
  \<^verbatim>\<open>src/lowering/mod.rs\<close>).  Every node gets a type: a primitive for a leaf, and otherwise
  the structures of its fields, pointers to its load and store targets, a function of its parameters
  and results, and aliases for fields at offset zero, in a union when there are several.  Types refer to each other by
  fresh numbers and to nodes by aliases.

  The name of a lattice element, the size of an argument and the order of hash iteration are
  arguments; the record \<open>lower_lib\<close> collects them with the graph library and the heap.
\<close>

section \<open>State\<close>

record ('g, 't, 'tid, 'arg) lower_lib =
  ll_pg :: "('g, 't lattice_bounds, field_label) petgraph"
  ll_elem_name :: "'t \<Rightarrow> string"
  ll_arg_bits :: "'arg \<Rightarrow> nat"
  ll_tord :: "'tid set \<Rightarrow> 'tid list"
  ll_peek :: "classroom list \<Rightarrow> nat"
  ll_drain :: "classroom list \<Rightarrow> classroom list"

record ('g, 't, 'tid, 'arg) lowering_context =
  lc_grph :: "('g, 't lattice_bounds, 'tid) sketch_graph"
  out_params :: "nat \<Rightarrow> 'arg list option"
  default_lattice_elem :: "'t lattice_bounds"
  ephemeral_types :: "type_id \<Rightarrow> ctype option"
  cached_primitives :: "string \<Rightarrow> type_id option"
  curr_id :: nat

abbreviation lc_graph :: "('g, 't, 'tid, 'arg) lowering_context \<Rightarrow> 'g" where
  "lc_graph c \<equiv> mg_grph (quotient_graph (lc_grph c))"

definition lowering_context_new ::
    "('g, 't, 'tid, 'arg) lower_lib \<Rightarrow> ('g, 't lattice_bounds, 'tid) sketch_graph \<Rightarrow> ('tid \<Rightarrow> nat option) \<Rightarrow>
     ('tid \<Rightarrow> 'arg list option) \<Rightarrow> 't lattice_bounds \<Rightarrow> ('g, 't, 'tid, 'arg) lowering_context" where
  "lowering_context_new lib grph tid_to_node_index out_param_mapping dflt =
     \<lparr>lc_grph = grph,
      out_params = fold (\<lambda>k m. case (tid_to_node_index k, out_param_mapping k) of
          (Some nd_idx, Some v) \<Rightarrow> m(nd_idx \<mapsto> v) | _ \<Rightarrow> m) (ll_tord lib (dom out_param_mapping)) Map.empty,
      default_lattice_elem = dflt,
      ephemeral_types = Map.empty,
      cached_primitives = Map.empty,
      curr_id = fold max (pg_node_indices (ll_pg lib) (mg_grph (quotient_graph grph))) 0 + 1\<rparr>"

definition add_type ::
    "ctype \<Rightarrow> ('g, 't, 'tid, 'arg) lowering_context \<Rightarrow> type_id \<times> ('g, 't, 'tid, 'arg) lowering_context" where
  "add_type ty c =
     (curr_id c, c\<lparr>curr_id := curr_id c + 1, ephemeral_types := (ephemeral_types c)(curr_id c \<mapsto> ty)\<rparr>)"

text \<open>A closure that changes the context, applied to the elements of a list in order.\<close>

fun map_ctx :: "('a \<Rightarrow> 's \<Rightarrow> 'b \<times> 's) \<Rightarrow> 'a list \<Rightarrow> 's \<Rightarrow> 'b list \<times> 's" where
  "map_ctx f [] c = ([], c)"
| "map_ctx f (x # xs) c = (let (y, c1) = f x c; (ys, c2) = map_ctx f xs c1 in (y # ys, c2))"

section \<open>The types of a node\<close>

definition has_non_zero_fields :: "('g, 'w, field_label) petgraph \<Rightarrow> 'g \<Rightarrow> nat \<Rightarrow> bool" where
  "has_non_zero_fields G g nd =
     list_ex (\<lambda>(_, _, _, w). case w of Field fld \<Rightarrow> offset fld \<noteq> 0 | _ \<Rightarrow> False) (edges_directed G g nd Outgoing)"

definition build_alias_types :: "('g, 'w, field_label) petgraph \<Rightarrow> 'g \<Rightarrow> nat \<Rightarrow> ctype list" where
  "build_alias_types G g nd =
     (if has_non_zero_fields G g nd then []
      else map CAlias (sorted_list_of_set
        ((\<lambda>(_, _, tgt, _). tgt) ` set (filter (\<lambda>(_, _, _, w). case w of Field _ \<Rightarrow> True | _ \<Rightarrow> False) (edges_directed G g nd Outgoing)))))"

definition lower_field_edge ::
    "field_label edge_ref \<Rightarrow> ('g, 't, 'tid, 'arg) lowering_context \<Rightarrow>
     lowered_field option \<times> ('g, 't, 'tid, 'arg) lowering_context" where
  "lower_field_edge e c =
     (case e of (_, _, tgt, Field fld) \<Rightarrow> (let (ty_id, c1) = add_type (CAlias tgt) c in (translate_field fld ty_id, c1))
      | _ \<Rightarrow> (None, c))"

definition build_structure_types ::
    "('g, 't, 'tid, 'arg) lower_lib \<Rightarrow> nat \<Rightarrow> ('g, 't, 'tid, 'arg) lowering_context \<Rightarrow>
     (ctype list \<times> ('g, 't, 'tid, 'arg) lowering_context) option" where
  "build_structure_types lib nd c =
     (if \<not> has_non_zero_fields (ll_pg lib) (lc_graph c) nd then Some ([], c)
      else (let (flds, c1) = map_ctx lower_field_edge (edges_directed (ll_pg lib) (lc_graph c) nd Outgoing) c
            in map_option (\<lambda>structs. (structs, c1))
                 (schedule_structures (ll_peek lib) (ll_drain lib) (List.map_filter (\<lambda>f. f) flds))))"

definition build_terminal_type ::
    "('g, 't, 'tid, 'arg) lower_lib \<Rightarrow> 't lattice_bounds \<Rightarrow> ('g, 't, 'tid, 'arg) lowering_context \<Rightarrow>
     type_id \<times> ('g, 't, 'tid, 'arg) lowering_context" where
  "build_terminal_type lib nd_bounds c =
     (let nm = ll_elem_name lib (get_upper nd_bounds)
      in case cached_primitives c nm of
           Some ty_id \<Rightarrow> (ty_id, c)
         | None \<Rightarrow> (let (res, c1) = add_type (CPrimitive nm) c
                    in (res, c1\<lparr>cached_primitives := (cached_primitives c1)(nm \<mapsto> res)\<rparr>)))"

definition build_pointer_types ::
    "('g, 't, 'tid, 'arg) lower_lib \<Rightarrow> nat \<Rightarrow> ('g, 't, 'tid, 'arg) lowering_context \<Rightarrow>
     ctype list \<times> ('g, 't, 'tid, 'arg) lowering_context" where
  "build_pointer_types lib nd c =
     map_ctx (\<lambda>tgt c. let (ty_id, c1) = add_type (CAlias tgt) c in (CPointer ty_id, c1))
       (sorted_list_of_set ((\<lambda>(_, _, tgt, _). tgt) ` set (filter (\<lambda>(_, _, _, w). w = Load \<or> w = Store)
          (edges_directed (ll_pg lib) (lc_graph c) nd Outgoing)))) c"

definition params_by_index ::
    "(field_label \<Rightarrow> nat option) \<Rightarrow> field_label edge_ref list \<Rightarrow> (nat \<times> nat list) list" where
  "params_by_index get_label_idx es =
     fold (\<lambda>(_, _, tgt, w) acc. case get_label_idx w of
         Some idx \<Rightarrow> bt_insert idx (bt_get_or [] acc idx @ [tgt]) acc | None \<Rightarrow> acc) es []"

definition lower_parameter ::
    "nat \<times> nat list \<Rightarrow> ('g, 't, 'tid, 'arg) lowering_context \<Rightarrow> parameter option \<times> ('g, 't, 'tid, 'arg) lowering_context" where
  "lower_parameter it c =
     (case it of
        (idx, []) \<Rightarrow> (None, c)
      | (idx, [ty]) \<Rightarrow> (let (ty_id, c1) = add_type (CAlias ty) c in (Some \<lparr>param_index = idx, param_type = ty_id\<rparr>, c1))
      | (idx, types) \<Rightarrow>
          (let (ids, c1) = map_ctx (\<lambda>x. add_type (CAlias x)) types c;
               (ty_id, c2) = add_type (CUnion (set ids)) c1
           in (Some \<lparr>param_index = idx, param_type = ty_id\<rparr>, c2)))"

definition collect_params ::
    "('g, 't, 'tid, 'arg) lower_lib \<Rightarrow> (field_label \<Rightarrow> nat option) \<Rightarrow> nat \<Rightarrow> ('g, 't, 'tid, 'arg) lowering_context \<Rightarrow>
     parameter list \<times> ('g, 't, 'tid, 'arg) lowering_context" where
  "collect_params lib get_label_idx nd c =
     (let (ps, c1) = map_ctx lower_parameter (params_by_index get_label_idx (edges_directed (ll_pg lib) (lc_graph c) nd Outgoing)) c
      in (List.map_filter (\<lambda>p. p) ps, c1))"

fun in_index :: "field_label \<Rightarrow> nat option" where
  "in_index (In idx) = Some idx"
| "in_index _ = None"

fun out_index :: "field_label \<Rightarrow> nat option" where
  "out_index (Out idx) = Some idx"
| "out_index _ = None"

fun return_fields ::
    "('g, 't, 'tid, 'arg) lower_lib \<Rightarrow> (nat \<Rightarrow> type_id option) \<Rightarrow> 't lattice_bounds \<Rightarrow> nat \<Rightarrow> nat \<Rightarrow> 'arg list \<Rightarrow>
     ('g, 't, 'tid, 'arg) lowering_context \<Rightarrow> lowered_field list \<times> ('g, 't, 'tid, 'arg) lowering_context" where
  "return_fields lib mp dflt i curr_off [] c = ([], c)"
| "return_fields lib mp dflt i curr_off (arg # args) c =
     (let (ty_id, c1) = (case mp i of Some ty_id \<Rightarrow> (ty_id, c) | None \<Rightarrow> build_terminal_type lib dflt c);
          (flds, c2) = return_fields lib mp dflt (i + 1) (curr_off + ll_arg_bits lib arg div 8) args c1
      in (\<lparr>byte_offset = curr_off, bit_sz = ll_arg_bits lib arg, fld_type = ty_id\<rparr> # flds, c2))"

definition build_return_type_structure ::
    "('g, 't, 'tid, 'arg) lower_lib \<Rightarrow> 'arg list \<Rightarrow> parameter list \<Rightarrow> 't lattice_bounds \<Rightarrow> ('g, 't, 'tid, 'arg) lowering_context \<Rightarrow>
     ctype \<times> ('g, 't, 'tid, 'arg) lowering_context" where
  "build_return_type_structure lib orig_param_locs params dflt c =
     (let mp = map_of (rev (map (\<lambda>x. (param_index x, param_type x)) params));
          (flds, c1) = return_fields lib mp dflt 0 0 orig_param_locs c
      in (CStructure flds, c1))"

definition build_function_types ::
    "('g, 't, 'tid, 'arg) lower_lib \<Rightarrow> nat \<Rightarrow> ('g, 't, 'tid, 'arg) lowering_context \<Rightarrow>
     ctype list \<times> ('g, 't, 'tid, 'arg) lowering_context" where
  "build_function_types lib nd c =
     (let (ins, c1) = collect_params lib in_index nd c;
          (outs0, c2) = collect_params lib out_index nd c1;
          outs = sort_key param_index outs0;
          curr_orig_params = (case out_params c2 nd of Some args \<Rightarrow> args | None \<Rightarrow> []);
          (oparam, c4) = (if length outs > 1 \<or> length curr_orig_params > 1
             then (let (ret_struct, c3) = build_return_type_structure lib curr_orig_params outs (default_lattice_elem c2) c2;
                       (ty_id, c4) = add_type ret_struct c3 in (Some ty_id, c4))
             else (case outs of [] \<Rightarrow> None | x # _ \<Rightarrow> Some (param_type x), c2))
      in (if ins \<noteq> [] \<or> outs \<noteq> [] then [CFunction ins oparam] else [], c4))"

definition build_type ::
    "('g, 't, 'tid, 'arg) lower_lib \<Rightarrow> nat \<Rightarrow> ('g, 't, 'tid, 'arg) lowering_context \<Rightarrow>
     (type_id \<times> ('g, 't, 'tid, 'arg) lowering_context) option" where
  "build_type lib nd c =
     (if edges_directed (ll_pg lib) (lc_graph c) nd Outgoing = []
      then map_option (\<lambda>bounds. build_terminal_type lib bounds c) (pg_node_weight (ll_pg lib) (lc_graph c) nd)
      else do { (struct_types, c1) \<leftarrow> build_structure_types lib nd c;
                let alias_types = build_alias_types (ll_pg lib) (lc_graph c1) nd;
                    (pointer_types, c2) = build_pointer_types lib nd c1;
                    (function_types, c3) = build_function_types lib nd c2;
                    total_types = struct_types @ alias_types @ pointer_types @ function_types
                in case total_types of
                     [ty] \<Rightarrow> Some (add_type ty c3)
                   | _ \<Rightarrow> (let (ids, c4) = map_ctx add_type total_types c3 in Some (add_type (CUnion (set ids)) c4)) })"

definition collect_ctypes ::
    "('g, 't, 'tid, 'arg) lower_lib \<Rightarrow> ('g, 't, 'tid, 'arg) lowering_context \<Rightarrow>
     ((nat \<Rightarrow> type_id option) \<times> (type_id \<Rightarrow> ctype option)) option" where
  "collect_ctypes lib c =
     map_option (\<lambda>(types, c'). (types, ephemeral_types c'))
       (fold_opt (\<lambda>nd (types, c). map_option (\<lambda>(ty_id, c'). (types(nd \<mapsto> ty_id), c')) (build_type lib nd c))
         (pg_node_indices (ll_pg lib) (lc_graph c)) (Map.empty, c))"

section \<open>References between types\<close>

fun type_refs :: "ctype \<Rightarrow> type_id set" where
  "type_refs (CPrimitive _) = {}"
| "type_refs (CPointer t) = {t}"
| "type_refs (CAlias _) = {}"
| "type_refs (CStructure fs) = fld_type ` set fs"
| "type_refs (CFunction ps r) = param_type ` set ps \<union> set_option r"
| "type_refs (CUnion S) = S"

fun alias_targets :: "ctype \<Rightarrow> nat set" where
  "alias_targets (CAlias n) = {n}"
| "alias_targets _ = {}"

text \<open>The invariant of the context: the numbers in use are an interval, every type refers to smaller
  ones of it and to nodes of the graph, and the cache names primitives.\<close>

definition linv :: "nat \<Rightarrow> nat set \<Rightarrow> ('g, 't, 'tid, 'arg) lowering_context \<Rightarrow> bool" where
  "linv base N c \<longleftrightarrow> base \<le> curr_id c \<and> dom (ephemeral_types c) = {base..<curr_id c}
     \<and> (\<forall>i ty. ephemeral_types c i = Some ty \<longrightarrow> type_refs ty \<subseteq> {base..<i} \<and> alias_targets ty \<subseteq> N)
     \<and> (\<forall>nm i. cached_primitives c nm = Some i \<longrightarrow> ephemeral_types c i = Some (CPrimitive nm))"

definition extends_ctx :: "('g, 't, 'tid, 'arg) lowering_context \<Rightarrow> ('g, 't, 'tid, 'arg) lowering_context \<Rightarrow> bool" where
  "extends_ctx c c' \<longleftrightarrow> ephemeral_types c \<subseteq>\<^sub>m ephemeral_types c' \<and> curr_id c \<le> curr_id c' \<and> lc_grph c' = lc_grph c
     \<and> out_params c' = out_params c \<and> default_lattice_elem c' = default_lattice_elem c"

definition lowers :: "nat \<Rightarrow> nat set \<Rightarrow> ('g, 't, 'tid, 'arg) lowering_context \<Rightarrow> ('g, 't, 'tid, 'arg) lowering_context \<Rightarrow> bool" where
  "lowers base N c c' \<longleftrightarrow> linv base N c' \<and> extends_ctx c c'"

definition id_ok :: "nat \<Rightarrow> type_id \<Rightarrow> ('g, 't, 'tid, 'arg) lowering_context \<Rightarrow> bool" where
  "id_ok base i c \<longleftrightarrow> base \<le> i \<and> i < curr_id c"

definition type_ok :: "nat \<Rightarrow> nat set \<Rightarrow> ctype \<Rightarrow> ('g, 't, 'tid, 'arg) lowering_context \<Rightarrow> bool" where
  "type_ok base N ty c \<longleftrightarrow> type_refs ty \<subseteq> {base..<curr_id c} \<and> alias_targets ty \<subseteq> N"

lemma lowers_refl: "linv base N c \<Longrightarrow> lowers base N c c"
  by (simp add: lowers_def extends_ctx_def)

lemma lowers_trans [trans]: "lowers base N c c1 \<Longrightarrow> lowers base N c1 c2 \<Longrightarrow> lowers base N c c2"
  by (auto simp: lowers_def extends_ctx_def intro: map_le_trans)

lemma lowersD:
  assumes "lowers base N c c'"
  shows "linv base N c'" "ephemeral_types c \<subseteq>\<^sub>m ephemeral_types c'" "curr_id c \<le> curr_id c'" "lc_grph c' = lc_grph c"
    "out_params c' = out_params c" "default_lattice_elem c' = default_lattice_elem c"
  using assms by (simp_all add: lowers_def extends_ctx_def)

lemma id_ok_mono: "id_ok base i c \<Longrightarrow> lowers base N c c' \<Longrightarrow> id_ok base i c'"
  using lowersD(3) [of base N c c'] by (auto simp: id_ok_def)

lemma type_ok_mono: "type_ok base N ty c \<Longrightarrow> lowers base N c c' \<Longrightarrow> type_ok base N ty c'"
  using lowersD(3) [of base N c c'] unfolding type_ok_def by (meson atLeastLessThan_subset_iff order_trans subset_trans ivl_subset order_refl)

lemma type_ok_simps [simp]:
  "type_ok base N (CPrimitive nm) c" "type_ok base N (CPointer i) c \<longleftrightarrow> id_ok base i c"
  "type_ok base N (CAlias n) c \<longleftrightarrow> n \<in> N" "type_ok base N (CStructure fs) c \<longleftrightarrow> (\<forall>f \<in> set fs. id_ok base (fld_type f) c)"
  "type_ok base N (CFunction ps r) c \<longleftrightarrow> (\<forall>p \<in> set ps. id_ok base (param_type p) c) \<and> (\<forall>i. r = Some i \<longrightarrow> id_ok base i c)"
  "type_ok base N (CUnion S) c \<longleftrightarrow> (\<forall>i \<in> S. id_ok base i c)"
  by (auto simp: type_ok_def id_ok_def)

section \<open>Every operation keeps the invariant\<close>

lemma add_type_ok:
  assumes c: "linv base N c" and ty: "type_ok base N ty c"
  shows "lowers base N c (snd (add_type ty c)) \<and> id_ok base (fst (add_type ty c)) (snd (add_type ty c))
    \<and> ephemeral_types (snd (add_type ty c)) (fst (add_type ty c)) = Some ty"
proof -
  have new: "ephemeral_types c (curr_id c) = None" using c by (auto simp: linv_def domIff)
  have dom: "dom ((ephemeral_types c)(curr_id c \<mapsto> ty)) = {base..<Suc (curr_id c)}"
    using c by (auto simp: linv_def)
  have "linv base N (snd (add_type ty c))"
    using c ty new unfolding linv_def add_type_def type_ok_def by (auto simp: dom simp del: dom_fun_upd)
  moreover have "ephemeral_types c \<subseteq>\<^sub>m (ephemeral_types c)(curr_id c \<mapsto> ty)" using new by (auto simp: map_le_def)
  ultimately show ?thesis using c by (simp add: lowers_def extends_ctx_def add_type_def id_ok_def linv_def)
qed

text \<open>A list of closure calls, when each of them keeps the invariant and what is shown of its results
  survives later calls.\<close>

lemma map_ctx_all2:
  assumes step: "\<And>x c. x \<in> set xs \<Longrightarrow> linv base N c \<Longrightarrow> lc_grph c = grph \<Longrightarrow> lowers base N c (snd (f x c)) \<and> P x (fst (f x c)) (snd (f x c))"
    and mono: "\<And>x y c c'. linv base N c \<Longrightarrow> P x y c \<Longrightarrow> lowers base N c c' \<Longrightarrow> P x y c'"
  shows "linv base N c \<Longrightarrow> lc_grph c = grph \<Longrightarrow>
    lowers base N c (snd (map_ctx f xs c)) \<and> list_all2 (\<lambda>x y. P x y (snd (map_ctx f xs c))) xs (fst (map_ctx f xs c))"
  using step
proof (induction xs arbitrary: c)
  case Nil
  then show ?case by (simp add: lowers_refl)
next
  case (Cons x xs)
  let ?c1 = "snd (f x c)"
  have 1: "lowers base N c ?c1" "P x (fst (f x c)) ?c1" using Cons.prems(3) [of x c] Cons.prems(1,2) by auto
  have 2: "lowers base N ?c1 (snd (map_ctx f xs ?c1))"
    "list_all2 (\<lambda>x y. P x y (snd (map_ctx f xs ?c1))) xs (fst (map_ctx f xs ?c1))"
    using Cons.IH [of ?c1] lowersD(1,4) [OF 1(1)] Cons.prems by auto
  show ?case
    using lowers_trans [OF 1(1) 2(1)] mono [OF lowersD(1) [OF 1(1)] 1(2) 2(1)] 2(2) by (auto simp: split_beta Let_def)
qed

lemma map_ctx_ok:
  assumes step: "\<And>x c. x \<in> set xs \<Longrightarrow> linv base N c \<Longrightarrow> lc_grph c = grph \<Longrightarrow> lowers base N c (snd (f x c)) \<and> P (fst (f x c)) (snd (f x c))"
    and mono: "\<And>y c c'. P y c \<Longrightarrow> lowers base N c c' \<Longrightarrow> P y c'"
    and c: "linv base N c" "lc_grph c = grph"
  shows "lowers base N c (snd (map_ctx f xs c)) \<and> (\<forall>y \<in> set (fst (map_ctx f xs c)). P y (snd (map_ctx f xs c)))"
proof -
  have "lowers base N c (snd (map_ctx f xs c)) \<and> list_all2 (\<lambda>_ y. P y (snd (map_ctx f xs c))) xs (fst (map_ctx f xs c))"
    by (rule map_ctx_all2 [where P = "\<lambda>_. P", OF step mono c])
  then show ?thesis unfolding list_all2_conv_all_nth by (metis in_set_conv_nth)
qed

lemma alias_ids_ok:
  assumes "linv base N c" "set xs \<subseteq> N"
  shows "lowers base N c (snd (map_ctx (\<lambda>x. add_type (CAlias x)) xs c))
    \<and> (\<forall>i \<in> set (fst (map_ctx (\<lambda>x. add_type (CAlias x)) xs c)). id_ok base i (snd (map_ctx (\<lambda>x. add_type (CAlias x)) xs c)))"
  by (rule map_ctx_ok [where grph = "lc_grph c" and P = "id_ok base"])
    (use assms add_type_ok id_ok_mono in \<open>fastforce+\<close>)

lemma map_ids_ok:
  assumes "linv base N c" "\<forall>ty \<in> set tys. type_ok base N ty c"
  shows "lowers base N c (snd (map_ctx add_type tys c)) \<and> (\<forall>i \<in> set (fst (map_ctx add_type tys c)). id_ok base i (snd (map_ctx add_type tys c)))"
  using assms
proof (induction tys arbitrary: c)
  case Nil
  then show ?case by (simp add: lowers_refl)
next
  case (Cons ty tys)
  let ?c1 = "snd (add_type ty c)"
  have 1: "lowers base N c ?c1" "id_ok base (fst (add_type ty c)) ?c1" using add_type_ok [OF Cons.prems(1)] Cons.prems(2) by auto
  have "\<forall>ty \<in> set tys. type_ok base N ty ?c1" using Cons.prems(2) type_ok_mono [OF _ 1(1)] by auto
  note 2 = Cons.IH [OF lowersD(1) [OF 1(1)] this]
  show ?case
    using lowers_trans [OF 1(1) conjunct1 [OF 2]] id_ok_mono [OF 1(2) conjunct1 [OF 2]] 2 by (auto simp: split_beta Let_def)
qed

lemma build_terminal_type_ok:
  assumes "linv base N c"
  shows "lowers base N c (snd (build_terminal_type lib b c)) \<and> id_ok base (fst (build_terminal_type lib b c)) (snd (build_terminal_type lib b c))
    \<and> ephemeral_types (snd (build_terminal_type lib b c)) (fst (build_terminal_type lib b c)) = Some (CPrimitive (ll_elem_name lib (get_upper b)))"
proof (cases "cached_primitives c (ll_elem_name lib (get_upper b))")
  case None
  let ?nm = "ll_elem_name lib (get_upper b)"
  note A = add_type_ok [OF assms, of "CPrimitive ?nm"]
  have "linv base N (snd (add_type (CPrimitive ?nm) c)\<lparr>cached_primitives :=
      (cached_primitives (snd (add_type (CPrimitive ?nm) c)))(?nm \<mapsto> fst (add_type (CPrimitive ?nm) c))\<rparr>)"
    using A lowersD(1) [of base N c "snd (add_type (CPrimitive ?nm) c)"] by (simp add: linv_def)
  then show ?thesis
    using A None by (simp add: build_terminal_type_def split_beta Let_def lowers_def extends_ctx_def id_ok_def)
next
  case (Some i)
  then have "ephemeral_types c i = Some (CPrimitive (ll_elem_name lib (get_upper b)))" using assms by (simp add: linv_def)
  moreover from this have "id_ok base i c" using assms unfolding linv_def id_ok_def by (metis atLeastLessThan_iff domI)
  ultimately show ?thesis using Some lowers_refl [OF assms] by (simp add: build_terminal_type_def)
qed

text \<open>The nodes that edges lead to.\<close>

definition targets_in :: "('g, 'w, field_label) petgraph \<Rightarrow> 'g \<Rightarrow> nat set \<Rightarrow> bool" where
  "targets_in G g N \<longleftrightarrow> (\<forall>nd i a b w. (i, a, b, w) \<in> set (edges_directed G g nd Outgoing) \<longrightarrow> b \<in> N)"

lemma targets_inD: "targets_in G g N \<Longrightarrow> (i, a, b, w) \<in> set (edges_directed G g nd Outgoing) \<Longrightarrow> b \<in> N"
  unfolding targets_in_def by blast

lemma targets_in_nodes:
  assumes "stable_digraph G ok" "ok g"
  shows "targets_in G g {n. pg_node_weight G g n \<noteq> None}"
  using stable_digraph.set_edges_directed [OF assms] stable_digraph.edge_ends [OF assms]
  unfolding targets_in_def by blast

lemma set_bt_insert_subset: "set (bt_insert k v m) \<subseteq> insert (k, v) (set m)"
  by (induction k v m rule: bt_insert.induct) auto

lemma build_structure_types_ok:
  assumes lib: "is_peek (ll_peek lib)" "is_drain (ll_drain lib)" and c: "linv base N c" and N: "targets_in (ll_pg lib) (lc_graph c) N"
  shows "\<exists>tys c'. build_structure_types lib nd c = Some (tys, c') \<and> lowers base N c c' \<and> (\<forall>ty \<in> set tys. type_ok base N ty c')"
proof (cases "has_non_zero_fields (ll_pg lib) (lc_graph c) nd")
  case True
  let ?es = "edges_directed (ll_pg lib) (lc_graph c) nd Outgoing"
  let ?P = "\<lambda>f c'. \<forall>fld. f = Some fld \<longrightarrow> id_ok base (fld_type fld) c'"
  have step: "lowers base N c1 (snd (lower_field_edge e c1)) \<and> ?P (fst (lower_field_edge e c1)) (snd (lower_field_edge e c1))"
    if "e \<in> set ?es" "linv base N c1" for e c1
  proof -
    obtain i a b w where e: "e = (i, a, b, w)" by (cases e)
    then have "b \<in> N" using targets_inD [OF N] that(1) by blast
    then show ?thesis
      using add_type_ok [OF that(2), of "CAlias b"] lowers_refl [OF that(2)]
      by (cases w) (auto simp: lower_field_edge_def e split_beta Let_def translate_field_def)
  qed
  obtain flds c1 where run: "map_ctx lower_field_edge ?es c = (flds, c1)" by fastforce
  have 1: "lowers base N c c1" "\<forall>f \<in> set flds. ?P f c1"
    using map_ctx_ok [where f = lower_field_edge and xs = ?es and P = ?P and grph = "lc_grph c", OF _ _ c refl]
      step id_ok_mono unfolding run by fastforce+
  obtain structs where structs: "schedule_structures (ll_peek lib) (ll_drain lib) (List.map_filter (\<lambda>f. f) flds) = Some structs"
    "(\<Sum>s \<leftarrow> structs. mset (structure_fields s)) = mset (List.map_filter (\<lambda>f. f) flds)"
    "\<forall>s \<in> set structs. \<exists>fs. s = CStructure fs"
    using scheduled_fields [OF lib, of "List.map_filter (\<lambda>f. f) flds"] by blast
  have "type_ok base N s c1" if s: "s \<in> set structs" for s
  proof -
    obtain fs where fs: "s = CStructure fs" using structs(3) s by blast
    have "set fs \<subseteq> set (List.map_filter (\<lambda>f. f) flds)"
      using s structs(2) unfolding fs
      using in_sum_list_mset [of structure_fields] by force
    then show ?thesis using 1(2) unfolding fs by (auto simp: List.map_filter_def)
  qed
  then show ?thesis using True run 1(1) structs(1) by (simp add: build_structure_types_def)
qed (use lowers_refl [OF c] in \<open>simp add: build_structure_types_def\<close>)

lemma build_alias_types_ok:
  assumes "targets_in (ll_pg lib) (lc_graph c) N"
  shows "\<forall>ty \<in> set (build_alias_types (ll_pg lib) (lc_graph c) nd). type_ok base N ty c'"
proof -
  have "b \<in> N" if "b \<in> (\<lambda>(_, _, tgt, _). tgt) ` set (filter P (edges_directed (ll_pg lib) (lc_graph c) nd Outgoing))" for b P
    using that targets_inD [OF assms] by auto
  then show ?thesis by (auto simp: build_alias_types_def simp del: image_iff)
qed

lemma build_pointer_types_ok:
  assumes c: "linv base N c" and N: "targets_in (ll_pg lib) (lc_graph c) N"
  shows "lowers base N c (snd (build_pointer_types lib nd c))
    \<and> (\<forall>ty \<in> set (fst (build_pointer_types lib nd c)). type_ok base N ty (snd (build_pointer_types lib nd c)))"
  unfolding build_pointer_types_def
proof (rule map_ctx_ok [where grph = "lc_grph c"], goal_cases)
  case (1 x c1)
  then have "x \<in> N" using targets_inD [OF N] by auto
  then show ?case using add_type_ok [OF 1(2), of "CAlias x"] by (simp add: split_beta Let_def)
qed (use c type_ok_mono in \<open>blast+\<close>)

lemma params_by_index_targets:
  assumes "\<forall>(i, a, b, w) \<in> set es. b \<in> N"
  shows "\<forall>(idx, ts) \<in> set (params_by_index f es). set ts \<subseteq> N"
proof -
  let ?ins = "\<lambda>(_, _, tgt, w) acc. case f w of Some idx \<Rightarrow> bt_insert idx (bt_get_or [] acc idx @ [tgt]) acc | None \<Rightarrow> acc"
  have "\<forall>(idx, ts) \<in> set (fold ?ins es acc). set ts \<subseteq> N" if "\<forall>(idx, ts) \<in> set acc. set ts \<subseteq> N" for acc
    using assms that
  proof (induction es arbitrary: acc)
    case (Cons e es)
    have "\<forall>(idx, ts) \<in> set (?ins e acc). set ts \<subseteq> N"
    proof -
      obtain i a b w where e: "e = (i, a, b, w)" by (cases e)
      have ins: "\<forall>(idx, ts) \<in> set (bt_insert k v acc). set ts \<subseteq> N" if "set v \<subseteq> N" for k v
        using set_bt_insert_subset [of k v acc] that Cons.prems(2) by fastforce
      have get: "set (bt_get_or [] acc k) \<subseteq> N" for k
      proof (cases "map_of acc k")
        case (Some ts)
        then show ?thesis using Cons.prems(2) map_of_SomeD [OF Some] by (auto simp: bt_get_or_def)
      qed (simp add: bt_get_or_def)
      have "b \<in> N" using Cons.prems(1) by (simp add: e)
      then have "\<forall>(idx, ts) \<in> set (bt_insert k (bt_get_or [] acc k @ [b]) acc). set ts \<subseteq> N" for k
        by (intro ins) (simp add: get)
      then show ?thesis using Cons.prems(2) by (simp add: e split: option.splits)
    qed
    then show ?case using Cons.IH [of "?ins e acc"] Cons.prems(1) by simp
  qed simp
  from this [of "[]"] show ?thesis unfolding params_by_index_def by simp
qed

lemma lower_parameter_ok:
  assumes "linv base N c" "set (snd it) \<subseteq> N"
  shows "lowers base N c (snd (lower_parameter it c))
    \<and> (\<forall>p. fst (lower_parameter it c) = Some p \<longrightarrow> id_ok base (param_type p) (snd (lower_parameter it c)))"
proof -
  obtain idx types where it: "it = (idx, types)" by fastforce
  let ?m = "map_ctx (\<lambda>x. add_type (CAlias x)) types c"
  have many: "lowers base N c (snd (add_type (CUnion (set (fst ?m))) (snd ?m)))
      \<and> id_ok base (fst (add_type (CUnion (set (fst ?m))) (snd ?m))) (snd (add_type (CUnion (set (fst ?m))) (snd ?m)))"
    using alias_ids_ok [OF assms(1), of types] assms(2) add_type_ok [of base N "snd ?m" "CUnion (set (fst ?m))"]
    by (auto simp: it dest: lowersD(1) intro: lowers_trans)
  show ?thesis
  proof (cases "\<exists>x y ys. types = x # y # ys")
    case True
    then show ?thesis using many unfolding it lower_parameter_def by (auto simp only: prod.case list.case split_beta Let_def fst_conv snd_conv parameter.select_convs option.inject) 
  next
    case False
    then consider "types = []" | x where "types = [x]" by (cases types; cases "tl types") auto
    then show ?thesis
      using lowers_refl [OF assms(1)] add_type_ok [OF assms(1), of "CAlias (hd types)"] assms(2)
      by cases (auto simp: it lower_parameter_def split_beta Let_def)
  qed
qed

lemma collect_params_ok:
  assumes c: "linv base N c" and N: "targets_in (ll_pg lib) (lc_graph c) N"
  shows "lowers base N c (snd (collect_params lib f nd c))
    \<and> (\<forall>p \<in> set (fst (collect_params lib f nd c)). id_ok base (param_type p) (snd (collect_params lib f nd c)))"
proof -
  let ?its = "params_by_index f (edges_directed (ll_pg lib) (lc_graph c) nd Outgoing)"
  have its: "\<forall>(idx, ts) \<in> set ?its. set ts \<subseteq> N"
    by (rule params_by_index_targets) (use targets_inD [OF N] in blast)
  have "lowers base N c (snd (map_ctx lower_parameter ?its c))
    \<and> (\<forall>y \<in> set (fst (map_ctx lower_parameter ?its c)). \<forall>p. y = Some p \<longrightarrow> id_ok base (param_type p) (snd (map_ctx lower_parameter ?its c)))"
    by (rule map_ctx_ok [where grph = "lc_grph c"]) (use its c lower_parameter_ok id_ok_mono in \<open>fastforce+\<close>)
  then show ?thesis by (auto simp: collect_params_def split_beta Let_def List.map_filter_def)
qed

lemma return_fields_ok:
  assumes "\<forall>i t. mp i = Some t \<longrightarrow> id_ok base t c0"
  shows "lowers base N c0 c \<Longrightarrow> linv base N c \<Longrightarrow>
    lowers base N c (snd (return_fields lib mp dflt i off args c))
    \<and> (\<forall>f \<in> set (fst (return_fields lib mp dflt i off args c)). id_ok base (fld_type f) (snd (return_fields lib mp dflt i off args c)))"
proof (induction args arbitrary: i off c)
  case Nil
  then show ?case by (simp add: lowers_refl)
next
  case (Cons arg args)
  let ?r = "case mp i of Some ty_id \<Rightarrow> (ty_id, c) | None \<Rightarrow> build_terminal_type lib dflt c"
  have 1: "lowers base N c (snd ?r)" "id_ok base (fst ?r) (snd ?r)"
    using build_terminal_type_ok [OF Cons.prems(2), of lib dflt] lowers_refl [OF Cons.prems(2)] assms
      id_ok_mono [OF _ Cons.prems(1)] by (auto split: option.splits)
  note 2 = Cons.IH [OF lowers_trans [OF Cons.prems(1) 1(1)] lowersD(1) [OF 1(1)], of "i + 1" "off + ll_arg_bits lib arg div 8"]
  let ?r2 = "return_fields lib mp dflt (i + 1) (off + ll_arg_bits lib arg div 8) args (snd ?r)"
  have run: "return_fields lib mp dflt i off (arg # args) c =
      (\<lparr>byte_offset = off, bit_sz = ll_arg_bits lib arg, fld_type = fst ?r\<rparr> # fst ?r2, snd ?r2)"
    by (simp add: split_beta Let_def)
  show ?case
    unfolding run fst_conv snd_conv using lowers_trans [OF 1(1)] id_ok_mono [OF 1(2)] 2 by auto
qed

lemma build_return_type_structure_ok:
  assumes "linv base N c" "\<forall>p \<in> set params. id_ok base (param_type p) c"
  shows "lowers base N c (snd (build_return_type_structure lib args params dflt c))
    \<and> type_ok base N (fst (build_return_type_structure lib args params dflt c)) (snd (build_return_type_structure lib args params dflt c))"
proof -
  let ?mp = "map_of (rev (map (\<lambda>x. (param_index x, param_type x)) params))"
  have "\<forall>i t. ?mp i = Some t \<longrightarrow> id_ok base t c" using assms(2) by (auto dest!: map_of_SomeD)
  from return_fields_ok [OF this lowers_refl [OF assms(1)] assms(1), of lib dflt 0 0 args]
  show ?thesis by (simp add: build_return_type_structure_def split_beta Let_def)
qed

lemma build_function_types_ok:
  assumes c: "linv base N c" and N: "targets_in (ll_pg lib) (lc_graph c) N"
  shows "lowers base N c (snd (build_function_types lib nd c))
    \<and> (\<forall>ty \<in> set (fst (build_function_types lib nd c)). type_ok base N ty (snd (build_function_types lib nd c)))"
proof -
  obtain ins c1 where 1: "collect_params lib in_index nd c = (ins, c1)" by fastforce
  obtain outs0 c2 where 2: "collect_params lib out_index nd c1 = (outs0, c2)" by fastforce
  note A = collect_params_ok [OF c N, of in_index nd, unfolded 1 fst_conv snd_conv]
  have N1: "targets_in (ll_pg lib) (lc_graph c1) N" using N A lowersD(4) by metis
  note B = collect_params_ok [OF lowersD(1) [OF conjunct1 [OF A]] N1, of out_index nd, unfolded 2 fst_conv snd_conv]
  let ?outs = "sort_key param_index outs0"
  define args where "args = (case out_params c2 nd of Some args \<Rightarrow> args | None \<Rightarrow> [])"
  let ?ret = "build_return_type_structure lib args ?outs (default_lattice_elem c2) c2"
  let ?add = "add_type (fst ?ret) (snd ?ret)"
  define r where "r = (if length ?outs > 1 \<or> length args > 1 then (Some (fst ?add), snd ?add)
             else (case ?outs of [] \<Rightarrow> None | x # _ \<Rightarrow> Some (param_type x), c2))"
  have C: "lowers base N c2 (snd r) \<and> (\<forall>i. fst r = Some i \<longrightarrow> id_ok base i (snd r))"
  proof (cases "length ?outs > 1 \<or> length args > 1")
    case True
    have ret: "lowers base N c2 (snd ?ret) \<and> type_ok base N (fst ?ret) (snd ?ret)"
      by (rule build_return_type_structure_ok) (use B lowersD(1) in auto)
    then have "lowers base N (snd ?ret) (snd ?add) \<and> id_ok base (fst ?add) (snd ?add)"
      using add_type_ok [of base N "snd ?ret" "fst ?ret"] lowersD(1) by blast
    then show ?thesis unfolding r_def if_P [OF True] using ret by (auto intro: lowers_trans)
  next
    case False
    have "\<forall>p \<in> set ?outs. id_ok base (param_type p) c2" using B by simp
    then have "\<forall>i. (case ?outs of [] \<Rightarrow> None | x # _ \<Rightarrow> Some (param_type x)) = Some i \<longrightarrow> id_ok base i c2"
      by (cases ?outs) (simp_all del: set_sort)
    moreover have "lowers base N c2 c2" using B lowersD(1) lowers_refl by blast
    ultimately show ?thesis unfolding r_def if_not_P [OF False] by simp
  qed
  have run: "build_function_types lib nd c = (if ins \<noteq> [] \<or> ?outs \<noteq> [] then [CFunction ins (fst r)] else [], snd r)"
    unfolding build_function_types_def 1 2 Let_def prod.case r_def args_def by (auto simp: split_beta)
  have all: "lowers base N c (snd r)" "lowers base N c1 (snd r)" using A B C lowers_trans by blast+
  have "\<forall>p \<in> set ins. id_ok base (param_type p) (snd r)" using id_ok_mono [OF _ all(2)] A by blast
  then show ?thesis unfolding run using all C by simp
qed

lemma build_type_ok:
  assumes lib: "is_peek (ll_peek lib)" "is_drain (ll_drain lib)" and c: "linv base N c" and N: "targets_in (ll_pg lib) (lc_graph c) N"
    and nd: "pg_node_weight (ll_pg lib) (lc_graph c) nd = Some b"
  shows "\<exists>i c'. build_type lib nd c = Some (i, c') \<and> lowers base N c c' \<and> id_ok base i c'
    \<and> (edges_directed (ll_pg lib) (lc_graph c) nd Outgoing = [] \<longrightarrow>
         ephemeral_types c' i = Some (CPrimitive (ll_elem_name lib (get_upper b))))"
proof (cases "edges_directed (ll_pg lib) (lc_graph c) nd Outgoing = []")
  case True
  then show ?thesis
    using build_terminal_type_ok [OF c, of lib b] nd by (cases "build_terminal_type lib b c") (simp add: build_type_def)
next
  case False
  obtain structs c1 where 1: "build_structure_types lib nd c = Some (structs, c1)" "lowers base N c c1"
    "\<forall>ty \<in> set structs. type_ok base N ty c1"
    using build_structure_types_ok [OF lib c N, of nd] by blast
  have N1: "targets_in (ll_pg lib) (lc_graph c1) N" using N lowersD(4) [OF 1(2)] by simp
  obtain ptrs c2 where 2: "build_pointer_types lib nd c1 = (ptrs, c2)" by fastforce
  note B = build_pointer_types_ok [OF lowersD(1) [OF 1(2)] N1, of nd, unfolded 2 fst_conv snd_conv]
  have N2: "targets_in (ll_pg lib) (lc_graph c2) N" using N1 lowersD(4) [OF conjunct1 [OF B]] by simp
  obtain funs c3 where 3: "build_function_types lib nd c2 = (funs, c3)" by fastforce
  note C = build_function_types_ok [OF lowersD(1) [OF conjunct1 [OF B]] N2, of nd, unfolded 3 fst_conv snd_conv]
  define total where "total = structs @ build_alias_types (ll_pg lib) (lc_graph c1) nd @ ptrs @ funs"
  have low: "lowers base N c c3" "lowers base N c1 c3" "lowers base N c2 c3" using 1(2) B C lowers_trans by blast+
  have total: "\<forall>ty \<in> set total. type_ok base N ty c3"
    unfolding total_def using 1(3) B C low(2,3) build_alias_types_ok [OF N1] type_ok_mono by fastforce
  have run: "build_type lib nd c = (case total of [ty] \<Rightarrow> Some (add_type ty c3)
      | _ \<Rightarrow> (let (ids, c4) = map_ctx add_type total c3 in Some (add_type (CUnion (set ids)) c4)))"
    unfolding build_type_def if_not_P [OF False] 1(1) Option.bind.bind_lunit prod.case Let_def 2 3 total_def [symmetric] ..
  note inv3 = lowersD(1) [OF low(1)]
  show ?thesis
  proof (cases "\<exists>ty. total = [ty]")
    case True
    then obtain ty where ty: "total = [ty]" ..
    then show ?thesis
      using add_type_ok [OF inv3, of ty] total low(1) False lowers_trans by (cases "add_type ty c3") (fastforce simp: run)
  next
    case many: False
    let ?m = "map_ctx add_type total c3"
    have m: "lowers base N c3 (snd ?m) \<and> (\<forall>i \<in> set (fst ?m). id_ok base i (snd ?m))"
      by (rule map_ids_ok [OF inv3 total])
    have add: "lowers base N (snd ?m) (snd (add_type (CUnion (set (fst ?m))) (snd ?m)))
        \<and> id_ok base (fst (add_type (CUnion (set (fst ?m))) (snd ?m))) (snd (add_type (CUnion (set (fst ?m))) (snd ?m)))"
      using add_type_ok [of base N "snd ?m" "CUnion (set (fst ?m))"] m lowersD(1) by auto
    have "build_type lib nd c = Some (add_type (CUnion (set (fst ?m))) (snd ?m))"
      unfolding run using many by (auto simp: split_beta Let_def split: list.splits)
    then show ?thesis using add m low(1) False lowers_trans by (cases "add_type (CUnion (set (fst ?m))) (snd ?m)") (simp, blast)
  qed
qed

text \<open>Every node in turn.\<close>

definition nodes_typed ::
    "('g, 't, 'tid, 'arg) lower_lib \<Rightarrow> 'g \<Rightarrow> nat \<Rightarrow> nat set \<Rightarrow> (nat \<Rightarrow> type_id option) \<Rightarrow> ('g, 't, 'tid, 'arg) lowering_context \<Rightarrow> bool" where
  "nodes_typed lib g base S types c \<longleftrightarrow> dom types = S \<and> (\<forall>nd i. types nd = Some i \<longrightarrow> id_ok base i c
     \<and> (edges_directed (ll_pg lib) g nd Outgoing = [] \<longrightarrow>
         ephemeral_types c i = map_option (\<lambda>b. CPrimitive (ll_elem_name lib (get_upper b))) (pg_node_weight (ll_pg lib) g nd)))"

lemma nodes_typed_mono:
  assumes t: "nodes_typed lib g base S types c" and low: "lowers base N c c'"
    and nodes: "\<forall>nd \<in> S. pg_node_weight (ll_pg lib) g nd \<noteq> None"
  shows "nodes_typed lib g base S types c'"
proof -
  have "ephemeral_types c' i = Some ty" if "ephemeral_types c i = Some ty" for i ty
    using lowersD(2) [OF low] that by (metis domI map_le_def)
  note keep = this
  show ?thesis unfolding nodes_typed_def
  proof (intro conjI allI impI)
    show "dom types = S" using t by (simp add: nodes_typed_def)
    fix nd i assume i: "types nd = Some i"
    show "id_ok base i c'" using t i id_ok_mono [OF _ low] by (simp add: nodes_typed_def)
    assume leaf: "edges_directed (ll_pg lib) g nd Outgoing = []"
    have "nd \<in> S" using t i by (auto simp: nodes_typed_def)
    then obtain b where b: "pg_node_weight (ll_pg lib) g nd = Some b" using nodes by blast
    then show "ephemeral_types c' i = map_option (\<lambda>b. CPrimitive (ll_elem_name lib (get_upper b))) (pg_node_weight (ll_pg lib) g nd)"
      using t i leaf keep by (simp add: nodes_typed_def)
  qed
qed

lemma collect_ctypes_spec:
  assumes lib: "is_peek (ll_peek lib)" "is_drain (ll_drain lib)" and N: "targets_in (ll_pg lib) g N"
  shows "linv base N c \<Longrightarrow> lc_graph c = g \<Longrightarrow> nodes_typed lib g base S types c \<Longrightarrow>
    \<forall>nd \<in> S \<union> set nds. pg_node_weight (ll_pg lib) g nd \<noteq> None \<Longrightarrow>
    \<exists>types' c'. fold_opt (\<lambda>nd (types, c). map_option (\<lambda>(ty_id, c'). (types(nd \<mapsto> ty_id), c')) (build_type lib nd c)) nds (types, c)
        = Some (types', c')
      \<and> lowers base N c c' \<and> nodes_typed lib g base (S \<union> set nds) types' c'"
proof (induction nds arbitrary: S types c)
  case Nil
  then show ?case by (auto intro: lowers_refl)
next
  case (Cons nd nds)
  obtain b where b: "pg_node_weight (ll_pg lib) (lc_graph c) nd = Some b" using Cons.prems(2,4) by auto
  have Nc: "targets_in (ll_pg lib) (lc_graph c) N" using N Cons.prems(2) by simp
  obtain i c1 where 1: "build_type lib nd c = Some (i, c1)" "lowers base N c c1" "id_ok base i c1"
    "edges_directed (ll_pg lib) (lc_graph c) nd Outgoing = [] \<longrightarrow>
         ephemeral_types c1 i = Some (CPrimitive (ll_elem_name lib (get_upper b)))"
    using build_type_ok [OF lib Cons.prems(1) Nc b] by (elim exE conjE) (rule that)
  have g1: "lc_graph c1 = g" using lowersD(4) [OF 1(2)] Cons.prems(2) by simp
  have "nodes_typed lib g base S types c1" using nodes_typed_mono [OF Cons.prems(3) 1(2)] Cons.prems(4) by blast
  then have t1: "nodes_typed lib g base (insert nd S) (types(nd \<mapsto> i)) c1"
    using 1(3,4) b Cons.prems(2) by (simp add: nodes_typed_def)
  have n1: "\<forall>nd \<in> insert nd S \<union> set nds. pg_node_weight (ll_pg lib) g nd \<noteq> None" using Cons.prems(4) by simp
  obtain types' c' where 2: "fold_opt (\<lambda>nd (types, c). map_option (\<lambda>(ty_id, c'). (types(nd \<mapsto> ty_id), c')) (build_type lib nd c)) nds
      (types(nd \<mapsto> i), c1) = Some (types', c')" "lowers base N c1 c'" "nodes_typed lib g base (insert nd S \<union> set nds) types' c'"
    using Cons.IH [OF lowersD(1) [OF 1(2)] g1 t1 n1] by (elim exE conjE) (rule that)
  have "fold_opt (\<lambda>nd (types, c). map_option (\<lambda>(ty_id, c'). (types(nd \<mapsto> ty_id), c')) (build_type lib nd c)) (nd # nds) (types, c)
      = fold_opt (\<lambda>nd (types, c). map_option (\<lambda>(ty_id, c'). (types(nd \<mapsto> ty_id), c')) (build_type lib nd c)) nds (types(nd \<mapsto> i), c1)"
    by (simp add: 1(1))
  then show ?case
    unfolding 2(1) using 2(3) lowers_trans [OF 1(2) 2(2)] by (intro exI [of _ types'] exI [of _ c']) (simp only: set_simps Un_insert_left Un_insert_right simp_thms)
qed

lemma linv_start:
  "linv (curr_id (lowering_context_new lib grph tids args dflt)) N (lowering_context_new lib grph tids args dflt)"
  by (simp add: linv_def lowering_context_new_def)

lemma fold_max_ge: "(x :: nat) \<in> set xs \<or> x \<le> m \<Longrightarrow> x \<le> fold max xs m"
  by (induction xs arbitrary: m) (auto simp: le_max_iff_disj max_def split: if_splits)

lemma collect_ctypes_exact:
  assumes lib: "stable_digraph (ll_pg lib) ok" "is_peek (ll_peek lib)" "is_drain (ll_drain lib)" and g: "ok (mg_grph (quotient_graph grph))"
  shows "\<exists>types eph next. collect_ctypes lib (lowering_context_new lib grph tids args dflt) = Some (types, eph)
    \<and> dom types = {n. pg_node_weight (ll_pg lib) (mg_grph (quotient_graph grph)) n \<noteq> None}
    \<and> ran types \<subseteq> dom eph \<and> dom eph = {curr_id (lowering_context_new lib grph tids args dflt)..<next}
    \<and> (\<forall>i ty. eph i = Some ty \<longrightarrow> type_refs ty \<subseteq> dom eph \<inter> {..<i} \<and> alias_targets ty \<subseteq> dom types)
    \<and> (\<forall>nd i b. types nd = Some i \<longrightarrow> edges_directed (ll_pg lib) (mg_grph (quotient_graph grph)) nd Outgoing = [] \<longrightarrow>
         pg_node_weight (ll_pg lib) (mg_grph (quotient_graph grph)) nd = Some b \<longrightarrow>
         eph i = Some (CPrimitive (ll_elem_name lib (get_upper b))))"
proof -
  let ?G = "ll_pg lib" and ?g = "mg_grph (quotient_graph grph)" and ?c = "lowering_context_new lib grph tids args dflt"
  let ?N = "{n. pg_node_weight ?G ?g n \<noteq> None}"
  have graph: "lc_graph ?c = ?g" by (simp add: lowering_context_new_def)
  have idx: "set (pg_node_indices ?G ?g) = ?N" using stable_digraph.node_indices_laws [OF lib(1) g] by simp
  have empty: "nodes_typed lib ?g (curr_id ?c) {} Map.empty ?c" by (simp add: nodes_typed_def)
  have nodes: "\<forall>nd \<in> {} \<union> set (pg_node_indices ?G ?g). pg_node_weight ?G ?g nd \<noteq> None" unfolding idx by blast
  obtain types c' where run: "fold_opt (\<lambda>nd (types, c). map_option (\<lambda>(ty_id, c'). (types(nd \<mapsto> ty_id), c')) (build_type lib nd c))
      (pg_node_indices ?G ?g) (Map.empty, ?c) = Some (types, c')" "lowers (curr_id ?c) ?N ?c c'"
    "nodes_typed lib ?g (curr_id ?c) ({} \<union> set (pg_node_indices ?G ?g)) types c'"
    using collect_ctypes_spec [OF lib(2,3) targets_in_nodes [OF lib(1) g] linv_start graph empty nodes] by (elim exE conjE) (rule that)
  note inv = lowersD(1) [OF run(2)]
  have dom: "dom (ephemeral_types c') = {curr_id ?c..<curr_id c'}" using inv by (simp add: linv_def)
  have types: "dom types = ?N" using run(3) idx by (simp add: nodes_typed_def)
  have "ran types \<subseteq> dom (ephemeral_types c')" using run(3) unfolding dom by (auto simp: nodes_typed_def id_ok_def ran_def)
  moreover have "type_refs ty \<subseteq> dom (ephemeral_types c') \<inter> {..<i} \<and> alias_targets ty \<subseteq> dom types"
    if "ephemeral_types c' i = Some ty" for i ty
  proof -
    have "i < curr_id c'" using dom that by auto
    moreover have "type_refs ty \<subseteq> {curr_id ?c..<i}" "alias_targets ty \<subseteq> ?N" using inv that unfolding linv_def by blast+
    ultimately show ?thesis unfolding dom types by auto
  qed
  moreover have "collect_ctypes lib ?c = Some (types, ephemeral_types c')"
    by (simp add: collect_ctypes_def graph run(1))
  moreover have "\<forall>nd i b. types nd = Some i \<longrightarrow> edges_directed ?G ?g nd Outgoing = [] \<longrightarrow> pg_node_weight ?G ?g nd = Some b \<longrightarrow>
         ephemeral_types c' i = Some (CPrimitive (ll_elem_name lib (get_upper b)))"
    using run(3) by (simp add: nodes_typed_def)
  ultimately show ?thesis using dom types by (intro exI [of _ types] exI [of _ "ephemeral_types c'"] exI [of _ "curr_id c'"]) blast
qed

end
