(* ===== verification/LoweringMeaning.thy ===== *)
theory LoweringMeaning
  imports Lowering
begin

text \<open>
  What the types of \<^verbatim>\<open>src/lowering/mod.rs\<close> say about a node: the nodes that it points to,
  stands for, has as fields, takes as parameters and returns, read off the type by following its
  references.  The lowering neither loses nor invents any of them, except that it drops fields at
  negative offsets and results beyond the known return locations.
\<close>

section \<open>Reading a type\<close>

datatype meaning = PointsTo nat | Aliases nat | HasField nat nat nat | Takes nat nat | Returns nat

text \<open>The nodes that a type identifier stands for.\<close>

definition alias_of :: "(type_id \<Rightarrow> ctype option) \<Rightarrow> type_id \<Rightarrow> nat set" where
  "alias_of eph i = (case eph i of
       Some (CAlias t) \<Rightarrow> {t}
     | Some (CUnion S) \<Rightarrow> {t. \<exists>q \<in> S. eph q = Some (CAlias t)}
     | _ \<Rightarrow> {})"

definition returned :: "(type_id \<Rightarrow> ctype option) \<Rightarrow> type_id \<Rightarrow> nat set" where
  "returned eph i = (case eph i of
       Some (CStructure fs) \<Rightarrow> (\<Union>f \<in> set fs. alias_of eph (fld_type f))
     | _ \<Rightarrow> alias_of eph i)"

definition field_meaning :: "(type_id \<Rightarrow> ctype option) \<Rightarrow> lowered_field \<Rightarrow> meaning set" where
  "field_meaning eph f = HasField (byte_offset f) (bit_sz f) ` alias_of eph (fld_type f)"

fun meanings :: "(type_id \<Rightarrow> ctype option) \<Rightarrow> ctype \<Rightarrow> meaning set" where
  "meanings eph (CPrimitive _) = {}"
| "meanings eph (CPointer p) = PointsTo ` alias_of eph p"
| "meanings eph (CAlias t) = {Aliases t}"
| "meanings eph (CStructure fs) = (\<Union>f \<in> set fs. field_meaning eph f)"
| "meanings eph (CFunction ps r) = (\<Union>p \<in> set ps. Takes (param_index p) ` alias_of eph (param_type p))
     \<union> (case r of None \<Rightarrow> {} | Some i \<Rightarrow> Returns ` returned eph i)"
| "meanings eph (CUnion S) = {}"

text \<open>A node with several types has a union of them.\<close>

definition id_meanings :: "(type_id \<Rightarrow> ctype option) \<Rightarrow> type_id \<Rightarrow> meaning set" where
  "id_meanings eph i = (case eph i of
       Some (CUnion S) \<Rightarrow> (\<Union>q \<in> S. case eph q of Some ty \<Rightarrow> meanings eph ty | None \<Rightarrow> {})
     | Some ty \<Rightarrow> meanings eph ty
     | None \<Rightarrow> {})"

section \<open>What the edges of a node say\<close>

definition has_offset_field :: "(field_label \<times> nat) set \<Rightarrow> bool" where
  "has_offset_field A \<longleftrightarrow> (\<exists>fld t. (Field fld, t) \<in> A \<and> offset fld \<noteq> 0)"

definition field_meanings :: "(field_label \<times> nat) set \<Rightarrow> meaning set" where
  "field_meanings A = {HasField (nat (offset fld)) (fsize fld) t | fld t. (Field fld, t) \<in> A \<and> 0 \<le> offset fld}"

definition result_meanings :: "nat \<Rightarrow> (field_label \<times> nat) set \<Rightarrow> meaning set" where
  "result_meanings n A = {Returns t | t i. (Out i, t) \<in> A
     \<and> (n > 1 \<or> (\<exists>j k u v. (Out j, u) \<in> A \<and> (Out k, v) \<in> A \<and> j \<noteq> k) \<longrightarrow> i < n)}"

definition node_meaning :: "nat \<Rightarrow> (field_label \<times> nat) set \<Rightarrow> meaning set" where
  "node_meaning n A = {PointsTo t | t. (Load, t) \<in> A \<or> (Store, t) \<in> A}
     \<union> (if has_offset_field A then field_meanings A else {Aliases t | t fld. (Field fld, t) \<in> A})
     \<union> {Takes i t | t i. (In i, t) \<in> A} \<union> result_meanings n A"

definition labels_of :: "field_label edge_ref list \<Rightarrow> (field_label \<times> nat) set" where
  "labels_of es = (\<lambda>(_, _, t, w). (w, t)) ` set es"

lemma labels_of_iff: "(w, t) \<in> labels_of es \<longleftrightarrow> (\<exists>i a. (i, a, t, w) \<in> set es)"
  by (force simp: labels_of_def)

section \<open>Meanings survive later steps\<close>

lemma eph_mono: "lowers base N c c' \<Longrightarrow> ephemeral_types c i = Some ty \<Longrightarrow> ephemeral_types c' i = Some ty"
  using lowersD(2) [of base N c c'] by (metis domI map_le_def)

lemma id_ok_type:
  assumes "linv base N c" "id_ok base i c"
  obtains ty where "ephemeral_types c i = Some ty" "\<forall>j \<in> type_refs ty. id_ok base j c"
proof -
  have "i \<in> dom (ephemeral_types c)" using assms by (auto simp: linv_def id_ok_def)
  then obtain ty where ty: "ephemeral_types c i = Some ty" by blast
  then have "type_refs ty \<subseteq> {base..<i}" using assms(1) by (auto simp: linv_def)
  then have "\<forall>j \<in> type_refs ty. id_ok base j c" using assms(2) by (auto simp: id_ok_def)
  with ty show thesis by (rule that)
qed

lemma alias_of_mono:
  assumes c: "linv base N c" "id_ok base i c" and low: "lowers base N c c'"
  shows "alias_of (ephemeral_types c') i = alias_of (ephemeral_types c) i"
proof -
  obtain ty where ty: "ephemeral_types c i = Some ty" "\<forall>j \<in> type_refs ty. id_ok base j c" by (rule id_ok_type [OF c])
  have "ephemeral_types c' q = ephemeral_types c q" if "q \<in> type_refs ty" for q
    using ty(2) that id_ok_type [OF c(1), of q] eph_mono [OF low] by metis
  then show ?thesis using ty(1) eph_mono [OF low ty(1)] by (cases ty) (auto simp: alias_of_def)
qed

lemma returned_mono:
  assumes c: "linv base N c" "id_ok base i c" and low: "lowers base N c c'"
  shows "returned (ephemeral_types c') i = returned (ephemeral_types c) i"
proof -
  obtain ty where ty: "ephemeral_types c i = Some ty" "\<forall>j \<in> type_refs ty. id_ok base j c" by (rule id_ok_type [OF c])
  then show ?thesis
    using eph_mono [OF low ty(1)] alias_of_mono [OF c low] alias_of_mono [OF c(1) _ low]
    by (cases ty) (auto simp: returned_def)
qed

lemma meanings_mono:
  assumes c: "linv base N c" and ty: "type_ok base N ty c" and low: "lowers base N c c'"
  shows "meanings (ephemeral_types c') ty = meanings (ephemeral_types c) ty"
  using ty alias_of_mono [OF c _ low] returned_mono [OF c _ low]
  by (cases ty) (auto simp: field_meaning_def split: option.splits)

lemma add_alias_meaning:
  assumes "linv base N c" "t \<in> N"
  shows "alias_of (ephemeral_types (snd (add_type (CAlias t) c))) (fst (add_type (CAlias t) c)) = {t}"
  using add_type_ok [OF assms(1), of "CAlias t"] assms(2) by (simp add: alias_of_def)

section \<open>Every kind of type\<close>

lemma pointer_meanings:
  assumes c: "linv base N c" and N: "targets_in (ll_pg lib) (lc_graph c) N"
    and run: "build_pointer_types lib nd c = (tys, c')" and es: "es = edges_directed (ll_pg lib) (lc_graph c) nd Outgoing"
  shows "(\<Union>ty \<in> set tys. meanings (ephemeral_types c') ty) = {PointsTo t | t. (Load, t) \<in> labels_of es \<or> (Store, t) \<in> labels_of es}"
proof -
  let ?T = "(\<lambda>(_, _, tgt, _). tgt) ` set (filter (\<lambda>(_, _, _, w). w = Load \<or> w = Store) es)"
  let ?f = "\<lambda>tgt c. let (ty_id, c1) = add_type (CAlias tgt) c in (CPointer ty_id, c1)"
  have all: "list_all2 (\<lambda>t ty. \<exists>p. ty = CPointer p \<and> id_ok base p c' \<and> alias_of (ephemeral_types c') p = {t}) (sorted_list_of_set ?T) tys"
  proof -
    have "lowers base N c (snd (map_ctx ?f (sorted_list_of_set ?T) c))
      \<and> list_all2 (\<lambda>t ty. \<exists>p. ty = CPointer p \<and> id_ok base p (snd (map_ctx ?f (sorted_list_of_set ?T) c))
           \<and> alias_of (ephemeral_types (snd (map_ctx ?f (sorted_list_of_set ?T) c))) p = {t}) (sorted_list_of_set ?T)
          (fst (map_ctx ?f (sorted_list_of_set ?T) c))"
    proof (rule map_ctx_all2 [where grph = "lc_grph c"], goal_cases)
      case (1 x c1)
      then have "x \<in> N" using targets_inD [OF N] by (auto simp: es)
      then show ?case
        using add_type_ok [OF 1(2), of "CAlias x"] add_alias_meaning [OF 1(2)] by (simp add: split_beta Let_def)
    next
      case (2 x y c1 c2)
      then show ?case using alias_of_mono id_ok_mono by blast
    qed (use c in auto)
    then show ?thesis using run by (simp add: build_pointer_types_def es)
  qed
  have "(\<Union>ty \<in> set tys. meanings (ephemeral_types c') ty) = PointsTo ` set (sorted_list_of_set ?T)"
    using all by (induction rule: list_all2_induct) auto
  then show ?thesis by (auto simp: labels_of_iff image_iff) fastforce+
qed

lemma has_non_zero_fields_iff:
  "has_non_zero_fields G g nd \<longleftrightarrow> has_offset_field (labels_of (edges_directed G g nd Outgoing))"
proof -
  have "(case w of Field fld \<Rightarrow> offset fld \<noteq> 0 | _ \<Rightarrow> False) \<longleftrightarrow> (\<exists>fld. w = Field fld \<and> offset fld \<noteq> 0)" for w
    by (cases w) auto
  then show ?thesis unfolding has_non_zero_fields_def has_offset_field_def list_ex_iff labels_of_iff by fastforce
qed

lemma alias_meanings:
  assumes "es = edges_directed G g nd Outgoing"
  shows "(\<Union>ty \<in> set (build_alias_types G g nd). meanings eph ty)
    = (if has_offset_field (labels_of es) then {} else {Aliases t | t fld. (Field fld, t) \<in> labels_of es})"
proof -
  have "(case w of Field _ \<Rightarrow> True | _ \<Rightarrow> False) \<longleftrightarrow> (\<exists>fld. w = Field fld)" for w
    by (cases w) auto
  then show ?thesis
    unfolding build_alias_types_def has_non_zero_fields_iff assms [symmetric] by (auto simp: labels_of_iff image_iff) fastforce+
qed

lemma union_of_parts: "(\<Sum>s \<leftarrow> ss. mset (f s)) = mset xs \<Longrightarrow> (\<Union>s \<in> set ss. set (f s)) = set xs"
proof -
  assume sum: "(\<Sum>s \<leftarrow> ss. mset (f s)) = mset xs"
  have "set_mset (\<Sum>s \<leftarrow> ss. mset (f s)) = (\<Union>s \<in> set ss. set (f s))" by (induction ss) auto
  then show ?thesis unfolding sum by simp
qed

text \<open>The field that an edge gives.\<close>

definition field_of_edge :: "type_id \<Rightarrow> ('g, 't, 'tid, 'arg) lowering_context \<Rightarrow> field_label edge_ref \<Rightarrow> lowered_field option \<Rightarrow> bool" where
  "field_of_edge base c e y \<longleftrightarrow> (case e of (_, _, t, w) \<Rightarrow>
     (\<forall>f. y = Some f \<longrightarrow> id_ok base (fld_type f) c)
     \<and> (case y of None \<Rightarrow> {} | Some f \<Rightarrow> field_meaning (ephemeral_types c) f) = field_meanings {(w, t)})"

lemma field_meanings_union: "(\<Union>e \<in> A. field_meanings {e}) = field_meanings A"
  by (auto simp: field_meanings_def)

lemma structure_meanings:
  assumes lib: "is_peek (ll_peek lib)" "is_drain (ll_drain lib)" and c: "linv base N c" and N: "targets_in (ll_pg lib) (lc_graph c) N"
    and run: "build_structure_types lib nd c = Some (tys, c')" and es: "es = edges_directed (ll_pg lib) (lc_graph c) nd Outgoing"
  shows "(\<Union>ty \<in> set tys. meanings (ephemeral_types c') ty) = (if has_offset_field (labels_of es) then field_meanings (labels_of es) else {})"
proof (cases "has_offset_field (labels_of es)")
  case True
  obtain flds c1 where flds: "map_ctx lower_field_edge es c = (flds, c1)" by fastforce
  have "lowers base N c (snd (map_ctx lower_field_edge es c))
      \<and> list_all2 (field_of_edge base (snd (map_ctx lower_field_edge es c))) es (fst (map_ctx lower_field_edge es c))"
  proof (rule map_ctx_all2 [where grph = "lc_grph c" and P = "\<lambda>e y c. field_of_edge base c e y"], goal_cases)
    case (1 e c1)
    obtain i a b w where e: "e = (i, a, b, w)" by (cases e)
    then have b: "b \<in> N" using targets_inD [OF N] 1(1) es by blast
    show ?case
      using add_type_ok [OF 1(2), of "CAlias b"] lowers_refl [OF 1(2)] b add_alias_meaning [OF 1(2) b]
      by (cases w) (auto simp: lower_field_edge_def e split_beta Let_def translate_field_def field_of_edge_def field_meanings_def field_meaning_def)
  next
    case (2 e y c1 c2)
    then show ?case
      using alias_of_mono [OF 2(1) _ 2(3)] id_ok_mono [OF _ 2(3)]
      by (auto simp: field_of_edge_def field_meaning_def split: option.splits prod.splits)
  qed (use c in auto)
  then have all: "list_all2 (field_of_edge base c1) es flds" unfolding flds by simp
  have fields: "(\<Union>f \<in> set (List.map_filter (\<lambda>f. f) flds). field_meaning (ephemeral_types c1) f) = field_meanings (labels_of es)"
  proof -
    have "(\<Union>f \<in> set (List.map_filter (\<lambda>f. f) flds). field_meaning (ephemeral_types c1) f)
        = (\<Union>e \<in> labels_of es. field_meanings {e})"
      using all
    proof (induction rule: list_all2_induct)
      case (Cons e es y ys)
      then show ?case
        by (cases e; cases y) (auto simp: List.map_filter_simps labels_of_def field_of_edge_def)
    qed (simp add: List.map_filter_simps labels_of_def)
    then show ?thesis by (simp only: field_meanings_union)
  qed
  obtain structs where structs: "schedule_structures (ll_peek lib) (ll_drain lib) (List.map_filter (\<lambda>f. f) flds) = Some structs"
    "(\<Sum>s \<leftarrow> structs. mset (structure_fields s)) = mset (List.map_filter (\<lambda>f. f) flds)"
    "\<forall>s \<in> set structs. \<exists>fs. s = CStructure fs"
    using scheduled_fields [OF lib, of "List.map_filter (\<lambda>f. f) flds"] by blast
  have "meanings eph s = (\<Union>f \<in> set (structure_fields s). field_meaning eph f)" if s: "s \<in> set structs" for s eph
  proof -
    obtain fs where "s = CStructure fs" using structs(3) s by blast
    then show ?thesis by simp
  qed
  then have "(\<Union>ty \<in> set structs. meanings eph ty) = (\<Union>f \<in> (\<Union>s \<in> set structs. set (structure_fields s)). field_meaning eph f)" for eph
    unfolding UN_UN_flatten by (rule SUP_cong [OF refl])
  then have "(\<Union>ty \<in> set structs. meanings (ephemeral_types c1) ty) = field_meanings (labels_of es)"
    unfolding union_of_parts [OF structs(2)] by (simp only: fields)
  moreover have "tys = structs" "c' = c1"
    using run True flds structs(1) by (simp_all add: build_structure_types_def has_non_zero_fields_iff es)
  ultimately show ?thesis using True by simp
qed (use run in \<open>auto simp: build_structure_types_def has_non_zero_fields_iff es\<close>)

text \<open>The parameters are grouped by their index.\<close>

lemma params_by_index_spec:
  "sorted_wrt (<) (map fst (params_by_index f es))
   \<and> bt_get_or [] (params_by_index f es) idx = map (\<lambda>(_, _, t, _). t) (filter (\<lambda>(_, _, _, w). f w = Some idx) es)"
proof -
  let ?ins = "\<lambda>(_, _, tgt, w) acc. case f w of Some idx \<Rightarrow> bt_insert idx (bt_get_or [] acc idx @ [tgt]) acc | None \<Rightarrow> acc"
  have "sorted_wrt (<) (map fst acc) \<longrightarrow> sorted_wrt (<) (map fst (fold ?ins es acc))
     \<and> bt_get_or [] (fold ?ins es acc) idx
        = bt_get_or [] acc idx @ map (\<lambda>(_, _, t, _). t) (filter (\<lambda>(_, _, _, w). f w = Some idx) es)" for acc
  proof (induction es arbitrary: acc)
    case (Cons e es)
    obtain i a t w where e: "e = (i, a, t, w)" by (cases e)
    show ?case
      using Cons.IH [of "?ins e acc"] sorted_bt_insert [of acc] by (auto simp: e bt_get_or_def split: option.splits)
  qed simp
  from this [of "[]"] show ?thesis by (simp add: params_by_index_def bt_get_or_def)
qed

lemma params_by_index_entries:
  assumes "(idx, ts) \<in> set (params_by_index f es)"
  shows "set ts = {t. \<exists>w. (w, t) \<in> labels_of es \<and> f w = Some idx}"
proof -
  have "distinct (map fst (params_by_index f es))"
    using params_by_index_spec [of f es] strict_sorted_iff by blast
  then have "map_of (params_by_index f es) idx = Some ts" using assms by simp
  then have "ts = map (\<lambda>(_, _, t, _). t) (filter (\<lambda>(_, _, _, w). f w = Some idx) es)"
    using params_by_index_spec [of f es idx] by (simp add: bt_get_or_def)
  then show ?thesis by (auto simp: labels_of_iff image_iff) fastforce+
qed

lemma params_by_index_keys: "(w, t) \<in> labels_of es \<Longrightarrow> f w = Some idx \<Longrightarrow> \<exists>ts. (idx, ts) \<in> set (params_by_index f es) \<and> ts \<noteq> []"
proof -
  assume "(w, t) \<in> labels_of es" "f w = Some idx"
  then have "map (\<lambda>(_, _, t, _). t) (filter (\<lambda>(_, _, _, w). f w = Some idx) es) \<noteq> []"
    by (auto simp: labels_of_iff filter_empty_conv)
  then have "bt_get_or [] (params_by_index f es) idx \<noteq> []" using params_by_index_spec [of f es idx] by simp
  then show ?thesis by (auto simp: bt_get_or_def split: option.splits dest: map_of_SomeD)
qed

text \<open>The type of a parameter stands for the nodes that its edges lead to.\<close>

definition param_of :: "nat \<Rightarrow> ('g, 't, 'tid, 'arg) lowering_context \<Rightarrow> nat \<times> nat list \<Rightarrow> parameter option \<Rightarrow> bool" where
  "param_of base c it y \<longleftrightarrow> (if snd it = [] then y = None
     else (\<exists>i. y = Some \<lparr>param_index = fst it, param_type = i\<rparr> \<and> id_ok base i c
       \<and> alias_of (ephemeral_types c) i = set (snd it) \<and> returned (ephemeral_types c) i = set (snd it)))"

lemma param_of_mono: "linv base N c \<Longrightarrow> param_of base c it y \<Longrightarrow> lowers base N c c' \<Longrightarrow> param_of base c' it y"
  using alias_of_mono [of base N c _ c'] returned_mono [of base N c _ c'] id_ok_mono [of base _ c N c']
  by (auto simp: param_of_def split: if_splits)

lemma alias_list:
  "list_all2 (\<lambda>t i. Q i \<and> e i = Some (CAlias t)) ts is \<Longrightarrow>
    (\<forall>i \<in> set is. Q i) \<and> {t. \<exists>q \<in> set is. e q = Some (CAlias t)} = set ts"
  by (induction rule: list_all2_induct) auto

lemma lower_parameter_many:
  "lower_parameter (idx, x # y # ys) c =
     (let (ids, c1) = map_ctx (\<lambda>x. add_type (CAlias x)) (x # y # ys) c;
          (ty_id, c2) = add_type (CUnion (set ids)) c1
      in (Some \<lparr>param_index = idx, param_type = ty_id\<rparr>, c2))"
  unfolding lower_parameter_def prod.case list.case ..

lemma lower_parameter_meaning:
  assumes c: "linv base N c" and N: "set (snd it) \<subseteq> N"
  shows "param_of base (snd (lower_parameter it c)) it (fst (lower_parameter it c))"
proof -
  obtain idx types where it: "it = (idx, types)" by fastforce
  show ?thesis
  proof (cases "\<exists>x y ys. types = x # y # ys")
    case True
    let ?f = "\<lambda>x. add_type (CAlias x)"
    let ?m = "map_ctx ?f types c"
    have m: "lowers base N c (snd ?m) \<and> list_all2 (\<lambda>t i. id_ok base i (snd ?m) \<and> ephemeral_types (snd ?m) i = Some (CAlias t)) types (fst ?m)"
    proof (rule map_ctx_all2 [where grph = "lc_grph c"], goal_cases)
      case (1 x c1)
      then show ?case using add_type_ok [OF 1(2), of "CAlias x"] N by (auto simp: it)
    next
      case (2 x y c1 c2)
      then show ?case using eph_mono [OF 2(3)] id_ok_mono by blast
    qed (use c in auto)
    have ids: "\<forall>i \<in> set (fst ?m). id_ok base i (snd ?m)"
      "{t. \<exists>q \<in> set (fst ?m). ephemeral_types (snd ?m) q = Some (CAlias t)} = set types"
      using alias_list [OF conjunct2 [OF m]] by blast+
    let ?add = "add_type (CUnion (set (fst ?m))) (snd ?m)"
    have add: "lowers base N (snd ?m) (snd ?add) \<and> id_ok base (fst ?add) (snd ?add)
        \<and> ephemeral_types (snd ?add) (fst ?add) = Some (CUnion (set (fst ?m)))"
      using add_type_ok [of base N "snd ?m" "CUnion (set (fst ?m))"] lowersD(1) [OF conjunct1 [OF m]] ids(1) by simp
    have "ephemeral_types (snd ?add) q = ephemeral_types (snd ?m) q" if "q \<in> set (fst ?m)" for q
      using ids(1) that id_ok_type [OF lowersD(1) [OF conjunct1 [OF m]], of q] eph_mono [OF conjunct1 [OF add]] by metis
    then have "alias_of (ephemeral_types (snd ?add)) (fst ?add) = set types"
      "returned (ephemeral_types (snd ?add)) (fst ?add) = set types"
      using add ids(2) by (auto simp: alias_of_def returned_def)
    moreover have "lower_parameter it c = (Some \<lparr>param_index = idx, param_type = fst ?add\<rparr>, snd ?add)"
      using True lower_parameter_many unfolding it by (elim exE) (simp only: split_beta Let_def)
    ultimately show ?thesis using True add by (auto simp only: param_of_def it fst_conv snd_conv if_False list.distinct)
  next
    case False
    then consider "types = []" | x where "types = [x]" by (cases types; cases "tl types") auto
    then show ?thesis
    proof cases
      case (2 x)
      then show ?thesis
        using add_type_ok [OF c, of "CAlias x"] N
        by (simp add: it lower_parameter_def split_beta Let_def param_of_def alias_of_def returned_def)
    qed (simp add: it lower_parameter_def param_of_def)
  qed
qed


lemma collect_params_meaning:
  assumes c: "linv base N c" and N: "targets_in (ll_pg lib) (lc_graph c) N"
    and run: "collect_params lib f nd c = (ps, c')" and es: "es = edges_directed (ll_pg lib) (lc_graph c) nd Outgoing"
  shows "\<forall>p \<in> set ps. id_ok base (param_type p) c'
      \<and> alias_of (ephemeral_types c') (param_type p) = {t. \<exists>w. (w, t) \<in> labels_of es \<and> f w = Some (param_index p)}
      \<and> returned (ephemeral_types c') (param_type p) = {t. \<exists>w. (w, t) \<in> labels_of es \<and> f w = Some (param_index p)}"
    "param_index ` set ps = {idx. \<exists>w t. (w, t) \<in> labels_of es \<and> f w = Some idx}"
    "distinct (map param_index ps)"
proof -
  let ?its = "params_by_index f es"
  obtain ys where ys: "map_ctx lower_parameter ?its c = (ys, c')" "ps = List.map_filter (\<lambda>p. p) ys"
    using run by (cases "map_ctx lower_parameter ?its c") (auto simp: collect_params_def es)
  have its: "\<forall>(idx, ts) \<in> set ?its. set ts \<subseteq> N"
    by (rule params_by_index_targets) (use targets_inD [OF N] es in blast)
  have "lowers base N c (snd (map_ctx lower_parameter ?its c))
    \<and> list_all2 (param_of base (snd (map_ctx lower_parameter ?its c))) ?its (fst (map_ctx lower_parameter ?its c))"
  proof (rule map_ctx_all2 [where grph = "lc_grph c" and P = "\<lambda>it y c. param_of base c it y"], goal_cases)
    case (1 it c1)
    then have "set (snd it) \<subseteq> N" using its by fastforce
    then show ?case using lower_parameter_ok [OF 1(2)] lower_parameter_meaning [OF 1(2)] by blast
  next
    case 2
    then show ?case by (rule param_of_mono)
  qed (use c in auto)
  then have all: "list_all2 (param_of base c') ?its ys" unfolding ys(1) by simp
  have part: "list_all2 (param_of base c') its ys \<Longrightarrow>
      (\<forall>p \<in> set (List.map_filter (\<lambda>p. p) ys). id_ok base (param_type p) c' \<and> (\<exists>ts. (param_index p, ts) \<in> set its
         \<and> alias_of (ephemeral_types c') (param_type p) = set ts \<and> returned (ephemeral_types c') (param_type p) = set ts))
      \<and> map param_index (List.map_filter (\<lambda>p. p) ys) = map fst (filter (\<lambda>(_, ts). ts \<noteq> []) its)" for its ys
  proof (induction rule: list_all2_induct)
    case (Cons it its y ys)
    then show ?case by (cases it) (auto simp: param_of_def List.map_filter_simps split: if_splits)
  qed (simp add: List.map_filter_simps)
  have keys: "map param_index ps = map fst (filter (\<lambda>(_, ts). ts \<noteq> []) ?its)"
    using part [OF all] unfolding ys(2) by blast
  show "\<forall>p \<in> set ps. id_ok base (param_type p) c'
      \<and> alias_of (ephemeral_types c') (param_type p) = {t. \<exists>w. (w, t) \<in> labels_of es \<and> f w = Some (param_index p)}
      \<and> returned (ephemeral_types c') (param_type p) = {t. \<exists>w. (w, t) \<in> labels_of es \<and> f w = Some (param_index p)}"
  proof
    fix p assume "p \<in> set ps"
    then obtain ts where "id_ok base (param_type p) c'" "(param_index p, ts) \<in> set ?its"
      "alias_of (ephemeral_types c') (param_type p) = set ts" "returned (ephemeral_types c') (param_type p) = set ts"
      using part [OF all] unfolding ys(2) by blast
    then show "id_ok base (param_type p) c'
      \<and> alias_of (ephemeral_types c') (param_type p) = {t. \<exists>w. (w, t) \<in> labels_of es \<and> f w = Some (param_index p)}
      \<and> returned (ephemeral_types c') (param_type p) = {t. \<exists>w. (w, t) \<in> labels_of es \<and> f w = Some (param_index p)}"
      using params_by_index_entries by simp
  qed
  have "param_index ` set ps = {idx. \<exists>ts. (idx, ts) \<in> set ?its \<and> ts \<noteq> []}"
  proof -
    have "param_index ` set ps = fst ` set (filter (\<lambda>(_, ts). ts \<noteq> []) ?its)"
      using arg_cong [OF keys, of set] unfolding set_map .
    also have "\<dots> = {idx. \<exists>ts. (idx, ts) \<in> set ?its \<and> ts \<noteq> []}"
      unfolding set_filter by (auto simp: image_iff)
    finally show ?thesis .
  qed
  also have "\<dots> = {idx. \<exists>w t. (w, t) \<in> labels_of es \<and> f w = Some idx}"
  proof (intro set_eqI iffI; elim CollectE exE conjE; intro CollectI)
    fix idx ts assume "(idx, ts) \<in> set ?its" "ts \<noteq> []"
    then obtain t where "t \<in> {t. \<exists>w. (w, t) \<in> labels_of es \<and> f w = Some idx}"
      using params_by_index_entries [of idx ts f es] by (metis all_not_in_conv set_empty2)
    then show "\<exists>w t. (w, t) \<in> labels_of es \<and> f w = Some idx" by blast
  next
    fix idx w t assume "(w, t) \<in> labels_of es" "f w = Some idx"
    then show "\<exists>ts. (idx, ts) \<in> set ?its \<and> ts \<noteq> []" by (rule params_by_index_keys)
  qed
  finally show "param_index ` set ps = {idx. \<exists>w t. (w, t) \<in> labels_of es \<and> f w = Some idx}" .
  have "distinct (map fst ?its)" using params_by_index_spec [of f es] strict_sorted_iff by blast
  then show "distinct (map param_index ps)" unfolding keys by (rule distinct_map_filter)
qed


text \<open>The fields of the structure that carries several results.\<close>

lemma return_fields_spec:
  assumes mp: "\<forall>i t. mp i = Some t \<longrightarrow> id_ok base t c0"
  shows "lowers base N c0 c \<Longrightarrow> linv base N c \<Longrightarrow> return_fields lib mp dflt i off args c = (fs, c') \<Longrightarrow>
    (\<Union>f \<in> set fs. alias_of (ephemeral_types c') (fld_type f))
      = (\<Union>k \<in> {i..<i + length args}. case mp k of Some t \<Rightarrow> alias_of (ephemeral_types c') t | None \<Rightarrow> {})"
proof (induction args arbitrary: i off c fs)
  case (Cons arg args)
  let ?r = "case mp i of Some ty_id \<Rightarrow> (ty_id, c) | None \<Rightarrow> build_terminal_type lib dflt c"
  have 1: "lowers base N c (snd ?r)" "id_ok base (fst ?r) (snd ?r)"
    using build_terminal_type_ok [OF Cons.prems(2), of lib dflt] lowers_refl [OF Cons.prems(2)] mp
      id_ok_mono [OF _ Cons.prems(1)] by (auto split: option.splits)
  note inv1 = lowersD(1) [OF 1(1)]
  have own: "alias_of (ephemeral_types (snd ?r)) (fst ?r) = (case mp i of Some t \<Rightarrow> alias_of (ephemeral_types (snd ?r)) t | None \<Rightarrow> {})"
  proof (cases "mp i")
    case None
    then show ?thesis using build_terminal_type_ok [OF Cons.prems(2), of lib dflt] by (simp add: alias_of_def)
  qed simp
  obtain gs where gs: "return_fields lib mp dflt (i + 1) (off + ll_arg_bits lib arg div 8) args (snd ?r) = (gs, c')"
    "fs = \<lparr>byte_offset = off, bit_sz = ll_arg_bits lib arg, fld_type = fst ?r\<rparr> # gs"
    using Cons.prems(3) by (cases "return_fields lib mp dflt (i + 1) (off + ll_arg_bits lib arg div 8) args (snd ?r)") (simp add: split_beta Let_def)
  have low2: "lowers base N (snd ?r) c'"
    using return_fields_ok [OF mp lowers_trans [OF Cons.prems(1) 1(1)] inv1, of lib dflt "i + 1" "off + ll_arg_bits lib arg div 8" args]
    unfolding gs(1) by simp
  note rest = Cons.IH [OF lowers_trans [OF Cons.prems(1) 1(1)] inv1 gs(1)]
  have "alias_of (ephemeral_types c') (fst ?r) = (case mp i of Some t \<Rightarrow> alias_of (ephemeral_types c') t | None \<Rightarrow> {})"
  proof (cases "mp i")
    case None
    then show ?thesis using own alias_of_mono [OF inv1 1(2) low2] by simp
  qed simp
  moreover have "{i..<i + length (arg # args)} = insert i {i + 1..<i + 1 + length args}" by auto
  ultimately show ?case unfolding gs(2) using rest by simp
qed simp

lemma function_meanings:
  assumes c: "linv base N c" and N: "targets_in (ll_pg lib) (lc_graph c) N"
    and run: "build_function_types lib nd c = (tys, c')" and es: "es = edges_directed (ll_pg lib) (lc_graph c) nd Outgoing"
    and n: "n = (case out_params c nd of Some args \<Rightarrow> length args | None \<Rightarrow> 0)"
  shows "(\<Union>ty \<in> set tys. meanings (ephemeral_types c') ty) = {Takes i t | t i. (In i, t) \<in> labels_of es} \<union> result_meanings n (labels_of es)"
proof -
  let ?A = "labels_of es"
  obtain ins c1 where 1: "collect_params lib in_index nd c = (ins, c1)" by fastforce
  obtain outs0 c2 where 2: "collect_params lib out_index nd c1 = (outs0, c2)" by fastforce
  have low1: "lowers base N c c1" using collect_params_ok [OF c N, of in_index nd] by (simp add: 1)
  note inv1 = lowersD(1) [OF low1]
  have N1: "targets_in (ll_pg lib) (lc_graph c1) N" and es1: "es = edges_directed (ll_pg lib) (lc_graph c1) nd Outgoing"
    using N es lowersD(4) [OF low1] by simp_all
  have low2: "lowers base N c1 c2" using collect_params_ok [OF inv1 N1, of out_index nd] by (simp add: 2)
  note inv2 = lowersD(1) [OF low2]
  note I = collect_params_meaning [OF c N 1 es]
  note O = collect_params_meaning [OF inv1 N1 2 es1]
  let ?outs = "sort_key param_index outs0"
  define args where "args = (case out_params c2 nd of Some args \<Rightarrow> args | None \<Rightarrow> [])"
  have n_args: "n = length args" using n lowersD(5) [OF lowers_trans [OF low1 low2]] by (auto simp: args_def split: option.splits)
  let ?ret = "build_return_type_structure lib args ?outs (default_lattice_elem c2) c2"
  let ?add = "add_type (fst ?ret) (snd ?ret)"
  define r where "r = (if length ?outs > 1 \<or> length args > 1 then (Some (fst ?add), snd ?add)
             else (case ?outs of [] \<Rightarrow> None | x # _ \<Rightarrow> Some (param_type x), c2))"
  have run': "tys = (if ins \<noteq> [] \<or> ?outs \<noteq> [] then [CFunction ins (fst r)] else [])" "c' = snd r"
    using run unfolding build_function_types_def 1 2 Let_def prod.case r_def args_def by (auto simp: split_beta split: if_splits)
  have in_iff: "in_index w = Some i \<longleftrightarrow> w = In i" and out_iff: "out_index w = Some i \<longleftrightarrow> w = Out i" for w i
    by (cases w; simp)+
  have outs_idx: "param_index ` set outs0 = {i. \<exists>t. (Out i, t) \<in> ?A}" using O(2) by (simp add: out_iff)
  have card: "length ?outs > 1 \<longleftrightarrow> (\<exists>j k u v. (Out j, u) \<in> ?A \<and> (Out k, v) \<in> ?A \<and> j \<noteq> k)"
  proof -
    have "length ?outs = card (param_index ` set outs0)" using O(3) by (metis distinct_card length_map length_sort set_map)
    moreover have "card S > 1 \<longleftrightarrow> (\<exists>x \<in> S. \<exists>y \<in> S. x \<noteq> y)" if "finite S" for S :: "nat set"
      using card_le_Suc0_iff_eq [OF that] by (metis One_nat_def not_le)
    ultimately have "length ?outs > 1 \<longleftrightarrow> (\<exists>j \<in> param_index ` set outs0. \<exists>k \<in> param_index ` set outs0. j \<noteq> k)"
      by (metis List.finite_set finite_imageI)
    then show ?thesis unfolding outs_idx by blast
  qed
  have R: "lowers base N c2 (snd r) \<and> (case fst r of None \<Rightarrow> {} | Some i \<Rightarrow> Returns ` returned (ephemeral_types (snd r)) i) = result_meanings n ?A"
  proof (cases "length ?outs > 1 \<or> length args > 1")
    case True
    let ?mp = "map_of (rev (map (\<lambda>x. (param_index x, param_type x)) ?outs))"
    have mp: "?mp k = Some t \<longleftrightarrow> (\<exists>p \<in> set outs0. param_index p = k \<and> param_type p = t)" for k t
    proof -
      have "distinct (map param_index ?outs)" using O(3) by (metis distinct_map distinct_sort set_sort)
      then have "distinct (map fst (rev (map (\<lambda>x. (param_index x, param_type x)) ?outs)))"
        by (simp only: rev_map [symmetric] distinct_rev map_map o_def fst_conv)
      from map_of_eq_Some_iff [OF this] show ?thesis by auto
    qed
    obtain fs c3 where fs: "return_fields lib ?mp (default_lattice_elem c2) 0 0 args c2 = (fs, c3)" by fastforce
    have ret: "?ret = (CStructure fs, c3)" by (simp add: build_return_type_structure_def fs)
    have ids: "\<forall>i t. ?mp i = Some t \<longrightarrow> id_ok base t c2"
    proof (intro allI impI)
      fix i t assume "?mp i = Some t"
      then obtain p where "p \<in> set outs0" "param_type p = t" using iffD1 [OF mp] by blast
      then show "id_ok base t c2" using O(1) by blast
    qed
    have low3: "lowers base N c2 c3" and ok: "type_ok base N (CStructure fs) c3"
      using build_return_type_structure_ok [OF inv2, of ?outs lib args "default_lattice_elem c2"] O(1) unfolding ret by auto
    note inv3 = lowersD(1) [OF low3]
    have low4: "lowers base N c3 (snd ?add)" and new: "ephemeral_types (snd ?add) (fst ?add) = Some (CStructure fs)"
      using add_type_ok [OF inv3 ok] unfolding ret by auto
    have "returned (ephemeral_types (snd ?add)) (fst ?add) = (\<Union>f \<in> set fs. alias_of (ephemeral_types c3) (fld_type f))"
      using new ok alias_of_mono [OF inv3 _ low4] by (simp add: returned_def)
    also have "\<dots> = (\<Union>k \<in> {0..<0 + length args}. case ?mp k of Some t \<Rightarrow> alias_of (ephemeral_types c3) t | None \<Rightarrow> {})"
      by (rule return_fields_spec [OF ids lowers_refl [OF inv2] inv2 fs])
    also have "\<dots> = {t. \<exists>i < n. (Out i, t) \<in> ?A}"
    proof -
      have "(case ?mp k of Some t \<Rightarrow> alias_of (ephemeral_types c3) t | None \<Rightarrow> {}) = {t. (Out k, t) \<in> ?A}" for k
      proof (cases "?mp k")
        case None
        then have "k \<notin> param_index ` set outs0" using mp by (metis imageE option.distinct(1))
        then show ?thesis using None outs_idx by auto
      next
        case (Some t)
        then obtain p where p: "p \<in> set outs0" "param_index p = k" "param_type p = t" using iffD1 [OF mp] by blast
        then have "alias_of (ephemeral_types c3) t = alias_of (ephemeral_types c2) t"
          using alias_of_mono [OF inv2 _ low3] O(1) by blast
        then show ?thesis using Some p O(1) by (auto simp: out_iff)
      qed
      then show ?thesis unfolding n_args by auto
    qed
    finally have "returned (ephemeral_types (snd ?add)) (fst ?add) = {t. \<exists>i < n. (Out i, t) \<in> ?A}" .
    moreover have "n > 1 \<or> (\<exists>j k u v. (Out j, u) \<in> ?A \<and> (Out k, v) \<in> ?A \<and> j \<noteq> k)" using True card n_args by blast
    ultimately show ?thesis
      unfolding r_def if_P [OF True] using lowers_trans [OF low3 low4] by (auto simp: result_meanings_def image_iff)
  next
    case False
    then have few: "\<not> (n > 1 \<or> (\<exists>j k u v. (Out j, u) \<in> ?A \<and> (Out k, v) \<in> ?A \<and> j \<noteq> k))" using card n_args by blast
    have res: "result_meanings n ?A = {Returns t | t i. (Out i, t) \<in> ?A}" unfolding result_meanings_def if_not_P using few by blast
    have r: "r = (case ?outs of [] \<Rightarrow> None | x # _ \<Rightarrow> Some (param_type x), c2)" unfolding r_def by (rule if_not_P [OF False])
    show ?thesis
    proof (cases ?outs)
      case Nil
      then have "outs0 = []" by (metis length_0_conv length_sort)
      then have "{i. \<exists>t. (Out i, t) \<in> ?A} = {}" using outs_idx by simp
      then show ?thesis unfolding res r Nil using lowers_refl [OF inv2] by auto
    next
      case (Cons p ps)
      then have "ps = []" using False by (cases ps) auto
      then have "outs0 = [p]" using Cons by (metis mset_sort mset_single_iff_right mset.simps)
      then have p: "p \<in> set outs0" "{i. \<exists>t. (Out i, t) \<in> ?A} = {param_index p}" using outs_idx by auto
      have only: "(Out i, t) \<in> ?A \<Longrightarrow> i = param_index p" for i t using p(2) by blast
      then have "returned (ephemeral_types c2) (param_type p) = {t. \<exists>i. (Out i, t) \<in> ?A}"
        using O(1) p(1) by (auto simp: out_iff)
      then show ?thesis unfolding res r Cons using lowers_refl [OF inv2] by auto
    qed
  qed
  have low: "lowers base N c1 (snd r)" using R low2 lowers_trans by blast
  have takes: "(\<Union>p \<in> set ins. Takes (param_index p) ` alias_of (ephemeral_types (snd r)) (param_type p)) = {Takes i t | t i. (In i, t) \<in> ?A}"
  proof -
    have "alias_of (ephemeral_types (snd r)) (param_type p) = {t. (In (param_index p), t) \<in> ?A}" if "p \<in> set ins" for p
      using I(1) that alias_of_mono [OF inv1 _ low] by (auto simp: in_iff)
    then have "(\<Union>p \<in> set ins. Takes (param_index p) ` alias_of (ephemeral_types (snd r)) (param_type p))
        = (\<Union>i \<in> param_index ` set ins. Takes i ` {t. (In i, t) \<in> ?A})" by simp
    then show ?thesis unfolding I(2) by (auto simp: in_iff)
  qed
  show ?thesis
  proof (cases "ins \<noteq> [] \<or> ?outs \<noteq> []")
    case True
    then show ?thesis unfolding run' using takes R by simp
  next
    case False
    then have "ins = []" "outs0 = []" by (simp_all, metis length_0_conv length_sort)
    then have "{i. \<exists>t. (In i, t) \<in> ?A} = {}" "{i. \<exists>t. (Out i, t) \<in> ?A} = {}" using I(2) outs_idx by (auto simp: in_iff)
    then show ?thesis unfolding run' using False by (auto simp: result_meanings_def)
  qed
qed


section \<open>All types of a node\<close>

lemma add_type_meaning:
  assumes c: "linv base N c" and ty: "type_ok base N ty c"
  shows "meanings (ephemeral_types (snd (add_type ty c))) ty = meanings (ephemeral_types c) ty"
  using meanings_mono [OF c ty] add_type_ok [OF c ty] by blast

lemma not_union: "\<forall>S. ty \<noteq> CUnion S \<Longrightarrow> eph i = Some ty \<Longrightarrow> id_meanings eph i = meanings eph ty"
  by (cases ty) (simp_all add: id_meanings_def)

lemma type_ok_stored:
  assumes c: "linv base N c" and "ephemeral_types c j = Some ty"
  shows "type_ok base N ty c"
proof -
  have "j < curr_id c" using assms by (auto simp: linv_def)
  moreover have "type_refs ty \<subseteq> {base..<j}" "alias_targets ty \<subseteq> N" using assms unfolding linv_def by blast+
  ultimately show ?thesis unfolding type_ok_def by fastforce
qed

text \<open>No single type of a node is a union.\<close>

lemma pointer_kind: "\<forall>ty \<in> set (fst (map_ctx (\<lambda>tgt c. let (ty_id, c1) = add_type (CAlias tgt) c in (CPointer ty_id, c1)) xs c)). \<exists>p. ty = CPointer p"
  by (induction xs arbitrary: c) (auto simp: split_beta Let_def)

lemma lowered_kinds:
  assumes lib: "is_peek (ll_peek lib)" "is_drain (ll_drain lib)"
    and "build_structure_types lib nd c = Some (structs, c1)" "build_pointer_types lib nd c1 = (ptrs, c2)" "build_function_types lib nd c2 = (funs, c3)"
  shows "\<forall>ty \<in> set (structs @ build_alias_types (ll_pg lib) (lc_graph c1) nd @ ptrs @ funs). \<forall>S. ty \<noteq> CUnion S"
proof -
  have "\<forall>ty \<in> set structs. \<forall>S. ty \<noteq> CUnion S"
  proof (cases "has_non_zero_fields (ll_pg lib) (lc_graph c) nd")
    case True
    then obtain flds where "schedule_structures (ll_peek lib) (ll_drain lib) flds = Some structs"
      using assms(3) by (auto simp: build_structure_types_def split_beta Let_def)
    then show ?thesis using scheduled_fields [OF lib, of flds] by auto
  qed (use assms(3) in \<open>simp add: build_structure_types_def\<close>)
  moreover have ptrs: "ptrs = fst (build_pointer_types lib nd c1)" using assms(4) by simp
  have "\<forall>ty \<in> set ptrs. \<exists>p. ty = CPointer p"
    unfolding ptrs build_pointer_types_def by (rule pointer_kind)
  then have "\<forall>ty \<in> set ptrs. \<forall>S. ty \<noteq> CUnion S" by blast
  moreover have "\<forall>ty \<in> set funs. \<forall>S. ty \<noteq> CUnion S"
    using assms(5) by (auto simp: build_function_types_def split_beta Let_def split: if_splits)
  moreover have "\<forall>ty \<in> set (build_alias_types (ll_pg lib) (lc_graph c1) nd). \<forall>S. ty \<noteq> CUnion S"
    by (auto simp: build_alias_types_def)
  ultimately show ?thesis unfolding set_append ball_Un by (intro conjI)
qed

lemma id_meanings_mono:
  assumes c: "linv base N c" "id_ok base i c" and low: "lowers base N c c'"
  shows "id_meanings (ephemeral_types c') i = id_meanings (ephemeral_types c) i"
proof -
  obtain ty where ty: "ephemeral_types c i = Some ty" "\<forall>j \<in> type_refs ty. id_ok base j c" by (rule id_ok_type [OF c])
  have one: "(case ephemeral_types c' q of Some t \<Rightarrow> meanings (ephemeral_types c') t | None \<Rightarrow> {})
      = (case ephemeral_types c q of Some t \<Rightarrow> meanings (ephemeral_types c) t | None \<Rightarrow> {})" if q: "id_ok base q c" for q
  proof -
    obtain t where t: "ephemeral_types c q = Some t" by (rule id_ok_type [OF c(1) q])
    then show ?thesis using eph_mono [OF low t] meanings_mono [OF c(1) type_ok_stored [OF c(1) t] low] by simp
  qed
  show ?thesis
  proof (cases "\<exists>S. ty = CUnion S")
    case True
    then obtain S where S: "ty = CUnion S" ..
    have "ephemeral_types c' i = Some (CUnion S)" using eph_mono [OF low ty(1)] S by simp
    then show ?thesis using ty S one by (simp add: id_meanings_def)
  next
    case False
    then show ?thesis
      using not_union [of ty "ephemeral_types c'" i] not_union [of ty "ephemeral_types c" i] eph_mono [OF low ty(1)] ty(1)
        meanings_mono [OF c(1) type_ok_stored [OF c(1) ty(1)] low] by simp
  qed
qed

lemma members_meaning:
  assumes c: "linv base N c" and tys: "\<forall>ty \<in> set tys. type_ok base N ty c"
    and run: "map_ctx add_type tys c = (ids, c')"
  shows "(\<Union>q \<in> set ids. case ephemeral_types c' q of Some ty \<Rightarrow> meanings (ephemeral_types c') ty | None \<Rightarrow> {})
    = (\<Union>ty \<in> set tys. meanings (ephemeral_types c) ty)"
proof -
  have "lowers base N c c' \<and> list_all2 (\<lambda>ty i. ephemeral_types c' i = Some ty) tys ids"
    using c tys run
  proof (induction tys arbitrary: c ids)
    case Nil
    then show ?case by (auto intro: lowers_refl)
  next
    case (Cons ty tys)
    let ?c1 = "snd (add_type ty c)"
    have 1: "lowers base N c ?c1" "ephemeral_types ?c1 (fst (add_type ty c)) = Some ty" using add_type_ok [OF Cons.prems(1)] Cons.prems(2) by auto
    have tys1: "\<forall>ty \<in> set tys. type_ok base N ty ?c1" using Cons.prems(2) type_ok_mono [OF _ 1(1)] by auto
    obtain js where js: "map_ctx add_type tys ?c1 = (js, c')" "ids = fst (add_type ty c) # js"
      using Cons.prems(3) by (cases "map_ctx add_type tys ?c1") (simp add: split_beta Let_def)
    note 2 = Cons.IH [OF lowersD(1) [OF 1(1)] tys1 js(1)]
    show ?case using 2 lowers_trans [OF 1(1)] eph_mono [OF conjunct1 [OF 2] 1(2)] unfolding js(2) by simp
  qed
  then have low: "lowers base N c c'" and all: "list_all2 (\<lambda>ty i. ephemeral_types c' i = Some ty) tys ids" by blast+
  have "(\<Union>q \<in> set ids. case ephemeral_types c' q of Some ty \<Rightarrow> meanings (ephemeral_types c') ty | None \<Rightarrow> {})
      = (\<Union>ty \<in> set tys. meanings (ephemeral_types c') ty)"
    using all by (induction rule: list_all2_induct) auto
  then show ?thesis using meanings_mono [OF c _ low] tys by simp
qed

lemma build_type_meaning:
  assumes lib: "is_peek (ll_peek lib)" "is_drain (ll_drain lib)" and c: "linv base N c" and N: "targets_in (ll_pg lib) (lc_graph c) N"
    and run: "build_type lib nd c = Some (i, c')" and es: "es = edges_directed (ll_pg lib) (lc_graph c) nd Outgoing"
    and n: "n = (case out_params c nd of Some args \<Rightarrow> length args | None \<Rightarrow> 0)"
  shows "id_meanings (ephemeral_types c') i = node_meaning n (labels_of es)"
proof (cases "es = []")
  case True
  then obtain b where b: "build_terminal_type lib b c = (i, c')" using run by (auto simp: build_type_def es)
  have "ephemeral_types c' i = Some (CPrimitive (ll_elem_name lib (get_upper b)))" using build_terminal_type_ok [OF c, of lib b] by (simp add: b)
  then show ?thesis using True by (simp add: id_meanings_def node_meaning_def labels_of_def has_offset_field_def result_meanings_def)
next
  case False
  obtain structs c1 where 1: "build_structure_types lib nd c = Some (structs, c1)" "lowers base N c c1"
    "\<forall>ty \<in> set structs. type_ok base N ty c1"
    using build_structure_types_ok [OF lib c N, of nd] by blast
  note inv1 = lowersD(1) [OF 1(2)]
  have N1: "targets_in (ll_pg lib) (lc_graph c1) N" and es1: "es = edges_directed (ll_pg lib) (lc_graph c1) nd Outgoing"
    using N es lowersD(4) [OF 1(2)] by simp_all
  obtain ptrs c2 where 2: "build_pointer_types lib nd c1 = (ptrs, c2)" by fastforce
  note B = build_pointer_types_ok [OF inv1 N1, of nd, unfolded 2 fst_conv snd_conv]
  note inv2 = lowersD(1) [OF conjunct1 [OF B]]
  have N2: "targets_in (ll_pg lib) (lc_graph c2) N" and es2: "es = edges_directed (ll_pg lib) (lc_graph c2) nd Outgoing"
    using N1 es1 lowersD(4) [OF conjunct1 [OF B]] by simp_all
  obtain funs c3 where 3: "build_function_types lib nd c2 = (funs, c3)" by fastforce
  note C = build_function_types_ok [OF inv2 N2, of nd, unfolded 3 fst_conv snd_conv]
  have n2: "n = (case out_params c2 nd of Some args \<Rightarrow> length args | None \<Rightarrow> 0)"
    using n lowersD(5) [OF lowers_trans [OF 1(2) conjunct1 [OF B]]] by simp
  let ?al = "build_alias_types (ll_pg lib) (lc_graph c1) nd"
  define total where "total = structs @ ?al @ ptrs @ funs"
  have low: "lowers base N c c3" "lowers base N c1 c3" "lowers base N c2 c3" using 1(2) B C lowers_trans by blast+
  note inv3 = lowersD(1) [OF low(1)]
  have total: "\<forall>ty \<in> set total. type_ok base N ty c3"
    unfolding total_def using 1(3) B C low(2,3) build_alias_types_ok [OF N1] type_ok_mono by fastforce
  have parts: "(\<Union>ty \<in> set total. meanings (ephemeral_types c3) ty) = node_meaning n (labels_of es)"
  proof -
    have S: "(\<Union>ty \<in> set structs. meanings (ephemeral_types c3) ty) = (if has_offset_field (labels_of es) then field_meanings (labels_of es) else {})"
      unfolding structure_meanings [OF lib c N 1(1) es, symmetric] using meanings_mono [OF inv1 _ low(2)] 1(3) by simp
    have P: "(\<Union>ty \<in> set ptrs. meanings (ephemeral_types c3) ty) = {PointsTo t | t. (Load, t) \<in> labels_of es \<or> (Store, t) \<in> labels_of es}"
      unfolding pointer_meanings [OF inv1 N1 2 es1, symmetric] using meanings_mono [OF inv2 _ low(3)] B by simp
    show ?thesis
      unfolding total_def set_append UN_Un S P alias_meanings [OF es1, of "ephemeral_types c3"] function_meanings [OF inv2 N2 3 es2 n2]
        node_meaning_def by (cases "has_offset_field (labels_of es)") (simp_all only: if_True if_False simp_thms Un_ac Un_empty_left Un_empty_right)
  qed
  have nonunion: "\<forall>ty \<in> set total. \<forall>S. ty \<noteq> CUnion S"
    using lowered_kinds [OF lib 1(1) 2 3] unfolding total_def by blast
  have ne: "edges_directed (ll_pg lib) (lc_graph c) nd Outgoing \<noteq> []" using False es by simp
  have step: "build_type lib nd c = (case total of [ty] \<Rightarrow> Some (add_type ty c3)
      | _ \<Rightarrow> (let (ids, c4) = map_ctx add_type total c3 in Some (add_type (CUnion (set ids)) c4)))"
    unfolding build_type_def if_not_P [OF ne] 1(1) Option.bind.bind_lunit prod.case Let_def 2 3 total_def [symmetric] ..
  show ?thesis
  proof (cases "\<exists>ty. total = [ty]")
    case True
    then obtain ty where ty: "total = [ty]" ..
    then have add: "add_type ty c3 = (i, c')" using run step by simp
    have "type_ok base N ty c3" using total ty by simp
    from add_type_ok [OF inv3 this] add_type_meaning [OF inv3 this]
    have "ephemeral_types c' i = Some ty" "meanings (ephemeral_types c') ty = meanings (ephemeral_types c3) ty" by (simp_all add: add)
    then show ?thesis using not_union [of ty] nonunion parts ty by simp
  next
    case many: False
    obtain ids c4 where ids: "map_ctx add_type total c3 = (ids, c4)" by fastforce
    have add: "add_type (CUnion (set ids)) c4 = (i, c')" using run many unfolding step ids by (auto split: list.splits)
    have m: "lowers base N c3 c4" "\<forall>i \<in> set ids. id_ok base i c4" using map_ids_ok [OF inv3 total] by (simp_all add: ids)
    note inv4 = lowersD(1) [OF m(1)]
    have new: "lowers base N c4 c'" "ephemeral_types c' i = Some (CUnion (set ids))"
      using add_type_ok [OF inv4, of "CUnion (set ids)"] m(2) by (simp_all add: add)
    have one: "(case ephemeral_types c' q of Some t \<Rightarrow> meanings (ephemeral_types c') t | None \<Rightarrow> {})
      = (case ephemeral_types c4 q of Some t \<Rightarrow> meanings (ephemeral_types c4) t | None \<Rightarrow> {})" if q: "q \<in> set ids" for q
    proof -
      obtain t where t: "ephemeral_types c4 q = Some t" using id_ok_type [OF inv4, of q] m(2) q by metis
      then have "type_ok base N t c4" by (rule type_ok_stored [OF inv4])
      then show ?thesis using t eph_mono [OF new(1) t] meanings_mono [OF inv4 _ new(1)] by simp
    qed
    have "id_meanings (ephemeral_types c') i = (\<Union>q \<in> set ids. case ephemeral_types c4 q of Some t \<Rightarrow> meanings (ephemeral_types c4) t | None \<Rightarrow> {})"
      using new(2) one by (simp add: id_meanings_def)
    then show ?thesis using members_meaning [OF inv3 total ids] parts by simp
  qed
qed


lemma collect_ctypes_meaning_spec:
  assumes lib: "is_peek (ll_peek lib)" "is_drain (ll_drain lib)" and N: "targets_in (ll_pg lib) g N"
  shows "linv base N c \<Longrightarrow> lc_graph c = g \<Longrightarrow> out_params c = op \<Longrightarrow>
    \<forall>nd i. types nd = Some i \<longrightarrow> id_ok base i c \<and> id_meanings (ephemeral_types c) i = M nd \<Longrightarrow>
    (\<And>nd. M nd = node_meaning (case op nd of Some args \<Rightarrow> length args | None \<Rightarrow> 0) (labels_of (edges_directed (ll_pg lib) g nd Outgoing))) \<Longrightarrow>
    \<forall>nd \<in> set nds. pg_node_weight (ll_pg lib) g nd \<noteq> None \<Longrightarrow>
    fold_opt (\<lambda>nd (types, c). map_option (\<lambda>(ty_id, c'). (types(nd \<mapsto> ty_id), c')) (build_type lib nd c)) nds (types, c)
        = Some (types', c') \<Longrightarrow>
    \<forall>nd i. types' nd = Some i \<longrightarrow> id_meanings (ephemeral_types c') i = M nd"
proof (induction nds arbitrary: types c)
  case (Cons nd nds)
  obtain b where b: "pg_node_weight (ll_pg lib) (lc_graph c) nd = Some b" using Cons.prems(2,6) by auto
  have Nc: "targets_in (ll_pg lib) (lc_graph c) N" using N Cons.prems(2) by simp
  obtain i c1 where 1: "build_type lib nd c = Some (i, c1)" "lowers base N c c1" "id_ok base i c1"
    using build_type_ok [OF lib Cons.prems(1) Nc b] by blast
  have mean: "id_meanings (ephemeral_types c1) i = M nd"
    using build_type_meaning [OF lib Cons.prems(1) Nc 1(1) refl refl] Cons.prems(2,3,5) by simp
  have old: "id_ok base j c1 \<and> id_meanings (ephemeral_types c1) j = M m" if "types m = Some j" for m j
    using Cons.prems(4) that id_meanings_mono [OF Cons.prems(1) _ 1(2)] id_ok_mono [OF _ 1(2)] by simp
  have types1: "\<forall>m j. (types(nd \<mapsto> i)) m = Some j \<longrightarrow> id_ok base j c1 \<and> id_meanings (ephemeral_types c1) j = M m"
    using old 1(3) mean by simp
  have "fold_opt (\<lambda>nd (types, c). map_option (\<lambda>(ty_id, c'). (types(nd \<mapsto> ty_id), c')) (build_type lib nd c)) (nd # nds) (types, c)
      = fold_opt (\<lambda>nd (types, c). map_option (\<lambda>(ty_id, c'). (types(nd \<mapsto> ty_id), c')) (build_type lib nd c)) nds (types(nd \<mapsto> i), c1)"
    by (simp add: 1(1))
  note rest = Cons.prems(7) [unfolded this]
  have g1: "lc_graph c1 = g" "out_params c1 = op" using lowersD(4,5) [OF 1(2)] Cons.prems(2,3) by simp_all
  show ?case
    by (rule Cons.IH [OF lowersD(1) [OF 1(2)] g1 types1 Cons.prems(5) _ rest]) (use Cons.prems(6) in simp)
qed simp

section \<open>Properties\<close>


text \<open>
  C4. The type of a node says exactly what its edges say: it points to the targets of loads and
  stores, has the fields at their offsets (or stands for the targets, when all fields are at offset
  zero), takes the parameters and returns the results.  Only fields at negative offsets are lost, and, when
  several results are packed into a structure, those beyond the known return locations.
\<close>

theorem lowered_type_meaning:
  assumes "stable_digraph (ll_pg lib) ok" "is_peek (ll_peek lib)" "is_drain (ll_drain lib)" "ok (mg_grph (quotient_graph grph))"
    and "collect_ctypes lib (lowering_context_new lib grph tids args dflt) = Some (types, eph)" "types nd = Some i"
  shows "id_meanings eph i = node_meaning (case out_params (lowering_context_new lib grph tids args dflt) nd of Some as \<Rightarrow> length as | None \<Rightarrow> 0)
    {(w, t). (nd, w, t) \<in> weighted_arcs (ll_pg lib) (mg_grph (quotient_graph grph))}"
proof -
  let ?G = "ll_pg lib" and ?g = "mg_grph (quotient_graph grph)" and ?c = "lowering_context_new lib grph tids args dflt"
  let ?M = "\<lambda>nd. node_meaning (case out_params ?c nd of Some args \<Rightarrow> length args | None \<Rightarrow> 0) (labels_of (edges_directed ?G ?g nd Outgoing))"
  have graph: "lc_graph ?c = ?g" by (simp add: lowering_context_new_def)
  obtain c' where run: "fold_opt (\<lambda>nd (types, c). map_option (\<lambda>(ty_id, c'). (types(nd \<mapsto> ty_id), c')) (build_type lib nd c))
      (pg_node_indices ?G ?g) (Map.empty, ?c) = Some (types, c')" "eph = ephemeral_types c'"
    using assms(5) by (auto simp: collect_ctypes_def graph)
  have nodes: "\<forall>nd \<in> set (pg_node_indices ?G ?g). pg_node_weight ?G ?g nd \<noteq> None"
    using stable_digraph.node_indices_laws [OF assms(1,4)] by simp
  have empty: "\<forall>nd i. Map.empty nd = Some i \<longrightarrow> id_ok (curr_id ?c) i ?c \<and> id_meanings (ephemeral_types ?c) i = ?M nd" by simp
  have "\<forall>nd i. types nd = Some i \<longrightarrow> id_meanings (ephemeral_types c') i = ?M nd"
    by (rule collect_ctypes_meaning_spec [OF assms(2,3) targets_in_nodes [OF assms(1,4)] linv_start graph refl empty refl nodes run(1)])
  moreover have "labels_of (edges_directed ?G ?g nd Outgoing) = {(w, t). (nd, w, t) \<in> weighted_arcs ?G ?g}"
  proof (rule set_eqI)
    fix x :: "field_label \<times> nat"
    obtain w t where x: "x = (w, t)" by (cases x)
    show "x \<in> labels_of (edges_directed ?G ?g nd Outgoing) \<longleftrightarrow> x \<in> {(w, t). (nd, w, t) \<in> weighted_arcs ?G ?g}"
      unfolding x labels_of_iff stable_digraph.set_edges_directed [OF assms(1,4)] by (auto simp: weighted_arcs_def edge_at_def)
  qed
  ultimately show ?thesis using assms(6) run(2) by simp
qed

end
