(* ===== verification/CTypeMessages.thy ===== *)
theory CTypeMessages
  imports LoweringMeaning "HOL-Library.Word"
begin

text \<open>
  The messages that carry the C types out of the program (the conversions of
  \<^verbatim>\<open>src/lowering/mod.rs\<close> to the messages of \<^verbatim>\<open>data_formats/ctypes.proto\<close>).
  Identifiers, indices, offsets and sizes become 32-bit numbers; a number that does not fit is a
  panic, the value \<^const>\<open>None\<close>.  A message \<^verbatim>\<open>TypeId\<close> is its number.
\<close>

section \<open>Messages\<close>

type_synonym u32 = "32 word"

definition try_u32 :: "nat \<Rightarrow> u32 option" where
  "try_u32 n = (if n < 2 ^ 32 then Some (word_of_nat n) else None)"

record pb_field =
  pb_bit_size :: u32
  pb_byte_offset :: u32
  pb_field_type :: "u32 option"

record pb_parameter =
  pb_parameter_index :: u32
  pb_type_index :: "u32 option"

record pb_function =
  pb_parameters :: "pb_parameter list"
  pb_return_type :: "u32 option"
  pb_has_return :: bool

datatype pb_inner_type =
    PBFunction pb_function
  | PBStructure "pb_field list"
  | PBAlias "u32 option"
  | PBPrimitive string
  | PBPointer "u32 option"
  | PBUnion "u32 list"

record pb_ctype =
  pb_type_id :: "u32 option"
  pb_inner_type :: "pb_inner_type option"

section \<open>Conversion\<close>

definition convert_typeid :: "type_id \<Rightarrow> u32 option" where
  "convert_typeid ty_id = try_u32 ty_id"

definition field_to_protobuf :: "lowered_field \<Rightarrow> pb_field option" where
  "field_to_protobuf f =
     do { bits \<leftarrow> try_u32 (bit_sz f); off \<leftarrow> try_u32 (byte_offset f); ty \<leftarrow> convert_typeid (fld_type f);
          Some \<lparr>pb_bit_size = bits, pb_byte_offset = off, pb_field_type = Some ty\<rparr> }"

definition param_to_protobuf :: "parameter \<Rightarrow> pb_parameter option" where
  "param_to_protobuf p =
     do { idx \<leftarrow> try_u32 (param_index p); ty \<leftarrow> convert_typeid (param_type p);
          Some \<lparr>pb_parameter_index = idx, pb_type_index = Some ty\<rparr> }"

fun produce_inner_types :: "(nat \<Rightarrow> type_id option) \<Rightarrow> ctype \<Rightarrow> pb_inner_type option" where
  "produce_inner_types mp (CAlias tgt) =
     (case mp tgt of None \<Rightarrow> Some (PBAlias None) | Some tyid \<Rightarrow> map_option (\<lambda>t. PBAlias (Some t)) (convert_typeid tyid))"
| "produce_inner_types mp (CFunction params return_ty) =
     do { ps \<leftarrow> traverse param_to_protobuf params;
          (case return_ty of
             Some r \<Rightarrow> map_option (\<lambda>t. PBFunction \<lparr>pb_parameters = ps, pb_return_type = Some t, pb_has_return = True\<rparr>) (convert_typeid r)
           | None \<Rightarrow> Some (PBFunction \<lparr>pb_parameters = ps, pb_return_type = None, pb_has_return = False\<rparr>)) }"
| "produce_inner_types mp (CPointer target) = map_option (\<lambda>t. PBPointer (Some t)) (convert_typeid target)"
| "produce_inner_types mp (CPrimitive val) = Some (PBPrimitive val)"
| "produce_inner_types mp (CStructure flds) = map_option PBStructure (traverse field_to_protobuf flds)"
| "produce_inner_types mp (CUnion children) = map_option PBUnion (traverse convert_typeid (sorted_list_of_set children))"

definition convert_one :: "(nat \<Rightarrow> type_id option) \<Rightarrow> (type_id \<Rightarrow> ctype option) \<Rightarrow> type_id \<Rightarrow>
    (u32 \<Rightarrow> pb_ctype option) \<Rightarrow> (u32 \<Rightarrow> pb_ctype option) option" where
  "convert_one node_to_ty mp idx msgs =
     do { ty \<leftarrow> mp idx; inner \<leftarrow> produce_inner_types node_to_ty ty; k \<leftarrow> convert_typeid idx;
          Some (msgs(k \<mapsto> \<lparr>pb_type_id = Some k, pb_inner_type = Some inner\<rparr>)) }"

definition convert_mapping_to_protobuf :: "(type_id \<Rightarrow> ctype option) \<Rightarrow> (nat \<Rightarrow> type_id option) \<Rightarrow> (u32 \<Rightarrow> pb_ctype option) option" where
  "convert_mapping_to_protobuf mp node_to_ty =
     fold_opt (convert_one node_to_ty mp) (sorted_list_of_set (dom mp)) Map.empty"

section \<open>What a message holds\<close>

definition fits_u32 :: "nat \<Rightarrow> bool" where
  "fits_u32 n \<longleftrightarrow> n < 2 ^ 32"

lemma try_u32_None: "try_u32 n = None \<longleftrightarrow> \<not> fits_u32 n"
  by (simp add: try_u32_def fits_u32_def)

lemma try_u32_Some: "try_u32 n = Some w \<Longrightarrow> unat w = n"
  by (auto simp: try_u32_def unat_of_nat take_bit_eq_mod split: if_splits)

lemma try_u32_inj: "try_u32 m = Some w \<Longrightarrow> try_u32 n = Some w \<Longrightarrow> m = n"
  using try_u32_Some by blast

text \<open>The numbers that have to fit into a message.\<close>

fun numbers_of :: "(nat \<Rightarrow> type_id option) \<Rightarrow> ctype \<Rightarrow> nat set" where
  "numbers_of mp (CAlias tgt) = set_option (mp tgt)"
| "numbers_of mp (CFunction ps r) = param_index ` set ps \<union> param_type ` set ps \<union> set_option r"
| "numbers_of mp (CPointer t) = {t}"
| "numbers_of mp (CPrimitive _) = {}"
| "numbers_of mp (CStructure fs) = byte_offset ` set fs \<union> bit_sz ` set fs \<union> fld_type ` set fs"
| "numbers_of mp (CUnion S) = S"

lemma field_to_protobuf_None:
  "field_to_protobuf f = None \<longleftrightarrow> (\<exists>n \<in> {byte_offset f, bit_sz f, fld_type f}. \<not> fits_u32 n)"
  by (auto simp: field_to_protobuf_def convert_typeid_def try_u32_None bind_eq_None_conv)

lemma param_to_protobuf_None:
  "param_to_protobuf p = None \<longleftrightarrow> (\<exists>n \<in> {param_index p, param_type p}. \<not> fits_u32 n)"
  by (auto simp: param_to_protobuf_def convert_typeid_def try_u32_None bind_eq_None_conv)

lemma produce_inner_types_None:
  assumes "\<forall>S. ty = CUnion S \<longrightarrow> finite S"
  shows "produce_inner_types mp ty = None \<longleftrightarrow> (\<exists>n \<in> numbers_of mp ty. \<not> fits_u32 n)"
proof (cases ty)
  case (CFunction ps r)
  have "produce_inner_types mp ty = None \<longleftrightarrow> traverse param_to_protobuf ps = None \<or> (\<exists>t. r = Some t \<and> \<not> fits_u32 t)"
    unfolding CFunction by (auto simp: bind_eq_None_conv convert_typeid_def try_u32_None split: option.splits)
  then show ?thesis unfolding CFunction traverse_None_iff param_to_protobuf_None by (auto; fastforce)
qed (use assms in \<open>auto simp: traverse_None_iff field_to_protobuf_None convert_typeid_def try_u32_None split: option.splits\<close>)

text \<open>Reading a message back; an alias then names the type of the node it stands for.\<close>

fun resolved :: "(nat \<Rightarrow> type_id option) \<Rightarrow> ctype \<Rightarrow> ctype" where
  "resolved mp (CAlias tgt) = (case mp tgt of Some i \<Rightarrow> CAlias i | None \<Rightarrow> CUnion {})"
| "resolved mp ty = ty"

definition read_field :: "pb_field \<Rightarrow> lowered_field" where
  "read_field f = \<lparr>byte_offset = unat (pb_byte_offset f), bit_sz = unat (pb_bit_size f), fld_type = unat (the (pb_field_type f))\<rparr>"

definition read_param :: "pb_parameter \<Rightarrow> parameter" where
  "read_param p = \<lparr>param_index = unat (pb_parameter_index p), param_type = unat (the (pb_type_index p))\<rparr>"

fun read_inner :: "pb_inner_type \<Rightarrow> ctype" where
  "read_inner (PBAlias (Some t)) = CAlias (unat t)"
| "read_inner (PBAlias None) = CUnion {}"
| "read_inner (PBFunction f) = CFunction (map read_param (pb_parameters f))
     (if pb_has_return f then map_option unat (pb_return_type f) else None)"
| "read_inner (PBPointer t) = CPointer (unat (the t))"
| "read_inner (PBPrimitive s) = CPrimitive s"
| "read_inner (PBStructure fs) = CStructure (map read_field fs)"
| "read_inner (PBUnion ts) = CUnion (unat ` set ts)"

lemma traverse_map_back: "traverse f xs = Some ys \<Longrightarrow> (\<And>x y. f x = Some y \<Longrightarrow> g y = x) \<Longrightarrow> map g ys = xs"
proof (induction xs arbitrary: ys)
  case (Cons x xs)
  then show ?case by (auto split: option.splits bind_splits)
qed simp

lemma read_field_back: "field_to_protobuf f = Some m \<Longrightarrow> read_field m = f"
  by (auto simp: field_to_protobuf_def read_field_def convert_typeid_def try_u32_Some split: bind_splits)

lemma read_param_back: "param_to_protobuf p = Some m \<Longrightarrow> read_param m = p"
  by (auto simp: param_to_protobuf_def read_param_def convert_typeid_def try_u32_Some split: bind_splits)

lemma read_inner_back:
  assumes "produce_inner_types mp ty = Some inner" "\<forall>S. ty = CUnion S \<longrightarrow> finite S"
  shows "read_inner inner = resolved mp ty"
proof (cases ty)
  case (CFunction ps r)
  then obtain qs where qs: "traverse param_to_protobuf ps = Some qs" using assms(1) by (auto split: bind_splits)
  have "map read_param qs = ps" by (rule traverse_map_back [OF qs read_param_back])
  then show ?thesis using assms(1) qs CFunction by (auto simp: convert_typeid_def try_u32_Some split: option.splits)
next
  case (CStructure fs)
  then obtain qs where qs: "traverse field_to_protobuf fs = Some qs" "inner = PBStructure qs" using assms(1) by auto
  have "map read_field qs = fs" by (rule traverse_map_back [OF qs(1) read_field_back])
  then show ?thesis using qs(2) CStructure by simp
next
  case (CUnion S)
  then obtain ws where ws: "traverse convert_typeid (sorted_list_of_set S) = Some ws" "inner = PBUnion ws" using assms(1) by auto
  have "map unat ws = sorted_list_of_set S"
    by (rule traverse_map_back [OF ws(1)]) (simp add: convert_typeid_def try_u32_Some)
  then have "unat ` set ws = S" using assms(2) CUnion by (metis set_map set_sorted_list_of_set)
  then show ?thesis using ws(2) CUnion by simp
qed (use assms(1) in \<open>auto simp: convert_typeid_def try_u32_Some split: option.splits\<close>)

section \<open>All types\<close>

lemma convert_all:
  assumes "\<forall>i ty. mp i = Some ty \<longrightarrow> (\<forall>S. ty = CUnion S \<longrightarrow> finite S)"
  shows "distinct is \<Longrightarrow> set is \<subseteq> dom mp \<Longrightarrow> \<forall>i \<in> set is. try_u32 i \<noteq> None \<longrightarrow> msgs (the (try_u32 i)) = None \<Longrightarrow>
    (case fold_opt (convert_one types mp) is msgs of
       None \<Rightarrow> \<exists>i \<in> set is. \<exists>n \<in> insert i (numbers_of types (the (mp i))). \<not> fits_u32 n
     | Some msgs' \<Rightarrow> (\<forall>i \<in> set is. \<forall>n \<in> insert i (numbers_of types (the (mp i))). fits_u32 n)
         \<and> (\<forall>k. msgs' k = (if unat k \<in> set is then
              map_option (\<lambda>inner. \<lparr>pb_type_id = Some k, pb_inner_type = Some inner\<rparr>) (produce_inner_types types (the (mp (unat k))))
            else msgs k)))"
proof (induction "is" arbitrary: msgs)
  case (Cons i js)
  obtain ty where ty: "mp i = Some ty" using Cons.prems(2) by auto
  have fin: "\<forall>S. ty = CUnion S \<longrightarrow> finite S" using assms ty by blast
  show ?case
  proof (cases "\<exists>n \<in> insert i (numbers_of types ty). \<not> fits_u32 n")
    case True
    then have "convert_one types mp i msgs = None"
      using produce_inner_types_None [OF fin, of types] try_u32_None [of i]
      by (cases "produce_inner_types types ty") (auto simp: convert_one_def ty convert_typeid_def split: bind_splits)
    then show ?thesis using True ty by auto
  next
    case False
    then obtain inner k where ik: "produce_inner_types types ty = Some inner" "try_u32 i = Some k"
      using produce_inner_types_None [OF fin, of types] try_u32_None [of i] by auto
    define msgs1 where "msgs1 = msgs(k \<mapsto> \<lparr>pb_type_id = Some k, pb_inner_type = Some inner\<rparr>)"
    have msgs1: "msgs1 k' = (if k' = k then Some \<lparr>pb_type_id = Some k, pb_inner_type = Some inner\<rparr> else msgs k')" for k'
      by (simp add: msgs1_def)
    have "convert_one types mp i msgs = Some msgs1" by (simp add: convert_one_def ty ik convert_typeid_def msgs1_def)
    then have step: "fold_opt (convert_one types mp) (i # js) msgs = fold_opt (convert_one types mp) js msgs1" by simp
    have new: "\<forall>j \<in> set js. try_u32 j \<noteq> None \<longrightarrow> msgs1 (the (try_u32 j)) = None"
    proof (intro ballI impI)
      fix j assume j: "j \<in> set js" "try_u32 j \<noteq> None"
      then have "the (try_u32 j) \<noteq> k" using try_u32_inj ik(2) Cons.prems(1) by (metis distinct.simps(2) option.collapse)
      then show "msgs1 (the (try_u32 j)) = None" using Cons.prems(3) j by (simp add: msgs1)
    qed
    have k: "unat k = i" by (rule try_u32_Some [OF ik(2)])
    have keys: "unat k' = i \<longleftrightarrow> k' = k" for k' using k by (metis word_unat_eq_iff)
    have dist: "distinct js" "set js \<subseteq> dom mp" "i \<notin> set js" using Cons.prems(1,2) by auto
    show ?thesis
    proof (cases "fold_opt (convert_one types mp) js msgs1")
      case None
      then show ?thesis using Cons.IH [OF dist(1,2) new] unfolding step None option.case by (simp only: set_simps) blast
    next
      case (Some msgs')
      then have rest: "\<forall>j \<in> set js. \<forall>n \<in> insert j (numbers_of types (the (mp j))). fits_u32 n"
        "msgs' k' = (if unat k' \<in> set js then
              map_option (\<lambda>inner. \<lparr>pb_type_id = Some k', pb_inner_type = Some inner\<rparr>) (produce_inner_types types (the (mp (unat k'))))
            else msgs1 k')" for k'
        using Cons.IH [OF dist(1,2) new] by simp_all
      have fits: "\<forall>n \<in> insert i (numbers_of types (the (mp i))). fits_u32 n" using False ty by simp
      have "msgs' k' = (if unat k' \<in> set (i # js) then
              map_option (\<lambda>inner. \<lparr>pb_type_id = Some k', pb_inner_type = Some inner\<rparr>) (produce_inner_types types (the (mp (unat k'))))
            else msgs k')" for k'
        using rest(2) [of k'] keys [of k'] ik(1) ty k dist(3) msgs1 [of k'] by (cases "k' = k") simp_all
      then show ?thesis using rest(1) fits unfolding step Some option.case by (simp only: set_simps ball_simps) blast
    qed
  qed
qed simp

lemma convert_spec:
  assumes fin: "finite (dom mp)" "\<forall>i S. mp i = Some (CUnion S) \<longrightarrow> finite S"
  shows "case convert_mapping_to_protobuf mp types of
       None \<Rightarrow> \<exists>i ty n. mp i = Some ty \<and> n \<in> insert i (numbers_of types ty) \<and> \<not> fits_u32 n
     | Some msgs \<Rightarrow> (\<forall>i ty n. mp i = Some ty \<longrightarrow> n \<in> insert i (numbers_of types ty) \<longrightarrow> fits_u32 n)
         \<and> (\<forall>k. msgs k = (case mp (unat k) of None \<Rightarrow> None
              | Some ty \<Rightarrow> map_option (\<lambda>inner. \<lparr>pb_type_id = Some k, pb_inner_type = Some inner\<rparr>) (produce_inner_types types ty)))"
proof -
  have unions: "\<forall>i ty. mp i = Some ty \<longrightarrow> (\<forall>S. ty = CUnion S \<longrightarrow> finite S)" using fin(2) by blast
  have all: "case convert_mapping_to_protobuf mp types of
       None \<Rightarrow> \<exists>i \<in> dom mp. \<exists>n \<in> insert i (numbers_of types (the (mp i))). \<not> fits_u32 n
     | Some msgs' \<Rightarrow> (\<forall>i \<in> dom mp. \<forall>n \<in> insert i (numbers_of types (the (mp i))). fits_u32 n)
         \<and> (\<forall>k. msgs' k = (if unat k \<in> dom mp then
              map_option (\<lambda>inner. \<lparr>pb_type_id = Some k, pb_inner_type = Some inner\<rparr>) (produce_inner_types types (the (mp (unat k))))
            else None))"
    using convert_all [OF unions distinct_sorted_list_of_set, of "dom mp" Map.empty types]
    unfolding convert_mapping_to_protobuf_def set_sorted_list_of_set [OF fin(1)] by blast
  show ?thesis
  proof (cases "convert_mapping_to_protobuf mp types")
    case None
    then obtain i n where "i \<in> dom mp" "n \<in> insert i (numbers_of types (the (mp i)))" "\<not> fits_u32 n"
      using all by auto
    then show ?thesis unfolding None option.case by (metis domIff option.collapse)
  next
    case (Some msgs)
    have fits: "fits_u32 n" if "mp i = Some ty" "n \<in> insert i (numbers_of types ty)" for i ty n
      using all that unfolding Some option.case by (metis domI option.sel)
    have "msgs k = (case mp (unat k) of None \<Rightarrow> None
              | Some ty \<Rightarrow> map_option (\<lambda>inner. \<lparr>pb_type_id = Some k, pb_inner_type = Some inner\<rparr>) (produce_inner_types types ty))" for k
      using all unfolding Some option.case by (cases "mp (unat k)") (auto simp: dom_def)
    then show ?thesis unfolding Some option.case using fits by blast
  qed
qed

text \<open>What the lowering produces is finite.\<close>

lemma lowered_finite:
  assumes "stable_digraph (ll_pg lib) ok" "is_peek (ll_peek lib)" "is_drain (ll_drain lib)" "ok (mg_grph (quotient_graph grph))"
    and run: "collect_ctypes lib (lowering_context_new lib grph tids args dflt) = Some (types, eph)"
  shows "finite (dom eph)" "\<forall>i S. eph i = Some (CUnion S) \<longrightarrow> finite S"
    "\<forall>i ty n. eph i = Some ty \<longrightarrow> n \<in> alias_targets ty \<longrightarrow> types n \<noteq> None"
proof -
  obtain next' where d: "dom eph = {curr_id (lowering_context_new lib grph tids args dflt)..<next'}"
    and refs: "\<forall>i ty. eph i = Some ty \<longrightarrow> type_refs ty \<subseteq> dom eph \<inter> {..<i} \<and> alias_targets ty \<subseteq> dom types"
    using collect_ctypes_exact [OF assms(1-4), of tids args dflt] run by fastforce
  show fin: "finite (dom eph)" unfolding d by simp
  show "\<forall>i S. eph i = Some (CUnion S) \<longrightarrow> finite S"
    using refs fin by (metis finite_Int finite_subset type_refs.simps(6))
  show "\<forall>i ty n. eph i = Some ty \<longrightarrow> n \<in> alias_targets ty \<longrightarrow> types n \<noteq> None" using refs by blast
qed

section \<open>Properties\<close>

text \<open>
  C21. Writing the types as messages panics exactly when some identifier, offset, size or parameter
  index does not fit into 32 bits.
\<close>

theorem convert_mapping_panics_iff:
  assumes "finite (dom mp)" "\<forall>i S. mp i = Some (CUnion S) \<longrightarrow> finite S"
  shows "convert_mapping_to_protobuf mp types = None
    \<longleftrightarrow> (\<exists>i ty n. mp i = Some ty \<and> n \<in> insert i (numbers_of types ty) \<and> 2 ^ 32 \<le> n)"
proof (cases "convert_mapping_to_protobuf mp types")
  case None
  then show ?thesis using convert_spec [OF assms, of types] unfolding None option.case fits_u32_def not_less by simp
next
  case (Some msgs)
  then show ?thesis using convert_spec [OF assms, of types] unfolding Some option.case fits_u32_def by (metis not_le option.distinct(1))
qed

text \<open>
  C20. When it does not panic, the messages of a lowered graph give every type back under its
  number, with each alias resolved to the type of the node it stands for, and there are no others.
\<close>

theorem lowered_messages_roundtrip:
  assumes "stable_digraph (ll_pg lib) ok" "is_peek (ll_peek lib)" "is_drain (ll_drain lib)" "ok (mg_grph (quotient_graph grph))"
    and "collect_ctypes lib (lowering_context_new lib grph tids args dflt) = Some (types, eph)"
    and "convert_mapping_to_protobuf eph types = Some msgs"
  shows "(\<forall>i ty. eph i = Some ty \<longrightarrow> (\<exists>m. msgs (word_of_nat i) = Some m \<and> pb_type_id m = Some (word_of_nat i)
      \<and> map_option read_inner (pb_inner_type m) = Some (resolved types ty)))
    \<and> (\<forall>k m. msgs k = Some m \<longrightarrow> eph (unat k) \<noteq> None)"
proof -
  note fin = lowered_finite [OF assms(1-5)]
  have fits: "\<forall>i ty n. eph i = Some ty \<longrightarrow> n \<in> insert i (numbers_of types ty) \<longrightarrow> fits_u32 n"
    and msgs: "msgs k = (case eph (unat k) of None \<Rightarrow> None
              | Some ty \<Rightarrow> map_option (\<lambda>inner. \<lparr>pb_type_id = Some k, pb_inner_type = Some inner\<rparr>) (produce_inner_types types ty))" for k
    using convert_spec [OF fin(1,2), of types] unfolding assms(6) option.case by blast+
  have one: "\<exists>m. msgs (word_of_nat i) = Some m \<and> pb_type_id m = Some (word_of_nat i)
      \<and> map_option read_inner (pb_inner_type m) = Some (resolved types ty)" if ty: "eph i = Some ty" for i ty
  proof -
    have "try_u32 i = Some (word_of_nat i)" using fits ty by (auto simp: try_u32_def fits_u32_def)
    then have i: "unat (word_of_nat i :: u32) = i" by (rule try_u32_Some)
    have S: "\<forall>S. ty = CUnion S \<longrightarrow> finite S" using fin(2) ty by blast
    obtain inner where inner: "produce_inner_types types ty = Some inner"
      using produce_inner_types_None [OF S, of types] fits ty by auto
    then have "msgs (word_of_nat i) = Some \<lparr>pb_type_id = Some (word_of_nat i), pb_inner_type = Some inner\<rparr>"
      using msgs [of "word_of_nat i"] ty unfolding i by simp
    then show ?thesis using read_inner_back [OF inner S] by simp
  qed
  have "eph (unat k) \<noteq> None" if "msgs k = Some m" for k m
    using msgs [of k] that by (auto split: option.splits)
  then show ?thesis using one by blast
qed

section \<open>An example\<close>

text \<open>A function whose parameter is a pointer.\<close>

definition low_bounds :: "nat lattice_bounds" where
  "low_bounds = \<lparr>upper_bound = 1, lower_bound = 0\<rparr>"

definition low_graph :: "((nat lattice_bounds, field_label) list_graph, nat lattice_bounds, nat) sketch_graph" where
  "low_graph = \<lparr>quotient_graph = \<lparr>mg_grph = \<lparr>lg_nodes = [(0, low_bounds), (1, low_bounds), (2, low_bounds)],
        lg_edges = [(0, 0, 1, In 0), (1, 1, 2, Load)], lg_next_node = 3, lg_next_edge = 2\<rparr>,
      mg_nodes = Map.empty, mg_reprs = Map.empty\<rparr>, default_label = low_bounds\<rparr>"

definition low_lib :: "((nat lattice_bounds, field_label) list_graph, nat, nat, nat) lower_lib" where
  "low_lib = \<lparr>ll_pg = list_digraph, ll_elem_name = (\<lambda>_. ''int''), ll_arg_bits = (\<lambda>bits. bits), ll_tord = sorted_list_of_set,
     ll_peek = first_peek, ll_drain = (\<lambda>hp. hp)\<rparr>"

lemma low_lib_ok:
  "stable_digraph (ll_pg low_lib) lg_ok" "is_peek (ll_peek low_lib)" "is_drain (ll_drain low_lib)"
  "lg_ok (mg_grph (quotient_graph low_graph))"
  using first_peek by (simp_all add: low_lib_def list_pg.stable_digraph_axioms is_drain_def) (auto simp: low_graph_def lg_ok_def split: if_splits)

lemma low_nodes: "{n. pg_node_weight (ll_pg low_lib) (mg_grph (quotient_graph low_graph)) n \<noteq> None} = {0, 1, 2}"
  by (auto simp: low_lib_def low_graph_def list_digraph_sel split: if_splits)

lemma low_arcs: "weighted_arcs (ll_pg low_lib) (mg_grph (quotient_graph low_graph)) = {(0, In 0, 1), (1, Load, 2)}"
  by (auto simp: weighted_arcs_def low_lib_def low_graph_def list_digraph_sel split: if_splits)


lemma low_collected:
  "\<exists>types eph i. collect_ctypes low_lib (lowering_context_new low_lib low_graph Map.empty Map.empty low_bounds) = Some (types, eph)
     \<and> types 1 = Some i"
  using collect_ctypes_exact [OF low_lib_ok, of Map.empty Map.empty low_bounds] unfolding low_nodes by blast

theorem lowered_type_meaning_witness:
  "\<exists>types eph i. collect_ctypes low_lib (lowering_context_new low_lib low_graph Map.empty Map.empty low_bounds) = Some (types, eph)
     \<and> types 1 = Some i \<and> id_meanings eph i = {PointsTo 2}"
proof -
  obtain types eph i where run: "collect_ctypes low_lib (lowering_context_new low_lib low_graph Map.empty Map.empty low_bounds) = Some (types, eph)"
    "types 1 = Some i" using low_collected by blast
  have "{(w, t). (1, w, t) \<in> {(0, In 0, 1), (1 :: nat, Load, 2 :: nat)}} = {(Load, 2)}" by auto
  then have "id_meanings eph i = {PointsTo 2}"
    using lowered_type_meaning [OF low_lib_ok run] unfolding low_arcs
    by (simp add: node_meaning_def has_offset_field_def result_meanings_def)
  then show ?thesis using run by blast
qed

theorem convert_mapping_panics_iff_witness:
  "convert_mapping_to_protobuf [0 \<mapsto> CPointer (2 ^ 32)] Map.empty = None"
  by (subst convert_mapping_panics_iff) (auto split: if_splits)


lemma low_edges:
  "edges_directed list_digraph (mg_grph (quotient_graph low_graph)) 0 Outgoing = [(0, 0, 1, In 0)]"
  "edges_directed list_digraph (mg_grph (quotient_graph low_graph)) 1 Outgoing = [(1, 1, 2, Load)]"
  "edges_directed list_digraph (mg_grph (quotient_graph low_graph)) 2 Outgoing = []"
  by (simp_all add: low_graph_def edges_directed_def edge_ref_def list_digraph_def edge_at_def)

lemma low_parts:
  assumes c: "lc_grph c = low_graph"
  shows "build_structure_types low_lib 0 c = Some ([], c)" "build_structure_types low_lib 1 c = Some ([], c)"
    "build_alias_types list_digraph (lc_graph c) 0 = []" "build_alias_types list_digraph (lc_graph c) 1 = []"
    "build_pointer_types low_lib 0 c = ([], c)"
    "build_pointer_types low_lib 1 c = ([CPointer (curr_id c)], snd (add_type (CAlias 2) c))"
    "collect_params low_lib in_index 0 c = ([\<lparr>param_index = 0, param_type = curr_id c\<rparr>], snd (add_type (CAlias 1) c))"
    "collect_params low_lib in_index 1 c = ([], c)" "collect_params low_lib out_index 0 c = ([], c)"
    "collect_params low_lib out_index 1 c = ([], c)"
  unfolding build_structure_types_def has_non_zero_fields_def build_alias_types_def build_pointer_types_def collect_params_def
    params_by_index_def c low_lib_def lower_lib.select_convs low_edges
  by (simp_all add: List.map_filter_simps lower_parameter_def bt_get_or_def add_type_def)

lemma low_steps:
  assumes c: "lc_grph c = low_graph" "out_params c = Map.empty" "cached_primitives c = Map.empty"
  shows "build_type low_lib 0 c = Some (curr_id c + 1, c\<lparr>curr_id := curr_id c + 2, ephemeral_types :=
      (ephemeral_types c)(curr_id c \<mapsto> CAlias 1, curr_id c + 1 \<mapsto> CFunction [\<lparr>param_index = 0, param_type = curr_id c\<rparr>] None)\<rparr>)"
    "build_type low_lib 1 c = Some (curr_id c + 1, c\<lparr>curr_id := curr_id c + 2, ephemeral_types :=
      (ephemeral_types c)(curr_id c \<mapsto> CAlias 2, curr_id c + 1 \<mapsto> CPointer (curr_id c))\<rparr>)"
    "build_type low_lib 2 c = Some (curr_id c, c\<lparr>curr_id := curr_id c + 1, ephemeral_types :=
      (ephemeral_types c)(curr_id c \<mapsto> CPrimitive ''int''), cached_primitives := [''int'' \<mapsto> curr_id c]\<rparr>)"
proof -
  have lib: "ll_pg low_lib = list_digraph" "ll_elem_name low_lib = (\<lambda>_. ''int'')" by (simp_all add: low_lib_def)
  have node: "pg_node_weight list_digraph (mg_grph (quotient_graph low_graph)) 2 = Some low_bounds"
    by (simp add: low_graph_def list_digraph_sel)
  have keep: "lc_grph (snd (add_type ty c)) = low_graph" "out_params (snd (add_type ty c)) = Map.empty" for ty
    using c by (simp_all add: add_type_def)
  have fun0: "build_function_types low_lib 0 c = ([CFunction [\<lparr>param_index = 0, param_type = curr_id c\<rparr>] None], snd (add_type (CAlias 1) c))"
    unfolding build_function_types_def low_parts(7) [OF c(1)] Let_def prod.case low_parts(9) [OF keep(1)] keep by simp
  have fun1: "build_function_types low_lib 1 (snd (add_type (CAlias 2) c)) = ([], snd (add_type (CAlias 2) c))"
    unfolding build_function_types_def low_parts(8) [OF keep(1)] Let_def prod.case low_parts(10) [OF keep(1)] keep by simp
  have ne: "edges_directed list_digraph (lc_graph c) 0 Outgoing \<noteq> []" "edges_directed list_digraph (lc_graph c) 1 Outgoing \<noteq> []"
    by (simp_all only: c(1) low_edges) simp_all
  show "build_type low_lib 0 c = Some (curr_id c + 1, c\<lparr>curr_id := curr_id c + 2, ephemeral_types :=
      (ephemeral_types c)(curr_id c \<mapsto> CAlias 1, curr_id c + 1 \<mapsto> CFunction [\<lparr>param_index = 0, param_type = curr_id c\<rparr>] None)\<rparr>)"
    unfolding build_type_def lib if_not_P [OF ne(1)] low_parts(1,3,5) [OF c(1)] Option.bind.bind_lunit prod.case Let_def fun0
    by (simp add: add_type_def)
  show "build_type low_lib 1 c = Some (curr_id c + 1, c\<lparr>curr_id := curr_id c + 2, ephemeral_types :=
      (ephemeral_types c)(curr_id c \<mapsto> CAlias 2, curr_id c + 1 \<mapsto> CPointer (curr_id c))\<rparr>)"
    unfolding build_type_def lib if_not_P [OF ne(2)] low_parts(2,4,6) [OF c(1)] Option.bind.bind_lunit prod.case Let_def fun1
    by (simp add: add_type_def)
  show "build_type low_lib 2 c = Some (curr_id c, c\<lparr>curr_id := curr_id c + 1, ephemeral_types :=
      (ephemeral_types c)(curr_id c \<mapsto> CPrimitive ''int''), cached_primitives := [''int'' \<mapsto> curr_id c]\<rparr>)"
    by (simp add: build_type_def build_terminal_type_def add_type_def lib c low_edges node Let_def)
qed

lemma low_run:
  "collect_ctypes low_lib (lowering_context_new low_lib low_graph Map.empty Map.empty low_bounds)
     = Some ([0 \<mapsto> 4, 1 \<mapsto> 6, 2 \<mapsto> 7],
         [3 \<mapsto> CAlias 1, 4 \<mapsto> CFunction [\<lparr>param_index = 0, param_type = 3\<rparr>] None, 5 \<mapsto> CAlias 2, 6 \<mapsto> CPointer 5, 7 \<mapsto> CPrimitive ''int''])"
proof -
  let ?c = "lowering_context_new low_lib low_graph Map.empty Map.empty low_bounds"
  have nodes: "pg_node_indices (ll_pg low_lib) (lc_graph ?c) = [0, 1, 2]"
    by (simp add: low_graph_def list_digraph_sel lowering_context_new_def low_lib_def)
  have c: "lc_grph ?c = low_graph" "out_params ?c = Map.empty" "cached_primitives ?c = Map.empty" "curr_id ?c = 3" "ephemeral_types ?c = Map.empty"
    by (simp_all add: lowering_context_new_def low_lib_def low_graph_def list_digraph_sel)
  show ?thesis
    unfolding collect_ctypes_def nodes by (simp add: low_steps [simplified] c)
qed

theorem lowered_messages_roundtrip_witness:
  "\<exists>types eph msgs m. collect_ctypes low_lib (lowering_context_new low_lib low_graph Map.empty Map.empty low_bounds) = Some (types, eph)
     \<and> convert_mapping_to_protobuf eph types = Some msgs \<and> msgs 5 = Some m \<and> map_option read_inner (pb_inner_type m) = Some (CAlias 7)"
proof -
  let ?types = "[0 \<mapsto> 4, 1 \<mapsto> 6, 2 \<mapsto> 7] :: nat \<Rightarrow> type_id option"
  let ?eph = "[3 \<mapsto> CAlias 1, 4 \<mapsto> CFunction [\<lparr>param_index = 0, param_type = 3\<rparr>] None, 5 \<mapsto> CAlias 2, 6 \<mapsto> CPointer 5, 7 \<mapsto> CPrimitive ''int''] :: type_id \<Rightarrow> ctype option"
  have small: "n \<le> 7" if "?eph i = Some ty" "n \<in> insert i (numbers_of ?types ty)" for i ty n
    using that by (auto split: if_splits)
  have "convert_mapping_to_protobuf ?eph ?types \<noteq> None"
  proof
    assume none: "convert_mapping_to_protobuf ?eph ?types = None"
    obtain i ty n where "?eph i = Some ty" "n \<in> insert i (numbers_of ?types ty)" "\<not> fits_u32 n"
      using convert_spec [OF lowered_finite(1,2) [OF low_lib_ok low_run], of ?types] unfolding none option.case by blast
    then show False using small [of i ty n] by (simp add: fits_u32_def)
  qed
  then obtain msgs where msgs: "convert_mapping_to_protobuf ?eph ?types = Some msgs" by blast
  have five: "?eph 5 = Some (CAlias 2)" "resolved ?types (CAlias 2) = CAlias 7" by simp_all
  obtain m where m: "msgs (word_of_nat 5) = Some m" "map_option read_inner (pb_inner_type m) = Some (CAlias 7)"
    using conjunct1 [OF lowered_messages_roundtrip [OF low_lib_ok low_run msgs], rule_format, OF five(1)] unfolding five(2) by blast
  have "word_of_nat 5 = (5 :: u32)" by simp
  then show ?thesis using low_run msgs m by metis
qed

end
