(* ===== verification/IrTerms.thy ===== *)
theory IrTerms
  imports FsaTypes SccConstraints
begin

text \<open>
  The intermediate representation the analyses and the constraint generation read.  Its types
  are those of the \<^verbatim>\<open>cwe_checker_lib\<close> package, which is not part of the repository: a
  datatype has the constructors the code under \<^verbatim>\<open>src/\<close> matches on, with one more
  constructor for what falls into its wildcard branches, a record has the fields that code
  reads.  Identifiers of terms are values of a type parameter with their printed form as an
  argument, bit vectors are values of a type parameter.
\<close>

section \<open>Terms\<close>

record ('tid, 'a) ir_term =
  t_tid :: 'tid
  t_term :: 'a

record ir_variable =
  iv_name :: string
  iv_size :: nat
  iv_is_temp :: bool

definition variable_key :: "'z ir_variable_scheme \<Rightarrow> string \<times> nat \<times> bool \<times> 'z" where
  "variable_key x = (iv_name x, iv_size x, iv_is_temp x, ir_variable.more x)"

lemma variable_key_inj [key_inj]: "variable_key x = variable_key y \<Longrightarrow> x = y"
  by (simp add: variable_key_def)

instantiation ir_variable_ext :: (linorder) linorder
begin
definition less_eq_ir_variable_ext :: "'a ir_variable_ext \<Rightarrow> 'a ir_variable_ext \<Rightarrow> bool" where
  "x \<le> y \<longleftrightarrow> variable_key x \<le> variable_key y"
definition less_ir_variable_ext :: "'a ir_variable_ext \<Rightarrow> 'a ir_variable_ext \<Rightarrow> bool" where
  "x < y \<longleftrightarrow> variable_key x < variable_key y"
instance
  by standard (unfold less_eq_ir_variable_ext_def less_ir_variable_ext_def,
    simp_all add: less_le_not_le linear, auto intro: key_inj)
end

datatype bin_op_type = IntAdd | IntSub | IntMult | BinOpOther nat

datatype un_op_type = IntNegate | UnOpOther nat

datatype cast_op_type = IntZExt | IntSExt | Int2Float | Float2Float | Trunc | PopCount

datatype 'bv expression =
    EVar ir_variable
  | EConst 'bv
  | EBinOp bin_op_type "'bv expression" "'bv expression"
  | EUnOp un_op_type "'bv expression"
  | ECast cast_op_type nat "'bv expression"
  | EOther nat

datatype 'bv ir_arg =
    ArgRegister "'bv expression"
  | ArgStack "'bv expression" nat

datatype 'bv ir_def =
    DefLoad ir_variable "'bv expression"
  | DefStore "'bv expression" "'bv expression"
  | DefAssign ir_variable "'bv expression"

datatype ('tid, 'bv) ir_jmp =
    JmpCall 'tid "'tid option"
  | JmpReturn "'bv expression"
  | JmpOther nat

record ('tid, 'bv) ir_blk =
  b_defs :: "('tid, 'bv ir_def) ir_term list"
  b_jmps :: "('tid, ('tid, 'bv) ir_jmp) ir_term list"

record ('tid, 'bv) ir_sub =
  s_blocks :: "('tid, ('tid, 'bv) ir_blk) ir_term list"
  s_formal_args :: "'bv ir_arg list"
  s_formal_rets :: "'bv ir_arg list"
  s_calling_convention :: "string option"

record 'bv extern_symbol =
  x_parameters :: "'bv ir_arg list"
  x_return_values :: "'bv ir_arg list"

section \<open>Programs\<close>

text \<open>
  The B-tree maps of a program are association lists in the order of their keys.  The choice of
  a calling convention by its optional name is a method of the library, an argument.
\<close>

record ('tid, 'bv) program =
  p_subs :: "('tid \<times> ('tid, ('tid, 'bv) ir_sub) ir_term) list"
  p_extern_symbols :: "('tid \<times> 'bv extern_symbol) list"
  p_global_variables :: "(64 word \<times> 'tid) list"

record ('tid, 'bv) project =
  pr_program :: "('tid, 'bv) program"
  pr_register_set :: "ir_variable set"
  pr_callee_saved :: "string option \<Rightarrow> ir_variable list option"
  pr_stack_pointer :: ir_variable

section \<open>Maps that forget a key\<close>

lemma find_SomeD: "find P xs = Some x \<Longrightarrow> x \<in> set xs \<and> P x"
  by (induction xs) (auto split: if_splits)

definition bt_remove :: "'k \<Rightarrow> ('k \<times> 'v) list \<Rightarrow> ('k \<times> 'v) list" where
  "bt_remove k m = filter (\<lambda>(k', _). k' \<noteq> k) m"

lemma map_of_bt_remove [simp]: "map_of (bt_remove k m) = (map_of m)(k := None)"
  by (induction m) (auto simp: bt_remove_def fun_eq_iff)

lemma keys_bt_remove [simp]: "fst ` set (bt_remove k m) = fst ` set m - {k}"
  by (force simp: bt_remove_def)

lemma sorted_bt_remove:
  "sorted_wrt (<) (map fst m) \<Longrightarrow> sorted_wrt (<) (map fst (bt_remove k m))"
  unfolding bt_remove_def by (induction m) auto

end
