(* ===== verification/ReachingDefs.thy ===== *)
theory ReachingDefs
  imports IrTerms TypeLattice HashOrder
begin

text \<open>
  The reaching definitions of registers (\<^verbatim>\<open>src/analysis/reaching_definitions.rs\<close>,
  \<^verbatim>\<open>src/node_context/register_map.rs\<close>): the domain, which maps a register to the set of the
  definitions that may have written it, its order and merge, the transfer functions, and the
  register context that turns the definitions into type variables.  The fixpoint engine and
  the map with the union merge strategy are code of \<^verbatim>\<open>cwe_checker_lib\<close>: arguments,
  with the documented law of the merge as the locale \<open>union_merge\<close>.
\<close>

section \<open>Definitions\<close>

datatype 'tid definer = EntryFresh nat | Normal 'tid | ActualRet 'tid nat

type_synonym 'tid term_set = "'tid definer set"

type_synonym 'tid dom_val = "(ir_variable \<times> 'tid term_set) list"

definition term_set_partial_cmp :: "'tid term_set \<Rightarrow> 'tid term_set \<Rightarrow> ordering option" where
  "term_set_partial_cmp self other =
     (if self \<subseteq> other then (if other \<subseteq> self then Some Equal else Some Less)
      else if other \<subseteq> self then Some Greater else None)"

definition term_set_merge :: "'tid term_set \<Rightarrow> 'tid term_set \<Rightarrow> 'tid term_set" where
  "term_set_merge self other = self \<union> other"

definition term_set_is_top :: "'tid term_set \<Rightarrow> bool" where
  "term_set_is_top self \<longleftrightarrow> self = {}"

section \<open>Maps with an implicit bottom\<close>

text \<open>
  \<open>ImplicitBottomMappingDomain\<close>: the orders of the values at every key of either map are
  collected in a hash set, here the list of its distinct elements.
\<close>

definition key_cmp ::
    "('v \<Rightarrow> 'v \<Rightarrow> ordering option) \<Rightarrow> 'v option \<Rightarrow> 'v option \<Rightarrow> ordering option" where
  "key_cmp cmp f s =
     (case (f, s) of
        (None, None) \<Rightarrow> Some Equal
      | (None, Some _) \<Rightarrow> Some Less
      | (Some _, None) \<Rightarrow> Some Greater
      | (Some x, Some y) \<Rightarrow> cmp x y)"

definition ibd_partial_cmp ::
    "('v \<Rightarrow> 'v \<Rightarrow> ordering option) \<Rightarrow> ('k \<times> 'v) list \<Rightarrow> ('k \<times> 'v) list \<Rightarrow> ordering option" where
  "ibd_partial_cmp cmp self other =
     (let ords = remdups (map (\<lambda>k. key_cmp cmp (map_of self k) (map_of other k))
            (map fst self @ map fst other))
      in if ords = [] then Some Equal
         else if length ords = 1 then hd ords
         else if length ords = 2 \<and> Some Equal \<in> set ords \<and> Some Less \<in> set ords then Some Less
         else if length ords = 2 \<and> Some Equal \<in> set ords \<and> Some Greater \<in> set ords
           then Some Greater
         else None)"

definition ibd_le ::
    "('v \<Rightarrow> 'v \<Rightarrow> ordering option) \<Rightarrow> ('k \<times> 'v) list \<Rightarrow> ('k \<times> 'v) list \<Rightarrow> bool" where
  "ibd_le cmp self other \<longleftrightarrow>
     (case ibd_partial_cmp cmp self other of
        Some Less \<Rightarrow> True | Some Equal \<Rightarrow> True | _ \<Rightarrow> False)"

text \<open>The merge, with its two assertions.\<close>

definition ibd_merge ::
    "(('k \<times> 'v) list \<Rightarrow> ('k \<times> 'v) list \<Rightarrow> ('k \<times> 'v) list) \<Rightarrow>
     ('v \<Rightarrow> 'v \<Rightarrow> ordering option) \<Rightarrow> ('k \<times> 'v) list \<Rightarrow> ('k \<times> 'v) list \<Rightarrow>
     ('k \<times> 'v) list option" where
  "ibd_merge dm_merge cmp self other =
     (let nxt = dm_merge self other
      in if \<not> ibd_le cmp self nxt then None
         else if \<not> ibd_le cmp other nxt then None
         else Some nxt)"

definition ibd_default :: "('k \<times> 'v) list" where
  "ibd_default = []"

section \<open>Transfer functions\<close>

definition kill_definition_of_variable :: "'tid dom_val \<Rightarrow> ir_variable \<Rightarrow> 'tid dom_val" where
  "kill_definition_of_variable state defined_var = bt_remove defined_var state"

definition apply_definition_of_variable ::
    "'tid dom_val \<Rightarrow> ir_variable \<Rightarrow> 'tid \<Rightarrow> ('tid \<Rightarrow> 'tid definer) \<Rightarrow> 'tid dom_val" where
  "apply_definition_of_variable state defined_var tid create_def =
     (let definers = insert (create_def tid) {} in bt_insert defined_var definers state)"

definition get_function_returns ::
    "('tid, 'bv) ir_jmp \<Rightarrow> ('tid, 'bv) program \<Rightarrow> 'bv ir_arg list" where
  "get_function_returns jmp prog =
     (case jmp of
        JmpCall target _ \<Rightarrow>
          (case find (\<lambda>(_, sub). t_tid sub = target) (p_subs prog) of
             Some (_, sub) \<Rightarrow> s_formal_rets (t_term sub)
           | None \<Rightarrow> [])
      | _ \<Rightarrow> [])"

definition apply_def :: "'tid dom_val \<Rightarrow> ('tid, 'bv ir_def) ir_term \<Rightarrow> 'tid dom_val" where
  "apply_def old_value df =
     (case t_term df of
        DefAssign var _ \<Rightarrow> apply_definition_of_variable old_value var (t_tid df) (\<lambda>x. Normal x)
      | DefLoad var _ \<Rightarrow> apply_definition_of_variable old_value var (t_tid df) (\<lambda>x. Normal x)
      | DefStore _ _ \<Rightarrow> old_value)"

definition get_jump_target :: "('tid, ('tid, 'bv) ir_jmp) ir_term \<Rightarrow> 'tid option" where
  "get_jump_target call_term =
     (case t_term call_term of JmpCall target _ \<Rightarrow> Some target | _ \<Rightarrow> None)"

definition get_cc_for_jmp ::
    "('tid, 'bv) project \<Rightarrow> ('tid, ('tid, 'bv) ir_jmp) ir_term \<Rightarrow> ir_variable list option" where
  "get_cc_for_jmp proj call_term =
     Option.bind (get_jump_target call_term) (\<lambda>target.
       pr_callee_saved proj
         (Option.bind (map_of (p_subs (pr_program proj)) target)
           (\<lambda>s. s_calling_convention (t_term s))))"

text \<open>The registers among arguments, each with its index.\<close>

definition register_var :: "'bv ir_arg \<Rightarrow> ir_variable option" where
  "register_var x =
     (case x of
        ArgRegister e \<Rightarrow> (case e of EVar var \<Rightarrow> Some var | _ \<Rightarrow> None)
      | ArgStack _ _ \<Rightarrow> None)"

definition register_args :: "'bv ir_arg list \<Rightarrow> (nat \<times> ir_variable) list" where
  "register_args args =
     List.map_filter (\<lambda>(idx, x). map_option (Pair idx) (register_var x)) (List.enumerate 0 args)"

definition apply_return ::
    "'tid dom_val option \<Rightarrow> ('tid, ('tid, 'bv) ir_jmp) ir_term \<Rightarrow> ('tid, 'bv) project \<Rightarrow>
     'tid dom_val" where
  "apply_return curr_value call_term project =
     (let new_value = (case curr_value of Some v \<Rightarrow> v | None \<Rightarrow> ibd_default);
          register_returns =
            set (register_args (get_function_returns (t_term call_term) (pr_program project)));
          cc_killed = map_option (\<lambda>callee_saved_register.
            let saves = set callee_saved_register; reg_returns_set = snd ` register_returns
            in filter (\<lambda>x. x \<notin> saves \<and> x \<notin> reg_returns_set)
                 (sorted_list_of_set (pr_register_set project))) (get_cc_for_jmp project call_term);
          new_value = (case cc_killed of
              Some ks \<Rightarrow> foldl kill_definition_of_variable new_value ks
            | None \<Rightarrow> new_value)
      in foldl (\<lambda>new_value (idx, var).
           apply_definition_of_variable new_value var (t_tid call_term) (\<lambda>x. ActualRet x idx))
         new_value (sorted_list_of_set register_returns))"

text \<open>
  The context given to the fixpoint engine: \<open>update_call_stub\<close> trusts the stub of an external
  symbol, jumps and conditions change nothing, a call does not flow into its callee.
\<close>

definition update_def :: "'tid dom_val \<Rightarrow> ('tid, 'bv ir_def) ir_term \<Rightarrow> 'tid dom_val option" where
  "update_def val df = (let next_res = apply_def val df in Some next_res)"

definition update_call_stub ::
    "('tid \<times> 'bv extern_symbol) list \<Rightarrow> 'tid dom_val \<Rightarrow> ('tid, ('tid, 'bv) ir_jmp) ir_term \<Rightarrow>
     'tid dom_val option" where
  "update_call_stub extern_symbol_map val call =
     (let call_target = (case t_term call of JmpCall target _ \<Rightarrow> Some target | _ \<Rightarrow> None);
          next_res =
            (case Option.bind call_target (map_of extern_symbol_map) of
               Some extern_symb \<Rightarrow>
                 foldl (\<lambda>new_value (idx, a).
                   case a of
                     ArgRegister e \<Rightarrow>
                       (case e of
                          EVar var \<Rightarrow> apply_definition_of_variable new_value var (t_tid call)
                            (\<lambda>x. ActualRet x idx)
                        | _ \<Rightarrow> new_value)
                   | ArgStack _ _ \<Rightarrow> new_value)
                 val (List.enumerate 0 (x_return_values extern_symb))
             | None \<Rightarrow> val)
      in Some next_res)"

definition update_jump :: "'tid dom_val \<Rightarrow> 'tid dom_val option" where
  "update_jump val = Some val"

definition update_call :: "'tid dom_val \<Rightarrow> 'tid dom_val option" where
  "update_call val = None"

definition update_return ::
    "('tid, 'bv) project \<Rightarrow> 'tid dom_val option \<Rightarrow> 'tid dom_val option \<Rightarrow>
     ('tid, ('tid, 'bv) ir_jmp) ir_term \<Rightarrow> 'tid dom_val option" where
  "update_return project val value_before_call call_term =
     Some (apply_return value_before_call call_term project)"

definition specialize_conditional :: "'tid dom_val \<Rightarrow> 'tid dom_val option" where
  "specialize_conditional val = Some val"

section \<open>Register contexts\<close>

record ('tid, 'bv) register_context =
  rc_mapping :: "'tid dom_val"
  rc_project :: "('tid, 'bv) project"

definition type_variable_from_def ::
    "('tid \<Rightarrow> string) \<Rightarrow> 'tid definer \<Rightarrow> ir_variable \<Rightarrow> 'tid type_variable" where
  "type_variable_from_def show_tid df defined_variable =
     (case df of
        Normal tid \<Rightarrow> tid_indexed_by_variable show_tid tid (iv_name defined_variable)
      | ActualRet tid _ \<Rightarrow> tid_indexed_by_variable show_tid tid (iv_name defined_variable)
      | EntryFresh i \<Rightarrow> tv_new (''entry_fresh_definition'' @ show_nat i))"

definition generate_multi_def_constraint ::
    "('tid \<Rightarrow> string) \<Rightarrow> ir_variable \<Rightarrow> 'tid term_set \<Rightarrow> 'tid type_variable set" where
  "generate_multi_def_constraint show_tid defined_var defs =
     (\<lambda>df. type_variable_from_def show_tid df defined_var) ` defs"

definition rc_apply_def ::
    "('tid, 'bv) register_context \<Rightarrow> ('tid, 'bv ir_def) ir_term \<Rightarrow> ('tid, 'bv) register_context" where
  "rc_apply_def self df =
     (let new_mapping = apply_def (rc_mapping self) df
      in \<lparr>rc_mapping = new_mapping, rc_project = rc_project self\<rparr>)"

definition rc_apply_return_node ::
    "('tid, 'bv) register_context \<Rightarrow> ('tid, ('tid, 'bv) ir_jmp) ir_term \<Rightarrow>
     ('tid, ('tid, 'bv) ir_jmp) ir_term \<Rightarrow> ('tid, 'bv) register_context" where
  "rc_apply_return_node self call_term return_term =
     (let new_mapping = apply_return (Some (rc_mapping self)) call_term (rc_project self)
      in \<lparr>rc_mapping = new_mapping, rc_project = rc_project self\<rparr>)"

definition rc_access ::
    "('tid \<Rightarrow> string) \<Rightarrow> ('tid, 'bv) register_context \<Rightarrow> ir_variable \<Rightarrow> 'tid type_variable set" where
  "rc_access show_tid self var =
     (case map_of (rc_mapping self) var of
        Some x \<Rightarrow> generate_multi_def_constraint show_tid var x
      | None \<Rightarrow> {})"

section \<open>Running the analysis\<close>

definition generate_fresh_definition ::
    "('tid, 'bv) project \<Rightarrow> nat \<Rightarrow> 'tid dom_val \<times> nat" where
  "generate_fresh_definition proj nid =
     foldl (\<lambda>(bottom_btree, nid) reg.
         let st = insert (EntryFresh nid) {}
         in (bt_insert reg st bottom_btree, nid + 1))
       ([], nid) (sorted_list_of_set (pr_register_set proj))"

datatype 'v node_value =
    CallFlowCombinator "'v option" "'v option"
  | NodeValue 'v

definition node_value_flow :: "'v node_value \<Rightarrow> 'v option" where
  "node_value_flow nv =
     (case nv of
        CallFlowCombinator call_stub interprocedural_flow \<Rightarrow>
          (if interprocedural_flow \<noteq> None then interprocedural_flow else call_stub)
      | NodeValue v \<Rightarrow> Some v)"

text \<open>
  The values set at the entry points, in the order of the hash set, and the analysis: the
  engine is an argument that maps the values set to the values of all nodes.
\<close>

definition set_entry_value ::
    "('tid, 'bv) project \<Rightarrow> (nat \<Rightarrow> 'tid dom_val option) \<times> nat \<Rightarrow> nat \<Rightarrow>
     (nat \<Rightarrow> 'tid dom_val option) \<times> nat" where
  "set_entry_value proj = (\<lambda>(vals, nid) start_node_index.
     let (v, nid) = generate_fresh_definition proj nid in (vals(start_node_index \<mapsto> v), nid))"

definition entry_values ::
    "(nat set \<Rightarrow> nat list) \<Rightarrow> ('tid, 'bv) project \<Rightarrow> nat set \<Rightarrow> (nat \<Rightarrow> 'tid dom_val option) \<times> nat" where
  "entry_values order proj entry_points =
     foldl (set_entry_value proj) (Map.empty, 0) (order entry_points)"

definition run_reaching_definitions ::
    "(nat set \<Rightarrow> nat list) \<Rightarrow>
     ((nat \<Rightarrow> 'tid dom_val option) \<Rightarrow> nat \<Rightarrow> 'tid dom_val node_value option) \<Rightarrow>
     ('tid, 'bv) project \<Rightarrow> ('tid \<Rightarrow> nat option) \<Rightarrow> nat \<Rightarrow> ('tid, 'bv) register_context option" where
  "run_reaching_definitions order compute proj entry_sub_to_entry_node_map =
     (let entry_points = ran entry_sub_to_entry_node_map;
          node_values = compute (fst (entry_values order proj entry_points))
      in (\<lambda>ind. Option.bind (node_values ind)
            (\<lambda>dom_map. map_option (\<lambda>v. \<lparr>rc_mapping = v, rc_project = proj\<rparr>)
              (node_value_flow dom_map))))"


section \<open>The order of the domain\<close>

text \<open>
  What the comparison promises: registers are compared one by one, a register without an entry
  lies below every set, the empty one included.
\<close>

fun entry_le :: "'a set option \<Rightarrow> 'a set option \<Rightarrow> bool" where
  "entry_le None y \<longleftrightarrow> True"
| "entry_le (Some x) (Some y) \<longleftrightarrow> x \<subseteq> y"
| "entry_le (Some x) None \<longleftrightarrow> False"

lemma entry_le_refl [simp]: "entry_le x x"
  by (cases x) simp_all

lemma entry_le_trans: "entry_le x y \<Longrightarrow> entry_le y z \<Longrightarrow> entry_le x z"
  by (cases x; cases y; cases z) auto

lemma key_cmp_le:
  "key_cmp term_set_partial_cmp x y \<in> {Some Equal, Some Less} \<longleftrightarrow> entry_le x y"
  by (cases x; cases y) (auto simp: key_cmp_def term_set_partial_cmp_def)

lemma key_cmp_eq: "key_cmp term_set_partial_cmp x y = Some Equal \<longleftrightarrow> x = y"
  by (cases x; cases y) (auto simp: key_cmp_def term_set_partial_cmp_def)

lemma distinct_length_2:
  "distinct xs \<Longrightarrow> length xs = 2 \<Longrightarrow> a \<in> set xs \<Longrightarrow> b \<in> set xs \<Longrightarrow> a \<noteq> b \<Longrightarrow> set xs = {a, b}"
  by (auto simp: length_Suc_conv numeral_2_eq_2)

lemma distinct_pair_length:
  assumes "distinct xs" "set xs \<subseteq> {a, b}"
  shows "xs = [] \<or> length xs = 1 \<or> (length xs = 2 \<and> set xs = {a, b})"
proof -
  have "length xs = card (set xs)" using assms(1) by (simp add: distinct_card)
  moreover from this have "card (set xs) \<le> 2"
    using card_mono [OF _ assms(2)] by (auto simp: card_insert_if split: if_splits)
  moreover have "card (set xs) = 2 \<Longrightarrow> set xs = {a, b}"
    using assms(2) by (auto simp: card_2_iff)
  ultimately show ?thesis by (cases "length xs") auto
qed

text \<open>The decision taken from the hash set of the orders.\<close>

definition cmp_verdict :: "ordering option list \<Rightarrow> ordering option" where
  "cmp_verdict ords =
     (if ords = [] then Some Equal
      else if length ords = 1 then hd ords
      else if length ords = 2 \<and> Some Equal \<in> set ords \<and> Some Less \<in> set ords then Some Less
      else if length ords = 2 \<and> Some Equal \<in> set ords \<and> Some Greater \<in> set ords
        then Some Greater
      else None)"

lemma cmp_verdict_le:
  assumes "distinct ords"
  shows "cmp_verdict ords \<in> {Some Equal, Some Less} \<longleftrightarrow> set ords \<subseteq> {Some Equal, Some Less}"
proof
  assume "set ords \<subseteq> {Some Equal, Some Less}"
  then consider "ords = []" | x where "ords = [x]" "x \<in> {Some Equal, Some Less}"
    | "length ords = 2" "set ords = {Some Equal, Some Less}"
    using distinct_pair_length [OF assms] by (fastforce simp: length_Suc_conv)
  then show "cmp_verdict ords \<in> {Some Equal, Some Less}"
    by cases (auto simp: cmp_verdict_def)
next
  assume v: "cmp_verdict ords \<in> {Some Equal, Some Less}"
  consider "ords = []" | "length ords = 1"
    | "length ords = 2" "Some Equal \<in> set ords" "Some Less \<in> set ords"
    using v by (auto simp: cmp_verdict_def split: if_splits)
  then show "set ords \<subseteq> {Some Equal, Some Less}"
  proof cases
    case 2
    then show ?thesis using v by (auto simp: cmp_verdict_def length_Suc_conv)
  next
    case 3
    then show ?thesis using distinct_length_2 [OF assms] by blast
  qed simp
qed

lemma cmp_verdict_equal:
  assumes "distinct ords"
  shows "cmp_verdict ords = Some Equal \<longleftrightarrow> set ords \<subseteq> {Some Equal}"
proof
  assume s: "set ords \<subseteq> {Some Equal}"
  then have "length ords \<le> 1"
    using distinct_card [OF assms] card_mono [OF _ s] by simp
  then have "ords = [] \<or> ords = [Some Equal]"
    using s by (cases ords) auto
  then show "cmp_verdict ords = Some Equal" by (auto simp: cmp_verdict_def)
next
  assume "cmp_verdict ords = Some Equal"
  then show "set ords \<subseteq> {Some Equal}"
    by (auto simp: cmp_verdict_def length_Suc_conv split: if_splits)
qed

lemma ibd_partial_cmp_verdict:
  "ibd_partial_cmp cmp self other =
     cmp_verdict (remdups (map (\<lambda>k. key_cmp cmp (map_of self k) (map_of other k))
       (map fst self @ map fst other)))"
  by (simp add: ibd_partial_cmp_def cmp_verdict_def Let_def)

lemma all_keys_or_none:
  "P None None \<Longrightarrow> (\<forall>k \<in> set (map fst self @ map fst other). P (map_of self k) (map_of other k)) \<longleftrightarrow>
     (\<forall>k. P (map_of self k) (map_of other k))"
proof -
  assume n: "P None None"
  have "P (map_of self k) (map_of other k)" if "k \<notin> set (map fst self @ map fst other)" for k
  proof -
    from that have "map_of self k = None" "map_of other k = None" by (auto simp: map_of_eq_None_iff)
    then show ?thesis using n by simp
  qed
  then show ?thesis by blast
qed

lemma ibd_le_keys:
  "ibd_le cmp self other \<longleftrightarrow>
     (\<forall>k. key_cmp cmp (map_of self k) (map_of other k) \<in> {Some Equal, Some Less})"
proof -
  let ?ks = "map fst self @ map fst other"
  let ?c = "\<lambda>k. key_cmp cmp (map_of self k) (map_of other k)"
  have "ibd_le cmp self other \<longleftrightarrow> cmp_verdict (remdups (map ?c ?ks)) \<in> {Some Equal, Some Less}"
    unfolding ibd_le_def ibd_partial_cmp_verdict by (auto split: option.splits ordering.splits)
  also have "\<dots> \<longleftrightarrow> (\<forall>k \<in> set ?ks. ?c k \<in> {Some Equal, Some Less})"
    by (subst cmp_verdict_le) auto
  also have "\<dots> \<longleftrightarrow> (\<forall>k. ?c k \<in> {Some Equal, Some Less})"
    by (rule all_keys_or_none) (simp add: key_cmp_def)
  finally show ?thesis .
qed

lemma ibd_le_iff:
  "ibd_le term_set_partial_cmp self other \<longleftrightarrow> (\<forall>k. entry_le (map_of self k) (map_of other k))"
  unfolding ibd_le_keys key_cmp_le ..

lemma ibd_equal_iff:
  "ibd_partial_cmp term_set_partial_cmp self other = Some Equal \<longleftrightarrow> map_of self = map_of other"
proof -
  let ?ks = "map fst self @ map fst other"
  let ?c = "\<lambda>k. key_cmp term_set_partial_cmp (map_of self k) (map_of other k)"
  have "ibd_partial_cmp term_set_partial_cmp self other = Some Equal \<longleftrightarrow>
      (\<forall>k \<in> set ?ks. ?c k = Some Equal)"
    unfolding ibd_partial_cmp_verdict by (subst cmp_verdict_equal) auto
  also have "\<dots> \<longleftrightarrow> (\<forall>k \<in> set ?ks. map_of self k = map_of other k)"
    unfolding key_cmp_eq ..
  also have "\<dots> \<longleftrightarrow> (\<forall>k. map_of self k = map_of other k)"
    by (rule all_keys_or_none [of "(=)"]) simp
  finally show ?thesis by (simp add: fun_eq_iff)
qed

section \<open>The merge\<close>

text \<open>
  The contract of the map with the union merge strategy: a key of only one map keeps its value,
  the values of a key of both are merged.
\<close>

fun merge_entries :: "('v \<Rightarrow> 'v \<Rightarrow> 'v) \<Rightarrow> 'v option \<Rightarrow> 'v option \<Rightarrow> 'v option" where
  "merge_entries f None y = y"
| "merge_entries f (Some x) None = Some x"
| "merge_entries f (Some x) (Some y) = Some (f x y)"

locale union_merge =
  fixes dm_merge :: "('k \<times> 'v) list \<Rightarrow> ('k \<times> 'v) list \<Rightarrow> ('k \<times> 'v) list"
    and merge_val :: "'v \<Rightarrow> 'v \<Rightarrow> 'v"
  assumes lookup_merge: "map_of (dm_merge a b) k = merge_entries merge_val (map_of a k) (map_of b k)"

definition list_union_merge ::
    "('v \<Rightarrow> 'v \<Rightarrow> 'v) \<Rightarrow> ('k::linorder \<times> 'v) list \<Rightarrow> ('k \<times> 'v) list \<Rightarrow> ('k \<times> 'v) list" where
  "list_union_merge f a b =
     foldr (\<lambda>(k, y) m. bt_insert k (case map_of a k of None \<Rightarrow> y | Some x \<Rightarrow> f x y) m) b a"

lemma map_of_list_union_merge:
  "map_of (list_union_merge f a b) k = merge_entries f (map_of a k) (map_of b k)"
proof -
  have "map_of (foldr (\<lambda>(k, y) m. bt_insert k (case map_of a k of None \<Rightarrow> y | Some x \<Rightarrow> f x y) m) b a) k
      = merge_entries f (map_of a k) (map_of b k)"
  proof (induction b)
    case Nil
    show ?case by (cases "map_of a k") simp_all
  next
    case (Cons p b)
    then show ?case by (cases p; cases "map_of a k") auto
  qed
  then show ?thesis by (simp add: list_union_merge_def)
qed

text \<open>
  The values are themselves an abstract domain: their merge lies above both arguments.  Then
  the assertions of the merge of the maps hold.
\<close>

locale domain_merge = union_merge dm_merge merge_val
  for dm_merge :: "('k \<times> 'v) list \<Rightarrow> ('k \<times> 'v) list \<Rightarrow> ('k \<times> 'v) list"
    and merge_val :: "'v \<Rightarrow> 'v \<Rightarrow> 'v" +
  fixes cmp :: "'v \<Rightarrow> 'v \<Rightarrow> ordering option"
  assumes cmp_refl: "cmp x x = Some Equal"
    and merge_upper: "cmp x (merge_val x y) \<in> {Some Equal, Some Less}"
      "cmp y (merge_val x y) \<in> {Some Equal, Some Less}"
begin

lemma merge_above:
  "ibd_le cmp a (dm_merge a b)" "ibd_le cmp b (dm_merge a b)"
proof -
  have "key_cmp cmp x (merge_entries merge_val x y) \<in> {Some Equal, Some Less}"
    "key_cmp cmp y (merge_entries merge_val x y) \<in> {Some Equal, Some Less}" for x y
    using merge_upper cmp_refl by (cases x; cases y; simp add: key_cmp_def)+
  then show "ibd_le cmp a (dm_merge a b)" "ibd_le cmp b (dm_merge a b)"
    unfolding ibd_le_keys lookup_merge by blast+
qed

lemma merge_total: "ibd_merge dm_merge cmp a b = Some (dm_merge a b)"
  by (simp add: ibd_merge_def merge_above)

end

lemma term_set_domain:
  "union_merge dm_merge term_set_merge \<Longrightarrow> domain_merge dm_merge term_set_merge term_set_partial_cmp"
  by (intro domain_merge.intro domain_merge_axioms.intro)
    (auto simp: term_set_partial_cmp_def term_set_merge_def)

interpretation ts_merge: domain_merge "list_union_merge term_set_merge" term_set_merge term_set_partial_cmp
  by (rule term_set_domain, unfold_locales) (rule map_of_list_union_merge)

text \<open>Merged entries are least upper bounds.\<close>

lemma merge_entries_upper:
  "entry_le x (merge_entries term_set_merge x y)" "entry_le y (merge_entries term_set_merge x y)"
  by (cases x; cases y; simp add: term_set_merge_def)+

lemma merge_entries_least:
  "entry_le x z \<Longrightarrow> entry_le y z \<Longrightarrow> entry_le (merge_entries term_set_merge x y) z"
  by (cases x; cases y; cases z) (simp_all add: term_set_merge_def)

section \<open>The transfer functions\<close>

fun def_writes :: "'bv ir_def \<Rightarrow> ir_variable option" where
  "def_writes (DefLoad var _) = Some var"
| "def_writes (DefStore _ _) = None"
| "def_writes (DefAssign var _) = Some var"

lemma lookup_apply_definition [simp]:
  "map_of (apply_definition_of_variable m v t f) = (map_of m)(v \<mapsto> {f t})"
  by (simp add: apply_definition_of_variable_def)

lemma lookup_kill [simp]: "map_of (kill_definition_of_variable m v) = (map_of m)(v := None)"
  by (simp add: kill_definition_of_variable_def)

lemma lookup_apply_def:
  "map_of (apply_def m d) =
     (case def_writes (t_term d) of
        None \<Rightarrow> map_of m
      | Some v \<Rightarrow> (map_of m)(v \<mapsto> {Normal (t_tid d)}))"
  by (cases "t_term d") (simp_all add: apply_def_def)

lemma lookup_kills:
  "map_of (foldl kill_definition_of_variable m ks) v = (if v \<in> set ks then None else map_of m v)"
  by (induction ks arbitrary: m) auto

text \<open>A sequence of definitions of registers: the last one of a register counts.\<close>

definition last_index :: "(nat \<times> ir_variable) list \<Rightarrow> ir_variable \<Rightarrow> nat option" where
  "last_index xs v = map_option fst (find (\<lambda>(i, w). w = v) (rev xs))"

lemma last_index_simps [simp]:
  "last_index [] v = None"
  "last_index (xs @ [x]) v = (if snd x = v then Some (fst x) else last_index xs v)"
  by (simp_all add: last_index_def split: prod.splits)

lemma lookup_definitions:
  "map_of (foldl (\<lambda>m (i, w). apply_definition_of_variable m w t (\<lambda>x. ActualRet x i)) m xs) v =
     (case last_index xs v of Some i \<Rightarrow> Some {ActualRet t i} | None \<Rightarrow> map_of m v)"
  by (induction xs rule: rev_induct) (auto split: prod.splits)

lemma register_args_from:
  fixes n :: nat
  shows "sorted_wrt (<) (List.map_filter (\<lambda>(i, x). map_option (Pair i) (register_var x)) (List.enumerate n xs))
    \<and> (\<forall>p \<in> set (List.map_filter (\<lambda>(i, x). map_option (Pair i) (register_var x)) (List.enumerate n xs)). n \<le> fst p)"
proof (induction xs arbitrary: n)
  case (Cons x xs)
  from Cons [of "Suc n"] show ?case
    by (cases "register_var x") (auto simp: map_filter_simps Suc_le_eq intro!: less_imp_le)
qed (simp add: map_filter_simps)

lemma register_args_sorted: "sorted_wrt (<) (register_args xs)"
  using register_args_from [of 0 xs] by (simp add: register_args_def)

lemma sorted_set_register_args: "sorted_list_of_set (set (register_args xs)) = register_args xs"
  using register_args_sorted [of xs] sorted_list_of_set.idem_if_sorted_distinct strict_sorted_iff by metis

text \<open>What a return does to one register: the last returned index, the kill, or nothing.\<close>

definition killed_by_return ::
    "('tid, 'bv) project \<Rightarrow> ('tid, ('tid, 'bv) ir_jmp) ir_term \<Rightarrow> ir_variable \<Rightarrow> bool" where
  "killed_by_return proj call v \<longleftrightarrow>
     (case get_cc_for_jmp proj call of
        None \<Rightarrow> False
      | Some saved \<Rightarrow> v \<in> pr_register_set proj \<and> v \<notin> set saved)"

lemma last_index_None: "last_index xs v = None \<longleftrightarrow> v \<notin> snd ` set xs"
  by (induction xs rule: rev_induct) auto

lemma lookup_apply_return:
  assumes "finite (pr_register_set proj)"
  shows "map_of (apply_return cur call proj) v =
    (case last_index (register_args (get_function_returns (t_term call) (pr_program proj))) v of
       Some i \<Rightarrow> Some {ActualRet (t_tid call) i}
     | None \<Rightarrow> if killed_by_return proj call v then None
               else map_of (case cur of Some m \<Rightarrow> m | None \<Rightarrow> []) v)"
proof -
  define rets where "rets = register_args (get_function_returns (t_term call) (pr_program proj))"
  define start where "start = (case cur of Some m \<Rightarrow> m | None \<Rightarrow> ibd_default)"
  define base where "base = (case map_option (\<lambda>saved. filter (\<lambda>x. x \<notin> set saved \<and> x \<notin> snd ` set rets)
      (sorted_list_of_set (pr_register_set proj))) (get_cc_for_jmp proj call) of
        Some ks \<Rightarrow> foldl kill_definition_of_variable start ks | None \<Rightarrow> start)"
  have ret: "apply_return cur call proj =
      foldl (\<lambda>m (i, w). apply_definition_of_variable m w (t_tid call) (\<lambda>x. ActualRet x i)) base rets"
    unfolding apply_return_def Let_def rets_def base_def start_def sorted_set_register_args ..
  have base: "last_index rets v = None \<Longrightarrow> map_of base v =
      (if killed_by_return proj call v then None else map_of start v)"
    using assms by (simp add: base_def killed_by_return_def lookup_kills last_index_None split: option.splits)
  show ?thesis
    unfolding ret lookup_definitions rets_def [symmetric]
    using base by (cases "last_index rets v") (simp_all add: start_def ibd_default_def split: option.splits)
qed

lemma foldl_register_args:
  "foldl (\<lambda>s (i, a). case a of
       ArgRegister e \<Rightarrow> (case e of EVar v \<Rightarrow> f s i v | _ \<Rightarrow> s) | ArgStack _ _ \<Rightarrow> s) s (List.enumerate n xs)
   = foldl (\<lambda>s (i, v). f s i v) s
       (List.map_filter (\<lambda>(i, x). map_option (Pair i) (register_var x)) (List.enumerate n xs))"
proof (induction xs arbitrary: n s)
  case (Cons x xs)
  then show ?case
    by (simp add: map_filter_simps register_var_def split: ir_arg.splits expression.splits)
qed (simp add: map_filter_simps)

lemma lookup_update_call_stub:
  "map_of (the (update_call_stub externs m call)) v =
     (case Option.bind (get_jump_target call) (map_of externs) of
        None \<Rightarrow> map_of m v
      | Some x \<Rightarrow> (case last_index (register_args (x_return_values x)) v of
            Some i \<Rightarrow> Some {ActualRet (t_tid call) i}
          | None \<Rightarrow> map_of m v))"
  unfolding update_call_stub_def Let_def option.sel get_jump_target_def foldl_register_args
    register_args_def [symmetric]
  by (simp add: lookup_definitions split: option.splits)

section \<open>Blocks of definitions\<close>

lemma block_lookup:
  "map_of (foldl apply_def m ds) v =
     (case find (\<lambda>d. def_writes (t_term d) = Some v) (rev ds) of
        Some d \<Rightarrow> Some {Normal (t_tid d)}
      | None \<Rightarrow> map_of m v)"
  by (induction ds rule: rev_induct) (auto simp: lookup_apply_def split: option.splits)

lemma rc_foldl:
  "rc_mapping (foldl rc_apply_def rc ds) = foldl apply_def (rc_mapping rc) ds"
  "rc_project (foldl rc_apply_def rc ds) = rc_project rc"
  by (induction ds arbitrary: rc) (simp_all add: rc_apply_def_def Let_def)

section \<open>Fresh definitions\<close>

definition fresh_entries :: "nat \<Rightarrow> ir_variable list \<Rightarrow> 'tid dom_val" where
  "fresh_entries n rs = fold (\<lambda>(i, r) m. bt_insert r {EntryFresh i} m) (List.enumerate n rs) []"

lemma generate_fresh_exact:
  "generate_fresh_definition proj n =
     (fresh_entries n (sorted_list_of_set (pr_register_set proj)),
      n + length (sorted_list_of_set (pr_register_set proj)))"
proof -
  have "foldl (\<lambda>(m, i) r. (bt_insert r {EntryFresh i} m, Suc i)) (m, n) rs =
      (fold (\<lambda>(i, r) m. bt_insert r {EntryFresh i} m) (List.enumerate n rs) m, n + length rs)"
    for m n and rs :: "ir_variable list"
    by (induction rs arbitrary: m n) simp_all
  from this [of "[]" n "sorted_list_of_set (pr_register_set proj)"] show ?thesis
    by (simp add: generate_fresh_definition_def fresh_entries_def del: length_sorted_list_of_set)
qed

lemma lookup_fresh_entries:
  "distinct rs \<Longrightarrow> p < length rs \<Longrightarrow> map_of (fresh_entries n rs) (rs ! p) = Some {EntryFresh (n + p)}"
proof (induction rs rule: rev_induct)
  case (snoc r rs)
  then show ?case
    by (cases "p < length rs") (auto simp: fresh_entries_def enumerate_append_eq nth_append)
qed simp

lemma set_entry_value_exact:
  "fst (set_entry_value proj st n) =
     (fst st)(n \<mapsto> fresh_entries (snd st) (sorted_list_of_set (pr_register_set proj)))"
  "snd (set_entry_value proj st n) = snd st + card (pr_register_set proj)"
  by (simp_all add: set_entry_value_def generate_fresh_exact split: prod.splits)

lemma entry_values_count:
  "snd (foldl (set_entry_value proj) st ns) = snd st + length ns * card (pr_register_set proj)"
  by (induction ns arbitrary: st) (simp_all add: set_entry_value_exact)

lemma entry_values_nth:
  assumes "j < length ns" "distinct ns"
  shows "fst (foldl (set_entry_value proj) st ns) (ns ! j) =
    Some (fresh_entries (snd st + j * card (pr_register_set proj))
      (sorted_list_of_set (pr_register_set proj)))"
  using assms
proof (induction ns arbitrary: j rule: rev_induct)
  case (snoc n ns)
  then show ?case
    by (cases "j < length ns")
      (auto simp: set_entry_value_exact entry_values_count nth_append less_Suc_eq)
qed simp

lemma entry_values_lookup:
  assumes "is_enum order" "finite E" "finite (pr_register_set proj)" "n \<in> E" "r \<in> pr_register_set proj"
  obtains j p where "j < length (order E)" "order E ! j = n"
    "p < card (pr_register_set proj)" "sorted_list_of_set (pr_register_set proj) ! p = r"
    "fst (entry_values order proj E) n = Some
      (fresh_entries (j * card (pr_register_set proj)) (sorted_list_of_set (pr_register_set proj)))"
    "map_of (fresh_entries (j * card (pr_register_set proj)) (sorted_list_of_set (pr_register_set proj))) r
      = Some {EntryFresh (j * card (pr_register_set proj) + p)}"
proof -
  let ?rs = "sorted_list_of_set (pr_register_set proj)"
  have "n \<in> set (order E)" "r \<in> set ?rs" using assms is_enumD by auto
  then obtain j p where j: "j < length (order E)" "order E ! j = n" and p: "p < length ?rs" "?rs ! p = r"
    by (metis in_set_conv_nth)
  have "fst (entry_values order proj E) n = Some (fresh_entries (j * card (pr_register_set proj)) ?rs)"
    using entry_values_nth [OF j(1) is_enumD(2) [OF assms(1,2)], of proj "(Map.empty, 0)"] j(2)
    by (simp add: entry_values_def)
  moreover have "map_of (fresh_entries (j * card (pr_register_set proj)) ?rs) r =
      Some {EntryFresh (j * card (pr_register_set proj) + p)}"
    using lookup_fresh_entries [OF _ p(1)] p(2) by simp
  ultimately show ?thesis using p by (intro that [OF j]) simp_all
qed

lemma index_pair_inj:
  fixes K :: nat
  assumes "p < K" "q < K"
  shows "i * K + p = j * K + q \<longleftrightarrow> i = j \<and> p = q"
proof
  assume e: "i * K + p = j * K + q"
  have "(i * K + p) div K = i" "(j * K + q) div K = j" using assms by simp_all
  with e have "i = j" by simp
  with e show "i = j \<and> p = q" by simp
qed simp

section \<open>Properties\<close>

text \<open>C12.
  Merging two states of the reaching definitions analysis never hits the assertions of
  \<^verbatim>\<open>ImplicitBottomMappingDomain::merge\<close>, and the merged state is the least upper bound
  of both in the order of \<^verbatim>\<open>partial_cmp\<close>, for every map of the library that obeys the
  documented union merge.  That order compares registers one by one, with an absent register
  below every set of definitions.\<close>
theorem reaching_merge_least_upper:
  fixes a b c :: "'tid dom_val"
  assumes "union_merge dm_merge (term_set_merge :: 'tid term_set \<Rightarrow> _)"
  shows "\<exists>m. ibd_merge dm_merge term_set_partial_cmp a b = Some m
    \<and> ibd_le term_set_partial_cmp a m \<and> ibd_le term_set_partial_cmp b m
    \<and> (ibd_le term_set_partial_cmp a c \<longrightarrow> ibd_le term_set_partial_cmp b c \<longrightarrow>
       ibd_le term_set_partial_cmp m c)
    \<and> (ibd_le term_set_partial_cmp a c \<longleftrightarrow> (\<forall>r. entry_le (map_of a r) (map_of c r)))"
proof (intro exI conjI impI)
  note dom = term_set_domain [OF assms]
  show "ibd_merge dm_merge term_set_partial_cmp a b = Some (dm_merge a b)"
    by (rule domain_merge.merge_total [OF dom])
  show "ibd_le term_set_partial_cmp a (dm_merge a b)" "ibd_le term_set_partial_cmp b (dm_merge a b)"
    by (rule domain_merge.merge_above [OF dom])+
  show "ibd_le term_set_partial_cmp (dm_merge a b) c"
    if "ibd_le term_set_partial_cmp a c" "ibd_le term_set_partial_cmp b c"
    using that by (simp add: ibd_le_iff union_merge.lookup_merge [OF assms] merge_entries_least)
  show "ibd_le term_set_partial_cmp a c \<longleftrightarrow> (\<forall>r. entry_le (map_of a r) (map_of c r))"
    by (rule ibd_le_iff)
qed


text \<open>At the entry points of the analysis every register has exactly one reaching definition, and
  its type variable is shared by no other register and no other entry point.\<close>
theorem entry_definitions_fresh:
  assumes enum: "is_enum order" and fin: "finite E" "finite (pr_register_set proj)"
    and n: "n \<in> E" "r \<in> pr_register_set proj" and m: "m \<in> E" "q \<in> pr_register_set proj"
  shows "\<exists>a b s t. fst (entry_values order proj E) n = Some a \<and> fst (entry_values order proj E) m = Some b
    \<and> rc_access show_tid \<lparr>rc_mapping = a, rc_project = proj\<rparr> r = {s}
    \<and> rc_access show_tid \<lparr>rc_mapping = b, rc_project = proj\<rparr> q = {t}
    \<and> (s = t \<longleftrightarrow> n = m \<and> r = q)"
proof -
  let ?K = "card (pr_register_set proj)" and ?rs = "sorted_list_of_set (pr_register_set proj)"
  obtain j p where j: "j < length (order E)" "order E ! j = n" and p: "p < ?K" "?rs ! p = r"
    and a: "fst (entry_values order proj E) n = Some (fresh_entries (j * ?K) ?rs)"
      "map_of (fresh_entries (j * ?K) ?rs :: 'a dom_val) r = Some {EntryFresh (j * ?K + p)}"
    using entry_values_lookup [OF enum fin n] by blast
  obtain i k where i: "i < length (order E)" "order E ! i = m" and k: "k < ?K" "?rs ! k = q"
    and b: "fst (entry_values order proj E) m = Some (fresh_entries (i * ?K) ?rs)"
      "map_of (fresh_entries (i * ?K) ?rs :: 'a dom_val) q = Some {EntryFresh (i * ?K + k)}"
    using entry_values_lookup [OF enum fin m] by blast
  have "j = i \<longleftrightarrow> n = m"
    using nth_eq_iff_index_eq [OF is_enumD(2) [OF enum fin(1)] j(1) i(1)] j(2) i(2) by simp
  moreover have "p = k \<longleftrightarrow> r = q"
    using nth_eq_iff_index_eq [of ?rs p k] p k by simp
  ultimately have "show_nat (j * ?K + p) = show_nat (i * ?K + k) \<longleftrightarrow> n = m \<and> r = q"
    using index_pair_inj [OF p(1) k(1), of j i] show_nat_inj by auto
  moreover have acc: "rc_access show_tid \<lparr>rc_mapping = M, rc_project = proj\<rparr> v =
      {tv_new (''entry_fresh_definition'' @ show_nat x)}" if "map_of M v = Some {EntryFresh x}" for M v x
    using that by (simp add: rc_access_def generate_multi_def_constraint_def type_variable_from_def_def)
  ultimately show ?thesis
    using a(1) b(1) acc [OF a(2)] acc [OF b(2)]
    by (intro exI conjI) (assumption | simp add: tv_new_def)+
qed

end
