(* ===== verification/ConstraintGen.thy ===== *)
theory ConstraintGen
  imports ReachingDefs SimplifyPath Subtyping Petgraph "HOL-Library.Monad_Syntax"
begin

text \<open>
  The generation of constraints from the intermediate representation
  (\<^verbatim>\<open>src/constraint_generation/mod.rs\<close>).  The traits over which the code is generic,
  the register, points-to, procedure and constant contexts, are the fields of a record of
  operations; the same record holds the methods of the library on bit vectors, expressions and
  sizes.  A panic of the code is \<^const>\<open>None\<close>; log messages are left out.
\<close>

section \<open>Contexts\<close>

record 'tid tv_access =
  ac_ty_var :: "'tid type_variable"
  ac_sz :: nat
  ac_offset :: "int option"

datatype 'tid arg_tvar_of = MemTvar "'tid tv_access" | VariableTvar "'tid type_variable"

record ('tid, 'bv, 'r, 'p, 's, 'c) gen_ops =
  gt_show_tid :: "'tid \<Rightarrow> string"
  gt_is_one :: "'bv \<Rightarrow> bool"
  gt_to_i128 :: "'bv \<Rightarrow> int option"
  gt_bytesize :: "'bv expression \<Rightarrow> nat"
  gt_bit_length :: "nat \<Rightarrow> nat"
  gt_r_apply_def :: "'r \<Rightarrow> ('tid, 'bv ir_def) ir_term \<Rightarrow> 'r"
  gt_r_apply_return :: "'r \<Rightarrow> ('tid, ('tid, 'bv) ir_jmp) ir_term \<Rightarrow> ('tid, ('tid, 'bv) ir_jmp) ir_term \<Rightarrow> 'r"
  gt_access :: "'r \<Rightarrow> ir_variable \<Rightarrow> 'tid type_variable set"
  gt_p_apply_def :: "'p \<Rightarrow> ('tid, 'bv ir_def) ir_term \<Rightarrow> 'p"
  gt_p_apply_return :: "'p \<Rightarrow> ('tid, ('tid, 'bv) ir_jmp) ir_term \<Rightarrow> ('tid, ('tid, 'bv) ir_jmp) ir_term \<Rightarrow> 'p"
  gt_points_to :: "'p \<Rightarrow> 'bv expression \<Rightarrow> nat \<Rightarrow> 'tid tv_access set"
  gt_get_pointer_variable :: "'p \<Rightarrow> 'bv expression \<Rightarrow> 'c \<Rightarrow> 'tid dtv option"
  gt_s_apply_def :: "'s \<Rightarrow> ('tid, 'bv ir_def) ir_term \<Rightarrow> 's"
  gt_s_apply_return :: "'s \<Rightarrow> ('tid, ('tid, 'bv) ir_jmp) ir_term \<Rightarrow> ('tid, ('tid, 'bv) ir_jmp) ir_term \<Rightarrow> 's"
  gt_arg :: "'s \<Rightarrow> 'bv ir_arg \<Rightarrow> 'r \<Rightarrow> 'p \<Rightarrow> variable_manager \<Rightarrow>
    'tid arg_tvar_of set \<times> variable_manager"
  gt_c_apply_def :: "'c \<Rightarrow> ('tid, 'bv ir_def) ir_term \<Rightarrow> 'c"
  gt_c_apply_return :: "'c \<Rightarrow> ('tid, ('tid, 'bv) ir_jmp) ir_term \<Rightarrow> ('tid, ('tid, 'bv) ir_jmp) ir_term \<Rightarrow> 'c"
  gt_maybe_resolve :: "'c \<Rightarrow> 'bv \<Rightarrow> 'tid dtv option"

record ('tid, 'r, 'p, 's, 'c) node_context =
  nc_reg_map :: 'r
  nc_points_to :: 'p
  nc_subprocedure_locators :: 's
  nc_constant_resolver :: 'c
  nc_weakest_integral_type :: "'tid type_variable"

definition node_context_new ::
    "'r \<Rightarrow> 'p \<Rightarrow> 's \<Rightarrow> 'c \<Rightarrow> 'tid type_variable \<Rightarrow> ('tid, 'r, 'p, 's, 'c) node_context" where
  "node_context_new r p s c weakest =
     \<lparr>nc_reg_map = r, nc_points_to = p, nc_subprocedure_locators = s, nc_constant_resolver = c,
      nc_weakest_integral_type = weakest\<rparr>"

definition nc_apply_def ::
    "('tid, 'bv, 'r, 'p, 's, 'c) gen_ops \<Rightarrow> ('tid, 'r, 'p, 's, 'c) node_context \<Rightarrow>
     ('tid, 'bv ir_def) ir_term \<Rightarrow> ('tid, 'r, 'p, 's, 'c) node_context" where
  "nc_apply_def T self df =
     (let r = gt_r_apply_def T (nc_reg_map self) df;
          p = gt_p_apply_def T (nc_points_to self) df;
          s = gt_s_apply_def T (nc_subprocedure_locators self) df;
          c = gt_c_apply_def T (nc_constant_resolver self) df
      in node_context_new r p s c (nc_weakest_integral_type self))"

definition nc_apply_return_node ::
    "('tid, 'bv, 'r, 'p, 's, 'c) gen_ops \<Rightarrow> ('tid, 'r, 'p, 's, 'c) node_context \<Rightarrow>
     ('tid, ('tid, 'bv) ir_jmp) ir_term \<Rightarrow> ('tid, ('tid, 'bv) ir_jmp) ir_term \<Rightarrow>
     ('tid, 'r, 'p, 's, 'c) node_context" where
  "nc_apply_return_node T self call_term return_term =
     (let r = gt_r_apply_return T (nc_reg_map self) call_term return_term;
          p = gt_p_apply_return T (nc_points_to self) call_term return_term;
          s = gt_s_apply_return T (nc_subprocedure_locators self) call_term return_term;
          c = gt_c_apply_return T (nc_constant_resolver self) call_term return_term
      in node_context_new r p s c (nc_weakest_integral_type self))"

definition resolve_constant_to_variable ::
    "('tid, 'bv, 'r, 'p, 's, 'c) gen_ops \<Rightarrow> 'c \<Rightarrow> 'bv \<Rightarrow> variable_manager \<Rightarrow>
     'tid dtv \<times> variable_manager" where
  "resolve_constant_to_variable T self target vman =
     (case gt_maybe_resolve T self target of
        Some d \<Rightarrow> (d, vman)
      | None \<Rightarrow> (let (tv, vman) = fresh vman in (dtv_new tv, vman)))"

section \<open>Representations of values\<close>

record 'tid base_value_domain =
  bv_repr_var :: "'tid dtv"
  bv_additional :: "'tid constraint_set"

definition bvd_merge ::
    "'tid base_value_domain \<Rightarrow> 'tid base_value_domain \<Rightarrow>
     ('tid dtv \<Rightarrow> 'tid dtv \<Rightarrow> 'tid constraint_set \<Rightarrow> 'tid base_value_domain) \<Rightarrow>
     'tid base_value_domain" where
  "bvd_merge self other f =
     (let additional = insert_all (bv_additional other) (bv_additional self)
      in f (bv_repr_var self) (bv_repr_var other) additional)"

definition generate_const_add_repr ::
    "('tid, 'bv, 'r, 'p, 's, 'c) gen_ops \<Rightarrow> 'bv \<Rightarrow> 'tid base_value_domain \<Rightarrow>
     'tid base_value_domain option" where
  "generate_const_add_repr T bv expr_repr =
     (case gt_to_i128 T bv of
        None \<Rightarrow> None
      | Some constant \<Rightarrow>
          Some (expr_repr\<lparr>bv_repr_var := add_field_label (bv_repr_var expr_repr) (Add constant)\<rparr>))"

definition is_constant_one :: "('tid, 'bv, 'r, 'p, 's, 'c) gen_ops \<Rightarrow> 'bv expression \<Rightarrow> bool" where
  "is_constant_one T expr = (case expr of EConst ap \<Rightarrow> gt_is_one T ap | _ \<Rightarrow> False)"

definition unhandled_expr ::
    "variable_manager \<Rightarrow> ('tid dtv \<times> 'tid constraint_set) \<times> variable_manager" where
  "unhandled_expr vman = (let (repr, vman) = fresh vman in ((dtv_new repr, cs_empty), vman))"

definition assume_weak_integral ::
    "('tid, 'r, 'p, 's, 'c) node_context \<Rightarrow> variable_manager \<Rightarrow>
     ('tid dtv \<times> 'tid constraint_set) \<times> variable_manager" where
  "assume_weak_integral self vman =
     (let (f, vman) = fresh vman;
          dtv = dtv_new f;
          cs = cs_insert (SubTy \<lparr>sub_lhs = dtv, sub_rhs = dtv_new (nc_weakest_integral_type self)\<rparr>) cs_empty
      in ((dtv, cs), vman))"

text \<open>The value of a register: the one reaching type variable, or a fresh one related to all.\<close>

definition eval_register ::
    "'tid type_variable set \<Rightarrow> bool \<Rightarrow> variable_manager \<Rightarrow>
     ('tid dtv \<times> 'tid constraint_set) \<times> variable_manager" where
  "eval_register vars subtype_of_repr vman =
     (if card vars = 1 then ((dtv_new (the_elem vars), cs_empty), vman)
      else if vars = {} then (let (f, vman) = fresh vman in ((dtv_new f, cs_empty), vman))
      else
        (let (f, vman) = fresh vman;
             repr = dtv_new f;
             cons = (\<lambda>def_var.
                 if subtype_of_repr then SubTy (subtype_new (dtv_new def_var) repr)
                 else SubTy (subtype_new repr (dtv_new def_var))) ` vars
         in ((repr, cons), vman)))"

section \<open>Evaluation of expressions\<close>

text \<open>The size that decreases: a negation put in front of an operand costs nothing.\<close>

fun expr_weight :: "'bv expression \<Rightarrow> nat" where
  "expr_weight (EBinOp _ l r) = Suc (expr_weight l + expr_weight r)"
| "expr_weight (EUnOp _ a) = expr_weight a"
| "expr_weight (ECast _ _ a) = expr_weight a"
| "expr_weight _ = 1"

lemma expr_weight_pos [simp]: "0 < expr_weight e"
  by (induction e) simp_all

text \<open>The pattern of a constant operand.\<close>

fun const_operand :: "'bv expression \<Rightarrow> 'bv option" where
  "const_operand (EConst k) = Some k"
| "const_operand _ = None"

lemma const_operand_iff: "const_operand e = Some k \<longleftrightarrow> e = EConst k"
  by (cases e) auto

type_synonym 'tid eval_result = "(('tid dtv \<times> 'tid constraint_set) \<times> variable_manager) option"

function eval_add ::
    "('tid, 'bv, 'r, 'p, 's, 'c) gen_ops \<Rightarrow> ('tid, 'r, 'p, 's, 'c) node_context \<Rightarrow>
     'bv expression \<Rightarrow> 'bv expression \<Rightarrow> bool \<Rightarrow> variable_manager \<Rightarrow> 'tid eval_result"
  and evaluate_binop ::
    "('tid, 'bv, 'r, 'p, 's, 'c) gen_ops \<Rightarrow> ('tid, 'r, 'p, 's, 'c) node_context \<Rightarrow>
     bin_op_type \<Rightarrow> 'bv expression \<Rightarrow> 'bv expression \<Rightarrow> bool \<Rightarrow> variable_manager \<Rightarrow> 'tid eval_result"
  and evaluate_expression ::
    "('tid, 'bv, 'r, 'p, 's, 'c) gen_ops \<Rightarrow> ('tid, 'r, 'p, 's, 'c) node_context \<Rightarrow>
     'bv expression \<Rightarrow> bool \<Rightarrow> variable_manager \<Rightarrow> 'tid eval_result" where
  "eval_add T self lhs rhs flag vman =
     (case const_operand lhs of
        Some lhs_const \<Rightarrow>
          do { ((d, cs), vman) \<leftarrow> evaluate_expression T self rhs flag vman;
               v \<leftarrow> generate_const_add_repr T lhs_const \<lparr>bv_repr_var = d, bv_additional = cs\<rparr>;
               Some ((bv_repr_var v, bv_additional v), vman) }
      | None \<Rightarrow>
        (case const_operand rhs of
           Some rhs_const \<Rightarrow>
             do { ((d, cs), vman) \<leftarrow> evaluate_expression T self lhs flag vman;
                  v \<leftarrow> generate_const_add_repr T rhs_const \<lparr>bv_repr_var = d, bv_additional = cs\<rparr>;
                  Some ((bv_repr_var v, bv_additional v), vman) }
         | None \<Rightarrow>
             do { ((d1, cs1), vman) \<leftarrow> evaluate_expression T self lhs flag vman;
                  ((d2, cs2), vman) \<leftarrow> evaluate_expression T self rhs flag vman;
                  let (f, vman) = fresh vman;
                  let nvar = dtv_new f;
                  let v = bvd_merge \<lparr>bv_repr_var = d1, bv_additional = cs1\<rparr>
                    \<lparr>bv_repr_var = d2, bv_additional = cs2\<rparr>
                    (\<lambda>l r cons. \<lparr>bv_repr_var = nvar,
                       bv_additional = cs_insert (AddCons (add_constraint_new l r nvar)) cons\<rparr>);
                  Some ((bv_repr_var v, bv_additional v), vman) }))"
| "evaluate_binop T self bop lhs rhs flag vman =
     (case bop of
        IntMult \<Rightarrow>
          if is_constant_one T lhs then evaluate_expression T self rhs flag vman
          else if is_constant_one T rhs then evaluate_expression T self lhs flag vman
          else Some (assume_weak_integral self vman)
      | IntAdd \<Rightarrow> eval_add T self lhs rhs flag vman
      | IntSub \<Rightarrow> eval_add T self lhs (EUnOp IntNegate rhs) flag vman
      | _ \<Rightarrow> (let (repr, vman) = fresh vman in Some ((dtv_new repr, cs_empty), vman)))"
| "evaluate_expression T self expr flag vman =
     (case gt_get_pointer_variable T (nc_points_to self) expr (nc_constant_resolver self) of
        Some gvar \<Rightarrow> Some ((gvar, cs_empty), vman)
      | None \<Rightarrow>
        (case expr of
           EVar v2 \<Rightarrow> Some (eval_register (gt_access T (nc_reg_map self) v2) flag vman)
         | EBinOp bop lhs rhs \<Rightarrow> evaluate_binop T self bop lhs rhs flag vman
         | ECast cop _ _ \<Rightarrow>
             (case cop of
                IntZExt \<Rightarrow> Some (assume_weak_integral self vman)
              | IntSExt \<Rightarrow> Some (assume_weak_integral self vman)
              | Int2Float \<Rightarrow> Some (unhandled_expr vman)
              | Float2Float \<Rightarrow> Some (unhandled_expr vman)
              | Trunc \<Rightarrow> Some (assume_weak_integral self vman)
              | PopCount \<Rightarrow> Some (unhandled_expr vman))
         | EConst bv \<Rightarrow>
             (let (d, vman) = resolve_constant_to_variable T (nc_constant_resolver self) bv vman
              in Some ((d, cs_empty), vman))
         | _ \<Rightarrow> Some (unhandled_expr vman)))"
  by pat_completeness auto
termination
  by (relation "measure (\<lambda>x. case x of
        Inl (_, _, l, r, _, _) \<Rightarrow> 3 * (expr_weight l + expr_weight r) + 1
      | Inr (Inl (_, _, _, l, r, _, _)) \<Rightarrow> 3 * (expr_weight l + expr_weight r) + 2
      | Inr (Inr (_, _, e, _, _)) \<Rightarrow> 3 * expr_weight e)") auto

declare eval_add.simps [simp del] evaluate_binop.simps [simp del] evaluate_expression.simps [simp del]

section \<open>Definitions of a block\<close>

definition reg_update ::
    "('tid, 'bv, 'r, 'p, 's, 'c) gen_ops \<Rightarrow> 'tid \<Rightarrow> ir_variable \<Rightarrow> 'tid dtv \<Rightarrow> 'tid constraint_set" where
  "reg_update T at_term v_into value_repr =
     (let reg_tv = tid_indexed_by_variable (gt_show_tid T) at_term (iv_name v_into)
      in cs_insert (SubTy (subtype_new value_repr (dtv_new reg_tv))) cs_empty)"

definition apply_assign ::
    "('tid, 'bv, 'r, 'p, 's, 'c) gen_ops \<Rightarrow> ('tid, 'r, 'p, 's, 'c) node_context \<Rightarrow>
     'tid \<Rightarrow> ir_variable \<Rightarrow> 'bv expression \<Rightarrow> variable_manager \<Rightarrow>
     ('tid constraint_set \<times> variable_manager) option" where
  "apply_assign T self tid var expr vman =
     do { ((value_type_var, constraints), vman) \<leftarrow> evaluate_expression T self expr True vman;
          let cons = reg_update T tid var value_type_var;
          Some (insert_all constraints cons, vman) }"

text \<open>The loop over the accesses inserts into a set, one constraint for each known offset.\<close>

definition build_addressing_representation ::
    "('tid, 'bv, 'r, 'p, 's, 'c) gen_ops \<Rightarrow> ('tid, 'r, 'p, 's, 'c) node_context \<Rightarrow>
     'bv expression \<Rightarrow> nat \<Rightarrow> field_label \<Rightarrow> bool \<Rightarrow> variable_manager \<Rightarrow>
     ('tid base_value_domain \<times> variable_manager) option" where
  "build_addressing_representation T self adressing_expr sz field_label address_is_subtype vman =
     (let tv_access = gt_points_to T (nc_points_to self) adressing_expr sz
      in do { ((reg_repr, cons), vman) \<leftarrow> evaluate_expression T self adressing_expr True vman;
              representation \<leftarrow> simplify_path
                (add_field_label (add_field_label reg_repr field_label)
                  (Field (field_new 0 (gt_bit_length T sz))));
              let cons = cons \<union>
                (\<lambda>acc. let dt_repr = add_field_label (dtv_new (ac_ty_var acc))
                             (Field (field_new (the (ac_offset acc)) (gt_bit_length T (ac_sz acc))))
                       in SubTy (if address_is_subtype then subtype_new representation dt_repr
                                 else subtype_new dt_repr representation))
                  ` {acc \<in> tv_access. ac_offset acc \<noteq> None};
              Some (\<lparr>bv_repr_var = representation, bv_additional = cons\<rparr>, vman) })"

definition memaccess ::
    "('tid, 'bv, 'r, 'p, 's, 'c) gen_ops \<Rightarrow> ('tid, 'r, 'p, 's, 'c) node_context \<Rightarrow>
     'bv expression \<Rightarrow> nat \<Rightarrow> variable_manager \<Rightarrow>
     ('tid base_value_domain \<times> variable_manager) option" where
  "memaccess T self adressing_expr sz vman =
     build_addressing_representation T self adressing_expr sz Load False vman"

definition apply_load ::
    "('tid, 'bv, 'r, 'p, 's, 'c) gen_ops \<Rightarrow> ('tid, 'r, 'p, 's, 'c) node_context \<Rightarrow>
     'tid \<Rightarrow> ir_variable \<Rightarrow> 'bv expression \<Rightarrow> variable_manager \<Rightarrow>
     ('tid constraint_set \<times> variable_manager) option" where
  "apply_load T self tid v_into address vman =
     do { (bv, vman) \<leftarrow> memaccess T self address (iv_size v_into) vman;
          let base_set = reg_update T tid v_into (bv_repr_var bv);
          Some (insert_all base_set (bv_additional bv), vman) }"

definition memupdate ::
    "('tid, 'bv, 'r, 'p, 's, 'c) gen_ops \<Rightarrow> ('tid, 'r, 'p, 's, 'c) node_context \<Rightarrow>
     'bv expression \<Rightarrow> 'bv expression \<Rightarrow> variable_manager \<Rightarrow>
     ('tid constraint_set \<times> variable_manager) option" where
  "memupdate T self addressing_expr value_expr vman =
     do { (bv_dom, vman) \<leftarrow> build_addressing_representation T self addressing_expr
            (gt_bytesize T value_expr) Store True vman;
          let cons = bv_additional bv_dom;
          ((value_repr, value_cons), vman) \<leftarrow> evaluate_expression T self value_expr True vman;
          let cons = insert_all cons value_cons;
          Some (cs_insert (SubTy (subtype_new value_repr (bv_repr_var bv_dom))) cons, vman) }"

definition apply_store ::
    "('tid, 'bv, 'r, 'p, 's, 'c) gen_ops \<Rightarrow> ('tid, 'r, 'p, 's, 'c) node_context \<Rightarrow>
     'tid \<Rightarrow> 'bv expression \<Rightarrow> 'bv expression \<Rightarrow> variable_manager \<Rightarrow>
     ('tid constraint_set \<times> variable_manager) option" where
  "apply_store T self tid value_from address_into vman = memupdate T self address_into value_from vman"

definition handle_def ::
    "('tid, 'bv, 'r, 'p, 's, 'c) gen_ops \<Rightarrow> ('tid, 'r, 'p, 's, 'c) node_context \<Rightarrow>
     ('tid, 'bv ir_def) ir_term \<Rightarrow> variable_manager \<Rightarrow>
     ('tid constraint_set \<times> variable_manager) option" where
  "handle_def T self df vman =
     (case t_term df of
        DefLoad var address \<Rightarrow> apply_load T self (t_tid df) var address vman
      | DefStore address expr \<Rightarrow> apply_store T self (t_tid df) expr address vman
      | DefAssign var expr \<Rightarrow> apply_assign T self (t_tid df) var expr vman)"

text \<open>\<open>fold_over_definition_states\<close>: the context before each definition, the inner state.\<close>

definition fold_over_definition_states ::
    "('ctx \<Rightarrow> ('tid, 'bv ir_def) ir_term \<Rightarrow> 'ctx) \<Rightarrow> 'ctx \<Rightarrow> ('tid, ('tid, 'bv) ir_blk) ir_term \<Rightarrow> 'i \<Rightarrow>
     (('tid, 'bv ir_def) ir_term \<Rightarrow> 'ctx \<Rightarrow> 'i \<Rightarrow> 'i) \<Rightarrow> 'i" where
  "fold_over_definition_states ctx_apply_def nd_ctxt blk init_inner_state produce =
     fst (foldl (\<lambda>(inner_state, new_ctxt) df.
         let next_inner = produce df new_ctxt inner_state;
             next_ctxt = ctx_apply_def new_ctxt df
         in (next_inner, next_ctxt))
       (init_inner_state, nd_ctxt) (b_defs (t_term blk)))"

definition handle_block_start ::
    "('tid, 'bv, 'r, 'p, 's, 'c) gen_ops \<Rightarrow> ('tid, 'r, 'p, 's, 'c) node_context \<Rightarrow>
     ('tid, ('tid, 'bv) ir_blk) ir_term \<Rightarrow> variable_manager \<Rightarrow>
     ('tid constraint_set \<times> variable_manager) option" where
  "handle_block_start T nd_ctxt blk vman =
     fold_over_definition_states (nc_apply_def T) nd_ctxt blk (Some (cs_empty, vman))
       (\<lambda>df curr_ctxt st.
          do { (curr_constraints, vman) \<leftarrow> st;
               (cs, vman) \<leftarrow> handle_def T curr_ctxt df vman;
               Some (insert_all curr_constraints cs, vman) })"

section \<open>Formal and actual parameters\<close>

record ('tid, 'bv, 'x) subprocedure_invocation =
  si_calling_blk :: "('tid, ('tid, 'bv) ir_blk) ir_term option"
  si_sub :: "('tid, 'x) ir_term"
  si_args :: "'bv ir_arg list"

definition argtvar_to_dtv ::
    "('tid, 'bv, 'r, 'p, 's, 'c) gen_ops \<Rightarrow> 'tid arg_tvar_of \<Rightarrow> int \<Rightarrow> 'tid dtv" where
  "argtvar_to_dtv T tvar displacement =
     (case tvar of
        VariableTvar tv \<Rightarrow> dtv_new tv
      | MemTvar tv_access \<Rightarrow>
          (let dt = dtv_new (ac_ty_var tv_access)
           in case ac_offset tv_access of
                Some off \<Rightarrow> add_field_label dt
                  (Field (field_new (wrap_i64 (off + displacement)) (gt_bit_length T (ac_sz tv_access))))
              | None \<Rightarrow> dt))"

definition create_formal_tvar ::
    "('tid, 'bv, 'r, 'p, 's, 'c) gen_ops \<Rightarrow> ('tid, ('tid, 'bv) ir_blk) ir_term option \<Rightarrow> nat \<Rightarrow>
     (nat \<Rightarrow> field_label) \<Rightarrow> ('tid, 'x) ir_term \<Rightarrow> 'tid dtv" where
  "create_formal_tvar T calling_blk indx index_to_field_label sub =
     (let base_tv = (case calling_blk of
            Some tg \<Rightarrow> tid_to_tvar_with_tag (gt_show_tid T) (t_tid sub) (t_tid tg)
          | None \<Rightarrow> tid_to_tvar (gt_show_tid T) (t_tid sub))
      in add_field_label (dtv_new base_tv) (index_to_field_label indx))"

definition make_constraints ::
    "('tid, 'bv, 'r, 'p, 's, 'c) gen_ops \<Rightarrow> ('tid, 'r, 'p, 's, 'c) node_context \<Rightarrow>
     ('tid, 'bv, 'x) subprocedure_invocation \<Rightarrow> (nat \<Rightarrow> field_label) \<Rightarrow> bool \<Rightarrow> int \<Rightarrow>
     variable_manager \<Rightarrow> 'tid constraint_set \<times> variable_manager" where
  "make_constraints T self callsite index_to_field_label arg_is_written displacement vm =
     foldl (\<lambda>(start_constraints, vm) (i, a).
         let formal_tv = create_formal_tvar T (si_calling_blk callsite) i index_to_field_label (si_sub callsite);
             (arg_tvars, vm) = gt_arg T (nc_subprocedure_locators self) a (nc_reg_map self) (nc_points_to self) vm
         in (start_constraints \<union>
               (\<lambda>arg_repr_tvar. let dt = argtvar_to_dtv T arg_repr_tvar displacement
                  in SubTy (if arg_is_written then subtype_new formal_tv dt else subtype_new dt formal_tv))
                 ` arg_tvars, vm))
       (cs_empty, vm) (List.enumerate 0 (si_args callsite))"

definition handle_entry_formals ::
    "('tid, 'bv, 'r, 'p, 's, 'c) gen_ops \<Rightarrow> ('tid, 'r, 'p, 's, 'c) node_context \<Rightarrow>
     ('tid, ('tid, 'bv) ir_sub) ir_term \<Rightarrow> variable_manager \<Rightarrow> 'tid constraint_set \<times> variable_manager" where
  "handle_entry_formals T self sub vman =
     make_constraints T self
       \<lparr>si_calling_blk = None, si_sub = sub, si_args = s_formal_args (t_term sub)\<rparr> In True 0 vman"

definition handle_return_formals ::
    "('tid, 'bv, 'r, 'p, 's, 'c) gen_ops \<Rightarrow> ('tid, 'r, 'p, 's, 'c) node_context \<Rightarrow>
     ('tid, ('tid, 'bv) ir_sub) ir_term \<Rightarrow> variable_manager \<Rightarrow> 'tid constraint_set \<times> variable_manager" where
  "handle_return_formals T self sub vman =
     make_constraints T self
       \<lparr>si_calling_blk = None, si_sub = sub, si_args = s_formal_rets (t_term sub)\<rparr> Out False 0 vman"

definition handle_return_actual ::
    "('tid, 'bv, 'r, 'p, 's, 'c) gen_ops \<Rightarrow> ('tid, 'r, 'p, 's, 'c) node_context \<Rightarrow>
     ('tid, ('tid, 'bv) ir_blk) ir_term \<Rightarrow> ('tid, ('tid, 'bv) ir_sub) ir_term \<Rightarrow>
     variable_manager \<Rightarrow> int \<Rightarrow> 'tid constraint_set \<times> variable_manager" where
  "handle_return_actual T self calling_blk sub vman displacement =
     make_constraints T self
       \<lparr>si_calling_blk = Some calling_blk, si_sub = sub, si_args = s_formal_rets (t_term sub)\<rparr>
       Out True displacement vman"

definition handle_call_actual ::
    "('tid, 'bv, 'r, 'p, 's, 'c) gen_ops \<Rightarrow> ('tid, 'r, 'p, 's, 'c) node_context \<Rightarrow>
     ('tid, ('tid, 'bv) ir_blk) ir_term \<Rightarrow> ('tid, ('tid, 'bv) ir_sub) ir_term \<Rightarrow>
     variable_manager \<Rightarrow> int \<Rightarrow> 'tid constraint_set \<times> variable_manager" where
  "handle_call_actual T self calling_blk sub vman displacement =
     make_constraints T self
       \<lparr>si_calling_blk = Some calling_blk, si_sub = sub, si_args = s_formal_args (t_term sub)\<rparr>
       In False displacement vman"

definition handle_extern_actual_params ::
    "('tid, 'bv, 'r, 'p, 's, 'c) gen_ops \<Rightarrow> ('tid, 'r, 'p, 's, 'c) node_context \<Rightarrow>
     ('tid, ('tid, 'bv) ir_blk) ir_term \<Rightarrow> ('tid, 'bv extern_symbol) ir_term \<Rightarrow>
     variable_manager \<Rightarrow> int \<Rightarrow> 'tid constraint_set \<times> variable_manager" where
  "handle_extern_actual_params T self calling_blk sub vman displacement =
     make_constraints T self
       \<lparr>si_calling_blk = Some calling_blk, si_sub = sub, si_args = x_parameters (t_term sub)\<rparr>
       In False displacement vman"

definition handle_extern_actual_rets ::
    "('tid, 'bv, 'r, 'p, 's, 'c) gen_ops \<Rightarrow> ('tid, 'r, 'p, 's, 'c) node_context \<Rightarrow>
     ('tid, ('tid, 'bv) ir_blk) ir_term \<Rightarrow> ('tid, 'bv extern_symbol) ir_term \<Rightarrow>
     variable_manager \<Rightarrow> int \<Rightarrow> 'tid constraint_set \<times> variable_manager" where
  "handle_extern_actual_rets T self calling_blk sub vman displacement =
     make_constraints T self
       \<lparr>si_calling_blk = Some calling_blk, si_sub = sub, si_args = x_return_values (t_term sub)\<rparr>
       Out True displacement vman"

section \<open>Walking the control flow graph\<close>

text \<open>
  The nodes and edges of the interprocedural control flow graph of \<^verbatim>\<open>cwe_checker_lib\<close>
  the code matches on; all other edges are \<open>EdgeOther\<close>.
\<close>

datatype ('tid, 'bv) cfg_node =
    BlkStart "('tid, ('tid, 'bv) ir_blk) ir_term" "('tid, ('tid, 'bv) ir_sub) ir_term"
  | BlkEnd "('tid, ('tid, 'bv) ir_blk) ir_term" "('tid, ('tid, 'bv) ir_sub) ir_term"
  | CallReturn
      "('tid, ('tid, 'bv) ir_blk) ir_term \<times> ('tid, ('tid, 'bv) ir_sub) ir_term"
      "('tid, ('tid, 'bv) ir_blk) ir_term \<times> ('tid, ('tid, 'bv) ir_sub) ir_term"
  | CallSource
      "('tid, ('tid, 'bv) ir_blk) ir_term \<times> ('tid, ('tid, 'bv) ir_sub) ir_term"
      "('tid, ('tid, 'bv) ir_blk) ir_term \<times> ('tid, ('tid, 'bv) ir_sub) ir_term"

datatype ('tid, 'bv) cfg_edge =
    ExternCallStub "('tid, ('tid, 'bv) ir_jmp) ir_term"
  | ReturnCombine "('tid, ('tid, 'bv) ir_jmp) ir_term"
  | EdgeOther nat

record ('g, 'tid, 'bv, 'r, 'p, 's, 'c) gen_context =
  gc_graph :: 'g
  gc_node_contexts :: "nat \<Rightarrow> ('tid, 'r, 'p, 's, 'c) node_context option"
  gc_extern_symbols :: "('tid \<times> 'bv extern_symbol) list"
  gc_function_filter :: "'tid set option"

definition blk_does_return :: "('tid, ('tid, 'bv) ir_blk) ir_term \<Rightarrow> bool" where
  "blk_does_return blk \<longleftrightarrow>
     list_ex (\<lambda>jmp. case t_term jmp of JmpReturn _ \<Rightarrow> True | _ \<Rightarrow> False) (b_jmps (t_term blk))"

definition called_externs ::
    "('tid \<times> 'bv extern_symbol) list \<Rightarrow> ('tid, ('tid, 'bv) ir_blk) ir_term \<Rightarrow>
     ('tid, 'bv extern_symbol) ir_term list" where
  "called_externs extern_symbols calling_blk =
     List.map_filter (\<lambda>jmp. case t_term jmp of
         JmpCall target _ \<Rightarrow>
           map_option (\<lambda>t. \<lparr>t_tid = target, t_term = t\<rparr>) (map_of extern_symbols target)
       | _ \<Rightarrow> None) (b_jmps (t_term calling_blk))"

definition collect_extern_call_constraints ::
    "('tid, 'bv, 'r, 'p, 's, 'c) gen_ops \<Rightarrow> ('g, 'tid, 'bv, 'r, 'p, 's, 'c) gen_context \<Rightarrow>
     ('tid, ('tid, 'bv) ir_blk) ir_term \<Rightarrow> ('tid, 'r, 'p, 's, 'c) node_context \<Rightarrow>
     variable_manager \<Rightarrow> 'tid constraint_set \<times> variable_manager" where
  "collect_extern_call_constraints T self calling_blk nd_ctxt vman =
     foldl (\<lambda>(prev, vman) ex.
         let (nxt, vman) = handle_extern_actual_params T nd_ctxt calling_blk ex vman 0
         in (insert_all prev nxt, vman))
       (cs_empty, vman) (called_externs (gc_extern_symbols self) calling_blk)"

definition collect_extern_ret_constraints ::
    "('tid, 'bv, 'r, 'p, 's, 'c) gen_ops \<Rightarrow> ('g, ('tid, 'bv) cfg_node, ('tid, 'bv) cfg_edge) petgraph \<Rightarrow>
     ('g, 'tid, 'bv, 'r, 'p, 's, 'c) gen_context \<Rightarrow> nat \<Rightarrow> ('tid, 'r, 'p, 's, 'c) node_context \<Rightarrow>
     variable_manager \<Rightarrow> ('tid constraint_set \<times> variable_manager) option" where
  "collect_extern_ret_constraints T G self nd_ind nd_ctxt vman =
     fold_opt (\<lambda>(_, source, _, weight) (cons, vman).
         do { source_node \<leftarrow> pg_node_weight G (gc_graph self) source;
              case weight of
                ExternCallStub jmp \<Rightarrow>
                  (case t_term jmp of
                     JmpCall target _ \<Rightarrow>
                       (case map_of (gc_extern_symbols self) target of
                          Some extern_symb \<Rightarrow>
                            (case source_node of
                               BlkEnd blk _ \<Rightarrow>
                                 (let (cs, vman) = handle_extern_actual_rets T nd_ctxt blk
                                        \<lparr>t_tid = target, t_term = extern_symb\<rparr> vman 0
                                  in Some (insert_all cons cs, vman))
                             | _ \<Rightarrow> None)
                        | None \<Rightarrow> Some (cons, vman))
                   | _ \<Rightarrow> Some (cons, vman))
              | _ \<Rightarrow> Some (cons, vman) })
       (edges_directed G (gc_graph self) nd_ind Outgoing) (cs_empty, vman)"

definition get_func_tid :: "('tid, 'bv) cfg_node \<Rightarrow> 'tid" where
  "get_func_tid nd =
     (case nd of
        BlkStart _ sub \<Rightarrow> t_tid sub
      | CallReturn (_, calling_proc) _ \<Rightarrow> t_tid calling_proc
      | CallSource (_, source_func) _ \<Rightarrow> t_tid source_func
      | BlkEnd _ sub \<Rightarrow> t_tid sub)"

definition should_generate_for_block ::
    "('g, 'tid, 'bv, 'r, 'p, 's, 'c) gen_context \<Rightarrow> ('tid, 'bv) cfg_node \<Rightarrow> bool" where
  "should_generate_for_block self nd \<longleftrightarrow>
     (case gc_function_filter self of Some funcs \<Rightarrow> get_func_tid nd \<in> funcs | None \<Rightarrow> True)"

definition return_constraints ::
    "('tid, 'bv, 'r, 'p, 's, 'c) gen_ops \<Rightarrow> ('g, ('tid, 'bv) cfg_node, ('tid, 'bv) cfg_edge) petgraph \<Rightarrow>
     ('g, 'tid, 'bv, 'r, 'p, 's, 'c) gen_context \<Rightarrow> nat \<Rightarrow> ('tid, 'r, 'p, 's, 'c) node_context \<Rightarrow>
     ('tid, ('tid, 'bv) ir_blk) ir_term \<Rightarrow> ('tid, ('tid, 'bv) ir_blk) ir_term \<Rightarrow>
     ('tid, ('tid, 'bv) ir_sub) ir_term \<Rightarrow>
     variable_manager \<Rightarrow> ('tid constraint_set \<times> variable_manager) option" where
  "return_constraints T G self nd_ind nd_cont call_blk return_from_block return_proc vman =
     fold_opt (\<lambda>(_, _, target, weight) (total_cons, vman).
         do { target_node \<leftarrow> pg_node_weight G (gc_graph self) target;
              if \<not> should_generate_for_block self target_node then Some (total_cons, vman)
              else case weight of
                ReturnCombine call_site \<Rightarrow>
                  (case b_jmps (t_term return_from_block) of
                     [] \<Rightarrow> None
                   | ret # _ \<Rightarrow>
                       (let post_cond = nc_apply_return_node T nd_cont call_site ret;
                            (cs, vman) = handle_return_actual T post_cond call_blk return_proc vman 0
                        in Some (insert_all total_cons cs, vman)))
              | _ \<Rightarrow> None })
       (edges_directed G (gc_graph self) nd_ind Outgoing) (cs_empty, vman)"

definition generate_constraints_for_node ::
    "('tid, 'bv, 'r, 'p, 's, 'c) gen_ops \<Rightarrow> ('g, ('tid, 'bv) cfg_node, ('tid, 'bv) cfg_edge) petgraph \<Rightarrow>
     ('g, 'tid, 'bv, 'r, 'p, 's, 'c) gen_context \<Rightarrow> nat \<Rightarrow>
     variable_manager \<Rightarrow> ('tid constraint_set \<times> variable_manager) option" where
  "generate_constraints_for_node T G self nd_ind vman =
     do { nd \<leftarrow> pg_node_weight G (gc_graph self) nd_ind;
          if \<not> should_generate_for_block self nd then Some (cs_empty, vman)
          else case gc_node_contexts self nd_ind of
            None \<Rightarrow> Some (cs_empty, vman)
          | Some nd_cont \<Rightarrow>
              (case nd of
                 BlkStart blk sub \<Rightarrow>
                   do { (add_cons, vman) \<leftarrow> collect_extern_ret_constraints T G self nd_ind nd_cont vman;
                        let total_cons = insert_all cs_empty add_cons;
                        first \<leftarrow> (case s_blocks (t_term sub) of [] \<Rightarrow> None | b # _ \<Rightarrow> Some b);
                        let (total_cons, vman) =
                          (if t_tid blk = t_tid first
                           then (let (ent_cons, vman) = handle_entry_formals T nd_cont sub vman
                                 in (insert_all total_cons ent_cons, vman))
                           else (total_cons, vman));
                        (cs, vman) \<leftarrow> handle_block_start T nd_cont blk vman;
                        Some (insert_all total_cons cs, vman) }
               | CallReturn (call_blk, _) (return_from_block, return_proc) \<Rightarrow>
                   return_constraints T G self nd_ind nd_cont call_blk return_from_block return_proc vman
               | CallSource (source_blk, _) (_, target_func) \<Rightarrow>
                   Some (handle_call_actual T nd_cont source_blk target_func vman 0)
               | BlkEnd blk sub \<Rightarrow>
                   (let (add_cons, vman) = collect_extern_call_constraints T self blk nd_cont vman;
                        cs = insert_all cs_empty add_cons
                    in Some (if blk_does_return blk
                       then (let (rets, vman) = handle_return_formals T nd_cont sub vman
                             in (insert_all cs rets, vman))
                       else (cs, vman)))) }"

definition generate_constraints ::
    "('tid, 'bv, 'r, 'p, 's, 'c) gen_ops \<Rightarrow> ('g, ('tid, 'bv) cfg_node, ('tid, 'bv) cfg_edge) petgraph \<Rightarrow>
     ('g, 'tid, 'bv, 'r, 'p, 's, 'c) gen_context \<Rightarrow>
     variable_manager \<Rightarrow> ('tid constraint_set \<times> variable_manager) option" where
  "generate_constraints T G self vman =
     fold_opt (\<lambda>nd_ind (cs, vman).
         do { (node_cs, vman) \<leftarrow> generate_constraints_for_node T G self nd_ind vman;
              Some (insert_all cs node_cs, vman) })
       (pg_node_indices G (gc_graph self)) (cs_empty, vman)"

end
