(* ===== verification/NodeContexts.thy ===== *)
theory NodeContexts
  imports ConstraintGen
begin

text \<open>
  The contexts the constraint generation runs on by default (\<^verbatim>\<open>src/node_context/\<close>):
  the procedure context that evaluates argument specifications, the resolver of constants to
  the globals of the program, the points-to context over a pointer inference state, and their
  combination per node of the control flow graph.  The pointer inference and its abstract
  values are code of \<^verbatim>\<open>cwe_checker_lib\<close>, the fields of a record.
\<close>

section \<open>Procedures\<close>

record procedure_context =
  pc_stack_pointer :: ir_variable

definition pc_apply_def ::
    "procedure_context \<Rightarrow> ('tid, 'bv ir_def) ir_term \<Rightarrow> procedure_context" where
  "pc_apply_def self df = self"

definition pc_apply_return_node ::
    "procedure_context \<Rightarrow> ('tid, ('tid, 'bv) ir_jmp) ir_term \<Rightarrow> ('tid, ('tid, 'bv) ir_jmp) ir_term \<Rightarrow>
     procedure_context" where
  "pc_apply_return_node self call_term return_term = self"

definition get_type_variables_for_arg ::
    "('r \<Rightarrow> ir_variable \<Rightarrow> 'tid type_variable set) \<Rightarrow> ('p \<Rightarrow> 'bv expression \<Rightarrow> nat \<Rightarrow> 'tid tv_access set) \<Rightarrow>
     procedure_context \<Rightarrow> 'bv ir_arg \<Rightarrow> 'r \<Rightarrow> 'p \<Rightarrow> variable_manager \<Rightarrow>
     'tid arg_tvar_of set \<times> variable_manager" where
  "get_type_variables_for_arg access points_to self arg reg pts vm =
     (case arg of
        ArgRegister e \<Rightarrow>
          (case e of
             EVar var \<Rightarrow> (let var_set = access reg var in (VariableTvar ` var_set, vm))
           | _ \<Rightarrow> ({}, vm))
      | ArgStack address sz \<Rightarrow>
          (let accessed_pointers = points_to pts address sz in (MemTvar ` accessed_pointers, vm)))"

section \<open>Constants\<close>

record 'tid ghidra_constant_resolver =
  gr_global_map :: "(64 word \<times> 'tid) list"

definition ghidra_resolver_from :: "('tid, 'bv) program \<Rightarrow> 'tid ghidra_constant_resolver" where
  "ghidra_resolver_from p =
     (let m = map (\<lambda>(b, tid). (b, tid)) (p_global_variables p) in \<lparr>gr_global_map = m\<rparr>)"

definition gr_apply_def ::
    "'tid ghidra_constant_resolver \<Rightarrow> ('tid, 'bv ir_def) ir_term \<Rightarrow> 'tid ghidra_constant_resolver" where
  "gr_apply_def self df = self"

definition gr_apply_return_node ::
    "'tid ghidra_constant_resolver \<Rightarrow> ('tid, ('tid, 'bv) ir_jmp) ir_term \<Rightarrow>
     ('tid, ('tid, 'bv) ir_jmp) ir_term \<Rightarrow> 'tid ghidra_constant_resolver" where
  "gr_apply_return_node self call_term return_term = self"

definition maybe_resolve_constant_to_variable ::
    "('tid \<Rightarrow> string) \<Rightarrow> ('bv \<Rightarrow> 64 word option) \<Rightarrow> 'tid ghidra_constant_resolver \<Rightarrow> 'bv \<Rightarrow>
     'tid dtv option" where
  "maybe_resolve_constant_to_variable show_tid try_to_u64 self target =
     map_option dtv_new
       (Option.bind (try_to_u64 target) (\<lambda>tgt.
          map_option (\<lambda>t. new_global (show_tid t)) (map_of (gr_global_map self) tgt)))"

section \<open>Pointers\<close>

text \<open>
  \<open>'st\<close> is a state of the pointer inference, \<open>'dd\<close> an abstract value, \<open>'iv\<close> an interval, \<open>'aid\<close>
  an abstract identifier.  A failed load or store leaves a state as well; its message is logged.
\<close>

record ('bv, 'st, 'dd, 'iv, 'aid) pointer_lib =
  pl_assign :: "'st \<Rightarrow> ir_variable \<Rightarrow> 'bv expression \<Rightarrow> 'st"
  pl_load :: "'st \<Rightarrow> ir_variable \<Rightarrow> 'bv expression \<Rightarrow> 'st"
  pl_store :: "'st \<Rightarrow> 'bv expression \<Rightarrow> 'bv expression \<Rightarrow> 'st"
  pl_eval :: "'st \<Rightarrow> 'bv expression \<Rightarrow> 'dd"
  pl_relative_values :: "'dd \<Rightarrow> ('aid \<times> 'iv) set"
  pl_absolute_value :: "'dd \<Rightarrow> 'iv option"
  pl_try_to_bitvec :: "'iv \<Rightarrow> 'bv option"
  pl_try_to_offset :: "'iv \<Rightarrow> int option"
  pl_aid_string :: "'aid \<Rightarrow> string"
  pl_is_whitespace :: "char \<Rightarrow> bool"

record 'st points_to_context =
  pt_pointer_state :: 'st
  pt_stack_pointer :: ir_variable

definition pointer_state_apply_def ::
    "('bv, 'st, 'dd, 'iv, 'aid) pointer_lib \<Rightarrow> 'st \<Rightarrow> ('tid, 'bv ir_def) ir_term \<Rightarrow> 'st" where
  "pointer_state_apply_def L state df =
     (case t_term df of
        DefAssign var expr \<Rightarrow> pl_assign L state var expr
      | DefLoad var address \<Rightarrow> pl_load L state var address
      | DefStore address expr \<Rightarrow> pl_store L state address expr)"

definition pt_apply_def ::
    "('bv, 'st, 'dd, 'iv, 'aid) pointer_lib \<Rightarrow> 'st points_to_context \<Rightarrow>
     ('tid, 'bv ir_def) ir_term \<Rightarrow> 'st points_to_context" where
  "pt_apply_def L self df =
     (let new_ptr_state = pointer_state_apply_def L (pt_pointer_state self) df
      in \<lparr>pt_pointer_state = new_ptr_state, pt_stack_pointer = pt_stack_pointer self\<rparr>)"

definition pt_apply_return_node ::
    "'st points_to_context \<Rightarrow> ('tid, ('tid, 'bv) ir_jmp) ir_term \<Rightarrow>
     ('tid, ('tid, 'bv) ir_jmp) ir_term \<Rightarrow> 'st points_to_context" where
  "pt_apply_return_node self call_term return_term =
     \<lparr>pt_pointer_state = pt_pointer_state self, pt_stack_pointer = pt_stack_pointer self\<rparr>"

definition type_variable_from_abstract_id ::
    "('bv, 'st, 'dd, 'iv, 'aid) pointer_lib \<Rightarrow> 'aid \<Rightarrow> 'tid type_variable" where
  "type_variable_from_abstract_id L aid =
     tv_new (filter (\<lambda>c. \<not> pl_is_whitespace L c) (pl_aid_string L aid))"

definition memory_access_into_tvar ::
    "('bv, 'st, 'dd, 'iv, 'aid) pointer_lib \<Rightarrow> 'aid \<Rightarrow> 'iv \<Rightarrow> nat \<Rightarrow> 'tid tv_access" where
  "memory_access_into_tvar L object_id off sz =
     \<lparr>ac_ty_var = type_variable_from_abstract_id L object_id, ac_sz = sz,
      ac_offset = pl_try_to_offset L off\<rparr>"

definition dom_val_to_tvars ::
    "('bv, 'st, 'dd, 'iv, 'aid) pointer_lib \<Rightarrow> 'dd \<Rightarrow> nat \<Rightarrow> 'tid tv_access set" where
  "dom_val_to_tvars L v sz =
     (\<lambda>(a_id, off). memory_access_into_tvar L a_id off sz) ` pl_relative_values L v"

definition pt_points_to ::
    "('bv, 'st, 'dd, 'iv, 'aid) pointer_lib \<Rightarrow> 'st points_to_context \<Rightarrow> 'bv expression \<Rightarrow> nat \<Rightarrow>
     'tid tv_access set" where
  "pt_points_to L self address sz =
     (let v = pl_eval L (pt_pointer_state self) address in dom_val_to_tvars L v sz)"

definition pt_get_pointer_variable ::
    "('bv, 'st, 'dd, 'iv, 'aid) pointer_lib \<Rightarrow> ('c \<Rightarrow> 'bv \<Rightarrow> 'tid dtv option) \<Rightarrow>
     'st points_to_context \<Rightarrow> 'bv expression \<Rightarrow> 'c \<Rightarrow> 'tid dtv option" where
  "pt_get_pointer_variable L maybe_resolve self address resolver =
     (case pl_absolute_value L (pl_eval L (pt_pointer_state self) address) of
        Some absolute_ptr \<Rightarrow>
          (case pl_try_to_bitvec L absolute_ptr of
             Some bv \<Rightarrow> maybe_resolve resolver bv
           | None \<Rightarrow> None)
      | None \<Rightarrow> None)"

text \<open>The points-to contexts of the nodes, from the values the pointer inference computed.\<close>

definition run_points_to ::
    "nat list \<Rightarrow> (nat \<Rightarrow> 'st node_value option) \<Rightarrow> ir_variable \<Rightarrow> nat \<Rightarrow> 'st points_to_context option" where
  "run_points_to node_indices get_node_value stack_pointer =
     (\<lambda>idx. if idx \<in> set node_indices
       then map_option (\<lambda>ps. \<lparr>pt_pointer_state = ps, pt_stack_pointer = stack_pointer\<rparr>)
              (Option.bind (get_node_value idx) node_value_flow)
       else None)"

section \<open>Contexts of all nodes\<close>

text \<open>The contexts are taken out of their maps: a node seen twice gets none the second time.\<close>

definition make_node_contexts ::
    "(nat \<Rightarrow> 'r option) \<Rightarrow> (nat \<Rightarrow> 'p option) \<Rightarrow> (nat \<Rightarrow> 's option) \<Rightarrow> (nat \<Rightarrow> 'c option) \<Rightarrow>
     nat list \<Rightarrow> 'tid type_variable \<Rightarrow> nat \<Rightarrow> ('tid, 'r, 'p, 's, 'c) node_context option" where
  "make_node_contexts rs ps ss cs nodes weakest =
     (let (_, _, _, _, made) = foldl (\<lambda>(rs, ps, ss, cs, made) idx.
          let r = rs idx; p = ps idx; s = ss idx; c = cs idx
          in case (r, p, s, c) of
               (Some r, Some p, Some s, Some c) \<Rightarrow>
                 (rs(idx := None), ps(idx := None), ss(idx := None), cs(idx := None),
                  made(idx \<mapsto> node_context_new r p s c weakest))
             | _ \<Rightarrow> (rs(idx := None), ps(idx := None), ss(idx := None), cs(idx := None), made))
        (rs, ps, ss, cs, Map.empty) nodes
      in made)"

definition create_default_context ::
    "(nat \<Rightarrow> ('tid, 'bv) register_context option) \<Rightarrow> (nat \<Rightarrow> 'st points_to_context option) \<Rightarrow>
     ('tid, 'bv) project \<Rightarrow> nat list \<Rightarrow> 'tid type_variable \<Rightarrow>
     nat \<Rightarrow> ('tid, ('tid, 'bv) register_context, 'st points_to_context, procedure_context,
             'tid ghidra_constant_resolver) node_context option" where
  "create_default_context reg_context points_to_context proj node_indices weakest =
     (let proc_handler = \<lparr>pc_stack_pointer = pr_stack_pointer proj\<rparr>;
          proc_context = (\<lambda>idx. if idx \<in> set node_indices then Some proc_handler else None);
          const_context = ghidra_resolver_from (pr_program proj)
      in make_node_contexts reg_context points_to_context proc_context
           (\<lambda>idx. if idx \<in> set node_indices then Some const_context else None)
           node_indices weakest)"

text \<open>The operations of the default contexts, as the generation uses them.\<close>

record 'bv ir_lib =
  il_is_one :: "'bv \<Rightarrow> bool"
  il_to_i128 :: "'bv \<Rightarrow> int option"
  il_to_u64 :: "'bv \<Rightarrow> 64 word option"
  il_bytesize :: "'bv expression \<Rightarrow> nat"
  il_bit_length :: "nat \<Rightarrow> nat"

definition default_ops ::
    "('tid \<Rightarrow> string) \<Rightarrow> 'bv ir_lib \<Rightarrow> ('bv, 'st, 'dd, 'iv, 'aid) pointer_lib \<Rightarrow>
     ('tid, 'bv, ('tid, 'bv) register_context, 'st points_to_context, procedure_context,
      'tid ghidra_constant_resolver) gen_ops" where
  "default_ops show_tid I L =
     \<lparr>gt_show_tid = show_tid, gt_is_one = il_is_one I, gt_to_i128 = il_to_i128 I,
      gt_bytesize = il_bytesize I, gt_bit_length = il_bit_length I,
      gt_r_apply_def = rc_apply_def, gt_r_apply_return = rc_apply_return_node,
      gt_access = rc_access show_tid,
      gt_p_apply_def = pt_apply_def L, gt_p_apply_return = pt_apply_return_node,
      gt_points_to = pt_points_to L,
      gt_get_pointer_variable = pt_get_pointer_variable L
        (maybe_resolve_constant_to_variable show_tid (il_to_u64 I)),
      gt_s_apply_def = pc_apply_def, gt_s_apply_return = pc_apply_return_node,
      gt_arg = get_type_variables_for_arg (rc_access show_tid) (pt_points_to L),
      gt_c_apply_def = gr_apply_def, gt_c_apply_return = gr_apply_return_node,
      gt_maybe_resolve = maybe_resolve_constant_to_variable show_tid (il_to_u64 I)\<rparr>"

end
