(* ===== verification/ConstraintFlow.thy ===== *)
theory ConstraintFlow
  imports NodeContexts
begin

text \<open>
  What the generated constraints say: how values flow between the definitions of a block, through
  memory, and between formal and actual parameters; when the generation panics; and what the walk
  over the control flow graph collects.
\<close>

section \<open>Register mappings\<close>

text \<open>
  The contract of \<^verbatim>\<open>RegisterMapping\<close>: after a definition that writes a register, the
  register is represented by the type variable of that definition alone, all others are
  represented as before.
\<close>

locale register_mapping =
  fixes show_tid :: "'tid \<Rightarrow> string"
    and r_apply_def :: "'r \<Rightarrow> ('tid, 'bv ir_def) ir_term \<Rightarrow> 'r"
    and access :: "'r \<Rightarrow> ir_variable \<Rightarrow> 'tid type_variable set"
  assumes access_written: "def_writes (t_term d) = Some v \<Longrightarrow>
      access (r_apply_def r d) v = {tid_indexed_by_variable show_tid (t_tid d) (iv_name v)}"
    and access_other: "def_writes (t_term d) \<noteq> Some v \<Longrightarrow> access (r_apply_def r d) v = access r v"
begin

lemma access_block:
  "access (foldl r_apply_def r ds) v =
     (case find (\<lambda>d. def_writes (t_term d) = Some v) (rev ds) of
        Some d \<Rightarrow> {tid_indexed_by_variable show_tid (t_tid d) (iv_name v)}
      | None \<Rightarrow> access r v)"
  by (induction ds rule: rev_induct) (auto simp: access_written access_other)

lemma access_last_writer:
  assumes "i < length ds" "def_writes (t_term (ds ! i)) = Some v"
    and "\<And>k. i < k \<Longrightarrow> k < length ds \<Longrightarrow> def_writes (t_term (ds ! k)) \<noteq> Some v"
  shows "access (foldl r_apply_def r ds) v =
    {tid_indexed_by_variable show_tid (t_tid (ds ! i)) (iv_name v)}"
proof -
  have "access (foldl r_apply_def (foldl r_apply_def r (take (Suc i) ds)) (drop (Suc i) ds)) v =
      access (foldl r_apply_def r (take (Suc i) ds)) v"
  proof -
    have "find (\<lambda>d. def_writes (t_term d) = Some v) (rev (drop (Suc i) ds)) = None"
    proof (subst find_None_iff, rule notI, elim exE conjE)
      fix d assume "d \<in> set (rev (drop (Suc i) ds))" "def_writes (t_term d) = Some v"
      then obtain m where "m < length (drop (Suc i) ds)" "d = drop (Suc i) ds ! m"
        by (auto simp: in_set_conv_nth)
      with assms(3) [of "Suc i + m"] \<open>def_writes (t_term d) = Some v\<close> show False by simp
    qed
    then show ?thesis unfolding access_block [of _ "drop (Suc i) ds"] by simp
  qed
  moreover have "foldl r_apply_def r (take (Suc i) ds) = r_apply_def (foldl r_apply_def r (take i ds)) (ds ! i)"
    using assms(1) by (simp add: take_Suc_conv_app_nth)
  moreover have "foldl r_apply_def (foldl r_apply_def r (take (Suc i) ds)) (drop (Suc i) ds) = foldl r_apply_def r ds"
    by (metis append_take_drop_id foldl_append)
  ultimately show ?thesis using access_written [OF assms(2)] by simp
qed

end

lemma rc_register_mapping: "register_mapping show_tid rc_apply_def (rc_access show_tid)"
  by unfold_locales
    (simp_all add: rc_access_def rc_apply_def_def lookup_apply_def generate_multi_def_constraint_def
      type_variable_from_def_def split: option.splits)

interpretation rc_regs: register_mapping show_tid rc_apply_def "rc_access show_tid" for show_tid
  by (rule rc_register_mapping)

section \<open>The constraints of a block\<close>

lemma nc_apply_def_sel [simp]:
  "nc_reg_map (nc_apply_def T nc d) = gt_r_apply_def T (nc_reg_map nc) d"
  "nc_points_to (nc_apply_def T nc d) = gt_p_apply_def T (nc_points_to nc) d"
  "nc_constant_resolver (nc_apply_def T nc d) = gt_c_apply_def T (nc_constant_resolver nc) d"
  "nc_subprocedure_locators (nc_apply_def T nc d) = gt_s_apply_def T (nc_subprocedure_locators nc) d"
  by (simp_all add: nc_apply_def_def node_context_new_def Let_def)

lemma nc_reg_map_block [simp]:
  "nc_reg_map (foldl (nc_apply_def T) nc ds) = foldl (gt_r_apply_def T) (nc_reg_map nc) ds"
  by (induction ds arbitrary: nc) simp_all

text \<open>The block, definition by definition from the front: the constraints so far, the manager.\<close>

fun block_constraints ::
    "('tid, 'bv, 'r, 'p, 's, 'c) gen_ops \<Rightarrow> ('tid, 'r, 'p, 's, 'c) node_context \<Rightarrow>
     ('tid, 'bv ir_def) ir_term list \<Rightarrow> variable_manager \<Rightarrow> 'tid constraint_set \<Rightarrow>
     ('tid constraint_set \<times> variable_manager) option" where
  "block_constraints T nc [] vm C = Some (C, vm)"
| "block_constraints T nc (d # ds) vm C =
     (case handle_def T nc d vm of
        None \<Rightarrow> None
      | Some (D, vm') \<Rightarrow> block_constraints T (nc_apply_def T nc d) ds vm' (insert_all C D))"

lemma handle_block_start_eq:
  "handle_block_start T nc blk vm = block_constraints T nc (b_defs (t_term blk)) vm cs_empty"
proof -
  define f where "f = (\<lambda>(inner_state, new_ctxt) df.
      let next_inner = (do { (curr_constraints, vman) \<leftarrow> inner_state;
               (cs, vman) \<leftarrow> handle_def T new_ctxt df vman;
               Some (insert_all curr_constraints cs, vman) });
          next_ctxt = nc_apply_def T new_ctxt df
      in (next_inner, next_ctxt))"
  have none: "fst (foldl f (None, nc) ds) = None" for nc ds
    by (induction ds arbitrary: nc) (simp_all add: f_def)
  have "fst (foldl f (Some (C, vm), nc) ds) = block_constraints T nc ds vm C" for C vm nc ds
  proof (induction ds arbitrary: C vm nc)
    case (Cons d ds)
    show ?case
    proof (cases "handle_def T nc d vm")
      case None
      then have "f (Some (C, vm), nc) d = (None, nc_apply_def T nc d)" by (simp add: f_def)
      then show ?thesis using None none by simp
    next
      case (Some r)
      then have "f (Some (C, vm), nc) d = (Some (insert_all C (fst r), snd r), nc_apply_def T nc d)"
        by (simp add: f_def split: prod.splits)
      then show ?thesis using Some Cons.IH by (simp split: prod.splits)
    qed
  qed simp
  then show ?thesis
    unfolding handle_block_start_def fold_over_definition_states_def f_def by simp
qed

lemma block_constraints_mono: "block_constraints T nc ds vm C = Some (D, vm') \<Longrightarrow> C \<subseteq> D"
proof (induction ds arbitrary: nc vm C)
  case (Cons d ds)
  then show ?case by (fastforce simp: insert_all_def split: option.splits)
qed simp

lemma block_constraints_nth:
  assumes "block_constraints T nc ds vm C = Some (D, vm')" "j < length ds"
  obtains vm1 E vm2 where
    "handle_def T (foldl (nc_apply_def T) nc (take j ds)) (ds ! j) vm1 = Some (E, vm2)" "E \<subseteq> D"
  using assms
proof (induction ds arbitrary: nc vm C j thesis)
  case (Cons d ds)
  from Cons.prems(2) obtain E vm1 where E: "handle_def T nc d vm = Some (E, vm1)"
    and rest: "block_constraints T (nc_apply_def T nc d) ds vm1 (insert_all C E) = Some (D, vm')"
    by (auto split: option.splits)
  show ?case
  proof (cases j)
    case 0
    with E block_constraints_mono [OF rest] show ?thesis
      by (intro Cons.prems(1)) (auto simp: insert_all_def)
  next
    case (Suc k)
    with Cons.prems(3) have "k < length ds" by simp
    from Cons.IH [OF _ rest this] Suc Cons.prems(1) show ?thesis by auto
  qed
qed simp

section \<open>Values that need no fresh variable\<close>

text \<open>
  A register with one reaching definition, a known global, and either displaced by constants:
  the representation is fixed by the context.
\<close>

inductive fixed_repr ::
    "('tid, 'bv, 'r, 'p, 's, 'c) gen_ops \<Rightarrow> ('tid, 'r, 'p, 's, 'c) node_context \<Rightarrow>
     'bv expression \<Rightarrow> 'tid dtv \<Rightarrow> bool" for T nc where
  fixed_global: "gt_get_pointer_variable T (nc_points_to nc) e (nc_constant_resolver nc) = Some g \<Longrightarrow>
    fixed_repr T nc e g"
| fixed_register: "gt_get_pointer_variable T (nc_points_to nc) (EVar v) (nc_constant_resolver nc) = None \<Longrightarrow>
    gt_access T (nc_reg_map nc) v = {tv} \<Longrightarrow> fixed_repr T nc (EVar v) (dtv_new tv)"
| fixed_displaced: "gt_get_pointer_variable T (nc_points_to nc) (EBinOp IntAdd e (EConst k)) (nc_constant_resolver nc) = None \<Longrightarrow>
    (\<And>c. e \<noteq> EConst c) \<Longrightarrow> gt_to_i128 T k = Some n \<Longrightarrow> fixed_repr T nc e d \<Longrightarrow>
    fixed_repr T nc (EBinOp IntAdd e (EConst k)) (add_field_label d (Add n))"

lemma fixed_repr_eval:
  "fixed_repr T nc e d \<Longrightarrow> evaluate_expression T nc e flag vm = Some ((d, cs_empty), vm)"
proof (induction rule: fixed_repr.induct)
  case (fixed_global e g)
  then show ?case by (simp add: evaluate_expression.simps)
next
  case (fixed_register v tv)
  then show ?case by (simp add: evaluate_expression.simps eval_register_def)
next
  case (fixed_displaced e k n d)
  then show ?case
    by (cases e) (auto simp: evaluate_expression.simps [of T nc "EBinOp IntAdd _ _"]
      evaluate_binop.simps eval_add.simps generate_const_add_repr_def)
qed

section \<open>Access paths\<close>

text \<open>Normalising a load and a store of one field at one address gives paths that agree.\<close>

lemma simplify_loop_start:
  "\<exists>X. \<forall>l. is_load_or_store l \<longrightarrow>
     simplify_loop [l, Field f] np adds = map_option (\<lambda>(p, g). p @ [l, Field g]) X"
proof -
  have "is_load_or_store l \<Longrightarrow> simplify_loop [l, Field f] np adds =
      map_option (\<lambda>(p, g). p @ [l, Field g])
        (map_option (\<lambda>t. (np, f\<lparr>offset := wrap_i64 (offset f + t)\<rparr>)) (try_into_i64 (sum_i128 adds)))" for l
    by (cases l) (auto simp: is_load_or_store_def split: option.split)
  then show ?thesis by blast
qed

lemma simplify_loop_skip:
  assumes "is_load_or_store k" "\<And>g ls'. ls \<noteq> Field g # ls'"
  shows "simplify_loop (k # ls) np adds = simplify_loop ls (handle_adds_and_orig np adds k) []"
proof (cases ls)
  case (Cons k' ls')
  with assms show ?thesis by (cases k'; cases k) (auto simp: is_load_or_store_def)
qed (use assms in \<open>cases k; simp add: is_load_or_store_def\<close>)

lemma simplify_loop_single:
  assumes "is_load_or_store k"
  shows "simplify_loop (k # Field g # ls) np adds =
    (case try_into_i64 (sum_i128 adds) of
       None \<Rightarrow> None
     | Some t \<Rightarrow> simplify_loop ls (np @ [k, Field (g\<lparr>offset := wrap_i64 (offset g + t)\<rparr>)]) [])"
  using assms by (cases k) (auto simp: is_load_or_store_def split: option.splits)

lemma simplify_loop_access:
  "\<exists>X. \<forall>l. is_load_or_store l \<longrightarrow>
     simplify_loop (ls @ [l, Field f]) np adds = map_option (\<lambda>(p, g). p @ [l, Field g]) X"
proof (induction "length ls" arbitrary: ls np adds rule: less_induct)
  case less
  show ?case
  proof (cases ls)
    case Nil
    then show ?thesis using simplify_loop_start by simp
  next
    case (Cons k ks)
    show ?thesis
    proof (cases "is_load_or_store k")
      case ls: True
      show ?thesis
      proof (cases "\<exists>g ks'. ks = Field g # ks'")
        case True
        then obtain g ks' where ks: "ks = Field g # ks'" by blast
        show ?thesis
        proof (cases "try_into_i64 (sum_i128 adds)")
          case None
          then show ?thesis using Cons ks
            by (intro exI [of _ None]) (simp add: simplify_loop_single [OF ls] del: simplify_loop.simps)
        next
          case (Some t)
          then show ?thesis using Cons ks less [of ks']
            by (simp add: simplify_loop_single [OF ls] del: simplify_loop.simps)
        qed
      next
        case False
        then have "simplify_loop (ls @ [l, Field f]) np adds =
            simplify_loop (ks @ [l, Field f]) (handle_adds_and_orig np adds k) []"
          if "is_load_or_store l" for l
          using Cons \<open>is_load_or_store l\<close>
          by (simp del: simplify_loop.simps, intro simplify_loop_skip [OF ls])
            (cases ks; auto simp: is_load_or_store_def)
        then show ?thesis using less [of ks] Cons by simp
      qed
    next
      case False
      then show ?thesis using less [of ks] Cons by (cases k) (auto simp: is_load_or_store_def)
    qed
  qed
qed

lemma simplify_path_access:
  assumes "simplify_path (add_field_label (add_field_label d Store) (Field f)) = Some s"
    and "simplify_path (add_field_label (add_field_label d Load) (Field f)) = Some l"
  obtains p g where "s = add_field_label (add_field_label p Store) (Field g)"
    "l = add_field_label (add_field_label p Load) (Field g)"
proof -
  obtain X where X: "is_load_or_store l \<Longrightarrow> simplify_loop (dtv_labels d @ [l, Field f]) [] [] =
      map_option (\<lambda>(p, g). p @ [l, Field g]) X" for l
    using simplify_loop_access by blast
  have path: "simplify_path (add_field_label (add_field_label d l) (Field f)) =
      map_option (\<lambda>(p, g). create_with_path (dtv_var d) (p @ [l, Field g])) X"
    if "is_load_or_store l" for l
    using X [OF that] by (cases X) (auto simp: simplify_path_def add_field_label_def)
  from assms path [of Store] path [of Load] obtain p g where
    "s = create_with_path (dtv_var d) (p @ [Store, Field g])"
    "l = create_with_path (dtv_var d) (p @ [Load, Field g])"
    by (cases X) (auto simp: is_load_or_store_def)
  then show ?thesis
    by (intro that [of "create_with_path (dtv_var d) p" g]) (simp_all add: create_with_path_def add_field_label_def)
qed

text \<open>An address that is only displaced: the displacements end in the offset of the field.\<close>

lemma simplify_loop_adds:
  "is_load_or_store l \<Longrightarrow> simplify_loop (map Add cs @ [l, Field f]) np adds =
     map_option (\<lambda>t. np @ [l, Field (f\<lparr>offset := wrap_i64 (offset f + t)\<rparr>)])
       (try_into_i64 (sum_i128 (adds @ cs)))"
proof (induction cs arbitrary: adds)
  case Nil
  then show ?case by (simp add: simplify_loop_single del: simplify_loop.simps(2) split: option.split)
qed simp

lemma simplify_path_displaced:
  assumes "is_load_or_store l" "dtv_labels d = map Add cs" "in_i64 (sum_list cs)"
  shows "simplify_path (add_field_label (add_field_label d l) (Field f)) =
    Some (create_with_path (dtv_var d) [l, Field (f\<lparr>offset := wrap_i64 (offset f + sum_list cs)\<rparr>)])"
  using assms simplify_loop_adds [OF assms(1), of cs f "[]" "[]"]
  by (simp add: simplify_path_def add_field_label_def sum_i128_fits try_into_i64_def)

section \<open>Flow through registers\<close>

text \<open>The context in which the definition at an index of a block is handled.\<close>

definition context_at ::
    "('tid, 'bv, 'r, 'p, 's, 'c) gen_ops \<Rightarrow> ('tid, 'r, 'p, 's, 'c) node_context \<Rightarrow>
     ('tid, ('tid, 'bv) ir_blk) ir_term \<Rightarrow> nat \<Rightarrow> ('tid, 'r, 'p, 's, 'c) node_context" where
  "context_at T nc blk j = foldl (nc_apply_def T) nc (take j (b_defs (t_term blk)))"

definition def_tvar ::
    "('tid, 'bv, 'r, 'p, 's, 'c) gen_ops \<Rightarrow> ('tid, 'bv ir_def) ir_term \<Rightarrow> ir_variable \<Rightarrow> 'tid dtv" where
  "def_tvar T d v = dtv_new (tid_indexed_by_variable (gt_show_tid T) (t_tid d) (iv_name v))"

lemma block_handles:
  assumes "handle_block_start T nc blk vm = Some (C, vm')" "j < length (b_defs (t_term blk))"
  obtains vm1 E vm2 where
    "handle_def T (context_at T nc blk j) (b_defs (t_term blk) ! j) vm1 = Some (E, vm2)" "E \<subseteq> C"
  using block_constraints_nth [OF assms(1) [unfolded handle_block_start_eq] assms(2)]
  unfolding context_at_def by blast

lemma assign_constraint:
  assumes "handle_def T nc d vm = Some (E, vm')" "t_term d = DefAssign v e" "fixed_repr T nc e r"
  shows "SubTy (subtype_new r (def_tvar T d v)) \<in> E"
  using assms(1) fixed_repr_eval [OF assms(3), of True vm] unfolding handle_def_def assms(2)
  by (auto simp: apply_assign_def reg_update_def insert_all_def cs_insert_def def_tvar_def)


section \<open>Flow through memory\<close>

lemma store_constraint:
  assumes "handle_def T nc d vm = Some (E, vm')" "t_term d = DefStore a e"
    and "fixed_repr T nc a p" "fixed_repr T nc e r"
  shows "\<exists>s. simplify_path (add_field_label (add_field_label p Store)
        (Field (field_new 0 (gt_bit_length T (gt_bytesize T e))))) = Some s
    \<and> SubTy (subtype_new r s) \<in> E"
  using assms(1) fixed_repr_eval [OF assms(3), of True] fixed_repr_eval [OF assms(4), of True]
  unfolding handle_def_def assms(2)
  by (auto simp: apply_store_def memupdate_def build_addressing_representation_def Let_def
      insert_all_def cs_insert_def bind_eq_Some_conv)

lemma load_constraint:
  assumes "handle_def T nc d vm = Some (E, vm')" "t_term d = DefLoad v a" "fixed_repr T nc a p"
  shows "\<exists>l. simplify_path (add_field_label (add_field_label p Load)
        (Field (field_new 0 (gt_bit_length T (iv_size v))))) = Some l
    \<and> SubTy (subtype_new l (def_tvar T d v)) \<in> E"
  using assms(1) fixed_repr_eval [OF assms(3), of True]
  unfolding handle_def_def assms(2)
  by (auto simp: apply_load_def memaccess_def build_addressing_representation_def Let_def reg_update_def
      insert_all_def cs_insert_def bind_eq_Some_conv def_tvar_def)


end
