(* ===== verification/ConstraintTotal.thy ===== *)
theory ConstraintTotal
  imports ConstraintFlow
begin

text \<open>
  When the generation of constraints returns: the panics of the code are the conversion of the
  constant of an addition, the overflow of displacements folded into an offset, empty procedures
  and blocks, and edges of the control flow graph where they are not expected.
\<close>

section \<open>Expressions\<close>

fun expr_consts :: "'bv expression \<Rightarrow> 'bv list" where
  "expr_consts (EConst k) = [k]"
| "expr_consts (EBinOp _ l r) = expr_consts l @ expr_consts r"
| "expr_consts (EUnOp _ a) = expr_consts a"
| "expr_consts (ECast _ _ a) = expr_consts a"
| "expr_consts _ = []"

definition convertible :: "('tid, 'bv, 'r, 'p, 's, 'c) gen_ops \<Rightarrow> 'bv expression \<Rightarrow> bool" where
  "convertible T e \<longleftrightarrow> (\<forall>k \<in> set (expr_consts e). gt_to_i128 T k \<noteq> None)"

definition const_mass :: "('tid, 'bv, 'r, 'p, 's, 'c) gen_ops \<Rightarrow> 'bv expression \<Rightarrow> int" where
  "const_mass T e = (\<Sum>k \<leftarrow> expr_consts e. \<bar>the (gt_to_i128 T k)\<bar>)"

lemma convertible_simps [simp]:
  "convertible T (EConst k) \<longleftrightarrow> gt_to_i128 T k \<noteq> None"
  "convertible T (EBinOp b l r) \<longleftrightarrow> convertible T l \<and> convertible T r"
  "convertible T (EUnOp u l) \<longleftrightarrow> convertible T l"
  by (auto simp: convertible_def)

lemma const_mass_simps [simp]:
  "const_mass T (EConst k) = \<bar>the (gt_to_i128 T k)\<bar>"
  "const_mass T (EBinOp b l r) = const_mass T l + const_mass T r"
  "const_mass T (EUnOp u l) = const_mass T l"
  by (simp_all add: const_mass_def)

lemma const_mass_nonneg [simp]: "0 \<le> const_mass T e"
  unfolding const_mass_def by (rule sum_list_nonneg) auto

text \<open>Known globals are variables, without labels: so are those of the resolver of the program.\<close>

definition bare_globals :: "('tid, 'bv, 'r, 'p, 's, 'c) gen_ops \<Rightarrow> bool" where
  "bare_globals T \<longleftrightarrow>
     (\<forall>p e c g. gt_get_pointer_variable T p e c = Some g \<longrightarrow> dtv_labels g = [])
     \<and> (\<forall>c k g. gt_maybe_resolve T c k = Some g \<longrightarrow> dtv_labels g = [])"

lemma default_bare: "bare_globals (default_ops show_tid I L)"
  by (auto simp: bare_globals_def default_ops_def pt_get_pointer_variable_def dtv_new_def
      maybe_resolve_constant_to_variable_def split: option.splits)

text \<open>A displaced variable: only additions, whose absolute values sum to at most the bound.\<close>

definition displaced :: "int \<Rightarrow> 'tid dtv \<Rightarrow> bool" where
  "displaced m d \<longleftrightarrow> (\<exists>cs. dtv_labels d = map Add cs \<and> (\<Sum>c \<leftarrow> cs. \<bar>c\<bar>) \<le> m)"

lemma displaced_bare: "dtv_labels d = [] \<Longrightarrow> 0 \<le> m \<Longrightarrow> displaced m d"
  unfolding displaced_def by (rule exI [of _ "[]"]) simp

lemma displaced_new [simp]: "0 \<le> m \<Longrightarrow> displaced m (dtv_new tv)"
  by (rule displaced_bare) (simp_all add: dtv_new_def)

lemma displaced_mono: "displaced m d \<Longrightarrow> m \<le> n \<Longrightarrow> displaced n d"
  unfolding displaced_def by force

lemma displaced_add: "displaced m d \<Longrightarrow> displaced (m + \<bar>c\<bar>) (add_field_label d (Add c))"
  unfolding displaced_def
proof (elim exE conjE)
  fix cs
  assume "dtv_labels d = map Add cs" "(\<Sum>c \<leftarrow> cs. \<bar>c\<bar>) \<le> m"
  then show "\<exists>cs. dtv_labels (add_field_label d (Add c)) = map Add cs \<and> (\<Sum>c \<leftarrow> cs. \<bar>c\<bar>) \<le> m + \<bar>c\<bar>"
    by (intro exI [of _ "cs @ [c]"]) (simp add: add_field_label_def)
qed

lemma displaced_sum:
  assumes "displaced m d"
  obtains cs where "dtv_labels d = map Add cs" "\<bar>sum_list cs\<bar> \<le> m"
proof -
  from assms obtain cs where "dtv_labels d = map Add cs" "(\<Sum>c \<leftarrow> cs. \<bar>c\<bar>) \<le> m"
    by (auto simp: displaced_def)
  moreover have "\<bar>sum_list cs\<bar> \<le> (\<Sum>c \<leftarrow> cs. \<bar>c\<bar>)"
    by (induction cs) simp_all
  ultimately show ?thesis using that by simp
qed

definition evaluates :: "'tid eval_result \<Rightarrow> int \<Rightarrow> bool" where
  "evaluates res m \<longleftrightarrow> (\<exists>d cs vm. res = Some ((d, cs), vm) \<and> displaced m d)"

lemma evaluatesI: "res = Some ((d, cs), vm) \<Longrightarrow> displaced m d \<Longrightarrow> evaluates res m"
  unfolding evaluates_def by blast

lemma evaluates_mono: "evaluates res m \<Longrightarrow> m \<le> n \<Longrightarrow> evaluates res n"
  unfolding evaluates_def using displaced_mono by blast

lemma evaluates_unhandled [simp]: "0 \<le> m \<Longrightarrow> evaluates (Some (unhandled_expr vm)) m"
  by (auto simp: unhandled_expr_def split: prod.split intro!: evaluatesI)

lemma evaluates_weak [simp]: "0 \<le> m \<Longrightarrow> evaluates (Some (assume_weak_integral nc vm)) m"
  by (auto simp: assume_weak_integral_def Let_def split: prod.split intro!: evaluatesI)

lemma evaluates_register [simp]: "0 \<le> m \<Longrightarrow> evaluates (Some (eval_register vs flag vm)) m"
  by (simp add: eval_register_def evaluates_def Let_def split: prod.split)

lemma evaluates_const_add:
  assumes "evaluates res m" "gt_to_i128 T k = Some n"
  shows "evaluates (do { ((d, cs), vman) \<leftarrow> res;
      v \<leftarrow> generate_const_add_repr T k \<lparr>bv_repr_var = d, bv_additional = cs\<rparr>;
      Some ((bv_repr_var v, bv_additional v), vman) }) (m + \<bar>n\<bar>)"
proof -
  from assms(1) obtain d cs vm where "res = Some ((d, cs), vm)" "displaced m d"
    by (auto simp: evaluates_def)
  then show ?thesis
    using displaced_add [of m d n] assms(2)
    by (intro evaluatesI) (simp_all add: generate_const_add_repr_def)
qed

lemma evaluation_returns:
  fixes nc :: "('tid, 'r, 'p, 's, 'c) node_context"
  shows "bare_globals T \<Longrightarrow> convertible T lhs \<Longrightarrow> convertible T rhs \<Longrightarrow>
      evaluates (eval_add T nc lhs rhs flag vm) (const_mass T lhs + const_mass T rhs)"
    and "bare_globals T \<Longrightarrow> convertible T lhs \<Longrightarrow> convertible T rhs \<Longrightarrow>
      evaluates (evaluate_binop T nc bop lhs rhs flag vm) (const_mass T lhs + const_mass T rhs)"
    and "bare_globals T \<Longrightarrow> convertible T e \<Longrightarrow>
      evaluates (evaluate_expression T nc e flag vm) (const_mass T e)"
proof (induction T nc lhs rhs flag vm and T nc bop lhs rhs flag vm and T nc e flag vm
    rule: eval_add_evaluate_binop_evaluate_expression.induct)
  case (1 T nc lhs rhs flag vm)
  show ?case
  proof (cases "const_operand lhs")
    case (Some k)
    then obtain n where n: "lhs = EConst k" "gt_to_i128 T k = Some n"
      using "1.prems" by (auto simp: const_operand_iff)
    have "evaluates (evaluate_expression T nc rhs flag vm) (const_mass T rhs)"
      using "1.IH" Some "1.prems" by simp
    from evaluates_const_add [OF this n(2)] n show ?thesis
      by (simp add: eval_add.simps add.commute)
  next
    case l: None
    have e1: "evaluates (evaluate_expression T nc lhs flag vm) (const_mass T lhs)"
      using "1.IH" l "1.prems" by (cases "const_operand rhs") auto
    show ?thesis
    proof (cases "const_operand rhs")
      case (Some k)
      then obtain n where "rhs = EConst k" "gt_to_i128 T k = Some n"
        using "1.prems" by (auto simp: const_operand_iff)
      with evaluates_const_add [OF e1] l show ?thesis by (simp add: eval_add.simps)
    next
      case r: None
      from e1 obtain d cs vm1 where e1: "evaluate_expression T nc lhs flag vm = Some ((d, cs), vm1)"
        by (auto simp: evaluates_def)
      then have "evaluates (evaluate_expression T nc rhs flag vm1) (const_mass T rhs)"
        using "1.IH" l r "1.prems" by simp
      then obtain d2 cs2 vm2 where "evaluate_expression T nc rhs flag vm1 = Some ((d2, cs2), vm2)"
        by (auto simp: evaluates_def)
      with l r e1 show ?thesis
        by (simp add: eval_add.simps bvd_merge_def Let_def evaluates_def split: prod.split)
    qed
  qed
next
  case (2 T nc bop lhs rhs flag vm)
  show ?case
  proof (cases bop)
    case IntAdd
    with 2 show ?thesis by (simp add: evaluate_binop.simps)
  next
    case IntSub
    with "2.IH" "2.prems" show ?thesis by (simp add: evaluate_binop.simps)
  next
    case IntMult
    with "2.IH" "2.prems" show ?thesis
      by (auto simp: evaluate_binop.simps intro: evaluates_mono)
  next
    case BinOpOther
    then show ?thesis by (auto simp: evaluate_binop.simps Let_def split: prod.split intro!: evaluatesI)
  qed
next
  case (3 T nc e flag vm)
  show ?case
  proof (cases "gt_get_pointer_variable T (nc_points_to nc) e (nc_constant_resolver nc)")
    case (Some g)
    with "3.prems" show ?thesis
      by (simp add: evaluate_expression.simps, intro evaluatesI [OF refl] displaced_bare)
        (auto simp: bare_globals_def)
  next
    case None
    show ?thesis
    proof (cases e)
      case (EBinOp bop l r)
      with "3.IH" "3.prems" None show ?thesis by (simp add: evaluate_expression.simps)
    next
      case (EConst k)
      with "3.prems" None show ?thesis
        by (auto simp: evaluate_expression.simps resolve_constant_to_variable_def bare_globals_def
            Let_def split: option.split prod.split intro!: evaluatesI displaced_bare)
    next
      case (ECast cop sz a)
      then show ?thesis using None by (cases cop) (simp_all add: evaluate_expression.simps)
    qed (use None in \<open>simp_all add: evaluate_expression.simps\<close>)
  qed
qed

section \<open>Definitions and blocks\<close>

definition address_ok :: "('tid, 'bv, 'r, 'p, 's, 'c) gen_ops \<Rightarrow> 'bv expression \<Rightarrow> bool" where
  "address_ok T a \<longleftrightarrow> convertible T a \<and> const_mass T a < 2 ^ 63"

fun def_ok :: "('tid, 'bv, 'r, 'p, 's, 'c) gen_ops \<Rightarrow> 'bv ir_def \<Rightarrow> bool" where
  "def_ok T (DefLoad _ a) \<longleftrightarrow> address_ok T a"
| "def_ok T (DefStore a e) \<longleftrightarrow> address_ok T a \<and> convertible T e"
| "def_ok T (DefAssign _ e) \<longleftrightarrow> convertible T e"

lemma addressing_returns:
  assumes "bare_globals T" "address_ok T a" "is_load_or_store l"
  shows "\<exists>bv vm'. build_addressing_representation T nc a sz l sub vm = Some (bv, vm')"
proof -
  have "evaluates (evaluate_expression T nc a True vm) (const_mass T a)"
    using evaluation_returns(3) [OF assms(1)] assms(2) by (simp add: address_ok_def)
  then obtain d cs vm' where e: "evaluate_expression T nc a True vm = Some ((d, cs), vm')"
    and "displaced (const_mass T a) d"
    by (auto simp: evaluates_def)
  then obtain ks where "dtv_labels d = map Add ks" "\<bar>sum_list ks\<bar> \<le> const_mass T a"
    by (elim displaced_sum)
  moreover from this have "in_i64 (sum_list ks)" using assms(2) by (auto simp: address_ok_def in_i64_def abs_le_iff)
  ultimately obtain r where
    "simplify_path (add_field_label (add_field_label d l) (Field (field_new 0 (gt_bit_length T sz)))) = Some r"
    using simplify_path_displaced [OF assms(3)] by blast
  with e show ?thesis by (simp add: build_addressing_representation_def Let_def)
qed

lemma handle_def_returns:
  assumes "bare_globals T" "def_ok T (t_term d)"
  shows "\<exists>C vm'. handle_def T nc d vm = Some (C, vm')"
proof (cases "t_term d")
  case (DefLoad v a)
  with assms addressing_returns [of T a Load nc "iv_size v" False vm] show ?thesis
    by (auto simp: handle_def_def apply_load_def memaccess_def is_load_or_store_def Let_def)
next
  case (DefAssign v e)
  with assms evaluation_returns(3) [of T e nc True vm] show ?thesis
    by (auto simp: handle_def_def apply_assign_def evaluates_def Let_def)
next
  case (DefStore a e)
  with assms obtain bv vm1 where
    "build_addressing_representation T nc a (gt_bytesize T e) Store True vm = Some (bv, vm1)"
    using addressing_returns [of T a Store nc "gt_bytesize T e" True vm] by (auto simp: is_load_or_store_def)
  with DefStore assms evaluation_returns(3) [of T e nc True vm1] show ?thesis
    by (auto simp: handle_def_def apply_store_def memupdate_def evaluates_def Let_def)
qed

lemma handle_block_returns:
  assumes "bare_globals T" "\<forall>d \<in> set (b_defs (t_term blk)). def_ok T (t_term d)"
  shows "\<exists>C vm'. handle_block_start T nc blk vm = Some (C, vm')"
proof -
  have "\<exists>D vm'. block_constraints T nc ds vm C = Some (D, vm')"
    if "\<forall>d \<in> set ds. def_ok T (t_term d)" for nc ds vm C
    using that
  proof (induction ds arbitrary: nc vm C)
    case (Cons d ds)
    then obtain E vm1 where "handle_def T nc d vm = Some (E, vm1)"
      using handle_def_returns [OF assms(1)] by fastforce
    with Cons show ?case by simp
  qed simp
  with assms(2) show ?thesis by (simp add: handle_block_start_eq)
qed

section \<open>Nodes\<close>

text \<open>What the code takes for granted of a node of the control flow graph that it visits.\<close>

definition extern_stub_to :: "('tid \<times> 'bv extern_symbol) list \<Rightarrow> ('tid, 'bv) cfg_edge \<Rightarrow> bool" where
  "extern_stub_to externs w \<longleftrightarrow>
     (case w of
        ExternCallStub jmp \<Rightarrow>
          (case t_term jmp of JmpCall target _ \<Rightarrow> map_of externs target \<noteq> None | _ \<Rightarrow> False)
      | _ \<Rightarrow> False)"

fun node_ok ::
    "('tid, 'bv, 'r, 'p, 's, 'c) gen_ops \<Rightarrow> ('g, ('tid, 'bv) cfg_node, ('tid, 'bv) cfg_edge) petgraph \<Rightarrow>
     ('g, 'tid, 'bv, 'r, 'p, 's, 'c) gen_context \<Rightarrow> nat \<Rightarrow> ('tid, 'bv) cfg_node \<Rightarrow> bool" where
  "node_ok T G self n (BlkStart blk sub) \<longleftrightarrow>
     s_blocks (t_term sub) \<noteq> []
     \<and> (\<forall>d \<in> set (b_defs (t_term blk)). def_ok T (t_term d))
     \<and> (\<forall>(_, _, _, w) \<in> set (edges_directed G (gc_graph self) n Outgoing).
          \<not> extern_stub_to (gc_extern_symbols self) w)"
| "node_ok T G self n (CallReturn _ (return_from, _)) \<longleftrightarrow>
     b_jmps (t_term return_from) \<noteq> []
     \<and> (\<forall>(_, _, _, w) \<in> set (edges_directed G (gc_graph self) n Outgoing).
          \<exists>call. w = ReturnCombine call)"
| "node_ok T G self n (CallSource _ _) \<longleftrightarrow> True"
| "node_ok T G self n (BlkEnd _ _) \<longleftrightarrow> True"

context stable_digraph
begin

lemma edge_nodes:
  assumes "ok g" "(i, a, b, w) \<in> set (edges_directed G g n Outgoing)"
  shows "a = n \<and> (\<exists>u v. pg_node_weight G g a = Some u \<and> pg_node_weight G g b = Some v)"
  using assms edge_ends [of g i a b w] set_edges_directed [of g n Outgoing] by auto

end

text \<open>
  At the start of a block the collection of the results of external calls looks at the edges
  that leave the block: it never finds a result, and panics if there is such an edge.
\<close>

lemma extern_returns_exact:
  fixes T :: "('tid, 'bv, 'r, 'p, 's, 'c) gen_ops"
  assumes "stable_digraph G ok" "ok (gc_graph self)"
    and "pg_node_weight G (gc_graph self) n = Some (BlkStart blk sub)"
  shows "collect_extern_ret_constraints T G self n nc vm =
    (if \<exists>(_, _, _, w) \<in> set (edges_directed G (gc_graph self) n Outgoing).
          extern_stub_to (gc_extern_symbols self) w
     then None else Some (cs_empty, vm))"
proof -
  define f where "f = (\<lambda>(_ :: nat, source, _ :: nat, weight :: ('tid, 'bv) cfg_edge) (cons, vman).
         do { source_node \<leftarrow> pg_node_weight G (gc_graph self) source;
              case weight of
                ExternCallStub jmp \<Rightarrow>
                  (case t_term jmp of
                     JmpCall target _ \<Rightarrow>
                       (case map_of (gc_extern_symbols self) target of
                          Some extern_symb \<Rightarrow>
                            (case source_node of
                               BlkEnd blk _ \<Rightarrow>
                                 (let (cs, vman) = handle_extern_actual_rets T nc blk
                                        \<lparr>t_tid = target, t_term = extern_symb\<rparr> vman 0
                                  in Some (insert_all cons cs, vman))
                             | _ \<Rightarrow> None)
                        | None \<Rightarrow> Some (cons, vman))
                   | _ \<Rightarrow> Some (cons, vman))
              | _ \<Rightarrow> Some (cons, vman) })"
  have step: "f (i, n, b, w) (C, vm) =
      (if extern_stub_to (gc_extern_symbols self) w then None else Some (C, vm))" for i b w C vm
    unfolding f_def extern_stub_to_def using assms(3)
    by (auto split: cfg_edge.splits ir_jmp.splits option.splits)
  have "fold_opt f es (C, vm) =
      (if \<exists>(_, _, _, w) \<in> set es. extern_stub_to (gc_extern_symbols self) w
       then None else Some (C, vm))" if "\<forall>(_, a, _, _) \<in> set es. a = n" for es C vm
    using that
  proof (induction es)
    case (Cons e es)
    obtain i b w where "e = (i, n, b, w)" using Cons.prems by (cases e) auto
    then show ?case using Cons step by simp
  qed simp
  moreover have "\<forall>(_, a, _, _) \<in> set (edges_directed G (gc_graph self) n Outgoing). a = n"
    using stable_digraph.edge_nodes [OF assms(1,2)] by fast
  ultimately show ?thesis
    unfolding collect_extern_ret_constraints_def f_def by blast
qed

lemma return_constraints_returns:
  fixes T :: "('tid, 'bv, 'r, 'p, 's, 'c) gen_ops"
  assumes "stable_digraph G ok" "ok (gc_graph self)"
    and "b_jmps (t_term return_from) \<noteq> []"
    and "\<forall>(_, _, _, w) \<in> set (edges_directed G (gc_graph self) n Outgoing). \<exists>call. w = ReturnCombine call"
  shows "\<exists>C vm'. return_constraints T G self n nc call_blk return_from return_proc vm = Some (C, vm')"
proof -
  obtain ret rest where jmps: "b_jmps (t_term return_from) = ret # rest"
    using assms(3) by (cases "b_jmps (t_term return_from)") auto
  have "\<exists>s. return_constraints T G self n nc call_blk return_from return_proc vm = Some s"
    unfolding return_constraints_def
  proof (rule fold_opt_total)
    fix x and st :: "'tid constraint_set \<times> variable_manager"
    assume x: "x \<in> set (edges_directed G (gc_graph self) n Outgoing)"
    obtain i a b w where e: "x = (i, a, b, w)" by (cases x)
    from stable_digraph.edge_nodes [OF assms(1,2) x [unfolded e]] obtain v
      where "pg_node_weight G (gc_graph self) b = Some v" by blast
    moreover from assms(4) x e obtain call where "w = ReturnCombine call" by auto
    ultimately show "\<exists>s'. (case x of (_, _, target, weight) \<Rightarrow> \<lambda>(total_cons, vman).
         do { target_node \<leftarrow> pg_node_weight G (gc_graph self) target;
              if \<not> should_generate_for_block self target_node then Some (total_cons, vman)
              else case weight of
                ReturnCombine call_site \<Rightarrow>
                  (case b_jmps (t_term return_from) of
                     [] \<Rightarrow> None
                   | ret # _ \<Rightarrow>
                       (let post_cond = nc_apply_return_node T nc call_site ret;
                            (cs, vman) = handle_return_actual T post_cond call_blk return_proc vman 0
                        in Some (insert_all total_cons cs, vman)))
              | _ \<Rightarrow> None }) st = Some s'"
      using e jmps by (cases st) (simp add: Let_def split: prod.split)
  qed
  then show ?thesis by auto
qed

lemma node_generation_returns:
  assumes G: "stable_digraph G ok" "ok (gc_graph self)" and T: "bare_globals T"
    and nd: "pg_node_weight G (gc_graph self) n = Some nd" "node_ok T G self n nd"
  shows "\<exists>C vm'. generate_constraints_for_node T G self n vm = Some (C, vm')"
proof (cases "should_generate_for_block self nd")
  case False
  with nd show ?thesis by (simp add: generate_constraints_for_node_def)
next
  case gen: True
  show ?thesis
  proof (cases "gc_node_contexts self n")
    case None
    with nd gen show ?thesis by (simp add: generate_constraints_for_node_def)
  next
    case ctx: (Some nc)
    show ?thesis
    proof (cases nd)
      case (BlkStart blk sub)
      obtain b bs where "s_blocks (t_term sub) = b # bs"
        using nd(2) BlkStart by (cases "s_blocks (t_term sub)") auto
      moreover have "collect_extern_ret_constraints T G self n nc vm = Some (cs_empty, vm)" for vm
        using extern_returns_exact [OF G nd(1) [unfolded BlkStart], of T nc vm] nd(2) BlkStart by auto
      moreover have "\<exists>C vm'. handle_block_start T nc blk vm = Some (C, vm')" for vm
        by (rule handle_block_returns [OF T]) (use nd(2) BlkStart in simp)
      ultimately show ?thesis
        using nd gen ctx BlkStart
        by (simp add: generate_constraints_for_node_def Let_def bind_eq_Some_conv split: prod.split) metis
    next
      case (CallReturn p q)
      obtain call_blk cp return_from return_proc where pq: "p = (call_blk, cp)" "q = (return_from, return_proc)"
        by (cases p; cases q)
      have "\<exists>C vm'. return_constraints T G self n nc call_blk return_from return_proc vm = Some (C, vm')"
        by (rule return_constraints_returns [OF G]) (use nd(2) CallReturn pq in auto)
      with nd gen ctx CallReturn pq show ?thesis by (simp add: generate_constraints_for_node_def)
    next
      case (CallSource p q)
      with nd gen ctx show ?thesis
        by (cases p; cases q) (simp add: generate_constraints_for_node_def surj_pair)
    next
      case (BlkEnd blk sub)
      with nd gen ctx show ?thesis
        by (simp add: generate_constraints_for_node_def Let_def split: prod.split)
    qed
  qed
qed

text \<open>C9.
  The generation of constraints for a whole program returns, without a panic, when every node
  of the control flow graph is well formed: procedures and returning blocks are not empty, the
  edges are those the code expects, constants convert and the constants of an address sum to
  less than 2^63, and the globals are plain variables, as those of the resolver are.\<close>
theorem generate_constraints_returns:
  fixes T :: "('tid, 'bv, 'r, 'p, 's, 'c) gen_ops"
  assumes "stable_digraph G ok" "ok (gc_graph self)" "bare_globals T"
    and "\<And>n nd. pg_node_weight G (gc_graph self) n = Some nd \<Longrightarrow> node_ok T G self n nd"
  shows "\<exists>C vm'. generate_constraints T G self vm = Some (C, vm')"
proof -
  have "\<exists>s. generate_constraints T G self vm = Some s"
    unfolding generate_constraints_def
  proof (rule fold_opt_total)
    fix n and st :: "'tid constraint_set \<times> variable_manager"
    assume "n \<in> set (pg_node_indices G (gc_graph self))"
    then obtain nd where "pg_node_weight G (gc_graph self) n = Some nd"
      using stable_digraph.node_indices_laws [OF assms(1,2)] by auto
    from node_generation_returns [OF assms(1-3) this assms(4) [OF this], of "snd st"]
    show "\<exists>s'. (case st of (cs, vman) \<Rightarrow>
         do { (node_cs, vman) \<leftarrow> generate_constraints_for_node T G self n vman;
              Some (insert_all cs node_cs, vman) }) = Some s'"
      by (cases st) auto
  qed
  then show ?thesis by auto
qed

text \<open>C40.
  No constraint is ever generated for the results of calls of external symbols: at the start of
  a block the code looks for call stubs among the edges that leave the node, where it finds
  none, and not among those that enter it.  So the collection returns the empty set, whatever
  stubs enter the block, or panics.\<close>
theorem extern_results_unconstrained:
  assumes "stable_digraph G ok" "ok (gc_graph self)"
    and "pg_node_weight G (gc_graph self) n = Some (BlkStart blk sub)"
    and "collect_extern_ret_constraints T G self n nc vm = Some (C, vm')"
  shows "C = cs_empty \<and> vm' = vm"
  using extern_returns_exact [OF assms(1-3), of T nc vm] assms(4) by (simp split: if_splits)

end
