(* ===== verification/ConstraintCalls.thy ===== *)
theory ConstraintCalls
  imports ConstraintFlow
begin

text \<open>
  The constraints between formal and actual parameters, for the default contexts: which type
  variables an argument specification denotes, and how values cross calls and returns.
\<close>

section \<open>Arguments\<close>

text \<open>The derived type variables of an argument in a state, displaced when it is in memory.\<close>

definition arg_dtvs ::
    "('tid, 'bv, 'r, 'p, procedure_context, 'c) gen_ops \<Rightarrow> ('tid, 'r, 'p, procedure_context, 'c) node_context \<Rightarrow>
     int \<Rightarrow> 'bv ir_arg \<Rightarrow> 'tid dtv set" where
  "arg_dtvs T nc displacement a =
     (case a of
        ArgRegister e \<Rightarrow>
          (case e of EVar v \<Rightarrow> dtv_new ` gt_access T (nc_reg_map nc) v | _ \<Rightarrow> {})
      | ArgStack address sz \<Rightarrow>
          (\<lambda>acc. argtvar_to_dtv T (MemTvar acc) displacement)
            ` gt_points_to T (nc_points_to nc) address sz)"

definition procedure_args :: "('tid, 'bv, 'r, 'p, procedure_context, 'c) gen_ops \<Rightarrow> bool" where
  "procedure_args T \<longleftrightarrow> gt_arg T = get_type_variables_for_arg (gt_access T) (gt_points_to T)"

lemma default_procedure_args: "procedure_args (default_ops show_tid I L)"
  by (simp add: procedure_args_def default_ops_def)

lemma gt_arg_dtvs:
  assumes "procedure_args T"
  shows "(\<lambda>t. argtvar_to_dtv T t disp) ` fst (gt_arg T s a (nc_reg_map nc) (nc_points_to nc) vm)
      = arg_dtvs T nc disp a"
    and "snd (gt_arg T s a r p vm) = vm"
  using assms
  by (auto simp: procedure_args_def get_type_variables_for_arg_def arg_dtvs_def argtvar_to_dtv_def
      Let_def image_image split: ir_arg.splits expression.splits)

definition parameter_constraint :: "bool \<Rightarrow> 'tid dtv \<Rightarrow> 'tid dtv \<Rightarrow> 'tid ty_constraint" where
  "parameter_constraint written formal d =
     SubTy (if written then subtype_new formal d else subtype_new d formal)"

lemma make_constraints_exact:
  assumes "procedure_args T"
  shows "make_constraints T nc cs lab written disp vm =
    ((\<Union>i < length (si_args cs).
        parameter_constraint written (create_formal_tvar T (si_calling_blk cs) i lab (si_sub cs))
          ` arg_dtvs T nc disp (si_args cs ! i)), vm)"
proof -
  let ?f = "\<lambda>i. create_formal_tvar T (si_calling_blk cs) i lab (si_sub cs)"
  define step where "step = (\<lambda>(start_constraints, vm) (i, a).
         let formal_tv = create_formal_tvar T (si_calling_blk cs) i lab (si_sub cs);
             (arg_tvars, vm) = gt_arg T (nc_subprocedure_locators nc) a (nc_reg_map nc) (nc_points_to nc) vm
         in (start_constraints \<union>
               (\<lambda>arg_repr_tvar. let dt = argtvar_to_dtv T arg_repr_tvar disp
                  in SubTy (if written then subtype_new formal_tv dt else subtype_new dt formal_tv))
                 ` arg_tvars, vm))"
  have step: "step (C, vm) (i, a) = (C \<union> parameter_constraint written (?f i) ` arg_dtvs T nc disp a, vm)" for C vm i a
    using gt_arg_dtvs(2) [OF assms, of "nc_subprocedure_locators nc" a "nc_reg_map nc" "nc_points_to nc" vm]
    unfolding gt_arg_dtvs(1) [OF assms, of disp "nc_subprocedure_locators nc" a nc vm, symmetric]
    by (auto simp: step_def parameter_constraint_def [abs_def] image_image Let_def split: prod.split)
  have "foldl step (C, vm) (List.enumerate n as) =
      (C \<union> (\<Union>i < length as. parameter_constraint written (?f (n + i)) ` arg_dtvs T nc disp (as ! i)), vm)" for C n as
  proof (induction as arbitrary: C n)
    case (Cons a as)
    have "(\<Union>i < length (a # as). parameter_constraint written (?f (n + i)) ` arg_dtvs T nc disp ((a # as) ! i)) =
        parameter_constraint written (?f n) ` arg_dtvs T nc disp a \<union>
        (\<Union>i < length as. parameter_constraint written (?f (Suc n + i)) ` arg_dtvs T nc disp (as ! i))"
      by (simp add: lessThan_Suc_eq_insert_0)
    then show ?case using step Cons.IH by (simp add: Un_assoc)
  qed simp
  from this [of cs_empty 0 "si_args cs"] show ?thesis
    unfolding make_constraints_def step_def by (simp add: cs_empty_def)
qed

text \<open>C17.
  At a call the generated constraints are exactly these: for every formal argument of the
  callee, each type variable that the argument denotes in the state of the call site is a
  subtype of the in-parameter of that index, of the variable of the callee tagged with the
  calling block.  Ephemeral variables are not used up.\<close>
theorem call_parameters_exact:
  "snd (handle_call_actual (default_ops show_tid I L) nc blk sub vm disp) = vm
   \<and> (c \<in> fst (handle_call_actual (default_ops show_tid I L) nc blk sub vm disp) \<longleftrightarrow>
       (\<exists>i d. i < length (s_formal_args (t_term sub))
          \<and> d \<in> arg_dtvs (default_ops show_tid I L) nc disp (s_formal_args (t_term sub) ! i)
          \<and> c = SubTy (subtype_new d
              (create_with_path (with_tag (show_tid (t_tid sub)) (t_tid blk)) [In i]))))"
  unfolding handle_call_actual_def make_constraints_exact [OF default_procedure_args]
  by (auto simp: parameter_constraint_def create_formal_tvar_def tid_to_tvar_with_tag_def
      add_field_label_def dtv_new_def create_with_path_def default_ops_def)

section \<open>Returns\<close>

lemma last_index_last:
  assumes "sorted_wrt (<) xs" "(i, v) \<in> set xs" "\<And>k. (k, v) \<in> set xs \<Longrightarrow> k \<le> i"
  shows "last_index xs v = Some i"
  using assms
proof (induction xs rule: rev_induct)
  case (snoc x xs)
  show ?case
  proof (cases "snd x = v")
    case True
    then have "fst x \<le> i" using snoc.prems(3) [of "fst x"] by (cases x) auto
    moreover have "i \<le> fst x"
      using snoc.prems(1,2) by (cases x) (fastforce simp: sorted_wrt_append less_prod_def)
    ultimately show ?thesis using True by simp
  next
    case False
    then have "(i, v) \<in> set xs" using snoc.prems(2) by auto
    then show ?thesis using snoc.IH snoc.prems False by (simp add: sorted_wrt_append)
  qed
qed simp

lemma set_map_filter: "y \<in> set (List.map_filter f xs) \<longleftrightarrow> (\<exists>x \<in> set xs. f x = Some y)"
  by (induction xs) (auto simp: map_filter_simps split: option.splits)

lemma set_register_args:
  "(i, v) \<in> set (register_args as) \<longleftrightarrow> i < length as \<and> as ! i = ArgRegister (EVar v)"
proof -
  have reg: "register_var a = Some v \<longleftrightarrow> a = ArgRegister (EVar v)" for a :: "'a ir_arg"
    by (auto simp: register_var_def split: ir_arg.splits expression.splits)
  have "(case x of (idx, x) \<Rightarrow> map_option (Pair idx) (register_var x)) = Some (i, v) \<longleftrightarrow>
      x = (i, ArgRegister (EVar v))" for x :: "nat \<times> 'a ir_arg"
    using reg [of "snd x"] by (cases x) auto
  then show ?thesis by (simp add: register_args_def set_map_filter in_set_enumerate_eq)
qed

text \<open>C7.
  Returned values flow to their uses: after the return of a callee the register of its return
  value of index \<open>i\<close> has one reaching definition, the call, and the constraints generated at the
  return make the out-parameter of that index, of the callee tagged with the calling block, a
  subtype of its type variable.\<close>
theorem return_values_flow:
  fixes nc :: "('tid, ('tid, 'bv) register_context, 'st points_to_context, procedure_context,
    'tid ghidra_constant_resolver) node_context"
  assumes T: "T = default_ops show_tid I L"
    and fin: "finite (pr_register_set (rc_project (nc_reg_map nc)))"
    and rets: "get_function_returns (t_term call) (pr_program (rc_project (nc_reg_map nc)))
      = s_formal_rets (t_term callee)"
    and i: "i < length (s_formal_rets (t_term callee))"
      "s_formal_rets (t_term callee) ! i = ArgRegister (EVar v)"
    and last: "\<And>k. k < length (s_formal_rets (t_term callee)) \<Longrightarrow>
      s_formal_rets (t_term callee) ! k = ArgRegister (EVar v) \<Longrightarrow> k \<le> i"
  shows "gt_access T (nc_reg_map (nc_apply_return_node T nc call ret)) v
      = {tid_indexed_by_variable show_tid (t_tid call) (iv_name v)}
    \<and> SubTy (subtype_new (create_with_path (with_tag (show_tid (t_tid callee)) (t_tid blk)) [Out i])
        (dtv_new (tid_indexed_by_variable show_tid (t_tid call) (iv_name v))))
      \<in> fst (handle_return_actual T (nc_apply_return_node T nc call ret) blk callee vm disp)"
proof -
  let ?nc = "nc_apply_return_node T nc call ret"
  have "last_index (register_args (s_formal_rets (t_term callee))) v = Some i"
    by (rule last_index_last [OF register_args_sorted]) (use i last in \<open>auto simp: set_register_args\<close>)
  then have acc: "gt_access T (nc_reg_map ?nc) v = {tid_indexed_by_variable show_tid (t_tid call) (iv_name v)}"
    using lookup_apply_return [OF fin, of "Some (rc_mapping (nc_reg_map nc))" call v] rets
    by (simp add: T default_ops_def nc_apply_return_node_def node_context_new_def Let_def
        rc_apply_return_node_def rc_access_def generate_multi_def_constraint_def type_variable_from_def_def)
  have "dtv_new (tid_indexed_by_variable show_tid (t_tid call) (iv_name v))
      \<in> arg_dtvs T ?nc disp (s_formal_rets (t_term callee) ! i)"
    using acc i(2) by (simp add: arg_dtvs_def)
  then have "SubTy (subtype_new (create_with_path (with_tag (show_tid (t_tid callee)) (t_tid blk)) [Out i])
        (dtv_new (tid_indexed_by_variable show_tid (t_tid call) (iv_name v))))
      \<in> fst (handle_return_actual T ?nc blk callee vm disp)"
    unfolding T handle_return_actual_def make_constraints_exact [OF default_procedure_args]
    using i(1) by (force simp: parameter_constraint_def create_formal_tvar_def tid_to_tvar_with_tag_def
        add_field_label_def dtv_new_def create_with_path_def default_ops_def)
  with acc show ?thesis by blast
qed

end
