(* ===== verification/FixupReturns.thy ===== *)
theory FixupReturns
  imports ReachingDefs
begin

text \<open>
  The recovery of shared returns (\<^verbatim>\<open>src/analysis/fixup_returns.rs\<close>): a procedure
  without formal returns gets those registers that still hold the result of a call at its
  first returning block.
\<close>

section \<open>The analysis\<close>

definition is_actual_ret :: "'tid definer \<Rightarrow> bool" where
  "is_actual_ret t \<longleftrightarrow> (case t of ActualRet _ _ \<Rightarrow> True | _ \<Rightarrow> False)"

definition get_returns_from_block ::
    "('tid \<Rightarrow> ('tid, 'bv) register_context option) \<Rightarrow> ('tid, ('tid, 'bv) ir_blk) ir_term \<Rightarrow>
     'bv ir_arg list option" where
  "get_returns_from_block reaching_defs_start_of_block blk =
     map_option (\<lambda>reg_context.
         let context_before_jumps = foldl rc_apply_def reg_context (b_defs (t_term blk));
             vars_to_defs = rc_mapping context_before_jumps
         in map (\<lambda>(v, _). ArgRegister (EVar v))
              (filter (\<lambda>(_, tset). \<exists>t \<in> tset. is_actual_ret t) vars_to_defs))
       (reaching_defs_start_of_block (t_tid blk))"

definition blk_returns :: "('tid, ('tid, 'bv) ir_blk) ir_term \<Rightarrow> bool" where
  "blk_returns blk \<longleftrightarrow>
     list_ex (\<lambda>jmp. case t_term jmp of JmpReturn _ \<Rightarrow> True | _ \<Rightarrow> False) (b_jmps (t_term blk))"

definition generate_returns_for_sub ::
    "('tid \<Rightarrow> ('tid, 'bv) register_context option) \<Rightarrow> ('tid, ('tid, 'bv) ir_sub) ir_term \<Rightarrow>
     'bv ir_arg list" where
  "generate_returns_for_sub ctxs sub =
     (let found = find (\<lambda>x. x \<noteq> None)
            (map (get_returns_from_block ctxs) (filter blk_returns (s_blocks (t_term sub))))
      in case (case found of Some x \<Rightarrow> x | None \<Rightarrow> Some []) of Some rets \<Rightarrow> rets | None \<Rightarrow> [])"

definition collect_returns ::
    "('tid \<Rightarrow> ('tid, 'bv) register_context option) \<Rightarrow> ('tid, 'bv) project \<Rightarrow>
     'tid \<Rightarrow> 'bv ir_arg list option" where
  "collect_returns ctxs ir =
     foldl (\<lambda>tot (_, func).
         if s_formal_rets (t_term func) = []
         then tot(t_tid func \<mapsto> generate_returns_for_sub ctxs func) else tot)
       Map.empty (p_subs (pr_program ir))"

definition apply_psuedo_returns ::
    "('tid \<Rightarrow> ('tid, 'bv) register_context option) \<Rightarrow> ('tid, 'bv) project \<Rightarrow> ('tid, 'bv) project" where
  "apply_psuedo_returns ctxs ir =
     (let m = collect_returns ctxs ir;
          prog = pr_program ir
      in ir\<lparr>pr_program := prog\<lparr>p_subs := map (\<lambda>(k, sub).
           (k, case m (t_tid sub) of
                 Some new_rets \<Rightarrow> sub\<lparr>t_term := (t_term sub)\<lparr>s_formal_rets := new_rets\<rparr>\<rparr>
               | None \<Rightarrow> sub)) (p_subs prog)\<rparr>\<rparr>)"

section \<open>What a block returns\<close>

definition sorted_map :: "('k::linorder \<times> 'v) list \<Rightarrow> bool" where
  "sorted_map m \<longleftrightarrow> sorted_wrt (<) (map fst m)"

lemma sorted_map_distinct: "sorted_map m \<Longrightarrow> distinct (map fst m)"
  unfolding sorted_map_def by (simp add: strict_sorted_iff)

lemma sorted_map_apply_def: "sorted_map m \<Longrightarrow> sorted_map (apply_def m d)"
  by (simp add: sorted_map_def apply_def_def apply_definition_of_variable_def sorted_bt_insert
      split: ir_def.split)

lemma sorted_map_block: "sorted_map m \<Longrightarrow> sorted_map (foldl apply_def m ds)"
  by (induction ds arbitrary: m) (simp_all add: sorted_map_apply_def)

text \<open>A register that holds the result of a call at the end of a block was not written in it.\<close>

definition holds_call_result ::
    "('tid, 'bv) register_context \<Rightarrow> ('tid, 'bv ir_def) ir_term list \<Rightarrow> ir_variable \<Rightarrow> bool" where
  "holds_call_result rc ds v \<longleftrightarrow>
     (\<forall>d \<in> set ds. def_writes (t_term d) \<noteq> Some v)
     \<and> (case map_of (rc_mapping rc) v of Some tset \<Rightarrow> \<exists>t \<in> tset. is_actual_ret t | None \<Rightarrow> False)"

lemma holds_call_result_iff:
  "(case map_of (foldl apply_def (rc_mapping rc) ds) v of
      Some tset \<Rightarrow> \<exists>t \<in> tset. is_actual_ret t | None \<Rightarrow> False) \<longleftrightarrow> holds_call_result rc ds v"
proof (cases "find (\<lambda>d. def_writes (t_term d) = Some v) (rev ds)")
  case None
  then have "\<forall>d \<in> set ds. def_writes (t_term d) \<noteq> Some v" by (simp add: find_None_iff)
  then show ?thesis by (simp add: block_lookup None holds_call_result_def)
next
  case (Some d)
  then have "\<exists>d \<in> set ds. def_writes (t_term d) = Some v" using find_SomeD by fastforce
  then show ?thesis
    using Some by (auto simp: block_lookup holds_call_result_def is_actual_ret_def)
qed

lemma returned_registers:
  assumes "sorted_map m"
  shows "a \<in> set (map (\<lambda>(v, _). ArgRegister (EVar v)) (filter (\<lambda>(_, tset). \<exists>t \<in> tset. is_actual_ret t) m)) \<longleftrightarrow>
    (\<exists>v. a = ArgRegister (EVar v) \<and> (case map_of m v of Some tset \<Rightarrow> \<exists>t \<in> tset. is_actual_ret t | None \<Rightarrow> False))"
proof -
  have mem: "(v, tset) \<in> set m \<longleftrightarrow> map_of m v = Some tset" for v tset
    using sorted_map_distinct [OF assms] by simp
  have "a \<in> set (map (\<lambda>(v, _). ArgRegister (EVar v)) (filter (\<lambda>(_, tset). \<exists>t \<in> tset. is_actual_ret t) m)) \<longleftrightarrow>
      (\<exists>v tset. a = ArgRegister (EVar v) \<and> (v, tset) \<in> set m \<and> (\<exists>t \<in> tset. is_actual_ret t))"
    by (auto simp: image_iff)
  also have "\<dots> \<longleftrightarrow> (\<exists>v. a = ArgRegister (EVar v) \<and>
      (case map_of m v of Some tset \<Rightarrow> \<exists>t \<in> tset. is_actual_ret t | None \<Rightarrow> False))"
    unfolding mem by (rule ex_cong1) (auto split: option.split)
  finally show ?thesis .
qed

lemma get_returns_from_block_exact:
  assumes "ctxs (t_tid blk) = Some rc" "sorted_map (rc_mapping rc)"
  shows "\<exists>rets. get_returns_from_block ctxs blk = Some rets
    \<and> (\<forall>a. a \<in> set rets \<longleftrightarrow> (\<exists>v. a = ArgRegister (EVar v) \<and> holds_call_result rc (b_defs (t_term blk)) v))"
proof (intro exI conjI allI)
  show "get_returns_from_block ctxs blk = Some (map (\<lambda>(v, _). ArgRegister (EVar v))
      (filter (\<lambda>(_, tset). \<exists>t \<in> tset. is_actual_ret t)
        (foldl apply_def (rc_mapping rc) (b_defs (t_term blk)))))"
    by (simp add: get_returns_from_block_def assms(1) Let_def rc_foldl)
qed (subst returned_registers [OF sorted_map_block [OF assms(2)]], simp only: holds_call_result_iff)

lemma get_returns_None: "get_returns_from_block ctxs blk = None \<longleftrightarrow> ctxs (t_tid blk) = None"
  by (simp add: get_returns_from_block_def)

section \<open>What a procedure returns\<close>

text \<open>The first returning block that has a reaching definitions context.\<close>

definition deciding_block ::
    "('tid \<Rightarrow> ('tid, 'bv) register_context option) \<Rightarrow> ('tid, ('tid, 'bv) ir_sub) ir_term \<Rightarrow>
     ('tid, ('tid, 'bv) ir_blk) ir_term option" where
  "deciding_block ctxs sub =
     find (\<lambda>blk. blk_returns blk \<and> ctxs (t_tid blk) \<noteq> None) (s_blocks (t_term sub))"

lemma find_map_filter:
  "find (\<lambda>x. x \<noteq> None) (map f (filter P xs)) = map_option f (find (\<lambda>x. P x \<and> f x \<noteq> None) xs)"
  by (induction xs) auto

lemma generate_returns_for_sub_exact:
  "generate_returns_for_sub ctxs sub =
     (case deciding_block ctxs sub of
        Some blk \<Rightarrow> the (get_returns_from_block ctxs blk)
      | None \<Rightarrow> [])"
proof -
  have d: "find (\<lambda>blk. blk_returns blk \<and> get_returns_from_block ctxs blk \<noteq> None)
      (s_blocks (t_term sub)) = deciding_block ctxs sub"
    by (simp add: deciding_block_def get_returns_None)
  show ?thesis
  proof (cases "deciding_block ctxs sub")
    case None
    then show ?thesis
      unfolding generate_returns_for_sub_def Let_def find_map_filter d by simp
  next
    case (Some blk)
    moreover from this have "get_returns_from_block ctxs blk \<noteq> None"
      unfolding get_returns_None deciding_block_def using find_SomeD by fastforce
    ultimately show ?thesis
      unfolding generate_returns_for_sub_def Let_def find_map_filter d by auto
  qed
qed

lemma collect_returns_lookup:
  assumes "distinct (map (\<lambda>(_, sub). t_tid sub) subs)" "(k, sub) \<in> set subs"
  shows "foldl (\<lambda>tot (_, func).
         if s_formal_rets (t_term func) = []
         then tot(t_tid func \<mapsto> generate_returns_for_sub ctxs func) else tot) M subs (t_tid sub) =
    (if s_formal_rets (t_term sub) = [] then Some (generate_returns_for_sub ctxs sub) else M (t_tid sub))"
  using assms
proof (induction subs rule: rev_induct)
  case (snoc p subs)
  obtain k' sub' where p: "p = (k', sub')" by (cases p)
  have keep: "t_tid sub \<notin> t_tid ` snd ` set subs \<Longrightarrow> foldl (\<lambda>tot (_, func).
         if s_formal_rets (t_term func) = []
         then tot(t_tid func \<mapsto> generate_returns_for_sub ctxs func) else tot) M subs (t_tid sub) = M (t_tid sub)"
    by (induction subs rule: rev_induct) auto
  show ?case
  proof (cases "(k, sub) = p")
    case True
    then have "t_tid sub \<notin> t_tid ` snd ` set subs" using snoc.prems p by force
    with keep True p show ?thesis by simp
  next
    case False
    then have m: "(k, sub) \<in> set subs" using snoc.prems by auto
    then have "t_tid sub' \<noteq> t_tid sub" using snoc.prems p by force
    with snoc.IH m snoc.prems p show ?thesis by simp
  qed
qed simp

text \<open>C31.
  Recovering shared returns changes only procedures without formal returns; such a procedure
  gets exactly the registers that reach the end of its first returning block with a context
  while they still hold the result of a call, each as a register argument, and none when there
  is no such block.\<close>
theorem apply_psuedo_returns_exact:
  assumes "distinct (map (\<lambda>(_, sub). t_tid sub) (p_subs (pr_program ir)))"
    and "\<And>b rc. ctxs b = Some rc \<Longrightarrow> sorted_map (rc_mapping rc)"
    and "(k, sub) \<in> set (p_subs (pr_program ir))"
  shows "\<exists>rets. (k, sub\<lparr>t_term := (t_term sub)\<lparr>s_formal_rets := rets\<rparr>\<rparr>)
        \<in> set (p_subs (pr_program (apply_psuedo_returns ctxs ir)))
    \<and> (s_formal_rets (t_term sub) \<noteq> [] \<longrightarrow> rets = s_formal_rets (t_term sub))
    \<and> (s_formal_rets (t_term sub) = [] \<longrightarrow>
        (\<forall>a. a \<in> set rets \<longleftrightarrow>
          (\<exists>blk rc v. deciding_block ctxs sub = Some blk \<and> ctxs (t_tid blk) = Some rc
             \<and> a = ArgRegister (EVar v) \<and> holds_call_result rc (b_defs (t_term blk)) v)))"
proof -
  let ?gen = "generate_returns_for_sub ctxs sub"
  let ?rets = "if s_formal_rets (t_term sub) = [] then ?gen else s_formal_rets (t_term sub)"
  have m: "collect_returns ctxs ir (t_tid sub) =
      (if s_formal_rets (t_term sub) = [] then Some ?gen else None)"
    unfolding collect_returns_def using collect_returns_lookup [OF assms(1,3)] by simp
  have "(k, sub\<lparr>t_term := (t_term sub)\<lparr>s_formal_rets := ?rets\<rparr>\<rparr>)
      \<in> set (p_subs (pr_program (apply_psuedo_returns ctxs ir)))"
    unfolding apply_psuedo_returns_def Let_def
    using m by (auto intro!: rev_image_eqI [OF assms(3)])
  moreover have "a \<in> set ?gen \<longleftrightarrow>
      (\<exists>blk rc v. deciding_block ctxs sub = Some blk \<and> ctxs (t_tid blk) = Some rc
         \<and> a = ArgRegister (EVar v) \<and> holds_call_result rc (b_defs (t_term blk)) v)" for a
  proof (cases "deciding_block ctxs sub")
    case None
    then show ?thesis by (simp add: generate_returns_for_sub_exact)
  next
    case (Some blk)
    then obtain rc where rc: "ctxs (t_tid blk) = Some rc"
      using find_SomeD unfolding deciding_block_def by fastforce
    with get_returns_from_block_exact [of ctxs blk rc] assms(2) Some show ?thesis
      by (auto simp: generate_returns_for_sub_exact)
  qed
  ultimately show ?thesis by (intro exI [of _ ?rets]) simp
qed

end
