(* ===== verification/ConstraintDemo.thy ===== *)
theory ConstraintDemo
  imports ConstraintTotal ConstraintCalls FixupReturns
begin

text \<open>
  A small program on which the properties of the analyses and of the constraint generation are
  applied: one block that copies a register, stores a value and loads it back, and calls an
  external symbol whose result arrives in a second block.  The pointer inference knows nothing.
\<close>

section \<open>The program\<close>

definition demo_var :: "string \<Rightarrow> ir_variable" where
  "demo_var n = \<lparr>iv_name = n, iv_size = 8, iv_is_temp = False\<rparr>"

abbreviation rax :: ir_variable where "rax \<equiv> demo_var ''rax''"
abbreviation rbx :: ir_variable where "rbx \<equiv> demo_var ''rbx''"
abbreviation rcx :: ir_variable where "rcx \<equiv> demo_var ''rcx''"

lemma demo_var_eq [simp]: "demo_var a = demo_var b \<longleftrightarrow> a = b"
  by (simp add: demo_var_def)

definition demo_term :: "nat \<Rightarrow> 'a \<Rightarrow> (nat, 'a) ir_term" where
  "demo_term n x = \<lparr>t_tid = n, t_term = x\<rparr>"

lemma demo_term_sel [simp]: "t_tid (demo_term n x) = n" "t_term (demo_term n x) = x"
  by (simp_all add: demo_term_def)

definition demo_call :: "(nat, (nat, int) ir_jmp) ir_term" where
  "demo_call = demo_term 9 (JmpCall 30 (Some 12))"

definition demo_defs :: "(nat, int ir_def) ir_term list" where
  "demo_defs =
     [demo_term 1 (DefAssign rax (EConst 5)),
      demo_term 2 (DefAssign rbx (EVar rax)),
      demo_term 3 (DefStore (EBinOp IntAdd (EVar rbx) (EConst 8)) (EVar rax)),
      demo_term 4 (DefLoad rcx (EBinOp IntAdd (EVar rbx) (EConst 8)))]"

definition demo_blk :: "(nat, (nat, int) ir_blk) ir_term" where
  "demo_blk = demo_term 11 \<lparr>b_defs = demo_defs, b_jmps = [demo_call]\<rparr>"

definition demo_ret_blk :: "(nat, (nat, int) ir_blk) ir_term" where
  "demo_ret_blk = demo_term 12
     \<lparr>b_defs = [demo_term 5 (DefAssign rbx (EVar rax))], b_jmps = [demo_term 6 (JmpReturn (EVar rbx))]\<rparr>"

definition demo_sub :: "(nat, (nat, int) ir_sub) ir_term" where
  "demo_sub = demo_term 20
     \<lparr>s_blocks = [demo_blk, demo_ret_blk], s_formal_args = [], s_formal_rets = [],
      s_calling_convention = None\<rparr>"

definition demo_callee :: "(nat, (nat, int) ir_sub) ir_term" where
  "demo_callee = demo_term 30
     \<lparr>s_blocks = [], s_formal_args = [ArgRegister (EVar rbx)], s_formal_rets = [ArgRegister (EVar rax)],
      s_calling_convention = None\<rparr>"

definition demo_extern :: "int extern_symbol" where
  "demo_extern = \<lparr>x_parameters = [], x_return_values = [ArgRegister (EVar rax)]\<rparr>"

definition demo_project :: "(nat, int) project" where
  "demo_project =
     \<lparr>pr_program = \<lparr>p_subs = [(20, demo_sub), (30, demo_callee)], p_extern_symbols = [], p_global_variables = []\<rparr>,
      pr_register_set = {rax, rbx}, pr_callee_saved = (\<lambda>_. Some [rbx]), pr_stack_pointer = demo_var ''rsp''\<rparr>"

definition demo_ir :: "int ir_lib" where
  "demo_ir = \<lparr>il_is_one = (\<lambda>k. k = 1), il_to_i128 = Some, il_to_u64 = (\<lambda>_. None),
     il_bytesize = (\<lambda>_. 8), il_bit_length = (\<lambda>n. 8 * n)\<rparr>"

definition demo_pointers :: "(int, unit, unit, unit, unit) pointer_lib" where
  "demo_pointers = \<lparr>pl_assign = (\<lambda>s _ _. s), pl_load = (\<lambda>s _ _. s), pl_store = (\<lambda>s _ _. s),
     pl_eval = (\<lambda>_ _. ()), pl_relative_values = (\<lambda>_. {}), pl_absolute_value = (\<lambda>_. None),
     pl_try_to_bitvec = (\<lambda>_. None), pl_try_to_offset = (\<lambda>_. None), pl_aid_string = (\<lambda>_. []),
     pl_is_whitespace = (\<lambda>c. c = CHR '' '')\<rparr>"

abbreviation demo_ops where "demo_ops \<equiv> default_ops show_nat demo_ir demo_pointers"

definition demo_nc ::
    "(nat, (nat, int) register_context, unit points_to_context, procedure_context,
      nat ghidra_constant_resolver) node_context" where
  "demo_nc = \<lparr>nc_reg_map = \<lparr>rc_mapping = [(rax, {EntryFresh 0}), (rbx, {EntryFresh 1, Normal 7})], rc_project = demo_project\<rparr>,
     nc_points_to = \<lparr>pt_pointer_state = (), pt_stack_pointer = demo_var ''rsp''\<rparr>,
     nc_subprocedure_locators = \<lparr>pc_stack_pointer = demo_var ''rsp''\<rparr>,
     nc_constant_resolver = \<lparr>gr_global_map = []\<rparr>, nc_weakest_integral_type = tv_new ''int''\<rparr>"

definition demo_cfg :: "((nat, int) cfg_node, (nat, int) cfg_edge) list_graph" where
  "demo_cfg = \<lparr>lg_nodes = [(0, BlkEnd demo_blk demo_sub), (1, BlkStart demo_ret_blk demo_sub)],
     lg_edges = [(0, 0, 1, ExternCallStub demo_call)], lg_next_node = 2, lg_next_edge = 1\<rparr>"

definition demo_gen ::
    "(((nat, int) cfg_node, (nat, int) cfg_edge) list_graph, nat, int, (nat, int) register_context,
      unit points_to_context, procedure_context, nat ghidra_constant_resolver) gen_context" where
  "demo_gen = \<lparr>gc_graph = demo_cfg, gc_node_contexts = (\<lambda>_. Some demo_nc),
     gc_extern_symbols = [(30, demo_extern)], gc_function_filter = None\<rparr>"

lemma demo_names [simp]:
  "show_nat (Suc 0) = ''1''" "show_nat (Suc (Suc 0)) = ''2''" "show_nat 2 = ''2''" "show_nat 4 = ''4''" "show_nat 9 = ''9''" "show_nat 30 = ''30''"
  by code_simp+

lemma demo_no_globals [simp]:
  "gt_get_pointer_variable demo_ops p e c = None"
  by (simp add: default_ops_def pt_get_pointer_variable_def demo_pointers_def)

lemma demo_ops_sel [simp]:
  "gt_to_i128 demo_ops = Some" "gt_bytesize demo_ops e = 8" "gt_bit_length demo_ops n = 8 * n"
  "gt_show_tid demo_ops = show_nat"
  "gt_access demo_ops = rc_access show_nat" "gt_r_apply_def demo_ops = rc_apply_def"
  by (simp_all add: default_ops_def demo_ir_def)

lemma demo_block_ok: "\<forall>d \<in> set (b_defs (t_term demo_blk)). def_ok demo_ops (t_term d)"
  by (simp add: demo_blk_def demo_defs_def address_ok_def convertible_def const_mass_def)

lemma demo_block_runs: "\<exists>C vm'. handle_block_start demo_ops demo_nc demo_blk vman_new = Some (C, vm')"
  by (rule handle_block_returns [OF default_bare demo_block_ok])

section \<open>Witnesses\<close>


lemma demo_rbx_addr:
  assumes "j \<in> {2, 3}"
  shows "fixed_repr demo_ops (context_at demo_ops demo_nc demo_blk j)
      (EBinOp IntAdd (EVar rbx) (EConst 8)) (create_with_path (tv_new ''2_rbx'') [Add 8])"
proof -
  have "fixed_repr demo_ops (context_at demo_ops demo_nc demo_blk j) (EVar rbx) (dtv_new (tv_new ''2_rbx''))"
    by (rule fixed_register)
      (use assms in \<open>auto simp: context_at_def demo_blk_def demo_defs_def rc_regs.access_written rc_regs.access_other
        tid_indexed_by_variable_def numeral_eq_Suc demo_var_def\<close>)
  from fixed_displaced [OF _ _ _ this, of 8 8] show ?thesis
    by (simp add: add_field_label_def dtv_new_def create_with_path_def)
qed


lemma demo_cfg_ok: "lg_ok demo_cfg"
  by (simp add: lg_ok_def demo_cfg_def)

lemma demo_node: "pg_node_weight list_digraph demo_cfg 1 = Some (BlkStart demo_ret_blk demo_sub)"
  by (simp add: list_digraph_def demo_cfg_def del: One_nat_def)

theorem generate_constraints_returns_witness:
  "\<exists>C vm'. generate_constraints demo_ops list_digraph demo_gen vman_new = Some (C, vm')"
proof (rule generate_constraints_returns [OF list_pg.stable_digraph_axioms _ default_bare])
  show "lg_ok (gc_graph demo_gen)" by (simp add: demo_gen_def demo_cfg_ok)
  fix n nd
  assume "pg_node_weight list_digraph (gc_graph demo_gen) n = Some nd"
  then show "node_ok demo_ops list_digraph demo_gen n nd"
    by (auto simp: demo_gen_def demo_cfg_def list_digraph_def demo_sub_def demo_ret_blk_def convertible_def
        edges_directed_def edge_ref_def split: if_splits)
qed

theorem extern_results_unconstrained_witness:
  "pg_edge list_digraph demo_cfg 0 = Some (0, 1, ExternCallStub demo_call)
   \<and> collect_extern_ret_constraints demo_ops list_digraph demo_gen 1 demo_nc vman_new = Some (cs_empty, vman_new)"
proof -
  have n: "pg_node_weight list_digraph (gc_graph demo_gen) 1 = Some (BlkStart demo_ret_blk demo_sub)"
    using demo_node by (simp add: demo_gen_def)
  have ok: "lg_ok (gc_graph demo_gen)" by (simp add: demo_gen_def demo_cfg_ok)
  have "\<exists>C vm'. collect_extern_ret_constraints demo_ops list_digraph demo_gen 1 demo_nc vman_new = Some (C, vm')"
    unfolding extern_returns_exact [OF list_pg.stable_digraph_axioms ok n]
    by (simp add: demo_gen_def demo_cfg_def list_digraph_def edges_directed_def edge_ref_def)
  then obtain C vm' where c: "collect_extern_ret_constraints demo_ops list_digraph demo_gen 1 demo_nc vman_new = Some (C, vm')"
    by blast
  from extern_results_unconstrained [OF list_pg.stable_digraph_axioms ok n c] c
  show ?thesis by (simp add: list_digraph_def demo_cfg_def)
qed

theorem return_values_flow_witness:
  "SubTy (subtype_new (create_with_path (with_tag ''30'' 11) [Out 0]) (dtv_new (tv_new ''9_rax'')))
    \<in> fst (handle_return_actual demo_ops (nc_apply_return_node demo_ops demo_nc demo_call (demo_term 6 (JmpReturn (EVar rbx))))
        demo_blk demo_callee vman_new 0)"
proof -
  let ?T = "demo_ops :: (nat, int, (nat, int) register_context, unit points_to_context, procedure_context,
    nat ghidra_constant_resolver) gen_ops"
  have "SubTy (subtype_new (create_with_path (with_tag (show_nat (t_tid demo_callee)) (t_tid demo_blk)) [Out 0])
        (dtv_new (tid_indexed_by_variable show_nat (t_tid demo_call) (iv_name rax))))
      \<in> fst (handle_return_actual ?T (nc_apply_return_node ?T demo_nc demo_call (demo_term 6 (JmpReturn (EVar rbx))))
          demo_blk demo_callee vman_new 0)"
    by (rule return_values_flow [THEN conjunct2, OF refl])
      (auto simp: demo_nc_def demo_project_def demo_callee_def demo_call_def demo_sub_def get_function_returns_def)
  then show ?thesis
    by (simp add: demo_callee_def [THEN arg_cong [of _ _ t_tid]] demo_blk_def [THEN arg_cong [of _ _ t_tid]]
        demo_call_def [THEN arg_cong [of _ _ t_tid]] tid_indexed_by_variable_def
        demo_var_def [THEN arg_cong [of _ _ iv_name]])
qed

theorem reaching_merge_least_upper_witness:
  "\<exists>m. ibd_merge (list_union_merge term_set_merge) term_set_partial_cmp
        [(rax, {Normal (1::nat)})] [(rax, {ActualRet 2 0}), (rbx, {})] = Some m
    \<and> ibd_le term_set_partial_cmp [(rax, {Normal 1})] m
    \<and> ibd_le term_set_partial_cmp m [(rax, {Normal 1, ActualRet 2 0}), (rbx, {EntryFresh 3})]"
proof -
  have law: "union_merge (list_union_merge term_set_merge) (term_set_merge :: nat term_set \<Rightarrow> _)"
    by (rule ts_merge.union_merge_axioms)
  have "ibd_le term_set_partial_cmp [(rax, {Normal (1::nat)})]
      [(rax, {Normal 1, ActualRet 2 0}), (rbx, {EntryFresh 3})]"
    "ibd_le term_set_partial_cmp [(rax, {ActualRet (2::nat) 0}), (rbx, {})]
      [(rax, {Normal 1, ActualRet 2 0}), (rbx, {EntryFresh 3})]"
    by (auto simp: ibd_le_iff)
  with reaching_merge_least_upper [OF law, of "[(rax, {Normal 1})]" "[(rax, {ActualRet 2 0}), (rbx, {})]"
      "[(rax, {Normal 1, ActualRet 2 0}), (rbx, {EntryFresh 3})]"]
  show ?thesis by blast
qed


theorem entry_definitions_fresh_witness:
  "\<exists>a b s t. fst (entry_values sorted_list_of_set demo_project {0, 1}) 0 = Some a
    \<and> fst (entry_values sorted_list_of_set demo_project {0, 1}) 1 = Some b
    \<and> rc_access show_nat \<lparr>rc_mapping = a, rc_project = demo_project\<rparr> rax = {s}
    \<and> rc_access show_nat \<lparr>rc_mapping = b, rc_project = demo_project\<rparr> rax = {t} \<and> s \<noteq> t"
proof -
  have fin: "finite {0, 1 :: nat}" "finite (pr_register_set demo_project)"
    and mem: "0 \<in> {0, 1 :: nat}" "1 \<in> {0, 1 :: nat}" "rax \<in> pr_register_set demo_project"
    by (simp_all add: demo_project_def)
  from entry_definitions_fresh [OF sorted_enum fin mem(1,3,2,3), of show_nat] show ?thesis by force
qed

theorem apply_psuedo_returns_exact_witness:
  "\<exists>rets. (20, demo_sub\<lparr>t_term := (t_term demo_sub)\<lparr>s_formal_rets := rets\<rparr>\<rparr>)
        \<in> set (p_subs (pr_program (apply_psuedo_returns
             ((\<lambda>_. None)(12 \<mapsto> \<lparr>rc_mapping = [(rax, {ActualRet 9 0}), (rbx, {ActualRet 9 1})],
                             rc_project = demo_project\<rparr>)) demo_project)))
    \<and> set rets = {ArgRegister (EVar rax)}"
proof -
  define rc where "rc = \<lparr>rc_mapping = [(rax, {ActualRet (9::nat) 0}), (rbx, {ActualRet 9 1})],
    rc_project = demo_project\<rparr>"
  define ctxs where "ctxs = (\<lambda>_ :: nat. None)(12 \<mapsto> rc)"
  have rax_less: "rax < rbx"
    by (simp add: less_ir_variable_ext_def variable_key_def demo_var_def)
  have wf: "ctxs b = Some c \<Longrightarrow> sorted_map (rc_mapping c)" for b c
    using rax_less by (auto simp: ctxs_def rc_def sorted_map_def split: if_splits)
  have mem: "(20, demo_sub) \<in> set (p_subs (pr_program demo_project))"
    and dist: "distinct (map (\<lambda>(_, sub). t_tid sub) (p_subs (pr_program demo_project)))"
    by (simp_all add: demo_project_def demo_sub_def demo_callee_def)
  have blk: "deciding_block ctxs demo_sub = Some demo_ret_blk"
    by (simp add: deciding_block_def demo_sub_def blk_returns_def demo_blk_def demo_ret_blk_def demo_call_def ctxs_def)
  have held: "holds_call_result rc (b_defs (t_term demo_ret_blk)) v \<longleftrightarrow> v = rax" for v
    by (auto simp: holds_call_result_def demo_ret_blk_def rc_def is_actual_ret_def)
  have none: "s_formal_rets (t_term demo_sub) = []" and ctx: "ctxs (t_tid demo_ret_blk) = Some rc"
    by (simp_all add: demo_sub_def ctxs_def demo_ret_blk_def)
  have "\<exists>rets. (20, demo_sub\<lparr>t_term := (t_term demo_sub)\<lparr>s_formal_rets := rets\<rparr>\<rparr>)
        \<in> set (p_subs (pr_program (apply_psuedo_returns ctxs demo_project)))
    \<and> (s_formal_rets (t_term demo_sub) \<noteq> [] \<longrightarrow> rets = s_formal_rets (t_term demo_sub))
    \<and> (s_formal_rets (t_term demo_sub) = [] \<longrightarrow>
        (\<forall>a. a \<in> set rets \<longleftrightarrow>
          (\<exists>blk rc v. deciding_block ctxs demo_sub = Some blk \<and> ctxs (t_tid blk) = Some rc
             \<and> a = ArgRegister (EVar v) \<and> holds_call_result rc (b_defs (t_term blk)) v)))"
    by (rule apply_psuedo_returns_exact [OF dist _ mem]) (rule wf)
  then obtain rets where rets: "(20, demo_sub\<lparr>t_term := (t_term demo_sub)\<lparr>s_formal_rets := rets\<rparr>\<rparr>)
        \<in> set (p_subs (pr_program (apply_psuedo_returns ctxs demo_project)))"
    and "\<forall>a. a \<in> set rets \<longleftrightarrow> (\<exists>blk rc v. deciding_block ctxs demo_sub = Some blk \<and> ctxs (t_tid blk) = Some rc
             \<and> a = ArgRegister (EVar v) \<and> holds_call_result rc (b_defs (t_term blk)) v)"
    using none by blast
  then have "set rets = {ArgRegister (EVar rax)}" using blk held ctx by auto
  with rets show ?thesis unfolding ctxs_def rc_def by blast
qed

end
