(* ===== verification/StackDepth.thy ===== *)
theory StackDepth
  imports ConstraintGen
begin

text \<open>
  The stack depth analysis (\<^verbatim>\<open>src/analysis/stack_depth_analysis.rs\<close>): the smallest
  offset of the stack pointer that the pointer inference knows at some definition of a block, for
  every abstract identifier.  What the state says of the stack pointer, an identifier and an offset
  when both are unique, is an argument, and so is the order in which a hash map is walked.
\<close>

section \<open>The analysis\<close>

definition merge_into ::
    "('k set \<Rightarrow> 'k list) \<Rightarrow> ('k \<Rightarrow> int option) \<Rightarrow> ('k \<Rightarrow> int option) \<Rightarrow> 'k \<Rightarrow> int option" where
  "merge_into order into_map from_map =
     foldl (\<lambda>into_map k. case from_map k of
         Some v \<Rightarrow> into_map(k \<mapsto>
           (case into_map k of Some other \<Rightarrow> if other < v then other else v | None \<Rightarrow> v))
       | None \<Rightarrow> into_map) into_map (order (dom from_map))"

definition get_current_stack_depth ::
    "('st \<Rightarrow> ('k \<times> 'iv) option) \<Rightarrow> ('iv \<Rightarrow> int option) \<Rightarrow> 'st \<Rightarrow> ('k \<times> int) option" where
  "get_current_stack_depth unique_stack_target try_to_offset state =
     (case unique_stack_target state of
        Some (stack_id, sp_off) \<Rightarrow> map_option (\<lambda>off. (stack_id, off)) (try_to_offset sp_off)
      | None \<Rightarrow> None)"

definition compute_min_depth_for_blk ::
    "('k set \<Rightarrow> 'k list) \<Rightarrow> ('st \<Rightarrow> ('k \<times> int) option) \<Rightarrow> ('st \<Rightarrow> ('tid, 'bv ir_def) ir_term \<Rightarrow> 'st) \<Rightarrow>
     'st \<Rightarrow> ('tid, ('tid, 'bv) ir_blk) ir_term \<Rightarrow> 'k \<Rightarrow> int option" where
  "compute_min_depth_for_blk order depth state_apply_def start_state blk =
     fold_over_definition_states state_apply_def start_state blk Map.empty
       (\<lambda>_ ctxt inner_state.
          let st = (case depth ctxt of Some (k, v) \<Rightarrow> Map.empty(k \<mapsto> v) | None \<Rightarrow> Map.empty)
          in merge_into order inner_state st)"

definition get_stack_depths ::
    "('k set \<Rightarrow> 'k list) \<Rightarrow> ('st \<Rightarrow> ('k \<times> int) option) \<Rightarrow> ('st \<Rightarrow> ('tid, 'bv ir_def) ir_term \<Rightarrow> 'st) \<Rightarrow>
     ('g, ('tid, 'bv) cfg_node, 'e) petgraph \<Rightarrow> 'g \<Rightarrow> (nat \<Rightarrow> 'st option) \<Rightarrow> 'k \<Rightarrow> int option" where
  "get_stack_depths order depth state_apply_def G g node_contexts =
     foldl (\<lambda>min_stack_depth nd_idx. case node_contexts nd_idx of
         Some nd_ctx \<Rightarrow>
           (case pg_node_weight G g nd_idx of
              Some (BlkStart blk _) \<Rightarrow>
                (let new_offsets = compute_min_depth_for_blk order depth state_apply_def nd_ctx blk
                 in merge_into order min_stack_depth new_offsets)
            | _ \<Rightarrow> min_stack_depth)
       | None \<Rightarrow> min_stack_depth) Map.empty (pg_node_indices G g)"

section \<open>Merging takes the minimum\<close>

fun opt_min :: "int option \<Rightarrow> int option \<Rightarrow> int option" where
  "opt_min None y = y"
| "opt_min x None = x"
| "opt_min (Some x) (Some y) = Some (min x y)"

lemma merge_into_exact:
  assumes "is_enum order" "finite (dom from_map)"
  shows "merge_into order into_map from_map k = opt_min (into_map k) (from_map k)"
proof -
  define f where "f = (\<lambda>into_map k. case from_map k of
         Some v \<Rightarrow> into_map(k \<mapsto>
           (case into_map k of Some other \<Rightarrow> if other < v then other else v | None \<Rightarrow> v))
       | None \<Rightarrow> into_map)"
  have "foldl f m ks k = (if k \<in> set ks then opt_min (m k) (from_map k) else m k)"
    if "distinct ks" "set ks \<subseteq> dom from_map" for ks m
    using that
  proof (induction ks arbitrary: m)
    case (Cons j ks)
    from Cons.prems(2) obtain v where "from_map j = Some v" by auto
    then have "f m j k = (if k = j then opt_min (m k) (from_map k) else m k)"
      by (cases "m j") (auto simp: f_def min_def)
    with Cons show ?case by auto
  qed simp
  from this [OF is_enumD(2) [OF assms]] is_enumD(1) [OF assms]
  have "foldl f into_map (order (dom from_map)) k =
      (if k \<in> dom from_map then opt_min (into_map k) (from_map k) else into_map k)" by simp
  then show ?thesis
    unfolding merge_into_def f_def [symmetric]
    by (cases "from_map k"; cases "into_map k") auto
qed

text \<open>The depths a block visits, one for every definition, in the state before it.\<close>

definition block_states ::
    "('st \<Rightarrow> ('tid, 'bv ir_def) ir_term \<Rightarrow> 'st) \<Rightarrow> 'st \<Rightarrow> ('tid, 'bv ir_def) ir_term list \<Rightarrow> 'st list" where
  "block_states step st ds = map (\<lambda>i. foldl step st (take i ds)) [0..<length ds]"

definition is_min_of :: "int set \<Rightarrow> int option \<Rightarrow> bool" where
  "is_min_of S m \<longleftrightarrow> (case m of None \<Rightarrow> S = {} | Some x \<Rightarrow> x \<in> S \<and> (\<forall>y \<in> S. x \<le> y))"

lemma is_min_of_union: "is_min_of S a \<Longrightarrow> is_min_of R b \<Longrightarrow> is_min_of (S \<union> R) (opt_min a b)"
  by (cases a; cases b) (auto simp: is_min_of_def min_def intro: order_trans)

definition depths_of :: "('st \<Rightarrow> ('k \<times> int) option) \<Rightarrow> 'st set \<Rightarrow> 'k \<Rightarrow> int set" where
  "depths_of depth S k = {v. \<exists>s \<in> S. depth s = Some (k, v)}"

lemma block_min:
  fixes step :: "'st \<Rightarrow> ('tid, 'bv ir_def) ir_term \<Rightarrow> 'st"
  assumes "is_enum order"
  shows "is_min_of (depths_of depth (set (block_states step st (b_defs (t_term blk)))) k)
      (compute_min_depth_for_blk order depth step st blk k)
    \<and> finite (dom (compute_min_depth_for_blk order depth step st blk))"
proof -
  define f where "f = (\<lambda>(inner_state, new_ctxt) (df :: ('tid, 'bv ir_def) ir_term).
         let next_inner = (let s = (case depth new_ctxt of Some (k, v) \<Rightarrow> Map.empty(k \<mapsto> v) | None \<Rightarrow> Map.empty)
              in merge_into order inner_state s);
             next_ctxt = step new_ctxt df
         in (next_inner, next_ctxt))"
  have run: "snd (foldl f (m, s) ds) = foldl step s ds" for m s ds
    by (induction ds arbitrary: m s) (simp_all add: f_def Let_def)
  have single: "merge_into order m (case depth s of Some (k, v) \<Rightarrow> Map.empty(k \<mapsto> v) | None \<Rightarrow> Map.empty) j =
      opt_min (m j) (case depth s of Some (k, v) \<Rightarrow> if j = k then Some v else None | None \<Rightarrow> None)" for m s j
    by (subst merge_into_exact [OF assms]) (auto split: option.split)
  have "is_min_of (depths_of depth (set (block_states step st ds)) k) (fst (foldl f (Map.empty, st) ds) k)
      \<and> dom (fst (foldl f (Map.empty, st) ds)) \<subseteq> {k. \<exists>s \<in> set (block_states step st ds). \<exists>v. depth s = Some (k, v)}" for ds
  proof (induction ds rule: rev_induct)
    case Nil
    then show ?case by (simp add: block_states_def depths_of_def is_min_of_def)
  next
    case (snoc d ds)
    let ?s = "foldl step st ds" and ?m = "fst (foldl f (Map.empty, st) ds)"
    have st: "set (block_states step st (ds @ [d])) = insert ?s (set (block_states step st ds))"
      by (auto simp: block_states_def)
    have fst: "fst (foldl f (Map.empty, st) (ds @ [d])) j =
        opt_min (?m j) (case depth ?s of Some (k, v) \<Rightarrow> if j = k then Some v else None | None \<Rightarrow> None)" for j
      using run [of Map.empty st ds] single [of ?m ?s j]
      by (cases "foldl f (Map.empty, st) ds") (simp add: f_def Let_def)
    have one: "is_min_of {v. depth ?s = Some (k, v)}
        (case depth ?s of Some (j, v) \<Rightarrow> if k = j then Some v else None | None \<Rightarrow> None)"
      by (auto simp: is_min_of_def split: option.split)
    have "depths_of depth (insert ?s (set (block_states step st ds))) k =
        depths_of depth (set (block_states step st ds)) k \<union> {v. depth ?s = Some (k, v)}"
      by (auto simp: depths_of_def)
    with is_min_of_union [OF conjunct1 [OF snoc.IH] one]
    have "is_min_of (depths_of depth (set (block_states step st (ds @ [d]))) k) (fst (foldl f (Map.empty, st) (ds @ [d])) k)"
      unfolding st fst by simp
    moreover have "dom (fst (foldl f (Map.empty, st) (ds @ [d])))
        \<subseteq> {k. \<exists>s \<in> set (block_states step st (ds @ [d])). \<exists>v. depth s = Some (k, v)}"
    proof
      fix j assume "j \<in> dom (fst (foldl f (Map.empty, st) (ds @ [d])))"
      then have "?m j \<noteq> None \<or> (\<exists>v. depth ?s = Some (j, v))"
        unfolding dom_def fst by (cases "?m j") (auto split: option.splits if_splits)
      then show "j \<in> {k. \<exists>s \<in> set (block_states step st (ds @ [d])). \<exists>v. depth s = Some (k, v)}"
        using conjunct2 [OF snoc.IH] unfolding st by blast
    qed
    ultimately show ?case ..
  qed
  moreover have "finite {k. \<exists>s \<in> set xs. \<exists>v. depth s = Some (k, v)}" for xs
  proof -
    have "{k. \<exists>s \<in> set xs. \<exists>v. depth s = Some (k, v)} \<subseteq> (\<lambda>s. fst (the (depth s))) ` set xs" by force
    then show ?thesis by (rule finite_subset) simp
  qed
  ultimately show ?thesis
    unfolding compute_min_depth_for_blk_def fold_over_definition_states_def f_def
    by (meson finite_subset)
qed

section \<open>The whole program\<close>

definition visited_states ::
    "('st \<Rightarrow> ('tid, 'bv ir_def) ir_term \<Rightarrow> 'st) \<Rightarrow> ('g, ('tid, 'bv) cfg_node, 'e) petgraph \<Rightarrow> 'g \<Rightarrow>
     (nat \<Rightarrow> 'st option) \<Rightarrow> 'st set" where
  "visited_states step G g ctxs =
     (\<Union>n \<in> set (pg_node_indices G g). case (ctxs n, pg_node_weight G g n) of
        (Some st, Some (BlkStart blk _)) \<Rightarrow> set (block_states step st (b_defs (t_term blk)))
      | _ \<Rightarrow> {})"

text \<open>C33.
  The stack depths are minima: for an abstract identifier the result is the smallest offset of the
  stack pointer that is known in a state before a definition of a block with a context, and the
  identifier has no entry exactly when no such offset is known.  The order of the hash maps does
  not matter.\<close>
theorem stack_depths_minimal:
  assumes "is_enum order"
  shows "is_min_of (depths_of depth (visited_states step G g ctxs) k)
    (get_stack_depths order depth step G g ctxs k)"
proof -
  define f where "f = (\<lambda>min_stack_depth nd_idx. case ctxs nd_idx of
         Some nd_ctx \<Rightarrow>
           (case pg_node_weight G g nd_idx of
              Some (BlkStart blk _) \<Rightarrow>
                (let new_offsets = compute_min_depth_for_blk order depth step nd_ctx blk
                 in merge_into order min_stack_depth new_offsets)
            | _ \<Rightarrow> min_stack_depth)
       | None \<Rightarrow> min_stack_depth)"
  define S where "S n = (case (ctxs n, pg_node_weight G g n) of
        (Some st, Some (BlkStart blk _)) \<Rightarrow> set (block_states step st (b_defs (t_term blk)))
      | _ \<Rightarrow> {})" for n
  have step: "is_min_of (R \<union> depths_of depth (S n) k) (f m n k)" if "is_min_of R (m k)" for R m n
  proof (cases "\<exists>st blk sub. ctxs n = Some st \<and> pg_node_weight G g n = Some (BlkStart blk sub)")
    case True
    then obtain st blk sub where n: "ctxs n = Some st" "pg_node_weight G g n = Some (BlkStart blk sub)" by blast
    from is_min_of_union [OF that conjunct1 [OF block_min [OF assms, of depth step st blk k]]] n
    show ?thesis
      using merge_into_exact [OF assms conjunct2 [OF block_min [OF assms, of depth step st blk]]]
      by (simp add: S_def f_def Let_def)
  next
    case False
    then have "S n = {}" "f m n = m"
      by (auto simp: S_def f_def split: option.splits cfg_node.splits)
    with that show ?thesis by (simp add: depths_of_def)
  qed
  have "is_min_of (R \<union> (\<Union>n \<in> set ns. depths_of depth (S n) k)) (foldl f m ns k)" if "is_min_of R (m k)" for R m ns
    using that
  proof (induction ns arbitrary: R m)
    case (Cons n ns)
    have "is_min_of (R \<union> depths_of depth (S n) k) (f m n k)" by (rule step) (rule Cons.prems)
    then have "is_min_of (R \<union> depths_of depth (S n) k \<union> (\<Union>n \<in> set ns. depths_of depth (S n) k)) (foldl f (f m n) ns k)"
      by (rule Cons.IH)
    then show ?case by (simp add: Un_assoc)
  qed simp
  from this [of "{}" Map.empty "pg_node_indices G g"]
  have "is_min_of (\<Union>n \<in> set (pg_node_indices G g). depths_of depth (S n) k)
      (foldl f Map.empty (pg_node_indices G g) k)" by (simp add: is_min_of_def)
  moreover have "depths_of depth (visited_states step G g ctxs) k =
      (\<Union>n \<in> set (pg_node_indices G g). depths_of depth (S n) k)"
    unfolding visited_states_def S_def [symmetric] by (auto simp: depths_of_def)
  ultimately show ?thesis by (simp add: get_stack_depths_def f_def)
qed

text \<open>A block that pushes twice.\<close>

definition push_blk :: "(nat, (nat, unit) ir_blk) ir_term" where
  "push_blk = \<lparr>t_tid = 1, t_term = \<lparr>b_defs = [\<lparr>t_tid = 2, t_term = DefStore (EConst ()) (EConst ())\<rparr>,
     \<lparr>t_tid = 3, t_term = DefStore (EConst ()) (EConst ())\<rparr>], b_jmps = []\<rparr>\<rparr>"

definition push_sub :: "(nat, (nat, unit) ir_sub) ir_term" where
  "push_sub = \<lparr>t_tid = 4, t_term = \<lparr>s_blocks = [push_blk], s_formal_args = [], s_formal_rets = [],
     s_calling_convention = None\<rparr>\<rparr>"

definition push_cfg :: "((nat, unit) cfg_node, (nat, unit) cfg_edge) list_graph" where
  "push_cfg = \<lparr>lg_nodes = [(0, BlkStart push_blk push_sub)], lg_edges = [], lg_next_node = 1, lg_next_edge = 0\<rparr>"

theorem stack_depths_minimal_witness:
  "get_stack_depths sorted_list_of_set (\<lambda>s. Some (7 :: nat, s)) (\<lambda>s _. s - 8) list_digraph push_cfg [0 \<mapsto> 0] 7
    = Some (- 8)"
proof -
  have states: "visited_states (\<lambda>s _. s - 8) list_digraph push_cfg [0 \<mapsto> 0 :: int] = {0, - 8}"
    by (simp add: visited_states_def list_digraph_def push_cfg_def block_states_def push_blk_def upt_rec)
  have deps: "depths_of (\<lambda>s. Some (7 :: nat, s)) {0, - 8 :: int} 7 = {0, - 8}"
    by (auto simp: depths_of_def)
  have "is_min_of {0, - 8} (get_stack_depths sorted_list_of_set (\<lambda>s. Some (7 :: nat, s)) (\<lambda>s _. s - 8)
      list_digraph push_cfg [0 \<mapsto> 0] 7)"
    using stack_depths_minimal [OF sorted_enum, of "\<lambda>s. Some (7 :: nat, s)" "\<lambda>s _. s - 8" list_digraph push_cfg "[0 \<mapsto> 0]" 7]
    unfolding states deps .
  then show ?thesis by (auto simp: is_min_of_def split: option.splits)
qed

end
