(* ===== verification/CallGraph.thy ===== *)
theory CallGraph
  imports IrTerms Petgraph HashOrder "HOL-Library.Monad_Syntax"
begin

text \<open>
  The call graph of a program (\<^verbatim>\<open>src/analysis/callgraph.rs\<close>): a node for every
  procedure and every external symbol, an edge for every pair of a procedure and one of the
  targets of its direct calls that has a node.
\<close>

section \<open>Construction\<close>

definition get_callees :: "('tid, 'bv) ir_sub \<Rightarrow> 'tid set" where
  "get_callees s =
     set (concat (map (\<lambda>blk. List.map_filter (\<lambda>jmp. case t_term jmp of
         JmpCall target _ \<Rightarrow> Some target
       | _ \<Rightarrow> None) (b_jmps (t_term blk))) (s_blocks s)))"

definition add_tid_node ::
    "('g, 'tid, 'e) petgraph \<Rightarrow> 'tid \<Rightarrow> 'g \<times> ('tid \<Rightarrow> nat option) \<Rightarrow> 'g \<times> ('tid \<Rightarrow> nat option)" where
  "add_tid_node G tid = (\<lambda>(cg, proj).
     let (n, cg) = pg_add_node G tid cg in (cg, proj(tid \<mapsto> n)))"

definition call_graph_nodes ::
    "('g, 'tid, unit) petgraph \<Rightarrow> ('tid, 'bv) program \<Rightarrow> 'g \<times> ('tid \<Rightarrow> nat option)" where
  "call_graph_nodes G prog =
     (let st = fold (\<lambda>x. add_tid_node G (t_tid (snd x))) (p_subs prog) (pg_new G, Map.empty)
      in fold (add_tid_node G) (map fst (p_extern_symbols prog)) st)"

definition add_call_edges ::
    "('tid set \<Rightarrow> 'tid list) \<Rightarrow> ('g, 'tid, unit) petgraph \<Rightarrow> ('tid \<Rightarrow> nat option) \<Rightarrow>
     ('tid, ('tid, 'bv) ir_sub) ir_term \<Rightarrow> 'g \<Rightarrow> 'g option" where
  "add_call_edges order G proj sub cg =
     do { start_nd \<leftarrow> proj (t_tid sub);
          fold_opt (\<lambda>dst cg. case proj dst of
              Some dst_node \<Rightarrow> map_option snd (pg_add_edge G start_nd dst_node () cg)
            | None \<Rightarrow> Some cg) (order (get_callees (t_term sub))) cg }"

definition get_call_graph ::
    "('tid set \<Rightarrow> 'tid list) \<Rightarrow> ('g, 'tid, unit) petgraph \<Rightarrow> ('tid, 'bv) project \<Rightarrow> 'g option" where
  "get_call_graph order G project =
     (let prog = pr_program project;
          (cg, proj) = call_graph_nodes G prog
      in fold_opt (\<lambda>sub. add_call_edges order G proj (snd sub)) (p_subs prog) cg)"

section \<open>Nodes\<close>

definition program_tids :: "('tid, 'bv) program \<Rightarrow> 'tid list" where
  "program_tids prog = map (\<lambda>x. t_tid (snd x)) (p_subs prog) @ map fst (p_extern_symbols prog)"

definition indexes :: "('g, 'tid, 'e) petgraph \<Rightarrow> 'g \<Rightarrow> ('tid \<Rightarrow> nat option) \<Rightarrow> bool" where
  "indexes G g m \<longleftrightarrow> (\<forall>n t. pg_node_weight G g n = Some t \<longleftrightarrow> m t = Some n)"

lemma call_graph_nodes_fold:
  "call_graph_nodes G prog = fold (add_tid_node G) (program_tids prog) (pg_new G, Map.empty)"
  by (simp add: call_graph_nodes_def program_tids_def fold_map comp_def)

context stable_digraph
begin

lemma add_nodes:
  assumes "distinct ts" "ok (fst st)" "indexes G (fst st) (snd st)" "arcs G (fst st) = {}"
    and "set ts \<inter> dom (snd st) = {}"
  shows "ok (fst (fold (add_tid_node G) ts st)) \<and> indexes G (fst (fold (add_tid_node G) ts st)) (snd (fold (add_tid_node G) ts st))
    \<and> arcs G (fst (fold (add_tid_node G) ts st)) = {}
    \<and> dom (snd (fold (add_tid_node G) ts st)) = dom (snd st) \<union> set ts"
  using assms
proof (induction ts arbitrary: st)
  case (Cons t ts)
  obtain g m where st: "st = (g, m)" by (cases st)
  obtain n g' where add: "pg_add_node G t g = (n, g')" by (cases "pg_add_node G t g")
  have laws: "ok g'" "pg_node_weight G g n = None" "pg_node_weight G g' = (pg_node_weight G g)(n \<mapsto> t)"
    "pg_edge G g' = pg_edge G g"
    using add_node_laws [OF _ add] Cons.prems st by auto
  define m' where "m' = m(t \<mapsto> n)"
  have step: "add_tid_node G t (g, m) = (g', m')" by (simp add: add_tid_node_def add m'_def)
  have "m t = None" using Cons.prems(5) st by auto
  moreover have "\<And>u. m u \<noteq> Some n" using laws(2) Cons.prems(3) st by (metis indexes_def fst_conv snd_conv option.distinct(1))
  ultimately have "indexes G g' m'"
    using Cons.prems(3) st laws(3) by (auto simp: indexes_def m'_def)
  moreover have "arcs G g' = {}" using Cons.prems(4) st laws(4) by (simp add: arcs_def)
  moreover have dom: "dom m' = insert t (dom m)" by (auto simp: m'_def)
  ultimately show ?case
    using Cons.IH [of "(g', m')"] Cons.prems laws(1) by (simp add: st step)
qed simp

section \<open>Edges\<close>

lemma add_edges:
  assumes "indexes G g m" "ok g" "m (t_tid sub) = Some a"
  shows "\<exists>g'. fold_opt (\<lambda>dst cg. case m dst of
        Some dst_node \<Rightarrow> map_option snd (pg_add_edge G a dst_node e cg)
      | None \<Rightarrow> Some cg) ts g = Some g'
    \<and> ok g' \<and> indexes G g' m
    \<and> arcs G g' = arcs G g \<union> {(a, b) | b t. t \<in> set ts \<and> m t = Some b}"
  using assms
proof (induction ts arbitrary: g)
  case (Cons t ts)
  show ?case
  proof (cases "m t")
    case None
    with Cons show ?thesis by fastforce
  next
    case (Some b)
    have "pg_node_weight G g a \<noteq> None" "pg_node_weight G g b \<noteq> None"
      using Cons.prems Some by (auto simp: indexes_def)
    then obtain i g1 where add: "pg_add_edge G a b e g = Some (i, g1)"
      using add_edge_None [OF Cons.prems(2), of a b e] by fastforce
    from add_edge_laws [OF Cons.prems(2) add] have laws: "ok g1" "pg_edge G g i = None"
      "pg_node_weight G g1 = pg_node_weight G g" "pg_edge G g1 = (pg_edge G g)(i \<mapsto> (a, b, e))" by auto
    have "indexes G g1 m" using Cons.prems(1) laws(3) by (simp add: indexes_def)
    from Cons.IH [OF this laws(1) Cons.prems(3)] obtain g' where
      g': "fold_opt (\<lambda>dst cg. case m dst of
        Some dst_node \<Rightarrow> map_option snd (pg_add_edge G a dst_node e cg)
      | None \<Rightarrow> Some cg) ts g1 = Some g'" "ok g'" "indexes G g' m"
      "arcs G g' = arcs G g1 \<union> {(a, b) | b t. t \<in> set ts \<and> m t = Some b}"
      by blast
    have "arcs G g1 = insert (a, b) (arcs G g)"
      using weighted_arcs_add [OF Cons.prems(2) add] by (auto simp: arcs_weighted)
    with g' Some add show ?thesis by auto
  qed
qed auto

end

text \<open>The edges added for a procedure, over the index of the nodes.\<close>

definition calls_of :: "('tid \<Rightarrow> nat option) \<Rightarrow> ('tid, ('tid, 'bv) ir_sub) ir_term \<Rightarrow> (nat \<times> nat) set" where
  "calls_of m x = {(a, b). m (t_tid x) = Some a \<and> (\<exists>t \<in> get_callees (t_term x). m t = Some b)}"

lemma add_call_edges_exact:
  assumes G: "stable_digraph G ok" and order: "is_enum order"
    and "m (t_tid sub) \<noteq> None" "ok g" "indexes G g m"
  shows "\<exists>g'. add_call_edges order G m sub g = Some g' \<and> ok g' \<and> indexes G g' m
    \<and> arcs G g' = arcs G g \<union> calls_of m sub"
proof -
  obtain a where a: "m (t_tid sub) = Some a" using assms(3) by auto
  have fin: "finite (get_callees (t_term sub))" by (simp add: get_callees_def)
  have "{(a, b) | b t. t \<in> get_callees (t_term sub) \<and> m t = Some b} = calls_of m sub"
    using a by (auto simp: calls_of_def)
  with stable_digraph.add_edges [OF G assms(5,4) a, of "()" "order (get_callees (t_term sub))"] a
  show ?thesis by (simp add: add_call_edges_def is_enumD(1) [OF order fin])
qed

lemma add_all_call_edges:
  assumes "stable_digraph G ok" "is_enum order"
    and "\<forall>x \<in> set xs. m (t_tid (snd x)) \<noteq> None" "ok g" "indexes G g m"
  shows "\<exists>g'. fold_opt (\<lambda>sub. add_call_edges order G m (snd sub)) xs g = Some g'
    \<and> ok g' \<and> indexes G g' m \<and> arcs G g' = arcs G g \<union> (\<Union>x \<in> set xs. calls_of m (snd x))"
  using assms(3-)
proof (induction xs arbitrary: g)
  case (Cons x xs)
  from add_call_edges_exact [OF assms(1,2) _ Cons.prems(2,3), of "snd x"] Cons.prems(1)
  obtain g2 where "add_call_edges order G m (snd x) g = Some g2" "ok g2" "indexes G g2 m"
    "arcs G g2 = arcs G g \<union> calls_of m (snd x)" by auto
  with Cons.IH [of g2] Cons.prems(1) show ?case by (auto simp: Un_assoc)
qed simp

text \<open>An index names the ends of an edge, and no other terms have them.\<close>

lemma calls_between:
  assumes "indexes G g m" "arcs G g = (\<Union>x \<in> set xs. calls_of m (snd x))" "dom m = T"
    and "\<forall>x \<in> set xs. m (t_tid (snd x)) \<noteq> None"
  shows "{(t, u). \<exists>a b. (a, b) \<in> arcs G g \<and> pg_node_weight G g a = Some t \<and> pg_node_weight G g b = Some u}
    = {(t_tid (snd x), u) | x u. x \<in> set xs \<and> u \<in> get_callees (t_term (snd x)) \<and> u \<in> T}" (is "?L = ?R")
proof (intro subset_antisym subsetI)
  have w: "pg_node_weight G g n = Some t \<longleftrightarrow> m t = Some n" for n t
    using assms(1) by (simp add: indexes_def)
  fix p assume "p \<in> ?L"
  then obtain t u a b x v where p: "p = (t, u)" and x: "x \<in> set xs" "m (t_tid (snd x)) = Some a"
    "v \<in> get_callees (t_term (snd x))" "m v = Some b" and tu: "m t = Some a" "m u = Some b"
    unfolding w assms(2) calls_of_def by auto
  have "t = t_tid (snd x)" "u = v" using w x tu by (metis option.inject)+
  with p x assms(3) show "p \<in> ?R" by blast
next
  fix p assume "p \<in> ?R"
  then obtain x u where x: "p = (t_tid (snd x), u)" "x \<in> set xs"
    "u \<in> get_callees (t_term (snd x))" "u \<in> T" by blast
  with assms(3,4) obtain a b where ab: "m (t_tid (snd x)) = Some a" "m u = Some b" by blast
  with x have "(a, b) \<in> arcs G g" unfolding assms(2) by (auto simp: calls_of_def)
  with x ab assms(1) show "p \<in> ?L" unfolding indexes_def by blast
qed

section \<open>The graph built\<close>

text \<open>C32.
  Building the call graph never panics and the graph is exactly the calls of the program: its
  nodes are the procedures and the external symbols, each once, and there is an edge from the
  node of a procedure to the node of every target of its direct calls that is one of them.\<close>
theorem call_graph_exact:
  fixes project :: "('tid, 'bv) project"
  assumes G: "stable_digraph G ok" and order: "is_enum order"
    and dist: "distinct (program_tids (pr_program project))"
  shows "\<exists>g. get_call_graph order G project = Some g
    \<and> {t. \<exists>n. pg_node_weight G g n = Some t} = set (program_tids (pr_program project))
    \<and> (\<forall>n m t. pg_node_weight G g n = Some t \<longrightarrow> pg_node_weight G g m = Some t \<longrightarrow> n = m)
    \<and> {(t, u). \<exists>a b. (a, b) \<in> arcs G g \<and> pg_node_weight G g a = Some t \<and> pg_node_weight G g b = Some u}
      = {(t_tid (snd x), u) | x u. x \<in> set (p_subs (pr_program project))
           \<and> u \<in> get_callees (t_term (snd x)) \<and> u \<in> set (program_tids (pr_program project))}"
proof -
  let ?prog = "pr_program project"
  obtain g0 m where nodes: "call_graph_nodes G ?prog = (g0, m)" by (cases "call_graph_nodes G ?prog")
  have start: "ok (pg_new G)" "indexes G (pg_new G) Map.empty" "arcs G (pg_new G) = {}"
    using stable_digraph.new_graph [OF G] by (auto simp: indexes_def arcs_def)
  have g0: "ok g0" "indexes G g0 m" "arcs G g0 = {}" "dom m = set (program_tids ?prog)"
    using stable_digraph.add_nodes [OF G dist, of "(pg_new G, Map.empty)"] start nodes
    by (simp_all add: call_graph_nodes_fold)
  have subs: "\<forall>x \<in> set (p_subs ?prog). m (t_tid (snd x)) \<noteq> None"
    using g0(4) by (auto simp: program_tids_def dom_def)
  from add_all_call_edges [OF G order this g0(1,2)] obtain g where g: "get_call_graph order G project = Some g"
    "indexes G g m" "arcs G g = (\<Union>x \<in> set (p_subs ?prog). calls_of m (snd x))"
    using nodes g0(3) by (auto simp: get_call_graph_def Let_def)
  have w: "pg_node_weight G g n = Some t \<longleftrightarrow> m t = Some n" for n t
    using g(2) by (simp add: indexes_def)
  have "{t. \<exists>n. pg_node_weight G g n = Some t} = set (program_tids ?prog)"
    unfolding w g0(4) [symmetric] by auto
  with g(1) w calls_between [OF g(2,3) g0(4) subs] show ?thesis by auto
qed

text \<open>The procedure 1 calls the procedure 2, an external symbol 3 and an unknown target.\<close>

definition demo_calls :: "nat \<Rightarrow> nat list \<Rightarrow> (nat, (nat, unit) ir_sub) ir_term" where
  "demo_calls n ts =
     \<lparr>t_tid = n, t_term = \<lparr>s_blocks = [\<lparr>t_tid = 10, t_term = \<lparr>b_defs = [],
        b_jmps = map (\<lambda>t. \<lparr>t_tid = 20, t_term = JmpCall t None\<rparr>) ts\<rparr>\<rparr>],
      s_formal_args = [], s_formal_rets = [], s_calling_convention = None\<rparr>\<rparr>"

definition demo_call_project :: "(nat, unit) project" where
  "demo_call_project =
     \<lparr>pr_program = \<lparr>p_subs = [(1, demo_calls 1 [2, 3, 7]), (2, demo_calls 2 [])],
        p_extern_symbols = [(3, \<lparr>x_parameters = [], x_return_values = []\<rparr>)], p_global_variables = []\<rparr>,
      pr_register_set = {}, pr_callee_saved = (\<lambda>_. None),
      pr_stack_pointer = \<lparr>iv_name = ''rsp'', iv_size = 8, iv_is_temp = False\<rparr>\<rparr>"

theorem call_graph_exact_witness:
  "\<exists>g. get_call_graph sorted_list_of_set list_digraph demo_call_project = Some g
    \<and> {(t, u). \<exists>a b. (a, b) \<in> arcs list_digraph g \<and> pg_node_weight list_digraph g a = Some t
        \<and> pg_node_weight list_digraph g b = Some u} = {(1, 2), (1, 3)}"
proof -
  have tids: "program_tids (pr_program demo_call_project) = [1, 2, 3]"
    by (simp add: program_tids_def demo_call_project_def demo_calls_def)
  have subs: "set (p_subs (pr_program demo_call_project)) = {(1, demo_calls 1 [2, 3, 7]), (2, demo_calls 2 [])}"
    by (simp add: demo_call_project_def)
  have callees: "get_callees (t_term (demo_calls n ts)) = set ts" "t_tid (demo_calls n ts) = n" for n ts
  proof -
    have "List.map_filter (\<lambda>jmp. case t_term jmp of JmpCall target _ \<Rightarrow> Some target | _ \<Rightarrow> None)
        (map (\<lambda>t. \<lparr>t_tid = 20 :: nat, t_term = JmpCall t None :: (nat, unit) ir_jmp\<rparr>) ts) = ts"
      by (induction ts) (simp_all add: map_filter_simps)
    then show "get_callees (t_term (demo_calls n ts)) = set ts" "t_tid (demo_calls n ts) = n"
      by (simp_all add: get_callees_def demo_calls_def)
  qed
  have "{(t_tid (snd x), u) | x u. x \<in> set (p_subs (pr_program demo_call_project))
      \<and> u \<in> get_callees (t_term (snd x)) \<and> u \<in> {1, 2, 3}} = {(1, 2), (1, 3)}"
    unfolding subs by (auto simp: callees conj_disj_distribL conj_disj_distribR ex_disj_distrib)
  with call_graph_exact [OF list_pg.stable_digraph_axioms sorted_enum, of demo_call_project] tids
  show ?thesis by auto
qed

end
