(* ===== verification/InputParsing.thy ===== *)
theory InputParsing
  imports ConstraintSets TypeLattice Petgraph "HOL-Library.Word"
begin

text \<open>
  Reading the inputs of a job (\<^verbatim>\<open>src/inference_job/mod.rs\<close>): collections of protobuf
  messages, each behind its length as a big-endian 32-bit word, the additional constraints grouped
  by the procedure they belong to, the set of interesting terms and the type lattice.  A reader is
  the bytes that remain and whether it fails, instead of ending, after them; the decoding of one
  message is generated code, an argument.
\<close>

section \<open>Framed messages\<close>

record reader =
  rd_bytes :: "8 word list"
  rd_fails :: bool

datatype read_u32_result = ReadEof | ReadErr | ReadOk nat reader

fun be_value :: "8 word list \<Rightarrow> nat" where
  "be_value [] = 0"
| "be_value (b # bs) = unat b * 256 ^ length bs + be_value bs"

definition read_u32_be :: "reader \<Rightarrow> read_u32_result" where
  "read_u32_be r =
     (if length (rd_bytes r) < 4 then (if rd_fails r then ReadErr else ReadEof)
      else ReadOk (be_value (take 4 (rd_bytes r))) (r\<lparr>rd_bytes := drop 4 (rd_bytes r)\<rparr>))"

definition read_exact :: "nat \<Rightarrow> reader \<Rightarrow> string + 8 word list \<times> reader" where
  "read_exact sz r =
     (if length (rd_bytes r) < sz then Inl ''read_exact''
      else Inr (take sz (rd_bytes r), r\<lparr>rd_bytes := drop sz (rd_bytes r)\<rparr>))"

lemma read_shorter:
  "read_u32_be r = ReadOk sz r1 \<Longrightarrow> read_exact sz r1 = Inr (buf, r2) \<Longrightarrow>
   length (rd_bytes r2) < length (rd_bytes r)"
  by (auto simp: read_u32_be_def read_exact_def split: if_splits)

text \<open>The loop, with the messages read so far.\<close>

function parse_messages ::
    "(8 word list \<Rightarrow> 'm option) \<Rightarrow> reader \<Rightarrow> 'm list \<Rightarrow> string + 'm list" where
  "parse_messages decode r acc =
     (case read_u32_be r of
        ReadEof \<Rightarrow> Inr acc
      | ReadErr \<Rightarrow> Inl ''read_u32''
      | ReadOk sz r1 \<Rightarrow>
          (case read_exact sz r1 of
             Inl e \<Rightarrow> Inl e
           | Inr (buf, r2) \<Rightarrow>
               (case decode buf of
                  None \<Rightarrow> Inl ''Decoding error for type T''
                | Some res \<Rightarrow> parse_messages decode r2 (acc @ [res]))))"
  by pat_completeness auto

termination
  by (relation "measure (\<lambda>(_, r, _). length (rd_bytes r))") (auto dest: read_shorter)

declare parse_messages.simps [simp del]

definition parse_collection_from_file ::
    "(8 word list \<Rightarrow> 'm option) \<Rightarrow> reader \<Rightarrow> string + 'm list" where
  "parse_collection_from_file decode r = parse_messages decode r []"

definition try_from_collection ::
    "(reader \<Rightarrow> string + 'v list) \<Rightarrow> ('v \<Rightarrow> string + 'r) \<Rightarrow> reader \<Rightarrow> string + 'r list" where
  "try_from_collection parse_collection try_from rdr =
     (case parse_collection rdr of Inl e \<Rightarrow> Inl e | Inr coll \<Rightarrow> traverse_res try_from coll)"

definition protobuf_subtype_constraints ::
    "(8 word list \<Rightarrow> pb_subtyping_constraint option) \<Rightarrow> (32 word \<Rightarrow> pb_pointer option) \<Rightarrow> reader \<Rightarrow>
     string + 'tid subtype_constraint list" where
  "protobuf_subtype_constraints decode from_i32 =
     try_from_collection (parse_collection_from_file decode) (subtype_try_from from_i32)"

definition protobuf_tids ::
    "(8 word list \<Rightarrow> pb_tid option) \<Rightarrow> (string \<Rightarrow> string \<Rightarrow> 'tid) \<Rightarrow> reader \<Rightarrow> string + 'tid list" where
  "protobuf_tids decode tid_create rdr =
     (case parse_collection_from_file decode rdr of
        Inl e \<Rightarrow> Inl e
      | Inr pb \<Rightarrow> Inr (map (\<lambda>x. tid_create (pb_tid_name x) (pb_tid_address x)) pb))"

definition protobuf_additional_constraints ::
    "(8 word list \<Rightarrow> pb_additional_constraint option) \<Rightarrow> (32 word \<Rightarrow> pb_pointer option) \<Rightarrow>
     (string \<Rightarrow> string \<Rightarrow> 'tid) \<Rightarrow> reader \<Rightarrow> string + 'tid additional_constraint list" where
  "protobuf_additional_constraints decode from_i32 tid_create =
     try_from_collection (parse_collection_from_file decode) (additional_try_from from_i32 tid_create)"

section \<open>The inputs of a job\<close>

text \<open>Opening a file is an argument, \<^const>\<open>None\<close> when it fails.\<close>

definition group_constraint ::
    "('tid \<Rightarrow> 'tid constraint_set option) \<Rightarrow> 'tid additional_constraint \<Rightarrow> 'tid \<Rightarrow> 'tid constraint_set option" where
  "group_constraint acc add_cons =
     (let k = associated_variable add_cons;
          entry_val = (case acc k of Some cs \<Rightarrow> cs | None \<Rightarrow> cs_empty)
      in acc(k \<mapsto> cs_insert (SubTy (extra_constraint add_cons)) entry_val))"

definition parse_additional_constraints ::
    "('r \<Rightarrow> string + 'tid additional_constraint list) \<Rightarrow> 'r option \<Rightarrow>
     string + ('tid \<Rightarrow> 'tid constraint_set option)" where
  "parse_additional_constraints parse_collection file =
     (case file of
        None \<Rightarrow> Inl ''additional constraints''
      | Some constraint_file \<Rightarrow>
          (case parse_collection constraint_file of
             Inl e \<Rightarrow> Inl e
           | Inr constraints \<Rightarrow> Inr (foldl group_constraint Map.empty constraints)))"

definition parse_tid_set ::
    "('r \<Rightarrow> string + 'tid list) \<Rightarrow> 'r option \<Rightarrow> string + 'tid set" where
  "parse_tid_set parse_collection file =
     (case file of
        None \<Rightarrow> Inl ''parsing interesting tids''
      | Some constraint_file \<Rightarrow> map_sum (\<lambda>e. e) set (parse_collection constraint_file))"

definition parse_lattice_json ::
    "(lattice_definition \<Rightarrow> enumerated_named_lattice option) \<Rightarrow> (string + lattice_definition) \<Rightarrow>
     lattice_definition list \<Rightarrow> (string + enumerated_named_lattice \<times> 'tid type_variable) option" where
  "parse_lattice_json generate parsed additional_lattices =
     (case parsed of
        Inl e \<Rightarrow> Some (Inl e)
      | Inr lattice_def \<Rightarrow>
          (case foldl (\<lambda>acc lat. case acc of Inl e \<Rightarrow> Inl e | Inr d \<Rightarrow> merge_with_other d lat)
                  (Inr lattice_def) additional_lattices of
             Inl e \<Rightarrow> Some (Inl e)
           | Inr merged \<Rightarrow>
               map_option (\<lambda>named_lattice.
                   Inr (named_lattice, tv_new (get_weakest_integral_type merged)))
                 (generate merged)))"

section \<open>What the framing accepts\<close>

text \<open>The framing of a message: its length in four bytes, the most significant one first.\<close>

definition be_bytes :: "nat \<Rightarrow> 8 word list" where
  "be_bytes n = [word_of_nat (n div 256 ^ 3), word_of_nat (n div 256 ^ 2), word_of_nat (n div 256), word_of_nat n]"

definition frame :: "8 word list \<Rightarrow> 8 word list" where
  "frame msg = be_bytes (length msg) @ msg"

definition framed :: "8 word list list \<Rightarrow> 8 word list" where
  "framed msgs = concat (map frame msgs)"

lemma be_split:
  fixes n :: nat
  shows "n = p * 256 + a \<Longrightarrow> p = r * 256 + b \<Longrightarrow> r = q * 256 + c \<Longrightarrow>
    q * 16777216 + (c * 65536 + (b * 256 + a)) = n"
  by simp

lemma be_value_bytes: "n < 2 ^ 32 \<Longrightarrow> be_value (be_bytes n) = n"
proof -
  assume n: "n < 2 ^ 32"
  have u: "unat (word_of_nat k :: 8 word) = k mod 256" for k
    by (simp add: unat_of_nat)
  have "(n div 256 ^ 3) mod 256 = n div 256 ^ 3"
    using n by (simp add: less_mult_imp_div_less)
  moreover have q: "n div 256 ^ 3 = n div 256 div 256 div 256" "n div 256 ^ 2 = n div 256 div 256"
    by (simp_all add: div_mult2_eq [symmetric])
  moreover have "n = n div 256 * 256 + n mod 256"
    "n div 256 = n div 256 div 256 * 256 + n div 256 mod 256"
    "n div 256 div 256 = n div 256 div 256 div 256 * 256 + n div 256 div 256 mod 256"
    by (rule div_mult_mod_eq [symmetric])+
  note be_split [OF this]
  ultimately show ?thesis
    unfolding be_bytes_def be_value.simps u by simp
qed

lemma parse_frame:
  assumes "length msg < 2 ^ 32"
  shows "parse_messages decode \<lparr>rd_bytes = frame msg @ rest, rd_fails = f\<rparr> acc =
    (case decode msg of
       None \<Rightarrow> Inl ''Decoding error for type T''
     | Some m \<Rightarrow> parse_messages decode \<lparr>rd_bytes = rest, rd_fails = f\<rparr> (acc @ [m]))"
proof -
  have len: "length (be_bytes (length msg)) = 4" by (simp add: be_bytes_def)
  have "read_u32_be \<lparr>rd_bytes = frame msg @ rest, rd_fails = f\<rparr> =
      ReadOk (length msg) \<lparr>rd_bytes = msg @ rest, rd_fails = f\<rparr>"
    using be_value_bytes [OF assms] len by (simp add: read_u32_be_def frame_def)
  then show ?thesis
    by (subst parse_messages.simps) (simp add: read_exact_def)
qed

lemma parse_framed:
  "\<forall>m \<in> set msgs. length m < 2 ^ 32 \<Longrightarrow>
   parse_messages decode \<lparr>rd_bytes = framed msgs @ rest, rd_fails = f\<rparr> acc =
     (case traverse decode msgs of
        None \<Rightarrow> Inl ''Decoding error for type T''
      | Some ms \<Rightarrow> parse_messages decode \<lparr>rd_bytes = rest, rd_fails = f\<rparr> (acc @ ms))"
proof (induction msgs arbitrary: acc)
  case (Cons m msgs)
  then show ?case
    by (simp add: framed_def parse_frame split: option.split)
qed (simp add: framed_def)

lemma parse_tail:
  assumes "length rest < 4"
  shows "parse_messages decode \<lparr>rd_bytes = rest, rd_fails = f\<rparr> acc =
    (if f then Inl ''read_u32'' else Inr acc)"
  using assms by (subst parse_messages.simps) (simp add: read_u32_be_def)

text \<open>C39.
  Reading back a collection of framed messages gives the messages, in their order, or the error
  of the first that does not decode.  Up to three further bytes at the end are ignored without an
  error, a failing reader is an error.\<close>
theorem parse_collection_roundtrip:
  assumes "\<forall>m \<in> set msgs. length m < 2 ^ 32" and "length rest < 4"
  shows "parse_collection_from_file decode \<lparr>rd_bytes = framed msgs @ rest, rd_fails = f\<rparr> =
    (case traverse decode msgs of
       None \<Rightarrow> Inl ''Decoding error for type T''
     | Some ms \<Rightarrow> if f then Inl ''read_u32'' else Inr ms)"
  unfolding parse_collection_from_file_def parse_framed [OF assms(1)] parse_tail [OF assms(2)]
  by (simp split: option.split)

theorem parse_collection_roundtrip_witness:
  "parse_collection_from_file (\<lambda>b. if b = [] then None else Some (hd b))
     \<lparr>rd_bytes = [0, 0, 0, 1, 7, 0, 0, 0, 2, 9, 8, 5], rd_fails = False\<rparr> = Inr [7, 9]"
  using parse_collection_roundtrip [of "[[7], [9, 8]]" "[5]" "\<lambda>b. if b = [] then None else Some (hd b)" False]
  by (simp add: framed_def frame_def be_bytes_def)

section \<open>Additional constraints\<close>

lemma additional_fold:
  "foldl group_constraint M cs t =
   (if t \<in> associated_variable ` set cs
    then Some ((case M t of Some S \<Rightarrow> S | None \<Rightarrow> {}) \<union> {SubTy (extra_constraint c) | c. c \<in> set cs \<and> associated_variable c = t})
    else M t)"
proof (induction cs arbitrary: M)
  case (Cons c cs)
  then show ?case
    unfolding foldl.simps Cons.IH
    by (auto simp: group_constraint_def Let_def cs_insert_def cs_empty_def image_iff split: option.splits)
qed simp

text \<open>The additional constraints of a job are grouped by their term: a term has an entry exactly when
  one of the constraints read names it, and its entry is the set of all those constraints.\<close>
theorem additional_constraints_grouped:
  "parse_additional_constraints parse_collection file =
     (case file of
        None \<Rightarrow> Inl ''additional constraints''
      | Some h \<Rightarrow> map_sum (\<lambda>e. e) (\<lambda>cs t.
            if t \<in> associated_variable ` set cs
            then Some {SubTy (extra_constraint c) | c. c \<in> set cs \<and> associated_variable c = t}
            else None) (parse_collection h))"
proof -
  have "foldl group_constraint Map.empty cs =
     (\<lambda>t. if t \<in> associated_variable ` set cs
          then Some {SubTy (extra_constraint c) | c. c \<in> set cs \<and> associated_variable c = t}
          else None)" for cs :: "'a additional_constraint list"
    by (rule ext) (simp add: additional_fold)
  then show ?thesis
    by (simp add: parse_additional_constraints_def split: option.split sum.split)
qed

end
