(* ===== verification/InferenceJob.thy ===== *)
theory InferenceJob
  imports GlobalGraph CTypeMessages CallGraph FixupReturns NodeContexts InputParsing
begin

text \<open>
  The whole inference (\<^verbatim>\<open>src/inference_job/mod.rs\<close>, \<^verbatim>\<open>src/bin/binary_to_types.rs\<close>):
  the job parsed from its inputs, and the chain from the intermediate representation over the
  constraints of the strongly connected components of the call graph and the graph of all types to
  C types.  The record \<open>job_lib\<close> collects the libraries of the stages and the analyses of
  \<^verbatim>\<open>cwe_checker_lib\<close>: the control flow graph of a project, the fixpoint of the reaching
  definitions and the pointer inference.
\<close>

section \<open>Jobs\<close>

record ('tid, 'bv) inference_job =
  job_binary_bytes :: "8 word list"
  job_proj :: "('tid, 'bv) project"
  job_lattice :: enumerated_named_lattice
  job_weakest_integral_type :: "'tid type_variable"
  job_additional_constraints :: "'tid \<Rightarrow> 'tid constraint_set option"
  job_interesting_tids :: "'tid set"
  job_vman :: variable_manager
  job_aggressive_shared_returns :: bool

record ('u, 'gs, 'gf, 'g, 'h, 'd, 'cg, 'c, 'k, 'st, 'dd, 'iv, 'aid, 'tid, 'bv) job_lib =
  jl_scc :: "('u, 'gs, custom_lattice_element, 'gf, 'tid) scc_lib"
  jl_sketch :: "('u, 'g, 'h, 'd, custom_lattice_element, 'cg, 'c, 'tid) sketch_lib"
  jl_lower :: "('g, custom_lattice_element, 'tid, 'bv ir_arg) lower_lib"
  jl_ir :: "'bv ir_lib"
  jl_pointers :: "('bv, 'st, 'dd, 'iv, 'aid) pointer_lib"
  jl_show_tid :: "'tid \<Rightarrow> string"
  jl_cfg_pg :: "('k, ('tid, 'bv) cfg_node, ('tid, 'bv) cfg_edge) petgraph"
  jl_cg_pg :: "('cg, 'tid, unit) petgraph"
  jl_tid_order :: "'tid set \<Rightarrow> 'tid list"
  jl_node_order :: "nat set \<Rightarrow> nat list"
  jl_get_program_cfg :: "('tid, 'bv) project \<Rightarrow> 'k"
  jl_entry_nodes :: "'k \<Rightarrow> 'tid \<Rightarrow> nat option"
  jl_reaching_fixpoint :: "('tid, 'bv) project \<Rightarrow> 'k \<Rightarrow> (nat \<Rightarrow> 'tid dom_val option) \<Rightarrow>
    nat \<Rightarrow> 'tid dom_val node_value option"
  jl_pointer_inference :: "8 word list \<Rightarrow> 'k \<Rightarrow> ('tid, 'bv) project \<Rightarrow> nat \<Rightarrow> 'st node_value option"

definition named_lattice_of :: "enumerated_named_lattice \<Rightarrow> custom_lattice_element named_lattice" where
  "named_lattice_of l = \<lparr>nl_bot = enl_bot_of l, nl_top = enl_top_of l, nl_get_elem = enl_get_elem l\<rparr>"

text \<open>The parts of a job in the order they are parsed; the first failure is the result.\<close>

definition parse_job ::
    "string + 8 word list \<Rightarrow> (8 word list \<Rightarrow> string + ('tid, 'bv) project) \<Rightarrow>
     (string + enumerated_named_lattice \<times> 'tid type_variable) option \<Rightarrow>
     string + ('tid \<Rightarrow> 'tid constraint_set option) \<Rightarrow> string + 'tid set \<Rightarrow> bool \<Rightarrow>
     (string + ('tid, 'bv) inference_job) option" where
  "parse_job parsed_binary parse_project parsed_lattice parsed_constraints parsed_tids aggressive =
     (case parsed_binary of
        Inl e \<Rightarrow> Some (Inl e)
      | Inr bin \<Rightarrow>
          (case parse_project bin of
             Inl e \<Rightarrow> Some (Inl e)
           | Inr proj \<Rightarrow>
               do { lattice_res \<leftarrow> parsed_lattice;
                    (case lattice_res of
                       Inl e \<Rightarrow> Some (Inl e)
                     | Inr (lat, weakest) \<Rightarrow>
                         (case parsed_constraints of
                            Inl e \<Rightarrow> Some (Inl e)
                          | Inr additional \<Rightarrow>
                              (case parsed_tids of
                                 Inl e \<Rightarrow> Some (Inl e)
                               | Inr interesting_tids \<Rightarrow>
                                   Some (Inr \<lparr>job_binary_bytes = bin, job_proj = proj, job_lattice = lat,
                                     job_weakest_integral_type = weakest, job_additional_constraints = additional,
                                     job_interesting_tids = interesting_tids, job_vman = vman_new,
                                     job_aggressive_shared_returns = aggressive\<rparr>)))) }))"

section \<open>The stages\<close>

definition get_lattice_elems :: "('tid, 'bv) inference_job \<Rightarrow> 'tid type_variable set" where
  "get_lattice_elems job = tv_new ` dom (get_nds (job_lattice job))"

definition get_rule_context ::
    "('tid \<Rightarrow> string) \<Rightarrow> ('tid, 'bv) inference_job \<Rightarrow> 'tid rule_context" where
  "get_rule_context show_tid job =
     (let only_interestings = tid_to_tvar show_tid ` job_interesting_tids job;
          interesting_and_lattice = only_interestings \<union> get_lattice_elems job
      in rule_context_new interesting_and_lattice)"

definition reaching_definitions_of ::
    "('u, 'gs, 'gf, 'g, 'h, 'd, 'cg, 'c, 'k, 'st, 'dd, 'iv, 'aid, 'tid, 'bv) job_lib \<Rightarrow>
     ('tid, 'bv) project \<Rightarrow> 'k \<Rightarrow> nat \<Rightarrow> ('tid, 'bv) register_context option" where
  "reaching_definitions_of lib proj graph =
     run_reaching_definitions (jl_node_order lib) (jl_reaching_fixpoint lib proj graph) proj
       (jl_entry_nodes lib graph)"

definition get_node_context ::
    "('u, 'gs, 'gf, 'g, 'h, 'd, 'cg, 'c, 'k, 'st, 'dd, 'iv, 'aid, 'tid, 'bv) job_lib \<Rightarrow>
     ('tid, 'bv) inference_job \<Rightarrow> 'k \<Rightarrow>
     nat \<Rightarrow> ('tid, ('tid, 'bv) register_context, 'st points_to_context, procedure_context,
             'tid ghidra_constant_resolver) node_context option" where
  "get_node_context lib job graph =
     (let proj = job_proj job; nodes = pg_node_indices (jl_cfg_pg lib) graph
      in create_default_context (reaching_definitions_of lib proj graph)
           (run_points_to nodes (jl_pointer_inference lib (job_binary_bytes job) graph proj)
             (pr_stack_pointer proj))
           proj nodes (job_weakest_integral_type job))"

text \<open>Shared returns are recovered from the contexts of the nodes that start a block.\<close>

definition reaching_defs_start_of_block ::
    "('u, 'gs, 'gf, 'g, 'h, 'd, 'cg, 'c, 'k, 'st, 'dd, 'iv, 'aid, 'tid, 'bv) job_lib \<Rightarrow> 'k \<Rightarrow>
     (nat \<Rightarrow> ('tid, 'bv) register_context option) \<Rightarrow> 'tid \<Rightarrow> ('tid, 'bv) register_context option" where
  "reaching_defs_start_of_block lib graph reg_context =
     foldl (\<lambda>m k. case (pg_node_weight (jl_cfg_pg lib) graph k, reg_context k) of
         (Some (BlkStart blk _), Some v) \<Rightarrow> m(t_tid blk \<mapsto> v)
       | _ \<Rightarrow> m) Map.empty (jl_node_order lib (dom reg_context))"

definition recover_additional_shared_returns ::
    "('u, 'gs, 'gf, 'g, 'h, 'd, 'cg, 'c, 'k, 'st, 'dd, 'iv, 'aid, 'tid, 'bv) job_lib \<Rightarrow>
     ('tid, 'bv) inference_job \<Rightarrow> ('tid, 'bv) inference_job" where
  "recover_additional_shared_returns lib job =
     (let graph = jl_get_program_cfg lib (job_proj job);
          reg_context = reaching_definitions_of lib (job_proj job) graph;
          ctxs = reaching_defs_start_of_block lib graph reg_context
      in job\<lparr>job_proj := apply_psuedo_returns ctxs (job_proj job)\<rparr>)"

text \<open>The generation of constraints restricted to the procedures of a component.\<close>

definition generate_for ::
    "('u, 'gs, 'gf, 'g, 'h, 'd, 'cg, 'c, 'k, 'st, 'dd, 'iv, 'aid, 'tid, 'bv) job_lib \<Rightarrow>
     ('tid, 'bv) project \<Rightarrow> 'k \<Rightarrow>
     (nat \<Rightarrow> ('tid, ('tid, 'bv) register_context, 'st points_to_context, procedure_context,
             'tid ghidra_constant_resolver) node_context option) \<Rightarrow>
     'tid set \<Rightarrow> variable_manager \<Rightarrow> ('tid constraint_set \<times> variable_manager) option" where
  "generate_for lib proj graph node_ctxt tid_filter vman =
     generate_constraints (default_ops (jl_show_tid lib) (jl_ir lib) (jl_pointers lib)) (jl_cfg_pg lib)
       \<lparr>gc_graph = graph, gc_node_contexts = node_ctxt,
        gc_extern_symbols = p_extern_symbols (pr_program proj), gc_function_filter = Some tid_filter\<rparr> vman"

definition job_simplified_constraints ::
    "('u, 'gs, 'gf, 'g, 'h, 'd, 'cg, 'c, 'k, 'st, 'dd, 'iv, 'aid, 'tid::linorder, 'bv) job_lib \<Rightarrow>
     ('tid, 'bv) inference_job \<Rightarrow> (string + 'tid scc_constraints list) option" where
  "job_simplified_constraints lib job =
     (let proj = job_proj job;
          graph = jl_get_program_cfg lib proj;
          node_ctxt = get_node_context lib job graph;
          sl = jl_sketch lib
      in do { cg \<leftarrow> get_call_graph (jl_tid_order lib) (jl_cg_pg lib) proj;
              weakest \<leftarrow> enl_get_elem (job_lattice job)
                (get_name (jl_show_tid lib) (job_weakest_integral_type job));
              get_simplified_constraints
                ((jl_scc lib)\<lparr>lib_generate := generate_for lib proj graph node_ctxt\<rparr>)
                (sl_cg sl) (sl_condensation sl) (sl_toposort sl)
                \<lparr>ctx_cg = cg, ctx_vman = job_vman job,
                 lattice_def = lattice_info_new (named_lattice_of (job_lattice job)) (get_lattice_elems job) weakest,
                 all_interesting_variables = get_rule_context (jl_show_tid lib) job,
                 additional_constraints = job_additional_constraints job\<rparr> })"

definition get_labeled_sketch_graph ::
    "('u, 'gs, 'gf, 'g, 'h, 'd, 'cg, 'c, 'k, 'st, 'dd, 'iv, 'aid, 'tid::linorder, 'bv) job_lib \<Rightarrow>
     ('tid, 'bv) inference_job \<Rightarrow> 'tid scc_constraints list \<Rightarrow>
     (string + ('g, custom_lattice_element lattice_bounds, 'tid) sketch_graph) option" where
  "get_labeled_sketch_graph lib job scc_constraints =
     do { cg \<leftarrow> get_call_graph (jl_tid_order lib) (jl_cg_pg lib) (job_proj job);
          let bldr = sccs_builder_new cg scc_constraints (named_lattice_of (job_lattice job)) (get_lattice_elems job)
          in res_bind (build_sccs (jl_sketch lib) bldr) (build_global_type_graph (jl_sketch lib)) }"

definition get_graph_labeling ::
    "('tid \<Rightarrow> string) \<Rightarrow> ('tid, 'bv) inference_job \<Rightarrow> ('g, 'w, 'tid) sketch_graph \<Rightarrow> 'tid \<Rightarrow> nat option" where
  "get_graph_labeling show_tid job cg =
     (\<lambda>x. if x \<in> job_interesting_tids job
       then (let tvar = tid_to_tvar show_tid x in get_node_index_for_variable cg (dtv_new tvar))
       else None)"

definition get_out_parameter_mapping :: "('tid, 'bv) inference_job \<Rightarrow> 'tid \<Rightarrow> 'bv ir_arg list option" where
  "get_out_parameter_mapping job =
     map_of (rev (map (\<lambda>(k, sub). (k, s_formal_rets (t_term sub))) (p_subs (pr_program (job_proj job)))))"

definition lower_labeled_sketch_graph ::
    "('g, custom_lattice_element, 'tid, 'bv ir_arg) lower_lib \<Rightarrow> ('tid \<Rightarrow> string) \<Rightarrow>
     ('tid, 'bv) inference_job \<Rightarrow> ('g, custom_lattice_element lattice_bounds, 'tid) sketch_graph \<Rightarrow>
     ((nat \<Rightarrow> type_id option) \<times> (type_id \<Rightarrow> ctype option)) option" where
  "lower_labeled_sketch_graph lower show_tid job sg =
     (let ident = lattice_identity (named_lattice_of (job_lattice job))
      in collect_ctypes lower
           (lowering_context_new lower sg (get_graph_labeling show_tid job sg)
             (get_out_parameter_mapping job) ident))"

definition infer_labeled_graph ::
    "('u, 'gs, 'gf, 'g, 'h, 'd, 'cg, 'c, 'k, 'st, 'dd, 'iv, 'aid, 'tid::linorder, 'bv) job_lib \<Rightarrow>
     ('tid, 'bv) inference_job \<Rightarrow>
     (string + ('tid, 'bv) inference_job \<times> ('g, custom_lattice_element lattice_bounds, 'tid) sketch_graph) option" where
  "infer_labeled_graph lib job =
     (let job1 = (if job_aggressive_shared_returns job then recover_additional_shared_returns lib job else job)
      in res_bind (job_simplified_constraints lib job1) (\<lambda>cons.
           res_bind (get_labeled_sketch_graph lib job1 cons) (\<lambda>labeled_graph. Some (Inr (job1, labeled_graph)))))"

definition infer_ctypes ::
    "('u, 'gs, 'gf, 'g, 'h, 'd, 'cg, 'c, 'k, 'st, 'dd, 'iv, 'aid, 'tid::linorder, 'bv) job_lib \<Rightarrow>
     ('tid, 'bv) inference_job \<Rightarrow>
     (string + ('g, custom_lattice_element lattice_bounds, 'tid) sketch_graph
        \<times> (nat \<Rightarrow> type_id option) \<times> (type_id \<Rightarrow> ctype option)) option" where
  "infer_ctypes lib job =
     res_bind (infer_labeled_graph lib job) (\<lambda>(job1, labeled_graph).
       map_option (\<lambda>lowered. Inr (labeled_graph, lowered)) (lower_labeled_sketch_graph (jl_lower lib) (jl_show_tid lib) job1 labeled_graph))"

text \<open>The entries of the output that tell the type of every interesting term (\<open>main\<close>).\<close>

definition type_variable_repr_nodes ::
    "('tid set \<Rightarrow> 'tid list) \<Rightarrow> ('tid \<Rightarrow> nat option) \<Rightarrow> (nat \<Rightarrow> type_id option) \<Rightarrow> ('tid \<times> type_id) list" where
  "type_variable_repr_nodes order labeling node_to_type_id =
     List.map_filter (\<lambda>k. case labeling k of
         Some v \<Rightarrow> map_option (\<lambda>tgt_type_id. (k, tgt_type_id)) (node_to_type_id v)
       | None \<Rightarrow> None) (order (dom labeling))"

section \<open>The types of the interesting terms\<close>

lemma labelled_terms:
  "get_graph_labeling show_tid job sg tid = Some nd \<longleftrightarrow>
     tid \<in> job_interesting_tids job \<and> get_node_index_for_variable sg (dtv_new (tid_to_tvar show_tid tid)) = Some nd"
  by (simp add: get_graph_labeling_def Let_def)

lemma map_filter_keys:
  assumes "distinct ks"
  shows "distinct (map fst (List.map_filter (\<lambda>k. map_option (Pair k) (f k)) ks))"
    and "set (List.map_filter (\<lambda>k. map_option (Pair k) (f k)) ks) = {(k, v). k \<in> set ks \<and> f k = Some v}"
  using assms by (induction ks) (auto simp: List.map_filter_simps split: option.splits)

lemma repr_nodes_alt:
  "type_variable_repr_nodes order labeling types =
     List.map_filter (\<lambda>k. map_option (Pair k) (Option.bind (labeling k) types)) (order (dom labeling))"
  unfolding type_variable_repr_nodes_def
  by (rule arg_cong [where f = "\<lambda>f. List.map_filter f _"]) (auto split: option.splits)

text \<open>
  C25. Lowering the labelled graph of a job succeeds, and the output names a type exactly once for
  exactly those interesting terms whose variable has a node in the graph; every type it names is
  defined.
\<close>

theorem interesting_types_output:
  assumes "stable_digraph (ll_pg lower) ok" "is_peek (ll_peek lower)" "is_drain (ll_drain lower)"
    and "ok (mg_grph (quotient_graph sg))" "is_enum order" "finite (job_interesting_tids job)"
    and "ran (get_node_index_for_variable sg) \<subseteq> {nd. pg_node_weight (ll_pg lower) (mg_grph (quotient_graph sg)) nd \<noteq> None}"
  shows "\<exists>types eph. lower_labeled_sketch_graph lower show_tid job sg = Some (types, eph)
    \<and> distinct (map fst (type_variable_repr_nodes order (get_graph_labeling show_tid job sg) types))
    \<and> fst ` set (type_variable_repr_nodes order (get_graph_labeling show_tid job sg) types)
        = {tid \<in> job_interesting_tids job. get_node_index_for_variable sg (dtv_new (tid_to_tvar show_tid tid)) \<noteq> None}
    \<and> snd ` set (type_variable_repr_nodes order (get_graph_labeling show_tid job sg) types) \<subseteq> dom eph"
proof -
  let ?l = "get_graph_labeling show_tid job sg"
  obtain types eph where run: "lower_labeled_sketch_graph lower show_tid job sg = Some (types, eph)"
    and dom: "dom types = {n. pg_node_weight (ll_pg lower) (mg_grph (quotient_graph sg)) n \<noteq> None}"
    and ran: "ran types \<subseteq> dom eph"
    unfolding lower_labeled_sketch_graph_def Let_def
    using collect_ctypes_exact [OF assms(1,2,3,4), of "?l" "get_out_parameter_mapping job"
        "lattice_identity (named_lattice_of (job_lattice job))"] by blast
  have "dom ?l \<subseteq> job_interesting_tids job" by (auto simp: labelled_terms)
  then have "finite (dom ?l)" using assms(6) by (rule finite_subset)
  note enum = is_enumD [OF assms(5) this]
  have typed: "\<exists>i. types nd = Some i" if "?l tid = Some nd" for tid nd
    using that assms(7) dom by (auto simp: labelled_terms ran_def)
  have "set (type_variable_repr_nodes order ?l types) = {(k, v). k \<in> dom ?l \<and> Option.bind (?l k) types = Some v}"
    unfolding repr_nodes_alt map_filter_keys(2) [OF enum(2)] enum(1) ..
  moreover have "distinct (map fst (type_variable_repr_nodes order ?l types))"
    unfolding repr_nodes_alt by (rule map_filter_keys(1) [OF enum(2)])
  moreover have "fst ` {(k, v). k \<in> dom ?l \<and> Option.bind (?l k) types = Some v} = dom ?l"
    using typed by (force simp: bind_eq_Some_conv image_iff)
  moreover have "dom ?l = {tid \<in> job_interesting_tids job. get_node_index_for_variable sg (dtv_new (tid_to_tvar show_tid tid)) \<noteq> None}"
    by (auto simp: labelled_terms)
  moreover have "snd ` {(k, v). k \<in> dom ?l \<and> Option.bind (?l k) types = Some v} \<subseteq> dom eph"
    using ran by (auto simp: bind_eq_Some_conv ran_def)
  ultimately show ?thesis using run by (metis (no_types, lifting))
qed

text \<open>A job that asks for two terms, of which the graph knows one.\<close>

definition demo_job :: "(nat, unit) inference_job" where
  "demo_job = \<lparr>job_binary_bytes = [], job_proj = demo_call_project, job_lattice = fd_generated,
     job_weakest_integral_type = tv_new ''int'', job_additional_constraints = Map.empty,
     job_interesting_tids = {7, 9}, job_vman = vman_new, job_aggressive_shared_returns = False\<rparr>"

definition demo_lower ::
    "((custom_lattice_element lattice_bounds, field_label) list_graph, custom_lattice_element, nat, unit ir_arg) lower_lib" where
  "demo_lower = \<lparr>ll_pg = list_digraph, ll_elem_name = ce_elem, ll_arg_bits = (\<lambda>_. 32), ll_tord = sorted_list_of_set,
     ll_peek = first_peek, ll_drain = (\<lambda>hp. hp)\<rparr>"

definition demo_show :: "nat \<Rightarrow> string" where
  "demo_show tid = (if tid = 7 then ''f'' else ''g'')"

lemma demo_lower_ok:
  "stable_digraph (ll_pg demo_lower) lg_ok" "is_peek (ll_peek demo_lower)" "is_drain (ll_drain demo_lower)"
  "lg_ok (mg_grph (quotient_graph demo_fun_graph))" "finite (job_interesting_tids demo_job)"
  using first_peek
  by (simp_all add: demo_lower_def demo_job_def list_pg.stable_digraph_axioms is_drain_def)
     (auto simp: demo_fun_graph_def lg_ok_def split: if_splits)

lemma demo_lower_nodes:
  "ran (get_node_index_for_variable demo_fun_graph)
     \<subseteq> {nd. pg_node_weight (ll_pg demo_lower) (mg_grph (quotient_graph demo_fun_graph)) nd \<noteq> None}"
  by (auto simp: ran_def get_node_index_for_variable_def mg_get_node_def demo_fun_graph_def demo_lower_def list_digraph_sel
      split: if_splits)

lemma demo_known:
  "{tid \<in> job_interesting_tids demo_job.
      get_node_index_for_variable demo_fun_graph (dtv_new (tid_to_tvar demo_show tid)) \<noteq> None} = {7}"
  by (auto simp: get_node_index_for_variable_def mg_get_node_def demo_fun_graph_def demo_job_def demo_show_def
      tid_to_tvar_def dtv_new_def create_with_path_def tv_new_def split: if_splits)

theorem interesting_types_output_witness:
  "\<exists>types eph. lower_labeled_sketch_graph demo_lower demo_show demo_job demo_fun_graph = Some (types, eph)
     \<and> fst ` set (type_variable_repr_nodes sorted_list_of_set (get_graph_labeling demo_show demo_job demo_fun_graph) types) = {7}"
  using interesting_types_output [OF demo_lower_ok(1,2,3,4) sorted_enum demo_lower_ok(5) demo_lower_nodes, where show_tid = demo_show]
  unfolding demo_known by blast

end
