(* ===== verification/Spec2Isabelle.thy ===== *)
theory Spec2Isabelle
  imports ConstraintSets GraphSearch DfaOps GraphAlgos SimplifyPath LoopBreakers GlobalGraph CTypeMessages
    ConstraintDemo StackDepth InferenceJob
begin

text \<open>
  Binary type inference: a model of the program under \<^verbatim>\<open>src/\<close> that infers C types for the
  procedures of a binary from its intermediate representation, and the theorems that make it
  correct.

  \<^bold>\<open>The program.\<close>  \<^verbatim>\<open>InferenceJob\<close> (\<^verbatim>\<open>src/inference_job/mod.rs\<close>) parses its inputs and runs a chain
  of stages.  Reaching definitions of registers and a points-to analysis give every node of the
  control flow graph a context (\<^verbatim>\<open>src/analysis/\<close>, \<^verbatim>\<open>src/node_context/\<close>).  Constraint generation walks
  the nodes and emits subtyping constraints between derived type variables
  (\<^verbatim>\<open>src/constraint_generation/mod.rs\<close>, the language in \<^verbatim>\<open>src/constraints.rs\<close>).  The components of the
  call graph are treated bottom-up: the constraints of a component are completed by the signatures
  of its callees and by inferred pointers, and a pushdown automaton is saturated and walked to
  obtain the constraints between interesting variables, the signature of the component
  (\<^verbatim>\<open>src/solver/scc_constraint_generation.rs\<close>, \<^verbatim>\<open>src/solver/constraint_graph.rs\<close>).  From the constraints
  of each component a sketch graph is built, quotiented, labelled by bounds in a user-defined
  lattice and simplified; sketches are copied between callers and callees, aliases are collected,
  and all are put together into one graph (\<^verbatim>\<open>src/solver/type_sketch.rs\<close>, \<^verbatim>\<open>type_lattice.rs\<close>,
  \<^verbatim>\<open>dfa_operations.rs\<close>, \<^verbatim>\<open>src/graph_algos/\<close>).  The nodes of that graph are lowered to C types and written
  as messages (\<^verbatim>\<open>src/lowering/mod.rs\<close>, \<^verbatim>\<open>src/bin/binary_to_types.rs\<close>).
\<close>

text \<open>
  \<^bold>\<open>Theories.\<close>  Shared: \<open>Prelude\<close> (decimal printing, ordered association lists as B-tree maps, folds
  that may fail), \<open>HashOrder\<close> (enumerations of hash sets), \<open>GraphSearch\<close> and \<open>Petgraph\<close> (the contracts
  of the graph library as the locales \<open>graph_search\<close> and \<open>stable_digraph\<close>, with executable list
  graphs that satisfy them), \<open>GraphAlgos\<close> (\<^verbatim>\<open>src/graph_algos/mod.rs\<close>).

  Constraints: \<open>Constraints\<close> and \<open>ConstraintSets\<close> (\<^verbatim>\<open>src/constraints.rs\<close>: variables, labels, variance,
  derived type variables, constraint sets, printing, the decoding of messages), \<open>Subtyping\<close> (the
  judgement of what a constraint set entails, the reference the solver is measured against).

  From the intermediate representation to constraints: \<open>IrTerms\<close> (the terms as the code matches on
  them), \<open>ReachingDefs\<close> (domain, order, merge and transfer functions of
  \<^verbatim>\<open>reaching_definitions.rs\<close>, the register contexts of \<^verbatim>\<open>register_map.rs\<close>), \<open>FixupReturns\<close>, \<open>CallGraph\<close>,
  \<open>StackDepth\<close> (the other analyses), \<open>ConstraintGen\<close> (\<^verbatim>\<open>NodeContext\<close> and \<^verbatim>\<open>Context\<close>: evaluation of
  expressions, assignments, loads, stores, formal and actual parameters, the walk over the nodes),
  \<open>SimplifyPath\<close> (\<^verbatim>\<open>simplify_path\<close>), \<open>NodeContexts\<close> (the default contexts of \<^verbatim>\<open>src/node_context/\<close>),
  \<open>ConstraintFlow\<close>, \<open>ConstraintCalls\<close>, \<open>ConstraintTotal\<close> (what the constraints say, and when the
  generation returns), \<open>ConstraintDemo\<close> (a small program on which these theorems are applied).

  The solver: \<open>FsaTypes\<close>, \<open>FsaRules\<close>, \<open>FsaGraph\<close> (states, rules and the automaton of \<^verbatim>\<open>FSA::new\<close>),
  \<open>Saturation\<close> (\<^verbatim>\<open>get_saturation_edges\<close>), \<open>Mirror\<close> (\<^verbatim>\<open>intersect_with_pop_push\<close>, the walk that reads
  constraints off the automaton), \<open>LoopBreakers\<close> (recursive type variables), \<open>InferPointers\<close> and
  \<open>SccConstraints\<close> (\<^verbatim>\<open>scc_constraint_generation.rs\<close>).

  Sketches: \<open>MappingGraph\<close>, \<open>GraphCopy\<close> (\<^verbatim>\<open>mapping_graph.rs\<close>), \<open>TypeLattice\<close>, \<open>LatticeBounds\<close> (the lattice
  and the labels), \<open>QuotientGroups\<close>, \<open>SketchBuilder\<close> (sketch graphs from constraints), \<open>PointerSimplify\<close>,
  \<open>Sketches\<close>, \<open>DfaOps\<close> (sketches as automata), \<open>SketchCopies\<close>, \<open>SharedSubgraphs\<close>, \<open>PolymorphicSketches\<close>,
  \<open>GlobalGraph\<close> (\<^verbatim>\<open>SCCSketchsBuilder\<close>).

  Output and composition: \<open>FieldSchedule\<close>, \<open>Lowering\<close>, \<open>LoweringMeaning\<close>, \<open>CTypeMessages\<close>
  (\<^verbatim>\<open>src/lowering/mod.rs\<close>), \<open>InputParsing\<close> (length-prefixed messages, constraints, terms, lattices),
  \<open>InferenceJob\<close> (the job, its stages and their composition).
\<close>

text \<open>
  \<^bold>\<open>What the theorems show.\<close>  \<^emph>\<open>Constraints describe the program\<close>: a value assigned to a register, or
  stored to memory and loaded back, is a subtype of the variable of its later use in the
  generated constraints; at calls and returns exactly the actual parameters are related to those of
  the callee; the generation returns for every well-formed control flow graph, with one gap that is
  proved too (the results of external calls get no constraints).  \<^emph>\<open>Analyses\<close>: the merge of the
  reaching definitions is a least upper bound and never hits its assertions, the transfer functions
  are monotone; the call graph, the recovered returns and the stack depths are exactly what their
  definitions promise.  \<^emph>\<open>The solver is sound\<close>: saturation computes the least closed set of edges and
  terminates; every constraint read off the automaton, and every constraint of a simplified
  component, is entailed by the constraints put in; pointer inference ends.  \<^emph>\<open>Sketches\<close>: the quotient
  is the least congruence, the sketch graph has exactly the paths and labels the constraints ask
  for, structural equality decides equality of languages, pointer simplification ends and does what
  it announces, copies simulate their sources, shared parts are found exactly, and the graph of all
  types is built without panic.  \<^emph>\<open>Types\<close>: structures are laid out without overlap in the least number;
  lowering types every node, with references only to smaller identifiers; the type of a node means
  what its edges say; the messages can be read back, and writing them panics exactly when a
  number leaves its 32 bits; the output names the type of exactly the interesting terms in the
  graph.
\<close>

text \<open>
  \<^bold>\<open>Conventions.\<close>  A structure is a record, an enumeration a datatype, with the names of the code
  (shortened or prefixed where HOL has the name).  A panic is \<^const>\<open>None\<close>; a fallible function
  returns a sum, \<^const>\<open>Inl\<close> the error; where both occur the result is an option of a sum.  Mutable
  receivers and \<^verbatim>\<open>&mut\<close> arguments are passed and returned.  Counters of fresh variables are 64-bit
  words; \<^verbatim>\<open>i64\<close> and \<^verbatim>\<open>i128\<close> are integers with the wrap-around of a release build (\<open>wrap_i64\<close>) or the range
  check written out where the code converts; \<^verbatim>\<open>usize\<close> indices are naturals; the message fields are
  32-bit words.  A B-tree map is an association list ordered by its keys, a B-tree set a set read in
  ascending order, a hash map a partial map.  The order in which hash maps and sets are iterated is
  an argument, and the theorems hold for every enumeration (\<open>is_enum\<close>).  Log messages are left
  out, debug dumps too.

  \<^bold>\<open>Loops.\<close>  Structural recursion and \<open>function\<close> with a measure where the code obviously ends.  Loops
  whose end depends on an argument (saturation, the search for equivalent nodes, pointer
  inference and simplification, the loop breakers, the shared subgraphs, the explorations of
  graphs) are \<open>partial_function (option)\<close>, so that running forever is \<^const>\<open>None\<close>, and that they return is a
  theorem.  There is no fuel anywhere.

  \<^bold>\<open>Libraries as arguments.\<close>  Code outside the repository is a record of operations with the laws its
  documentation states: the graphs of \<^verbatim>\<open>petgraph\<close> (locale \<open>stable_digraph\<close>), its depth-first search
  (\<open>graph_search\<close>), its union-find (\<open>union_find\<close>), strongly connected components, condensation and
  topological sort; the heap of the layout (\<open>is_peek\<close>, \<open>is_drain\<close>); the map with the union
  merge of \<^verbatim>\<open>cwe_checker_lib\<close> (\<open>union_merge\<close>).  Each locale is interpreted, the graph and union-find
  contracts on executable lists, on which the witnesses are evaluated.  The other locales are
  interfaces of the program itself, interpreted on its own definitions: \<open>type_lattice\<close> on the lattice
  \<open>generate_lattice\<close> builds, \<open>domain_merge\<close> on \<open>term_set_merge\<close>, \<open>register_mapping\<close> on the
  register contexts, and the environments of the sketch construction that extend them.
\<close>

text \<open>
  \<^bold>\<open>Not modelled.\<close>  The text parsers of constraints and of automaton weights are built from the
  combinators of \<^verbatim>\<open>nom\<close> and used by the tests only.  The fixpoint engine, the pointer inference, the
  control flow graph and the normalisation of the intermediate representation are code of
  \<^verbatim>\<open>cwe_checker_lib\<close>: their results are arguments (\<open>job_lib\<close>, \<open>pointer_lib\<close>, \<open>ir_lib\<close>).  The decoding of
  a single message (\<^verbatim>\<open>prost\<close>), JSON (\<^verbatim>\<open>serde\<close>), files, the command line, logging, the dumps for debugging
  and the tests have no model.
\<close>

end
